(* ===== verification/Prelude.thy ===== *)
theory Prelude
  imports Main "HOL-Library.Word"
begin

unbundle bit_operations_syntax

text \<open>
  Shared vocabulary of the development: the fixed-width integers of \<^verbatim>\<open>common/common_types.h\<close>,
  the kernel's result codes (\<^verbatim>\<open>core/hle/kernel/svc_results.h\<close>), the alignment helpers of
  \<^verbatim>\<open>common/alignment.h\<close> and the generic list facts that several components use.

  Bit patterns (flags, handles, bitmap words) are \<^typ>\<open>'a word\<close> values. Quantities that
  the code adds, subtracts and compares (addresses, sizes, counters) are \<^typ>\<open>nat\<close> or
  \<^typ>\<open>int\<close> values whose wrap-around is written out by the operations below, so that a
  component's invariant shows where the wrap-around cannot happen.
\<close>

section \<open>Lemma collections\<close>

named_theorems machine_arith \<open>evaluation of wrapping arithmetic inside its range\<close>
named_theorems model_defs \<open>definitions that proofs about a component unfold as a group\<close>

section \<open>Fixed-width integers\<close>

type_synonym u8 = "8 word"
type_synonym u16 = "16 word"
type_synonym u32 = "32 word"
type_synonym u64 = "64 word"

text \<open>Unsigned 64-bit arithmetic on \<^typ>\<open>nat\<close>, reduced modulo \<open>2 ^ 64\<close>.\<close>

definition u64_add :: "nat \<Rightarrow> nat \<Rightarrow> nat" where
  "u64_add a b = (a + b) mod 2 ^ 64"

definition u64_sub :: "nat \<Rightarrow> nat \<Rightarrow> nat" where
  "u64_sub a b = (a + (2 ^ 64 - b mod 2 ^ 64)) mod 2 ^ 64"

definition u64_mul :: "nat \<Rightarrow> nat \<Rightarrow> nat" where
  "u64_mul a b = (a * b) mod 2 ^ 64"

lemma u64_add_exact [simp, machine_arith]: "a + b < 2 ^ 64 \<Longrightarrow> u64_add a b = a + b"
  by (simp add: u64_add_def)

lemma u64_sub_exact [simp, machine_arith]:
  assumes "b \<le> a" "a < 2 ^ 64"
  shows "u64_sub a b = a - b"
proof -
  have b: "b mod 2 ^ 64 = b" using assms by simp
  have "a + (2 ^ 64 - b) = (a - b) + 2 ^ 64"
    using assms by simp
  then have "(a + (2 ^ 64 - b)) mod 2 ^ 64 = (a - b) mod 2 ^ 64"
    by (metis mod_add_self2)
  moreover have "(a - b) mod 2 ^ 64 = a - b" using assms by simp
  ultimately show ?thesis
    by (simp only: u64_sub_def b)
qed

lemma u64_mul_exact [simp, machine_arith]: "a * b < 2 ^ 64 \<Longrightarrow> u64_mul a b = a * b"
  by (simp add: u64_mul_def)

lemma u64_range [simp]:
  "u64_add a b < 2 ^ 64" "u64_sub a b < 2 ^ 64" "u64_mul a b < 2 ^ 64"
  by (simp_all add: u64_add_def u64_sub_def u64_mul_def)

text \<open>Signed 64-bit values on \<^typ>\<open>int\<close>; \<open>wrap_s64\<close> is the two's complement reduction.\<close>

definition wrap_s64 :: "int \<Rightarrow> int" where
  "wrap_s64 x = (x + 2 ^ 63) mod 2 ^ 64 - 2 ^ 63"

definition in_s64 :: "int \<Rightarrow> bool" where
  "in_s64 x \<longleftrightarrow> - (2 ^ 63) \<le> x \<and> x < 2 ^ 63"

lemma wrap_s64_exact [simp, machine_arith]: "in_s64 x \<Longrightarrow> wrap_s64 x = x"
  by (simp add: wrap_s64_def in_s64_def)

lemma in_s64_wrap [simp]: "in_s64 (wrap_s64 x)"
proof -
  have "0 \<le> (x + 2 ^ 63) mod 2 ^ 64" "(x + 2 ^ 63) mod 2 ^ 64 < 2 ^ 64"
    by (rule pos_mod_sign, simp, rule pos_mod_bound, simp)
  then show ?thesis
    by (simp add: wrap_s64_def in_s64_def)
qed

text \<open>
  \<^verbatim>\<open>Common::WrappingAdd\<close> detects the overflow of a non-negative addend: the wrapped sum is
  above the first operand exactly when the addend is positive and the sum fits.
\<close>

definition WrappingAdd :: "int \<Rightarrow> int \<Rightarrow> int" where
  "WrappingAdd lhs rhs = wrap_s64 (lhs + rhs)"

lemma wrap_s64_overflow:
  assumes "2 ^ 63 \<le> x" "x < 2 ^ 64"
  shows "wrap_s64 x = x - 2 ^ 64"
proof -
  have "(x + 2 ^ 63) mod 2 ^ 64 = x + 2 ^ 63 - 2 ^ 64"
    using assms by (simp add: mod_pos_geq)
  then show ?thesis by (simp add: wrap_s64_def)
qed

lemma WrappingAdd_gt_iff:
  assumes "in_s64 a" "0 \<le> a" "in_s64 b" "0 \<le> b"
  shows "a < WrappingAdd a b \<longleftrightarrow> 0 < b \<and> in_s64 (a + b)"
proof (cases "in_s64 (a + b)")
  case True
  then show ?thesis by (simp add: WrappingAdd_def)
next
  case False
  with assms have "2 ^ 63 \<le> a + b" "a + b < 2 ^ 64"
    by (simp_all add: in_s64_def)
  then have "WrappingAdd a b = a + b - 2 ^ 64"
    by (simp add: WrappingAdd_def wrap_s64_overflow)
  with assms False show ?thesis by (simp add: in_s64_def)
qed

section \<open>Results\<close>

text \<open>The result codes that the modelled kernel operations return.\<close>

datatype Result =
    ResultSuccess
  | ResultInvalidSize
  | ResultInvalidAddress
  | ResultOutOfResource
  | ResultOutOfMemory
  | ResultOutOfHandles
  | ResultInvalidCurrentMemory
  | ResultInvalidHandle
  | ResultTimedOut
  | ResultInvalidState
  | ResultTerminationRequested
  | ResultInvalidCombination
  | ResultCancelled

section \<open>Alignment\<close>

definition PageSize :: nat where
  "PageSize = 0x1000"

definition AlignDown :: "nat \<Rightarrow> nat \<Rightarrow> nat" where
  "AlignDown v s = u64_sub v (v mod s)"

definition AlignUp :: "nat \<Rightarrow> nat \<Rightarrow> nat" where
  "AlignUp v s =
     (let m = v mod s; w = u64_sub v m
      in if m = 0 then w else u64_add w s)"

lemma PageSize_pos [simp]: "0 < PageSize"
  by (simp add: PageSize_def)

lemma AlignDown_exact: "v < 2 ^ 64 \<Longrightarrow> AlignDown v s = v div s * s"
  by (simp add: AlignDown_def minus_mod_eq_div_mult)

lemma AlignUp_exact:
  assumes "v + s \<le> 2 ^ 64" "0 < s"
  shows "AlignUp v s = (v + (s - 1)) div s * s"
proof -
  define q r where "q = v div s" and "r = v mod s"
  have v: "v = q * s + r" and r: "r < s"
    using assms by (simp_all add: q_def r_def)
  have "v + (s - 1) = (r + (s - 1)) + q * s" using v by linarith
  then have "(v + (s - 1)) div s = q + (r + (s - 1)) div s"
    using assms(2) by (simp only: div_mult_self1)
  also have "(r + (s - 1)) div s = (if r = 0 then 0 else 1)"
    using r by (cases "r = 0") (auto simp: div_if)
  finally have eq: "(v + (s - 1)) div s * s = (if r = 0 then q * s else q * s + s)"
    by simp
  have "v < 2 ^ 64" "r \<le> v" using assms v by linarith+
  then have sub: "u64_sub v r = q * s" by (simp add: v)
  have "r \<noteq> 0 \<Longrightarrow> u64_add (q * s) s = q * s + s"
    using assms(1) v by simp
  then show ?thesis
    unfolding AlignUp_def Let_def r_def [symmetric] sub eq by simp
qed

section \<open>Masks\<close>

lemma disjoint_mask_bit:
  fixes a m :: "'a::len word"
  shows "a AND m = 0 \<Longrightarrow> \<not> (bit a n \<and> bit m n)"
  by (metis bit_and_iff bit_0_eq bot_apply bot_bool_def)

lemma set_clear_mask:
  fixes a m :: "'a::len word"
  shows "a AND m = 0 \<Longrightarrow> (a OR m) AND NOT m = a"
  by (rule bit_word_eqI) (auto simp: bit_simps dest: disjoint_mask_bit)

lemma or_mask_absorb:
  fixes a m :: "'a::len word"
  assumes "a AND m = m"
  shows "a OR m = a"
proof (rule bit_word_eqI)
  fix n show "bit (a OR m) n = bit a n"
    using assms by (metis bit_and_iff bit_or_iff)
qed

section \<open>Lists\<close>

text \<open>Array reads outside the array are not part of a defined execution of the code.\<close>

lemma nth_list_update_if:
  "i < length xs \<Longrightarrow> (xs[i := x]) ! j = (if i = j then x else xs ! j)"
  by (auto simp: nth_list_update)

lemma filter_list_update_count:
  assumes "i < length xs" "\<not> P (xs ! i)" "P x"
  shows "length (filter P (xs[i := x])) = Suc (length (filter P xs))"
  using assms
proof (induction xs arbitrary: i)
  case Nil
  then show ?case by simp
next
  case (Cons y ys)
  then show ?case by (cases i) auto
qed

lemma filter_list_update_uncount:
  assumes "i < length xs" "P (xs ! i)" "\<not> P x"
  shows "Suc (length (filter P (xs[i := x]))) = length (filter P xs)"
  using assms
proof (induction xs arbitrary: i)
  case Nil
  then show ?case by simp
next
  case (Cons y ys)
  then show ?case by (cases i) auto
qed

lemma filter_list_update_same:
  assumes "i < length xs" "P (xs ! i) \<longleftrightarrow> P x"
  shows "length (filter P (xs[i := x])) = length (filter P xs)"
  using assms
proof (induction xs arbitrary: i)
  case Nil
  then show ?case by simp
next
  case (Cons y ys)
  then show ?case by (cases i) auto
qed

end
