(* ===== verification/Transition.thy ===== *)
theory Transition
  imports Prelude
begin

text \<open>
  Runs of labelled step relations and the interface that a component with an invariant offers.
  A component states its steps as an \<^theory_text>\<open>inductive\<close> predicate, interprets
  \<open>invariant_system\<close> on it, and obtains its invariant in every reachable state.
\<close>

inductive run :: "('s \<Rightarrow> 'e \<Rightarrow> 's \<Rightarrow> bool) \<Rightarrow> 's \<Rightarrow> 'e list \<Rightarrow> 's \<Rightarrow> bool"
  for step :: "'s \<Rightarrow> 'e \<Rightarrow> 's \<Rightarrow> bool" where
  run_nil: "run step s [] s"
| run_snoc: "run step s es t \<Longrightarrow> step t e u \<Longrightarrow> run step s (es @ [e]) u"

inductive_cases run_nilE: "run step s [] t"
inductive_cases run_snocE: "run step s (es @ [e]) u"

lemma run_one: "step s e t \<Longrightarrow> run step s [e] t"
  using run_snoc [OF run_nil, of step s e t] by simp

lemma run_two: "step s e t \<Longrightarrow> step t f u \<Longrightarrow> run step s [e, f] u"
  using run_snoc [OF run_one, of step s e t f u] by simp

lemma run_append: "run step s es t \<Longrightarrow> run step t fs u \<Longrightarrow> run step s (es @ fs) u"
proof (rotate_tac, induction fs u rule: run.induct)
  case run_nil
  then show ?case by simp
next
  case (run_snoc t fs u e v)
  then have "run step s (es @ fs) u" by blast
  from run.run_snoc [OF this run_snoc.hyps(2)] show ?case by simp
qed

locale invariant_system =
  fixes init :: "'s \<Rightarrow> bool"
    and step :: "'s \<Rightarrow> 'e \<Rightarrow> 's \<Rightarrow> bool"
    and inv :: "'s \<Rightarrow> bool"
  assumes inv_init: "init s \<Longrightarrow> inv s"
    and inv_step: "inv s \<Longrightarrow> step s e t \<Longrightarrow> inv t"
begin

lemma run_preserves: "run step s es t \<Longrightarrow> inv s \<Longrightarrow> inv t"
  by (induction rule: run.induct) (auto intro: inv_step)

lemma reachable_inv: "init s \<Longrightarrow> run step s es t \<Longrightarrow> inv t"
  using inv_init run_preserves by blast

end

text \<open>
  A quantity that every step changes by an amount its label determines is, after a run, its
  initial value plus the sum of those amounts.
\<close>

locale accounted_system = invariant_system init step inv
  for init :: "'s \<Rightarrow> bool" and step :: "'s \<Rightarrow> 'e \<Rightarrow> 's \<Rightarrow> bool" and inv :: "'s \<Rightarrow> bool" +
  fixes level :: "'s \<Rightarrow> int" and delta :: "'e \<Rightarrow> int"
  assumes level_step: "inv s \<Longrightarrow> step s e t \<Longrightarrow> level t = level s + delta e"
begin

lemma run_level: "run step s es t \<Longrightarrow> inv s \<Longrightarrow> level t = level s + sum_list (map delta es)"
proof (induction rule: run.induct)
  case run_nil
  then show ?case by simp
next
  case (run_snoc t es u e v)
  then have "inv u" using run_preserves by blast
  with run_snoc show ?case by (simp add: level_step)
qed

end

text \<open>
  A system whose every step is mirrored by a function of its label on an abstract value: after a
  run, the abstraction of the state is the fold of those functions.
\<close>

locale mirrored_system = invariant_system init step inv
  for init :: "'s \<Rightarrow> bool" and step :: "'s \<Rightarrow> 'e \<Rightarrow> 's \<Rightarrow> bool" and inv :: "'s \<Rightarrow> bool" +
  fixes abs :: "'s \<Rightarrow> 'a" and astep :: "'e \<Rightarrow> 'a \<Rightarrow> 'a"
  assumes abs_step: "inv s \<Longrightarrow> step s e t \<Longrightarrow> abs t = astep e (abs s)"
begin

lemma run_abs: "run step s es t \<Longrightarrow> inv s \<Longrightarrow> abs t = fold astep es (abs s)"
proof (induction rule: run.induct)
  case run_nil
  then show ?case by simp
next
  case (run_snoc s es t e u)
  then have "inv t" using run_preserves by blast
  with run_snoc show ?case by (simp add: abs_step)
qed

end

end
