(* ===== verification/ResourceLimit.thy ===== *)
theory ResourceLimit
  imports Transition
begin

text \<open>
  \<^verbatim>\<open>core/hle/kernel/k_resource_limit.{h,cpp}\<close>: the per-process accounting of limitable
  resources. The arrays indexed by \<^verbatim>\<open>LimitableResource\<close> are functions of that enumeration.
  All fields are \<^verbatim>\<open>s64\<close>; every addition of the code is reduced by \<open>wrap_s64\<close>.

  \<^verbatim>\<open>Reserve\<close> may sleep on a condition variable with the lock released. The model cuts it at the
  call of \<^verbatim>\<open>KLightConditionVariable::Wait\<close>: one turn of its loop is
  \<open>KResourceLimit_Reserve_turn\<close>, and \<open>rl_step\<close> interleaves the turns of any number of threads
  with the other operations. The assertions of the code do not stop a release build, so they
  are separate predicates, and a theorem shows that they hold.
\<close>

section \<open>State\<close>

datatype LimitableResource =
    PhysicalMemoryMax
  | ThreadCountMax
  | EventCountMax
  | TransferMemoryCountMax
  | SessionCountMax

record KResourceLimit =
  m_limit_values :: "LimitableResource \<Rightarrow> int"
  m_current_values :: "LimitableResource \<Rightarrow> int"
  m_current_hints :: "LimitableResource \<Rightarrow> int"
  m_peak_values :: "LimitableResource \<Rightarrow> int"
  m_waiter_count :: int

definition KResourceLimit_create :: KResourceLimit where
  "KResourceLimit_create =
     \<lparr>m_limit_values = (\<lambda>_. 0), m_current_values = (\<lambda>_. 0), m_current_hints = (\<lambda>_. 0),
      m_peak_values = (\<lambda>_. 0), m_waiter_count = 0\<rparr>"

section \<open>Operations\<close>

definition KResourceLimit_GetLimitValue :: "KResourceLimit \<Rightarrow> LimitableResource \<Rightarrow> int" where
  "KResourceLimit_GetLimitValue rl which = m_limit_values rl which"

definition KResourceLimit_GetCurrentValue :: "KResourceLimit \<Rightarrow> LimitableResource \<Rightarrow> int" where
  "KResourceLimit_GetCurrentValue rl which = m_current_values rl which"

definition KResourceLimit_GetPeakValue :: "KResourceLimit \<Rightarrow> LimitableResource \<Rightarrow> int" where
  "KResourceLimit_GetPeakValue rl which = m_peak_values rl which"

definition KResourceLimit_GetFreeValue :: "KResourceLimit \<Rightarrow> LimitableResource \<Rightarrow> int" where
  "KResourceLimit_GetFreeValue rl which =
     wrap_s64 (m_limit_values rl which - m_current_values rl which)"

text \<open>The assertions of the four getters: the value read, then the two comparisons.\<close>

definition getter_asserts :: "KResourceLimit \<Rightarrow> LimitableResource \<Rightarrow> bool" where
  "getter_asserts rl which \<longleftrightarrow>
     0 \<le> m_limit_values rl which \<and> 0 \<le> m_current_values rl which \<and>
     0 \<le> m_peak_values rl which \<and>
     m_current_values rl which \<le> m_limit_values rl which \<and>
     m_current_hints rl which \<le> m_current_values rl which"

definition KResourceLimit_SetLimitValue ::
  "KResourceLimit \<Rightarrow> LimitableResource \<Rightarrow> int \<Rightarrow> Result \<times> KResourceLimit" where
  "KResourceLimit_SetLimitValue rl which v =
     (if \<not> m_current_values rl which \<le> v then (ResultInvalidState, rl)
      else (ResultSuccess,
            rl\<lparr>m_limit_values := (m_limit_values rl)(which := v),
               m_peak_values := (m_peak_values rl)(which := m_current_values rl which)\<rparr>))"

text \<open>What one turn of the loop of \<^verbatim>\<open>Reserve\<close> ends in: its two returns, or the wait.\<close>

datatype reserve_outcome = ReserveTrue | ReserveFalse | ReserveWait

definition KResourceLimit_Reserve_turn ::
  "KResourceLimit \<Rightarrow> LimitableResource \<Rightarrow> int \<Rightarrow> int \<Rightarrow> int \<Rightarrow> reserve_outcome \<times> KResourceLimit" where
  "KResourceLimit_Reserve_turn rl which v timeout tick =
     (let cur = m_current_values rl which; hint = m_current_hints rl which;
          lim = m_limit_values rl which
      in if WrappingAdd cur v \<le> cur then (ReserveFalse, rl)
         else if wrap_s64 (cur + v) \<le> lim then
           (ReserveTrue,
            rl\<lparr>m_current_values := (m_current_values rl)(which := wrap_s64 (cur + v)),
               m_current_hints := (m_current_hints rl)(which := wrap_s64 (hint + v)),
               m_peak_values := (m_peak_values rl)
                 (which := max (m_peak_values rl which) (wrap_s64 (cur + v)))\<rparr>)
         else if wrap_s64 (hint + v) \<le> lim \<and> (timeout < 0 \<or> tick < timeout) then
           (ReserveWait, rl\<lparr>m_waiter_count := m_waiter_count rl + 1\<rparr>)
         else (ReserveFalse, rl))"

text \<open>From the call to the first return or wait.\<close>

definition KResourceLimit_Reserve ::
  "KResourceLimit \<Rightarrow> LimitableResource \<Rightarrow> int \<Rightarrow> int \<Rightarrow> int \<Rightarrow> reserve_outcome \<times> KResourceLimit" where
  "KResourceLimit_Reserve rl which v timeout tick =
     (if m_limit_values rl which \<le> m_current_hints rl which then (ReserveFalse, rl)
      else KResourceLimit_Reserve_turn rl which v timeout tick)"

text \<open>From the return of the wait, with the lock held again, to the next return or wait.\<close>

definition KResourceLimit_Reserve_resume ::
  "KResourceLimit \<Rightarrow> LimitableResource \<Rightarrow> int \<Rightarrow> int \<Rightarrow> int \<Rightarrow> reserve_outcome \<times> KResourceLimit" where
  "KResourceLimit_Reserve_resume rl which v timeout tick =
     KResourceLimit_Reserve_turn (rl\<lparr>m_waiter_count := m_waiter_count rl - 1\<rparr>) which v timeout tick"

definition DefaultTimeout :: int where
  "DefaultTimeout = 10000000000"

definition KResourceLimit_Reserve_default ::
  "KResourceLimit \<Rightarrow> LimitableResource \<Rightarrow> int \<Rightarrow> int \<Rightarrow> reserve_outcome \<times> KResourceLimit" where
  "KResourceLimit_Reserve_default rl which v tick =
     KResourceLimit_Reserve rl which v (wrap_s64 (tick + DefaultTimeout)) tick"

definition reserve_asserts :: "KResourceLimit \<Rightarrow> LimitableResource \<Rightarrow> int \<Rightarrow> bool" where
  "reserve_asserts rl which v \<longleftrightarrow>
     0 \<le> v \<and> m_current_hints rl which \<le> m_current_values rl which \<and>
     m_current_values rl which \<le> m_limit_values rl which"

text \<open>\<^verbatim>\<open>Release\<close> with its hint; the second component says whether it broadcasts.\<close>

definition KResourceLimit_Release ::
  "KResourceLimit \<Rightarrow> LimitableResource \<Rightarrow> int \<Rightarrow> int \<Rightarrow> KResourceLimit \<times> bool" where
  "KResourceLimit_Release rl which v hint =
     (rl\<lparr>m_current_values := (m_current_values rl)
           (which := wrap_s64 (m_current_values rl which - v)),
         m_current_hints := (m_current_hints rl)
           (which := wrap_s64 (m_current_hints rl which - hint))\<rparr>,
      m_waiter_count rl \<noteq> 0)"

definition KResourceLimit_Release_value ::
  "KResourceLimit \<Rightarrow> LimitableResource \<Rightarrow> int \<Rightarrow> KResourceLimit \<times> bool" where
  "KResourceLimit_Release_value rl which v = KResourceLimit_Release rl which v v"

definition release_asserts :: "KResourceLimit \<Rightarrow> LimitableResource \<Rightarrow> int \<Rightarrow> int \<Rightarrow> bool" where
  "release_asserts rl which v hint \<longleftrightarrow>
     0 \<le> v \<and> 0 \<le> hint \<and>
     m_current_values rl which \<le> m_limit_values rl which \<and>
     m_current_hints rl which \<le> m_current_values rl which \<and>
     v \<le> m_current_values rl which \<and> hint \<le> m_current_hints rl which"

text \<open>
  \<^verbatim>\<open>CreateResourceLimitForProcess\<close>: five limits set on a fresh object. The first component is
  the conjunction of its assertions that each call succeeds.
\<close>

definition process_limits :: "int \<Rightarrow> (LimitableResource \<times> int) list" where
  "process_limits physical_memory_size =
     [(PhysicalMemoryMax, physical_memory_size), (ThreadCountMax, 800), (EventCountMax, 900),
      (TransferMemoryCountMax, 200), (SessionCountMax, 1133)]"

fun set_limits :: "KResourceLimit \<Rightarrow> (LimitableResource \<times> int) list \<Rightarrow> bool \<times> KResourceLimit" where
  "set_limits rl [] = (True, rl)"
| "set_limits rl ((which, v) # rest) =
     (let (res, rl') = KResourceLimit_SetLimitValue rl which v;
          (ok, rl'') = set_limits rl' rest
      in (res = ResultSuccess \<and> ok, rl''))"

definition CreateResourceLimitForProcess :: "int \<Rightarrow> bool \<times> KResourceLimit" where
  "CreateResourceLimitForProcess physical_memory_size =
     set_limits KResourceLimit_create (process_limits physical_memory_size)"

section \<open>Threads that reserve, release and wait\<close>

text \<open>
  A thread inside \<^verbatim>\<open>Reserve\<close> is asleep on the condition variable, or has been woken and waits
  for the lock. \<^verbatim>\<open>Broadcast\<close> wakes every sleeper; a timer expiry or a cancelled wait wakes one.
\<close>

datatype rl_phase =
    Outside
  | Asleep LimitableResource int int
  | Woken LimitableResource int int

record rl_system =
  rl_object :: KResourceLimit
  rl_phases :: "nat \<Rightarrow> rl_phase"

datatype rl_event =
    EReserve nat LimitableResource int int int reserve_outcome
  | EWake nat
  | EResume nat LimitableResource int int reserve_outcome
  | ERelease LimitableResource int int
  | ESetLimit LimitableResource int Result

fun broadcast_phase :: "rl_phase \<Rightarrow> rl_phase" where
  "broadcast_phase (Asleep w v t) = Woken w v t"
| "broadcast_phase p = p"

definition phase_after :: "reserve_outcome \<Rightarrow> LimitableResource \<Rightarrow> int \<Rightarrow> int \<Rightarrow> rl_phase" where
  "phase_after out which v timeout = (if out = ReserveWait then Asleep which v timeout else Outside)"

text \<open>
  The steps of the system. The guards of the operations are the assertions of the code at their start, and after a wait, and that the
  amounts are 64-bit integers; nothing else is asked of the callers.
\<close>

inductive rl_step :: "rl_system \<Rightarrow> rl_event \<Rightarrow> rl_system \<Rightarrow> bool" where
  step_reserve:
    "rl_phases s t = Outside \<Longrightarrow> reserve_asserts (rl_object s) which v \<Longrightarrow> in_s64 v \<Longrightarrow>
     KResourceLimit_Reserve (rl_object s) which v timeout tick = (out, rl') \<Longrightarrow>
     rl_step s (EReserve t which v timeout tick out)
       (s\<lparr>rl_object := rl', rl_phases := (rl_phases s)(t := phase_after out which v timeout)\<rparr>)"
| step_wake:
    "rl_phases s t = Asleep which v timeout \<Longrightarrow>
     rl_step s (EWake t) (s\<lparr>rl_phases := (rl_phases s)(t := Woken which v timeout)\<rparr>)"
| step_resume:
    "rl_phases s t = Woken which v timeout \<Longrightarrow> reserve_asserts (rl_object s) which v \<Longrightarrow>
     KResourceLimit_Reserve_resume (rl_object s) which v timeout tick = (out, rl') \<Longrightarrow>
     rl_step s (EResume t which v tick out)
       (s\<lparr>rl_object := rl', rl_phases := (rl_phases s)(t := phase_after out which v timeout)\<rparr>)"
| step_release:
    "release_asserts (rl_object s) which v hint \<Longrightarrow>
     KResourceLimit_Release (rl_object s) which v hint = (rl', wake) \<Longrightarrow>
     rl_step s (ERelease which v hint)
       (s\<lparr>rl_object := rl',
          rl_phases := (if wake then broadcast_phase \<circ> rl_phases s else rl_phases s)\<rparr>)"
| step_set_limit:
    "in_s64 v \<Longrightarrow> KResourceLimit_SetLimitValue (rl_object s) which v = (res, rl') \<Longrightarrow>
     rl_step s (ESetLimit which v res) (s\<lparr>rl_object := rl'\<rparr>)"

inductive_cases rl_step_releaseE: "rl_step s (ERelease which v hint) t"

definition rl_system_init :: "KResourceLimit \<Rightarrow> rl_system" where
  "rl_system_init rl = \<lparr>rl_object = rl, rl_phases = (\<lambda>_. Outside)\<rparr>"

section \<open>Invariant\<close>

definition rl_inv :: "KResourceLimit \<Rightarrow> bool" where
  "rl_inv rl \<longleftrightarrow> (\<forall>w. 0 \<le> m_current_hints rl w \<and> in_s64 (m_current_hints rl w) \<and> 0 \<le> m_current_values rl w \<and>
     m_current_values rl w \<le> m_peak_values rl w \<and> m_peak_values rl w \<le> m_limit_values rl w \<and>
     in_s64 (m_limit_values rl w))"

lemma rl_inv_create: "rl_inv KResourceLimit_create"
  by (simp add: rl_inv_def KResourceLimit_create_def in_s64_def)

lemma rl_inv_waiters [simp]: "rl_inv (rl\<lparr>m_waiter_count := n\<rparr>) = rl_inv rl"
  by (simp add: rl_inv_def)

lemma rl_inv_at:
  assumes "rl_inv rl"
  shows "0 \<le> m_current_hints rl w" "0 \<le> m_current_values rl w"
    "m_current_values rl w \<le> m_peak_values rl w" "m_peak_values rl w \<le> m_limit_values rl w"
    "in_s64 (m_limit_values rl w)" "in_s64 (m_current_values rl w)" "in_s64 (m_current_hints rl w)"
proof -
  from assms show 1: "0 \<le> m_current_hints rl w" "0 \<le> m_current_values rl w"
    "m_current_values rl w \<le> m_peak_values rl w" "m_peak_values rl w \<le> m_limit_values rl w"
    "in_s64 (m_limit_values rl w)" "in_s64 (m_current_hints rl w)"
    by (simp_all add: rl_inv_def)
  from 1 show "in_s64 (m_current_values rl w)" by (auto simp: in_s64_def)
qed

text \<open>
  Under the invariant and the assertions of the loop, no addition of the loop wraps where its value is used: the first guard
  filters the overflows, so the turn compares true sums.
\<close>

lemma reserve_turn_exact:
  assumes "rl_inv rl" "reserve_asserts rl which v" "in_s64 v"
  shows "KResourceLimit_Reserve_turn rl which v timeout tick =
     (if v = 0 \<or> \<not> in_s64 (m_current_values rl which + v) then (ReserveFalse, rl)
      else if m_current_values rl which + v \<le> m_limit_values rl which then
        (ReserveTrue,
         rl\<lparr>m_current_values := (m_current_values rl)(which := m_current_values rl which + v),
            m_current_hints := (m_current_hints rl)(which := m_current_hints rl which + v),
            m_peak_values := (m_peak_values rl)
              (which := max (m_peak_values rl which) (m_current_values rl which + v))\<rparr>)
      else if m_current_hints rl which + v \<le> m_limit_values rl which \<and> (timeout < 0 \<or> tick < timeout)
        then (ReserveWait, rl\<lparr>m_waiter_count := m_waiter_count rl + 1\<rparr>)
      else (ReserveFalse, rl))"
proof -
  note b = rl_inv_at [OF assms(1), of which]
  have v: "0 \<le> v" "m_current_hints rl which \<le> m_current_values rl which" using assms(2) by (simp_all add: reserve_asserts_def)
  have gt: "(WrappingAdd (m_current_values rl which) v \<le> m_current_values rl which) =
      (v = 0 \<or> \<not> in_s64 (m_current_values rl which + v))"
    using WrappingAdd_gt_iff [of "m_current_values rl which" v] b v assms(3) by auto
  have sums: "wrap_s64 (m_current_values rl which + v) = m_current_values rl which + v"
    "wrap_s64 (m_current_hints rl which + v) = m_current_hints rl which + v"
    if "in_s64 (m_current_values rl which + v)"
    using that b v by (simp_all add: in_s64_def)
  show ?thesis
    by (auto simp: KResourceLimit_Reserve_turn_def Let_def gt sums)
qed

lemma rl_inv_reserve_turn:
  assumes "rl_inv rl" "reserve_asserts rl which v" "in_s64 v"
  shows "rl_inv (snd (KResourceLimit_Reserve_turn rl which v timeout tick))"
proof -
  note b = rl_inv_at [OF assms(1), of which]
  have v: "0 \<le> v" "m_current_hints rl which \<le> m_current_values rl which" using assms(2) by (simp_all add: reserve_asserts_def)
  have "in_s64 (m_current_hints rl which + v)" if "in_s64 (m_current_values rl which + v)"
    using that b v by (simp add: in_s64_def)
  then show ?thesis using assms(1) v by (auto simp: reserve_turn_exact [OF assms] rl_inv_def)
qed

lemma rl_inv_reserve:
  "rl_inv rl \<Longrightarrow> reserve_asserts rl which v \<Longrightarrow> in_s64 v \<Longrightarrow>
   rl_inv (snd (KResourceLimit_Reserve rl which v timeout tick))"
  by (simp add: KResourceLimit_Reserve_def rl_inv_reserve_turn)

lemma reserve_asserts_waiters [simp]: "reserve_asserts (rl\<lparr>m_waiter_count := n\<rparr>) which v = reserve_asserts rl which v"
  by (simp add: reserve_asserts_def)

lemma rl_inv_resume:
  "rl_inv rl \<Longrightarrow> reserve_asserts rl which v \<Longrightarrow> in_s64 v \<Longrightarrow>
   rl_inv (snd (KResourceLimit_Reserve_resume rl which v timeout tick))"
  by (simp add: KResourceLimit_Reserve_resume_def rl_inv_reserve_turn)

lemma release_exact:
  assumes "rl_inv rl" "release_asserts rl which v hint"
  shows "KResourceLimit_Release rl which v hint =
    (rl\<lparr>m_current_values := (m_current_values rl)(which := m_current_values rl which - v),
        m_current_hints := (m_current_hints rl)(which := m_current_hints rl which - hint)\<rparr>,
     m_waiter_count rl \<noteq> 0)"
  using rl_inv_at [OF assms(1), of which] assms(2)
  by (auto simp: KResourceLimit_Release_def release_asserts_def in_s64_def)

lemma rl_inv_release:
  assumes "rl_inv rl" "release_asserts rl which v hint"
  shows "rl_inv (fst (KResourceLimit_Release rl which v hint))"
proof -
  have "m_current_values rl which - v \<le> m_peak_values rl which"
    using rl_inv_at(3) [OF assms(1), of which] assms(2) by (simp add: release_asserts_def)
  moreover have "in_s64 (m_current_hints rl which - hint)"
    using rl_inv_at(1,7) [OF assms(1), of which] assms(2) by (simp add: release_asserts_def in_s64_def)
  ultimately show ?thesis
    using assms by (simp add: release_exact rl_inv_def release_asserts_def)
qed

lemma rl_inv_set_limit:
  "rl_inv rl \<Longrightarrow> in_s64 v \<Longrightarrow> rl_inv (snd (KResourceLimit_SetLimitValue rl which v))"
  by (auto simp: KResourceLimit_SetLimitValue_def rl_inv_def)

text \<open>No operation touches the waiter count except the wait itself.\<close>

lemma reserve_turn_waiters:
  "KResourceLimit_Reserve_turn rl which v timeout tick = (out, rl') \<Longrightarrow>
   m_waiter_count rl' = m_waiter_count rl + (if out = ReserveWait then 1 else 0)"
  by (auto simp: KResourceLimit_Reserve_turn_def Let_def split: if_splits)

lemma reserve_waiters:
  "KResourceLimit_Reserve rl which v timeout tick = (out, rl') \<Longrightarrow>
   m_waiter_count rl' = m_waiter_count rl + (if out = ReserveWait then 1 else 0)"
  by (auto simp: KResourceLimit_Reserve_def dest: reserve_turn_waiters split: if_splits)

lemma resume_waiters:
  "KResourceLimit_Reserve_resume rl which v timeout tick = (out, rl') \<Longrightarrow>
   m_waiter_count rl' = m_waiter_count rl - 1 + (if out = ReserveWait then 1 else 0)"
  by (auto simp: KResourceLimit_Reserve_resume_def dest: reserve_turn_waiters)

section \<open>The system of threads\<close>

definition inside :: "rl_system \<Rightarrow> nat set" where
  "inside s = {t. rl_phases s t \<noteq> Outside}"

fun phase_args_ok :: "rl_phase \<Rightarrow> bool" where
  "phase_args_ok Outside = True"
| "phase_args_ok (Asleep _ v _) = (0 \<le> v \<and> in_s64 v)"
| "phase_args_ok (Woken _ v _) = (0 \<le> v \<and> in_s64 v)"

definition rl_system_inv :: "rl_system \<Rightarrow> bool" where
  "rl_system_inv s \<longleftrightarrow> rl_inv (rl_object s) \<and> finite (inside s) \<and>
     m_waiter_count (rl_object s) = int (card (inside s)) \<and>
     (\<forall>t. phase_args_ok (rl_phases s t))"

lemma broadcast_phase_simps [simp]:
  "broadcast_phase p = Outside \<longleftrightarrow> p = Outside"
  "phase_args_ok (broadcast_phase p) = phase_args_ok p"
  "broadcast_phase p \<noteq> Asleep w v t"
  by (cases p; simp)+

lemma phase_after_simps [simp]:
  "phase_after out w v t = Outside \<longleftrightarrow> out \<noteq> ReserveWait"
  "0 \<le> v \<Longrightarrow> in_s64 v \<Longrightarrow> phase_args_ok (phase_after out w v t)"
  by (simp_all add: phase_after_def)

lemma inside_update:
  "inside (s\<lparr>rl_object := rl, rl_phases := (rl_phases s)(t := p)\<rparr>) =
     (if p = Outside then inside s - {t} else insert t (inside s))"
  by (auto simp: inside_def)

lemma rl_system_inv_reserve:
  assumes "rl_system_inv s" "rl_phases s t = Outside" "reserve_asserts (rl_object s) which v" "in_s64 v"
    "KResourceLimit_Reserve (rl_object s) which v timeout tick = (out, rl')"
  shows "rl_system_inv
    (s\<lparr>rl_object := rl', rl_phases := (rl_phases s)(t := phase_after out which v timeout)\<rparr>)"
proof -
  have "rl_inv rl'"
    using rl_inv_reserve [of "rl_object s" which v timeout tick] assms
    by (simp add: rl_system_inv_def)
  moreover have "0 \<le> v" using assms(3) by (simp add: reserve_asserts_def)
  moreover have "t \<notin> inside s" using assms(2) by (simp add: inside_def)
  moreover note reserve_waiters [OF assms(5)]
  ultimately show ?thesis
    using assms(1,4) by (auto simp: rl_system_inv_def inside_update)
qed

lemma rl_system_inv_resume:
  assumes "rl_system_inv s" "rl_phases s t = Woken which v timeout" "reserve_asserts (rl_object s) which v"
    "KResourceLimit_Reserve_resume (rl_object s) which v timeout tick = (out, rl')"
  shows "rl_system_inv
    (s\<lparr>rl_object := rl', rl_phases := (rl_phases s)(t := phase_after out which v timeout)\<rparr>)"
proof -
  have ok: "phase_args_ok (Woken which v timeout)"
    using assms(1,2) by (metis rl_system_inv_def)
  have t: "t \<in> inside s" using assms(2) by (simp add: inside_def)
  have "rl_inv rl'"
    using rl_inv_resume [of "rl_object s" which v timeout tick] assms ok
    by (simp add: rl_system_inv_def)
  moreover have "m_waiter_count rl' =
      (if out = ReserveWait then int (card (inside s)) else int (card (inside s - {t})))"
    using assms(1) t resume_waiters [OF assms(4)] card_Suc_Diff1 [of "inside s" t]
    by (auto simp: rl_system_inv_def)
  ultimately show ?thesis
    using assms(1) ok t by (simp add: rl_system_inv_def inside_update insert_absorb)
qed

lemma rl_system_inv_step:
  assumes "rl_system_inv s" "rl_step s e s'"
  shows "rl_system_inv s'"
  using assms(2,1)
proof (cases rule: rl_step.cases)
  case (step_reserve t which v timeout tick out rl')
  with assms(1) show ?thesis by (simp add: rl_system_inv_reserve)
next
  case (step_wake t which v timeout)
  then have "inside s' = inside s" by (auto simp: inside_def)
  moreover have "phase_args_ok (Asleep which v timeout)"
    using step_wake assms(1) by (metis rl_system_inv_def)
  ultimately show ?thesis using step_wake assms(1) by (auto simp: rl_system_inv_def)
next
  case (step_resume t which v timeout tick out rl')
  with assms(1) show ?thesis by (simp add: rl_system_inv_resume)
next
  case (step_release which v hint rl' wake)
  then have "inside s' = inside s" by (auto simp: inside_def)
  moreover have "rl_inv rl'" "m_waiter_count rl' = m_waiter_count (rl_object s)"
    using step_release assms(1) rl_inv_release [of "rl_object s" which v hint]
    by (auto simp: rl_system_inv_def KResourceLimit_Release_def)
  ultimately show ?thesis using step_release assms(1) by (auto simp: rl_system_inv_def)
next
  case (step_set_limit v which res rl')
  then have "inside s' = inside s" by (auto simp: inside_def)
  moreover have "rl_inv rl'" "m_waiter_count rl' = m_waiter_count (rl_object s)"
    using step_set_limit assms(1) rl_inv_set_limit [of "rl_object s" v which]
    by (auto simp: rl_system_inv_def KResourceLimit_SetLimitValue_def split: if_splits)
  ultimately show ?thesis using step_set_limit assms(1) by (auto simp: rl_system_inv_def)
qed

text \<open>The interface of \<open>Transition\<close> on this system, for any starting object that is well formed.\<close>

definition rl_start :: "rl_system \<Rightarrow> bool" where
  "rl_start s \<longleftrightarrow> (\<exists>rl. s = rl_system_init rl \<and> rl_inv rl \<and> m_waiter_count rl = 0)"

interpretation rlsys: invariant_system rl_start rl_step rl_system_inv
proof unfold_locales
  fix s
  assume "rl_start s"
  then show "rl_system_inv s"
    by (auto simp: rl_start_def rl_system_inv_def rl_system_init_def inside_def)
next
  fix s e t
  assume "rl_system_inv s" "rl_step s e t"
  then show "rl_system_inv t" by (rule rl_system_inv_step)
qed

fun rl_delta :: "LimitableResource \<Rightarrow> rl_event \<Rightarrow> int" where
  "rl_delta which (EReserve _ w v _ _ out) = (if w = which \<and> out = ReserveTrue then v else 0)"
| "rl_delta which (EResume _ w v _ out) = (if w = which \<and> out = ReserveTrue then v else 0)"
| "rl_delta which (ERelease w v _) = (if w = which then - v else 0)"
| "rl_delta which _ = 0"

lemma reserve_turn_current:
  assumes "rl_inv rl" "reserve_asserts rl w v" "in_s64 v"
    "KResourceLimit_Reserve_turn rl w v timeout tick = (out, rl')"
  shows "m_current_values rl' which =
    m_current_values rl which + (if w = which \<and> out = ReserveTrue then v else 0)"
  using assms(4) by (auto simp: reserve_turn_exact [OF assms(1-3)] split: if_splits)

lemma reserve_current:
  assumes "rl_inv rl" "reserve_asserts rl w v" "in_s64 v"
    "KResourceLimit_Reserve rl w v timeout tick = (out, rl')"
  shows "m_current_values rl' which =
    m_current_values rl which + (if w = which \<and> out = ReserveTrue then v else 0)"
  using assms(4) reserve_turn_current [OF assms(1-3)]
  by (auto simp: KResourceLimit_Reserve_def split: if_splits)

lemma resume_current:
  assumes "rl_inv rl" "reserve_asserts rl w v" "in_s64 v"
    "KResourceLimit_Reserve_resume rl w v timeout tick = (out, rl')"
  shows "m_current_values rl' which =
    m_current_values rl which + (if w = which \<and> out = ReserveTrue then v else 0)"
  using assms(4) reserve_turn_current [of "rl\<lparr>m_waiter_count := m_waiter_count rl - 1\<rparr>" w v] assms(1-3)
  by (fastforce simp: KResourceLimit_Reserve_resume_def)

lemma rl_step_current:
  assumes "rl_system_inv s" "rl_step s e t"
  shows "m_current_values (rl_object t) which = m_current_values (rl_object s) which + rl_delta which e"
  using assms(2)
proof (cases rule: rl_step.cases)
  case (step_reserve t w v timeout tick out rl')
  with assms(1) show ?thesis
    using reserve_current [of "rl_object s" w v timeout tick out rl' which]
    by (simp add: rl_system_inv_def)
next
  case (step_wake t w v timeout)
  then show ?thesis by simp
next
  case (step_resume t w v timeout tick out rl')
  moreover from this assms(1) have "phase_args_ok (Woken w v timeout)"
    by (metis rl_system_inv_def)
  ultimately show ?thesis
    using assms(1) resume_current [of "rl_object s" w v timeout tick out rl' which]
    by (simp add: rl_system_inv_def)
next
  case (step_release w v hint rl' wake)
  with assms(1) show ?thesis
    using release_exact [of "rl_object s" w v hint] by (auto simp: rl_system_inv_def)
next
  case (step_set_limit v w res rl')
  then show ?thesis by (auto simp: KResourceLimit_SetLimitValue_def split: if_splits)
qed

text \<open>
  What the hints run ahead of the values: each release lets the hint go down by its own amount. A release that announces less than it
  gives back makes the hint exceed the value, unless an earlier one has announced it.
\<close>

fun rl_lag :: "LimitableResource \<Rightarrow> rl_event \<Rightarrow> int" where
  "rl_lag which (ERelease w v hint) = (if w = which then v - hint else 0)"
| "rl_lag which _ = 0"

lemma reserve_turn_lag:
  assumes "rl_inv rl" "reserve_asserts rl w v" "in_s64 v" "KResourceLimit_Reserve_turn rl w v timeout tick = (out, rl')"
  shows "m_current_hints rl' which - m_current_values rl' which = m_current_hints rl which - m_current_values rl which"
  using assms(4) by (auto simp: reserve_turn_exact [OF assms(1-3)] split: if_splits)

lemma rl_step_lag:
  assumes "rl_system_inv s" "rl_step s e t"
  shows "m_current_hints (rl_object t) which - m_current_values (rl_object t) which =
    m_current_hints (rl_object s) which - m_current_values (rl_object s) which + rl_lag which e"
  using assms(2)
proof (cases rule: rl_step.cases)
  case (step_reserve t w v timeout tick out rl')
  with assms(1) show ?thesis
    using reserve_turn_lag [of "rl_object s" w v timeout tick out rl' which]
    by (auto simp: rl_system_inv_def KResourceLimit_Reserve_def split: if_splits)
next
  case (step_resume t w v timeout tick out rl')
  moreover from this assms(1) have "phase_args_ok (Woken w v timeout)" by (metis rl_system_inv_def)
  ultimately show ?thesis
    using assms(1)
      reserve_turn_lag [of "(rl_object s)\<lparr>m_waiter_count := m_waiter_count (rl_object s) - 1\<rparr>" w v timeout tick out rl' which]
    by (simp add: rl_system_inv_def KResourceLimit_Reserve_resume_def)
next
  case (step_release w v hint rl' wake)
  with assms(1) show ?thesis
    using release_exact [of "rl_object s" w v hint] by (auto simp: rl_system_inv_def)
next
  case (step_set_limit v w res rl')
  then show ?thesis by (auto simp: KResourceLimit_SetLimitValue_def split: if_splits)
qed simp

interpretation rllag: accounted_system rl_start rl_step rl_system_inv
    "\<lambda>s. m_current_hints (rl_object s) which - m_current_values (rl_object s) which" "rl_lag which" for which
  by unfold_locales (rule rl_step_lag)

interpretation rlacc: accounted_system rl_start rl_step rl_system_inv
    "\<lambda>s. m_current_values (rl_object s) which" "rl_delta which" for which
  by unfold_locales (rule rl_step_current)

lemma set_limits_inv:
  "rl_inv rl \<Longrightarrow> \<forall>(w, v) \<in> set ls. in_s64 v \<Longrightarrow> rl_inv (snd (set_limits rl ls))"
proof (induction ls arbitrary: rl)
  case Nil
  then show ?case by simp
next
  case (Cons a ls)
  obtain w v where a: "a = (w, v)" by fastforce
  with Cons.prems have "rl_inv (snd (KResourceLimit_SetLimitValue rl w v))"
    by (auto intro: rl_inv_set_limit)
  with Cons a show ?case by (simp add: split_beta Let_def)
qed

lemma set_limits_waiters: "m_waiter_count (snd (set_limits rl ls)) = m_waiter_count rl"
proof (induction ls arbitrary: rl)
  case Nil
  then show ?case by simp
next
  case (Cons a ls)
  then show ?case
    by (cases a) (simp add: split_beta Let_def KResourceLimit_SetLimitValue_def)
qed

lemma process_limits_in_s64: "in_s64 n \<Longrightarrow> \<forall>(w, v) \<in> set (process_limits n). in_s64 v"
  by (simp add: process_limits_def in_s64_def)

lemma created_start:
  assumes "CreateResourceLimitForProcess n = (ok, rl)" "in_s64 n"
  shows "rl_start (rl_system_init rl)"
proof -
  have rl: "rl = snd (set_limits KResourceLimit_create (process_limits n))"
    using assms(1) by (simp add: CreateResourceLimitForProcess_def)
  have "m_waiter_count rl = 0"
    by (simp add: rl set_limits_waiters KResourceLimit_create_def)
  moreover have "rl_inv rl"
    unfolding rl by (rule set_limits_inv [OF rl_inv_create process_limits_in_s64 [OF assms(2)]])
  ultimately show ?thesis by (auto simp: rl_start_def)
qed

lemma created_values:
  assumes "CreateResourceLimitForProcess n = (ok, rl)"
  shows "m_current_values rl which = 0" "m_current_hints rl which = 0"
    and "0 \<le> n \<Longrightarrow> ok"
    and "0 \<le> n \<Longrightarrow> (which, v) \<in> set (process_limits n) \<Longrightarrow> m_limit_values rl which = v"
  using assms
  by (auto simp: CreateResourceLimitForProcess_def process_limits_def KResourceLimit_create_def
      KResourceLimit_SetLimitValue_def split: if_splits)

section \<open>A concrete run\<close>

text \<open>
  A process limit of 100 bytes: thread 0 reserves all 800 threads, one hint is given back, so
  thread 1 may wait for the thread slot whose release has been announced.
\<close>

abbreviation demo_rl :: KResourceLimit where
  "demo_rl \<equiv> snd (CreateResourceLimitForProcess 100)"

abbreviation demo_events :: "rl_event list" where
  "demo_events \<equiv> [EReserve 0 ThreadCountMax 800 (-1) 0 ReserveTrue, ERelease ThreadCountMax 0 1,
     EReserve 1 ThreadCountMax 1 (-1) 0 ReserveWait]"

lemma step_reserveI:
  "rl_phases s t = Outside \<Longrightarrow> reserve_asserts (rl_object s) which v \<Longrightarrow> in_s64 v \<Longrightarrow>
   fst (KResourceLimit_Reserve (rl_object s) which v timeout tick) = out \<Longrightarrow>
   rl_step s (EReserve t which v timeout tick out)
     (s\<lparr>rl_object := snd (KResourceLimit_Reserve (rl_object s) which v timeout tick),
        rl_phases := (rl_phases s)(t := phase_after out which v timeout)\<rparr>)"
  by (rule step_reserve) auto

lemma step_releaseI:
  "release_asserts (rl_object s) which v hint \<Longrightarrow>
   rl_step s (ERelease which v hint)
     (s\<lparr>rl_object := fst (KResourceLimit_Release (rl_object s) which v hint),
        rl_phases := (if snd (KResourceLimit_Release (rl_object s) which v hint)
                      then broadcast_phase \<circ> rl_phases s else rl_phases s)\<rparr>)"
  by (rule step_release) auto

lemma created_eq: "CreateResourceLimitForProcess 100 = (True, demo_rl)"
  by (simp add: CreateResourceLimitForProcess_def process_limits_def KResourceLimit_create_def
      KResourceLimit_SetLimitValue_def)

lemmas rl_eval = CreateResourceLimitForProcess_def process_limits_def KResourceLimit_create_def
  KResourceLimit_SetLimitValue_def KResourceLimit_Reserve_def KResourceLimit_Reserve_turn_def
  KResourceLimit_Release_def release_asserts_def reserve_asserts_def WrappingAdd_def wrap_s64_def in_s64_def Let_def
  rl_system_init_def phase_after_def

lemma demo_run:
  "\<exists>s s'. run rl_step (rl_system_init demo_rl) demo_events s \<and>
     rl_phases s 1 = Asleep ThreadCountMax 1 (-1) \<and>
     rl_step s (ERelease ThreadCountMax 1 0) s'"
proof -
  let ?s0 = "rl_system_init demo_rl"
  define s1 where "s1 = ?s0\<lparr>rl_object := snd (KResourceLimit_Reserve (rl_object ?s0) ThreadCountMax 800 (-1) 0),
        rl_phases := (rl_phases ?s0)(0 := phase_after ReserveTrue ThreadCountMax 800 (-1))\<rparr>"
  define s2 where "s2 = s1\<lparr>rl_object := fst (KResourceLimit_Release (rl_object s1) ThreadCountMax 0 1),
        rl_phases := (if snd (KResourceLimit_Release (rl_object s1) ThreadCountMax 0 1)
                      then broadcast_phase \<circ> rl_phases s1 else rl_phases s1)\<rparr>"
  define s3 where "s3 = s2\<lparr>rl_object := snd (KResourceLimit_Reserve (rl_object s2) ThreadCountMax 1 (-1) 0),
        rl_phases := (rl_phases s2)(1 := phase_after ReserveWait ThreadCountMax 1 (-1))\<rparr>"
  have e1: "rl_step ?s0 (EReserve 0 ThreadCountMax 800 (-1) 0 ReserveTrue) s1"
    unfolding s1_def by (rule step_reserveI) (simp_all add: rl_eval)
  have e2: "rl_step s1 (ERelease ThreadCountMax 0 1) s2"
    unfolding s2_def by (rule step_releaseI) (simp_all add: s1_def rl_eval)
  have e3: "rl_step s2 (EReserve 1 ThreadCountMax 1 (-1) 0 ReserveWait) s3"
    unfolding s3_def by (rule step_reserveI) (simp_all add: s1_def s2_def rl_eval)
  have "run rl_step ?s0 demo_events s3"
    using run_snoc [where step = rl_step, OF run_two [where step = rl_step, OF e1 e2] e3] by simp
  moreover have "rl_phases s3 1 = Asleep ThreadCountMax 1 (-1)"
    by (simp add: s3_def phase_after_def)
  moreover have "\<exists>s'. rl_step s3 (ERelease ThreadCountMax 1 0) s'"
    by (rule exI, rule step_releaseI) (simp_all add: s1_def s2_def s3_def rl_eval)
  ultimately show ?thesis by blast
qed

lemma in_s64_100: "in_s64 100" "in_s64 5"
  by (simp_all add: in_s64_def)

section \<open>Properties\<close>

text \<open>
  C1. From the resource limit of a new process, whatever threads reserve, sleep, wake, release
  and change limits in whatever order, as long as the assertions of the code hold when they start, every resource keeps
  \<open>0 \<le> current \<le> peak \<le> limit\<close> and a hint that is not negative. The hint is the current value and what the releases of the
  resource gave back without announcing it: it does not exceed the current value, and the assertions of the getters and of the next
  reservation hold, exactly when the releases so far announced at least as much as they gave back.
\<close>

theorem resource_limit_never_exceeded:
  assumes "CreateResourceLimitForProcess n = (ok, rl)" "in_s64 n"
    "run rl_step (rl_system_init rl) es s"
  shows "0 \<le> KResourceLimit_GetCurrentValue (rl_object s) which \<and>
    KResourceLimit_GetCurrentValue (rl_object s) which
      \<le> KResourceLimit_GetPeakValue (rl_object s) which \<and>
    KResourceLimit_GetPeakValue (rl_object s) which
      \<le> KResourceLimit_GetLimitValue (rl_object s) which \<and>
    0 \<le> m_current_hints (rl_object s) which \<and>
    m_current_hints (rl_object s) which =
      KResourceLimit_GetCurrentValue (rl_object s) which + sum_list (map (rl_lag which) es) \<and>
    (getter_asserts (rl_object s) which \<longleftrightarrow> sum_list (map (rl_lag which) es) \<le> 0) \<and>
    (reserve_asserts (rl_object s) which v \<longleftrightarrow> 0 \<le> v \<and> sum_list (map (rl_lag which) es) \<le> 0)"
proof -
  have start: "rl_start (rl_system_init rl)" by (rule created_start [OF assms(1,2)])
  have "rl_inv (rl_object s)"
    using rlsys.reachable_inv [OF start assms(3)] by (simp add: rl_system_inv_def)
  note i = rl_inv_at [OF this, of which]
  have lag: "m_current_hints (rl_object s) which = m_current_values (rl_object s) which + sum_list (map (rl_lag which) es)"
    using rllag.run_level [OF assms(3) rlsys.inv_init [OF start], of which] created_values(1,2) [OF assms(1), of which]
    by (simp add: rl_system_init_def)
  show ?thesis
    using i lag by (auto simp: KResourceLimit_GetCurrentValue_def KResourceLimit_GetPeakValue_def
        KResourceLimit_GetLimitValue_def getter_asserts_def reserve_asserts_def)
qed

theorem resource_limit_never_exceeded_witness:
  "\<exists>s. run rl_step (rl_system_init demo_rl) demo_events s \<and>
    KResourceLimit_GetPeakValue (rl_object s) ThreadCountMax \<le> KResourceLimit_GetLimitValue (rl_object s) ThreadCountMax \<and>
    getter_asserts (rl_object s) ThreadCountMax \<and> reserve_asserts (rl_object s) ThreadCountMax 1"
proof -
  obtain s where s: "run rl_step (rl_system_init demo_rl) demo_events s" using demo_run by blast
  with resource_limit_never_exceeded [OF created_eq in_s64_100(1) s, of ThreadCountMax 1] show ?thesis by auto
qed

text \<open>
  C2. Conservation: the current value of a resource is the sum of the successful reservations
  less the sum of the releases, over any interleaving.
\<close>

theorem resource_accounting:
  assumes "CreateResourceLimitForProcess n = (ok, rl)" "in_s64 n"
    "run rl_step (rl_system_init rl) es s"
  shows "KResourceLimit_GetCurrentValue (rl_object s) which = sum_list (map (rl_delta which) es)"
proof -
  have "rl_system_inv (rl_system_init rl)"
    by (rule rlsys.inv_init [OF created_start [OF assms(1,2)]])
  then show ?thesis
    using rlacc.run_level [OF assms(3), of which] created_values(1) [OF assms(1)]
    by (simp add: KResourceLimit_GetCurrentValue_def rl_system_init_def)
qed

theorem resource_accounting_witness:
  "\<exists>s. run rl_step (rl_system_init demo_rl) demo_events s \<and>
    KResourceLimit_GetCurrentValue (rl_object s) ThreadCountMax = 800"
proof -
  obtain s where s: "run rl_step (rl_system_init demo_rl) demo_events s"
    using demo_run by blast
  with resource_accounting [OF created_eq in_s64_100(1) s, of ThreadCountMax] show ?thesis by auto
qed

text \<open>
  C3. No lost wake-up: after any release of a reachable system, no thread is left asleep on
  the condition variable, because the waiter count is the number of threads inside the wait.
\<close>

theorem release_wakes_every_waiter:
  assumes "CreateResourceLimitForProcess n = (ok, rl)" "in_s64 n"
    "run rl_step (rl_system_init rl) es s" "rl_step s (ERelease which v hint) s'"
  shows "rl_phases s' t \<noteq> Asleep w u timeout"
proof -
  have inv: "rl_system_inv s"
    by (rule rlsys.reachable_inv [OF created_start [OF assms(1,2)] assms(3)])
  from assms(4) obtain rl' wake where
    rel: "KResourceLimit_Release (rl_object s) which v hint = (rl', wake)" and
    s': "s' = s\<lparr>rl_object := rl',
          rl_phases := (if wake then broadcast_phase \<circ> rl_phases s else rl_phases s)\<rparr>"
    by (auto elim: rl_step_releaseE)
  show ?thesis
  proof (cases "inside s = {}")
    case True
    then show ?thesis by (auto simp: s' inside_def)
  next
    case False
    with inv have "m_waiter_count (rl_object s) \<noteq> 0" by (simp add: rl_system_inv_def)
    with rel have wake by (auto simp: KResourceLimit_Release_def)
    then show ?thesis by (simp add: s')
  qed
qed

theorem release_wakes_every_waiter_witness:
  "\<exists>s s'. rl_phases s 1 = Asleep ThreadCountMax 1 (-1) \<and> rl_step s (ERelease ThreadCountMax 1 0) s' \<and>
    rl_phases s' 1 \<noteq> Asleep ThreadCountMax 1 (-1)"
  using demo_run release_wakes_every_waiter [OF created_eq in_s64_100(1)] by blast

text \<open>
  What \<^verbatim>\<open>Reserve\<close> decides, on every branch: it succeeds exactly when the amount is positive
  and fits under the limit, waits exactly when the amount could fit once hinted releases finish
  and the deadline has not passed, and otherwise fails with nothing changed.
\<close>

theorem reserve_decision:
  assumes "rl_inv rl" "reserve_asserts rl which v" "in_s64 v"
    "KResourceLimit_Reserve rl which v timeout tick = (out, rl')"
  shows "(out = ReserveTrue \<longleftrightarrow>
        0 < v \<and> m_current_values rl which + v \<le> m_limit_values rl which) \<and>
     (out = ReserveWait \<longleftrightarrow>
        0 < v \<and> in_s64 (m_current_values rl which + v) \<and>
        m_limit_values rl which < m_current_values rl which + v \<and>
        m_current_hints rl which + v \<le> m_limit_values rl which \<and>
        (timeout < 0 \<or> tick < timeout)) \<and>
     (out = ReserveFalse \<longrightarrow> rl' = rl) \<and>
     (\<forall>r. m_current_values rl' r - m_current_values rl r =
            (if r = which \<and> out = ReserveTrue then v else 0)) \<and>
     m_limit_values rl' = m_limit_values rl"
proof -
  note b = rl_inv_at [OF assms(1), of which]
  have v: "0 \<le> v" "m_current_hints rl which \<le> m_current_values rl which" using assms(2) by (simp_all add: reserve_asserts_def)
  have fits: "in_s64 (m_current_values rl which + v)"
    if "m_current_values rl which + v \<le> m_limit_values rl which"
    using that b v by (simp add: in_s64_def)
  have cur: "\<forall>r. m_current_values rl' r - m_current_values rl r =
      (if r = which \<and> out = ReserveTrue then v else 0)"
    using reserve_current [OF assms] by auto
  show ?thesis
    using v assms(4) b fits cur
    by (auto simp: KResourceLimit_Reserve_def reserve_turn_exact [OF assms(1-3)] split: if_splits)
qed

theorem reserve_decision_witness:
  "fst (KResourceLimit_Reserve demo_rl EventCountMax 5 (-1) 0) = ReserveTrue"
proof -
  have inv: "rl_inv demo_rl"
    using set_limits_inv [OF rl_inv_create process_limits_in_s64 [OF in_s64_100(1)]]
    by (simp add: CreateResourceLimitForProcess_def)
  obtain out rl' where e: "KResourceLimit_Reserve demo_rl EventCountMax 5 (-1) 0 = (out, rl')"
    by fastforce
  have "reserve_asserts demo_rl EventCountMax 5" by (simp add: rl_eval)
  moreover have "m_current_values demo_rl EventCountMax + 5 \<le> m_limit_values demo_rl EventCountMax"
    by (simp add: rl_eval)
  ultimately show ?thesis using reserve_decision [OF inv _ in_s64_100(2) e] e by simp
qed

end
