(* ===== verification/BitField.thy ===== *)
theory BitField
  imports Prelude
begin

text \<open>
  \<^verbatim>\<open>common/bit_field.h\<close>: unsigned bit fields inside a word. A field is given by its position and
  its number of bits; reading and writing a field obey the laws of a lens, and two fields that do
  not overlap do not disturb each other.
\<close>

definition BitField_mask :: "nat \<Rightarrow> nat \<Rightarrow> 'a::len word" where
  "BitField_mask pos bits = push_bit pos (drop_bit (LENGTH('a) - bits) (NOT 0))"

definition BitField_FormatValue :: "nat \<Rightarrow> nat \<Rightarrow> 'a::len word \<Rightarrow> 'a word" where
  "BitField_FormatValue pos bits v = push_bit pos v AND BitField_mask pos bits"

definition BitField_ExtractValue :: "nat \<Rightarrow> nat \<Rightarrow> 'a::len word \<Rightarrow> 'a word" where
  "BitField_ExtractValue pos bits storage = drop_bit pos (storage AND BitField_mask pos bits)"

definition BitField_Assign :: "nat \<Rightarrow> nat \<Rightarrow> 'a::len word \<Rightarrow> 'a word \<Rightarrow> 'a word" where
  "BitField_Assign pos bits storage v =
     (storage AND NOT (BitField_mask pos bits)) OR BitField_FormatValue pos bits v"

text \<open>The static assertions of the class: the field is not empty and lies inside the word.\<close>

definition field_ok :: "'a::len itself \<Rightarrow> nat \<Rightarrow> nat \<Rightarrow> bool" where
  "field_ok _ pos bits \<longleftrightarrow> 0 < bits \<and> pos + bits \<le> LENGTH('a)"

lemma bit_BitField_mask:
  "field_ok TYPE('a::len) pos bits \<Longrightarrow>
   bit (BitField_mask pos bits :: 'a word) n \<longleftrightarrow> pos \<le> n \<and> n < pos + bits"
  by (auto simp: BitField_mask_def field_ok_def bit_simps)

lemma bit_ExtractValue:
  "field_ok TYPE('a::len) pos bits \<Longrightarrow>
   bit (BitField_ExtractValue pos bits (s :: 'a word)) n \<longleftrightarrow> n < bits \<and> bit s (pos + n)"
  by (auto simp: BitField_ExtractValue_def bit_simps bit_BitField_mask)

lemma bit_Assign:
  "field_ok TYPE('a::len) pos bits \<Longrightarrow>
   bit (BitField_Assign pos bits (s :: 'a word) v) n \<longleftrightarrow>
     (if pos \<le> n \<and> n < pos + bits then bit v (n - pos) else bit s n)"
  using bit_imp_le_length [of s n]
  by (auto simp: BitField_Assign_def BitField_FormatValue_def bit_simps bit_BitField_mask field_ok_def)

lemmas bit_field_bits = bit_BitField_mask bit_ExtractValue bit_Assign

lemma Extract_Assign_same:
  assumes "field_ok TYPE('a::len) pos bits"
  shows "BitField_ExtractValue pos bits (BitField_Assign pos bits (s :: 'a word) v) = take_bit bits v"
  using assms by (intro bit_eqI) (auto simp: bit_field_bits bit_simps)

lemma Extract_Assign_other:
  assumes "field_ok TYPE('a::len) pos bits" "field_ok TYPE('a) pos' bits'"
    "pos + bits \<le> pos' \<or> pos' + bits' \<le> pos"
  shows "BitField_ExtractValue pos bits (BitField_Assign pos' bits' (s :: 'a word) v) =
    BitField_ExtractValue pos bits s"
  using assms by (intro bit_eqI) (auto simp: bit_field_bits)

lemma Assign_Extract:
  assumes "field_ok TYPE('a::len) pos bits"
  shows "BitField_Assign pos bits (s :: 'a word) (BitField_ExtractValue pos bits s) = s"
  using assms by (intro bit_eqI) (auto simp: bit_field_bits)

lemma Assign_Assign:
  assumes "field_ok TYPE('a::len) pos bits"
  shows "BitField_Assign pos bits (BitField_Assign pos bits (s :: 'a word) v) w =
    BitField_Assign pos bits s w"
  using assms by (intro bit_eqI) (auto simp: bit_field_bits)

lemma Extract_zero [simp]: "BitField_ExtractValue pos bits 0 = 0"
  by (simp add: BitField_ExtractValue_def)

lemma Extract_less:
  assumes "field_ok TYPE('a::len) pos bits"
  shows "unat (BitField_ExtractValue pos bits (s :: 'a word)) < 2 ^ bits"
proof -
  have "BitField_ExtractValue pos bits s = take_bit bits (BitField_ExtractValue pos bits s)"
    using assms by (intro bit_eqI) (auto simp: bit_field_bits bit_simps)
  then have "unat (BitField_ExtractValue pos bits s) =
      take_bit bits (unat (BitField_ExtractValue pos bits s))"
    by (metis unsigned_take_bit_eq)
  then show ?thesis by (metis take_bit_nat_less_exp)
qed

end
