(* ===== verification/AutoObject.thy ===== *)
theory AutoObject
  imports Prelude
begin

text \<open>
  \<^verbatim>\<open>core/hle/kernel/k_auto_object.h\<close>: the reference counts of kernel objects, and the sets of
  registered and in-use objects of \<^verbatim>\<open>KernelCore\<close>. An object is named by its address, a \<^typ>\<open>nat\<close>. The
  compare-and-exchange loops are one atomic update each. \<^verbatim>\<open>Destroy\<close> is a virtual method; the
  model records the objects it was called on.
\<close>

record kernel_objects =
  ko_ref_count :: "nat \<Rightarrow> nat"
  ko_in_use :: "nat set"
  ko_registered :: "nat set"
  ko_destroyed :: "nat list"

definition KAutoObject_Open :: "kernel_objects \<Rightarrow> nat \<Rightarrow> bool \<times> kernel_objects" where
  "KAutoObject_Open ks obj =
     (let cur_ref_count = ko_ref_count ks obj
      in if cur_ref_count = 0 then (False, ks)
         else (True, ks\<lparr>ko_ref_count := (ko_ref_count ks)(obj := (cur_ref_count + 1) mod 2 ^ 32)\<rparr>))"

definition KAutoObject_Close :: "kernel_objects \<Rightarrow> nat \<Rightarrow> kernel_objects" where
  "KAutoObject_Close ks obj =
     (let n = (ko_ref_count ks obj + (2 ^ 32 - 1)) mod 2 ^ 32;
          ks' = ks\<lparr>ko_ref_count := (ko_ref_count ks)(obj := n)\<rparr>
      in if n = 0
         then ks'\<lparr>ko_destroyed := obj # ko_destroyed ks',
                  ko_registered := ko_registered ks' - {obj}\<rparr>
         else ks')"

definition KernelCore_UnregisterInUseObject :: "kernel_objects \<Rightarrow> nat \<Rightarrow> kernel_objects" where
  "KernelCore_UnregisterInUseObject ks obj = ks\<lparr>ko_in_use := ko_in_use ks - {obj}\<rparr>"

section \<open>Reference arithmetic\<close>

definition live :: "kernel_objects \<Rightarrow> nat \<Rightarrow> bool" where
  "live ks obj \<longleftrightarrow> 0 < ko_ref_count ks obj \<and> ko_ref_count ks obj < 2 ^ 32 - 1"

lemma Open_live:
  "live ks obj \<Longrightarrow> KAutoObject_Open ks obj =
     (True, ks\<lparr>ko_ref_count := (ko_ref_count ks)(obj := ko_ref_count ks obj + 1)\<rparr>)"
  by (simp add: live_def KAutoObject_Open_def Let_def)

lemma dec_mod: "0 < (n::nat) \<Longrightarrow> n < 2 ^ 32 \<Longrightarrow> (n + (2 ^ 32 - 1)) mod 2 ^ 32 = n - 1"
proof -
  assume n: "0 < n" "n < 2 ^ 32"
  then have "n + (2 ^ 32 - 1) = (n - 1) + 2 ^ 32" by simp
  then show ?thesis using n by (metis mod_add_self2 mod_less less_imp_diff_less)
qed

lemma Close_count:
  assumes "0 < ko_ref_count ks obj" "ko_ref_count ks obj < 2 ^ 32"
  shows "ko_ref_count (KAutoObject_Close ks obj) =
      (ko_ref_count ks)(obj := ko_ref_count ks obj - 1)"
    and "ko_destroyed (KAutoObject_Close ks obj) =
      (if ko_ref_count ks obj = 1 then obj # ko_destroyed ks else ko_destroyed ks)"
    and "ko_in_use (KAutoObject_Close ks obj) = ko_in_use ks"
    and "ko_registered (KAutoObject_Close ks obj) =
      (if ko_ref_count ks obj = 1 then ko_registered ks - {obj} else ko_registered ks)"
  using assms by (simp_all only: KAutoObject_Close_def Let_def dec_mod) auto

lemma Unregister_fields [simp]:
  "ko_ref_count (KernelCore_UnregisterInUseObject ks obj) = ko_ref_count ks"
  "ko_destroyed (KernelCore_UnregisterInUseObject ks obj) = ko_destroyed ks"
  "live (KernelCore_UnregisterInUseObject ks obj) = live ks"
  by (simp_all add: KernelCore_UnregisterInUseObject_def live_def fun_eq_iff)

end
