(* ===== verification/HandleTable.thy ===== *)
theory HandleTable
  imports BitField AutoObject Transition
begin

text \<open>
  \<^verbatim>\<open>core/hle/kernel/k_handle_table.{h,cpp}\<close>: the per-process table from handles to kernel
  objects. An entry is a 16-bit union that holds the linear id of a live entry or the link of
  the free list; the model keeps the 16 bits and reads them both ways, as the code does.
  The spin lock makes each operation atomic.
\<close>

section \<open>Handles\<close>

type_synonym Handle = u32

definition CurrentThread :: Handle where "CurrentThread = 0xFFFF8000"
definition CurrentProcess :: Handle where "CurrentProcess = 0xFFFF8001"

definition IsPseudoHandle :: "Handle \<Rightarrow> bool" where
  "IsPseudoHandle h \<longleftrightarrow> h = CurrentProcess \<or> h = CurrentThread"

definition HandlePack_index :: "Handle \<Rightarrow> nat" where
  "HandlePack_index h = unat (BitField_ExtractValue 0 15 h)"

definition HandlePack_linear_id :: "Handle \<Rightarrow> nat" where
  "HandlePack_linear_id h = unat (BitField_ExtractValue 15 15 h)"

definition HandlePack_reserved :: "Handle \<Rightarrow> nat" where
  "HandlePack_reserved h = unat (BitField_ExtractValue 30 2 h)"

definition EncodeHandle :: "nat \<Rightarrow> nat \<Rightarrow> Handle" where
  "EncodeHandle index linear_id =
     (let h = 0;
          h = BitField_Assign 0 15 h (word_of_nat index);
          h = BitField_Assign 15 15 h (word_of_nat linear_id)
      in BitField_Assign 30 2 h 0)"

definition MaxTableSize :: nat where "MaxTableSize = 1024"
definition MinLinearId :: nat where "MinLinearId = 1"
definition MaxLinearId :: nat where "MaxLinearId = 0x7FFF"

section \<open>The table\<close>

text \<open>The 16 bits of \<^verbatim>\<open>EntryInfo\<close>, read as \<^verbatim>\<open>u16\<close> and as \<^verbatim>\<open>s16\<close>.\<close>

type_synonym EntryInfo = u16

definition EntryInfo_GetLinearId :: "EntryInfo \<Rightarrow> nat" where
  "EntryInfo_GetLinearId e = unat e"

definition EntryInfo_GetNextFreeIndex :: "EntryInfo \<Rightarrow> int" where
  "EntryInfo_GetNextFreeIndex e = sint e"

record KHandleTable =
  m_entry_infos :: "EntryInfo list"
  m_objects :: "nat option list"
  m_free_head_index :: int
  m_table_size :: nat
  m_max_count :: nat
  m_next_linear_id :: nat
  m_count :: nat

definition KHandleTable_create :: KHandleTable where
  "KHandleTable_create =
     \<lparr>m_entry_infos = replicate MaxTableSize 0, m_objects = replicate MaxTableSize None,
      m_free_head_index = 0, m_table_size = 0, m_max_count = 0, m_next_linear_id = 0,
      m_count = 0\<rparr>"

text \<open>The loop of \<^verbatim>\<open>Initialize\<close> from index \<open>i\<close>, with \<open>n\<close> entries to go.\<close>

fun free_all_entries :: "nat \<Rightarrow> nat \<Rightarrow> KHandleTable \<Rightarrow> KHandleTable" where
  "free_all_entries i 0 t = t"
| "free_all_entries i (Suc n) t =
     free_all_entries (Suc i) n
       (t\<lparr>m_objects := (m_objects t)[i := None],
          m_entry_infos := (m_entry_infos t)[i := word_of_int (int i - 1)],
          m_free_head_index := int i\<rparr>)"

definition KHandleTable_Initialize :: "KHandleTable \<Rightarrow> int \<Rightarrow> Result \<times> KHandleTable" where
  "KHandleTable_Initialize t sz =
     (if \<not> sz \<le> int MaxTableSize then (ResultOutOfMemory, t)
      else let n = (if sz \<le> 0 then MaxTableSize else nat sz);
               t1 = t\<lparr>m_max_count := 0, m_table_size := n, m_next_linear_id := MinLinearId,
                      m_count := 0, m_free_head_index := -1\<rparr>
           in (ResultSuccess, free_all_entries 0 n t1))"

definition KHandleTable_AllocateEntry :: "KHandleTable \<Rightarrow> nat \<times> KHandleTable" where
  "KHandleTable_AllocateEntry t =
     (let index = nat (m_free_head_index t); count = (m_count t + 1) mod 2 ^ 16
      in (index,
          t\<lparr>m_free_head_index := EntryInfo_GetNextFreeIndex (m_entry_infos t ! index),
             m_count := count, m_max_count := max (m_max_count t) count\<rparr>))"

definition KHandleTable_FreeEntry :: "KHandleTable \<Rightarrow> nat \<Rightarrow> KHandleTable" where
  "KHandleTable_FreeEntry t index =
     t\<lparr>m_objects := (m_objects t)[index := None],
       m_entry_infos := (m_entry_infos t)[index := word_of_int (m_free_head_index t)],
       m_free_head_index := int index,
       m_count := (m_count t + (2 ^ 16 - 1)) mod 2 ^ 16\<rparr>"

definition KHandleTable_AllocateLinearId :: "KHandleTable \<Rightarrow> nat \<times> KHandleTable" where
  "KHandleTable_AllocateLinearId t =
     (let lid = m_next_linear_id t; next_id = (lid + 1) mod 2 ^ 16
      in (lid, t\<lparr>m_next_linear_id := (if next_id > MaxLinearId then MinLinearId else next_id)\<rparr>))"

definition KHandleTable_IsValidHandle :: "KHandleTable \<Rightarrow> Handle \<Rightarrow> bool" where
  "KHandleTable_IsValidHandle t h =
     (if h = 0 then False
      else if HandlePack_linear_id h = 0 then False
      else if HandlePack_index h \<ge> m_table_size t then False
      else if m_objects t ! HandlePack_index h = None then False
      else if EntryInfo_GetLinearId (m_entry_infos t ! HandlePack_index h) \<noteq> HandlePack_linear_id h
        then False
      else True)"

definition KHandleTable_GetObjectImpl :: "KHandleTable \<Rightarrow> Handle \<Rightarrow> nat option" where
  "KHandleTable_GetObjectImpl t h =
     (if HandlePack_reserved h \<noteq> 0 then None
      else if KHandleTable_IsValidHandle t h then m_objects t ! HandlePack_index h
      else None)"

definition KHandleTable_GetObjectByIndexImpl ::
  "KHandleTable \<Rightarrow> nat \<Rightarrow> (Handle \<times> nat) option" where
  "KHandleTable_GetObjectByIndexImpl t index =
     (if index \<ge> m_table_size t then None
      else case m_objects t ! index of
        None \<Rightarrow> None
      | Some obj \<Rightarrow>
          Some (EncodeHandle index (EntryInfo_GetLinearId (m_entry_infos t ! index)), obj))"

text \<open>
  \<^verbatim>\<open>GetObject<T>\<close> and its variants. \<open>is_t\<close> is the class test of \<^verbatim>\<open>DynamicCast<T*>\<close>;
  the pseudo handles stand for the current process and thread.
\<close>

definition KHandleTable_GetObjectWithoutPseudoHandle ::
  "KHandleTable \<Rightarrow> (nat \<Rightarrow> bool) \<Rightarrow> Handle \<Rightarrow> nat option" where
  "KHandleTable_GetObjectWithoutPseudoHandle t is_t h =
     (case KHandleTable_GetObjectImpl t h of
        None \<Rightarrow> None
      | Some obj \<Rightarrow> (if is_t obj then Some obj else None))"

text \<open>
  In \<^verbatim>\<open>GetObject<T>\<close> two compile-time tests select the pseudo handle that applies: whether
  \<^verbatim>\<open>KProcess\<close>, or else \<^verbatim>\<open>KThread\<close>, derives from \<^verbatim>\<open>T\<close>.
\<close>

definition KHandleTable_GetObject ::
  "KHandleTable \<Rightarrow> bool \<Rightarrow> bool \<Rightarrow> (nat \<Rightarrow> bool) \<Rightarrow> nat \<Rightarrow> nat \<Rightarrow> Handle \<Rightarrow> nat option" where
  "KHandleTable_GetObject t for_process for_thread is_t cur_process cur_thread h =
     (if for_process \<and> h = CurrentProcess then Some cur_process
      else if \<not> for_process \<and> for_thread \<and> h = CurrentThread then Some cur_thread
      else KHandleTable_GetObjectWithoutPseudoHandle t is_t h)"

definition KHandleTable_GetObjectForIpc ::
  "KHandleTable \<Rightarrow> Handle \<Rightarrow> nat \<Rightarrow> nat \<Rightarrow> nat option" where
  "KHandleTable_GetObjectForIpc t h cur_thread cur_process =
     (if h = CurrentProcess then Some cur_process
      else if h = CurrentThread then Some cur_thread
      else KHandleTable_GetObjectImpl t h)"

section \<open>Operations\<close>

definition KHandleTable_Add ::
  "KHandleTable \<Rightarrow> kernel_objects \<Rightarrow> nat \<Rightarrow> Result \<times> Handle option \<times> KHandleTable \<times> kernel_objects" where
  "KHandleTable_Add t ks obj =
     (if \<not> m_count t < m_table_size t then (ResultOutOfHandles, None, t, ks)
      else let (linear_id, t1) = KHandleTable_AllocateLinearId t;
               (index, t2) = KHandleTable_AllocateEntry t1;
               t3 = t2\<lparr>m_entry_infos := (m_entry_infos t2)[index := word_of_nat linear_id],
                       m_objects := (m_objects t2)[index := Some obj]\<rparr>;
               ks' = snd (KAutoObject_Open ks obj)
           in (ResultSuccess, Some (EncodeHandle index linear_id), t3, ks'))"

definition KHandleTable_Remove ::
  "KHandleTable \<Rightarrow> kernel_objects \<Rightarrow> Handle \<Rightarrow> bool \<times> KHandleTable \<times> kernel_objects" where
  "KHandleTable_Remove t ks h =
     (if IsPseudoHandle h then (False, t, ks)
      else if HandlePack_reserved h \<noteq> 0 then (False, t, ks)
      else if KHandleTable_IsValidHandle t h then
        let index = HandlePack_index h; obj = the (m_objects t ! index)
        in (True, KHandleTable_FreeEntry t index,
            KAutoObject_Close (KernelCore_UnregisterInUseObject ks obj) obj)
      else (False, t, ks))"

definition KHandleTable_Reserve :: "KHandleTable \<Rightarrow> Result \<times> Handle option \<times> KHandleTable" where
  "KHandleTable_Reserve t =
     (if \<not> m_count t < m_table_size t then (ResultOutOfHandles, None, t)
      else let (index, t1) = KHandleTable_AllocateEntry t;
               (linear_id, t2) = KHandleTable_AllocateLinearId t1
           in (ResultSuccess, Some (EncodeHandle index linear_id), t2))"

definition KHandleTable_Unreserve :: "KHandleTable \<Rightarrow> Handle \<Rightarrow> KHandleTable" where
  "KHandleTable_Unreserve t h =
     (if HandlePack_index h < m_table_size t then KHandleTable_FreeEntry t (HandlePack_index h) else t)"

definition KHandleTable_Register ::
  "KHandleTable \<Rightarrow> kernel_objects \<Rightarrow> Handle \<Rightarrow> nat \<Rightarrow> KHandleTable \<times> kernel_objects" where
  "KHandleTable_Register t ks h obj =
     (let index = HandlePack_index h
      in if index < m_table_size t then
           (t\<lparr>m_entry_infos := (m_entry_infos t)[index := word_of_nat (HandlePack_linear_id h)],
              m_objects := (m_objects t)[index := Some obj]\<rparr>,
            snd (KAutoObject_Open ks obj))
         else (t, ks))"

fun close_entries :: "nat option list \<Rightarrow> kernel_objects \<Rightarrow> kernel_objects" where
  "close_entries [] ks = ks"
| "close_entries (None # os) ks = close_entries os ks"
| "close_entries (Some obj # os) ks = close_entries os (KAutoObject_Close ks obj)"

definition KHandleTable_Finalize ::
  "KHandleTable \<Rightarrow> kernel_objects \<Rightarrow> Result \<times> KHandleTable \<times> kernel_objects" where
  "KHandleTable_Finalize t ks =
     (let saved_table_size = m_table_size t
      in (ResultSuccess, t\<lparr>m_table_size := 0\<rparr>, close_entries (take saved_table_size (m_objects t)) ks))"

text \<open>
  \<^verbatim>\<open>GetMultipleObjects<T>\<close>: the loop opens the objects of a prefix of the handles, then either
  every handle was converted or the opened ones are closed again.
\<close>

fun open_multiple ::
  "KHandleTable \<Rightarrow> (nat \<Rightarrow> bool) \<Rightarrow> Handle list \<Rightarrow> kernel_objects \<Rightarrow> nat list \<times> kernel_objects" where
  "open_multiple t is_t [] ks = ([], ks)"
| "open_multiple t is_t (h # hs) ks =
     (case KHandleTable_GetObjectImpl t h of
        None \<Rightarrow> ([], ks)
      | Some obj \<Rightarrow>
          if is_t obj then
            let (out, ks') = open_multiple t is_t hs (snd (KAutoObject_Open ks obj))
            in (obj # out, ks')
          else ([], ks))"

definition KHandleTable_GetMultipleObjects ::
  "KHandleTable \<Rightarrow> (nat \<Rightarrow> bool) \<Rightarrow> Handle list \<Rightarrow> kernel_objects \<Rightarrow> bool \<times> nat list \<times> kernel_objects" where
  "KHandleTable_GetMultipleObjects t is_t hs ks =
     (let (out, ks') = open_multiple t is_t hs ks
      in if length out = length hs then (True, out, ks')
         else (False, out, fold (\<lambda>obj k. KAutoObject_Close k obj) out ks'))"

section \<open>Encoding of handles\<close>

lemma handle_fields_ok [simp]:
  "field_ok TYPE(32) 0 15" "field_ok TYPE(32) 15 15" "field_ok TYPE(32) 30 2"
  by (simp_all add: field_ok_def)

lemma EncodeHandle_fields:
  assumes "i < 2 ^ 15" "l < 2 ^ 15"
  shows "HandlePack_index (EncodeHandle i l) = i"
    and "HandlePack_linear_id (EncodeHandle i l) = l"
    and "HandlePack_reserved (EncodeHandle i l) = 0"
  using assms
  by (simp_all add: EncodeHandle_def Let_def HandlePack_index_def HandlePack_linear_id_def
      HandlePack_reserved_def Extract_Assign_same Extract_Assign_other unsigned_take_bit_eq
      unsigned_of_nat take_bit_nat_eq_self)

lemma HandlePack_bounds: "HandlePack_index h < 2 ^ 15" "HandlePack_linear_id h < 2 ^ 15"
  using Extract_less [OF handle_fields_ok(1), of h] Extract_less [OF handle_fields_ok(2), of h]
  by (simp_all add: HandlePack_index_def HandlePack_linear_id_def)

lemma EncodeHandle_HandlePack:
  assumes "HandlePack_reserved h = 0"
  shows "EncodeHandle (HandlePack_index h) (HandlePack_linear_id h) = h"
proof -
  have r: "BitField_ExtractValue 30 2 h = 0"
    using assms by (simp add: HandlePack_reserved_def unat_eq_zero)
  have "BitField_Assign 30 2 (BitField_Assign 15 15 (BitField_Assign 0 15 0
      (BitField_ExtractValue 0 15 h)) (BitField_ExtractValue 15 15 h)) (BitField_ExtractValue 30 2 h) = h"
    by (intro bit_eqI) (auto simp: bit_field_bits dest: bit_imp_le_length)
  then show ?thesis
    by (simp add: EncodeHandle_def Let_def HandlePack_index_def HandlePack_linear_id_def r)
qed

lemma EncodeHandle_zero [simp]: "HandlePack_linear_id 0 = 0" "HandlePack_index 0 = 0"
  by (simp_all add: HandlePack_linear_id_def HandlePack_index_def)

section \<open>The interface of a handle table\<close>

text \<open>
  What the clients of a table rely on: it is a finite map from handles to objects; adding makes
  a fresh handle, removing forgets exactly one handle, and a failed removal changes nothing.
\<close>

locale handle_store =
  fixes inv :: "'s \<Rightarrow> bool"
    and find :: "'s \<Rightarrow> Handle \<Rightarrow> nat option"
    and add :: "'s \<Rightarrow> nat \<Rightarrow> (Handle \<times> 's) option"
    and remove :: "'s \<Rightarrow> Handle \<Rightarrow> bool \<times> 's"
  assumes add_inv: "inv s \<Longrightarrow> add s obj = Some (h, s') \<Longrightarrow> inv s'"
    and add_fresh: "inv s \<Longrightarrow> add s obj = Some (h, s') \<Longrightarrow> find s h = None \<and> h \<noteq> 0"
    and add_find: "inv s \<Longrightarrow> add s obj = Some (h, s') \<Longrightarrow> find s' = (find s)(h \<mapsto> obj)"
    and remove_inv: "inv s \<Longrightarrow> inv (snd (remove s h))"
    and remove_ok: "inv s \<Longrightarrow> fst (remove s h) \<longleftrightarrow> find s h \<noteq> None"
    and remove_find: "inv s \<Longrightarrow> find (snd (remove s h)) = (find s)(h := None)"
begin

lemma add_then_find: "inv s \<Longrightarrow> add s obj = Some (h, s') \<Longrightarrow> find s' h = Some obj"
  by (simp add: add_find)

lemma add_keeps: "inv s \<Longrightarrow> add s obj = Some (h, s') \<Longrightarrow> find s h' = Some obj' \<Longrightarrow> find s' h' = Some obj'"
  by (metis add_find add_fresh fun_upd_apply option.distinct(1))

lemma add_remove:
  assumes "inv s" "add s obj = Some (h, s')"
  shows "fst (remove s' h)" "find (snd (remove s' h)) = find s"
proof -
  note i = add_inv [OF assms]
  show "fst (remove s' h)" using i assms by (simp add: remove_ok add_find)
  show "find (snd (remove s' h)) = find s"
    using i assms add_fresh [OF assms] by (auto simp: remove_find add_find fun_eq_iff)
qed

lemma double_remove: "inv s \<Longrightarrow> \<not> fst (remove (snd (remove s h)) h)"
  by (simp add: remove_ok remove_inv remove_find)

end

section \<open>The free list\<close>

text \<open>The links from \<open>h\<close> visit exactly the entries \<open>fl\<close> and end in \<open>-1\<close>.\<close>

primrec free_path :: "EntryInfo list \<Rightarrow> int \<Rightarrow> nat list \<Rightarrow> bool" where
  "free_path infos h [] \<longleftrightarrow> h = -1"
| "free_path infos h (i # fl) \<longleftrightarrow> h = int i \<and> i < length infos \<and>
     free_path infos (EntryInfo_GetNextFreeIndex (infos ! i)) fl"

lemma free_path_update [simp]:
  "i \<notin> set fl \<Longrightarrow> free_path (infos[i := e]) h fl = free_path infos h fl"
  by (induction fl arbitrary: h) auto

lemma free_path_unique: "free_path infos h fl \<Longrightarrow> free_path infos h fl' \<Longrightarrow> fl = fl'"
proof (induction fl arbitrary: h fl')
  case Nil
  then show ?case by (cases fl') auto
next
  case (Cons i fl)
  then show ?case by (cases fl') auto
qed

lemma next_free_roundtrip:
  "-(2 ^ 15) \<le> k \<Longrightarrow> k < 2 ^ 15 \<Longrightarrow> EntryInfo_GetNextFreeIndex (word_of_int k) = k"
  by (simp add: EntryInfo_GetNextFreeIndex_def signed_of_int signed_take_bit_int_eq_self)

lemma linear_id_roundtrip: "l < 2 ^ 16 \<Longrightarrow> EntryInfo_GetLinearId (word_of_nat l) = l"
  by (simp add: EntryInfo_GetLinearId_def unsigned_of_nat take_bit_nat_eq_self)

section \<open>Well-formed tables\<close>

definition free_list :: "KHandleTable \<Rightarrow> nat list \<Rightarrow> bool" where
  "free_list t fl \<longleftrightarrow> free_path (m_entry_infos t) (m_free_head_index t) fl \<and> distinct fl \<and>
     (\<forall>i\<in>set fl. i < m_table_size t \<and> m_objects t ! i = None) \<and>
     m_count t + length fl = m_table_size t"

definition live_ids :: "KHandleTable \<Rightarrow> bool" where
  "live_ids t \<longleftrightarrow> (\<forall>i<m_table_size t. m_objects t ! i \<noteq> None \<longrightarrow>
     MinLinearId \<le> EntryInfo_GetLinearId (m_entry_infos t ! i) \<and>
     EntryInfo_GetLinearId (m_entry_infos t ! i) \<le> MaxLinearId)"

definition ht_inv :: "KHandleTable \<Rightarrow> bool" where
  "ht_inv t \<longleftrightarrow> length (m_entry_infos t) = MaxTableSize \<and> length (m_objects t) = MaxTableSize \<and>
     m_table_size t \<le> MaxTableSize \<and>
     MinLinearId \<le> m_next_linear_id t \<and> m_next_linear_id t \<le> MaxLinearId \<and>
     m_count t \<le> m_max_count t \<and> m_max_count t \<le> m_table_size t \<and>
     live_ids t \<and> (\<exists>fl. free_list t fl)"

lemmas ht_defs = ht_inv_def free_list_def live_ids_def
lemmas ht_consts = MaxTableSize_def MinLinearId_def MaxLinearId_def

lemma free_list_unique: "free_list t fl \<Longrightarrow> free_list t fl' \<Longrightarrow> fl = fl'"
  by (auto simp: free_list_def dest: free_path_unique)

text \<open>A reserved entry: taken off the free list, without an object yet.\<close>

definition reserved_entry :: "KHandleTable \<Rightarrow> nat \<Rightarrow> bool" where
  "reserved_entry t i \<longleftrightarrow> i < m_table_size t \<and> m_objects t ! i = None \<and>
     (\<forall>fl. free_list t fl \<longrightarrow> i \<notin> set fl)"

lemma ht_inv_fields [simp]:
  "free_list (t\<lparr>m_next_linear_id := n\<rparr>) = free_list t"
  "reserved_entry (t\<lparr>m_next_linear_id := n\<rparr>) = reserved_entry t"
  "live_ids (t\<lparr>m_next_linear_id := n\<rparr>) = live_ids t"
  by (auto simp: fun_eq_iff free_list_def reserved_entry_def live_ids_def)

lemma ht_inv_AllocateLinearId:
  assumes "ht_inv t" "KHandleTable_AllocateLinearId t = (l, t')"
  shows "ht_inv t'" "l = m_next_linear_id t" "1 \<le> l" "l \<le> 0x7FFF"
    "m_objects t' = m_objects t" "m_entry_infos t' = m_entry_infos t"
    "m_table_size t' = m_table_size t" "m_count t' = m_count t"
    "reserved_entry t' = reserved_entry t"
  using assms
  by (auto simp: KHandleTable_AllocateLinearId_def Let_def ht_inv_def ht_consts split: if_splits)

lemma free_list_ConsD:
  assumes "free_list t (i # fl)"
  shows "m_free_head_index t = int i" "i < m_table_size t" "i < length (m_entry_infos t)"
    "m_objects t ! i = None" "i \<notin> set fl" "m_count t + Suc (length fl) = m_table_size t"
  using assms by (auto simp: free_list_def)

lemma ht_inv_AllocateEntry:
  assumes "ht_inv t" "m_count t < m_table_size t" "KHandleTable_AllocateEntry t = (i, t')"
  shows "ht_inv t'" "reserved_entry t' i" "i < m_table_size t" "m_objects t ! i = None"
    "m_objects t' = m_objects t" "m_entry_infos t' = m_entry_infos t"
    "m_table_size t' = m_table_size t" "m_count t' = Suc (m_count t)"
    "m_next_linear_id t' = m_next_linear_id t"
proof -
  from assms(1) obtain fl where fl: "free_list t fl" by (auto simp: ht_inv_def)
  with assms(2) obtain fl' where "fl = i # fl'"
    using assms(3) by (cases fl) (auto simp: free_list_def KHandleTable_AllocateEntry_def Let_def)
  with fl have fl: "free_list t (i # fl')" by simp
  note d = free_list_ConsD [OF fl]
  have cnt: "Suc (m_count t) mod 65536 = Suc (m_count t)"
    using assms(1,2) by (simp add: ht_inv_def ht_consts)
  have t': "t' = t\<lparr>m_free_head_index := EntryInfo_GetNextFreeIndex (m_entry_infos t ! i),
      m_count := Suc (m_count t), m_max_count := max (m_max_count t) (Suc (m_count t))\<rparr>"
    using assms(3) by (auto simp: KHandleTable_AllocateEntry_def Let_def cnt)
  have fl': "free_list t' fl'"
    using fl by (auto simp: free_list_def t')
  show "ht_inv t'"
    using assms(1,2) fl' by (auto simp: ht_inv_def live_ids_def t')
  show "reserved_entry t' i"
    using d(2,4,5) free_list_unique [OF fl'] by (auto simp: reserved_entry_def t')
  show "i < m_table_size t" "m_objects t ! i = None" using d by auto
  show "m_objects t' = m_objects t" "m_entry_infos t' = m_entry_infos t"
    "m_table_size t' = m_table_size t" "m_count t' = Suc (m_count t)"
    "m_next_linear_id t' = m_next_linear_id t"
    by (simp_all add: t')
qed

text \<open>Storing an object into a reserved entry: the common tail of \<^verbatim>\<open>Add\<close> and \<^verbatim>\<open>Register\<close>.\<close>

abbreviation store_entry :: "KHandleTable \<Rightarrow> nat \<Rightarrow> nat \<Rightarrow> nat \<Rightarrow> KHandleTable" where
  "store_entry t i l obj \<equiv>
     t\<lparr>m_entry_infos := (m_entry_infos t)[i := word_of_nat l], m_objects := (m_objects t)[i := Some obj]\<rparr>"

lemma ht_inv_store_entry:
  assumes "ht_inv t" "reserved_entry t i" "1 \<le> l" "l \<le> 0x7FFF"
  shows "ht_inv (store_entry t i l obj)"
proof -
  from assms(1) obtain fl where fl: "free_list t fl" by (auto simp: ht_inv_def)
  with assms(2) have i: "i \<notin> set fl" "i < m_table_size t" "m_objects t ! i = None"
    by (auto simp: reserved_entry_def)
  have "free_list (store_entry t i l obj) fl"
    using fl i by (auto simp: free_list_def) (metis nth_list_update_neq)
  moreover have "live_ids (store_entry t i l obj)"
    using assms i by (auto simp: ht_defs ht_consts nth_list_update linear_id_roundtrip)
  ultimately show ?thesis
    using assms(1) by (auto simp: ht_inv_def)
qed

lemma ht_inv_FreeEntry:
  assumes "ht_inv t" "i < m_table_size t" "\<And>fl. free_list t fl \<Longrightarrow> i \<notin> set fl"
  shows "ht_inv (KHandleTable_FreeEntry t i)"
proof -
  let ?t = "KHandleTable_FreeEntry t i"
  from assms(1) obtain fl where fl: "free_list t fl" by (auto simp: ht_inv_def)
  have i: "i \<notin> set fl" by (rule assms(3) [OF fl])
  have len: "length (m_objects t) = MaxTableSize" "length (m_entry_infos t) = MaxTableSize"
    "m_table_size t \<le> MaxTableSize"
    using assms(1) by (simp_all add: ht_inv_def)
  have "card (insert i (set fl)) \<le> card {..<m_table_size t}"
    using fl assms(2) by (intro card_mono) (auto simp: free_list_def)
  then have "Suc (length fl) \<le> m_table_size t"
    using fl i by (simp add: free_list_def distinct_card)
  with fl have c: "0 < m_count t" by (simp add: free_list_def)
  moreover have "m_count t < 2 ^ 16"
    using assms(1) by (simp add: ht_inv_def ht_consts)
  ultimately have "m_count t + (2 ^ 16 - 1) = (m_count t - 1) + 2 ^ 16" by simp
  then have cnt: "m_count ?t = m_count t - 1"
    using \<open>m_count t < 2 ^ 16\<close>
    by (simp only: KHandleTable_FreeEntry_def KHandleTable.simps mod_add_self2) simp
  have head: "-1 \<le> m_free_head_index t" "m_free_head_index t < 1024"
    using fl len(3) by (cases fl; auto simp: free_list_def ht_consts)+
  then have nx: "EntryInfo_GetNextFreeIndex (word_of_int (m_free_head_index t)) = m_free_head_index t"
    by (intro next_free_roundtrip) auto
  have "free_list ?t (i # fl)"
    using fl i assms(2) len c cnt
    by (auto simp: free_list_def KHandleTable_FreeEntry_def nx nth_list_update)
  moreover have "live_ids ?t"
    using assms(1,2) len by (auto simp: ht_inv_def live_ids_def KHandleTable_FreeEntry_def nth_list_update)
  ultimately show ?thesis
    using assms(1) cnt by (auto simp: ht_inv_def KHandleTable_FreeEntry_def)
qed

lemma used_not_free: "m_objects t ! i \<noteq> None \<Longrightarrow> free_list t fl \<Longrightarrow> i \<notin> set fl"
  by (auto simp: free_list_def)

section \<open>Lookup\<close>

lemma find_iff:
  "KHandleTable_GetObjectImpl t h = Some obj \<longleftrightarrow>
     HandlePack_reserved h = 0 \<and> HandlePack_linear_id h \<noteq> 0 \<and> HandlePack_index h < m_table_size t \<and>
     m_objects t ! HandlePack_index h = Some obj \<and>
     EntryInfo_GetLinearId (m_entry_infos t ! HandlePack_index h) = HandlePack_linear_id h"
  by (auto simp: KHandleTable_GetObjectImpl_def KHandleTable_IsValidHandle_def)

lemma find_store_entry:
  assumes "ht_inv t" "i < m_table_size t" "m_objects t ! i = None" "1 \<le> l" "l \<le> 0x7FFF"
  shows "KHandleTable_GetObjectImpl (store_entry t i l obj) =
    (KHandleTable_GetObjectImpl t)(EncodeHandle i l \<mapsto> obj)"
proof
  fix h
  have i: "i < length (m_objects t)" "i < length (m_entry_infos t)" "i < 2 ^ 15"
    using assms(1,2) by (auto simp: ht_inv_def ht_consts)
  have e: "h = EncodeHandle i l \<longleftrightarrow>
      HandlePack_reserved h = 0 \<and> HandlePack_index h = i \<and> HandlePack_linear_id h = l"
    using EncodeHandle_fields [of i l] EncodeHandle_HandlePack [of h] i(3) assms(5) by auto
  show "KHandleTable_GetObjectImpl (store_entry t i l obj) h =
      ((KHandleTable_GetObjectImpl t)(EncodeHandle i l \<mapsto> obj)) h"
  proof (cases "HandlePack_index h = i")
    case True
    have "KHandleTable_GetObjectImpl t h = None"
      using True assms(3) by (auto simp: KHandleTable_GetObjectImpl_def KHandleTable_IsValidHandle_def)
    moreover have "KHandleTable_GetObjectImpl (store_entry t i l obj) h =
        (if HandlePack_reserved h = 0 \<and> HandlePack_linear_id h = l then Some obj else None)"
      using True i assms(2,4,5)
      by (auto simp: KHandleTable_GetObjectImpl_def KHandleTable_IsValidHandle_def linear_id_roundtrip)
    ultimately show ?thesis using True by (simp add: e)
  next
    case False
    then show ?thesis
      using e by (auto simp: KHandleTable_GetObjectImpl_def KHandleTable_IsValidHandle_def)
  qed
qed

lemma find_FreeEntry:
  assumes "ht_inv t" "i < m_table_size t"
  shows "KHandleTable_GetObjectImpl (KHandleTable_FreeEntry t i) h =
    (if HandlePack_index h = i then None else KHandleTable_GetObjectImpl t h)"
proof -
  have "i < length (m_objects t)" using assms by (simp add: ht_inv_def)
  then show ?thesis
    by (cases "HandlePack_index h = i")
      (simp_all add: KHandleTable_GetObjectImpl_def KHandleTable_IsValidHandle_def
        KHandleTable_FreeEntry_def)
qed

text \<open>At most one handle names an entry, so forgetting the entry forgets one handle.\<close>

lemma find_same_index:
  assumes "KHandleTable_GetObjectImpl t h = Some obj" "KHandleTable_GetObjectImpl t h' = Some obj'"
    "HandlePack_index h = HandlePack_index h'"
  shows "h = h'"
  using assms by (metis find_iff EncodeHandle_HandlePack)

lemma find_FreeEntry_handle:
  assumes "ht_inv t" "KHandleTable_GetObjectImpl t h = Some obj"
  shows "KHandleTable_GetObjectImpl (KHandleTable_FreeEntry t (HandlePack_index h)) =
    (KHandleTable_GetObjectImpl t)(h := None)"
proof
  fix h'
  have "HandlePack_index h < m_table_size t" using assms(2) by (simp add: find_iff)
  then show "KHandleTable_GetObjectImpl (KHandleTable_FreeEntry t (HandlePack_index h)) h' =
      ((KHandleTable_GetObjectImpl t)(h := None)) h'"
    using find_same_index [OF assms(2), of h']
    by (cases "KHandleTable_GetObjectImpl t h'") (auto simp: find_FreeEntry [OF assms(1)])
qed

section \<open>Add and remove\<close>

lemma AddE:
  assumes "ht_inv t" "KHandleTable_Add t ks obj = (ResultSuccess, Some h, t', ks')"
  obtains i l t2 where "h = EncodeHandle i l" "l = m_next_linear_id t" "ht_inv t2"
    "reserved_entry t2 i" "1 \<le> l" "l \<le> 0x7FFF" "t' = store_entry t2 i l obj"
    "i < m_table_size t" "m_objects t ! i = None" "m_objects t2 = m_objects t"
    "m_entry_infos t2 = m_entry_infos t" "m_table_size t2 = m_table_size t"
    "m_count t2 = Suc (m_count t)" "ks' = snd (KAutoObject_Open ks obj)" "m_count t < m_table_size t"
proof -
  from assms(2) have cnt: "m_count t < m_table_size t"
    by (auto simp: KHandleTable_Add_def split: if_splits)
  obtain l t1 where l: "KHandleTable_AllocateLinearId t = (l, t1)" by fastforce
  obtain i t2 where i: "KHandleTable_AllocateEntry t1 = (i, t2)" by fastforce
  note L = ht_inv_AllocateLinearId [OF assms(1) l]
  have cnt1: "m_count t1 < m_table_size t1" using L cnt by simp
  note E = ht_inv_AllocateEntry [OF L(1) cnt1 i]
  from assms(2) cnt l i have
    "h = EncodeHandle i l" "t' = store_entry t2 i l obj" "ks' = snd (KAutoObject_Open ks obj)"
    by (simp_all add: KHandleTable_Add_def Let_def)
  with L E cnt that [of i l t2] show ?thesis by simp
qed

lemma Add_result:
  "KHandleTable_Add t ks obj = (r, ho, t', ks') \<Longrightarrow>
   if m_count t < m_table_size t then r = ResultSuccess \<and> (\<exists>h. ho = Some h)
   else r = ResultOutOfHandles \<and> ho = None \<and> t' = t \<and> ks' = ks"
  by (auto simp: KHandleTable_Add_def Let_def split: if_splits prod.splits)

lemma ht_inv_Add:
  assumes "ht_inv t" "KHandleTable_Add t ks obj = (ResultSuccess, Some h, t', ks')"
  shows "ht_inv t'"
  using AddE [OF assms] ht_inv_store_entry by metis

lemma find_Add:
  assumes "ht_inv t" "KHandleTable_Add t ks obj = (ResultSuccess, Some h, t', ks')"
  shows "KHandleTable_GetObjectImpl t' = (KHandleTable_GetObjectImpl t)(h \<mapsto> obj)"
    and "KHandleTable_GetObjectImpl t h = None" and "h \<noteq> 0"
proof -
  from AddE [OF assms] obtain i l t2 where a: "h = EncodeHandle i l" "ht_inv t2" "1 \<le> l" "l \<le> 0x7FFF"
    "t' = store_entry t2 i l obj" "i < m_table_size t" "m_objects t ! i = None"
    "m_objects t2 = m_objects t" "m_entry_infos t2 = m_entry_infos t"
    "m_table_size t2 = m_table_size t"
    by metis
  have same: "KHandleTable_GetObjectImpl t2 = KHandleTable_GetObjectImpl t"
    using a by (intro ext) (simp add: KHandleTable_GetObjectImpl_def KHandleTable_IsValidHandle_def)
  show "KHandleTable_GetObjectImpl t' = (KHandleTable_GetObjectImpl t)(h \<mapsto> obj)"
    using find_store_entry [of t2 i l obj] a same by simp
  have i: "i < 2 ^ 15" using assms(1) a(6) by (simp add: ht_inv_def ht_consts)
  note f = EncodeHandle_fields [of i l]
  show "KHandleTable_GetObjectImpl t h = None"
    using a i f find_iff [of t h] by (cases "KHandleTable_GetObjectImpl t h") auto
  show "h \<noteq> 0" using f(2) i a(1,3,4) by auto
qed

lemma pseudo_reserved: "IsPseudoHandle h \<Longrightarrow> HandlePack_reserved h \<noteq> 0"
proof
  assume "IsPseudoHandle h" "HandlePack_reserved h = 0"
  then have "bit h 30" "\<not> bit (BitField_ExtractValue 30 2 h) 0"
    by (auto simp: IsPseudoHandle_def CurrentProcess_def CurrentThread_def HandlePack_reserved_def
        unat_eq_zero)
  then show False by (simp add: bit_ExtractValue)
qed

lemma Remove_eq:
  "KHandleTable_Remove t ks h =
     (case KHandleTable_GetObjectImpl t h of
        None \<Rightarrow> (False, t, ks)
      | Some obj \<Rightarrow> (True, KHandleTable_FreeEntry t (HandlePack_index h),
          KAutoObject_Close (KernelCore_UnregisterInUseObject ks obj) obj))"
  using pseudo_reserved [of h]
  by (auto simp: KHandleTable_Remove_def KHandleTable_GetObjectImpl_def KHandleTable_IsValidHandle_def
      Let_def split: option.splits)

lemma ht_inv_Remove: "ht_inv t \<Longrightarrow> ht_inv (fst (snd (KHandleTable_Remove t ks h)))"
  by (auto simp: Remove_eq find_iff free_list_def split: option.splits intro!: ht_inv_FreeEntry)

text \<open>The model of the table provides the interface, on pairs of a table and the objects.\<close>

definition table_add ::
  "KHandleTable \<times> kernel_objects \<Rightarrow> nat \<Rightarrow> (Handle \<times> KHandleTable \<times> kernel_objects) option" where
  "table_add s obj = (case KHandleTable_Add (fst s) (snd s) obj of
     (r, ho, t', ks') \<Rightarrow> (case ho of None \<Rightarrow> None | Some h \<Rightarrow> Some (h, t', ks')))"

lemma table_addD:
  "table_add (t, ks) obj = Some (h, t', ks') \<Longrightarrow>
   KHandleTable_Add t ks obj = (ResultSuccess, Some h, t', ks')"
  using Add_result [of t ks obj]
  by (auto simp: table_add_def split: prod.splits option.splits if_splits)

interpretation ktable: handle_store
  "\<lambda>(t, ks). ht_inv t"
  "\<lambda>(t, ks). KHandleTable_GetObjectImpl t"
  table_add
  "\<lambda>(t, ks) h. KHandleTable_Remove t ks h"
proof (unfold_locales, goal_cases)
  case (1 s obj h s')
  then show ?case by (cases s; cases s') (auto dest!: table_addD intro: ht_inv_Add)
next
  case (2 s obj h s')
  then show ?case using find_Add(2,3) by (cases s; cases s') (fastforce dest!: table_addD)
next
  case (3 s obj h s')
  then show ?case using find_Add(1) by (cases s; cases s') (fastforce dest!: table_addD)
next
  case (4 s h)
  then show ?case using ht_inv_Remove by (cases s) (auto simp: split_beta)
next
  case (5 s h)
  then show ?case by (cases s) (auto simp: Remove_eq split: option.splits)
next
  case (6 s h)
  then show ?case
    by (cases s) (auto simp: Remove_eq find_FreeEntry_handle split: option.splits)
qed

section \<open>Initialisation\<close>

lemma free_all_entries_fields [simp]:
  "length (m_entry_infos (free_all_entries i n t)) = length (m_entry_infos t)"
  "length (m_objects (free_all_entries i n t)) = length (m_objects t)"
  "m_table_size (free_all_entries i n t) = m_table_size t"
  "m_max_count (free_all_entries i n t) = m_max_count t"
  "m_next_linear_id (free_all_entries i n t) = m_next_linear_id t"
  "m_count (free_all_entries i n t) = m_count t"
  by (induction i n t rule: free_all_entries.induct) simp_all

lemma free_all_entries_path:
  assumes "i + n \<le> length (m_entry_infos t)" "i + n \<le> length (m_objects t)" "i + n \<le> 1024"
    "free_path (m_entry_infos t) (m_free_head_index t) (rev [0..<i])"
    "m_free_head_index t = int i - 1" "\<forall>j<i. m_objects t ! j = None"
  shows "free_path (m_entry_infos (free_all_entries i n t)) (m_free_head_index (free_all_entries i n t))
      (rev [0..<i + n])"
    and "\<forall>j<i + n. m_objects (free_all_entries i n t) ! j = None"
  using assms
proof (induction i n t rule: free_all_entries.induct)
  case (1 i t)
  { case 1 then show ?case by simp }
  { case 2 then show ?case by simp }
next
  case (2 i n t)
  let ?t = "t\<lparr>m_objects := (m_objects t)[i := None],
      m_entry_infos := (m_entry_infos t)[i := word_of_int (int i - 1)], m_free_head_index := int i\<rparr>"
  have path: "free_path (m_entry_infos ?t) (int i) (rev [0..<Suc i])"
    if "i + Suc n \<le> length (m_entry_infos t)" "i + Suc n \<le> 1024" "m_free_head_index t = int i - 1"
      "free_path (m_entry_infos t) (m_free_head_index t) (rev [0..<i])"
    using that next_free_roundtrip [of "int i - 1"] by simp
  { case 1
    then show ?case using "2.IH"(1) path by (simp add: less_Suc_eq nth_list_update)
  }
  { case 2
    then show ?case using "2.IH"(2) path by (simp add: less_Suc_eq nth_list_update)
  }
qed

lemma ht_inv_Initialize:
  assumes "length (m_entry_infos t) = MaxTableSize" "length (m_objects t) = MaxTableSize"
    "KHandleTable_Initialize t sz = (ResultSuccess, t')"
  shows "ht_inv t'" and "m_count t' = 0"
    and "m_table_size t' = (if sz \<le> 0 then MaxTableSize else nat sz)"
    and "\<forall>j<m_table_size t'. m_objects t' ! j = None"
proof -
  define n where "n = (if sz \<le> 0 then MaxTableSize else nat sz)"
  define t1 where "t1 = t\<lparr>m_max_count := 0, m_table_size := n, m_next_linear_id := MinLinearId,
      m_count := 0, m_free_head_index := -1\<rparr>"
  from assms(3) have t': "t' = free_all_entries 0 n t1" and sz: "sz \<le> int MaxTableSize"
    by (auto simp: KHandleTable_Initialize_def Let_def n_def t1_def split: if_splits)
  have n: "n \<le> MaxTableSize" using sz by (auto simp: n_def)
  have p: "free_path (m_entry_infos t') (m_free_head_index t') (rev [0..<n])"
    "\<forall>j<n. m_objects t' ! j = None"
    using free_all_entries_path [of 0 n t1] assms(1,2) n by (simp_all add: t' t1_def ht_consts)
  have "free_list t' (rev [0..<n])"
    using p by (simp add: free_list_def t' t1_def)
  moreover have "live_ids t'" using p(2) by (simp add: live_ids_def t' t1_def)
  ultimately show "ht_inv t'"
    using assms(1,2) n by (auto simp: ht_inv_def ht_consts t' t1_def)
  show "m_count t' = 0" "m_table_size t' = (if sz \<le> 0 then MaxTableSize else nat sz)"
    "\<forall>j<m_table_size t'. m_objects t' ! j = None"
    using p(2) by (simp_all add: t' t1_def n_def)
qed

section \<open>Reservations\<close>

lemma ReserveE:
  assumes "ht_inv t" "KHandleTable_Reserve t = (ResultSuccess, Some h, t')"
  obtains i l where "h = EncodeHandle i l" "l = m_next_linear_id t" "ht_inv t'" "reserved_entry t' i"
    "1 \<le> l" "l \<le> 0x7FFF" "i < m_table_size t" "m_objects t' = m_objects t"
    "m_entry_infos t' = m_entry_infos t" "m_table_size t' = m_table_size t"
proof -
  from assms(2) have cnt: "m_count t < m_table_size t"
    by (auto simp: KHandleTable_Reserve_def split: if_splits)
  obtain i t1 where i: "KHandleTable_AllocateEntry t = (i, t1)" by fastforce
  obtain l t2 where l: "KHandleTable_AllocateLinearId t1 = (l, t2)" by fastforce
  note E = ht_inv_AllocateEntry [OF assms(1) cnt i]
  note L = ht_inv_AllocateLinearId [OF E(1) l]
  from assms(2) cnt l i have "h = EncodeHandle i l" "t' = t2"
    by (simp_all add: KHandleTable_Reserve_def)
  with L E that [of i l] show ?thesis by simp
qed

lemma Reserve_result:
  "KHandleTable_Reserve t = (r, ho, t') \<Longrightarrow>
   if m_count t < m_table_size t then r = ResultSuccess \<and> (\<exists>h. ho = Some h)
   else r = ResultOutOfHandles \<and> ho = None \<and> t' = t"
  by (auto simp: KHandleTable_Reserve_def Let_def split: if_splits prod.splits)

lemma find_same_entries:
  "m_objects t' = m_objects t \<Longrightarrow> m_entry_infos t' = m_entry_infos t \<Longrightarrow>
   m_table_size t' = m_table_size t \<Longrightarrow>
   KHandleTable_GetObjectImpl t' = KHandleTable_GetObjectImpl t"
  by (intro ext) (simp add: KHandleTable_GetObjectImpl_def KHandleTable_IsValidHandle_def)

lemma reserved_no_object:
  "reserved_entry t (HandlePack_index h) \<Longrightarrow> KHandleTable_GetObjectImpl t h = None"
  by (simp add: reserved_entry_def KHandleTable_GetObjectImpl_def KHandleTable_IsValidHandle_def)

text \<open>The assertions of \<^verbatim>\<open>Register\<close> and \<^verbatim>\<open>Unreserve\<close>, with the entry known to be reserved.\<close>

definition reservation_ok :: "KHandleTable \<Rightarrow> Handle \<Rightarrow> bool" where
  "reservation_ok t h \<longleftrightarrow> HandlePack_reserved h = 0 \<and> HandlePack_linear_id h \<noteq> 0 \<and>
     reserved_entry t (HandlePack_index h)"

lemma Register_eq:
  assumes "reservation_ok t h"
  shows "KHandleTable_Register t ks h obj =
    (store_entry t (HandlePack_index h) (HandlePack_linear_id h) obj, snd (KAutoObject_Open ks obj))"
  using assms by (simp add: reservation_ok_def reserved_entry_def KHandleTable_Register_def Let_def)

lemma Unreserve_eq:
  "reservation_ok t h \<Longrightarrow> KHandleTable_Unreserve t h = KHandleTable_FreeEntry t (HandlePack_index h)"
  by (simp add: reservation_ok_def reserved_entry_def KHandleTable_Unreserve_def)

lemma linear_id_range: "HandlePack_linear_id h \<le> 0x7FFF"
  using HandlePack_bounds(2) [of h] by simp

lemma ht_inv_Register:
  assumes "ht_inv t" "reservation_ok t h"
  shows "ht_inv (fst (KHandleTable_Register t ks h obj))"
    and "KHandleTable_GetObjectImpl (fst (KHandleTable_Register t ks h obj)) =
      (KHandleTable_GetObjectImpl t)(h \<mapsto> obj)"
proof -
  have r: "reserved_entry t (HandlePack_index h)" "1 \<le> HandlePack_linear_id h"
    "HandlePack_reserved h = 0"
    using assms(2) by (auto simp: reservation_ok_def)
  show "ht_inv (fst (KHandleTable_Register t ks h obj))"
    unfolding Register_eq [OF assms(2)] fst_conv
    by (rule ht_inv_store_entry [OF assms(1) r(1,2) linear_id_range])
  show "KHandleTable_GetObjectImpl (fst (KHandleTable_Register t ks h obj)) =
      (KHandleTable_GetObjectImpl t)(h \<mapsto> obj)"
    unfolding Register_eq [OF assms(2)] fst_conv
    using find_store_entry [OF assms(1) _ _ r(2) linear_id_range] r
    by (simp add: reserved_entry_def EncodeHandle_HandlePack)
qed

lemma ht_inv_Unreserve:
  assumes "ht_inv t" "reservation_ok t h"
  shows "ht_inv (KHandleTable_Unreserve t h)"
    and "KHandleTable_GetObjectImpl (KHandleTable_Unreserve t h) = KHandleTable_GetObjectImpl t"
proof -
  have r: "reserved_entry t (HandlePack_index h)" using assms(2) by (simp add: reservation_ok_def)
  then show "ht_inv (KHandleTable_Unreserve t h)"
    unfolding Unreserve_eq [OF assms(2)]
    by (intro ht_inv_FreeEntry [OF assms(1)]) (auto simp: reserved_entry_def)
  show "KHandleTable_GetObjectImpl (KHandleTable_Unreserve t h) = KHandleTable_GetObjectImpl t"
    unfolding Unreserve_eq [OF assms(2)]
  proof
    fix h'
    show "KHandleTable_GetObjectImpl (KHandleTable_FreeEntry t (HandlePack_index h)) h' =
        KHandleTable_GetObjectImpl t h'"
      using r reserved_no_object [of t h']
      by (simp add: find_FreeEntry [OF assms(1)] reserved_entry_def)
  qed
qed

section \<open>References held by the table\<close>

definition handle_count :: "KHandleTable \<Rightarrow> nat \<Rightarrow> nat" where
  "handle_count t obj = length (filter ((=) (Some obj)) (take (m_table_size t) (m_objects t)))"

lemma handle_count_store:
  assumes "ht_inv t" "i < m_table_size t" "m_objects t ! i = None"
  shows "handle_count (store_entry t i l obj) obj' = handle_count t obj' + (if obj' = obj then 1 else 0)"
proof (cases "obj' = obj")
  case True
  then show ?thesis
    using assms filter_list_update_count [of i "take (m_table_size t) (m_objects t)" "(=) (Some obj)" "Some obj"]
    by (simp add: handle_count_def ht_inv_def take_update_swap)
next
  case False
  then show ?thesis
    using assms filter_list_update_same [of i "take (m_table_size t) (m_objects t)" "(=) (Some obj')" "Some obj"]
    by (simp add: handle_count_def ht_inv_def take_update_swap)
qed

lemma handle_count_cong:
  "m_objects t' = m_objects t \<Longrightarrow> m_table_size t' = m_table_size t \<Longrightarrow>
   handle_count t' obj = handle_count t obj"
  by (simp add: handle_count_def)

lemma handle_count_free:
  assumes "ht_inv t" "i < m_table_size t"
  shows "handle_count t obj =
    handle_count (KHandleTable_FreeEntry t i) obj + (if m_objects t ! i = Some obj then 1 else 0)"
proof -
  let ?xs = "take (m_table_size t) (m_objects t)"
  have i: "i < length ?xs" "?xs ! i = m_objects t ! i" using assms by (simp_all add: ht_inv_def)
  have eq: "handle_count (KHandleTable_FreeEntry t i) obj = length (filter ((=) (Some obj)) (?xs[i := None]))"
    by (simp add: handle_count_def KHandleTable_FreeEntry_def take_update_swap)
  show ?thesis
  proof (cases "m_objects t ! i = Some obj")
    case True
    with i filter_list_update_uncount [of i ?xs "(=) (Some obj)" None] show ?thesis
      by (simp add: eq) (simp add: handle_count_def)
  next
    case False
    with i filter_list_update_same [of i ?xs "(=) (Some obj)" None] show ?thesis
      by (simp add: eq) (simp add: handle_count_def)
  qed
qed

section \<open>Runs of table operations\<close>

datatype ht_event =
    HAdd nat Result "Handle option"
  | HRemove Handle bool
  | HReserve Result "Handle option"
  | HUnreserve Handle
  | HRegister Handle nat

type_synonym ht_state = "KHandleTable \<times> kernel_objects"

inductive ht_step :: "ht_state \<Rightarrow> ht_event \<Rightarrow> ht_state \<Rightarrow> bool" where
  ht_add: "live ks obj \<Longrightarrow> KHandleTable_Add t ks obj = (r, ho, t', ks') \<Longrightarrow>
     ht_step (t, ks) (HAdd obj r ho) (t', ks')"
| ht_remove: "KHandleTable_Remove t ks h = (ok, t', ks') \<Longrightarrow> ht_step (t, ks) (HRemove h ok) (t', ks')"
| ht_reserve: "KHandleTable_Reserve t = (r, ho, t') \<Longrightarrow> ht_step (t, ks) (HReserve r ho) (t', ks)"
| ht_unreserve: "reservation_ok t h \<Longrightarrow> ht_step (t, ks) (HUnreserve h) (KHandleTable_Unreserve t h, ks)"
| ht_register: "reservation_ok t h \<Longrightarrow> live ks obj \<Longrightarrow> KHandleTable_Register t ks h obj = (t', ks') \<Longrightarrow>
     ht_step (t, ks) (HRegister h obj) (t', ks')"

inductive_simps ht_step_simps:
  "ht_step (t, ks) (HAdd obj r ho) s'"
  "ht_step (t, ks) (HRemove h ok) s'"
  "ht_step (t, ks) (HReserve r ho) s'"
  "ht_step (t, ks) (HUnreserve h) s'"
  "ht_step (t, ks) (HRegister h obj) s'"

definition refs_ok :: "ht_state \<Rightarrow> bool" where
  "refs_ok s \<longleftrightarrow> (\<forall>obj. handle_count (fst s) obj \<le> ko_ref_count (snd s) obj \<and>
     ko_ref_count (snd s) obj < 2 ^ 32)"

definition table_inv :: "ht_state \<Rightarrow> bool" where
  "table_inv s \<longleftrightarrow> ht_inv (fst s) \<and> refs_ok s"

text \<open>References of an object that are not held by the table.\<close>

definition other_refs :: "nat \<Rightarrow> ht_state \<Rightarrow> int" where
  "other_refs obj s = int (ko_ref_count (snd s) obj) - int (handle_count (fst s) obj)"

lemma open_store:
  assumes "ht_inv t" "refs_ok (t, ks)" "i < m_table_size t" "m_objects t ! i = None" "live ks obj"
    "ks' = snd (KAutoObject_Open ks obj)"
  shows "refs_ok (store_entry t i l obj, ks')"
    and "other_refs obj' (store_entry t i l obj, ks') = other_refs obj' (t, ks)"
proof -
  note h = handle_count_store [OF assms(1,3,4)]
  have ks': "ks' = ks\<lparr>ko_ref_count := (ko_ref_count ks)(obj := ko_ref_count ks obj + 1)\<rparr>"
    using assms(5,6) by (simp add: Open_live)
  show "refs_ok (store_entry t i l obj, ks')"
    using assms(2,5) by (auto simp: refs_ok_def h ks' live_def)
  show "other_refs obj' (store_entry t i l obj, ks') = other_refs obj' (t, ks)"
    by (simp add: other_refs_def h ks')
qed

lemma Add_balance:
  assumes "table_inv (t, ks)" "live ks obj" "KHandleTable_Add t ks obj = (r, ho, t', ks')"
  shows "table_inv (t', ks')" "other_refs obj' (t', ks') = other_refs obj' (t, ks)"
proof -
  have inv: "ht_inv t" "refs_ok (t, ks)" using assms(1) by (simp_all add: table_inv_def)
  have "table_inv (t', ks') \<and> other_refs obj' (t', ks') = other_refs obj' (t, ks)"
  proof (cases "m_count t < m_table_size t")
    case False
    with Add_result [OF assms(3)] assms(1) show ?thesis by simp
  next
    case True
    with Add_result [OF assms(3)] assms(3)
    obtain h where a: "KHandleTable_Add t ks obj = (ResultSuccess, Some h, t', ks')" by auto
    from AddE [OF inv(1) a] obtain i l t2 where e: "ht_inv t2" "t' = store_entry t2 i l obj"
      "i < m_table_size t" "m_objects t ! i = None" "m_objects t2 = m_objects t"
      "m_table_size t2 = m_table_size t" "ks' = snd (KAutoObject_Open ks obj)"
      by metis
    have same: "handle_count t2 = handle_count t"
      using e by (intro ext handle_count_cong) auto
    then have "refs_ok (t2, ks)" "other_refs obj' (t2, ks) = other_refs obj' (t, ks)"
      using inv(2) by (simp_all add: refs_ok_def other_refs_def)
    then show ?thesis
      using open_store [OF e(1) _ _ _ assms(2) e(7)] ht_inv_Add [OF inv(1) a] e
      by (simp add: table_inv_def)
  qed
  then show "table_inv (t', ks')" "other_refs obj' (t', ks') = other_refs obj' (t, ks)" by auto
qed

lemma Remove_balance:
  assumes "table_inv (t, ks)" "KHandleTable_Remove t ks h = (ok, t', ks')"
  shows "table_inv (t', ks')" "other_refs obj' (t', ks') = other_refs obj' (t, ks)"
proof -
  have inv: "ht_inv t" "refs_ok (t, ks)" using assms(1) by (simp_all add: table_inv_def)
  have "table_inv (t', ks') \<and> other_refs obj' (t', ks') = other_refs obj' (t, ks)"
  proof (cases "KHandleTable_GetObjectImpl t h")
    case None
    with assms show ?thesis by (simp add: Remove_eq)
  next
    case (Some obj)
    let ?i = "HandlePack_index h"
    have i: "?i < m_table_size t" "m_objects t ! ?i = Some obj" using Some by (auto simp: find_iff)
    have hc: "handle_count t o' = handle_count t' o' + (if o' = obj then 1 else 0)" for o'
      using handle_count_free [OF inv(1) i(1), of o'] assms(2) Some i(2) by (auto simp: Remove_eq)
    have ref: "0 < ko_ref_count ks obj" "ko_ref_count ks obj < 2 ^ 32"
      using inv(2) hc [of obj] by (auto simp: refs_ok_def) (metis Suc_le_eq not_less0 neq0_conv)
    have ks': "ko_ref_count ks' = (ko_ref_count ks)(obj := ko_ref_count ks obj - 1)"
      using assms(2) Some ref Close_count(1) [of "KernelCore_UnregisterInUseObject ks obj" obj]
      by (auto simp: Remove_eq)
    have "ht_inv t'" using ht_inv_Remove [OF inv(1), of ks h] assms(2) by simp
    moreover have "refs_ok (t', ks')"
      unfolding refs_ok_def
    proof
      fix o'
      have "handle_count t o' \<le> ko_ref_count ks o'" "ko_ref_count ks o' < 2 ^ 32"
        using inv(2) by (auto simp: refs_ok_def)
      then show "handle_count (fst (t', ks')) o' \<le> ko_ref_count (snd (t', ks')) o' \<and>
          ko_ref_count (snd (t', ks')) o' < 2 ^ 32"
        using hc [of o'] by (auto simp: ks')
    qed
    moreover have "other_refs obj' (t', ks') = other_refs obj' (t, ks)"
      using hc [of obj'] ref by (auto simp: other_refs_def ks')
    ultimately show ?thesis by (simp add: table_inv_def)
  qed
  then show "table_inv (t', ks')" "other_refs obj' (t', ks') = other_refs obj' (t, ks)" by auto
qed

lemma Reserve_balance:
  assumes "table_inv (t, ks)" "KHandleTable_Reserve t = (r, ho, t')"
  shows "table_inv (t', ks)" "other_refs obj (t', ks) = other_refs obj (t, ks)"
    "KHandleTable_GetObjectImpl t' = KHandleTable_GetObjectImpl t"
proof -
  have inv: "ht_inv t" using assms(1) by (simp add: table_inv_def)
  have same: "ht_inv t' \<and> m_objects t' = m_objects t \<and> m_entry_infos t' = m_entry_infos t \<and>
      m_table_size t' = m_table_size t"
  proof (cases "m_count t < m_table_size t")
    case False
    with Reserve_result [OF assms(2)] inv show ?thesis by simp
  next
    case True
    with Reserve_result [OF assms(2)] assms(2)
    obtain h where "KHandleTable_Reserve t = (ResultSuccess, Some h, t')" by auto
    from ReserveE [OF inv this] show ?thesis by metis
  qed
  then have "handle_count t' = handle_count t" by (intro ext handle_count_cong) auto
  with same assms(1) show "table_inv (t', ks)" "other_refs obj (t', ks) = other_refs obj (t, ks)"
    by (simp_all add: table_inv_def refs_ok_def other_refs_def)
  from same show "KHandleTable_GetObjectImpl t' = KHandleTable_GetObjectImpl t"
    by (intro find_same_entries) auto
qed

lemma ht_step_balance:
  assumes "ht_step s e s'" "table_inv s"
  shows "table_inv s' \<and> other_refs obj s' = other_refs obj s"
  using assms
proof (cases rule: ht_step.cases)
  case (ht_add ks obj t r ho t' ks')
  with assms(2) show ?thesis using Add_balance by blast
next
  case (ht_remove t ks h ok t' ks')
  with assms(2) show ?thesis using Remove_balance by blast
next
  case (ht_reserve t r ho t' ks)
  with assms(2) show ?thesis using Reserve_balance by blast
next
  case (ht_unreserve t h ks)
  then have r: "reservation_ok t h" by simp
  from ht_unreserve assms(2) have inv: "ht_inv t" by (simp add: table_inv_def)
  have i: "HandlePack_index h < m_table_size t" "m_objects t ! HandlePack_index h = None"
    using r by (auto simp: reservation_ok_def reserved_entry_def)
  have "handle_count (KHandleTable_Unreserve t h) = handle_count t"
    using handle_count_free [OF inv i(1)] i(2) Unreserve_eq [OF r] by auto
  with assms(2) ht_unreserve ht_inv_Unreserve(1) [OF inv r] show ?thesis
    by (simp add: table_inv_def refs_ok_def other_refs_def)
next
  case (ht_register t h ks obj t' ks')
  then have r: "reservation_ok t h" and l: "live ks obj" by simp_all
  from ht_register assms(2) have inv: "ht_inv t" "refs_ok (t, ks)" by (simp_all add: table_inv_def)
  have i: "HandlePack_index h < m_table_size t" "m_objects t ! HandlePack_index h = None"
    using r by (auto simp: reservation_ok_def reserved_entry_def)
  have "ht_inv t'" using ht_inv_Register(1) [OF inv(1) r, of ks obj] ht_register by simp
  then show ?thesis
    using open_store [OF inv i l refl] Register_eq [OF r, of ks obj] ht_register
    by (auto simp: table_inv_def)
qed

interpretation htacc: accounted_system table_inv ht_step table_inv "other_refs obj" "\<lambda>_. 0" for obj
  by unfold_locales (auto dest: ht_step_balance)

section \<open>The table as a map\<close>

fun abs_event :: "ht_event \<Rightarrow> (Handle \<rightharpoonup> nat) \<Rightarrow> (Handle \<rightharpoonup> nat)" where
  "abs_event (HAdd obj r (Some h)) m = m(h \<mapsto> obj)"
| "abs_event (HRemove h ok) m = m(h := None)"
| "abs_event (HRegister h obj) m = m(h \<mapsto> obj)"
| "abs_event _ m = m"

abbreviation table_map :: "ht_state \<Rightarrow> Handle \<rightharpoonup> nat" where
  "table_map s \<equiv> KHandleTable_GetObjectImpl (fst s)"

lemma ht_step_map:
  assumes "table_inv s" "ht_step s e s'"
  shows "table_map s' = abs_event e (table_map s)"
  using assms(2)
proof (cases rule: ht_step.cases)
  case (ht_add ks obj t r ho t' ks')
  with assms(1) have inv: "ht_inv t" by (simp add: table_inv_def)
  from ht_add Add_result [of t ks obj r ho t' ks'] show ?thesis
    using find_Add(1) [OF inv] by (cases ho) (auto split: if_splits)
next
  case (ht_remove t ks h ok t' ks')
  with assms(1) have inv: "ht_inv t" by (simp add: table_inv_def)
  then show ?thesis using ktable.remove_find [of "(t, ks)" h] ht_remove by simp
next
  case (ht_reserve t r ho t' ks)
  with assms(1) show ?thesis using Reserve_balance(3) by auto
next
  case (ht_unreserve t h ks)
  with assms(1) show ?thesis using ht_inv_Unreserve(2) by (auto simp: table_inv_def)
next
  case (ht_register t h ks obj t' ks')
  with assms(1) have inv: "ht_inv t" by (simp add: table_inv_def)
  from ht_register ht_inv_Register(2) [OF inv, of h ks obj] show ?thesis by simp
qed

interpretation htmap: mirrored_system table_inv ht_step table_inv table_map abs_event
  by unfold_locales (auto intro: ht_step_map)

section \<open>Handles that a run issues\<close>

fun issued_by :: "ht_event \<Rightarrow> Handle list" where
  "issued_by (HAdd obj r (Some h)) = [h]"
| "issued_by (HReserve r (Some h)) = [h]"
| "issued_by _ = []"

definition issued :: "ht_event list \<Rightarrow> Handle list" where
  "issued es = concat (map issued_by es)"

definition nth_linear_id :: "nat \<Rightarrow> nat \<Rightarrow> nat" where
  "nth_linear_id c k = (c - 1 + k) mod 0x7FFF + 1"

lemma nth_linear_id_0: "MinLinearId \<le> c \<Longrightarrow> c \<le> MaxLinearId \<Longrightarrow> nth_linear_id c 0 = c"
  by (simp add: nth_linear_id_def ht_consts)

lemma AllocateLinearId_next:
  "MinLinearId \<le> m_next_linear_id t \<Longrightarrow> m_next_linear_id t \<le> MaxLinearId \<Longrightarrow>
   KHandleTable_AllocateLinearId t =
     (m_next_linear_id t, t\<lparr>m_next_linear_id := m_next_linear_id t mod 0x7FFF + 1\<rparr>)"
  by (auto simp: KHandleTable_AllocateLinearId_def Let_def ht_consts le_less mod_less)

lemma AllocateEntry_linear_id [simp]:
  "m_next_linear_id (snd (KHandleTable_AllocateEntry t)) = m_next_linear_id t"
  by (simp add: KHandleTable_AllocateEntry_def Let_def)

lemma Add_linear_id:
  assumes "ht_inv t" "KHandleTable_Add t ks obj = (r, ho, t', ks')"
  shows "case ho of None \<Rightarrow> m_next_linear_id t' = m_next_linear_id t
    | Some h \<Rightarrow> HandlePack_linear_id h = m_next_linear_id t \<and>
        m_next_linear_id t' = m_next_linear_id t mod 0x7FFF + 1"
proof (cases "m_count t < m_table_size t")
  case False
  with Add_result [OF assms(2)] show ?thesis by simp
next
  case True
  with Add_result [OF assms(2)] assms(2)
  obtain h where h: "ho = Some h" and a: "KHandleTable_Add t ks obj = (ResultSuccess, Some h, t', ks')"
    by auto
  from AddE [OF assms(1) a] obtain i where
    i: "h = EncodeHandle i (m_next_linear_id t)" "i < m_table_size t" "m_next_linear_id t \<le> 0x7FFF"
    by metis
  have "i < 2 ^ 15" using i(2) assms(1) by (simp add: ht_inv_def ht_consts)
  moreover have "m_next_linear_id t' = m_next_linear_id t mod 0x7FFF + 1"
    using a True assms(1) AllocateLinearId_next [of t]
    by (auto simp: KHandleTable_Add_def Let_def ht_inv_def split_beta)
  ultimately show ?thesis using i EncodeHandle_fields(2) by (simp add: h)
qed

lemma Reserve_linear_id:
  assumes "ht_inv t" "KHandleTable_Reserve t = (r, ho, t')"
  shows "case ho of None \<Rightarrow> m_next_linear_id t' = m_next_linear_id t
    | Some h \<Rightarrow> HandlePack_linear_id h = m_next_linear_id t \<and>
        m_next_linear_id t' = m_next_linear_id t mod 0x7FFF + 1"
proof (cases "m_count t < m_table_size t")
  case False
  with Reserve_result [OF assms(2)] show ?thesis by simp
next
  case True
  with Reserve_result [OF assms(2)] assms(2)
  obtain h where h: "ho = Some h" and a: "KHandleTable_Reserve t = (ResultSuccess, Some h, t')"
    by auto
  from ReserveE [OF assms(1) a] obtain i where
    i: "h = EncodeHandle i (m_next_linear_id t)" "i < m_table_size t" "m_next_linear_id t \<le> 0x7FFF"
    by metis
  have "i < 2 ^ 15" using i(2) assms(1) by (simp add: ht_inv_def ht_consts)
  moreover have "m_next_linear_id t' = m_next_linear_id t mod 0x7FFF + 1"
    using a True assms(1) AllocateLinearId_next [of "snd (KHandleTable_AllocateEntry t)"]
    by (auto simp: KHandleTable_Reserve_def ht_inv_def split_beta)
  ultimately show ?thesis using i EncodeHandle_fields(2) by (simp add: h)
qed

lemma ht_step_linear_id:
  assumes "table_inv s" "ht_step s e s'"
  shows "case issued_by e of [] \<Rightarrow> m_next_linear_id (fst s') = m_next_linear_id (fst s)
    | h # _ \<Rightarrow> issued_by e = [h] \<and> HandlePack_linear_id h = m_next_linear_id (fst s) \<and>
        m_next_linear_id (fst s') = m_next_linear_id (fst s) mod 0x7FFF + 1"
  using assms(2)
proof (cases rule: ht_step.cases)
  case (ht_add ks obj t r ho t' ks')
  with assms(1) show ?thesis
    using Add_linear_id [of t ks obj r ho t' ks'] by (cases ho) (simp_all add: table_inv_def)
next
  case (ht_reserve t r ho t' ks)
  with assms(1) show ?thesis
    using Reserve_linear_id [of t r ho t'] by (cases ho) (simp_all add: table_inv_def)
next
  case (ht_remove t ks h ok t' ks')
  then show ?thesis by (auto simp: Remove_eq KHandleTable_FreeEntry_def split: option.splits)
next
  case (ht_unreserve t h ks)
  then show ?thesis by (auto simp: KHandleTable_Unreserve_def KHandleTable_FreeEntry_def)
next
  case (ht_register t h ks obj t' ks')
  then show ?thesis by (auto simp: Register_eq)
qed

lemma run_linear_ids:
  assumes "run ht_step s es s'" "table_inv s"
  shows "map HandlePack_linear_id (issued es) =
      map (nth_linear_id (m_next_linear_id (fst s))) [0..<length (issued es)] \<and>
    m_next_linear_id (fst s') = nth_linear_id (m_next_linear_id (fst s)) (length (issued es))"
  using assms
proof (induction rule: run.induct)
  case (run_nil s)
  then have "ht_inv (fst s)" by (simp add: table_inv_def)
  then show ?case by (simp add: issued_def nth_linear_id_0 ht_inv_def)
next
  case (run_snoc s es t e u)
  then have "table_inv t" using htacc.run_preserves by blast
  from ht_step_linear_id [OF this run_snoc.hyps(2)] run_snoc show ?case
    by (cases "issued_by e") (auto simp: issued_def nth_linear_id_def mod_Suc_eq)
qed

lemma nth_linear_id_inj: "n \<le> 0x7FFF \<Longrightarrow> distinct (map (nth_linear_id c) [0..<n])"
proof -
  assume n: "n \<le> 0x7FFF"
  have "inj_on (\<lambda>k. (c - 1 + k) mod 0x7FFF) {0..<n}"
  proof (rule linorder_inj_onI')
    fix i j :: nat
    assume ij: "i \<in> {0..<n}" "j \<in> {0..<n}" "i < j"
    show "(c - 1 + i) mod 0x7FFF \<noteq> (c - 1 + j) mod 0x7FFF"
    proof
      assume "(c - 1 + i) mod 0x7FFF = (c - 1 + j) mod 0x7FFF"
      then have "0x7FFF dvd (c - 1 + j) - (c - 1 + i)"
        using ij by (intro mod_eq_dvd_iff_nat [THEN iffD1]) auto
      then have "0x7FFF dvd j - i" by simp
      with ij n show False by (auto dest: dvd_imp_le)
    qed
  qed
  then show ?thesis
    by (auto simp: distinct_map nth_linear_id_def inj_on_def)
qed

section \<open>Opening several handles, closing the table\<close>

lemma open_multiple_spec:
  assumes "\<forall>h obj. KHandleTable_GetObjectImpl t h = Some obj \<longrightarrow> 0 < ko_ref_count ks obj"
    "\<And>obj. ko_ref_count ks obj + length hs < 2 ^ 32"
    "open_multiple t is_t hs ks = (out, ks')"
  shows "ks' = ks\<lparr>ko_ref_count := (\<lambda>obj. ko_ref_count ks obj + count_list out obj)\<rparr>"
    and "length out \<le> length hs"
    and "\<forall>k<length out. KHandleTable_GetObjectImpl t (hs ! k) = Some (out ! k) \<and> is_t (out ! k)"
    and "\<forall>obj\<in>set out. 0 < ko_ref_count ks obj"
    and "length out < length hs \<Longrightarrow>
      KHandleTable_GetObjectWithoutPseudoHandle t is_t (hs ! length out) = None"
proof -
  have "ks' = ks\<lparr>ko_ref_count := (\<lambda>obj. ko_ref_count ks obj + count_list out obj)\<rparr> \<and>
    length out \<le> length hs \<and>
    (\<forall>k<length out. KHandleTable_GetObjectImpl t (hs ! k) = Some (out ! k) \<and> is_t (out ! k)) \<and>
    (length out < length hs \<longrightarrow> KHandleTable_GetObjectWithoutPseudoHandle t is_t (hs ! length out) = None)"
    using assms
  proof (induction hs arbitrary: ks out)
    case Nil
    then show ?case by simp
  next
    case (Cons h hs)
    show ?case
    proof (cases "\<exists>obj. KHandleTable_GetObjectImpl t h = Some obj \<and> is_t obj")
      case False
      with Cons.prems(3) show ?thesis
        by (auto simp: KHandleTable_GetObjectWithoutPseudoHandle_def split: option.splits if_splits)
    next
      case True
      then obtain obj where obj: "KHandleTable_GetObjectImpl t h = Some obj" "is_t obj" by blast
      have "0 < ko_ref_count ks obj" using Cons.prems(1) obj(1) by blast
      moreover have "ko_ref_count ks obj + Suc (length hs) < 2 ^ 32"
        using Cons.prems(2) [of obj] by simp
      ultimately have "live ks obj" by (simp add: live_def)
      define k1 where "k1 = ks\<lparr>ko_ref_count := (ko_ref_count ks)(obj := ko_ref_count ks obj + 1)\<rparr>"
      obtain rest where rest: "open_multiple t is_t hs k1 = (rest, ks')" "out = obj # rest"
        using Cons.prems(3) obj by (auto simp: Open_live [OF \<open>live ks obj\<close>] k1_def split: prod.splits)
      have p1: "\<forall>h' o'. KHandleTable_GetObjectImpl t h' = Some o' \<longrightarrow> 0 < ko_ref_count k1 o'"
        using Cons.prems(1) by (simp add: k1_def)
      have p2: "\<And>o'. ko_ref_count k1 o' + length hs < 2 ^ 32"
        using Cons.prems(2) by (auto simp: k1_def intro: less_trans [of _ 4294967295])
      note IH = Cons.IH [of k1 rest, OF p1 p2 rest(1)]
      have "ks' = ks\<lparr>ko_ref_count := (\<lambda>o'. ko_ref_count ks o' + count_list out o')\<rparr>"
        using IH by (auto simp: k1_def rest(2) fun_eq_iff)
      moreover have "\<forall>k<length out. KHandleTable_GetObjectImpl t ((h # hs) ! k) = Some (out ! k) \<and> is_t (out ! k)"
        using IH obj by (auto simp: rest(2) less_Suc_eq_0_disj)
      ultimately show ?thesis using IH by (simp add: rest(2))
    qed
  qed
  then show "ks' = ks\<lparr>ko_ref_count := (\<lambda>obj. ko_ref_count ks obj + count_list out obj)\<rparr>"
    "length out \<le> length hs"
    and found: "\<forall>k<length out. KHandleTable_GetObjectImpl t (hs ! k) = Some (out ! k) \<and> is_t (out ! k)"
    and "length out < length hs \<Longrightarrow>
      KHandleTable_GetObjectWithoutPseudoHandle t is_t (hs ! length out) = None"
    by blast+
  show "\<forall>obj\<in>set out. 0 < ko_ref_count ks obj"
    using found assms(1) by (metis in_set_conv_nth)
qed

lemma close_opened:
  assumes "\<forall>obj\<in>set out. 0 < ko_ref_count ks obj"
    "\<And>obj. ko_ref_count ks obj + count_list out obj < 2 ^ 32"
  shows "fold (\<lambda>obj k. KAutoObject_Close k obj) out
      (ks\<lparr>ko_ref_count := (\<lambda>obj. ko_ref_count ks obj + count_list out obj)\<rparr>) = ks"
  using assms
proof (induction out)
  case Nil
  then show ?case by simp
next
  case (Cons x out)
  let ?k = "ks\<lparr>ko_ref_count := (\<lambda>obj. ko_ref_count ks obj + count_list (x # out) obj)\<rparr>"
  have b: "0 < ko_ref_count ks x" "ko_ref_count ks x + Suc (count_list out x) < 2 ^ 32"
    using Cons.prems(1) Cons.prems(2) [of x] by simp_all
  then have c: "KAutoObject_Close ?k x =
      ?k\<lparr>ko_ref_count := (ko_ref_count ?k)(x := ko_ref_count ?k x - 1)\<rparr>"
    using Close_count [of ?k x] by (intro kernel_objects.equality) auto
  have "KAutoObject_Close ?k x =
      ks\<lparr>ko_ref_count := (\<lambda>obj. ko_ref_count ks obj + count_list out obj)\<rparr>"
    unfolding c by (auto simp: fun_eq_iff)
  moreover have "ko_ref_count ks obj + count_list out obj < 2 ^ 32" for obj
    using Cons.prems(2) [of obj] by (auto split: if_splits)
  ultimately show ?case using Cons by simp
qed

lemma close_entries_count:
  assumes "\<And>obj. length (filter ((=) (Some obj)) os) \<le> ko_ref_count ks obj"
    "\<And>obj. ko_ref_count ks obj < 2 ^ 32"
  shows "ko_ref_count (close_entries os ks) obj =
    ko_ref_count ks obj - length (filter ((=) (Some obj)) os)"
  using assms
proof (induction os ks rule: close_entries.induct)
  case (1 ks)
  then show ?case by simp
next
  case (2 os ks)
  then show ?case by simp
next
  case (3 x os ks)
  have x: "0 < ko_ref_count ks x" "ko_ref_count ks x < 2 ^ 32"
    using "3.prems"(1) [of x] "3.prems"(2) [of x] by simp_all
  note c = Close_count(1) [OF x]
  have "length (filter ((=) (Some o')) os) \<le> ko_ref_count (KAutoObject_Close ks x) o'" for o'
    using "3.prems"(1) [of o'] by (auto simp: c split: if_splits)
  moreover have "ko_ref_count (KAutoObject_Close ks x) o' < 2 ^ 32" for o'
    using "3.prems"(2) [of o'] "3.prems"(2) [of x] by (auto simp: c)
  ultimately show ?case using "3.IH" by (auto simp: c)
qed

lemma create_lengths:
  "length (m_entry_infos KHandleTable_create) = MaxTableSize"
  "length (m_objects KHandleTable_create) = MaxTableSize"
  by (simp_all add: KHandleTable_create_def)

lemma initial_table:
  assumes "KHandleTable_Initialize KHandleTable_create sz = (ResultSuccess, t)"
    "\<forall>obj. ko_ref_count ks obj < 2 ^ 32"
  shows "table_inv (t, ks)" "handle_count t obj = 0" "KHandleTable_GetObjectImpl t = Map.empty"
proof -
  note i = ht_inv_Initialize [OF create_lengths assms(1)]
  have len: "m_table_size t \<le> length (m_objects t)" using i(1) by (simp add: ht_inv_def)
  have empty: "\<forall>x\<in>set (take (m_table_size t) (m_objects t)). x = None"
  proof
    fix x
    assume "x \<in> set (take (m_table_size t) (m_objects t))"
    then obtain k where "k < m_table_size t" "x = m_objects t ! k"
      using len by (auto simp: in_set_conv_nth)
    with i(4) show "x = None" by simp
  qed
  have h0: "handle_count t o' = 0" for o'
    using empty by (auto simp: handle_count_def filter_empty_conv)
  then show "handle_count t obj = 0" .
  show "table_inv (t, ks)" using i(1) h0 assms(2) by (simp add: table_inv_def refs_ok_def)
  show "KHandleTable_GetObjectImpl t = Map.empty"
    using i(4) by (intro ext) (auto simp: KHandleTable_GetObjectImpl_def KHandleTable_IsValidHandle_def)
qed

text \<open>A table of four entries, object 7 with one reference, and one handle for it.\<close>

abbreviation demo_objects :: kernel_objects where
  "demo_objects \<equiv> \<lparr>ko_ref_count = (\<lambda>_. 1), ko_in_use = {}, ko_registered = {}, ko_destroyed = []\<rparr>"

lemma demo_table:
  "\<exists>t h t' ks'. KHandleTable_Initialize KHandleTable_create 4 = (ResultSuccess, t) \<and>
     ht_step (t, demo_objects) (HAdd 7 ResultSuccess (Some h)) (t', ks') \<and>
     run ht_step (t, demo_objects) [HAdd 7 ResultSuccess (Some h)] (t', ks') \<and>
     table_inv (t', ks') \<and> KHandleTable_GetObjectImpl t' h = Some 7"
proof -
  obtain t where t: "KHandleTable_Initialize KHandleTable_create 4 = (ResultSuccess, t)"
    by (simp add: KHandleTable_Initialize_def MaxTableSize_def Let_def)
  have refs: "\<forall>obj. ko_ref_count demo_objects obj < 2 ^ 32" by simp
  note i = ht_inv_Initialize [OF create_lengths t] initial_table(1) [OF t refs]
  have "m_count t < m_table_size t" using i(2,3) by simp
  with Add_result [of t demo_objects 7] obtain h t' ks'
    where a: "KHandleTable_Add t demo_objects 7 = (ResultSuccess, Some h, t', ks')"
    by (metis prod_cases4)
  then have step: "ht_step (t, demo_objects) (HAdd 7 ResultSuccess (Some h)) (t', ks')"
    by (intro ht_add) (simp_all add: live_def)
  moreover have "run ht_step (t, demo_objects) [HAdd 7 ResultSuccess (Some h)] (t', ks')"
    by (rule run_one [of ht_step]) (rule step)
  moreover have "table_inv (t', ks')" using ht_step_balance [OF step i(5)] by simp
  moreover have "KHandleTable_GetObjectImpl t' h = Some 7" using find_Add(1) [OF i(1) a] by simp
  ultimately show ?thesis using t by blast
qed

lemma demo_refs: "\<forall>obj. ko_ref_count demo_objects obj < 2 ^ 32"
  by simp

section \<open>Properties\<close>

text \<open>
  C5. The table is a map from handles to objects: after any sequence of adds, removals,
  reservations, registrations and cancelled reservations, looking a handle up in the table gives
  what the same sequence of map updates gives, starting from the empty map.
\<close>

theorem handle_table_refines_map:
  assumes "KHandleTable_Initialize KHandleTable_create sz = (ResultSuccess, t)"
    "\<forall>obj. ko_ref_count ks obj < 2 ^ 32" "run ht_step (t, ks) es (t', ks')"
  shows "KHandleTable_GetObjectImpl t' = fold abs_event es Map.empty"
  using htmap.run_abs [OF assms(3)] initial_table [OF assms(1,2)] by simp

theorem handle_table_refines_map_witness:
  "\<exists>t h t' ks'. run ht_step (t, demo_objects) [HAdd 7 ResultSuccess (Some h)] (t', ks') \<and>
     KHandleTable_GetObjectImpl t' = [h \<mapsto> 7]"
proof -
  from demo_table obtain t h t' ks' where
    r: "KHandleTable_Initialize KHandleTable_create 4 = (ResultSuccess, t)"
    "run ht_step (t, demo_objects) [HAdd 7 ResultSuccess (Some h)] (t', ks')" by blast
  with handle_table_refines_map [OF r(1) demo_refs r(2)] show ?thesis by auto
qed

text \<open>
  C6. Within any run that issues at most 32767 handles, by adding or reserving, no handle value is
  issued twice, so a removed handle stays dead that long.
\<close>

theorem handles_not_reissued:
  assumes "KHandleTable_Initialize KHandleTable_create sz = (ResultSuccess, t)"
    "\<forall>obj. ko_ref_count ks obj < 2 ^ 32" "run ht_step (t, ks) es s'"
    "length (issued es) \<le> MaxLinearId"
  shows "distinct (issued es)"
proof -
  have "distinct (map HandlePack_linear_id (issued es))"
    using run_linear_ids [OF assms(3)] initial_table(1) [OF assms(1,2)] nth_linear_id_inj assms(4)
    by (simp add: MaxLinearId_def)
  then show ?thesis by (simp add: distinct_map)
qed

theorem handles_not_reissued_witness:
  "\<exists>t h s'. run ht_step (t, demo_objects) [HAdd 7 ResultSuccess (Some h)] s' \<and>
     distinct (issued [HAdd 7 ResultSuccess (Some h)])"
proof -
  from demo_table obtain t h t' ks' where
    r: "KHandleTable_Initialize KHandleTable_create 4 = (ResultSuccess, t)"
    "run ht_step (t, demo_objects) [HAdd 7 ResultSuccess (Some h)] (t', ks')" by blast
  have "length (issued [HAdd 7 ResultSuccess (Some h)]) \<le> MaxLinearId"
    by (simp add: issued_def MaxLinearId_def)
  from handles_not_reissued [OF r(1) demo_refs r(2) this] r show ?thesis by blast
qed

text \<open>
  C7. The table holds exactly one reference per handle: over any run, the references of an object
  that do not belong to the table stay what they were.
\<close>

theorem table_references_balanced:
  assumes "KHandleTable_Initialize KHandleTable_create sz = (ResultSuccess, t)"
    "\<forall>obj. ko_ref_count ks obj < 2 ^ 32" "run ht_step (t, ks) es (t', ks')"
  shows "int (ko_ref_count ks' obj) = int (ko_ref_count ks obj) + int (handle_count t' obj)"
proof -
  have "other_refs obj (t', ks') = other_refs obj (t, ks)"
    using htacc.run_level [OF assms(3) initial_table(1) [OF assms(1,2)], of obj]
    by (simp add: sum_list_triv)
  then show ?thesis
    using initial_table(2) [OF assms(1,2), of obj] by (simp add: other_refs_def)
qed

theorem table_references_balanced_witness:
  "\<exists>t h t' ks'. run ht_step (t, demo_objects) [HAdd 7 ResultSuccess (Some h)] (t', ks') \<and>
     int (ko_ref_count ks' 7) = 1 + int (handle_count t' 7)"
proof -
  from demo_table obtain t h t' ks' where
    r: "KHandleTable_Initialize KHandleTable_create 4 = (ResultSuccess, t)"
    "run ht_step (t, demo_objects) [HAdd 7 ResultSuccess (Some h)] (t', ks')" by blast
  with table_references_balanced [OF r(1) demo_refs r(2), of 7] show ?thesis by auto
qed

text \<open>
  \<^verbatim>\<open>GetMultipleObjects\<close> is all or nothing. It succeeds exactly when every handle names an object
  of the class, returns those objects in order and adds one reference for each; when it fails
  every reference it took is given back and nothing else has changed.
\<close>

theorem get_multiple_all_or_nothing:
  assumes "table_inv (t, ks)" "\<And>obj. ko_ref_count ks obj + length hs < 2 ^ 32"
    "KHandleTable_GetMultipleObjects t is_t hs ks = (ok, out, ks')"
  shows "(ok \<longleftrightarrow> (\<forall>h\<in>set hs. KHandleTable_GetObjectWithoutPseudoHandle t is_t h \<noteq> None)) \<and>
    (ok \<longrightarrow> map (KHandleTable_GetObjectWithoutPseudoHandle t is_t) hs = map Some out \<and>
       ks' = ks\<lparr>ko_ref_count := (\<lambda>obj. ko_ref_count ks obj + count_list out obj)\<rparr>) \<and>
    (\<not> ok \<longrightarrow> ks' = ks)"
proof -
  have held: "\<forall>h obj. KHandleTable_GetObjectImpl t h = Some obj \<longrightarrow> 0 < ko_ref_count ks obj"
  proof (intro allI impI)
    fix h obj
    assume that: "KHandleTable_GetObjectImpl t h = Some obj"
    have "Some obj \<in> set (take (m_table_size t) (m_objects t))"
      using that assms(1) by (auto simp: find_iff table_inv_def ht_inv_def in_set_conv_nth)
    then have "0 < handle_count t obj"
      by (simp add: handle_count_def filter_empty_conv)
    with assms(1) show "0 < ko_ref_count ks obj"
      by (auto simp: table_inv_def refs_ok_def) (metis le_zero_eq neq0_conv)
  qed
  obtain ks1 where o: "open_multiple t is_t hs ks = (out, ks1)"
    using assms(3) by (auto simp: KHandleTable_GetMultipleObjects_def Let_def split: prod.splits if_splits)
  note spec = open_multiple_spec [OF held assms(2) o]
  have found: "\<forall>k<length out. KHandleTable_GetObjectWithoutPseudoHandle t is_t (hs ! k) = Some (out ! k)"
    using spec(3) by (simp add: KHandleTable_GetObjectWithoutPseudoHandle_def)
  show ?thesis
  proof (cases "length out = length hs")
    case True
    then have "ok" "ks' = ks1" using assms(3) o by (simp_all add: KHandleTable_GetMultipleObjects_def)
    moreover have "map (KHandleTable_GetObjectWithoutPseudoHandle t is_t) hs = map Some out"
      using True found by (simp add: list_eq_iff_nth_eq)
    moreover have "\<forall>h\<in>set hs. KHandleTable_GetObjectWithoutPseudoHandle t is_t h \<noteq> None"
      using True found by (metis in_set_conv_nth option.distinct(1))
    ultimately show ?thesis using spec(1) by simp
  next
    case False
    then have "\<not> ok" and ks': "ks' = fold (\<lambda>obj k. KAutoObject_Close k obj) out ks1"
      using assms(3) o by (simp_all add: KHandleTable_GetMultipleObjects_def)
    have "ko_ref_count ks obj + count_list out obj < 2 ^ 32" for obj
      using assms(2) [of obj] spec(2) count_le_length [of out obj] by linarith
    then have "ks' = ks" unfolding ks' spec(1) by (intro close_opened spec(4)) auto
    moreover have "hs ! length out \<in> set hs"
      "KHandleTable_GetObjectWithoutPseudoHandle t is_t (hs ! length out) = None"
      using False spec(2,5) by simp_all
    ultimately show ?thesis using \<open>\<not> ok\<close> by blast
  qed
qed

theorem get_multiple_all_or_nothing_witness:
  "\<exists>t ks. table_inv (t, ks) \<and>
     (\<forall>ok out ks'. KHandleTable_GetMultipleObjects t (\<lambda>_. True) [0] ks = (ok, out, ks') \<longrightarrow> \<not> ok \<and> ks' = ks)"
proof -
  obtain t where t: "KHandleTable_Initialize KHandleTable_create 4 = (ResultSuccess, t)"
    by (simp add: KHandleTable_Initialize_def MaxTableSize_def Let_def)
  note i = initial_table [OF t demo_refs]
  have "\<And>obj. ko_ref_count demo_objects obj + length [0 :: Handle] < 2 ^ 32" by simp
  from get_multiple_all_or_nothing [OF i(1) this] i(1,3) show ?thesis
    by (intro exI [of _ t] exI [of _ demo_objects])
      (fastforce simp: KHandleTable_GetObjectWithoutPseudoHandle_def)
qed

text \<open>
  \<^verbatim>\<open>Finalize\<close> gives back every reference of the table: each object loses exactly as many
  references as it had handles, and afterwards no handle resolves.
\<close>

theorem finalize_releases_references:
  assumes "table_inv (t, ks)" "KHandleTable_Finalize t ks = (r, t', ks')"
  shows "r = ResultSuccess \<and> ko_ref_count ks' obj = ko_ref_count ks obj - handle_count t obj \<and>
    KHandleTable_GetObjectImpl t' h = None"
proof -
  have "ko_ref_count ks' obj = ko_ref_count ks obj - handle_count t obj"
    using close_entries_count [of "take (m_table_size t) (m_objects t)" ks obj] assms
    by (auto simp: KHandleTable_Finalize_def Let_def handle_count_def table_inv_def refs_ok_def)
  then show ?thesis
    using assms(2)
    by (auto simp: KHandleTable_Finalize_def Let_def KHandleTable_GetObjectImpl_def
        KHandleTable_IsValidHandle_def)
qed

theorem finalize_releases_references_witness:
  "\<exists>t ks h. KHandleTable_GetObjectImpl t h = Some 7 \<and>
     KHandleTable_GetObjectImpl (fst (snd (KHandleTable_Finalize t ks))) h = None"
proof -
  from demo_table obtain t h ks where
    r: "table_inv (t, ks)" "KHandleTable_GetObjectImpl t h = Some 7" by blast
  obtain res t' ks' where f: "KHandleTable_Finalize t ks = (res, t', ks')" by (metis prod_cases3)
  from finalize_releases_references [OF r(1) f, of 0 h] r(2) f show ?thesis
    by (intro exI [of _ t] exI [of _ ks] exI [of _ h]) simp
qed


text \<open>
  A removed handle is gone: after adding an object, removing its handle succeeds and restores
  every lookup to what it was before the addition, and removing the handle again fails.
\<close>

theorem add_remove_roundtrip:
  assumes "ht_inv t" "KHandleTable_Add t ks obj = (ResultSuccess, Some h, t1, ks1)"
    "KHandleTable_Remove t1 ks1 h = (ok, t2, ks2)" "KHandleTable_Remove t2 ks2 h = (again, t3, ks3)"
  shows "KHandleTable_GetObjectImpl t1 h = Some obj \<and> ok \<and>
    KHandleTable_GetObjectImpl t2 = KHandleTable_GetObjectImpl t \<and> \<not> again \<and> t3 = t2 \<and> ks3 = ks2"
proof -
  have add: "table_add (t, ks) obj = Some (h, t1, ks1)" using assms(2) by (simp add: table_add_def)
  have inv: "(case (t, ks) of (t, ks) \<Rightarrow> ht_inv t)" using assms(1) by simp
  note r = ktable.add_remove [OF inv add]
  have h2: "KHandleTable_GetObjectImpl t2 = KHandleTable_GetObjectImpl t" "ok"
    using r assms(3) by simp_all
  moreover have "KHandleTable_GetObjectImpl t1 h = Some obj"
    using ktable.add_then_find [OF inv add] by simp
  moreover have "KHandleTable_GetObjectImpl t2 h = None"
    using h2 ktable.add_fresh [OF inv add] by simp
  ultimately show ?thesis using assms(4) by (simp add: Remove_eq)
qed

theorem add_remove_roundtrip_witness:
  "\<exists>t ks h t1 ks1. KHandleTable_Add t ks 7 = (ResultSuccess, Some h, t1, ks1) \<and>
     fst (KHandleTable_Remove t1 ks1 h) \<and>
     \<not> fst (KHandleTable_Remove (fst (snd (KHandleTable_Remove t1 ks1 h)))
              (snd (snd (KHandleTable_Remove t1 ks1 h))) h)"
proof -
  from demo_table obtain t h t1 ks1 where
    a: "KHandleTable_Add t demo_objects 7 = (ResultSuccess, Some h, t1, ks1)"
    and t: "KHandleTable_Initialize KHandleTable_create 4 = (ResultSuccess, t)"
    by (auto simp: ht_step_simps)
  have inv: "ht_inv t" by (rule ht_inv_Initialize(1) [OF create_lengths t])
  show ?thesis
    using add_remove_roundtrip [OF inv a, of "fst (KHandleTable_Remove t1 ks1 h)"
        "fst (snd (KHandleTable_Remove t1 ks1 h))" "snd (snd (KHandleTable_Remove t1 ks1 h))"] a
    by (metis prod.collapse)
qed

end
