(* ===== verification/MemoryBlock.thy ===== *)
theory MemoryBlock
  imports Prelude
begin

text \<open>
  Memory blocks (\<^verbatim>\<open>core/hle/kernel/k_memory_block.h\<close>): the state, permission and attribute
  encodings of a range of pages of a process address space, and the operations on one block:
  splitting and joining, reprotecting, the locks taken by IPC and by devices.

  Addresses and page counts are \<^typ>\<open>nat\<close> values combined by the wrapping operations of the
  prelude; flags and reference counts are words of the width of the code. The assertions of the
  code do not stop a release build (\<^verbatim>\<open>common/assert.cpp\<close> logs and returns unless the user
  asks for debug assertions), so an operation is defined on every block and the conditions it
  asserts are predicates of their own, \<open>..._asserts\<close>.
\<close>

section \<open>Memory states\<close>

abbreviation SvcMemoryState_Free :: u32 where "SvcMemoryState_Free \<equiv> 0x0"
abbreviation SvcMemoryState_Io :: u32 where "SvcMemoryState_Io \<equiv> 0x1"
abbreviation SvcMemoryState_Static :: u32 where "SvcMemoryState_Static \<equiv> 0x2"
abbreviation SvcMemoryState_Code :: u32 where "SvcMemoryState_Code \<equiv> 0x3"
abbreviation SvcMemoryState_CodeData :: u32 where "SvcMemoryState_CodeData \<equiv> 0x4"
abbreviation SvcMemoryState_Normal :: u32 where "SvcMemoryState_Normal \<equiv> 0x5"
abbreviation SvcMemoryState_Shared :: u32 where "SvcMemoryState_Shared \<equiv> 0x6"
abbreviation SvcMemoryState_Alias :: u32 where "SvcMemoryState_Alias \<equiv> 0x7"
abbreviation SvcMemoryState_AliasCode :: u32 where "SvcMemoryState_AliasCode \<equiv> 0x8"
abbreviation SvcMemoryState_AliasCodeData :: u32 where "SvcMemoryState_AliasCodeData \<equiv> 0x9"
abbreviation SvcMemoryState_Ipc :: u32 where "SvcMemoryState_Ipc \<equiv> 0xa"
abbreviation SvcMemoryState_Stack :: u32 where "SvcMemoryState_Stack \<equiv> 0xb"
abbreviation SvcMemoryState_ThreadLocal :: u32 where "SvcMemoryState_ThreadLocal \<equiv> 0xc"
abbreviation SvcMemoryState_Transferred :: u32 where "SvcMemoryState_Transferred \<equiv> 0xd"
abbreviation SvcMemoryState_SharedTransferred :: u32 where "SvcMemoryState_SharedTransferred \<equiv> 0xe"
abbreviation SvcMemoryState_SharedCode :: u32 where "SvcMemoryState_SharedCode \<equiv> 0xf"
abbreviation SvcMemoryState_Inaccessible :: u32 where "SvcMemoryState_Inaccessible \<equiv> 0x10"
abbreviation SvcMemoryState_NonSecureIpc :: u32 where "SvcMemoryState_NonSecureIpc \<equiv> 0x11"
abbreviation SvcMemoryState_NonDeviceIpc :: u32 where "SvcMemoryState_NonDeviceIpc \<equiv> 0x12"
abbreviation SvcMemoryState_Kernel :: u32 where "SvcMemoryState_Kernel \<equiv> 0x13"
abbreviation SvcMemoryState_GeneratedCode :: u32 where "SvcMemoryState_GeneratedCode \<equiv> 0x14"
abbreviation SvcMemoryState_CodeOut :: u32 where "SvcMemoryState_CodeOut \<equiv> 0x15"
abbreviation SvcMemoryState_Coverage :: u32 where "SvcMemoryState_Coverage \<equiv> 0x16"
abbreviation SvcMemoryState_Insecure :: u32 where "SvcMemoryState_Insecure \<equiv> 0x17"

definition KMemoryState_None :: u32 where
  "KMemoryState_None = 0"

definition KMemoryState_Mask :: u32 where
  "KMemoryState_Mask = 0xFF"

definition KMemoryState_All :: u32 where
  "KMemoryState_All = NOT KMemoryState_None"

definition KMemoryState_FlagCanReprotect :: u32 where
  "KMemoryState_FlagCanReprotect = push_bit 8 1"

definition KMemoryState_FlagCanDebug :: u32 where
  "KMemoryState_FlagCanDebug = push_bit 9 1"

definition KMemoryState_FlagCanUseIpc :: u32 where
  "KMemoryState_FlagCanUseIpc = push_bit 10 1"

definition KMemoryState_FlagCanUseNonDeviceIpc :: u32 where
  "KMemoryState_FlagCanUseNonDeviceIpc = push_bit 11 1"

definition KMemoryState_FlagCanUseNonSecureIpc :: u32 where
  "KMemoryState_FlagCanUseNonSecureIpc = push_bit 12 1"

definition KMemoryState_FlagMapped :: u32 where
  "KMemoryState_FlagMapped = push_bit 13 1"

definition KMemoryState_FlagCode :: u32 where
  "KMemoryState_FlagCode = push_bit 14 1"

definition KMemoryState_FlagCanAlias :: u32 where
  "KMemoryState_FlagCanAlias = push_bit 15 1"

definition KMemoryState_FlagCanCodeAlias :: u32 where
  "KMemoryState_FlagCanCodeAlias = push_bit 16 1"

definition KMemoryState_FlagCanTransfer :: u32 where
  "KMemoryState_FlagCanTransfer = push_bit 17 1"

definition KMemoryState_FlagCanQueryPhysical :: u32 where
  "KMemoryState_FlagCanQueryPhysical = push_bit 18 1"

definition KMemoryState_FlagCanDeviceMap :: u32 where
  "KMemoryState_FlagCanDeviceMap = push_bit 19 1"

definition KMemoryState_FlagCanAlignedDeviceMap :: u32 where
  "KMemoryState_FlagCanAlignedDeviceMap = push_bit 20 1"

definition KMemoryState_FlagCanIpcUserBuffer :: u32 where
  "KMemoryState_FlagCanIpcUserBuffer = push_bit 21 1"

definition KMemoryState_FlagReferenceCounted :: u32 where
  "KMemoryState_FlagReferenceCounted = push_bit 22 1"

definition KMemoryState_FlagCanMapProcess :: u32 where
  "KMemoryState_FlagCanMapProcess = push_bit 23 1"

definition KMemoryState_FlagCanChangeAttribute :: u32 where
  "KMemoryState_FlagCanChangeAttribute = push_bit 24 1"

definition KMemoryState_FlagCanCodeMemory :: u32 where
  "KMemoryState_FlagCanCodeMemory = push_bit 25 1"

definition KMemoryState_FlagLinearMapped :: u32 where
  "KMemoryState_FlagLinearMapped = push_bit 26 1"

definition KMemoryState_FlagCanPermissionLock :: u32 where
  "KMemoryState_FlagCanPermissionLock = push_bit 27 1"

definition KMemoryState_FlagsData :: u32 where
  "KMemoryState_FlagsData =
     KMemoryState_FlagCanReprotect OR KMemoryState_FlagCanUseIpc OR
     KMemoryState_FlagCanUseNonDeviceIpc OR KMemoryState_FlagCanUseNonSecureIpc OR
     KMemoryState_FlagMapped OR KMemoryState_FlagCanAlias OR
     KMemoryState_FlagCanTransfer OR KMemoryState_FlagCanQueryPhysical OR
     KMemoryState_FlagCanDeviceMap OR KMemoryState_FlagCanAlignedDeviceMap OR
     KMemoryState_FlagCanIpcUserBuffer OR KMemoryState_FlagReferenceCounted OR
     KMemoryState_FlagCanChangeAttribute OR KMemoryState_FlagLinearMapped"

definition KMemoryState_FlagsCode :: u32 where
  "KMemoryState_FlagsCode =
     KMemoryState_FlagCanDebug OR KMemoryState_FlagCanUseIpc OR
     KMemoryState_FlagCanUseNonDeviceIpc OR KMemoryState_FlagCanUseNonSecureIpc OR
     KMemoryState_FlagMapped OR KMemoryState_FlagCode OR
     KMemoryState_FlagCanQueryPhysical OR KMemoryState_FlagCanDeviceMap OR
     KMemoryState_FlagCanAlignedDeviceMap OR KMemoryState_FlagReferenceCounted OR
     KMemoryState_FlagLinearMapped"

definition KMemoryState_FlagsMisc :: u32 where
  "KMemoryState_FlagsMisc =
     KMemoryState_FlagMapped OR KMemoryState_FlagReferenceCounted OR
     KMemoryState_FlagCanQueryPhysical OR KMemoryState_FlagCanDeviceMap OR
     KMemoryState_FlagLinearMapped"

definition KMemoryState_Free :: u32 where
  "KMemoryState_Free = SvcMemoryState_Free"

definition KMemoryState_IoMemory :: u32 where
  "KMemoryState_IoMemory =
     SvcMemoryState_Io OR KMemoryState_FlagMapped OR KMemoryState_FlagCanDeviceMap OR
     KMemoryState_FlagCanAlignedDeviceMap"

definition KMemoryState_IoRegister :: u32 where
  "KMemoryState_IoRegister =
     SvcMemoryState_Io OR KMemoryState_FlagCanDeviceMap OR
     KMemoryState_FlagCanAlignedDeviceMap"

definition KMemoryState_Static :: u32 where
  "KMemoryState_Static =
     SvcMemoryState_Static OR KMemoryState_FlagMapped OR KMemoryState_FlagCanQueryPhysical"

definition KMemoryState_Code :: u32 where
  "KMemoryState_Code =
     SvcMemoryState_Code OR KMemoryState_FlagsCode OR KMemoryState_FlagCanMapProcess"

definition KMemoryState_CodeData :: u32 where
  "KMemoryState_CodeData =
     SvcMemoryState_CodeData OR KMemoryState_FlagsData OR
     KMemoryState_FlagCanMapProcess OR KMemoryState_FlagCanCodeMemory OR
     KMemoryState_FlagCanPermissionLock"

definition KMemoryState_Normal :: u32 where
  "KMemoryState_Normal =
     SvcMemoryState_Normal OR KMemoryState_FlagsData OR KMemoryState_FlagCanCodeMemory"

definition KMemoryState_Shared :: u32 where
  "KMemoryState_Shared =
     SvcMemoryState_Shared OR KMemoryState_FlagMapped OR
     KMemoryState_FlagReferenceCounted OR KMemoryState_FlagLinearMapped"

definition KMemoryState_AliasCode :: u32 where
  "KMemoryState_AliasCode =
     SvcMemoryState_AliasCode OR KMemoryState_FlagsCode OR
     KMemoryState_FlagCanMapProcess OR KMemoryState_FlagCanCodeAlias"

definition KMemoryState_AliasCodeData :: u32 where
  "KMemoryState_AliasCodeData =
     SvcMemoryState_AliasCodeData OR KMemoryState_FlagsData OR
     KMemoryState_FlagCanMapProcess OR KMemoryState_FlagCanCodeAlias OR
     KMemoryState_FlagCanCodeMemory OR KMemoryState_FlagCanPermissionLock"

definition KMemoryState_Ipc :: u32 where
  "KMemoryState_Ipc =
     SvcMemoryState_Ipc OR KMemoryState_FlagsMisc OR
     KMemoryState_FlagCanAlignedDeviceMap OR KMemoryState_FlagCanUseIpc OR
     KMemoryState_FlagCanUseNonSecureIpc OR KMemoryState_FlagCanUseNonDeviceIpc"

definition KMemoryState_Stack :: u32 where
  "KMemoryState_Stack =
     SvcMemoryState_Stack OR KMemoryState_FlagsMisc OR
     KMemoryState_FlagCanAlignedDeviceMap OR KMemoryState_FlagCanUseIpc OR
     KMemoryState_FlagCanUseNonSecureIpc OR KMemoryState_FlagCanUseNonDeviceIpc"

definition KMemoryState_ThreadLocal :: u32 where
  "KMemoryState_ThreadLocal = SvcMemoryState_ThreadLocal OR KMemoryState_FlagLinearMapped"

definition KMemoryState_Transferred :: u32 where
  "KMemoryState_Transferred =
     SvcMemoryState_Transferred OR KMemoryState_FlagsMisc OR
     KMemoryState_FlagCanAlignedDeviceMap OR KMemoryState_FlagCanChangeAttribute OR
     KMemoryState_FlagCanUseIpc OR KMemoryState_FlagCanUseNonSecureIpc OR
     KMemoryState_FlagCanUseNonDeviceIpc"

definition KMemoryState_SharedTransferred :: u32 where
  "KMemoryState_SharedTransferred =
     SvcMemoryState_SharedTransferred OR KMemoryState_FlagsMisc OR
     KMemoryState_FlagCanAlignedDeviceMap OR KMemoryState_FlagCanUseNonSecureIpc OR
     KMemoryState_FlagCanUseNonDeviceIpc"

definition KMemoryState_SharedCode :: u32 where
  "KMemoryState_SharedCode =
     SvcMemoryState_SharedCode OR KMemoryState_FlagMapped OR
     KMemoryState_FlagReferenceCounted OR KMemoryState_FlagLinearMapped OR
     KMemoryState_FlagCanUseNonSecureIpc OR KMemoryState_FlagCanUseNonDeviceIpc"

definition KMemoryState_Inaccessible :: u32 where
  "KMemoryState_Inaccessible = SvcMemoryState_Inaccessible"

definition KMemoryState_NonSecureIpc :: u32 where
  "KMemoryState_NonSecureIpc =
     SvcMemoryState_NonSecureIpc OR KMemoryState_FlagsMisc OR
     KMemoryState_FlagCanAlignedDeviceMap OR KMemoryState_FlagCanUseNonSecureIpc OR
     KMemoryState_FlagCanUseNonDeviceIpc"

definition KMemoryState_NonDeviceIpc :: u32 where
  "KMemoryState_NonDeviceIpc =
     SvcMemoryState_NonDeviceIpc OR KMemoryState_FlagsMisc OR
     KMemoryState_FlagCanUseNonDeviceIpc"

definition KMemoryState_Kernel :: u32 where
  "KMemoryState_Kernel = SvcMemoryState_Kernel"

definition KMemoryState_GeneratedCode :: u32 where
  "KMemoryState_GeneratedCode =
     SvcMemoryState_GeneratedCode OR KMemoryState_FlagMapped OR
     KMemoryState_FlagReferenceCounted OR KMemoryState_FlagCanDebug OR
     KMemoryState_FlagLinearMapped"

definition KMemoryState_CodeOut :: u32 where
  "KMemoryState_CodeOut =
     SvcMemoryState_CodeOut OR KMemoryState_FlagMapped OR
     KMemoryState_FlagReferenceCounted OR KMemoryState_FlagLinearMapped"

definition KMemoryState_Coverage :: u32 where
  "KMemoryState_Coverage = SvcMemoryState_Coverage OR KMemoryState_FlagMapped"

definition KMemoryState_Insecure :: u32 where
  "KMemoryState_Insecure =
     SvcMemoryState_Insecure OR KMemoryState_FlagMapped OR
     KMemoryState_FlagReferenceCounted OR KMemoryState_FlagLinearMapped OR
     KMemoryState_FlagCanChangeAttribute OR KMemoryState_FlagCanDeviceMap OR
     KMemoryState_FlagCanAlignedDeviceMap OR KMemoryState_FlagCanQueryPhysical OR
     KMemoryState_FlagCanUseNonSecureIpc OR KMemoryState_FlagCanUseNonDeviceIpc"

lemmas KMemoryState_defs =
  KMemoryState_None_def
  KMemoryState_Mask_def
  KMemoryState_All_def
  KMemoryState_FlagCanReprotect_def
  KMemoryState_FlagCanDebug_def
  KMemoryState_FlagCanUseIpc_def
  KMemoryState_FlagCanUseNonDeviceIpc_def
  KMemoryState_FlagCanUseNonSecureIpc_def
  KMemoryState_FlagMapped_def
  KMemoryState_FlagCode_def
  KMemoryState_FlagCanAlias_def
  KMemoryState_FlagCanCodeAlias_def
  KMemoryState_FlagCanTransfer_def
  KMemoryState_FlagCanQueryPhysical_def
  KMemoryState_FlagCanDeviceMap_def
  KMemoryState_FlagCanAlignedDeviceMap_def
  KMemoryState_FlagCanIpcUserBuffer_def
  KMemoryState_FlagReferenceCounted_def
  KMemoryState_FlagCanMapProcess_def
  KMemoryState_FlagCanChangeAttribute_def
  KMemoryState_FlagCanCodeMemory_def
  KMemoryState_FlagLinearMapped_def
  KMemoryState_FlagCanPermissionLock_def
  KMemoryState_FlagsData_def
  KMemoryState_FlagsCode_def
  KMemoryState_FlagsMisc_def
  KMemoryState_Free_def
  KMemoryState_IoMemory_def
  KMemoryState_IoRegister_def
  KMemoryState_Static_def
  KMemoryState_Code_def
  KMemoryState_CodeData_def
  KMemoryState_Normal_def
  KMemoryState_Shared_def
  KMemoryState_AliasCode_def
  KMemoryState_AliasCodeData_def
  KMemoryState_Ipc_def
  KMemoryState_Stack_def
  KMemoryState_ThreadLocal_def
  KMemoryState_Transferred_def
  KMemoryState_SharedTransferred_def
  KMemoryState_SharedCode_def
  KMemoryState_Inaccessible_def
  KMemoryState_NonSecureIpc_def
  KMemoryState_NonDeviceIpc_def
  KMemoryState_Kernel_def
  KMemoryState_GeneratedCode_def
  KMemoryState_CodeOut_def
  KMemoryState_Coverage_def
  KMemoryState_Insecure_def


section \<open>Permissions and attributes\<close>

text \<open>\<^verbatim>\<open>Svc::MemoryPermission\<close> and \<^verbatim>\<open>Svc::MemoryAttribute\<close> are 32-bit enumerations.\<close>

abbreviation SvcMemoryPermission_None :: u32 where "SvcMemoryPermission_None \<equiv> 0"
abbreviation SvcMemoryPermission_Read :: u32 where "SvcMemoryPermission_Read \<equiv> 1"
abbreviation SvcMemoryPermission_Write :: u32 where "SvcMemoryPermission_Write \<equiv> 2"
abbreviation SvcMemoryPermission_Execute :: u32 where "SvcMemoryPermission_Execute \<equiv> 4"

abbreviation KMemoryPermission_None :: u8 where "KMemoryPermission_None \<equiv> 0"
abbreviation KMemoryPermission_All :: u8 where "KMemoryPermission_All \<equiv> 0xFF"
abbreviation KMemoryPermission_KernelShift :: nat where "KMemoryPermission_KernelShift \<equiv> 3"

definition KMemoryPermission_KernelRead :: u8 where
  "KMemoryPermission_KernelRead =
     push_bit KMemoryPermission_KernelShift (ucast SvcMemoryPermission_Read)"

definition KMemoryPermission_KernelWrite :: u8 where
  "KMemoryPermission_KernelWrite =
     push_bit KMemoryPermission_KernelShift (ucast SvcMemoryPermission_Write)"

definition KMemoryPermission_KernelExecute :: u8 where
  "KMemoryPermission_KernelExecute =
     push_bit KMemoryPermission_KernelShift (ucast SvcMemoryPermission_Execute)"

definition KMemoryPermission_NotMapped :: u8 where
  "KMemoryPermission_NotMapped = push_bit (2 * KMemoryPermission_KernelShift) 1"

definition KMemoryPermission_KernelReadWrite :: u8 where
  "KMemoryPermission_KernelReadWrite =
     KMemoryPermission_KernelRead OR KMemoryPermission_KernelWrite"

definition KMemoryPermission_KernelReadExecute :: u8 where
  "KMemoryPermission_KernelReadExecute =
     KMemoryPermission_KernelRead OR KMemoryPermission_KernelExecute"

definition KMemoryPermission_UserRead :: u8 where
  "KMemoryPermission_UserRead = ucast SvcMemoryPermission_Read OR KMemoryPermission_KernelRead"

definition KMemoryPermission_UserWrite :: u8 where
  "KMemoryPermission_UserWrite = ucast SvcMemoryPermission_Write OR KMemoryPermission_KernelWrite"

definition KMemoryPermission_UserExecute :: u8 where
  "KMemoryPermission_UserExecute = ucast SvcMemoryPermission_Execute"

definition KMemoryPermission_UserReadWrite :: u8 where
  "KMemoryPermission_UserReadWrite = KMemoryPermission_UserRead OR KMemoryPermission_UserWrite"

definition KMemoryPermission_UserReadExecute :: u8 where
  "KMemoryPermission_UserReadExecute = KMemoryPermission_UserRead OR KMemoryPermission_UserExecute"

definition KMemoryPermission_UserMask :: u8 where
  "KMemoryPermission_UserMask =
     ucast (SvcMemoryPermission_Read OR SvcMemoryPermission_Write OR SvcMemoryPermission_Execute)"

definition KMemoryPermission_IpcLockChangeMask :: u8 where
  "KMemoryPermission_IpcLockChangeMask =
     KMemoryPermission_NotMapped OR KMemoryPermission_UserReadWrite"

lemmas KMemoryPermission_defs =
  KMemoryPermission_KernelRead_def KMemoryPermission_KernelWrite_def
  KMemoryPermission_KernelExecute_def KMemoryPermission_NotMapped_def
  KMemoryPermission_KernelReadWrite_def KMemoryPermission_KernelReadExecute_def
  KMemoryPermission_UserRead_def KMemoryPermission_UserWrite_def
  KMemoryPermission_UserExecute_def KMemoryPermission_UserReadWrite_def
  KMemoryPermission_UserReadExecute_def KMemoryPermission_UserMask_def
  KMemoryPermission_IpcLockChangeMask_def

definition ConvertToKMemoryPermission :: "u32 \<Rightarrow> u8" where
  "ConvertToKMemoryPermission perm =
     (ucast perm AND KMemoryPermission_UserMask) OR
     KMemoryPermission_KernelRead OR
     push_bit KMemoryPermission_KernelShift (ucast perm AND KMemoryPermission_UserWrite) OR
     (if perm = SvcMemoryPermission_None then KMemoryPermission_NotMapped
      else KMemoryPermission_None)"

abbreviation KMemoryAttribute_None :: u8 where "KMemoryAttribute_None \<equiv> 0"
abbreviation KMemoryAttribute_All :: u8 where "KMemoryAttribute_All \<equiv> 0xFF"
abbreviation KMemoryAttribute_UserMask :: u8 where "KMemoryAttribute_UserMask \<equiv> 0xFF"

definition KMemoryAttribute_Locked :: u8 where "KMemoryAttribute_Locked = push_bit 0 1"
definition KMemoryAttribute_IpcLocked :: u8 where "KMemoryAttribute_IpcLocked = push_bit 1 1"
definition KMemoryAttribute_DeviceShared :: u8 where "KMemoryAttribute_DeviceShared = push_bit 2 1"
definition KMemoryAttribute_Uncached :: u8 where "KMemoryAttribute_Uncached = push_bit 3 1"
definition KMemoryAttribute_PermissionLocked :: u8 where
  "KMemoryAttribute_PermissionLocked = push_bit 4 1"
definition KMemoryAttribute_SetMask :: u8 where
  "KMemoryAttribute_SetMask = KMemoryAttribute_Uncached OR KMemoryAttribute_PermissionLocked"

lemmas KMemoryAttribute_defs =
  KMemoryAttribute_Locked_def KMemoryAttribute_IpcLocked_def KMemoryAttribute_DeviceShared_def
  KMemoryAttribute_Uncached_def KMemoryAttribute_PermissionLocked_def KMemoryAttribute_SetMask_def

abbreviation DisableMerge_None :: u8 where "DisableMerge_None \<equiv> 0"
definition DisableMerge_Normal :: u8 where "DisableMerge_Normal = push_bit 0 1"
definition DisableMerge_DeviceLeft :: u8 where "DisableMerge_DeviceLeft = push_bit 1 1"
definition DisableMerge_IpcLeft :: u8 where "DisableMerge_IpcLeft = push_bit 2 1"
definition DisableMerge_Locked :: u8 where "DisableMerge_Locked = push_bit 3 1"
definition DisableMerge_DeviceRight :: u8 where "DisableMerge_DeviceRight = push_bit 4 1"
definition DisableMerge_AllLeft :: u8 where
  "DisableMerge_AllLeft =
     DisableMerge_Normal OR DisableMerge_DeviceLeft OR DisableMerge_IpcLeft OR DisableMerge_Locked"
definition DisableMerge_AllRight :: u8 where
  "DisableMerge_AllRight = DisableMerge_DeviceRight"

lemmas DisableMerge_defs =
  DisableMerge_Normal_def DisableMerge_DeviceLeft_def DisableMerge_IpcLeft_def
  DisableMerge_Locked_def DisableMerge_DeviceRight_def DisableMerge_AllLeft_def
  DisableMerge_AllRight_def

section \<open>Memory information\<close>

record SvcMemoryInfo =
  si_base_address :: nat
  si_size :: nat
  si_state :: u32
  si_attribute :: u32
  si_permission :: u32
  si_ipc_count :: u32
  si_device_count :: u32

record KMemoryInfo =
  mi_address :: nat
  mi_size :: nat
  mi_state :: u32
  mi_device_disable_merge_left_count :: u16
  mi_device_disable_merge_right_count :: u16
  mi_ipc_lock_count :: u16
  mi_device_use_count :: u16
  mi_ipc_disable_merge_count :: u16
  mi_permission :: u8
  mi_attribute :: u8
  mi_original_permission :: u8
  mi_disable_merge_attribute :: u8

definition KMemoryInfo_GetSvcMemoryInfo :: "KMemoryInfo \<Rightarrow> SvcMemoryInfo" where
  "KMemoryInfo_GetSvcMemoryInfo i =
     \<lparr> si_base_address = mi_address i,
       si_size = mi_size i,
       si_state = mi_state i AND KMemoryState_Mask,
       si_attribute = ucast (mi_attribute i AND KMemoryAttribute_UserMask),
       si_permission = ucast (mi_permission i AND KMemoryPermission_UserMask),
       si_ipc_count = ucast (mi_ipc_lock_count i),
       si_device_count = ucast (mi_device_use_count i) \<rparr>"

definition KMemoryInfo_GetNumPages :: "KMemoryInfo \<Rightarrow> nat" where
  "KMemoryInfo_GetNumPages i = mi_size i div PageSize"

definition KMemoryInfo_GetEndAddress :: "KMemoryInfo \<Rightarrow> nat" where
  "KMemoryInfo_GetEndAddress i = u64_add (mi_address i) (mi_size i)"

definition KMemoryInfo_GetLastAddress :: "KMemoryInfo \<Rightarrow> nat" where
  "KMemoryInfo_GetLastAddress i = u64_sub (KMemoryInfo_GetEndAddress i) 1"

definition KMemoryInfo_GetSvcState :: "KMemoryInfo \<Rightarrow> u32" where
  "KMemoryInfo_GetSvcState i = mi_state i AND KMemoryState_Mask"

section \<open>Memory blocks\<close>

record KMemoryBlock =
  mb_device_disable_merge_left_count :: u16
  mb_device_disable_merge_right_count :: u16
  mb_address :: nat
  mb_num_pages :: nat
  mb_memory_state :: u32
  mb_ipc_lock_count :: u16
  mb_device_use_count :: u16
  mb_ipc_disable_merge_count :: u16
  mb_permission :: u8
  mb_original_permission :: u8
  mb_attribute :: u8
  mb_disable_merge_attribute :: u8

subsection \<open>Reading a block\<close>

definition KMemoryBlock_GetSize :: "KMemoryBlock \<Rightarrow> nat" where
  "KMemoryBlock_GetSize b = u64_mul (mb_num_pages b) PageSize"

definition KMemoryBlock_GetEndAddress :: "KMemoryBlock \<Rightarrow> nat" where
  "KMemoryBlock_GetEndAddress b = u64_add (mb_address b) (KMemoryBlock_GetSize b)"

definition KMemoryBlock_GetLastAddress :: "KMemoryBlock \<Rightarrow> nat" where
  "KMemoryBlock_GetLastAddress b = u64_sub (KMemoryBlock_GetEndAddress b) 1"

definition KMemoryBlock_Compare :: "KMemoryBlock \<Rightarrow> KMemoryBlock \<Rightarrow> int" where
  "KMemoryBlock_Compare lhs rhs =
     (if mb_address lhs < mb_address rhs then -1
      else if mb_address lhs \<le> KMemoryBlock_GetLastAddress rhs then 0
      else 1)"

definition KMemoryBlock_GetMemoryInfo :: "KMemoryBlock \<Rightarrow> KMemoryInfo" where
  "KMemoryBlock_GetMemoryInfo b =
     \<lparr> mi_address = mb_address b,
       mi_size = KMemoryBlock_GetSize b,
       mi_state = mb_memory_state b,
       mi_device_disable_merge_left_count = mb_device_disable_merge_left_count b,
       mi_device_disable_merge_right_count = mb_device_disable_merge_right_count b,
       mi_ipc_lock_count = mb_ipc_lock_count b,
       mi_device_use_count = mb_device_use_count b,
       mi_ipc_disable_merge_count = mb_ipc_disable_merge_count b,
       mi_permission = mb_permission b,
       mi_attribute = mb_attribute b,
       mi_original_permission = mb_original_permission b,
       mi_disable_merge_attribute = mb_disable_merge_attribute b \<rparr>"

subsection \<open>Creating a block\<close>

definition KMemoryBlock_construct ::
    "nat \<Rightarrow> nat \<Rightarrow> u32 \<Rightarrow> u8 \<Rightarrow> u8 \<Rightarrow> KMemoryBlock" where
  "KMemoryBlock_construct addr np ms p attr =
     \<lparr> mb_device_disable_merge_left_count = 0,
       mb_device_disable_merge_right_count = 0,
       mb_address = addr,
       mb_num_pages = np,
       mb_memory_state = ms,
       mb_ipc_lock_count = 0,
       mb_device_use_count = 0,
       mb_ipc_disable_merge_count = 0,
       mb_permission = p,
       mb_original_permission = KMemoryPermission_None,
       mb_attribute = attr,
       mb_disable_merge_attribute = DisableMerge_None \<rparr>"

text \<open>
  \<^verbatim>\<open>Initialize\<close> resets every field except \<^verbatim>\<open>m_ipc_disable_merge_count\<close>, which keeps the
  value it had.
\<close>

definition KMemoryBlock_Initialize ::
    "KMemoryBlock \<Rightarrow> nat \<Rightarrow> nat \<Rightarrow> u32 \<Rightarrow> u8 \<Rightarrow> u8 \<Rightarrow> KMemoryBlock" where
  "KMemoryBlock_Initialize b addr np ms p attr =
     b \<lparr> mb_device_disable_merge_left_count := 0,
         mb_device_disable_merge_right_count := 0,
         mb_address := addr,
         mb_num_pages := np,
         mb_memory_state := ms,
         mb_ipc_lock_count := 0,
         mb_device_use_count := 0,
         mb_permission := p,
         mb_original_permission := KMemoryPermission_None,
         mb_attribute := attr,
         mb_disable_merge_attribute := DisableMerge_None \<rparr>"

subsection \<open>Comparing blocks\<close>

definition AttributeIgnoreMask :: u8 where
  "AttributeIgnoreMask = KMemoryAttribute_IpcLocked OR KMemoryAttribute_DeviceShared"

definition KMemoryBlock_HasProperties :: "KMemoryBlock \<Rightarrow> u32 \<Rightarrow> u8 \<Rightarrow> u8 \<Rightarrow> bool" where
  "KMemoryBlock_HasProperties b s p a \<longleftrightarrow>
     mb_memory_state b = s \<and> mb_permission b = p \<and>
     (mb_attribute b OR AttributeIgnoreMask) = (a OR AttributeIgnoreMask)"

definition KMemoryBlock_HasSameProperties :: "KMemoryBlock \<Rightarrow> KMemoryBlock \<Rightarrow> bool" where
  "KMemoryBlock_HasSameProperties b rhs \<longleftrightarrow>
     mb_memory_state b = mb_memory_state rhs \<and> mb_permission b = mb_permission rhs \<and>
     mb_original_permission b = mb_original_permission rhs \<and>
     mb_attribute b = mb_attribute rhs \<and> mb_ipc_lock_count b = mb_ipc_lock_count rhs \<and>
     mb_device_use_count b = mb_device_use_count rhs"

definition KMemoryBlock_CanMergeWith :: "KMemoryBlock \<Rightarrow> KMemoryBlock \<Rightarrow> bool" where
  "KMemoryBlock_CanMergeWith b rhs \<longleftrightarrow>
     KMemoryBlock_HasSameProperties b rhs \<and>
     mb_disable_merge_attribute b AND DisableMerge_AllRight = DisableMerge_None \<and>
     mb_disable_merge_attribute rhs AND DisableMerge_AllLeft = DisableMerge_None"

definition KMemoryBlock_Contains :: "KMemoryBlock \<Rightarrow> nat \<Rightarrow> bool" where
  "KMemoryBlock_Contains b addr \<longleftrightarrow>
     mb_address b \<le> addr \<and> addr \<le> KMemoryBlock_GetEndAddress b"

subsection \<open>Joining, reprotecting and splitting\<close>

definition KMemoryBlock_Add :: "KMemoryBlock \<Rightarrow> KMemoryBlock \<Rightarrow> KMemoryBlock" where
  "KMemoryBlock_Add b added_block =
     b \<lparr> mb_num_pages := u64_add (mb_num_pages b) (mb_num_pages added_block),
         mb_disable_merge_attribute :=
           mb_disable_merge_attribute b OR mb_disable_merge_attribute added_block,
         mb_device_disable_merge_right_count :=
           mb_device_disable_merge_right_count added_block \<rparr>"

definition KMemoryBlock_Add_asserts :: "KMemoryBlock \<Rightarrow> KMemoryBlock \<Rightarrow> bool" where
  "KMemoryBlock_Add_asserts b added_block \<longleftrightarrow>
     0 < mb_num_pages added_block \<and>
     u64_sub (u64_add (mb_address b) (KMemoryBlock_GetSize added_block)) 1
       < u64_sub (u64_add (KMemoryBlock_GetEndAddress b) (KMemoryBlock_GetSize added_block)) 1"

definition KMemoryBlock_Update ::
    "KMemoryBlock \<Rightarrow> u32 \<Rightarrow> u8 \<Rightarrow> u8 \<Rightarrow> bool \<Rightarrow> u8 \<Rightarrow> u8 \<Rightarrow> KMemoryBlock" where
  "KMemoryBlock_Update b s p a set_disable_merge_attr set_mask clear_mask =
     (let d0 = mb_disable_merge_attribute b;
          d1 = (if set_disable_merge_attr \<and> set_mask \<noteq> 0 then d0 OR set_mask else d0);
          d2 = (if clear_mask \<noteq> 0 then d1 AND NOT clear_mask else d1)
      in b \<lparr> mb_memory_state := s,
             mb_permission := p,
             mb_attribute :=
               a OR (mb_attribute b AND
                     (KMemoryAttribute_IpcLocked OR KMemoryAttribute_DeviceShared)),
             mb_disable_merge_attribute := d2 \<rparr>)"

definition KMemoryBlock_Update_asserts :: "KMemoryBlock \<Rightarrow> bool" where
  "KMemoryBlock_Update_asserts b \<longleftrightarrow>
     mb_original_permission b = KMemoryPermission_None \<and>
     mb_attribute b AND KMemoryAttribute_IpcLocked = KMemoryAttribute_None"

definition KMemoryBlock_UpdateAttribute :: "KMemoryBlock \<Rightarrow> u8 \<Rightarrow> u8 \<Rightarrow> KMemoryBlock" where
  "KMemoryBlock_UpdateAttribute b attr_mask attr =
     b \<lparr> mb_attribute := (mb_attribute b AND NOT attr_mask) OR attr \<rparr>"

definition KMemoryBlock_UpdateAttribute_asserts :: "u8 \<Rightarrow> bool" where
  "KMemoryBlock_UpdateAttribute_asserts attr_mask \<longleftrightarrow>
     attr_mask AND KMemoryAttribute_IpcLocked = 0 \<and> attr_mask AND KMemoryAttribute_DeviceShared = 0"

text \<open>
  \<^verbatim>\<open>Split(block, addr)\<close> gives \<^verbatim>\<open>block\<close> the part below \<^verbatim>\<open>addr\<close> and keeps the rest. The result
  is the pair of the written block and the updated one; every field of \<^verbatim>\<open>block\<close> is written.
\<close>

definition KMemoryBlock_Split :: "KMemoryBlock \<Rightarrow> nat \<Rightarrow> KMemoryBlock \<times> KMemoryBlock" where
  "KMemoryBlock_Split b addr =
     (let block =
        \<lparr> mb_device_disable_merge_left_count = mb_device_disable_merge_left_count b,
          mb_device_disable_merge_right_count = 0,
          mb_address = mb_address b,
          mb_num_pages = u64_sub addr (mb_address b) div PageSize,
          mb_memory_state = mb_memory_state b,
          mb_ipc_lock_count = mb_ipc_lock_count b,
          mb_device_use_count = mb_device_use_count b,
          mb_ipc_disable_merge_count = mb_ipc_disable_merge_count b,
          mb_permission = mb_permission b,
          mb_original_permission = mb_original_permission b,
          mb_attribute = mb_attribute b,
          mb_disable_merge_attribute =
            mb_disable_merge_attribute b AND DisableMerge_AllLeft \<rparr>
      in (block,
          b \<lparr> mb_address := addr,
              mb_num_pages := u64_sub (mb_num_pages b) (mb_num_pages block),
              mb_ipc_disable_merge_count := 0,
              mb_device_disable_merge_left_count := 0,
              mb_disable_merge_attribute :=
                mb_disable_merge_attribute b AND DisableMerge_AllRight \<rparr>))"

definition KMemoryBlock_Split_asserts :: "KMemoryBlock \<Rightarrow> nat \<Rightarrow> bool" where
  "KMemoryBlock_Split_asserts b addr \<longleftrightarrow>
     mb_address b < addr \<and> KMemoryBlock_Contains b addr \<and> addr mod PageSize = 0"

subsection \<open>Sharing with devices\<close>

text \<open>
  The functions passed to \<^verbatim>\<open>KMemoryBlockManager::UpdateLock\<close> share the signature
  \<^verbatim>\<open>(new_perm, left, right)\<close>; the arguments a function ignores are kept.
\<close>

definition UpdateDeviceDisableMergeStateForShareLeft ::
    "u8 \<Rightarrow> bool \<Rightarrow> bool \<Rightarrow> KMemoryBlock \<Rightarrow> KMemoryBlock" where
  "UpdateDeviceDisableMergeStateForShareLeft new_perm left right b =
     (if left then
        b \<lparr> mb_disable_merge_attribute := mb_disable_merge_attribute b OR DisableMerge_DeviceLeft,
            mb_device_disable_merge_left_count := mb_device_disable_merge_left_count b + 1 \<rparr>
      else b)"

definition UpdateDeviceDisableMergeStateForShareRight ::
    "u8 \<Rightarrow> bool \<Rightarrow> bool \<Rightarrow> KMemoryBlock \<Rightarrow> KMemoryBlock" where
  "UpdateDeviceDisableMergeStateForShareRight new_perm left right b =
     (if right then
        b \<lparr> mb_disable_merge_attribute := mb_disable_merge_attribute b OR DisableMerge_DeviceRight,
            mb_device_disable_merge_right_count := mb_device_disable_merge_right_count b + 1 \<rparr>
      else b)"

definition UpdateDeviceDisableMergeStateForShare ::
    "u8 \<Rightarrow> bool \<Rightarrow> bool \<Rightarrow> KMemoryBlock \<Rightarrow> KMemoryBlock" where
  "UpdateDeviceDisableMergeStateForShare new_perm left right b =
     UpdateDeviceDisableMergeStateForShareRight new_perm left right
       (UpdateDeviceDisableMergeStateForShareLeft new_perm left right b)"

definition KMemoryBlock_ShareToDevice ::
    "u8 \<Rightarrow> bool \<Rightarrow> bool \<Rightarrow> KMemoryBlock \<Rightarrow> KMemoryBlock" where
  "KMemoryBlock_ShareToDevice new_perm left right b =
     UpdateDeviceDisableMergeStateForShare new_perm left right
       (b \<lparr> mb_device_use_count := mb_device_use_count b + 1,
            mb_attribute := mb_attribute b OR KMemoryAttribute_DeviceShared \<rparr>)"

definition UpdateDeviceDisableMergeStateForUnshareLeft ::
    "u8 \<Rightarrow> bool \<Rightarrow> bool \<Rightarrow> KMemoryBlock \<Rightarrow> KMemoryBlock" where
  "UpdateDeviceDisableMergeStateForUnshareLeft new_perm left right b =
     (if left \<and> mb_device_disable_merge_left_count b = 0 then b
      else
        (let c0 = mb_device_disable_merge_left_count b;
             c1 = (if left then c0 - 1 else c0);
             c2 = min c1 (mb_device_use_count b);
             b' = b \<lparr> mb_device_disable_merge_left_count := c2 \<rparr>
         in if c2 = 0 then
              b' \<lparr> mb_disable_merge_attribute :=
                     mb_disable_merge_attribute b' AND NOT DisableMerge_DeviceLeft \<rparr>
            else b'))"

definition UpdateDeviceDisableMergeStateForUnshareRight ::
    "u8 \<Rightarrow> bool \<Rightarrow> bool \<Rightarrow> KMemoryBlock \<Rightarrow> KMemoryBlock" where
  "UpdateDeviceDisableMergeStateForUnshareRight new_perm left right b =
     (if right then
        (let old = mb_device_disable_merge_right_count b;
             b' = b \<lparr> mb_device_disable_merge_right_count := old - 1 \<rparr>
         in if old = 1 then
              b' \<lparr> mb_disable_merge_attribute :=
                     mb_disable_merge_attribute b' AND NOT DisableMerge_DeviceRight \<rparr>
            else b')
      else b)"

definition UpdateDeviceDisableMergeStateForUnshare ::
    "u8 \<Rightarrow> bool \<Rightarrow> bool \<Rightarrow> KMemoryBlock \<Rightarrow> KMemoryBlock" where
  "UpdateDeviceDisableMergeStateForUnshare new_perm left right b =
     UpdateDeviceDisableMergeStateForUnshareRight new_perm left right
       (UpdateDeviceDisableMergeStateForUnshareLeft new_perm left right b)"

text \<open>The common beginning of \<^verbatim>\<open>UnshareToDevice\<close> and \<^verbatim>\<open>UnshareToDeviceRight\<close>.\<close>

definition drop_device_use :: "KMemoryBlock \<Rightarrow> KMemoryBlock" where
  "drop_device_use b =
     (let old_count = mb_device_use_count b;
          b' = b \<lparr> mb_device_use_count := old_count - 1 \<rparr>
      in if old_count = 1 then
           b' \<lparr> mb_attribute := mb_attribute b' AND NOT KMemoryAttribute_DeviceShared \<rparr>
         else b')"

definition KMemoryBlock_UnshareToDevice ::
    "u8 \<Rightarrow> bool \<Rightarrow> bool \<Rightarrow> KMemoryBlock \<Rightarrow> KMemoryBlock" where
  "KMemoryBlock_UnshareToDevice new_perm left right b =
     UpdateDeviceDisableMergeStateForUnshare new_perm left right (drop_device_use b)"

definition KMemoryBlock_UnshareToDeviceRight ::
    "u8 \<Rightarrow> bool \<Rightarrow> bool \<Rightarrow> KMemoryBlock \<Rightarrow> KMemoryBlock" where
  "KMemoryBlock_UnshareToDeviceRight new_perm left right b =
     UpdateDeviceDisableMergeStateForUnshareRight new_perm left right (drop_device_use b)"

subsection \<open>Locking for IPC\<close>

definition KMemoryBlock_LockForIpc ::
    "u8 \<Rightarrow> bool \<Rightarrow> bool \<Rightarrow> KMemoryBlock \<Rightarrow> KMemoryBlock" where
  "KMemoryBlock_LockForIpc new_perm left right b =
     (let new_lock_count = mb_ipc_lock_count b + 1;
          b1 = b \<lparr> mb_ipc_lock_count := new_lock_count \<rparr>;
          b2 = (if new_lock_count = 1 then
                  b1 \<lparr> mb_original_permission := mb_permission b,
                       mb_permission :=
                         (new_perm AND KMemoryPermission_IpcLockChangeMask) OR
                         (mb_permission b AND NOT KMemoryPermission_IpcLockChangeMask) \<rparr>
                else b1);
          b3 = b2 \<lparr> mb_attribute := mb_attribute b2 OR KMemoryAttribute_IpcLocked \<rparr>
      in if left then
           b3 \<lparr> mb_disable_merge_attribute :=
                  mb_disable_merge_attribute b3 OR DisableMerge_IpcLeft,
                mb_ipc_disable_merge_count := mb_ipc_disable_merge_count b3 + 1 \<rparr>
         else b3)"

definition KMemoryBlock_LockForIpc_asserts :: "u8 \<Rightarrow> bool \<Rightarrow> KMemoryBlock \<Rightarrow> bool" where
  "KMemoryBlock_LockForIpc_asserts new_perm left b \<longleftrightarrow>
     (mb_attribute b AND KMemoryAttribute_IpcLocked = KMemoryAttribute_IpcLocked \<or>
      mb_ipc_lock_count b = 0) \<and>
     0 < mb_ipc_lock_count b + 1 \<and>
     (mb_ipc_lock_count b + 1 = 1 \<longrightarrow>
        mb_original_permission b = KMemoryPermission_None \<and>
        mb_permission b OR new_perm OR KMemoryPermission_NotMapped =
          mb_permission b OR KMemoryPermission_NotMapped \<and>
        (mb_permission b AND KMemoryPermission_UserExecute \<noteq> KMemoryPermission_UserExecute \<or>
         new_perm = KMemoryPermission_UserRead)) \<and>
     (left \<longrightarrow> 0 < mb_ipc_disable_merge_count b + 1)"

definition KMemoryBlock_UnlockForIpc ::
    "u8 \<Rightarrow> bool \<Rightarrow> bool \<Rightarrow> KMemoryBlock \<Rightarrow> KMemoryBlock" where
  "KMemoryBlock_UnlockForIpc new_perm left right b =
     (let old_lock_count = mb_ipc_lock_count b;
          b1 = b \<lparr> mb_ipc_lock_count := old_lock_count - 1 \<rparr>;
          b2 = (if old_lock_count = 1 then
                  b1 \<lparr> mb_permission := mb_original_permission b1,
                       mb_original_permission := KMemoryPermission_None,
                       mb_attribute := mb_attribute b1 AND NOT KMemoryAttribute_IpcLocked \<rparr>
                else b1)
      in if left then
           (let old = mb_ipc_disable_merge_count b2;
                b3 = b2 \<lparr> mb_ipc_disable_merge_count := old - 1 \<rparr>
            in if old = 1 then
                 b3 \<lparr> mb_disable_merge_attribute :=
                        mb_disable_merge_attribute b3 AND NOT DisableMerge_IpcLeft \<rparr>
               else b3)
         else b2)"

definition KMemoryBlock_UnlockForIpc_asserts :: "bool \<Rightarrow> KMemoryBlock \<Rightarrow> bool" where
  "KMemoryBlock_UnlockForIpc_asserts left b \<longleftrightarrow>
     mb_attribute b AND KMemoryAttribute_IpcLocked = KMemoryAttribute_IpcLocked \<and>
     0 < mb_ipc_lock_count b \<and>
     (mb_ipc_lock_count b = 1 \<longrightarrow> mb_original_permission b \<noteq> KMemoryPermission_None) \<and>
     (left \<longrightarrow> 0 < mb_ipc_disable_merge_count b)"

section \<open>The encodings\<close>

text \<open>The table of \<^verbatim>\<open>static_assert\<close>s that closes the enumeration of the states.\<close>

lemma KMemoryState_values:
  "KMemoryState_Free = 0x00000000"
  "KMemoryState_IoMemory = 0x00182001"
  "KMemoryState_IoRegister = 0x00180001"
  "KMemoryState_Static = 0x00042002"
  "KMemoryState_Code = 0x04DC7E03"
  "KMemoryState_CodeData = 0x0FFEBD04"
  "KMemoryState_Normal = 0x077EBD05"
  "KMemoryState_Shared = 0x04402006"
  "KMemoryState_AliasCode = 0x04DD7E08"
  "KMemoryState_AliasCodeData = 0x0FFFBD09"
  "KMemoryState_Ipc = 0x045C3C0A"
  "KMemoryState_Stack = 0x045C3C0B"
  "KMemoryState_ThreadLocal = 0x0400000C"
  "KMemoryState_Transferred = 0x055C3C0D"
  "KMemoryState_SharedTransferred = 0x045C380E"
  "KMemoryState_SharedCode = 0x0440380F"
  "KMemoryState_Inaccessible = 0x00000010"
  "KMemoryState_NonSecureIpc = 0x045C3811"
  "KMemoryState_NonDeviceIpc = 0x044C2812"
  "KMemoryState_Kernel = 0x00000013"
  "KMemoryState_GeneratedCode = 0x04402214"
  "KMemoryState_CodeOut = 0x04402015"
  "KMemoryState_Coverage = 0x00002016"
  "KMemoryState_Insecure = 0x055C3817"
  by (simp_all add: KMemoryState_defs)

text \<open>Single flags of the attribute words, read as bits.\<close>

lemma single_bit_eq_0_iff: "(x :: u8) AND push_bit n 1 = 0 \<longleftrightarrow> n < 8 \<longrightarrow> \<not> bit x n"
proof -
  have "x AND push_bit n 1 = (if n < 8 \<and> bit x n then push_bit n 1 else 0)"
    by (rule bit_word_eqI) (auto simp: bit_simps)
  moreover have "bit (push_bit n (1 :: u8)) n" if "n < 8"
    using that by (simp add: bit_simps)
  then have "n < 8 \<Longrightarrow> push_bit n (1 :: u8) \<noteq> 0" by auto
  ultimately show ?thesis by simp
qed

lemmas flag_defs =
  KMemoryAttribute_IpcLocked_def KMemoryAttribute_DeviceShared_def DisableMerge_DeviceLeft_def
  DisableMerge_IpcLeft_def DisableMerge_DeviceRight_def

lemma flag_eq_0_iff:
  "(x :: u8) AND KMemoryAttribute_IpcLocked = 0 \<longleftrightarrow> \<not> bit x 1"
  "x AND KMemoryAttribute_DeviceShared = 0 \<longleftrightarrow> \<not> bit x 2"
  "x AND DisableMerge_DeviceLeft = 0 \<longleftrightarrow> \<not> bit x 1"
  "x AND DisableMerge_IpcLeft = 0 \<longleftrightarrow> \<not> bit x 2"
  "x AND DisableMerge_DeviceRight = 0 \<longleftrightarrow> \<not> bit x 4"
  unfolding flag_defs single_bit_eq_0_iff by simp_all

lemma bit_flag_iff:
  "bit KMemoryAttribute_IpcLocked n \<longleftrightarrow> n = 1"
  "bit KMemoryAttribute_DeviceShared n \<longleftrightarrow> n = 2"
  "bit DisableMerge_DeviceLeft n \<longleftrightarrow> n = 1"
  "bit DisableMerge_IpcLeft n \<longleftrightarrow> n = 2"
  "bit DisableMerge_DeviceRight n \<longleftrightarrow> n = 4"
  unfolding flag_defs bit_push_bit_iff by (auto simp: bit_simps)

lemma bit_AllLeft_iff: "bit DisableMerge_AllLeft n \<longleftrightarrow> n < 4"
  unfolding DisableMerge_defs bit_or_iff bit_push_bit_iff by (auto simp: bit_simps)

lemma bit_AllRight_iff: "bit DisableMerge_AllRight n \<longleftrightarrow> n = 4"
  unfolding DisableMerge_AllRight_def bit_flag_iff by simp

lemmas flag_bits = flag_eq_0_iff bit_flag_iff bit_AllLeft_iff bit_AllRight_iff
  bit_or_iff bit_and_iff bit_not_iff

section \<open>One block\<close>

subsection \<open>Block geometry\<close>

text \<open>A block that has pages and does not wrap past the end of the 64-bit address space.\<close>

definition block_fits :: "KMemoryBlock \<Rightarrow> bool" where
  "block_fits b \<longleftrightarrow> 0 < mb_num_pages b \<and> mb_address b + mb_num_pages b * PageSize < 2 ^ 64"

lemma block_fits_geometry:
  assumes "block_fits b"
  shows "KMemoryBlock_GetSize b = mb_num_pages b * PageSize"
    "KMemoryBlock_GetEndAddress b = mb_address b + mb_num_pages b * PageSize"
    "KMemoryBlock_GetLastAddress b = mb_address b + mb_num_pages b * PageSize - 1"
proof -
  have size: "mb_num_pages b * PageSize < 2 ^ 64"
    and fit: "mb_address b + mb_num_pages b * PageSize < 2 ^ 64" "0 < mb_num_pages b"
    using assms by (simp_all add: block_fits_def)
  then show s: "KMemoryBlock_GetSize b = mb_num_pages b * PageSize"
    unfolding KMemoryBlock_GetSize_def by (simp only: u64_mul_exact)
  with fit show e: "KMemoryBlock_GetEndAddress b = mb_address b + mb_num_pages b * PageSize"
    unfolding KMemoryBlock_GetEndAddress_def by (simp only: u64_add_exact)
  have "1 \<le> mb_address b + mb_num_pages b * PageSize"
    using fit(2) by (simp add: PageSize_def)
  with fit(1) show "KMemoryBlock_GetLastAddress b = mb_address b + mb_num_pages b * PageSize - 1"
    unfolding KMemoryBlock_GetLastAddress_def e by (simp only: u64_sub_exact)
qed

lemma GetMemoryInfo_simps [simp]:
  "mi_address (KMemoryBlock_GetMemoryInfo b) = mb_address b"
  "mi_size (KMemoryBlock_GetMemoryInfo b) = KMemoryBlock_GetSize b"
  "mi_state (KMemoryBlock_GetMemoryInfo b) = mb_memory_state b"
  "mi_attribute (KMemoryBlock_GetMemoryInfo b) = mb_attribute b"
  "mi_ipc_lock_count (KMemoryBlock_GetMemoryInfo b) = mb_ipc_lock_count b"
  "mi_device_use_count (KMemoryBlock_GetMemoryInfo b) = mb_device_use_count b"
  "KMemoryInfo_GetEndAddress (KMemoryBlock_GetMemoryInfo b) = KMemoryBlock_GetEndAddress b"
  "KMemoryInfo_GetLastAddress (KMemoryBlock_GetMemoryInfo b) = KMemoryBlock_GetLastAddress b"
  by (simp_all add: KMemoryBlock_GetMemoryInfo_def KMemoryInfo_GetEndAddress_def
      KMemoryBlock_GetEndAddress_def KMemoryInfo_GetLastAddress_def KMemoryBlock_GetLastAddress_def)

lemma GetMemoryInfo_num_pages [simp]:
  "block_fits b \<Longrightarrow> KMemoryInfo_GetNumPages (KMemoryBlock_GetMemoryInfo b) = mb_num_pages b"
  by (simp add: KMemoryInfo_GetNumPages_def block_fits_geometry)

subsection \<open>Splitting and joining\<close>

text \<open>Where a split at a page boundary inside the block cuts it.\<close>

definition splits_at :: "KMemoryBlock \<Rightarrow> nat \<Rightarrow> nat \<Rightarrow> bool" where
  "splits_at b addr k \<longleftrightarrow>
     block_fits b \<and> addr = mb_address b + k * PageSize \<and> 0 < k \<and> k < mb_num_pages b"

lemma splits_at_pages:
  assumes "splits_at b addr k"
  shows "u64_sub addr (mb_address b) div PageSize = k"
    "u64_sub (mb_num_pages b) k = mb_num_pages b - k"
    "u64_add k (mb_num_pages b - k) = mb_num_pages b"
proof -
  have k: "k < mb_num_pages b" and fit: "mb_address b + mb_num_pages b * PageSize < 2 ^ 64"
    and addr: "addr = mb_address b + k * PageSize"
    using assms by (simp_all add: splits_at_def block_fits_def)
  have "k * PageSize \<le> mb_num_pages b * PageSize" using k by simp
  then have "addr < 2 ^ 64" using fit addr by linarith
  then have "u64_sub addr (mb_address b) = k * PageSize"
    using addr by (simp only: u64_sub_exact le_add1 add_diff_cancel_left')
  then show "u64_sub addr (mb_address b) div PageSize = k" by simp
  have n: "mb_num_pages b < 2 ^ 64"
    using fit by (simp add: PageSize_def)
  then show "u64_sub (mb_num_pages b) k = mb_num_pages b - k"
    using k by (simp only: u64_sub_exact less_imp_le)
  show "u64_add k (mb_num_pages b - k) = mb_num_pages b"
    using k n by (simp only: u64_add_exact le_add_diff_inverse less_imp_le)
qed

lemma Split_pieces:
  assumes "splits_at b addr k" "KMemoryBlock_Split b addr = (l, r)"
  shows "mb_address l = mb_address b" "mb_num_pages l = k"
    "mb_address r = addr" "mb_num_pages r = mb_num_pages b - k"
    "block_fits l" "block_fits r"
proof -
  show l: "mb_address l = mb_address b" "mb_num_pages l = k"
    and r: "mb_address r = addr" "mb_num_pages r = mb_num_pages b - k"
    using assms by (auto simp: KMemoryBlock_Split_def Let_def splits_at_pages)
  have k: "0 < k" "k < mb_num_pages b" "addr = mb_address b + k * PageSize"
    "mb_address b + mb_num_pages b * PageSize < 2 ^ 64"
    using assms(1) by (auto simp: splits_at_def block_fits_def)
  have "k * PageSize + (mb_num_pages b - k) * PageSize = mb_num_pages b * PageSize"
    using k(2) by (metis add_mult_distrib le_add_diff_inverse less_imp_le)
  then show "block_fits l" "block_fits r"
    unfolding block_fits_def l r using k by linarith+
qed

lemma Split_asserts_hold: "splits_at b addr k \<Longrightarrow> mb_address b mod PageSize = 0 \<Longrightarrow>
    KMemoryBlock_Split_asserts b addr"
  by (auto simp: splits_at_def KMemoryBlock_Split_asserts_def KMemoryBlock_Contains_def
      block_fits_geometry mod_add_eq)

text \<open>The disable-merge flags that the code defines.\<close>

definition disable_merge_ok :: "KMemoryBlock \<Rightarrow> bool" where
  "disable_merge_ok b \<longleftrightarrow>
     mb_disable_merge_attribute b AND (DisableMerge_AllLeft OR DisableMerge_AllRight)
       = mb_disable_merge_attribute b"

subsection \<open>Reference counts\<close>

text \<open>
  The counters of a block agree with its flags: a lock count is zero exactly when the lock's
  attribute is clear, an unlocked block has no saved permission, and each disable-merge count is
  zero exactly when its disable-merge flag is clear.
\<close>

definition counts_ok :: "KMemoryBlock \<Rightarrow> bool" where
  "counts_ok b \<longleftrightarrow>
     (mb_ipc_lock_count b = 0 \<longleftrightarrow> mb_attribute b AND KMemoryAttribute_IpcLocked = 0) \<and>
     (mb_ipc_lock_count b = 0 \<longrightarrow> mb_original_permission b = KMemoryPermission_None) \<and>
     (mb_ipc_disable_merge_count b = 0 \<longleftrightarrow>
        mb_disable_merge_attribute b AND DisableMerge_IpcLeft = 0) \<and>
     (mb_device_use_count b = 0 \<longleftrightarrow> mb_attribute b AND KMemoryAttribute_DeviceShared = 0) \<and>
     (mb_device_disable_merge_left_count b = 0 \<longleftrightarrow>
        mb_disable_merge_attribute b AND DisableMerge_DeviceLeft = 0) \<and>
     (mb_device_disable_merge_right_count b = 0 \<longleftrightarrow>
        mb_disable_merge_attribute b AND DisableMerge_DeviceRight = 0)"

lemma counts_ok_Split:
  assumes "counts_ok b" "KMemoryBlock_Split b addr = (l, r)"
  shows "counts_ok l" "counts_ok r"
proof -
  have lr: "l = fst (KMemoryBlock_Split b addr)" "r = snd (KMemoryBlock_Split b addr)"
    using assms(2) by simp_all
  show "counts_ok l"
    using assms(1) unfolding lr
    by (simp add: counts_ok_def KMemoryBlock_Split_def Let_def flag_bits)
  show "counts_ok r"
    using assms(1) unfolding lr
    by (simp add: counts_ok_def KMemoryBlock_Split_def Let_def flag_bits)
qed

lemma counts_ok_Add:
  assumes "counts_ok l" "counts_ok r" "KMemoryBlock_CanMergeWith l r"
  shows "counts_ok (KMemoryBlock_Add l r)"
proof -
  have "\<not> bit (mb_disable_merge_attribute l) 4"
    using assms(3) unfolding KMemoryBlock_CanMergeWith_def DisableMerge_AllRight_def flag_bits
    by simp
  moreover have "\<not> bit (mb_disable_merge_attribute r) n" if "n < 4" for n
    using assms(3) disjoint_mask_bit [of "mb_disable_merge_attribute r" DisableMerge_AllLeft n] that
    by (simp add: KMemoryBlock_CanMergeWith_def bit_AllLeft_iff)
  ultimately show ?thesis
    using assms(1,2) by (simp add: counts_ok_def KMemoryBlock_Add_def flag_bits)
qed

lemma counts_ok_construct: "counts_ok (KMemoryBlock_construct addr np ms p KMemoryAttribute_None)"
  by (simp add: counts_ok_def KMemoryBlock_construct_def)

text \<open>Reprotecting a block keeps its counters in step when it leaves the lock flags alone.\<close>

definition lock_free_masks :: "u8 \<Rightarrow> u8 \<Rightarrow> bool" where
  "lock_free_masks set_mask clear_mask \<longleftrightarrow>
     (set_mask OR clear_mask) AND
       (DisableMerge_IpcLeft OR DisableMerge_DeviceLeft OR DisableMerge_DeviceRight) = 0"

definition lock_free_attr :: "u8 \<Rightarrow> bool" where
  "lock_free_attr a \<longleftrightarrow>
     a AND (KMemoryAttribute_IpcLocked OR KMemoryAttribute_DeviceShared) = KMemoryAttribute_None"

lemma lock_free_masks_bits:
  assumes "lock_free_masks set_mask clear_mask" "n \<in> {1, 2, 4}"
  shows "\<not> bit set_mask n" "\<not> bit clear_mask n"
  using disjoint_mask_bit [OF assms(1) [unfolded lock_free_masks_def], of n] assms(2)
  by (auto simp: flag_bits)

lemma lock_free_attr_bits:
  assumes "lock_free_attr a" "n \<in> {1, 2}"
  shows "\<not> bit a n"
  using disjoint_mask_bit [OF assms(1) [unfolded lock_free_attr_def], of n] assms(2)
  by (auto simp: flag_bits)

lemma counts_ok_Update:
  assumes "counts_ok b" "lock_free_attr a" "lock_free_masks set_mask clear_mask"
  shows "counts_ok (KMemoryBlock_Update b s p a f set_mask clear_mask)"
  using assms(1) lock_free_attr_bits [OF assms(2)] lock_free_masks_bits [OF assms(3)]
  by (simp add: counts_ok_def KMemoryBlock_Update_def Let_def flag_bits)

lemma counts_ok_UpdateAttribute:
  assumes "counts_ok b" "lock_free_attr attr_mask" "lock_free_attr attr"
  shows "counts_ok (KMemoryBlock_UpdateAttribute b attr_mask attr)"
  using assms(1) lock_free_attr_bits [OF assms(2)] lock_free_attr_bits [OF assms(3)]
  by (simp add: counts_ok_def KMemoryBlock_UpdateAttribute_def flag_bits)

lemma counts_ok_LockForIpc:
  assumes "counts_ok b" "mb_ipc_lock_count b \<noteq> -1" "mb_ipc_disable_merge_count b \<noteq> -1"
  shows "counts_ok (KMemoryBlock_LockForIpc p left right b)"
proof -
  have "mb_ipc_lock_count b + 1 \<noteq> 0" "mb_ipc_disable_merge_count b + 1 \<noteq> 0"
    using assms(2,3) by (simp_all add: eq_neg_iff_add_eq_0)
  then show ?thesis
    using assms(1) by (simp add: counts_ok_def KMemoryBlock_LockForIpc_def Let_def flag_bits)
qed

section \<open>Nested locks\<close>

text \<open>
  A lock whose release undoes it exactly, as long as its counters stay below their capacity. The
  parameters of an acquisition are passed again to its release.
\<close>

locale nested_lock =
  fixes lock unlock :: "'p \<Rightarrow> 'b \<Rightarrow> 'b"
    and inv :: "'b \<Rightarrow> bool"
    and level :: "'b \<Rightarrow> nat"
    and capacity :: nat
  assumes lock_inv: "inv b \<Longrightarrow> level b < capacity \<Longrightarrow> inv (lock p b)"
    and lock_level: "inv b \<Longrightarrow> level b < capacity \<Longrightarrow> level (lock p b) \<le> Suc (level b)"
    and unlock_lock: "inv b \<Longrightarrow> level b < capacity \<Longrightarrow> unlock p (lock p b) = b"
begin

lemma nested_release:
  assumes "inv b" "level b + length ps \<le> capacity"
  shows "fold unlock (rev ps) (fold lock ps b) = b"
  using assms
proof (induction ps arbitrary: b)
  case Nil
  then show ?case by simp
next
  case (Cons p ps)
  then have room: "level b < capacity" by simp
  have "fold unlock (rev ps) (fold lock ps (lock p b)) = lock p b"
    using Cons.prems lock_level [OF Cons.prems(1) room, of p]
    by (intro Cons.IH lock_inv room) simp_all
  then show ?case
    using unlock_lock [OF Cons.prems(1) room, of p] by simp
qed

end

text \<open>Counters at their width: a count below the capacity does not wrap when incremented.\<close>

lemma count_room:
  fixes c :: u16
  assumes "unat c < 65535"
  shows "c \<noteq> -1" "c + 1 \<noteq> 0" "unat (c + 1) = Suc (unat c)"
proof -
  have "unat (-1 :: u16) = 65535" by (simp add: unsigned_minus_1_eq_mask mask_eq_exp_minus_1)
  then show c: "c \<noteq> -1" using assms by force
  then show "c + 1 \<noteq> 0" by (simp add: eq_neg_iff_add_eq_0)
  then show "unat (c + 1) = Suc (unat c)"
    by (metis add.commute unatSuc)
qed

definition ipc_level :: "KMemoryBlock \<Rightarrow> nat" where
  "ipc_level b = max (unat (mb_ipc_lock_count b)) (unat (mb_ipc_disable_merge_count b))"

definition device_level :: "KMemoryBlock \<Rightarrow> nat" where
  "device_level b = max (unat (mb_device_use_count b))
     (max (unat (mb_device_disable_merge_left_count b))
          (unat (mb_device_disable_merge_right_count b)))"

definition device_ok :: "KMemoryBlock \<Rightarrow> bool" where
  "device_ok b \<longleftrightarrow> counts_ok b \<and> mb_device_disable_merge_left_count b \<le> mb_device_use_count b"

abbreviation lock_ipc :: "u8 \<times> bool \<times> bool \<Rightarrow> KMemoryBlock \<Rightarrow> KMemoryBlock" where
  "lock_ipc \<equiv> \<lambda>(p, left, right). KMemoryBlock_LockForIpc p left right"
abbreviation unlock_ipc :: "u8 \<times> bool \<times> bool \<Rightarrow> KMemoryBlock \<Rightarrow> KMemoryBlock" where
  "unlock_ipc \<equiv> \<lambda>(p, left, right). KMemoryBlock_UnlockForIpc p left right"
abbreviation share_device :: "u8 \<times> bool \<times> bool \<Rightarrow> KMemoryBlock \<Rightarrow> KMemoryBlock" where
  "share_device \<equiv> \<lambda>(p, left, right). KMemoryBlock_ShareToDevice p left right"
abbreviation unshare_device :: "u8 \<times> bool \<times> bool \<Rightarrow> KMemoryBlock \<Rightarrow> KMemoryBlock" where
  "unshare_device \<equiv> \<lambda>(p, left, right). KMemoryBlock_UnshareToDevice p left right"

lemma flag_absorb:
  assumes "(x :: u8) AND push_bit n 1 \<noteq> 0"
  shows "x OR push_bit n 1 = x"
proof (rule bit_word_eqI)
  fix i
  have "bit x n" using assms by (simp only: single_bit_eq_0_iff) simp
  then show "bit (x OR push_bit n 1) i = bit x i"
    by (auto simp: bit_simps)
qed

lemma flag_nonzero [simp]:
  "KMemoryAttribute_IpcLocked \<noteq> 0" "KMemoryAttribute_DeviceShared \<noteq> 0"
  "DisableMerge_DeviceLeft \<noteq> 0" "DisableMerge_IpcLeft \<noteq> 0" "DisableMerge_DeviceRight \<noteq> 0"
  by (simp_all add: flag_defs)

lemma flag_set_clear: "(x :: u8) AND m = 0 \<Longrightarrow> (x OR m) AND NOT m = x"
  by (rule set_clear_mask)

lemmas flag_absorbs =
  flag_absorb [of _ 1, folded KMemoryAttribute_IpcLocked_def]
  flag_absorb [of _ 2, folded KMemoryAttribute_DeviceShared_def]
  flag_absorb [of _ 1, folded DisableMerge_DeviceLeft_def]
  flag_absorb [of _ 2, folded DisableMerge_IpcLeft_def]
  flag_absorb [of _ 4, folded DisableMerge_DeviceRight_def]

lemma unlock_lock_ipc:
  assumes "counts_ok b" "ipc_level b < 65535"
  shows "KMemoryBlock_UnlockForIpc p' left right' (KMemoryBlock_LockForIpc p left right b) = b"
proof -
  have c: "mb_ipc_lock_count b + 1 \<noteq> 0" "mb_ipc_disable_merge_count b + 1 \<noteq> 0"
    using assms(2) by (simp_all add: ipc_level_def count_room)
  show ?thesis
    using assms(1)
    by (cases "mb_ipc_lock_count b = 0"; cases left; cases "mb_ipc_disable_merge_count b = 0")
      (simp_all add: counts_ok_def KMemoryBlock_LockForIpc_def KMemoryBlock_UnlockForIpc_def
        Let_def flag_absorbs flag_set_clear)
qed

lemma share_device_fields:
  "mb_device_use_count (KMemoryBlock_ShareToDevice p left right b) = mb_device_use_count b + 1"
  "mb_device_disable_merge_left_count (KMemoryBlock_ShareToDevice p left right b) =
     (if left then mb_device_disable_merge_left_count b + 1
      else mb_device_disable_merge_left_count b)"
  "mb_device_disable_merge_right_count (KMemoryBlock_ShareToDevice p left right b) =
     (if right then mb_device_disable_merge_right_count b + 1
      else mb_device_disable_merge_right_count b)"
  by (simp_all add: KMemoryBlock_ShareToDevice_def UpdateDeviceDisableMergeStateForShare_def
      UpdateDeviceDisableMergeStateForShareLeft_def UpdateDeviceDisableMergeStateForShareRight_def)

lemmas share_defs =
  KMemoryBlock_ShareToDevice_def UpdateDeviceDisableMergeStateForShare_def
  UpdateDeviceDisableMergeStateForShareLeft_def UpdateDeviceDisableMergeStateForShareRight_def

lemmas unshare_defs =
  KMemoryBlock_UnshareToDevice_def UpdateDeviceDisableMergeStateForUnshare_def
  UpdateDeviceDisableMergeStateForUnshareLeft_def UpdateDeviceDisableMergeStateForUnshareRight_def
  drop_device_use_def

lemma share_other_fields:
  "mb_address (KMemoryBlock_ShareToDevice p left right b) = mb_address b"
  "mb_num_pages (KMemoryBlock_ShareToDevice p left right b) = mb_num_pages b"
  "mb_memory_state (KMemoryBlock_ShareToDevice p left right b) = mb_memory_state b"
  "mb_ipc_lock_count (KMemoryBlock_ShareToDevice p left right b) = mb_ipc_lock_count b"
  "mb_ipc_disable_merge_count (KMemoryBlock_ShareToDevice p left right b) =
     mb_ipc_disable_merge_count b"
  "mb_permission (KMemoryBlock_ShareToDevice p left right b) = mb_permission b"
  "mb_original_permission (KMemoryBlock_ShareToDevice p left right b) = mb_original_permission b"
  by (simp_all add: share_defs)

lemma unshare_device_fields:
  "mb_device_use_count (KMemoryBlock_UnshareToDevice p left right b) = mb_device_use_count b - 1"
  "mb_device_disable_merge_left_count (KMemoryBlock_UnshareToDevice p left right b) =
     (if left \<and> mb_device_disable_merge_left_count b = 0 then 0
      else min (if left then mb_device_disable_merge_left_count b - 1
                else mb_device_disable_merge_left_count b)
               (mb_device_use_count b - 1))"
  "mb_device_disable_merge_right_count (KMemoryBlock_UnshareToDevice p left right b) =
     (if right then mb_device_disable_merge_right_count b - 1
      else mb_device_disable_merge_right_count b)"
  by (simp_all add: unshare_defs Let_def)

lemma drop_device_use_fields:
  "mb_address (drop_device_use b) = mb_address b"
  "mb_num_pages (drop_device_use b) = mb_num_pages b"
  "mb_memory_state (drop_device_use b) = mb_memory_state b"
  "mb_ipc_lock_count (drop_device_use b) = mb_ipc_lock_count b"
  "mb_ipc_disable_merge_count (drop_device_use b) = mb_ipc_disable_merge_count b"
  "mb_permission (drop_device_use b) = mb_permission b"
  "mb_original_permission (drop_device_use b) = mb_original_permission b"
  "mb_device_disable_merge_left_count (drop_device_use b) = mb_device_disable_merge_left_count b"
  "mb_device_disable_merge_right_count (drop_device_use b) = mb_device_disable_merge_right_count b"
  "mb_disable_merge_attribute (drop_device_use b) = mb_disable_merge_attribute b"
  by (simp_all add: drop_device_use_def Let_def)

lemma unshare_left_fields:
  "mb_address (UpdateDeviceDisableMergeStateForUnshareLeft p left right b) = mb_address b"
  "mb_num_pages (UpdateDeviceDisableMergeStateForUnshareLeft p left right b) = mb_num_pages b"
  "mb_memory_state (UpdateDeviceDisableMergeStateForUnshareLeft p left right b) = mb_memory_state b"
  "mb_ipc_lock_count (UpdateDeviceDisableMergeStateForUnshareLeft p left right b) = mb_ipc_lock_count b"
  "mb_ipc_disable_merge_count (UpdateDeviceDisableMergeStateForUnshareLeft p left right b) = mb_ipc_disable_merge_count b"
  "mb_permission (UpdateDeviceDisableMergeStateForUnshareLeft p left right b) = mb_permission b"
  "mb_original_permission (UpdateDeviceDisableMergeStateForUnshareLeft p left right b) = mb_original_permission b"
  "mb_device_use_count (UpdateDeviceDisableMergeStateForUnshareLeft p left right b) = mb_device_use_count b"
  "mb_device_disable_merge_right_count (UpdateDeviceDisableMergeStateForUnshareLeft p left right b) = mb_device_disable_merge_right_count b"
  "mb_attribute (UpdateDeviceDisableMergeStateForUnshareLeft p left right b) = mb_attribute b"
  by (simp_all add: UpdateDeviceDisableMergeStateForUnshareLeft_def Let_def)

lemma unshare_right_fields:
  "mb_address (UpdateDeviceDisableMergeStateForUnshareRight p left right b) = mb_address b"
  "mb_num_pages (UpdateDeviceDisableMergeStateForUnshareRight p left right b) = mb_num_pages b"
  "mb_memory_state (UpdateDeviceDisableMergeStateForUnshareRight p left right b) = mb_memory_state b"
  "mb_ipc_lock_count (UpdateDeviceDisableMergeStateForUnshareRight p left right b) = mb_ipc_lock_count b"
  "mb_ipc_disable_merge_count (UpdateDeviceDisableMergeStateForUnshareRight p left right b) = mb_ipc_disable_merge_count b"
  "mb_permission (UpdateDeviceDisableMergeStateForUnshareRight p left right b) = mb_permission b"
  "mb_original_permission (UpdateDeviceDisableMergeStateForUnshareRight p left right b) = mb_original_permission b"
  "mb_device_use_count (UpdateDeviceDisableMergeStateForUnshareRight p left right b) = mb_device_use_count b"
  "mb_device_disable_merge_left_count (UpdateDeviceDisableMergeStateForUnshareRight p left right b) = mb_device_disable_merge_left_count b"
  "mb_attribute (UpdateDeviceDisableMergeStateForUnshareRight p left right b) = mb_attribute b"
  by (simp_all add: UpdateDeviceDisableMergeStateForUnshareRight_def Let_def)

lemma unshare_other_fields:
  "mb_address (KMemoryBlock_UnshareToDevice p left right b) = mb_address b"
  "mb_num_pages (KMemoryBlock_UnshareToDevice p left right b) = mb_num_pages b"
  "mb_memory_state (KMemoryBlock_UnshareToDevice p left right b) = mb_memory_state b"
  "mb_ipc_lock_count (KMemoryBlock_UnshareToDevice p left right b) = mb_ipc_lock_count b"
  "mb_ipc_disable_merge_count (KMemoryBlock_UnshareToDevice p left right b) = mb_ipc_disable_merge_count b"
  "mb_permission (KMemoryBlock_UnshareToDevice p left right b) = mb_permission b"
  "mb_original_permission (KMemoryBlock_UnshareToDevice p left right b) = mb_original_permission b"
  by (simp_all add: KMemoryBlock_UnshareToDevice_def UpdateDeviceDisableMergeStateForUnshare_def
      drop_device_use_fields unshare_left_fields unshare_right_fields)

lemma share_disable_merge:
  "mb_disable_merge_attribute (KMemoryBlock_ShareToDevice p left right b) =
     mb_disable_merge_attribute b OR (if left then DisableMerge_DeviceLeft else 0)
       OR (if right then DisableMerge_DeviceRight else 0)"
  by (simp add: share_defs or.assoc)

lemma unshare_disable_merge:
  "mb_disable_merge_attribute (KMemoryBlock_UnshareToDevice p left right b) =
     mb_disable_merge_attribute b AND
     NOT (if (left \<longrightarrow> mb_device_disable_merge_left_count b \<noteq> 0) \<and>
             mb_device_disable_merge_left_count (KMemoryBlock_UnshareToDevice p left right b) = 0
          then DisableMerge_DeviceLeft else 0) AND
     NOT (if right \<and> mb_device_disable_merge_right_count b = 1
          then DisableMerge_DeviceRight else 0)"
  by (simp add: unshare_defs Let_def and.assoc)

lemma counts_ok_ShareToDevice:
  assumes "counts_ok b" "device_level b < 65535"
  shows "counts_ok (KMemoryBlock_ShareToDevice p left right b)"
proof -
  have c: "mb_device_use_count b + 1 \<noteq> 0" "mb_device_disable_merge_left_count b + 1 \<noteq> 0"
    "mb_device_disable_merge_right_count b + 1 \<noteq> 0"
    using assms(2) by (simp_all add: device_level_def count_room)
  show ?thesis
    using assms(1) c by (cases left; cases right) (simp_all add: counts_ok_def share_defs flag_bits)
qed

lemma device_ok_ShareToDevice:
  assumes "device_ok b" "device_level b < 65535"
  shows "device_ok (KMemoryBlock_ShareToDevice p left right b)"
proof -
  have "unat (mb_device_use_count b + 1) = Suc (unat (mb_device_use_count b))"
    "unat (mb_device_disable_merge_left_count b + 1) =
       Suc (unat (mb_device_disable_merge_left_count b))"
    using assms(2) by (simp_all add: device_level_def count_room)
  then show ?thesis
    using assms counts_ok_ShareToDevice [of b p left right]
    by (simp add: device_ok_def share_device_fields word_le_nat_alt)
qed

lemma unshare_share_device:
  assumes "device_ok b" "device_level b < 65535"
  shows "KMemoryBlock_UnshareToDevice p' left right (KMemoryBlock_ShareToDevice p left right b) = b"
proof -
  have c: "mb_device_use_count b + 1 \<noteq> 0" "mb_device_disable_merge_left_count b + 1 \<noteq> 0"
    "mb_device_disable_merge_right_count b + 1 \<noteq> 0"
    using assms(2) by (simp_all add: device_level_def count_room)
  have le: "min (mb_device_disable_merge_left_count b) (mb_device_use_count b)
              = mb_device_disable_merge_left_count b"
    using assms(1) by (simp add: device_ok_def)
  have ok: "counts_ok b" using assms(1) by (simp add: device_ok_def)
  let ?b' = "KMemoryBlock_UnshareToDevice p' left right (KMemoryBlock_ShareToDevice p left right b)"
  have d: "mb_disable_merge_attribute ?b' = mb_disable_merge_attribute b"
  proof (rule bit_word_eqI)
    fix i :: nat
    assume i: "i < LENGTH(8)"
    have "bit (mb_disable_merge_attribute b) 1 \<longleftrightarrow> mb_device_disable_merge_left_count b \<noteq> 0"
      "bit (mb_disable_merge_attribute b) 4 \<longleftrightarrow> mb_device_disable_merge_right_count b \<noteq> 0"
      using ok by (simp_all add: counts_ok_def flag_bits)
    then show "bit (mb_disable_merge_attribute ?b') i = bit (mb_disable_merge_attribute b) i"
      using c le i
      unfolding unshare_disable_merge share_disable_merge unshare_device_fields share_device_fields
      by (cases "i = 1"; cases "i = 4"; cases left; cases right) (simp_all add: flag_bits)
  qed
  have a: "mb_attribute ?b' = mb_attribute b"
    using ok c
    by (cases "mb_device_use_count b = 0")
      (simp_all add: counts_ok_def share_defs KMemoryBlock_UnshareToDevice_def
        UpdateDeviceDisableMergeStateForUnshare_def unshare_left_fields unshare_right_fields
        drop_device_use_def Let_def flag_absorbs flag_set_clear)
  show ?thesis
    using c le d a
    by (intro KMemoryBlock.equality)
      (simp_all add: share_device_fields share_other_fields unshare_device_fields
        unshare_other_fields)
qed

interpretation ipc: nested_lock lock_ipc unlock_ipc counts_ok ipc_level 65535
proof (unfold_locales, goal_cases)
  case (1 b p)
  then show ?case
    by (cases p) (simp add: ipc_level_def count_room counts_ok_LockForIpc)
next
  case (2 b p)
  then show ?case
    by (cases p) (auto simp: ipc_level_def count_room KMemoryBlock_LockForIpc_def Let_def)
next
  case (3 b p)
  then show ?case by (cases p) (simp add: unlock_lock_ipc)
qed

interpretation device: nested_lock share_device unshare_device device_ok device_level 65535
proof (unfold_locales, goal_cases)
  case (1 b p)
  then show ?case by (cases p) (simp add: device_ok_ShareToDevice)
next
  case (2 b p)
  then show ?case
    by (cases p) (auto simp: device_level_def count_room share_device_fields)
next
  case (3 b p)
  then show ?case by (cases p) (simp add: unshare_share_device)
qed

section \<open>Properties of one block\<close>

lemma disable_merge_recombine:
  "disable_merge_ok b \<Longrightarrow>
   mb_disable_merge_attribute b AND DisableMerge_AllLeft OR
   mb_disable_merge_attribute b AND DisableMerge_AllRight = mb_disable_merge_attribute b"
  by (simp add: disable_merge_ok_def flip: bit.conj_disj_distrib)

lemma disable_merge_sides:
  "d AND DisableMerge_AllLeft AND DisableMerge_AllRight = 0"
  "d AND DisableMerge_AllRight AND DisableMerge_AllLeft = 0"
  by (simp_all add: DisableMerge_defs)

lemma Split_mergeable:
  assumes "KMemoryBlock_Split b addr = (l, r)"
  shows "KMemoryBlock_CanMergeWith l r"
  using assms
  by (auto simp: KMemoryBlock_Split_def Let_def KMemoryBlock_CanMergeWith_def
      KMemoryBlock_HasSameProperties_def and.assoc disable_merge_sides)

text \<open>
  Splitting a block at a page boundary strictly inside it and adding the upper part back to
  the lower one gives the block again, in every field. The two parts touch, satisfy the assertions
  of \<^verbatim>\<open>Split\<close> and are mergeable, so the coalescing pass of the block manager can undo
  every split.
\<close>
theorem split_add_roundtrip:
  assumes "splits_at b addr k" "mb_address b mod PageSize = 0" "disable_merge_ok b"
    and "KMemoryBlock_Split b addr = (l, r)"
  shows "KMemoryBlock_Add l r = b \<and> KMemoryBlock_CanMergeWith l r \<and>
    KMemoryBlock_GetEndAddress l = mb_address r \<and> KMemoryBlock_Split_asserts b addr"
proof -
  note pieces = Split_pieces [OF assms(1,4)]
  have "KMemoryBlock_Add l r = b"
    using assms(1,3,4)
    by (auto simp: KMemoryBlock_Split_def Let_def KMemoryBlock_Add_def splits_at_pages
        disable_merge_recombine)
  moreover have "KMemoryBlock_GetEndAddress l = mb_address r"
    using assms(1) pieces by (simp add: block_fits_geometry splits_at_def)
  ultimately show ?thesis
    using Split_mergeable [OF assms(4)] Split_asserts_hold [OF assms(1,2)] by simp
qed

text \<open>A block of four writable pages that has been shared with a device at both ends.\<close>

definition demo_block :: KMemoryBlock where
  "demo_block =
     KMemoryBlock_ShareToDevice 0 True True
       (KMemoryBlock_construct 0x8000 4 KMemoryState_Normal KMemoryPermission_UserReadWrite
          KMemoryAttribute_None)"

lemma demo_block_fields:
  "mb_address demo_block = 0x8000" "mb_num_pages demo_block = 4"
  "mb_device_use_count demo_block = 1" "mb_ipc_lock_count demo_block = 0"
  "mb_ipc_disable_merge_count demo_block = 0" "mb_device_disable_merge_left_count demo_block = 1"
  "mb_device_disable_merge_right_count demo_block = 1"
  "mb_disable_merge_attribute demo_block = 0x12" "mb_attribute demo_block = 4"
  "mb_original_permission demo_block = 0"
  by (simp_all add: demo_block_def share_defs KMemoryBlock_construct_def DisableMerge_defs
      KMemoryAttribute_defs)

lemma demo_block_ok: "counts_ok demo_block" "device_ok demo_block"
proof -
  show "counts_ok demo_block"
    by (simp add: counts_ok_def demo_block_fields KMemoryAttribute_defs DisableMerge_defs)
  then show "device_ok demo_block"
    by (simp add: device_ok_def demo_block_fields)
qed

theorem split_add_roundtrip_witness:
  "\<exists>l r. KMemoryBlock_Split demo_block 0xA000 = (l, r) \<and> KMemoryBlock_Add l r = demo_block \<and>
     KMemoryBlock_CanMergeWith l r"
proof -
  obtain l r where lr: "KMemoryBlock_Split demo_block 0xA000 = (l, r)" by force
  have "splits_at demo_block 0xA000 2"
    "mb_address demo_block mod PageSize = 0" "disable_merge_ok demo_block"
    by (simp_all add: splits_at_def block_fits_def demo_block_fields PageSize_def
        disable_merge_ok_def DisableMerge_defs)
  then have "KMemoryBlock_Add l r = demo_block \<and> KMemoryBlock_CanMergeWith l r"
    using split_add_roundtrip [OF _ _ _ lr] by simp
  with lr show ?thesis by blast
qed

text \<open>
  IPC locks nest: releasing any sequence of locks in the reverse order, each with the
  \<^verbatim>\<open>left\<close> flag of its acquisition, restores the block exactly, its permission, saved
  permission, attributes and merge flags included, as long as the 16-bit counters have room.
\<close>
theorem ipc_locks_nest:
  assumes "counts_ok b" "ipc_level b + length ps \<le> 65535"
  shows "fold unlock_ipc (rev ps) (fold lock_ipc ps b) = b"
  using assms by (rule ipc.nested_release)

theorem ipc_locks_nest_witness:
  "fold unlock_ipc [(0, True, False), (9, False, False), (9, True, True)]
     (fold lock_ipc [(9, True, True), (9, False, False), (0, True, False)] demo_block) = demo_block"
  using ipc_locks_nest [of demo_block "[(9, True, True), (9, False, False), (0, True, False)]"]
    demo_block_ok by (simp add: ipc_level_def demo_block_fields)

text \<open>
  Shares with devices nest in the same way, when the count of left boundaries of the
  block does not exceed the number of its users.
\<close>
theorem device_shares_nest:
  assumes "device_ok b" "device_level b + length ps \<le> 65535"
  shows "fold unshare_device (rev ps) (fold share_device ps b) = b"
  using assms by (rule device.nested_release)

theorem device_shares_nest_witness:
  "fold unshare_device [(3, False, True), (3, True, False)]
     (fold share_device [(3, True, False), (3, False, True)] demo_block) = demo_block"
  using device_shares_nest [of demo_block "[(3, True, False), (3, False, True)]"]
    demo_block_ok by (simp add: device_level_def demo_block_fields)

end
