(* ===== verification/MemoryBlockManager.thy ===== *)
theory MemoryBlockManager
  imports MemoryBlock
begin

text \<open>
  The memory block manager (\<^verbatim>\<open>core/hle/kernel/k_memory_block_manager.{h,cpp}\<close>): the blocks
  that tile a process address space, and the operations that reprotect, lock and search it.

  The intrusive red-black tree of the code is its in-order sequence: \<open>mm_tree\<close> lists the
  blocks in ascending order, an iterator is an index, and \<^verbatim>\<open>end()\<close> is the length of the list. The
  descents of \<^verbatim>\<open>RB_FIND\<close> and \<^verbatim>\<open>RB_INSERT\<close> are scans that use the code's own comparison.
  Dereferencing \<^verbatim>\<open>end()\<close>, stepping before the first block and using a block that the update
  allocator does not have are undefined in C++; there the model returns \<^const>\<open>None\<close>, and the
  theorems prove that they do not happen.
\<close>

section \<open>The update allocator\<close>

definition MaxBlocks :: nat where
  "MaxBlocks = 2"

text \<open>
  The slots say which pointers of \<^verbatim>\<open>m_blocks\<close> are not null. The slab manager is the number of
  blocks it can still hand out.
\<close>

record UpdateAllocator =
  ua_blocks :: "bool list"
  ua_index :: nat
  ua_slab :: nat

function allocate_blocks :: "nat \<Rightarrow> nat \<Rightarrow> UpdateAllocator \<Rightarrow> Result \<times> UpdateAllocator" where
  "allocate_blocks i num_blocks a =
     (if i < num_blocks \<and> i < MaxBlocks then
        (if ua_slab a = 0 then
           (ResultOutOfResource, a \<lparr> ua_blocks := (ua_blocks a) [ua_index a + i := False] \<rparr>)
         else
           allocate_blocks (Suc i) num_blocks
             (a \<lparr> ua_blocks := (ua_blocks a) [ua_index a + i := True],
                  ua_slab := ua_slab a - 1 \<rparr>))
      else (ResultSuccess, a))"
  by pat_completeness auto
termination
  by (relation "measure (\<lambda>(i, num_blocks, a). num_blocks - i)") auto

declare allocate_blocks.simps [simp del]

definition UpdateAllocator_create :: "nat \<Rightarrow> nat \<Rightarrow> Result \<times> UpdateAllocator" where
  "UpdateAllocator_create slab num_blocks =
     allocate_blocks 0 num_blocks
       \<lparr> ua_blocks = replicate MaxBlocks False, ua_index = u64_sub MaxBlocks num_blocks,
         ua_slab = slab \<rparr>"

text \<open>The destructor returns the remaining blocks to the slab; the result is its new count.\<close>

definition UpdateAllocator_destroy :: "UpdateAllocator \<Rightarrow> nat" where
  "UpdateAllocator_destroy a = fold (\<lambda>b s. if b then Suc s else s) (ua_blocks a) (ua_slab a)"

definition UpdateAllocator_Allocate :: "UpdateAllocator \<Rightarrow> UpdateAllocator option" where
  "UpdateAllocator_Allocate a =
     (if ua_index a < MaxBlocks \<and> ua_blocks a ! ua_index a
      then Some (a \<lparr> ua_blocks := (ua_blocks a) [ua_index a := False],
                     ua_index := ua_index a + 1 \<rparr>)
      else None)"

definition UpdateAllocator_Free :: "UpdateAllocator \<Rightarrow> UpdateAllocator" where
  "UpdateAllocator_Free a =
     (if ua_index a = 0 then a \<lparr> ua_slab := ua_slab a + 1 \<rparr>
      else a \<lparr> ua_index := ua_index a - 1,
               ua_blocks := (ua_blocks a) [ua_index a - 1 := True] \<rparr>)"

section \<open>The tree\<close>

record KMemoryBlockManager =
  mm_tree :: "KMemoryBlock list"
  mm_start_address :: nat
  mm_end_address :: nat

fun tree_find :: "KMemoryBlock \<Rightarrow> KMemoryBlock list \<Rightarrow> nat" where
  "tree_find key [] = 0"
| "tree_find key (b # bs) =
     (if KMemoryBlock_Compare key b = 0 then 0 else Suc (tree_find key bs))"

text \<open>
  An insertion finds the place of the new node; when a node compares equal to it the tree is
  left as it is and the returned iterator points to a node outside the tree.
\<close>

fun tree_insert :: "KMemoryBlock \<Rightarrow> KMemoryBlock list \<Rightarrow> (KMemoryBlock list \<times> nat) option" where
  "tree_insert x [] = Some ([x], 0)"
| "tree_insert x (b # bs) =
     (if KMemoryBlock_Compare x b < 0 then Some (x # b # bs, 0)
      else if KMemoryBlock_Compare x b = 0 then None
      else map_option (\<lambda>(ys, i). (b # ys, Suc i)) (tree_insert x bs))"

definition tree_erase :: "nat \<Rightarrow> KMemoryBlock list \<Rightarrow> KMemoryBlock list" where
  "tree_erase i bs = take i bs @ drop (Suc i) bs"

definition FindIterator :: "KMemoryBlock list \<Rightarrow> nat \<Rightarrow> nat" where
  "FindIterator bs address =
     tree_find
       (KMemoryBlock_construct address 1 KMemoryState_Free KMemoryPermission_None
          KMemoryAttribute_None)
       bs"

definition FindBlock :: "KMemoryBlockManager \<Rightarrow> nat \<Rightarrow> KMemoryBlock option" where
  "FindBlock m address =
     (let it = FindIterator (mm_tree m) address
      in if it < length (mm_tree m) then Some (mm_tree m ! it) else None)"

section \<open>Initialization and finalization\<close>

text \<open>\<open>raw\<close> is the block the slab hands out, with whatever its fields hold.\<close>

definition KMemoryBlockManager_Initialize ::
    "KMemoryBlockManager \<Rightarrow> nat \<Rightarrow> nat \<Rightarrow> KMemoryBlock option \<Rightarrow>
       (Result \<times> KMemoryBlockManager) option" where
  "KMemoryBlockManager_Initialize m st nd start_block =
     (case start_block of
        None \<Rightarrow> Some (ResultOutOfResource, m)
      | Some raw \<Rightarrow>
          (let m1 = m \<lparr> mm_start_address := st, mm_end_address := nd \<rparr>;
               blk = KMemoryBlock_Initialize raw st (u64_sub nd st div PageSize)
                       KMemoryState_Free KMemoryPermission_None KMemoryAttribute_None
           in case tree_insert blk (mm_tree m1) of
                None \<Rightarrow> None
              | Some (bs, _) \<Rightarrow> Some (ResultSuccess, m1 \<lparr> mm_tree := bs \<rparr>)))"

text \<open>
  \<^verbatim>\<open>Finalize\<close> erases the blocks in order; the result lists the calls of the callback, and the
  number of blocks given back to the slab.
\<close>

fun finalize_blocks ::
    "KMemoryBlock list \<Rightarrow> nat \<Rightarrow> (nat \<times> nat) list \<times> nat" where
  "finalize_blocks [] slab = ([], slab)"
| "finalize_blocks (b # bs) slab =
     (let (calls, slab') = finalize_blocks bs (slab + 1)
      in ((mb_address b, KMemoryBlock_GetSize b) # calls, slab'))"

definition KMemoryBlockManager_Finalize ::
    "KMemoryBlockManager \<Rightarrow> nat \<Rightarrow> KMemoryBlockManager \<times> (nat \<times> nat) list \<times> nat" where
  "KMemoryBlockManager_Finalize m slab =
     (let (calls, slab') = finalize_blocks (mm_tree m) slab
      in (m \<lparr> mm_tree := [] \<rparr>, calls, slab'))"

section \<open>Searching for free pages\<close>

definition free_area_candidate :: "KMemoryInfo \<Rightarrow> nat \<Rightarrow> nat \<Rightarrow> nat \<Rightarrow> nat \<Rightarrow> nat" where
  "free_area_candidate info region_start alignment offset guard_pages =
     (let area0 = (if mi_address info \<le> region_start then region_start else mi_address info);
          area1 = u64_add area0 (u64_mul guard_pages PageSize);
          offset_area = u64_add (AlignDown area1 alignment) offset
      in if area1 \<le> offset_area then offset_area else u64_add offset_area alignment)"

primrec find_free_area ::
    "KMemoryBlock list \<Rightarrow> nat \<Rightarrow> nat \<Rightarrow> nat \<Rightarrow> nat \<Rightarrow> nat \<Rightarrow> nat \<Rightarrow> nat" where
  "find_free_area [] region_start region_last num_pages alignment offset guard_pages = 0"
| "find_free_area (b # bs) region_start region_last num_pages alignment offset guard_pages =
     (let info = KMemoryBlock_GetMemoryInfo b
      in if region_last < mi_address info then 0
         else if mi_state info \<noteq> KMemoryState_Free then
           find_free_area bs region_start region_last num_pages alignment offset guard_pages
         else
           (let area = free_area_candidate info region_start alignment offset guard_pages;
                area_end = u64_add (u64_add area (u64_mul num_pages PageSize))
                             (u64_mul guard_pages PageSize);
                area_last = u64_sub area_end 1
            in if mi_address info \<le> area \<and> area < area_last \<and> area_last \<le> region_last \<and>
                  area_last \<le> KMemoryInfo_GetLastAddress info
               then area
               else find_free_area bs region_start region_last num_pages alignment offset
                      guard_pages))"

definition FindFreeArea ::
    "KMemoryBlockManager \<Rightarrow> nat \<Rightarrow> nat \<Rightarrow> nat \<Rightarrow> nat \<Rightarrow> nat \<Rightarrow> nat \<Rightarrow> nat" where
  "FindFreeArea m region_start region_num_pages num_pages alignment offset guard_pages =
     (if 0 < num_pages then
        (let region_end = u64_add region_start (u64_mul region_num_pages PageSize);
             region_last = u64_sub region_end 1
         in find_free_area (drop (FindIterator (mm_tree m) region_start) (mm_tree m))
              region_start region_last num_pages alignment offset guard_pages)
      else 0)"

section \<open>Coalescing\<close>

text \<open>
  The loop of \<^verbatim>\<open>CoalesceForUpdate\<close>. The pair of the iterator's block and the next one is merged
  if possible; the loop stops at the end of the tree, or at a block that ends after the range.
\<close>

definition coalesce_step ::
    "KMemoryBlock list \<Rightarrow> UpdateAllocator \<Rightarrow> nat \<Rightarrow> KMemoryBlock list \<times> UpdateAllocator \<times> nat" where
  "coalesce_step bs alc prev =
     (let it = Suc prev
      in if KMemoryBlock_CanMergeWith (bs ! prev) (bs ! it) then
           ((tree_erase it bs) [prev := KMemoryBlock_Add (bs ! prev) (bs ! it)],
            UpdateAllocator_Free alc, prev)
         else (bs, alc, it))"

function coalesce_loop ::
    "KMemoryBlock list \<Rightarrow> UpdateAllocator \<Rightarrow> nat \<Rightarrow> nat \<Rightarrow>
       (KMemoryBlock list \<times> UpdateAllocator) option" where
  "coalesce_loop bs alc it update_end =
     (if length bs \<le> it then None
      else if length bs \<le> Suc it then Some (bs, alc)
      else
        (case coalesce_step bs alc it of
           (bs', alc', it') \<Rightarrow>
             if update_end < KMemoryInfo_GetEndAddress (KMemoryBlock_GetMemoryInfo (bs' ! it'))
             then Some (bs', alc')
             else coalesce_loop bs' alc' it' update_end))"
  by pat_completeness auto
termination
  by (relation "measure (\<lambda>(bs, alc, it, update_end). length bs - it)")
    (auto simp: coalesce_step_def tree_erase_def Let_def split: if_splits)

declare coalesce_loop.simps [simp del]

definition CoalesceForUpdate ::
    "KMemoryBlock list \<Rightarrow> nat \<Rightarrow> UpdateAllocator \<Rightarrow> nat \<Rightarrow> nat \<Rightarrow>
       (KMemoryBlock list \<times> UpdateAllocator) option" where
  "CoalesceForUpdate bs start_address alc address num_pages =
     (let it = FindIterator bs address;
          update_end = u64_add address (u64_mul num_pages PageSize)
      in if address \<noteq> start_address then
           (if it = 0 then None else coalesce_loop bs alc (it - 1) update_end)
         else coalesce_loop bs alc it update_end)"

section \<open>Updating a range\<close>

text \<open>
  The four update operations contain the same two pieces of code. \<open>carve\<close> splits the block of
  the iterator so that it starts at the current address and does not extend past the range;
  \<open>advance\<close> skips a block that is left alone.
\<close>

definition split_block ::
    "KMemoryBlock list \<Rightarrow> UpdateAllocator \<Rightarrow> nat \<Rightarrow> nat \<Rightarrow>
       (KMemoryBlock list \<times> UpdateAllocator \<times> nat) option" where
  "split_block bs alc it addr =
     (case UpdateAllocator_Allocate alc of
        None \<Rightarrow> None
      | Some alc' \<Rightarrow>
          (let (new_block, rest) = KMemoryBlock_Split (bs ! it) addr
           in case tree_insert new_block (bs[it := rest]) of
                None \<Rightarrow> None
              | Some (bs', it') \<Rightarrow> Some (bs', alc', it')))"

definition carve ::
    "KMemoryBlock list \<Rightarrow> UpdateAllocator \<Rightarrow> nat \<Rightarrow> nat \<Rightarrow> nat \<Rightarrow>
       (KMemoryBlock list \<times> UpdateAllocator \<times> nat \<times> nat) option" where
  "carve bs alc it cur_address remaining_size =
     (case (if mi_address (KMemoryBlock_GetMemoryInfo (bs ! it)) \<noteq> cur_address
            then (case split_block bs alc it cur_address of
                    None \<Rightarrow> None
                  | Some (bs', alc', it') \<Rightarrow>
                      if Suc it' < length bs'
                      then Some (bs', alc', Suc it', mb_address (bs' ! Suc it'))
                      else None)
            else Some (bs, alc, it, cur_address)) of
        None \<Rightarrow> None
      | Some (bs1, alc1, it1, cur1) \<Rightarrow>
          if remaining_size < mi_size (KMemoryBlock_GetMemoryInfo (bs1 ! it1))
          then (case split_block bs1 alc1 it1 (u64_add cur1 remaining_size) of
                  None \<Rightarrow> None
                | Some (bs2, alc2, it2) \<Rightarrow> Some (bs2, alc2, it2, cur1))
          else Some (bs1, alc1, it1, cur1))"

definition advance :: "KMemoryInfo \<Rightarrow> nat \<Rightarrow> nat \<Rightarrow> nat \<times> nat" where
  "advance cur_info cur_address remaining_size =
     (if u64_add cur_address remaining_size < KMemoryInfo_GetEndAddress cur_info
      then (0, u64_add cur_address remaining_size)
      else (u64_sub (u64_add cur_address remaining_size)
              (KMemoryInfo_GetEndAddress cur_info) div PageSize,
            KMemoryInfo_GetEndAddress cur_info))"

text \<open>
  The loop shared by \<^verbatim>\<open>Update\<close>, \<^verbatim>\<open>UpdateIfMatch\<close>, \<^verbatim>\<open>UpdateLock\<close> and \<^verbatim>\<open>UpdateAttribute\<close>:
  \<open>needs\<close> is the test that selects the blocks to change and \<open>upd\<close> the change.
\<close>

partial_function (option) update_loop ::
    "(KMemoryBlock \<Rightarrow> bool) \<Rightarrow> (KMemoryBlock \<Rightarrow> KMemoryBlock) \<Rightarrow>
     KMemoryBlock list \<Rightarrow> UpdateAllocator \<Rightarrow> nat \<Rightarrow> nat \<Rightarrow> nat \<Rightarrow>
       (KMemoryBlock list \<times> UpdateAllocator) option" where
  "update_loop needs upd bs alc it cur_address remaining_pages =
     (if remaining_pages = 0 then Some (bs, alc)
      else if length bs \<le> it then None
      else if needs (bs ! it) then
        Option.bind (carve bs alc it cur_address (u64_mul remaining_pages PageSize))
          (\<lambda>(bs', alc', it', cur').
             update_loop needs upd (bs' [it' := upd (bs' ! it')]) alc' (Suc it')
               (u64_add cur' (mi_size (KMemoryBlock_GetMemoryInfo (bs' ! it'))))
               (u64_sub remaining_pages
                  (KMemoryInfo_GetNumPages (KMemoryBlock_GetMemoryInfo (bs' ! it')))))
      else
        update_loop needs upd bs alc (Suc it)
          (snd (advance (KMemoryBlock_GetMemoryInfo (bs ! it)) cur_address
                  (u64_mul remaining_pages PageSize)))
          (fst (advance (KMemoryBlock_GetMemoryInfo (bs ! it)) cur_address
                  (u64_mul remaining_pages PageSize))))"

definition update_range ::
    "(KMemoryBlock \<Rightarrow> bool) \<Rightarrow> (KMemoryBlock \<Rightarrow> KMemoryBlock) \<Rightarrow>
     KMemoryBlockManager \<Rightarrow> UpdateAllocator \<Rightarrow> nat \<Rightarrow> nat \<Rightarrow>
       (KMemoryBlockManager \<times> UpdateAllocator) option" where
  "update_range needs upd m alc address num_pages =
     (case update_loop needs upd (mm_tree m) alc (FindIterator (mm_tree m) address)
             address num_pages of
        None \<Rightarrow> None
      | Some (bs, alc') \<Rightarrow>
          (case CoalesceForUpdate bs (mm_start_address m) alc' address num_pages of
             None \<Rightarrow> None
           | Some (bs', alc'') \<Rightarrow> Some (m \<lparr> mm_tree := bs' \<rparr>, alc'')))"

definition KMemoryBlockManager_Update ::
    "KMemoryBlockManager \<Rightarrow> UpdateAllocator \<Rightarrow> nat \<Rightarrow> nat \<Rightarrow> u32 \<Rightarrow> u8 \<Rightarrow> u8 \<Rightarrow> u8 \<Rightarrow> u8 \<Rightarrow>
       (KMemoryBlockManager \<times> UpdateAllocator) option" where
  "KMemoryBlockManager_Update m alc address num_pages state perm attr set_disable clear_disable =
     update_range
       (\<lambda>b. \<not> KMemoryBlock_HasProperties b state perm attr)
       (\<lambda>b. KMemoryBlock_Update b state perm attr (mb_address b = address)
              set_disable clear_disable)
       m alc address num_pages"

definition KMemoryBlockManager_UpdateIfMatch ::
    "KMemoryBlockManager \<Rightarrow> UpdateAllocator \<Rightarrow> nat \<Rightarrow> nat \<Rightarrow> u32 \<Rightarrow> u8 \<Rightarrow> u8 \<Rightarrow>
     u32 \<Rightarrow> u8 \<Rightarrow> u8 \<Rightarrow> u8 \<Rightarrow> u8 \<Rightarrow> (KMemoryBlockManager \<times> UpdateAllocator) option" where
  "KMemoryBlockManager_UpdateIfMatch m alc address num_pages test_state test_perm test_attr
       state perm attr set_disable clear_disable =
     update_range
       (\<lambda>b. KMemoryBlock_HasProperties b test_state test_perm test_attr \<and>
            \<not> KMemoryBlock_HasProperties b state perm attr)
       (\<lambda>b. KMemoryBlock_Update b state perm attr False set_disable clear_disable)
       m alc address num_pages"

definition KMemoryBlockManager_UpdateLock ::
    "KMemoryBlockManager \<Rightarrow> UpdateAllocator \<Rightarrow> nat \<Rightarrow> nat \<Rightarrow>
     (u8 \<Rightarrow> bool \<Rightarrow> bool \<Rightarrow> KMemoryBlock \<Rightarrow> KMemoryBlock) \<Rightarrow> u8 \<Rightarrow>
       (KMemoryBlockManager \<times> UpdateAllocator) option" where
  "KMemoryBlockManager_UpdateLock m alc address num_pages lock_func perm =
     (let end_address = u64_add address (u64_mul num_pages PageSize)
      in update_range
           (\<lambda>b. True)
           (\<lambda>b. lock_func perm
                  (mi_address (KMemoryBlock_GetMemoryInfo b) = address)
                  (KMemoryInfo_GetEndAddress (KMemoryBlock_GetMemoryInfo b) = end_address) b)
           m alc address num_pages)"

definition KMemoryBlockManager_UpdateAttribute ::
    "KMemoryBlockManager \<Rightarrow> UpdateAllocator \<Rightarrow> nat \<Rightarrow> nat \<Rightarrow> u8 \<Rightarrow> u8 \<Rightarrow>
       (KMemoryBlockManager \<times> UpdateAllocator) option" where
  "KMemoryBlockManager_UpdateAttribute m alc address num_pages attr_mask attr =
     update_range
       (\<lambda>b. mb_attribute b AND attr_mask \<noteq> attr)
       (\<lambda>b. KMemoryBlock_UpdateAttribute b attr_mask attr)
       m alc address num_pages"

section \<open>Checking the state\<close>

definition check_counts :: "KMemoryInfo \<Rightarrow> bool" where
  "check_counts info \<longleftrightarrow>
     \<not> (mi_attribute info AND KMemoryAttribute_IpcLocked \<noteq> KMemoryAttribute_None \<and>
        mi_ipc_lock_count info = 0) \<and>
     \<not> (mi_attribute info AND KMemoryAttribute_DeviceShared \<noteq> KMemoryAttribute_None \<and>
        mi_device_use_count info = 0)"

fun check_loop :: "KMemoryBlock \<Rightarrow> KMemoryBlock list \<Rightarrow> bool" where
  "check_loop prev [] = check_counts (KMemoryBlock_GetMemoryInfo prev)"
| "check_loop prev (b # bs) =
     (if KMemoryBlock_CanMergeWith prev b then False
      else if KMemoryInfo_GetEndAddress (KMemoryBlock_GetMemoryInfo prev)
                \<noteq> mi_address (KMemoryBlock_GetMemoryInfo b) then False
      else if \<not> check_counts (KMemoryBlock_GetMemoryInfo b) then False
      else check_loop b bs)"

text \<open>On an empty tree the loop would advance past \<^verbatim>\<open>end()\<close>.\<close>

fun CheckState :: "KMemoryBlockManager \<Rightarrow> bool option" where
  "CheckState m =
     (case mm_tree m of [] \<Rightarrow> None | b # bs \<Rightarrow> Some (check_loop b bs))"


section \<open>The address space as a sequence of pages\<close>

text \<open>
  What a page of the address space is: the fields that \<^verbatim>\<open>HasSameProperties\<close> compares. The
  abstract state of a manager is the list of these, one for each page from the start address on;
  how the pages are grouped into blocks is not part of it.
\<close>

type_synonym page_props = "u32 \<times> u8 \<times> u8 \<times> u8 \<times> u16 \<times> u16"

definition page_view :: "KMemoryBlock \<Rightarrow> page_props" where
  "page_view b = (mb_memory_state b, mb_permission b, mb_original_permission b, mb_attribute b,
     mb_ipc_lock_count b, mb_device_use_count b)"

definition pages :: "KMemoryBlock list \<Rightarrow> page_props list" where
  "pages bs = concat (map (\<lambda>b. replicate (mb_num_pages b) (page_view b)) bs)"

lemma pages_simps [simp]:
  "pages [] = []"
  "pages (b # bs) = replicate (mb_num_pages b) (page_view b) @ pages bs"
  "pages (bs @ cs) = pages bs @ pages cs"
  by (simp_all add: pages_def)

lemma HasSameProperties_iff:
  "KMemoryBlock_HasSameProperties b c \<longleftrightarrow> page_view b = page_view c"
  by (auto simp: KMemoryBlock_HasSameProperties_def page_view_def)

text \<open>The blocks from one address to another, each starting where the previous one ends.\<close>

fun chain :: "nat \<Rightarrow> KMemoryBlock list \<Rightarrow> nat \<Rightarrow> bool" where
  "chain a [] e \<longleftrightarrow> a = e"
| "chain a (b # bs) e \<longleftrightarrow>
     mb_address b = a \<and> 0 < mb_num_pages b \<and> chain (a + mb_num_pages b * PageSize) bs e"

lemma chain_end: "chain a bs e \<Longrightarrow> e = a + length (pages bs) * PageSize"
proof (induction bs arbitrary: a)
  case (Cons b bs)
  then have "e = a + mb_num_pages b * PageSize + length (pages bs) * PageSize" by simp
  then show ?case by (simp add: add_mult_distrib)
qed simp

lemma chain_append:
  "chain a (xs @ ys) e \<longleftrightarrow> (\<exists>m. chain a xs m \<and> chain m ys e)"
  by (induction xs arbitrary: a) auto

lemma chain_append_iff:
  "chain a (xs @ ys) e \<longleftrightarrow>
     chain a xs (a + length (pages xs) * PageSize) \<and>
     chain (a + length (pages xs) * PageSize) ys e"
  using chain_end by (auto simp: chain_append)

lemma chain_Cons_le: "chain a (b # bs) e \<Longrightarrow> a + mb_num_pages b * PageSize \<le> e"
  using chain_end by fastforce

lemma chain_block_fits:
  assumes "chain a bs e" "e < 2 ^ 64" "b \<in> set bs"
  shows "block_fits b"
  using assms
proof (induction bs arbitrary: a)
  case Nil
  then show ?case by simp
next
  case (Cons c cs)
  show ?case
  proof (cases "b = c")
    case True
    have "mb_address c + mb_num_pages c * PageSize \<le> e"
      using chain_Cons_le Cons.prems(1) by auto
    with True show ?thesis
      using Cons.prems(1,2) le_less_trans unfolding block_fits_def by auto
  next
    case False
    with Cons show ?thesis by auto
  qed
qed

lemma chain_before:
  assumes "chain a bs e" "b \<in> set bs"
  shows "mb_address b + mb_num_pages b * PageSize \<le> e"
  using assms
proof (induction bs arbitrary: a)
  case Nil
  then show ?case by simp
next
  case (Cons c cs)
  then show ?case using chain_Cons_le [OF Cons.prems(1)] by auto
qed

lemma chain_aligned:
  assumes "chain a bs e" "PageSize dvd a" "b \<in> set bs"
  shows "PageSize dvd mb_address b"
  using assms by (induction bs arbitrary: a) auto

section \<open>Finding and inserting\<close>

lemma tree_find_hit:
  assumes "\<forall>y \<in> set pre. KMemoryBlock_Compare x y \<noteq> 0" "KMemoryBlock_Compare x b = 0"
  shows "tree_find x (pre @ b # post) = length pre"
  using assms by (induction pre) auto

lemma tree_insert_before:
  assumes "\<forall>y \<in> set pre. KMemoryBlock_Compare x y = 1" "KMemoryBlock_Compare x b = -1"
  shows "tree_insert x (pre @ b # post) = Some (pre @ x # b # post, length pre)"
  using assms by (induction pre) auto

lemma Compare_fits:
  assumes "block_fits y"
  shows "KMemoryBlock_Compare x y =
    (if mb_address x < mb_address y then -1
     else if mb_address x < mb_address y + mb_num_pages y * PageSize then 0 else 1)"
proof -
  have "0 < mb_num_pages y * PageSize"
    using assms by (simp add: block_fits_def)
  then have "mb_address x \<le> mb_address y + mb_num_pages y * PageSize - 1 \<longleftrightarrow>
    mb_address x < mb_address y + mb_num_pages y * PageSize" by linarith
  then show ?thesis
    unfolding KMemoryBlock_Compare_def block_fits_geometry(3) [OF assms] by simp
qed

lemma construct_address [simp]: "mb_address (KMemoryBlock_construct addr np ms p a) = addr"
  by (simp add: KMemoryBlock_construct_def)

lemma FindIterator_at:
  assumes "chain s (pre @ b # post) e" "e < 2 ^ 64"
    and "mb_address b \<le> address" "address < mb_address b + mb_num_pages b * PageSize"
  shows "FindIterator (pre @ b # post) address = length pre"
proof -
  let ?key = "KMemoryBlock_construct address 1 KMemoryState_Free 0 0"
  have "chain s pre (mb_address b)"
    using assms(1) by (auto simp: chain_append)
  then have "mb_address y + mb_num_pages y * PageSize \<le> address" if "y \<in> set pre" for y
    using chain_before [OF _ that] assms(3) by force
  moreover have fits: "block_fits y" if "y \<in> set (pre @ [b])" for y
    using chain_block_fits [OF assms(1,2)] that by auto
  ultimately have "\<forall>y \<in> set pre. KMemoryBlock_Compare ?key y \<noteq> 0"
    by (fastforce simp: Compare_fits)
  moreover have "KMemoryBlock_Compare ?key b = 0"
    using assms(3,4) fits by (simp add: Compare_fits)
  ultimately show ?thesis
    unfolding FindIterator_def by (rule tree_find_hit)
qed

lemma chain_locate:
  assumes "chain s bs e" "s \<le> address" "address < e"
  shows "\<exists>pre b post. bs = pre @ b # post \<and> mb_address b \<le> address \<and>
    address < mb_address b + mb_num_pages b * PageSize"
  using assms
proof (induction bs arbitrary: s)
  case Nil
  then show ?case by simp
next
  case (Cons c cs)
  show ?case
  proof (cases "address < mb_address c + mb_num_pages c * PageSize")
    case True
    with Cons.prems show ?thesis by (intro exI [of _ "[]"]) auto
  next
    case False
    then have "\<exists>pre b post. cs = pre @ b # post \<and> mb_address b \<le> address \<and>
      address < mb_address b + mb_num_pages b * PageSize"
      using Cons.prems by (intro Cons.IH) auto
    then show ?thesis by (metis append_Cons)
  qed
qed

section \<open>The update allocator's slots\<close>

definition alloc_ok :: "UpdateAllocator \<Rightarrow> bool" where
  "alloc_ok a \<longleftrightarrow> ua_index a \<le> MaxBlocks \<and>
     ua_blocks a = map (\<lambda>i. ua_index a \<le> i) [0..<MaxBlocks]"

lemma alloc_ok_iff: "alloc_ok a \<longleftrightarrow>
    (ua_index a = 0 \<and> ua_blocks a = [True, True] \<or> ua_index a = 1 \<and> ua_blocks a = [False, True] \<or>
     ua_index a = 2 \<and> ua_blocks a = [False, False])"
  by (auto simp: alloc_ok_def MaxBlocks_def upt_rec numeral_2_eq_2 le_Suc_eq)

definition available :: "UpdateAllocator \<Rightarrow> nat" where
  "available a = MaxBlocks - ua_index a"

text \<open>Blocks that are neither in the tree nor lost: those in the slots and those in the slab.\<close>

definition held :: "UpdateAllocator \<Rightarrow> nat" where
  "held a = available a + ua_slab a"

lemma Allocate_Some:
  assumes "alloc_ok a" "0 < available a"
  shows "\<exists>a'. UpdateAllocator_Allocate a = Some a' \<and> alloc_ok a' \<and>
    Suc (available a') = available a \<and> ua_slab a' = ua_slab a"
  using assms
  by (auto simp: UpdateAllocator_Allocate_def alloc_ok_iff available_def MaxBlocks_def)

lemma Free_ok:
  assumes "alloc_ok a"
  shows "alloc_ok (UpdateAllocator_Free a)" "held (UpdateAllocator_Free a) = Suc (held a)"
  using assms
  by (auto simp: UpdateAllocator_Free_def alloc_ok_iff held_def available_def MaxBlocks_def)

lemma Free_iter_ok:
  assumes "alloc_ok a"
  shows "alloc_ok ((UpdateAllocator_Free ^^ n) a)" "held ((UpdateAllocator_Free ^^ n) a) = held a + n"
  using assms by (induction n) (auto simp: Free_ok)

lemma destroy_held: "alloc_ok a \<Longrightarrow> UpdateAllocator_destroy a = held a"
  by (auto simp: UpdateAllocator_destroy_def alloc_ok_iff held_def available_def MaxBlocks_def)

lemma create_ok:
  assumes "num_blocks \<le> MaxBlocks" "num_blocks \<le> slab"
  shows "\<exists>a. UpdateAllocator_create slab num_blocks = (ResultSuccess, a) \<and> alloc_ok a \<and>
    available a = num_blocks \<and> held a = slab"
proof -
  have "num_blocks = 0 \<or> num_blocks = 1 \<or> num_blocks = 2"
    using assms(1) by (auto simp: MaxBlocks_def)
  moreover have "u64_sub 2 0 = 2" "u64_sub 2 1 = 1" "u64_sub 2 2 = 0" by simp_all
  ultimately show ?thesis
    using assms(2)
    by (elim disjE) (simp_all add: UpdateAllocator_create_def allocate_blocks.simps alloc_ok_iff
        available_def held_def MaxBlocks_def numeral_2_eq_2)
qed

section \<open>Splitting inside the tree\<close>

text \<open>The parts of a block below a page offset, from there on, and past a number of pages.\<close>

definition low_part :: "KMemoryBlock \<Rightarrow> nat \<Rightarrow> KMemoryBlock list" where
  "low_part b k = (if k = 0 then [] else [fst (KMemoryBlock_Split b (mb_address b + k * PageSize))])"

definition from_part :: "KMemoryBlock \<Rightarrow> nat \<Rightarrow> KMemoryBlock" where
  "from_part b k = (if k = 0 then b else snd (KMemoryBlock_Split b (mb_address b + k * PageSize)))"

definition mid_part :: "KMemoryBlock \<Rightarrow> nat \<Rightarrow> nat \<Rightarrow> KMemoryBlock" where
  "mid_part b k n =
     (let m = from_part b k
      in if n < mb_num_pages m then fst (KMemoryBlock_Split m (mb_address m + n * PageSize)) else m)"

definition high_part :: "KMemoryBlock \<Rightarrow> nat \<Rightarrow> nat \<Rightarrow> KMemoryBlock list" where
  "high_part b k n =
     (let m = from_part b k
      in if n < mb_num_pages m then [snd (KMemoryBlock_Split m (mb_address m + n * PageSize))]
         else [])"

lemma Split_view:
  "page_view (fst (KMemoryBlock_Split b addr)) = page_view b"
  "page_view (snd (KMemoryBlock_Split b addr)) = page_view b"
  by (simp_all add: KMemoryBlock_Split_def Let_def page_view_def)

lemma splits_atI:
  "block_fits b \<Longrightarrow> 0 < k \<Longrightarrow> k < mb_num_pages b \<Longrightarrow>
   splits_at b (mb_address b + k * PageSize) k"
  by (simp add: splits_at_def)

lemma Split_geometry:
  assumes "block_fits b" "0 < k" "k < mb_num_pages b"
  defines "lr \<equiv> KMemoryBlock_Split b (mb_address b + k * PageSize)"
  shows "mb_address (fst lr) = mb_address b" "mb_num_pages (fst lr) = k"
    "mb_address (snd lr) = mb_address b + k * PageSize" "mb_num_pages (snd lr) = mb_num_pages b - k"
    "block_fits (fst lr)" "block_fits (snd lr)"
  using Split_pieces [OF splits_atI [OF assms(1-3)], of "fst lr" "snd lr"]
  by (simp_all add: lr_def)

lemma from_part_geometry:
  assumes "block_fits b" "k < mb_num_pages b"
  shows "mb_address (from_part b k) = mb_address b + k * PageSize"
    "mb_num_pages (from_part b k) = mb_num_pages b - k" "block_fits (from_part b k)"
    "page_view (from_part b k) = page_view b"
  using assms Split_geometry [of b k] by (auto simp: from_part_def Split_view)

lemma mid_part_geometry:
  assumes "block_fits b" "k < mb_num_pages b" "0 < n"
  shows "mb_address (mid_part b k n) = mb_address b + k * PageSize"
    "mb_num_pages (mid_part b k n) = min n (mb_num_pages b - k)" "block_fits (mid_part b k n)"
    "page_view (mid_part b k n) = page_view b"
  using assms from_part_geometry [OF assms(1,2)] Split_geometry [of "from_part b k" n]
  by (auto simp: mid_part_def Let_def Split_view)

lemma low_part_facts:
  assumes "block_fits b" "k < mb_num_pages b"
  shows "pages (low_part b k) = replicate k (page_view b)"
    "chain (mb_address b) (low_part b k) (mb_address b + k * PageSize)"
  using assms Split_geometry [of b k] by (auto simp: low_part_def Split_view)

lemma high_part_facts:
  assumes "block_fits b" "k < mb_num_pages b" "0 < n"
  shows "pages (high_part b k n) = replicate (mb_num_pages b - k - n) (page_view b)"
    "chain (mb_address b + (k + min n (mb_num_pages b - k)) * PageSize) (high_part b k n)
       (mb_address b + mb_num_pages b * PageSize)"
proof -
  note f = from_part_geometry [OF assms(1,2)]
  show "pages (high_part b k n) = replicate (mb_num_pages b - k - n) (page_view b)"
    using assms f Split_geometry [of "from_part b k" n]
    by (auto simp: high_part_def Let_def Split_view)
  show "chain (mb_address b + (k + min n (mb_num_pages b - k)) * PageSize) (high_part b k n)
       (mb_address b + mb_num_pages b * PageSize)"
    using assms f Split_geometry [of "from_part b k" n]
      mult_le_mono1 [of "k + n" "mb_num_pages b" PageSize]
    by (auto simp: high_part_def Let_def add_mult_distrib diff_mult_distrib)
qed

lemma split_block_in_chain:
  assumes "chain s (pre @ b # post) e" "e < 2 ^ 64" "0 < k" "k < mb_num_pages b"
    and "UpdateAllocator_Allocate alc = Some alc'"
  defines "addr \<equiv> mb_address b + k * PageSize"
  shows "split_block (pre @ b # post) alc (length pre) addr =
    Some (pre @ fst (KMemoryBlock_Split b addr) # snd (KMemoryBlock_Split b addr) # post,
          alc', length pre)"
proof -
  let ?l = "fst (KMemoryBlock_Split b addr)" and ?r = "snd (KMemoryBlock_Split b addr)"
  have fits: "block_fits y" if "y \<in> set (pre @ b # post)" for y
    using chain_block_fits [OF assms(1,2) that] .
  note g = Split_geometry [OF fits assms(3,4), simplified, folded addr_def]
  have "chain s pre (mb_address b)"
    using assms(1) by (auto simp: chain_append)
  then have "\<forall>y \<in> set pre. KMemoryBlock_Compare ?l y = 1"
    using g(1) fits by (fastforce simp: Compare_fits dest: chain_before)
  moreover have "mb_address b < addr" using assms(3) by (simp add: addr_def)
  then have "KMemoryBlock_Compare ?l ?r = -1"
    using g(1,3) by (simp add: KMemoryBlock_Compare_def)
  ultimately show ?thesis
    unfolding split_block_def assms(5)
    by (simp add: Let_def case_prod_unfold tree_insert_before)
qed

section \<open>The update loop on the list of blocks\<close>

text \<open>
  The effect of the update loop, without indices: starting at page \<open>k\<close> of the first
  block, \<open>n\<close> pages are visited; a block that needs the update is replaced by its parts.
\<close>

fun update_list ::
    "(KMemoryBlock \<Rightarrow> bool) \<Rightarrow> (KMemoryBlock \<Rightarrow> KMemoryBlock) \<Rightarrow> nat \<Rightarrow> nat \<Rightarrow>
     KMemoryBlock list \<Rightarrow> KMemoryBlock list" where
  "update_list needs upd k n [] = []"
| "update_list needs upd k n (b # bs) =
     (if n = 0 then b # bs
      else if needs b then
        low_part b k @ upd (mid_part b k n) # high_part b k n @
          update_list needs upd 0 (n - (mb_num_pages b - k)) bs
      else b # update_list needs upd 0 (n - (mb_num_pages b - k)) bs)"

lemma update_list_0 [simp]: "update_list needs upd k 0 bs = bs"
  by (cases bs) simp_all

text \<open>The number of splits that the page offset \<open>j\<close> costs: none at a block boundary.\<close>

fun cut_at :: "nat \<Rightarrow> KMemoryBlock list \<Rightarrow> nat" where
  "cut_at j [] = 0"
| "cut_at j (b # bs) =
     (if j = 0 then 0 else if j < mb_num_pages b then 1 else cut_at (j - mb_num_pages b) bs)"

lemma cut_at_le: "cut_at j bs \<le> 1"
  by (induction bs arbitrary: j) auto

lemma cut_at_0 [simp]: "cut_at 0 bs = 0"
  by (cases bs) auto

lemma cut_at_append:
  "length (pages xs) \<le> j \<Longrightarrow> cut_at j (xs @ ys) = cut_at (j - length (pages xs)) ys"
proof (induction xs arbitrary: j)
  case (Cons x xs)
  then show ?case by (cases "j = 0") (auto simp: diff_diff_left)
qed simp

definition splits_done :: "nat \<Rightarrow> nat \<Rightarrow> KMemoryBlock \<Rightarrow> nat" where
  "splits_done k n b = (if k = 0 then 0 else 1) + (if n < mb_num_pages b - k then 1 else 0)"

lemma part_lengths:
  assumes "block_fits b" "k < mb_num_pages b"
  shows "length (low_part b k) + length (high_part b k n) = splits_done k n b"
  using from_part_geometry [OF assms]
  by (auto simp: low_part_def high_part_def splits_done_def Let_def)

lemma page_arith:
  assumes "e < 2 ^ 64" "a + j * PageSize \<le> e"
  shows "u64_mul j PageSize = j * PageSize" "u64_add a (j * PageSize) = a + j * PageSize"
    "j < 2 ^ 64"
proof -
  have "j * PageSize < 2 ^ 64" "a + j * PageSize < 2 ^ 64" using assms by linarith+
  then show "u64_mul j PageSize = j * PageSize" "u64_add a (j * PageSize) = a + j * PageSize"
    by (simp_all only: u64_mul_exact u64_add_exact)
  show "j < 2 ^ 64"
    using \<open>j * PageSize < 2 ^ 64\<close> by (simp add: PageSize_def)
qed

lemma carve_cut_low:
  assumes "chain s (pre @ b # post) e" "e < 2 ^ 64" "alloc_ok alc" "k < mb_num_pages b"
    and "(if k = 0 then 0 else 1) \<le> available alc"
  defines "cur \<equiv> mb_address b + k * PageSize"
  shows "\<exists>alc'.
    (if mi_address (KMemoryBlock_GetMemoryInfo b) \<noteq> cur
     then (case split_block (pre @ b # post) alc (length pre) cur of
             None \<Rightarrow> None
           | Some (bs', alc', it') \<Rightarrow>
               if Suc it' < length bs' then Some (bs', alc', Suc it', mb_address (bs' ! Suc it'))
               else None)
     else Some (pre @ b # post, alc, length pre, cur))
    = Some (pre @ low_part b k @ from_part b k # post, alc', length (pre @ low_part b k), cur) \<and>
    alloc_ok alc' \<and> available alc = available alc' + length (low_part b k) \<and>
    ua_slab alc' = ua_slab alc"
proof (cases "k = 0")
  case True
  then show ?thesis using assms(3) by (simp add: cur_def low_part_def from_part_def)
next
  case False
  then obtain alc' where a: "UpdateAllocator_Allocate alc = Some alc'" "alloc_ok alc'"
    "Suc (available alc') = available alc" "ua_slab alc' = ua_slab alc"
    using Allocate_Some [OF assms(3)] assms(5) by auto
  have "block_fits b" using chain_block_fits [OF assms(1,2)] by simp
  then show ?thesis
    using False a split_block_in_chain [OF assms(1,2) _ assms(4) a(1)] assms(4)
    by (auto simp: cur_def low_part_def from_part_def nth_append Split_geometry)
qed

lemma chain_replace:
  assumes "chain s (pre @ b # post) e"
    and "chain (mb_address b) xs (mb_address b + mb_num_pages b * PageSize)"
  shows "chain s (pre @ xs @ post) e"
  using assms by (auto simp: chain_append)

lemma cut_low_chain:
  assumes "block_fits b" "k < mb_num_pages b"
  shows "chain (mb_address b) (low_part b k @ [from_part b k])
    (mb_address b + mb_num_pages b * PageSize)"
proof -
  have "k * PageSize + (mb_num_pages b - k) * PageSize = mb_num_pages b * PageSize"
    using assms(2) by (metis add_mult_distrib le_add_diff_inverse less_imp_le)
  then show ?thesis
    using low_part_facts(2) [OF assms] from_part_geometry [OF assms] assms(2)
    by (auto simp: chain_append)
qed

lemma carve_in_chain:
  assumes "chain s (pre @ b # post) e" "e < 2 ^ 64" "alloc_ok alc" "k < mb_num_pages b" "0 < n"
    and "mb_address b + (k + n) * PageSize \<le> e" "splits_done k n b \<le> available alc"
  defines "cur \<equiv> mb_address b + k * PageSize"
  shows "\<exists>alc'. carve (pre @ b # post) alc (length pre) cur (n * PageSize) =
      Some (pre @ low_part b k @ mid_part b k n # high_part b k n @ post, alc',
            length (pre @ low_part b k), cur) \<and>
    alloc_ok alc' \<and> available alc = available alc' + splits_done k n b \<and> ua_slab alc' = ua_slab alc"
proof -
  have b: "block_fits b" using chain_block_fits [OF assms(1,2)] by simp
  note f = from_part_geometry [OF b assms(4)]
  let ?pre = "pre @ low_part b k"
  have c: "chain s (?pre @ from_part b k # post) e"
    using chain_replace [OF assms(1) cut_low_chain [OF b assms(4)]] by simp
  obtain alc1 where a1: "alloc_ok alc1" "available alc = available alc1 + length (low_part b k)"
    "ua_slab alc1 = ua_slab alc" and
    step1: "carve (pre @ b # post) alc (length pre) cur (n * PageSize) =
      (if n * PageSize < mi_size (KMemoryBlock_GetMemoryInfo (from_part b k))
       then (case split_block (?pre @ from_part b k # post) alc1 (length ?pre)
                    (u64_add cur (n * PageSize)) of
               None \<Rightarrow> None | Some (bs2, alc2, it2) \<Rightarrow> Some (bs2, alc2, it2, cur))
       else Some (?pre @ from_part b k # post, alc1, length ?pre, cur))"
    using carve_cut_low [OF assms(1-4)] assms(7)
    unfolding carve_def cur_def splits_done_def
    by (auto simp: nth_append)
  have size: "n * PageSize < KMemoryBlock_GetSize (from_part b k) \<longleftrightarrow> n < mb_num_pages b - k"
    using f by (simp add: block_fits_geometry)
  have add: "u64_add cur (n * PageSize) = mb_address (from_part b k) + n * PageSize"
    using page_arith(2) [OF assms(2), of cur n] assms(6) f(1)
    by (simp add: cur_def add_mult_distrib)
  show ?thesis
  proof (cases "n < mb_num_pages b - k")
    case True
    then have "0 < available alc1"
      using assms(7) a1(2) by (auto simp: splits_done_def low_part_def split: if_splits)
    then obtain alc2 where a2: "UpdateAllocator_Allocate alc1 = Some alc2" "alloc_ok alc2"
      "Suc (available alc2) = available alc1" "ua_slab alc2 = ua_slab alc1"
      using Allocate_Some [OF a1(1)] by auto
    have "n < mb_num_pages (from_part b k)" using True f by simp
    from split_block_in_chain [OF c assms(2,5) this a2(1)] True a1 a2
    show ?thesis
      using part_lengths [OF b assms(4), of n] f(2)
      by (simp add: step1 size add mid_part_def high_part_def Let_def)
  next
    case False
    then show ?thesis
      using a1 part_lengths [OF b assms(4), of n] f(2)
      by (simp add: step1 size mid_part_def high_part_def Let_def)
  qed
qed

lemma update_step:
  assumes "needs (bs ! it)" "it < length bs" "0 < n"
    and "carve bs alc it cur (u64_mul n PageSize) = Some (bs', alc', it', cur')"
  shows "update_loop needs upd bs alc it cur n =
    update_loop needs upd (bs' [it' := upd (bs' ! it')]) alc' (Suc it')
      (u64_add cur' (KMemoryBlock_GetSize (bs' ! it')))
      (u64_sub n (KMemoryInfo_GetNumPages (KMemoryBlock_GetMemoryInfo (bs' ! it'))))"
  using assms by (subst update_loop.simps) simp

lemma skip_step:
  assumes "\<not> needs (bs ! it)" "it < length bs" "0 < n"
    and "advance (KMemoryBlock_GetMemoryInfo (bs ! it)) cur (u64_mul n PageSize) = (n', cur')"
  shows "update_loop needs upd bs alc it cur n =
    update_loop needs upd bs alc (Suc it) cur' n'"
  using assms by (subst update_loop.simps) simp

lemma advance_pages:
  assumes "block_fits b" "k < mb_num_pages b" "e < 2 ^ 64"
    and "mb_address b + (k + n) * PageSize \<le> e"
  defines "cur \<equiv> mb_address b + k * PageSize"
  shows "fst (advance (KMemoryBlock_GetMemoryInfo b) cur (n * PageSize)) = n - (mb_num_pages b - k)"
    and "mb_num_pages b - k \<le> n \<Longrightarrow> snd (advance (KMemoryBlock_GetMemoryInfo b) cur (n * PageSize)) =
           mb_address b + mb_num_pages b * PageSize"
proof -
  have add: "u64_add cur (n * PageSize) = mb_address b + (k + n) * PageSize"
    using page_arith(2) [OF assms(3), of cur n] assms(4) by (simp add: cur_def add_mult_distrib)
  have lt: "mb_address b + (k + n) * PageSize < mb_address b + mb_num_pages b * PageSize \<longleftrightarrow>
      k + n < mb_num_pages b" by simp
  have sub: "u64_sub (mb_address b + (k + n) * PageSize) (mb_address b + mb_num_pages b * PageSize)
      = (k + n - mb_num_pages b) * PageSize" if "mb_num_pages b \<le> k + n"
    using that assms(3,4) mult_le_mono1 [OF that, of PageSize]
    by (simp add: diff_mult_distrib)
  show "fst (advance (KMemoryBlock_GetMemoryInfo b) cur (n * PageSize)) = n - (mb_num_pages b - k)"
    using assms(2) sub unfolding advance_def add
    by (auto simp: block_fits_geometry(2) [OF assms(1)] lt)
  show "snd (advance (KMemoryBlock_GetMemoryInfo b) cur (n * PageSize)) =
      mb_address b + mb_num_pages b * PageSize" if "mb_num_pages b - k \<le> n"
    using that assms(2) unfolding advance_def add
    by (auto simp: block_fits_geometry(2) [OF assms(1)] lt)
qed

section \<open>Updates of a range, once for all operations\<close>

text \<open>
  The contract of an update operation: the test and the change depend on the properties of
  the pages only, through \<open>want\<close> and \<open>change\<close>, and the change moves no block.
\<close>

locale range_update =
  fixes needs :: "KMemoryBlock \<Rightarrow> bool"
    and upd :: "KMemoryBlock \<Rightarrow> KMemoryBlock"
    and want :: "page_props \<Rightarrow> bool"
    and change :: "page_props \<Rightarrow> page_props"
  assumes needs_view: "needs b \<longleftrightarrow> want (page_view b)"
    and upd_view: "page_view (upd b) = change (page_view b)"
    and upd_address: "mb_address (upd b) = mb_address b"
    and upd_num_pages: "mb_num_pages (upd b) = mb_num_pages b"
begin

lemma upd_mid_chain:
  assumes "block_fits b" "k < mb_num_pages b" "0 < n"
  shows "chain (mb_address b) (low_part b k @ upd (mid_part b k n) # high_part b k n)
    (mb_address b + mb_num_pages b * PageSize)"
  using low_part_facts(2) [OF assms(1,2)] mid_part_geometry [OF assms] high_part_facts(2) [OF assms]
    assms(2,3)
  by (auto simp: chain_append upd_address upd_num_pages add_mult_distrib add.assoc)

lemma loop_needs:
  assumes "chain s (pre @ b # bs) e" "e < 2 ^ 64" "alloc_ok alc" "k < mb_num_pages b" "0 < n"
    and "mb_address b + (k + n) * PageSize \<le> e" "splits_done k n b \<le> available alc"
    and "needs b" "u64_mul n PageSize = n * PageSize"
  shows "\<exists>alc'. update_loop needs upd (pre @ b # bs) alc (length pre)
        (mb_address b + k * PageSize) n =
      update_loop needs upd (pre @ low_part b k @ upd (mid_part b k n) # high_part b k n @ bs)
        alc' (Suc (length (pre @ low_part b k)))
        (mb_address b + (k + min n (mb_num_pages b - k)) * PageSize) (n - (mb_num_pages b - k)) \<and>
    alloc_ok alc' \<and> available alc = available alc' + splits_done k n b \<and> ua_slab alc' = ua_slab alc"
proof -
  have b: "block_fits b" using chain_block_fits [OF assms(1,2)] by simp
  note m = mid_part_geometry [OF b assms(4,5)]
  obtain alc' where c: "carve (pre @ b # bs) alc (length pre) (mb_address b + k * PageSize)
        (n * PageSize) =
      Some (pre @ low_part b k @ mid_part b k n # high_part b k n @ bs, alc',
            length (pre @ low_part b k), mb_address b + k * PageSize)"
    and a: "alloc_ok alc'" "available alc = available alc' + splits_done k n b"
      "ua_slab alc' = ua_slab alc"
    using carve_in_chain [OF assms(1-7)] by blast
  have le: "mb_address b + k * PageSize + min n (mb_num_pages b - k) * PageSize \<le> e"
  proof -
    have "min n (mb_num_pages b - k) * PageSize \<le> n * PageSize" by (rule mult_le_mono1) simp
    moreover have "mb_address b + k * PageSize + n * PageSize \<le> e"
      using assms(6) by (simp add: add_mult_distrib)
    ultimately show ?thesis by linarith
  qed
  have add: "u64_add (mb_address b + k * PageSize) (KMemoryBlock_GetSize (mid_part b k n)) =
      mb_address b + (k + min n (mb_num_pages b - k)) * PageSize"
    using page_arith(2) [OF assms(2) le] m by (simp add: block_fits_geometry add_mult_distrib)
  have "n < 2 ^ 64"
    using page_arith(3) [OF assms(2), of "mb_address b + k * PageSize" n] assms(6)
    by (simp add: add_mult_distrib)
  then have sub: "u64_sub n (min n (mb_num_pages b - k)) = n - (mb_num_pages b - k)"
    by (auto simp: min_def)
  have "update_loop needs upd (pre @ b # bs) alc (length pre) (mb_address b + k * PageSize) n =
      update_loop needs upd (pre @ low_part b k @ upd (mid_part b k n) # high_part b k n @ bs)
        alc' (Suc (length (pre @ low_part b k)))
        (mb_address b + (k + min n (mb_num_pages b - k)) * PageSize) (n - (mb_num_pages b - k))"
    by (subst update_step [OF _ _ assms(5) c [folded assms(9)]])
      (use assms(8) m add sub in \<open>simp_all add: nth_append list_update_append\<close>)
  then show ?thesis using a by blast
qed

lemma loop_skip:
  assumes "chain s (pre @ b # bs) e" "e < 2 ^ 64" "k < mb_num_pages b" "0 < n"
    and "mb_address b + (k + n) * PageSize \<le> e"
    and "\<not> needs b" "u64_mul n PageSize = n * PageSize"
  shows "\<exists>cur'. update_loop needs upd (pre @ b # bs) alc (length pre)
        (mb_address b + k * PageSize) n =
      update_loop needs upd (pre @ b # bs) alc (Suc (length pre)) cur' (n - (mb_num_pages b - k)) \<and>
    (mb_num_pages b - k \<le> n \<longrightarrow> cur' = mb_address b + mb_num_pages b * PageSize)"
proof -
  have b: "block_fits b" using chain_block_fits [OF assms(1,2)] by simp
  note adv = advance_pages [OF b assms(3) assms(2) assms(5)]
  let ?a = "advance (KMemoryBlock_GetMemoryInfo b) (mb_address b + k * PageSize) (n * PageSize)"
  have "advance (KMemoryBlock_GetMemoryInfo ((pre @ b # bs) ! length pre))
      (mb_address b + k * PageSize) (u64_mul n PageSize) = (n - (mb_num_pages b - k), snd ?a)"
    using adv(1) assms(7) by (metis nth_append_length prod.collapse)
  with adv(2) show ?thesis
    using assms(4,6) by (intro exI [of _ "snd ?a"] conjI skip_step) auto
qed

lemma update_loop_list:
  assumes "chain s (pre @ rest) e" "e < 2 ^ 64" "alloc_ok alc"
    and "k + n \<le> length (pages rest)" "rest \<noteq> [] \<longrightarrow> k < mb_num_pages (hd rest)"
    and "cut_at k rest + cut_at (k + n) rest \<le> available alc"
    and "cur = s + (length (pages pre) + k) * PageSize"
  shows "\<exists>alc'. update_loop needs upd (pre @ rest) alc (length pre) cur n =
      Some (pre @ update_list needs upd k n rest, alc') \<and> alloc_ok alc' \<and>
    length rest + available alc = length (update_list needs upd k n rest) + available alc' \<and>
    ua_slab alc' = ua_slab alc"
  using assms
proof (induction rest arbitrary: pre alc k n cur)
  case Nil
  then show ?case by (subst update_loop.simps) simp
next
  case (Cons b bs)
  show ?case
  proof (cases "n = 0")
    case True
    then show ?thesis using Cons.prems by (subst update_loop.simps) simp
  next
    case False
    have b: "block_fits b" using chain_block_fits [OF Cons.prems(1,2)] by simp
    have k: "k < mb_num_pages b" using Cons.prems(5) by simp
    have addr: "mb_address b = s + length (pages pre) * PageSize"
      using Cons.prems(1) by (simp add: chain_append_iff)
    have cur: "cur = mb_address b + k * PageSize"
      by (simp add: Cons.prems(7) addr add_mult_distrib)
    have "mb_address b + (k + n) * PageSize \<le> s + length (pages (pre @ b # bs)) * PageSize"
      using Cons.prems(4) mult_le_mono1 [of "k + n" "length (pages (b # bs))" PageSize]
      by (simp add: addr add_mult_distrib)
    then have fin: "mb_address b + (k + n) * PageSize \<le> e"
      using chain_end [OF Cons.prems(1)] by simp
    have mul: "u64_mul n PageSize = n * PageSize"
      using page_arith(1) [OF Cons.prems(2), of "mb_address b + k * PageSize" n] fin
      by (simp add: add_mult_distrib)
    let ?n' = "n - (mb_num_pages b - k)"
    have rest: "?n' \<le> length (pages bs)" using Cons.prems(4) k by simp
    have hd: "bs \<noteq> [] \<longrightarrow> 0 < mb_num_pages (hd bs)"
      using Cons.prems(1) by (cases bs) (auto simp: chain_append)
    have cut: "cut_at 0 bs + cut_at (0 + ?n') bs \<le> available alc - (if k = 0 then 0 else 1)"
      if "mb_num_pages b - k \<le> n"
      using Cons.prems(6) that k False by (auto simp: add.commute split: if_splits)
    show ?thesis
    proof (cases "needs b")
      case True
      have "splits_done k n b \<le> available alc"
        using Cons.prems(6) k False by (auto simp: splits_done_def split: if_splits)
      from loop_needs [OF Cons.prems(1-3) k _ fin this True mul] False
      obtain alc' where step: "update_loop needs upd (pre @ b # bs) alc (length pre) cur n =
          update_loop needs upd (pre @ low_part b k @ upd (mid_part b k n) # high_part b k n @ bs)
            alc' (Suc (length (pre @ low_part b k)))
            (mb_address b + (k + min n (mb_num_pages b - k)) * PageSize) ?n'"
        and a: "alloc_ok alc'" "available alc = available alc' + splits_done k n b"
          "ua_slab alc' = ua_slab alc"
        unfolding cur by auto
      note len = part_lengths [OF b k, of n]
      show ?thesis
      proof (cases "n < mb_num_pages b - k")
        case True
        then show ?thesis
          using step a len \<open>needs b\<close> False
          by (subst (asm) (2) update_loop.simps) auto
      next
        case wide: False
        let ?pre = "pre @ low_part b k @ [upd (mid_part b k n)]"
        have h: "high_part b k n = []"
          using wide from_part_geometry [OF b k] by (simp add: high_part_def Let_def)
        have "chain s (?pre @ bs) e"
          using chain_replace [OF Cons.prems(1) upd_mid_chain [OF b k, of n]] h False by simp
        moreover have "mb_address b + (k + min n (mb_num_pages b - k)) * PageSize =
            s + (length (pages ?pre) + 0) * PageSize"
          using wide k low_part_facts(1) [OF b k] mid_part_geometry [OF b k, of n] False
          by (simp add: addr upd_num_pages add_mult_distrib)
        ultimately show ?thesis
          using Cons.IH [of ?pre alc' 0 ?n'] Cons.prems(2) a cut hd rest step h len wide \<open>needs b\<close>
            False
          by (auto simp: splits_done_def split: if_splits)
      qed
    next
      case needs: False
      from loop_skip [OF Cons.prems(1,2) k _ fin needs mul, of alc] False
      obtain cur' where step: "update_loop needs upd (pre @ b # bs) alc (length pre) cur n =
          update_loop needs upd (pre @ b # bs) alc (Suc (length pre)) cur' ?n'"
        and cur': "mb_num_pages b - k \<le> n \<Longrightarrow> cur' = mb_address b + mb_num_pages b * PageSize"
        unfolding cur by auto
      show ?thesis
      proof (cases "n < mb_num_pages b - k")
        case True
        then show ?thesis
          using step needs Cons.prems(3) False by (subst (asm) (2) update_loop.simps) auto
      next
        case wide: False
        have "cur' = s + (length (pages (pre @ [b])) + 0) * PageSize"
          using cur' wide by (simp add: addr add_mult_distrib)
        moreover have "cut_at 0 bs + cut_at (0 + ?n') bs \<le> available alc"
          using cut wide by (simp split: if_splits)
        ultimately show ?thesis
          using Cons.IH [of "pre @ [b]" alc 0 ?n' cur'] Cons.prems(1-3) hd rest step needs False
          by auto
      qed
    qed
  qed
qed

end

section \<open>What the update loop leaves behind\<close>

definition map_range :: "('a \<Rightarrow> 'a) \<Rightarrow> nat \<Rightarrow> nat \<Rightarrow> 'a list \<Rightarrow> 'a list" where
  "map_range f k n xs = take k xs @ map f (take n (drop k xs)) @ drop (k + n) xs"

lemma map_range_0 [simp]: "map_range f k 0 xs = xs"
  by (simp add: map_range_def)

lemma map_range_Nil [simp]: "map_range f k n [] = []"
  by (simp add: map_range_def)

lemma map_range_append:
  "length xs \<le> k \<Longrightarrow> map_range f k n (xs @ ys) = xs @ map_range f (k - length xs) n ys"
  by (simp add: map_range_def)

lemma map_range_replicate:
  assumes "k \<le> m"
  shows "map_range f k n (replicate m v @ ys) =
    replicate k v @ replicate (min n (m - k)) (f v) @ replicate (m - k - n) v @
    map_range f 0 (n - (m - k)) ys"
proof (cases "n \<le> m - k")
  case True
  then have "k + n - m = 0" "n - (m - k) = 0" using assms by simp_all
  with True assms show ?thesis by (simp add: map_range_def min_def diff_diff_left)
next
  case False
  then have "k + n - m = n - (m - k)" "m - (k + n) = 0" using assms by simp_all
  with False assms show ?thesis by (simp add: map_range_def min_def diff_diff_left)
qed

lemma nth_map_range:
  assumes "k + n \<le> length xs" "i < length xs"
  shows "map_range f k n xs ! i = (if k \<le> i \<and> i < k + n then f (xs ! i) else xs ! i)"
  using assms by (auto simp: map_range_def nth_append min_def)

lemma length_map_range [simp]: "k + n \<le> length xs \<Longrightarrow> length (map_range f k n xs) = length xs"
  by (auto simp: map_range_def)

text \<open>
  Two neighbours that an update of the addresses from \<open>a\<close> to \<open>f\<close> must leave unmergeable: the
  first ends after the range, or the second starts before it.
\<close>

definition block_end :: "KMemoryBlock \<Rightarrow> nat" where
  "block_end b = mb_address b + mb_num_pages b * PageSize"

definition frozen :: "nat \<Rightarrow> nat \<Rightarrow> KMemoryBlock \<Rightarrow> KMemoryBlock \<Rightarrow> bool" where
  "frozen a f x y \<longleftrightarrow> (f < block_end x \<or> mb_address y < a) \<longrightarrow> \<not> KMemoryBlock_CanMergeWith x y"

definition merged :: "KMemoryBlock list \<Rightarrow> bool" where
  "merged bs \<longleftrightarrow> successively (\<lambda>x y. \<not> KMemoryBlock_CanMergeWith x y) bs"

lemma frozen_inside: "block_end x \<le> f \<Longrightarrow> a \<le> mb_address y \<Longrightarrow> frozen a f x y"
  by (simp add: frozen_def)

lemma merged_frozen: "merged bs \<Longrightarrow> successively (frozen a f) bs"
  unfolding merged_def by (erule successively_mono) (simp add: frozen_def)

lemma CanMerge_view:
  "KMemoryBlock_CanMergeWith x y \<longleftrightarrow> page_view x = page_view y \<and>
     mb_disable_merge_attribute x AND DisableMerge_AllRight = 0 \<and>
     mb_disable_merge_attribute y AND DisableMerge_AllLeft = 0"
  by (simp add: KMemoryBlock_CanMergeWith_def HasSameProperties_iff)

lemma Split_merge_sides:
  "KMemoryBlock_CanMergeWith x (fst (KMemoryBlock_Split b c)) = KMemoryBlock_CanMergeWith x b"
  "KMemoryBlock_CanMergeWith (snd (KMemoryBlock_Split b c)) y = KMemoryBlock_CanMergeWith b y"
  by (simp_all add: CanMerge_view Split_view)
    (simp_all add: KMemoryBlock_Split_def Let_def)

context range_update
begin

definition h :: "page_props \<Rightarrow> page_props" where
  "h v = (if want v then change v else v)"

lemma update_list_chain:
  assumes "chain a rest e" "e < 2 ^ 64" "rest \<noteq> [] \<longrightarrow> k < mb_num_pages (hd rest)"
  shows "chain a (update_list needs upd k n rest) e"
  using assms
proof (induction rest arbitrary: a k n)
  case (Cons b bs)
  have b: "block_fits b" using chain_block_fits [OF Cons.prems(1,2)] by simp
  have hd: "bs \<noteq> [] \<longrightarrow> 0 < mb_num_pages (hd bs)"
    using Cons.prems(1) by (cases bs) auto
  have k: "k < mb_num_pages b" using Cons.prems(3) by simp
  have "chain (a + mb_num_pages b * PageSize)
      (update_list needs upd 0 (n - (mb_num_pages b - k)) bs) e"
    using Cons.prems hd by (intro Cons.IH) auto
  then show ?case
    using Cons.prems(1) chain_replace [of a "[]" b "update_list needs upd 0 (n - (mb_num_pages b - k)) bs" e
        "low_part b k @ upd (mid_part b k n) # high_part b k n"] upd_mid_chain [OF b k, of n]
    by auto
qed simp

lemma update_list_pages:
  assumes "chain a rest e" "e < 2 ^ 64" "rest \<noteq> [] \<longrightarrow> k < mb_num_pages (hd rest)"
  shows "pages (update_list needs upd k n rest) = map_range h k n (pages rest)"
  using assms
proof (induction rest arbitrary: a k n)
  case (Cons b bs)
  have b: "block_fits b" using chain_block_fits [OF Cons.prems(1,2)] by simp
  have hd: "bs \<noteq> [] \<longrightarrow> 0 < mb_num_pages (hd bs)"
    using Cons.prems(1) by (cases bs) auto
  have k: "k < mb_num_pages b" using Cons.prems(3) by simp
  have IH: "pages (update_list needs upd 0 (n - (mb_num_pages b - k)) bs) =
      map_range h 0 (n - (mb_num_pages b - k)) (pages bs)"
    using Cons.prems hd by (intro Cons.IH) auto
  show ?case
  proof (cases "n = 0")
    case False
    note parts = low_part_facts [OF b k] mid_part_geometry [OF b k, of n] high_part_facts [OF b k, of n]
    have join: "replicate k v @ replicate (min n (mb_num_pages b - k)) v @
        replicate (mb_num_pages b - k - n) v = replicate (mb_num_pages b) v" for v :: page_props
      using k by (simp add: replicate_add [symmetric] min_def)
    have "h (page_view b) = (if needs b then change (page_view b) else page_view b)"
      by (simp add: h_def needs_view)
    then show ?thesis
      using False k IH parts join [of "page_view b"]
      by (auto simp: map_range_replicate upd_view upd_num_pages simp flip: append_assoc)
  qed simp
qed simp

lemma update_list_blocks:
  assumes "\<forall>b. P b \<longrightarrow> Q (upd b)" "\<forall>b. P b \<longrightarrow> Q b"
    and "\<forall>b addr. P b \<longrightarrow> P (fst (KMemoryBlock_Split b addr)) \<and> P (snd (KMemoryBlock_Split b addr))"
    and "\<forall>b \<in> set rest. P b"
  shows "\<forall>b \<in> set (update_list needs upd k n rest). Q b"
  using assms
proof (induction rest arbitrary: k n)
  case (Cons b bs)
  have "\<forall>c \<in> set (low_part b k @ high_part b k n). Q c" "Q (upd (mid_part b k n))"
    using Cons.prems by (auto simp: low_part_def high_part_def mid_part_def from_part_def Let_def)
  with Cons show ?case by auto
qed simp

end

lemma successively_join:
  "successively P (ys @ [m]) \<Longrightarrow> successively P (m # zs) \<Longrightarrow> successively P (ys @ m # zs)"
  by (cases ys rule: rev_cases) (auto simp: successively_append_iff)

context range_update
begin

lemma update_head_frozen:
  assumes "block_fits b" "k < mb_num_pages b" "0 < n"
    and "a \<le> mb_address b + k * PageSize" "k \<noteq> 0 \<longrightarrow> a = mb_address b + k * PageSize"
    and "f = mb_address b + (k + n) * PageSize"
    and "successively (frozen a f) (xs @ b # bs)" "xs \<noteq> [] \<longrightarrow> block_end (last xs) = mb_address b"
    and "bs \<noteq> [] \<longrightarrow> mb_address (hd bs) = block_end b"
  shows "successively (frozen a f)
    (xs @ low_part b k @ upd (mid_part b k n) # high_part b k n @ bs)"
proof -
  note m = mid_part_geometry [OF assms(1-3)]
  have old: "successively (frozen a f) xs" "xs \<noteq> [] \<Longrightarrow> frozen a f (last xs) b"
    "successively (frozen a f) bs" "bs \<noteq> [] \<Longrightarrow> frozen a f b (hd bs)"
    using assms(7) by (auto simp: successively_append_iff successively_Cons)
  let ?m = "upd (mid_part b k n)"
  have mb: "mb_address ?m = mb_address b + k * PageSize"
    "block_end ?m = mb_address b + (k + min n (mb_num_pages b - k)) * PageSize"
    using m by (simp_all add: upd_address upd_num_pages block_end_def add_mult_distrib)
  have bm: "block_end ?m \<le> f"
    unfolding mb(2) assms(6) using mult_le_mono1 [of "k + min n (mb_num_pages b - k)" "k + n" PageSize]
    by simp
  have lo: "mb_address b \<le> f" "mb_address b + k * PageSize \<le> f"
    unfolding assms(6) by (simp_all add: add_mult_distrib)
  have bs_after: "a \<le> mb_address (hd bs)" if "bs \<noteq> []"
  proof -
    have "k * PageSize \<le> mb_num_pages b * PageSize" using assms(2) by (intro mult_le_mono1) simp
    then show ?thesis using assms(4,9) that unfolding block_end_def by linarith
  qed
  have low: "successively (frozen a f) (xs @ low_part b k @ [?m])"
  proof (cases "k = 0")
    case True
    then have "xs \<noteq> [] \<Longrightarrow> frozen a f (last xs) ?m"
      using assms(4,8) lo(1) mb(1) by (intro frozen_inside) auto
    then show ?thesis using True old(1) by (auto simp: low_part_def successively_append_iff)
  next
    case False
    let ?l = "fst (KMemoryBlock_Split b (mb_address b + k * PageSize))"
    note g = Split_geometry [OF assms(1) _ assms(2)]
    have "block_end ?l = mb_address b + k * PageSize" "mb_address ?l = mb_address b"
      using g(1,2) False by (simp_all add: block_end_def)
    then have "frozen a f ?l ?m" "xs \<noteq> [] \<Longrightarrow> frozen a f (last xs) ?l"
      using False assms(5,8) lo old(2) mb(1)
      by (auto simp: frozen_def Split_merge_sides)
    then show ?thesis
      using False old(1) by (auto simp: low_part_def successively_append_iff)
  qed
  have high: "successively (frozen a f) (?m # high_part b k n @ bs)"
  proof (cases "n < mb_num_pages (from_part b k)")
    case False
    then have "bs \<noteq> [] \<Longrightarrow> frozen a f ?m (hd bs)"
      using bm bs_after by (intro frozen_inside) auto
    then show ?thesis
      using False old(3) by (cases bs) (auto simp: high_part_def Let_def)
  next
    case True
    let ?r = "snd (KMemoryBlock_Split (from_part b k) (mb_address (from_part b k) + n * PageSize))"
    note fp = from_part_geometry [OF assms(1,2)]
    note g = Split_geometry [OF fp(3) assms(3) True]
    have r: "mb_address ?r = f"
      using g(3) fp(1) assms(6) by (simp add: add_mult_distrib)
    have "frozen a f ?m ?r" using bm assms(4) r lo by (intro frozen_inside) auto
    moreover have "f < block_end b"
      using True fp(2) assms(6) mult_less_mono1 [of "k + n" "mb_num_pages b" PageSize]
      by (simp add: block_end_def)
    then have "bs \<noteq> [] \<Longrightarrow> frozen a f ?r (hd bs)"
      using old(4) by (auto simp: frozen_def Split_merge_sides from_part_def)
    ultimately show ?thesis
      using True old(3) by (cases bs) (auto simp: high_part_def Let_def)
  qed
  show ?thesis
    using successively_join [of _ "xs @ low_part b k" ?m "high_part b k n @ bs"] low high by simp
qed

lemma update_list_frozen:
  assumes "chain c rest e" "e < 2 ^ 64" "rest \<noteq> [] \<longrightarrow> k < mb_num_pages (hd rest)"
    and "a \<le> c + k * PageSize" "k \<noteq> 0 \<longrightarrow> a = c + k * PageSize" "f = c + (k + n) * PageSize"
    and "successively (frozen a f) (xs @ rest)" "xs \<noteq> [] \<longrightarrow> block_end (last xs) = c"
  shows "successively (frozen a f) (xs @ update_list needs upd k n rest)"
  using assms
proof (induction rest arbitrary: c k n xs)
  case (Cons b bs)
  have b: "block_fits b" "mb_address b = c" using chain_block_fits [OF Cons.prems(1,2)] Cons.prems(1) by auto
  have k: "k < mb_num_pages b" using Cons.prems(3) by simp
  have hd: "bs \<noteq> [] \<longrightarrow> 0 < mb_num_pages (hd bs)" "bs \<noteq> [] \<longrightarrow> mb_address (hd bs) = block_end b"
    using Cons.prems(1) by (cases bs; auto simp: block_end_def)+
  have kle: "a \<le> c + mb_num_pages b * PageSize"
    using Cons.prems(4) k mult_le_mono1 [of k "mb_num_pages b" PageSize] by linarith
  let ?n' = "n - (mb_num_pages b - k)"
  show ?case
  proof (cases "n < mb_num_pages b - k \<or> n = 0")
    case True
    then have "?n' = 0" by auto
    then show ?thesis
      using update_head_frozen [OF b(1) k, of n a f xs bs] Cons.prems(4-8) b(2) hd(2) by auto
  next
    case False
    then have "k + n = mb_num_pages b + ?n'" using k by linarith
    then have f': "f = c + mb_num_pages b * PageSize + (0 + ?n') * PageSize"
      using Cons.prems(6) by (simp only: add_mult_distrib add_0 add.assoc)
    have h: "high_part b k n = []" using False from_part_geometry [OF b(1) k]
      by (auto simp: high_part_def Let_def)
    note IH = Cons.IH [of "c + mb_num_pages b * PageSize" 0 ?n']
    show ?thesis
    proof (cases "needs b")
      case True
      let ?xs = "xs @ low_part b k @ [upd (mid_part b k n)]"
      have "block_end (last ?xs) = c + mb_num_pages b * PageSize"
      proof -
        have "k + min n (mb_num_pages b - k) = mb_num_pages b" using False k by linarith
        then have "k * PageSize + min n (mb_num_pages b - k) * PageSize = mb_num_pages b * PageSize"
          by (metis add_mult_distrib)
        then show ?thesis
          using mid_part_geometry [OF b(1) k, of n] False b(2)
          by (simp add: block_end_def upd_address upd_num_pages)
      qed
      moreover have "successively (frozen a f) (?xs @ bs)"
        using update_head_frozen [OF b(1) k, of n a f xs bs] Cons.prems(4-8) b(2) hd(2) False h by simp
      ultimately have "successively (frozen a f) (?xs @ update_list needs upd 0 ?n' bs)"
        using Cons.prems(1,2) hd(1) kle f' by (intro IH) auto
      then show ?thesis using True False h by simp
    next
      case needs: False
      have "successively (frozen a f) ((xs @ [b]) @ update_list needs upd 0 ?n' bs)"
        using Cons.prems(1,2,7) hd(1) kle f' b(2) by (intro IH) (auto simp: block_end_def)
      then show ?thesis using needs False by simp
    qed
  qed
qed simp

end

section \<open>Coalescing on the list of blocks\<close>

function coalesce_list :: "nat \<Rightarrow> KMemoryBlock list \<Rightarrow> KMemoryBlock list" where
  "coalesce_list f [] = []"
| "coalesce_list f [b] = [b]"
| "coalesce_list f (b # c # bs) =
     (if KMemoryBlock_CanMergeWith b c then
        (if f < KMemoryBlock_GetEndAddress (KMemoryBlock_Add b c) then KMemoryBlock_Add b c # bs
         else coalesce_list f (KMemoryBlock_Add b c # bs))
      else if f < KMemoryBlock_GetEndAddress c then b # c # bs
      else b # coalesce_list f (c # bs))"
  by pat_completeness auto
termination
  by (relation "measure (\<lambda>(f, bs). length bs)") auto

lemma coalesce_list_length: "length (coalesce_list f bs) \<le> length bs"
  by (induction f bs rule: coalesce_list.induct) auto

lemma coalesce_loop_list:
  assumes "rest \<noteq> []"
  shows "coalesce_loop (pre @ rest) alc (length pre) f =
    Some (pre @ coalesce_list f rest,
          (UpdateAllocator_Free ^^ (length rest - length (coalesce_list f rest))) alc)"
  using assms
proof (induction f rest arbitrary: pre alc rule: coalesce_list.induct)
  case (1 f)
  then show ?case by simp
next
  case (2 f b)
  then show ?case by (subst coalesce_loop.simps) simp
next
  case (3 f b c bs)
  let ?m = "KMemoryBlock_Add b c"
  have merge: "(tree_erase (Suc (length pre)) (pre @ b # c # bs)) [length pre := ?m] = pre @ ?m # bs"
    by (simp add: tree_erase_def list_update_append)
  have nth: "(pre @ b # c # bs) ! Suc (length pre) = c" by (simp add: nth_append)
  show ?case
  proof (cases "KMemoryBlock_CanMergeWith b c")
    case True
    have "length (coalesce_list f (?m # bs)) \<le> Suc (length bs)"
      using coalesce_list_length [of f "?m # bs"] by simp
    then have fr: "(UpdateAllocator_Free ^^ (Suc (Suc (length bs)) - length (coalesce_list f (?m # bs)))) alc =
      (UpdateAllocator_Free ^^ (Suc (length bs) - length (coalesce_list f (?m # bs))))
        (UpdateAllocator_Free alc)"
      by (simp add: Suc_diff_le funpow_swap1)
    show ?thesis
      using True 3(1) [of pre "UpdateAllocator_Free alc"] fr
      by (subst coalesce_loop.simps) (simp add: coalesce_step_def Let_def merge nth)
  next
    case False
    then show ?thesis
      using 3(2) [of "pre @ [b]" alc] coalesce_list_length [of f "c # bs"]
      by (subst coalesce_loop.simps) (simp add: coalesce_step_def Let_def nth)
  qed
qed

lemma Add_geometry:
  assumes "chain a (b # c # bs) e" "e < 2 ^ 64"
  shows "mb_address (KMemoryBlock_Add b c) = a"
    "mb_num_pages (KMemoryBlock_Add b c) = mb_num_pages b + mb_num_pages c"
    "chain a (KMemoryBlock_Add b c # bs) e"
    "block_end (KMemoryBlock_Add b c) = block_end c"
proof -
  have "a + (mb_num_pages b + mb_num_pages c) * PageSize \<le> e"
    using assms(1) chain_end [of "a + mb_num_pages b * PageSize + mb_num_pages c * PageSize" bs e]
    by (simp add: add_mult_distrib)
  from page_arith(3) [OF assms(2) this]
  show n: "mb_num_pages (KMemoryBlock_Add b c) = mb_num_pages b + mb_num_pages c"
    by (simp add: KMemoryBlock_Add_def)
  show addr: "mb_address (KMemoryBlock_Add b c) = a"
    using assms(1) by (simp add: KMemoryBlock_Add_def)
  show "chain a (KMemoryBlock_Add b c # bs) e"
    using assms(1) n addr by (simp add: add_mult_distrib add.assoc)
  show "block_end (KMemoryBlock_Add b c) = block_end c"
    using assms(1) n addr by (simp add: block_end_def add_mult_distrib)
qed

lemma Add_view: "page_view (KMemoryBlock_Add b c) = page_view b"
  by (simp add: page_view_def KMemoryBlock_Add_def)

lemma Add_merge_sides:
  assumes "KMemoryBlock_CanMergeWith b c"
  shows "KMemoryBlock_CanMergeWith x (KMemoryBlock_Add b c) = KMemoryBlock_CanMergeWith x b"
    "KMemoryBlock_CanMergeWith (KMemoryBlock_Add b c) y = KMemoryBlock_CanMergeWith c y"
  using assms
  by (simp_all add: CanMerge_view Add_view)
    (auto simp: KMemoryBlock_Add_def bit.conj_disj_distrib2)

lemma chain_GetEnd:
  "chain a bs e \<Longrightarrow> e < 2 ^ 64 \<Longrightarrow> b \<in> set bs \<Longrightarrow> KMemoryBlock_GetEndAddress b = block_end b"
  using chain_block_fits block_fits_geometry(2) by (simp add: block_end_def)

lemma coalesce_list_chain:
  assumes "chain a bs e" "e < 2 ^ 64"
  shows "chain a (coalesce_list f bs) e \<and> pages (coalesce_list f bs) = pages bs"
  using assms
proof (induction f bs arbitrary: a rule: coalesce_list.induct)
  case (3 f b c bs)
  note g = Add_geometry [OF 3(3,4)]
  have v: "KMemoryBlock_CanMergeWith b c \<Longrightarrow> page_view c = page_view b" by (simp add: CanMerge_view)
  have "chain a (coalesce_list f (KMemoryBlock_Add b c # bs)) e \<and>
      pages (coalesce_list f (KMemoryBlock_Add b c # bs)) = pages (KMemoryBlock_Add b c # bs)"
    if "KMemoryBlock_CanMergeWith b c" "\<not> f < KMemoryBlock_GetEndAddress (KMemoryBlock_Add b c)"
    using 3(1) [OF that g(3) 3(4)] .
  moreover have "chain (a + mb_num_pages b * PageSize) (coalesce_list f (c # bs)) e \<and>
      pages (coalesce_list f (c # bs)) = pages (c # bs)"
    if "\<not> KMemoryBlock_CanMergeWith b c" "\<not> f < KMemoryBlock_GetEndAddress c"
    using 3(2) [OF that, of "a + mb_num_pages b * PageSize"] 3(3,4) by simp
  ultimately show ?case
    using 3(3) g v by (auto simp: Add_view replicate_add)
qed auto

lemma chain_ends_mono:
  assumes "chain a (c # bs) e" "x \<in> set (c # bs)"
  shows "block_end c \<le> block_end x"
  using assms
proof (induction bs arbitrary: a c)
  case (Cons d bs)
  have "block_end c \<le> block_end d"
    using Cons.prems(1) by (auto simp: block_end_def)
  then show ?case
    using Cons.prems Cons.IH [of "a + mb_num_pages c * PageSize" d] by fastforce
qed simp

lemma merged_beyond:
  assumes "chain a (c # bs) e" "f < block_end c"
    and "successively (\<lambda>x y. f < block_end x \<longrightarrow> \<not> KMemoryBlock_CanMergeWith x y) (c # bs)"
  shows "merged (c # bs)"
  unfolding merged_def
  by (rule successively_mono [OF assms(3)])
    (use assms(2) chain_ends_mono [OF assms(1)] in \<open>meson less_le_trans\<close>)

lemma coalesce_list_merged:
  assumes "chain a bs e" "e < 2 ^ 64"
    and "successively (\<lambda>x y. f < block_end x \<longrightarrow> \<not> KMemoryBlock_CanMergeWith x y) bs"
  shows "merged (coalesce_list f bs) \<and>
    (bs \<noteq> [] \<longrightarrow> coalesce_list f bs \<noteq> [] \<and> (\<forall>x. KMemoryBlock_CanMergeWith x (hd (coalesce_list f bs)) \<longleftrightarrow>
       KMemoryBlock_CanMergeWith x (hd bs)))"
  using assms
proof (induction f bs arbitrary: a rule: coalesce_list.induct)
  case (3 f b c bs)
  let ?m = "KMemoryBlock_Add b c"
  note g = Add_geometry [OF 3(3,4)]
  have ends: "KMemoryBlock_GetEndAddress c = block_end c" "KMemoryBlock_GetEndAddress ?m = block_end ?m"
    using chain_GetEnd [OF 3(3,4)] chain_GetEnd [OF g(3) 3(4)] by auto
  have tail: "successively (\<lambda>x y. f < block_end x \<longrightarrow> \<not> KMemoryBlock_CanMergeWith x y) (c # bs)"
    using 3(5) by simp
  have tl: "chain (a + mb_num_pages b * PageSize) (c # bs) e" using 3(3) by simp
  show ?case
  proof (cases "KMemoryBlock_CanMergeWith b c")
    case True
    have s: "successively (\<lambda>x y. f < block_end x \<longrightarrow> \<not> KMemoryBlock_CanMergeWith x y) (?m # bs)"
      using tail g(4) Add_merge_sides [OF True] by (cases bs) auto
    show ?thesis
    proof (cases "f < block_end ?m")
      case far: True
      then show ?thesis
        using True ends merged_beyond [OF g(3) far s] Add_merge_sides [OF True] by simp
    next
      case False
      then show ?thesis
        using True ends 3(1) [OF True _ g(3) 3(4) s] Add_merge_sides [OF True] by simp
    qed
  next
    case False
    show ?thesis
    proof (cases "f < block_end c")
      case far: True
      then show ?thesis
        using False ends merged_beyond [OF tl far tail] by (simp add: merged_def)
    next
      case near: False
      then have IH: "merged (coalesce_list f (c # bs))" "coalesce_list f (c # bs) \<noteq> []"
        "\<forall>x. KMemoryBlock_CanMergeWith x (hd (coalesce_list f (c # bs))) \<longleftrightarrow>
           KMemoryBlock_CanMergeWith x c"
        using False ends 3(2) [OF False _ tl 3(4) tail] by simp_all
      then show ?thesis
        using False near ends by (auto simp: merged_def successively_Cons)
    qed
  qed
qed (auto simp: merged_def)

lemma coalesce_list_blocks:
  assumes "\<forall>b c. Q b \<longrightarrow> Q c \<longrightarrow> KMemoryBlock_CanMergeWith b c \<longrightarrow> Q (KMemoryBlock_Add b c)"
    and "\<forall>b \<in> set bs. Q b"
  shows "\<forall>b \<in> set (coalesce_list f bs). Q b"
  using assms by (induction f bs rule: coalesce_list.induct) auto

section \<open>The invariant of the manager\<close>

definition manager_ok :: "KMemoryBlockManager \<Rightarrow> bool" where
  "manager_ok m \<longleftrightarrow> chain (mm_start_address m) (mm_tree m) (mm_end_address m) \<and>
     mm_start_address m < mm_end_address m \<and> mm_end_address m < 2 ^ 64"

text \<open>A non-empty page-aligned range inside the address space.\<close>

definition range_ok :: "KMemoryBlockManager \<Rightarrow> nat \<Rightarrow> nat \<Rightarrow> bool" where
  "range_ok m address n \<longleftrightarrow> mm_start_address m \<le> address \<and>
     PageSize dvd (address - mm_start_address m) \<and> 0 < n \<and>
     address + n * PageSize \<le> mm_end_address m"

definition page_index :: "KMemoryBlockManager \<Rightarrow> nat \<Rightarrow> nat" where
  "page_index m address = (address - mm_start_address m) div PageSize"

text \<open>The splits that an update of the range may need, one for each end inside a block.\<close>

definition blocks_needed :: "KMemoryBlockManager \<Rightarrow> nat \<Rightarrow> nat \<Rightarrow> nat" where
  "blocks_needed m address n =
     cut_at (page_index m address) (mm_tree m) + cut_at (page_index m address + n) (mm_tree m)"

lemma blocks_needed_le: "blocks_needed m address n \<le> MaxBlocks"
  using cut_at_le [of "page_index m address" "mm_tree m"]
    cut_at_le [of "page_index m address + n" "mm_tree m"]
  unfolding blocks_needed_def MaxBlocks_def by simp

lemma locate_range:
  assumes "manager_ok m" "range_ok m address n"
  shows "\<exists>pre b post k. mm_tree m = pre @ b # post \<and> k < mb_num_pages b \<and>
    address = mb_address b + k * PageSize \<and> page_index m address = length (pages pre) + k \<and>
    mb_address b = mm_start_address m + length (pages pre) * PageSize \<and>
    FindIterator (mm_tree m) address = length pre \<and> k + n \<le> length (pages (b # post)) \<and>
    blocks_needed m address n = cut_at k (b # post) + cut_at (k + n) (b # post)"
proof -
  have c: "chain (mm_start_address m) (mm_tree m) (mm_end_address m)" "mm_end_address m < 2 ^ 64"
    using assms(1) by (simp_all add: manager_ok_def)
  have "0 < n * PageSize" using assms(2) by (simp add: range_ok_def)
  then have lt: "mm_start_address m \<le> address" "address < mm_end_address m"
    using assms(2) unfolding range_ok_def by linarith+
  obtain pre b post where bs: "mm_tree m = pre @ b # post" "mb_address b \<le> address"
    "address < mb_address b + mb_num_pages b * PageSize"
    using chain_locate [OF c(1) lt] by blast
  have b: "mb_address b = mm_start_address m + length (pages pre) * PageSize"
    using c(1) bs(1) by (simp add: chain_append_iff)
  obtain j where j: "address = mm_start_address m + j * PageSize"
    using assms(2) lt(1) unfolding range_ok_def dvd_def by (metis add_diff_inverse_nat mult.commute not_le)
  define k where "k = j - length (pages pre)"
  have "length (pages pre) \<le> j" using bs(2) by (simp add: b j)
  then have jk: "j = length (pages pre) + k" by (simp add: k_def)
  have ak: "address = mb_address b + k * PageSize"
    by (simp add: j jk b add_mult_distrib)
  have k: "k < mb_num_pages b" using bs(3) by (simp add: ak)
  have pi: "page_index m address = length (pages pre) + k"
    unfolding page_index_def j jk by simp
  have "(j + n) * PageSize \<le> length (pages (mm_tree m)) * PageSize"
    using assms(2) chain_end [OF c(1)] unfolding range_ok_def j by (simp add: add_mult_distrib)
  then have "j + n \<le> length (pages (mm_tree m))" by simp
  then have kn: "k + n \<le> length (pages (b # post))" by (simp add: bs(1) jk)
  have "FindIterator (mm_tree m) address = length pre"
    unfolding bs(1) by (rule FindIterator_at [OF c(1) [unfolded bs(1)] c(2) bs(2,3)])
  moreover have "blocks_needed m address n = cut_at k (b # post) + cut_at (k + n) (b # post)"
    unfolding blocks_needed_def pi bs(1) by (simp add: cut_at_append)
  ultimately show ?thesis using bs(1) k ak pi b kn by blast
qed

text \<open>
  \<^verbatim>\<open>CoalesceForUpdate\<close> steps back from the block that contains the address, unless the address is
  the start of the space. There is no block to step back to when the first block contains the
  address and was not split, because it did not need the update.
\<close>

definition can_step_back :: "(KMemoryBlock \<Rightarrow> bool) \<Rightarrow> KMemoryBlockManager \<Rightarrow> nat \<Rightarrow> bool" where
  "can_step_back needs m address \<longleftrightarrow>
     address = mm_start_address m \<or> block_end (hd (mm_tree m)) \<le> address \<or> needs (hd (mm_tree m))"

lemma coalesce_start:
  assumes "chain s bs e" "e < 2 ^ 64" "s \<le> address" "address < e"
    and "address + n * PageSize \<le> e"
    and "address \<noteq> s \<longrightarrow> block_end (hd bs) \<le> address"
  shows "\<exists>X rest. bs = X @ rest \<and> rest \<noteq> [] \<and>
    CoalesceForUpdate bs s alc address n = coalesce_loop bs alc (length X) (address + n * PageSize) \<and>
    (X \<noteq> [] \<longrightarrow> (\<forall>y \<in> set (X @ [hd rest]). mb_address y < address))"
proof -
  obtain pre b post where bs: "bs = pre @ b # post" "mb_address b \<le> address"
    "address < mb_address b + mb_num_pages b * PageSize"
    using chain_locate [OF assms(1,3,4)] by blast
  have it: "FindIterator bs address = length pre"
    unfolding bs(1) by (rule FindIterator_at [OF assms(1) [unfolded bs(1)] assms(2) bs(2,3)])
  have fin: "u64_add address (u64_mul n PageSize) = address + n * PageSize"
    using page_arith(1,2) [OF assms(2,5)] by simp
  have pre: "chain s pre (mb_address b)"
    using assms(1) bs(1) by (auto simp: chain_append)
  show ?thesis
  proof (cases "address = s")
    case True
    have "pre = []"
    proof (cases pre)
      case (Cons p ps)
      then have "0 < mb_num_pages p" "s + mb_num_pages p * PageSize \<le> mb_address b"
        using pre chain_Cons_le by auto
      then have "s < mb_address b"
        using PageSize_pos by (meson add_lessD1 less_add_same_cancel1 less_le_trans nat_0_less_mult_iff)
      with bs(2) True show ?thesis by simp
    qed simp
    then show ?thesis
      using True it fin bs(1)
      by (intro exI [of _ "[]"] exI [of _ bs]) (simp add: CoalesceForUpdate_def)
  next
    case False
    have "pre \<noteq> []"
      using False assms(6) bs by (auto simp: block_end_def)
    then obtain X p where X: "pre = X @ [p]" by (cases pre rule: rev_cases) auto
    have lt: "mb_address y < mb_address b" if "y \<in> set pre" for y
    proof -
      have "mb_address y + mb_num_pages y * PageSize \<le> mb_address b"
        using chain_before [OF pre that] .
      moreover have "block_fits y" using chain_block_fits [OF assms(1,2)] that bs(1) by simp
      ultimately show ?thesis unfolding block_fits_def
        using PageSize_pos by (meson less_add_same_cancel1 less_le_trans nat_0_less_mult_iff)
    qed
    show ?thesis
      using False it fin bs X lt
      by (intro exI [of _ X] exI [of _ "p # b # post"])
        (auto simp: CoalesceForUpdate_def Let_def intro: less_le_trans)
  qed
qed

context range_update
begin

lemma updated_head:
  assumes "manager_ok m" "mm_tree m = pre @ b # post" "k < mb_num_pages b" "0 < n"
    and "address = mb_address b + k * PageSize" "can_step_back needs m address"
    and "address \<noteq> mm_start_address m"
  shows "block_end (hd (pre @ update_list needs upd k n (b # post))) \<le> address"
proof (cases pre)
  case Nil
  have c: "chain (mm_start_address m) (b # post) (mm_end_address m)" "mm_end_address m < 2 ^ 64"
    using assms(1,2) Nil by (simp_all add: manager_ok_def)
  have "k \<noteq> 0" using c(1) assms(5,7) by auto
  have "\<not> block_end b \<le> address" using assms(3,5) by (simp add: block_end_def)
  then have "needs b"
    using assms(2,6,7) Nil by (simp add: can_step_back_def)
  have "block_fits b" using chain_block_fits [OF c] by simp
  then show ?thesis
    using Nil \<open>needs b\<close> \<open>k \<noteq> 0\<close> assms(3,4,5) Split_geometry [of b k]
    by (simp add: low_part_def block_end_def)
next
  case (Cons p ps)
  have "chain (mm_start_address m) pre (mb_address b)"
    using assms(1,2) by (auto simp: manager_ok_def chain_append)
  from chain_before [OF this, of p] have "block_end p \<le> mb_address b"
    using Cons by (simp add: block_end_def)
  then show ?thesis using Cons assms(5) by simp
qed

lemma update_range_shape:
  assumes "manager_ok m" "range_ok m address n" "alloc_ok alc"
    and "blocks_needed m address n \<le> available alc" "can_step_back needs m address"
  shows "\<exists>pre rest k X suf alc'. mm_tree m = pre @ rest \<and>
    rest \<noteq> [] \<and> k < mb_num_pages (hd rest) \<and>
    chain (mm_start_address m) pre (mb_address (hd rest)) \<and>
    chain (mb_address (hd rest)) rest (mm_end_address m) \<and>
    address = mb_address (hd rest) + k * PageSize \<and>
    page_index m address = length (pages pre) + k \<and>
    pre @ update_list needs upd k n rest = X @ suf \<and> suf \<noteq> [] \<and>
    (X \<noteq> [] \<longrightarrow> (\<forall>y \<in> set (X @ [hd suf]). mb_address y < address)) \<and>
    chain (mm_start_address m) (X @ suf) (mm_end_address m) \<and>
    update_range needs upd m alc address n =
      Some (m \<lparr> mm_tree := X @ coalesce_list (address + n * PageSize) suf \<rparr>, alc') \<and>
    alloc_ok alc' \<and>
    length (X @ coalesce_list (address + n * PageSize) suf) + held alc' =
      length (mm_tree m) + held alc"
proof -
  have ok: "chain (mm_start_address m) (mm_tree m) (mm_end_address m)" "mm_end_address m < 2 ^ 64"
    using assms(1) by (simp_all add: manager_ok_def)
  have n: "0 < n" "address + n * PageSize \<le> mm_end_address m" "mm_start_address m \<le> address"
    using assms(2) by (simp_all add: range_ok_def)
  have lt: "address < mm_end_address m"
  proof -
    have "0 < n * PageSize" using n(1) by simp
    then show ?thesis using n(2) by linarith
  qed
  obtain pre b post k where loc: "mm_tree m = pre @ b # post" "k < mb_num_pages b"
    "address = mb_address b + k * PageSize" "page_index m address = length (pages pre) + k"
    "mb_address b = mm_start_address m + length (pages pre) * PageSize"
    "FindIterator (mm_tree m) address = length pre" "k + n \<le> length (pages (b # post))"
    "blocks_needed m address n = cut_at k (b # post) + cut_at (k + n) (b # post)"
    using locate_range [OF assms(1,2)] by blast
  have ch: "chain (mm_start_address m) pre (mb_address b)" "chain (mb_address b) (b # post) (mm_end_address m)"
    using ok(1) loc(1) by (auto simp: chain_append)
  let ?new = "update_list needs upd k n (b # post)"
  have cur: "address = mm_start_address m + (length (pages pre) + k) * PageSize"
    by (simp add: loc(3,5) add_mult_distrib)
  obtain alc1 where a1: "update_loop needs upd (mm_tree m) alc (FindIterator (mm_tree m) address)
      address n = Some (pre @ ?new, alc1)" "alloc_ok alc1"
    "length (b # post) + available alc = length ?new + available alc1" "ua_slab alc1 = ua_slab alc"
    using update_loop_list [OF ok(1) [unfolded loc(1)] ok(2) assms(3) loc(7) _ _ cur]
      assms(4) loc(2,8) unfolding loc(1,6) loc(6) [unfolded loc(1)] by auto
  have c2: "chain (mm_start_address m) (pre @ ?new) (mm_end_address m)"
    using ch update_list_chain [OF ch(2) ok(2), of k n] loc(2) by (auto simp: chain_append)
  obtain X suf where X: "pre @ ?new = X @ suf" "suf \<noteq> []"
    "CoalesceForUpdate (pre @ ?new) (mm_start_address m) alc1 address n =
       coalesce_loop (X @ suf) alc1 (length X) (address + n * PageSize)"
    "X \<noteq> [] \<longrightarrow> (\<forall>y \<in> set (X @ [hd suf]). mb_address y < address)"
    using coalesce_start [OF c2 ok(2) n(3) lt n(2), of alc1]
      updated_head [OF assms(1) loc(1,2) n(1) loc(3) assms(5)] by metis
  let ?res = "coalesce_list (address + n * PageSize) suf"
  let ?alc = "(UpdateAllocator_Free ^^ (length suf - length ?res)) alc1"
  have "update_range needs upd m alc address n = Some (m \<lparr> mm_tree := X @ ?res \<rparr>, ?alc)"
    unfolding update_range_def a1(1) using X(3) coalesce_loop_list [OF X(2)] by simp
  moreover have "length (X @ ?res) + held ?alc = length (mm_tree m) + held alc"
  proof -
    have "length ?res \<le> length suf" by (rule coalesce_list_length)
    moreover have "length pre + length ?new = length X + length suf" using X(1) by (metis length_append)
    ultimately show ?thesis
      using a1(3,4) loc(1) Free_iter_ok(2) [OF a1(2), of "length suf - length ?res"]
      unfolding held_def by simp
  qed
  ultimately show ?thesis
    using loc ch X Free_iter_ok(1) [OF a1(2)] c2
    by (intro exI [of _ pre] exI [of _ "b # post"] exI [of _ k] exI [of _ X] exI [of _ suf]
        exI [of _ ?alc]) simp
qed

text \<open>Without a block to step back to, there is no defined result.\<close>

lemma update_range_underrun:
  assumes "manager_ok m" "range_ok m address n" "alloc_ok alc"
    and "blocks_needed m address n \<le> available alc" "\<not> can_step_back needs m address"
  shows "update_range needs upd m alc address n = None"
proof -
  have ok: "chain (mm_start_address m) (mm_tree m) (mm_end_address m)" "mm_end_address m < 2 ^ 64"
    using assms(1) by (simp_all add: manager_ok_def)
  obtain pre b post k where loc: "mm_tree m = pre @ b # post" "k < mb_num_pages b"
    "address = mb_address b + k * PageSize" "page_index m address = length (pages pre) + k"
    "mb_address b = mm_start_address m + length (pages pre) * PageSize"
    "FindIterator (mm_tree m) address = length pre" "k + n \<le> length (pages (b # post))"
    "blocks_needed m address n = cut_at k (b # post) + cut_at (k + n) (b # post)"
    using locate_range [OF assms(1,2)] by blast
  have inside_first: "address \<noteq> mm_start_address m" "address < block_end (hd (mm_tree m))" "\<not> needs (hd (mm_tree m))"
    using assms(5) by (simp_all add: can_step_back_def)
  have pre: "pre = []"
  proof (rule ccontr)
    assume "pre \<noteq> []"
    then obtain p ps where p: "pre = p # ps" by (cases pre) auto
    have "chain (mm_start_address m) pre (mb_address b)" using ok(1) loc(1) by (auto simp: chain_append)
    from chain_before [OF this, of p] have "block_end p \<le> address" using p loc(3) by (simp add: block_end_def)
    then show False using inside_first(2) loc(1) p by simp
  qed
  have cur: "address = mm_start_address m + (length (pages pre) + k) * PageSize"
    by (simp add: loc(3,5) add_mult_distrib)
  obtain alc1 where a1: "update_loop needs upd (mm_tree m) alc (FindIterator (mm_tree m) address)
      address n = Some (pre @ update_list needs upd k n (b # post), alc1)"
    using update_loop_list [OF ok(1) [unfolded loc(1)] ok(2) assms(3) loc(7) _ _ cur]
      assms(4) loc(2,8) unfolding loc(1,6) loc(6) [unfolded loc(1)] by auto
  obtain ys where new: "update_list needs upd k n (b # post) = b # ys" using inside_first(3) loc(1) pre by (cases "n = 0") auto
  have c2: "chain (mm_start_address m) ([] @ b # ys) (mm_end_address m)"
    using update_list_chain [of "mm_start_address m" "b # post" "mm_end_address m" k n] ok loc(1,2) pre new by simp
  have "FindIterator (b # ys) address = 0"
    using FindIterator_at [OF c2 ok(2), of address] loc(2,3) by simp
  moreover have "update_loop needs upd (mm_tree m) alc (FindIterator (mm_tree m) address) address n = Some (b # ys, alc1)"
    using a1 unfolding new pre append_Nil .
  ultimately show ?thesis using inside_first(1) by (simp add: update_range_def CoalesceForUpdate_def)
qed

end

text \<open>The promise of every update operation.\<close>

definition range_update_spec ::
    "(page_props \<Rightarrow> page_props) \<Rightarrow> KMemoryBlockManager \<Rightarrow> UpdateAllocator \<Rightarrow> nat \<Rightarrow> nat \<Rightarrow>
     (KMemoryBlockManager \<times> UpdateAllocator) option \<Rightarrow> bool" where
  "range_update_spec change m alc address n result \<longleftrightarrow>
     (\<exists>m' alc'. result = Some (m', alc') \<and> manager_ok m' \<and> alloc_ok alc' \<and>
        mm_start_address m' = mm_start_address m \<and> mm_end_address m' = mm_end_address m \<and>
        pages (mm_tree m') = map_range change (page_index m address) n (pages (mm_tree m)) \<and>
        (merged (mm_tree m) \<longrightarrow> merged (mm_tree m')) \<and>
        length (mm_tree m') + held alc' = length (mm_tree m) + held alc)"

lemma merged_prefix:
  assumes "successively (frozen a f) (X @ suf)" "suf \<noteq> []"
    and "X \<noteq> [] \<longrightarrow> (\<forall>y \<in> set (X @ [hd suf]). mb_address y < a)"
  shows "merged (X @ [hd suf])"
proof (cases "X = []")
  case False
  have "successively (frozen a f) (X @ [hd suf])"
    using assms(1,2) by (auto simp: successively_append_iff)
  then show ?thesis
    unfolding merged_def
    by (rule successively_mono) (use assms(3) False in \<open>auto simp: frozen_def\<close>)
qed (simp add: merged_def)

context range_update
begin

lemma update_range_refines:
  assumes "manager_ok m" "range_ok m address n" "alloc_ok alc"
    and "blocks_needed m address n \<le> available alc" "can_step_back needs m address"
  shows "range_update_spec h m alc address n (update_range needs upd m alc address n)"
proof -
  have ok: "chain (mm_start_address m) (mm_tree m) (mm_end_address m)" "mm_end_address m < 2 ^ 64"
    "mm_start_address m < mm_end_address m"
    using assms(1) by (simp_all add: manager_ok_def)
  obtain pre rest k X suf alc' where s: "mm_tree m = pre @ rest"
    "rest \<noteq> []" "k < mb_num_pages (hd rest)"
    "chain (mm_start_address m) pre (mb_address (hd rest))"
    "chain (mb_address (hd rest)) rest (mm_end_address m)"
    "address = mb_address (hd rest) + k * PageSize"
    "page_index m address = length (pages pre) + k"
    "pre @ update_list needs upd k n rest = X @ suf" "suf \<noteq> []"
    "X \<noteq> [] \<longrightarrow> (\<forall>y \<in> set (X @ [hd suf]). mb_address y < address)"
    "chain (mm_start_address m) (X @ suf) (mm_end_address m)"
    "update_range needs upd m alc address n =
      Some (m \<lparr> mm_tree := X @ coalesce_list (address + n * PageSize) suf \<rparr>, alc')"
    "alloc_ok alc'"
    "length (X @ coalesce_list (address + n * PageSize) suf) + held alc' =
      length (mm_tree m) + held alc"
    using update_range_shape [OF assms] by metis
  let ?f = "address + n * PageSize"
  let ?res = "X @ coalesce_list ?f suf"
  obtain mid where mid: "chain (mm_start_address m) X mid" "chain mid suf (mm_end_address m)"
    using s(11) by (auto simp: chain_append)
  note c = coalesce_list_chain [OF mid(2) ok(2), of ?f]
  have chain: "chain (mm_start_address m) ?res (mm_end_address m)"
    using mid(1) c by (auto simp: chain_append)
  have "pages ?res = pages (X @ suf)" using c by simp
  also have "\<dots> = map_range h (page_index m address) n (pages (mm_tree m))"
    using s(1,2,3,7) update_list_pages [OF s(5) ok(2)]
    unfolding s(8) [symmetric] by (simp add: map_range_append)
  finally have pages: "pages ?res = \<dots>" .
  have "merged ?res" if "merged (mm_tree m)"
  proof -
    have "pre \<noteq> [] \<longrightarrow> block_end (last pre) = mb_address (hd rest)"
      using s(4) by (cases pre rule: rev_cases) (auto simp: chain_append block_end_def)
    then have fz: "successively (frozen address ?f) (X @ suf)"
      using update_list_frozen [OF s(5) ok(2), of k address ?f n pre] s(1,3,6)
        merged_frozen [OF that] unfolding s(8) [symmetric] by (simp add: add_mult_distrib)
    then have "successively (\<lambda>x y. ?f < block_end x \<longrightarrow> \<not> KMemoryBlock_CanMergeWith x y) suf"
      by (auto simp: successively_append_iff frozen_def elim!: successively_mono)
    from coalesce_list_merged [OF mid(2) ok(2) this] merged_prefix [OF fz s(9,10)] s(9)
    show ?thesis by (auto simp: merged_def successively_append_iff)
  qed
  then show ?thesis
    unfolding range_update_spec_def s(12)
    using chain ok pages s(13,14) by (auto simp: manager_ok_def)
qed

lemma update_range_blocks:
  assumes "manager_ok m" "range_ok m address n" "alloc_ok alc"
    and "blocks_needed m address n \<le> available alc" "can_step_back needs m address"
    and "\<forall>b. P b \<longrightarrow> Q (upd b)" "\<forall>b. P b \<longrightarrow> Q b"
    and "\<forall>b addr. P b \<longrightarrow> P (fst (KMemoryBlock_Split b addr)) \<and> P (snd (KMemoryBlock_Split b addr))"
    and "\<forall>b c. Q b \<longrightarrow> Q c \<longrightarrow> KMemoryBlock_CanMergeWith b c \<longrightarrow> Q (KMemoryBlock_Add b c)"
    and "\<forall>b \<in> set (mm_tree m). P b"
    and "update_range needs upd m alc address n = Some (m', alc')"
  shows "\<forall>b \<in> set (mm_tree m'). Q b"
proof -
  obtain pre rest k X suf where s: "mm_tree m = pre @ rest"
    "pre @ update_list needs upd k n rest = X @ suf"
    "mm_tree m' = X @ coalesce_list (address + n * PageSize) suf"
    using update_range_shape [OF assms(1-5)] assms(11) by fastforce
  have "\<forall>b \<in> set (pre @ update_list needs upd k n rest). Q b"
    using assms(7,10) update_list_blocks [OF assms(6-8), of rest k n] s(1) by auto
  then have "\<forall>b \<in> set X. Q b" "\<forall>b \<in> set suf. Q b" unfolding s(2) by auto
  with coalesce_list_blocks [OF assms(9)] show ?thesis unfolding s(3) by auto
qed

end

section \<open>The operations on pages\<close>

fun has_props :: "u32 \<Rightarrow> u8 \<Rightarrow> u8 \<Rightarrow> page_props \<Rightarrow> bool" where
  "has_props s p a (st, pm, orig, attr, locks, users) \<longleftrightarrow>
     st = s \<and> pm = p \<and> attr OR AttributeIgnoreMask = a OR AttributeIgnoreMask"

fun reprotect_page :: "u32 \<Rightarrow> u8 \<Rightarrow> u8 \<Rightarrow> page_props \<Rightarrow> page_props" where
  "reprotect_page s p a (st, pm, orig, attr, locks, users) =
     (s, p, orig, a OR (attr AND AttributeIgnoreMask), locks, users)"

fun set_page_attribute :: "u8 \<Rightarrow> u8 \<Rightarrow> page_props \<Rightarrow> page_props" where
  "set_page_attribute attr_mask new (st, pm, orig, attr, locks, users) =
     (st, pm, orig, (attr AND NOT attr_mask) OR new, locks, users)"

fun ipc_lock_page :: "u8 \<Rightarrow> page_props \<Rightarrow> page_props" where
  "ipc_lock_page p (st, pm, orig, attr, locks, users) =
     (if locks + 1 = 1 then
        (st, (p AND KMemoryPermission_IpcLockChangeMask) OR
             (pm AND NOT KMemoryPermission_IpcLockChangeMask), pm,
         attr OR KMemoryAttribute_IpcLocked, locks + 1, users)
      else (st, pm, orig, attr OR KMemoryAttribute_IpcLocked, locks + 1, users))"

fun ipc_unlock_page :: "page_props \<Rightarrow> page_props" where
  "ipc_unlock_page (st, pm, orig, attr, locks, users) =
     (if locks = 1 then
        (st, orig, KMemoryPermission_None, attr AND NOT KMemoryAttribute_IpcLocked, locks - 1, users)
      else (st, pm, orig, attr, locks - 1, users))"

fun device_share_page :: "page_props \<Rightarrow> page_props" where
  "device_share_page (st, pm, orig, attr, locks, users) =
     (st, pm, orig, attr OR KMemoryAttribute_DeviceShared, locks, users + 1)"

fun device_unshare_page :: "page_props \<Rightarrow> page_props" where
  "device_unshare_page (st, pm, orig, attr, locks, users) =
     (st, pm, orig,
      (if users = 1 then attr AND NOT KMemoryAttribute_DeviceShared else attr), locks, users - 1)"

lemma has_props_view: "KMemoryBlock_HasProperties b s p a \<longleftrightarrow> has_props s p a (page_view b)"
  by (simp add: KMemoryBlock_HasProperties_def page_view_def)

lemma Update_view:
  "page_view (KMemoryBlock_Update b s p a f sm cm) = reprotect_page s p a (page_view b)"
  by (simp add: KMemoryBlock_Update_def page_view_def Let_def AttributeIgnoreMask_def)

lemma Update_geometry:
  "mb_address (KMemoryBlock_Update b s p a f sm cm) = mb_address b"
  "mb_num_pages (KMemoryBlock_Update b s p a f sm cm) = mb_num_pages b"
  by (simp_all add: KMemoryBlock_Update_def Let_def)

text \<open>A page that already has the properties is not changed by reprotecting it.\<close>

lemma reprotect_same:
  assumes "has_props s p a v" "lock_free_attr a"
  shows "reprotect_page s p a v = v"
proof -
  obtain st pm orig attr locks users where v: "v = (st, pm, orig, attr, locks, users)"
    by (cases v)
  have eq: "attr OR AttributeIgnoreMask = a OR AttributeIgnoreMask"
    using assms(1) v by simp
  have "a OR (attr AND AttributeIgnoreMask) = attr"
  proof (rule bit_word_eqI)
    fix i
    have "bit a i \<Longrightarrow> \<not> bit AttributeIgnoreMask i"
      using assms(2) disjoint_mask_bit unfolding lock_free_attr_def AttributeIgnoreMask_def by blast
    moreover have "bit (attr OR AttributeIgnoreMask) i = bit (a OR AttributeIgnoreMask) i"
      using eq by simp
    ultimately show "bit (a OR (attr AND AttributeIgnoreMask)) i = bit attr i"
      by (auto simp: bit_or_iff bit_and_iff)
  qed
  then show ?thesis using assms(1) v by simp
qed

interpretation reprotect: range_update
  "\<lambda>b. \<not> KMemoryBlock_HasProperties b s p a"
  "\<lambda>b. KMemoryBlock_Update b s p a (mb_address b = address) sm cm"
  "\<lambda>v. \<not> has_props s p a v" "reprotect_page s p a"
  for s :: u32 and p a sm cm :: u8 and address :: nat
  by unfold_locales (simp_all add: has_props_view Update_view Update_geometry)

interpretation reprotect_match: range_update
  "\<lambda>b. KMemoryBlock_HasProperties b ts tp ta \<and> \<not> KMemoryBlock_HasProperties b s p a"
  "\<lambda>b. KMemoryBlock_Update b s p a False sm cm"
  "\<lambda>v. has_props ts tp ta v \<and> \<not> has_props s p a v" "reprotect_page s p a"
  for ts s :: u32 and tp ta p a sm cm :: u8
  by unfold_locales (simp_all add: has_props_view Update_view Update_geometry)

fun page_attribute :: "page_props \<Rightarrow> u8" where
  "page_attribute (st, pm, orig, attr, locks, users) = attr"

interpretation reattribute: range_update
  "\<lambda>b. mb_attribute b AND attr_mask \<noteq> attr"
  "\<lambda>b. KMemoryBlock_UpdateAttribute b attr_mask attr"
  "\<lambda>v. page_attribute v AND attr_mask \<noteq> attr" "set_page_attribute attr_mask attr"
  for attr_mask attr :: u8
  by unfold_locales (simp_all add: KMemoryBlock_UpdateAttribute_def page_view_def)

interpretation ipc_lock: range_update
  "\<lambda>b. True"
  "\<lambda>b. KMemoryBlock_LockForIpc p (L b) (R b) b"
  "\<lambda>v. True" "ipc_lock_page p"
  for p :: u8 and L R :: "KMemoryBlock \<Rightarrow> bool"
  by unfold_locales (simp_all add: KMemoryBlock_LockForIpc_def page_view_def Let_def)

interpretation ipc_unlock: range_update
  "\<lambda>b. True"
  "\<lambda>b. KMemoryBlock_UnlockForIpc p (L b) (R b) b"
  "\<lambda>v. True" ipc_unlock_page
  for p :: u8 and L R :: "KMemoryBlock \<Rightarrow> bool"
  by unfold_locales (simp_all add: KMemoryBlock_UnlockForIpc_def page_view_def Let_def)

lemma share_attribute:
  "mb_attribute (KMemoryBlock_ShareToDevice p left right b) =
     mb_attribute b OR KMemoryAttribute_DeviceShared"
  by (simp add: share_defs)

lemma unshare_attribute:
  "mb_attribute (KMemoryBlock_UnshareToDevice p left right b) =
     (if mb_device_use_count b = 1 then mb_attribute b AND NOT KMemoryAttribute_DeviceShared
      else mb_attribute b)"
  by (simp add: KMemoryBlock_UnshareToDevice_def UpdateDeviceDisableMergeStateForUnshare_def
      unshare_left_fields unshare_right_fields drop_device_use_def Let_def)

interpretation device_share: range_update
  "\<lambda>b. True"
  "\<lambda>b. KMemoryBlock_ShareToDevice p (L b) (R b) b"
  "\<lambda>v. True" device_share_page
  for p :: u8 and L R :: "KMemoryBlock \<Rightarrow> bool"
  by unfold_locales (simp_all add: page_view_def share_device_fields share_other_fields share_attribute)

interpretation device_unshare: range_update
  "\<lambda>b. True"
  "\<lambda>b. KMemoryBlock_UnshareToDevice p (L b) (R b) b"
  "\<lambda>v. True" device_unshare_page
  for p :: u8 and L R :: "KMemoryBlock \<Rightarrow> bool"
  by unfold_locales
    (simp_all add: page_view_def unshare_device_fields unshare_other_fields unshare_attribute)

section \<open>Properties of the updates\<close>

text \<open>An address space of 16 free pages, and an allocator with both blocks.\<close>

definition demo_manager :: KMemoryBlockManager where
  "demo_manager =
     \<lparr> mm_tree = [KMemoryBlock_construct 0x10000 16 KMemoryState_Free 0 0],
       mm_start_address = 0x10000, mm_end_address = 0x20000 \<rparr>"

definition demo_allocator :: UpdateAllocator where
  "demo_allocator = \<lparr> ua_blocks = [True, True], ua_index = 0, ua_slab = 5 \<rparr>"

lemma construct_fields [simp]:
  "mb_num_pages (KMemoryBlock_construct addr np ms p a) = np"
  "mb_memory_state (KMemoryBlock_construct addr np ms p a) = ms"
  "mb_permission (KMemoryBlock_construct addr np ms p a) = p"
  "mb_attribute (KMemoryBlock_construct addr np ms p a) = a"
  by (simp_all add: KMemoryBlock_construct_def)

lemma demo_manager_ok: "manager_ok demo_manager" "alloc_ok demo_allocator" "merged (mm_tree demo_manager)"
  by (simp_all add: manager_ok_def demo_manager_def PageSize_def alloc_ok_iff demo_allocator_def
      merged_def)

lemma demo_range:
  "range_ok demo_manager 0x14000 4" "blocks_needed demo_manager 0x14000 4 \<le> available demo_allocator"
  "page_index demo_manager 0x14000 = 4"
proof -
  show "range_ok demo_manager 0x14000 4" "page_index demo_manager 0x14000 = 4"
    by (simp_all add: range_ok_def demo_manager_def PageSize_def page_index_def)
  have "available demo_allocator = MaxBlocks"
    by (simp add: available_def demo_allocator_def)
  then show "blocks_needed demo_manager 0x14000 4 \<le> available demo_allocator"
    using blocks_needed_le by simp
qed

text \<open>
  C14. \<^verbatim>\<open>Update\<close> implements its abstract specification: on a well-formed manager and with blocks for
  the ends of the range that cut a block, it returns, keeps the tiling of the address space, gives
  exactly the pages of the range the new state, permission and attributes (their lock attributes,
  lock counts and saved permissions are kept), leaves a coalesced tree coalesced, and every memory
  block is in the tree, in the allocator or in the slab. There is one exception, in which it has no defined
  result: when the range starts inside the first block of the tree, not at its start, and that block has the
  requested properties already, the block is not split and \<^verbatim>\<open>CoalesceForUpdate\<close> steps back from the first block.
\<close>
theorem update_reprotects_range:
  assumes "manager_ok m" "range_ok m address n" "alloc_ok alc"
    and "blocks_needed m address n \<le> available alc" "lock_free_attr a"
  shows "if address = mm_start_address m \<or> block_end (hd (mm_tree m)) \<le> address \<or>
        \<not> KMemoryBlock_HasProperties (hd (mm_tree m)) s p a
    then range_update_spec (reprotect_page s p a) m alc address n
      (KMemoryBlockManager_Update m alc address n s p a set_disable clear_disable)
    else KMemoryBlockManager_Update m alc address n s p a set_disable clear_disable = None"
proof -
  have "reprotect.h s p a = reprotect_page s p a"
    using reprotect_same [OF _ assms(5)] by (auto simp: reprotect.h_def)
  then show ?thesis
    using reprotect.update_range_refines [OF assms(1-4), of s p a address set_disable clear_disable]
      reprotect.update_range_underrun [OF assms(1-4), of s p a address set_disable clear_disable]
    unfolding KMemoryBlockManager_Update_def can_step_back_def by simp
qed

theorem update_reprotects_range_witness:
  "range_update_spec
     (reprotect_page KMemoryState_Normal KMemoryPermission_UserReadWrite KMemoryAttribute_None)
     demo_manager demo_allocator 0x14000 4
     (KMemoryBlockManager_Update demo_manager demo_allocator 0x14000 4 KMemoryState_Normal
        KMemoryPermission_UserReadWrite KMemoryAttribute_None DisableMerge_Normal DisableMerge_None) \<and>
   KMemoryBlockManager_Update demo_manager demo_allocator 0x14000 4 KMemoryState_Free 0 0 0 0 = None"
proof -
  note u = update_reprotects_range [OF demo_manager_ok(1) demo_range(1) demo_manager_ok(2) demo_range(2)]
  have free: "lock_free_attr KMemoryAttribute_None" "lock_free_attr 0" by (simp_all add: lock_free_attr_def)
  show ?thesis
    using u [OF free(1), of KMemoryState_Normal KMemoryPermission_UserReadWrite DisableMerge_Normal DisableMerge_None]
      u [OF free(2), of KMemoryState_Free 0 0 0]
    by (simp add: demo_manager_def KMemoryBlock_HasProperties_def KMemoryState_values block_end_def PageSize_def)
qed

text \<open>
  \<^verbatim>\<open>UpdateIfMatch\<close> reprotects exactly the pages of the range that match the test properties.
\<close>
theorem update_if_match_reprotects_matches:
  assumes "manager_ok m" "range_ok m address n" "alloc_ok alc"
    and "blocks_needed m address n \<le> available alc"
    and "can_step_back (\<lambda>b. KMemoryBlock_HasProperties b ts tp ta \<and>
           \<not> KMemoryBlock_HasProperties b s p a) m address"
    and "lock_free_attr a"
  shows "range_update_spec
    (\<lambda>v. if has_props ts tp ta v then reprotect_page s p a v else v) m alc address n
    (KMemoryBlockManager_UpdateIfMatch m alc address n ts tp ta s p a set_disable clear_disable)"
proof -
  have "reprotect_match.h ts tp ta s p a =
      (\<lambda>v. if has_props ts tp ta v then reprotect_page s p a v else v)"
    using reprotect_same [OF _ assms(6)] by (auto simp: reprotect_match.h_def)
  then show ?thesis
    using reprotect_match.update_range_refines [OF assms(1-5), of set_disable clear_disable]
    unfolding KMemoryBlockManager_UpdateIfMatch_def by simp
qed

theorem update_if_match_reprotects_matches_witness:
  "range_update_spec
     (\<lambda>v. if has_props KMemoryState_Free 0 0 v
          then reprotect_page KMemoryState_Kernel KMemoryPermission_KernelReadWrite 0 v else v)
     demo_manager demo_allocator 0x14000 4
     (KMemoryBlockManager_UpdateIfMatch demo_manager demo_allocator 0x14000 4 KMemoryState_Free 0 0
        KMemoryState_Kernel KMemoryPermission_KernelReadWrite 0 0 0)"
  by (rule update_if_match_reprotects_matches
      [OF demo_manager_ok(1) demo_range(1) demo_manager_ok(2) demo_range(2)])
    (simp_all add: can_step_back_def demo_manager_def KMemoryBlock_HasProperties_def
      KMemoryState_values lock_free_attr_def)

text \<open>
  \<^verbatim>\<open>UpdateAttribute\<close> with an attribute inside its mask sets the masked attribute bits of exactly
  the pages of the range.
\<close>
theorem update_attribute_sets_range:
  assumes "manager_ok m" "range_ok m address n" "alloc_ok alc"
    and "blocks_needed m address n \<le> available alc"
    and "can_step_back (\<lambda>b. mb_attribute b AND attr_mask \<noteq> attr) m address"
    and "attr AND attr_mask = attr"
  shows "range_update_spec (set_page_attribute attr_mask attr) m alc address n
    (KMemoryBlockManager_UpdateAttribute m alc address n attr_mask attr)"
proof -
  have same: "(w AND NOT attr_mask) OR attr = w" if "w AND attr_mask = attr" for w :: u8
    using that by (metis bit.conj_disj_distrib bit.disj_cancel_left word_and_max or.commute)
  have "reattribute.h attr_mask attr v = set_page_attribute attr_mask attr v" for v
    using same by (cases v) (simp add: reattribute.h_def)
  then have "reattribute.h attr_mask attr = set_page_attribute attr_mask attr" by blast
  then show ?thesis
    using reattribute.update_range_refines [OF assms(1-5)]
    unfolding KMemoryBlockManager_UpdateAttribute_def by simp
qed

theorem update_attribute_sets_range_witness:
  "range_update_spec (set_page_attribute 8 8) demo_manager demo_allocator 0x14000 4
     (KMemoryBlockManager_UpdateAttribute demo_manager demo_allocator 0x14000 4 8 8)"
  by (rule update_attribute_sets_range
      [OF demo_manager_ok(1) demo_range(1) demo_manager_ok(2) demo_range(2)])
    (simp_all add: can_step_back_def demo_manager_def)

lemma map_range_inverse:
  assumes "\<forall>v \<in> set xs. g (f v) = v" "k + n \<le> length xs"
  shows "map_range g k n (map_range f k n xs) = xs"
proof (rule nth_equalityI)
  show len: "length (map_range g k n (map_range f k n xs)) = length xs"
    using assms(2) by simp
  fix i assume "i < length (map_range g k n (map_range f k n xs))"
  then have "i < length xs" using len by simp
  then show "map_range g k n (map_range f k n xs) ! i = xs ! i"
    using assms by (simp add: nth_map_range)
qed

lemma pages_view: "v \<in> set (pages bs) \<Longrightarrow> \<exists>b \<in> set bs. v = page_view b"
  by (induction bs) (auto split: if_splits)

lemma range_in_pages:
  assumes "manager_ok m" "range_ok m address n"
  shows "page_index m address + n \<le> length (pages (mm_tree m))"
  using locate_range [OF assms] by fastforce

lemma unlock_lock_page:
  assumes "counts_ok b" "mb_ipc_lock_count b \<noteq> -1"
  shows "ipc_unlock_page (ipc_lock_page p (page_view b)) = page_view b"
proof -
  have "mb_ipc_lock_count b + 1 \<noteq> 0" using assms(2) by (simp add: eq_neg_iff_add_eq_0)
  then show ?thesis
    using assms(1)
    by (cases "mb_ipc_lock_count b = 0")
      (simp_all add: page_view_def counts_ok_def flag_absorbs flag_set_clear)
qed

lemma UpdateLock_lock:
  assumes "manager_ok m" "range_ok m address n" "alloc_ok alc"
    and "blocks_needed m address n \<le> available alc"
  shows "range_update_spec (ipc_lock_page p) m alc address n
      (KMemoryBlockManager_UpdateLock m alc address n KMemoryBlock_LockForIpc p)"
    and "range_update_spec ipc_unlock_page m alc address n
      (KMemoryBlockManager_UpdateLock m alc address n KMemoryBlock_UnlockForIpc p)"
proof -
  have step: "can_step_back (\<lambda>b. True) m address" by (simp add: can_step_back_def)
  have h: "ipc_lock.h p = ipc_lock_page p" "ipc_unlock.h = ipc_unlock_page"
    by (auto simp: ipc_lock.h_def ipc_unlock.h_def)
  show "range_update_spec (ipc_lock_page p) m alc address n
      (KMemoryBlockManager_UpdateLock m alc address n KMemoryBlock_LockForIpc p)"
    using ipc_lock.update_range_refines [OF assms step, of p "\<lambda>b. mb_address b = address"
        "\<lambda>b. KMemoryBlock_GetEndAddress b = u64_add address (u64_mul n PageSize)"] h
    by (simp add: KMemoryBlockManager_UpdateLock_def Let_def)
  show "range_update_spec ipc_unlock_page m alc address n
      (KMemoryBlockManager_UpdateLock m alc address n KMemoryBlock_UnlockForIpc p)"
    using ipc_unlock.update_range_refines [OF assms step, of p "\<lambda>b. mb_address b = address"
        "\<lambda>b. KMemoryBlock_GetEndAddress b = u64_add address (u64_mul n PageSize)"] h
    by (simp add: KMemoryBlockManager_UpdateLock_def Let_def)
qed

lemma range_ok_cong:
  assumes "mm_start_address m' = mm_start_address m" "mm_end_address m' = mm_end_address m"
  shows "range_ok m' = range_ok m" "page_index m' = page_index m"
  using assms by (simp_all add: range_ok_def page_index_def fun_eq_iff)

text \<open>
  C17. Locking a range for IPC and unlocking it again with \<^verbatim>\<open>UpdateLock\<close> gives every page of the
  address space the state, permissions, attributes and counts it had, however the blocks were
  split and merged in between.
\<close>
theorem lock_unlock_range:
  assumes "manager_ok m" "range_ok m address n" "alloc_ok alc"
    and "blocks_needed m address n \<le> available alc"
    and "\<forall>b \<in> set (mm_tree m). counts_ok b \<and> mb_ipc_lock_count b \<noteq> -1"
  shows "\<exists>m1 alc1.
    KMemoryBlockManager_UpdateLock m alc address n KMemoryBlock_LockForIpc p = Some (m1, alc1) \<and>
    pages (mm_tree m1) = map_range (ipc_lock_page p) (page_index m address) n (pages (mm_tree m)) \<and>
    (\<forall>alc2. alloc_ok alc2 \<longrightarrow> available alc2 = MaxBlocks \<longrightarrow>
       (\<exists>m2 alc3.
          KMemoryBlockManager_UpdateLock m1 alc2 address n KMemoryBlock_UnlockForIpc q
            = Some (m2, alc3) \<and>
          manager_ok m2 \<and> pages (mm_tree m2) = pages (mm_tree m)))"
proof -
  obtain m1 alc1 where m1: "manager_ok m1" "mm_start_address m1 = mm_start_address m"
    "mm_end_address m1 = mm_end_address m"
    "KMemoryBlockManager_UpdateLock m alc address n KMemoryBlock_LockForIpc p = Some (m1, alc1)"
    "pages (mm_tree m1) = map_range (ipc_lock_page p) (page_index m address) n (pages (mm_tree m))"
    using UpdateLock_lock(1) [OF assms(1-4), of p] by (auto simp: range_update_spec_def)
  have r: "range_ok m1 address n" "page_index m1 address = page_index m address"
    using assms(2) range_ok_cong [OF m1(2,3)] by simp_all
  have inv: "map_range ipc_unlock_page (page_index m address) n
      (map_range (ipc_lock_page p) (page_index m address) n (pages (mm_tree m))) = pages (mm_tree m)"
    using assms(5) pages_view unlock_lock_page
    by (intro map_range_inverse range_in_pages assms) blast
  have "\<exists>m2 alc3. KMemoryBlockManager_UpdateLock m1 alc2 address n KMemoryBlock_UnlockForIpc q
            = Some (m2, alc3) \<and> manager_ok m2 \<and> pages (mm_tree m2) = pages (mm_tree m)"
    if "alloc_ok alc2" "available alc2 = MaxBlocks" for alc2
    using UpdateLock_lock(2) [OF m1(1) r(1) that(1), of q] that(2)
      blocks_needed_le [of m1 address n] inv m1(5) r(2)
    by (auto simp: range_update_spec_def)
  then show ?thesis using m1(4,5) by blast
qed

theorem lock_unlock_range_witness:
  "\<exists>m1 alc1 m2 alc3.
     KMemoryBlockManager_UpdateLock demo_manager demo_allocator 0x14000 4 KMemoryBlock_LockForIpc
       KMemoryPermission_UserRead = Some (m1, alc1) \<and>
     KMemoryBlockManager_UpdateLock m1 demo_allocator 0x14000 4 KMemoryBlock_UnlockForIpc
       KMemoryPermission_None = Some (m2, alc3) \<and>
     pages (mm_tree m2) = pages (mm_tree demo_manager)"
proof -
  have "\<forall>b \<in> set (mm_tree demo_manager). counts_ok b \<and> mb_ipc_lock_count b \<noteq> -1"
    using counts_ok_construct by (simp add: demo_manager_def) (simp add: KMemoryBlock_construct_def)
  moreover have "available demo_allocator = MaxBlocks"
    by (simp add: available_def demo_allocator_def)
  ultimately show ?thesis
    using lock_unlock_range [OF demo_manager_ok(1) demo_range(1) demo_manager_ok(2) demo_range(2),
        of KMemoryPermission_UserRead KMemoryPermission_None] demo_manager_ok(2) by blast
qed

lemma check_loop_holds:
  assumes "chain a (b # bs) e" "e < 2 ^ 64" "merged (b # bs)" "\<forall>c \<in> set (b # bs). counts_ok c"
  shows "check_loop b bs"
  using assms
proof (induction bs arbitrary: a b)
  case Nil
  then show ?case by (simp add: check_counts_def counts_ok_def)
next
  case (Cons c bs)
  have "KMemoryBlock_GetEndAddress b = mb_address c"
    using chain_GetEnd [OF Cons.prems(1,2)] Cons.prems(1) by (simp add: block_end_def)
  then show ?case
    using Cons.prems Cons.IH [of "a + mb_num_pages b * PageSize" c]
    by (simp add: merged_def check_counts_def counts_ok_def)
qed

text \<open>
  The audit of the tree, \<^verbatim>\<open>CheckState\<close>, succeeds after every \<^verbatim>\<open>Update\<close> of a coalesced tree
  whose lock counters agree with its flags, and the update keeps both.
\<close>
theorem update_keeps_check_state:
  assumes "manager_ok m" "range_ok m address n" "alloc_ok alc"
    and "blocks_needed m address n \<le> available alc"
    and "can_step_back (\<lambda>b. \<not> KMemoryBlock_HasProperties b s p a) m address"
    and "lock_free_attr a" "lock_free_masks set_disable clear_disable"
    and "merged (mm_tree m)" "\<forall>b \<in> set (mm_tree m). counts_ok b"
  shows "\<exists>m' alc'. KMemoryBlockManager_Update m alc address n s p a set_disable clear_disable
      = Some (m', alc') \<and> CheckState m' = Some True \<and>
    merged (mm_tree m') \<and> (\<forall>b \<in> set (mm_tree m'). counts_ok b)"
proof -
  obtain m' alc' where m': "KMemoryBlockManager_Update m alc address n s p a set_disable clear_disable
      = Some (m', alc')" "manager_ok m'" "merged (mm_tree m')"
    using reprotect.update_range_refines [OF assms(1-5), of address set_disable clear_disable] assms(8)
    unfolding range_update_spec_def KMemoryBlockManager_Update_def by blast
  have split: "\<forall>b addr. counts_ok b \<longrightarrow> counts_ok (fst (KMemoryBlock_Split b addr)) \<and>
      counts_ok (snd (KMemoryBlock_Split b addr))"
    using counts_ok_Split by (metis prod.collapse)
  have c: "\<forall>b \<in> set (mm_tree m'). counts_ok b"
    by (rule reprotect.update_range_blocks [OF assms(1-5) _ _ split _ assms(9)
          m'(1) [unfolded KMemoryBlockManager_Update_def]])
      (use counts_ok_Update [OF _ assms(6,7)] counts_ok_Add in auto)
  obtain b bs where "mm_tree m' = b # bs"
    using m'(2) by (cases "mm_tree m'") (auto simp: manager_ok_def)
  then have "CheckState m' = Some True"
    using check_loop_holds m'(2,3) c by (auto simp: manager_ok_def)
  then show ?thesis using m'(1,3) c by blast
qed

theorem update_keeps_check_state_witness:
  "\<exists>m' alc'. KMemoryBlockManager_Update demo_manager demo_allocator 0x14000 4 KMemoryState_Normal
       KMemoryPermission_UserReadWrite KMemoryAttribute_None DisableMerge_Normal DisableMerge_None
     = Some (m', alc') \<and> CheckState m' = Some True"
proof -
  have "\<forall>b \<in> set (mm_tree demo_manager). counts_ok b"
    using counts_ok_construct by (simp add: demo_manager_def)
  moreover have "can_step_back (\<lambda>b. \<not> KMemoryBlock_HasProperties b KMemoryState_Normal
      KMemoryPermission_UserReadWrite KMemoryAttribute_None) demo_manager 0x14000"
    by (simp add: can_step_back_def demo_manager_def KMemoryBlock_HasProperties_def KMemoryState_values)
  moreover have "lock_free_attr KMemoryAttribute_None"
    "lock_free_masks DisableMerge_Normal DisableMerge_None"
    by (simp_all add: lock_free_attr_def lock_free_masks_def DisableMerge_defs)
  ultimately show ?thesis
    using update_keeps_check_state [OF demo_manager_ok(1) demo_range(1) demo_manager_ok(2)
        demo_range(2) _ _ _ demo_manager_ok(3)] by blast
qed

section \<open>Properties of the search\<close>

text \<open>
  An address that \<^verbatim>\<open>FindFreeArea\<close> may return: it has the wanted alignment and offset, and the
  pages with the guard pages on both sides lie in the region and in one free block.
\<close>

definition suits :: "nat \<Rightarrow> nat \<Rightarrow> nat \<Rightarrow> nat \<Rightarrow> nat \<Rightarrow> nat \<Rightarrow> KMemoryBlock \<Rightarrow> nat \<Rightarrow> bool" where
  "suits region_start region_end num_pages alignment offset guard b x \<longleftrightarrow>
     mb_memory_state b = KMemoryState_Free \<and> x mod alignment = offset \<and>
     max region_start (mb_address b) + guard * PageSize \<le> x \<and>
     x + (num_pages + guard) * PageSize \<le> min region_end (block_end b)"

definition area_suits ::
    "KMemoryBlockManager \<Rightarrow> nat \<Rightarrow> nat \<Rightarrow> nat \<Rightarrow> nat \<Rightarrow> nat \<Rightarrow> nat \<Rightarrow> nat \<Rightarrow> bool" where
  "area_suits m region_start region_num_pages num_pages alignment offset guard x \<longleftrightarrow>
     (\<exists>b \<in> set (mm_tree m).
        suits region_start (region_start + region_num_pages * PageSize) num_pages alignment offset
          guard b x)"

lemma least_aligned:
  fixes al off lo y :: nat
  assumes "0 < al" "off < al"
  defines "c \<equiv> (if lo \<le> lo div al * al + off then lo div al * al + off
                else lo div al * al + off + al)"
  shows "lo \<le> c" "c mod al = off" "c \<le> lo + al" "lo \<le> y \<Longrightarrow> y mod al = off \<Longrightarrow> c \<le> y"
proof -
  let ?q = "lo div al"
  have lo: "?q * al \<le> lo" "lo < ?q * al + al"
    using dividend_less_div_times [OF assms(1), of lo] by (simp_all add: add.commute)
  define d where "d = ?q * al"
  show "lo \<le> c" "c \<le> lo + al"
    using lo assms(2) unfolding c_def d_def [symmetric] by auto
  show "c mod al = off" using assms(2) by (simp add: c_def)
  assume y: "lo \<le> y" "y mod al = off"
  define r where "r = y div al"
  have yr: "y = r * al + off" using y(2) by (metis r_def div_mult_mod_eq)
  have "?q \<le> r" using y(1) by (simp add: r_def div_le_mono)
  show "c \<le> y"
  proof (cases "r = ?q")
    case True
    then show ?thesis using y(1) yr by (simp add: c_def)
  next
    case False
    then have "Suc ?q * al \<le> r * al" using \<open>?q \<le> r\<close> by (intro mult_le_mono1) simp
    then show ?thesis using yr \<open>?q \<le> r\<close> by (auto simp: c_def)
  qed
qed

lemma candidate_exact:
  assumes "0 < al" "lo + guard * PageSize + 2 * al + off < 2 ^ 64"
    and "lo = max rs (mi_address info)"
  defines "a1 \<equiv> lo + guard * PageSize"
  shows "free_area_candidate info rs al off guard =
    (if a1 \<le> a1 div al * al + off then a1 div al * al + off else a1 div al * al + off + al)"
proof -
  have lo: "(if mi_address info \<le> rs then rs else mi_address info) = lo"
    using assms(3) by auto
  have b: "a1 + 2 * al + off < 2 ^ 64" "guard * PageSize < 2 ^ 64"
    using assms(2) by (auto simp: a1_def)
  have q: "a1 div al * al \<le> a1" by simp
  have a1: "u64_add lo (u64_mul guard PageSize) = a1"
    using b by (simp add: a1_def)
  have d: "AlignDown a1 al = a1 div al * al" using b(1) by (intro AlignDown_exact) simp
  have "u64_add (a1 div al * al) off = a1 div al * al + off"
    "u64_add (a1 div al * al + off) al = a1 div al * al + off + al"
    using b(1) q by (intro u64_add_exact; linarith)+
  then show ?thesis
    unfolding free_area_candidate_def Let_def lo a1 d by simp
qed

text \<open>One block of the scan: it yields the least suitable address of the block, if there is one.\<close>

lemma scan_block:
  assumes fits: "block_fits b" and "0 < al" "off < al" "0 < n" "rs < re"
    and big: "max rs (mb_address b) + (n + 2 * guard) * PageSize + 3 * al < 2 ^ 64" "re < 2 ^ 64"
    and "rs < block_end b"
  defines "info \<equiv> KMemoryBlock_GetMemoryInfo b"
  defines "c \<equiv> free_area_candidate info rs al off guard"
  defines "final \<equiv> u64_sub (u64_add (u64_add c (u64_mul n PageSize)) (u64_mul guard PageSize)) 1"
  shows "mb_memory_state b = KMemoryState_Free \<Longrightarrow>
      (mi_address info \<le> c \<and> c < final \<and> final \<le> re - 1 \<and> final \<le> KMemoryInfo_GetLastAddress info)
      \<longleftrightarrow> suits rs re n al off guard b c"
    and "suits rs re n al off guard b x \<Longrightarrow> c \<le> x \<and> suits rs re n al off guard b c"
proof -
  define lo where "lo = max rs (mb_address b)"
  define a1 where "a1 = lo + guard * PageSize"
  have sums: "lo + guard * PageSize + n * PageSize + guard * PageSize + 3 * al < 2 ^ 64"
    using big(1) by (simp add: lo_def add_mult_distrib algebra_simps)
  have c: "c = (if a1 \<le> a1 div al * al + off then a1 div al * al + off else a1 div al * al + off + al)"
  proof -
    have "lo + guard * PageSize + 2 * al + off < 2 ^ 64" using assms(3) sums by linarith
    then show ?thesis
      unfolding c_def a1_def using assms(2)
      by (intro candidate_exact) (simp_all add: info_def lo_def)
  qed
  note la = least_aligned [OF assms(2,3), of a1, folded c]
  have pos: "PageSize \<le> n * PageSize" using assms(4) by simp
  have up: "c + n * PageSize + guard * PageSize < 2 ^ 64"
    using la(3) sums unfolding a1_def by linarith
  have final: "final = c + n * PageSize + guard * PageSize - 1"
    using up pos unfolding final_def by (simp add: PageSize_def)
  have geo: "KMemoryInfo_GetLastAddress info = block_end b - 1" "mi_address info = mb_address b"
    "mb_address b < block_end b"
    using fits by (simp_all add: info_def block_fits_geometry block_end_def block_fits_def)
  have "mb_address b \<le> lo" "rs \<le> lo" "lo = rs \<or> lo = mb_address b" by (auto simp: lo_def)
  then have ge: "mb_address b \<le> c" "max rs (mb_address b) + guard * PageSize \<le> c"
    using la(1) by (auto simp: a1_def lo_def)
  have lt: "c < final" using final pos by (simp add: PageSize_def)
  have le: "final \<le> re - 1 \<longleftrightarrow> c + n * PageSize + guard * PageSize \<le> re"
    "final \<le> block_end b - 1 \<longleftrightarrow> c + n * PageSize + guard * PageSize \<le> block_end b"
    using final pos assms(5) geo(3) by (auto simp: PageSize_def)
  show "mb_memory_state b = KMemoryState_Free \<Longrightarrow>
      (mi_address info \<le> c \<and> c < final \<and> final \<le> re - 1 \<and> final \<le> KMemoryInfo_GetLastAddress info)
      \<longleftrightarrow> suits rs re n al off guard b c"
    using ge lt la(2) by (simp add: suits_def geo le [simplified] add_mult_distrib add.assoc)
  assume x: "suits rs re n al off guard b x"
  then have "c \<le> x" using la(4) [of x] by (simp add: suits_def a1_def lo_def)
  then show "c \<le> x \<and> suits rs re n al off guard b c"
    using x ge la(2) by (auto simp: suits_def add_mult_distrib)
qed

definition least_suiting :: "(KMemoryBlock \<Rightarrow> nat \<Rightarrow> bool) \<Rightarrow> KMemoryBlock list \<Rightarrow> nat \<Rightarrow> bool" where
  "least_suiting S bs r \<longleftrightarrow>
     (if \<exists>b \<in> set bs. \<exists>x. S b x then (\<exists>b \<in> set bs. S b r) \<and> (\<forall>b \<in> set bs. \<forall>x. S b x \<longrightarrow> r \<le> x)
      else r = 0)"

lemma suits_bounds:
  assumes "suits rs re n al off guard b x" "0 < n"
  shows "mb_address b \<le> x" "x < re" "x < block_end b"
proof -
  have "PageSize \<le> (n + guard) * PageSize" using assms(2) by (cases n) auto
  then have "x < x + (n + guard) * PageSize" using PageSize_pos by linarith
  moreover have "x + (n + guard) * PageSize \<le> re" "x + (n + guard) * PageSize \<le> block_end b"
    "max rs (mb_address b) + guard * PageSize \<le> x"
    using assms(1) unfolding suits_def by simp_all
  ultimately show "mb_address b \<le> x" "x < re" "x < block_end b" by linarith+
qed

lemma chain_start_le: "chain a bs e \<Longrightarrow> c \<in> set bs \<Longrightarrow> a \<le> mb_address c"
proof (induction bs arbitrary: a)
  case (Cons d ds)
  show ?case
  proof (cases "c = d")
    case False
    then have "a + mb_num_pages d * PageSize \<le> mb_address c"
      using Cons.prems by (intro Cons.IH) auto
    then show ?thesis by simp
  qed (use Cons.prems in simp)
qed simp

lemma chain_starts_after:
  "chain a (b # bs) e \<Longrightarrow> c \<in> set bs \<Longrightarrow> block_end b \<le> mb_address c"
  using chain_start_le [of "block_end b" bs e c] by (simp add: block_end_def)

lemma scan_least:
  assumes "chain a bs e" "0 < al" "off < al" "0 < n" "rs < re" "re \<le> e"
    and "e + (n + 2 * guard) * PageSize + 3 * al < 2 ^ 64"
    and "\<forall>b \<in> set bs. rs < block_end b"
  shows "least_suiting (suits rs re n al off guard) bs
    (find_free_area bs rs (re - 1) n al off guard)"
  using assms(1,8)
proof (induction bs arbitrary: a)
  case Nil
  then show ?case by (simp add: least_suiting_def)
next
  case (Cons b bs)
  let ?S = "suits rs re n al off guard"
  have e: "e < 2 ^ 64" using assms(7) by simp
  have fits: "block_fits b" using chain_block_fits [OF Cons.prems(1) e] by simp
  have "mb_address b \<le> e" using chain_before [OF Cons.prems(1), of b] by simp
  then have big: "max rs (mb_address b) + (n + 2 * guard) * PageSize + 3 * al < 2 ^ 64" "re < 2 ^ 64"
    using assms(5-7) by auto
  have bb: "rs < block_end b" using Cons.prems(2) by simp
  note scan = scan_block [OF fits assms(2-5) big bb]
  have IH: "least_suiting ?S bs (find_free_area bs rs (re - 1) n al off guard)"
    using Cons.prems by (intro Cons.IH) auto
  have later: "block_end b \<le> x" if "c \<in> set bs" "?S c x" for c x
    using chain_starts_after [OF Cons.prems(1) that(1)] suits_bounds(1) [OF that(2) assms(4)] by simp
  have skip: "least_suiting ?S (b # bs) (find_free_area bs rs (re - 1) n al off guard)"
    if "\<forall>x. \<not> ?S b x" using IH that by (auto simp: least_suiting_def)
  let ?c = "free_area_candidate (KMemoryBlock_GetMemoryInfo b) rs al off guard"
  show ?case
  proof (cases "re - 1 < mb_address b")
    case True
    have "\<not> ?S c x" if "c \<in> set (b # bs)" for c x
    proof
      assume s: "?S c x"
      have "mb_address b \<le> mb_address c" using chain_start_le [OF Cons.prems(1) that] Cons.prems(1) by simp
      with True suits_bounds(1,2) [OF s assms(4)] show False by linarith
    qed
    then show ?thesis using True by (simp add: least_suiting_def Let_def)
  next
    case near: False
    show ?thesis
    proof (cases "mb_memory_state b = KMemoryState_Free")
      case False
      then have "\<forall>x. \<not> ?S b x" by (simp add: suits_def)
      from skip [OF this] False near show ?thesis by (simp add: Let_def)
    next
      case free: True
      show ?thesis
      proof (cases "?S b ?c")
        case True
        then have r: "find_free_area (b # bs) rs (re - 1) n al off guard = ?c"
          using free near scan(1) by (simp add: Let_def)
        have "?c \<le> x" if "c \<in> set (b # bs)" "?S c x" for c x
          using that scan(2) later suits_bounds(3) [OF True assms(4)] by fastforce
        then show ?thesis using True r unfolding least_suiting_def by (metis list.set_intros(1))
      next
        case False
        then have "find_free_area (b # bs) rs (re - 1) n al off guard =
            find_free_area bs rs (re - 1) n al off guard"
          using free near scan(1) by (auto simp: Let_def)
        then show ?thesis using skip scan(2) False by metis
      qed
    qed
  qed
qed

text \<open>
  C29. \<^verbatim>\<open>FindFreeArea\<close> is a complete first-fit search. For a manager in order, a region of at least one page inside
  its address space, at least one wanted page, an offset below the alignment, and sizes with which no sum
  leaves 64 bits: if the region has a free block with room for the pages and their guard pages at some
  address of the wanted alignment and offset, the result is the least such address; otherwise it is the null address.
\<close>
theorem find_free_area_least:
  assumes "manager_ok m" "mm_start_address m \<le> region_start" "0 < region_num_pages"
    and "region_start + region_num_pages * PageSize \<le> mm_end_address m"
    and "0 < num_pages" "offset < alignment"
    and "mm_end_address m + (num_pages + 2 * guard) * PageSize + 3 * alignment < 2 ^ 64"
  defines "ok \<equiv> area_suits m region_start region_num_pages num_pages alignment offset guard"
  shows "FindFreeArea m region_start region_num_pages num_pages alignment offset guard =
    (if \<exists>x. ok x then (LEAST x. ok x) else 0)"
proof -
  let ?re = "region_start + region_num_pages * PageSize"
  have c: "chain (mm_start_address m) (mm_tree m) (mm_end_address m)" and e: "mm_end_address m < 2 ^ 64"
    using assms(1) by (simp_all add: manager_ok_def)
  have "0 < region_num_pages * PageSize" using assms(3) by simp
  then have re: "region_start < ?re" "region_start < mm_end_address m" using assms(4) by linarith+
  obtain pre b post where bs: "mm_tree m = pre @ b # post" "mb_address b \<le> region_start"
    "region_start < mb_address b + mb_num_pages b * PageSize"
    using chain_locate [OF c assms(2) re(2)] by blast
  have it: "FindIterator (mm_tree m) region_start = length pre"
    unfolding bs(1) by (rule FindIterator_at [OF c [unfolded bs(1)] e bs(2,3)])
  have ch: "chain (mm_start_address m) pre (mb_address b)" "chain (mb_address b) (b # post) (mm_end_address m)"
    using c bs(1) by (auto simp: chain_append)
  have after: "\<forall>d \<in> set (b # post). region_start < block_end d"
    using bs(3) chain_ends_mono [OF ch(2)] unfolding block_end_def [symmetric] by (meson less_le_trans)
  have before: "\<not> suits region_start ?re num_pages alignment offset guard d x" if "d \<in> set pre" for d x
  proof
    assume s: "suits region_start ?re num_pages alignment offset guard d x"
    have "block_end d \<le> region_start"
      using chain_before [OF ch(1) that] bs(2) by (simp add: block_end_def)
    then show False using suits_bounds(3) [OF s assms(5)] s unfolding suits_def by linarith
  qed
  have "u64_add region_start (u64_mul region_num_pages PageSize) = ?re"
    using page_arith(1,2) [OF e assms(4)] by simp
  moreover have "?re < 2 ^ 64" "1 \<le> ?re" using assms(4) e re(1) by linarith+
  then have "u64_sub ?re 1 = ?re - 1" by (intro u64_sub_exact)
  ultimately have r: "FindFreeArea m region_start region_num_pages num_pages alignment offset guard =
      find_free_area (b # post) region_start (?re - 1) num_pages alignment offset guard"
    using assms(5) it bs(1) unfolding FindFreeArea_def Let_def by (simp only: if_True) simp
  have ok: "ok x \<longleftrightarrow>
      (\<exists>d \<in> set (b # post). suits region_start ?re num_pages alignment offset guard d x)" for x
    unfolding ok_def area_suits_def bs(1) using before by auto
  have "least_suiting (suits region_start ?re num_pages alignment offset guard) (b # post)
      (FindFreeArea m region_start region_num_pages num_pages alignment offset guard)"
    unfolding r using assms(5-7) re(1) assms(4) after by (intro scan_least [OF ch(2)]) auto
  then show ?thesis
    unfolding least_suiting_def using ok by (auto intro!: Least_equality [symmetric] split: if_splits)
qed

theorem find_free_area_least_witness:
  "FindFreeArea demo_manager 0x10000 16 2 0x4000 0x1000 1 =
     (if \<exists>x. area_suits demo_manager 0x10000 16 2 0x4000 0x1000 1 x
      then (LEAST x. area_suits demo_manager 0x10000 16 2 0x4000 0x1000 1 x) else 0) \<and>
   area_suits demo_manager 0x10000 16 2 0x4000 0x1000 1 0x11000"
proof
  show "FindFreeArea demo_manager 0x10000 16 2 0x4000 0x1000 1 =
     (if \<exists>x. area_suits demo_manager 0x10000 16 2 0x4000 0x1000 1 x
      then (LEAST x. area_suits demo_manager 0x10000 16 2 0x4000 0x1000 1 x) else 0)"
    by (rule find_free_area_least [OF demo_manager_ok(1)]) (simp_all add: demo_manager_def PageSize_def)
  show "area_suits demo_manager 0x10000 16 2 0x4000 0x1000 1 0x11000"
    by (simp add: area_suits_def suits_def demo_manager_def block_end_def PageSize_def)
qed

section \<open>Setting up and tearing down\<close>

definition free_page :: page_props where
  "free_page = (KMemoryState_Free, KMemoryPermission_None, KMemoryPermission_None,
     KMemoryAttribute_None, 0, 0)"

lemma finalize_blocks_calls:
  "finalize_blocks bs slab = (map (\<lambda>b. (mb_address b, KMemoryBlock_GetSize b)) bs, slab + length bs)"
  by (induction bs arbitrary: slab) simp_all

text \<open>The ranges that lead from one address to another without gaps.\<close>

fun covers :: "nat \<Rightarrow> (nat \<times> nat) list \<Rightarrow> nat \<Rightarrow> bool" where
  "covers a [] e \<longleftrightarrow> a = e"
| "covers a ((addr, len) # rs) e \<longleftrightarrow> addr = a \<and> 0 < len \<and> covers (addr + len) rs e"

lemma chain_covers:
  assumes "chain a bs e" "e < 2 ^ 64"
  shows "covers a (map (\<lambda>b. (mb_address b, KMemoryBlock_GetSize b)) bs) e"
  using assms
proof (induction bs arbitrary: a)
  case (Cons b bs)
  have "block_fits b" using chain_block_fits [OF Cons.prems] by simp
  then show ?case using Cons by (simp add: block_fits_geometry block_fits_def)
qed simp

text \<open>
  Initialization gives an address space of free pages with one block, and fails without side
  effects when the slab has no block; finalization reports ranges that cover the whole address
  space exactly once, in order, and gives every block back to the slab.
\<close>
theorem initialize_finalize_cover:
  assumes "mm_tree m = []" "st < nd" "nd < 2 ^ 64" "PageSize dvd st" "PageSize dvd nd"
  shows "KMemoryBlockManager_Initialize m st nd None = Some (ResultOutOfResource, m) \<and>
    (\<exists>m'. KMemoryBlockManager_Initialize m st nd (Some raw) = Some (ResultSuccess, m') \<and>
       manager_ok m' \<and> merged (mm_tree m') \<and> mm_start_address m' = st \<and> mm_end_address m' = nd \<and>
       pages (mm_tree m') = replicate ((nd - st) div PageSize) free_page) \<and>
    (\<forall>m'. manager_ok m' \<longrightarrow>
       (\<exists>calls. KMemoryBlockManager_Finalize m' slab =
            (m' \<lparr> mm_tree := [] \<rparr>, calls, slab + length (mm_tree m')) \<and>
          covers (mm_start_address m') calls (mm_end_address m')))"
proof -
  have sub: "u64_sub nd st = nd - st" using assms(2,3) by simp
  have d: "PageSize dvd nd - st" using assms(4,5) by simp
  then have q: "(nd - st) div PageSize * PageSize = nd - st" by simp
  then have "(nd - st) div PageSize \<noteq> 0" using assms(2) by (metis mult_0 zero_less_diff less_irrefl)
  with q have init: "\<exists>m'. KMemoryBlockManager_Initialize m st nd (Some raw) = Some (ResultSuccess, m') \<and>
       manager_ok m' \<and> merged (mm_tree m') \<and> mm_start_address m' = st \<and> mm_end_address m' = nd \<and>
       pages (mm_tree m') = replicate ((nd - st) div PageSize) free_page"
    using assms(1-3)
    by (simp add: KMemoryBlockManager_Initialize_def Let_def sub manager_ok_def merged_def
        KMemoryBlock_Initialize_def page_view_def free_page_def)
  have fin: "\<exists>calls. KMemoryBlockManager_Finalize m' slab =
            (m' \<lparr> mm_tree := [] \<rparr>, calls, slab + length (mm_tree m')) \<and>
          covers (mm_start_address m') calls (mm_end_address m')" if "manager_ok m'" for m'
    using that chain_covers
    by (simp add: KMemoryBlockManager_Finalize_def finalize_blocks_calls manager_ok_def)
  show ?thesis using init fin by (simp add: KMemoryBlockManager_Initialize_def)
qed

theorem initialize_finalize_cover_witness:
  "\<exists>m'. KMemoryBlockManager_Initialize
       \<lparr> mm_tree = [], mm_start_address = 0, mm_end_address = 0 \<rparr> 0x10000 0x20000 (Some demo_block)
     = Some (ResultSuccess, m') \<and> manager_ok m' \<and> pages (mm_tree m') = replicate 16 free_page"
proof -
  let ?m = "\<lparr> mm_tree = [], mm_start_address = 0, mm_end_address = 0 \<rparr>"
  have "PageSize dvd 0x10000" "PageSize dvd 0x20000" "(0x20000 - 0x10000) div PageSize = 16"
    by (simp_all add: PageSize_def dvd_eq_mod_eq_0)
  then show ?thesis
    using initialize_finalize_cover [where m = ?m and st = "0x10000" and nd = "0x20000" and raw = demo_block
        and slab = 0] by auto
qed

end
