(* ===== verification/TinyMersenneTwister.thy ===== *)
theory TinyMersenneTwister
  imports Prelude
begin

text \<open>
  The random number generator of the page allocator (\<^verbatim>\<open>common/tiny_mt.h\<close>): seeding, the step of the
  generator, and the filling of a buffer. The floating point outputs are not modelled. The main
  facts: the state never degenerates to zero, and a buffer is filled within its bounds exactly when
  it does not lie strictly inside one aligned word.
\<close>

section \<open>State and seeding\<close>

definition NumStateWords :: nat where "NumStateWords = 4"
definition ParamMat1 :: u32 where "ParamMat1 = 0x8F7011EE"
definition ParamMat2 :: u32 where "ParamMat2 = 0xFC78FF1F"
definition ParamTmat :: u32 where "ParamTmat = 0x3793FDFF"
definition ParamMult :: u32 where "ParamMult = 0x6C078965"
definition ParamPlus :: u32 where "ParamPlus = 0x0019660D"
definition ParamXor :: u32 where "ParamXor = 0x5D588B65"
definition TopBitmask :: u32 where "TopBitmask = 0x7FFFFFFF"
definition MinimumInitIterations :: nat where "MinimumInitIterations = 8"
definition NumDiscardedInitOutputs :: nat where "NumDiscardedInitOutputs = 8"

record TinyMT =
  mt_data :: "u32 list"

definition TinyMT_create :: TinyMT where
  "TinyMT_create = \<lparr> mt_data = replicate NumStateWords 0 \<rparr>"

definition XorByShifted27 :: "u32 \<Rightarrow> u32" where
  "XorByShifted27 value = value XOR drop_bit 27 value"

definition XorByShifted30 :: "u32 \<Rightarrow> u32" where
  "XorByShifted30 value = value XOR drop_bit 30 value"

definition GenerateRandomU32 :: "TinyMT \<Rightarrow> u32 \<times> TinyMT" where
  "GenerateRandomU32 t =
     (let d = mt_data t;
          x0 = (d ! 0 AND TopBitmask) XOR d ! 1 XOR d ! 2;
          y0 = d ! 3;
          x1 = x0 XOR push_bit 1 x0;
          y1 = y0 XOR drop_bit 1 y0 XOR x1;
          state0 = d ! 1;
          odd1 = (y1 AND 1 \<noteq> 0);
          state1 = (if odd1 then d ! 2 XOR ParamMat1 else d ! 2);
          state2 = (if odd1 then (x1 XOR push_bit 10 y1) XOR ParamMat2 else x1 XOR push_bit 10 y1);
          state3 = y1;
          t1 = state0 + drop_bit 8 state2;
          t0 = state3 XOR t1
      in (if t1 AND 1 \<noteq> 0 then t0 XOR ParamTmat else t0,
          t \<lparr> mt_data := [state0, state1, state2, state3] \<rparr>))"

definition GenerateRandomU64 :: "TinyMT \<Rightarrow> u64 \<times> TinyMT" where
  "GenerateRandomU64 t =
     (let (lo, t1) = GenerateRandomU32 t; (hi, t2) = GenerateRandomU32 t1
      in (push_bit 32 (ucast hi) OR ucast lo, t2))"

primrec discard_outputs :: "nat \<Rightarrow> TinyMT \<Rightarrow> TinyMT" where
  "discard_outputs 0 t = t"
| "discard_outputs (Suc n) t = discard_outputs n (snd (GenerateRandomU32 t))"

definition FinalizeInitialization :: "TinyMT \<Rightarrow> TinyMT" where
  "FinalizeInitialization t =
     (let d = mt_data t;
          t1 = (if d ! 0 AND TopBitmask = 0 \<and> d ! 1 = 0 \<and> d ! 2 = 0 \<and> d ! 3 = 0
                then t \<lparr> mt_data := [0x54, 0x49, 0x4E, 0x59] \<rparr> else t)
      in discard_outputs NumDiscardedInitOutputs t1)"

definition mix_seed :: "u32 list \<Rightarrow> nat \<Rightarrow> u32 list" where
  "mix_seed d i =
     (let mixed = XorByShifted30 (d ! ((i - 1) mod NumStateWords));
          k = i mod NumStateWords
      in d [k := d ! k XOR (mixed * ParamMult + of_nat i)])"

definition TinyMT_Initialize :: "u32 \<Rightarrow> TinyMT \<Rightarrow> TinyMT" where
  "TinyMT_Initialize seed t =
     FinalizeInitialization
       (t \<lparr> mt_data := foldl mix_seed [seed, ParamMat1, ParamMat2, ParamTmat] [1..<MinimumInitIterations] \<rparr>)"

definition GenerateInitialValuePlus :: "u32 list \<Rightarrow> nat \<Rightarrow> u32 \<Rightarrow> u32 list" where
  "GenerateInitialValuePlus d index value =
     (let i0 = (index + 0) mod NumStateWords; i1 = (index + 1) mod NumStateWords;
          i2 = (index + 2) mod NumStateWords; i3 = (index + 3) mod NumStateWords;
          x = XorByShifted27 (d ! i0 XOR d ! i1 XOR d ! i3) * ParamPlus;
          y = x + of_nat index + value
      in d [i0 := y, i1 := d ! i1 + x, i2 := d ! i2 + y])"

definition GenerateInitialValueXor :: "u32 list \<Rightarrow> nat \<Rightarrow> u32 list" where
  "GenerateInitialValueXor d index =
     (let i0 = (index + 0) mod NumStateWords; i1 = (index + 1) mod NumStateWords;
          i2 = (index + 2) mod NumStateWords; i3 = (index + 3) mod NumStateWords;
          x = XorByShifted27 (d ! i0 + d ! i1 + d ! i3) * ParamXor;
          y = x - of_nat index
      in d [i0 := y, i1 := d ! i1 XOR x, i2 := d ! i2 XOR y])"

definition TinyMT_Initialize_array :: "u32 list \<Rightarrow> TinyMT \<Rightarrow> TinyMT" where
  "TinyMT_Initialize_array seed t =
     (let seed_count = length seed;
          num_init_iterations = max (seed_count + 1) MinimumInitIterations - 1;
          d0 = GenerateInitialValuePlus [0, ParamMat1, ParamMat2, ParamTmat] 0 (of_nat seed_count);
          d1 = foldl (\<lambda>d i. GenerateInitialValuePlus d ((i + 1) mod NumStateWords)
                              (if i < seed_count then seed ! i else 0)) d0 [0..<num_init_iterations];
          d2 = foldl (\<lambda>d i. GenerateInitialValueXor d ((i + 1 + num_init_iterations) mod NumStateWords))
                 d1 [0..<NumStateWords]
      in FinalizeInitialization (t \<lparr> mt_data := d2 \<rparr>))"

section \<open>Filling a buffer\<close>

text \<open>The writes of a call, as pairs of an address and a byte in the order of the stores.\<close>

type_synonym byte_writes = "(nat \<times> u8) list"

definition copy_bytes :: "nat \<Rightarrow> u32 \<Rightarrow> nat \<Rightarrow> byte_writes" where
  "copy_bytes dst rnd n = map (\<lambda>i. (u64_add dst i, ucast (drop_bit (8 * i) rnd))) [0..<n]"

function fill_words :: "nat \<Rightarrow> nat \<Rightarrow> TinyMT \<Rightarrow> byte_writes \<times> TinyMT" where
  "fill_words cur_dst end_dst t =
     (if cur_dst < end_dst then
        (let (rnd, t1) = GenerateRandomU32 t;
             (ws, t2) = fill_words (cur_dst + 4) end_dst t1
         in (copy_bytes cur_dst rnd 4 @ ws, t2))
      else ([], t))"
  by pat_completeness auto
termination
  by (relation "measure (\<lambda>(c, e, t). e - c)") auto

declare fill_words.simps [simp del]

definition GenerateRandomBytes :: "nat \<Rightarrow> nat \<Rightarrow> TinyMT \<Rightarrow> byte_writes \<times> TinyMT" where
  "GenerateRandomBytes dst n t =
     (let start = dst; stop = u64_add start n;
          aligned_start = AlignUp start 4; aligned_end = AlignDown stop 4;
          (ws1, t1) = (if start < aligned_start
                       then (let (rnd, t') = GenerateRandomU32 t
                             in (copy_bytes dst rnd (u64_sub aligned_start start), t'))
                       else ([], t));
          (ws2, t2) = fill_words aligned_start aligned_end t1;
          (ws3, t3) = (if aligned_end < stop
                       then (let (rnd, t') = GenerateRandomU32 t2
                             in (copy_bytes aligned_end rnd (u64_sub stop aligned_end), t'))
                       else ([], t2))
      in (ws1 @ ws2 @ ws3, t3))"

section \<open>The state does not degenerate\<close>

definition mt_ok :: "TinyMT \<Rightarrow> bool" where
  "mt_ok t \<longleftrightarrow>
     length (mt_data t) = 4 \<and>
     \<not> (mt_data t ! 0 AND TopBitmask = 0 \<and> mt_data t ! 1 = 0 \<and> mt_data t ! 2 = 0 \<and> mt_data t ! 3 = 0)"

lemma xor_zero_iff: "a XOR b = 0 \<longleftrightarrow> a = (b :: 'a::len word)"
  by (metis xor.right_neutral xor.assoc xor_self_eq xor.commute)

lemma xor_push_zero:
  fixes x :: "'a::len word"
  assumes "x XOR push_bit 1 x = 0"
  shows "x = 0"
proof (rule bit_word_eqI)
  fix n assume n: "n < LENGTH('a)"
  have eq: "x = push_bit 1 x" using assms by (simp add: xor_zero_iff)
  have "\<not> bit x n"
    using n
  proof (induction n)
    case 0
    have "\<not> bit (push_bit 1 x) 0" by (subst bit_push_bit_iff) simp
    then show ?case using eq by simp
  next
    case (Suc n)
    have "bit (push_bit 1 x) (Suc n) = bit x n" using Suc.prems by (subst bit_push_bit_iff) simp
    then show ?case using eq Suc by simp
  qed
  then show "bit x n = bit 0 n" by simp
qed

lemma xor_drop_zero:
  fixes x :: "'a::len word"
  assumes "x XOR drop_bit 1 x = 0"
  shows "x = 0"
proof (rule bit_word_eqI)
  fix n assume "n < LENGTH('a)"
  have eq: "x = drop_bit 1 x" using assms by (simp add: xor_zero_iff)
  have step: "bit x m = bit x (Suc m)" for m
    using arg_cong [OF eq, of "\<lambda>w. bit w m"] by (simp add: bit_simps)
  have "bit x m = bit x (m + k)" for m k by (induction k) (use step in auto)
  from this [of n "LENGTH('a)"] have "\<not> bit x n" by (simp add: impossible_bit)
  then show "bit x n = bit 0 n" by simp
qed

lemma GenerateRandomU32_ok:
  assumes "mt_ok t"
  shows "mt_ok (snd (GenerateRandomU32 t))"
proof (rule ccontr)
  obtain a b c d where t: "mt_data t = [a, b, c, d]"
    using assms by (auto simp: mt_ok_def numeral_eq_Suc length_Suc_conv)
  have nths: "mt_data t ! 0 = a" "mt_data t ! 1 = b" "mt_data t ! 2 = c" "mt_data t ! 3 = d"
    by (simp_all add: t)
  define x0 where "x0 = (a AND TopBitmask) XOR b XOR c"
  define x1 where "x1 = x0 XOR push_bit 1 x0"
  define y1 where "y1 = d XOR drop_bit 1 d XOR x1"
  have data: "snd (GenerateRandomU32 t) = t \<lparr> mt_data :=
      [b, if y1 AND 1 \<noteq> 0 then c XOR ParamMat1 else c,
       if y1 AND 1 \<noteq> 0 then (x1 XOR push_bit 10 y1) XOR ParamMat2 else x1 XOR push_bit 10 y1, y1] \<rparr>"
    unfolding GenerateRandomU32_def Let_def nths x1_def y1_def x0_def by (simp only: snd_conv)
  assume "\<not> mt_ok (snd (GenerateRandomU32 t))"
  then have y1: "y1 = 0" and z: "b AND TopBitmask = 0" "c = 0" "x1 = 0"
    unfolding mt_ok_def data by (auto split: if_splits)
  have d: "d = 0" using y1 z(3) xor_drop_zero [of d] by (simp add: y1_def)
  have "x0 = 0" using z(3) xor_push_zero [of x0] by (simp add: x1_def)
  then have "a AND TopBitmask = b" using z(2) by (simp add: x0_def xor_zero_iff)
  moreover have "a AND TopBitmask = (a AND TopBitmask) AND TopBitmask" by (simp add: and.assoc)
  ultimately have "b = 0" "a AND TopBitmask = 0" using z(1) by simp_all
  then show False using assms z(2) d by (simp add: mt_ok_def t)
qed

lemma discard_outputs_ok: "mt_ok t \<Longrightarrow> mt_ok (discard_outputs n t)"
  by (induction n arbitrary: t) (simp_all add: GenerateRandomU32_ok)

lemma FinalizeInitialization_ok: "length (mt_data t) = 4 \<Longrightarrow> mt_ok (FinalizeInitialization t)"
  unfolding FinalizeInitialization_def Let_def
  by (rule discard_outputs_ok) (auto simp: mt_ok_def TopBitmask_def)

lemma mix_seed_length: "length (foldl mix_seed d is) = length d"
  by (induction "is" arbitrary: d) (simp_all add: mix_seed_def Let_def)

lemma TinyMT_Initialize_ok: "mt_ok (TinyMT_Initialize seed t)"
  unfolding TinyMT_Initialize_def by (rule FinalizeInitialization_ok) (simp add: mix_seed_length)

lemma initial_value_length:
  "length (GenerateInitialValuePlus d i v) = length d" "length (GenerateInitialValueXor d i) = length d"
  by (simp_all add: GenerateInitialValuePlus_def GenerateInitialValueXor_def Let_def)

lemma initial_values_length:
  "length (foldl (\<lambda>d i. GenerateInitialValuePlus d (f i) (g i)) d is) = length d"
  "length (foldl (\<lambda>d i. GenerateInitialValueXor d (f i)) d is) = length d"
  by (induction "is" arbitrary: d) (simp_all add: initial_value_length)

lemma TinyMT_Initialize_array_ok: "mt_ok (TinyMT_Initialize_array seed t)"
  unfolding TinyMT_Initialize_array_def Let_def
  by (rule FinalizeInitialization_ok)
    (simp add: initial_values_length initial_value_length)


section \<open>The buffer is filled within its bounds\<close>

lemma copy_bytes_addresses:
  "dst + n \<le> 2 ^ 64 \<Longrightarrow> map fst (copy_bytes dst rnd n) = [dst..<dst + n]"
  by (auto simp: copy_bytes_def intro!: nth_equalityI)

lemma fill_words_addresses:
  assumes "4 dvd stop - cur" "cur \<le> stop" "stop < 2 ^ 64"
  shows "map fst (fst (fill_words cur stop t)) = [cur..<stop]"
  using assms
proof (induction cur stop t rule: fill_words.induct)
  case (1 cur stop t)
  show ?case
  proof (cases "cur < stop")
    case True
    obtain k where k: "stop - cur = 4 * k" using 1(2) by (auto elim: dvdE)
    then have le: "cur + 4 \<le> stop" using True by arith
    obtain rnd t1 where r: "GenerateRandomU32 t = (rnd, t1)" by (cases "GenerateRandomU32 t")
    have "stop - (cur + 4) = 4 * (k - 1)" using k by arith
    then have "4 dvd stop - (cur + 4)" by simp
    then have "map fst (fst (fill_words (cur + 4) stop t1)) = [cur + 4..<stop]"
      using 1(1) [OF True] r le 1(4) by simp
    then show ?thesis
      using True r le 1(4) upt_add_eq_append [of cur "cur + 4" "stop - (cur + 4)"]
      by (subst fill_words.simps) (simp add: copy_bytes_addresses Let_def case_prod_beta del: upt_rec_numeral)
  next
    case False
    then show ?thesis by (simp add: fill_words.simps)
  qed
qed

lemma bytes_parts:
  assumes n: "start + n + 4 \<le> 2 ^ 64" and up: "up = (start + 3) div 4 * 4" and down: "down = (start + n) div 4 * 4"
  shows "\<exists>r1 r2 t1. map fst (fst (GenerateRandomBytes start n t)) =
    (if start < up then map fst (copy_bytes start r1 (up - start)) else []) @
    map fst (fst (fill_words up down t1)) @
    (if down < start + n then map fst (copy_bytes down r2 (start + n - down)) else [])"
proof -
  have eqs: "u64_add start n = start + n" "AlignUp start 4 = up" "AlignDown (start + n) 4 = down"
    using n by (simp_all add: AlignUp_exact AlignDown_exact up down)
  have le: "start \<le> up" "up < 2 ^ 64" "down \<le> start + n" using n by (simp_all add: up down)
  have sub: "u64_sub up start = up - start" "u64_sub (start + n) down = start + n - down"
    using le n by simp_all
  let ?t1 = "if start < up then snd (GenerateRandomU32 t) else t"
  show ?thesis
    unfolding GenerateRandomBytes_def Let_def eqs sub
    by (rule exI [of _ "fst (GenerateRandomU32 t)"],
        rule exI [of _ "fst (GenerateRandomU32 (snd (fill_words up down ?t1)))"], rule exI [of _ ?t1])
      (simp add: case_prod_beta)
qed

text \<open>
  C40. A buffer is filled within its bounds, byte for byte in order, when it starts at an aligned
  address or reaches the next aligned address. Otherwise, when it lies strictly inside one
  aligned word, bytes outside of it are written.
\<close>

theorem random_bytes_bounds:
  assumes n: "start + n + 4 \<le> 2 ^ 64"
  shows "if start mod 4 = 0 \<or> (start + 3) div 4 * 4 \<le> start + n
    then map fst (fst (GenerateRandomBytes start n t)) = [start..<start + n]
    else \<exists>a \<in> fst ` set (fst (GenerateRandomBytes start n t)). a < start \<or> start + n \<le> a"
proof -
  define up down where up: "up = (start + 3) div 4 * 4" and down: "down = (start + n) div 4 * 4"
  obtain r1 r2 t1 where parts: "map fst (fst (GenerateRandomBytes start n t)) =
      (if start < up then map fst (copy_bytes start r1 (up - start)) else []) @
      map fst (fst (fill_words up down t1)) @
      (if down < start + n then map fst (copy_bytes down r2 (start + n - down)) else [])"
    using bytes_parts [OF n up down] by blast
  have bounds: "start \<le> up" "up < start + 4" "down \<le> start + n" "start + n < 2 ^ 64" "up < 2 ^ 64"
    using n by (simp_all add: up down)
  show ?thesis
  proof (cases "up \<le> start + n")
    case True
    have "up \<le> down" using div_le_mono [OF True, of 4] by (simp add: up down)
    moreover have "4 dvd down - up" by (simp add: up down dvd_diff_nat)
    ultimately have "map fst (fst (GenerateRandomBytes start n t)) =
        [start..<up] @ [up..<down] @ [down..<start + n]"
      using bounds by (simp add: parts fill_words_addresses copy_bytes_addresses)
    also have "\<dots> = [start..<start + n]"
      using upt_add_eq_append [of start up "down - up"] upt_add_eq_append [of start down "start + n - down"]
        \<open>up \<le> down\<close> bounds by simp
    finally show ?thesis using True by (simp add: up)
  next
    case False
    then have st: "start < up" "start mod 4 \<noteq> 0" using bounds by (auto simp: up) presburger
    have "start \<le> up - 1" using st by simp
    then have "up - 1 \<in> set (map fst (fst (GenerateRandomBytes start n t)))"
      unfolding parts using st bounds by (simp add: copy_bytes_addresses del: set_map)
    then have "\<exists>a \<in> fst ` set (fst (GenerateRandomBytes start n t)). start + n \<le> a"
      using False st by (intro bexI [of _ "up - 1"]) auto
    then show ?thesis using False st by (auto simp: up)
  qed
qed

theorem random_bytes_bounds_witness:
  "map fst (fst (GenerateRandomBytes 6 9 TinyMT_create)) = [6..<15]"
  using random_bytes_bounds [of 6 9 TinyMT_create] by simp

end
