(* ===== verification/BitCount.thy ===== *)
theory BitCount
  imports Prelude
begin

text \<open>
  The bit counts of \<^verbatim>\<open><bit>\<close> on 64-bit words, and the bit sets of \<^verbatim>\<open>common/bit_set.h\<close>, which store bit \<open>i\<close> of a
  word at place \<open>63 - i\<close>, so that the leading zeros count up to the least element.
\<close>

section \<open>Counting zeros\<close>

definition countr_zero :: "u64 \<Rightarrow> nat" where
  "countr_zero v = length (takeWhile (\<lambda>i. \<not> bit v i) [0..<64])"

definition countl_zero :: "u64 \<Rightarrow> nat" where
  "countl_zero v = length (takeWhile (\<lambda>i. \<not> bit v i) (rev [0..<64]))"

lemma countr_zero_spec:
  assumes "v \<noteq> (0 :: u64)"
  shows "countr_zero v < 64" "bit v (countr_zero v)" "k < countr_zero v \<Longrightarrow> \<not> bit v k"
proof -
  let ?P = "\<lambda>i. \<not> bit v i"
  obtain i where i: "bit v i" "i < 64" using assms by (auto simp: bit_eq_iff dest: bit_imp_le_length)
  have clear: "\<not> bit v k" if "k < countr_zero v" for k
  proof -
    have "k < 64" using that length_takeWhile_le [of ?P "[0..<64]"] by (simp add: countr_zero_def)
    then show ?thesis
      using takeWhile_nth [of k ?P "[0..<64]"] nth_mem [of k "takeWhile ?P [0..<64]"] that
      by (auto simp: countr_zero_def dest: set_takeWhileD)
  qed
  then show "k < countr_zero v \<Longrightarrow> \<not> bit v k" .
  have "countr_zero v \<le> i" using clear i by (metis not_le)
  then show lt: "countr_zero v < 64" using i by simp
  show "bit v (countr_zero v)"
    using nth_length_takeWhile [of ?P "[0..<64]"] lt by (simp add: countr_zero_def)
qed

lemma countl_zero_spec:
  assumes "v \<noteq> (0 :: u64)"
  shows "countl_zero v < 64" "bit v (63 - countl_zero v)" "k < countl_zero v \<Longrightarrow> \<not> bit v (63 - k)"
proof -
  let ?P = "\<lambda>i. \<not> bit v i" and ?l = "rev [0..<64]"
  have nth: "?l ! k = 63 - k" if "k < 64" for k using that by (simp add: rev_nth)
  obtain i where i: "bit v i" "i < 64" using assms by (auto simp: bit_eq_iff dest: bit_imp_le_length)
  have le: "countl_zero v \<le> 64" using length_takeWhile_le [of ?P ?l] by (simp add: countl_zero_def)
  have clear: "\<not> bit v (63 - k)" if "k < countl_zero v" for k
  proof -
    have "k < 64" using that le by simp
    then show ?thesis
      using takeWhile_nth [of k ?P ?l] nth_mem [of k "takeWhile ?P ?l"] that nth [of k]
      by (auto simp: countl_zero_def dest: set_takeWhileD)
  qed
  then show "k < countl_zero v \<Longrightarrow> \<not> bit v (63 - k)" .
  have "countl_zero v \<le> 63 - i"
  proof (rule ccontr)
    assume "\<not> countl_zero v \<le> 63 - i"
    then have "\<not> bit v (63 - (63 - i))" by (intro clear) simp
    then show False using i by simp
  qed
  then show lt: "countl_zero v < 64" using i by simp
  show "bit v (63 - countl_zero v)"
    using nth_length_takeWhile [of ?P ?l] lt nth [of "countl_zero v"] by (simp add: countl_zero_def)
qed

lemma clear_bit_less:
  assumes "bit (v :: u64) k"
  shows "unat (v AND NOT (2 ^ k)) < unat v"
proof -
  have "\<not> bit (v AND NOT (2 ^ k)) k" by (auto simp: bit_and_iff bit_not_iff bit_exp_iff)
  then have "v AND NOT (2 ^ k) \<noteq> v" using assms by metis
  moreover have "v AND NOT (2 ^ k) \<le> v" by (rule word_and_le2)
  ultimately show ?thesis by (simp add: word_le_nat_alt word_unat_eq_iff)
qed

section \<open>Bit sets\<close>

type_synonym bit_set = "u64 list"

definition BitSet_create :: "nat \<Rightarrow> bit_set" where
  "BitSet_create n = replicate (AlignUp n 64 div 64) 0"

definition GetBitMask :: "nat \<Rightarrow> u64" where
  "GetBitMask i = push_bit (64 - 1 - i) 1"

definition BitSet_SetBit :: "nat \<Rightarrow> bit_set \<Rightarrow> bit_set" where
  "BitSet_SetBit i ws = ws [i div 64 := ws ! (i div 64) OR GetBitMask (i mod 64)]"

definition BitSet_ClearBit :: "nat \<Rightarrow> bit_set \<Rightarrow> bit_set" where
  "BitSet_ClearBit i ws = ws [i div 64 := ws ! (i div 64) AND NOT (GetBitMask (i mod 64))]"

text \<open>The loops over the words, from the word \<open>i\<close> on.\<close>

fun leading_zeros_from :: "nat \<Rightarrow> u64 list \<Rightarrow> nat" where
  "leading_zeros_from i [] = 64 * i"
| "leading_zeros_from i (w # ws) = (if w \<noteq> 0 then 64 * i + countl_zero w else leading_zeros_from (i + 1) ws)"

definition CountLeadingZero :: "bit_set \<Rightarrow> nat" where
  "CountLeadingZero ws = leading_zeros_from 0 ws"

fun next_set_from :: "nat \<Rightarrow> nat \<Rightarrow> u64 list \<Rightarrow> nat" where
  "next_set_from n i [] = 64 * i"
| "next_set_from n i (w # ws) =
     (let word = (if (n + 1) mod 64 \<noteq> 0 then w AND (GetBitMask (n mod 64) - 1) else w)
      in if word \<noteq> 0 then 64 * i + countl_zero word else next_set_from n (i + 1) ws)"

definition GetNextSet :: "nat \<Rightarrow> bit_set \<Rightarrow> nat" where
  "GetNextSet n ws =
     (let i = (n + 1) div 64 in if i < length ws then next_set_from n i (drop i ws) else 64 * length ws)"

text \<open>The elements of a set of one word, as the scheduler has it.\<close>

definition bit_set_of :: "bit_set \<Rightarrow> nat set" where
  "bit_set_of ws = {i. i < 64 \<and> bit (ws ! 0) (63 - i)}"

lemma bit_GetBitMask: "i < 64 \<Longrightarrow> j < 64 \<Longrightarrow> bit (GetBitMask i) (63 - j) \<longleftrightarrow> i = j"
  by (auto simp: GetBitMask_def bit_exp_iff)

lemma bit_set_of_update:
  assumes "length ws = 1" "i < 64"
  shows "bit_set_of (BitSet_SetBit i ws) = insert i (bit_set_of ws)" "bit_set_of (BitSet_ClearBit i ws) = bit_set_of ws - {i}"
    "length (BitSet_SetBit i ws) = 1" "length (BitSet_ClearBit i ws) = 1"
  using assms
  by (auto simp: bit_set_of_def BitSet_SetBit_def BitSet_ClearBit_def bit_or_iff bit_and_iff bit_not_iff bit_GetBitMask)

lemma countl_zero_Min:
  assumes "v \<noteq> (0 :: u64)"
  shows "countl_zero v = Min {i. i < 64 \<and> bit v (63 - i)}" "{i. i < 64 \<and> bit v (63 - i)} \<noteq> {}"
proof -
  note c = countl_zero_spec [OF assms]
  then show "{i. i < 64 \<and> bit v (63 - i)} \<noteq> {}" by blast
  have "Min {i. i < 64 \<and> bit v (63 - i)} = countl_zero v"
    using c by (intro Min_eqI) (auto simp: not_less [symmetric])
  then show "countl_zero v = Min {i. i < 64 \<and> bit v (63 - i)}" by simp
qed

lemma no_bits: "(v :: u64) = 0 \<longleftrightarrow> {i. i < 64 \<and> bit v (63 - i)} = {}"
  using countl_zero_Min(2) [of v] by auto

lemma CountLeadingZero_least:
  assumes "length ws = 1"
  shows "CountLeadingZero ws = (if bit_set_of ws = {} then 64 else Min (bit_set_of ws))"
proof -
  obtain w where w: "ws = [w]" using assms by (cases ws) auto
  show ?thesis using countl_zero_Min [of w] no_bits [of w] by (auto simp: CountLeadingZero_def bit_set_of_def w)
qed

lemma GetNextSet_least:
  assumes "length ws = 1" "n < 64"
  shows "GetNextSet n ws = (if bit_set_of ws \<inter> {n<..} = {} then 64 else Min (bit_set_of ws \<inter> {n<..}))"
proof -
  obtain w where w: "ws = [w]" using assms(1) by (cases ws) auto
  show ?thesis
  proof (cases "n = 63")
    case True
    then have "bit_set_of ws \<inter> {n<..} = {}" by (auto simp: bit_set_of_def)
    then show ?thesis using True by (simp add: GetNextSet_def w)
  next
    case False
    let ?v = "w AND (GetBitMask n - 1)"
    have n: "n < 63" using assms(2) False by simp
    have "GetBitMask n - 1 = mask (63 - n)" by (simp add: GetBitMask_def mask_eq_exp_minus_1)
    then have "{i. i < 64 \<and> bit ?v (63 - i)} = bit_set_of ws \<inter> {n<..}"
      using n by (auto simp: bit_and_iff bit_mask_iff bit_set_of_def w)
    moreover have "GetNextSet n ws = (if ?v \<noteq> 0 then countl_zero ?v else 64)" using n by (simp add: GetNextSet_def w Let_def)
    ultimately show ?thesis using countl_zero_Min [of ?v] no_bits [of ?v] by auto
  qed
qed

end
