(* ===== verification/PageBitmap.thy ===== *)
theory PageBitmap
  imports TinyMersenneTwister BitCount
begin

text \<open>
  The bitmap of free blocks (\<^verbatim>\<open>core/hle/kernel/k_page_bitmap.h\<close>): a tree of 64-bit words of at most
  four levels, where a bit of one level says whether a word of the next level is not zero.

  The words of all levels, and those of the other bitmaps of a heap, lie in one array, the
  management data. Pointers into it are indices, so that the separation of the levels is a property and
  not an assumption. The assertions of the code are predicates of their own. The seed of the random
  generator is an argument. A shift of the 32-bit entropy by 32, which the language leaves undefined, yields zero here;
  its value is never used, because no bit is available then.
\<close>

section \<open>Random bits\<close>

record RandomBitGenerator =
  rb_rng :: TinyMT
  rb_entropy :: u32
  rb_bits_available :: nat

definition RandomBitGenerator_create :: "u64 \<Rightarrow> RandomBitGenerator" where
  "RandomBitGenerator_create seed =
     \<lparr> rb_rng = TinyMT_Initialize (ucast seed) TinyMT_create, rb_entropy = 0, rb_bits_available = 0 \<rparr>"

definition RefreshEntropy :: "RandomBitGenerator \<Rightarrow> RandomBitGenerator" where
  "RefreshEntropy g =
     (let (e, rng) = GenerateRandomU32 (rb_rng g)
      in g \<lparr> rb_rng := rng, rb_entropy := e, rb_bits_available := 32 \<rparr>)"

definition GenerateRandomBit :: "RandomBitGenerator \<Rightarrow> bool \<times> RandomBitGenerator" where
  "GenerateRandomBit g =
     (let g1 = (if rb_bits_available g = 0 then RefreshEntropy g else g)
      in (rb_entropy g1 AND 1 \<noteq> 0,
          g1 \<lparr> rb_entropy := drop_bit 1 (rb_entropy g1), rb_bits_available := rb_bits_available g1 - 1 \<rparr>))"

function random_bits_loop :: "nat \<Rightarrow> u64 \<Rightarrow> RandomBitGenerator \<Rightarrow> u64 \<times> RandomBitGenerator" where
  "random_bits_loop num_bits result g =
     (if 0 < num_bits then
        (let g1 = (if rb_bits_available g = 0 then RefreshEntropy g else g);
             cur_bits = min num_bits (rb_bits_available g1);
             result1 = push_bit cur_bits result OR (ucast (rb_entropy g1) AND mask cur_bits)
         in random_bits_loop (num_bits - cur_bits) result1
              (g1 \<lparr> rb_entropy := drop_bit cur_bits (rb_entropy g1),
                    rb_bits_available := rb_bits_available g1 - cur_bits \<rparr>))
      else (result, g))"
  by pat_completeness auto
termination
  by (relation "measure (\<lambda>(n, r, g). n)") (auto simp: RefreshEntropy_def Let_def split: prod.splits)

declare random_bits_loop.simps [simp del]

definition GenerateRandomBits :: "nat \<Rightarrow> RandomBitGenerator \<Rightarrow> u64 \<times> RandomBitGenerator" where
  "GenerateRandomBits num_bits g = random_bits_loop num_bits 0 g"

definition GenerateRandom :: "u64 \<Rightarrow> RandomBitGenerator \<Rightarrow> u64 \<times> RandomBitGenerator" where
  "GenerateRandom max_value g =
     (let bits_needed = 1 + (64 - countl_zero max_value);
          (rnd, g1) = GenerateRandomBits bits_needed g
      in (rnd - (rnd div max_value) * max_value, g1))"

function select_loop :: "nat \<Rightarrow> u64 \<Rightarrow> nat \<Rightarrow> RandomBitGenerator \<Rightarrow> nat \<times> RandomBitGenerator" where
  "select_loop cur_num_bits bitmap selected g =
     (if cur_num_bits = 0 then (selected, g)
      else
        (let high = drop_bit cur_num_bits bitmap;
             low = bitmap AND NOT (push_bit cur_num_bits (- 1));
             (choose_high, g1) = (if high = 0 then (False, g) else if low = 0 then (True, g)
                                  else GenerateRandomBit g)
         in if choose_high then select_loop (cur_num_bits div 2) high (selected + cur_num_bits) g1
            else select_loop (cur_num_bits div 2) low selected g1))"
  by pat_completeness auto
termination
  by (relation "measure (\<lambda>(n, b, s, g). n)") auto

declare select_loop.simps [simp del]

definition SelectRandomBit :: "u64 \<Rightarrow> RandomBitGenerator \<Rightarrow> nat \<times> RandomBitGenerator" where
  "SelectRandomBit bitmap g = select_loop (64 div 2) bitmap 0 g"

section \<open>The bitmap\<close>

definition MaxDepth :: nat where "MaxDepth = 4"

record KPageBitmap =
  pb_bit_storages :: "nat list"
  pb_end_storages :: "nat list"
  pb_rng :: RandomBitGenerator
  pb_num_bits :: nat
  pb_used_depths :: nat

definition KPageBitmap_create :: "u64 \<Rightarrow> KPageBitmap" where
  "KPageBitmap_create seed =
     \<lparr> pb_bit_storages = replicate MaxDepth 0, pb_end_storages = replicate MaxDepth 0,
       pb_rng = RandomBitGenerator_create seed, pb_num_bits = 0, pb_used_depths = 0 \<rparr>"

fun GetRequiredDepth :: "nat \<Rightarrow> nat" where
  "GetRequiredDepth region_size =
     (if region_size div 64 = 0 then 1 else 1 + GetRequiredDepth (region_size div 64))"

declare GetRequiredDepth.simps [simp del]

definition words_for :: "nat \<Rightarrow> nat" where
  "words_for n = AlignUp n 64 div 64"

text \<open>The loop over the depths, from the highest one (\<open>n - 1\<close>) down.\<close>

primrec initialize_levels :: "nat \<Rightarrow> nat \<Rightarrow> nat \<Rightarrow> KPageBitmap \<Rightarrow> nat \<times> KPageBitmap" where
  "initialize_levels 0 storage n b = (storage, b)"
| "initialize_levels (Suc depth) storage n b =
     (let n' = words_for n; storage' = storage + n'
      in initialize_levels depth storage' n'
           (b \<lparr> pb_bit_storages := (pb_bit_storages b) [depth := storage],
                pb_end_storages := (pb_end_storages b) [depth := storage'] \<rparr>))"

definition KPageBitmap_Initialize :: "nat \<Rightarrow> nat \<Rightarrow> KPageBitmap \<Rightarrow> nat \<times> KPageBitmap" where
  "KPageBitmap_Initialize storage n b =
     initialize_levels (GetRequiredDepth n) storage n
       (b \<lparr> pb_num_bits := 0, pb_used_depths := GetRequiredDepth n \<rparr>)"

definition KPageBitmap_Initialize_asserts :: "nat \<Rightarrow> bool" where
  "KPageBitmap_Initialize_asserts n \<longleftrightarrow> GetRequiredDepth n \<le> MaxDepth"

primrec overhead_words :: "nat \<Rightarrow> nat \<Rightarrow> nat" where
  "overhead_words 0 n = 0"
| "overhead_words (Suc depth) n = words_for n + overhead_words depth (words_for n)"

definition CalculateManagementOverheadSize :: "nat \<Rightarrow> nat" where
  "CalculateManagementOverheadSize region_size =
     overhead_words (GetRequiredDepth region_size) region_size * 8"

text \<open>The word at an offset of a level.\<close>

definition storage_word :: "KPageBitmap \<Rightarrow> u64 list \<Rightarrow> nat \<Rightarrow> nat \<Rightarrow> u64" where
  "storage_word b mem depth i = mem ! (pb_bit_storages b ! depth + i)"

definition store_word :: "KPageBitmap \<Rightarrow> nat \<Rightarrow> nat \<Rightarrow> u64 \<Rightarrow> u64 list \<Rightarrow> u64 list" where
  "store_word b depth i v mem = mem [pb_bit_storages b ! depth + i := v]"

function find_loop ::
    "KPageBitmap \<Rightarrow> u64 list \<Rightarrow> bool \<Rightarrow> nat \<Rightarrow> nat \<Rightarrow> RandomBitGenerator \<Rightarrow> nat option \<times> RandomBitGenerator" where
  "find_loop b mem random depth offset g =
     (let v = storage_word b mem depth offset
      in if v = 0 then (None, g)
         else
           (let (k, g1) = (if random then SelectRandomBit v g else (countr_zero v, g));
                offset' = offset * 64 + k
            in if depth + 1 < pb_used_depths b then find_loop b mem random (depth + 1) offset' g1
               else (Some offset', g1)))"
  by pat_completeness auto
termination
  by (relation "measure (\<lambda>(b, m, r, d, o', g). pb_used_depths b - d)") auto

declare find_loop.simps [simp del]

text \<open>The offset, or \<^const>\<open>None\<close> for the result \<open>-1\<close>.\<close>

definition FindFreeBlock :: "bool \<Rightarrow> u64 list \<Rightarrow> KPageBitmap \<Rightarrow> nat option \<times> KPageBitmap" where
  "FindFreeBlock random mem b =
     (let (r, g) = find_loop b mem random 0 0 (pb_rng b) in (r, b \<lparr> pb_rng := g \<rparr>))"

primrec set_bit_loop :: "KPageBitmap \<Rightarrow> nat \<Rightarrow> nat \<Rightarrow> u64 list \<Rightarrow> u64 list" where
  "set_bit_loop b 0 offset mem = mem"
| "set_bit_loop b (Suc depth) offset mem =
     (let ind = offset div 64; which = offset mod 64;
          v = storage_word b mem depth ind;
          mem1 = store_word b depth ind (v OR push_bit which 1) mem
      in if v \<noteq> 0 then mem1 else set_bit_loop b depth ind mem1)"

primrec set_bit_asserts :: "KPageBitmap \<Rightarrow> nat \<Rightarrow> nat \<Rightarrow> u64 list \<Rightarrow> bool" where
  "set_bit_asserts b 0 offset mem = True"
| "set_bit_asserts b (Suc depth) offset mem =
     (let ind = offset div 64; which = offset mod 64;
          v = storage_word b mem depth ind;
          mem1 = store_word b depth ind (v OR push_bit which 1) mem
      in v AND push_bit which 1 = 0 \<and> (v = 0 \<longrightarrow> set_bit_asserts b depth ind mem1))"

primrec clear_bit_loop :: "KPageBitmap \<Rightarrow> nat \<Rightarrow> nat \<Rightarrow> u64 list \<Rightarrow> u64 list" where
  "clear_bit_loop b 0 offset mem = mem"
| "clear_bit_loop b (Suc depth) offset mem =
     (let ind = offset div 64; which = offset mod 64;
          v = storage_word b mem depth ind AND NOT (push_bit which 1);
          mem1 = store_word b depth ind v mem
      in if v \<noteq> 0 then mem1 else clear_bit_loop b depth ind mem1)"

primrec clear_bit_asserts :: "KPageBitmap \<Rightarrow> nat \<Rightarrow> nat \<Rightarrow> u64 list \<Rightarrow> bool" where
  "clear_bit_asserts b 0 offset mem = True"
| "clear_bit_asserts b (Suc depth) offset mem =
     (let ind = offset div 64; which = offset mod 64;
          v = storage_word b mem depth ind;
          v1 = v AND NOT (push_bit which 1);
          mem1 = store_word b depth ind v1 mem
      in v AND push_bit which 1 \<noteq> 0 \<and> (v1 = 0 \<longrightarrow> clear_bit_asserts b depth ind mem1))"

definition SetBit :: "nat \<Rightarrow> KPageBitmap \<times> u64 list \<Rightarrow> KPageBitmap \<times> u64 list" where
  "SetBit offset s =
     (let (b, mem) = s
      in (b \<lparr> pb_num_bits := u64_add (pb_num_bits b) 1 \<rparr>, set_bit_loop b (pb_used_depths b) offset mem))"

definition ClearBit :: "nat \<Rightarrow> KPageBitmap \<times> u64 list \<Rightarrow> KPageBitmap \<times> u64 list" where
  "ClearBit offset s =
     (let (b, mem) = s
      in (b \<lparr> pb_num_bits := u64_sub (pb_num_bits b) 1 \<rparr>, clear_bit_loop b (pb_used_depths b) offset mem))"

text \<open>The two loops of \<^verbatim>\<open>ClearRange\<close> over whole words, \<open>n\<close> of them from word \<open>i\<close>.\<close>

primrec words_full :: "KPageBitmap \<Rightarrow> u64 list \<Rightarrow> nat \<Rightarrow> nat \<Rightarrow> bool" where
  "words_full b mem i 0 = True"
| "words_full b mem i (Suc n) =
     (if storage_word b mem (pb_used_depths b - 1) i \<noteq> - 1 then False else words_full b mem (i + 1) n)"

primrec clear_words :: "KPageBitmap \<Rightarrow> nat \<Rightarrow> nat \<Rightarrow> u64 list \<Rightarrow> u64 list" where
  "clear_words b i 0 mem = mem"
| "clear_words b i (Suc n) mem =
     clear_words b (i + 1) n
       (clear_bit_loop b (pb_used_depths b - 1) i (store_word b (pb_used_depths b - 1) i 0 mem))"

definition ClearRange :: "nat \<Rightarrow> nat \<Rightarrow> KPageBitmap \<times> u64 list \<Rightarrow> bool \<times> KPageBitmap \<times> u64 list" where
  "ClearRange offset count s =
     (let (b, mem) = s;
          depth = pb_used_depths b - 1;
          bit_ind = offset div 64;
          b1 = b \<lparr> pb_num_bits := u64_sub (pb_num_bits b) count \<rparr>
      in if count < 64 then
           (let shift = offset mod 64;
                m = push_bit shift (mask count :: u64);
                v = storage_word b mem depth bit_ind
            in if v AND m \<noteq> m then (False, s)
               else
                 (let v1 = v AND NOT m;
                      mem1 = store_word b depth bit_ind v1 mem
                  in (True, b1, if v1 = 0 then clear_bit_loop b depth bit_ind mem1 else mem1)))
         else if words_full b mem bit_ind (count div 64)
         then (True, b1, clear_words b bit_ind (count div 64) mem)
         else (False, s))"

definition ClearRange_asserts :: "nat \<Rightarrow> nat \<Rightarrow> bool" where
  "ClearRange_asserts offset count \<longleftrightarrow>
     (if count < 64 then offset mod 64 + count \<le> 64 else offset mod 64 = 0 \<and> count mod 64 = 0)"

text \<open>
  \<^verbatim>\<open>FindFreeRange\<close>: each word is cut into options of \<open>count\<close> bits, and the \<open>k\<close>-th valid option replaces the
  choice with probability \<open>1 / k\<close>. A count of zero and a count of 64 are undefined in the code.
\<close>

record range_search =
  rs_num_valid :: nat
  rs_chosen :: "nat option"
  rs_rng :: RandomBitGenerator

definition try_option :: "nat \<Rightarrow> nat \<Rightarrow> u64 \<times> range_search \<Rightarrow> nat \<Rightarrow> u64 \<times> range_search" where
  "try_option count storage_index s option =
     (let (storage, r) = s;
          free_mask = mask count;
          r1 = (if storage AND free_mask = free_mask then
                  (let k = rs_num_valid r + 1;
                       (pick, g) = (if k = 1 then (True, rs_rng r)
                                    else (let (x, g) = GenerateRandom (of_nat k) (rs_rng r) in (x = 0, g)))
                   in r \<lparr> rs_num_valid := k, rs_rng := g,
                          rs_chosen := (if pick then Some (storage_index * 64 + option * count)
                                        else rs_chosen r) \<rparr>)
                else r)
      in (drop_bit count storage, r1))"

definition try_storage ::
    "nat \<Rightarrow> KPageBitmap \<Rightarrow> u64 list \<Rightarrow> range_search \<Rightarrow> nat \<Rightarrow> range_search" where
  "try_storage count b mem r storage_index =
     snd (foldl (try_option count storage_index)
            (storage_word b mem (pb_used_depths b - 1) storage_index, r) [0..<max (64 div count) 1])"

definition FindFreeRange :: "nat \<Rightarrow> u64 list \<Rightarrow> KPageBitmap \<Rightarrow> nat option \<times> KPageBitmap" where
  "FindFreeRange count mem b =
     (let storage_start = pb_bit_storages b ! (pb_used_depths b - 1);
          storage_end = pb_end_storages b ! (pb_used_depths b - 1)
      in if \<not> (storage_start < storage_end \<and> count \<le> 64) then (None, b)
         else
           (let num_entries = max (storage_end - storage_start) 1;
                r = foldl (try_storage count b mem)
                      \<lparr> rs_num_valid = 0, rs_chosen = None, rs_rng = pb_rng b \<rparr> [0..<num_entries]
            in (rs_chosen r, b \<lparr> pb_rng := rs_rng r \<rparr>)))"

end
