(* ===== verification/PageBitmapBehaviour.thy ===== *)
theory PageBitmapBehaviour
  imports PageBitmap Transition
begin

text \<open>
  The bitmap represents the set of its free offsets: setting and clearing change exactly that set, keep
  the summary levels consistent and touch no word outside the bitmap, and the searches find a free
  offset or range whenever there is one.
\<close>

section \<open>Layout and consistency\<close>

definition level_words :: "KPageBitmap \<Rightarrow> nat \<Rightarrow> nat" where
  "level_words b d = pb_end_storages b ! d - pb_bit_storages b ! d"

definition pb_layout :: "KPageBitmap \<Rightarrow> nat \<Rightarrow> bool" where
  "pb_layout b len \<longleftrightarrow>
     0 < pb_used_depths b \<and>
     (\<forall>d < pb_used_depths b. pb_bit_storages b ! d \<le> pb_end_storages b ! d) \<and>
     (\<forall>d. Suc d < pb_used_depths b \<longrightarrow> pb_end_storages b ! Suc d = pb_bit_storages b ! d \<and>
        level_words b (Suc d) \<le> 64 * level_words b d) \<and>
     level_words b 0 = 1 \<and> pb_end_storages b ! 0 \<le> len"

definition level_bit :: "KPageBitmap \<Rightarrow> u64 list \<Rightarrow> nat \<Rightarrow> nat \<Rightarrow> bool" where
  "level_bit b mem d x \<longleftrightarrow>
     x div 64 < level_words b d \<and> bit (storage_word b mem d (x div 64)) (x mod 64)"

definition consistent :: "KPageBitmap \<Rightarrow> u64 list \<Rightarrow> nat \<Rightarrow> bool" where
  "consistent b mem n \<longleftrightarrow>
     (\<forall>d i. Suc d < n \<longrightarrow>
        (level_bit b mem d i \<longleftrightarrow> i < level_words b (Suc d) \<and> storage_word b mem (Suc d) i \<noteq> 0))"

definition free_offsets :: "KPageBitmap \<Rightarrow> u64 list \<Rightarrow> nat set" where
  "free_offsets b mem = {x. level_bit b mem (pb_used_depths b - 1) x}"

definition capacity :: "KPageBitmap \<Rightarrow> nat" where
  "capacity b = 64 * level_words b (pb_used_depths b - 1)"

text \<open>The words of the array that belong to the bitmap.\<close>

definition footprint :: "KPageBitmap \<Rightarrow> nat set" where
  "footprint b = {pb_bit_storages b ! (pb_used_depths b - 1)..<pb_end_storages b ! 0}"

definition pb_ok :: "KPageBitmap \<Rightarrow> u64 list \<Rightarrow> bool" where
  "pb_ok b mem \<longleftrightarrow>
     pb_layout b (length mem) \<and> length mem < 2 ^ 57 \<and> consistent b mem (pb_used_depths b) \<and>
     pb_num_bits b = card (free_offsets b mem)"

lemma layout_order:
  assumes "pb_layout b len" "d < d'" "d' < pb_used_depths b"
  shows "pb_end_storages b ! d' \<le> pb_bit_storages b ! d"
  using assms(2,3)
proof (induction d')
  case (Suc d')
  have step: "pb_end_storages b ! Suc d' = pb_bit_storages b ! d'" "pb_bit_storages b ! d' \<le> pb_end_storages b ! d'"
    using assms(1) Suc.prems by (simp_all add: pb_layout_def)
  show ?case
  proof (cases "d = d'")
    case False
    then have "pb_end_storages b ! d' \<le> pb_bit_storages b ! d" using Suc by simp
    then show ?thesis using step by simp
  qed (use step in simp)
qed simp

lemma layout_address:
  assumes "pb_layout b len" "d < pb_used_depths b" "i < level_words b d"
  shows "pb_bit_storages b ! d + i < len" "pb_bit_storages b ! d + i \<in> footprint b"
proof -
  have lt: "pb_bit_storages b ! d + i < pb_end_storages b ! d" using assms(3) by (simp add: level_words_def)
  have bounds: "pb_bit_storages b ! (pb_used_depths b - 1) \<le> pb_bit_storages b ! d"
    "pb_end_storages b ! d \<le> pb_end_storages b ! 0"
  proof -
    show "pb_bit_storages b ! (pb_used_depths b - 1) \<le> pb_bit_storages b ! d"
    proof (cases "d = pb_used_depths b - 1")
      case False
      then have "pb_end_storages b ! (pb_used_depths b - 1) \<le> pb_bit_storages b ! d"
        using layout_order [OF assms(1), of d "pb_used_depths b - 1"] assms(2) by simp
      moreover have "pb_bit_storages b ! (pb_used_depths b - 1) \<le> pb_end_storages b ! (pb_used_depths b - 1)"
        using assms(1,2) by (simp add: pb_layout_def)
      ultimately show ?thesis by simp
    qed simp
    show "pb_end_storages b ! d \<le> pb_end_storages b ! 0"
    proof (cases "d = 0")
      case False
      then have "pb_end_storages b ! d \<le> pb_bit_storages b ! 0"
        using layout_order [OF assms(1), of 0 d] assms(2) by simp
      moreover have "pb_bit_storages b ! 0 \<le> pb_end_storages b ! 0"
        using assms(1) by (simp add: pb_layout_def)
      ultimately show ?thesis by simp
    qed simp
  qed
  have "pb_end_storages b ! 0 \<le> len" using assms(1) by (simp add: pb_layout_def)
  then show "pb_bit_storages b ! d + i < len" "pb_bit_storages b ! d + i \<in> footprint b"
    using lt bounds by (simp_all add: footprint_def)
qed

lemma layout_separate:
  assumes "pb_layout b len" "d < pb_used_depths b" "i < level_words b d"
    and "d' < pb_used_depths b" "i' < level_words b d'"
  shows "pb_bit_storages b ! d + i = pb_bit_storages b ! d' + i' \<longleftrightarrow> d = d' \<and> i = i'"
proof (cases d d' rule: linorder_cases)
  case less
  then show ?thesis using layout_order [OF assms(1) less assms(4)] assms(3,5) by (auto simp: level_words_def)
next
  case greater
  then show ?thesis using layout_order [OF assms(1) greater assms(2)] assms(3,5) by (auto simp: level_words_def)
qed simp

lemma storage_store:
  assumes "pb_layout b (length mem)" "d < pb_used_depths b" "i < level_words b d"
    and "d' < pb_used_depths b" "i' < level_words b d'"
  shows "storage_word b (store_word b d i v mem) d' i' = (if d' = d \<and> i' = i then v else storage_word b mem d' i')"
  using layout_separate [OF assms] layout_address(1) [OF assms(1-3)]
  by (auto simp: storage_word_def store_word_def nth_list_update)

lemma store_length [simp]: "length (store_word b d i v mem) = length mem"
  by (simp add: store_word_def)

lemma loop_length [simp]:
  "length (set_bit_loop b n x mem) = length mem" "length (clear_bit_loop b n x mem) = length mem"
  by (induction n arbitrary: x mem) (simp_all add: Let_def)

lemma bit_set_mask: "which < 64 \<Longrightarrow> bit (v OR 2 ^ which :: u64) k \<longleftrightarrow> bit v k \<or> k = which"
  by (auto simp: bit_simps)

lemma bit_clear_mask:
  "which < 64 \<Longrightarrow> bit (v AND NOT (2 ^ which) :: u64) k \<longleftrightarrow> bit v k \<and> k \<noteq> which"
  by (auto simp: bit_simps dest: bit_imp_le_length)

lemma and_mask_iff: "which < 64 \<Longrightarrow> (v AND 2 ^ which :: u64) = 0 \<longleftrightarrow> \<not> bit v which"
  using bit_eq_iff [of "v AND 2 ^ which" 0] by (auto simp: bit_simps)

lemma set_mask_nonzero: "which < 64 \<Longrightarrow> (v OR 2 ^ which :: u64) \<noteq> 0"
  using bit_set_mask [of which v which] by auto

lemma div_mod_64: "x div 64 = y div 64 \<Longrightarrow> x mod 64 = y mod 64 \<Longrightarrow> x = (y :: nat)"
  by (metis div_mult_mod_eq)

text \<open>One store at level \<open>d\<close> changes the bits of that word only.\<close>

lemma level_bit_store:
  assumes "pb_layout b (length mem)" "d < pb_used_depths b" "i < level_words b d" "d' < pb_used_depths b"
  shows "level_bit b (store_word b d i v mem) d' x \<longleftrightarrow>
    (if d' = d \<and> x div 64 = i then bit v (x mod 64) else level_bit b mem d' x)"
  using storage_store [OF assms, of "x div 64" v] assms(3) by (auto simp: level_bit_def)

lemma consistent_store:
  assumes "pb_layout b (length mem)" "d < pb_used_depths b" "i < level_words b d" "n \<le> d"
    and "consistent b mem n"
  shows "consistent b (store_word b d i v mem) n"
  unfolding consistent_def
proof (intro allI impI)
  fix d' j assume d': "Suc d' < n"
  have "level_bit b (store_word b d i v mem) d' j = level_bit b mem d' j"
    using level_bit_store [OF assms(1-3), of d'] d' assms(2,4) by simp
  moreover have "storage_word b (store_word b d i v mem) (Suc d') j = storage_word b mem (Suc d') j"
    if "j < level_words b (Suc d')"
    using storage_store [OF assms(1-3), of "Suc d'" j v] that d' assms(2,4) by simp
  ultimately show "level_bit b (store_word b d i v mem) d' j \<longleftrightarrow>
      j < level_words b (Suc d') \<and> storage_word b (store_word b d i v mem) (Suc d') j \<noteq> 0"
    using assms(5) d' by (auto simp: consistent_def)
qed

lemma consistent_Suc:
  "consistent b mem (Suc n) \<longleftrightarrow>
     consistent b mem n \<and>
     (\<forall>e. n = Suc e \<longrightarrow> (\<forall>i. level_bit b mem e i \<longleftrightarrow> i < level_words b n \<and> storage_word b mem n i \<noteq> 0))"
  by (auto simp: consistent_def less_Suc_eq)

text \<open>A store that does not change whether its word is zero keeps the level above consistent.\<close>

lemma consistent_keep:
  assumes "pb_layout b (length mem)" "n < pb_used_depths b" "i < level_words b n"
    and "consistent b mem (Suc n)" "v = 0 \<longleftrightarrow> storage_word b mem n i = 0"
  shows "consistent b (store_word b n i v mem) (Suc n)"
proof -
  have "consistent b (store_word b n i v mem) n"
    using consistent_store [OF assms(1-3)] assms(4) by (simp add: consistent_Suc)
  moreover have "level_bit b (store_word b n i v mem) e j \<longleftrightarrow>
      j < level_words b n \<and> storage_word b (store_word b n i v mem) n j \<noteq> 0" if "n = Suc e" for e j
    using level_bit_store [OF assms(1-3), of e v j] storage_store [OF assms(1-3), of n j v] assms(2,4,5) that
    by (auto simp: consistent_Suc split: if_splits)
  ultimately show ?thesis by (simp add: consistent_Suc)
qed

text \<open>A store followed by the update of the summary bit above restores consistency.\<close>

lemma consistent_propagate:
  assumes "pb_layout b (length mem)" "Suc e < pb_used_depths b" "i < level_words b (Suc e)"
    and "consistent b mem (Suc (Suc e))" "consistent b mem' (Suc e)"
    and word: "\<And>j. j < level_words b (Suc e) \<Longrightarrow>
      storage_word b mem' (Suc e) j = storage_word b (store_word b (Suc e) i v mem) (Suc e) j"
    and bits: "\<And>y. level_bit b mem' e y \<longleftrightarrow> (if y = i then v \<noteq> 0 else level_bit b mem e y)"
  shows "consistent b mem' (Suc (Suc e))"
proof -
  have "level_bit b mem' e j \<longleftrightarrow> j < level_words b (Suc e) \<and> storage_word b mem' (Suc e) j \<noteq> 0" for j
    using word [of j] bits [of j] storage_store [OF assms(1-3), of "Suc e" j v] assms(2-4)
    by (auto simp: consistent_Suc split: if_splits)
  then show ?thesis using assms(5) by (simp add: consistent_Suc)
qed

text \<open>The effect of a loop that starts at level \<open>n\<close>.\<close>

definition loop_effect :: "KPageBitmap \<Rightarrow> nat \<Rightarrow> u64 list \<Rightarrow> u64 list \<Rightarrow> (nat \<Rightarrow> bool) \<Rightarrow> bool" where
  "loop_effect b n mem mem' bits \<longleftrightarrow>
     consistent b mem' (Suc n) \<and> (\<forall>y. level_bit b mem' n y \<longleftrightarrow> bits y) \<and>
     (\<forall>d i. n < d \<and> d < pb_used_depths b \<and> i < level_words b d \<longrightarrow>
        storage_word b mem' d i = storage_word b mem d i) \<and>
     (\<forall>a. a \<notin> footprint b \<longrightarrow> mem' ! a = mem ! a)"

lemma loop_effect_store:
  assumes "pb_layout b (length mem)" "n < pb_used_depths b" "i < level_words b n"
    and "consistent b mem (Suc n)" "n = 0 \<or> (v = 0 \<longleftrightarrow> storage_word b mem n i = 0)"
  shows "loop_effect b n mem (store_word b n i v mem)
    (\<lambda>y. if y div 64 = i then bit v (y mod 64) else level_bit b mem n y)"
proof -
  have "consistent b (store_word b n i v mem) (Suc n)"
    using assms(5) consistent_keep [OF assms(1-4)] by (auto simp: consistent_def)
  then show ?thesis
    using level_bit_store [OF assms(1-3), of n v] storage_store [OF assms(1-3)] layout_address [OF assms(1-3)]
      assms(2)
    by (auto simp: loop_effect_def) (auto simp: store_word_def nth_list_update)
qed

lemma loop_effect_propagate:
  assumes lay: "pb_layout b (length mem)" and n: "Suc e < pb_used_depths b" and i: "i < level_words b (Suc e)"
    and c: "consistent b mem (Suc (Suc e))"
    and rec: "loop_effect b e (store_word b (Suc e) i v mem) mem'
      (\<lambda>y. if y = i then v \<noteq> 0 else level_bit b mem e y)"
  shows "loop_effect b (Suc e) mem mem'
    (\<lambda>y. if y div 64 = i then bit v (y mod 64) else level_bit b mem (Suc e) y)"
proof -
  let ?m = "store_word b (Suc e) i v mem"
  have word: "storage_word b mem' (Suc e) j = storage_word b ?m (Suc e) j" if "j < level_words b (Suc e)" for j
    using rec that n by (auto simp: loop_effect_def)
  have bits: "level_bit b mem' e y \<longleftrightarrow> (if y = i then v \<noteq> 0 else level_bit b mem e y)" for y
    using rec by (simp add: loop_effect_def)
  have "consistent b mem' (Suc (Suc e))"
    by (rule consistent_propagate [OF lay n i c _ word bits]) (use rec in \<open>simp add: loop_effect_def\<close>)
  moreover have "level_bit b mem' (Suc e) y \<longleftrightarrow> level_bit b ?m (Suc e) y" for y
    using word [of "y div 64"] by (auto simp: level_bit_def)
  moreover have "storage_word b mem' d j = storage_word b mem d j"
    if "Suc e < d" "d < pb_used_depths b" "j < level_words b d" for d j
    using rec that storage_store [OF lay n i, of d j v] by (auto simp: loop_effect_def)
  moreover have "mem' ! a = mem ! a" if "a \<notin> footprint b" for a
  proof -
    have "pb_bit_storages b ! Suc e + i \<noteq> a" using that layout_address(2) [OF lay n i] by auto
    then show ?thesis using rec that by (simp add: loop_effect_def store_word_def)
  qed
  ultimately show ?thesis using level_bit_store [OF lay n i, of "Suc e" v] n by (simp add: loop_effect_def)
qed

lemma index_above:
  assumes "pb_layout b len" "Suc e < pb_used_depths b" "i < level_words b (Suc e)"
  shows "i div 64 < level_words b e"
proof -
  have "i < 64 * level_words b e" using assms by (auto simp: pb_layout_def intro: less_le_trans)
  then show ?thesis by (simp add: less_mult_imp_div_less mult.commute)
qed

lemma loop_effect_cong: "loop_effect b n mem mem' f \<Longrightarrow> (\<And>y. f y \<longleftrightarrow> g y) \<Longrightarrow> loop_effect b n mem mem' g"
  by (simp add: loop_effect_def)

lemma set_bit_loop_effect:
  assumes "pb_layout b (length mem)" "n < pb_used_depths b" "consistent b mem (Suc n)"
    and "x div 64 < level_words b n" "\<not> level_bit b mem n x"
  shows "loop_effect b n mem (set_bit_loop b (Suc n) x mem) (\<lambda>y. y = x \<or> level_bit b mem n y) \<and>
    set_bit_asserts b (Suc n) x mem"
  using assms
proof (induction n arbitrary: x mem)
  case 0
  let ?v = "storage_word b mem 0 (x div 64)"
  have "loop_effect b 0 mem (store_word b 0 (x div 64) (?v OR push_bit (x mod 64) 1) mem)
      (\<lambda>y. y = x \<or> level_bit b mem 0 y)"
    by (rule loop_effect_cong [OF loop_effect_store [OF 0(1,2,4,3)]])
      (use 0 in \<open>auto simp: bit_set_mask level_bit_def dest: div_mod_64\<close>)
  then show ?case using 0 by (cases "?v = 0") (simp_all add: Let_def and_mask_iff level_bit_def)
next
  case (Suc e)
  let ?i = "x div 64" and ?w = "x mod 64"
  let ?v = "storage_word b mem (Suc e) ?i"
  let ?v' = "?v OR push_bit ?w 1"
  let ?m = "store_word b (Suc e) ?i ?v' mem"
  have new: "(if y div 64 = ?i then bit ?v' (y mod 64) else level_bit b mem (Suc e) y) \<longleftrightarrow>
      y = x \<or> level_bit b mem (Suc e) y" for y
    using Suc.prems(4) by (auto simp: bit_set_mask level_bit_def dest: div_mod_64)
  have assert: "?v AND push_bit ?w 1 = 0" using Suc.prems(4,5) by (simp add: and_mask_iff level_bit_def)
  show ?case
  proof (cases "?v = 0")
    case False
    have "loop_effect b (Suc e) mem ?m (\<lambda>y. y = x \<or> level_bit b mem (Suc e) y)"
      by (rule loop_effect_cong [OF loop_effect_store [OF Suc.prems(1,2,4,3)] new])
        (use False set_mask_nonzero [of ?w ?v] in simp)
    then show ?thesis using False assert by (simp add: Let_def)
  next
    case True
    have e: "e < pb_used_depths b" using Suc.prems(2) by simp
    have above: "level_bit b ?m e y \<longleftrightarrow> level_bit b mem e y" for y
      using level_bit_store [OF Suc.prems(1,2,4) e, of ?v' y] by simp
    have "\<not> level_bit b mem e ?i" using Suc.prems(3) True by (auto simp: consistent_Suc)
    moreover have "consistent b ?m (Suc e)"
      using consistent_store [OF Suc.prems(1,2,4), of "Suc e" ?v'] Suc.prems(3) by (simp add: consistent_Suc)
    moreover have "?i div 64 < level_words b e" by (rule index_above [OF Suc.prems(1,2,4)])
    ultimately have rec: "loop_effect b e ?m (set_bit_loop b (Suc e) ?i ?m) (\<lambda>y. y = ?i \<or> level_bit b ?m e y)"
      and "set_bit_asserts b (Suc e) ?i ?m"
      using Suc.IH [of ?m ?i] Suc.prems(1) e above by simp_all
    moreover have "loop_effect b (Suc e) mem (set_bit_loop b (Suc e) ?i ?m) (\<lambda>y. y = x \<or> level_bit b mem (Suc e) y)"
      by (rule loop_effect_cong [OF loop_effect_propagate [OF Suc.prems(1,2,4,3)] new])
        (rule loop_effect_cong [OF rec], use above set_mask_nonzero [of ?w ?v] in auto)
    ultimately show ?thesis
      unfolding set_bit_loop.simps(2) [of b "Suc e"] set_bit_asserts.simps(2) [of b "Suc e"] Let_def
      using True assert by simp
  qed
qed

lemma clear_bit_loop_effect:
  assumes "pb_layout b (length mem)" "n < pb_used_depths b" "consistent b mem (Suc n)" "level_bit b mem n x"
  shows "loop_effect b n mem (clear_bit_loop b (Suc n) x mem) (\<lambda>y. y \<noteq> x \<and> level_bit b mem n y) \<and>
    clear_bit_asserts b (Suc n) x mem"
  using assms
proof (induction n arbitrary: x mem)
  case 0
  have x: "x div 64 < level_words b 0" using 0(4) by (simp add: level_bit_def)
  let ?v = "storage_word b mem 0 (x div 64)"
  have "loop_effect b 0 mem (store_word b 0 (x div 64) (?v AND NOT (push_bit (x mod 64) 1)) mem)
      (\<lambda>y. y \<noteq> x \<and> level_bit b mem 0 y)"
    by (rule loop_effect_cong [OF loop_effect_store [OF 0(1,2) x 0(3)]])
      (use x in \<open>auto simp: bit_clear_mask level_bit_def dest: div_mod_64\<close>)
  then show ?case
    using 0 by (cases "?v AND NOT (2 ^ (x mod 64)) = 0") (simp_all add: Let_def and_mask_iff level_bit_def)
next
  case (Suc e)
  let ?i = "x div 64" and ?w = "x mod 64"
  let ?v = "storage_word b mem (Suc e) ?i"
  let ?v' = "?v AND NOT (push_bit ?w 1)"
  let ?m = "store_word b (Suc e) ?i ?v' mem"
  have i: "?i < level_words b (Suc e)" and old: "bit ?v ?w" using Suc.prems(4) by (simp_all add: level_bit_def)
  have new: "(if y div 64 = ?i then bit ?v' (y mod 64) else level_bit b mem (Suc e) y) \<longleftrightarrow>
      y \<noteq> x \<and> level_bit b mem (Suc e) y" for y
    using i by (auto simp: bit_clear_mask level_bit_def dest: div_mod_64)
  have nonzero: "?v \<noteq> 0" using old by auto
  have assert: "?v AND push_bit ?w 1 \<noteq> 0" using old by (simp add: and_mask_iff)
  show ?case
  proof (cases "?v' = 0")
    case False
    have "loop_effect b (Suc e) mem ?m (\<lambda>y. y \<noteq> x \<and> level_bit b mem (Suc e) y)"
      by (rule loop_effect_cong [OF loop_effect_store [OF Suc.prems(1,2) i Suc.prems(3)] new])
        (use False nonzero in blast)
    then show ?thesis
      unfolding clear_bit_loop.simps(2) [of b "Suc e"] clear_bit_asserts.simps(2) [of b "Suc e"] Let_def
      using False assert by argo
  next
    case True
    have e: "e < pb_used_depths b" using Suc.prems(2) by simp
    have above: "level_bit b ?m e y \<longleftrightarrow> level_bit b mem e y" for y
      using level_bit_store [OF Suc.prems(1,2) i e, of ?v' y] by simp
    have "level_bit b ?m e ?i" using Suc.prems(3) nonzero i unfolding above by (auto simp: consistent_Suc)
    moreover have "consistent b ?m (Suc e)"
      using consistent_store [OF Suc.prems(1,2) i, of "Suc e" ?v'] Suc.prems(3) by (simp add: consistent_Suc)
    ultimately have rec: "loop_effect b e ?m (clear_bit_loop b (Suc e) ?i ?m) (\<lambda>y. y \<noteq> ?i \<and> level_bit b ?m e y)"
      and asserts: "clear_bit_asserts b (Suc e) ?i ?m"
      using Suc.IH [of ?m ?i] Suc.prems(1) e unfolding store_length by blast+
    have "loop_effect b (Suc e) mem (clear_bit_loop b (Suc e) ?i ?m) (\<lambda>y. y \<noteq> x \<and> level_bit b mem (Suc e) y)"
      by (rule loop_effect_cong [OF loop_effect_propagate [OF Suc.prems(1,2) i Suc.prems(3)] new])
        (rule loop_effect_cong [OF rec], use above True in auto)
    then show ?thesis
      unfolding clear_bit_loop.simps(2) [of b "Suc e"] clear_bit_asserts.simps(2) [of b "Suc e"] Let_def
      using True assert asserts by argo
  qed
qed

section \<open>The operations on the set of free offsets\<close>

lemma free_offsets_bound: "x \<in> free_offsets b mem \<Longrightarrow> x < capacity b"
  by (auto simp: free_offsets_def level_bit_def capacity_def less_mult_imp_div_less mult.commute
      div_less_iff_less_mult)

lemma free_offsets_finite [simp]: "finite (free_offsets b mem)"
  by (rule finite_subset [of _ "{..<capacity b}"]) (auto dest: free_offsets_bound)

lemma level_num_bits [simp]:
  "level_words (b \<lparr> pb_num_bits := n \<rparr>) = level_words b" "storage_word (b \<lparr> pb_num_bits := n \<rparr>) = storage_word b"
  "pb_layout (b \<lparr> pb_num_bits := n \<rparr>) = pb_layout b" "level_bit (b \<lparr> pb_num_bits := n \<rparr>) = level_bit b"
  "consistent (b \<lparr> pb_num_bits := n \<rparr>) = consistent b" "free_offsets (b \<lparr> pb_num_bits := n \<rparr>) = free_offsets b"
  "footprint (b \<lparr> pb_num_bits := n \<rparr>) = footprint b" "capacity (b \<lparr> pb_num_bits := n \<rparr>) = capacity b"
  by (auto simp: fun_eq_iff level_words_def storage_word_def pb_layout_def level_bit_def consistent_def
      free_offsets_def footprint_def capacity_def)

lemma level_rng [simp]:
  "level_words (b \<lparr> pb_rng := g \<rparr>) = level_words b" "storage_word (b \<lparr> pb_rng := g \<rparr>) = storage_word b"
  "pb_layout (b \<lparr> pb_rng := g \<rparr>) = pb_layout b" "level_bit (b \<lparr> pb_rng := g \<rparr>) = level_bit b"
  "consistent (b \<lparr> pb_rng := g \<rparr>) = consistent b" "free_offsets (b \<lparr> pb_rng := g \<rparr>) = free_offsets b"
  "footprint (b \<lparr> pb_rng := g \<rparr>) = footprint b" "capacity (b \<lparr> pb_rng := g \<rparr>) = capacity b"
  by (auto simp: fun_eq_iff level_words_def storage_word_def pb_layout_def level_bit_def consistent_def
      free_offsets_def footprint_def capacity_def)

lemma card_bound:
  assumes "pb_layout b (length mem)" "length mem < 2 ^ 57"
  shows "card (free_offsets b mem) < 2 ^ 63" "capacity b < 2 ^ 63"
proof -
  have "pb_bit_storages b ! (pb_used_depths b - 1) + i < length mem" if "i < level_words b (pb_used_depths b - 1)" for i
    using layout_address(1) [OF assms(1) _ that] assms(1) by (simp add: pb_layout_def)
  from this [of "level_words b (pb_used_depths b - 1) - 1"]
  have "level_words b (pb_used_depths b - 1) \<le> length mem" by (cases "level_words b (pb_used_depths b - 1)") auto
  then show cap: "capacity b < 2 ^ 63" using assms(2) by (simp add: capacity_def)
  have "card (free_offsets b mem) \<le> card {..<capacity b}"
    by (rule card_mono) (auto dest: free_offsets_bound)
  then show "card (free_offsets b mem) < 2 ^ 63" using cap by simp
qed

lemma SetBit_spec:
  assumes ok: "pb_ok b mem" and x: "x < capacity b" "x \<notin> free_offsets b mem" and s: "SetBit x (b, mem) = (b', mem')"
  shows "pb_ok b' mem' \<and> free_offsets b' mem' = insert x (free_offsets b mem) \<and>
    set_bit_asserts b (pb_used_depths b) x mem \<and> b' = b \<lparr> pb_num_bits := pb_num_bits b + 1 \<rparr> \<and>
    length mem' = length mem \<and> (\<forall>a. a \<notin> footprint b \<longrightarrow> mem' ! a = mem ! a)"
proof -
  let ?n = "pb_used_depths b - 1"
  have lay: "pb_layout b (length mem)" "length mem < 2 ^ 57" and c: "consistent b mem (Suc ?n)"
    and n: "?n < pb_used_depths b" "Suc ?n = pb_used_depths b"
    using ok by (auto simp: pb_ok_def pb_layout_def)
  have "x div 64 < level_words b ?n" using x(1) by (simp add: capacity_def less_mult_imp_div_less mult.commute)
  moreover have "\<not> level_bit b mem ?n x" using x(2) by (simp add: free_offsets_def)
  ultimately have eff: "loop_effect b ?n mem mem' (\<lambda>y. y = x \<or> level_bit b mem ?n y)"
    and asserts: "set_bit_asserts b (pb_used_depths b) x mem" and mem': "mem' = set_bit_loop b (pb_used_depths b) x mem"
    using set_bit_loop_effect [OF lay(1) n(1) c] s n(2) by (auto simp: SetBit_def)
  have num: "pb_num_bits b = card (free_offsets b mem)" using ok by (simp add: pb_ok_def)
  then have b': "b' = b \<lparr> pb_num_bits := pb_num_bits b + 1 \<rparr>" using s card_bound(1) [OF lay] by (auto simp: SetBit_def)
  have free: "free_offsets b mem' = insert x (free_offsets b mem)"
    using eff by (auto simp: free_offsets_def loop_effect_def)
  have "pb_ok b' mem'"
    using ok eff n(2) free x(2) num unfolding b' by (simp add: pb_ok_def loop_effect_def mem')
  then show ?thesis using free asserts b' eff by (simp add: loop_effect_def mem')
qed

lemma ClearBit_spec:
  assumes ok: "pb_ok b mem" and x: "x \<in> free_offsets b mem" and s: "ClearBit x (b, mem) = (b', mem')"
  shows "pb_ok b' mem' \<and> free_offsets b' mem' = free_offsets b mem - {x} \<and>
    clear_bit_asserts b (pb_used_depths b) x mem \<and> b' = b \<lparr> pb_num_bits := pb_num_bits b - 1 \<rparr> \<and>
    length mem' = length mem \<and> (\<forall>a. a \<notin> footprint b \<longrightarrow> mem' ! a = mem ! a)"
proof -
  let ?n = "pb_used_depths b - 1"
  have lay: "pb_layout b (length mem)" "length mem < 2 ^ 57" and c: "consistent b mem (Suc ?n)"
    and n: "?n < pb_used_depths b" "Suc ?n = pb_used_depths b"
    using ok by (auto simp: pb_ok_def pb_layout_def)
  have "level_bit b mem ?n x" using x by (simp add: free_offsets_def)
  then have eff: "loop_effect b ?n mem mem' (\<lambda>y. y \<noteq> x \<and> level_bit b mem ?n y)"
    and asserts: "clear_bit_asserts b (pb_used_depths b) x mem"
    and mem': "mem' = clear_bit_loop b (pb_used_depths b) x mem"
    using clear_bit_loop_effect [OF lay(1) n(1) c] s n(2) by (auto simp: ClearBit_def)
  have num: "pb_num_bits b = card (free_offsets b mem)" using ok by (simp add: pb_ok_def)
  moreover have "0 < card (free_offsets b mem)" using x by (auto simp: card_gt_0_iff)
  ultimately have b': "b' = b \<lparr> pb_num_bits := pb_num_bits b - 1 \<rparr>"
    using s card_bound(1) [OF lay] by (auto simp: ClearBit_def)
  have free: "free_offsets b mem' = free_offsets b mem - {x}"
    using eff by (auto simp: free_offsets_def loop_effect_def)
  have "pb_ok b' mem'"
    using ok eff n(2) free x num unfolding b' by (simp add: pb_ok_def loop_effect_def mem')
  then show ?thesis using free asserts b' eff by (simp add: loop_effect_def mem')
qed

section \<open>Searching\<close>

lemma select_loop_bit:
  assumes "cur = 0 \<or> (\<exists>m. cur = 2 ^ m)" "bitmap \<noteq> 0" "\<And>i. bit bitmap i \<Longrightarrow> i < max 1 (2 * cur)"
  shows "\<exists>k. fst (select_loop cur bitmap selected g) = selected + k \<and> bit bitmap k"
  using assms
proof (induction cur bitmap selected g rule: select_loop.induct)
  case (1 cur bitmap selected g)
  show ?case
  proof (cases "cur = 0")
    case True
    obtain i where "bit bitmap i" using 1(4) by (auto simp: bit_eq_iff)
    then show ?thesis using 1(5) [of i] True by (simp add: select_loop.simps [of 0])
  next
    case False
    then obtain m where m: "cur = 2 ^ m" using 1(3) by blast
    let ?high = "drop_bit cur bitmap" and ?low = "bitmap AND NOT (push_bit cur (- 1))"
    obtain c g1 where c: "(if ?high = 0 then (False, g) else if ?low = 0 then (True, g) else GenerateRandomBit g) = (c, g1)"
      by (metis surj_pair)
    have half: "cur div 2 = 0 \<or> (\<exists>m. cur div 2 = 2 ^ m)" "max 1 (2 * (cur div 2)) = cur"
      by (cases m; simp add: m)+
    have low_bit: "bit ?low k \<longleftrightarrow> bit bitmap k \<and> k < cur" for k
      by (auto simp: bit_simps dest: bit_imp_le_length)
    have high_bit: "bit ?high k \<longleftrightarrow> bit bitmap (cur + k)" for k by (simp add: bit_simps)
    have eq: "select_loop cur bitmap selected g =
        (if c then select_loop (cur div 2) ?high (selected + cur) g1 else select_loop (cur div 2) ?low selected g1)"
      by (subst select_loop.simps) (simp only: False if_False Let_def c prod.case)
    show ?thesis
    proof (cases c)
      case True
      then have "?high \<noteq> 0" using c by (auto split: if_splits)
      then have "\<exists>k. fst (select_loop (cur div 2) ?high (selected + cur) g1) = selected + cur + k \<and> bit ?high k"
        by (intro 1(1) [OF False refl refl c [symmetric] refl True half(1)])
          (use 1(5) half(2) in \<open>force simp: high_bit\<close>)+
      then show ?thesis using eq True high_bit by auto
    next
      case f: False
      have "?low \<noteq> 0"
      proof (cases "?high = 0")
        case True
        obtain i where i: "bit bitmap i" using 1(4) by (auto simp: bit_eq_iff)
        have "i < cur" using i high_bit [of "i - cur"] True by (cases "i < cur") auto
        then show ?thesis using i low_bit [of i] by auto
      qed (use c f in \<open>auto split: if_splits\<close>)
      then have "\<exists>k. fst (select_loop (cur div 2) ?low selected g1) = selected + k \<and> bit ?low k"
        by (intro 1(2) [OF False refl refl c [symmetric] refl f half(1)])
          (use half(2) low_bit in blast, use half(2) low_bit in metis)
      then show ?thesis using eq f low_bit by auto
    qed
  qed
qed

lemma SelectRandomBit_bit:
  assumes "v \<noteq> 0"
  shows "bit v (fst (SelectRandomBit v g))"
proof -
  have "\<exists>m. (64 div 2 :: nat) = 2 ^ m" by (rule exI [of _ 5]) simp
  then have "\<exists>k. fst (select_loop (64 div 2) v 0 g) = 0 + k \<and> bit v k"
    by (intro select_loop_bit) (use assms in \<open>auto dest: bit_imp_le_length\<close>)
  then show ?thesis by (auto simp: SelectRandomBit_def)
qed

lemma find_loop_spec:
  assumes "pb_layout b (length mem)" "consistent b mem (pb_used_depths b)" "depth < pb_used_depths b"
    and "offset < level_words b depth" "storage_word b mem depth offset \<noteq> 0"
    and "\<not> random \<Longrightarrow> (\<forall>i < level_words b depth. storage_word b mem depth i \<noteq> 0 \<longrightarrow> offset \<le> i)"
  shows "\<exists>x. fst (find_loop b mem random depth offset g) = Some x \<and> x \<in> free_offsets b mem \<and>
    (\<not> random \<longrightarrow> (\<forall>y \<in> free_offsets b mem. x \<le> y))"
  using assms
proof (induction b mem random depth offset g rule: find_loop.induct)
  case (1 b mem random depth offset g)
  let ?v = "storage_word b mem depth offset"
  obtain k g1 where k: "(if random then SelectRandomBit ?v g else (countr_zero ?v, g)) = (k, g1)" by (metis surj_pair)
  have kv: "bit ?v k" "k < 64"
    using k SelectRandomBit_bit [OF 1(6), of g] countr_zero_spec [OF 1(6)]
    by (auto split: if_splits dest: bit_imp_le_length)
  have parts: "(offset * 64 + k) div 64 = offset" "(offset * 64 + k) mod 64 = k" using kv(2) by simp_all
  let ?o = "offset * 64 + k"
  have set: "level_bit b mem depth ?o" using kv 1(5) by (simp add: level_bit_def)
  have least: "?o \<le> y" if "\<not> random" "level_bit b mem depth y" for y
  proof -
    have y: "y div 64 < level_words b depth" "bit (storage_word b mem depth (y div 64)) (y mod 64)"
      using that(2) by (simp_all add: level_bit_def)
    then have le: "offset \<le> y div 64" using 1(7) [OF that(1)] by auto
    have kc: "k = countr_zero ?v" using k that(1) by simp
    show ?thesis
    proof (cases "y div 64 = offset")
      case True
      then have "k \<le> y mod 64" using countr_zero_spec(3) [OF 1(6), of "y mod 64"] y(2) kc by force
      then show ?thesis using True div_mult_mod_eq [of y 64] by linarith
    next
      case False
      then have "offset * 64 + 64 \<le> y div 64 * 64" using le by simp
      then show ?thesis using kv(2) div_mult_mod_eq [of y 64] by linarith
    qed
  qed
  show ?case
  proof (cases "depth + 1 < pb_used_depths b")
    case True
    then have word: "level_bit b mem depth i \<longleftrightarrow> i < level_words b (Suc depth) \<and> storage_word b mem (Suc depth) i \<noteq> 0" for i
      using 1(3) by (simp add: consistent_def)
    have "\<exists>x. fst (find_loop b mem random (depth + 1) ?o g1) = Some x \<and> x \<in> free_offsets b mem \<and>
        (\<not> random \<longrightarrow> (\<forall>y \<in> free_offsets b mem. x \<le> y))"
      by (rule 1(1) [OF refl 1(6) k [symmetric] refl refl True 1(2,3)])
        (use True word [of ?o] set word least in auto)
    then show ?thesis using 1(6) k True by (subst find_loop.simps) (simp add: Let_def)
  next
    case False
    then have "depth = pb_used_depths b - 1" using 1(4) by simp
    moreover have "fst (find_loop b mem random depth offset g) = Some ?o"
      using 1(6) k False by (subst find_loop.simps) (simp add: Let_def)
    ultimately show ?thesis using set least by (auto simp: free_offsets_def)
  qed
qed

lemma empty_levels:
  assumes "consistent b mem (pb_used_depths b)" "level_words b 0 = 1" "storage_word b mem 0 0 = 0"
    "d < pb_used_depths b" "i < level_words b d"
  shows "storage_word b mem d i = 0"
  using assms(4,5)
proof (induction d arbitrary: i)
  case (Suc d)
  have "\<not> level_bit b mem d i" using Suc.IH [of "i div 64"] Suc.prems(1) by (auto simp: level_bit_def)
  then show ?case using assms(1) Suc.prems by (auto simp: consistent_def)
qed (use assms(2,3) in simp)

lemma FindFreeBlock_spec:
  assumes ok: "pb_ok b mem"
  shows "\<exists>g. snd (FindFreeBlock random mem b) = b \<lparr> pb_rng := g \<rparr> \<and>
    (case fst (FindFreeBlock random mem b) of
       None \<Rightarrow> free_offsets b mem = {}
     | Some x \<Rightarrow> x \<in> free_offsets b mem \<and> (\<not> random \<longrightarrow> x = Min (free_offsets b mem)))"
proof -
  have lay: "pb_layout b (length mem)" "consistent b mem (pb_used_depths b)" "0 < pb_used_depths b"
    "level_words b 0 = 1"
    using ok by (auto simp: pb_ok_def pb_layout_def)
  have res: "fst (FindFreeBlock random mem b) = fst (find_loop b mem random 0 0 (pb_rng b))"
    "\<exists>g. snd (FindFreeBlock random mem b) = b \<lparr> pb_rng := g \<rparr>"
    by (auto simp: FindFreeBlock_def case_prod_beta)
  show ?thesis
  proof (cases "storage_word b mem 0 0 = 0")
    case True
    have "free_offsets b mem = {}"
      using empty_levels [OF lay(2,4) True] lay(3) by (auto simp: free_offsets_def level_bit_def)
    moreover have "fst (FindFreeBlock random mem b) = None"
      unfolding res(1) using True by (subst find_loop.simps) simp
    ultimately show ?thesis using res(2) by simp
  next
    case False
    then obtain x where x: "fst (FindFreeBlock random mem b) = Some x" "x \<in> free_offsets b mem"
      "\<not> random \<longrightarrow> (\<forall>y \<in> free_offsets b mem. x \<le> y)"
      using find_loop_spec [OF lay(1-3), of 0 random "pb_rng b"] lay(4) res(1) by auto
    moreover have "\<not> random \<longrightarrow> x = Min (free_offsets b mem)" using x(2,3) by (auto intro: Min_eqI [symmetric])
    ultimately show ?thesis using res(2) by simp
  qed
qed

section \<open>Clearing a range\<close>

lemma range_mask_bit: "s + n \<le> 64 \<Longrightarrow> bit (push_bit s (mask n) :: u64) k \<longleftrightarrow> s \<le> k \<and> k < s + n"
  by (auto simp: bit_simps)

lemma all_mask_iff:
  fixes v m :: u64
  shows "v AND m = m \<longleftrightarrow> (\<forall>k. bit m k \<longrightarrow> bit v k)"
proof
  show "v AND m = m \<Longrightarrow> \<forall>k. bit m k \<longrightarrow> bit v k" by (metis bit_and_iff)
  show "\<forall>k. bit m k \<longrightarrow> bit v k \<Longrightarrow> v AND m = m" by (rule bit_word_eqI) (auto simp: bit_and_iff)
qed

text \<open>Storing a word at the lowest level and clearing its summary bit when it has become zero.\<close>

lemma lowest_store_effect:
  assumes lay: "pb_layout b (length mem)" and c: "consistent b mem (pb_used_depths b)"
    and n: "n = pb_used_depths b - 1" and i: "i < level_words b n" and old: "storage_word b mem n i \<noteq> 0"
  shows "loop_effect b n mem
    (if v = 0 then clear_bit_loop b n i (store_word b n i v mem) else store_word b n i v mem)
    (\<lambda>y. if y div 64 = i then bit v (y mod 64) else level_bit b mem n y)"
proof -
  have pos: "0 < pb_used_depths b" using lay by (simp add: pb_layout_def)
  have nD: "n < pb_used_depths b" and cn: "consistent b mem (Suc n)" using c pos n by simp_all
  show ?thesis
  proof (cases n)
    case 0
    from loop_effect_store [OF lay nD i cn, of v] 0 show ?thesis
      unfolding 0 clear_bit_loop.simps if_cancel by blast
  next
    case (Suc e)
    show ?thesis
    proof (cases "v = 0")
      case False
      then show ?thesis using loop_effect_store [OF lay nD i cn, of v] old by simp
    next
      case True
      let ?m = "store_word b n i v mem"
      have e: "e < pb_used_depths b" "n \<noteq> e" using nD Suc by simp_all
      have above: "level_bit b ?m e y \<longleftrightarrow> level_bit b mem e y" for y
        using level_bit_store [OF lay nD i e(1), of v y] e(2) by simp
      have "level_bit b ?m e i" using cn old i unfolding above by (simp add: consistent_Suc Suc)
      moreover have "consistent b ?m (Suc e)"
        using consistent_store [OF lay nD i, of n v] cn by (simp add: consistent_Suc Suc)
      ultimately have rec: "loop_effect b e ?m (clear_bit_loop b (Suc e) i ?m) (\<lambda>y. y \<noteq> i \<and> level_bit b ?m e y)"
        using clear_bit_loop_effect [of b ?m e i] lay e(1) by simp
      have "loop_effect b n mem (clear_bit_loop b (Suc e) i ?m)
          (\<lambda>y. if y div 64 = i then bit v (y mod 64) else level_bit b mem n y)"
        unfolding Suc
        by (rule loop_effect_propagate [OF lay nD [unfolded Suc] i [unfolded Suc] cn [unfolded Suc]])
          (rule loop_effect_cong [OF rec [unfolded Suc]], use above True Suc in auto)
      then show ?thesis using True Suc by simp
    qed
  qed
qed

lemma loop_effect_ok:
  assumes "pb_ok b mem" "loop_effect b (pb_used_depths b - 1) mem mem' bits" "length mem' = length mem"
  shows "consistent b mem' (pb_used_depths b)" "free_offsets b mem' = {y. bits y}"
    "a \<notin> footprint b \<Longrightarrow> mem' ! a = mem ! a"
  using assms by (auto simp: loop_effect_def free_offsets_def pb_ok_def pb_layout_def)

lemma words_full_iff:
  "words_full b mem i n \<longleftrightarrow> (\<forall>j. i \<le> j \<and> j < i + n \<longrightarrow> storage_word b mem (pb_used_depths b - 1) j = - 1)"
proof (induction n arbitrary: i)
  case (Suc n)
  have "(i \<le> j \<and> j < i + Suc n) \<longleftrightarrow> j = i \<or> (i + 1 \<le> j \<and> j < i + 1 + n)" for j by auto
  with Suc [of "i + 1"] show ?case by auto
qed auto

lemma clear_words_effect:
  assumes "pb_layout b (length mem)" "consistent b mem (pb_used_depths b)" "i + n \<le> level_words b (pb_used_depths b - 1)"
    and "words_full b mem i n"
  shows "loop_effect b (pb_used_depths b - 1) mem (clear_words b i n mem)
      (\<lambda>y. \<not> (i \<le> y div 64 \<and> y div 64 < i + n) \<and> level_bit b mem (pb_used_depths b - 1) y) \<and>
    length (clear_words b i n mem) = length mem"
  using assms
proof (induction n arbitrary: i mem)
  case 0
  then show ?case by (simp add: loop_effect_def pb_layout_def)
next
  case (Suc n)
  let ?d = "pb_used_depths b - 1"
  let ?m = "clear_bit_loop b ?d i (store_word b ?d i 0 mem)"
  have D: "?d < pb_used_depths b" "Suc ?d = pb_used_depths b" using Suc.prems(1) by (simp_all add: pb_layout_def)
  have i: "i < level_words b ?d" and full: "storage_word b mem ?d i = - 1" "words_full b mem (i + 1) n"
    using Suc.prems(3,4) by (simp_all split: if_splits)
  have nonzero: "storage_word b mem ?d i \<noteq> 0" using full(1) by simp
  have eff: "loop_effect b ?d mem ?m (\<lambda>y. if y div 64 = i then bit (0 :: u64) (y mod 64) else level_bit b mem ?d y)"
    using lowest_store_effect [OF Suc.prems(1,2) refl i nonzero, of 0] by (simp only: simp_thms if_True)
  have word: "storage_word b ?m ?d j = storage_word b mem ?d j" if "j < level_words b ?d" "j \<noteq> i" for j
  proof (rule bit_word_eqI)
    fix k assume "k < LENGTH(64)"
    then have "level_bit b ?m ?d (j * 64 + k) \<longleftrightarrow> level_bit b mem ?d (j * 64 + k)"
      using eff that by (simp add: loop_effect_def)
    then show "bit (storage_word b ?m ?d j) k = bit (storage_word b mem ?d j) k"
      using that \<open>k < LENGTH(64)\<close> by (simp add: level_bit_def)
  qed
  have "words_full b ?m (i + 1) n"
    unfolding words_full_iff
  proof (intro allI impI)
    fix j assume j: "i + 1 \<le> j \<and> j < i + 1 + n"
    then have "storage_word b mem ?d j = - 1" using full(2) by (simp only: words_full_iff)
    then show "storage_word b ?m ?d j = - 1" using word [of j] j Suc.prems(3) by simp
  qed
  then have IH: "loop_effect b ?d ?m (clear_words b (i + 1) n ?m)
      (\<lambda>y. \<not> (i + 1 \<le> y div 64 \<and> y div 64 < i + 1 + n) \<and> level_bit b ?m ?d y)"
    "length (clear_words b (i + 1) n ?m) = length mem"
    using Suc.IH [of ?m "i + 1"] Suc.prems(1,3) eff D(2) by (simp_all add: loop_effect_def)
  have "loop_effect b ?d mem (clear_words b (i + 1) n ?m)
      (\<lambda>y. \<not> (i \<le> y div 64 \<and> y div 64 < i + Suc n) \<and> level_bit b mem ?d y)"
    using IH(1) eff D by (auto simp: loop_effect_def)
  then show ?case using IH(2) by simp
qed

lemma word_minus_one: "v = (- 1 :: u64) \<longleftrightarrow> (\<forall>k < 64. bit v k)"
  by (auto simp: bit_eq_iff [of v "- 1"] bit_simps dest: bit_imp_le_length)

lemma range_in_word:
  assumes "x mod 64 + n \<le> 64"
  shows "(x \<le> y \<and> y < x + n) \<longleftrightarrow>
    y div 64 = x div 64 \<and> x mod 64 \<le> y mod 64 \<and> y mod 64 < x mod 64 + (n :: nat)"
proof -
  define q s p t where "q = x div 64" "s = x mod 64" "p = y div 64" "t = y mod 64"
  have eqs: "x = 64 * q + s" "y = 64 * p + t" "s < 64" "t < 64" by (simp_all add: q_s_p_t_def)
  have fit: "s + n \<le> 64" using assms by (simp add: q_s_p_t_def)
  have "64 * q + s \<le> 64 * p + t \<and> 64 * p + t < 64 * q + s + n \<longleftrightarrow> p = q \<and> s \<le> t \<and> t < s + n"
  proof (cases p q rule: linorder_cases)
    case less
    then have "64 * p + 64 \<le> 64 * q" by simp
    then show ?thesis using less eqs(4) by linarith
  next
    case greater
    then have "64 * q + 64 \<le> 64 * p" by simp
    then show ?thesis using greater fit by linarith
  qed simp
  then show ?thesis by (simp only: q_s_p_t_def mult_div_mod_eq)
qed

lemma range_of_words: "(64 * i \<le> y \<and> y < 64 * i + 64 * k) \<longleftrightarrow> i \<le> y div 64 \<and> y div 64 < i + (k :: nat)"
  by (simp add: less_eq_div_iff_mult_less_eq div_less_iff_less_mult algebra_simps)

text \<open>Clearing a range succeeds exactly when all its offsets are free, and then removes them.\<close>

definition range_cleared :: "nat \<Rightarrow> nat \<Rightarrow> KPageBitmap \<times> u64 list \<Rightarrow> bool \<times> KPageBitmap \<times> u64 list \<Rightarrow> bool" where
  "range_cleared x n s t \<longleftrightarrow>
     (let (b, mem) = s; (r, b', mem') = t
      in (r \<longleftrightarrow> {x..<x + n} \<subseteq> free_offsets b mem) \<and>
         (if r then pb_ok b' mem' \<and> free_offsets b' mem' = free_offsets b mem - {x..<x + n} \<and>
            b' = b \<lparr> pb_num_bits := pb_num_bits b - n \<rparr> \<and> length mem' = length mem \<and>
            (\<forall>a. a \<notin> footprint b \<longrightarrow> mem' ! a = mem ! a)
          else b' = b \<and> mem' = mem))"

lemma range_clearedI:
  assumes ok: "pb_ok b mem" and sub: "{x..<x + n} \<subseteq> free_offsets b mem" and len: "length m = length mem"
    and eff: "loop_effect b (pb_used_depths b - 1) mem m
      (\<lambda>y. y \<notin> {x..<x + n} \<and> level_bit b mem (pb_used_depths b - 1) y)"
  shows "range_cleared x n (b, mem) (True, b \<lparr> pb_num_bits := u64_sub (pb_num_bits b) n \<rparr>, m)"
proof -
  have lay: "pb_layout b (length mem)" "length mem < 2 ^ 57" and num: "pb_num_bits b = card (free_offsets b mem)"
    using ok by (simp_all add: pb_ok_def)
  have free: "free_offsets b m = free_offsets b mem - {x..<x + n}"
    unfolding loop_effect_ok(2) [OF ok eff len] by (auto simp: free_offsets_def)
  have "n \<le> card (free_offsets b mem)" using card_mono [OF _ sub] by simp
  then have sub64: "u64_sub (pb_num_bits b) n = pb_num_bits b - n"
    using num card_bound(1) [OF lay] by simp
  have "card (free_offsets b m) = card (free_offsets b mem) - n" using free sub by (simp add: card_Diff_subset)
  then have "pb_ok (b \<lparr> pb_num_bits := u64_sub (pb_num_bits b) n \<rparr>) m"
    using lay len loop_effect_ok(1) [OF ok eff len] unfolding sub64 by (simp add: pb_ok_def num)
  then show ?thesis using free sub sub64 len loop_effect_ok(3) [OF ok eff len] by (simp add: range_cleared_def)
qed

lemma small_range_free:
  assumes fit: "x mod 64 + n \<le> 64" and i: "x div 64 < level_words b (pb_used_depths b - 1)"
  shows "storage_word b mem (pb_used_depths b - 1) (x div 64) AND push_bit (x mod 64) (mask n) =
      push_bit (x mod 64) (mask n) \<longleftrightarrow> {x..<x + n} \<subseteq> free_offsets b mem"
    (is "?v AND ?m = ?m \<longleftrightarrow> _")
proof
  assume "?v AND ?m = ?m"
  then show "{x..<x + n} \<subseteq> free_offsets b mem"
    using range_in_word [OF fit] i
    by (auto simp: all_mask_iff range_mask_bit [OF fit] free_offsets_def level_bit_def)
next
  assume sub: "{x..<x + n} \<subseteq> free_offsets b mem"
  have "bit ?v k" if "bit ?m k" for k
  proof -
    have k: "k < 64" "x mod 64 \<le> k" "k < x mod 64 + n" using that fit by (simp_all add: range_mask_bit [OF fit])
    then have "x div 64 * 64 + k \<in> {x..<x + n}" using range_in_word [OF fit, of "x div 64 * 64 + k"] by simp
    then have "level_bit b mem (pb_used_depths b - 1) (x div 64 * 64 + k)" using sub by (auto simp: free_offsets_def)
    then show ?thesis using k(1) by (simp add: level_bit_def)
  qed
  then show "?v AND ?m = ?m" by (simp add: all_mask_iff)
qed

lemma large_range_free:
  assumes "i + k \<le> level_words b (pb_used_depths b - 1)"
  shows "words_full b mem i k \<longleftrightarrow> {64 * i..<64 * i + 64 * k} \<subseteq> free_offsets b mem"
proof
  assume "words_full b mem i k"
  then show "{64 * i..<64 * i + 64 * k} \<subseteq> free_offsets b mem"
    using range_of_words [of i _ k] assms
    by (auto simp: words_full_iff word_minus_one free_offsets_def level_bit_def)
next
  assume sub: "{64 * i..<64 * i + 64 * k} \<subseteq> free_offsets b mem"
  have "bit (storage_word b mem (pb_used_depths b - 1) j) m" if "i \<le> j" "j < i + k" "m < 64" for j m
  proof -
    have "j * 64 + m \<in> {64 * i..<64 * i + 64 * k}" using that range_of_words [of i "j * 64 + m" k] by simp
    then have "level_bit b mem (pb_used_depths b - 1) (j * 64 + m)" using sub by (auto simp: free_offsets_def)
    then show ?thesis using that(3) by (simp add: level_bit_def)
  qed
  then show "words_full b mem i k" by (simp add: words_full_iff word_minus_one)
qed

lemma ClearRange_small:
  assumes ok: "pb_ok b mem" and fit: "x mod 64 + n \<le> 64" and n: "0 < n" "n < 64" "x + n \<le> capacity b"
  shows "range_cleared x n (b, mem) (ClearRange x n (b, mem))"
proof -
  let ?d = "pb_used_depths b - 1" and ?i = "x div 64"
  let ?v = "storage_word b mem ?d ?i" and ?m = "push_bit (x mod 64) (mask n) :: u64"
  have i: "?i < level_words b ?d" using n by (simp add: capacity_def less_mult_imp_div_less mult.commute)
  note all = small_range_free [OF fit i, of mem]
  show ?thesis
  proof (cases "?v AND ?m = ?m")
    case False
    then show ?thesis using all n(2) by (simp add: ClearRange_def range_cleared_def Let_def)
  next
    case True
    let ?v1 = "?v AND NOT ?m"
    let ?mem1 = "store_word b ?d ?i ?v1 mem"
    let ?mem2 = "if ?v1 = 0 then clear_bit_loop b ?d ?i ?mem1 else ?mem1"
    have "x \<in> free_offsets b mem" using all True n(1) by auto
    then have "?v \<noteq> 0" by (auto simp: free_offsets_def level_bit_def)
    have "loop_effect b ?d mem ?mem2 (\<lambda>y. if y div 64 = ?i then bit ?v1 (y mod 64) else level_bit b mem ?d y)"
      by (rule lowest_store_effect [OF _ _ refl i \<open>?v \<noteq> 0\<close>]) (use ok in \<open>simp_all add: pb_ok_def\<close>)
    then have "loop_effect b ?d mem ?mem2 (\<lambda>y. y \<notin> {x..<x + n} \<and> level_bit b mem ?d y)"
    proof (rule loop_effect_cong)
      fix y
      have "bit ?v1 (y mod 64) \<longleftrightarrow> bit ?v (y mod 64) \<and> \<not> bit ?m (y mod 64)"
        by (auto simp: bit_and_iff bit_not_iff dest: bit_imp_le_length)
      then show "(if y div 64 = ?i then bit ?v1 (y mod 64) else level_bit b mem ?d y) \<longleftrightarrow>
          y \<notin> {x..<x + n} \<and> level_bit b mem ?d y"
        unfolding range_mask_bit [OF fit] atLeastLessThan_iff range_in_word [OF fit]
        using i by (auto simp: level_bit_def)
    qed
    moreover have "ClearRange x n (b, mem) =
        (True, b \<lparr> pb_num_bits := u64_sub (pb_num_bits b) n \<rparr>, ?mem2)"
      unfolding ClearRange_def Let_def prod.case using True n(2) by (simp only: simp_thms if_True if_False)
    moreover have "length ?mem2 = length mem" by simp
    ultimately show ?thesis using range_clearedI [OF ok _ _, of x n ?mem2] all True by argo
  qed
qed

lemma ClearRange_large:
  assumes ok: "pb_ok b mem" and al: "x mod 64 = 0" "n mod 64 = 0" and n: "\<not> n < 64" "x + n \<le> capacity b"
  shows "range_cleared x n (b, mem) (ClearRange x n (b, mem))"
proof -
  define i k where "i = x div 64" and "k = n div 64"
  have xk: "x = 64 * i" "n = 64 * k" using al by (simp_all add: i_def k_def mod_0_imp_dvd)
  have le: "i + k \<le> level_words b (pb_used_depths b - 1)" using n(2) xk by (simp add: capacity_def)
  note all = large_range_free [OF le, of mem]
  have result: "ClearRange x n (b, mem) =
      (if words_full b mem i k
       then (True, b \<lparr> pb_num_bits := u64_sub (pb_num_bits b) n \<rparr>, clear_words b i k mem) else (False, b, mem))"
    using n(1) by (simp add: ClearRange_def Let_def i_def k_def)
  show ?thesis
  proof (cases "words_full b mem i k")
    case False
    then show ?thesis using all result xk by (simp add: range_cleared_def)
  next
    case True
    have "pb_layout b (length mem)" "consistent b mem (pb_used_depths b)" using ok by (simp_all add: pb_ok_def)
    from clear_words_effect [OF this le True]
    have eff: "loop_effect b (pb_used_depths b - 1) mem (clear_words b i k mem)
        (\<lambda>y. \<not> (i \<le> y div 64 \<and> y div 64 < i + k) \<and> level_bit b mem (pb_used_depths b - 1) y)"
      and len: "length (clear_words b i k mem) = length mem" by blast+
    have "loop_effect b (pb_used_depths b - 1) mem (clear_words b i k mem)
        (\<lambda>y. y \<notin> {x..<x + n} \<and> level_bit b mem (pb_used_depths b - 1) y)"
      by (rule loop_effect_cong [OF eff]) (simp only: xk atLeastLessThan_iff range_of_words)
    from range_clearedI [OF ok _ len this] show ?thesis using all True result xk by simp
  qed
qed

lemma ClearRange_spec:
  assumes "pb_ok b mem" "ClearRange_asserts x n" "0 < n" "x + n \<le> capacity b"
  shows "range_cleared x n (b, mem) (ClearRange x n (b, mem))"
  using assms ClearRange_small [of b mem x n] ClearRange_large [of b mem x n]
  by (cases "n < 64") (auto simp: ClearRange_asserts_def)

section \<open>Initialization\<close>

lemma words_for_eq: "n + 64 \<le> 2 ^ 64 \<Longrightarrow> words_for n = (n + 63) div 64"
  by (simp add: words_for_def AlignUp_exact)

lemma initialize_levels_spec:
  assumes "k \<le> length (pb_bit_storages b)" "k \<le> length (pb_end_storages b)" "n + 64 \<le> 2 ^ 64"
    and "initialize_levels k st n b = (st', b')"
  shows "st' = st + overhead_words k n \<and>
    (\<forall>d \<ge> k. pb_bit_storages b' ! d = pb_bit_storages b ! d \<and> pb_end_storages b' ! d = pb_end_storages b ! d) \<and>
    (\<forall>d < k. pb_bit_storages b' ! d \<le> pb_end_storages b' ! d) \<and>
    (\<forall>d. Suc d < k \<longrightarrow> pb_end_storages b' ! Suc d = pb_bit_storages b' ! d \<and>
       level_words b' (Suc d) \<le> 64 * level_words b' d) \<and>
    (0 < k \<longrightarrow> pb_bit_storages b' ! (k - 1) = st \<and> pb_end_storages b' ! (k - 1) = st + words_for n \<and>
       pb_end_storages b' ! 0 = st' \<and> level_words b' 0 = (words_for ^^ k) n) \<and>
    pb_used_depths b' = pb_used_depths b \<and> pb_num_bits b' = pb_num_bits b \<and> pb_rng b' = pb_rng b"
  using assms
proof (induction k arbitrary: st n b)
  case 0
  then show ?case by simp
next
  case (Suc k)
  let ?w = "words_for n"
  let ?b = "b \<lparr> pb_bit_storages := (pb_bit_storages b) [k := st], pb_end_storages := (pb_end_storages b) [k := st + ?w] \<rparr>"
  have w: "?w + 64 \<le> 2 ^ 64" "?w \<le> 64 * words_for ?w"
    using Suc.prems(3) by (simp_all add: words_for_eq)
  have rec: "initialize_levels k (st + ?w) ?w ?b = (st', b')" using Suc.prems(4) by (simp add: Let_def)
  note IH = Suc.IH [OF _ _ w(1) rec]
  have k: "k < length (pb_bit_storages b)" "k < length (pb_end_storages b)" using Suc.prems(1,2) by simp_all
  then have top: "pb_bit_storages b' ! k = st" "pb_end_storages b' ! k = st + ?w" using IH by simp_all
  have link: "pb_end_storages b' ! Suc d = pb_bit_storages b' ! d \<and> level_words b' (Suc d) \<le> 64 * level_words b' d"
    if "Suc d < Suc k" for d
  proof (cases "Suc d = k")
    case True
    then have "pb_bit_storages b' ! d = st + ?w" "pb_end_storages b' ! d = st + ?w + words_for ?w" using IH k by auto
    then show ?thesis using top w(2) True by (auto simp: level_words_def)
  qed (use IH k that in simp)
  have zero: "pb_end_storages b' ! 0 = st' \<and> level_words b' 0 = (words_for ^^ Suc k) n"
  proof (cases k)
    case 0
    then show ?thesis using top IH k by (simp add: level_words_def)
  next
    case (Suc j)
    then have "pb_end_storages b' ! 0 = st' \<and> level_words b' 0 = (words_for ^^ k) ?w" using IH k by simp
    then show ?thesis by (simp add: funpow_swap1)
  qed
  show ?case using IH k top link zero by (auto simp: less_Suc_eq)
qed

lemma GetRequiredDepth_bounds: "0 < GetRequiredDepth n \<and> n < 64 ^ GetRequiredDepth n"
proof (induction n rule: GetRequiredDepth.induct)
  case (1 n)
  show ?case
  proof (cases "n div 64 = 0")
    case True
    then have "n < 64" by (simp add: div_eq_0_iff)
    then show ?thesis using True by (simp add: GetRequiredDepth.simps [of n])
  next
    case False
    then have "n div 64 < 64 ^ GetRequiredDepth (n div 64)" using 1 by simp
    then have "n < 64 * 64 ^ GetRequiredDepth (n div 64)" by (simp add: div_less_iff_less_mult mult.commute)
    then show ?thesis using False by (simp add: GetRequiredDepth.simps [of n])
  qed
qed

lemma words_for_iterate:
  assumes "0 < n" "n + 64 \<le> 2 ^ 64" "n \<le> 64 ^ k"
  shows "(words_for ^^ k) n = 1"
  using assms
proof (induction k arbitrary: n)
  case (Suc k)
  have "words_for n = (n + 63) div 64" using Suc.prems by (simp add: words_for_eq)
  moreover have "(n + 63) div 64 \<le> 64 ^ k"
  proof -
    have "n + 63 < (64 ^ k + 1) * 64" using Suc.prems(3) by simp
    then show ?thesis by (metis div_less_iff_less_mult less_Suc_eq_le Suc_eq_plus1 zero_less_numeral)
  qed
  moreover have "0 < (n + 63) div 64" "(n + 63) div 64 + 64 \<le> 2 ^ 64" using Suc.prems by (simp_all add: div_greater_zero_iff)
  ultimately show ?case using Suc.IH [of "words_for n"] by (simp add: funpow_swap1)
qed (use assms in auto)

lemma Initialize_ok:
  assumes init: "KPageBitmap_Initialize st n (KPageBitmap_create seed) = (st', b)"
    and n: "0 < n" "n + 64 \<le> 2 ^ 64" "KPageBitmap_Initialize_asserts n"
    and mem: "st' \<le> length mem" "length mem < 2 ^ 57" "\<And>a. st \<le> a \<Longrightarrow> a < st' \<Longrightarrow> mem ! a = 0"
  shows "pb_ok b mem \<and> free_offsets b mem = {} \<and> footprint b = {st..<st'} \<and> n \<le> capacity b \<and>
    st' = st + CalculateManagementOverheadSize n div 8"
proof -
  let ?D = "GetRequiredDepth n" and ?c = "KPageBitmap_create seed \<lparr> pb_num_bits := 0, pb_used_depths := GetRequiredDepth n \<rparr>"
  have D: "0 < ?D" "n \<le> 64 ^ ?D" using GetRequiredDepth_bounds [of n] by simp_all
  have len: "?D \<le> length (pb_bit_storages ?c)" "?D \<le> length (pb_end_storages ?c)"
    using n(3) by (simp_all add: KPageBitmap_create_def KPageBitmap_Initialize_asserts_def)
  note levels = initialize_levels_spec [OF len n(2) init [unfolded KPageBitmap_Initialize_def]]
  have b: "pb_used_depths b = ?D" "pb_num_bits b = 0" using levels by simp_all
  have one: "level_words b 0 = 1" using levels D(1) words_for_iterate [OF n(1,2) D(2)] by simp
  have lay: "pb_layout b (length mem)" unfolding pb_layout_def b(1) using levels D(1) one mem(1) by auto
  have foot: "footprint b = {st..<st'}" unfolding footprint_def b(1) using levels D(1) by simp
  have zero: "storage_word b mem d i = 0" if "d < ?D" "i < level_words b d" for d i
    using layout_address(2) [OF lay, of d i] that b(1) foot mem(3) by (simp add: storage_word_def)
  have bits: "\<not> level_bit b mem d x" if "d < ?D" for d x using zero [OF that, of "x div 64"] by (auto simp: level_bit_def)
  have "consistent b mem ?D" using zero bits by (auto simp: consistent_def)
  moreover have free: "free_offsets b mem = {}" using bits [of "?D - 1"] D(1) b(1) by (auto simp: free_offsets_def)
  ultimately have "pb_ok b mem" using lay mem(2) b by (simp add: pb_ok_def)
  moreover have "n \<le> capacity b"
    using levels D(1) n(2) b(1) by (simp add: capacity_def level_words_def words_for_eq)
  ultimately show ?thesis using free foot levels by (simp add: CalculateManagementOverheadSize_def)
qed

section \<open>Random choices and ranges\<close>

lemma GenerateRandom_less:
  assumes "0 < m"
  shows "fst (GenerateRandom m g) < m"
proof -
  have "fst (GenerateRandom m g) = r mod m" if "GenerateRandomBits (1 + (64 - countl_zero m)) g = (r, g1)" for r g1
    using that by (simp add: GenerateRandom_def minus_div_mult_eq_mod)
  moreover have "r mod m < m" for r :: u64 using assms by (simp add: word_less_nat_alt unat_mod)
  ultimately show ?thesis by (metis surj_pair)
qed

definition range_option :: "KPageBitmap \<Rightarrow> u64 list \<Rightarrow> nat \<Rightarrow> nat \<Rightarrow> bool" where
  "range_option b mem count x \<longleftrightarrow>
     {x..<x + count} \<subseteq> free_offsets b mem \<and> x mod 64 mod count = 0 \<and> x mod 64 + count \<le> 64"

definition search_ok :: "range_search \<Rightarrow> nat set \<Rightarrow> bool" where
  "search_ok r S \<longleftrightarrow>
     (rs_num_valid r = 0 \<longleftrightarrow> S = {}) \<and> (case rs_chosen r of None \<Rightarrow> S = {} | Some x \<Rightarrow> x \<in> S)"

lemma try_option_ok:
  assumes "search_ok r S" "try_option count s (v, r) k = (v', r')"
  shows "v' = drop_bit count v \<and>
    search_ok r' (if v AND mask count = mask count then insert (s * 64 + k * count) S else S)"
  using assms
  by (auto simp: try_option_def search_ok_def Let_def split: if_splits prod.splits option.splits)

definition option_free :: "nat \<Rightarrow> u64 \<Rightarrow> nat \<Rightarrow> bool" where
  "option_free count w j \<longleftrightarrow> (\<forall>i < count. bit w (j * count + i))"

lemma option_free_mask:
  "count \<le> 64 \<Longrightarrow> drop_bit (j * count) w AND mask count = (mask count :: u64) \<longleftrightarrow> option_free count w j"
  by (auto simp: all_mask_iff option_free_def bit_simps)

lemma options_of_word:
  assumes "count \<le> 64" "search_ok r S"
  shows "\<exists>r'. foldl (try_option count s) (w, r) [0..<k] = (drop_bit (k * count) w, r') \<and>
    search_ok r' (S \<union> {s * 64 + j * count | j. j < k \<and> option_free count w j})"
proof (induction k)
  case 0
  then show ?case using assms(2) by simp
next
  case (Suc k)
  let ?T = "\<lambda>k. S \<union> {s * 64 + j * count | j. j < k \<and> option_free count w j}"
  from Suc obtain r1 where r1: "foldl (try_option count s) (w, r) [0..<k] = (drop_bit (k * count) w, r1)"
    "search_ok r1 (?T k)" by blast
  obtain v r2 where r2: "try_option count s (drop_bit (k * count) w, r1) k = (v, r2)" by (metis surj_pair)
  have "?T (Suc k) = (if option_free count w k then insert (s * 64 + k * count) (?T k) else ?T k)"
    by (auto simp: less_Suc_eq)
  moreover have "drop_bit count (drop_bit (k * count) w) = drop_bit (Suc k * count) w"
    by (simp add: drop_bit_drop_bit add.commute)
  ultimately show ?case
    using r1 r2 try_option_ok [OF r1(2) r2] option_free_mask [OF assms(1), of k w] by simp
qed

lemma search_words:
  assumes "count \<le> 64" "search_ok r S"
  shows "search_ok (foldl (try_storage count b mem) r [0..<m])
    (S \<union> {s * 64 + j * count | s j. s < m \<and> j < max (64 div count) 1 \<and>
       option_free count (storage_word b mem (pb_used_depths b - 1) s) j})"
proof (induction m)
  case 0
  then show ?case using assms(2) by simp
next
  case (Suc m)
  let ?K = "max (64 div count) 1" and ?w = "storage_word b mem (pb_used_depths b - 1)"
  let ?T = "\<lambda>m. S \<union> {s * 64 + j * count | s j. s < m \<and> j < ?K \<and> option_free count (?w s) j}"
  have "?T (Suc m) = ?T m \<union> {m * 64 + j * count | j. j < ?K \<and> option_free count (?w m) j}"
    by (auto simp: less_Suc_eq)
  then show ?case
    using options_of_word [OF assms(1) Suc, of m "?w m" ?K] by (auto simp: try_storage_def)
qed

lemma range_option_iff:
  assumes "0 < count" "count \<le> 64"
  shows "range_option b mem count x \<longleftrightarrow>
    (\<exists>s j. x = s * 64 + j * count \<and> s < level_words b (pb_used_depths b - 1) \<and> j < 64 div count \<and>
       option_free count (storage_word b mem (pb_used_depths b - 1) s) j)"
proof
  let ?w = "storage_word b mem (pb_used_depths b - 1)"
  assume opt: "range_option b mem count x"
  define s j where "s = x div 64" and "j = x mod 64 div count"
  have j: "j * count = x mod 64" using opt div_mult_mod_eq [of "x mod 64" count] by (simp add: range_option_def j_def)
  have x: "x = s * 64 + j * count" by (simp add: j s_def)
  have jK: "j < 64 div count"
  proof -
    have "(j + 1) * count \<le> 64" using opt j by (simp add: range_option_def)
    then show ?thesis using assms(1) by (simp add: less_eq_div_iff_mult_less_eq Suc_le_eq [symmetric])
  qed
  have bits: "level_bit b mem (pb_used_depths b - 1) (x + i)" if "i < count" for i
  proof -
    have "x + i \<in> {x..<x + count}" using that by simp
    then have "x + i \<in> free_offsets b mem" using opt unfolding range_option_def by blast
    then show ?thesis by (simp add: free_offsets_def)
  qed
  have "(x + i) div 64 = s \<and> (x + i) mod 64 = j * count + i" if "i < count" for i
  proof -
    have "j * count + i < 64" using opt that j by (simp add: range_option_def)
    moreover have "x + i = s * 64 + (j * count + i)" using x by simp
    ultimately show ?thesis by (metis div_mult_self3 mod_mult_self3 div_less mod_less add_0_right zero_neq_numeral)
  qed
  then have "option_free count (?w s) j" "s < level_words b (pb_used_depths b - 1)"
    using bits bits [of 0] assms(1) by (auto simp: option_free_def level_bit_def s_def)
  then show "\<exists>s j. x = s * 64 + j * count \<and> s < level_words b (pb_used_depths b - 1) \<and> j < 64 div count \<and>
      option_free count (?w s) j"
    using x jK by blast
next
  assume "\<exists>s j. x = s * 64 + j * count \<and> s < level_words b (pb_used_depths b - 1) \<and> j < 64 div count \<and>
      option_free count (storage_word b mem (pb_used_depths b - 1) s) j"
  then obtain s j where x: "x = s * 64 + j * count" and s: "s < level_words b (pb_used_depths b - 1)"
    and j: "j < 64 div count" and opt: "option_free count (storage_word b mem (pb_used_depths b - 1) s) j" by blast
  have "(j + 1) * count \<le> 64"
    using j assms(1) by (simp add: less_eq_div_iff_mult_less_eq Suc_le_eq [symmetric])
  then have fit: "j * count + count \<le> 64" by simp
  then have mod: "x mod 64 = j * count" using x assms(1) by simp
  have "y \<in> free_offsets b mem" if "x \<le> y" "y < x + count" for y
  proof -
    define i where "i = y - x"
    have i: "y = s * 64 + (j * count + i)" "i < count" "j * count + i < 64" using that x fit by (simp_all add: i_def)
    then have "y div 64 = s" "y mod 64 = j * count + i" by simp_all
    then show ?thesis using opt s i(2) by (simp add: free_offsets_def level_bit_def option_free_def)
  qed
  then show "range_option b mem count x" using fit mod by (auto simp: range_option_def)
qed

lemma FindFreeRange_spec:
  assumes ok: "pb_ok b mem" and count: "0 < count" "count \<le> 64"
  shows "\<exists>g. snd (FindFreeRange count mem b) = b \<lparr> pb_rng := g \<rparr> \<and>
    (case fst (FindFreeRange count mem b) of
       None \<Rightarrow> \<forall>x. \<not> range_option b mem count x
     | Some x \<Rightarrow> range_option b mem count x)"
proof -
  let ?d = "pb_used_depths b - 1" and ?r = "\<lparr> rs_num_valid = 0, rs_chosen = None, rs_rng = pb_rng b \<rparr>"
  show ?thesis
  proof (cases "level_words b ?d = 0")
    case True
    then have "\<not> range_option b mem count x" for x using range_option_iff [OF count] by simp
    moreover have "FindFreeRange count mem b = (None, b)" using True by (simp add: FindFreeRange_def level_words_def)
    ultimately show ?thesis by (auto intro: exI [of _ "pb_rng b"])
  next
    case False
    let ?f = "foldl (try_storage count b mem) ?r [0..<level_words b ?d]"
    have storage: "pb_bit_storages b ! ?d < pb_end_storages b ! ?d"
      and entries: "max (pb_end_storages b ! ?d - pb_bit_storages b ! ?d) 1 = level_words b ?d"
      using False by (simp_all add: level_words_def)
    have "1 \<le> 64 div count" using count by (simp add: less_eq_div_iff_mult_less_eq)
    then have K: "max (64 div count) 1 = 64 div count" by simp
    have "search_ok ?r {}" by (simp add: search_ok_def)
    from search_words [OF count(2) this, of b mem "level_words b ?d"]
    have ok: "search_ok ?f {x. range_option b mem count x}"
      unfolding K range_option_iff [OF count] by (simp add: conj_ac)
    have "FindFreeRange count mem b = (rs_chosen ?f, b \<lparr> pb_rng := rs_rng ?f \<rparr>)"
      unfolding FindFreeRange_def Let_def by (simp only: entries storage count simp_thms if_False)
    then show ?thesis using ok by (auto simp: search_ok_def split: option.splits)
  qed
qed

section \<open>The bitmap is a set\<close>

text \<open>The operations of a client that keeps the assertions of the code: offsets within the bitmap, set when clear and cleared when set.\<close>

datatype bitmap_op = OpSet nat | OpClear nat | OpClearRange nat nat bool | OpFind bool "nat option"

inductive pb_step :: "KPageBitmap \<times> u64 list \<Rightarrow> bitmap_op \<Rightarrow> KPageBitmap \<times> u64 list \<Rightarrow> bool" where
  "x < capacity b \<Longrightarrow> x \<notin> free_offsets b mem \<Longrightarrow> pb_step (b, mem) (OpSet x) (SetBit x (b, mem))"
| "x \<in> free_offsets b mem \<Longrightarrow> pb_step (b, mem) (OpClear x) (ClearBit x (b, mem))"
| "ClearRange_asserts x n \<Longrightarrow> 0 < n \<Longrightarrow> x + n \<le> capacity b \<Longrightarrow> ClearRange x n (b, mem) = (r, t) \<Longrightarrow>
     pb_step (b, mem) (OpClearRange x n r) t"
| "FindFreeBlock random mem b = (r, b') \<Longrightarrow> pb_step (b, mem) (OpFind random r) (b', mem)"

inductive_cases pb_stepE: "pb_step s e t"

fun set_op :: "bitmap_op \<Rightarrow> nat set \<Rightarrow> nat set" where
  "set_op (OpSet x) S = insert x S"
| "set_op (OpClear x) S = S - {x}"
| "set_op (OpClearRange x n r) S = (if {x..<x + n} \<subseteq> S then S - {x..<x + n} else S)"
| "set_op (OpFind random r) S = S"

text \<open>What a step keeps: the invariant, the words outside the bitmap and its place.\<close>

lemma pb_step_spec:
  assumes step: "pb_step s e t" and ok: "pb_ok (fst s) (snd s)"
  shows "pb_ok (fst t) (snd t) \<and> free_offsets (fst t) (snd t) = set_op e (free_offsets (fst s) (snd s)) \<and>
    footprint (fst t) = footprint (fst s) \<and> capacity (fst t) = capacity (fst s) \<and>
    length (snd t) = length (snd s) \<and> (\<forall>a. a \<notin> footprint (fst s) \<longrightarrow> snd t ! a = snd s ! a)"
  using step
proof (cases rule: pb_step.cases)
  case (1 x b mem)
  obtain b' mem' where t: "SetBit x (b, mem) = (b', mem')" by (metis surj_pair)
  then show ?thesis using SetBit_spec [OF _ 1(4,5) t] ok 1 by auto
next
  case (2 x b mem)
  obtain b' mem' where t: "ClearBit x (b, mem) = (b', mem')" by (metis surj_pair)
  then show ?thesis using ClearBit_spec [OF _ 2(4) t] ok 2 by auto
next
  case (3 x n b mem r)
  then show ?thesis
    using ClearRange_spec [OF _ 3(3-5), of mem] ok
    by (cases t) (auto simp: range_cleared_def split: if_splits)
next
  case (4 random mem b r b')
  then obtain g where "b' = b \<lparr> pb_rng := g \<rparr>" using FindFreeBlock_spec [of b mem random] ok by auto
  then show ?thesis using 4 ok by (simp add: pb_ok_def)
qed

interpretation bitmap: mirrored_system "\<lambda>s. pb_ok (fst s) (snd s)" pb_step "\<lambda>s. pb_ok (fst s) (snd s)"
    "\<lambda>s. free_offsets (fst s) (snd s)" set_op
  by unfold_locales (auto dest: pb_step_spec)

lemma run_frame:
  assumes "run pb_step s es t" "pb_ok (fst s) (snd s)"
  shows "footprint (fst t) = footprint (fst s) \<and> capacity (fst t) = capacity (fst s) \<and>
    (\<forall>a. a \<notin> footprint (fst s) \<longrightarrow> snd t ! a = snd s ! a)"
  using assms
proof (induction rule: run.induct)
  case (run_snoc s es t e u)
  then have "pb_ok (fst t) (snd t)" using bitmap.run_preserves by blast
  from pb_step_spec [OF run_snoc.hyps(2) this] show ?case using run_snoc by simp
qed simp

text \<open>
  C38. The bitmap refines a set of offsets. After initialization over zeroed words and any
  sequence of operations, the free offsets are what the same operations make of the empty set, the bit
  count is their number, no word outside the bitmap has changed, the search for a block
  finds the least free offset (or any, when random) exactly when there is one, and the search for a
  range finds an aligned range of free offsets exactly when there is one.
\<close>

theorem bitmap_refines_set:
  assumes init: "KPageBitmap_Initialize st n (KPageBitmap_create seed) = (st', b0)"
    and n: "0 < n" "n + 64 \<le> 2 ^ 64" "KPageBitmap_Initialize_asserts n"
    and mem: "st' \<le> length mem0" "length mem0 < 2 ^ 57" "\<forall>a. st \<le> a \<and> a < st' \<longrightarrow> mem0 ! a = 0"
    and run: "run pb_step (b0, mem0) es (b, mem)"
  shows "free_offsets b mem = fold set_op es {} \<and> pb_num_bits b = card (fold set_op es {}) \<and>
    n \<le> capacity b \<and> (\<forall>a. a \<notin> {st..<st'} \<longrightarrow> mem ! a = mem0 ! a) \<and>
    (case fst (FindFreeBlock random mem b) of
       None \<Rightarrow> fold set_op es {} = {}
     | Some x \<Rightarrow> x \<in> fold set_op es {} \<and> (\<not> random \<longrightarrow> x = Min (fold set_op es {}))) \<and>
    (0 < count \<and> count < 64 \<longrightarrow>
       (case fst (FindFreeRange count mem b) of
          None \<Rightarrow> \<forall>x. \<not> range_option b mem count x
        | Some x \<Rightarrow> range_option b mem count x))"
proof -
  have start: "pb_ok b0 mem0" "free_offsets b0 mem0 = {}" "footprint b0 = {st..<st'}" "n \<le> capacity b0"
    using Initialize_ok [OF init n mem(1,2)] mem(3) by auto
  have ok: "pb_ok b mem" using bitmap.run_preserves [OF run] start(1) by simp
  have free: "free_offsets b mem = fold set_op es {}" using bitmap.run_abs [OF run] start(1,2) by simp
  show ?thesis
    using run_frame [OF run] start ok free FindFreeBlock_spec [OF ok, of random, unfolded free]
      FindFreeRange_spec [OF ok, of count]
    by (auto simp: pb_ok_def)
qed

definition sample_bitmap :: KPageBitmap where
  "sample_bitmap = snd (KPageBitmap_Initialize 0 10 (KPageBitmap_create 0))"

lemma sample_bitmap_init:
  "KPageBitmap_Initialize 0 10 (KPageBitmap_create 0) = (1, sample_bitmap)" "KPageBitmap_Initialize_asserts 10"
  by (simp_all add: sample_bitmap_def KPageBitmap_Initialize_def KPageBitmap_Initialize_asserts_def Let_def
      GetRequiredDepth.simps [of 10] words_for_eq MaxDepth_def)

theorem bitmap_refines_set_witness:
  "\<exists>b mem. run pb_step (sample_bitmap, [0]) [OpSet 5, OpSet 3] (b, mem) \<and> free_offsets b mem = {3, 5} \<and>
     fst (FindFreeBlock False mem b) = Some 3"
proof -
  have zero: "\<forall>a. 0 \<le> a \<and> a < 1 \<longrightarrow> [0 :: u64] ! a = 0" by simp
  have n: "(0 :: nat) < 10" "10 + 64 \<le> (2 :: nat) ^ 64" "(1 :: nat) \<le> length [0 :: u64]" "length [0 :: u64] < 2 ^ 57"
    by simp_all
  have start: "pb_ok sample_bitmap [0] \<and> free_offsets sample_bitmap [0] = {} \<and> 10 \<le> capacity sample_bitmap"
    using Initialize_ok [OF sample_bitmap_init(1) n(1,2) sample_bitmap_init(2) n(3,4)] zero by simp
  obtain b1 m1 where s1: "SetBit 5 (sample_bitmap, [0]) = (b1, m1)" by (metis surj_pair)
  have st1: "pb_step (sample_bitmap, [0]) (OpSet 5) (b1, m1)"
    using pb_step.intros(1) [of 5 sample_bitmap "[0]"] start s1 by simp
  have p1: "pb_ok b1 m1" "free_offsets b1 m1 = {5}" "10 \<le> capacity b1" using pb_step_spec [OF st1] start by auto
  obtain b2 m2 where s2: "SetBit 3 (b1, m1) = (b2, m2)" by (metis surj_pair)
  have st2: "pb_step (b1, m1) (OpSet 3) (b2, m2)"
    using pb_step.intros(1) [of 3 b1 m1] p1 s2 by simp
  have run: "run pb_step (sample_bitmap, [0]) [OpSet 5, OpSet 3] (b2, m2)" by (rule run_two [of pb_step, OF st1 st2])
  from bitmap_refines_set [OF sample_bitmap_init(1) n(1,2) sample_bitmap_init(2) n(3,4) zero run, of False 0]
  have "free_offsets b2 m2 = {3, 5}" "fst (FindFreeBlock False m2 b2) = Some 3"
    by (auto split: option.splits)
  then show ?thesis using run by blast
qed

end
