(* ===== verification/PageHeap.thy ===== *)
theory PageHeap
  imports PageBitmapBehaviour
begin

text \<open>
  The page heap (\<^verbatim>\<open>core/hle/kernel/k_page_heap.{h,cpp}\<close>): free memory in blocks of several sizes, each size
  with a bitmap of its free blocks, all bitmaps in one array of management data. Freeing merges
  neighbouring blocks into the next size; allocating splits a larger block and frees the rest.

  Addresses are natural numbers with the arithmetic of 64 bits written out; the address zero stands for failure, as in
  the code. The sums in the conditions of the loops of \<^verbatim>\<open>Free\<close> are exact, since a heap ends below the last block of
  the address space. The index of a size that runs behind the last one, which the code does not test,
  is the result \<^const>\<open>None\<close>. The seeds of the random generators are arguments.
\<close>

definition NumMemoryBlockPageShifts :: nat where "NumMemoryBlockPageShifts = 7"

definition MemoryBlockPageShifts :: "nat list" where
  "MemoryBlockPageShifts = [0xC, 0x10, 0x15, 0x16, 0x19, 0x1D, 0x1E]"

section \<open>Blocks of one size\<close>

record Block =
  bl_bitmap :: KPageBitmap
  bl_heap_address :: nat
  bl_end_offset :: nat
  bl_block_shift :: nat
  bl_next_block_shift :: nat

definition Block_create :: "u64 \<Rightarrow> Block" where
  "Block_create seed =
     \<lparr> bl_bitmap = KPageBitmap_create seed, bl_heap_address = 0, bl_end_offset = 0, bl_block_shift = 0,
       bl_next_block_shift = 0 \<rparr>"

definition Block_GetSize :: "Block \<Rightarrow> nat" where
  "Block_GetSize b = 2 ^ bl_block_shift b"

definition Block_GetNumPages :: "Block \<Rightarrow> nat" where
  "Block_GetNumPages b = Block_GetSize b div PageSize"

definition Block_GetNumFreeBlocks :: "Block \<Rightarrow> nat" where
  "Block_GetNumFreeBlocks b = pb_num_bits (bl_bitmap b)"

definition Block_GetNumFreePages :: "Block \<Rightarrow> nat" where
  "Block_GetNumFreePages b = u64_mul (Block_GetNumFreeBlocks b) (Block_GetNumPages b)"

definition Block_Initialize :: "nat \<Rightarrow> nat \<Rightarrow> nat \<Rightarrow> nat \<Rightarrow> nat \<Rightarrow> Block \<Rightarrow> nat \<times> Block" where
  "Block_Initialize addr n bs nbs bit_storage b =
     (let stop = u64_add addr n;
          align = (if nbs \<noteq> 0 then 2 ^ nbs else 2 ^ bs);
          addr' = AlignDown addr align;
          stop' = AlignUp stop align;
          end_offset = u64_sub stop' addr' div 2 ^ bs;
          (storage, bitmap) = KPageBitmap_Initialize bit_storage end_offset (bl_bitmap b)
      in (storage, \<lparr> bl_bitmap = bitmap, bl_heap_address = addr', bl_end_offset = end_offset,
                     bl_block_shift = bs, bl_next_block_shift = nbs \<rparr>))"

definition PushBlock :: "nat \<Rightarrow> Block \<times> u64 list \<Rightarrow> nat \<times> Block \<times> u64 list" where
  "PushBlock address s =
     (let (b, mem) = s;
          offset = u64_sub address (bl_heap_address b) div 2 ^ bl_block_shift b;
          (bm1, mem1) = SetBit offset (bl_bitmap b, mem);
          b1 = b \<lparr> bl_bitmap := bm1 \<rparr>
      in if bl_next_block_shift b \<noteq> 0 then
           (let diff = 2 ^ (bl_next_block_shift b - bl_block_shift b);
                offset' = AlignDown offset diff;
                (cleared, bm2, mem2) = ClearRange offset' diff (bm1, mem1)
            in if cleared
               then (u64_add (bl_heap_address b) (u64_mul offset' (2 ^ bl_block_shift b)),
                     b1 \<lparr> bl_bitmap := bm2 \<rparr>, mem2)
               else (0, b1 \<lparr> bl_bitmap := bm2 \<rparr>, mem2))
         else (0, b1, mem1))"

definition PopBlock :: "bool \<Rightarrow> Block \<times> u64 list \<Rightarrow> nat \<times> Block \<times> u64 list" where
  "PopBlock random s =
     (let (b, mem) = s;
          (soffset, bm1) = FindFreeBlock random mem (bl_bitmap b);
          b1 = b \<lparr> bl_bitmap := bm1 \<rparr>
      in case soffset of
           None \<Rightarrow> (0, b1, mem)
         | Some offset \<Rightarrow>
             (let (bm2, mem2) = ClearBit offset (bm1, mem)
              in (u64_add (bl_heap_address b) (u64_mul offset (2 ^ bl_block_shift b)),
                  b1 \<lparr> bl_bitmap := bm2 \<rparr>, mem2)))"

section \<open>The heap\<close>

record KPageHeap =
  ph_heap_address :: nat
  ph_heap_size :: nat
  ph_initial_used_size :: nat
  ph_num_blocks :: nat
  ph_blocks :: "Block list"
  ph_rng :: RandomBitGenerator
  ph_management_data :: "u64 list"

definition KPageHeap_create :: "(nat \<Rightarrow> u64) \<Rightarrow> KPageHeap" where
  "KPageHeap_create seed =
     \<lparr> ph_heap_address = 0, ph_heap_size = 0, ph_initial_used_size = 0, ph_num_blocks = 0,
       ph_blocks = map (\<lambda>i. Block_create (seed i)) [0..<NumMemoryBlockPageShifts],
       ph_rng = RandomBitGenerator_create (seed NumMemoryBlockPageShifts), ph_management_data = [] \<rparr>"

text \<open>The loop that sets up the bitmaps, over the blocks and their shifts.\<close>

fun initialize_blocks :: "nat \<Rightarrow> nat \<Rightarrow> nat \<Rightarrow> nat list \<Rightarrow> Block list \<Rightarrow> nat \<times> Block list" where
  "initialize_blocks addr n storage (cur # shifts) (b # bs) =
     (let next_shift = (case shifts of [] \<Rightarrow> 0 | x # _ \<Rightarrow> x);
          (storage1, b1) = Block_Initialize addr n cur next_shift storage b;
          (storage2, bs1) = initialize_blocks addr n storage1 shifts bs
      in (storage2, b1 # bs1))"
| "initialize_blocks addr n storage _ bs = (storage, bs)"

definition resize :: "nat \<Rightarrow> u64 list \<Rightarrow> u64 list" where
  "resize n xs = take n xs @ replicate (n - length xs) 0"

definition KPageHeap_Initialize :: "nat \<Rightarrow> nat \<Rightarrow> nat \<Rightarrow> nat list \<Rightarrow> KPageHeap \<Rightarrow> nat \<times> KPageHeap" where
  "KPageHeap_Initialize address n management_size block_shifts h =
     (let (storage, bs) = initialize_blocks address n 0 block_shifts (ph_blocks h)
      in (storage,
          h \<lparr> ph_heap_address := address, ph_heap_size := n, ph_num_blocks := length block_shifts,
              ph_management_data := resize (management_size div 8) (ph_management_data h), ph_blocks := bs \<rparr>))"

definition Block_CalculateManagementOverheadSize :: "nat \<Rightarrow> nat \<Rightarrow> nat \<Rightarrow> nat" where
  "Block_CalculateManagementOverheadSize region_size cur_block_shift next_block_shift =
     (let cur_block_size = 2 ^ cur_block_shift;
          align = (if next_block_shift \<noteq> 0 then 2 ^ next_block_shift else cur_block_size)
      in CalculateManagementOverheadSize
           (u64_add (u64_mul align 2) (AlignUp region_size align) div cur_block_size))"

fun overhead_size :: "nat \<Rightarrow> nat list \<Rightarrow> nat" where
  "overhead_size region_size [] = 0"
| "overhead_size region_size (cur # shifts) =
     Block_CalculateManagementOverheadSize region_size cur (case shifts of [] \<Rightarrow> 0 | x # _ \<Rightarrow> x) +
     overhead_size region_size shifts"

definition KPageHeap_CalculateManagementOverheadSize :: "nat \<Rightarrow> nat list \<Rightarrow> nat" where
  "KPageHeap_CalculateManagementOverheadSize region_size block_shifts =
     AlignUp (overhead_size region_size block_shifts) PageSize"

definition GetNumFreePages :: "KPageHeap \<Rightarrow> nat" where
  "GetNumFreePages h = foldl (\<lambda>num_free b. u64_add num_free (Block_GetNumFreePages b)) 0 (take (ph_num_blocks h) (ph_blocks h))"

definition GetFreeSize :: "KPageHeap \<Rightarrow> nat" where
  "GetFreeSize h = u64_mul (GetNumFreePages h) PageSize"

definition SetInitialUsedSize :: "nat \<Rightarrow> KPageHeap \<Rightarrow> KPageHeap" where
  "SetInitialUsedSize reserved_size h =
     h \<lparr> ph_initial_used_size := u64_sub (u64_sub (ph_heap_size h) (u64_mul (GetNumFreePages h) PageSize)) reserved_size \<rparr>"

text \<open>The block sizes: the least one for a request with alignment, and the largest one within a number of pages.\<close>

definition GetAlignedBlockIndex :: "nat \<Rightarrow> nat \<Rightarrow> nat option" where
  "GetAlignedBlockIndex num_pages align_pages =
     find (\<lambda>i. max num_pages align_pages \<le> 2 ^ (MemoryBlockPageShifts ! i) div PageSize)
       [0..<NumMemoryBlockPageShifts]"

definition GetBlockIndex :: "nat \<Rightarrow> nat option" where
  "GetBlockIndex num_pages =
     find (\<lambda>i. 2 ^ (MemoryBlockPageShifts ! i) div PageSize \<le> num_pages) (rev [0..<NumMemoryBlockPageShifts])"

section \<open>Freeing\<close>

definition put_block :: "nat \<Rightarrow> Block \<times> u64 list \<Rightarrow> KPageHeap \<Rightarrow> KPageHeap" where
  "put_block i s h = h \<lparr> ph_blocks := (ph_blocks h) [i := fst s], ph_management_data := snd s \<rparr>"

function FreeBlock :: "nat \<Rightarrow> nat \<Rightarrow> KPageHeap \<Rightarrow> KPageHeap option" where
  "FreeBlock block index h =
     (if index < length (ph_blocks h) then
        (let (block', s) = PushBlock block (ph_blocks h ! index, ph_management_data h);
             h' = put_block index s h
         in if block' \<noteq> 0 then FreeBlock block' (index + 1) h' else Some h')
      else None)"
  by pat_completeness auto
termination
  by (relation "measure (\<lambda>(b, i, h). length (ph_blocks h) - i)") (auto simp: put_block_def)

declare FreeBlock.simps [simp del]

text \<open>The loops of \<^verbatim>\<open>Free\<close>: over the big blocks, and over the smaller ones before and after them.\<close>

function free_big :: "nat \<Rightarrow> nat \<Rightarrow> nat \<Rightarrow> nat \<Rightarrow> KPageHeap \<Rightarrow> KPageHeap option" where
  "free_big block big_end block_size index h =
     (if block < big_end \<and> 0 < block_size
      then Option.bind (FreeBlock block index h) (free_big (block + block_size) big_end block_size index)
      else Some h)"
  by pat_completeness auto
termination
  by (relation "measure (\<lambda>(b, e, s, i, h). e - b)") auto

declare free_big.simps [simp del]

function free_down :: "nat \<Rightarrow> nat \<Rightarrow> nat \<Rightarrow> nat \<Rightarrow> KPageHeap \<Rightarrow> (nat \<times> KPageHeap) option" where
  "free_down before_start before_end block_size index h =
     (if before_start + block_size \<le> before_end \<and> 0 < block_size
      then Option.bind (FreeBlock (before_end - block_size) index h)
             (free_down before_start (before_end - block_size) block_size index)
      else Some (before_end, h))"
  by pat_completeness auto
termination
  by (relation "measure (\<lambda>(s, e, n, i, h). e - s)") auto

declare free_down.simps [simp del]

primrec free_before :: "nat \<Rightarrow> nat \<Rightarrow> nat \<Rightarrow> KPageHeap \<Rightarrow> KPageHeap option" where
  "free_before 0 before_start before_end h = Some h"
| "free_before (Suc i) before_start before_end h =
     Option.bind (free_down before_start before_end (Block_GetSize (ph_blocks h ! i)) i h)
       (\<lambda>(before_end', h'). free_before i before_start before_end' h')"

function free_up :: "nat \<Rightarrow> nat \<Rightarrow> nat \<Rightarrow> nat \<Rightarrow> KPageHeap \<Rightarrow> (nat \<times> KPageHeap) option" where
  "free_up after_start after_end block_size index h =
     (if after_start + block_size \<le> after_end \<and> 0 < block_size
      then Option.bind (FreeBlock after_start index h)
             (free_up (after_start + block_size) after_end block_size index)
      else Some (after_start, h))"
  by pat_completeness auto
termination
  by (relation "measure (\<lambda>(s, e, n, i, h). e - s)") auto

declare free_up.simps [simp del]

primrec free_after :: "nat \<Rightarrow> nat \<Rightarrow> nat \<Rightarrow> KPageHeap \<Rightarrow> KPageHeap option" where
  "free_after 0 after_start after_end h = Some h"
| "free_after (Suc i) after_start after_end h =
     Option.bind (free_up after_start after_end (Block_GetSize (ph_blocks h ! i)) i h)
       (\<lambda>(after_start', h'). free_after i after_start' after_end h')"

text \<open>The largest size with a whole aligned block in the range; \<^const>\<open>None\<close> where the code asserts.\<close>

primrec find_big :: "nat \<Rightarrow> nat \<Rightarrow> nat \<Rightarrow> KPageHeap \<Rightarrow> (nat \<times> nat \<times> nat) option" where
  "find_big 0 start stop h = None"
| "find_big (Suc i) start stop h =
     (let block_size = Block_GetSize (ph_blocks h ! i);
          big_start = AlignUp start block_size;
          big_end = AlignDown stop block_size
      in if big_start < big_end then Some (i, big_start, big_end) else find_big i start stop h)"

definition Free :: "nat \<Rightarrow> nat \<Rightarrow> KPageHeap \<Rightarrow> KPageHeap option" where
  "Free addr num_pages h =
     (if num_pages = 0 then Some h
      else
        (let start = addr; stop = u64_add addr (u64_mul num_pages PageSize)
         in case find_big (ph_num_blocks h) start stop h of
              None \<Rightarrow> Some h
            | Some (big_index, big_start, big_end) \<Rightarrow>
                Option.bind (free_big big_start big_end (Block_GetSize (ph_blocks h ! big_index)) big_index h)
                  (\<lambda>h1. Option.bind (free_before big_index start big_start h1)
                    (\<lambda>h2. free_after big_index big_end stop h2))))"

section \<open>Allocating\<close>

fun linear_search :: "nat \<Rightarrow> nat list \<Rightarrow> KPageHeap \<Rightarrow> (nat \<times> KPageHeap) option" where
  "linear_search needed_size [] h = Some (0, h)"
| "linear_search needed_size (i # is) h =
     (let (addr, s) = PopBlock False (ph_blocks h ! i, ph_management_data h);
          h1 = put_block i s h;
          allocated_size = Block_GetSize (ph_blocks h ! i)
      in if addr \<noteq> 0 then
           (if needed_size < allocated_size
            then map_option (\<lambda>h2. (addr, h2))
                   (Free (u64_add addr needed_size) ((allocated_size - needed_size) div PageSize) h1)
            else Some (addr, h1))
         else linear_search needed_size is h1)"

definition AllocateByLinearSearch :: "nat \<Rightarrow> KPageHeap \<Rightarrow> (nat \<times> KPageHeap) option" where
  "AllocateByLinearSearch index h =
     linear_search (Block_GetSize (ph_blocks h ! index)) [index..<ph_num_blocks h] h"

definition possible_at :: "nat \<Rightarrow> nat \<Rightarrow> nat \<Rightarrow> KPageHeap \<Rightarrow> nat" where
  "possible_at needed_size align_shift i h =
     u64_mul (1 + u64_sub (Block_GetSize (ph_blocks h ! i)) needed_size div 2 ^ align_shift)
       (Block_GetNumFreeBlocks (ph_blocks h ! i))"

text \<open>The first loop: the sum of the possible alignments and the bound of the sizes to look at.\<close>

fun count_alignments :: "nat \<Rightarrow> nat \<Rightarrow> nat list \<Rightarrow> nat \<Rightarrow> nat \<Rightarrow> KPageHeap \<Rightarrow> nat \<times> nat" where
  "count_alignments needed_size align_shift [] possible max_blocks h = (possible, max_blocks)"
| "count_alignments needed_size align_shift (i # is) possible max_blocks h =
     (let possible' = u64_add possible (possible_at needed_size align_shift i h)
      in if 4 \<le> possible' then (possible', i + 1)
         else count_alignments needed_size align_shift is possible' max_blocks h)"

text \<open>The second loop: the size that the random alignment falls into.\<close>

fun choose_index :: "nat \<Rightarrow> nat \<Rightarrow> nat \<Rightarrow> nat list \<Rightarrow> nat \<Rightarrow> nat \<Rightarrow> KPageHeap \<Rightarrow> nat" where
  "choose_index needed_size align_shift rnd [] possible index h = index"
| "choose_index needed_size align_shift rnd (i # is) possible index h =
     (let possible' = u64_add possible (possible_at needed_size align_shift i h)
      in if rnd < possible' then i
         else choose_index needed_size align_shift rnd is possible' index h)"

definition random_index :: "nat \<Rightarrow> nat \<Rightarrow> nat \<Rightarrow> KPageHeap \<Rightarrow> nat \<times> KPageHeap" where
  "random_index index needed_size align_shift h =
     (let (possible, max_blocks) =
            count_alignments needed_size align_shift [index..<ph_num_blocks h] 0 (ph_num_blocks h) h
      in if 0 < possible \<and> index + 1 < max_blocks then
           (let (rnd, g) = GenerateRandom (of_nat possible) (ph_rng h)
            in (choose_index needed_size align_shift (unat rnd) [index..<max_blocks] 0 index h,
                h \<lparr> ph_rng := g \<rparr>))
         else (index, h))"

definition AllocateByRandom :: "nat \<Rightarrow> nat \<Rightarrow> nat \<Rightarrow> KPageHeap \<Rightarrow> (nat \<times> KPageHeap) option" where
  "AllocateByRandom index num_pages align_pages h =
     (let needed_size = u64_mul num_pages PageSize;
          align_size = u64_mul align_pages PageSize;
          align_shift = countr_zero (of_nat align_size);
          (i, h0) = random_index index needed_size align_shift h;
          (addr, s) = PopBlock True (ph_blocks h0 ! i, ph_management_data h0);
          h1 = put_block i s h0;
          leftover_size = u64_sub (Block_GetSize (ph_blocks h0 ! i)) needed_size
      in if addr = 0 then Some (0, h1)
         else if leftover_size = 0 then Some (addr, h1)
         else
           (let possible = 1 + leftover_size div 2 ^ align_shift;
                (rnd, g) = GenerateRandom (of_nat possible) (ph_rng h1);
                random_offset = u64_mul (unat rnd) (2 ^ align_shift);
                h2 = h1 \<lparr> ph_rng := g \<rparr>
            in Option.bind
                 (if random_offset \<noteq> 0 then Free addr (random_offset div PageSize) h2 else Some h2)
                 (\<lambda>h3. let addr' = u64_add addr random_offset
                       in map_option (\<lambda>h4. (addr', h4))
                            (if random_offset \<noteq> leftover_size
                             then Free (u64_add addr' needed_size)
                                    (u64_sub leftover_size random_offset div PageSize) h3
                             else Some h3))))"

definition AllocateBlock :: "nat \<Rightarrow> bool \<Rightarrow> KPageHeap \<Rightarrow> (nat \<times> KPageHeap) option" where
  "AllocateBlock index random h =
     (if random then
        (let block_pages = Block_GetNumPages (ph_blocks h ! index)
         in AllocateByRandom index block_pages block_pages h)
      else AllocateByLinearSearch index h)"

definition AllocateAligned :: "nat \<Rightarrow> nat \<Rightarrow> nat \<Rightarrow> KPageHeap \<Rightarrow> (nat \<times> KPageHeap) option" where
  "AllocateAligned index num_pages align_pages h = AllocateByRandom index num_pages align_pages h"

end
