(* ===== verification/PageHeapBehaviour.thy ===== *)
theory PageHeapBehaviour
  imports PageHeap
begin

text \<open>
  The page heap represents the set of its free addresses: freeing a range adds exactly its addresses,
  an allocation takes an aligned range of free addresses out of the set, and fails only
  when no block of a sufficient size is free.
\<close>

section \<open>The invariant\<close>

definition block_range :: "Block \<Rightarrow> nat \<Rightarrow> nat set" where
  "block_range b x = {bl_heap_address b + x * Block_GetSize b..<bl_heap_address b + (x + 1) * Block_GetSize b}"

definition block_free :: "Block \<Rightarrow> u64 list \<Rightarrow> nat set" where
  "block_free b mem = (\<Union>x \<in> free_offsets (bl_bitmap b) mem. block_range b x)"

definition heap_free :: "KPageHeap \<Rightarrow> nat set" where
  "heap_free h = (\<Union>i < ph_num_blocks h. block_free (ph_blocks h ! i) (ph_management_data h))"

definition heap_range :: "KPageHeap \<Rightarrow> nat set" where
  "heap_range h = {ph_heap_address h..<ph_heap_address h + ph_heap_size h}"

text \<open>The parts of a block that no operation changes.\<close>

definition geometry :: "Block \<Rightarrow> nat \<times> nat \<times> nat \<times> nat \<times> nat set \<times> nat" where
  "geometry b =
     (bl_heap_address b, bl_end_offset b, bl_block_shift b, bl_next_block_shift b, footprint (bl_bitmap b),
      capacity (bl_bitmap b))"

text \<open>
  The geometry of the block sizes: they grow, each base address is aligned to the next size, and the
  offsets cover the heap.
\<close>

definition block_geometry :: "nat \<Rightarrow> nat \<Rightarrow> Block \<Rightarrow> bool" where
  "block_geometry lo hi b \<longleftrightarrow>
     (let step = (if bl_next_block_shift b \<noteq> 0 then bl_next_block_shift b else bl_block_shift b)
      in 12 \<le> bl_block_shift b \<and> bl_block_shift b < 62 \<and>
         bl_block_shift b \<le> step \<and> step < 62 \<and>
         2 ^ step dvd bl_heap_address b \<and> bl_heap_address b \<le> lo \<and>
         2 ^ step dvd bl_end_offset b * Block_GetSize b \<and>
         hi \<le> bl_heap_address b + bl_end_offset b * Block_GetSize b \<and>
         bl_heap_address b + bl_end_offset b * Block_GetSize b < 2 ^ 63 \<and>
         bl_end_offset b \<le> capacity (bl_bitmap b))"

definition heap_geometry :: "KPageHeap \<Rightarrow> bool" where
  "heap_geometry h \<longleftrightarrow>
     0 < ph_num_blocks h \<and> length (ph_blocks h) = ph_num_blocks h \<and> 0 < ph_heap_address h \<and>
     ph_heap_address h + ph_heap_size h < 2 ^ 63 \<and>
     PageSize dvd ph_heap_address h \<and> PageSize dvd ph_heap_size h \<and>
     bl_block_shift (ph_blocks h ! 0) = 12 \<and>
     (\<forall>i < ph_num_blocks h.
        block_geometry (ph_heap_address h) (ph_heap_address h + ph_heap_size h) (ph_blocks h ! i)) \<and>
     (\<forall>i < ph_num_blocks h. bl_next_block_shift (ph_blocks h ! i) =
        (if Suc i < ph_num_blocks h then bl_block_shift (ph_blocks h ! Suc i) else 0)) \<and>
     (\<forall>i. Suc i < ph_num_blocks h \<longrightarrow> bl_block_shift (ph_blocks h ! i) < bl_block_shift (ph_blocks h ! Suc i)) \<and>
     (\<forall>i j. i < ph_num_blocks h \<and> j < ph_num_blocks h \<and> i \<noteq> j \<longrightarrow>
        footprint (bl_bitmap (ph_blocks h ! i)) \<inter> footprint (bl_bitmap (ph_blocks h ! j)) = {})"

text \<open>Blocks of one size that make up a block of the next size have been merged into it.\<close>

definition merged :: "Block \<Rightarrow> u64 list \<Rightarrow> bool" where
  "merged b mem \<longleftrightarrow>
     (bl_next_block_shift b \<noteq> 0 \<longrightarrow>
      (\<forall>a. 2 ^ bl_next_block_shift b dvd a \<longrightarrow> \<not> {a..<a + 2 ^ bl_next_block_shift b} \<subseteq> block_free b mem))"

definition heap_ok :: "KPageHeap \<Rightarrow> bool" where
  "heap_ok h \<longleftrightarrow>
     heap_geometry h \<and>
     (\<forall>i < ph_num_blocks h. merged (ph_blocks h ! i) (ph_management_data h)) \<and>
     (\<forall>i < ph_num_blocks h. pb_ok (bl_bitmap (ph_blocks h ! i)) (ph_management_data h)) \<and>
     heap_free h \<subseteq> heap_range h \<and>
     (\<forall>i j. i < ph_num_blocks h \<and> j < ph_num_blocks h \<and> i \<noteq> j \<longrightarrow>
        block_free (ph_blocks h ! i) (ph_management_data h) \<inter> block_free (ph_blocks h ! j) (ph_management_data h) = {})"

text \<open>What an operation keeps of the heap.\<close>

definition same_shape :: "KPageHeap \<Rightarrow> KPageHeap \<Rightarrow> bool" where
  "same_shape h h' \<longleftrightarrow>
     ph_heap_address h' = ph_heap_address h \<and> ph_heap_size h' = ph_heap_size h \<and>
     ph_num_blocks h' = ph_num_blocks h \<and> map geometry (ph_blocks h') = map geometry (ph_blocks h)"

lemma same_shape_refl [simp]: "same_shape h h"
  by (simp add: same_shape_def)

lemma same_shape_trans: "same_shape h h1 \<Longrightarrow> same_shape h1 h2 \<Longrightarrow> same_shape h h2"
  by (simp add: same_shape_def)

lemma same_shape_length: "same_shape h h' \<Longrightarrow> length (ph_blocks h') = length (ph_blocks h)"
  unfolding same_shape_def by (metis length_map)

lemma same_shape_nth:
  assumes "same_shape h h'" "i < length (ph_blocks h)"
  shows "geometry (ph_blocks h' ! i) = geometry (ph_blocks h ! i)"
  using assms same_shape_length [OF assms(1)] by (metis nth_map same_shape_def)

lemma geometry_eq:
  assumes "geometry b' = geometry b"
  shows "bl_heap_address b' = bl_heap_address b" "bl_end_offset b' = bl_end_offset b"
    "bl_block_shift b' = bl_block_shift b" "bl_next_block_shift b' = bl_next_block_shift b"
    "footprint (bl_bitmap b') = footprint (bl_bitmap b)" "capacity (bl_bitmap b') = capacity (bl_bitmap b)"
    "Block_GetSize b' = Block_GetSize b" "block_range b' = block_range b"
    "block_geometry lo hi b' = block_geometry lo hi b"
  using assms by (auto simp: geometry_def Block_GetSize_def block_range_def block_geometry_def fun_eq_iff)

lemma heap_geometry_shape:
  assumes "same_shape h h'" "heap_geometry h"
  shows "heap_geometry h'"
proof -
  have len: "length (ph_blocks h) = ph_num_blocks h" using assms(2) by (simp add: heap_geometry_def)
  have eq: "geometry (ph_blocks h' ! i) = geometry (ph_blocks h ! i)" if "i < ph_num_blocks h" for i
    using same_shape_nth [OF assms(1)] that len by simp
  show ?thesis
    using assms(2) same_shape_length [OF assms(1)] assms(1) geometry_eq [OF eq]
    by (auto simp: heap_geometry_def same_shape_def)
qed

lemma block_free_frame:
  assumes "pb_ok (bl_bitmap b) mem" "length mem' = length mem"
    "\<And>a. a \<in> footprint (bl_bitmap b) \<Longrightarrow> mem' ! a = mem ! a"
  shows "pb_ok (bl_bitmap b) mem' \<and> block_free b mem' = block_free b mem"
proof -
  let ?b = "bl_bitmap b"
  have lay: "pb_layout ?b (length mem)" using assms(1) by (simp add: pb_ok_def)
  have word: "storage_word ?b mem' d i = storage_word ?b mem d i"
    if "d < pb_used_depths ?b" "i < level_words ?b d" for d i
    using layout_address(2) [OF lay that] assms(3) by (simp add: storage_word_def)
  have bits: "level_bit ?b mem' d x \<longleftrightarrow> level_bit ?b mem d x" if "d < pb_used_depths ?b" for d x
    using word [OF that] by (auto simp: level_bit_def)
  have "0 < pb_used_depths ?b" using lay by (simp add: pb_layout_def)
  then have "free_offsets ?b mem' = free_offsets ?b mem" using bits by (auto simp: free_offsets_def)
  moreover have "consistent ?b mem' (pb_used_depths ?b) \<longleftrightarrow> consistent ?b mem (pb_used_depths ?b)"
    using bits word by (fastforce simp: consistent_def)
  ultimately show ?thesis using assms(1,2) by (simp add: pb_ok_def block_free_def)
qed

section \<open>Offsets and addresses\<close>

lemma block_size_pos [simp]: "0 < Block_GetSize b"
  by (simp add: Block_GetSize_def)

lemma in_block_range:
  "z \<in> block_range b x \<longleftrightarrow> bl_heap_address b \<le> z \<and> (z - bl_heap_address b) div Block_GetSize b = x"
proof -
  let ?s = "Block_GetSize b" and ?o = "z - bl_heap_address b"
  have "x * ?s \<le> ?o \<and> ?o < (x + 1) * ?s \<longleftrightarrow> ?o div ?s = x"
    by (metis block_size_pos add.commute div_less_iff_less_mult less_Suc_eq_le less_eq_div_iff_mult_less_eq
        order_antisym order_refl plus_1_eq_Suc)
  moreover have "z \<in> block_range b x \<longleftrightarrow> bl_heap_address b \<le> z \<and> x * ?s \<le> ?o \<and> ?o < (x + 1) * ?s"
    unfolding block_range_def atLeastLessThan_iff by linarith
  ultimately show ?thesis by simp
qed

lemma in_block_free:
  "z \<in> block_free b mem \<longleftrightarrow>
     bl_heap_address b \<le> z \<and> (z - bl_heap_address b) div Block_GetSize b \<in> free_offsets (bl_bitmap b) mem"
  by (auto simp: block_free_def in_block_range)

lemma block_ranges_union:
  "(\<Union>y \<in> {x..<x + n}. block_range b y) =
     {bl_heap_address b + x * Block_GetSize b..<bl_heap_address b + (x + n) * Block_GetSize b}"
proof (rule set_eqI)
  fix z
  let ?s = "Block_GetSize b" and ?o = "z - bl_heap_address b"
  have "x \<le> ?o div ?s \<and> ?o div ?s < x + n \<longleftrightarrow> x * ?s \<le> ?o \<and> ?o < (x + n) * ?s"
    by (simp add: less_eq_div_iff_mult_less_eq div_less_iff_less_mult)
  then show "z \<in> (\<Union>y \<in> {x..<x + n}. block_range b y) \<longleftrightarrow>
      z \<in> {bl_heap_address b + x * ?s..<bl_heap_address b + (x + n) * ?s}"
    by (auto simp: in_block_range)
qed

text \<open>An aligned address of the heap and its offset.\<close>

lemma address_offset:
  assumes geo: "block_geometry lo hi b" and a: "Block_GetSize b dvd a" "lo \<le> a" "a + Block_GetSize b \<le> hi"
    and x: "x = u64_sub a (bl_heap_address b) div 2 ^ bl_block_shift b"
  shows "a = bl_heap_address b + x * Block_GetSize b" "x < bl_end_offset b" "x < capacity (bl_bitmap b)"
    "block_range b x = {a..<a + Block_GetSize b}"
proof -
  let ?s = "Block_GetSize b" and ?base = "bl_heap_address b"
  have base: "?base \<le> a" "a < 2 ^ 64" using geo a by (auto simp: block_geometry_def Let_def)
  have "?s dvd ?base"
    using geo by (auto simp: block_geometry_def Let_def Block_GetSize_def intro: dvd_trans [OF le_imp_power_dvd] split: if_splits)
  then have "?s dvd a - ?base" using a(1) by (rule dvd_diff_nat [rotated])
  then have xs: "x * ?s = a - ?base" using x base by (simp add: Block_GetSize_def)
  then show eq: "a = ?base + x * ?s" using base by simp
  have "?base + x * ?s + ?s \<le> ?base + bl_end_offset b * ?s"
    using geo a(3) eq by (auto simp: block_geometry_def Let_def)
  then have "(x + 1) * ?s \<le> bl_end_offset b * ?s" by simp
  then show lt: "x < bl_end_offset b" by (metis Suc_eq_plus1 Suc_le_eq block_size_pos mult_le_cancel2)
  then show "x < capacity (bl_bitmap b)" using geo by (auto simp: block_geometry_def Let_def)
  show "block_range b x = {a..<a + ?s}" using eq by (simp add: block_range_def algebra_simps)
qed

lemma block_free_insert:
  assumes "geometry b' = geometry b" "free_offsets (bl_bitmap b') mem' = insert x (free_offsets (bl_bitmap b) mem)"
  shows "block_free b' mem' = block_free b mem \<union> block_range b x"
  using assms geometry_eq(8) [OF assms(1)] by (auto simp: block_free_def)

lemma block_free_diff:
  assumes "geometry b' = geometry b" "free_offsets (bl_bitmap b') mem' = free_offsets (bl_bitmap b) mem - X"
  shows "block_free b' mem' = block_free b mem - (\<Union>x \<in> X. block_range b x)"
proof (rule set_eqI)
  fix z
  show "z \<in> block_free b' mem' \<longleftrightarrow> z \<in> block_free b mem - (\<Union>x \<in> X. block_range b x)"
    unfolding in_block_free Diff_iff UN_iff in_block_range assms(2) geometry_eq(1,7) [OF assms(1)] by blast
qed

section \<open>Pushing and popping a block\<close>

definition block_step :: "Block \<Rightarrow> u64 list \<Rightarrow> Block \<Rightarrow> u64 list \<Rightarrow> bool" where
  "block_step b mem b' mem' \<longleftrightarrow>
     geometry b' = geometry b \<and> pb_ok (bl_bitmap b') mem' \<and> length mem' = length mem \<and>
     (\<forall>a. a \<notin> footprint (bl_bitmap b) \<longrightarrow> mem' ! a = mem ! a)"

lemma block_step_trans: "block_step b m b1 m1 \<Longrightarrow> block_step b1 m1 b2 m2 \<Longrightarrow> block_step b m b2 m2"
  by (auto simp: block_step_def geometry_def)

lemma block_step_set:
  assumes "pb_ok (bl_bitmap b) mem" "x < capacity (bl_bitmap b)" "x \<notin> free_offsets (bl_bitmap b) mem"
    and "SetBit x (bl_bitmap b, mem) = (bm, mem')"
  shows "block_step b mem (b \<lparr> bl_bitmap := bm \<rparr>) mem'"
    "free_offsets bm mem' = insert x (free_offsets (bl_bitmap b) mem)"
  using SetBit_spec [OF assms] by (auto simp: block_step_def geometry_def)

lemma block_step_clear:
  assumes "pb_ok (bl_bitmap b) mem" "x \<in> free_offsets (bl_bitmap b) mem"
    and "ClearBit x (bl_bitmap b, mem) = (bm, mem')"
  shows "block_step b mem (b \<lparr> bl_bitmap := bm \<rparr>) mem'"
    "free_offsets bm mem' = free_offsets (bl_bitmap b) mem - {x}"
  using ClearBit_spec [OF assms] by (auto simp: block_step_def geometry_def)

lemma block_step_range:
  assumes "pb_ok (bl_bitmap b) mem" "ClearRange_asserts x n" "0 < n" "x + n \<le> capacity (bl_bitmap b)"
    and "ClearRange x n (bl_bitmap b, mem) = (r, bm, mem')"
  shows "block_step b mem (b \<lparr> bl_bitmap := bm \<rparr>) mem'" "r \<longleftrightarrow> {x..<x + n} \<subseteq> free_offsets (bl_bitmap b) mem"
    "free_offsets bm mem' = free_offsets (bl_bitmap b) mem - (if r then {x..<x + n} else {})"
  using ClearRange_spec [OF assms(1-4)] assms(1,5)
  by (auto simp: block_step_def geometry_def range_cleared_def split: if_splits)

text \<open>The offsets of a merged block are aligned and lie within the bitmap.\<close>

lemma merge_offset:
  assumes geo: "block_geometry lo hi b" and nx: "bl_next_block_shift b \<noteq> 0" and x: "x < bl_end_offset b"
    and diff: "diff = 2 ^ (bl_next_block_shift b - bl_block_shift b)" and x': "x' = AlignDown x diff"
  shows "x' + diff \<le> capacity (bl_bitmap b)" "ClearRange_asserts x' diff" "x' \<le> x" "x < x' + diff"
    "2 ^ bl_next_block_shift b dvd bl_heap_address b + x' * Block_GetSize b"
    "diff * Block_GetSize b = 2 ^ bl_next_block_shift b"
    "bl_heap_address b + (x' + diff) * Block_GetSize b < 2 ^ 63"
proof -
  let ?s = "Block_GetSize b" and ?n = "2 ^ bl_next_block_shift b :: nat"
  have g: "bl_block_shift b \<le> bl_next_block_shift b" "?n dvd bl_heap_address b" "?n dvd bl_end_offset b * ?s"
    "bl_heap_address b + bl_end_offset b * ?s < 2 ^ 63" "bl_end_offset b \<le> capacity (bl_bitmap b)"
    using geo nx by (auto simp: block_geometry_def Let_def)
  show n: "diff * ?s = ?n" using g(1) by (simp add: diff Block_GetSize_def power_add [symmetric])
  have pos: "0 < diff" by (simp add: diff)
  have "bl_end_offset b \<le> bl_end_offset b * ?s" by (simp add: Suc_le_eq)
  then have "x < 2 ^ 63" using x g(4) by linarith
  then have "x < 2 ^ 64" by simp
  then have x'': "x' = x div diff * diff" by (simp add: x' AlignDown_exact)
  show "x' \<le> x" by (simp add: x'')
  show "x < x' + diff" using div_mult_mod_eq [of x diff] mod_less_divisor [OF pos, of x] unfolding x'' by linarith
  have "diff dvd bl_end_offset b"
    using g(3) unfolding n [symmetric] by (simp add: dvd_mult_cancel2 [symmetric])
  then obtain q where q: "bl_end_offset b = q * diff" by (metis dvd_def mult.commute)
  then have "x div diff < q" using x by (simp add: less_mult_imp_div_less)
  then have "(x div diff + 1) * diff \<le> q * diff" by (intro mult_le_mono1) simp
  then have le: "x' + diff \<le> bl_end_offset b" using q x'' by simp
  then show "x' + diff \<le> capacity (bl_bitmap b)" using g(5) by simp
  have "?n dvd x' * ?s" unfolding x'' n [symmetric] by (simp add: mult.assoc)
  then show "?n dvd bl_heap_address b + x' * ?s" using g(2) by simp
  have "(x' + diff) * ?s \<le> bl_end_offset b * ?s" using le by (rule mult_le_mono1)
  then show "bl_heap_address b + (x' + diff) * ?s < 2 ^ 63" using g(4) by linarith
  obtain k where k: "diff = 2 ^ k" using diff by blast
  show "ClearRange_asserts x' diff"
  proof (cases "k < 6")
    case True
    have "64 = (2 :: nat) ^ (6 - k) * 2 ^ k" using True by (simp add: power_add [symmetric])
    then have "64 = 2 ^ (6 - k) * diff" by (simp add: k)
    then have "x' mod 64 = (x div diff mod 2 ^ (6 - k)) * diff" by (simp add: x'' mult_mod_left)
    moreover have "x div diff mod 2 ^ (6 - k) + 1 \<le> 2 ^ (6 - k)" by (simp add: Suc_leI)
    then have "(x div diff mod 2 ^ (6 - k) + 1) * diff \<le> 2 ^ (6 - k) * diff" by (rule mult_le_mono1)
    ultimately have "x' mod 64 + diff \<le> 64" using \<open>64 = 2 ^ (6 - k) * diff\<close> by simp
    moreover have "diff < 64" using power_strict_increasing [of k 6 "2 :: nat"] True by (simp add: k)
    ultimately show ?thesis by (simp add: ClearRange_asserts_def)
  next
    case False
    then have "64 dvd diff" using le_imp_power_dvd [of 6 k "2 :: nat"] by (simp add: k)
    moreover have "diff dvd x'" by (simp add: x'')
    ultimately have "64 dvd x'" "64 dvd diff" by (auto intro: dvd_trans)
    moreover have "\<not> diff < 64" using \<open>64 dvd diff\<close> pos by (auto dest: dvd_imp_le)
    ultimately show ?thesis by (simp add: ClearRange_asserts_def)
  qed
qed

text \<open>Aligned ranges that meet are equal, and a range of free offsets is a range of free addresses.\<close>

lemma aligned_ranges_meet:
  assumes "(s :: nat) dvd a" "s dvd b" "z \<in> {a..<a + s}" "z \<in> {b..<b + s}"
  shows "a = b"
proof -
  obtain p q where "a = s * p" "b = s * q" using assms(1,2) by (auto simp: dvd_def)
  then have "z div s = p" "z div s = q" using assms(3,4) by (auto intro!: div_nat_eqI simp: mult.commute)
  then show ?thesis using \<open>a = s * p\<close> \<open>b = s * q\<close> by simp
qed

lemma range_offsets_free:
  assumes "{bl_heap_address b + x * Block_GetSize b..<bl_heap_address b + (x + n) * Block_GetSize b} \<subseteq> block_free b mem"
  shows "{x..<x + n} \<subseteq> free_offsets (bl_bitmap b) mem"
proof
  fix y assume y: "y \<in> {x..<x + n}"
  have "bl_heap_address b + y * Block_GetSize b \<in> block_range b y" by (simp add: in_block_range)
  also have "\<dots> \<subseteq> (\<Union>y \<in> {x..<x + n}. block_range b y)" using y by blast
  finally have "bl_heap_address b + y * Block_GetSize b \<in> block_free b mem" using assms unfolding block_ranges_union by blast
  then show "y \<in> free_offsets (bl_bitmap b) mem" unfolding in_block_free by simp
qed

text \<open>Adding a range within the aligned range at \<open>r\<close> keeps the blocks merged, unless that range becomes free.\<close>

lemma merged_add:
  assumes old: "merged b mem" and nx: "bl_next_block_shift b' = bl_next_block_shift b"
    and free: "block_free b' mem' \<subseteq> block_free b mem \<union> R"
    and R: "R \<subseteq> {r..<r + 2 ^ bl_next_block_shift b}" "2 ^ bl_next_block_shift b dvd r"
    and not_all: "\<not> {r..<r + 2 ^ bl_next_block_shift b} \<subseteq> block_free b' mem'"
  shows "merged b' mem'"
  unfolding merged_def nx
proof (intro impI allI notI)
  let ?N = "2 ^ bl_next_block_shift b :: nat"
  fix a assume nz: "bl_next_block_shift b \<noteq> 0" and a: "?N dvd a" "{a..<a + ?N} \<subseteq> block_free b' mem'"
  have "\<not> {a..<a + ?N} \<subseteq> block_free b mem" using old nz a(1) by (simp add: merged_def)
  then obtain z where "z \<in> {a..<a + ?N}" "z \<in> R" using a(2) free by blast
  then have "a = r" using aligned_ranges_meet [OF a(1) R(2), of z] R(1) by blast
  then show False using a(2) not_all by simp
qed

lemma merged_subset:
  assumes "merged b mem" "bl_next_block_shift b' = bl_next_block_shift b" "block_free b' mem' \<subseteq> block_free b mem"
  shows "merged b' mem'"
  using assms unfolding merged_def by (metis subset_trans)

lemma PushBlock_spec:
  assumes ok: "pb_ok (bl_bitmap b) mem" and geo: "block_geometry lo hi b" and lo: "0 < lo"
    and free: "block_free b mem \<subseteq> {lo..<hi}"
    and a: "Block_GetSize b dvd a" "lo \<le> a" "a + Block_GetSize b \<le> hi"
    and disj: "{a..<a + Block_GetSize b} \<inter> block_free b mem = {}"
    and merged: "merged b mem"
    and push: "PushBlock a (b, mem) = (r, b', mem')"
  shows "block_step b mem b' mem' \<and> merged b' mem' \<and>
    (if r = 0 then block_free b' mem' = block_free b mem \<union> {a..<a + Block_GetSize b}
     else bl_next_block_shift b \<noteq> 0 \<and> 2 ^ bl_next_block_shift b dvd r \<and>
       {r..<r + 2 ^ bl_next_block_shift b} \<subseteq> block_free b mem \<union> {a..<a + Block_GetSize b} \<and>
       block_free b' mem' = (block_free b mem \<union> {a..<a + Block_GetSize b}) - {r..<r + 2 ^ bl_next_block_shift b})"
proof -
  define x where "x = u64_sub a (bl_heap_address b) div 2 ^ bl_block_shift b"
  note off = address_offset [OF geo a x_def]
  obtain bm1 mem1 where set: "SetBit x (bl_bitmap b, mem) = (bm1, mem1)" by (metis surj_pair)
  let ?b1 = "b \<lparr> bl_bitmap := bm1 \<rparr>"
  have "a \<in> block_range b x" using off(4) by simp
  moreover have "a \<in> {a..<a + Block_GetSize b}" by simp
  then have "a \<notin> block_free b mem" using disj by blast
  ultimately have "x \<notin> free_offsets (bl_bitmap b) mem" by (auto simp: block_free_def)
  note s1 = block_step_set [OF ok off(3) this set]
  have g1: "geometry ?b1 = geometry b" and ok1: "pb_ok (bl_bitmap ?b1) mem1" using s1(1) by (simp_all add: block_step_def)
  have f1: "block_free ?b1 mem1 = block_free b mem \<union> {a..<a + Block_GetSize b}"
    using block_free_insert [OF g1, of mem1 x mem] s1(2) off(4) by simp
  show ?thesis
  proof (cases "bl_next_block_shift b = 0")
    case True
    then have "r = 0" "b' = ?b1" "mem' = mem1" using push set by (simp_all add: PushBlock_def x_def [symmetric])
    moreover have "merged ?b1 mem1" using True by (simp add: merged_def)
    ultimately show ?thesis using s1(1) f1 by simp
  next
    case nx: False
    define diff where "diff = (2 :: nat) ^ (bl_next_block_shift b - bl_block_shift b)"
    define x' where "x' = AlignDown x diff"
    note m = merge_offset [OF geo nx off(2) diff_def x'_def]
    obtain c bm2 mem2 where clear: "ClearRange x' diff (bm1, mem1) = (c, bm2, mem2)" by (metis surj_pair)
    let ?b2 = "?b1 \<lparr> bl_bitmap := bm2 \<rparr>"
    have cap: "x' + diff \<le> capacity (bl_bitmap ?b1)" using m(1) geometry_eq(6) [OF g1] by simp
    have pos: "0 < diff" by (simp add: diff_def)
    have clear': "ClearRange x' diff (bl_bitmap ?b1, mem1) = (c, bm2, mem2)" using clear by simp
    note s2 = block_step_range [OF ok1 m(2) pos cap clear']
    have g2: "geometry ?b2 = geometry ?b1" using s2(1) by (simp add: block_step_def)
    have step: "block_step b mem ?b2 mem2" by (rule block_step_trans [OF s1(1) s2(1)])
    have size: "Block_GetSize ?b1 = Block_GetSize b" "bl_heap_address ?b1 = bl_heap_address b" by (simp_all add: Block_GetSize_def)
    let ?r = "bl_heap_address b + x' * Block_GetSize b"
    have union: "(\<Union>y \<in> {x'..<x' + diff}. block_range ?b1 y) = {?r..<?r + 2 ^ bl_next_block_shift b}"
      unfolding block_ranges_union size m(6) [symmetric] by (simp add: algebra_simps)
    have res: "(r, b', mem') =
        (if c then u64_add (bl_heap_address b) (u64_mul x' (2 ^ bl_block_shift b)) else 0, ?b2, mem2)"
      using push set clear nx by (auto simp: PushBlock_def x_def [symmetric] diff_def [symmetric] x'_def [symmetric])
    have free2: "block_free ?b2 mem2 = block_free ?b1 mem1 - (if c then {?r..<?r + 2 ^ bl_next_block_shift b} else {})"
      using block_free_diff [OF g2, of mem2 mem1 "if c then {x'..<x' + diff} else {}"] s2(3) union by simp
    have "?r \<le> a" "a + Block_GetSize b \<le> ?r + 2 ^ bl_next_block_shift b"
      using off(1) m(3,4) mult_le_mono1 [OF m(3), of "Block_GetSize b"]
        mult_le_mono1 [of "x + 1" "x' + diff" "Block_GetSize b"] unfolding m(6) [symmetric]
      by (simp_all add: add_mult_distrib)
    then have inside: "{a..<a + Block_GetSize b} \<subseteq> {?r..<?r + 2 ^ bl_next_block_shift b}" by auto
    have "\<not> {?r..<?r + 2 ^ bl_next_block_shift b} \<subseteq> block_free ?b2 mem2"
    proof (cases c)
      case False
      then have "\<not> {x'..<x' + diff} \<subseteq> free_offsets (bl_bitmap ?b1) mem1" using s2(2) by simp
      then have "\<not> {?r..<?r + 2 ^ bl_next_block_shift b} \<subseteq> block_free ?b1 mem1"
        using range_offsets_free [of ?b1 x' diff mem1] unfolding size add_mult_distrib m(6) by (auto simp: add.assoc)
      then show ?thesis using free2 False by simp
    next
      case True
      have "?r \<in> {?r..<?r + 2 ^ bl_next_block_shift b}" by simp
      moreover have "?r \<notin> block_free ?b2 mem2" using free2 True by simp
      ultimately show ?thesis by blast
    qed
    from merged_add [OF merged _ _ inside m(5) this] have "merged ?b2 mem2" using free2 f1 by auto
    then have step: "block_step b mem ?b2 mem2 \<and> merged ?b2 mem2" using step by blast
    show ?thesis
    proof (cases c)
      case True
      have sub: "{?r..<?r + 2 ^ bl_next_block_shift b} \<subseteq> block_free ?b1 mem1"
        using s2(2) True unfolding union [symmetric] by (auto simp: block_free_def)
      have "?r < 2 ^ 63" "x' * Block_GetSize b < 2 ^ 64" using m(7) by (simp_all add: algebra_simps)
      then have r: "r = ?r" using res True by (simp add: Block_GetSize_def)
      have "?r \<in> {lo..<hi}" using sub f1 free a(2,3) by (auto simp: subset_iff)
      then have "lo \<le> r" using r by simp
      then have "r \<noteq> 0" using lo by linarith
      have b': "b' = ?b2" "mem' = mem2" using res by simp_all
      have "2 ^ bl_next_block_shift b dvd r" "{r..<r + 2 ^ bl_next_block_shift b} \<subseteq> block_free ?b1 mem1"
        "block_free ?b2 mem2 = block_free ?b1 mem1 - {r..<r + 2 ^ bl_next_block_shift b}"
        using sub m(5) free2 True unfolding r by simp_all
      then show ?thesis unfolding if_not_P [OF \<open>r \<noteq> 0\<close>] b' using step f1 nx by blast
    next
      case False
      then show ?thesis using step res free2 f1 by simp
    qed
  qed
qed

lemma PopBlock_spec:
  assumes ok: "pb_ok (bl_bitmap b) mem" and geo: "block_geometry lo hi b" and lo: "0 < lo"
    and free: "block_free b mem \<subseteq> {lo..<hi}" and hi: "hi < 2 ^ 63"
    and pop: "PopBlock random (b, mem) = (r, b', mem')"
  shows "block_step b mem b' mem' \<and>
    (if r = 0 then block_free b mem = {} \<and> block_free b' mem' = {}
     else Block_GetSize b dvd r \<and> {r..<r + Block_GetSize b} \<subseteq> block_free b mem \<and>
       block_free b' mem' = block_free b mem - {r..<r + Block_GetSize b})"
proof -
  obtain g where g: "snd (FindFreeBlock random mem (bl_bitmap b)) = bl_bitmap b \<lparr> pb_rng := g \<rparr>"
    and find: "case fst (FindFreeBlock random mem (bl_bitmap b)) of
       None \<Rightarrow> free_offsets (bl_bitmap b) mem = {}
     | Some x \<Rightarrow> x \<in> free_offsets (bl_bitmap b) mem"
    using FindFreeBlock_spec [OF ok, of random] by (fastforce split: option.splits)
  let ?bm = "bl_bitmap b \<lparr> pb_rng := g \<rparr>" and ?b1 = "b \<lparr> bl_bitmap := bl_bitmap b \<lparr> pb_rng := g \<rparr> \<rparr>"
  have step1: "block_step b mem ?b1 mem" using ok by (simp add: block_step_def geometry_def pb_ok_def)
  have free1: "free_offsets (bl_bitmap ?b1) mem = free_offsets (bl_bitmap b) mem" by simp
  show ?thesis
  proof (cases "fst (FindFreeBlock random mem (bl_bitmap b))")
    case None
    then have "r = 0" "b' = ?b1" "mem' = mem" using pop g by (simp_all add: PopBlock_def case_prod_beta)
    then show ?thesis using step1 find None by (simp add: block_free_def)
  next
    case (Some x)
    then have x: "x \<in> free_offsets (bl_bitmap b) mem" using find by simp
    obtain bm2 mem2 where clear: "ClearBit x (?bm, mem) = (bm2, mem2)" by (metis surj_pair)
    let ?b2 = "?b1 \<lparr> bl_bitmap := bm2 \<rparr>" and ?r = "bl_heap_address b + x * Block_GetSize b"
    have ok1: "pb_ok (bl_bitmap ?b1) mem" using step1 by (simp add: block_step_def)
    have x1: "x \<in> free_offsets (bl_bitmap ?b1) mem" using x by simp
    have clear': "ClearBit x (bl_bitmap ?b1, mem) = (bm2, mem2)" using clear by simp
    note s2 = block_step_clear [OF ok1 x1 clear']
    have g2: "geometry ?b2 = geometry ?b1" using s2(1) by (simp add: block_step_def)
    have rng: "block_range b x = {?r..<?r + Block_GetSize b}" by (simp add: block_range_def algebra_simps)
    have sub: "{?r..<?r + Block_GetSize b} \<subseteq> block_free b mem"
      using x unfolding rng [symmetric] by (auto simp: block_free_def)
    then have in_heap: "?r \<in> {lo..<hi}" using free by (auto simp: subset_iff)
    have "block_range ?b1 x = block_range b x" "block_free ?b1 mem = block_free b mem"
      by (auto simp: block_range_def block_free_def Block_GetSize_def)
    then have free2: "block_free ?b2 mem2 = block_free b mem - {?r..<?r + Block_GetSize b}"
      using block_free_diff [OF g2, of mem2 mem "{x}"] s2(2) rng by simp
    have "u64_mul x (2 ^ bl_block_shift b) = x * Block_GetSize b"
      using in_heap hi by (simp add: Block_GetSize_def)
    then have r: "r = ?r" "b' = ?b2" "mem' = mem2"
      using pop g Some clear in_heap hi by (simp_all add: PopBlock_def case_prod_beta Let_def)
    have "Block_GetSize b dvd bl_heap_address b"
      using geo by (auto simp: block_geometry_def Let_def Block_GetSize_def intro: dvd_trans [OF le_imp_power_dvd] split: if_splits)
    then have "Block_GetSize b dvd ?r" by simp
    moreover have "lo \<le> r" using in_heap r by simp
    then have "r \<noteq> 0" using lo by linarith
    moreover have "{r..<r + Block_GetSize b} \<subseteq> block_free b mem"
      "block_free ?b2 mem2 = block_free b mem - {r..<r + Block_GetSize b}" "Block_GetSize b dvd r"
      using sub free2 \<open>Block_GetSize b dvd ?r\<close> unfolding r(1) by simp_all
    ultimately show ?thesis
      unfolding if_not_P [OF \<open>r \<noteq> 0\<close>] r(2,3) using block_step_trans [OF step1 s2(1)] by blast
  qed
qed

section \<open>Freeing\<close>

lemma put_block_ok:
  assumes ok: "heap_ok h" and i: "i < ph_num_blocks h"
    and step: "block_step (ph_blocks h ! i) (ph_management_data h) b' mem'"
    and new_merged: "merged b' mem'"
    and range: "block_free b' mem' \<subseteq> heap_range h"
    and disj: "\<And>j. j < ph_num_blocks h \<Longrightarrow> j \<noteq> i \<Longrightarrow>
      block_free b' mem' \<inter> block_free (ph_blocks h ! j) (ph_management_data h) = {}"
  shows "heap_ok (put_block i (b', mem') h)" "same_shape h (put_block i (b', mem') h)"
    "heap_free (put_block i (b', mem') h) =
       heap_free h - block_free (ph_blocks h ! i) (ph_management_data h) \<union> block_free b' mem'"
proof -
  let ?h = "put_block i (b', mem') h" and ?F = "\<lambda>j. block_free (ph_blocks h ! j) (ph_management_data h)"
  have geo: "heap_geometry h" "length (ph_blocks h) = ph_num_blocks h"
    using ok by (simp_all add: heap_ok_def heap_geometry_def)
  have g: "geometry b' = geometry (ph_blocks h ! i)" "length mem' = length (ph_management_data h)"
    "\<And>a. a \<notin> footprint (bl_bitmap (ph_blocks h ! i)) \<Longrightarrow> mem' ! a = ph_management_data h ! a"
    "pb_ok (bl_bitmap b') mem'"
    using step by (simp_all add: block_step_def)
  show shape: "same_shape h ?h"
    using g(1) i geo(2) by (simp add: same_shape_def put_block_def map_update list_update_same_conv)
  have other: "pb_ok (bl_bitmap (ph_blocks h ! j)) mem' \<and> block_free (ph_blocks h ! j) mem' = ?F j"
    if j: "j < ph_num_blocks h" "j \<noteq> i" for j
  proof (rule block_free_frame)
    show "pb_ok (bl_bitmap (ph_blocks h ! j)) (ph_management_data h)" using ok j by (simp add: heap_ok_def)
    have "footprint (bl_bitmap (ph_blocks h ! i)) \<inter> footprint (bl_bitmap (ph_blocks h ! j)) = {}"
      using geo(1) i j by (simp add: heap_geometry_def)
    then show "mem' ! a = ph_management_data h ! a" if "a \<in> footprint (bl_bitmap (ph_blocks h ! j))" for a
      using that g(3) by blast
  qed (rule g(2))
  have nth: "ph_blocks ?h ! j = (if j = i then b' else ph_blocks h ! j)" if "j < ph_num_blocks h" for j
    using i geo(2) by (simp add: put_block_def)
  have split: "{..<ph_num_blocks h} = insert i {j. j < ph_num_blocks h \<and> j \<noteq> i}" using i by auto
  have old: "heap_free h = ?F i \<union> (\<Union>j \<in> {j. j < ph_num_blocks h \<and> j \<noteq> i}. ?F j)"
    unfolding heap_free_def split by simp
  have "block_free (ph_blocks ?h ! i) mem' = block_free b' mem'" using nth [OF i] by simp
  moreover have "block_free (ph_blocks ?h ! j) mem' = ?F j" if "j < ph_num_blocks h" "j \<noteq> i" for j
    using nth [OF that(1)] other [OF that] that(2) by simp
  moreover have "heap_free ?h = (\<Union>j < ph_num_blocks h. block_free (ph_blocks ?h ! j) mem')"
    by (simp add: heap_free_def put_block_def)
  ultimately have new: "heap_free ?h = block_free b' mem' \<union> (\<Union>j \<in> {j. j < ph_num_blocks h \<and> j \<noteq> i}. ?F j)"
    unfolding split by auto
  have sep: "?F j \<inter> ?F k = {}" if "j < ph_num_blocks h" "k < ph_num_blocks h" "j \<noteq> k" for j k
    using ok that by (simp add: heap_ok_def)
  show "heap_free ?h = heap_free h - ?F i \<union> block_free b' mem'"
    using sep [OF i] unfolding old new by blast
  have "heap_free ?h \<subseteq> heap_range h"
    using range ok old new by (auto simp: heap_ok_def)
  moreover have "heap_range ?h = heap_range h" by (simp add: heap_range_def put_block_def)
  moreover have "pb_ok (bl_bitmap (ph_blocks ?h ! j)) (ph_management_data ?h)" if "j < ph_num_blocks h" for j
    using nth [OF that] other [OF that] g(4) by (simp add: put_block_def)
  moreover have "block_free (ph_blocks ?h ! j) (ph_management_data ?h) \<inter>
      block_free (ph_blocks ?h ! k) (ph_management_data ?h) = {}"
    if "j < ph_num_blocks h" "k < ph_num_blocks h" "j \<noteq> k" for j k
    using nth [OF that(1)] nth [OF that(2)] other [of j] other [of k] disj [of j] disj [of k] sep [OF that] that
    by (auto simp: put_block_def Int_commute)
  moreover have "merged (ph_blocks ?h ! j) (ph_management_data ?h)" if "j < ph_num_blocks h" for j
  proof (cases "j = i")
    case False
    have "merged (ph_blocks h ! j) (ph_management_data h)" using ok that by (simp add: heap_ok_def)
    then show ?thesis using nth [OF that] other [OF that False] False by (simp add: put_block_def merged_def)
  qed (use nth [OF that] new_merged in \<open>simp add: put_block_def\<close>)
  moreover have "ph_num_blocks ?h = ph_num_blocks h" by (simp add: put_block_def)
  ultimately show "heap_ok ?h"
    using heap_geometry_shape [OF shape geo(1)] unfolding heap_ok_def by simp
qed

definition can_free :: "KPageHeap \<Rightarrow> nat set \<Rightarrow> bool" where
  "can_free h R \<longleftrightarrow> heap_ok h \<and> R \<subseteq> heap_range h \<and> R \<inter> heap_free h = {}"

definition freed :: "KPageHeap \<Rightarrow> nat set \<Rightarrow> KPageHeap \<Rightarrow> bool" where
  "freed h R h' \<longleftrightarrow>
     heap_ok h' \<and> same_shape h h' \<and> ph_rng h' = ph_rng h \<and> heap_free h' = heap_free h \<union> R"

lemma freed_refl: "can_free h {} \<Longrightarrow> freed h {} h"
  by (simp add: can_free_def freed_def)

lemma freed_trans: "freed h R h1 \<Longrightarrow> freed h1 S h2 \<Longrightarrow> freed h (R \<union> S) h2"
  by (auto simp: freed_def intro: same_shape_trans)

lemma can_free_rest: "freed h R h1 \<Longrightarrow> can_free h (R \<union> S) \<Longrightarrow> R \<inter> S = {} \<Longrightarrow> can_free h1 S"
  by (auto simp: freed_def can_free_def same_shape_def heap_range_def)

lemma can_free_subset: "can_free h R \<Longrightarrow> S \<subseteq> R \<Longrightarrow> can_free h S"
  by (auto simp: can_free_def)

lemma heap_block:
  assumes "heap_ok h" "i < ph_num_blocks h"
  shows "pb_ok (bl_bitmap (ph_blocks h ! i)) (ph_management_data h)"
    "block_geometry (ph_heap_address h) (ph_heap_address h + ph_heap_size h) (ph_blocks h ! i)"
    "0 < ph_heap_address h" "block_free (ph_blocks h ! i) (ph_management_data h) \<subseteq> heap_free h"
    "heap_free h \<subseteq> {ph_heap_address h..<ph_heap_address h + ph_heap_size h}"
    "length (ph_blocks h) = ph_num_blocks h" "ph_heap_address h + ph_heap_size h < 2 ^ 63"
    "merged (ph_blocks h ! i) (ph_management_data h)"
  using assms by (auto simp: heap_ok_def heap_geometry_def heap_free_def heap_range_def)

lemma block_sizes:
  assumes "heap_ok h" "i < ph_num_blocks h" "bl_next_block_shift (ph_blocks h ! i) \<noteq> 0"
  shows "Suc i < ph_num_blocks h" "Block_GetSize (ph_blocks h ! Suc i) = 2 ^ bl_next_block_shift (ph_blocks h ! i)"
  using assms by (auto simp: heap_ok_def heap_geometry_def Block_GetSize_def split: if_splits)

lemma FreeBlock_freed:
  assumes "i < ph_num_blocks h" "Block_GetSize (ph_blocks h ! i) dvd a"
    and "can_free h {a..<a + Block_GetSize (ph_blocks h ! i)}"
  shows "\<exists>h'. FreeBlock a i h = Some h' \<and> freed h {a..<a + Block_GetSize (ph_blocks h ! i)} h'"
  using assms
proof (induction a i h rule: FreeBlock.induct)
  case (1 a i h)
  let ?b = "ph_blocks h ! i" and ?mem = "ph_management_data h"
  let ?R = "{a..<a + Block_GetSize ?b}" and ?F = "block_free ?b ?mem"
  have ok: "heap_ok h" using 1(4) by (simp add: can_free_def)
  note hb = heap_block [OF ok 1(2)]
  have R: "?R \<subseteq> {ph_heap_address h..<ph_heap_address h + ph_heap_size h}" "?R \<inter> heap_free h = {}"
    using 1(4) by (simp_all add: can_free_def heap_range_def)
  have bounds: "ph_heap_address h \<le> a" "a + Block_GetSize ?b \<le> ph_heap_address h + ph_heap_size h"
    using atLeastLessThan_subset_iff [OF R(1)] block_size_pos [of ?b] by linarith+
  obtain r b' mem' where push: "PushBlock a (?b, ?mem) = (r, b', mem')" by (metis surj_pair)
  have free_in: "?F \<subseteq> {ph_heap_address h..<ph_heap_address h + ph_heap_size h}" using hb(4,5) by blast
  have disjF: "?R \<inter> ?F = {}" using R(2) hb(4) by blast
  note spec = PushBlock_spec [OF hb(1,2,3) free_in 1(3) bounds disjF hb(8) push]
  let ?h = "put_block i (b', mem') h"
  have sub: "block_free b' mem' \<subseteq> ?F \<union> ?R" using spec by (auto split: if_splits)
  have sep: "(?F \<union> ?R) \<inter> block_free (ph_blocks h ! j) ?mem = {}" if "j < ph_num_blocks h" "j \<noteq> i" for j
  proof -
    have "?F \<inter> block_free (ph_blocks h ! j) ?mem = {}" using ok that 1(2) by (simp add: heap_ok_def)
    then show ?thesis using R(2) heap_block(4) [OF ok that(1)] by blast
  qed
  have "block_free b' mem' \<subseteq> heap_range h" using sub free_in R(1) by (auto simp: heap_range_def)
  moreover have "block_free b' mem' \<inter> block_free (ph_blocks h ! j) ?mem = {}" if "j < ph_num_blocks h" "j \<noteq> i" for j
    using sep [OF that] sub by blast
  ultimately have put: "heap_ok ?h" "same_shape h ?h" "heap_free ?h = heap_free h - ?F \<union> block_free b' mem'"
    using put_block_ok [OF ok 1(2)] spec by blast+
  have rng: "ph_rng ?h = ph_rng h" by (simp add: put_block_def)
  show ?case
  proof (cases "r = 0")
    case True
    then have "block_free b' mem' = ?F \<union> ?R" using spec by simp
    then have "heap_free ?h = heap_free h \<union> ?R" using put(3) hb(4) by blast
    then have "freed h ?R ?h" using put(1,2) rng by (simp add: freed_def)
    moreover have "FreeBlock a i h = Some ?h" using push True 1(2) hb(6) by (subst FreeBlock.simps) simp
    ultimately show ?thesis by blast
  next
    case False
    let ?M = "{r..<r + 2 ^ bl_next_block_shift ?b}"
    have m: "bl_next_block_shift ?b \<noteq> 0" "2 ^ bl_next_block_shift ?b dvd r" "?M \<subseteq> ?F \<union> ?R"
      "block_free b' mem' = (?F \<union> ?R) - ?M"
      using spec unfolding if_not_P [OF False] by blast+
    note nx = block_sizes [OF ok 1(2) m(1)]
    have size: "Block_GetSize (ph_blocks ?h ! (i + 1)) = 2 ^ bl_next_block_shift ?b"
      using nx(2) by (simp add: put_block_def)
    have free1: "heap_free ?h = (heap_free h \<union> ?R) - ?M"
    proof -
      have "heap_free h = ?F \<union> (heap_free h - ?F)" using hb(4) by blast
      moreover have "(heap_free h - ?F) \<inter> ?M = {}" using m(3) R(2) by blast
      ultimately show ?thesis using put(3) m(4) by blast
    qed
    have M: "?M \<subseteq> heap_free h \<union> ?R" using m(3) hb(4) by blast
    have "can_free ?h ?M"
      using put(1,2) free1 M hb(5) R(1) by (auto simp: can_free_def heap_range_def same_shape_def subset_iff)
    then have "\<exists>h'. FreeBlock r (i + 1) ?h = Some h' \<and> freed ?h ?M h'"
      using 1(1) [OF _ push [symmetric] refl _ False] 1(2) hb(6) nx(1) m(2) size by (simp add: put_block_def)
    then obtain h' where h': "FreeBlock r (i + 1) ?h = Some h'" "freed ?h ?M h'" by blast
    have "heap_free h' = heap_free h \<union> ?R" using h'(2) free1 M by (auto simp: freed_def)
    then have "freed h ?R h'"
      using h'(2) put(2) rng same_shape_trans by (auto simp: freed_def)
    moreover have "FreeBlock a i h = Some h'" using push False 1(2) hb(6) h'(1) by (subst FreeBlock.simps) simp
    ultimately show ?thesis by blast
  qed
qed

lemma shape_size:
  assumes "same_shape h h'" "heap_ok h" "i < ph_num_blocks h"
  shows "Block_GetSize (ph_blocks h' ! i) = Block_GetSize (ph_blocks h ! i)"
  using geometry_eq(7) [OF same_shape_nth [OF assms(1)]] heap_block(6) [OF assms(2,3)] assms(3) by simp

lemma freed_size:
  assumes "freed h R h'" "heap_ok h" "i < ph_num_blocks h"
  shows "Block_GetSize (ph_blocks h' ! i) = Block_GetSize (ph_blocks h ! i)" "ph_num_blocks h' = ph_num_blocks h"
proof -
  have shape: "same_shape h h'" using assms(1) by (simp add: freed_def)
  show "Block_GetSize (ph_blocks h' ! i) = Block_GetSize (ph_blocks h ! i)" by (rule shape_size [OF shape assms(2,3)])
  show "ph_num_blocks h' = ph_num_blocks h" using shape by (simp add: same_shape_def)
qed

lemma size_dvd:
  assumes "heap_ok h" "i \<le> j" "j < ph_num_blocks h"
  shows "Block_GetSize (ph_blocks h ! i) dvd Block_GetSize (ph_blocks h ! j)"
  using assms(2,3)
proof (induction j)
  case (Suc j)
  have "bl_block_shift (ph_blocks h ! j) < bl_block_shift (ph_blocks h ! Suc j)"
    using assms(1) Suc.prems(2) by (simp add: heap_ok_def heap_geometry_def)
  then have "Block_GetSize (ph_blocks h ! j) dvd Block_GetSize (ph_blocks h ! Suc j)"
    by (simp add: Block_GetSize_def le_imp_power_dvd)
  then show ?case using Suc by (cases "i = Suc j") (auto intro: dvd_trans)
qed simp

lemma size_bounds:
  assumes "heap_ok h" "i < ph_num_blocks h"
  shows "Block_GetSize (ph_blocks h ! 0) = PageSize" "PageSize dvd Block_GetSize (ph_blocks h ! i)"
    "Block_GetSize (ph_blocks h ! i) < 2 ^ 62"
proof -
  show "Block_GetSize (ph_blocks h ! 0) = PageSize"
    using assms by (simp add: heap_ok_def heap_geometry_def Block_GetSize_def PageSize_def)
  then show "PageSize dvd Block_GetSize (ph_blocks h ! i)" using size_dvd [OF assms(1) _ assms(2), of 0] by simp
  show "Block_GetSize (ph_blocks h ! i) < 2 ^ 62"
    using heap_block(2) [OF assms] unfolding block_geometry_def Let_def Block_GetSize_def
    by (intro power_strict_increasing) auto
qed

lemma free_big_freed:
  assumes "i < ph_num_blocks h" "s = Block_GetSize (ph_blocks h ! i)" "s dvd a" "s dvd e" "a \<le> e" "can_free h {a..<e}"
  shows "\<exists>h'. free_big a e s i h = Some h' \<and> freed h {a..<e} h'"
  using assms
proof (induction a e s i h rule: free_big.induct)
  case (1 a e s i h)
  show ?case
  proof (cases "a < e")
    case False
    then have "a = e" using 1(6) by simp
    then show ?thesis using 1(7) freed_refl [of h] by (simp add: free_big.simps [of e])
  next
    case True
    have pos: "0 < s" using 1(3) by simp
    have "s \<le> e - a" using dvd_diff_nat [OF 1(5,4)] True by (intro dvd_imp_le) simp_all
    then have le: "a + s \<le> e" using True by simp
    have split: "{a..<e} = {a..<a + s} \<union> {a + s..<e}" using le by auto
    have ok: "heap_ok h" using 1(7) by (simp add: can_free_def)
    obtain h1 where h1: "FreeBlock a i h = Some h1" "freed h {a..<a + s} h1"
      using FreeBlock_freed [OF 1(2), of a] 1(3,4) can_free_subset [OF 1(7), of "{a..<a + s}"] split by auto
    note size = freed_size [OF h1(2) ok 1(2)]
    have "can_free h1 {a + s..<e}" using can_free_rest [OF h1(2)] 1(7) split by auto
    then obtain h2 where h2: "free_big (a + s) e s i h1 = Some h2" "freed h1 {a + s..<e} h2"
      using 1(1) [OF conjI [OF True pos] h1(1)] 1(2,3,4,5) size le by auto
    then show ?thesis
      using freed_trans [OF h1(2) h2(2)] split True pos h1(1) by (auto simp: free_big.simps [of a])
  qed
qed

lemma free_down_freed:
  assumes "i < ph_num_blocks h" "n = Block_GetSize (ph_blocks h ! i)" "n dvd e" "s \<le> e" "can_free h {s..<e}"
  shows "\<exists>e' h'. free_down s e n i h = Some (e', h') \<and> s \<le> e' \<and> e' \<le> e \<and> e' < s + n \<and> n dvd e' \<and> freed h {e'..<e} h'"
  using assms
proof (induction s e n i h rule: free_down.induct)
  case (1 s e n i h)
  have pos: "0 < n" using 1(3) by simp
  have ok: "heap_ok h" using 1(6) by (simp add: can_free_def)
  show ?case
  proof (cases "s + n \<le> e")
    case False
    moreover have "freed h {e..<e} h" using ok by (simp add: freed_def)
    ultimately show ?thesis using 1(4,5) by (simp add: free_down.simps [of s])
  next
    case True
    let ?e = "e - n"
    have split: "{s..<e} = {?e..<e} \<union> {s..<?e}" "{?e..<e} = {?e..<?e + n}" using True by auto
    have dvd: "n dvd ?e" and se: "s \<le> ?e" using 1(4) True by (simp_all add: dvd_diff_nat)
    obtain h1 where h1: "FreeBlock ?e i h = Some h1" "freed h {?e..<e} h1"
      using FreeBlock_freed [OF 1(2), of ?e] 1(3) dvd can_free_subset [OF 1(6), of "{?e..<e}"] split by auto
    note size = freed_size [OF h1(2) ok 1(2)]
    have "can_free h1 {s..<?e}" using can_free_rest [OF h1(2)] 1(6) split by auto
    then obtain e' h2 where h2: "free_down s ?e n i h1 = Some (e', h2)" "s \<le> e'" "e' \<le> ?e" "e' < s + n" "n dvd e'"
      "freed h1 {e'..<?e} h2"
      using 1(1) [OF conjI [OF True pos] h1(1)] se 1(2,3) dvd size by auto
    have "{e'..<e} = {?e..<e} \<union> {e'..<?e}" using h2(3) by auto
    then have "freed h {e'..<e} h2" using freed_trans [OF h1(2) h2(6)] by simp
    then show ?thesis using h2 True pos h1(1) by (auto simp: free_down.simps [of s])
  qed
qed

lemma free_up_freed:
  assumes "i < ph_num_blocks h" "n = Block_GetSize (ph_blocks h ! i)" "n dvd s" "s \<le> e" "can_free h {s..<e}"
  shows "\<exists>s' h'. free_up s e n i h = Some (s', h') \<and> s \<le> s' \<and> s' \<le> e \<and> e < s' + n \<and> n dvd s' \<and> freed h {s..<s'} h'"
  using assms
proof (induction s e n i h rule: free_up.induct)
  case (1 s e n i h)
  have pos: "0 < n" using 1(3) by simp
  have ok: "heap_ok h" using 1(6) by (simp add: can_free_def)
  show ?case
  proof (cases "s + n \<le> e")
    case False
    moreover have "freed h {s..<s} h" using ok by (simp add: freed_def)
    ultimately show ?thesis using 1(4,5) by (simp add: free_up.simps [of s])
  next
    case True
    have split: "{s..<e} = {s..<s + n} \<union> {s + n..<e}" using True by auto
    obtain h1 where h1: "FreeBlock s i h = Some h1" "freed h {s..<s + n} h1"
      using FreeBlock_freed [OF 1(2), of s] 1(3,4) can_free_subset [OF 1(6), of "{s..<s + n}"] split by auto
    note size = freed_size [OF h1(2) ok 1(2)]
    have "can_free h1 {s + n..<e}" using can_free_rest [OF h1(2)] 1(6) split by auto
    then obtain s' h2 where h2: "free_up (s + n) e n i h1 = Some (s', h2)" "s + n \<le> s'" "s' \<le> e" "e < s' + n" "n dvd s'"
      "freed h1 {s + n..<s'} h2"
      using 1(1) [OF conjI [OF True pos] h1(1)] True 1(2,3,4) size by auto
    have "{s..<s'} = {s..<s + n} \<union> {s + n..<s'}" using h2(2) by auto
    then have "freed h {s..<s'} h2" using freed_trans [OF h1(2) h2(6)] by simp
    then show ?thesis using h2 True pos h1(1) by (auto simp: free_up.simps [of s])
  qed
qed

lemma page_gap: "PageSize dvd x \<Longrightarrow> PageSize dvd y \<Longrightarrow> x \<le> y \<Longrightarrow> y < x + PageSize \<Longrightarrow> x = y"
  by (metis add_diff_inverse_nat dvd_diff_nat dvd_imp_le diff_is_0_eq' leD le_add_diff_inverse less_diff_conv2
      nat_add_left_cancel_less neq0_conv not_le zero_less_diff)

lemma free_before_freed:
  assumes "i < ph_num_blocks h" "Block_GetSize (ph_blocks h ! i) dvd e" "PageSize dvd s" "s \<le> e" "can_free h {s..<e}"
    "i = 0 \<Longrightarrow> s = e"
  shows "\<exists>h'. free_before i s e h = Some h' \<and> freed h {s..<e} h'"
  using assms
proof (induction i arbitrary: e h)
  case 0
  then show ?case using freed_refl [of h] by simp
next
  case (Suc i)
  have ok: "heap_ok h" and i: "i < ph_num_blocks h" using Suc.prems(1,5) by (simp_all add: can_free_def)
  let ?n = "Block_GetSize (ph_blocks h ! i)"
  have "?n dvd e" using size_dvd [OF ok _ Suc.prems(1), of i] Suc.prems(2) by (auto intro: dvd_trans)
  then obtain e' h1 where h1: "free_down s e ?n i h = Some (e', h1)" "s \<le> e'" "e' \<le> e" "e' < s + ?n" "?n dvd e'"
    "freed h {e'..<e} h1"
    using free_down_freed [OF i refl _ Suc.prems(4,5)] by blast
  note size = freed_size [OF h1(6) ok i]
  have split: "{s..<e} = {e'..<e} \<union> {s..<e'}" using h1(2,3) by auto
  have rest: "can_free h1 {s..<e'}" using can_free_rest [OF h1(6)] Suc.prems(5) split by auto
  have "s = e'" if "i = 0"
    using page_gap [OF Suc.prems(3)] h1(2,4,5) size_bounds(1) [OF ok i] that by simp
  then obtain h2 where h2: "free_before i s e' h1 = Some h2" "freed h1 {s..<e'} h2"
    using Suc.IH [of h1 e'] i size h1(2,5) Suc.prems(3) rest by auto
  then show ?case using freed_trans [OF h1(6) h2(2)] split h1(1) by auto
qed

lemma free_after_freed:
  assumes "i < ph_num_blocks h" "Block_GetSize (ph_blocks h ! i) dvd s" "PageSize dvd e" "s \<le> e" "can_free h {s..<e}"
    "i = 0 \<Longrightarrow> s = e"
  shows "\<exists>h'. free_after i s e h = Some h' \<and> freed h {s..<e} h'"
  using assms
proof (induction i arbitrary: s h)
  case 0
  then show ?case using freed_refl [of h] by simp
next
  case (Suc i)
  have ok: "heap_ok h" and i: "i < ph_num_blocks h" using Suc.prems(1,5) by (simp_all add: can_free_def)
  let ?n = "Block_GetSize (ph_blocks h ! i)"
  have "?n dvd s" using size_dvd [OF ok _ Suc.prems(1), of i] Suc.prems(2) by (auto intro: dvd_trans)
  then obtain s' h1 where h1: "free_up s e ?n i h = Some (s', h1)" "s \<le> s'" "s' \<le> e" "e < s' + ?n" "?n dvd s'"
    "freed h {s..<s'} h1"
    using free_up_freed [OF i refl _ Suc.prems(4,5)] by blast
  note size = freed_size [OF h1(6) ok i]
  have split: "{s..<e} = {s..<s'} \<union> {s'..<e}" using h1(2,3) by auto
  have rest: "can_free h1 {s'..<e}" using can_free_rest [OF h1(6)] Suc.prems(5) split by auto
  have "s' = e" if "i = 0"
    using page_gap [OF _ Suc.prems(3)] h1(3-5) size_bounds(1) [OF ok i] that by simp
  then obtain h2 where h2: "free_after i s' e h1 = Some h2" "freed h1 {s'..<e} h2"
    using Suc.IH [of h1 s'] i size h1(3,5) Suc.prems(3) rest by auto
  then show ?case using freed_trans [OF h1(6) h2(2)] split h1(1) by auto
qed

lemma find_big_found:
  assumes ok: "heap_ok h" and n: "n < ph_num_blocks h"
    and r: "PageSize dvd s" "PageSize dvd e" "s < e" "e < 2 ^ 63"
  shows "\<exists>i bs be. find_big (Suc n) s e h = Some (i, bs, be) \<and> i \<le> n \<and>
    s \<le> bs \<and> bs < be \<and> be \<le> e \<and> Block_GetSize (ph_blocks h ! i) dvd bs \<and> Block_GetSize (ph_blocks h ! i) dvd be \<and>
    (i = 0 \<longrightarrow> bs = s \<and> be = e)"
  using n
proof (induction n)
  case 0
  have "Block_GetSize (ph_blocks h ! 0) = PageSize" by (rule size_bounds(1) [OF ok 0])
  moreover have "AlignUp s PageSize = s" "AlignDown e PageSize = e"
    using r by (auto simp: AlignUp_def AlignDown_def Let_def elim!: dvdE)
  ultimately show ?case using r by (simp add: Let_def)
next
  case (Suc n)
  let ?b = "Block_GetSize (ph_blocks h ! Suc n)"
  let ?bs = "AlignUp s ?b" and ?be = "AlignDown e ?b"
  have b: "0 < ?b" "s + ?b \<le> 2 ^ 64" using size_bounds(3) [OF ok Suc.prems] r by simp_all
  have bs: "?bs = (s + (?b - 1)) div ?b * ?b" using AlignUp_exact [OF b(2,1)] .
  have be: "?be = e div ?b * ?b" using r(4) by (simp add: AlignDown_exact)
  show ?case
  proof (cases "?bs < ?be")
    case True
    have "s \<le> ?bs"
    proof -
      have "s + (?b - 1) = (s + (?b - 1)) div ?b * ?b + (s + (?b - 1)) mod ?b" by simp
      moreover have "(s + (?b - 1)) mod ?b \<le> ?b - 1" using mod_less_divisor [OF b(1), of "s + (?b - 1)"] by linarith
      ultimately show ?thesis unfolding bs by linarith
    qed
    moreover have "?be \<le> e" unfolding be by simp
    moreover have "?b dvd ?bs" "?b dvd ?be" unfolding bs be by simp_all
    ultimately show ?thesis using True by (subst find_big.simps) (simp add: Let_def)
  next
    case False
    then have "find_big (Suc (Suc n)) s e h = find_big (Suc n) s e h" by (subst find_big.simps) (simp add: Let_def)
    then show ?thesis using Suc by (metis Suc_lessD le_SucI)
  qed
qed

text \<open>Freeing a range of pages of the heap that are not free adds exactly its addresses.\<close>

lemma Free_freed:
  assumes addr: "PageSize dvd addr" and can: "can_free h {addr..<addr + n * PageSize}"
  shows "\<exists>h'. Free addr n h = Some h' \<and> freed h {addr..<addr + n * PageSize} h'"
proof (cases "n = 0")
  case True
  then show ?thesis using can freed_refl [of h] by (simp add: Free_def)
next
  case False
  let ?e = "addr + n * PageSize"
  have ok: "heap_ok h" using can by (simp add: can_free_def)
  have num: "0 < ph_num_blocks h" using ok by (simp add: heap_ok_def heap_geometry_def)
  have lt: "addr < ?e" using False by (simp add: PageSize_def)
  have "?e \<le> ph_heap_address h + ph_heap_size h"
  proof -
    have "{addr..<?e} \<subseteq> {ph_heap_address h..<ph_heap_address h + ph_heap_size h}"
      using can by (simp add: can_free_def heap_range_def)
    from atLeastLessThan_subset_iff [OF this] show ?thesis using lt by linarith
  qed
  then have e: "?e < 2 ^ 63" using heap_block(7) [OF ok num] by linarith
  then have stop: "u64_add addr (u64_mul n PageSize) = ?e" by simp
  have pe: "PageSize dvd ?e" using addr by simp
  obtain i bs be where big: "find_big (ph_num_blocks h) addr ?e h = Some (i, bs, be)" "i < ph_num_blocks h"
    "addr \<le> bs" "bs < be" "be \<le> ?e" "Block_GetSize (ph_blocks h ! i) dvd bs" "Block_GetSize (ph_blocks h ! i) dvd be"
    "i = 0 \<longrightarrow> bs = addr \<and> be = ?e"
    using find_big_found [OF ok, of "ph_num_blocks h - 1" addr ?e] addr pe lt e num by force
  let ?B = "{bs..<be}" and ?L = "{addr..<bs}" and ?U = "{be..<?e}"
  have split: "{addr..<?e} = ?B \<union> (?L \<union> ?U)" using big(3-5) by auto
  obtain h1 where h1: "free_big bs be (Block_GetSize (ph_blocks h ! i)) i h = Some h1" "freed h ?B h1"
    using free_big_freed [OF big(2) refl big(6,7)] can_free_subset [OF can, of ?B] split big(4) by force
  note z1 = freed_size [OF h1(2) ok big(2)]
  have "?B \<inter> (?L \<union> ?U) = {}" "?L \<inter> ?U = {}" using big(3-5) by auto
  then have c1: "can_free h1 (?L \<union> ?U)" and apart: "?L \<inter> ?U = {}"
    using can_free_rest [OF h1(2), of "?L \<union> ?U"] can unfolding split by blast+
  obtain h2 where h2: "free_before i addr bs h1 = Some h2" "freed h1 ?L h2"
    using free_before_freed [of i h1 bs addr] big(2,3,6,8) z1 addr can_free_subset [OF c1, of ?L] by auto
  have ok1: "heap_ok h1" using h1(2) by (simp add: freed_def)
  have i1: "i < ph_num_blocks h1" using big(2) z1 by simp
  note z2 = freed_size [OF h2(2) ok1 i1]
  have c2: "can_free h2 ?U" using can_free_rest [OF h2(2) c1 apart] .
  obtain h3 where h3: "free_after i be ?e h2 = Some h3" "freed h2 ?U h3"
    using free_after_freed [of i h2 be ?e] big(2,5,7,8) z1 z2 pe c2 by auto
  have "freed h {addr..<?e} h3"
    using freed_trans [OF h1(2) freed_trans [OF h2(2) h3(2)]] split by simp
  then show ?thesis
    using False big(1) h1(1) h2(1) h3(1) unfolding Free_def Let_def stop by simp
qed

end
