(* ===== verification/PageHeapAllocation.thy ===== *)
theory PageHeapAllocation
  imports PageHeapBehaviour
begin

text \<open>
  Allocation from the page heap: popping a block of some size, giving back what is not needed, the linear
  search and the randomized search. With the facts on freeing, and that initialization makes a valid empty
  heap, they show that the heap refines a set of free addresses.
\<close>

section \<open>Allocating\<close>

text \<open>The result of an allocation: an aligned range that was free, or failure when the sizes \<open>I\<close> have no free block.\<close>

definition allocated :: "KPageHeap \<Rightarrow> nat set \<Rightarrow> nat \<Rightarrow> nat \<Rightarrow> nat \<times> KPageHeap \<Rightarrow> bool" where
  "allocated h I n align res \<longleftrightarrow>
     (let (addr, h') = res
      in heap_ok h' \<and> same_shape h h' \<and>
         (if addr = 0
          then heap_free h' = heap_free h \<and> (\<forall>i \<in> I. block_free (ph_blocks h ! i) (ph_management_data h) = {})
          else align dvd addr \<and> {addr..<addr + n} \<subseteq> heap_free h \<and> heap_free h' = heap_free h - {addr..<addr + n}))"

lemma PopBlock_heap:
  assumes ok: "heap_ok h" and i: "i < ph_num_blocks h"
    and pop: "PopBlock random (ph_blocks h ! i, ph_management_data h) = (r, b', mem')"
  shows "allocated h {i} (Block_GetSize (ph_blocks h ! i)) (Block_GetSize (ph_blocks h ! i)) (r, put_block i (b', mem') h)"
    and "j < ph_num_blocks h \<Longrightarrow> r = 0 \<Longrightarrow>
      block_free (ph_blocks (put_block i (b', mem') h) ! j) (ph_management_data (put_block i (b', mem') h)) =
      block_free (ph_blocks h ! j) (ph_management_data h)"
proof -
  let ?b = "ph_blocks h ! i" and ?mem = "ph_management_data h" and ?h = "put_block i (b', mem') h"
  let ?F = "block_free ?b ?mem"
  note hb = heap_block [OF ok i]
  have free_in: "?F \<subseteq> {ph_heap_address h..<ph_heap_address h + ph_heap_size h}" using hb(4,5) by blast
  note spec = PopBlock_spec [OF hb(1,2,3) free_in hb(7) pop]
  have sub: "block_free b' mem' \<subseteq> ?F" using spec by (auto split: if_splits)
  have sep: "?F \<inter> block_free (ph_blocks h ! j) ?mem = {}" if "j < ph_num_blocks h" "j \<noteq> i" for j
    using ok that i by (simp add: heap_ok_def)
  have range: "block_free b' mem' \<subseteq> heap_range h" using sub free_in by (auto simp: heap_range_def)
  have disj: "block_free b' mem' \<inter> block_free (ph_blocks h ! j) ?mem = {}" if "j < ph_num_blocks h" "j \<noteq> i" for j
    using sep [OF that] sub by blast
  have step: "block_step ?b ?mem b' mem'" using spec by blast
  have "geometry b' = geometry ?b" using step by (simp add: block_step_def)
  from merged_subset [OF hb(8) geometry_eq(4) [OF this] sub] have "merged b' mem'" .
  note put = put_block_ok [OF ok i step this range disj]
  show "allocated h {i} (Block_GetSize ?b) (Block_GetSize ?b) (r, ?h)"
  proof (cases "r = 0")
    case True
    then have "?F = {}" "block_free b' mem' = {}" using spec by simp_all
    then show ?thesis using put True by (simp add: allocated_def)
  next
    case False
    let ?R = "{r..<r + Block_GetSize ?b}"
    have r: "Block_GetSize ?b dvd r" "?R \<subseteq> ?F" "block_free b' mem' = ?F - ?R"
      using spec unfolding if_not_P [OF False] by blast+
    then have "heap_free ?h = heap_free h - ?R" using put(3) hb(4) by blast
    moreover have "?R \<subseteq> heap_free h" using r(2) hb(4) by blast
    ultimately show ?thesis using put(1,2) r(1) False by (simp add: allocated_def)
  qed
  assume j: "j < ph_num_blocks h" and r: "r = 0"
  show "block_free (ph_blocks ?h ! j) (ph_management_data ?h) = block_free (ph_blocks h ! j) ?mem"
  proof (cases "j = i")
    case True
    then show ?thesis using spec r i hb(6) by (simp add: put_block_def)
  next
    case False
    have "pb_ok (bl_bitmap (ph_blocks h ! j)) ?mem" "length mem' = length ?mem"
      using heap_block(1) [OF ok j] step by (simp_all add: block_step_def)
    moreover have "footprint (bl_bitmap ?b) \<inter> footprint (bl_bitmap (ph_blocks h ! j)) = {}"
      using ok i j False by (simp add: heap_ok_def heap_geometry_def)
    then have "mem' ! a = ?mem ! a" if "a \<in> footprint (bl_bitmap (ph_blocks h ! j))" for a
      using step that unfolding block_step_def by blast
    ultimately show ?thesis using block_free_frame [of "ph_blocks h ! j" ?mem mem'] False by (simp add: put_block_def)
  qed
qed

text \<open>A popped block can be given back, as a whole or in part.\<close>

lemma popped:
  assumes ok: "heap_ok h" and i: "i < ph_num_blocks h" and r: "r \<noteq> 0"
    and alloc: "allocated h I (Block_GetSize (ph_blocks h ! i)) (Block_GetSize (ph_blocks h ! i)) (r, h1)"
  shows "can_free h1 {r..<r + Block_GetSize (ph_blocks h ! i)}" "same_shape h h1" "PageSize dvd r"
    "Block_GetSize (ph_blocks h ! i) dvd r" "r + Block_GetSize (ph_blocks h ! i) < 2 ^ 63"
    "{r..<r + Block_GetSize (ph_blocks h ! i)} \<subseteq> heap_free h"
    "heap_free h1 = heap_free h - {r..<r + Block_GetSize (ph_blocks h ! i)}"
proof -
  let ?S = "Block_GetSize (ph_blocks h ! i)"
  have a: "heap_ok h1" "same_shape h h1" "?S dvd r" "{r..<r + ?S} \<subseteq> heap_free h" "heap_free h1 = heap_free h - {r..<r + ?S}"
    using alloc r by (simp_all add: allocated_def)
  then show "same_shape h h1" "?S dvd r" "{r..<r + ?S} \<subseteq> heap_free h" "heap_free h1 = heap_free h - {r..<r + ?S}"
    by simp_all
  show "PageSize dvd r" using size_bounds(2) [OF ok i] a(3) by (rule dvd_trans)
  have sub: "{r..<r + ?S} \<subseteq> heap_range h" using a(4) ok by (auto simp: heap_ok_def)
  then show "can_free h1 {r..<r + ?S}" using a by (auto simp: can_free_def heap_range_def same_shape_def)
  have "r + ?S \<le> ph_heap_address h + ph_heap_size h"
    using atLeastLessThan_subset_iff [OF sub [unfolded heap_range_def]] block_size_pos [of "ph_blocks h ! i"] by linarith
  then show "r + ?S < 2 ^ 63" using heap_block(7) [OF ok i] by linarith
qed

lemma give_back:
  assumes can: "can_free h1 {a..<e}" and page: "PageSize dvd a" "PageSize dvd e" and le: "a \<le> e"
  shows "\<exists>h2. Free a ((e - a) div PageSize) h1 = Some h2 \<and> freed h1 {a..<e} h2"
proof -
  have "(e - a) div PageSize * PageSize = e - a" using page by (simp add: dvd_diff_nat)
  then have "a + (e - a) div PageSize * PageSize = e" using le by simp
  then show ?thesis using Free_freed [OF page(1), of h1 "(e - a) div PageSize"] can by simp
qed

lemma allocated_after_failure:
  assumes pop: "allocated h {i} n' align' (0, h1)"
    and same: "\<And>j. j \<in> I \<Longrightarrow> block_free (ph_blocks h1 ! j) (ph_management_data h1) = block_free (ph_blocks h ! j) (ph_management_data h)"
    and rest: "allocated h1 I n align res"
  shows "allocated h (insert i I) n align res"
  using assms by (auto simp: allocated_def intro: same_shape_trans split: prod.splits if_splits)

section \<open>The linear search\<close>

lemma linear_search_allocates:
  assumes "heap_ok h" "set is \<subseteq> {..<ph_num_blocks h}" "PageSize dvd n" "0 < n"
    and "\<And>i. i \<in> set is \<Longrightarrow> n dvd Block_GetSize (ph_blocks h ! i)"
  shows "\<exists>res. linear_search n is h = Some res \<and> allocated h (set is) n n res"
  using assms(1,2,5)
proof (induction "is" arbitrary: h)
  case Nil
  then show ?case by (simp add: allocated_def)
next
  case (Cons i "is")
  let ?S = "Block_GetSize (ph_blocks h ! i)"
  obtain r b' mem' where pop: "PopBlock False (ph_blocks h ! i, ph_management_data h) = (r, b', mem')" by (metis surj_pair)
  let ?h1 = "put_block i (b', mem') h"
  have i: "i < ph_num_blocks h" and is_sub: "set is \<subseteq> {..<ph_num_blocks h}" using Cons.prems(2) by simp_all
  note ph = PopBlock_heap [OF Cons.prems(1) i pop]
  show ?case
  proof (cases "r = 0")
    case True
    have shape: "heap_ok ?h1" "same_shape h ?h1" using ph(1) True by (simp_all add: allocated_def)
    have "\<exists>res. linear_search n is ?h1 = Some res \<and> allocated ?h1 (set is) n n res"
    proof (rule Cons.IH [OF shape(1)])
      show "set is \<subseteq> {..<ph_num_blocks ?h1}" using is_sub shape(2) by (simp add: same_shape_def)
      show "n dvd Block_GetSize (ph_blocks ?h1 ! j)" if "j \<in> set is" for j
        using Cons.prems(3) [of j] shape_size [OF shape(2) Cons.prems(1), of j] is_sub that by auto
    qed
    then obtain res where res: "linear_search n is ?h1 = Some res" "allocated ?h1 (set is) n n res" by blast
    have "allocated h (insert i (set is)) n n res"
      using allocated_after_failure [OF ph(1) [unfolded True] _ res(2)] ph(2) True is_sub by auto
    then show ?thesis using res(1) pop True by simp
  next
    case False
    note p = popped [OF Cons.prems(1) i False ph(1)]
    have n: "n \<le> ?S" using Cons.prems(3) [of i] by (simp add: dvd_imp_le)
    have nr: "n dvd r" using Cons.prems(3) [of i] p(4) by (auto intro: dvd_trans)
    show ?thesis
    proof (cases "n = ?S")
      case True
      then show ?thesis using pop False ph(1) by (simp add: allocated_def)
    next
      case less: False
      have pages: "PageSize dvd r + n" "PageSize dvd r + ?S"
        using p(3) assms(3) size_bounds(2) [OF Cons.prems(1) i] by simp_all
      have "can_free ?h1 {r + n..<r + ?S}" using can_free_subset [OF p(1)] by auto
      from give_back [OF this pages] n obtain h2
        where h2: "Free (r + n) ((?S - n) div PageSize) ?h1 = Some h2" "freed ?h1 {r + n..<r + ?S} h2" by auto
      have "u64_add r n = r + n" using p(5) n by simp
      then have "linear_search n (i # is) h = Some (r, h2)" using pop False less n h2(1) by simp
      moreover have "heap_free h2 = heap_free h - {r..<r + n}"
        using h2(2) p(6,7) n by (auto simp: freed_def)
      then have "allocated h (set (i # is)) n n (r, h2)"
        using h2(2) p(2,6) n nr False by (auto simp: allocated_def freed_def intro: same_shape_trans)
      ultimately show ?thesis by blast
    qed
  qed
qed

lemma AllocateByLinearSearch_allocates:
  assumes "heap_ok h" "index < ph_num_blocks h"
  shows "\<exists>res. AllocateByLinearSearch index h = Some res \<and>
    allocated h {index..<ph_num_blocks h} (Block_GetSize (ph_blocks h ! index)) (Block_GetSize (ph_blocks h ! index)) res"
proof -
  let ?S = "Block_GetSize (ph_blocks h ! index)"
  have sub: "set [index..<ph_num_blocks h] \<subseteq> {..<ph_num_blocks h}" by auto
  have "?S dvd Block_GetSize (ph_blocks h ! i)" if "i \<in> set [index..<ph_num_blocks h]" for i
    using size_dvd [OF assms(1), of index i] that by simp
  from linear_search_allocates [OF assms(1) sub size_bounds(2) [OF assms] block_size_pos this]
  show ?thesis by (simp add: AllocateByLinearSearch_def)
qed

section \<open>The randomized search\<close>

text \<open>The number of free blocks of a size, and the alignments it offers.\<close>

lemma free_block_count:
  assumes ok: "heap_ok h" and i: "i < ph_num_blocks h"
  shows "Block_GetNumFreeBlocks (ph_blocks h ! i) * Block_GetSize (ph_blocks h ! i) \<le> ph_heap_size h"
    "Block_GetNumFreeBlocks (ph_blocks h ! i) = 0 \<longleftrightarrow> block_free (ph_blocks h ! i) (ph_management_data h) = {}"
proof -
  let ?b = "ph_blocks h ! i" and ?mem = "ph_management_data h"
  let ?F = "free_offsets (bl_bitmap ?b) ?mem"
  note hb = heap_block [OF ok i]
  have sub: "block_free ?b ?mem \<subseteq> {ph_heap_address h..<ph_heap_address h + ph_heap_size h}" using hb(4,5) by blast
  have num: "Block_GetNumFreeBlocks ?b = card ?F" using hb(1) by (simp add: Block_GetNumFreeBlocks_def pb_ok_def)
  have fin: "finite ?F" by (rule free_offsets_finite)
  have disj: "block_range ?b x \<inter> block_range ?b y = {}" if "x \<noteq> y" for x y using that by (auto simp: in_block_range)
  have "card (block_free ?b ?mem) = (\<Sum>x \<in> ?F. card (block_range ?b x))"
    unfolding block_free_def
  proof (rule card_UN_disjoint [OF fin])
    show "\<forall>x \<in> ?F. finite (block_range ?b x)" by (simp add: block_range_def)
    show "\<forall>x \<in> ?F. \<forall>y \<in> ?F. x \<noteq> y \<longrightarrow> block_range ?b x \<inter> block_range ?b y = {}" using disj by blast
  qed
  also have "\<dots> = card ?F * Block_GetSize ?b" by (simp add: block_range_def)
  finally have "card ?F * Block_GetSize ?b = card (block_free ?b ?mem)" by simp
  also have "\<dots> \<le> ph_heap_size h" using card_mono [OF _ sub] by simp
  finally show "Block_GetNumFreeBlocks ?b * Block_GetSize ?b \<le> ph_heap_size h" unfolding num .
  have "block_range ?b x \<noteq> {}" for x by (simp add: block_range_def)
  then have "block_free ?b ?mem = {} \<longleftrightarrow> ?F = {}" unfolding block_free_def by blast
  then show "Block_GetNumFreeBlocks ?b = 0 \<longleftrightarrow> block_free ?b ?mem = {}" using fin num by simp
qed

lemma possible_at_bounds:
  assumes ok: "heap_ok h" and i: "i < ph_num_blocks h" and n: "0 < n" "n \<le> Block_GetSize (ph_blocks h ! i)"
  shows "possible_at n s i h < 2 ^ 63"
    "possible_at n s i h = 0 \<longleftrightarrow> block_free (ph_blocks h ! i) (ph_management_data h) = {}"
proof -
  let ?S = "Block_GetSize (ph_blocks h ! i)" and ?N = "Block_GetNumFreeBlocks (ph_blocks h ! i)"
  have S: "?S < 2 ^ 64" using size_bounds(3) [OF ok i] by simp
  have left: "u64_sub ?S n = ?S - n" using n S by simp
  have "(?S - n) div 2 ^ s \<le> ?S - n" by (rule div_le_dividend)
  then have "1 + (?S - n) div 2 ^ s \<le> ?S" using n by linarith
  then have "(1 + (?S - n) div 2 ^ s) * ?N \<le> ?S * ?N" by (rule mult_le_mono1)
  also have "\<dots> < 2 ^ 63" using free_block_count(1) [OF ok i] heap_block(7) [OF ok i] by (simp add: mult.commute)
  finally have lt: "(1 + (?S - n) div 2 ^ s) * ?N < 2 ^ 63" .
  then have eq: "possible_at n s i h = (1 + (?S - n) div 2 ^ s) * ?N" unfolding possible_at_def left by simp
  show "possible_at n s i h < 2 ^ 63" unfolding eq by (rule lt)
  show "possible_at n s i h = 0 \<longleftrightarrow> block_free (ph_blocks h ! i) (ph_management_data h) = {}"
    unfolding eq free_block_count(2) [OF ok i, symmetric] by auto
qed

text \<open>The first loop sums up the alignments of the sizes below its bound.\<close>

lemma count_alignments_sum:
  assumes "\<And>i. k \<le> i \<Longrightarrow> i < m \<Longrightarrow> possible_at n s i h < 2 ^ 63" "k < m" "p < 4"
    and "count_alignments n s [k..<m] p m h = (p', m')"
  shows "k < m' \<and> m' \<le> m \<and> p' < 2 ^ 64 \<and> p' = p + (\<Sum>i = k..<m'. possible_at n s i h) \<and> (p' = 0 \<longrightarrow> m' = m)"
  using assms
proof (induction "m - k" arbitrary: k p)
  case (Suc d)
  let ?f = "\<lambda>i. possible_at n s i h"
  have sum: "u64_add p (?f k) = p + ?f k" using Suc.prems(1) [of k] Suc.prems(2,3) by simp
  have upt: "[k..<m] = k # [Suc k..<m]" using Suc.prems(2) by (simp add: upt_conv_Cons)
  show ?case
  proof (cases "4 \<le> p + ?f k")
    case True
    then have "p' = p + ?f k" "m' = Suc k" using Suc.prems(4) by (simp_all add: upt sum Let_def)
    then show ?thesis using Suc.prems(1) [of k] Suc.prems(2,3) True by simp
  next
    case False
    then have rec: "count_alignments n s [Suc k..<m] (p + ?f k) m h = (p', m')"
      using Suc.prems(4) by (simp add: upt sum Let_def)
    show ?thesis
    proof (cases "Suc k < m")
      case True
      have ih: "Suc k < m' \<and> m' \<le> m \<and> p' < 2 ^ 64 \<and> p' = p + ?f k + (\<Sum>i = Suc k..<m'. ?f i) \<and> (p' = 0 \<longrightarrow> m' = m)"
        by (rule Suc.hyps(1)) (use Suc.hyps(2) Suc.prems(1) True False rec in simp_all)
      then have km: "k < m'" by (blast dest: Suc_lessD)
      then have "(\<Sum>i = k..<m'. ?f i) = ?f k + (\<Sum>i = Suc k..<m'. ?f i)" by (rule sum.atLeast_Suc_lessThan)
      then show ?thesis using ih km by linarith
    next
      case end_reached: False
      then have "m = Suc k" using Suc.prems(2) by simp
      then show ?thesis using rec False by auto
    qed
  qed
qed simp

text \<open>The second loop picks a size that offers an alignment.\<close>

lemma choose_index_possible:
  assumes "p + (\<Sum>i = k..<m. possible_at n s i h) < 2 ^ 64" "p \<le> rnd" "rnd < p + (\<Sum>i = k..<m. possible_at n s i h)"
  shows "k \<le> choose_index n s rnd [k..<m] p d h \<and> choose_index n s rnd [k..<m] p d h < m \<and>
    possible_at n s (choose_index n s rnd [k..<m] p d h) h \<noteq> 0"
  using assms
proof (induction "m - k" arbitrary: k p)
  case (Suc l)
  let ?f = "\<lambda>i. possible_at n s i h"
  have km: "k < m" using Suc.hyps(2) by simp
  have split: "(\<Sum>i = k..<m. ?f i) = ?f k + (\<Sum>i = Suc k..<m. ?f i)" using km by (rule sum.atLeast_Suc_lessThan)
  have upt: "[k..<m] = k # [Suc k..<m]" using km by (simp add: upt_conv_Cons)
  have sum: "u64_add p (?f k) = p + ?f k" using Suc.prems(1) split by simp
  show ?case
  proof (cases "rnd < p + ?f k")
    case True
    then show ?thesis using Suc.prems(2) km by (simp add: upt sum Let_def)
  next
    case False
    have "Suc k \<le> choose_index n s rnd [Suc k..<m] (p + ?f k) d h \<and>
      choose_index n s rnd [Suc k..<m] (p + ?f k) d h < m \<and>
      ?f (choose_index n s rnd [Suc k..<m] (p + ?f k) d h) \<noteq> 0"
      by (rule Suc.hyps(1)) (use Suc.hyps(2) Suc.prems split False in simp_all)
    then show ?thesis using False by (simp add: upt sum Let_def)
  qed
qed simp

text \<open>The generator of the heap is no part of its invariant.\<close>

lemma ph_rng_update [simp]:
  "heap_ok (h \<lparr> ph_rng := g \<rparr>) \<longleftrightarrow> heap_ok h" "heap_free (h \<lparr> ph_rng := g \<rparr>) = heap_free h"
  "heap_range (h \<lparr> ph_rng := g \<rparr>) = heap_range h" "same_shape (h \<lparr> ph_rng := g \<rparr>) h' \<longleftrightarrow> same_shape h h'"
  "same_shape h' (h \<lparr> ph_rng := g \<rparr>) \<longleftrightarrow> same_shape h' h" "can_free (h \<lparr> ph_rng := g \<rparr>) R \<longleftrightarrow> can_free h R"
  "allocated (h \<lparr> ph_rng := g \<rparr>) I n a res \<longleftrightarrow> allocated h I n a res"
  by (simp_all add: heap_ok_def heap_geometry_def heap_free_def heap_range_def same_shape_def can_free_def allocated_def)

lemma GenerateRandom_below:
  assumes "0 < m" "m < 2 ^ 64" "GenerateRandom (of_nat m) g = (rnd, g')"
  shows "unat rnd < m"
proof -
  have m: "unat (of_nat m :: u64) = m" using assms(2) by (simp add: unat_of_nat take_bit_nat_eq_self)
  then have "(0 :: u64) < of_nat m" using assms(1) unfolding word_less_nat_alt by simp
  from GenerateRandom_less [OF this, of g] show ?thesis using assms(3) m unfolding word_less_nat_alt by simp
qed

lemma random_index_spec:
  assumes ok: "heap_ok h" and index: "index < ph_num_blocks h"
    and n: "0 < n" "n \<le> Block_GetSize (ph_blocks h ! index)"
    and ri: "random_index index n s h = (i, h0)"
  shows "\<exists>g. h0 = h \<lparr> ph_rng := g \<rparr>" "index \<le> i" "i < ph_num_blocks h"
    "block_free (ph_blocks h ! i) (ph_management_data h) = {} \<Longrightarrow> index \<le> j \<Longrightarrow> j < ph_num_blocks h \<Longrightarrow>
       block_free (ph_blocks h ! j) (ph_management_data h) = {}"
proof -
  let ?f = "\<lambda>i. possible_at n s i h" and ?m = "ph_num_blocks h"
  obtain p m where count: "count_alignments n s [index..<?m] 0 ?m h = (p, m)" by (metis surj_pair)
  have fits: "n \<le> Block_GetSize (ph_blocks h ! j)" if "index \<le> j" "j < ?m" for j
    using dvd_imp_le [OF size_dvd [OF ok that] block_size_pos] n(2) by linarith
  note at = possible_at_bounds [OF ok _ n(1) fits]
  have "?f j < 2 ^ 63" if "index \<le> j" "j < ?m" for j using at(1) [OF that(2,1,2)] .
  then have "index < m \<and> m \<le> ?m \<and> p < 2 ^ 64 \<and> p = 0 + (\<Sum>j = index..<m. ?f j) \<and> (p = 0 \<longrightarrow> m = ?m)"
    by (rule count_alignments_sum [OF _ index zero_less_numeral count])
  then have sum: "index < m" "m \<le> ?m" "p < 2 ^ 64" "p = (\<Sum>j = index..<m. ?f j)" "p = 0 \<longrightarrow> m = ?m"
    unfolding add_0 by blast+
  let ?draw = "0 < p \<and> index + 1 < m"
  have res: "(\<exists>g. h0 = h \<lparr> ph_rng := g \<rparr>) \<and> index \<le> i \<and> i < ?m \<and> (?f i \<noteq> 0 \<or> (\<forall>j. index \<le> j \<and> j < ?m \<longrightarrow> ?f j = 0))"
  proof (cases ?draw)
    case True
    obtain rnd g where g: "GenerateRandom (of_nat p) (ph_rng h) = (rnd, g)" by (metis surj_pair)
    have i: "i = choose_index n s (unat rnd) [index..<m] 0 index h" and h0: "h0 = h \<lparr> ph_rng := g \<rparr>"
      using ri unfolding random_index_def count case_prod_conv Let_def g if_P [OF True] by simp_all
    have rnd: "unat rnd < 0 + (\<Sum>j = index..<m. ?f j)" "0 + (\<Sum>j = index..<m. ?f j) < 2 ^ 64"
      using GenerateRandom_below [OF _ sum(3) g] True sum(3) unfolding sum(4) [symmetric] add_0 by blast+
    have "\<exists>g. h0 = h \<lparr> ph_rng := g \<rparr>" using h0 by (rule exI)
    then show ?thesis using choose_index_possible [OF rnd(2) le0 rnd(1), of index] sum(2) unfolding i [symmetric]
      by (blast intro: order_less_le_trans)
  next
    case False
    have i: "i = index" "h0 = h"
      using ri unfolding random_index_def count case_prod_conv Let_def if_not_P [OF False] by simp_all
    have "\<exists>g. h = h \<lparr> ph_rng := g \<rparr>" by (rule exI [of _ "ph_rng h"]) simp
    moreover have "?f index \<noteq> 0" if "p \<noteq> 0"
    proof -
      have "m = Suc index" using False that sum(1) by auto
      then show ?thesis using sum(4) that by simp
    qed
    moreover have "?f j = 0" if "p = 0" "index \<le> j" "j < ?m" for j
      using sum(4,5) that by simp
    ultimately show ?thesis using i index by blast
  qed
  then show "\<exists>g. h0 = h \<lparr> ph_rng := g \<rparr>" and le: "index \<le> i" and lt: "i < ?m" by blast+
  show "block_free (ph_blocks h ! j) (ph_management_data h) = {}"
    if empty: "block_free (ph_blocks h ! i) (ph_management_data h) = {}" and j: "index \<le> j" "j < ?m"
  proof -
    have "?f i = 0" using at(2) [OF lt le lt] empty by (rule iffD2)
    then have "?f j = 0" using res j by blast
    with at(2) [OF j(2,1,2)] show ?thesis by (rule iffD1)
  qed
qed

text \<open>The meta-alignment: the largest power of two that divides the alignment.\<close>

lemma countr_zero_dvd:
  assumes "0 < a" "a < 2 ^ 64"
  shows "2 ^ countr_zero (of_nat a) dvd a" "2 ^ k dvd a \<Longrightarrow> k \<le> countr_zero (of_nat a)" "countr_zero (of_nat a) < 64"
proof -
  let ?v = "of_nat a :: u64" and ?c = "countr_zero (of_nat a)"
  have "unat ?v = a" using assms(2) by (simp add: unat_of_nat take_bit_nat_eq_self)
  then have "?v \<noteq> 0" using assms(1) by auto
  note c = countr_zero_spec [OF this]
  then show "?c < 64" by simp
  have bits: "bit ?v j \<longleftrightarrow> bit a j" if "j < 64" for j using that by (simp add: bit_of_nat_iff)
  have "take_bit ?c a = 0" using c(1,3) bits by (intro bit_eqI) (auto simp: bit_take_bit_iff)
  then show "2 ^ ?c dvd a" by (simp add: take_bit_eq_0_iff)
  show "k \<le> ?c" if "2 ^ k dvd a"
  proof (rule ccontr)
    assume "\<not> k \<le> ?c"
    moreover have "take_bit k a = 0" using that by (simp add: take_bit_eq_0_iff)
    then have "\<not> bit (take_bit k a) ?c" by simp
    ultimately show False using c(1,2) bits by (simp add: bit_take_bit_iff)
  qed
qed

text \<open>The random offset into a popped block, and what is given back on both sides.\<close>

lemma keep_middle:
  assumes p: "can_free h1 {r..<r + S}" "PageSize dvd r" "PageSize dvd S" "r + S < 2 ^ 63"
    and off: "PageSize dvd off" "PageSize dvd n" "off + n \<le> S"
  shows "\<exists>h3. Option.bind (if off \<noteq> 0 then Free r (off div PageSize) h1 else Some h1)
      (\<lambda>h2. let a = u64_add r off
            in map_option (\<lambda>h'. (a, h'))
                 (if off \<noteq> S - n then Free (u64_add a n) (u64_sub (S - n) off div PageSize) h2 else Some h2)) =
      Some (r + off, h3) \<and> freed h1 ({r..<r + off} \<union> {r + off + n..<r + S}) h3"
proof -
  have ok1: "heap_ok h1" using p(1) by (simp add: can_free_def)
  have can: "can_free h1 ({r..<r + off} \<union> {r + off + n..<r + S})" using off(3) by (intro can_free_subset [OF p(1)]) auto
  have "\<exists>h2. Free r (off div PageSize) h1 = Some h2 \<and> freed h1 {r..<r + off} h2"
    using give_back [OF can_free_subset [OF can], of r "r + off"] p(2) off(1) by simp
  moreover have "freed h1 {} h1" using ok1 by (simp add: freed_def)
  ultimately obtain h2 where h2: "(if off \<noteq> 0 then Free r (off div PageSize) h1 else Some h1) = Some h2"
    "freed h1 {r..<r + off} h2"
    by (cases "off = 0") auto
  have can2: "can_free h2 {r + off + n..<r + S}" by (rule can_free_rest [OF h2(2) can]) auto
  then have ok2: "heap_ok h2" by (simp add: can_free_def)
  have "r + S - (r + off + n) = S - n - off" by simp
  then have "\<exists>h3. Free (r + off + n) ((S - n - off) div PageSize) h2 = Some h3 \<and> freed h2 {r + off + n..<r + S} h3"
    using give_back [OF can2] p(2,3) off by simp
  moreover have "freed h2 {} h2" using ok2 by (simp add: freed_def)
  ultimately obtain h3 where h3: "(if off \<noteq> S - n then Free (r + off + n) ((S - n - off) div PageSize) h2 else Some h2) = Some h3"
    "freed h2 {r + off + n..<r + S} h3"
    using off(3) by (cases "off = S - n") auto
  have arith: "u64_add r off = r + off" "u64_add (r + off) n = r + off + n" "u64_sub (S - n) off = S - n - off"
    using p(4) off(3) by simp_all
  show ?thesis
    unfolding Let_def arith h2(1) bind.bind_lunit h3(1) using freed_trans [OF h2(2) h3(2)] by simp
qed

lemma AllocateByRandom_unfold:
  assumes "u64_mul num_pages PageSize = n" "u64_mul align_pages PageSize = a" "countr_zero (of_nat a) = c"
    and "random_index index n c h = (i, h0)" "PopBlock True (ph_blocks h0 ! i, ph_management_data h0) = (r, s)"
    and "u64_sub (Block_GetSize (ph_blocks h0 ! i)) n = l"
    and "GenerateRandom (of_nat (1 + l div 2 ^ c)) (ph_rng (put_block i s h0)) = (rnd, g)"
    and "u64_mul (unat rnd) (2 ^ c) = off"
  shows "AllocateByRandom index num_pages align_pages h =
    (let h1 = put_block i s h0; h2 = h1 \<lparr> ph_rng := g \<rparr>
     in if r = 0 then Some (0, h1) else if l = 0 then Some (r, h1)
        else Option.bind (if off \<noteq> 0 then Free r (off div PageSize) h2 else Some h2)
          (\<lambda>h3. let r' = u64_add r off
                in map_option (\<lambda>h'. (r', h'))
                     (if off \<noteq> l then Free (u64_add r' n) (u64_sub l off div PageSize) h3 else Some h3)))"
  unfolding AllocateByRandom_def Let_def assms(1-3) assms(4) case_prod_conv assms(5-6) assms(7) assms(8) ..

lemma random_offset_bound:
  assumes "l < 2 ^ 62" "GenerateRandom (of_nat (1 + l div 2 ^ c)) g = (rnd, g')"
  shows "unat rnd * 2 ^ c \<le> l" "u64_mul (unat rnd) (2 ^ c) = unat rnd * 2 ^ c"
proof -
  let ?m = "1 + l div 2 ^ c"
  have "?m \<le> l + 1" using div_le_dividend [of l "2 ^ c"] by linarith
  also have "l + 1 < 2 ^ 64" using assms(1) by simp
  finally have "?m < 2 ^ 64" .
  from GenerateRandom_below [OF _ this assms(2)] have "unat rnd < ?m" by simp
  then have "unat rnd \<le> l div 2 ^ c" by simp
  then show le: "unat rnd * 2 ^ c \<le> l" by (simp add: less_eq_div_iff_mult_less_eq)
  then show "u64_mul (unat rnd) (2 ^ c) = unat rnd * 2 ^ c" using assms(1) by simp
qed

lemma AllocateByRandom_allocates:
  assumes ok: "heap_ok h" and index: "index < ph_num_blocks h" and pos: "0 < num_pages" "0 < align_pages"
    and fit: "num_pages * PageSize \<le> Block_GetSize (ph_blocks h ! index)"
      "align_pages * PageSize \<le> Block_GetSize (ph_blocks h ! index)"
  shows "\<exists>res. AllocateByRandom index num_pages align_pages h = Some res \<and>
    allocated h {index..<ph_num_blocks h} (num_pages * PageSize)
      (2 ^ countr_zero (of_nat (align_pages * PageSize))) res"
proof -
  define n a where "n = num_pages * PageSize" and "a = align_pages * PageSize"
  define c where "c = countr_zero (of_nat a)"
  let ?S = "\<lambda>i. Block_GetSize (ph_blocks h ! i)"
  have n: "0 < n" "n \<le> ?S index" "PageSize dvd n" and a: "0 < a" "a \<le> ?S index" "2 ^ 12 dvd a"
    using pos fit by (simp_all add: n_def a_def PageSize_def)
  have S_lt: "?S index < 2 ^ 62" using size_bounds(3) [OF ok index] .
  then have words: "u64_mul num_pages PageSize = n" "u64_mul align_pages PageSize = a" and a64: "a < 2 ^ 64"
    using n(2) a(2) by (simp_all add: n_def a_def)
  note c = countr_zero_dvd [OF a(1) a64, folded c_def]
  have c12: "12 \<le> c" using c(2) a(3) by blast
  obtain i h0 where ri: "random_index index n c h = (i, h0)" by (metis surj_pair)
  note rs = random_index_spec [OF ok index n(1,2) ri]
  obtain g0 where h0: "h0 = h \<lparr> ph_rng := g0 \<rparr>" using rs(1) by blast
  have Si: "?S index dvd ?S i" "?S index \<le> ?S i" "PageSize dvd ?S i" "?S i < 2 ^ 62"
    using size_dvd [OF ok rs(2,3)] size_bounds(2,3) [OF ok rs(3)] by (simp_all add: dvd_imp_le)
  have "2 ^ c \<le> ?S index" using dvd_imp_le [OF c(1)] a(1,2) by simp
  then have "2 ^ c dvd ?S index" by (auto simp: Block_GetSize_def intro: le_imp_power_dvd)
  then have cS: "2 ^ c dvd ?S i" using Si(1) by (rule dvd_trans)
  obtain r b' mem' where pop: "PopBlock True (ph_blocks h ! i, ph_management_data h) = (r, b', mem')" by (metis surj_pair)
  let ?h1 = "put_block i (b', mem') h" and ?p = "1 + (?S i - n) div 2 ^ c"
  note ph = PopBlock_heap(1) [OF ok rs(3) pop]
  have put: "put_block i (b', mem') h0 = ?h1 \<lparr> ph_rng := g0 \<rparr>" by (simp add: h0 put_block_def)
  have left: "u64_sub (Block_GetSize (ph_blocks h0 ! i)) n = ?S i - n" using n(2) Si by (simp add: h0)
  obtain rnd g where g: "GenerateRandom (of_nat ?p) g0 = (rnd, g)" by (metis surj_pair)
  define off where "off = unat rnd * 2 ^ c"
  have off: "off \<le> ?S i - n" "2 ^ c dvd off" "u64_mul (unat rnd) (2 ^ c) = off"
    using random_offset_bound [OF _ g] Si(4) by (simp_all add: off_def)
  have pop0: "PopBlock True (ph_blocks h0 ! i, ph_management_data h0) = (r, b', mem')" using pop by (simp add: h0)
  have g': "GenerateRandom (of_nat ?p) (ph_rng (put_block i (b', mem') h0)) = (rnd, g)" using g by (simp add: put)
  note unfold = AllocateByRandom_unfold [OF words c_def [symmetric] ri pop0 left g' off(3), unfolded put]
  have res: ?thesis if "AllocateByRandom index num_pages align_pages h = Some res"
    "allocated h {index..<ph_num_blocks h} n (2 ^ c) res" for res
    using that by (auto simp: n_def a_def c_def)
  consider "r = 0" | "r \<noteq> 0" "?S i = n" | "r \<noteq> 0" "?S i - n \<noteq> 0" using n(2) Si(2) by linarith
  then show ?thesis
  proof cases
    case 1
    have "allocated h {index..<ph_num_blocks h} n (2 ^ c) (0, ?h1 \<lparr> ph_rng := g0 \<rparr>)"
      using ph rs(4) 1 by (auto simp: allocated_def)
    then show ?thesis using unfold 1 by (intro res [of "(0, ?h1 \<lparr> ph_rng := g0 \<rparr>)"]) (simp_all add: Let_def)
  next
    case 2
    have "2 ^ c dvd r" using cS popped(4) [OF ok rs(3) 2(1) ph] by (rule dvd_trans)
    then have "allocated h {index..<ph_num_blocks h} n (2 ^ c) (r, ?h1 \<lparr> ph_rng := g0 \<rparr>)"
      using ph 2 by (simp add: allocated_def)
    then show ?thesis using unfold 2 by (intro res [of "(r, ?h1 \<lparr> ph_rng := g0 \<rparr>)"]) (simp_all add: Let_def)
  next
    case 3
    note p = popped [OF ok rs(3) 3(1) ph]
    have "(2 :: nat) ^ 12 dvd 2 ^ c" using c12 by (rule le_imp_power_dvd)
    then have page: "PageSize dvd off" using off(2) by (auto simp: PageSize_def intro: dvd_trans)
    let ?h2 = "?h1 \<lparr> ph_rng := g \<rparr>"
    have twice: "?h1 \<lparr> ph_rng := g0, ph_rng := g \<rparr> = ?h2" by simp
    have can: "can_free ?h2 {r..<r + ?S i}" using p(1) by simp
    have fits: "off + n \<le> ?S i" using off(1) n(2) Si(2) by linarith
    from keep_middle [OF can p(3) Si(3) p(5) page n(3) fits] obtain h3
      where h3: "AllocateByRandom index num_pages align_pages h = Some (r + off, h3)"
        "freed ?h2 ({r..<r + off} \<union> {r + off + n..<r + ?S i}) h3"
      using unfold 3 unfolding twice Let_def by auto
    have "heap_free h3 = heap_free h - {r + off..<r + off + n}"
      using h3(2) p(6,7) fits by (auto simp: freed_def)
    moreover have "2 ^ c dvd r + off" using cS p(4) off(2) by (auto intro: dvd_trans)
    moreover have "{r + off..<r + off + n} \<subseteq> heap_free h" using p(6) fits by auto
    ultimately show ?thesis
      using h3(2) p(2) 3(1) by (intro res [OF h3(1)]) (auto simp: allocated_def freed_def intro: same_shape_trans)
  qed
qed

section \<open>Initialization\<close>

text \<open>The size of a bitmap grows with the number of its bits.\<close>

lemma GetRequiredDepth_le: "n < 64 ^ k \<Longrightarrow> 0 < k \<Longrightarrow> GetRequiredDepth n \<le> k"
proof (induction k arbitrary: n)
  case (Suc k)
  show ?case
  proof (cases "n div 64 = 0")
    case True
    then show ?thesis by (simp add: GetRequiredDepth.simps [of n])
  next
    case False
    have "n div 64 < 64 ^ k" using Suc.prems(1) by (simp add: div_less_iff_less_mult mult.commute)
    moreover have "0 < k" using calculation False by (cases k) auto
    ultimately show ?thesis using Suc.IH False by (simp add: GetRequiredDepth.simps [of n])
  qed
qed simp

lemma overhead_words_mono:
  "d \<le> d' \<Longrightarrow> n \<le> m \<Longrightarrow> m + 64 \<le> 2 ^ 64 \<Longrightarrow> overhead_words d n \<le> overhead_words d' m"
proof (induction d arbitrary: d' n m)
  case (Suc d)
  obtain e where e: "d' = Suc e" using Suc.prems(1) by (cases d') auto
  have w: "words_for n \<le> words_for m" "words_for m + 64 \<le> 2 ^ 64"
    using Suc.prems(2,3) by (simp_all add: words_for_eq div_le_mono)
  then show ?case using Suc.IH [of e "words_for n" "words_for m"] Suc.prems(1) e by simp
qed simp

lemma CalculateManagementOverheadSize_mono:
  assumes "n \<le> m" "m + 64 \<le> 2 ^ 64"
  shows "CalculateManagementOverheadSize n \<le> CalculateManagementOverheadSize m"
proof -
  have "n < 64 ^ GetRequiredDepth m" using GetRequiredDepth_bounds [of m] assms(1) by (blast intro: order_le_less_trans)
  then have "GetRequiredDepth n \<le> GetRequiredDepth m" using GetRequiredDepth_bounds [of m] GetRequiredDepth_le by blast
  then show ?thesis using overhead_words_mono assms by (simp add: CalculateManagementOverheadSize_def)
qed

lemma initialize_levels_end: "fst (initialize_levels k st n b) = st + overhead_words k n"
  by (induction k arbitrary: st n b) (simp_all add: Let_def)

lemma KPageBitmap_Initialize_end: "fst (KPageBitmap_Initialize st n b) * 8 = st * 8 + CalculateManagementOverheadSize n"
  by (simp add: KPageBitmap_Initialize_def initialize_levels_end CalculateManagementOverheadSize_def algebra_simps)

text \<open>The shifts of the block sizes, for a heap of \<open>n\<close> bytes at \<open>addr\<close>: growing, at least a page, and few enough blocks of each size for the depths of a bitmap.\<close>

definition level_step :: "nat \<Rightarrow> nat \<Rightarrow> nat" where
  "level_step cur next_shift = (if next_shift \<noteq> 0 then next_shift else cur)"

definition level_fits :: "nat \<Rightarrow> nat \<Rightarrow> nat \<Rightarrow> nat \<Rightarrow> bool" where
  "level_fits addr n cur next_shift \<longleftrightarrow>
     12 \<le> cur \<and> (next_shift \<noteq> 0 \<longrightarrow> cur < next_shift) \<and> level_step cur next_shift < 62 \<and>
     addr + n + 2 ^ level_step cur next_shift * 2 \<le> 2 ^ 62 \<and>
     n + 2 ^ level_step cur next_shift * 2 < 64 ^ 4 * 2 ^ cur"

definition next_of :: "nat list \<Rightarrow> nat" where
  "next_of shifts = (case shifts of [] \<Rightarrow> 0 | x # _ \<Rightarrow> x)"

fun shifts_fit :: "nat \<Rightarrow> nat \<Rightarrow> nat list \<Rightarrow> bool" where
  "shifts_fit addr n [] \<longleftrightarrow> True"
| "shifts_fit addr n (cur # shifts) \<longleftrightarrow> level_fits addr n cur (next_of shifts) \<and> shifts_fit addr n shifts"

lemma AlignUp_ge: "v + s \<le> 2 ^ 64 \<Longrightarrow> 0 < s \<Longrightarrow> v \<le> AlignUp v s"
proof -
  assume v: "v + s \<le> 2 ^ 64" and s: "0 < s"
  have "v + (s - 1) = (v + (s - 1)) div s * s + (v + (s - 1)) mod s" by simp
  moreover have "(v + (s - 1)) mod s < s" using s by simp
  ultimately show ?thesis unfolding AlignUp_exact [OF v s] by linarith
qed

text \<open>The rounded range of a level, and its number of blocks.\<close>

lemma level_range:
  assumes fit: "level_fits addr n cur next_shift" and n: "0 < n"
    and al: "al = (2 :: nat) ^ level_step cur next_shift" and lo: "lo = AlignDown addr al" and hi: "hi = AlignUp (addr + n) al"
    and k: "k = u64_sub hi lo div 2 ^ cur"
  shows "al dvd lo" "al dvd hi" "lo \<le> addr" "addr + n \<le> hi" "k * 2 ^ cur = hi - lo" "hi < 2 ^ 63" "0 < k" "k < 64 ^ 4"
    "k \<le> u64_add (u64_mul al 2) (AlignUp n al) div 2 ^ cur"
    "u64_add (u64_mul al 2) (AlignUp n al) div 2 ^ cur + 64 \<le> 2 ^ 64"
    "u64_add (u64_mul al 2) (AlignUp n al) \<le> n + al * 3"
proof -
  have pos: "0 < al" and bound: "addr + n + al * 2 \<le> 2 ^ 62" "n + al * 2 < 64 ^ 4 * 2 ^ cur"
    using fit al by (simp_all add: level_fits_def)
  have up: "v \<le> (v + (al - 1)) div al * al \<and> (v + (al - 1)) div al * al < v + al" for v
  proof -
    have "v + (al - 1) = (v + (al - 1)) div al * al + (v + (al - 1)) mod al" by simp
    moreover have "(v + (al - 1)) mod al < al" using pos by simp
    ultimately show ?thesis by linarith
  qed
  have lo': "lo = addr div al * al" using bound by (simp add: lo AlignDown_exact)
  have hi': "hi = (addr + n + (al - 1)) div al * al" using bound pos unfolding hi by (intro AlignUp_exact) simp_all
  have nu: "AlignUp n al = (n + (al - 1)) div al * al" using bound pos by (intro AlignUp_exact) simp_all
  note hib = up [of "addr + n", folded hi'] and nb = up [of n, folded nu]
  show "al dvd lo" "al dvd hi" unfolding lo' hi' by simp_all
  show lo_le: "lo \<le> addr" unfolding lo' by simp
  have lo_gt: "addr < lo + al" unfolding lo' using pos by (metis add.commute div_mult_mod_eq mod_less_divisor nat_add_left_cancel_less)
  show hi_ge: "addr + n \<le> hi" and hi_lt: "hi < 2 ^ 63" using hib bound(1) by simp_all
  have width: "hi - lo \<le> n + al * 2" using hib lo_gt by linarith
  have sub: "u64_sub hi lo = hi - lo" using lo_le hi_ge hi_lt by simp
  have "2 ^ cur dvd al" using fit unfolding al level_fits_def level_step_def by (auto intro: le_imp_power_dvd)
  then have "2 ^ cur dvd hi - lo" using \<open>al dvd lo\<close> \<open>al dvd hi\<close> by (meson dvd_diff_nat dvd_trans)
  then show kc: "k * 2 ^ cur = hi - lo" unfolding k sub by simp
  have "0 < k * 2 ^ cur" unfolding kc using lo_le hi_ge n by linarith
  then show "0 < k" by simp
  have "k * 2 ^ cur < 64 ^ 4 * 2 ^ cur" using width bound(2) unfolding kc by linarith
  then show "k < 64 ^ 4" by simp
  have total: "u64_add (u64_mul al 2) (AlignUp n al) = al * 2 + AlignUp n al"
    using nb bound(1) by simp
  have "hi - lo \<le> al * 2 + AlignUp n al" using width nb by linarith
  then show "k \<le> u64_add (u64_mul al 2) (AlignUp n al) div 2 ^ cur" unfolding k sub total by (rule div_le_mono)
  have "(al * 2 + AlignUp n al) div 2 ^ cur \<le> al * 2 + AlignUp n al" by (rule div_le_dividend)
  moreover have "al * 2 + AlignUp n al + 64 \<le> 2 ^ 64" using nb bound(1) by simp
  ultimately show "u64_add (u64_mul al 2) (AlignUp n al) div 2 ^ cur + 64 \<le> 2 ^ 64" unfolding total by linarith
  show "u64_add (u64_mul al 2) (AlignUp n al) \<le> n + al * 3" unfolding total using nb by linarith
qed

text \<open>One level: its geometry, its empty bitmap and the room it takes.\<close>

lemma Block_Initialize_spec:
  assumes fit: "level_fits addr n cur next_shift" and n: "0 < n"
    and init: "Block_Initialize addr n cur next_shift st (Block_create seed) = (st', b)"
    and mem: "st' \<le> length mem" "length mem < 2 ^ 57" "\<And>a. st \<le> a \<Longrightarrow> a < st' \<Longrightarrow> mem ! a = 0"
  shows "block_geometry addr (addr + n) b \<and> bl_block_shift b = cur \<and> bl_next_block_shift b = next_shift \<and>
    pb_ok (bl_bitmap b) mem \<and> free_offsets (bl_bitmap b) mem = {} \<and> footprint (bl_bitmap b) = {st..<st'}"
proof -
  define al where "al = (2 :: nat) ^ level_step cur next_shift"
  define lo hi where "lo = AlignDown addr al" and "hi = AlignUp (addr + n) al"
  define k where "k = u64_sub hi lo div 2 ^ cur"
  note r = level_range [OF fit n al_def lo_def hi_def k_def]
  have sum: "u64_add addr n = addr + n" using fit by (simp add: level_fits_def)
  have align: "(if next_shift \<noteq> 0 then (2 :: nat) ^ next_shift else 2 ^ cur) = al" by (simp add: al_def level_step_def)
  obtain bm where bm: "KPageBitmap_Initialize st k (KPageBitmap_create seed) = (st', bm)"
    and b: "b = \<lparr> bl_bitmap = bm, bl_heap_address = lo, bl_end_offset = k, bl_block_shift = cur, bl_next_block_shift = next_shift \<rparr>"
    using init unfolding Block_Initialize_def Let_def sum align lo_def [symmetric] hi_def [symmetric] k_def [symmetric]
    by (auto simp: Block_create_def split: prod.splits)
  have "KPageBitmap_Initialize_asserts k" using GetRequiredDepth_le [OF r(8)] by (simp add: KPageBitmap_Initialize_asserts_def MaxDepth_def)
  moreover have "k + 64 \<le> 2 ^ 64" using r(8) by simp
  ultimately have bm_ok: "pb_ok bm mem \<and> free_offsets bm mem = {} \<and> footprint bm = {st..<st'} \<and> k \<le> capacity bm"
    using Initialize_ok [OF bm r(7) _ _ mem] by blast
  have "lo + k * 2 ^ cur = hi" using r(3-5) n by linarith
  then have "block_geometry addr (addr + n) b"
    using fit r(1-6) bm_ok unfolding block_geometry_def Let_def b level_fits_def al_def level_step_def
    by (auto simp: Block_GetSize_def)
  then show ?thesis using bm_ok by (simp add: b)
qed

lemma Block_Initialize_grows: "st \<le> fst (Block_Initialize addr n cur next_shift st b)"
  by (simp add: Block_Initialize_def Let_def case_prod_beta KPageBitmap_Initialize_def initialize_levels_end)

lemma Block_Initialize_end:
  assumes "level_fits addr n cur next_shift" "0 < n"
  shows "fst (Block_Initialize addr n cur next_shift st b) * 8 \<le>
    st * 8 + Block_CalculateManagementOverheadSize n cur next_shift"
proof -
  let ?al = "(2 :: nat) ^ level_step cur next_shift"
  note r = level_range [OF assms refl refl refl refl]
  have sum: "u64_add addr n = addr + n" using assms(1) by (simp add: level_fits_def)
  have align: "(if next_shift \<noteq> 0 then (2 :: nat) ^ next_shift else 2 ^ cur) = ?al" by (simp add: level_step_def)
  show ?thesis
    unfolding Block_Initialize_def Block_CalculateManagementOverheadSize_def Let_def sum align
    using CalculateManagementOverheadSize_mono [OF r(9,10)]
    by (simp add: case_prod_beta KPageBitmap_Initialize_end)
qed

text \<open>The total room stays far below the end of the address space.\<close>

lemma overhead_words_le: "n + 64 \<le> 2 ^ 64 \<Longrightarrow> overhead_words d n \<le> d * n"
proof (induction d arbitrary: n)
  case (Suc d)
  have w: "words_for n \<le> n" using Suc.prems by (simp add: words_for_eq)
  then have "overhead_words d (words_for n) \<le> d * words_for n" using Suc by simp
  also have "\<dots> \<le> d * n" using w by simp
  finally show ?case using w by simp
qed simp

lemma Block_overhead_bound:
  assumes "level_fits addr n cur next_shift" "0 < n" "n + 2 ^ level_step cur next_shift * 3 < 2 ^ 37"
  shows "Block_CalculateManagementOverheadSize n cur next_shift \<le> 7 * 2 ^ 37 * 8"
proof -
  let ?al = "(2 :: nat) ^ level_step cur next_shift"
  let ?m = "u64_add (u64_mul ?al 2) (AlignUp n ?al) div 2 ^ cur"
  note r = level_range [OF assms(1,2) refl refl refl refl]
  have "?m \<le> u64_add (u64_mul ?al 2) (AlignUp n ?al)" by (rule div_le_dividend)
  then have m: "?m < 2 ^ 37" using r(11) assms(3) by linarith
  then have "?m < 64 ^ 7" by simp
  then have d: "GetRequiredDepth ?m \<le> 7" by (rule GetRequiredDepth_le) simp
  have "overhead_words (GetRequiredDepth ?m) ?m \<le> GetRequiredDepth ?m * ?m" by (rule overhead_words_le [OF r(10)])
  also have "\<dots> \<le> 7 * 2 ^ 37" using d m by (intro mult_le_mono) simp_all
  finally have "CalculateManagementOverheadSize ?m \<le> 7 * 2 ^ 37 * 8" by (simp add: CalculateManagementOverheadSize_def)
  moreover have "(if next_shift \<noteq> 0 then (2 :: nat) ^ next_shift else 2 ^ cur) = ?al" by (simp add: level_step_def)
  ultimately show ?thesis unfolding Block_CalculateManagementOverheadSize_def Let_def by simp
qed

lemma overhead_size_bound:
  assumes "shifts_fit addr n shifts" "0 < n" "\<forall>x \<in> set shifts. n + 2 ^ x * 3 < 2 ^ 37"
  shows "overhead_size n shifts \<le> length shifts * (7 * 2 ^ 37 * 8)"
  using assms(1,3)
proof (induction shifts)
  case (Cons cur shifts)
  have "level_step cur (next_of shifts) \<in> set (cur # shifts)"
    by (auto simp: level_step_def next_of_def split: list.splits)
  then have "n + 2 ^ level_step cur (next_of shifts) * 3 < 2 ^ 37" using Cons.prems(2) by blast
  then have "Block_CalculateManagementOverheadSize n cur (next_of shifts) \<le> 7 * 2 ^ 37 * 8"
    using Block_overhead_bound [of addr n cur "next_of shifts"] Cons.prems(1) assms(2) by simp
  then show ?case using Cons by (simp add: next_of_def [symmetric])
qed simp

text \<open>All levels: each block as above, on its own words of the management data.\<close>

definition level_ok :: "nat \<Rightarrow> nat \<Rightarrow> u64 list \<Rightarrow> nat \<Rightarrow> nat \<Rightarrow> nat \<times> nat \<Rightarrow> Block \<Rightarrow> bool" where
  "level_ok addr n mem st st' shifts b \<longleftrightarrow>
     block_geometry addr (addr + n) b \<and> bl_block_shift b = fst shifts \<and> bl_next_block_shift b = snd shifts \<and>
     pb_ok (bl_bitmap b) mem \<and> free_offsets (bl_bitmap b) mem = {} \<and> footprint (bl_bitmap b) \<subseteq> {st..<st'}"

lemma level_ok_mono: "level_ok addr n mem st1 st' shifts b \<Longrightarrow> st \<le> st1 \<Longrightarrow> level_ok addr n mem st st' shifts b"
  using ivl_subset [of st1 st' st st'] unfolding level_ok_def by (meson order_refl subset_trans)

lemma initialize_blocks_end:
  assumes "shifts_fit addr n shifts" "0 < n" "length bs = length shifts"
  shows "st \<le> fst (initialize_blocks addr n st shifts bs) \<and>
    fst (initialize_blocks addr n st shifts bs) * 8 \<le> st * 8 + overhead_size n shifts"
  using assms(1,3)
proof (induction shifts arbitrary: bs st)
  case (Cons cur shifts)
  obtain b bs' where bs: "bs = b # bs'" using Cons.prems(2) by (cases bs) auto
  obtain st1 b1 where init: "Block_Initialize addr n cur (next_of shifts) st b = (st1, b1)" by (metis surj_pair)
  have "st1 * 8 \<le> st * 8 + Block_CalculateManagementOverheadSize n cur (next_of shifts)"
    using Block_Initialize_end [of addr n cur "next_of shifts" st b] Cons.prems(1) assms(2) init by simp
  moreover have "st \<le> st1" using Block_Initialize_grows [of st addr n cur "next_of shifts" b] init by simp
  ultimately show ?case
    using Cons.IH [of bs' st1] Cons.prems init by (simp add: bs next_of_def [symmetric] case_prod_beta Let_def)
qed simp

lemma initialize_blocks_spec:
  assumes "shifts_fit addr n shifts" "0 < n" "length seeds = length shifts"
    and "initialize_blocks addr n st shifts (map Block_create seeds) = (st', bs)"
    and "st' \<le> length mem" "length mem < 2 ^ 57" "\<And>a. st \<le> a \<Longrightarrow> a < st' \<Longrightarrow> mem ! a = 0"
  shows "length bs = length shifts \<and>
    (\<forall>i < length shifts. level_ok addr n mem st st' (shifts ! i, next_of (drop (Suc i) shifts)) (bs ! i)) \<and>
    (\<forall>j < length shifts. \<forall>i < j. footprint (bl_bitmap (bs ! i)) \<inter> footprint (bl_bitmap (bs ! j)) = {})"
  using assms(1,3,4,7)
proof (induction shifts arbitrary: seeds st bs)
  case Nil
  then show ?case by simp
next
  case (Cons cur shifts)
  obtain s seeds' where seeds: "seeds = s # seeds'" using Cons.prems(2) by (cases seeds) auto
  obtain st1 b1 where init: "Block_Initialize addr n cur (next_of shifts) st (Block_create s) = (st1, b1)" by (metis surj_pair)
  obtain bs1 where rest: "initialize_blocks addr n st1 shifts (map Block_create seeds') = (st', bs1)" and bs: "bs = b1 # bs1"
    using Cons.prems(3) init by (auto simp: seeds next_of_def [symmetric] Let_def split: prod.splits)
  have fit: "level_fits addr n cur (next_of shifts)" "shifts_fit addr n shifts" "length seeds' = length shifts"
    using Cons.prems(1,2) by (simp_all add: seeds)
  have "st1 \<le> st'" using initialize_blocks_end [OF fit(2) assms(2), of "map Block_create seeds'" st1] fit(3) rest by simp
  moreover have "st \<le> st1" using Block_Initialize_grows [of st addr n cur "next_of shifts" "Block_create s"] init by simp
  ultimately have le: "st \<le> st1" "st1 \<le> st'" by blast+
  then have head: "level_ok addr n mem st st' (cur, next_of shifts) b1" "footprint (bl_bitmap b1) = {st..<st1}"
    using Block_Initialize_spec [OF fit(1) assms(2) init, of mem] assms(5,6) Cons.prems(4) by (auto simp: level_ok_def)
  have tail: "length bs1 = length shifts"
    "i < length shifts \<Longrightarrow> level_ok addr n mem st1 st' (shifts ! i, next_of (drop (Suc i) shifts)) (bs1 ! i)"
    "j < length shifts \<Longrightarrow> i < j \<Longrightarrow> footprint (bl_bitmap (bs1 ! i)) \<inter> footprint (bl_bitmap (bs1 ! j)) = {}" for i j
    using Cons.IH [OF fit(2,3) rest] Cons.prems(4) le by auto
  have level: "level_ok addr n mem st st' ((cur # shifts) ! i, next_of (drop (Suc i) (cur # shifts))) (bs ! i)"
    if "i < length (cur # shifts)" for i
    using that head(1) level_ok_mono [OF tail(2) le(1)] unfolding bs by (cases i) simp_all
  have apart: "footprint (bl_bitmap (bs ! i)) \<inter> footprint (bl_bitmap (bs ! j)) = {}"
    if ij: "j < length (cur # shifts)" "i < j" for i j
  proof (cases i)
    case 0
    then obtain j' where j': "j = Suc j'" "j' < length shifts" using ij by (cases j) auto
    then have "footprint (bl_bitmap (bs1 ! j')) \<subseteq> {st1..<st'}" using tail(2) by (simp add: level_ok_def)
    then show ?thesis using 0 j'(1) head(2) unfolding bs by auto
  next
    case (Suc i')
    then obtain j' where "j = Suc j'" using ij by (cases j) auto
    then show ?thesis using Suc ij tail(3) [of j' i'] unfolding bs by simp
  qed
  show ?case using level apart tail(1) by (simp add: bs)
qed

text \<open>The heap after initialization is valid and has no free address.\<close>

lemma MemoryBlockPageShifts_fit:
  assumes "addr + n \<le> 2 ^ 61" "n + 2 ^ 17 < 2 ^ 36"
  shows "shifts_fit addr n MemoryBlockPageShifts"
  using assms by (simp add: MemoryBlockPageShifts_def level_fits_def level_step_def next_of_def)

lemma heap_overhead_bound:
  assumes "0 < n" "n + 2 ^ 17 < 2 ^ 36"
  shows "overhead_size n MemoryBlockPageShifts \<le> KPageHeap_CalculateManagementOverheadSize n MemoryBlockPageShifts"
    "KPageHeap_CalculateManagementOverheadSize n MemoryBlockPageShifts < 2 ^ 60"
proof -
  let ?sh = MemoryBlockPageShifts
  have "shifts_fit 0 n ?sh" using assms(2) by (intro MemoryBlockPageShifts_fit) simp_all
  moreover have "\<forall>x \<in> set ?sh. n + 2 ^ x * 3 < 2 ^ 37" using assms(2) by (simp add: MemoryBlockPageShifts_def)
  ultimately have "overhead_size n ?sh \<le> length ?sh * (7 * 2 ^ 37 * 8)" using overhead_size_bound assms(1) by blast
  then have small: "overhead_size n ?sh \<le> 7 * (7 * 2 ^ 37 * 8)" by (simp add: MemoryBlockPageShifts_def)
  then have fits: "overhead_size n ?sh + PageSize \<le> 2 ^ 64" by (simp add: PageSize_def)
  then show "overhead_size n ?sh \<le> KPageHeap_CalculateManagementOverheadSize n ?sh"
    using AlignUp_ge [OF fits PageSize_pos] by (simp add: KPageHeap_CalculateManagementOverheadSize_def)
  have "(overhead_size n ?sh + (PageSize - 1)) div PageSize * PageSize \<le> overhead_size n ?sh + (PageSize - 1)" by simp
  then show "KPageHeap_CalculateManagementOverheadSize n ?sh < 2 ^ 60"
    using small unfolding KPageHeap_CalculateManagementOverheadSize_def AlignUp_exact [OF fits PageSize_pos]
    by (simp add: PageSize_def)
qed

definition heap_of_shifts :: "KPageHeap \<Rightarrow> bool" where
  "heap_of_shifts h \<longleftrightarrow>
     heap_ok h \<and> ph_num_blocks h = NumMemoryBlockPageShifts \<and>
     (\<forall>i < NumMemoryBlockPageShifts. bl_block_shift (ph_blocks h ! i) = MemoryBlockPageShifts ! i)"

lemma next_of_drop: "next_of (drop k xs) = (if k < length xs then xs ! k else 0)"
  by (simp add: next_of_def Cons_nth_drop_Suc [symmetric])

lemma shifts_grow: "Suc i < NumMemoryBlockPageShifts \<Longrightarrow> MemoryBlockPageShifts ! i < MemoryBlockPageShifts ! Suc i"
proof -
  assume "Suc i < NumMemoryBlockPageShifts"
  then have "i \<in> set [0..<6]" by (simp add: NumMemoryBlockPageShifts_def)
  moreover have "list_all (\<lambda>i. MemoryBlockPageShifts ! i < MemoryBlockPageShifts ! Suc i) [0..<6]"
    by (simp add: MemoryBlockPageShifts_def upt_rec)
  ultimately show ?thesis by (simp add: list_all_iff)
qed

lemma Initialize_heap_ok:
  assumes place: "PageSize dvd addr" "PageSize dvd n" "0 < addr" "0 < n" "addr + n \<le> 2 ^ 61" "n + 2 ^ 17 < 2 ^ 36"
    and room: "KPageHeap_CalculateManagementOverheadSize n MemoryBlockPageShifts \<le> ms" "ms < 2 ^ 60"
    and init: "KPageHeap_Initialize addr n ms MemoryBlockPageShifts (KPageHeap_create seed) = (st, h)"
  shows "heap_of_shifts h" "heap_free h = {}" "ph_heap_address h = addr" "ph_heap_size h = n" "st * 8 \<le> ms"
proof -
  let ?N = NumMemoryBlockPageShifts and ?sh = MemoryBlockPageShifts
  let ?seeds = "map seed [0..<?N]" and ?mem = "replicate (ms div 8) (0 :: u64)"
  have len: "length ?sh = ?N" by (simp add: MemoryBlockPageShifts_def NumMemoryBlockPageShifts_def)
  note fit = MemoryBlockPageShifts_fit [OF place(5,6)]
  obtain bs where bs: "initialize_blocks addr n 0 ?sh (map Block_create ?seeds) = (st, bs)"
    and h: "h = KPageHeap_create seed \<lparr> ph_heap_address := addr, ph_heap_size := n, ph_num_blocks := ?N,
      ph_management_data := ?mem, ph_blocks := bs \<rparr>"
    using init len by (auto simp: KPageHeap_Initialize_def KPageHeap_create_def resize_def comp_def split: prod.splits)
  have over: "st * 8 \<le> overhead_size n ?sh"
    using initialize_blocks_end [OF fit place(4), of "map Block_create ?seeds" 0] len bs by simp
  also have "\<dots> \<le> ms" using heap_overhead_bound(1) [OF place(4,6)] room(1) by linarith
  finally show st: "st * 8 \<le> ms" .
  then have mem: "st \<le> length ?mem" "length ?mem < 2 ^ 57" "\<And>a. 0 \<le> a \<Longrightarrow> a < st \<Longrightarrow> ?mem ! a = 0" using room(2) by auto
  have seeds: "length ?seeds = length ?sh" using len by simp
  note spec = initialize_blocks_spec [OF fit place(4) seeds bs mem, unfolded len]
  have level: "level_ok addr n ?mem 0 st (?sh ! i, if Suc i < ?N then ?sh ! Suc i else 0) (bs ! i)" if "i < ?N" for i
    using spec that by (simp add: next_of_drop len)
  have fields: "ph_blocks h = bs" "ph_num_blocks h = ?N" "ph_management_data h = ?mem" "ph_heap_address h = addr" "ph_heap_size h = n"
    by (simp_all add: h)
  then show "ph_heap_address h = addr" "ph_heap_size h = n" by simp_all
  have empty: "block_free (bs ! i) ?mem = {}" if "i < ?N" for i using level [OF that] by (simp add: level_ok_def block_free_def)
  then show free: "heap_free h = {}" by (simp add: heap_free_def fields)
  have apart: "footprint (bl_bitmap (bs ! i)) \<inter> footprint (bl_bitmap (bs ! j)) = {}" if "i < ?N" "j < ?N" "i \<noteq> j" for i j
    using spec that by (metis Int_commute nat_neq_iff)
  have shift: "bl_block_shift (bs ! i) = ?sh ! i" "bl_next_block_shift (bs ! i) = (if Suc i < ?N then ?sh ! Suc i else 0)"
    "block_geometry addr (addr + n) (bs ! i)" if "i < ?N" for i
    using level [OF that] by (simp_all add: level_ok_def)
  have N: "0 < ?N" "?sh ! 0 = 12" by (simp_all add: NumMemoryBlockPageShifts_def MemoryBlockPageShifts_def)
  have "addr + n < 2 ^ 63" using place(5) by simp
  moreover have "length bs = ?N" using spec by blast
  ultimately have "heap_geometry h"
    unfolding heap_geometry_def fields using place(1-3) N shift apart shifts_grow Suc_lessD by auto
  moreover have "merged (bs ! i) ?mem" if "i < ?N" for i
    using empty [OF that] by (simp add: merged_def)
  ultimately have "heap_ok h" using empty free level by (simp add: heap_ok_def fields level_ok_def)
  then show "heap_of_shifts h" using level by (simp add: heap_of_shifts_def fields level_ok_def)
qed

end
