(* ===== verification/PageHeapRefinement.thy ===== *)
theory PageHeapRefinement
  imports PageHeapAllocation
begin

text \<open>
  The page heap of the memory manager, from its initialization on: its free addresses are what the
  operations make of the empty set, no operation runs behind the largest block size, and an
  allocation fails only when no aligned block of the size is free.
\<close>

section \<open>Merging is complete\<close>

lemma block_free_aligned:
  assumes ok: "heap_ok h" and i: "i < ph_num_blocks h" and c: "Block_GetSize (ph_blocks h ! i) dvd c"
    and z: "z \<in> {c..<c + Block_GetSize (ph_blocks h ! i)}" "z \<in> block_free (ph_blocks h ! i) (ph_management_data h)"
  shows "{c..<c + Block_GetSize (ph_blocks h ! i)} \<subseteq> block_free (ph_blocks h ! i) (ph_management_data h)"
proof -
  let ?b = "ph_blocks h ! i"
  obtain x where x: "x \<in> free_offsets (bl_bitmap ?b) (ph_management_data h)" "z \<in> block_range ?b x"
    using z(2) by (auto simp: block_free_def)
  let ?a = "bl_heap_address ?b + x * Block_GetSize ?b"
  have "Block_GetSize ?b dvd bl_heap_address ?b"
    using heap_block(2) [OF ok i]
    by (auto simp: block_geometry_def Let_def Block_GetSize_def intro: dvd_trans [OF le_imp_power_dvd] split: if_splits)
  then have "Block_GetSize ?b dvd ?a" by simp
  moreover have range: "block_range ?b x = {?a..<?a + Block_GetSize ?b}" by (simp add: block_range_def algebra_simps)
  ultimately have "c = ?a" using aligned_ranges_meet [OF c _ z(1)] x(2) by simp
  then show ?thesis using x(1) range by (auto simp: block_free_def)
qed

lemma dvd_less_add: "(s :: nat) dvd x \<Longrightarrow> s dvd y \<Longrightarrow> x < y \<Longrightarrow> x + s \<le> y"
proof (elim dvdE)
  fix k l assume "x = s * k" "y = s * l" "x < y"
  moreover from this have "s * (k + 1) \<le> s * l" by (intro mult_le_mono2) simp
  ultimately show "x + s \<le> y" by simp
qed

lemma aligned_subrange:
  assumes "(s :: nat) dvd c" "s dvd a" "s dvd n" "z \<in> {c..<c + s}" "z \<in> {a..<a + n}"
  shows "{c..<c + s} \<subseteq> {a..<a + n}"
proof -
  have "a \<le> c" using dvd_less_add [OF assms(1,2)] assms(4,5) by (meson atLeastLessThan_iff le_less_trans not_le)
  moreover have "c < a + n" using assms(4,5) by simp
  then have "c + s \<le> a + n" using dvd_less_add assms(1-3) by (metis dvd_add)
  ultimately show ?thesis by auto
qed

text \<open>No aligned block is covered by smaller blocks alone, since those would have been merged.\<close>

lemma not_covered_below:
  assumes ok: "heap_ok h"
  shows "i < ph_num_blocks h \<Longrightarrow> Block_GetSize (ph_blocks h ! i) dvd a \<Longrightarrow>
    \<not> {a..<a + Block_GetSize (ph_blocks h ! i)} \<subseteq> (\<Union>j < i. block_free (ph_blocks h ! j) (ph_management_data h))"
proof (induction i arbitrary: a)
  case 0
  have "a \<in> {a..<a + Block_GetSize (ph_blocks h ! 0)}" by simp
  then show ?case by blast
next
  case (Suc i)
  let ?S = "Block_GetSize (ph_blocks h ! i)" and ?F = "\<lambda>j. block_free (ph_blocks h ! j) (ph_management_data h)"
  let ?N = "Block_GetSize (ph_blocks h ! Suc i)"
  have i: "i < ph_num_blocks h" using Suc.prems(1) by simp
  have shift: "bl_next_block_shift (ph_blocks h ! i) = bl_block_shift (ph_blocks h ! Suc i)" "0 < bl_block_shift (ph_blocks h ! Suc i)"
    using ok Suc.prems(1) by (auto simp: heap_ok_def heap_geometry_def)
  have dvd: "?S dvd ?N" using size_dvd [OF ok _ Suc.prems(1), of i] by simp
  show ?case
  proof
    assume cover: "{a..<a + ?N} \<subseteq> (\<Union>j < Suc i. ?F j)"
    have "z \<in> ?F i" if z: "z \<in> {a..<a + ?N}" for z
    proof -
      define c where "c = z div ?S * ?S"
      have c: "?S dvd c" "z \<in> {c..<c + ?S}"
        using div_mult_mod_eq [of z ?S] mod_less_divisor [OF block_size_pos, of z "ph_blocks h ! i"]
        unfolding c_def by (simp, unfold atLeastLessThan_iff, linarith)
      have sub: "{c..<c + ?S} \<subseteq> {a..<a + ?N}"
        by (rule aligned_subrange [OF c(1) dvd_trans [OF dvd Suc.prems(2)] dvd c(2) z])
      from Suc.IH [OF i c(1)] obtain y where y: "y \<in> {c..<c + ?S}" "y \<notin> (\<Union>j < i. ?F j)" by blast
      then have "y \<in> (\<Union>j < Suc i. ?F j)" using sub cover by blast
      then have "y \<in> ?F i" using y(2) by (auto simp: lessThan_Suc)
      from block_free_aligned [OF ok i c(1) y(1) this] show ?thesis using c(2) by blast
    qed
    then have "{a..<a + ?N} \<subseteq> ?F i" by blast
    moreover have "merged (ph_blocks h ! i) (ph_management_data h)" by (rule heap_block(8) [OF ok i])
    ultimately show False using Suc.prems(2) shift by (simp add: merged_def Block_GetSize_def)
  qed
qed

lemma free_block_exists:
  assumes ok: "heap_ok h" and i: "i < ph_num_blocks h" and a: "Block_GetSize (ph_blocks h ! i) dvd a"
    and free: "{a..<a + Block_GetSize (ph_blocks h ! i)} \<subseteq> heap_free h"
  shows "\<exists>j \<in> {i..<ph_num_blocks h}. block_free (ph_blocks h ! j) (ph_management_data h) \<noteq> {}"
proof -
  let ?F = "\<lambda>j. block_free (ph_blocks h ! j) (ph_management_data h)"
  obtain z where z: "z \<in> {a..<a + Block_GetSize (ph_blocks h ! i)}" "z \<notin> (\<Union>j < i. ?F j)"
    using not_covered_below [OF ok i a] by blast
  then obtain j where j: "j < ph_num_blocks h" "z \<in> ?F j" using free by (auto simp: heap_free_def)
  then have "i \<le> j" using z(2) by (meson UN_I lessThan_iff not_le)
  then show ?thesis using j by auto
qed

section \<open>The heap as a set of addresses\<close>

text \<open>
  The operations of a client that frees only pages of the heap that are not free, and takes the size
  for an aligned request from \<^const>\<open>GetAlignedBlockIndex\<close>; the last argument of an allocation is its result.
\<close>

datatype heap_op = HFree nat nat | HAlloc nat bool nat | HAlign nat nat nat

inductive ph_step :: "KPageHeap \<Rightarrow> heap_op \<Rightarrow> KPageHeap \<Rightarrow> bool" where
  "PageSize dvd a \<Longrightarrow> {a..<a + k * PageSize} \<subseteq> heap_range h - heap_free h \<Longrightarrow> Free a k h = Some h' \<Longrightarrow>
     ph_step h (HFree a k) h'"
| "index < NumMemoryBlockPageShifts \<Longrightarrow> AllocateBlock index random h = Some (r, h') \<Longrightarrow>
     ph_step h (HAlloc index random r) h'"
| "0 < num_pages \<Longrightarrow> 0 < align_pages \<Longrightarrow> GetAlignedBlockIndex num_pages align_pages = Some index \<Longrightarrow>
     AllocateAligned index num_pages align_pages h = Some (r, h') \<Longrightarrow> ph_step h (HAlign num_pages align_pages r) h'"

inductive_cases ph_stepE: "ph_step h e h'"

definition block_size :: "nat \<Rightarrow> nat" where
  "block_size index = 2 ^ (MemoryBlockPageShifts ! index)"

fun free_op :: "heap_op \<Rightarrow> nat set \<Rightarrow> nat set" where
  "free_op (HFree a k) S = S \<union> {a..<a + k * PageSize}"
| "free_op (HAlloc index random r) S = (if r = 0 then S else S - {r..<r + block_size index})"
| "free_op (HAlign num_pages align_pages r) S = (if r = 0 then S else S - {r..<r + num_pages * PageSize})"

text \<open>What an allocation of \<open>n\<close> bytes from blocks of \<open>sz\<close> bytes promises about the free addresses \<open>S\<close>.\<close>

definition takes :: "nat set \<Rightarrow> nat \<Rightarrow> nat \<Rightarrow> nat \<Rightarrow> nat \<Rightarrow> bool" where
  "takes S sz n align r \<longleftrightarrow>
     (if r = 0 then \<forall>a. sz dvd a \<longrightarrow> \<not> {a..<a + sz} \<subseteq> S else align dvd r \<and> {r..<r + n} \<subseteq> S)"

lemma heap_of_shifts_size:
  assumes "heap_of_shifts h" "i < NumMemoryBlockPageShifts"
  shows "Block_GetSize (ph_blocks h ! i) = block_size i" "heap_ok h" "i < ph_num_blocks h"
  using assms by (simp_all add: heap_of_shifts_def Block_GetSize_def block_size_def)

lemma heap_of_shifts_shape:
  assumes old: "heap_of_shifts h" and ok: "heap_ok h'" and shape: "same_shape h h'"
  shows "heap_of_shifts h'"
proof -
  have "bl_block_shift (ph_blocks h' ! i) = bl_block_shift (ph_blocks h ! i)" if "i < NumMemoryBlockPageShifts" for i
    using same_shape_nth [OF shape, THEN geometry_eq(3)] heap_block(6) [OF heap_of_shifts_size(2,3) [OF old that]]
      heap_of_shifts_size(3) [OF old that] by simp
  then show ?thesis using old ok shape by (simp add: heap_of_shifts_def same_shape_def)
qed

lemma allocated_takes:
  assumes h: "heap_of_shifts h" and i: "index < NumMemoryBlockPageShifts"
    and alloc: "allocated h {index..<ph_num_blocks h} n align (r, h')"
  shows "heap_of_shifts h'" "heap_free h' = (if r = 0 then heap_free h else heap_free h - {r..<r + n})"
    "heap_range h' = heap_range h" "takes (heap_free h) (block_size index) n align r"
proof -
  note hs = heap_of_shifts_size [OF h i]
  have shape: "heap_ok h'" "same_shape h h'" using alloc by (simp_all add: allocated_def)
  show "heap_of_shifts h'" by (rule heap_of_shifts_shape [OF h shape])
  show "heap_range h' = heap_range h" using shape(2) by (simp add: same_shape_def heap_range_def)
  show "heap_free h' = (if r = 0 then heap_free h else heap_free h - {r..<r + n})" using alloc by (simp add: allocated_def)
  show "takes (heap_free h) (block_size index) n align r"
    using alloc free_block_exists [OF hs(2,3)] unfolding takes_def allocated_def hs(1) by (auto split: if_splits)
qed

lemma AllocateBlock_allocates:
  assumes h: "heap_of_shifts h" and i: "index < NumMemoryBlockPageShifts"
  shows "\<exists>r h'. AllocateBlock index random h = Some (r, h') \<and>
    allocated h {index..<ph_num_blocks h} (block_size index) (block_size index) (r, h')"
proof -
  note hs = heap_of_shifts_size [OF h i]
  show ?thesis
  proof (cases random)
    case False
    then show ?thesis using AllocateByLinearSearch_allocates [OF hs(2,3)] by (auto simp: AllocateBlock_def hs(1))
  next
    case True
    let ?p = "Block_GetNumPages (ph_blocks h ! index)" and ?S = "block_size index"
    have pages: "?p * PageSize = ?S" using size_bounds(2) [OF hs(2,3)] hs(1) by (simp add: Block_GetNumPages_def)
    have "?S < 2 ^ 64" "0 < ?S" using size_bounds(3) [OF hs(2,3)] by (simp_all add: hs(1) block_size_def)
    then have "?S dvd 2 ^ countr_zero (of_nat ?S)"
      using countr_zero_dvd(2) [of ?S "MemoryBlockPageShifts ! index"] unfolding block_size_def by (simp add: le_imp_power_dvd)
    moreover have "0 < ?p" using pages \<open>0 < ?S\<close> by (metis mult_0 not_gr_zero)
    ultimately show ?thesis
      using AllocateByRandom_allocates [OF hs(2,3), of ?p ?p] True pages
      by (fastforce simp: AllocateBlock_def hs(1) allocated_def intro: dvd_trans)
  qed
qed

lemma GetAlignedBlockIndex_fits:
  assumes "GetAlignedBlockIndex num_pages align_pages = Some index"
  shows "index < NumMemoryBlockPageShifts" "num_pages * PageSize \<le> block_size index" "align_pages * PageSize \<le> block_size index"
proof -
  have i: "index < NumMemoryBlockPageShifts" "max num_pages align_pages \<le> block_size index div PageSize"
    using assms by (auto simp: GetAlignedBlockIndex_def find_Some_iff block_size_def)
  then show "index < NumMemoryBlockPageShifts" by simp
  have "block_size index div PageSize * PageSize \<le> block_size index" by simp
  moreover have "num_pages * PageSize \<le> block_size index div PageSize * PageSize"
    "align_pages * PageSize \<le> block_size index div PageSize * PageSize" using i(2) by (intro mult_le_mono1; simp)+
  ultimately show "num_pages * PageSize \<le> block_size index" "align_pages * PageSize \<le> block_size index" by linarith+
qed

lemma AllocateAligned_allocates:
  assumes h: "heap_of_shifts h" and pos: "0 < num_pages" "0 < align_pages"
    and index: "GetAlignedBlockIndex num_pages align_pages = Some index" and k: "2 ^ k dvd align_pages"
  shows "\<exists>r h'. AllocateAligned index num_pages align_pages h = Some (r, h') \<and>
    allocated h {index..<ph_num_blocks h} (num_pages * PageSize) (2 ^ k * PageSize) (r, h')"
proof -
  note gi = GetAlignedBlockIndex_fits [OF index]
  note hs = heap_of_shifts_size [OF h gi(1)]
  let ?a = "align_pages * PageSize"
  have a: "0 < ?a" "?a < 2 ^ 64" using pos(2) gi(3) size_bounds(3) [OF hs(2,3)] by (simp_all add: hs(1))
  have "2 ^ (k + 12) dvd ?a" unfolding power_add using k by (simp add: PageSize_def)
  from countr_zero_dvd(2) [OF a this] have "(2 :: nat) ^ (k + 12) dvd 2 ^ countr_zero (of_nat ?a)" by (rule le_imp_power_dvd)
  then have "2 ^ k * PageSize dvd 2 ^ countr_zero (of_nat ?a)" by (simp add: power_add PageSize_def)
  then show ?thesis
    using AllocateByRandom_allocates [OF hs(2,3) pos] gi(2,3)
    by (fastforce simp: AllocateAligned_def hs(1) allocated_def intro: dvd_trans)
qed

lemma Free_succeeds:
  assumes "heap_of_shifts h" "PageSize dvd a" "{a..<a + k * PageSize} \<subseteq> heap_range h - heap_free h"
  shows "\<exists>h'. Free a k h = Some h' \<and> freed h {a..<a + k * PageSize} h'"
  using assms by (intro Free_freed) (auto simp: can_free_def heap_of_shifts_def)

lemma ph_step_spec:
  assumes step: "ph_step h e h'" and h: "heap_of_shifts h"
  shows "heap_of_shifts h' \<and> heap_range h' = heap_range h \<and> heap_free h' = free_op e (heap_free h)"
  using step
proof (cases rule: ph_step.cases)
  case (1 a k)
  then have "freed h {a..<a + k * PageSize} h'" using Free_succeeds [OF h 1(2,3)] by simp
  then show ?thesis
    using heap_of_shifts_shape [OF h, of h'] 1(1) by (simp add: freed_def same_shape_def heap_range_def)
next
  case (2 index random r)
  then have "allocated h {index..<ph_num_blocks h} (block_size index) (block_size index) (r, h')"
    using AllocateBlock_allocates [OF h 2(2), of random] by simp
  from allocated_takes [OF h 2(2) this] show ?thesis using 2(1) by simp
next
  case (3 num_pages align_pages index r)
  then have "allocated h {index..<ph_num_blocks h} (num_pages * PageSize) (2 ^ 0 * PageSize) (r, h')"
    using AllocateAligned_allocates [OF h 3(2-4), of 0] by simp
  from allocated_takes [OF h GetAlignedBlockIndex_fits(1) [OF 3(4)] this] show ?thesis using 3(1) by simp
qed

interpretation page_heap: mirrored_system heap_of_shifts ph_step heap_of_shifts heap_free free_op
  by unfold_locales (auto dest: ph_step_spec)

interpretation page_heap_range: mirrored_system heap_of_shifts ph_step heap_of_shifts heap_range "\<lambda>_ R. R"
  by unfold_locales (auto dest: ph_step_spec)

lemma fold_keep: "fold (\<lambda>_ R. R) es R = R"
  by (induction es) simp_all

text \<open>
  C39. The page heap refines a set of addresses. After initialization with the management data that
  its overhead calculation asks for, and any sequence of operations, the free addresses are what the
  same operations make of the empty set, and lie within the heap. Freeing pages that are not free
  always works. An allocation of a block, random or not, always returns: an aligned block
  of free addresses, or zero only if no aligned block of that size is free. An aligned allocation
  returns free pages aligned to every power of two that divides the alignment.
\<close>

theorem page_heap_refines_free_set:
  assumes place: "PageSize dvd addr" "PageSize dvd n" "0 < addr" "0 < n" "addr + n \<le> 2 ^ 61" "n + 2 ^ 17 < 2 ^ 36"
    and room: "KPageHeap_CalculateManagementOverheadSize n MemoryBlockPageShifts \<le> management_size" "management_size < 2 ^ 60"
    and init: "KPageHeap_Initialize addr n management_size MemoryBlockPageShifts (KPageHeap_create seed) = (storage, h0)"
    and run: "run ph_step h0 es h"
  shows "storage * 8 \<le> management_size \<and>
    heap_free h = fold free_op es {} \<and> fold free_op es {} \<subseteq> {addr..<addr + n} \<and>
    (\<forall>a k. PageSize dvd a \<and> {a..<a + k * PageSize} \<subseteq> {addr..<addr + n} - fold free_op es {} \<longrightarrow>
       (\<exists>h'. Free a k h = Some h')) \<and>
    (\<forall>index random. index < NumMemoryBlockPageShifts \<longrightarrow>
       (\<exists>r h'. AllocateBlock index random h = Some (r, h') \<and>
          takes (fold free_op es {}) (block_size index) (block_size index) (block_size index) r)) \<and>
    (\<forall>num_pages align_pages index k.
       0 < num_pages \<and> 0 < align_pages \<and> GetAlignedBlockIndex num_pages align_pages = Some index \<and> 2 ^ k dvd align_pages \<longrightarrow>
       (\<exists>r h'. AllocateAligned index num_pages align_pages h = Some (r, h') \<and>
          takes (fold free_op es {}) (block_size index) (num_pages * PageSize) (2 ^ k * PageSize) r))"
proof -
  let ?S = "fold free_op es {}"
  note start = Initialize_heap_ok [OF place room init]
  have h: "heap_of_shifts h" by (rule page_heap.run_preserves [OF run start(1)])
  have free: "heap_free h = ?S" using page_heap.run_abs [OF run start(1)] start(2) by simp
  have range: "heap_range h = {addr..<addr + n}"
    using page_heap_range.run_abs [OF run start(1)] start(3,4) by (simp add: fold_keep heap_range_def)
  show ?thesis
  proof (intro conjI allI impI, unfold free [symmetric] range [symmetric])
    show "storage * 8 \<le> management_size" by (rule start(5))
    show "heap_free h \<subseteq> heap_range h" using h by (simp add: heap_of_shifts_def heap_ok_def)
    show "\<exists>h'. Free a k h = Some h'" if "PageSize dvd a \<and> {a..<a + k * PageSize} \<subseteq> heap_range h - heap_free h" for a k
      using Free_succeeds [OF h] that by blast
    show "\<exists>r h'. AllocateBlock index random h = Some (r, h') \<and>
        takes (heap_free h) (block_size index) (block_size index) (block_size index) r"
      if i: "index < NumMemoryBlockPageShifts" for index random
      using AllocateBlock_allocates [OF h i, of random] allocated_takes(4) [OF h i] by blast
    fix num_pages align_pages index k
    assume "0 < num_pages \<and> 0 < align_pages \<and> GetAlignedBlockIndex num_pages align_pages = Some index \<and> 2 ^ k dvd align_pages"
    then have req: "0 < num_pages" "0 < align_pages" "GetAlignedBlockIndex num_pages align_pages = Some index" "2 ^ k dvd align_pages"
      by blast+
    show "\<exists>r h'. AllocateAligned index num_pages align_pages h = Some (r, h') \<and>
        takes (heap_free h) (block_size index) (num_pages * PageSize) (2 ^ k * PageSize) r"
      using AllocateAligned_allocates [OF h req] allocated_takes(4) [OF h GetAlignedBlockIndex_fits(1) [OF req(3)]] by blast
  qed (rule refl)
qed

definition sample_size :: nat where
  "sample_size = KPageHeap_CalculateManagementOverheadSize (2 ^ 16) MemoryBlockPageShifts"

definition sample_heap :: KPageHeap where
  "sample_heap = snd (KPageHeap_Initialize (2 ^ 30) (2 ^ 16) sample_size MemoryBlockPageShifts (KPageHeap_create (\<lambda>_. 0)))"

theorem page_heap_refines_free_set_witness:
  "\<exists>h1 h2. run ph_step sample_heap [HFree (2 ^ 30) 16] h1 \<and> heap_free h1 = {2 ^ 30..<2 ^ 30 + 2 ^ 16} \<and>
     AllocateBlock 1 False h1 = Some (2 ^ 30, h2)"
proof -
  let ?F = "{2 ^ 30..<2 ^ 30 + 2 ^ 16} :: nat set"
  have place: "PageSize dvd 2 ^ 30" "PageSize dvd 2 ^ 16" "(0 :: nat) < 2 ^ 30" "(0 :: nat) < 2 ^ 16"
    "(2 :: nat) ^ 30 + 2 ^ 16 \<le> 2 ^ 61" "(2 :: nat) ^ 16 + 2 ^ 17 < 2 ^ 36" by (simp_all add: PageSize_def)
  have room: "KPageHeap_CalculateManagementOverheadSize (2 ^ 16) MemoryBlockPageShifts \<le> sample_size" "sample_size < 2 ^ 60"
    using heap_overhead_bound [OF place(4,6)] by (simp_all add: sample_size_def)
  obtain st where init: "KPageHeap_Initialize (2 ^ 30) (2 ^ 16) sample_size MemoryBlockPageShifts (KPageHeap_create (\<lambda>_. 0)) = (st, sample_heap)"
    by (metis sample_heap_def surjective_pairing)
  note result = page_heap_refines_free_set [OF place room init]
  note start = Initialize_heap_ok [OF place room init]
  have pages: "PageSize dvd 2 ^ 30" "{2 ^ 30..<2 ^ 30 + 16 * PageSize} = ?F" by (simp_all add: PageSize_def)
  have frees: "\<forall>a k. PageSize dvd a \<and> {a..<a + k * PageSize} \<subseteq> {2 ^ 30..<2 ^ 30 + 2 ^ 16} - fold free_op [] {} \<longrightarrow>
    (\<exists>h'. Free a k sample_heap = Some h')"
    using result [OF run_nil] by (elim conjE)
  have "PageSize dvd 2 ^ 30 \<and> {2 ^ 30..<2 ^ 30 + 16 * PageSize} \<subseteq> {2 ^ 30..<2 ^ 30 + 2 ^ 16} - fold free_op [] {}"
    using pages by simp
  then have "\<exists>h'. Free (2 ^ 30) 16 sample_heap = Some h'" by (rule frees [rule_format])
  then obtain h1 where h1: "Free (2 ^ 30) 16 sample_heap = Some h1" ..
  have "ph_step sample_heap (HFree (2 ^ 30) 16) h1"
    using pages h1 start by (intro ph_step.intros(1)) (auto simp: heap_range_def)
  then have run: "run ph_step sample_heap [HFree (2 ^ 30) 16] h1" by (rule run_one)
  have free: "fold free_op [HFree (2 ^ 30) 16] {} = ?F" using pages by simp
  note at = result [OF run, unfolded free]
  have "1 < NumMemoryBlockPageShifts" by (simp add: NumMemoryBlockPageShifts_def)
  moreover have "\<forall>index random. index < NumMemoryBlockPageShifts \<longrightarrow>
      (\<exists>r h'. AllocateBlock index random h1 = Some (r, h') \<and> takes ?F (block_size index) (block_size index) (block_size index) r)"
    using at by (elim conjE)
  ultimately obtain r h2 where r: "AllocateBlock 1 False h1 = Some (r, h2)" "takes ?F (block_size 1) (block_size 1) (block_size 1) r"
    by meson
  have size: "block_size 1 = 2 ^ 16" by (simp add: block_size_def MemoryBlockPageShifts_def)
  have "(2 :: nat) ^ 16 dvd 2 ^ 30" by (rule le_imp_power_dvd) simp
  then have "r \<noteq> 0" using r(2) unfolding takes_def size by (metis order_refl)
  then have "{r..<r + 2 ^ 16} \<subseteq> ?F" using r(2) unfolding takes_def size by simp
  then have "r = 2 ^ 30" by (simp add: atLeastLessThan_subset_iff ivl_subset)
  moreover have "heap_free h1 = ?F" using at by (elim conjE)
  ultimately show ?thesis using run r(1) by blast
qed

end
