(* ===== verification/PriorityQueue.thy ===== *)
theory PriorityQueue
  imports BitCount
begin

text \<open>
  The priority queue of the scheduler (\<^verbatim>\<open>core/hle/kernel/k_priority_queue.h\<close>), with the links that it keeps in the
  threads (\<^verbatim>\<open>KThread::QueueEntry\<close>) and the affinity masks (\<^verbatim>\<open>k_affinity_mask.h\<close>).

  A thread is its identifier, and its fields are in a store, so that the links of the queues are updated in place: a
  thread has one entry for each core, which the scheduled and the suggested queue of that core share.
  A null pointer is \<^const>\<open>None\<close>. Cores and priorities that the code asserts to be valid are
  natural numbers; the active core of a thread is an integer, which is negative for no core.
\<close>

definition NUM_CPU_CORES :: nat where "NUM_CPU_CORES = 4"

definition LowestPriority :: nat where "LowestPriority = 63"

section \<open>Threads\<close>

type_synonym thread = nat

record QueueEntry =
  qe_prev :: "thread option"
  qe_next :: "thread option"

definition QueueEntry_Initialize :: QueueEntry where
  "QueueEntry_Initialize = \<lparr> qe_prev = None, qe_next = None \<rparr>"

text \<open>
  The trees of waiting threads that a thread may be in: the condition variables and the address arbiter of a process. And the queues
  of waiting threads, one for each class of them; the pinned waiters of a thread carry the thread.
\<close>

datatype thread_tree = ConditionVariables nat | AddressArbiters nat

datatype thread_queue =
    ForKLightLock
  | ForKConditionVariableWaitForAddress
  | ForKConditionVariableWaitConditionVariable thread_tree
  | ForKAddressArbiter thread_tree
  | ForKThreadSetProperty thread
  | ForKSynchronizationObjectWait

text \<open>The fields of a thread that the queue, the scheduler and the locks use. A lock is known by its number.\<close>

record KThread =
  th_entries :: "nat \<Rightarrow> QueueEntry"
  th_affinity :: u64
  th_core_id :: int
  th_priority :: nat
  th_is_dummy :: bool
  th_state :: u16
  th_parent :: "nat option"
  th_last_scheduled_tick :: int
  th_num_kernel_waiters :: int
  th_schedule_count :: int
  th_dummy_runnable :: bool
  th_suspend_request_flags :: u32
  th_suspend_allowed_flags :: u32
  th_physical_ideal_core_id :: int
  th_virtual_ideal_core_id :: int
  th_virtual_affinity_mask :: u64
  th_original_physical_ideal_core_id :: int
  th_original_physical_affinity_mask :: u64
  th_num_core_migration_disables :: int
  th_is_pinned :: bool
  th_pinned_waiter_list :: "thread list"
  th_termination_requested :: bool
  th_base_priority :: nat
  th_address_key :: u64
  th_address_key_value :: u32
  th_is_kernel_address_key :: bool
  th_held_lock_info_list :: "nat list"
  th_waiting_lock_info :: "nat option"
  th_condvar_tree :: "thread_tree option"
  th_condvar_key :: u64
  th_wait_queue :: "thread_queue option"
  th_wait_result :: Result

type_synonym threads = "thread \<Rightarrow> KThread"

definition GetCoreBit :: "nat \<Rightarrow> u64" where
  "GetCoreBit core = push_bit core 1"

definition AllowedAffinityMask :: u64 where
  "AllowedAffinityMask = push_bit NUM_CPU_CORES 1 - 1"

definition GetAffinity :: "u64 \<Rightarrow> nat \<Rightarrow> bool" where
  "GetAffinity m core \<longleftrightarrow> m AND GetCoreBit core \<noteq> 0"

section \<open>The queue of one priority\<close>

type_synonym per_core_queue = "nat \<Rightarrow> QueueEntry"

text \<open>The entry of a member or, for a null pointer, the root; and the changes of its links.\<close>

definition set_prev :: "nat \<Rightarrow> thread option \<Rightarrow> thread option \<Rightarrow> per_core_queue \<times> threads \<Rightarrow> per_core_queue \<times> threads" where
  "set_prev core who v s =
     (let (root, ths) = s
      in case who of
           None \<Rightarrow> (root(core := (root core) \<lparr> qe_prev := v \<rparr>), ths)
         | Some t \<Rightarrow>
             (root, ths(t := (ths t) \<lparr> th_entries := (th_entries (ths t))(core := (th_entries (ths t) core) \<lparr> qe_prev := v \<rparr>) \<rparr>)))"

definition set_next :: "nat \<Rightarrow> thread option \<Rightarrow> thread option \<Rightarrow> per_core_queue \<times> threads \<Rightarrow> per_core_queue \<times> threads" where
  "set_next core who v s =
     (let (root, ths) = s
      in case who of
           None \<Rightarrow> (root(core := (root core) \<lparr> qe_next := v \<rparr>), ths)
         | Some t \<Rightarrow>
             (root, ths(t := (ths t) \<lparr> th_entries := (th_entries (ths t))(core := (th_entries (ths t) core) \<lparr> qe_next := v \<rparr>) \<rparr>)))"

definition PerCore_create :: per_core_queue where
  "PerCore_create = (\<lambda>_. QueueEntry_Initialize)"

definition PerCore_PushBack :: "nat \<Rightarrow> thread \<Rightarrow> per_core_queue \<times> threads \<Rightarrow> bool \<times> per_core_queue \<times> threads" where
  "PerCore_PushBack core m s =
     (let tail = qe_prev (fst s core);
          s1 = set_prev core (Some m) tail s;
          s2 = set_next core (Some m) None s1;
          s3 = set_next core tail (Some m) s2;
          s4 = set_prev core None (Some m) s3
      in (tail = None, s4))"

definition PerCore_PushFront :: "nat \<Rightarrow> thread \<Rightarrow> per_core_queue \<times> threads \<Rightarrow> bool \<times> per_core_queue \<times> threads" where
  "PerCore_PushFront core m s =
     (let head = qe_next (fst s core);
          s1 = set_prev core (Some m) None s;
          s2 = set_next core (Some m) head s1;
          s3 = set_prev core head (Some m) s2;
          s4 = set_next core None (Some m) s3
      in (head = None, s4))"

definition PerCore_GetFront :: "nat \<Rightarrow> per_core_queue \<Rightarrow> thread option" where
  "PerCore_GetFront core root = qe_next (root core)"

definition PerCore_Remove :: "nat \<Rightarrow> thread \<Rightarrow> per_core_queue \<times> threads \<Rightarrow> bool \<times> per_core_queue \<times> threads" where
  "PerCore_Remove core m s =
     (let e = th_entries (snd s m) core;
          s1 = set_next core (qe_prev e) (qe_next e) s;
          s2 = set_prev core (qe_next e) (qe_prev e) s1
      in (PerCore_GetFront core (fst s2) = None, s2))"

section \<open>The queues of all priorities\<close>

record KPriorityQueueImpl =
  im_queues :: "nat \<Rightarrow> per_core_queue"
  im_available :: "nat \<Rightarrow> bit_set"

definition Impl_create :: KPriorityQueueImpl where
  "Impl_create = \<lparr> im_queues = (\<lambda>_. PerCore_create), im_available = (\<lambda>_. BitSet_create (LowestPriority + 1)) \<rparr>"

definition IsValidCore :: "int \<Rightarrow> bool" where
  "IsValidCore core \<longleftrightarrow> 0 \<le> core \<and> core < int NUM_CPU_CORES"

definition IsValidPriority :: "int \<Rightarrow> bool" where
  "IsValidPriority priority \<longleftrightarrow> 0 \<le> priority \<and> priority \<le> int LowestPriority + 1"

definition put_queue :: "nat \<Rightarrow> per_core_queue \<Rightarrow> KPriorityQueueImpl \<Rightarrow> KPriorityQueueImpl" where
  "put_queue priority q i = i \<lparr> im_queues := (im_queues i)(priority := q) \<rparr>"

definition Impl_PushBack :: "nat \<Rightarrow> nat \<Rightarrow> thread \<Rightarrow> KPriorityQueueImpl \<times> threads \<Rightarrow> KPriorityQueueImpl \<times> threads" where
  "Impl_PushBack priority core m s =
     (let (i, ths) = s
      in if LowestPriority < priority then s
         else
           (let (first, q, ths1) = PerCore_PushBack core m (im_queues i priority, ths);
                i1 = put_queue priority q i
            in (if first
                then i1 \<lparr> im_available := (im_available i1)(core := BitSet_SetBit priority (im_available i1 core)) \<rparr>
                else i1, ths1)))"

definition Impl_PushFront :: "nat \<Rightarrow> nat \<Rightarrow> thread \<Rightarrow> KPriorityQueueImpl \<times> threads \<Rightarrow> KPriorityQueueImpl \<times> threads" where
  "Impl_PushFront priority core m s =
     (let (i, ths) = s
      in if LowestPriority < priority then s
         else
           (let (first, q, ths1) = PerCore_PushFront core m (im_queues i priority, ths);
                i1 = put_queue priority q i
            in (if first
                then i1 \<lparr> im_available := (im_available i1)(core := BitSet_SetBit priority (im_available i1 core)) \<rparr>
                else i1, ths1)))"

definition Impl_Remove :: "nat \<Rightarrow> nat \<Rightarrow> thread \<Rightarrow> KPriorityQueueImpl \<times> threads \<Rightarrow> KPriorityQueueImpl \<times> threads" where
  "Impl_Remove priority core m s =
     (let (i, ths) = s
      in if LowestPriority < priority then s
         else
           (let (none, q, ths1) = PerCore_Remove core m (im_queues i priority, ths);
                i1 = put_queue priority q i
            in (if none
                then i1 \<lparr> im_available := (im_available i1)(core := BitSet_ClearBit priority (im_available i1 core)) \<rparr>
                else i1, ths1)))"

definition Impl_GetFront :: "nat \<Rightarrow> KPriorityQueueImpl \<Rightarrow> thread option" where
  "Impl_GetFront core i =
     (let priority = CountLeadingZero (im_available i core)
      in if priority \<le> LowestPriority then PerCore_GetFront core (im_queues i priority) else None)"

definition Impl_GetFront_at :: "nat \<Rightarrow> nat \<Rightarrow> KPriorityQueueImpl \<Rightarrow> thread option" where
  "Impl_GetFront_at priority core i =
     (if priority \<le> LowestPriority then PerCore_GetFront core (im_queues i priority) else None)"

definition Impl_GetNext :: "nat \<Rightarrow> thread \<Rightarrow> threads \<Rightarrow> KPriorityQueueImpl \<Rightarrow> thread option" where
  "Impl_GetNext core m ths i =
     (case qe_next (th_entries (ths m) core) of
        Some t \<Rightarrow> Some t
      | None \<Rightarrow>
          (let priority = GetNextSet (th_priority (ths m)) (im_available i core)
           in if priority \<le> LowestPriority then PerCore_GetFront core (im_queues i priority) else None))"

definition Impl_MoveToFront :: "nat \<Rightarrow> nat \<Rightarrow> thread \<Rightarrow> KPriorityQueueImpl \<times> threads \<Rightarrow> KPriorityQueueImpl \<times> threads" where
  "Impl_MoveToFront priority core m s =
     (let (i, ths) = s
      in if priority \<le> LowestPriority then
           (let (_, s1) = PerCore_Remove core m (im_queues i priority, ths);
                (_, q, ths2) = PerCore_PushFront core m s1
            in (put_queue priority q i, ths2))
         else s)"

definition Impl_MoveToBack ::
    "nat \<Rightarrow> nat \<Rightarrow> thread \<Rightarrow> KPriorityQueueImpl \<times> threads \<Rightarrow> thread option \<times> KPriorityQueueImpl \<times> threads" where
  "Impl_MoveToBack priority core m s =
     (let (i, ths) = s
      in if priority \<le> LowestPriority then
           (let (_, s1) = PerCore_Remove core m (im_queues i priority, ths);
                (_, q, ths2) = PerCore_PushBack core m s1
            in (PerCore_GetFront core q, put_queue priority q i, ths2))
         else (None, s))"

section \<open>The scheduled and the suggested queues\<close>

record KPriorityQueue =
  pq_scheduled :: KPriorityQueueImpl
  pq_suggested :: KPriorityQueueImpl

type_synonym pq_state = "KPriorityQueue \<times> threads"

definition KPriorityQueue_create :: KPriorityQueue where
  "KPriorityQueue_create = \<lparr> pq_scheduled = Impl_create, pq_suggested = Impl_create \<rparr>"

definition on_scheduled ::
    "(KPriorityQueueImpl \<times> threads \<Rightarrow> KPriorityQueueImpl \<times> threads) \<Rightarrow> pq_state \<Rightarrow> pq_state" where
  "on_scheduled f s = (let (i, ths) = f (pq_scheduled (fst s), snd s) in (fst s \<lparr> pq_scheduled := i \<rparr>, ths))"

definition on_suggested ::
    "(KPriorityQueueImpl \<times> threads \<Rightarrow> KPriorityQueueImpl \<times> threads) \<Rightarrow> pq_state \<Rightarrow> pq_state" where
  "on_suggested f s = (let (i, ths) = f (pq_suggested (fst s), snd s) in (fst s \<lparr> pq_suggested := i \<rparr>, ths))"

definition ClearAffinityBit :: "nat \<Rightarrow> u64 \<Rightarrow> u64" where
  "ClearAffinityBit core affinity = affinity AND NOT (push_bit core 1)"

definition GetNextCore :: "u64 \<Rightarrow> nat \<times> u64" where
  "GetNextCore affinity = (let core = countr_zero affinity in (core, ClearAffinityBit core affinity))"

text \<open>The loops over the remaining cores of an affinity mask.\<close>

function for_cores :: "(nat \<Rightarrow> pq_state \<Rightarrow> pq_state) \<Rightarrow> u64 \<Rightarrow> pq_state \<Rightarrow> pq_state" where
  "for_cores f affinity s =
     (if affinity = 0 then s
      else (let (core, affinity') = GetNextCore affinity in for_cores f affinity' (f core s)))"
  by pat_completeness auto
termination
  by (relation "measure (\<lambda>(f, a, s). unat a)")
    (auto simp: GetNextCore_def ClearAffinityBit_def Let_def clear_bit_less countr_zero_spec(2))

declare for_cores.simps [simp del]

text \<open>The active core takes the member into its scheduled queue, and is cleared from the affinity.\<close>

definition active_core_step ::
    "(nat \<Rightarrow> KPriorityQueueImpl \<times> threads \<Rightarrow> KPriorityQueueImpl \<times> threads) \<Rightarrow> thread \<Rightarrow> pq_state \<Rightarrow> u64 \<times> pq_state" where
  "active_core_step f m s =
     (let affinity = th_affinity (snd s m); core = th_core_id (snd s m)
      in if 0 \<le> core then (ClearAffinityBit (nat core) affinity, on_scheduled (f (nat core)) s)
         else (affinity, s))"

definition PQ_PushBack_at :: "nat \<Rightarrow> thread \<Rightarrow> pq_state \<Rightarrow> pq_state" where
  "PQ_PushBack_at priority m s =
     (let (affinity, s1) = active_core_step (\<lambda>core. Impl_PushBack priority core m) m s
      in for_cores (\<lambda>core. on_suggested (Impl_PushBack priority core m)) affinity s1)"

definition PQ_PushFront_at :: "nat \<Rightarrow> thread \<Rightarrow> pq_state \<Rightarrow> pq_state" where
  "PQ_PushFront_at priority m s =
     (let (affinity, s1) = active_core_step (\<lambda>core. Impl_PushFront priority core m) m s
      in for_cores (\<lambda>core. on_suggested (Impl_PushBack priority core m)) affinity s1)"

definition PQ_Remove_at :: "nat \<Rightarrow> thread \<Rightarrow> pq_state \<Rightarrow> pq_state" where
  "PQ_Remove_at priority m s =
     (let (affinity, s1) = active_core_step (\<lambda>core. Impl_Remove priority core m) m s
      in for_cores (\<lambda>core. on_suggested (Impl_Remove priority core m)) affinity s1)"

definition GetScheduledFront :: "nat \<Rightarrow> pq_state \<Rightarrow> thread option" where
  "GetScheduledFront core s = Impl_GetFront core (pq_scheduled (fst s))"

definition GetScheduledFront_at :: "nat \<Rightarrow> nat \<Rightarrow> pq_state \<Rightarrow> thread option" where
  "GetScheduledFront_at core priority s = Impl_GetFront_at priority core (pq_scheduled (fst s))"

definition GetSuggestedFront :: "nat \<Rightarrow> pq_state \<Rightarrow> thread option" where
  "GetSuggestedFront core s = Impl_GetFront core (pq_suggested (fst s))"

definition GetSuggestedFront_at :: "nat \<Rightarrow> nat \<Rightarrow> pq_state \<Rightarrow> thread option" where
  "GetSuggestedFront_at core priority s = Impl_GetFront_at priority core (pq_suggested (fst s))"

definition GetScheduledNext :: "nat \<Rightarrow> thread \<Rightarrow> pq_state \<Rightarrow> thread option" where
  "GetScheduledNext core m s = Impl_GetNext core m (snd s) (pq_scheduled (fst s))"

definition GetSuggestedNext :: "nat \<Rightarrow> thread \<Rightarrow> pq_state \<Rightarrow> thread option" where
  "GetSuggestedNext core m s = Impl_GetNext core m (snd s) (pq_suggested (fst s))"

definition GetSamePriorityNext :: "nat \<Rightarrow> thread \<Rightarrow> pq_state \<Rightarrow> thread option" where
  "GetSamePriorityNext core m s = qe_next (th_entries (snd s m) core)"

definition PQ_PushBack :: "thread \<Rightarrow> pq_state \<Rightarrow> pq_state" where
  "PQ_PushBack m s = (if th_is_dummy (snd s m) then s else PQ_PushBack_at (th_priority (snd s m)) m s)"

definition PQ_Remove :: "thread \<Rightarrow> pq_state \<Rightarrow> pq_state" where
  "PQ_Remove m s = (if th_is_dummy (snd s m) then s else PQ_Remove_at (th_priority (snd s m)) m s)"

definition MoveToScheduledFront :: "thread \<Rightarrow> pq_state \<Rightarrow> pq_state" where
  "MoveToScheduledFront m s =
     (if th_is_dummy (snd s m) then s
      else on_scheduled (Impl_MoveToFront (th_priority (snd s m)) (nat (th_core_id (snd s m))) m) s)"

definition MoveToScheduledBack :: "thread \<Rightarrow> pq_state \<Rightarrow> thread option \<times> pq_state" where
  "MoveToScheduledBack m s =
     (if th_is_dummy (snd s m) then (None, s)
      else
        (let (next, i, ths) =
               Impl_MoveToBack (th_priority (snd s m)) (nat (th_core_id (snd s m))) m (pq_scheduled (fst s), snd s)
         in (next, fst s \<lparr> pq_scheduled := i \<rparr>, ths)))"

definition ChangePriority :: "nat \<Rightarrow> bool \<Rightarrow> thread \<Rightarrow> pq_state \<Rightarrow> pq_state" where
  "ChangePriority prev_priority is_running m s =
     (if th_is_dummy (snd s m) then s
      else
        (let new_priority = th_priority (snd s m);
             s1 = PQ_Remove_at prev_priority m s
         in if is_running then PQ_PushFront_at new_priority m s1 else PQ_PushBack_at new_priority m s1))"

definition leave_core :: "nat \<Rightarrow> int \<Rightarrow> u64 \<Rightarrow> thread \<Rightarrow> pq_state \<Rightarrow> nat \<Rightarrow> pq_state" where
  "leave_core priority prev_core prev_affinity m s core =
     (if GetAffinity prev_affinity core then
        (if int core = prev_core then on_scheduled (Impl_Remove priority core m) s
         else on_suggested (Impl_Remove priority core m) s)
      else s)"

definition enter_core :: "nat \<Rightarrow> int \<Rightarrow> u64 \<Rightarrow> thread \<Rightarrow> pq_state \<Rightarrow> nat \<Rightarrow> pq_state" where
  "enter_core priority new_core new_affinity m s core =
     (if GetAffinity new_affinity core then
        (if int core = new_core then on_scheduled (Impl_PushBack priority core m) s
         else on_suggested (Impl_PushBack priority core m) s)
      else s)"

definition ChangeAffinityMask :: "int \<Rightarrow> u64 \<Rightarrow> thread \<Rightarrow> pq_state \<Rightarrow> pq_state" where
  "ChangeAffinityMask prev_core prev_affinity m s =
     (if th_is_dummy (snd s m) then s
      else
        (let priority = th_priority (snd s m);
             new_affinity = th_affinity (snd s m);
             new_core = th_core_id (snd s m);
             s1 = foldl (leave_core priority prev_core prev_affinity m) s [0..<NUM_CPU_CORES]
         in foldl (enter_core priority new_core new_affinity m) s1 [0..<NUM_CPU_CORES]))"

definition ChangeCore :: "int \<Rightarrow> thread \<Rightarrow> bool \<Rightarrow> pq_state \<Rightarrow> pq_state" where
  "ChangeCore prev_core m to_front s =
     (if th_is_dummy (snd s m) then s
      else
        (let new_core = th_core_id (snd s m);
             priority = th_priority (snd s m)
         in if prev_core \<noteq> new_core then
              (let s1 = (if 0 \<le> prev_core then on_scheduled (Impl_Remove priority (nat prev_core) m) s else s);
                   s2 = (if 0 \<le> new_core then
                           (let s2 = on_suggested (Impl_Remove priority (nat new_core) m) s1
                            in if to_front then on_scheduled (Impl_PushFront priority (nat new_core) m) s2
                               else on_scheduled (Impl_PushBack priority (nat new_core) m) s2)
                         else s1)
               in if 0 \<le> prev_core then on_suggested (Impl_PushBack priority (nat prev_core) m) s2 else s2)
            else s))"

end
