(* ===== verification/Scheduler.thy ===== *)
theory Scheduler
  imports PriorityQueue
begin

text \<open>
  The scheduler (\<^verbatim>\<open>core/hle/kernel/k_scheduler.cpp\<close>, \<^verbatim>\<open>global_scheduler_context.cpp\<close>): the choice of the thread that
  each core runs, the reactions to changes of a thread, the rotation of a queue and the three kinds of yield.

  The kernel is a record of what these functions share: the priority queue, the threads, one scheduler for each core,
  the processes and the global scheduler context. The scheduler lock is held throughout, as the code asserts. The
  current thread and the clock are arguments. A loop along a suggested queue is \<open>walk\<close>, which has
  the value \<^const>\<open>None\<close> where the loop would not end.
\<close>

section \<open>State\<close>

definition HighestCoreMigrationAllowedPriority :: nat where
  "HighestCoreMigrationAllowedPriority = 2"

definition Runnable :: u16 where "Runnable = 2"

definition ThreadState_Mask :: u16 where "ThreadState_Mask = 0xF"

record KProcess =
  pr_schedule_count :: int
  pr_pinned_threads :: "nat \<Rightarrow> thread option"
  pr_running_threads :: "nat \<Rightarrow> thread option"
  pr_running_thread_idle_counts :: "nat \<Rightarrow> u64"
  pr_running_thread_switch_counts :: "nat \<Rightarrow> u64"
  pr_exception_thread :: "thread option"

record KScheduler =
  sc_needs_scheduling :: bool
  sc_interrupt_task_runnable :: bool
  sc_should_count_idle :: bool
  sc_idle_count :: u64
  sc_highest_priority_thread :: "thread option"
  sc_prev_thread :: "thread option"

text \<open>A lock that threads wait for, with its waiters in the order of their priorities.\<close>

record LockWithPriorityInheritanceInfo =
  li_tree :: "thread list"
  li_address_key :: u64
  li_owner :: "thread option"
  li_waiter_count :: nat
  li_is_kernel_address_key :: bool

text \<open>
  The kernel. Locks live in a store, and a new one gets the next free number; the trees of waiting threads are the sequences that their
  iterators visit, and the memory of a process is its aligned 32-bit words.
\<close>

record kernel =
  k_priority_queue :: KPriorityQueue
  k_threads :: threads
  k_schedulers :: "nat \<Rightarrow> KScheduler"
  k_processes :: "nat \<Rightarrow> KProcess"
  k_scheduler_update_needed :: bool
  k_woken_dummy_threads :: "thread set"
  k_lock_infos :: "nat \<Rightarrow> LockWithPriorityInheritanceInfo option"
  k_next_lock :: nat
  k_thread_trees :: "thread_tree \<Rightarrow> thread list"
  k_memory :: "nat \<Rightarrow> u64 \<Rightarrow> u32"

definition KScheduler_create :: KScheduler where
  "KScheduler_create =
     \<lparr> sc_needs_scheduling = True, sc_interrupt_task_runnable = False, sc_should_count_idle = False, sc_idle_count = 0,
       sc_highest_priority_thread = None, sc_prev_thread = None \<rparr>"

abbreviation thread_of :: "kernel \<Rightarrow> thread \<Rightarrow> KThread" where
  "thread_of k t \<equiv> k_threads k t"

abbreviation queue_state :: "kernel \<Rightarrow> pq_state" where
  "queue_state k \<equiv> (k_priority_queue k, k_threads k)"

definition put_queue_state :: "pq_state \<Rightarrow> kernel \<Rightarrow> kernel" where
  "put_queue_state s k = k \<lparr> k_priority_queue := fst s, k_threads := snd s \<rparr>"

definition set_thread :: "thread \<Rightarrow> (KThread \<Rightarrow> KThread) \<Rightarrow> kernel \<Rightarrow> kernel" where
  "set_thread t f k = k \<lparr> k_threads := (k_threads k)(t := f (k_threads k t)) \<rparr>"

definition set_scheduler :: "nat \<Rightarrow> (KScheduler \<Rightarrow> KScheduler) \<Rightarrow> kernel \<Rightarrow> kernel" where
  "set_scheduler c f k = k \<lparr> k_schedulers := (k_schedulers k)(c := f (k_schedulers k c)) \<rparr>"

definition set_process :: "nat \<Rightarrow> (KProcess \<Rightarrow> KProcess) \<Rightarrow> kernel \<Rightarrow> kernel" where
  "set_process p f k = k \<lparr> k_processes := (k_processes k)(p := f (k_processes k p)) \<rparr>"

definition SetSchedulerUpdateNeeded :: "kernel \<Rightarrow> kernel" where
  "SetSchedulerUpdateNeeded k = k \<lparr> k_scheduler_update_needed := True \<rparr>"

definition ClearSchedulerUpdateNeeded :: "kernel \<Rightarrow> kernel" where
  "ClearSchedulerUpdateNeeded k = k \<lparr> k_scheduler_update_needed := False \<rparr>"

definition SetInterruptTaskRunnable :: "nat \<Rightarrow> kernel \<Rightarrow> kernel" where
  "SetInterruptTaskRunnable core k =
     set_scheduler core (\<lambda>sc. sc \<lparr> sc_interrupt_task_runnable := True, sc_needs_scheduling := True \<rparr>) k"

definition IncrementScheduledCount :: "thread \<Rightarrow> kernel \<Rightarrow> kernel" where
  "IncrementScheduledCount t k =
     (case th_parent (thread_of k t) of
        None \<Rightarrow> k
      | Some p \<Rightarrow> set_process p (\<lambda>pr. pr \<lparr> pr_schedule_count := pr_schedule_count pr + 1 \<rparr>) k)"

definition SetActiveCore :: "thread \<Rightarrow> int \<Rightarrow> kernel \<Rightarrow> kernel" where
  "SetActiveCore t core k = set_thread t (\<lambda>th. th \<lparr> th_core_id := core \<rparr>) k"

definition SetRunningThread :: "nat \<Rightarrow> thread \<Rightarrow> u64 \<Rightarrow> u64 \<Rightarrow> KProcess \<Rightarrow> KProcess" where
  "SetRunningThread core t idle_count switch_count pr =
     pr \<lparr> pr_running_threads := (pr_running_threads pr)(core := Some t),
          pr_running_thread_idle_counts := (pr_running_thread_idle_counts pr)(core := idle_count),
          pr_running_thread_switch_counts := (pr_running_thread_switch_counts pr)(core := switch_count) \<rparr>"

definition ClearRunningThread :: "thread \<Rightarrow> KProcess \<Rightarrow> KProcess" where
  "ClearRunningThread t pr =
     foldl (\<lambda>pr i. if pr_running_threads pr i = Some t
                   then pr \<lparr> pr_running_threads := (pr_running_threads pr)(i := None) \<rparr> else pr)
       pr [0..<NUM_CPU_CORES]"

section \<open>Dummy threads\<close>

definition RegisterDummyThreadForWakeup :: "thread \<Rightarrow> kernel \<Rightarrow> kernel" where
  "RegisterDummyThreadForWakeup t k = k \<lparr> k_woken_dummy_threads := insert t (k_woken_dummy_threads k) \<rparr>"

definition UnregisterDummyThreadForWakeup :: "thread \<Rightarrow> kernel \<Rightarrow> kernel" where
  "UnregisterDummyThreadForWakeup t k = k \<lparr> k_woken_dummy_threads := k_woken_dummy_threads k - {t} \<rparr>"

definition DummyThreadEndWait :: "KThread \<Rightarrow> KThread" where
  "DummyThreadEndWait th = th \<lparr> th_dummy_runnable := True \<rparr>"

definition RequestDummyThreadWait :: "KThread \<Rightarrow> KThread" where
  "RequestDummyThreadWait th = th \<lparr> th_dummy_runnable := False \<rparr>"

definition WakeupWaitingDummyThreads :: "kernel \<Rightarrow> kernel" where
  "WakeupWaitingDummyThreads k =
     k \<lparr> k_threads := (\<lambda>t. if t \<in> k_woken_dummy_threads k then DummyThreadEndWait (k_threads k t) else k_threads k t),
         k_woken_dummy_threads := {} \<rparr>"

section \<open>Loops along a queue\<close>

partial_function (option) walk ::
    "(thread \<Rightarrow> thread option) \<Rightarrow> (thread \<Rightarrow> 'a \<Rightarrow> 'a + 'r) \<Rightarrow> thread option \<Rightarrow> 'a \<Rightarrow> ('a + 'r) option" where
  [code]: "walk advance body suggested acc =
     (case suggested of
        None \<Rightarrow> Some (Inl acc)
      | Some t \<Rightarrow>
          (case body t acc of
             Inl acc' \<Rightarrow> walk advance body (advance t) acc'
           | Inr r \<Rightarrow> Some (Inr r)))"

text \<open>The change of the active core that every migration makes.\<close>

definition migrate :: "nat \<Rightarrow> bool \<Rightarrow> thread \<Rightarrow> kernel \<Rightarrow> kernel" where
  "migrate core to_front t k =
     (let prev = th_core_id (thread_of k t); k1 = SetActiveCore t (int core) k
      in put_queue_state (ChangeCore prev t to_front (queue_state k1)) k1)"

section \<open>The highest priority threads\<close>

definition UpdateHighestPriorityThread :: "int \<Rightarrow> nat \<Rightarrow> thread option \<Rightarrow> kernel \<Rightarrow> u64 \<times> kernel" where
  "UpdateHighestPriorityThread tick core highest k =
     (let prev = sc_highest_priority_thread (k_schedulers k core)
      in if prev \<noteq> highest then
           (let k1 = (case prev of
                        None \<Rightarrow> k
                      | Some t \<Rightarrow> set_thread t (\<lambda>th. th \<lparr> th_last_scheduled_tick := tick \<rparr>) (IncrementScheduledCount t k));
                k2 = (if sc_should_count_idle (k_schedulers k1 core) then
                        (case highest of
                           Some t \<Rightarrow>
                             (case th_parent (thread_of k1 t) of
                                Some p \<Rightarrow> set_process p (SetRunningThread core t (sc_idle_count (k_schedulers k1 core)) 0) k1
                              | None \<Rightarrow> k1)
                         | None \<Rightarrow> set_scheduler core (\<lambda>sc. sc \<lparr> sc_idle_count := sc_idle_count sc + 1 \<rparr>) k1)
                      else k1)
            in (push_bit core 1,
                set_scheduler core (\<lambda>sc. sc \<lparr> sc_highest_priority_thread := highest, sc_needs_scheduling := True \<rparr>) k2))
         else (0, k))"

type_synonym tops = "nat \<Rightarrow> thread option"

text \<open>The thread of a core, where a pinned thread of the process takes precedence.\<close>

definition top_thread_of :: "nat \<Rightarrow> kernel \<Rightarrow> thread option" where
  "top_thread_of core k =
     (case GetScheduledFront core (queue_state k) of
        None \<Rightarrow> None
      | Some top_thread \<Rightarrow>
          (case th_parent (thread_of k top_thread) of
             None \<Rightarrow> Some top_thread
           | Some parent \<Rightarrow>
               (case pr_pinned_threads (k_processes k parent) core of
                  None \<Rightarrow> Some top_thread
                | Some pinned \<Rightarrow>
                    if pinned \<noteq> top_thread \<and> th_num_kernel_waiters (thread_of k top_thread) = 0 then
                      (if th_state (thread_of k pinned) = Runnable then Some pinned else None)
                    else Some top_thread)))"

text \<open>One core of the first loop: the top threads, the cores that need scheduling, the idle cores and the kernel.\<close>

definition choose_top_thread :: "int \<Rightarrow> tops \<times> u64 \<times> u64 \<times> kernel \<Rightarrow> nat \<Rightarrow> tops \<times> u64 \<times> u64 \<times> kernel" where
  "choose_top_thread tick st core =
     (let (tops, needing, idle, k) = st;
          idle' = (if GetScheduledFront core (queue_state k) = None then idle OR push_bit core 1 else idle);
          top_thread = top_thread_of core k;
          (mask, k1) = UpdateHighestPriorityThread tick core top_thread k
      in (tops(core := top_thread), needing OR mask, idle', k1))"

text \<open>The loop over the suggested threads of an idle core: give up, migrate a thread, or note a candidate core.\<close>

definition consider_suggestion :: "tops \<Rightarrow> kernel \<Rightarrow> thread \<Rightarrow> int list \<Rightarrow> int list + thread option" where
  "consider_suggestion tops k suggested candidates =
     (let suggested_core = th_core_id (thread_of k suggested);
          top_thread = (if 0 \<le> suggested_core then tops (nat suggested_core) else None)
      in if top_thread \<noteq> Some suggested then
           (case top_thread of
              Some t \<Rightarrow> if th_priority (thread_of k t) < HighestCoreMigrationAllowedPriority then Inr None else Inr (Some suggested)
            | None \<Rightarrow> Inr (Some suggested))
         else Inl (candidates @ [suggested_core]))"

definition place_on_idle_core :: "int \<Rightarrow> nat \<Rightarrow> thread \<Rightarrow> tops \<times> u64 \<times> kernel \<Rightarrow> tops \<times> u64 \<times> kernel" where
  "place_on_idle_core tick core t st =
     (let (tops, needing, k) = st;
          k1 = migrate core False t k;
          (mask, k2) = UpdateHighestPriorityThread tick core (Some t) k1
      in (tops(core := Some t), needing OR mask, k2))"

text \<open>The loop over the candidate cores, whose top threads are not null.\<close>

fun try_candidates :: "int \<Rightarrow> nat \<Rightarrow> int list \<Rightarrow> tops \<times> u64 \<times> kernel \<Rightarrow> (tops \<times> u64 \<times> kernel) option" where
  "try_candidates tick core [] st = Some st"
| "try_candidates tick core (candidate # rest) st =
     (let (tops, needing, k) = st
      in case tops (nat candidate) of
           None \<Rightarrow> None
         | Some suggested \<Rightarrow>
             (case GetScheduledNext (nat candidate) suggested (queue_state k) of
                None \<Rightarrow> try_candidates tick core rest st
              | Some next_on_candidate \<Rightarrow>
                  (let (mask, k1) = UpdateHighestPriorityThread tick (nat candidate) (Some next_on_candidate) k
                   in Some (place_on_idle_core tick core suggested
                             (tops(nat candidate := Some next_on_candidate), needing OR mask, k1)))))"

definition fill_idle_core :: "int \<Rightarrow> nat \<Rightarrow> tops \<times> u64 \<times> kernel \<Rightarrow> (tops \<times> u64 \<times> kernel) option" where
  "fill_idle_core tick core st =
     (let (tops, needing, k) = st
      in case GetSuggestedFront core (queue_state k) of
           None \<Rightarrow> Some st
         | Some suggested \<Rightarrow>
             (case walk (\<lambda>t. GetSuggestedNext core t (queue_state k)) (consider_suggestion tops k) (Some suggested) [] of
                None \<Rightarrow> None
              | Some (Inr None) \<Rightarrow> Some st
              | Some (Inr (Some t)) \<Rightarrow> Some (place_on_idle_core tick core t st)
              | Some (Inl candidates) \<Rightarrow> try_candidates tick core candidates st))"

function fill_idle_cores :: "int \<Rightarrow> u64 \<Rightarrow> tops \<times> u64 \<times> kernel \<Rightarrow> (tops \<times> u64 \<times> kernel) option" where
  "fill_idle_cores tick idle st =
     (if idle = 0 then Some st
      else
        (let core = countr_zero idle
         in case fill_idle_core tick core st of
              None \<Rightarrow> None
            | Some st' \<Rightarrow> fill_idle_cores tick (idle AND NOT (push_bit core 1)) st'))"
  by pat_completeness auto
termination
  by (relation "measure (\<lambda>(tick, idle, st). unat idle)") (auto simp: clear_bit_less countr_zero_spec(2))

declare fill_idle_cores.simps [simp del]

definition UpdateHighestPriorityThreadsImpl :: "int \<Rightarrow> thread \<Rightarrow> kernel \<Rightarrow> (u64 \<times> kernel) option" where
  "UpdateHighestPriorityThreadsImpl tick cur k =
     (let (tops, needing, idle, k1) =
            foldl (choose_top_thread tick) (\<lambda>_. None, 0, 0, ClearSchedulerUpdateNeeded k) [0..<NUM_CPU_CORES]
      in case fill_idle_cores tick idle (tops, needing, k1) of
           None \<Rightarrow> None
         | Some (_, needing2, k2) \<Rightarrow>
             (let k3 = WakeupWaitingDummyThreads k2; th = thread_of k3 cur;
                  k4 = (if th_is_dummy th \<and> th_state th AND ThreadState_Mask \<noteq> Runnable
                        then set_thread cur RequestDummyThreadWait k3 else k3)
              in Some (needing2, k4)))"

definition UpdateHighestPriorityThreads :: "int \<Rightarrow> thread \<Rightarrow> kernel \<Rightarrow> (u64 \<times> kernel) option" where
  "UpdateHighestPriorityThreads tick cur k =
     (if k_scheduler_update_needed k then UpdateHighestPriorityThreadsImpl tick cur k else Some (0, k))"

definition ClearPreviousThread :: "thread \<Rightarrow> kernel \<Rightarrow> kernel" where
  "ClearPreviousThread t k =
     foldl (\<lambda>k i. if sc_prev_thread (k_schedulers k i) = Some t
                  then set_scheduler i (\<lambda>sc. sc \<lparr> sc_prev_thread := None \<rparr>) k else k)
       k [0..<NUM_CPU_CORES]"

section \<open>Changes of a thread\<close>

definition OnThreadStateChanged :: "thread \<Rightarrow> u16 \<Rightarrow> kernel \<Rightarrow> kernel" where
  "OnThreadStateChanged t old_state k =
     (let cur_state = th_state (thread_of k t)
      in if cur_state = old_state then k
         else if old_state = Runnable then
           (let k1 = SetSchedulerUpdateNeeded (IncrementScheduledCount t (put_queue_state (PQ_Remove t (queue_state k)) k))
            in if th_is_dummy (thread_of k1 t) then UnregisterDummyThreadForWakeup t k1 else k1)
         else if cur_state = Runnable then
           (let k1 = SetSchedulerUpdateNeeded (IncrementScheduledCount t (put_queue_state (PQ_PushBack t (queue_state k)) k))
            in if th_is_dummy (thread_of k1 t) then RegisterDummyThreadForWakeup t k1 else k1)
         else k)"

definition OnThreadPriorityChanged :: "thread \<Rightarrow> thread \<Rightarrow> nat \<Rightarrow> kernel \<Rightarrow> kernel" where
  "OnThreadPriorityChanged cur t old_priority k =
     (if th_state (thread_of k t) = Runnable
      then SetSchedulerUpdateNeeded
             (IncrementScheduledCount t (put_queue_state (ChangePriority old_priority (t = cur) t (queue_state k)) k))
      else k)"

definition OnThreadAffinityMaskChanged :: "thread \<Rightarrow> u64 \<Rightarrow> int \<Rightarrow> kernel \<Rightarrow> kernel" where
  "OnThreadAffinityMaskChanged t old_affinity old_core k =
     (if th_state (thread_of k t) = Runnable
      then SetSchedulerUpdateNeeded
             (IncrementScheduledCount t (put_queue_state (ChangeAffinityMask old_core old_affinity t (queue_state k)) k))
      else k)"

section \<open>Rotation\<close>

definition top_on_core :: "int \<Rightarrow> kernel \<Rightarrow> thread option" where
  "top_on_core core k = (if 0 \<le> core then GetScheduledFront (nat core) (queue_state k) else None)"

text \<open>Whether the thread that holds a core, if any, leaves its core open for a migration.\<close>

definition migration_allowed :: "thread option \<Rightarrow> kernel \<Rightarrow> bool" where
  "migration_allowed holder k =
     (case holder of None \<Rightarrow> True | Some t \<Rightarrow> HighestCoreMigrationAllowedPriority \<le> th_priority (thread_of k t))"

definition waits_longer :: "thread option \<Rightarrow> thread \<Rightarrow> kernel \<Rightarrow> bool" where
  "waits_longer next_thread suggested k =
     (case next_thread of
        None \<Rightarrow> False
      | Some t \<Rightarrow> th_last_scheduled_tick (thread_of k t) < th_last_scheduled_tick (thread_of k suggested))"

definition rotate_front :: "nat \<Rightarrow> nat \<Rightarrow> kernel \<Rightarrow> thread option \<times> thread option \<times> kernel" where
  "rotate_front core priority k =
     (case GetScheduledFront_at core priority (queue_state k) of
        None \<Rightarrow> (None, None, k)
      | Some top_thread \<Rightarrow>
          (let (next_thread, s) = MoveToScheduledBack top_thread (queue_state k); k1 = put_queue_state s k
           in (Some top_thread, next_thread,
               if next_thread \<noteq> Some top_thread then
                 (let k2 = IncrementScheduledCount top_thread k1
                  in case next_thread of None \<Rightarrow> k2 | Some t \<Rightarrow> IncrementScheduledCount t k2)
               else k1)))"

definition rotation_suggestion ::
    "thread option \<Rightarrow> thread option \<Rightarrow> kernel \<Rightarrow> thread \<Rightarrow> unit \<Rightarrow> unit + thread option" where
  "rotation_suggestion top_thread next_thread k suggested u =
     (let top_on_suggested_core = top_on_core (th_core_id (thread_of k suggested)) k
      in if top_on_suggested_core \<noteq> Some suggested then
           (if top_thread \<noteq> next_thread \<and> waits_longer next_thread suggested k then Inr None
            else if migration_allowed top_on_suggested_core k then Inr (Some suggested)
            else Inl ())
         else Inl ())"

definition better_suggestion :: "thread \<Rightarrow> kernel \<Rightarrow> thread \<Rightarrow> unit \<Rightarrow> unit + thread option" where
  "better_suggestion best_thread k suggested u =
     (if th_priority (thread_of k best_thread) \<le> th_priority (thread_of k suggested) then Inr None
      else
        (let top_on_suggested_core = top_on_core (th_core_id (thread_of k suggested)) k
         in if top_on_suggested_core \<noteq> Some suggested \<and> migration_allowed top_on_suggested_core k then Inr (Some suggested)
            else Inl ()))"

text \<open>A migration to the front of the queue, where the loop has found a thread.\<close>

definition migrate_found :: "nat \<Rightarrow> (unit + thread option) option \<Rightarrow> kernel \<Rightarrow> kernel option" where
  "migrate_found core found k =
     (case found of
        None \<Rightarrow> None
      | Some (Inr (Some t)) \<Rightarrow> Some (IncrementScheduledCount t (migrate core True t k))
      | Some _ \<Rightarrow> Some k)"

definition best_thread_of :: "nat \<Rightarrow> thread \<Rightarrow> kernel \<Rightarrow> thread option" where
  "best_thread_of core cur k =
     (let best = GetScheduledFront core (queue_state k)
      in if best = Some cur then GetScheduledNext core cur (queue_state k) else best)"

definition migrate_better :: "nat \<Rightarrow> nat \<Rightarrow> thread \<Rightarrow> kernel \<Rightarrow> kernel option" where
  "migrate_better core priority cur k =
     (case best_thread_of core cur k of
        None \<Rightarrow> Some k
      | Some best \<Rightarrow>
          if priority \<le> th_priority (thread_of k best) then
            migrate_found core
              (walk (\<lambda>t. GetSuggestedNext core t (queue_state k)) (better_suggestion best k)
                (GetSuggestedFront core (queue_state k)) ()) k
          else Some k)"

definition RotateScheduledQueue :: "thread \<Rightarrow> nat \<Rightarrow> nat \<Rightarrow> kernel \<Rightarrow> kernel option" where
  "RotateScheduledQueue cur core priority k =
     (let (top_thread, next_thread, k1) = rotate_front core priority k
      in case migrate_found core
                (walk (\<lambda>t. GetSamePriorityNext core t (queue_state k1)) (rotation_suggestion top_thread next_thread k1)
                  (GetSuggestedFront_at core priority (queue_state k1)) ()) k1 of
           None \<Rightarrow> None
         | Some k2 \<Rightarrow>
             (case migrate_better core priority cur k2 of
                None \<Rightarrow> None
              | Some k3 \<Rightarrow> Some (SetSchedulerUpdateNeeded k3)))"

definition preemption_priorities :: "nat list" where
  "preemption_priorities = [63, 63, 63, 63]"

fun preempt_cores :: "thread \<Rightarrow> nat list \<Rightarrow> kernel \<Rightarrow> kernel option" where
  "preempt_cores cur [] k = Some k"
| "preempt_cores cur (core # cores) k =
     (case RotateScheduledQueue cur core (preemption_priorities ! core) k of
        None \<Rightarrow> None
      | Some k' \<Rightarrow> preempt_cores cur cores k')"

definition PreemptThreads :: "thread \<Rightarrow> kernel \<Rightarrow> kernel option" where
  "PreemptThreads cur k = preempt_cores cur [0..<NUM_CPU_CORES] k"

section \<open>Yields\<close>

definition SetYieldScheduleCount :: "thread \<Rightarrow> int \<Rightarrow> kernel \<Rightarrow> kernel" where
  "SetYieldScheduleCount t count k = set_thread t (\<lambda>th. th \<lparr> th_schedule_count := count \<rparr>) k"

text \<open>The current thread and its process; the lock is released after the value that is given here.\<close>

definition nothing_to_yield :: "thread \<Rightarrow> nat \<Rightarrow> kernel \<Rightarrow> bool" where
  "nothing_to_yield cur proc k \<longleftrightarrow>
     th_schedule_count (thread_of k cur) = pr_schedule_count (k_processes k proc) \<or> th_state (thread_of k cur) \<noteq> Runnable"

definition YieldWithoutCoreMigration :: "thread \<Rightarrow> nat \<Rightarrow> kernel \<Rightarrow> kernel" where
  "YieldWithoutCoreMigration cur proc k =
     (if nothing_to_yield cur proc k then k
      else
        (let (next_thread, s) = MoveToScheduledBack cur (queue_state k);
             k1 = IncrementScheduledCount cur (put_queue_state s k)
         in if next_thread \<noteq> Some cur then SetSchedulerUpdateNeeded k1
            else SetYieldScheduleCount cur (pr_schedule_count (k_processes k1 proc)) k1))"

definition yield_suggestion ::
    "thread \<Rightarrow> thread option \<Rightarrow> kernel \<Rightarrow> thread \<Rightarrow> bool \<Rightarrow> bool + thread option \<times> bool" where
  "yield_suggestion cur next_thread k suggested recheck =
     (let suggested_core = th_core_id (thread_of k suggested);
          running = (if 0 \<le> suggested_core then sc_highest_priority_thread (k_schedulers k (nat suggested_core)) else None)
      in if running \<noteq> Some suggested then
           (if th_priority (thread_of k cur) < th_priority (thread_of k suggested) \<or>
               th_priority (thread_of k suggested) = th_priority (thread_of k cur) \<and>
               next_thread \<noteq> Some cur \<and> waits_longer next_thread suggested k
            then Inr (None, recheck)
            else if migration_allowed running k then Inr (Some suggested, recheck)
            else Inl True)
         else Inl recheck)"

definition YieldWithCoreMigration :: "thread \<Rightarrow> nat \<Rightarrow> kernel \<Rightarrow> kernel option" where
  "YieldWithCoreMigration cur proc k =
     (if nothing_to_yield cur proc k then Some k
      else
        (let core = nat (th_core_id (thread_of k cur));
             (next_thread, s) = MoveToScheduledBack cur (queue_state k);
             k1 = IncrementScheduledCount cur (put_queue_state s k)
         in case walk (\<lambda>t. GetSuggestedNext core t (queue_state k1)) (yield_suggestion cur next_thread k1)
                   (GetSuggestedFront core (queue_state k1)) False of
              None \<Rightarrow> None
            | Some r \<Rightarrow>
                (let (suggested, recheck) = (case r of Inl recheck \<Rightarrow> (None, recheck) | Inr p \<Rightarrow> p);
                     k2 = (case suggested of
                             None \<Rightarrow> k1
                           | Some t \<Rightarrow> IncrementScheduledCount t (migrate core True t k1))
                 in Some (if suggested \<noteq> None \<or> next_thread \<noteq> Some cur then SetSchedulerUpdateNeeded k2
                          else if \<not> recheck then SetYieldScheduleCount cur (pr_schedule_count (k_processes k2 proc)) k2
                          else k2))))"

definition any_suggestion :: "kernel \<Rightarrow> thread \<Rightarrow> unit \<Rightarrow> unit + thread \<times> bool" where
  "any_suggestion k suggested u =
     (let top_on_suggested_core = top_on_core (th_core_id (thread_of k suggested)) k
      in if top_on_suggested_core \<noteq> Some suggested then Inr (suggested, migration_allowed top_on_suggested_core k)
         else Inl ())"

definition YieldToAnyThread :: "thread \<Rightarrow> nat \<Rightarrow> kernel \<Rightarrow> kernel option" where
  "YieldToAnyThread cur proc k =
     (if nothing_to_yield cur proc k then Some k
      else
        (let core_id = th_core_id (thread_of k cur);
             core = nat core_id;
             k1 = SetActiveCore cur (- 1) k;
             k2 = IncrementScheduledCount cur (put_queue_state (ChangeCore core_id cur False (queue_state k1)) k1)
         in if GetScheduledFront core (queue_state k2) = None then
              (case walk (\<lambda>t. GetSuggestedNext core t (queue_state k2)) (any_suggestion k2)
                      (GetSuggestedFront core (queue_state k2)) () of
                 None \<Rightarrow> None
               | Some r \<Rightarrow>
                   (let (suggested, k3) =
                          (case r of
                             Inl _ \<Rightarrow> (None, k2)
                           | Inr (t, allowed) \<Rightarrow>
                               (Some t, if allowed then IncrementScheduledCount t (migrate core False t k2) else k2))
                    in Some (if suggested \<noteq> Some cur then SetSchedulerUpdateNeeded k3
                             else SetYieldScheduleCount cur (pr_schedule_count (k_processes k3 proc)) k3)))
            else Some (SetSchedulerUpdateNeeded k2)))"

end
