(* ===== verification/Thread.thy ===== *)
theory Thread
  imports Scheduler
begin

text \<open>
  The operations of a thread that the scheduler follows (\<^verbatim>\<open>core/hle/kernel/k_thread.cpp\<close>, and the pinning of
  \<^verbatim>\<open>k_process.cpp\<close>): its state, its suspension, its pinning to a core, its affinity mask and its termination.
  They run under the scheduler lock. The timer of a wait is not part of the model.
\<close>

section \<open>State and suspension\<close>

definition Initialized :: u16 where "Initialized = 0"
definition Waiting :: u16 where "Waiting = 1"
definition Terminated :: u16 where "Terminated = 3"
definition SuspendShift :: nat where "SuspendShift = 4"

datatype SuspendType = Process | Thread | Debug | Backtrace | Init | System

primrec SuspendType_value :: "SuspendType \<Rightarrow> nat" where
  "SuspendType_value Process = 0"
| "SuspendType_value Thread = 1"
| "SuspendType_value Debug = 2"
| "SuspendType_value Backtrace = 3"
| "SuspendType_value Init = 4"
| "SuspendType_value System = 5"

definition suspend_bit :: "SuspendType \<Rightarrow> u32" where
  "suspend_bit type = push_bit (SuspendShift + SuspendType_value type) 1"

definition GetState :: "KThread \<Rightarrow> u16" where
  "GetState th = th_state th AND ThreadState_Mask"

definition GetSuspendFlags :: "KThread \<Rightarrow> u32" where
  "GetSuspendFlags th = th_suspend_allowed_flags th AND th_suspend_request_flags th"

definition IsSuspended :: "KThread \<Rightarrow> bool" where
  "IsSuspended th \<longleftrightarrow> GetSuspendFlags th \<noteq> 0"

definition IsSuspendRequested :: "SuspendType \<Rightarrow> KThread \<Rightarrow> bool" where
  "IsSuspendRequested type th \<longleftrightarrow> th_suspend_request_flags th AND suspend_bit type \<noteq> 0"

definition IsTerminationRequested :: "KThread \<Rightarrow> bool" where
  "IsTerminationRequested th \<longleftrightarrow> th_termination_requested th \<or> th_state th = Terminated"

definition store_state :: "thread \<Rightarrow> u16 \<Rightarrow> kernel \<Rightarrow> kernel" where
  "store_state t s k = set_thread t (\<lambda>th. th \<lparr> th_state := s \<rparr>) k"

definition SetState :: "thread \<Rightarrow> u16 \<Rightarrow> kernel \<Rightarrow> kernel" where
  "SetState t s k =
     (let old_state = th_state (thread_of k t);
          new_state = (old_state AND NOT ThreadState_Mask) OR (s AND ThreadState_Mask);
          k1 = store_state t new_state k
      in if new_state \<noteq> old_state then OnThreadStateChanged t old_state k1 else k1)"

definition UpdateState :: "thread \<Rightarrow> kernel \<Rightarrow> kernel" where
  "UpdateState t k =
     (let old_state = th_state (thread_of k t);
          new_state = ucast (GetSuspendFlags (thread_of k t)) OR (old_state AND ThreadState_Mask);
          k1 = store_state t new_state k
      in if new_state \<noteq> old_state then OnThreadStateChanged t old_state k1 else k1)"

definition Continue :: "thread \<Rightarrow> kernel \<Rightarrow> kernel" where
  "Continue t k =
     (let old_state = th_state (thread_of k t)
      in OnThreadStateChanged t old_state (store_state t (old_state AND ThreadState_Mask) k))"

definition TrySuspend :: "thread \<Rightarrow> kernel \<Rightarrow> kernel" where
  "TrySuspend t k = (if 0 < th_num_kernel_waiters (thread_of k t) then k else UpdateState t k)"

definition RequestSuspend :: "thread \<Rightarrow> SuspendType \<Rightarrow> kernel \<Rightarrow> kernel" where
  "RequestSuspend t type k =
     TrySuspend t
       (set_thread t (\<lambda>th. th \<lparr> th_suspend_request_flags := th_suspend_request_flags th OR suspend_bit type \<rparr>) k)"

definition Resume :: "thread \<Rightarrow> SuspendType \<Rightarrow> kernel \<Rightarrow> kernel" where
  "Resume t type k =
     UpdateState t
       (set_thread t (\<lambda>th. th \<lparr> th_suspend_request_flags := th_suspend_request_flags th AND NOT (suspend_bit type) \<rparr>) k)"

definition BeginWait :: "thread \<Rightarrow> thread_queue \<Rightarrow> kernel \<Rightarrow> kernel" where
  "BeginWait t q k = set_thread t (\<lambda>th. th \<lparr> th_wait_queue := Some q \<rparr>) (SetState t Waiting k)"

text \<open>
  The end of a wait, which the queues share (\<^verbatim>\<open>KThreadQueue::EndWait\<close>), and the base of its cancellation, which is the same. A wait for
  synchronization objects is ended by their notification only.
\<close>

definition KThreadQueue_EndWait :: "thread \<Rightarrow> Result \<Rightarrow> kernel \<Rightarrow> kernel" where
  "KThreadQueue_EndWait t r k =
     set_thread t (\<lambda>th. th \<lparr> th_wait_queue := None \<rparr>)
       (SetState t Runnable (set_thread t (\<lambda>th. th \<lparr> th_wait_result := r \<rparr>) k))"

definition EndWait :: "thread \<Rightarrow> Result \<Rightarrow> kernel \<Rightarrow> kernel" where
  "EndWait t r k =
     (if GetState (thread_of k t) = Waiting \<and> th_wait_queue (thread_of k t) \<noteq> None then KThreadQueue_EndWait t r k else k)"

section \<open>Pinning\<close>

definition Pin :: "thread \<Rightarrow> nat \<Rightarrow> kernel \<Rightarrow> kernel" where
  "Pin t current_core k =
     (let th = thread_of k t;
          active_core = th_core_id th;
          original = th_affinity th;
          k1 = set_thread t (\<lambda>th. th \<lparr> th_is_pinned := True,
                 th_num_core_migration_disables := th_num_core_migration_disables th + 1,
                 th_original_physical_ideal_core_id := th_physical_ideal_core_id th,
                 th_original_physical_affinity_mask := original,
                 th_core_id := int current_core,
                 th_physical_ideal_core_id := int current_core,
                 th_affinity := push_bit current_core 1 \<rparr>) k;
          k2 = (if active_core \<noteq> int current_core \<or> push_bit current_core 1 \<noteq> original
                then OnThreadAffinityMaskChanged t original active_core k1 else k1)
      in UpdateState t
           (set_thread t (\<lambda>th. th \<lparr> th_suspend_allowed_flags := th_suspend_allowed_flags th AND NOT (suspend_bit Thread) \<rparr>) k2))"

text \<open>The core of a thread whose affinity mask no longer allows its active core.\<close>

definition fallback_core :: "KThread \<Rightarrow> int" where
  "fallback_core th =
     (if 0 \<le> th_physical_ideal_core_id th then th_physical_ideal_core_id th
      else int (64 - 1 - countl_zero (th_affinity th)))"

fun end_waits :: "thread list \<Rightarrow> kernel \<Rightarrow> kernel" where
  "end_waits [] k = k"
| "end_waits (t # ts) k = end_waits ts (EndWait t ResultSuccess k)"

definition restore_affinity :: "thread \<Rightarrow> kernel \<Rightarrow> kernel" where
  "restore_affinity t k =
     (let old_mask = th_affinity (thread_of k t);
          k1 = set_thread t (\<lambda>th. th \<lparr> th_is_pinned := False,
                 th_num_core_migration_disables := th_num_core_migration_disables th - 1,
                 th_physical_ideal_core_id := th_original_physical_ideal_core_id th,
                 th_affinity := th_original_physical_affinity_mask th \<rparr>) k;
          th = thread_of k1 t
      in if th_affinity th \<noteq> old_mask then
           (let active_core = th_core_id th;
                k2 = (if \<not> GetAffinity (th_affinity th) (nat active_core) then SetActiveCore t (fallback_core th) k1 else k1)
            in OnThreadAffinityMaskChanged t old_mask active_core k2)
         else k1)"

definition Unpin :: "thread \<Rightarrow> kernel \<Rightarrow> kernel" where
  "Unpin t k =
     (let k1 = restore_affinity t k;
          k2 = (if \<not> IsTerminationRequested (thread_of k1 t)
                then UpdateState t
                       (set_thread t (\<lambda>th. th \<lparr> th_suspend_allowed_flags := th_suspend_allowed_flags th OR suspend_bit Thread \<rparr>) k1)
                else k1)
      in set_thread t (\<lambda>th. th \<lparr> th_pinned_waiter_list := [] \<rparr>) (end_waits (th_pinned_waiter_list (thread_of k2 t)) k2))"

definition set_pinned :: "nat \<Rightarrow> nat \<Rightarrow> thread option \<Rightarrow> kernel \<Rightarrow> kernel" where
  "set_pinned proc core t k =
     set_process proc (\<lambda>pr. pr \<lparr> pr_pinned_threads := (pr_pinned_threads pr)(core := t) \<rparr>) k"

text \<open>Pinning and unpinning by the process; \<open>core\<close> is the current core and \<open>cur\<close> the current thread.\<close>

definition PinCurrentThread :: "nat \<Rightarrow> thread \<Rightarrow> nat \<Rightarrow> kernel \<Rightarrow> kernel" where
  "PinCurrentThread proc cur core k =
     (if \<not> IsTerminationRequested (thread_of k cur)
      then SetSchedulerUpdateNeeded (Pin cur core (set_pinned proc core (Some cur) k))
      else k)"

definition UnpinCurrentThread :: "nat \<Rightarrow> thread \<Rightarrow> nat \<Rightarrow> kernel \<Rightarrow> kernel" where
  "UnpinCurrentThread proc cur core k = SetSchedulerUpdateNeeded (set_pinned proc core None (Unpin cur k))"

definition UnpinThread :: "nat \<Rightarrow> thread \<Rightarrow> kernel \<Rightarrow> kernel" where
  "UnpinThread proc t k =
     SetSchedulerUpdateNeeded (Unpin t (set_pinned proc (nat (th_core_id (thread_of k t))) None k))"

section \<open>Affinity\<close>

definition VirtualToPhysicalCoreMap :: "nat list" where
  "VirtualToPhysicalCoreMap = [0, 1, 2, 3] @ replicate 59 0 @ [3]"

definition IdealCoreNoUpdate :: int where "IdealCoreNoUpdate = - 3"

function physical_mask :: "u64 \<Rightarrow> u64 \<Rightarrow> u64" where
  "physical_mask v p =
     (if v = 0 then p
      else
        (let nxt = countr_zero v
         in physical_mask (v AND NOT (push_bit nxt 1)) (p OR push_bit (VirtualToPhysicalCoreMap ! nxt) 1)))"
  by pat_completeness auto
termination
  by (relation "measure (\<lambda>(v, p). unat v)") (auto simp: clear_bit_less countr_zero_spec(2))

declare physical_mask.simps [simp del]

definition GetCoreMask :: "KThread \<Rightarrow> int \<times> u64" where
  "GetCoreMask th = (th_virtual_ideal_core_id th, th_virtual_affinity_mask th)"

definition GetPhysicalCoreMask :: "KThread \<Rightarrow> int \<times> u64" where
  "GetPhysicalCoreMask th =
     (if th_num_core_migration_disables th = 0 then (th_physical_ideal_core_id th, th_affinity th)
      else (th_original_physical_ideal_core_id th, th_original_physical_affinity_mask th))"

text \<open>A change of the affinity of a thread that may migrate.\<close>

definition change_affinity :: "thread \<Rightarrow> int \<Rightarrow> u64 \<Rightarrow> kernel \<Rightarrow> kernel" where
  "change_affinity t core p_affinity k =
     (let old_mask = th_affinity (thread_of k t);
          k1 = set_thread t (\<lambda>th. th \<lparr> th_physical_ideal_core_id := core, th_affinity := p_affinity \<rparr>) k;
          th = thread_of k1 t
      in if th_affinity th \<noteq> old_mask then
           (let active_core = th_core_id th;
                k2 = (if 0 \<le> active_core \<and> \<not> GetAffinity (th_affinity th) (nat active_core)
                      then SetActiveCore t (fallback_core th) k1 else k1)
            in OnThreadAffinityMaskChanged t old_mask active_core k2)
         else k1)"

text \<open>
  The change that \<^verbatim>\<open>SetCoreMask\<close> makes before it waits for the thread to leave its core. Shifting by a negative ideal core is
  undefined, and has the value \<^const>\<open>None\<close>.
\<close>

definition SetCoreMask :: "thread \<Rightarrow> int \<Rightarrow> u64 \<Rightarrow> kernel \<Rightarrow> (Result \<times> kernel) option" where
  "SetCoreMask t core_id v_affinity k =
     (let update = (core_id \<noteq> IdealCoreNoUpdate);
          ideal = (if update then core_id else th_virtual_ideal_core_id (thread_of k t));
          k1 = (if update then set_thread t (\<lambda>th. th \<lparr> th_virtual_ideal_core_id := core_id \<rparr>) k else k)
      in if \<not> update \<and> ideal < 0 then None
         else if \<not> update \<and> push_bit (nat ideal) 1 AND v_affinity = 0 then Some (ResultInvalidCombination, k1)
         else
           (let k2 = set_thread t (\<lambda>th. th \<lparr> th_virtual_affinity_mask := v_affinity \<rparr>) k1;
                core = (if 0 \<le> ideal then int (VirtualToPhysicalCoreMap ! nat ideal) else ideal);
                p_affinity = physical_mask v_affinity 0
            in Some (ResultSuccess,
                 if th_num_core_migration_disables (thread_of k2 t) = 0 then change_affinity t core p_affinity k2
                 else set_thread t (\<lambda>th. th \<lparr> th_original_physical_ideal_core_id := core,
                        th_original_physical_affinity_mask := p_affinity \<rparr>) k2)))"

section \<open>Termination\<close>

definition ClearRunning :: "thread \<Rightarrow> kernel \<Rightarrow> kernel" where
  "ClearRunning t k =
     (case th_parent (thread_of k t) of None \<Rightarrow> k | Some p \<Rightarrow> set_process p (ClearRunningThread t) k)"

text \<open>\<open>core\<close> is the current core. Releasing the user exception of the process is not part of the model.\<close>

definition StartTermination :: "thread \<Rightarrow> thread \<Rightarrow> nat \<Rightarrow> kernel \<Rightarrow> kernel" where
  "StartTermination cur t core k =
     (let k1 = (case th_parent (thread_of k t) of
                  None \<Rightarrow> k
                | Some p \<Rightarrow>
                    if pr_pinned_threads (k_processes k p) core = Some t then UnpinCurrentThread p cur core k else k)
      in ClearPreviousThread t (ClearRunning t (SetState t Terminated k1)))"

end
