(* ===== verification/PriorityQueueBehaviour.thy ===== *)
theory PriorityQueueBehaviour
  imports PriorityQueue
begin

text \<open>
  The priority queue represents, for each core, a scheduled and a suggested list of threads of every priority. The
  doubly linked lists are related to lists, the bit sets to the priorities that have a
  thread, and every operation of the queue to one on lists.
\<close>

section \<open>Linked lists\<close>

definition hd_opt :: "'a list \<Rightarrow> 'a option" where
  "hd_opt xs = (case xs of [] \<Rightarrow> None | x # _ \<Rightarrow> Some x)"

definition last_opt :: "'a list \<Rightarrow> 'a option" where
  "last_opt xs = (if xs = [] then None else Some (last xs))"

lemma opt_simps [simp]:
  "hd_opt [] = None" "hd_opt (x # xs) = Some x" "last_opt [] = None" "last_opt (xs @ [x]) = Some x"
  "hd_opt xs = None \<longleftrightarrow> xs = []" "last_opt xs = None \<longleftrightarrow> xs = []"
  by (auto simp: hd_opt_def last_opt_def split: list.splits)

fun chain :: "(thread \<Rightarrow> QueueEntry) \<Rightarrow> thread option \<Rightarrow> thread list \<Rightarrow> thread option \<Rightarrow> bool" where
  "chain e p [] n \<longleftrightarrow> True"
| "chain e p (x # xs) n \<longleftrightarrow>
     qe_prev (e x) = p \<and> qe_next (e x) = (if xs = [] then n else hd_opt xs) \<and> chain e (Some x) xs n"

definition linked :: "QueueEntry \<Rightarrow> (thread \<Rightarrow> QueueEntry) \<Rightarrow> thread list \<Rightarrow> bool" where
  "linked r e xs \<longleftrightarrow> qe_next r = hd_opt xs \<and> qe_prev r = last_opt xs \<and> chain e None xs None \<and> distinct xs"

lemma link_chain_append:
  "chain e p (xs @ ys) n \<longleftrightarrow>
     chain e p xs (if ys = [] then n else hd_opt ys) \<and> chain e (if xs = [] then p else last_opt xs) ys n"
  by (induction xs arbitrary: p) (auto simp: last_opt_def hd_opt_def split: list.splits)

lemma chain_cong: "(\<And>x. x \<in> set xs \<Longrightarrow> e' x = e x) \<Longrightarrow> chain e p xs n \<Longrightarrow> chain e' p xs n"
  by (induction xs arbitrary: p) auto

lemma linked_cong:
  assumes "\<And>x. x \<in> set xs \<Longrightarrow> e' x = e x" "linked r e xs"
  shows "linked r e' xs"
  using assms chain_cong [of xs e' e] by (auto simp: linked_def)

lemma linked_push_back:
  assumes xs: "linked r e xs" and m: "m \<notin> set xs"
    and e': "\<And>x. x \<in> set xs \<Longrightarrow> x \<noteq> last xs \<Longrightarrow> e' x = e x"
      "xs \<noteq> [] \<Longrightarrow> e' (last xs) = (e (last xs)) \<lparr> qe_next := Some m \<rparr>"
      "qe_prev (e' m) = last_opt xs" "qe_next (e' m) = None"
    and r': "qe_prev r' = Some m" "qe_next r' = (if xs = [] then Some m else qe_next r)"
  shows "linked r' e' (xs @ [m])"
proof (cases xs rule: rev_cases)
  case Nil
  then show ?thesis using assms by (simp add: linked_def last_opt_def)
next
  case (snoc ys t)
  have d: "distinct xs" "chain e None xs None" and r: "qe_next r = hd_opt xs" using xs by (simp_all add: linked_def)
  then have "chain e None ys (Some t)" "qe_prev (e t) = (if ys = [] then None else last_opt ys)"
    by (simp_all add: snoc link_chain_append)
  moreover have "e' x = e x" if "x \<in> set ys" for x using e'(1) that d(1) by (auto simp: snoc)
  ultimately have "chain e' None ys (Some t)" "qe_prev (e' t) = (if ys = [] then None else last_opt ys)" "qe_next (e' t) = Some m"
    using chain_cong e'(2) by (auto simp: snoc)
  then have "chain e' None (xs @ [m]) None" using e'(3,4) by (simp add: snoc link_chain_append)
  moreover have "hd_opt (xs @ [m]) = hd_opt xs" by (cases ys) (simp_all add: snoc)
  ultimately show ?thesis using d r r' m by (simp add: linked_def snoc last_opt_def)
qed

lemma linked_push_front:
  assumes xs: "linked r e xs" and m: "m \<notin> set xs"
    and e': "\<And>x. x \<in> set xs \<Longrightarrow> x \<noteq> hd xs \<Longrightarrow> e' x = e x" "xs \<noteq> [] \<Longrightarrow> e' (hd xs) = (e (hd xs)) \<lparr> qe_prev := Some m \<rparr>"
      "qe_prev (e' m) = None" "qe_next (e' m) = hd_opt xs"
    and r': "qe_next r' = Some m" "qe_prev r' = (if xs = [] then Some m else qe_prev r)"
  shows "linked r' e' (m # xs)"
proof (cases xs)
  case Nil
  then show ?thesis using assms by (simp add: linked_def last_opt_def)
next
  case (Cons t ys)
  have d: "distinct xs" "chain e None xs None" and r: "qe_prev r = last_opt xs" using xs by (simp_all add: linked_def)
  then have "chain e (Some t) ys None" "qe_next (e t) = (if ys = [] then None else hd_opt ys)" by (simp_all add: Cons)
  moreover have "e' x = e x" if "x \<in> set ys" for x using e'(1) that d(1) by (auto simp: Cons)
  ultimately have "chain e' (Some m) xs None" using chain_cong [of ys e' e] e'(2) by (simp add: Cons)
  then show ?thesis using d r r' m e'(3,4) by (simp add: linked_def last_opt_def Cons)
qed

lemma linked_remove:
  assumes xs: "linked r e (ys @ m # zs)"
    and e': "\<And>x. x \<in> set ys \<Longrightarrow> x \<noteq> last ys \<Longrightarrow> e' x = e x" "\<And>x. x \<in> set zs \<Longrightarrow> x \<noteq> hd zs \<Longrightarrow> e' x = e x"
      "ys \<noteq> [] \<Longrightarrow> e' (last ys) = (e (last ys)) \<lparr> qe_next := hd_opt zs \<rparr>"
      "zs \<noteq> [] \<Longrightarrow> e' (hd zs) = (e (hd zs)) \<lparr> qe_prev := last_opt ys \<rparr>"
    and r': "qe_next r' = (if ys = [] then hd_opt zs else qe_next r)"
      "qe_prev r' = (if zs = [] then last_opt ys else qe_prev r)"
  shows "linked r' e' (ys @ zs)"
proof -
  have d: "distinct (ys @ zs)" "chain e None ys (Some m)" "chain e (Some m) zs None"
    and r: "qe_next r = hd_opt (ys @ m # zs)" "qe_prev r = last_opt (ys @ m # zs)"
    using xs by (auto simp: linked_def link_chain_append)
  have "chain e' None ys (hd_opt zs)"
  proof (cases ys rule: rev_cases)
    case (snoc us t)
    then have "chain e None us (Some t)" "qe_prev (e t) = (if us = [] then None else last_opt us)"
      using d(2) by (simp_all add: link_chain_append)
    moreover have "e' x = e x" if "x \<in> set us" for x using e'(1) that d(1) by (auto simp: snoc)
    ultimately show ?thesis using chain_cong [of us e' e] e'(3) by (simp add: snoc link_chain_append)
  qed simp
  moreover have "chain e' (last_opt ys) zs None"
  proof (cases zs)
    case (Cons t us)
    then have "chain e (Some t) us None" "qe_next (e t) = (if us = [] then None else hd_opt us)" using d(3) by simp_all
    moreover have "e' x = e x" if "x \<in> set us" for x using e'(2) that d(1) by (auto simp: Cons)
    ultimately show ?thesis using chain_cong [of us e' e] e'(4) by (simp add: Cons)
  qed simp
  ultimately have "chain e' None (ys @ zs) None"
    by (auto simp: link_chain_append)
  moreover have "qe_next r' = hd_opt (ys @ zs)" using r r' by (cases ys) simp_all
  moreover have "qe_prev r' = last_opt (ys @ zs)" using r r' by (cases zs) (simp_all add: last_opt_def)
  ultimately show ?thesis using d(1) by (simp add: linked_def)
qed

section \<open>The queue of one priority\<close>

definition entries_at :: "threads \<Rightarrow> nat \<Rightarrow> thread \<Rightarrow> QueueEntry" where
  "entries_at ths core t = th_entries (ths t) core"

text \<open>Only links change, and only those of \<open>X\<close> at the core.\<close>

definition relinked :: "nat \<Rightarrow> thread set \<Rightarrow> threads \<Rightarrow> threads \<Rightarrow> bool" where
  "relinked core X ths ths' \<longleftrightarrow>
     (\<forall>t. ths' t = (ths t) \<lparr> th_entries := th_entries (ths' t) \<rparr>) \<and>
     (\<forall>t c. c \<noteq> core \<or> t \<notin> X \<longrightarrow> th_entries (ths' t) c = th_entries (ths t) c)"

lemma relinked_refl: "relinked core X ths ths"
  by (simp add: relinked_def)

lemma relinked_trans: "relinked core X ths ths1 \<Longrightarrow> relinked core X ths1 ths2 \<Longrightarrow> relinked core X ths ths2"
  unfolding relinked_def by (metis KThread.update_convs(1) KThread.surjective)

lemmas link_defs = set_prev_def set_next_def entries_at_def

lemma PerCore_PushBack_spec:
  assumes xs: "linked (root core) (entries_at ths core) xs" and m: "m \<notin> set xs"
    and push: "PerCore_PushBack core m (root, ths) = (first, root', ths')"
  shows "first \<longleftrightarrow> xs = []" "linked (root' core) (entries_at ths' core) (xs @ [m])"
    "c \<noteq> core \<Longrightarrow> root' c = root c" "relinked core (insert m (set xs)) ths ths'"
proof -
  have tail: "qe_prev (root core) = last_opt xs" using xs by (simp add: linked_def)
  show "first \<longleftrightarrow> xs = []" using push tail by (auto simp: PerCore_PushBack_def Let_def)
  have "linked (root' core) (entries_at ths' core) (xs @ [m]) \<and> (c \<noteq> core \<longrightarrow> root' c = root c) \<and>
      relinked core (insert m (set xs)) ths ths'"
  proof (cases "xs = []")
    case True
    then show ?thesis
      using push tail m
      by (auto simp: PerCore_PushBack_def Let_def link_defs relinked_def linked_def last_opt_def)
  next
    case False
    then have t: "qe_prev (root core) = Some (last xs)" "last xs \<noteq> m" "last xs \<in> set xs" using tail m by (auto simp: last_opt_def)
    have "linked (root' core) (entries_at ths' core) (xs @ [m])"
      by (rule linked_push_back [OF xs m])
        (use push t False m in \<open>auto simp: PerCore_PushBack_def Let_def link_defs last_opt_def\<close>)
    then show ?thesis using push t by (auto simp: PerCore_PushBack_def Let_def link_defs relinked_def)
  qed
  then show "linked (root' core) (entries_at ths' core) (xs @ [m])" "c \<noteq> core \<Longrightarrow> root' c = root c"
    "relinked core (insert m (set xs)) ths ths'" by blast+
qed

lemma PerCore_PushFront_spec:
  assumes xs: "linked (root core) (entries_at ths core) xs" and m: "m \<notin> set xs"
    and push: "PerCore_PushFront core m (root, ths) = (first, root', ths')"
  shows "first \<longleftrightarrow> xs = []" "linked (root' core) (entries_at ths' core) (m # xs)"
    "c \<noteq> core \<Longrightarrow> root' c = root c" "relinked core (insert m (set xs)) ths ths'"
proof -
  have head: "qe_next (root core) = hd_opt xs" using xs by (simp add: linked_def)
  show "first \<longleftrightarrow> xs = []" using push head by (auto simp: PerCore_PushFront_def Let_def)
  have "linked (root' core) (entries_at ths' core) (m # xs) \<and> (c \<noteq> core \<longrightarrow> root' c = root c) \<and>
      relinked core (insert m (set xs)) ths ths'"
  proof (cases "xs = []")
    case True
    then show ?thesis
      using push head m
      by (auto simp: PerCore_PushFront_def Let_def link_defs relinked_def linked_def last_opt_def)
  next
    case False
    then have t: "qe_next (root core) = Some (hd xs)" "hd xs \<noteq> m" "hd xs \<in> set xs" using head m by (auto simp: hd_opt_def split: list.splits)
    have "linked (root' core) (entries_at ths' core) (m # xs)"
      by (rule linked_push_front [OF xs m])
        (use push t False head m in \<open>auto simp: PerCore_PushFront_def Let_def link_defs\<close>)
    then show ?thesis using push t by (auto simp: PerCore_PushFront_def Let_def link_defs relinked_def)
  qed
  then show "linked (root' core) (entries_at ths' core) (m # xs)" "c \<noteq> core \<Longrightarrow> root' c = root c"
    "relinked core (insert m (set xs)) ths ths'" by blast+
qed

lemma PerCore_Remove_spec:
  assumes xs: "linked (root core) (entries_at ths core) (ys @ m # zs)"
    and rem: "PerCore_Remove core m (root, ths) = (none, root', ths')"
  shows "none \<longleftrightarrow> ys @ zs = []" "linked (root' core) (entries_at ths' core) (ys @ zs)"
    "c \<noteq> core \<Longrightarrow> root' c = root c" "relinked core (set ys \<union> set zs) ths ths'"
proof -
  have e: "qe_prev (th_entries (ths m) core) = last_opt ys" "qe_next (th_entries (ths m) core) = hd_opt zs"
    and d: "distinct (ys @ m # zs)"
    using xs by (auto simp: linked_def link_chain_append entries_at_def split: if_splits)
  let ?A = "set_next core (last_opt ys) (hd_opt zs) (root, ths)"
  have s: "(root', ths') = set_prev core (hd_opt zs) (last_opt ys) ?A"
    using rem by (auto simp: PerCore_Remove_def Let_def e)
  have yz: "last ys \<notin> set zs" if "ys \<noteq> []" using d last_in_set [OF that] by auto
  have zy: "hd zs \<notin> set ys" if "zs \<noteq> []" using d hd_in_set [OF that] by auto
  have "linked (root' core) (entries_at ths' core) (ys @ zs)"
    by (rule linked_remove [OF xs])
      (use s d yz zy in \<open>auto simp: link_defs last_opt_def hd_opt_def split: list.splits if_splits\<close>)
  then show l: "linked (root' core) (entries_at ths' core) (ys @ zs)" .
  have "(c \<noteq> core \<longrightarrow> root' c = root c) \<and> relinked core (set ys \<union> set zs) ths ths'"
    using s by (auto simp: link_defs last_opt_def hd_opt_def relinked_def split: list.splits if_splits)
  then show "c \<noteq> core \<Longrightarrow> root' c = root c" "relinked core (set ys \<union> set zs) ths ths'" by blast+
  have "none \<longleftrightarrow> qe_next (root' core) = None"
    using rem by (auto simp: PerCore_Remove_def Let_def PerCore_GetFront_def)
  then show "none \<longleftrightarrow> ys @ zs = []" using l by (simp add: linked_def)
qed

section \<open>All queues\<close>

text \<open>The lists of a core are indexed by the kind of queue, suggested or scheduled, and the priority.\<close>

type_synonym lists = "nat \<Rightarrow> bool \<times> nat \<Rightarrow> thread list"

definition queue_of :: "bool \<Rightarrow> KPriorityQueue \<Rightarrow> KPriorityQueueImpl" where
  "queue_of b q = (if b then pq_suggested q else pq_scheduled q)"

definition on_queue :: "bool \<Rightarrow> (KPriorityQueueImpl \<times> threads \<Rightarrow> KPriorityQueueImpl \<times> threads) \<Rightarrow> pq_state \<Rightarrow> pq_state" where
  "on_queue b = (if b then on_suggested else on_scheduled)"

definition set_queue :: "bool \<Rightarrow> KPriorityQueueImpl \<Rightarrow> KPriorityQueue \<Rightarrow> KPriorityQueue" where
  "set_queue b i q = (if b then q \<lparr> pq_suggested := i \<rparr> else q \<lparr> pq_scheduled := i \<rparr>)"

lemma on_queue_eq: "on_queue b f s = (let (i, ths) = f (queue_of b (fst s), snd s) in (set_queue b i (fst s), ths))"
  by (simp add: on_queue_def queue_of_def set_queue_def on_suggested_def on_scheduled_def)

lemma queue_of_set [simp]: "queue_of b' (set_queue b i q) = (if b' = b then i else queue_of b' q)"
  by (simp add: queue_of_def set_queue_def)

definition pq_rep :: "pq_state \<Rightarrow> lists \<Rightarrow> bool" where
  "pq_rep s L \<longleftrightarrow>
     (\<forall>c k. \<not> (c < NUM_CPU_CORES \<and> snd k \<le> LowestPriority) \<longrightarrow> L c k = []) \<and>
     (\<forall>c b p. c < NUM_CPU_CORES \<longrightarrow> p \<le> LowestPriority \<longrightarrow>
        linked (im_queues (queue_of b (fst s)) p c) (entries_at (snd s) c) (L c (b, p))) \<and>
     (\<forall>c k k'. k \<noteq> k' \<longrightarrow> set (L c k) \<inter> set (L c k') = {}) \<and>
     (\<forall>c b. c < NUM_CPU_CORES \<longrightarrow>
        length (im_available (queue_of b (fst s)) c) = 1 \<and>
        bit_set_of (im_available (queue_of b (fst s)) c) = {p. L c (b, p) \<noteq> []})"

definition put_list :: "nat \<Rightarrow> bool \<times> nat \<Rightarrow> thread list \<Rightarrow> lists \<Rightarrow> lists" where
  "put_list c k xs L = L(c := (L c)(k := xs))"

text \<open>Only links change, at one core or at any.\<close>

definition links_only :: "threads \<Rightarrow> threads \<Rightarrow> bool" where
  "links_only ths ths' \<longleftrightarrow> (\<forall>t. ths' t = (ths t) \<lparr> th_entries := th_entries (ths' t) \<rparr>)"

lemma links_only_refl [simp]: "links_only ths ths"
  by (simp add: links_only_def)

lemma links_only_trans: "links_only ths ths1 \<Longrightarrow> links_only ths1 ths2 \<Longrightarrow> links_only ths ths2"
  unfolding links_only_def by (metis KThread.update_convs(1) KThread.surjective)

lemma links_only_fields:
  assumes "links_only ths ths'"
  shows "th_affinity (ths' t) = th_affinity (ths t)" "th_core_id (ths' t) = th_core_id (ths t)"
    "th_priority (ths' t) = th_priority (ths t)" "th_is_dummy (ths' t) = th_is_dummy (ths t)"
    "th_state (ths' t) = th_state (ths t)" "th_parent (ths' t) = th_parent (ths t)"
    "th_last_scheduled_tick (ths' t) = th_last_scheduled_tick (ths t)"
    "th_num_kernel_waiters (ths' t) = th_num_kernel_waiters (ths t)"
    "th_schedule_count (ths' t) = th_schedule_count (ths t)" "th_dummy_runnable (ths' t) = th_dummy_runnable (ths t)"
proof -
  have e: "ths' t = (ths t) \<lparr> th_entries := th_entries (ths' t) \<rparr>" using assms unfolding links_only_def by blast
  show "th_affinity (ths' t) = th_affinity (ths t)"
    "th_core_id (ths' t) = th_core_id (ths t)"
    "th_priority (ths' t) = th_priority (ths t)"
    "th_is_dummy (ths' t) = th_is_dummy (ths t)"
    "th_state (ths' t) = th_state (ths t)"
    "th_parent (ths' t) = th_parent (ths t)"
    "th_last_scheduled_tick (ths' t) = th_last_scheduled_tick (ths t)"
    "th_num_kernel_waiters (ths' t) = th_num_kernel_waiters (ths t)"
    "th_schedule_count (ths' t) = th_schedule_count (ths t)"
    "th_dummy_runnable (ths' t) = th_dummy_runnable (ths t)"
    using arg_cong [where f = th_affinity, OF e]
      arg_cong [where f = th_core_id, OF e]
      arg_cong [where f = th_priority, OF e]
      arg_cong [where f = th_is_dummy, OF e]
      arg_cong [where f = th_state, OF e]
      arg_cong [where f = th_parent, OF e]
      arg_cong [where f = th_last_scheduled_tick, OF e]
      arg_cong [where f = th_num_kernel_waiters, OF e]
      arg_cong [where f = th_schedule_count, OF e]
      arg_cong [where f = th_dummy_runnable, OF e] by simp_all
qed

lemma relinked_links_only: "relinked c X ths ths' \<Longrightarrow> links_only ths ths'"
  by (simp add: relinked_def links_only_def)

lemma pq_rep_update:
  assumes rep: "pq_rep s L" and c: "c < NUM_CPU_CORES" and p: "p \<le> LowestPriority"
    and list: "linked (root' c) (entries_at ths' c) xs'"
    and roots: "\<And>c'. c' \<noteq> c \<Longrightarrow> root' c' = im_queues (queue_of b (fst s)) p c'"
    and links: "relinked c X (snd s) ths'"
    and sep: "\<And>k. k \<noteq> (b, p) \<Longrightarrow> (X \<union> set xs') \<inter> set (L c k) = {}"
    and av: "length av = 1" "bit_set_of av = {q. put_list c (b, p) xs' L c (b, q) \<noteq> []}"
    and q: "im_queues i = (im_queues (queue_of b (fst s)))(p := root')"
      "im_available i = (im_available (queue_of b (fst s)))(c := av)"
  shows "pq_rep (set_queue b i (fst s), ths') (put_list c (b, p) xs' L)"
proof -
  let ?L = "put_list c (b, p) xs' L"
  have r: "\<And>c k. \<not> (c < NUM_CPU_CORES \<and> snd k \<le> LowestPriority) \<Longrightarrow> L c k = []"
    "\<And>c b p. c < NUM_CPU_CORES \<Longrightarrow> p \<le> LowestPriority \<Longrightarrow>
       linked (im_queues (queue_of b (fst s)) p c) (entries_at (snd s) c) (L c (b, p))"
    "\<And>c k k'. k \<noteq> k' \<Longrightarrow> set (L c k) \<inter> set (L c k') = {}"
    "\<And>c b. c < NUM_CPU_CORES \<Longrightarrow> length (im_available (queue_of b (fst s)) c) = 1 \<and>
       bit_set_of (im_available (queue_of b (fst s)) c) = {p. L c (b, p) \<noteq> []}"
    using rep unfolding pq_rep_def by blast+
  have "linked (im_queues (queue_of b' (set_queue b i (fst s))) p' c') (entries_at ths' c') (?L c' (b', p'))"
    if c': "c' < NUM_CPU_CORES" and p': "p' \<le> LowestPriority" for c' b' p'
  proof (cases "c' = c \<and> b' = b \<and> p' = p")
    case True
    then show ?thesis using list by (simp add: q put_list_def)
  next
    case False
    have "entries_at ths' c' x = entries_at (snd s) c' x" if "x \<in> set (L c' (b', p'))" for x
      using links sep [of "(b', p')"] that False by (cases "c' = c") (auto simp: relinked_def entries_at_def)
    moreover have "im_queues (queue_of b' (set_queue b i (fst s))) p' c' = im_queues (queue_of b' (fst s)) p' c'"
      using False roots [of c'] by (auto simp: q)
    ultimately show ?thesis using linked_cong [OF _ r(2) [OF c' p']] False by (auto simp: put_list_def)
  qed
  moreover have "set (?L c' k) \<inter> set (?L c' k') = {}" if "k \<noteq> k'" for c' k k'
    using r(3) [OF that] sep [of k] sep [of k'] that by (auto simp: put_list_def Int_commute)
  moreover have "length (im_available (queue_of b' (set_queue b i (fst s))) c') = 1 \<and>
      bit_set_of (im_available (queue_of b' (set_queue b i (fst s))) c') = {q. ?L c' (b', q) \<noteq> []}"
    if "c' < NUM_CPU_CORES" for c' b'
    using av r(4) [OF that] by (auto simp: q put_list_def)
  moreover have "?L c' k = []" if "\<not> (c' < NUM_CPU_CORES \<and> snd k \<le> LowestPriority)" for c' k
    using r(1) [OF that] that c p by (auto simp: put_list_def)
  ultimately show ?thesis unfolding pq_rep_def by simp
qed

lemma pq_rep_parts:
  assumes "pq_rep s L"
  shows "c < NUM_CPU_CORES \<Longrightarrow> p \<le> LowestPriority \<Longrightarrow>
      linked (im_queues (queue_of b (fst s)) p c) (entries_at (snd s) c) (L c (b, p))"
    "k \<noteq> k' \<Longrightarrow> set (L c k) \<inter> set (L c k') = {}"
    "c < NUM_CPU_CORES \<Longrightarrow> length (im_available (queue_of b (fst s)) c) = 1"
    "c < NUM_CPU_CORES \<Longrightarrow> bit_set_of (im_available (queue_of b (fst s)) c) = {p. L c (b, p) \<noteq> []}"
    "distinct (L c k)" "x \<in> set (L c k) \<Longrightarrow> c < NUM_CPU_CORES \<and> snd k \<le> LowestPriority"
proof -
  show "c < NUM_CPU_CORES \<Longrightarrow> p \<le> LowestPriority \<Longrightarrow>
      linked (im_queues (queue_of b (fst s)) p c) (entries_at (snd s) c) (L c (b, p))"
    "k \<noteq> k' \<Longrightarrow> set (L c k) \<inter> set (L c k') = {}"
    "c < NUM_CPU_CORES \<Longrightarrow> length (im_available (queue_of b (fst s)) c) = 1"
    "c < NUM_CPU_CORES \<Longrightarrow> bit_set_of (im_available (queue_of b (fst s)) c) = {p. L c (b, p) \<noteq> []}"
    using assms unfolding pq_rep_def by blast+
  have empty: "\<not> (c < NUM_CPU_CORES \<and> snd k \<le> LowestPriority) \<Longrightarrow> L c k = []" for c k
    using assms unfolding pq_rep_def by blast
  show "x \<in> set (L c k) \<Longrightarrow> c < NUM_CPU_CORES \<and> snd k \<le> LowestPriority" using empty [of c k] by (metis empty_iff list.set(1))
  show "distinct (L c k)"
  proof (cases "c < NUM_CPU_CORES \<and> snd k \<le> LowestPriority")
    case True
    then have "linked (im_queues (queue_of (fst k) (fst s)) (snd k) c) (entries_at (snd s) c) (L c (fst k, snd k))"
      using assms unfolding pq_rep_def by blast
    then show ?thesis by (simp add: linked_def)
  qed (simp add: empty)
qed

definition unlisted :: "thread \<Rightarrow> lists \<Rightarrow> nat \<Rightarrow> bool" where
  "unlisted m L c \<longleftrightarrow> (\<forall>k. m \<notin> set (L c k))"

lemma available_insert:
  assumes "pq_rep s L" "c < NUM_CPU_CORES" "p \<le> LowestPriority" "xs \<noteq> []"
  shows "bit_set_of (if L c (b, p) = [] then BitSet_SetBit p (im_available (queue_of b (fst s)) c)
      else im_available (queue_of b (fst s)) c) = {q. put_list c (b, p) xs L c (b, q) \<noteq> []}"
    "length (if L c (b, p) = [] then BitSet_SetBit p (im_available (queue_of b (fst s)) c)
      else im_available (queue_of b (fst s)) c) = 1"
  using pq_rep_parts(3,4) [OF assms(1,2), of b] assms(3,4)
  by (auto simp: put_list_def bit_set_of_update LowestPriority_def)

lemma available_remove:
  assumes "pq_rep s L" "c < NUM_CPU_CORES" "p \<le> LowestPriority" "L c (b, p) \<noteq> []"
  shows "bit_set_of (if xs = [] then BitSet_ClearBit p (im_available (queue_of b (fst s)) c)
      else im_available (queue_of b (fst s)) c) = {q. put_list c (b, p) xs L c (b, q) \<noteq> []}"
    "length (if xs = [] then BitSet_ClearBit p (im_available (queue_of b (fst s)) c)
      else im_available (queue_of b (fst s)) c) = 1"
  using pq_rep_parts(3,4) [OF assms(1,2), of b] assms(3,4)
  by (auto simp: put_list_def bit_set_of_update LowestPriority_def)

lemma rep_insert:
  assumes rep: "pq_rep s L" and c: "c < NUM_CPU_CORES" and p: "p \<le> LowestPriority" and m: "unlisted m L c"
    and first: "first \<longleftrightarrow> L c (b, p) = []" and xs: "set xs = insert m (set (L c (b, p)))"
    and list: "linked (root' c) (entries_at ths' c) xs"
    and roots: "\<forall>c'. c' \<noteq> c \<longrightarrow> root' c' = im_queues (queue_of b (fst s)) p c'"
    and links: "relinked c (insert m (set (L c (b, p)))) (snd s) ths'"
    and i: "i = put_queue p root' (queue_of b (fst s))"
      "i' = (if first then i \<lparr> im_available := (im_available i)(c := BitSet_SetBit p (im_available i c)) \<rparr> else i)"
  shows "pq_rep (set_queue b i' (fst s), ths') (put_list c (b, p) xs L)" "links_only (snd s) ths'"
proof -
  let ?i = "queue_of b (fst s)"
  let ?av = "if L c (b, p) = [] then BitSet_SetBit p (im_available ?i c) else im_available ?i c"
  have sep: "(insert m (set (L c (b, p))) \<union> set xs) \<inter> set (L c k) = {}" if "k \<noteq> (b, p)" for k
    using pq_rep_parts(2) [OF rep that [symmetric], of c] m unfolding unlisted_def xs by blast
  have ne: "xs \<noteq> []" using xs by auto
  show "pq_rep (set_queue b i' (fst s), ths') (put_list c (b, p) xs L)"
  proof (rule pq_rep_update [OF rep c p list roots [rule_format] links sep])
    show "bit_set_of ?av = {q. put_list c (b, p) xs L c (b, q) \<noteq> []}" "length ?av = 1"
      by (rule available_insert [OF rep c p ne])+
    show "im_queues i' = (im_queues ?i)(p := root')" "im_available i' = (im_available ?i)(c := ?av)"
      using first by (auto simp: i put_queue_def)
  qed
  show "links_only (snd s) ths'" by (rule relinked_links_only [OF links])
qed

lemma rep_PushBack:
  assumes rep: "pq_rep s L" and c: "c < NUM_CPU_CORES" and p: "p \<le> LowestPriority" and m: "unlisted m L c"
  shows "pq_rep (on_queue b (Impl_PushBack p c m) s) (put_list c (b, p) (L c (b, p) @ [m]) L)"
    "links_only (snd s) (snd (on_queue b (Impl_PushBack p c m) s))"
proof -
  obtain first root' ths' where push: "PerCore_PushBack c m (im_queues (queue_of b (fst s)) p, snd s) = (first, root', ths')"
    by (metis surj_pair)
  have m': "m \<notin> set (L c (b, p))" using m by (simp add: unlisted_def)
  note spec = PerCore_PushBack_spec [OF pq_rep_parts(1) [OF rep c p] m' push]
  have set: "set (L c (b, p) @ [m]) = insert m (set (L c (b, p)))" by simp
  have roots: "\<forall>c'. c' \<noteq> c \<longrightarrow> root' c' = im_queues (queue_of b (fst s)) p c'" using spec(3) by blast
  note ins = rep_insert [OF rep c p m spec(1) set spec(2) roots spec(4) refl refl]
  have "on_queue b (Impl_PushBack p c m) s = (set_queue b
      (let i = put_queue p root' (queue_of b (fst s))
       in if first then i \<lparr> im_available := (im_available i)(c := BitSet_SetBit p (im_available i c)) \<rparr> else i) (fst s), ths')"
    using p push by (simp add: on_queue_eq Impl_PushBack_def Let_def)
  then show "pq_rep (on_queue b (Impl_PushBack p c m) s) (put_list c (b, p) (L c (b, p) @ [m]) L)"
    "links_only (snd s) (snd (on_queue b (Impl_PushBack p c m) s))"
    using ins by (simp_all only: Let_def snd_conv)
qed

lemma rep_PushFront:
  assumes rep: "pq_rep s L" and c: "c < NUM_CPU_CORES" and p: "p \<le> LowestPriority" and m: "unlisted m L c"
  shows "pq_rep (on_queue b (Impl_PushFront p c m) s) (put_list c (b, p) (m # L c (b, p)) L)"
    "links_only (snd s) (snd (on_queue b (Impl_PushFront p c m) s))"
proof -
  obtain first root' ths' where push: "PerCore_PushFront c m (im_queues (queue_of b (fst s)) p, snd s) = (first, root', ths')"
    by (metis surj_pair)
  have m': "m \<notin> set (L c (b, p))" using m by (simp add: unlisted_def)
  note spec = PerCore_PushFront_spec [OF pq_rep_parts(1) [OF rep c p] m' push]
  have set: "set (m # L c (b, p)) = insert m (set (L c (b, p)))" by simp
  have roots: "\<forall>c'. c' \<noteq> c \<longrightarrow> root' c' = im_queues (queue_of b (fst s)) p c'" using spec(3) by blast
  note ins = rep_insert [OF rep c p m spec(1) set spec(2) roots spec(4) refl refl]
  have "on_queue b (Impl_PushFront p c m) s = (set_queue b
      (let i = put_queue p root' (queue_of b (fst s))
       in if first then i \<lparr> im_available := (im_available i)(c := BitSet_SetBit p (im_available i c)) \<rparr> else i) (fst s), ths')"
    using p push by (simp add: on_queue_eq Impl_PushFront_def Let_def)
  then show "pq_rep (on_queue b (Impl_PushFront p c m) s) (put_list c (b, p) (m # L c (b, p)) L)"
    "links_only (snd s) (snd (on_queue b (Impl_PushFront p c m) s))"
    using ins by (simp_all only: Let_def snd_conv)
qed

lemma rep_Remove:
  assumes rep: "pq_rep s L" and m: "m \<in> set (L c (b, p))"
  shows "pq_rep (on_queue b (Impl_Remove p c m) s) (put_list c (b, p) (remove1 m (L c (b, p))) L)"
    "links_only (snd s) (snd (on_queue b (Impl_Remove p c m) s))"
proof -
  have cp: "c < NUM_CPU_CORES" "p \<le> LowestPriority" using pq_rep_parts(6) [OF rep m] by simp_all
  let ?i = "queue_of b (fst s)" and ?xs = "L c (b, p)"
  obtain ys zs where xs: "?xs = ys @ m # zs" using split_list [OF m] by blast
  have rm: "remove1 m ?xs = ys @ zs" using pq_rep_parts(5) [OF rep, of c "(b, p)"] by (simp add: xs remove1_append)
  obtain none root' ths' where rem: "PerCore_Remove c m (im_queues ?i p, snd s) = (none, root', ths')" by (metis surj_pair)
  note spec = PerCore_Remove_spec [OF pq_rep_parts(1) [OF rep cp, of b, unfolded xs] rem]
  let ?av = "if ys @ zs = [] then BitSet_ClearBit p (im_available ?i c) else im_available ?i c"
  define i' where "i' = (if none then put_queue p root' ?i \<lparr> im_available := (im_available ?i)(c := BitSet_ClearBit p (im_available ?i c)) \<rparr>
    else put_queue p root' ?i)"
  have on: "on_queue b (Impl_Remove p c m) s = (set_queue b i' (fst s), ths')"
    using cp(2) rem by (simp add: on_queue_eq Impl_Remove_def i'_def put_queue_def)
  have sep: "(set ys \<union> set zs \<union> set (ys @ zs)) \<inter> set (L c k) = {}" if "k \<noteq> (b, p)" for k
    using pq_rep_parts(2) [OF rep, of "(b, p)" k c] that xs by auto
  show "pq_rep (on_queue b (Impl_Remove p c m) s) (put_list c (b, p) (remove1 m ?xs) L)"
    unfolding on rm
  proof (rule pq_rep_update [where root' = root', OF rep cp spec(2) _ spec(4) sep])
    show "root' c' = im_queues ?i p c'" if "c' \<noteq> c" for c' by (rule spec(3) [OF that])
    show "bit_set_of ?av = {q. put_list c (b, p) (ys @ zs) L c (b, q) \<noteq> []}" "length ?av = 1"
      by (rule available_remove [OF rep cp], simp add: xs)+
    show "im_queues i' = (im_queues ?i)(p := root')" "im_available i' = (im_available ?i)(c := ?av)"
      using spec(1) by (auto simp: i'_def put_queue_def)
  qed
  show "links_only (snd s) (snd (on_queue b (Impl_Remove p c m) s))"
    using relinked_links_only [OF spec(4)] by (simp add: on)
qed

text \<open>Moving within a queue.\<close>

lemma rep_MoveToBack:
  assumes rep: "pq_rep s L" and m: "m \<in> set (L c (False, p))"
    and move: "Impl_MoveToBack p c m (pq_scheduled (fst s), snd s) = (next, i, ths)"
  shows "pq_rep (fst s \<lparr> pq_scheduled := i \<rparr>, ths) (put_list c (False, p) (remove1 m (L c (False, p)) @ [m]) L)"
    "links_only (snd s) ths" "next = hd_opt (remove1 m (L c (False, p)) @ [m])"
proof -
  have cp: "c < NUM_CPU_CORES" "p \<le> LowestPriority" using pq_rep_parts(6) [OF rep m] by simp_all
  let ?i = "pq_scheduled (fst s)" and ?xs = "L c (False, p)"
  obtain ys zs where xs: "?xs = ys @ m # zs" using split_list [OF m] by blast
  have d: "distinct ?xs" by (rule pq_rep_parts(5) [OF rep])
  have rm: "remove1 m ?xs = ys @ zs" using d by (simp add: xs remove1_append)
  have old: "linked (im_queues ?i p c) (entries_at (snd s) c) (ys @ m # zs)"
    using pq_rep_parts(1) [OF rep cp, of False] by (simp add: queue_of_def xs)
  obtain none q1 ths1 where rem: "PerCore_Remove c m (im_queues ?i p, snd s) = (none, q1, ths1)" by (metis surj_pair)
  obtain first q ths2 where push: "PerCore_PushBack c m (q1, ths1) = (first, q, ths2)" by (metis surj_pair)
  note s1 = PerCore_Remove_spec [OF old rem]
  have m1: "m \<notin> set (ys @ zs)" using d by (simp add: xs)
  note s2 = PerCore_PushBack_spec [OF s1(2) m1 push]
  have r: "next = PerCore_GetFront c q" "i = put_queue p q ?i" "ths = ths2"
    using move rem push cp(2) by (simp_all add: Impl_MoveToBack_def)
  have links: "relinked c (set ?xs) (snd s) ths"
    using s1(4) s2(4) unfolding r(3) relinked_def by (auto simp: xs) (metis KThread.update_convs(1) KThread.surjective)
  let ?xs' = "remove1 m ?xs @ [m]"
  have "pq_rep (set_queue False i (fst s), ths) (put_list c (False, p) ?xs' L)"
  proof (rule pq_rep_update [where root' = q and av = "im_available ?i c", OF rep cp _ _ links])
    show "linked (q c) (entries_at ths c) ?xs'" using s2(2) by (simp add: r rm)
    show "q c' = im_queues (queue_of False (fst s)) p c'" if "c' \<noteq> c" for c'
      using s1(3) [OF that] s2(3) [OF that] by (simp add: queue_of_def)
    show "(set ?xs \<union> set ?xs') \<inter> set (L c k) = {}" if "k \<noteq> (False, p)" for k
      using pq_rep_parts(2) [OF rep that [symmetric], of c] m set_remove1_subset [of m ?xs] by auto
    show "length (im_available ?i c) = 1" using pq_rep_parts(3) [OF rep cp(1), of False] by (simp add: queue_of_def)
    have "?xs \<noteq> []" by (simp add: xs)
    then have "{q. put_list c (False, p) ?xs' L c (False, q) \<noteq> []} = {q. L c (False, q) \<noteq> []}" by (auto simp: put_list_def)
    then show "bit_set_of (im_available ?i c) = {q. put_list c (False, p) ?xs' L c (False, q) \<noteq> []}"
      using pq_rep_parts(4) [OF rep cp(1), of False] by (simp only: queue_of_def if_False)
    show "im_queues i = (im_queues (queue_of False (fst s)))(p := q)"
      "im_available i = (im_available (queue_of False (fst s)))(c := im_available ?i c)"
      by (simp_all add: r put_queue_def queue_of_def)
  qed
  then show "pq_rep (fst s \<lparr> pq_scheduled := i \<rparr>, ths) (put_list c (False, p) ?xs' L)" by (simp add: set_queue_def)
  show "links_only (snd s) ths" by (rule relinked_links_only [OF links])
  show "next = hd_opt ?xs'" using s2(2) by (simp add: r PerCore_GetFront_def linked_def rm)
qed

section \<open>Looking at the queues\<close>

text \<open>The threads of a core in one kind of queue, in the order of their priorities.\<close>

definition in_order :: "lists \<Rightarrow> nat \<Rightarrow> bool \<Rightarrow> thread list" where
  "in_order L c b = concat (map (\<lambda>p. L c (b, p)) [0..<LowestPriority + 1])"

lemma hd_opt_concat:
  assumes "a \<le> p" "p < b" "f p \<noteq> []" "\<And>q. a \<le> q \<Longrightarrow> q < p \<Longrightarrow> f q = []"
  shows "hd_opt (concat (map f [a..<b])) = hd_opt (f p)"
proof -
  have "[a..<b] = [a..<p] @ p # [p + 1..<b]"
    using assms(1,2) upt_add_eq_append [of a p "b - p"] by (simp add: upt_conv_Cons)
  moreover have "concat (map f [a..<p]) = []" using assms(4) by simp
  ultimately have "concat (map f [a..<b]) = f p @ concat (map f [p + 1..<b])" by simp
  then show ?thesis using assms(3) by (cases "f p") simp_all
qed

text \<open>The list of the least priority of a set, from a priority on.\<close>

lemma hd_opt_least:
  assumes P: "P = {p. f p \<noteq> []} \<inter> {a..}" and le: "P \<subseteq> {..LowestPriority}"
  shows "hd_opt (concat (map f [a..<LowestPriority + 1])) = (if P = {} then None else hd_opt (f (Min P)))"
    "P \<noteq> {} \<Longrightarrow> Min P \<le> LowestPriority"
proof -
  have fin: "finite P" using le finite_subset by blast
  show "hd_opt (concat (map f [a..<LowestPriority + 1])) = (if P = {} then None else hd_opt (f (Min P)))"
  proof (cases "P = {}")
    case True
    have "f q = []" if "q \<in> set [a..<LowestPriority + 1]" for q
      using True that unfolding P by (auto simp del: upt_Suc)
    then have "concat (map f [a..<LowestPriority + 1]) = []" by (simp only: concat_eq_Nil_conv) (simp del: upt_Suc)
    then show ?thesis using True by (simp del: upt_Suc)
  next
    case False
    have "Min P \<in> P" using Min_in [OF fin False] .
    then have m: "a \<le> Min P" "Min P < LowestPriority + 1" "f (Min P) \<noteq> []" using P le by auto
    have least: "f q = []" if "a \<le> q" "q < Min P" for q
    proof (rule ccontr)
      assume "f q \<noteq> []"
      then have "Min P \<le> q" using that(1) P by (intro Min_le [OF fin]) simp
      then show False using that(2) by simp
    qed
    show ?thesis using hd_opt_concat [where f = f, OF m least] False by (simp del: upt_Suc)
  qed
  show "P \<noteq> {} \<Longrightarrow> Min P \<le> LowestPriority" using Min_in [OF fin] le by blast
qed

lemma listed_priorities:
  assumes "pq_rep s L"
  shows "{p. L c (b, p) \<noteq> []} \<subseteq> {..LowestPriority}"
proof
  fix p
  assume "p \<in> {p. L c (b, p) \<noteq> []}"
  then obtain x where "x \<in> set (L c (b, p))" by (cases "L c (b, p)") auto
  then show "p \<in> {..LowestPriority}" using pq_rep_parts(6) [OF assms] by fastforce
qed

lemma GetFront_at_first:
  assumes rep: "pq_rep s L" and c: "c < NUM_CPU_CORES"
  shows "Impl_GetFront_at p c (queue_of b (fst s)) = hd_opt (L c (b, p))"
proof (cases "p \<le> LowestPriority")
  case True
  then show ?thesis using pq_rep_parts(1) [OF rep c True] by (simp add: linked_def PerCore_GetFront_def Impl_GetFront_at_def)
next
  case False
  then have "L c (b, p) = []" using listed_priorities [OF rep, of c b] by blast
  then show ?thesis using False by (simp add: Impl_GetFront_at_def)
qed

lemma GetFront_first:
  assumes rep: "pq_rep s L" and c: "c < NUM_CPU_CORES"
  shows "Impl_GetFront c (queue_of b (fst s)) = hd_opt (in_order L c b)"
proof -
  let ?P = "{p. L c (b, p) \<noteq> []}"
  have av: "CountLeadingZero (im_available (queue_of b (fst s)) c) = (if ?P = {} then 64 else Min ?P)"
    using CountLeadingZero_least [OF pq_rep_parts(3) [OF rep c]] pq_rep_parts(4) [OF rep c] by simp
  have P: "?P = {p. L c (b, p) \<noteq> []} \<inter> {0..}" by simp
  note first = hd_opt_least [where f = "\<lambda>p. L c (b, p)", OF P listed_priorities [OF rep]]
  show ?thesis
  proof (cases "?P = {}")
    case True
    then have "CountLeadingZero (im_available (queue_of b (fst s)) c) = 64" unfolding av by (rule if_P)
    then show ?thesis using first(1) True unfolding in_order_def if_P [OF True] by (simp only: Impl_GetFront_def Let_def) (simp add: LowestPriority_def)
  next
    case False
    have "CountLeadingZero (im_available (queue_of b (fst s)) c) = Min ?P" unfolding av by (rule if_not_P [OF False])
    then have "Impl_GetFront c (queue_of b (fst s)) = Impl_GetFront_at (Min ?P) c (queue_of b (fst s))"
      by (simp only: Impl_GetFront_def Impl_GetFront_at_def Let_def)
    then show ?thesis unfolding in_order_def first(1) if_not_P [OF False] GetFront_at_first [OF rep c] .
  qed
qed

lemma distinct_in_order:
  assumes "pq_rep s L"
  shows "distinct (in_order L c b)"
proof -
  have "distinct (concat (map (\<lambda>p. L c (b, p)) ps))" if "distinct ps" for ps
    using that
  proof (induction ps)
    case (Cons p ps)
    have "set (L c (b, p)) \<inter> set (L c (b, q)) = {}" if "q \<in> set ps" for q
      using pq_rep_parts(2) [OF assms, of "(b, p)" "(b, q)" c] Cons.prems that by fastforce
    then show ?case using Cons pq_rep_parts(5) [OF assms] by auto
  qed simp
  then show ?thesis unfolding in_order_def using distinct_upt by blast
qed

lemma in_order_split:
  assumes "p \<le> LowestPriority"
  shows "in_order L c b = concat (map (\<lambda>q. L c (b, q)) [0..<p]) @ L c (b, p) @
    concat (map (\<lambda>q. L c (b, q)) [p + 1..<LowestPriority + 1])"
proof -
  have "[0..<LowestPriority + 1] = [0..<p] @ p # [p + 1..<LowestPriority + 1]"
    using assms upt_add_eq_append [of 0 p "LowestPriority + 1 - p"] by (simp add: upt_conv_Cons)
  then show ?thesis by (simp add: in_order_def)
qed

lemma GetNext_later:
  assumes rep: "pq_rep s L" and c: "c < NUM_CPU_CORES" and p: "p \<le> LowestPriority"
  shows "(let q = GetNextSet p (im_available (queue_of b (fst s)) c)
      in if q \<le> LowestPriority then PerCore_GetFront c (im_queues (queue_of b (fst s)) q) else None) =
    hd_opt (concat (map (\<lambda>q. L c (b, q)) [p + 1..<LowestPriority + 1]))"
proof -
  let ?P = "{q. L c (b, q) \<noteq> []} \<inter> {p<..}"
  have p64: "p < 64" using p by (simp add: LowestPriority_def)
  have av: "GetNextSet p (im_available (queue_of b (fst s)) c) = (if ?P = {} then 64 else Min ?P)"
    using GetNextSet_least [OF pq_rep_parts(3) [OF rep c] p64] pq_rep_parts(4) [OF rep c] by simp
  have P: "?P = {q. L c (b, q) \<noteq> []} \<inter> {p + 1..}" by (auto simp: Suc_le_eq)
  have le: "?P \<subseteq> {..LowestPriority}" using listed_priorities [OF rep, of c b] by blast
  note first = hd_opt_least [where f = "\<lambda>q. L c (b, q)", OF P le]
  show ?thesis
  proof (cases "?P = {}")
    case True
    then have "GetNextSet p (im_available (queue_of b (fst s)) c) = 64" unfolding av by (rule if_P)
    then show ?thesis unfolding first(1) if_P [OF True] by (simp add: Let_def LowestPriority_def)
  next
    case False
    then have "hd_opt (L c (b, Min ?P)) = PerCore_GetFront c (im_queues (queue_of b (fst s)) (Min ?P))"
      using GetFront_at_first [OF rep c, of "Min ?P" b] first(2) by (simp add: Impl_GetFront_at_def)
    then show ?thesis unfolding first(1) av using False first(2) by (simp add: Let_def)
  qed
qed

lemma same_priority_next:
  assumes rep: "pq_rep s L" and c: "c < NUM_CPU_CORES" and xs: "L c (b, p) = ys @ m # zs"
  shows "qe_next (th_entries (snd s m) c) = hd_opt zs"
proof -
  have "p \<le> LowestPriority" using pq_rep_parts(6) [OF rep, of m c "(b, p)"] xs by simp
  then have "linked (im_queues (queue_of b (fst s)) p c) (entries_at (snd s) c) (ys @ m # zs)"
    using pq_rep_parts(1) [OF rep c, of p b] by (simp add: xs)
  then show ?thesis by (auto simp: linked_def link_chain_append entries_at_def split: if_splits)
qed

lemma GetNext_successor:
  assumes rep: "pq_rep s L" and c: "c < NUM_CPU_CORES" and m: "in_order L c b = us @ m # vs"
    and prio: "m \<in> set (L c (b, th_priority (snd s m)))"
  shows "Impl_GetNext c m (snd s) (queue_of b (fst s)) = hd_opt vs"
proof -
  let ?p = "th_priority (snd s m)"
  let ?before = "concat (map (\<lambda>q. L c (b, q)) [0..<?p])" and ?after = "concat (map (\<lambda>q. L c (b, q)) [?p + 1..<LowestPriority + 1])"
  obtain ys zs where xs: "L c (b, ?p) = ys @ m # zs" using split_list [OF prio] by blast
  have p: "?p \<le> LowestPriority" using pq_rep_parts(6) [OF rep prio] by simp
  have "us @ m # vs = (?before @ ys) @ m # (zs @ ?after)"
    using in_order_split [OF p, of L c b] m xs by simp
  then have "vs = zs @ ?after"
    using distinct_in_order [OF rep, of c b] unfolding m by (subst (asm) append_Cons_eq_iff) auto
  moreover have "Impl_GetNext c m (snd s) (queue_of b (fst s)) = (case hd_opt zs of Some t \<Rightarrow> Some t | None \<Rightarrow> hd_opt ?after)"
    using same_priority_next [OF rep c xs] GetNext_later [OF rep c p, of b]
    by (simp add: Impl_GetNext_def Let_def split: option.split)
  ultimately show ?thesis by (cases zs) simp_all
qed

end
