(* ===== verification/ThreadPlacement.thy ===== *)
theory ThreadPlacement
  imports PriorityQueueBehaviour
begin

text \<open>
  The operations of the priority queue on a whole thread: a thread that may run is in the scheduled queue of
  its active core and in the suggested queues of the other cores of its affinity mask.
\<close>

section \<open>The place of a thread\<close>

text \<open>The kind of queue of a core that a thread belongs to: scheduled (\<^const>\<open>False\<close>), suggested (\<^const>\<open>True\<close>) or none.\<close>

definition place :: "int \<Rightarrow> u64 \<Rightarrow> nat \<Rightarrow> bool option" where
  "place active affinity c = (if bit affinity c then Some (int c \<noteq> active) else None)"

definition valid_place :: "int \<Rightarrow> u64 \<Rightarrow> bool" where
  "valid_place active affinity \<longleftrightarrow>
     (\<forall>c. bit affinity c \<longrightarrow> c < NUM_CPU_CORES) \<and> (0 \<le> active \<longrightarrow> bit affinity (nat active))"

abbreviation thread_place :: "KThread \<Rightarrow> nat \<Rightarrow> bool option" where
  "thread_place th \<equiv> place (th_core_id th) (th_affinity th)"

text \<open>The lists hold a thread of a priority exactly at a place, or nowhere.\<close>

definition listed_at :: "thread \<Rightarrow> (nat \<Rightarrow> bool option) \<Rightarrow> nat \<Rightarrow> lists \<Rightarrow> bool" where
  "listed_at m pl p L \<longleftrightarrow> (\<forall>c k. m \<in> set (L c k) \<longleftrightarrow> pl c = Some (fst k) \<and> snd k = p)"

abbreviation nowhere :: "thread \<Rightarrow> lists \<Rightarrow> bool" where
  "nowhere m L \<equiv> \<forall>c. unlisted m L c"

text \<open>The lists of all other threads, in their order.\<close>

definition without :: "thread \<Rightarrow> lists \<Rightarrow> lists" where
  "without m L = (\<lambda>c k. remove1 m (L c k))"

section \<open>Steps over several cores\<close>

lemma bit_ClearAffinityBit: "n < 64 \<Longrightarrow> bit (ClearAffinityBit n a) c \<longleftrightarrow> bit a c \<and> c \<noteq> n"
  using bit_imp_le_length [of a c] by (auto simp: ClearAffinityBit_def bit_and_iff bit_not_iff bit_exp_iff)

lemma GetAffinity_bit: "c < 64 \<Longrightarrow> GetAffinity a c \<longleftrightarrow> bit a c"
  by (simp add: GetAffinity_def GetCoreBit_def push_bit_eq_mult bit_iff_and_push_bit_not_eq_0 [of a c])

lemma for_cores_foldl:
  obtains cs where "distinct cs" "set cs = {c. bit a c}" "for_cores f a s = foldl (\<lambda>s c. f c s) s cs"
proof -
  have "\<exists>cs. distinct cs \<and> set cs = {c. bit a c} \<and> for_cores f a s = foldl (\<lambda>s c. f c s) s cs"
  proof (induction f a s rule: for_cores.induct)
    case (1 f a s)
    show ?case
    proof (cases "a = 0")
      case True
      then show ?thesis by (intro exI [of _ "[]"]) (simp add: for_cores.simps)
    next
      case False
      let ?c = "countr_zero a" and ?a = "ClearAffinityBit (countr_zero a) a"
      have nx: "GetNextCore a = (?c, ?a)" by (simp add: GetNextCore_def Let_def)
      obtain cs where cs: "distinct cs" "set cs = {c. bit ?a c}" "for_cores f ?a (f ?c s) = foldl (\<lambda>s c. f c s) (f ?c s) cs"
        using "1.IH" [OF False nx [symmetric] refl] by blast
      have "bit a ?c" "?c < 64" using countr_zero_spec [OF False] by simp_all
      moreover have "bit ?a c \<longleftrightarrow> bit a c \<and> c \<noteq> ?c" for c
        by (rule bit_ClearAffinityBit [OF \<open>?c < 64\<close>])
      ultimately show ?thesis using cs False by (intro exI [of _ "?c # cs"]) (auto simp: for_cores.simps [of f a] nx)
    qed
  qed
  then show ?thesis using that by blast
qed

lemma foldl_cores:
  assumes step: "\<And>s L c. pq_rep s L \<Longrightarrow> Q c (L c) \<Longrightarrow>
      pq_rep (f s c) (L(c := h c (L c))) \<and> links_only (snd s) (snd (f s c))"
    and rep: "pq_rep s L" and cs: "distinct cs" "\<And>c. c \<in> set cs \<Longrightarrow> Q c (L c)"
  shows "pq_rep (foldl f s cs) (\<lambda>c. if c \<in> set cs then h c (L c) else L c) \<and> links_only (snd s) (snd (foldl f s cs))"
  using rep cs
proof (induction cs arbitrary: s L)
  case (Cons c cs)
  let ?L = "L(c := h c (L c))"
  have first: "pq_rep (f s c) ?L" "links_only (snd s) (snd (f s c))" using step [OF Cons.prems(1), of c] Cons.prems(3) by auto
  have d: "c \<notin> set cs" "distinct cs" using Cons.prems(2) by simp_all
  have q: "Q c' (?L c')" if "c' \<in> set cs" for c' using Cons.prems(3) that d(1) by auto
  have "(\<lambda>c'. if c' \<in> set cs then h c' (?L c') else ?L c') = (\<lambda>c'. if c' \<in> set (c # cs) then h c' (L c') else L c')"
    using d(1) by (auto simp: fun_eq_iff)
  then show ?case using Cons.IH [OF first(1) d(2) q] links_only_trans [OF first(2)] by auto
qed simp

section \<open>Operations on a whole thread\<close>

definition to_back :: "thread \<Rightarrow> nat \<Rightarrow> bool \<Rightarrow> (bool \<times> nat \<Rightarrow> thread list) \<Rightarrow> bool \<times> nat \<Rightarrow> thread list" where
  "to_back m p b K = K((b, p) := K (b, p) @ [m])"

definition to_front :: "thread \<Rightarrow> nat \<Rightarrow> bool \<Rightarrow> (bool \<times> nat \<Rightarrow> thread list) \<Rightarrow> bool \<times> nat \<Rightarrow> thread list" where
  "to_front m p b K = K((b, p) := m # K (b, p))"

definition taken :: "thread \<Rightarrow> nat \<Rightarrow> bool \<Rightarrow> (bool \<times> nat \<Rightarrow> thread list) \<Rightarrow> bool \<times> nat \<Rightarrow> thread list" where
  "taken m p b K = K((b, p) := remove1 m (K (b, p)))"

definition at_place ::
    "(nat \<Rightarrow> bool option) \<Rightarrow> (bool \<Rightarrow> (bool \<times> nat \<Rightarrow> thread list) \<Rightarrow> bool \<times> nat \<Rightarrow> thread list) \<Rightarrow> lists \<Rightarrow> lists" where
  "at_place pl F L = (\<lambda>c. case pl c of None \<Rightarrow> L c | Some b \<Rightarrow> F b (L c))"

definition absent :: "thread \<Rightarrow> nat \<Rightarrow> (bool \<times> nat \<Rightarrow> thread list) \<Rightarrow> bool" where
  "absent m c K \<longleftrightarrow> c < NUM_CPU_CORES \<and> (\<forall>k. m \<notin> set (K k))"

lemma core_PushBack:
  assumes "p \<le> LowestPriority" "pq_rep s L" "absent m c (L c)"
  shows "pq_rep (on_queue b (Impl_PushBack p c m) s) (L(c := to_back m p b (L c))) \<and>
    links_only (snd s) (snd (on_queue b (Impl_PushBack p c m) s))"
  using rep_PushBack [OF assms(2) _ assms(1), of c m b] assms(3)
  by (simp add: absent_def unlisted_def to_back_def put_list_def)

lemma core_PushFront:
  assumes "p \<le> LowestPriority" "pq_rep s L" "absent m c (L c)"
  shows "pq_rep (on_queue b (Impl_PushFront p c m) s) (L(c := to_front m p b (L c))) \<and>
    links_only (snd s) (snd (on_queue b (Impl_PushFront p c m) s))"
  using rep_PushFront [OF assms(2) _ assms(1), of c m b] assms(3)
  by (simp add: absent_def unlisted_def to_front_def put_list_def)

lemma core_Remove:
  assumes "pq_rep s L" "m \<in> set (L c (b, p))"
  shows "pq_rep (on_queue b (Impl_Remove p c m) s) (L(c := taken m p b (L c))) \<and>
    links_only (snd s) (snd (on_queue b (Impl_Remove p c m) s))"
  using rep_Remove [OF assms] by (simp add: taken_def put_list_def)

lemma place_op:
  assumes act: "\<And>s L c. pq_rep s L \<Longrightarrow> Q False c (L c) \<Longrightarrow>
      pq_rep (on_queue False (g c) s) (L(c := F False (L c))) \<and> links_only (snd s) (snd (on_queue False (g c) s))"
    and sug: "\<And>s L c. pq_rep s L \<Longrightarrow> Q True c (L c) \<Longrightarrow>
      pq_rep (on_queue True (g' c) s) (L(c := F True (L c))) \<and> links_only (snd s) (snd (on_queue True (g' c) s))"
    and rep: "pq_rep s L" and valid: "valid_place (th_core_id (snd s m)) (th_affinity (snd s m))"
    and q: "\<And>c b. thread_place (snd s m) c = Some b \<Longrightarrow> Q b c (L c)"
    and res: "r = (let (a, s1) = active_core_step g m s in for_cores (\<lambda>c. on_suggested (g' c)) a s1)"
  shows "pq_rep r (at_place (thread_place (snd s m)) F L) \<and> links_only (snd s) (snd r)"
proof -
  let ?core = "th_core_id (snd s m)" and ?aff = "th_affinity (snd s m)"
  define a s1 where "a = fst (active_core_step g m s)" and "s1 = snd (active_core_step g m s)"
  define L1 where "L1 = (if 0 \<le> ?core then L(nat ?core := F False (L (nat ?core))) else L)"
  have core: "bit ?aff (nat ?core)" "nat ?core < 64" if "0 \<le> ?core"
    using that valid bit_imp_le_length [of ?aff "nat ?core"] by (auto simp: valid_place_def)
  have a: "bit a c \<longleftrightarrow> bit ?aff c \<and> int c \<noteq> ?core" for c
    using core(2) bit_ClearAffinityBit [of "nat ?core" ?aff c] by (auto simp: a_def active_core_step_def Let_def)
  have s1: "pq_rep s1 L1 \<and> links_only (snd s) (snd s1)"
    using act [OF rep, of "nat ?core"] q [of "nat ?core" False] core rep
    by (auto simp: s1_def L1_def active_core_step_def Let_def place_def on_queue_def)
  obtain cs where cs: "distinct cs" "set cs = {c. bit a c}"
      "for_cores (\<lambda>c. on_suggested (g' c)) a s1 = foldl (\<lambda>s c. on_suggested (g' c) s) s1 cs"
    using for_cores_foldl [where f = "\<lambda>c. on_suggested (g' c)" and a = a and s = s1] by metis
  have r: "r = foldl (\<lambda>s c. on_suggested (g' c) s) s1 cs"
    using res cs(3) by (simp add: a_def s1_def Let_def case_prod_beta)
  have q1: "Q True c (L1 c)" if "c \<in> set cs" for c
    using q [of c True] that a [of c] by (auto simp: cs(2) L1_def place_def)
  have "pq_rep r (\<lambda>c. if c \<in> set cs then F True (L1 c) else L1 c) \<and> links_only (snd s1) (snd r)"
    unfolding r by (rule foldl_cores [where Q = "Q True" and h = "\<lambda>c. F True", OF _ conjunct1 [OF s1] cs(1) q1])
      (use sug in \<open>simp_all add: on_queue_def\<close>)
  moreover have "(\<lambda>c. if c \<in> set cs then F True (L1 c) else L1 c) = at_place (thread_place (snd s m)) F L"
    using core by (auto simp: fun_eq_iff cs(2) a L1_def at_place_def place_def)
  ultimately show ?thesis using s1 links_only_trans by auto
qed

text \<open>The effect on the lists.\<close>

definition all_distinct :: "lists \<Rightarrow> bool" where
  "all_distinct L \<longleftrightarrow> (\<forall>c k. distinct (L c k))"

lemma pq_rep_distinct: "pq_rep s L \<Longrightarrow> all_distinct L"
  using pq_rep_parts(5) by (simp add: all_distinct_def)

definition front_or_back :: "bool \<Rightarrow> thread \<Rightarrow> nat \<Rightarrow> bool \<Rightarrow> (bool \<times> nat \<Rightarrow> thread list) \<Rightarrow> bool \<times> nat \<Rightarrow> thread list" where
  "front_or_back f m p b = (if f \<and> \<not> b then to_front m p b else to_back m p b)"

lemma nowhere_without: "all_distinct L \<Longrightarrow> nowhere m (without m L)"
  by (simp add: unlisted_def without_def all_distinct_def)

lemma without_nowhere: "nowhere m L \<Longrightarrow> without m L = L"
  by (simp add: unlisted_def without_def fun_eq_iff remove1_idem)

lemma taken_without:
  assumes "listed_at m pl p L"
  shows "at_place pl (taken m p) L = without m L"
proof (intro ext)
  fix c k
  show "at_place pl (taken m p) L c k = without m L c k"
  proof (cases "m \<in> set (L c k)")
    case True
    then have "pl c = Some (fst k)" "snd k = p" using assms unfolding listed_at_def by blast+
    then show ?thesis by (cases k) (simp add: at_place_def taken_def without_def)
  next
    case False
    then show ?thesis by (cases "pl c") (auto simp: at_place_def taken_def without_def remove1_idem)
  qed
qed

lemma inserted_at_place:
  assumes "nowhere m L"
  shows "listed_at m pl p (at_place pl (front_or_back f m p) L)" "without m (at_place pl (front_or_back f m p) L) = L"
proof -
  have m: "m \<notin> set (L c k)" for c k using assms unfolding unlisted_def by blast
  show "listed_at m pl p (at_place pl (front_or_back f m p) L)"
    unfolding listed_at_def
  proof (intro allI)
    fix c and k :: "bool \<times> nat"
    show "m \<in> set (at_place pl (front_or_back f m p) L c k) \<longleftrightarrow> pl c = Some (fst k) \<and> snd k = p"
      using m by (cases k; cases "pl c") (auto simp: at_place_def front_or_back_def to_front_def to_back_def)
  qed
  show "without m (at_place pl (front_or_back f m p) L) = L"
  proof (intro ext)
    fix c k
    show "without m (at_place pl (front_or_back f m p) L) c k = L c k"
      using m by (cases "pl c") (auto simp: without_def at_place_def front_or_back_def to_front_def to_back_def remove1_append remove1_idem)
  qed
qed

lemma PQ_Push_at_rep:
  assumes rep: "pq_rep s L" and valid: "valid_place (th_core_id (snd s m)) (th_affinity (snd s m))"
    and p: "p \<le> LowestPriority" and m: "nowhere m L"
  shows "pq_rep (if f then PQ_PushFront_at p m s else PQ_PushBack_at p m s)
      (at_place (thread_place (snd s m)) (front_or_back f m p) L)"
    "links_only (snd s) (snd (if f then PQ_PushFront_at p m s else PQ_PushBack_at p m s))"
proof -
  let ?r = "if f then PQ_PushFront_at p m s else PQ_PushBack_at p m s"
  have q: "absent m c (L c)" if "thread_place (snd s m) c = Some b" for c b
    using that m valid by (auto simp: absent_def unlisted_def valid_place_def place_def split: if_splits)
  have "pq_rep ?r (at_place (thread_place (snd s m)) (front_or_back f m p) L) \<and> links_only (snd s) (snd ?r)"
  proof (rule place_op [where Q = "\<lambda>b. absent m" and g = "\<lambda>c. if f then Impl_PushFront p c m else Impl_PushBack p c m"
        and g' = "\<lambda>c. Impl_PushBack p c m", OF _ _ rep valid q])
    show "?r = (let (a, s1) = active_core_step (\<lambda>c. if f then Impl_PushFront p c m else Impl_PushBack p c m) m s
        in for_cores (\<lambda>c. on_suggested (Impl_PushBack p c m)) a s1)"
      by (simp add: PQ_PushFront_at_def PQ_PushBack_at_def)
  qed (use core_PushFront [OF p] core_PushBack [OF p] in \<open>auto simp: front_or_back_def\<close>)
  then show "pq_rep ?r (at_place (thread_place (snd s m)) (front_or_back f m p) L)" "links_only (snd s) (snd ?r)" by blast+
qed

lemma PQ_Remove_at_rep:
  assumes rep: "pq_rep s L" and valid: "valid_place (th_core_id (snd s m)) (th_affinity (snd s m))"
    and m: "listed_at m (thread_place (snd s m)) p L"
  shows "pq_rep (PQ_Remove_at p m s) (without m L)" "links_only (snd s) (snd (PQ_Remove_at p m s))"
proof -
  have q: "m \<in> set (L c (b, p))" if "thread_place (snd s m) c = Some b" for c b
    using that m by (simp add: listed_at_def)
  have "pq_rep (PQ_Remove_at p m s) (at_place (thread_place (snd s m)) (taken m p) L) \<and>
      links_only (snd s) (snd (PQ_Remove_at p m s))"
    by (rule place_op [where Q = "\<lambda>b c K. m \<in> set (K (b, p))" and g = "\<lambda>c. Impl_Remove p c m" and g' = "\<lambda>c. Impl_Remove p c m",
          OF _ _ rep valid q])
      (simp_all only: core_Remove PQ_Remove_at_def)
  then show "pq_rep (PQ_Remove_at p m s) (without m L)" "links_only (snd s) (snd (PQ_Remove_at p m s))"
    by (simp_all add: taken_without [OF m])
qed

text \<open>A priority below the lowest one has no queue.\<close>

lemma on_queue_unchanged: "(\<And>x. f x = x) \<Longrightarrow> on_scheduled f s = s" "(\<And>x. f x = x) \<Longrightarrow> on_suggested f s = s"
  by (simp_all add: on_scheduled_def on_suggested_def)

lemma for_cores_unchanged: "(\<And>c s. f c s = s) \<Longrightarrow> for_cores f a s = s"
  by (induction f a s rule: for_cores.induct) (simp add: for_cores.simps split: prod.split)

lemma no_queue:
  assumes "LowestPriority < p"
  shows "Impl_PushBack p c m x = x" "Impl_PushFront p c m x = x" "Impl_Remove p c m x = x"
    "PQ_PushBack_at p m s = s" "PQ_PushFront_at p m s = s" "PQ_Remove_at p m s = s"
proof -
  show i: "Impl_PushBack p c m x = x" "Impl_PushFront p c m x = x" "Impl_Remove p c m x = x" for c x
    using assms by (simp_all add: Impl_PushBack_def Impl_PushFront_def Impl_Remove_def split: prod.split)
  show "PQ_PushBack_at p m s = s" "PQ_PushFront_at p m s = s" "PQ_Remove_at p m s = s"
    using for_cores_unchanged [of "\<lambda>c. on_suggested (Impl_PushBack p c m)"] for_cores_unchanged [of "\<lambda>c. on_suggested (Impl_Remove p c m)"]
    by (simp_all add: PQ_PushBack_at_def PQ_PushFront_at_def PQ_Remove_at_def active_core_step_def Let_def i on_queue_unchanged)
qed

text \<open>Changes of the priority.\<close>

lemma ChangePriority_rep:
  assumes rep: "pq_rep s L" and valid: "valid_place (th_core_id (snd s m)) (th_affinity (snd s m))"
    and m: "if prev \<le> LowestPriority then listed_at m (thread_place (snd s m)) prev L else nowhere m L"
    and d: "\<not> th_is_dummy (snd s m)"
  shows "pq_rep (ChangePriority prev r m s)
      (if th_priority (snd s m) \<le> LowestPriority
       then at_place (thread_place (snd s m)) (front_or_back r m (th_priority (snd s m))) (without m L) else without m L)"
    "links_only (snd s) (snd (ChangePriority prev r m s))"
proof -
  let ?p = "th_priority (snd s m)" and ?s1 = "PQ_Remove_at prev m s"
  have rem: "pq_rep ?s1 (without m L)" "links_only (snd s) (snd ?s1)"
    using PQ_Remove_at_rep [OF rep valid, of prev] m rep no_queue(6) [of prev m s] without_nowhere [of m L]
    by (cases "prev \<le> LowestPriority"; simp)+
  have same: "th_core_id (snd ?s1 m) = th_core_id (snd s m)" "th_affinity (snd ?s1 m) = th_affinity (snd s m)"
    using links_only_fields [OF rem(2)] by simp_all
  have change: "ChangePriority prev r m s = (if r then PQ_PushFront_at ?p m ?s1 else PQ_PushBack_at ?p m ?s1)"
    using d by (simp add: ChangePriority_def Let_def)
  note push = PQ_Push_at_rep [OF rem(1), of m, unfolded same, OF valid _ nowhere_without [OF pq_rep_distinct [OF rep]], of ?p r]
  show "pq_rep (ChangePriority prev r m s)
      (if ?p \<le> LowestPriority
       then at_place (thread_place (snd s m)) (front_or_back r m ?p) (without m L) else without m L)"
    using push(1) rem(1) no_queue(4,5) [of ?p m ?s1] unfolding change by (cases "?p \<le> LowestPriority") simp_all
  show "links_only (snd s) (snd (ChangePriority prev r m s))"
    using links_only_trans [OF rem(2) push(2)] rem(2) no_queue(4,5) [of ?p m ?s1] unfolding change
    by (cases "?p \<le> LowestPriority") simp_all
qed

text \<open>Changes of the affinity mask.\<close>

lemma leave_core_on_queue:
  assumes "core < NUM_CPU_CORES"
  shows "leave_core p prev aff m s core =
    (case place prev aff core of None \<Rightarrow> s | Some b \<Rightarrow> on_queue b (Impl_Remove p core m) s)"
  using assms by (auto simp: leave_core_def place_def on_queue_def GetAffinity_bit NUM_CPU_CORES_def)

lemma enter_core_on_queue:
  assumes "core < NUM_CPU_CORES"
  shows "enter_core p act aff m s core =
    (case place act aff core of None \<Rightarrow> s | Some b \<Rightarrow> on_queue b (Impl_PushBack p core m) s)"
  using assms by (auto simp: enter_core_def place_def on_queue_def GetAffinity_bit NUM_CPU_CORES_def)

lemma place_at_valid_core: "valid_place act aff \<Longrightarrow> place act aff c = Some b \<Longrightarrow> c < NUM_CPU_CORES"
  by (auto simp: valid_place_def place_def split: if_splits)

lemma leave_cores_rep:
  assumes rep: "pq_rep s L" and valid: "valid_place prev aff" and m: "listed_at m (place prev aff) p L"
  shows "pq_rep (foldl (leave_core p prev aff m) s [0..<NUM_CPU_CORES]) (without m L) \<and>
    links_only (snd s) (snd (foldl (leave_core p prev aff m) s [0..<NUM_CPU_CORES]))"
proof -
  let ?h = "\<lambda>c K. case place prev aff c of None \<Rightarrow> K | Some b \<Rightarrow> taken m p b K"
  let ?Q = "\<lambda>c K. c < NUM_CPU_CORES \<and> (\<forall>b. place prev aff c = Some b \<longrightarrow> m \<in> set (K (b, p)))"
  have q: "?Q c (L c)" if "c \<in> set [0..<NUM_CPU_CORES]" for c using that m by (simp add: listed_at_def)
  have "(\<lambda>c. if c \<in> set [0..<NUM_CPU_CORES] then ?h c (L c) else L c) = at_place (place prev aff) (taken m p) L"
    using place_at_valid_core [OF valid] by (auto simp: fun_eq_iff at_place_def split: option.splits)
  moreover have "pq_rep (foldl (leave_core p prev aff m) s [0..<NUM_CPU_CORES])
        (\<lambda>c. if c \<in> set [0..<NUM_CPU_CORES] then ?h c (L c) else L c) \<and>
      links_only (snd s) (snd (foldl (leave_core p prev aff m) s [0..<NUM_CPU_CORES]))"
  proof (rule foldl_cores [where Q = ?Q and h = ?h, OF _ rep distinct_upt q])
    fix s L c
    assume "pq_rep s L" "?Q c (L c)"
    then show "pq_rep (leave_core p prev aff m s c) (L(c := ?h c (L c))) \<and> links_only (snd s) (snd (leave_core p prev aff m s c))"
      using core_Remove [of s L m c _ p] by (auto simp: leave_core_on_queue split: option.split)
  qed
  ultimately show ?thesis by (simp only: taken_without [OF m])
qed

lemma enter_cores_rep:
  assumes rep: "pq_rep s L" and valid: "valid_place act aff" and p: "p \<le> LowestPriority" and m: "nowhere m L"
  shows "pq_rep (foldl (enter_core p act aff m) s [0..<NUM_CPU_CORES]) (at_place (place act aff) (to_back m p) L) \<and>
    links_only (snd s) (snd (foldl (enter_core p act aff m) s [0..<NUM_CPU_CORES]))"
proof -
  let ?h = "\<lambda>c K. case place act aff c of None \<Rightarrow> K | Some b \<Rightarrow> to_back m p b K"
  have q: "absent m c (L c)" if "c \<in> set [0..<NUM_CPU_CORES]" for c using that m by (simp add: absent_def unlisted_def)
  have "(\<lambda>c. if c \<in> set [0..<NUM_CPU_CORES] then ?h c (L c) else L c) = at_place (place act aff) (to_back m p) L"
    using place_at_valid_core [OF valid] by (auto simp: fun_eq_iff at_place_def split: option.splits)
  moreover have "pq_rep (foldl (enter_core p act aff m) s [0..<NUM_CPU_CORES])
        (\<lambda>c. if c \<in> set [0..<NUM_CPU_CORES] then ?h c (L c) else L c) \<and>
      links_only (snd s) (snd (foldl (enter_core p act aff m) s [0..<NUM_CPU_CORES]))"
  proof (rule foldl_cores [where Q = "absent m" and h = ?h, OF _ rep distinct_upt q])
    fix s L c
    assume "pq_rep s L" "absent m c (L c)"
    then show "pq_rep (enter_core p act aff m s c) (L(c := ?h c (L c))) \<and> links_only (snd s) (snd (enter_core p act aff m s c))"
      using core_PushBack [OF p, of s L m c] by (auto simp: enter_core_on_queue absent_def split: option.split)
  qed
  ultimately show ?thesis by simp
qed

lemma ChangeAffinityMask_rep:
  assumes rep: "pq_rep s L" and valid: "valid_place (th_core_id (snd s m)) (th_affinity (snd s m))"
    and prev: "valid_place prev_core prev_aff"
    and p: "th_priority (snd s m) \<le> LowestPriority" and m: "listed_at m (place prev_core prev_aff) (th_priority (snd s m)) L"
    and d: "\<not> th_is_dummy (snd s m)"
  shows "pq_rep (ChangeAffinityMask prev_core prev_aff m s)
      (at_place (thread_place (snd s m)) (front_or_back False m (th_priority (snd s m))) (without m L))"
    "links_only (snd s) (snd (ChangeAffinityMask prev_core prev_aff m s))"
proof -
  let ?p = "th_priority (snd s m)"
  let ?s1 = "foldl (leave_core ?p prev_core prev_aff m) s [0..<NUM_CPU_CORES]"
  have out: "pq_rep ?s1 (without m L)" "links_only (snd s) (snd ?s1)" using leave_cores_rep [OF rep prev m] by blast+
  have fb: "front_or_back False m ?p = to_back m ?p" by (simp add: front_or_back_def fun_eq_iff)
  note inn = enter_cores_rep [OF out(1) valid p nowhere_without [OF pq_rep_distinct [OF rep]]]
  show "pq_rep (ChangeAffinityMask prev_core prev_aff m s)
      (at_place (thread_place (snd s m)) (front_or_back False m ?p) (without m L))"
    using inn d unfolding ChangeAffinityMask_def Let_def fb by simp
  show "links_only (snd s) (snd (ChangeAffinityMask prev_core prev_aff m s))"
    using links_only_trans [OF out(2)] inn d unfolding ChangeAffinityMask_def Let_def by simp
qed

text \<open>Changes of the active core.\<close>

definition migrated :: "thread \<Rightarrow> nat \<Rightarrow> int \<Rightarrow> int \<Rightarrow> bool \<Rightarrow> lists \<Rightarrow> lists" where
  "migrated m p prev new f L =
     (\<lambda>c. if prev = new then L c
          else if int c = prev then to_back m p True (taken m p False (L c))
          else if int c = new then front_or_back f m p False (taken m p True (L c))
          else L c)"

lemma taken_absent:
  assumes "all_distinct L" "listed_at m pl p L" "pl c = Some b" "c < NUM_CPU_CORES"
  shows "absent m c (taken m p b (L c))"
  unfolding absent_def
proof (intro conjI allI)
  fix k
  have "m \<in> set (L c k) \<Longrightarrow> k = (b, p)" using assms(2,3) unfolding listed_at_def by (cases k) auto
  then show "m \<notin> set (taken m p b (L c) k)" using assms(1) by (auto simp: taken_def all_distinct_def)
qed (rule assms(4))

lemma core_moved:
  assumes rep: "pq_rep s L" and p: "p \<le> LowestPriority" and m: "m \<in> set (L c (b, p))" and only: "absent m c (taken m p b (L c))"
  shows "pq_rep (on_queue b' (Impl_PushBack p c m) (on_queue b (Impl_Remove p c m) s)) (L(c := to_back m p b' (taken m p b (L c))))"
    "pq_rep (on_queue b' (Impl_PushFront p c m) (on_queue b (Impl_Remove p c m) s)) (L(c := to_front m p b' (taken m p b (L c))))"
    "links_only (snd s) (snd (on_queue b' (Impl_PushBack p c m) (on_queue b (Impl_Remove p c m) s)))"
    "links_only (snd s) (snd (on_queue b' (Impl_PushFront p c m) (on_queue b (Impl_Remove p c m) s)))"
proof -
  let ?L = "L(c := taken m p b (L c))"
  have rem: "pq_rep (on_queue b (Impl_Remove p c m) s) ?L" "links_only (snd s) (snd (on_queue b (Impl_Remove p c m) s))"
    using core_Remove [OF rep m] by blast+
  have only': "absent m c (?L c)" using only by simp
  note bk = core_PushBack [OF p rem(1) only', of b'] and fr = core_PushFront [OF p rem(1) only', of b']
  show "pq_rep (on_queue b' (Impl_PushBack p c m) (on_queue b (Impl_Remove p c m) s)) (L(c := to_back m p b' (taken m p b (L c))))"
    "pq_rep (on_queue b' (Impl_PushFront p c m) (on_queue b (Impl_Remove p c m) s)) (L(c := to_front m p b' (taken m p b (L c))))"
    using bk fr by (simp_all only: fun_upd_upd fun_upd_same)
  show "links_only (snd s) (snd (on_queue b' (Impl_PushBack p c m) (on_queue b (Impl_Remove p c m) s)))"
    "links_only (snd s) (snd (on_queue b' (Impl_PushFront p c m) (on_queue b (Impl_Remove p c m) s)))"
    using bk fr links_only_trans [OF rem(2)] by blast+
qed

text \<open>Entering the scheduled queue of the new core.\<close>

lemma enter_scheduled:
  assumes rep: "pq_rep s L" and p: "p \<le> LowestPriority" and m: "m \<in> set (L c (True, p))" and only: "absent m c (taken m p True (L c))"
  shows "pq_rep (on_scheduled (if f then Impl_PushFront p c m else Impl_PushBack p c m) (on_suggested (Impl_Remove p c m) s))
      (L(c := front_or_back f m p False (taken m p True (L c)))) \<and>
    links_only (snd s) (snd (on_scheduled (if f then Impl_PushFront p c m else Impl_PushBack p c m) (on_suggested (Impl_Remove p c m) s)))"
  using core_moved [where b = True and b' = False, OF rep p m only] by (simp add: on_queue_def front_or_back_def)

lemma ChangeCore_steps:
  assumes "prev \<noteq> th_core_id (snd s m)" "\<not> th_is_dummy (snd s m)" "p = th_priority (snd s m)" "new = th_core_id (snd s m)"
  shows "ChangeCore prev m f s =
    (let s1 = (if 0 \<le> prev then on_scheduled (Impl_Remove p (nat prev) m) s else s);
         s2 = (if 0 \<le> new
               then on_scheduled (if f then Impl_PushFront p (nat new) m else Impl_PushBack p (nat new) m)
                      (on_suggested (Impl_Remove p (nat new) m) s1)
               else s1)
     in if 0 \<le> prev then on_suggested (Impl_PushBack p (nat prev) m) s2 else s2)"
  using assms by (simp add: ChangeCore_def Let_def)

lemma ChangeCore_rep:
  assumes rep: "pq_rep s L" and prev: "valid_place prev aff" and new: "valid_place (th_core_id (snd s m)) aff"
    and p: "th_priority (snd s m) \<le> LowestPriority" and m: "listed_at m (place prev aff) (th_priority (snd s m)) L"
    and d: "\<not> th_is_dummy (snd s m)"
  shows "pq_rep (ChangeCore prev m f s) (migrated m (th_priority (snd s m)) prev (th_core_id (snd s m)) f L)"
    "links_only (snd s) (snd (ChangeCore prev m f s))"
proof -
  let ?new = "th_core_id (snd s m)" and ?p = "th_priority (snd s m)"
  have "pq_rep (ChangeCore prev m f s) (migrated m ?p prev ?new f L) \<and> links_only (snd s) (snd (ChangeCore prev m f s))"
  proof (cases "prev = ?new")
    case True
    then show ?thesis using rep d by (simp add: ChangeCore_def migrated_def Let_def)
  next
    case False
    define s1 L1 where "s1 = (if 0 \<le> prev then on_scheduled (Impl_Remove ?p (nat prev) m) s else s)"
      and "L1 = (if 0 \<le> prev then L(nat prev := taken m ?p False (L (nat prev))) else L)"
    define s2 L2 where "s2 = (if 0 \<le> ?new
               then on_scheduled (if f then Impl_PushFront ?p (nat ?new) m else Impl_PushBack ?p (nat ?new) m)
                      (on_suggested (Impl_Remove ?p (nat ?new) m) s1)
               else s1)"
      and "L2 = (if 0 \<le> ?new then L1(nat ?new := front_or_back f m ?p False (taken m ?p True (L1 (nat ?new)))) else L1)"
    have old: "place prev aff (nat prev) = Some False" "nat prev < NUM_CPU_CORES" if "0 \<le> prev"
      using prev that by (auto simp: place_def valid_place_def)
    have to: "place prev aff (nat ?new) = Some True" "nat ?new < NUM_CPU_CORES" "nat ?new \<noteq> nat prev \<or> prev < 0" if "0 \<le> ?new"
      using new that False by (auto simp: place_def valid_place_def)
    have at: "m \<in> set (L c (b, ?p))" if "place prev aff c = Some b" for c b using m that by (simp add: listed_at_def)
    note out = taken_absent [OF pq_rep_distinct [OF rep] m]
    have s1: "pq_rep s1 L1 \<and> links_only (snd s) (snd s1)"
      using core_Remove [OF rep at, of "nat prev" False] old rep by (simp add: s1_def L1_def on_queue_def)
    have same: "L1 (nat ?new) = L (nat ?new)" if "0 \<le> ?new" using to(3) [OF that] by (auto simp: L1_def)
    have s2: "pq_rep s2 L2 \<and> links_only (snd s1) (snd s2)"
    proof (cases "0 \<le> ?new")
      case True
      then show ?thesis
        using enter_scheduled [OF conjunct1 [OF s1] p, of m "nat ?new" f] at [OF to(1)] out [OF to(1) to(2)]
        by (simp add: s2_def L2_def same)
    qed (use s1 in \<open>simp add: s2_def L2_def\<close>)
    have a: "absent m (nat prev) (L2 (nat prev))" if "0 \<le> prev"
      using out [of "nat prev" False] old [OF that] to(3) that by (auto simp: L2_def L1_def)
    have "migrated m ?p prev ?new f L = (if 0 \<le> prev then L2(nat prev := to_back m ?p True (L2 (nat prev))) else L2)"
      using False to(3) by (auto simp: fun_eq_iff migrated_def L2_def L1_def)
    moreover have "ChangeCore prev m f s = (if 0 \<le> prev then on_suggested (Impl_PushBack ?p (nat prev) m) s2 else s2)"
      unfolding ChangeCore_steps [OF False d refl refl] s2_def s1_def Let_def ..
    ultimately show ?thesis
      using core_PushBack [OF p conjunct1 [OF s2] a, of True] s1 s2 links_only_trans [OF conjunct2 [OF s1]]
      by (auto simp: on_queue_def intro: links_only_trans)
  qed
  then show "pq_rep (ChangeCore prev m f s) (migrated m ?p prev ?new f L)" "links_only (snd s) (snd (ChangeCore prev m f s))"
    by blast+
qed

lemma migrated_listed:
  assumes d: "all_distinct L" and m: "listed_at m (place prev aff) p L"
    and prev: "valid_place prev aff" and new: "valid_place new aff"
  shows "listed_at m (place new aff) p (migrated m p prev new f L)"
    "without m (migrated m p prev new f L) = without m L"
proof -
  have at: "m \<in> set (L c k) \<longleftrightarrow> place prev aff c = Some (fst k) \<and> snd k = p" for c k
    using m unfolding listed_at_def by blast
  have dL: "distinct (L c k)" for c k using d unfolding all_distinct_def by blast
  have aff: "0 \<le> prev \<Longrightarrow> bit aff (nat prev)" "0 \<le> new \<Longrightarrow> bit aff (nat new)" using prev new by (simp_all add: valid_place_def)
  show "listed_at m (place new aff) p (migrated m p prev new f L)"
    unfolding listed_at_def
  proof (intro allI)
    fix c and k :: "bool \<times> nat"
    have c: "int c = prev \<Longrightarrow> bit aff c" "int c = new \<Longrightarrow> bit aff c" using aff by auto
    show "m \<in> set (migrated m p prev new f L c k) \<longleftrightarrow> place new aff c = Some (fst k) \<and> snd k = p"
      using c dL by (cases k)
        (auto simp: migrated_def front_or_back_def to_front_def to_back_def taken_def at place_def)
  qed
  show "without m (migrated m p prev new f L) = without m L"
  proof (intro ext)
    fix c k
    have "remove1 m (remove1 m (L c k)) = remove1 m (L c k)" by (rule remove1_idem) (simp add: dL)
    then show "without m (migrated m p prev new f L) c k = without m L c k"
      using at [of c k] aff dL
      by (cases k) (auto simp: without_def migrated_def front_or_back_def to_front_def to_back_def taken_def remove1_append remove1_idem place_def)
  qed
qed

text \<open>Only links change in the threads, so their places stay.\<close>

lemma links_only_place: "links_only ths ths' \<Longrightarrow> thread_place (ths' t) = thread_place (ths t)"
  by (simp add: links_only_fields)

lemma pq_rep_entries:
  assumes "\<And>t. th_entries (ths' t) = th_entries (ths t)"
  shows "pq_rep (q, ths') L \<longleftrightarrow> pq_rep (q, ths) L"
proof -
  have "entries_at ths' = entries_at ths" by (simp add: entries_at_def fun_eq_iff assms)
  then show ?thesis by (simp add: pq_rep_def)
qed

lemma in_other_list:
  assumes "all_distinct L" "all_distinct L'" "without m L' = without m L" "t \<noteq> m"
  shows "t \<in> set (L' c k) \<longleftrightarrow> t \<in> set (L c k)"
proof -
  have "remove1 m (L' c k) = remove1 m (L c k)" using fun_cong [OF fun_cong [OF assms(3)], of c k] by (simp add: without_def)
  then have "set (L' c k) - {m} = set (L c k) - {m}" using assms(1,2) by (metis all_distinct_def set_remove1_eq)
  then show ?thesis using assms(4) by blast
qed

lemma no_queue_affinity:
  assumes "LowestPriority < th_priority (snd s m)"
  shows "ChangeAffinityMask c a m s = s"
proof -
  have "foldl f s cs = s" if "\<And>x c. f x c = x" for f :: "pq_state \<Rightarrow> nat \<Rightarrow> pq_state" and cs s
    using that by (induction cs) simp_all
  then show ?thesis
    using no_queue(1,3) [OF assms] by (simp add: ChangeAffinityMask_def Let_def leave_core_def enter_core_def on_queue_unchanged)
qed

end
