(* ===== verification/SchedulerBehaviour.thy ===== *)
theory SchedulerBehaviour
  imports Scheduler ThreadPlacement Transition
begin

text \<open>
  The scheduler keeps the queues in step with the threads: in every state they hold exactly the threads that may run,
  each in the scheduled queue of its active core and in the suggested queues of the other cores that it may run on,
  at its priority. The loops along the queues return, and every operation of the scheduler keeps this.
\<close>

section \<open>Loops\<close>

fun walk_list :: "(thread \<Rightarrow> 'a \<Rightarrow> 'a + 'r) \<Rightarrow> thread list \<Rightarrow> 'a \<Rightarrow> 'a + 'r" where
  "walk_list body [] acc = Inl acc"
| "walk_list body (t # ts) acc = (case body t acc of Inl acc' \<Rightarrow> walk_list body ts acc' | Inr r \<Rightarrow> Inr r)"

lemma walk_returns:
  assumes "\<And>ys t zs. xs = ys @ t # zs \<Longrightarrow> advance t = hd_opt zs"
  shows "walk advance body (hd_opt xs) acc = Some (walk_list body xs acc)"
  using assms
proof (induction xs arbitrary: acc)
  case Nil
  then show ?case by (simp add: walk.simps)
next
  case (Cons x xs)
  have "advance t = hd_opt zs" if "xs = ys @ t # zs" for ys t zs using Cons.prems [of "x # ys" t zs] that by simp
  then have "walk advance body (hd_opt xs) acc' = Some (walk_list body xs acc')" for acc' by (rule Cons.IH)
  moreover have "advance x = hd_opt xs" using Cons.prems [of "[]" x xs] by simp
  ultimately show ?case by (simp add: walk.simps [of _ _ "Some x"] split: sum.split)
qed

lemma walk_list_stop:
  assumes "walk_list body xs acc = Inr r"
  obtains t acc' where "t \<in> set xs" "body t acc' = Inr r"
proof -
  have "\<exists>t acc'. t \<in> set xs \<and> body t acc' = Inr r"
    using assms by (induction body xs acc rule: walk_list.induct) (force split: sum.splits)+
  then show ?thesis using that by blast
qed

section \<open>The queues and the threads\<close>

definition in_queue :: "KThread \<Rightarrow> bool" where
  "in_queue th \<longleftrightarrow> \<not> th_is_dummy th \<and> th_state th = Runnable \<and> th_priority th \<le> LowestPriority"

definition listed :: "thread \<Rightarrow> KThread \<Rightarrow> lists \<Rightarrow> bool" where
  "listed t th L \<longleftrightarrow> (if in_queue th then listed_at t (thread_place th) (th_priority th) L else nowhere t L)"

definition placed :: "KThread \<Rightarrow> bool" where
  "placed th \<longleftrightarrow> valid_place (th_core_id th) (th_affinity th)"

definition sched_ok :: "kernel \<Rightarrow> lists \<Rightarrow> bool" where
  "sched_ok k L \<longleftrightarrow>
     pq_rep (queue_state k) L \<and> (\<forall>t. listed t (thread_of k t) L) \<and> (\<forall>t. placed (thread_of k t))"

definition same_queueing :: "KThread \<Rightarrow> KThread \<Rightarrow> bool" where
  "same_queueing th th' \<longleftrightarrow>
     th_affinity th' = th_affinity th \<and> th_core_id th' = th_core_id th \<and> th_priority th' = th_priority th \<and>
     th_is_dummy th' = th_is_dummy th \<and> th_state th' = th_state th"

lemma same_queueing_facts:
  assumes "same_queueing th th'"
  shows "in_queue th' = in_queue th" "listed t th' L = listed t th L" "placed th' = placed th"
  using assms by (simp_all add: same_queueing_def in_queue_def listed_def placed_def)

lemma links_only_same: "links_only ths ths' \<Longrightarrow> same_queueing (ths t) (ths' t)"
  by (simp add: same_queueing_def links_only_fields)

lemma same_queueing_refl [simp]: "same_queueing th th"
  by (simp add: same_queueing_def)

lemma sched_ok_cong:
  assumes "k_priority_queue k' = k_priority_queue k" "\<And>t. th_entries (thread_of k' t) = th_entries (thread_of k t)"
    "\<And>t. same_queueing (thread_of k t) (thread_of k' t)"
  shows "sched_ok k' L = sched_ok k L"
  using pq_rep_entries [of "k_threads k'" "k_threads k" "k_priority_queue k" L] assms same_queueing_facts(2,3) [OF assms(3)]
  by (simp add: sched_ok_def)

text \<open>A change of one thread: the other threads stay where they are.\<close>

lemma sched_ok_relist:
  assumes ok: "sched_ok k L" and rep: "pq_rep (queue_state k') L'" and others: "without t L' = without t L"
    and same: "\<And>u. u \<noteq> t \<Longrightarrow> same_queueing (thread_of k u) (thread_of k' u)"
    and new: "listed t (thread_of k' t) L'" "placed (thread_of k' t)"
  shows "sched_ok k' L'"
proof -
  have d: "all_distinct L" "all_distinct L'" using ok rep pq_rep_distinct by (auto simp: sched_ok_def)
  have "listed u (thread_of k' u) L'" if "u \<noteq> t" for u
  proof -
    have "u \<in> set (L' c x) \<longleftrightarrow> u \<in> set (L c x)" for c x by (rule in_other_list [OF d others that])
    then have "listed u th L' = listed u th L" for th by (simp only: listed_def listed_at_def unlisted_def)
    then show ?thesis using ok same_queueing_facts(2) [OF same [OF that], of u L] by (simp add: sched_ok_def)
  qed
  moreover have "placed (thread_of k' u)" if "u \<noteq> t" for u
    using ok same_queueing_facts(3) [OF same [OF that]] by (simp add: sched_ok_def)
  ultimately show ?thesis using rep new unfolding sched_ok_def by metis
qed

lemma sched_ok_parts:
  assumes "sched_ok k L"
  shows "pq_rep (queue_state k) L" "listed t (thread_of k t) L" "placed (thread_of k t)"
  using assms by (simp_all add: sched_ok_def)

lemma listed_member:
  assumes ok: "sched_ok k L" and t: "t \<in> set (L c (b, p))"
  shows "in_queue (thread_of k t)" "p = th_priority (thread_of k t)" "thread_place (thread_of k t) c = Some b"
    "listed_at t (thread_place (thread_of k t)) (th_priority (thread_of k t)) L"
    "valid_place (th_core_id (thread_of k t)) (th_affinity (thread_of k t))"
proof -
  have "\<not> nowhere t L" using t by (auto simp: unlisted_def)
  then show q: "in_queue (thread_of k t)" and
    l: "listed_at t (thread_place (thread_of k t)) (th_priority (thread_of k t)) L"
    using sched_ok_parts(2) [OF ok, of t] by (auto simp: listed_def split: if_splits)
  then show "p = th_priority (thread_of k t)" "thread_place (thread_of k t) c = Some b" using t by (auto simp: listed_at_def)
  show "valid_place (th_core_id (thread_of k t)) (th_affinity (thread_of k t))"
    using q sched_ok_parts(3) [OF ok, of t] by (simp add: placed_def in_queue_def)
qed

lemma in_order_member:
  assumes "pq_rep s L"
  shows "t \<in> set (in_order L c b) \<longleftrightarrow> (\<exists>p. t \<in> set (L c (b, p)))"
proof
  assume "\<exists>p. t \<in> set (L c (b, p))"
  then obtain p where p: "t \<in> set (L c (b, p))" by blast
  then have "p \<le> LowestPriority" using pq_rep_parts(6) [OF assms p] by simp
  then show "t \<in> set (in_order L c b)" using p by (simp add: in_order_split)
qed (auto simp: in_order_def)

text \<open>What the scheduler sees of the queues.\<close>

lemma queue_fronts:
  assumes "sched_ok k L" "c < NUM_CPU_CORES"
  shows "GetScheduledFront c (queue_state k) = hd_opt (in_order L c False)"
    "GetSuggestedFront c (queue_state k) = hd_opt (in_order L c True)"
    "GetScheduledFront_at c p (queue_state k) = hd_opt (L c (False, p))"
    "GetSuggestedFront_at c p (queue_state k) = hd_opt (L c (True, p))"
  using GetFront_first [OF sched_ok_parts(1) [OF assms(1)] assms(2), of False]
    GetFront_first [OF sched_ok_parts(1) [OF assms(1)] assms(2), of True]
    GetFront_at_first [OF sched_ok_parts(1) [OF assms(1)] assms(2), of p False]
    GetFront_at_first [OF sched_ok_parts(1) [OF assms(1)] assms(2), of p True]
  by (simp_all add: GetScheduledFront_def GetSuggestedFront_def GetScheduledFront_at_def GetSuggestedFront_at_def queue_of_def)

lemma queue_next:
  assumes ok: "sched_ok k L" and c: "c < NUM_CPU_CORES" and t: "in_order L c b = us @ t # vs"
  shows "Impl_GetNext c t (k_threads k) (queue_of b (k_priority_queue k)) = hd_opt vs"
proof -
  note rep = sched_ok_parts(1) [OF ok]
  have "t \<in> set (in_order L c b)" using t by simp
  then obtain p where p: "t \<in> set (L c (b, p))" using in_order_member [OF rep] by blast
  then have "t \<in> set (L c (b, th_priority (thread_of k t)))" using listed_member(2) [OF ok p] by simp
  then show ?thesis using GetNext_successor [OF rep c t] by simp
qed

lemma suggested_walk:
  assumes "sched_ok k L" "c < NUM_CPU_CORES"
  shows "walk (\<lambda>t. GetSuggestedNext c t (queue_state k)) body (GetSuggestedFront c (queue_state k)) acc =
    Some (walk_list body (in_order L c True) acc)"
  unfolding queue_fronts(2) [OF assms]
  by (rule walk_returns) (use queue_next [OF assms, where b = True] in \<open>simp add: GetSuggestedNext_def queue_of_def\<close>)

lemma same_priority_walk:
  assumes "sched_ok k L" "c < NUM_CPU_CORES"
  shows "walk (\<lambda>t. GetSamePriorityNext c t (queue_state k)) body (GetSuggestedFront_at c p (queue_state k)) acc =
    Some (walk_list body (L c (True, p)) acc)"
  unfolding queue_fronts(4) [OF assms]
  by (rule walk_returns)
    (use same_priority_next [OF sched_ok_parts(1) [OF assms(1)] assms(2)] in \<open>simp add: GetSamePriorityNext_def\<close>)

section \<open>Parts of the kernel that an operation leaves alone\<close>

lemma kernel_updates [simp]:
  "k_threads (IncrementScheduledCount t k) = k_threads k"
  "k_priority_queue (IncrementScheduledCount t k) = k_priority_queue k"
  "k_schedulers (IncrementScheduledCount t k) = k_schedulers k"
  "k_threads (SetSchedulerUpdateNeeded k) = k_threads k"
  "k_priority_queue (SetSchedulerUpdateNeeded k) = k_priority_queue k"
  "k_schedulers (SetSchedulerUpdateNeeded k) = k_schedulers k"
  "k_threads (set_process p f k) = k_threads k"
  "k_priority_queue (set_process p f k) = k_priority_queue k"
  "k_schedulers (set_process p f k) = k_schedulers k"
  "k_threads (set_scheduler c g k) = k_threads k"
  "k_priority_queue (set_scheduler c g k) = k_priority_queue k"
  "k_schedulers (set_scheduler c g k) = (k_schedulers k)(c := g (k_schedulers k c))"
  "k_threads (set_thread t h k) = (k_threads k)(t := h (k_threads k t))"
  "k_priority_queue (set_thread t h k) = k_priority_queue k"
  "k_schedulers (set_thread t h k) = k_schedulers k"
  "k_threads (put_queue_state s k) = snd s"
  "k_priority_queue (put_queue_state s k) = fst s"
  "k_schedulers (put_queue_state s k) = k_schedulers k"
  "k_processes (put_queue_state s k) = k_processes k"
  "k_processes (set_thread t h k) = k_processes k"
  "k_processes (set_scheduler c g k) = k_processes k"
  by (simp_all add: IncrementScheduledCount_def SetSchedulerUpdateNeeded_def set_process_def set_scheduler_def set_thread_def
      put_queue_state_def split: option.split)

lemma pinned_kept [simp]:
  "pr_pinned_threads (k_processes (IncrementScheduledCount t k) p) = pr_pinned_threads (k_processes k p)"
  "pr_pinned_threads (k_processes (SetSchedulerUpdateNeeded k) p) = pr_pinned_threads (k_processes k p)"
  by (auto simp: IncrementScheduledCount_def SetSchedulerUpdateNeeded_def set_process_def split: option.split)

lemma sched_ok_bookkeeping [simp]:
  "sched_ok (IncrementScheduledCount t k) L = sched_ok k L"
  "sched_ok (SetSchedulerUpdateNeeded k) L = sched_ok k L"
  "sched_ok (set_process p f k) L = sched_ok k L"
  "sched_ok (set_scheduler c g k) L = sched_ok k L"
  by (rule sched_ok_cong; simp)+

lemma sched_ok_set_thread:
  assumes "\<And>th. th_entries (h th) = th_entries th" "\<And>th. same_queueing th (h th)"
  shows "sched_ok (set_thread t h k) L = sched_ok k L"
  by (rule sched_ok_cong) (simp_all add: assms)

lemma sched_ok_thread_fields [simp]:
  "sched_ok (set_thread t (\<lambda>th. th \<lparr> th_last_scheduled_tick := v \<rparr>) k) L = sched_ok k L"
  "sched_ok (SetYieldScheduleCount t v k) L = sched_ok k L"
  "sched_ok (set_thread t RequestDummyThreadWait k) L = sched_ok k L"
  "sched_ok (WakeupWaitingDummyThreads k) L = sched_ok k L"
     apply (simp_all add: sched_ok_set_thread same_queueing_def SetYieldScheduleCount_def RequestDummyThreadWait_def)
  by (rule sched_ok_cong) (simp_all add: WakeupWaitingDummyThreads_def DummyThreadEndWait_def same_queueing_def)

section \<open>Migration and rotation\<close>

text \<open>A change of the active core within the affinity mask.\<close>

lemma change_core_ok:
  assumes ok: "sched_ok k L" and q: "in_queue (thread_of k t)"
    and new: "valid_place core (th_affinity (thread_of k t))"
    and k1: "k1 = SetActiveCore t core k"
    and k': "k' = put_queue_state (ChangeCore (th_core_id (thread_of k t)) t f (queue_state k1)) k1"
  shows "sched_ok k' (migrated t (th_priority (thread_of k t)) (th_core_id (thread_of k t)) core f L)"
    "links_only (k_threads k1) (k_threads k')"
proof -
  let ?th = "thread_of k t"
  have th1: "k_threads k1 = (k_threads k)(t := ?th \<lparr> th_core_id := core \<rparr>)" "k_priority_queue k1 = k_priority_queue k"
    by (simp_all add: k1 SetActiveCore_def)
  have l: "listed_at t (place (th_core_id ?th) (th_affinity ?th)) (th_priority ?th) L"
    using sched_ok_parts(2) [OF ok, of t] q by (simp add: listed_def)
  have old: "valid_place (th_core_id ?th) (th_affinity ?th)" and p: "th_priority ?th \<le> LowestPriority" and d: "\<not> th_is_dummy ?th"
    using sched_ok_parts(3) [OF ok, of t] q by (simp_all add: placed_def in_queue_def)
  have rep: "pq_rep (queue_state k1) L"
    using sched_ok_parts(1) [OF ok] pq_rep_entries [of "k_threads k1" "k_threads k" "k_priority_queue k" L] by (simp add: th1)
  note change = ChangeCore_rep [where m = t and f = f, OF rep old]
  have "pq_rep (queue_state k') (migrated t (th_priority ?th) (th_core_id ?th) core f L) \<and> links_only (k_threads k1) (k_threads k')"
    using change new p l d by (simp add: k' th1)
  then show rep': "links_only (k_threads k1) (k_threads k')" by blast
  have pq: "pq_rep (queue_state k') (migrated t (th_priority ?th) (th_core_id ?th) core f L)" using \<open>_ \<and> _\<close> by blast
  note m = migrated_listed [OF pq_rep_distinct [OF sched_ok_parts(1) [OF ok]] l old new, of f]
  have th': "same_queueing (thread_of k1 u) (thread_of k' u)" for u by (rule links_only_same [OF rep'])
  show "sched_ok k' (migrated t (th_priority ?th) (th_core_id ?th) core f L)"
  proof (rule sched_ok_relist [OF ok pq m(2)])
    show "same_queueing (thread_of k u) (thread_of k' u)" if "u \<noteq> t" for u using th' [of u] that by (simp add: th1)
    have "listed t (thread_of k1 t) (migrated t (th_priority ?th) (th_core_id ?th) core f L)" "placed (thread_of k1 t)"
      using m(1) q new by (simp_all add: listed_def th1 in_queue_def placed_def)
    then show "listed t (thread_of k' t) (migrated t (th_priority ?th) (th_core_id ?th) core f L)" "placed (thread_of k' t)"
      using same_queueing_facts [OF th' [of t]] by simp_all
  qed
qed

lemma suggested_member:
  assumes ok: "sched_ok k L" and t: "t \<in> set (in_order L c True)"
  shows "in_queue (thread_of k t)" "bit (th_affinity (thread_of k t)) c" "int c \<noteq> th_core_id (thread_of k t)"
    "valid_place (int c) (th_affinity (thread_of k t))" "c < NUM_CPU_CORES"
proof -
  obtain p where p: "t \<in> set (L c (True, p))" using t in_order_member [OF sched_ok_parts(1) [OF ok]] by blast
  note m = listed_member [OF ok p]
  show "in_queue (thread_of k t)" by (rule m(1))
  show "bit (th_affinity (thread_of k t)) c" "int c \<noteq> th_core_id (thread_of k t)"
    using m(3) by (auto simp: place_def split: if_splits)
  then show "valid_place (int c) (th_affinity (thread_of k t))" "c < NUM_CPU_CORES"
    using m(5) by (auto simp: valid_place_def)
qed

lemma scheduled_member:
  assumes ok: "sched_ok k L"
  shows "t \<in> set (in_order L c False) \<longleftrightarrow> in_queue (thread_of k t) \<and> th_core_id (thread_of k t) = int c"
proof
  assume "t \<in> set (in_order L c False)"
  then obtain p where p: "t \<in> set (L c (False, p))" using in_order_member [OF sched_ok_parts(1) [OF ok]] by blast
  show "in_queue (thread_of k t) \<and> th_core_id (thread_of k t) = int c"
    using listed_member(1,3) [OF ok p] by (auto simp: place_def split: if_splits)
next
  assume q: "in_queue (thread_of k t) \<and> th_core_id (thread_of k t) = int c"
  then have "valid_place (int c) (th_affinity (thread_of k t))"
    using sched_ok_parts(3) [OF ok, of t] by (simp add: placed_def in_queue_def)
  then have "thread_place (thread_of k t) c = Some False" using q by (simp add: place_def valid_place_def)
  then have "t \<in> set (L c (False, th_priority (thread_of k t)))"
    using sched_ok_parts(2) [OF ok, of t] q by (simp add: listed_def listed_at_def)
  then show "t \<in> set (in_order L c False)" using in_order_member [OF sched_ok_parts(1) [OF ok]] by blast
qed

lemma migrate_ok:
  assumes ok: "sched_ok k L" and t: "t \<in> set (in_order L c True)"
  shows "sched_ok (migrate c f t k) (migrated t (th_priority (thread_of k t)) (th_core_id (thread_of k t)) (int c) f L)"
    "links_only ((k_threads k)(t := (thread_of k t) \<lparr> th_core_id := int c \<rparr>)) (k_threads (migrate c f t k))"
    "k_schedulers (migrate c f t k) = k_schedulers k" "k_processes (migrate c f t k) = k_processes k"
  using change_core_ok [OF ok suggested_member(1,4) [OF ok t] refl refl, of f]
  by (simp_all add: migrate_def Let_def SetActiveCore_def)

definition rotated :: "thread \<Rightarrow> nat \<Rightarrow> nat \<Rightarrow> lists \<Rightarrow> lists" where
  "rotated t c p L = put_list c (False, p) (remove1 t (L c (False, p)) @ [t]) L"

lemma MoveToScheduledBack_ok:
  assumes ok: "sched_ok k L" and q: "in_queue (thread_of k t)" and core: "th_core_id (thread_of k t) = int c"
    and move: "MoveToScheduledBack t (queue_state k) = (nx, s)"
  shows "sched_ok (put_queue_state s k) (rotated t c (th_priority (thread_of k t)) L)"
    "links_only (k_threads k) (snd s)"
    "nx = hd_opt (remove1 t (L c (False, th_priority (thread_of k t))) @ [t])"
proof -
  let ?p = "th_priority (thread_of k t)" and ?L = "rotated t c (th_priority (thread_of k t)) L"
  have "t \<in> set (in_order L c False)" using scheduled_member [OF ok] q core by simp
  then obtain p where "t \<in> set (L c (False, p))" using in_order_member [OF sched_ok_parts(1) [OF ok]] by blast
  then have t: "t \<in> set (L c (False, ?p))" using listed_member(2) [OF ok] by fastforce
  obtain i ths where m: "Impl_MoveToBack ?p c t (pq_scheduled (k_priority_queue k), k_threads k) = (nx, i, ths)"
    and s: "s = (k_priority_queue k \<lparr> pq_scheduled := i \<rparr>, ths)"
    using move q core by (auto simp: MoveToScheduledBack_def in_queue_def split: prod.splits)
  note moved = rep_MoveToBack [OF sched_ok_parts(1) [OF ok] t, simplified, OF m]
  show links: "links_only (k_threads k) (snd s)" using moved(2) by (simp add: s)
  show "nx = hd_opt (remove1 t (L c (False, ?p)) @ [t])" by (rule moved(3))
  have d: "distinct (L c x)" for x by (rule pq_rep_parts(5) [OF sched_ok_parts(1) [OF ok]])
  have same: "t' \<in> set (?L c' x) \<longleftrightarrow> t' \<in> set (L c' x)" for t' c' x
    using t d by (auto simp: rotated_def put_list_def)
  then have l: "listed u th ?L = listed u th L" for u th by (simp only: listed_def listed_at_def unlisted_def)
  have "same_queueing (thread_of k u) (snd s u)" for u by (rule links_only_same [OF links])
  then have "listed u (snd s u) ?L" "placed (snd s u)" for u
    using sched_ok_parts(2,3) [OF ok, of u] same_queueing_facts(2,3) l by blast+
  then show "sched_ok (put_queue_state s k) ?L"
    using moved(1) [folded rotated_def] by (simp add: sched_ok_def s)
qed

section \<open>Changes of a thread\<close>

text \<open>A thread of \<open>k0\<close> gets new fields, and a queue operation then moves it.\<close>

definition changes :: "thread \<Rightarrow> KThread \<Rightarrow> kernel \<Rightarrow> kernel \<Rightarrow> bool" where
  "changes t th k0 k \<longleftrightarrow>
     k_threads k = (k_threads k0)(t := th) \<and> k_priority_queue k = k_priority_queue k0 \<and>
     th_entries th = th_entries (thread_of k0 t)"

lemma changes_parts:
  assumes "changes t th k0 k"
  shows "thread_of k t = th" "u \<noteq> t \<Longrightarrow> thread_of k u = thread_of k0 u"
    "pq_rep (queue_state k0) L \<Longrightarrow> pq_rep (queue_state k) L"
  using assms pq_rep_entries [of "k_threads k" "k_threads k0" "k_priority_queue k0" L] by (simp_all add: changes_def)

lemma requeue_ok:
  assumes ok: "sched_ok k0 L" and ch: "changes t th k0 k"
    and op: "pq_rep s' L'" "links_only (k_threads k) (snd s')" "without t L' = without t L"
    and new: "listed t th L'" "placed th"
  shows "sched_ok (put_queue_state s' k) L'"
proof (rule sched_ok_relist [OF ok _ op(3)])
  have same: "same_queueing (thread_of k u) (snd s' u)" for u by (rule links_only_same [OF op(2)])
  show "pq_rep (queue_state (put_queue_state s' k)) L'" using op(1) by simp
  show "same_queueing (thread_of k0 u) (thread_of (put_queue_state s' k) u)" if "u \<noteq> t" for u
    using same [of u] changes_parts(2) [OF ch that] by simp
  show "listed t (thread_of (put_queue_state s' k) t) L'" "placed (thread_of (put_queue_state s' k) t)"
    using same_queueing_facts [OF same [of t]] changes_parts(1) [OF ch] new by simp_all
qed

lemma insert_thread_ok:
  assumes ok: "sched_ok k0 L" and ch: "changes t th k0 k" and q: "\<not> in_queue (thread_of k0 t)" and new: "placed th" "in_queue th"
  shows "sched_ok (put_queue_state (PQ_PushBack t (queue_state k)) k) (at_place (thread_place th) (front_or_back False t (th_priority th)) L)"
proof -
  have out: "nowhere t L" using sched_ok_parts(2) [OF ok, of t] q by (simp add: listed_def)
  note n = new [unfolded placed_def in_queue_def] and th = changes_parts(1) [OF ch]
  have "PQ_PushBack t (queue_state k) = PQ_PushBack_at (th_priority th) t (queue_state k)" using n by (simp add: PQ_PushBack_def th)
  moreover have "sched_ok (put_queue_state (PQ_PushBack_at (th_priority th) t (queue_state k)) k)
      (at_place (thread_place th) (front_or_back False t (th_priority th)) L)"
    by (rule requeue_ok [OF ok ch])
      (use PQ_Push_at_rep [where f = False and m = t and p = "th_priority th", OF changes_parts(3) [OF ch sched_ok_parts(1) [OF ok]]]
        inserted_at_place [OF out] without_nowhere [OF out] n new out th in \<open>simp_all add: listed_def\<close>)
  ultimately show ?thesis by simp
qed

lemma remove_thread_ok:
  assumes ok: "sched_ok k0 L" and ch: "changes t th k0 k" and q: "in_queue (thread_of k0 t)" and new: "\<not> in_queue th"
    and same: "th_affinity th = th_affinity (thread_of k0 t)" "th_core_id th = th_core_id (thread_of k0 t)"
      "th_priority th = th_priority (thread_of k0 t)" "th_is_dummy th = th_is_dummy (thread_of k0 t)"
  shows "\<exists>L'. sched_ok (put_queue_state (PQ_Remove t (queue_state k)) k) L'"
proof -
  have l: "listed_at t (thread_place th) (th_priority th) L"
    using sched_ok_parts(2) [OF ok, of t] q by (simp add: listed_def same)
  have n: "placed th" "valid_place (th_core_id th) (th_affinity th)" "\<not> th_is_dummy th"
    using sched_ok_parts(3) [OF ok, of t] q by (simp_all add: placed_def same in_queue_def)
  note th = changes_parts(1) [OF ch] and d = pq_rep_distinct [OF sched_ok_parts(1) [OF ok]]
  have "PQ_Remove t (queue_state k) = PQ_Remove_at (th_priority th) t (queue_state k)" using n by (simp add: PQ_Remove_def th)
  moreover have "sched_ok (put_queue_state (PQ_Remove_at (th_priority th) t (queue_state k)) k) (without t L)"
    by (rule requeue_ok [OF ok ch])
      (use PQ_Remove_at_rep [where m = t and p = "th_priority th", OF changes_parts(3) [OF ch sched_ok_parts(1) [OF ok]]]
        nowhere_without [OF d] without_nowhere [OF nowhere_without [OF d]] n new l th in \<open>simp_all add: listed_def\<close>)
  ultimately show ?thesis by auto
qed

lemma unqueued_ok:
  assumes ok: "sched_ok k0 L" and ch: "changes t th k0 k" and q: "\<not> in_queue (thread_of k0 t)" and new: "placed th" "\<not> in_queue th"
  shows "sched_ok k L"
proof -
  have "nowhere t L" using sched_ok_parts(2) [OF ok, of t] q by (simp add: listed_def)
  then have "sched_ok (put_queue_state (queue_state k) k) L"
    by (intro requeue_ok [OF ok ch]) (use changes_parts(3) [OF ch sched_ok_parts(1) [OF ok]] new in \<open>simp_all add: listed_def\<close>)
  then show ?thesis by (simp add: put_queue_state_def)
qed

lemma put_same_queue [simp]: "put_queue_state (queue_state k) k = k"
  by (simp add: put_queue_state_def)

lemma sched_ok_dummy_lists [simp]:
  "sched_ok (RegisterDummyThreadForWakeup t k) L = sched_ok k L"
  "sched_ok (UnregisterDummyThreadForWakeup t k) L = sched_ok k L"
  by (rule sched_ok_cong; simp add: RegisterDummyThreadForWakeup_def UnregisterDummyThreadForWakeup_def)+

lemma OnThreadStateChanged_ok:
  assumes ok: "sched_ok k0 L" and ch: "changes t th k0 k"
    and same: "th_affinity th = th_affinity (thread_of k0 t)" "th_core_id th = th_core_id (thread_of k0 t)"
      "th_priority th = th_priority (thread_of k0 t)" "th_is_dummy th = th_is_dummy (thread_of k0 t)"
    and old: "old_state = th_state (thread_of k0 t)"
  shows "\<exists>L'. sched_ok (OnThreadStateChanged t old_state k) L'"
proof -
  note th = changes_parts(1) [OF ch]
  have placed: "placed th" using sched_ok_parts(3) [OF ok, of t] by (simp add: placed_def same)
  show ?thesis
  proof (cases "th_is_dummy th \<or> LowestPriority < th_priority th \<or> th_state th = old_state \<or>
      th_state th \<noteq> Runnable \<and> old_state \<noteq> Runnable")
    case True
    have "sched_ok k L"
    proof (cases "th_state th = old_state")
      case True
      then have "same_queueing (thread_of k0 u) (thread_of k u)" for u
        using changes_parts(1,2) [OF ch] same old by (cases "u = t") (simp_all add: same_queueing_def)
      moreover have "th_entries (thread_of k u) = th_entries (thread_of k0 u)" for u using ch by (simp add: changes_def)
      ultimately show ?thesis using ok sched_ok_cong [of k k0 L] ch by (simp add: changes_def)
    next
      case False
      then show ?thesis using True placed same old by (intro unqueued_ok [OF ok ch]) (auto simp: in_queue_def)
    qed
    then show ?thesis using True th
      by (auto simp: OnThreadStateChanged_def Let_def PQ_Remove_def PQ_PushBack_def no_queue)
  next
    case False
    then have q: "in_queue (thread_of k0 t) \<longleftrightarrow> old_state = Runnable" "in_queue th \<longleftrightarrow> old_state \<noteq> Runnable"
      using same old by (auto simp: in_queue_def)
    show ?thesis
    proof (cases "old_state = Runnable")
      case True
      then obtain L' where "sched_ok (put_queue_state (PQ_Remove t (queue_state k)) k) L'"
        using remove_thread_ok [OF ok ch _ _ same] q by auto
      then show ?thesis using True False th by (auto simp: OnThreadStateChanged_def Let_def)
    next
      case old: False
      then obtain L' where "sched_ok (put_queue_state (PQ_PushBack t (queue_state k)) k) L'"
        using insert_thread_ok [OF ok ch _ placed] q by blast
      then show ?thesis using old False th by (auto simp: OnThreadStateChanged_def Let_def)
    qed
  qed
qed

lemma OnThreadPriorityChanged_ok:
  assumes ok: "sched_ok k0 L" and ch: "changes t th k0 k"
    and same: "th_affinity th = th_affinity (thread_of k0 t)" "th_core_id th = th_core_id (thread_of k0 t)"
      "th_state th = th_state (thread_of k0 t)" "th_is_dummy th = th_is_dummy (thread_of k0 t)"
  shows "\<exists>L'. sched_ok (OnThreadPriorityChanged cur t (th_priority (thread_of k0 t)) k) L'"
proof -
  note th = changes_parts(1) [OF ch] and d = pq_rep_distinct [OF sched_ok_parts(1) [OF ok]]
  have placed: "placed th" using sched_ok_parts(3) [OF ok, of t] by (simp add: placed_def same)
  let ?prev = "th_priority (thread_of k0 t)"
  show ?thesis
  proof (cases "\<not> th_is_dummy th \<and> th_state th = Runnable")
    case True
    let ?L = "if th_priority th \<le> LowestPriority
      then at_place (thread_place th) (front_or_back (t = cur) t (th_priority th)) (without t L) else without t L"
    have l: "if ?prev \<le> LowestPriority then listed_at t (thread_place th) ?prev L else nowhere t L"
      using sched_ok_parts(2) [OF ok, of t] True by (auto simp: listed_def in_queue_def same)
    have n: "\<not> th_is_dummy th" "valid_place (th_core_id th) (th_affinity th)" using True placed by (simp_all add: placed_def)
    have "sched_ok (put_queue_state (ChangePriority ?prev (t = cur) t (queue_state k)) k) ?L"
    proof (rule requeue_ok [OF ok ch])
      show "pq_rep (ChangePriority ?prev (t = cur) t (queue_state k)) ?L"
        "links_only (k_threads k) (snd (ChangePriority ?prev (t = cur) t (queue_state k)))"
        by (rule ChangePriority_rep [where m = t and prev = ?prev and r = "t = cur",
            OF changes_parts(3) [OF ch sched_ok_parts(1) [OF ok]], unfolded snd_conv th, OF n(2) l n(1)])+
      show "without t ?L = without t L"
        using inserted_at_place(2) [OF nowhere_without [OF d]] without_nowhere [OF nowhere_without [OF d]] by simp
      show "listed t th ?L" using inserted_at_place(1) [OF nowhere_without [OF d]] nowhere_without [OF d] True
        by (simp add: listed_def in_queue_def)
    qed (rule placed)
    then show ?thesis using True th by (auto simp: OnThreadPriorityChanged_def)
  next
    case False
    then have "\<not> in_queue (thread_of k0 t)" "\<not> in_queue th" using same by (auto simp: in_queue_def)
    from unqueued_ok [OF ok ch this(1) placed this(2)]
    show ?thesis using False th by (auto simp: OnThreadPriorityChanged_def ChangePriority_def)
  qed
qed

lemma OnThreadAffinityMaskChanged_ok:
  assumes ok: "sched_ok k0 L" and ch: "changes t th k0 k"
    and same: "th_priority th = th_priority (thread_of k0 t)"
      "th_state th = th_state (thread_of k0 t)" "th_is_dummy th = th_is_dummy (thread_of k0 t)"
    and placed: "placed th"
  shows "\<exists>L'. sched_ok (OnThreadAffinityMaskChanged t (th_affinity (thread_of k0 t)) (th_core_id (thread_of k0 t)) k) L'"
proof -
  note th = changes_parts(1) [OF ch] and d = pq_rep_distinct [OF sched_ok_parts(1) [OF ok]]
  have in_same: "in_queue (thread_of k0 t) = in_queue th" by (simp add: in_queue_def same)
  show ?thesis
  proof (cases "in_queue th")
    case True
    let ?old = "thread_of k0 t"
    let ?L = "at_place (thread_place th) (front_or_back False t (th_priority th)) (without t L)"
    have l: "listed_at t (place (th_core_id ?old) (th_affinity ?old)) (th_priority th) L"
      using sched_ok_parts(2) [OF ok, of t] True in_same by (simp add: listed_def same)
    have n: "\<not> th_is_dummy th" "th_priority th \<le> LowestPriority" "valid_place (th_core_id th) (th_affinity th)"
      "valid_place (th_core_id ?old) (th_affinity ?old)"
      using True placed sched_ok_parts(3) [OF ok, of t] by (simp_all add: in_queue_def placed_def same)
    have "sched_ok (put_queue_state (ChangeAffinityMask (th_core_id ?old) (th_affinity ?old) t (queue_state k)) k) ?L"
      by (rule requeue_ok [OF ok ch])
        (use ChangeAffinityMask_rep [where m = t and prev_core = "th_core_id ?old" and prev_aff = "th_affinity ?old",
            OF changes_parts(3) [OF ch sched_ok_parts(1) [OF ok]]]
          inserted_at_place [OF nowhere_without [OF d]] n l th True placed in \<open>simp_all add: listed_def\<close>)
    then show ?thesis using True th by (auto simp: OnThreadAffinityMaskChanged_def in_queue_def)
  next
    case False
    have "\<not> in_queue (thread_of k0 t)" using False in_same by simp
    from unqueued_ok [OF ok ch this placed False]
    show ?thesis using False th no_queue_affinity [of "queue_state k" t]
      by (auto simp: OnThreadAffinityMaskChanged_def in_queue_def ChangeAffinityMask_def)
  qed
qed

section \<open>Rotation and yields\<close>

definition queues_match :: "kernel \<Rightarrow> bool" where
  "queues_match k \<longleftrightarrow> (\<exists>L. sched_ok k L)"

lemma queues_match_bookkeeping [simp]:
  "queues_match (IncrementScheduledCount t k) = queues_match k"
  "queues_match (SetSchedulerUpdateNeeded k) = queues_match k"
  "queues_match (SetYieldScheduleCount t v k) = queues_match k"
  by (simp_all add: queues_match_def)

lemma queues_match_intro: "sched_ok k L \<Longrightarrow> queues_match k"
  by (auto simp: queues_match_def)

lemma migrate_found_ok:
  assumes ok: "sched_ok k L" and xs: "set xs \<subseteq> set (in_order L c True)"
    and body: "\<And>t u r. body t u = Inr (Some r) \<Longrightarrow> r = t"
  shows "\<exists>k'. migrate_found c (Some (walk_list body xs ())) k = Some k' \<and> queues_match k'"
proof (cases "walk_list body xs ()")
  case (Inr r)
  then obtain t u where t: "t \<in> set xs" "body t u = Inr r" by (rule walk_list_stop)
  show ?thesis
  proof (cases r)
    case (Some t')
    then have "t' \<in> set (in_order L c True)" using t xs body by auto
    from queues_match_intro [OF migrate_ok(1) [OF ok this, of True]] show ?thesis by (simp add: migrate_found_def Inr Some)
  qed (use queues_match_intro [OF ok] Inr in \<open>auto simp: migrate_found_def\<close>)
qed (use queues_match_intro [OF ok] in \<open>auto simp: migrate_found_def\<close>)

lemma rotate_front_ok:
  assumes ok: "sched_ok k L" and c: "c < NUM_CPU_CORES" and r: "rotate_front c p k = (tp, nx, k')"
  shows "queues_match k'"
proof (cases "L c (False, p)")
  case Nil
  then show ?thesis using r queues_match_intro [OF ok] queue_fronts(3) [OF ok c, of p] by (auto simp: rotate_front_def)
next
  case (Cons t ts)
  obtain nx' s where move: "MoveToScheduledBack t (queue_state k) = (nx', s)" by (metis surj_pair)
  have m: "in_queue (thread_of k t)" "th_core_id (thread_of k t) = int c"
    using listed_member(1,3) [OF ok, of t c False p] Cons by (auto simp: place_def split: if_splits)
  note b = MoveToScheduledBack_ok(1) [OF ok m move]
  have "GetScheduledFront_at c p (queue_state k) = Some t" using queue_fronts(3) [OF ok c, of p] Cons by simp
  then have "sched_ok k' (rotated t c (th_priority (thread_of k t)) L)"
    using r move b by (auto simp: rotate_front_def Let_def split: option.splits if_splits)
  then show ?thesis by (rule queues_match_intro)
qed

lemma RotateScheduledQueue_ok:
  assumes ok: "sched_ok k L" and c: "c < NUM_CPU_CORES"
  shows "\<exists>k'. RotateScheduledQueue cur c p k = Some k' \<and> queues_match k'"
proof -
  obtain tp nx k1 where f: "rotate_front c p k = (tp, nx, k1)" by (metis surj_pair)
  obtain L1 where ok1: "sched_ok k1 L1" using rotate_front_ok [OF ok c f] unfolding queues_match_def by blast
  have sub: "set (L1 c (True, p)) \<subseteq> set (in_order L1 c True)" using in_order_member [OF sched_ok_parts(1) [OF ok1]] by auto
  have "r = t" if "rotation_suggestion tp nx k1 t u = Inr (Some r)" for t u r
    using that by (auto simp: rotation_suggestion_def Let_def split: if_splits)
  then obtain k2 L2 where k2: "migrate_found c (Some (walk_list (rotation_suggestion tp nx k1) (L1 c (True, p)) ())) k1 = Some k2"
    and ok2: "sched_ok k2 L2" using migrate_found_ok [OF ok1 sub] unfolding queues_match_def by meson
  have "\<exists>k3. migrate_better c p cur k2 = Some k3 \<and> queues_match k3"
  proof (cases "best_thread_of c cur k2")
    case (Some best)
    have "r = t" if "better_suggestion best k2 t u = Inr (Some r)" for t u r
      using that by (auto simp: better_suggestion_def Let_def split: if_splits)
    then have "\<exists>k3. migrate_found c (Some (walk_list (better_suggestion best k2) (in_order L2 c True) ())) k2 = Some k3 \<and>
        queues_match k3" using migrate_found_ok [OF ok2 order_refl] by meson
    then show ?thesis using queues_match_intro [OF ok2] by (auto simp: migrate_better_def Some suggested_walk [OF ok2 c])
  qed (use queues_match_intro [OF ok2] in \<open>auto simp: migrate_better_def\<close>)
  then show ?thesis using k2 by (auto simp: RotateScheduledQueue_def f same_priority_walk [OF ok1 c])
qed

lemma preempt_cores_ok:
  "sched_ok k L \<Longrightarrow> set cores \<subseteq> {..<NUM_CPU_CORES} \<Longrightarrow> \<exists>k'. preempt_cores cur cores k = Some k' \<and> queues_match k'"
proof (induction cores arbitrary: k L)
  case (Cons c cs)
  then have "c < NUM_CPU_CORES" by simp
  then obtain k1 L1 where "RotateScheduledQueue cur c (preemption_priorities ! c) k = Some k1" "sched_ok k1 L1"
    using RotateScheduledQueue_ok [OF Cons.prems(1)] unfolding queues_match_def by meson
  then show ?case using Cons.IH [of k1 L1] Cons.prems(2) by simp
qed (auto intro: queues_match_intro)

lemma PreemptThreads_ok: "sched_ok k L \<Longrightarrow> \<exists>k'. PreemptThreads cur k = Some k' \<and> queues_match k'"
  unfolding PreemptThreads_def by (rule preempt_cores_ok) auto

text \<open>The thread that yields is active on a core.\<close>

definition runs :: "KThread \<Rightarrow> bool" where
  "runs th \<longleftrightarrow> \<not> th_is_dummy th \<and> th_priority th \<le> LowestPriority \<and> 0 \<le> th_core_id th"

lemma yielding:
  assumes "runs (thread_of k cur)" "\<not> nothing_to_yield cur proc k"
  shows "in_queue (thread_of k cur)" "th_core_id (thread_of k cur) = int (nat (th_core_id (thread_of k cur)))"
  using assms by (auto simp: runs_def nothing_to_yield_def in_queue_def)

lemma active_core_valid:
  assumes "sched_ok k L" "in_queue (thread_of k t)" "0 \<le> th_core_id (thread_of k t)"
  shows "nat (th_core_id (thread_of k t)) < NUM_CPU_CORES"
  using sched_ok_parts(3) [OF assms(1), of t] assms(2,3) by (auto simp: placed_def in_queue_def valid_place_def)

lemma YieldWithoutCoreMigration_ok:
  assumes ok: "sched_ok k L" and runs: "runs (thread_of k cur)"
  shows "queues_match (YieldWithoutCoreMigration cur proc k)"
proof (cases "nothing_to_yield cur proc k")
  case False
  obtain nx s where move: "MoveToScheduledBack cur (queue_state k) = (nx, s)" by (metis surj_pair)
  note b = MoveToScheduledBack_ok(1) [OF ok yielding [OF runs False] move]
  show ?thesis using queues_match_intro [OF b] False move by (auto simp: YieldWithoutCoreMigration_def Let_def)
qed (use queues_match_intro [OF ok] in \<open>auto simp: YieldWithoutCoreMigration_def\<close>)

lemma YieldWithCoreMigration_ok:
  assumes ok: "sched_ok k L" and runs: "runs (thread_of k cur)"
  shows "\<exists>k'. YieldWithCoreMigration cur proc k = Some k' \<and> queues_match k'"
proof (cases "nothing_to_yield cur proc k")
  case False
  obtain nx s where move: "MoveToScheduledBack cur (queue_state k) = (nx, s)" by (metis surj_pair)
  let ?c = "nat (th_core_id (thread_of k cur))"
  note y = yielding [OF runs False]
  have c: "?c < NUM_CPU_CORES" using active_core_valid [OF ok y(1)] runs by (simp add: runs_def)
  define k1 where "k1 = IncrementScheduledCount cur (put_queue_state s k)"
  have qs: "queue_state k1 = s" by (simp add: k1_def)
  obtain L1 where ok1: "sched_ok k1 L1" using MoveToScheduledBack_ok(1) [OF ok y move] by (auto simp: k1_def)
  let ?r = "walk_list (yield_suggestion cur nx k1) (in_order L1 ?c True) False"
  have "queues_match (IncrementScheduledCount t (migrate ?c True t k1))" if r: "?r = Inr (Some t, x)" for t x
  proof -
    obtain t' a where t': "t' \<in> set (in_order L1 ?c True)" "yield_suggestion cur nx k1 t' a = Inr (Some t, x)"
      using r by (rule walk_list_stop)
    then have "t = t'" by (auto simp: yield_suggestion_def Let_def split: if_splits)
    then show ?thesis using queues_match_intro [OF migrate_ok(1) [OF ok1 t'(1)]] by simp
  qed
  then show ?thesis
    using False move queues_match_intro [OF ok1] suggested_walk [OF ok1 c, of "yield_suggestion cur nx k1" False, unfolded qs]
    by (auto simp: YieldWithCoreMigration_def Let_def k1_def [symmetric] split: sum.split prod.split option.split)
qed (use queues_match_intro [OF ok] in \<open>auto simp: YieldWithCoreMigration_def\<close>)

lemma YieldToAnyThread_ok:
  assumes ok: "sched_ok k L" and runs: "runs (thread_of k cur)"
  shows "\<exists>k'. YieldToAnyThread cur proc k = Some k' \<and> queues_match k'"
proof (cases "nothing_to_yield cur proc k")
  case False
  let ?core = "th_core_id (thread_of k cur)" and ?c = "nat (th_core_id (thread_of k cur))"
  note y = yielding [OF runs False]
  have c: "?c < NUM_CPU_CORES" using active_core_valid [OF ok y(1)] runs by (simp add: runs_def)
  have v: "valid_place (- 1) (th_affinity (thread_of k cur))"
    using sched_ok_parts(3) [OF ok, of cur] y(1) by (simp add: placed_def in_queue_def valid_place_def)
  define k1 where "k1 = SetActiveCore cur (- 1) k"
  define k2 where "k2 = IncrementScheduledCount cur (put_queue_state (ChangeCore ?core cur False (queue_state k1)) k1)"
  obtain L2 where ok2: "sched_ok k2 L2" using change_core_ok(1) [OF ok y(1) v k1_def refl, of False] by (auto simp: k2_def)
  let ?r = "walk_list (any_suggestion k2) (in_order L2 ?c True) ()"
  have "queues_match (IncrementScheduledCount t (migrate ?c False t k2))" if r: "?r = Inr (t, x)" for t x
  proof -
    obtain t' a where t': "t' \<in> set (in_order L2 ?c True)" "any_suggestion k2 t' a = Inr (t, x)"
      using r by (rule walk_list_stop)
    then have "t = t'" by (auto simp: any_suggestion_def Let_def split: if_splits)
    then show ?thesis using queues_match_intro [OF migrate_ok(1) [OF ok2 t'(1)]] by simp
  qed
  then show ?thesis
    using False queues_match_intro [OF ok2] suggested_walk [OF ok2 c, of "any_suggestion k2" "()"]
    by (auto simp: YieldToAnyThread_def Let_def k1_def [symmetric] k2_def [symmetric] split: sum.split prod.split)
qed (use queues_match_intro [OF ok] in \<open>auto simp: YieldToAnyThread_def\<close>)

end
