(* ===== verification/SchedulerUpdate.thy ===== *)
theory SchedulerUpdate
  imports SchedulerBehaviour
begin

text \<open>
  The update of the highest priority threads: it returns, keeps the queues in step with the threads, gives every core a
  thread that is active on it or pinned to it, and reports each core whose thread changes.
\<close>

section \<open>Setting the thread of a core\<close>

definition bookkeeping :: "kernel \<Rightarrow> kernel \<Rightarrow> bool" where
  "bookkeeping k k' \<longleftrightarrow>
     k_priority_queue k' = k_priority_queue k \<and>
     (\<forall>t. \<exists>v. thread_of k' t = (thread_of k t) \<lparr> th_last_scheduled_tick := v \<rparr>) \<and>
     (\<forall>p. pr_pinned_threads (k_processes k' p) = pr_pinned_threads (k_processes k p))"

lemma bookkeeping_thread:
  assumes "bookkeeping k k'"
  shows "same_queueing (thread_of k t) (thread_of k' t)" "th_entries (thread_of k' t) = th_entries (thread_of k t)"
    "th_parent (thread_of k' t) = th_parent (thread_of k t)"
    "th_num_kernel_waiters (thread_of k' t) = th_num_kernel_waiters (thread_of k t)"
    "th_state (thread_of k' t) = th_state (thread_of k t)"
proof -
  obtain v where v: "thread_of k' t = (thread_of k t) \<lparr> th_last_scheduled_tick := v \<rparr>"
    using assms unfolding bookkeeping_def by blast
  show "same_queueing (thread_of k t) (thread_of k' t)" "th_entries (thread_of k' t) = th_entries (thread_of k t)"
    "th_parent (thread_of k' t) = th_parent (thread_of k t)"
    "th_num_kernel_waiters (thread_of k' t) = th_num_kernel_waiters (thread_of k t)"
    "th_state (thread_of k' t) = th_state (thread_of k t)"
    unfolding v by (simp_all add: same_queueing_def)
qed

lemma bookkeeping_refl: "bookkeeping k k"
  by (auto simp: bookkeeping_def) (metis KThread.surjective KThread.update_convs(8))

lemma bookkeeping_trans:
  assumes "bookkeeping k k1" "bookkeeping k1 k2"
  shows "bookkeeping k k2"
proof -
  have "\<exists>v. thread_of k2 t = (thread_of k t) \<lparr> th_last_scheduled_tick := v \<rparr>" for t
  proof -
    obtain v1 v2 where "thread_of k1 t = (thread_of k t) \<lparr> th_last_scheduled_tick := v1 \<rparr>"
      "thread_of k2 t = (thread_of k1 t) \<lparr> th_last_scheduled_tick := v2 \<rparr>"
      using assms unfolding bookkeeping_def by blast
    then show ?thesis by auto
  qed
  then show ?thesis using assms by (simp add: bookkeeping_def)
qed

lemma bookkeeping_sched_ok:
  assumes "bookkeeping k k'"
  shows "sched_ok k' L = sched_ok k L"
proof (rule sched_ok_cong)
  show "k_priority_queue k' = k_priority_queue k" using assms by (simp add: bookkeeping_def)
qed (rule bookkeeping_thread [OF assms])+

lemma bookkeeping_steps:
  "bookkeeping k (IncrementScheduledCount t k)" "bookkeeping k (set_scheduler c g k)"
  "bookkeeping k (set_thread t (\<lambda>th. th \<lparr> th_last_scheduled_tick := v \<rparr>) k)"
  "bookkeeping k (set_process p (SetRunningThread c t i j) k)"
proof -
  have id: "\<exists>v. th = th \<lparr> th_last_scheduled_tick := v \<rparr>" for th :: KThread
    using bookkeeping_refl [of "undefined \<lparr> k_threads := \<lambda>_. th \<rparr>"] by (simp add: bookkeeping_def)
  show "bookkeeping k (IncrementScheduledCount t k)" "bookkeeping k (set_scheduler c g k)"
    "bookkeeping k (set_thread t (\<lambda>th. th \<lparr> th_last_scheduled_tick := v \<rparr>) k)"
    "bookkeeping k (set_process p (SetRunningThread c t i j) k)"
    using id by (auto simp: bookkeeping_def set_process_def SetRunningThread_def)
qed

abbreviation highest_of :: "kernel \<Rightarrow> nat \<Rightarrow> thread option" where
  "highest_of k c \<equiv> sc_highest_priority_thread (k_schedulers k c)"

abbreviation needs_of :: "kernel \<Rightarrow> nat \<Rightarrow> bool" where
  "needs_of k c \<equiv> sc_needs_scheduling (k_schedulers k c)"

lemma UpdateHighestPriorityThread_facts:
  assumes "UpdateHighestPriorityThread tick c h k = (msk, k')"
  shows "bookkeeping k k'" "highest_of k' c' = (if c' = c then h else highest_of k c')"
    "msk = (if highest_of k c = h then 0 else push_bit c 1)"
    "needs_of k' c' \<longleftrightarrow> needs_of k c' \<or> c' = c \<and> highest_of k c \<noteq> h"
proof -
  have "bookkeeping k k' \<and> highest_of k' c' = (if c' = c then h else highest_of k c') \<and>
    msk = (if highest_of k c = h then 0 else push_bit c 1) \<and>
    (needs_of k' c' \<longleftrightarrow> needs_of k c' \<or> c' = c \<and> highest_of k c \<noteq> h)"
  proof (cases "highest_of k c = h")
    case True
    then show ?thesis using assms bookkeeping_refl by (auto simp: UpdateHighestPriorityThread_def)
  next
    case False
    define k1 where "k1 = (case highest_of k c of None \<Rightarrow> k
      | Some t \<Rightarrow> set_thread t (\<lambda>th. th \<lparr> th_last_scheduled_tick := tick \<rparr>) (IncrementScheduledCount t k))"
    define k2 where "k2 = (if sc_should_count_idle (k_schedulers k1 c) then
        (case h of
           Some t \<Rightarrow>
             (case th_parent (thread_of k1 t) of
                Some p \<Rightarrow> set_process p (SetRunningThread c t (sc_idle_count (k_schedulers k1 c)) 0) k1
              | None \<Rightarrow> k1)
         | None \<Rightarrow> set_scheduler c (\<lambda>sc. sc \<lparr> sc_idle_count := sc_idle_count sc + 1 \<rparr>) k1)
      else k1)"
    have k': "msk = push_bit c 1" "k' = set_scheduler c (\<lambda>sc. sc \<lparr> sc_highest_priority_thread := h, sc_needs_scheduling := True \<rparr>) k2"
      using assms unfolding UpdateHighestPriorityThread_def Let_def if_P [OF False] k1_def [symmetric] k2_def [symmetric]
      by (simp_all only: prod.inject)
    have b1: "bookkeeping k k1" using bookkeeping_refl bookkeeping_trans bookkeeping_steps(1,3)
      by (simp add: k1_def split: option.split) meson
    have b2: "bookkeeping k1 k2" using bookkeeping_refl bookkeeping_steps by (simp add: k2_def split: option.split)
    have b: "bookkeeping k k'" unfolding k'(2) by (meson bookkeeping_trans b1 b2 bookkeeping_steps(2))
    have "k_schedulers k1 = k_schedulers k" by (simp add: k1_def split: option.split)
    then have "highest_of k2 x = highest_of k x" "needs_of k2 x = needs_of k x" for x
      by (simp_all add: k2_def split: option.split)
    then show ?thesis using b False by (simp add: k')
  qed
  then show "bookkeeping k k'" "highest_of k' c' = (if c' = c then h else highest_of k c')"
    "msk = (if highest_of k c = h then 0 else push_bit c 1)"
    "needs_of k' c' \<longleftrightarrow> needs_of k c' \<or> c' = c \<and> highest_of k c \<noteq> h" by blast+
qed

text \<open>Every core whose thread differs from the one at the start is in the mask, and the cores of the mask are flagged.\<close>

definition flagged :: "kernel \<Rightarrow> u64 \<Rightarrow> kernel \<Rightarrow> bool" where
  "flagged k0 needing k \<longleftrightarrow>
     (\<forall>c<NUM_CPU_CORES. highest_of k c \<noteq> highest_of k0 c \<longrightarrow> bit needing c) \<and>
     (\<forall>c. bit needing c \<longrightarrow> c < NUM_CPU_CORES \<and> needs_of k c)"

lemma flagged_update:
  assumes "flagged k0 needing k" "c < NUM_CPU_CORES" "UpdateHighestPriorityThread tick c h k = (msk, k')"
  shows "flagged k0 (needing OR msk) k'"
proof -
  note f = UpdateHighestPriorityThread_facts [OF assms(3)]
  have bit: "bit (2 ^ c :: u64) x \<longleftrightarrow> x = c" for x
    using assms(2) by (auto simp: NUM_CPU_CORES_def bit_exp_iff)
  show ?thesis using assms(1,2) f(2,4) unfolding flagged_def f(3) by (auto simp: bit_or_iff bit split: if_splits)
qed

section \<open>The first choice\<close>

lemma bookkeeping_front:
  assumes "bookkeeping k k'"
  shows "GetScheduledFront c (queue_state k') = GetScheduledFront c (queue_state k)" "top_thread_of c k' = top_thread_of c k"
proof -
  have q: "k_priority_queue k' = k_priority_queue k"
    and pin: "pr_pinned_threads (k_processes k' p) = pr_pinned_threads (k_processes k p)" for p
    using assms by (simp_all add: bookkeeping_def)
  show f: "GetScheduledFront c (queue_state k') = GetScheduledFront c (queue_state k)" by (simp add: GetScheduledFront_def q)
  show "top_thread_of c k' = top_thread_of c k"
    by (simp add: top_thread_of_def f pin bookkeeping_thread [OF assms] split: option.split)
qed

definition first_choice :: "kernel \<Rightarrow> nat \<Rightarrow> tops \<times> u64 \<times> u64 \<times> kernel \<Rightarrow> bool" where
  "first_choice k0 n = (\<lambda>(tops, needing, idle, k).
     bookkeeping k0 k \<and> flagged k0 needing k \<and>
     (\<forall>c<n. tops c = top_thread_of c k0 \<and> highest_of k c = tops c) \<and>
     (\<forall>c. bit idle c \<longleftrightarrow> c < n \<and> GetScheduledFront c (queue_state k0) = None))"

lemma first_choice_step:
  assumes "first_choice k0 n st" "n < NUM_CPU_CORES"
  shows "first_choice k0 (Suc n) (choose_top_thread tick st n)"
proof -
  obtain tops needing idle k where st: "st = (tops, needing, idle, k)" by (metis surj_pair)
  obtain msk k' where u: "UpdateHighestPriorityThread tick n (top_thread_of n k) k = (msk, k')" by (metis surj_pair)
  have i: "bookkeeping k0 k" "flagged k0 needing k" "\<And>c. c < n \<Longrightarrow> tops c = top_thread_of c k0 \<and> highest_of k c = tops c"
    "\<And>c. bit idle c \<longleftrightarrow> c < n \<and> GetScheduledFront c (queue_state k0) = None"
    using assms(1) by (auto simp: first_choice_def st)
  note f = UpdateHighestPriorityThread_facts [OF u] and front = bookkeeping_front [OF i(1), of n]
  have bit: "bit (2 ^ n :: u64) c \<longleftrightarrow> c = n" for c using assms(2) by (auto simp: NUM_CPU_CORES_def bit_exp_iff)
  have "bookkeeping k0 k'" using bookkeeping_trans [OF i(1) f(1)] .
  moreover have "flagged k0 (needing OR msk) k'" by (rule flagged_update [OF i(2) assms(2) u])
  moreover have "(tops(n := top_thread_of n k)) c = top_thread_of c k0 \<and> highest_of k' c = (tops(n := top_thread_of n k)) c"
    if "c < Suc n" for c using that i(3) [of c] f(2) [of c] front(2) by (auto simp: less_Suc_eq)
  moreover have "bit (if GetScheduledFront n (queue_state k) = None then idle OR push_bit n 1 else idle) c \<longleftrightarrow>
      c < Suc n \<and> GetScheduledFront c (queue_state k0) = None" for c
    unfolding front(1) using i(4) [of c] bit [of c] by (auto simp: bit_or_iff less_Suc_eq)
  ultimately show ?thesis unfolding st choose_top_thread_def Let_def prod.case u first_choice_def by blast
qed

lemma first_choice_all:
  assumes "n \<le> NUM_CPU_CORES"
  shows "first_choice k n (foldl (choose_top_thread tick) (\<lambda>_. None, 0, 0, k) [0..<n])"
  using assms
proof (induction n)
  case 0
  then show ?case by (simp add: first_choice_def bookkeeping_refl flagged_def)
next
  case (Suc n)
  then show ?case using first_choice_step [of k n _ tick] by simp
qed

text \<open>
  A thread that a process has pinned to a core and that may run takes the core before any other thread of the process. Pinning makes it
  active on that core; where nothing has changed that since, \<open>pins_ok\<close> holds.
\<close>

definition pinned_on :: "kernel \<Rightarrow> nat \<Rightarrow> thread \<Rightarrow> bool" where
  "pinned_on k c t \<longleftrightarrow> (\<exists>p. pr_pinned_threads (k_processes k p) c = Some t) \<and> th_state (thread_of k t) = Runnable"

definition pins_ok :: "kernel \<Rightarrow> bool" where
  "pins_ok k \<longleftrightarrow> (\<forall>c t. pinned_on k c t \<longrightarrow> in_queue (thread_of k t) \<and> th_core_id (thread_of k t) = int c)"

definition no_pins :: "kernel \<Rightarrow> bool" where
  "no_pins k \<longleftrightarrow> (\<forall>p c. pr_pinned_threads (k_processes k p) c = None)"

lemma top_thread_of_source:
  assumes ok: "sched_ok k L" and c: "c < NUM_CPU_CORES" and t: "top_thread_of c k = Some t"
  shows "t \<in> set (in_order L c False) \<or> pinned_on k c t"
proof -
  have front: "u \<in> set (in_order L c False)" if "GetScheduledFront c (queue_state k) = Some u" for u
    using that queue_fronts(1) [OF ok c] by (cases "in_order L c False") auto
  show ?thesis using t front unfolding top_thread_of_def pinned_on_def by (auto split: option.splits if_splits)
qed

lemma pins_ok_active: "sched_ok k L \<Longrightarrow> pins_ok k \<Longrightarrow> pinned_on k c t \<Longrightarrow> t \<in> set (in_order L c False)"
  by (simp add: pins_ok_def scheduled_member)

lemma top_thread_of_front: "no_pins k \<Longrightarrow> top_thread_of c k = GetScheduledFront c (queue_state k)"
  by (simp add: top_thread_of_def no_pins_def split: option.split)

section \<open>Filling idle cores\<close>

lemma remove1_middle: "t \<notin> set xs \<Longrightarrow> t \<notin> set zs \<Longrightarrow> remove1 t (xs @ ys @ zs) = xs @ remove1 t ys @ zs"
  by (auto simp: remove1_append remove1_idem)

lemma in_order_migrated:
  assumes rep: "pq_rep s L" and m: "listed_at t (place prev aff) p L" and c: "c \<noteq> core" and p: "p \<le> LowestPriority" and ne: "prev \<noteq> int core"
  shows "in_order (migrated t p prev (int core) f L) c False = remove1 t (in_order L c False)"
proof -
  have at: "t \<in> set (L c (False, q)) \<Longrightarrow> q = p" for q using m by (simp add: listed_at_def)
  have q: "migrated t p prev (int core) f L c (False, q) = remove1 t (L c (False, q))" for q
  proof (cases "int c = prev")
    case True
    then have "q \<noteq> p \<Longrightarrow> remove1 t (L c (False, q)) = L c (False, q)" using at by (intro remove1_idem) blast
    then show ?thesis using True ne by (auto simp: migrated_def to_back_def taken_def)
  next
    case False
    then have "t \<notin> set (L c (False, q))" using m by (auto simp: listed_at_def place_def split: if_splits)
    then show ?thesis using False c ne by (simp add: migrated_def remove1_idem)
  qed
  have skip: "concat (map (\<lambda>q. remove1 t (L c (False, q))) qs) = concat (map (\<lambda>q. L c (False, q)) qs)" if "p \<notin> set qs" for qs
  proof -
    have "remove1 t (L c (False, q)) = L c (False, q)" if "q \<in> set qs" for q
      using at \<open>p \<notin> set qs\<close> that by (intro remove1_idem) blast
    then show ?thesis by (simp cong: map_cong)
  qed
  have parts: "concat (map (\<lambda>q. remove1 t (L c (False, q))) [0..<p]) = concat (map (\<lambda>q. L c (False, q)) [0..<p])"
    "concat (map (\<lambda>q. remove1 t (L c (False, q))) [p + 1..<LowestPriority + 1]) =
      concat (map (\<lambda>q. L c (False, q)) [p + 1..<LowestPriority + 1])" by (rule skip; auto)+
  have "t \<notin> set (concat (map (\<lambda>q. L c (False, q)) [0..<p]))"
    "t \<notin> set (concat (map (\<lambda>q. L c (False, q)) [p + 1..<LowestPriority + 1]))" using at by fastforce+
  then show ?thesis unfolding in_order_split [OF p] q parts by (rule remove1_middle [symmetric])
qed

lemma in_order_migrated_idle:
  assumes rep: "pq_rep s L" and idle: "in_order L core False = []" and p: "p \<le> LowestPriority" and ne: "prev \<noteq> int core"
  shows "in_order (migrated t p prev (int core) f L) core False = [t]"
proof -
  have none: "L core (False, q) = []" for q
  proof (rule ccontr)
    assume "L core (False, q) \<noteq> []"
    then obtain x where "x \<in> set (L core (False, q))" by (cases "L core (False, q)") auto
    then show False using in_order_member [OF rep, of x core False] idle by auto
  qed
  have q: "migrated t p prev (int core) f L core (False, q) = (if q = p then [t] else [])" for q
    using ne by (auto simp: migrated_def front_or_back_def to_front_def to_back_def taken_def none)
  have skip: "concat (map (\<lambda>q. if q = p then [t] else []) qs) = []" if "p \<notin> set qs" for qs
    using that by (induction qs) auto
  have parts: "concat (map (\<lambda>q. if q = p then [t] else []) [0..<p]) = []"
    "concat (map (\<lambda>q. if q = p then [t] else []) [p + 1..<LowestPriority + 1]) = []" by (rule skip; auto)+
  show ?thesis unfolding in_order_split [OF p] q parts by simp
qed

text \<open>
  Between two idle cores: each core has the thread that the array of top threads gives it, and it is active on that core
  or of an exceptional kind (pinned to the core); where no thread is pinned, it is the first of the core.
\<close>

definition tops_ok :: "(nat \<Rightarrow> thread \<Rightarrow> bool) \<Rightarrow> bool \<Rightarrow> kernel \<Rightarrow> lists \<Rightarrow> tops \<times> u64 \<times> kernel \<Rightarrow> bool" where
  "tops_ok extra fronts k0 L = (\<lambda>(tops, needing, k).
     sched_ok k L \<and> flagged k0 needing k \<and>
     (\<forall>c<NUM_CPU_CORES. highest_of k c = tops c) \<and>
     (\<forall>c<NUM_CPU_CORES. \<forall>t. tops c = Some t \<longrightarrow> t \<in> set (in_order L c False) \<or> extra c t) \<and>
     (fronts \<longrightarrow> (\<forall>c<NUM_CPU_CORES. tops c = hd_opt (in_order L c False))))"

lemma flagged_schedulers: "k_schedulers k' = k_schedulers k \<Longrightarrow> flagged k0 n k' = flagged k0 n k"
  by (simp add: flagged_def)

lemma hd_opt_remove1: "hd_opt xs \<noteq> Some t \<Longrightarrow> hd_opt (remove1 t xs) = hd_opt xs"
  by (cases xs) auto

text \<open>A suggested thread that no core has is placed on an idle core.\<close>

lemma place_on_idle_core_ok:
  assumes ok: "sched_ok k L" "flagged k0 needing k" "\<forall>c<NUM_CPU_CORES. highest_of k c = tops c"
    and act: "\<And>c u. c < NUM_CPU_CORES \<Longrightarrow> tops c = Some u \<Longrightarrow> u \<in> set (in_order L c False) \<and> u \<noteq> t \<or> extra c u"
    and fr: "fronts \<Longrightarrow> \<forall>c<NUM_CPU_CORES. tops c = hd_opt (remove1 t (in_order L c False))"
    and t: "t \<in> set (in_order L core True)" and idle: "in_order L core False = []"
  shows "\<exists>L'. tops_ok extra fronts k0 L' (place_on_idle_core tick core t (tops, needing, k)) \<and>
    (\<forall>c. c \<noteq> core \<longrightarrow> in_order L' c False = remove1 t (in_order L c False))"
proof -
  let ?th = "thread_of k t" and ?k1 = "migrate core False t k"
  let ?L = "migrated t (th_priority ?th) (th_core_id ?th) (int core) False L"
  note s = suggested_member [OF ok(1) t] and m = migrate_ok [OF ok(1) t, of False]
  obtain msk k2 where u: "UpdateHighestPriorityThread tick core (Some t) ?k1 = (msk, k2)" by (metis surj_pair)
  note f = UpdateHighestPriorityThread_facts [OF u]
  have p: "th_priority ?th \<le> LowestPriority" and l: "listed_at t (thread_place ?th) (th_priority ?th) L"
    using s(1) sched_ok_parts(2) [OF ok(1), of t] by (simp_all add: in_queue_def listed_def)
  have ne: "th_core_id ?th \<noteq> int core" using s(3) by simp
  have other: "in_order ?L c False = remove1 t (in_order L c False)" if "c \<noteq> core" for c
    by (rule in_order_migrated [OF sched_ok_parts(1) [OF ok(1)] l that p ne])
  have here: "in_order ?L core False = [t]" by (rule in_order_migrated_idle [OF sched_ok_parts(1) [OF ok(1)] idle p ne])
  have "sched_ok k2 ?L" using bookkeeping_sched_ok [OF f(1)] m(1) by simp
  moreover have "flagged k0 (needing OR msk) k2"
    by (rule flagged_update [OF _ s(5) u]) (use ok(2) flagged_schedulers [OF m(3)] in simp)
  moreover have "\<forall>c<NUM_CPU_CORES. highest_of k2 c = (tops(core := Some t)) c" using f(2) ok(3) m(3) by auto
  moreover have "u \<in> set (in_order ?L c False) \<or> extra c u" if "c < NUM_CPU_CORES" "(tops(core := Some t)) c = Some u" for c u
    using that act [of c u] here other [of c] distinct_in_order [OF sched_ok_parts(1) [OF ok(1)], of c False]
    by (cases "c = core") auto
  moreover have "(tops(core := Some t)) c = hd_opt (in_order ?L c False)" if fronts "c < NUM_CPU_CORES" for c
    using fr that here other [of c] by (cases "c = core") auto
  ultimately have "tops_ok extra fronts k0 ?L (tops(core := Some t), needing OR msk, k2)" unfolding tops_ok_def by simp
  then show ?thesis using other by (auto simp: place_on_idle_core_def u)
qed

text \<open>The candidate cores are cores of suggested threads that they have.\<close>

lemma candidates_of_suggestions:
  assumes "walk_list (consider_suggestion tops k) xs acc = Inl cs"
  shows "cs = acc @ map (\<lambda>t. th_core_id (thread_of k t)) xs"
    "t \<in> set xs \<Longrightarrow> 0 \<le> th_core_id (thread_of k t) \<and> tops (nat (th_core_id (thread_of k t))) = Some t"
proof -
  have "cs = acc @ map (\<lambda>t. th_core_id (thread_of k t)) xs \<and>
      (\<forall>t\<in>set xs. 0 \<le> th_core_id (thread_of k t) \<and> tops (nat (th_core_id (thread_of k t))) = Some t)"
    using assms
  proof (induction xs arbitrary: acc)
    case (Cons x xs)
    have "walk_list (consider_suggestion tops k) xs (acc @ [th_core_id (thread_of k x)]) = Inl cs"
      "0 \<le> th_core_id (thread_of k x)" "tops (nat (th_core_id (thread_of k x))) = Some x"
      using Cons.prems
      by (auto simp: consider_suggestion_def [of tops k x acc] Let_def split: sum.splits if_splits option.splits)
    then show ?case using Cons.IH by fastforce
  qed simp
  then show "cs = acc @ map (\<lambda>t. th_core_id (thread_of k t)) xs"
    "t \<in> set xs \<Longrightarrow> 0 \<le> th_core_id (thread_of k t) \<and> tops (nat (th_core_id (thread_of k t))) = Some t" by blast+
qed

lemma suggestion_stop:
  assumes "consider_suggestion tops k t a = Inr (Some u)"
  shows "u = t" "0 \<le> th_core_id (thread_of k t) \<Longrightarrow> tops (nat (th_core_id (thread_of k t))) \<noteq> Some t"
  using assms by (auto simp: consider_suggestion_def Let_def split: if_splits option.splits)

lemma tops_okD:
  assumes "tops_ok extra fronts k0 L (tops, needing, k)"
  shows "sched_ok k L" "flagged k0 needing k" "\<forall>c<NUM_CPU_CORES. highest_of k c = tops c"
    "c < NUM_CPU_CORES \<Longrightarrow> tops c = Some t \<Longrightarrow> t \<in> set (in_order L c False) \<or> extra c t"
    "fronts \<Longrightarrow> c < NUM_CPU_CORES \<Longrightarrow> tops c = hd_opt (in_order L c False)"
  using assms by (simp_all add: tops_ok_def)

lemma scheduled_once:
  assumes "sched_ok k L" "t \<in> set (in_order L c False)" "t \<in> set (in_order L c' False)"
  shows "c = c'"
  using assms(2,3) unfolding scheduled_member [OF assms(1)] by simp

text \<open>The top thread of a candidate core goes to the idle core, and the next thread takes its place.\<close>

lemma take_candidate_ok:
  assumes st: "tops_ok extra fronts k0 L (tops, needing, k)" and idle: "in_order L core False = []"
    and cd: "cd < NUM_CPU_CORES" "tops cd = Some t" "t \<in> set (in_order L core True)" and t: "t \<in> set (in_order L cd False)"
    and nx: "GetScheduledNext cd t (queue_state k) = Some n"
    and u: "UpdateHighestPriorityThread tick cd (Some n) k = (msk, k1)"
  shows "\<exists>L'. tops_ok extra fronts k0 L' (place_on_idle_core tick core t (tops(cd := Some n), needing OR msk, k1)) \<and>
    (\<forall>c. c \<noteq> core \<longrightarrow> in_order L' c False = remove1 t (in_order L c False))"
proof -
  note d = tops_okD [OF st] and f = UpdateHighestPriorityThread_facts [OF u]
  obtain us vs where xs: "in_order L cd False = us @ t # vs" using split_list [OF t] by blast
  have "Some n = hd_opt vs" using queue_next [OF d(1) cd(1) xs] nx by (simp add: GetScheduledNext_def queue_of_def)
  then obtain vs' where vs: "vs = n # vs'" by (cases vs) auto
  have dist: "distinct (us @ t # vs)" using distinct_in_order [OF sched_ok_parts(1) [OF d(1)], of cd False] xs by simp
  have rm: "remove1 t (in_order L cd False) = us @ vs" using dist by (simp add: xs remove1_append)
  have ok1: "sched_ok k1 L" using bookkeeping_sched_ok [OF f(1)] d(1) by simp
  have other: "t \<notin> set (in_order L c False)" if "c \<noteq> cd" for c using scheduled_once [OF d(1) t] that by blast
  show ?thesis
  proof (rule place_on_idle_core_ok [OF ok1 flagged_update [OF d(2) cd(1) u]])
    show "\<forall>c<NUM_CPU_CORES. highest_of k1 c = (tops(cd := Some n)) c" using f(2) d(3) by auto
    show "x \<in> set (in_order L c False) \<and> x \<noteq> t \<or> extra c x" if "c < NUM_CPU_CORES" "(tops(cd := Some n)) c = Some x" for c x
    proof (cases "c = cd")
      case True
      then show ?thesis using that dist xs vs by auto
    next
      case False
      then have "x \<in> set (in_order L c False) \<or> extra c x" using that d(4) by simp
      then show ?thesis using other [OF False] by auto
    qed
    show "\<forall>c<NUM_CPU_CORES. (tops(cd := Some n)) c = hd_opt (remove1 t (in_order L c False))" if fr: fronts
    proof (intro allI impI)
      fix c
      assume c: "c < NUM_CPU_CORES"
      show "(tops(cd := Some n)) c = hd_opt (remove1 t (in_order L c False))"
      proof (cases "c = cd")
        case True
        have "hd_opt (us @ t # vs) = Some t" using d(5) [OF fr cd(1)] cd(2) xs by simp
        then have "us = []" using dist by (cases us) auto
        then show ?thesis using True rm vs by simp
      next
        case False
        then show ?thesis using d(5) [OF fr c] remove1_idem [OF other [OF False]] by simp
      qed
    qed
  qed (rule cd(3), rule idle)
qed

definition candidate :: "tops \<Rightarrow> lists \<Rightarrow> nat \<Rightarrow> int \<Rightarrow> bool" where
  "candidate tops L core cd \<longleftrightarrow>
     0 \<le> cd \<and> nat cd < NUM_CPU_CORES \<and> (\<exists>t. tops (nat cd) = Some t \<and> t \<in> set (in_order L core True) \<and> t \<in> set (in_order L (nat cd) False))"

lemma try_candidates_ok:
  assumes st: "tops_ok extra fronts k0 L (tops, needing, k)" and idle: "in_order L core False = []"
    and cs: "\<forall>cd\<in>set cs. candidate tops L core cd"
  shows "\<exists>st' L'. try_candidates tick core cs (tops, needing, k) = Some st' \<and> tops_ok extra fronts k0 L' st' \<and>
    (\<forall>c. c \<noteq> core \<longrightarrow> in_order L c False = [] \<longrightarrow> in_order L' c False = [])"
  using cs
proof (induction cs)
  case Nil
  then show ?case using st by auto
next
  case (Cons cd cs)
  obtain t where t: "nat cd < NUM_CPU_CORES" "tops (nat cd) = Some t" "t \<in> set (in_order L core True)" "t \<in> set (in_order L (nat cd) False)"
    using Cons.prems by (auto simp: candidate_def)
  show ?case
  proof (cases "GetScheduledNext (nat cd) t (queue_state k)")
    case None
    then show ?thesis using Cons t(2) by simp
  next
    case (Some n)
    obtain msk k1 where u: "UpdateHighestPriorityThread tick (nat cd) (Some n) k = (msk, k1)" by (metis surj_pair)
    obtain L' where "tops_ok extra fronts k0 L' (place_on_idle_core tick core t (tops(nat cd := Some n), needing OR msk, k1))"
      "\<forall>c. c \<noteq> core \<longrightarrow> in_order L' c False = remove1 t (in_order L c False)"
      using take_candidate_ok [OF st idle t Some u] by blast
    then show ?thesis using t(2) Some u by auto
  qed
qed

lemma fill_idle_core_ok:
  assumes st: "tops_ok extra fronts k0 L st" and core: "core < NUM_CPU_CORES" and idle: "in_order L core False = []"
  shows "\<exists>st' L'. fill_idle_core tick core st = Some st' \<and> tops_ok extra fronts k0 L' st' \<and>
    (\<forall>c. c \<noteq> core \<longrightarrow> in_order L c False = [] \<longrightarrow> in_order L' c False = [])"
proof -
  obtain tops needing k where st_eq: "st = (tops, needing, k)" by (metis surj_pair)
  note d = tops_okD [OF st [unfolded st_eq]]
  let ?xs = "in_order L core True"
  have walk: "walk (\<lambda>t. GetSuggestedNext core t (queue_state k)) (consider_suggestion tops k) (hd_opt ?xs) [] =
      Some (walk_list (consider_suggestion tops k) ?xs [])"
    using suggested_walk [OF d(1) core] queue_fronts(2) [OF d(1) core] by simp
  note front = queue_fronts(2) [OF d(1) core]
  consider (none) "?xs = []" | (stop) "walk_list (consider_suggestion tops k) ?xs [] = Inr None"
    | (move) t where "walk_list (consider_suggestion tops k) ?xs [] = Inr (Some t)"
    | (all) cs where "walk_list (consider_suggestion tops k) ?xs [] = Inl cs" "?xs \<noteq> []"
    by (metis sum.exhaust option.exhaust)
  then show ?thesis
  proof cases
    case none
    then show ?thesis using st front by (auto simp: fill_idle_core_def st_eq)
  next
    case stop
    then have "?xs \<noteq> []" by auto
    then obtain x where "hd_opt ?xs = Some x" by (cases ?xs) auto
    then show ?thesis using st front walk stop by (auto simp: fill_idle_core_def st_eq)
  next
    case (move t)
    obtain t' a where t': "t' \<in> set ?xs" "consider_suggestion tops k t' a = Inr (Some t)"
      using move by (rule walk_list_stop)
    note tt = suggestion_stop [OF t'(2)]
    have t: "t \<in> set ?xs" using t'(1) tt(1) by simp
    have ne: "t \<notin> set (in_order L c False)" if "tops c = Some t" for c
      using tt that scheduled_member [OF d(1), of t c] by auto
    have "\<exists>L'. tops_ok extra fronts k0 L' (place_on_idle_core tick core t (tops, needing, k)) \<and>
        (\<forall>c. c \<noteq> core \<longrightarrow> in_order L' c False = remove1 t (in_order L c False))"
    proof (rule place_on_idle_core_ok [OF d(1-3)])
      show "u \<in> set (in_order L c False) \<and> u \<noteq> t \<or> extra c u" if "c < NUM_CPU_CORES" "tops c = Some u" for c u
        using ne [of c] d(4) [OF that] that(2) by auto
      show "\<forall>c<NUM_CPU_CORES. tops c = hd_opt (remove1 t (in_order L c False))" if fronts
      proof (intro allI impI)
        fix c
        assume c: "c < NUM_CPU_CORES"
        have "hd_opt (in_order L c False) \<noteq> Some t"
          using ne [of c] d(5) [OF that c] by (cases "in_order L c False") auto
        then show "tops c = hd_opt (remove1 t (in_order L c False))" using d(5) [OF that c] by (simp add: hd_opt_remove1)
      qed
    qed (rule t, rule idle)
    moreover obtain x where "hd_opt ?xs = Some x" using t by (cases ?xs) auto
    ultimately show ?thesis using front walk move by (auto simp: fill_idle_core_def st_eq)
  next
    case (all cs)
    note cand = candidates_of_suggestions [OF all(1)]
    have "candidate tops L core cd" if "cd \<in> set cs" for cd
    proof -
      obtain t where t: "t \<in> set ?xs" "cd = th_core_id (thread_of k t)" using \<open>cd \<in> set cs\<close> cand(1) by auto
      have "nat cd < NUM_CPU_CORES"
        using active_core_valid [OF d(1) suggested_member(1) [OF d(1) t(1)]] cand(2) [OF t(1)] t(2) by simp
      moreover have "t \<in> set (in_order L (nat cd) False)"
        using scheduled_member [OF d(1), of t "nat cd"] suggested_member(1) [OF d(1) t(1)] cand(2) [OF t(1)] t(2) by simp
      ultimately show ?thesis using cand(2) [OF t(1)] t by (auto simp: candidate_def)
    qed
    then have "\<exists>st' L'. try_candidates tick core cs (tops, needing, k) = Some st' \<and> tops_ok extra fronts k0 L' st' \<and>
        (\<forall>c. c \<noteq> core \<longrightarrow> in_order L c False = [] \<longrightarrow> in_order L' c False = [])"
      by (intro try_candidates_ok [OF st [unfolded st_eq] idle]) blast
    moreover obtain x where "hd_opt ?xs = Some x" using all(2) by (cases ?xs) auto
    ultimately show ?thesis using front walk all(1) by (simp add: fill_idle_core_def st_eq)
  qed
qed

lemma fill_idle_cores_ok:
  assumes "tops_ok extra fronts k0 L st" "\<And>c. bit idle c \<Longrightarrow> c < NUM_CPU_CORES \<and> in_order L c False = []"
  shows "\<exists>st' L'. fill_idle_cores tick idle st = Some st' \<and> tops_ok extra fronts k0 L' st'"
  using assms
proof (induction tick idle st arbitrary: L rule: fill_idle_cores.induct)
  case (1 tick idle st)
  show ?case
  proof (cases "idle = 0")
    case True
    then show ?thesis using "1.prems"(1) by (auto simp: fill_idle_cores.simps)
  next
    case False
    let ?c = "countr_zero idle" and ?idle = "idle AND NOT (push_bit (countr_zero idle) 1)"
    have c: "bit idle ?c" "?c < 64" using countr_zero_spec [OF False] by simp_all
    have idle: "?c < NUM_CPU_CORES" "in_order L ?c False = []" using "1.prems"(2) [OF c(1)] by simp_all
    obtain st1 L1 where st1: "fill_idle_core tick ?c st = Some st1" "tops_ok extra fronts k0 L1 st1"
      "\<forall>c. c \<noteq> ?c \<longrightarrow> in_order L c False = [] \<longrightarrow> in_order L1 c False = []"
      using fill_idle_core_ok [OF "1.prems"(1) idle] by blast
    have "bit ?idle c \<longleftrightarrow> bit idle c \<and> c \<noteq> ?c" for c
      using bit_ClearAffinityBit [OF c(2), of idle c] by (simp add: ClearAffinityBit_def)
    then have "c < NUM_CPU_CORES \<and> in_order L1 c False = []" if "bit ?idle c" for c
      using that "1.prems"(2) [of c] st1(3) by blast
    then have "\<exists>st' L'. fill_idle_cores tick ?idle st1 = Some st' \<and> tops_ok extra fronts k0 L' st'"
      by (intro "1.IH" [OF False refl st1(1,2)])
    then show ?thesis using st1(1) False unfolding fill_idle_cores.simps [of tick idle] Let_def by auto
  qed
qed

section \<open>The update\<close>

lemma WakeupWaitingDummyThreads_facts:
  "k_schedulers (WakeupWaitingDummyThreads k) = k_schedulers k"
  "same_queueing (thread_of k t) (thread_of (WakeupWaitingDummyThreads k) t)"
  by (simp_all add: WakeupWaitingDummyThreads_def DummyThreadEndWait_def same_queueing_def)

definition update_ok :: "(nat \<Rightarrow> thread \<Rightarrow> bool) \<Rightarrow> bool \<Rightarrow> kernel \<Rightarrow> lists \<Rightarrow> u64 \<Rightarrow> kernel \<Rightarrow> bool" where
  "update_ok extra fronts k0 L needing k \<longleftrightarrow> (\<exists>tops. tops_ok extra fronts k0 L (tops, needing, k))"

lemma update_ok_kernel:
  assumes "update_ok extra fronts k0 L needing k" "k_schedulers k' = k_schedulers k" "sched_ok k' L = sched_ok k L"
  shows "update_ok extra fronts k0 L needing k'"
  using assms flagged_schedulers [OF assms(2)] by (simp add: update_ok_def tops_ok_def)

lemma UpdateHighestPriorityThreadsImpl_ok:
  assumes ok: "sched_ok k L" and extra: "\<And>c t. c < NUM_CPU_CORES \<Longrightarrow> pinned_on k c t \<Longrightarrow> t \<in> set (in_order L c False) \<or> extra c t"
  shows "\<exists>needing k' L'. UpdateHighestPriorityThreadsImpl tick cur k = Some (needing, k') \<and>
    update_ok extra (no_pins k) k L' needing k'"
proof -
  let ?k = "ClearSchedulerUpdateNeeded k"
  have same: "k_threads ?k = k_threads k" "k_priority_queue ?k = k_priority_queue k" "k_processes ?k = k_processes k"
      "k_schedulers ?k = k_schedulers k" by (simp_all add: ClearSchedulerUpdateNeeded_def)
  have ok0: "sched_ok ?k L" using ok sched_ok_cong [of ?k k L] by (simp add: same)
  have pins0: "pinned_on ?k = pinned_on k" "no_pins ?k = no_pins k" by (simp_all add: pinned_on_def no_pins_def same fun_eq_iff)
  have source: "t \<in> set (in_order L c False) \<or> extra c t" if "c < NUM_CPU_CORES" "top_thread_of c ?k = Some t" for c t
    using top_thread_of_source [OF ok0 that] extra [OF that(1)] pins0(1) by auto
  obtain tops needing idle k1 where
    first: "foldl (choose_top_thread tick) (\<lambda>_. None, 0, 0, ?k) [0..<NUM_CPU_CORES] = (tops, needing, idle, k1)" by (metis surj_pair)
  have i: "bookkeeping ?k k1" "flagged ?k needing k1" "\<And>c. c < NUM_CPU_CORES \<Longrightarrow> tops c = top_thread_of c ?k \<and> highest_of k1 c = tops c"
    "\<And>c. bit idle c \<longleftrightarrow> c < NUM_CPU_CORES \<and> GetScheduledFront c (queue_state ?k) = None"
    using first_choice_all [OF order_refl, of ?k tick] by (simp_all add: first first_choice_def)
  have "tops_ok extra (no_pins k) k L (tops, needing, k1)"
    unfolding tops_ok_def
    using bookkeeping_sched_ok [OF i(1)] ok0 i(2,3) source top_thread_of_front [of ?k] pins0(2)
      queue_fronts(1) [OF ok0] by (auto simp: flagged_def same)
  moreover have "c < NUM_CPU_CORES \<and> in_order L c False = []" if "bit idle c" for c
    using that i(4) [of c] queue_fronts(1) [OF ok0, of c] by (cases "in_order L c False") auto
  ultimately obtain st2 L2 where st2: "fill_idle_cores tick idle (tops, needing, k1) = Some st2" "tops_ok extra (no_pins k) k L2 st2"
    using fill_idle_cores_ok [of extra "no_pins k" k L _ idle tick] by blast
  moreover obtain tops2 needing2 k2 where "st2 = (tops2, needing2, k2)" by (metis surj_pair)
  ultimately have fill: "fill_idle_cores tick idle (tops, needing, k1) = Some (tops2, needing2, k2)"
    "tops_ok extra (no_pins k) k L2 (tops2, needing2, k2)" by simp_all
  have u2: "update_ok extra (no_pins k) k L2 needing2 k2" unfolding update_ok_def by (rule exI [where x = tops2]) (rule fill(2))
  have up: "update_ok extra (no_pins k) k L2 needing2 (WakeupWaitingDummyThreads k2)"
    by (rule update_ok_kernel [OF u2]) (simp_all add: WakeupWaitingDummyThreads_facts)
  have waiting: "update_ok extra (no_pins k) k L2 needing2 (set_thread cur RequestDummyThreadWait (WakeupWaitingDummyThreads k2))"
    by (rule update_ok_kernel [OF up]) simp_all
  define k4 where "k4 = (if th_is_dummy (thread_of (WakeupWaitingDummyThreads k2) cur) \<and>
        th_state (thread_of (WakeupWaitingDummyThreads k2) cur) AND ThreadState_Mask \<noteq> Runnable
      then set_thread cur RequestDummyThreadWait (WakeupWaitingDummyThreads k2) else WakeupWaitingDummyThreads k2)"
  have "UpdateHighestPriorityThreadsImpl tick cur k = Some (needing2, k4)"
    by (simp only: UpdateHighestPriorityThreadsImpl_def first fill(1) Let_def prod.case option.case k4_def)
  moreover have "update_ok extra (no_pins k) k L2 needing2 k4" unfolding k4_def by (simp only: up waiting split: if_split) simp
  ultimately show ?thesis by (intro exI conjI)
qed

text \<open>What the update promises, without the lists.\<close>

definition first_on_core :: "kernel \<Rightarrow> nat \<Rightarrow> thread option \<Rightarrow> bool" where
  "first_on_core k c h \<longleftrightarrow>
     (case h of
        None \<Rightarrow> \<forall>u. \<not> (in_queue (thread_of k u) \<and> th_core_id (thread_of k u) = int c)
      | Some t \<Rightarrow>
          in_queue (thread_of k t) \<and> th_core_id (thread_of k t) = int c \<and>
          (\<forall>u. in_queue (thread_of k u) \<and> th_core_id (thread_of k u) = int c \<longrightarrow>
             th_priority (thread_of k t) \<le> th_priority (thread_of k u)))"

lemma in_order_sorted:
  assumes ok: "sched_ok k L"
  shows "sorted (map (\<lambda>t. th_priority (thread_of k t)) (in_order L c b))"
proof -
  have p: "th_priority (thread_of k t) = q" if "t \<in> set (L c (b, q))" for t q using listed_member(2) [OF ok that] by simp
  have "sorted (map (\<lambda>t. th_priority (thread_of k t)) (concat (map (\<lambda>q. L c (b, q)) qs)))" if "sorted qs" for qs
    using that
  proof (induction qs)
    case (Cons q qs)
    have "map (\<lambda>t. th_priority (thread_of k t)) (L c (b, q)) = replicate (length (L c (b, q))) q"
      by (rule replicate_eqI) (auto simp: p)
    then have "sorted (map (\<lambda>t. th_priority (thread_of k t)) (L c (b, q)))" by (simp add: sorted_replicate)
    then show ?case using Cons p by (auto simp: sorted_append)
  qed simp
  from this [OF sorted_upt] show ?thesis unfolding in_order_def .
qed

lemma first_on_core_front:
  assumes ok: "sched_ok k L"
  shows "first_on_core k c (hd_opt (in_order L c False))"
proof (cases "in_order L c False")
  case Nil
  then show ?thesis using scheduled_member [OF ok, of _ c] by (auto simp: first_on_core_def)
next
  case (Cons t ts)
  have "th_priority (thread_of k t) \<le> th_priority (thread_of k u)" if "u \<in> set (in_order L c False)" for u
    using in_order_sorted [OF ok, of c False] that by (auto simp: Cons)
  moreover have "t \<in> set (in_order L c False)" by (simp add: Cons)
  ultimately have "in_queue (thread_of k t) \<and> th_core_id (thread_of k t) = int c"
    "\<forall>u. in_queue (thread_of k u) \<and> th_core_id (thread_of k u) = int c \<longrightarrow>
       th_priority (thread_of k t) \<le> th_priority (thread_of k u)"
    unfolding scheduled_member [OF ok, symmetric] by simp_all
  then show ?thesis by (simp add: first_on_core_def Cons)
qed

end
