(* ===== verification/ThreadBehaviour.thy ===== *)
theory ThreadBehaviour
  imports Thread SchedulerUpdate
begin

text \<open>
  The operations of threads and of the scheduler together: every one of them keeps the queues in step with the threads, and
  leaves the fields alone that it does not mean to change.
\<close>

section \<open>Fields that the scheduler leaves alone\<close>

definition projected :: "(KThread \<Rightarrow> 'a) \<Rightarrow> threads \<Rightarrow> thread \<Rightarrow> 'a" where
  "projected f ths = (\<lambda>t. f (ths t))"

lemma projected_upd:
  assumes "f th = f (ths t)"
  shows "projected f (ths(t := th)) = projected f ths"
  using assms by (auto simp: projected_def)

text \<open>A view of a thread that does not depend on its links: the operations of the queue leave it alone.\<close>

locale link_blind =
  fixes view :: "KThread \<Rightarrow> 'a"
  assumes blind: "view (th \<lparr> th_entries := e \<rparr>) = view th"
begin

abbreviation seen :: "threads \<Rightarrow> thread \<Rightarrow> 'a" where
  "seen \<equiv> projected view"

lemma seen_links [simp]:
  "seen (snd (set_prev c w v s)) = seen (snd s)" "seen (snd (set_next c w v s)) = seen (snd s)"
  by (simp_all add: set_prev_def set_next_def projected_upd blind split: prod.split option.split)

lemma seen_PerCore [simp]:
  "seen (snd (snd (PerCore_PushBack c m s))) = seen (snd s)"
  "seen (snd (snd (PerCore_PushFront c m s))) = seen (snd s)"
  "seen (snd (snd (PerCore_Remove c m s))) = seen (snd s)"
  by (simp_all add: PerCore_PushBack_def PerCore_PushFront_def PerCore_Remove_def Let_def)

lemma seen_Impl [simp]:
  "seen (snd (Impl_PushBack p c m s)) = seen (snd s)" "seen (snd (Impl_PushFront p c m s)) = seen (snd s)"
  "seen (snd (Impl_Remove p c m s)) = seen (snd s)" "seen (snd (snd (Impl_MoveToBack p c m s))) = seen (snd s)"
  by (simp_all add: Impl_PushBack_def Impl_PushFront_def Impl_Remove_def Impl_MoveToBack_def case_prod_beta Let_def)

lemma seen_on [simp]:
  assumes "\<And>x. seen (snd (f x)) = seen (snd x)"
  shows "seen (snd (on_scheduled f s)) = seen (snd s)" "seen (snd (on_suggested f s)) = seen (snd s)"
  using assms [of "(pq_scheduled (fst s), snd s)"] assms [of "(pq_suggested (fst s), snd s)"]
  by (auto simp: on_scheduled_def on_suggested_def split: prod.split)

lemma seen_for_cores:
  assumes "\<And>c s. seen (snd (f c s)) = seen (snd s)"
  shows "seen (snd (for_cores f a s)) = seen (snd s)"
  using assms by (induction f a s rule: for_cores.induct) (auto simp: for_cores.simps split: prod.split)

lemma seen_foldl:
  assumes "\<And>c s. seen (snd (f s c)) = seen (snd s)"
  shows "seen (snd (foldl f s cs)) = seen (snd s)"
  by (induction cs arbitrary: s) (simp_all add: assms)

lemma seen_active_core:
  assumes "\<And>c x. seen (snd (f c x)) = seen (snd x)"
  shows "seen (snd (snd (active_core_step f m s))) = seen (snd s)"
  using assms by (simp add: active_core_step_def Let_def)

lemma seen_at [simp]:
  "seen (snd (PQ_PushBack_at p m s)) = seen (snd s)" "seen (snd (PQ_PushFront_at p m s)) = seen (snd s)"
  "seen (snd (PQ_Remove_at p m s)) = seen (snd s)"
  unfolding PQ_PushBack_at_def PQ_PushFront_at_def PQ_Remove_at_def
  by (simp_all add: case_prod_beta seen_for_cores seen_active_core)

lemma seen_queue_ops [simp]:
  "seen (snd (PQ_PushBack m s)) = seen (snd s)" "seen (snd (PQ_Remove m s)) = seen (snd s)"
  "seen (snd (ChangePriority p r m s)) = seen (snd s)" "seen (snd (ChangeAffinityMask c a m s)) = seen (snd s)"
  "seen (snd (ChangeCore c m f s)) = seen (snd s)" "seen (snd (snd (MoveToScheduledBack m s))) = seen (snd s)"
proof -
  show "seen (snd (PQ_PushBack m s)) = seen (snd s)" "seen (snd (PQ_Remove m s)) = seen (snd s)"
    "seen (snd (ChangePriority p r m s)) = seen (snd s)"
    by (simp_all add: PQ_PushBack_def PQ_Remove_def ChangePriority_def Let_def)
  show "seen (snd (ChangeCore c m f s)) = seen (snd s)" by (simp add: ChangeCore_def Let_def)
  show "seen (snd (ChangeAffinityMask c a m s)) = seen (snd s)"
    by (simp add: ChangeAffinityMask_def Let_def seen_foldl leave_core_def enter_core_def)
  show "seen (snd (snd (MoveToScheduledBack m s))) = seen (snd s)"
    by (simp add: MoveToScheduledBack_def case_prod_beta)
qed

lemma seen_On [simp]:
  "seen (k_threads (OnThreadStateChanged t old k)) = seen (k_threads k)"
  "seen (k_threads (OnThreadPriorityChanged cur t p k)) = seen (k_threads k)"
  "seen (k_threads (OnThreadAffinityMaskChanged t a c k)) = seen (k_threads k)"
  by (simp_all add: OnThreadStateChanged_def OnThreadPriorityChanged_def OnThreadAffinityMaskChanged_def Let_def
      RegisterDummyThreadForWakeup_def UnregisterDummyThreadForWakeup_def)

end

text \<open>A thread without its links, its active core and the scheduler's own counters.\<close>

definition kept :: "KThread \<Rightarrow> KThread" where
  "kept th = th \<lparr> th_entries := \<lambda>_. QueueEntry_Initialize, th_core_id := 0, th_last_scheduled_tick := 0,
     th_schedule_count := 0, th_dummy_runnable := False \<rparr>"

lemma kept_updates [simp]:
  "kept (th \<lparr> th_entries := e \<rparr>) = kept th" "kept (th \<lparr> th_core_id := c \<rparr>) = kept th"
  "kept (th \<lparr> th_last_scheduled_tick := v \<rparr>) = kept th" "kept (th \<lparr> th_schedule_count := n \<rparr>) = kept th"
  "kept (th \<lparr> th_dummy_runnable := b \<rparr>) = kept th"
  by (simp_all add: kept_def)

interpretation kept: link_blind kept
  by unfold_locales simp

interpretation core: link_blind th_core_id
  by unfold_locales simp

interpretation count: link_blind th_schedule_count
  by unfold_locales simp

abbreviation static :: "threads \<Rightarrow> thread \<Rightarrow> KThread" where
  "static \<equiv> projected kept"

lemmas static_def = projected_def [of kept]

lemmas static_upd = projected_upd [of kept]

text \<open>The part of the kernel that the scheduler never writes to: the locks, the trees of waiting threads and the memory.\<close>

definition lock_state where
  "lock_state k = (k_lock_infos k, k_next_lock k, k_thread_trees k, k_memory k)"

lemma lock_state_updates [simp]:
  "lock_state (set_process p f k) = lock_state k" "lock_state (set_scheduler c g k) = lock_state k"
  "lock_state (set_thread t h k) = lock_state k" "lock_state (put_queue_state s k) = lock_state k"
  "lock_state (SetSchedulerUpdateNeeded k) = lock_state k" "lock_state (ClearSchedulerUpdateNeeded k) = lock_state k"
  "lock_state (IncrementScheduledCount t k) = lock_state k" "lock_state (WakeupWaitingDummyThreads k) = lock_state k"
  "lock_state (RegisterDummyThreadForWakeup t k) = lock_state k" "lock_state (UnregisterDummyThreadForWakeup t k) = lock_state k"
  by (simp_all add: lock_state_def set_process_def set_scheduler_def set_thread_def put_queue_state_def SetSchedulerUpdateNeeded_def
      ClearSchedulerUpdateNeeded_def IncrementScheduledCount_def WakeupWaitingDummyThreads_def RegisterDummyThreadForWakeup_def
      UnregisterDummyThreadForWakeup_def split: option.split)

lemma lock_state_On [simp]:
  "lock_state (OnThreadStateChanged t old k) = lock_state k" "lock_state (OnThreadPriorityChanged cur t p k) = lock_state k"
  "lock_state (OnThreadAffinityMaskChanged t a c k) = lock_state k"
  by (simp_all add: OnThreadStateChanged_def OnThreadPriorityChanged_def OnThreadAffinityMaskChanged_def Let_def)

text \<open>The kernel.\<close>

definition statics where
  "statics k = (static (k_threads k), lock_state k)"

lemma statics_updates [simp]:
  "statics (set_process p f k) = statics k" "statics (set_scheduler c g k) = statics k"
  "kept (h (thread_of k t)) = kept (thread_of k t) \<Longrightarrow> statics (set_thread t h k) = statics k"
  "static (snd s) = static (k_threads k) \<Longrightarrow> statics (put_queue_state s k) = statics k"
  "statics (SetSchedulerUpdateNeeded k) = statics k" "statics (ClearSchedulerUpdateNeeded k) = statics k"
  "statics (IncrementScheduledCount t k) = statics k"
  by (simp_all add: statics_def static_upd) (simp add: ClearSchedulerUpdateNeeded_def)

lemma statics_On [simp]:
  "statics (OnThreadStateChanged t old k) = statics k" "statics (OnThreadPriorityChanged cur t p k) = statics k"
  "statics (OnThreadAffinityMaskChanged t a c k) = statics k"
  by (simp_all add: statics_def)

lemma statics_migrate [simp]: "statics (migrate c f t k) = statics k" "statics (SetActiveCore t x k) = statics k"
  by (simp_all add: migrate_def SetActiveCore_def Let_def static_upd statics_def)

lemma statics_Update [simp]: "statics (snd (UpdateHighestPriorityThread tick c h k)) = statics k"
  by (simp add: UpdateHighestPriorityThread_def Let_def split: option.split)

lemma statics_place [simp]: "statics (snd (snd (place_on_idle_core tick c t st))) = statics (snd (snd st))"
  by (simp add: place_on_idle_core_def case_prod_beta Let_def)

lemma statics_try: "try_candidates tick c cs st = Some st' \<Longrightarrow> statics (snd (snd st')) = statics (snd (snd st))"
  by (induction tick c cs st rule: try_candidates.induct) (auto simp: case_prod_beta Let_def split: option.splits)

lemma statics_fill: "fill_idle_core tick c st = Some st' \<Longrightarrow> statics (snd (snd st')) = statics (snd (snd st))"
  by (auto simp: fill_idle_core_def case_prod_beta Let_def split: option.splits sum.splits dest: statics_try)

lemma statics_fill_all:
  "fill_idle_cores tick idle st = Some st' \<Longrightarrow> statics (snd (snd st')) = statics (snd (snd st))"
proof (induction tick idle st rule: fill_idle_cores.induct)
  case (1 tick idle st)
  show ?case
  proof (cases "idle = 0")
    case True
    then show ?thesis using "1.prems" by (simp add: fill_idle_cores.simps)
  next
    case False
    then obtain st1 where "fill_idle_core tick (countr_zero idle) st = Some st1"
      "fill_idle_cores tick (idle AND NOT (push_bit (countr_zero idle) 1)) st1 = Some st'"
      using "1.prems" unfolding fill_idle_cores.simps [of tick idle] Let_def by (auto split: option.splits)
    then show ?thesis using "1.IH" [OF False refl] statics_fill by metis
  qed
qed

lemma statics_choose: "statics (snd (snd (snd (foldl (choose_top_thread tick) st cs)))) = statics (snd (snd (snd st)))"
  by (induction cs arbitrary: st) (simp_all add: choose_top_thread_def case_prod_beta Let_def)

lemma statics_wakeup [simp]: "statics (WakeupWaitingDummyThreads k) = statics k"
proof -
  have "static (k_threads (WakeupWaitingDummyThreads k)) = static (k_threads k)"
    by (auto simp: WakeupWaitingDummyThreads_def DummyThreadEndWait_def static_def)
  then show ?thesis by (simp add: statics_def)
qed

lemma statics_UpdateImpl:
  assumes "UpdateHighestPriorityThreadsImpl tick cur k = Some (needing, k')"
  shows "statics k' = statics k"
proof -
  obtain tops n idle k1 where f: "foldl (choose_top_thread tick) (\<lambda>_. None, 0, 0, ClearSchedulerUpdateNeeded k) [0..<NUM_CPU_CORES]
      = (tops, n, idle, k1)" by (metis surj_pair)
  then have k1: "statics k1 = statics k"
    using statics_choose [of tick "(\<lambda>_. None, 0, 0, ClearSchedulerUpdateNeeded k)" "[0..<NUM_CPU_CORES]"]
    by simp
  obtain tops2 n2 k2 where g: "fill_idle_cores tick idle (tops, n, k1) = Some (tops2, n2, k2)"
    using assms by (auto simp: UpdateHighestPriorityThreadsImpl_def f split: option.splits)
  have "statics k2 = statics k" using statics_fill_all [OF g] k1 by simp
  then show ?thesis
    using assms by (auto simp: UpdateHighestPriorityThreadsImpl_def f g Let_def RequestDummyThreadWait_def split: if_splits)
qed

lemma statics_found: "migrate_found c r k = Some k' \<Longrightarrow> statics k' = statics k"
  by (auto simp: migrate_found_def split: option.splits sum.splits)

lemma statics_Rotate:
  assumes "RotateScheduledQueue cur c p k = Some k'"
  shows "statics k' = statics k"
proof -
  have r: "statics (snd (snd (rotate_front c p k))) = statics k"
    by (simp add: rotate_front_def case_prod_beta Let_def split: option.split)
  have b: "statics k2 = statics k1" if "migrate_better c p cur k1 = Some k2" for k1 k2
    using that by (auto simp: migrate_better_def split: option.splits if_splits dest: statics_found)
  show ?thesis
    using assms r b by (auto simp: RotateScheduledQueue_def case_prod_beta split: option.splits dest!: statics_found)
qed

lemma statics_preempt: "preempt_cores cur cs k = Some k' \<Longrightarrow> statics k' = statics k"
  by (induction cs arbitrary: k) (auto split: option.splits dest: statics_Rotate)

lemma statics_SetYield [simp]: "statics (SetYieldScheduleCount t v k) = statics k"
  by (simp add: SetYieldScheduleCount_def)

lemma statics_Yields:
  "statics (YieldWithoutCoreMigration cur proc k) = statics k"
  "YieldWithCoreMigration cur proc k = Some k' \<Longrightarrow> statics k' = statics k"
  "YieldToAnyThread cur proc k = Some k' \<Longrightarrow> statics k' = statics k"
    apply (simp add: YieldWithoutCoreMigration_def case_prod_beta Let_def)
   apply (auto simp: YieldWithCoreMigration_def case_prod_beta Let_def split: if_splits option.splits sum.splits)[1]
  by (auto simp: YieldToAnyThread_def case_prod_beta Let_def split: if_splits option.splits sum.splits)

section \<open>Operations of a thread\<close>

lemma store_state_ok:
  assumes ok: "queues_match k"
  shows "queues_match (OnThreadStateChanged t (th_state (thread_of k t)) (store_state t s k))"
proof -
  obtain L where L: "sched_ok k L" using ok by (auto simp: queues_match_def)
  have "changes t ((thread_of k t) \<lparr> th_state := s \<rparr>) k (store_state t s k)" by (simp add: changes_def store_state_def)
  from OnThreadStateChanged_ok [OF L this] show ?thesis by (auto simp: queues_match_def)
qed

lemma store_same_state [simp]: "store_state t (th_state (thread_of k t)) k = k"
  by (simp add: store_state_def set_thread_def)

lemma SetState_ok: "queues_match k \<Longrightarrow> queues_match (SetState t s k)"
  by (auto simp: SetState_def Let_def store_state_ok)

lemma UpdateState_ok: "queues_match k \<Longrightarrow> queues_match (UpdateState t k)"
  by (auto simp: UpdateState_def Let_def store_state_ok)

lemma Continue_ok: "queues_match k \<Longrightarrow> queues_match (Continue t k)"
  by (simp add: Continue_def Let_def store_state_ok)

lemma priority_ok:
  assumes "queues_match k"
  shows "queues_match (OnThreadPriorityChanged cur t (th_priority (thread_of k t)) (set_thread t (\<lambda>th. th \<lparr> th_priority := p \<rparr>) k))"
proof -
  obtain L where L: "sched_ok k L" using assms by (auto simp: queues_match_def)
  have "changes t ((thread_of k t) \<lparr> th_priority := p \<rparr>) k (set_thread t (\<lambda>th. th \<lparr> th_priority := p \<rparr>) k)"
    by (simp add: changes_def)
  from OnThreadPriorityChanged_ok [OF L this] show ?thesis by (auto simp: queues_match_def)
qed

lemma queues_match_set_thread:
  assumes "\<And>th. th_entries (h th) = th_entries th" "\<And>th. same_queueing th (h th)"
  shows "queues_match (set_thread t h k) = queues_match k"
  by (simp add: queues_match_def sched_ok_set_thread [OF assms])

lemma queues_match_flags [simp]:
  "queues_match (set_thread t (\<lambda>th. th \<lparr> th_suspend_request_flags := f th \<rparr>) k) = queues_match k"
  "queues_match (set_thread t (\<lambda>th. th \<lparr> th_suspend_allowed_flags := f th \<rparr>) k) = queues_match k"
  "queues_match (set_thread t (\<lambda>th. th \<lparr> th_pinned_waiter_list := w \<rparr>) k) = queues_match k"
  "queues_match (set_thread t (\<lambda>th. th \<lparr> th_virtual_ideal_core_id := i \<rparr>) k) = queues_match k"
  "queues_match (set_thread t (\<lambda>th. th \<lparr> th_virtual_affinity_mask := a \<rparr>) k) = queues_match k"
  "queues_match (set_thread t (\<lambda>th. th \<lparr> th_original_physical_ideal_core_id := i, th_original_physical_affinity_mask := a \<rparr>) k) =
    queues_match k"
  "queues_match (set_thread t (\<lambda>th. th \<lparr> th_wait_queue := wq \<rparr>) k) = queues_match k"
  "queues_match (set_thread t (\<lambda>th. th \<lparr> th_wait_result := r \<rparr>) k) = queues_match k"
  "queues_match (set_process p g k) = queues_match k"
  by (simp_all add: queues_match_set_thread same_queueing_def) (simp add: queues_match_def)

lemma suspension_ok:
  assumes "queues_match k"
  shows "queues_match (TrySuspend t k)" "queues_match (RequestSuspend t ty k)" "queues_match (Resume t ty k)"
  using assms by (auto simp: TrySuspend_def RequestSuspend_def Resume_def intro!: UpdateState_ok)

lemma waiting_ok:
  assumes "queues_match k"
  shows "queues_match (BeginWait t q k)" "queues_match (KThreadQueue_EndWait t r k)" "queues_match (EndWait t r k)"
  using assms by (simp_all add: BeginWait_def KThreadQueue_EndWait_def EndWait_def SetState_ok)

section \<open>Changes of the affinity\<close>

definition valid_mask :: "u64 \<Rightarrow> bool" where
  "valid_mask a \<longleftrightarrow> a \<noteq> 0 \<and> (\<forall>c. bit a c \<longrightarrow> c < NUM_CPU_CORES)"

definition valid_ideal :: "int \<Rightarrow> u64 \<Rightarrow> bool" where
  "valid_ideal core a \<longleftrightarrow> (0 \<le> core \<longrightarrow> bit a (nat core))"

lemma fallback_core_valid:
  assumes "valid_mask (th_affinity th)" "valid_ideal (th_physical_ideal_core_id th) (th_affinity th)"
  shows "valid_place (fallback_core th) (th_affinity th)"
proof (cases "0 \<le> th_physical_ideal_core_id th")
  case True
  then show ?thesis using assms by (simp add: fallback_core_def valid_place_def valid_mask_def valid_ideal_def)
next
  case False
  have "bit (th_affinity th) (63 - countl_zero (th_affinity th))"
    using countl_zero_spec [of "th_affinity th"] assms(1) by (simp add: valid_mask_def)
  then have "bit (th_affinity th) (nat (fallback_core th))" using False by (simp add: fallback_core_def)
  then show ?thesis using assms(1) by (simp add: valid_place_def valid_mask_def)
qed

text \<open>The active core after a change of the mask.\<close>

definition settled_core :: "int \<Rightarrow> KThread \<Rightarrow> int" where
  "settled_core active th =
     (if 0 \<le> active \<and> \<not> GetAffinity (th_affinity th) (nat active) then fallback_core th else active)"

lemma settled_core_valid:
  assumes mask: "valid_mask (th_affinity th)" "valid_ideal (th_physical_ideal_core_id th) (th_affinity th)" and active: "active < 64"
  shows "valid_place (settled_core active th) (th_affinity th)"
proof (cases "0 \<le> active \<and> \<not> GetAffinity (th_affinity th) (nat active)")
  case True
  then show ?thesis using fallback_core_valid [OF mask] by (simp add: settled_core_def)
next
  case False
  then show ?thesis
    using mask(1) active GetAffinity_bit [of "nat active" "th_affinity th"]
    by (auto simp: settled_core_def valid_place_def valid_mask_def)
qed

lemma affinity_change_ok:
  assumes ok: "queues_match k"
    and h: "th_entries (h (thread_of k t)) = th_entries (thread_of k t)" "th_priority (h (thread_of k t)) = th_priority (thread_of k t)"
      "th_state (h (thread_of k t)) = th_state (thread_of k t)" "th_is_dummy (h (thread_of k t)) = th_is_dummy (thread_of k t)"
    and new: "valid_place (th_core_id (h (thread_of k t))) (th_affinity (h (thread_of k t)))"
  shows "queues_match (OnThreadAffinityMaskChanged t (th_affinity (thread_of k t)) (th_core_id (thread_of k t)) (set_thread t h k))"
proof -
  obtain L where L: "sched_ok k L" using ok by (auto simp: queues_match_def)
  have "changes t (h (thread_of k t)) k (set_thread t h k)" by (simp add: changes_def h)
  from OnThreadAffinityMaskChanged_ok [OF L this] show ?thesis
    using new h by (auto simp: queues_match_def placed_def)
qed

lemma active_core_bound:
  assumes "queues_match k"
  shows "th_core_id (thread_of k t) < 64"
proof -
  obtain L where "sched_ok k L" using assms by (auto simp: queues_match_def)
  from sched_ok_parts(3) [OF this, of t] show ?thesis by (auto simp: placed_def valid_place_def NUM_CPU_CORES_def)
qed

lemma queues_match_set_same:
  assumes "th_entries (h (thread_of k t)) = th_entries (thread_of k t)" "same_queueing (thread_of k t) (h (thread_of k t))"
  shows "queues_match (set_thread t h k) = queues_match k"
proof -
  have "sched_ok (set_thread t h k) L = sched_ok k L" for L by (rule sched_ok_cong) (simp_all add: assms)
  then show ?thesis by (simp add: queues_match_def)
qed

lemma set_thread_twice [simp]: "set_thread t g (set_thread t h k) = set_thread t (\<lambda>th. g (h th)) k"
  by (simp add: set_thread_def)

lemma Pin_ok:
  assumes ok: "queues_match k" and c: "c < NUM_CPU_CORES"
  shows "queues_match (Pin t c k)"
proof -
  let ?th = "thread_of k t"
  let ?h = "\<lambda>th :: KThread. th \<lparr> th_is_pinned := True, th_num_core_migration_disables := th_num_core_migration_disables th + 1,
    th_original_physical_ideal_core_id := th_physical_ideal_core_id th, th_original_physical_affinity_mask := th_affinity ?th,
    th_core_id := int c, th_physical_ideal_core_id := int c, th_affinity := push_bit c 1 \<rparr>"
  have valid: "valid_place (int c) (push_bit c 1)" using c by (auto simp: valid_place_def NUM_CPU_CORES_def bit_exp_iff)
  have "queues_match (if th_core_id ?th \<noteq> int c \<or> push_bit c 1 \<noteq> th_affinity ?th
      then OnThreadAffinityMaskChanged t (th_affinity ?th) (th_core_id ?th) (set_thread t ?h k) else set_thread t ?h k)"
  proof (cases "th_core_id ?th \<noteq> int c \<or> push_bit c 1 \<noteq> th_affinity ?th")
    case True
    then show ?thesis using affinity_change_ok [OF ok, of ?h t] valid by simp
  next
    case False
    then have "same_queueing ?th (?h ?th)" by (auto simp: same_queueing_def)
    then have "queues_match (set_thread t ?h k)" using ok queues_match_set_same [of ?h k t] by simp
    then show ?thesis using False by simp
  qed
  then show ?thesis unfolding Pin_def Let_def by (intro UpdateState_ok) (simp only: queues_match_flags)
qed

lemma mask_change_ok:
  assumes ok: "queues_match k"
    and h: "th_entries (h (thread_of k t)) = th_entries (thread_of k t)" "th_priority (h (thread_of k t)) = th_priority (thread_of k t)"
      "th_state (h (thread_of k t)) = th_state (thread_of k t)" "th_is_dummy (h (thread_of k t)) = th_is_dummy (thread_of k t)"
      "th_core_id (h (thread_of k t)) = th_core_id (thread_of k t)"
    and new: "valid_mask (th_affinity (h (thread_of k t)))"
      "valid_ideal (th_physical_ideal_core_id (h (thread_of k t))) (th_affinity (h (thread_of k t)))"
    and core: "core = settled_core (th_core_id (thread_of k t)) (h (thread_of k t))"
  shows "queues_match (OnThreadAffinityMaskChanged t (th_affinity (thread_of k t)) (th_core_id (thread_of k t))
    (SetActiveCore t core (set_thread t h k)))"
  using affinity_change_ok [OF ok, of "\<lambda>th. (h th) \<lparr> th_core_id := core \<rparr>" t]
    settled_core_valid [OF new active_core_bound [OF ok, of t]] h
  by (simp add: SetActiveCore_def core)

lemma SetActiveCore_same: "th_core_id (thread_of k t) = c \<Longrightarrow> SetActiveCore t c k = k"
  by (auto simp: SetActiveCore_def set_thread_def)

lemma restore_affinity_ok:
  assumes ok: "queues_match k" and active: "0 \<le> th_core_id (thread_of k t)"
    and new: "valid_mask (th_original_physical_affinity_mask (thread_of k t))"
      "valid_ideal (th_original_physical_ideal_core_id (thread_of k t)) (th_original_physical_affinity_mask (thread_of k t))"
  shows "queues_match (restore_affinity t k)"
proof -
  let ?th = "thread_of k t"
  let ?h = "\<lambda>th :: KThread. th \<lparr> th_is_pinned := False, th_num_core_migration_disables := th_num_core_migration_disables th - 1,
    th_physical_ideal_core_id := th_original_physical_ideal_core_id th, th_affinity := th_original_physical_affinity_mask th \<rparr>"
  show ?thesis
  proof (cases "th_original_physical_affinity_mask ?th = th_affinity ?th")
    case True
    then have "same_queueing ?th (?h ?th)" by (simp add: same_queueing_def)
    then have "queues_match (set_thread t ?h k)" using ok queues_match_set_same [of ?h k t] by simp
    then show ?thesis using True by (simp add: restore_affinity_def)
  next
    case False
    let ?core = "settled_core (th_core_id ?th) (?h ?th)"
    have "restore_affinity t k = OnThreadAffinityMaskChanged t (th_affinity ?th) (th_core_id ?th)
        (SetActiveCore t ?core (set_thread t ?h k))"
      using False active SetActiveCore_same [of "set_thread t ?h k" t "th_core_id ?th"]
      by (simp add: restore_affinity_def Let_def settled_core_def)
    then show ?thesis using mask_change_ok [OF ok, of ?h t ?core] new by simp
  qed
qed

lemma end_waits_ok: "queues_match k \<Longrightarrow> queues_match (end_waits ts k)"
  by (induction ts arbitrary: k) (simp_all add: waiting_ok)

lemma Unpin_ok:
  assumes "queues_match k" "0 \<le> th_core_id (thread_of k t)"
    "valid_mask (th_original_physical_affinity_mask (thread_of k t))"
    "valid_ideal (th_original_physical_ideal_core_id (thread_of k t)) (th_original_physical_affinity_mask (thread_of k t))"
  shows "queues_match (Unpin t k)"
proof -
  have "queues_match (restore_affinity t k)" by (rule restore_affinity_ok [OF assms])
  then show ?thesis unfolding Unpin_def Let_def by (simp only: queues_match_flags) (simp add: end_waits_ok UpdateState_ok)
qed

lemma pinning_ok:
  assumes "queues_match k"
  shows "c < NUM_CPU_CORES \<Longrightarrow> queues_match (PinCurrentThread p t c k)"
    "0 \<le> th_core_id (thread_of k t) \<Longrightarrow> valid_mask (th_original_physical_affinity_mask (thread_of k t)) \<Longrightarrow>
      valid_ideal (th_original_physical_ideal_core_id (thread_of k t)) (th_original_physical_affinity_mask (thread_of k t)) \<Longrightarrow>
      queues_match (UnpinCurrentThread p t c k) \<and> queues_match (UnpinThread p t k)"
  using assms by (simp_all add: PinCurrentThread_def UnpinCurrentThread_def UnpinThread_def set_pinned_def Pin_ok Unpin_ok)

section \<open>Core masks\<close>

lemma physical_core_bound: "n < 64 \<Longrightarrow> VirtualToPhysicalCoreMap ! n < NUM_CPU_CORES"
proof -
  assume "n < 64"
  then have "n < length VirtualToPhysicalCoreMap" by (simp add: VirtualToPhysicalCoreMap_def)
  then have "VirtualToPhysicalCoreMap ! n \<in> set VirtualToPhysicalCoreMap" by (rule nth_mem)
  then show ?thesis by (auto simp: VirtualToPhysicalCoreMap_def NUM_CPU_CORES_def)
qed

lemma physical_mask_bits:
  "bit (physical_mask v p) c \<longleftrightarrow> bit p c \<or> (\<exists>n. bit v n \<and> VirtualToPhysicalCoreMap ! n = c)"
proof (induction v p rule: physical_mask.induct)
  case (1 v p)
  show ?case
  proof (cases "v = 0")
    case True
    then show ?thesis by (simp add: physical_mask.simps)
  next
    case False
    let ?n = "countr_zero v"
    have n: "bit v ?n" "?n < 64" using countr_zero_spec [OF False] by simp_all
    have rest: "bit (v AND NOT (push_bit ?n 1)) m \<longleftrightarrow> bit v m \<and> m \<noteq> ?n" for m
      using bit_ClearAffinityBit [OF n(2), of v m] by (simp add: ClearAffinityBit_def)
    have one: "bit (push_bit (VirtualToPhysicalCoreMap ! ?n) (1 :: u64)) c \<longleftrightarrow> c = VirtualToPhysicalCoreMap ! ?n"
      using physical_core_bound [OF n(2)] by (auto simp: NUM_CPU_CORES_def bit_exp_iff)
    have "physical_mask v p = physical_mask (v AND NOT (push_bit ?n 1)) (p OR push_bit (VirtualToPhysicalCoreMap ! ?n) 1)"
      using False by (simp add: physical_mask.simps [of v] Let_def)
    then show ?thesis using "1.IH" [OF False refl] rest one n(1) by (auto simp only: bit_or_iff)
  qed
qed

lemma physical_mask_valid:
  assumes "v \<noteq> 0"
  shows "valid_mask (physical_mask v 0)"
proof -
  have bits: "bit (physical_mask v 0) c \<longleftrightarrow> (\<exists>n. bit v n \<and> VirtualToPhysicalCoreMap ! n = c)" for c
    using physical_mask_bits [of v 0 c] by simp
  have "bit v (countr_zero v)" using countr_zero_spec [OF assms] by simp
  then have "bit (physical_mask v 0) (VirtualToPhysicalCoreMap ! countr_zero v)" unfolding bits by blast
  then have "physical_mask v 0 \<noteq> 0" by auto
  moreover have "c < NUM_CPU_CORES" if "bit (physical_mask v 0) c" for c
    using that physical_core_bound bit_imp_le_length unfolding bits by fastforce
  ultimately show ?thesis by (simp add: valid_mask_def)
qed

lemma change_affinity_ok:
  assumes ok: "queues_match k" and new: "valid_mask a" "valid_ideal core a"
  shows "queues_match (change_affinity t core a k)"
proof -
  let ?th = "thread_of k t"
  let ?h = "\<lambda>th :: KThread. th \<lparr> th_physical_ideal_core_id := core, th_affinity := a \<rparr>"
  show ?thesis
  proof (cases "a = th_affinity ?th")
    case True
    then have "same_queueing ?th (?h ?th)" by (simp add: same_queueing_def)
    then have "queues_match (set_thread t ?h k)" using ok queues_match_set_same [of ?h k t] by simp
    then show ?thesis using True by (simp add: change_affinity_def)
  next
    case False
    let ?core = "settled_core (th_core_id ?th) (?h ?th)"
    have "change_affinity t core a k = OnThreadAffinityMaskChanged t (th_affinity ?th) (th_core_id ?th)
        (SetActiveCore t ?core (set_thread t ?h k))"
      using False SetActiveCore_same [of "set_thread t ?h k" t "th_core_id ?th"]
      by (auto simp: change_affinity_def Let_def settled_core_def)
    then show ?thesis using mask_change_ok [OF ok, of ?h t ?core] new by simp
  qed
qed

text \<open>The ideal core of the request belongs to its mask, as the system call checks.\<close>

definition core_request :: "int \<Rightarrow> u64 \<Rightarrow> bool" where
  "core_request core v \<longleftrightarrow> v \<noteq> 0 \<and> (0 \<le> core \<longrightarrow> bit v (nat core))"

lemma physical_ideal_valid:
  assumes "0 \<le> core \<Longrightarrow> bit v (nat core)"
  shows "valid_ideal (if 0 \<le> core then int (VirtualToPhysicalCoreMap ! nat core) else core) (physical_mask v 0)"
  using assms physical_mask_bits [of v 0] by (auto simp: valid_ideal_def)

lemma requested_ideal:
  assumes "core_request core_id v"
    "core_id = IdealCoreNoUpdate \<Longrightarrow> push_bit (nat ideal) 1 AND v \<noteq> 0" "core_id \<noteq> IdealCoreNoUpdate \<Longrightarrow> ideal = core_id"
    "0 \<le> ideal"
  shows "bit v (nat ideal)"
proof (cases "core_id = IdealCoreNoUpdate")
  case True
  then have "push_bit (nat ideal) 1 AND v \<noteq> 0" using assms(2) by simp
  then obtain n where "bit (push_bit (nat ideal) 1 AND v) n" by (metis bit_0_eq bot_apply bit_eqI bot_bool_def)
  then show ?thesis by (auto simp: bit_and_iff bit_exp_iff)
next
  case False
  then show ?thesis using assms by (simp add: core_request_def)
qed

lemma SetCoreMask_ok:
  assumes ok: "queues_match k" and req: "core_request core_id v" and res: "SetCoreMask t core_id v k = Some (r, k')"
  shows "queues_match k'"
proof -
  define ideal where "ideal = (if core_id \<noteq> IdealCoreNoUpdate then core_id else th_virtual_ideal_core_id (thread_of k t))"
  define k1 where "k1 = (if core_id \<noteq> IdealCoreNoUpdate then set_thread t (\<lambda>th. th \<lparr> th_virtual_ideal_core_id := core_id \<rparr>) k else k)"
  define k2 where "k2 = set_thread t (\<lambda>th. th \<lparr> th_virtual_affinity_mask := v \<rparr>) k1"
  have q: "queues_match k1" "queues_match k2" using ok unfolding k2_def by (simp_all add: k1_def)
  show ?thesis
  proof (cases "core_id = IdealCoreNoUpdate \<and> push_bit (nat ideal) 1 AND v = 0")
    case True
    then show ?thesis
      using res q(1) unfolding SetCoreMask_def Let_def k1_def [symmetric] ideal_def [symmetric] by (auto split: if_splits)
  next
    case False
    let ?core = "if 0 \<le> ideal then int (VirtualToPhysicalCoreMap ! nat ideal) else ideal"
    have "valid_ideal ?core (physical_mask v 0)"
      by (rule physical_ideal_valid, rule requested_ideal [OF req]) (use False in \<open>auto simp: ideal_def\<close>)
    then have "queues_match (change_affinity t ?core (physical_mask v 0) k2)"
      using req by (intro change_affinity_ok [OF q(2) physical_mask_valid]) (auto simp: core_request_def)
    then show ?thesis
      using res False q(2) unfolding SetCoreMask_def Let_def k1_def [symmetric] ideal_def [symmetric] k2_def [symmetric]
      by (auto split: if_splits)
  qed
qed

section \<open>Fields after a change of state\<close>

lemma kept_fields:
  "th_state (kept th) = th_state th" "th_priority (kept th) = th_priority th" "th_is_dummy (kept th) = th_is_dummy th"
  "th_parent (kept th) = th_parent th" "th_affinity (kept th) = th_affinity th"
  by (simp_all add: kept_def)

lemma OnThreadStateChanged_fields:
  "kept (thread_of (OnThreadStateChanged t old k) u) = kept (thread_of k u)"
  "th_core_id (thread_of (OnThreadStateChanged t old k) u) = th_core_id (thread_of k u)"
  "th_schedule_count (thread_of (OnThreadStateChanged t old k) u) = th_schedule_count (thread_of k u)"
  using fun_cong [OF kept.seen_On(1) [of t old k], of u] fun_cong [OF core.seen_On(1) [of t old k], of u]
    fun_cong [OF count.seen_On(1) [of t old k], of u]
  by (simp_all add: projected_def)

lemma OnThreadStateChanged_processes:
  assumes "th_parent (thread_of k t) = None"
  shows "k_processes (OnThreadStateChanged t old k) = k_processes k"
proof -
  have "th_parent (snd s t) = th_parent (thread_of k t)" if "static (snd s) = static (k_threads k)" for s :: pq_state
    using fun_cong [OF that, of t] kept_fields(4) by (metis static_def)
  then have "th_parent (snd (PQ_Remove t (queue_state k)) t) = None" "th_parent (snd (PQ_PushBack t (queue_state k)) t) = None"
    using assms by simp_all
  then show ?thesis
    by (simp add: OnThreadStateChanged_def Let_def IncrementScheduledCount_def SetSchedulerUpdateNeeded_def
        RegisterDummyThreadForWakeup_def UnregisterDummyThreadForWakeup_def)
qed

lemma SetState_fields:
  "th_state (thread_of (SetState t s k) u) =
     (if u = t then (th_state (thread_of k t) AND NOT ThreadState_Mask) OR (s AND ThreadState_Mask) else th_state (thread_of k u))"
  "th_core_id (thread_of (SetState t s k) u) = th_core_id (thread_of k u)"
  "th_priority (thread_of (SetState t s k) u) = th_priority (thread_of k u)"
  "th_is_dummy (thread_of (SetState t s k) u) = th_is_dummy (thread_of k u)"
  "th_parent (thread_of (SetState t s k) u) = th_parent (thread_of k u)"
  "th_schedule_count (thread_of (SetState t s k) u) = th_schedule_count (thread_of k u)"
proof -
  define n where "n = (th_state (thread_of k t) AND NOT ThreadState_Mask) OR (s AND ThreadState_Mask)"
  have k: "SetState t s k = (if n \<noteq> th_state (thread_of k t) then OnThreadStateChanged t (th_state (thread_of k t)) (store_state t n k)
      else store_state t n k)" by (simp add: SetState_def Let_def n_def)
  have v: "kept (thread_of (SetState t s k) u) = kept (thread_of (store_state t n k) u)"
    "th_core_id (thread_of (SetState t s k) u) = th_core_id (thread_of (store_state t n k) u)"
    "th_schedule_count (thread_of (SetState t s k) u) = th_schedule_count (thread_of (store_state t n k) u)"
    by (simp_all add: k OnThreadStateChanged_fields)
  show "th_state (thread_of (SetState t s k) u) =
     (if u = t then (th_state (thread_of k t) AND NOT ThreadState_Mask) OR (s AND ThreadState_Mask) else th_state (thread_of k u))"
    "th_priority (thread_of (SetState t s k) u) = th_priority (thread_of k u)"
    "th_is_dummy (thread_of (SetState t s k) u) = th_is_dummy (thread_of k u)"
    "th_parent (thread_of (SetState t s k) u) = th_parent (thread_of k u)"
    using arg_cong [where f = th_state, OF v(1)] arg_cong [where f = th_priority, OF v(1)]
      arg_cong [where f = th_is_dummy, OF v(1)] arg_cong [where f = th_parent, OF v(1)]
    unfolding kept_fields by (auto simp: store_state_def n_def)
  show "th_core_id (thread_of (SetState t s k) u) = th_core_id (thread_of k u)"
    "th_schedule_count (thread_of (SetState t s k) u) = th_schedule_count (thread_of k u)"
    using v(2,3) by (auto simp: store_state_def)
qed

lemma SetState_processes:
  assumes "th_parent (thread_of k t) = None"
  shows "k_processes (SetState t s k) = k_processes k"
  using assms OnThreadStateChanged_processes [of "store_state t n k" t for n] by (auto simp: SetState_def Let_def store_state_def)

end
