(* ===== verification/SchedulerSystem.thy ===== *)
theory SchedulerSystem
  imports ThreadBehaviour
begin

text \<open>
  The scheduler and the threads as a system: any sequence of thread operations, priority changes, rotations, yields and
  updates keeps the queues in step with the threads, and every operation returns.
\<close>

section \<open>Affinity masks\<close>

type_synonym affinities = "u64 \<times> int \<times> u64 \<times> int \<times> int"

definition aff_of :: "KThread \<Rightarrow> affinities" where
  "aff_of th = (th_affinity th, th_physical_ideal_core_id th, th_original_physical_affinity_mask th,
     th_original_physical_ideal_core_id th, th_num_core_migration_disables th)"

definition affs :: "kernel \<Rightarrow> thread \<Rightarrow> affinities" where
  "affs k = (\<lambda>t. aff_of (thread_of k t))"

definition affinity_ok :: "affinities \<Rightarrow> bool" where
  "affinity_ok = (\<lambda>(a, i, oa, oi, d). valid_mask a \<and> valid_ideal i a \<and> (d \<noteq> 0 \<longrightarrow> valid_mask oa \<and> valid_ideal oi oa))"

lemma affs_statics:
  assumes "statics k' = statics k"
  shows "affs k' = affs k"
proof
  fix t
  have "aff_of (kept (thread_of k' t)) = aff_of (kept (thread_of k t))" using assms by (simp add: statics_def static_def fun_eq_iff)
  then show "affs k' t = affs k t" by (simp add: affs_def aff_of_def kept_def)
qed

lemma affs_On [simp]:
  "affs (OnThreadStateChanged t old k) = affs k" "affs (OnThreadPriorityChanged cur t p k) = affs k"
  "affs (OnThreadAffinityMaskChanged t a c k) = affs k" "affs (SetActiveCore t x k) = affs k"
  by (rule affs_statics; simp)+

lemma affs_bookkeeping [simp]:
  "affs (set_process p f k) = affs k" "affs (SetSchedulerUpdateNeeded k) = affs k"
  by (simp_all add: affs_def)

lemma affs_set_thread: "affs (set_thread t h k) = (affs k)(t := aff_of (h (thread_of k t)))"
  by (auto simp: affs_def)

lemma affs_same: "aff_of (h (thread_of k t)) = affs k t \<Longrightarrow> affs (set_thread t h k) = affs k"
  by (simp add: affs_set_thread)

lemma affs_state [simp]:
  "affs (store_state t s k) = affs k" "affs (SetState t s k) = affs k" "affs (UpdateState t k) = affs k"
proof -
  show s: "affs (store_state t s k) = affs k" for s
    unfolding store_state_def by (rule affs_same) (simp add: affs_def aff_of_def)
  show "affs (SetState t s k) = affs k" "affs (UpdateState t k) = affs k"
    by (simp_all add: SetState_def UpdateState_def Let_def s)
qed

lemma affs_flags [simp]:
  "affs (set_thread t (\<lambda>th. th \<lparr> th_suspend_request_flags := f th \<rparr>) k) = affs k"
  "affs (set_thread t (\<lambda>th. th \<lparr> th_suspend_allowed_flags := f th \<rparr>) k) = affs k"
  "affs (set_thread t (\<lambda>th. th \<lparr> th_pinned_waiter_list := w \<rparr>) k) = affs k"
  "affs (set_thread t (\<lambda>th. th \<lparr> th_virtual_ideal_core_id := i \<rparr>) k) = affs k"
  "affs (set_thread t (\<lambda>th. th \<lparr> th_virtual_affinity_mask := a \<rparr>) k) = affs k"
  "affs (set_thread t (\<lambda>th. th \<lparr> th_priority := p \<rparr>) k) = affs k"
  "affs (set_thread t (\<lambda>th. th \<lparr> th_wait_queue := wq \<rparr>) k) = affs k"
  "affs (set_thread t (\<lambda>th. th \<lparr> th_wait_result := r \<rparr>) k) = affs k"
  by (rule affs_same, simp add: affs_def aff_of_def)+

lemma affs_thread_ops [simp]:
  "affs (RequestSuspend t ty k) = affs k" "affs (Resume t ty k) = affs k" "affs (BeginWait t q k) = affs k"
  "affs (EndWait t r k) = affs k" "affs (end_waits ts k) = affs k"
proof -
  show "affs (RequestSuspend t ty k) = affs k" "affs (Resume t ty k) = affs k" "affs (BeginWait t q k) = affs k"
    by (simp_all add: RequestSuspend_def TrySuspend_def Resume_def BeginWait_def)
  show e: "affs (EndWait t r k) = affs k" for t r k by (simp add: EndWait_def KThreadQueue_EndWait_def)
  show "affs (end_waits ts k) = affs k" by (induction ts arbitrary: k) (simp_all add: e)
qed

lemma affs_Pin:
  "affs (Pin t c k) = (affs k)(t := (push_bit c 1, int c, th_affinity (thread_of k t), th_physical_ideal_core_id (thread_of k t),
     th_num_core_migration_disables (thread_of k t) + 1))"
  by (simp add: Pin_def Let_def affs_set_thread) (simp add: aff_of_def)

lemma affs_restore:
  "affs (restore_affinity t k) = (affs k)(t :=
     (th_original_physical_affinity_mask (thread_of k t), th_original_physical_ideal_core_id (thread_of k t),
      th_original_physical_affinity_mask (thread_of k t), th_original_physical_ideal_core_id (thread_of k t),
      th_num_core_migration_disables (thread_of k t) - 1))"
  by (simp add: restore_affinity_def Let_def affs_set_thread) (simp add: aff_of_def)

lemma affs_Unpin [simp]: "affs (Unpin t k) = affs (restore_affinity t k)"
  by (simp add: Unpin_def Let_def)

lemma affs_change:
  "affs (change_affinity t core a k) = (affs k)(t := (a, core, th_original_physical_affinity_mask (thread_of k t),
     th_original_physical_ideal_core_id (thread_of k t), th_num_core_migration_disables (thread_of k t)))"
  by (simp add: change_affinity_def Let_def affs_set_thread) (simp add: aff_of_def)

definition kernel_inv :: "kernel \<Rightarrow> bool" where
  "kernel_inv k \<longleftrightarrow> queues_match k \<and> (\<forall>t. affinity_ok (affs k t))"

lemma affinity_ok_upd: "(\<And>t. affinity_ok (f t)) \<Longrightarrow> affinity_ok x \<Longrightarrow> affinity_ok ((f(u := x)) t)"
  by simp

lemma kernel_inv_affinity:
  assumes "kernel_inv k"
  shows "valid_mask (th_affinity (thread_of k t))" "valid_ideal (th_physical_ideal_core_id (thread_of k t)) (th_affinity (thread_of k t))"
    "th_num_core_migration_disables (thread_of k t) \<noteq> 0 \<Longrightarrow>
       valid_mask (th_original_physical_affinity_mask (thread_of k t)) \<and>
       valid_ideal (th_original_physical_ideal_core_id (thread_of k t)) (th_original_physical_affinity_mask (thread_of k t))"
proof -
  have "affinity_ok (affs k t)" using assms by (simp add: kernel_inv_def)
  then show "valid_mask (th_affinity (thread_of k t))"
    "valid_ideal (th_physical_ideal_core_id (thread_of k t)) (th_affinity (thread_of k t))"
    "th_num_core_migration_disables (thread_of k t) \<noteq> 0 \<Longrightarrow>
       valid_mask (th_original_physical_affinity_mask (thread_of k t)) \<and>
       valid_ideal (th_original_physical_ideal_core_id (thread_of k t)) (th_original_physical_affinity_mask (thread_of k t))"
    by (simp_all add: affs_def aff_of_def affinity_ok_def)
qed

lemma Pin_affinity_ok:
  assumes "kernel_inv k" "c < NUM_CPU_CORES"
  shows "affinity_ok (affs (Pin t c k) u)"
proof -
  have one: "bit (push_bit c (1 :: u64)) x \<longleftrightarrow> x = c" for x using assms(2) by (auto simp: NUM_CPU_CORES_def bit_exp_iff)
  then have "push_bit c (1 :: u64) \<noteq> 0" by (metis bit_0_eq bot_apply bot_bool_def)
  then have "valid_mask (push_bit c 1)" "valid_ideal (int c) (push_bit c 1)"
    using one assms(2) by (simp_all only: valid_mask_def valid_ideal_def nat_int) auto
  then have "affinity_ok (push_bit c 1, int c, th_affinity (thread_of k t), th_physical_ideal_core_id (thread_of k t),
     th_num_core_migration_disables (thread_of k t) + 1)"
    using kernel_inv_affinity(1,2) [OF assms(1), of t] by (simp only: affinity_ok_def prod.case) simp
  then show ?thesis unfolding affs_Pin using assms(1) by (simp add: kernel_inv_def)
qed

lemma Unpin_affinity_ok:
  assumes "kernel_inv k" "th_num_core_migration_disables (thread_of k t) \<noteq> 0"
  shows "affinity_ok (affs (Unpin t k) u)"
  using assms(1) kernel_inv_affinity(3) [OF assms] unfolding affs_Unpin affs_restore by (simp add: kernel_inv_def affinity_ok_def)

lemma SetCoreMask_affinity_ok:
  assumes inv: "kernel_inv k" and req: "core_request core_id v" and res: "SetCoreMask t core_id v k = Some (r, k')"
  shows "affinity_ok (affs k' u)"
proof -
  define ideal where "ideal = (if core_id \<noteq> IdealCoreNoUpdate then core_id else th_virtual_ideal_core_id (thread_of k t))"
  define k1 where "k1 = (if core_id \<noteq> IdealCoreNoUpdate then set_thread t (\<lambda>th. th \<lparr> th_virtual_ideal_core_id := core_id \<rparr>) k else k)"
  define k2 where "k2 = set_thread t (\<lambda>th. th \<lparr> th_virtual_affinity_mask := v \<rparr>) k1"
  have a: "affs k1 = affs k" "affs k2 = affs k" unfolding k2_def by (simp_all add: k1_def)
  have old: "affinity_ok (affs k x)" for x using inv by (simp add: kernel_inv_def)
  show ?thesis
  proof (cases "core_id = IdealCoreNoUpdate \<and> push_bit (nat ideal) 1 AND v = 0")
    case True
    then have "affs k' = affs k"
      using res a(1) unfolding SetCoreMask_def Let_def k1_def [symmetric] ideal_def [symmetric] by (auto split: if_splits)
    then show ?thesis using old by simp
  next
    case False
    let ?core = "if 0 \<le> ideal then int (VirtualToPhysicalCoreMap ! nat ideal) else ideal" and ?p = "physical_mask v 0"
    have ideal: "valid_ideal ?core ?p"
      by (rule physical_ideal_valid, rule requested_ideal [OF req]) (use False in \<open>auto simp: ideal_def\<close>)
    have mask: "valid_mask ?p" using req by (intro physical_mask_valid) (simp add: core_request_def)
    have th: "th_affinity (thread_of k2 t) = th_affinity (thread_of k t)" "aff_of (thread_of k2 t) = affs k t"
      using fun_cong [OF a(2), of t] by (simp_all add: affs_def aff_of_def)
    have k': "k' = (if th_num_core_migration_disables (thread_of k2 t) = 0 then change_affinity t ?core ?p k2
        else set_thread t (\<lambda>th. th \<lparr> th_original_physical_ideal_core_id := ?core, th_original_physical_affinity_mask := ?p \<rparr>) k2)"
      using res False unfolding SetCoreMask_def Let_def k1_def [symmetric] ideal_def [symmetric] k2_def [symmetric]
      by (auto split: if_splits)
    have "affinity_ok (affs k' t)"
      using ideal mask old [of t] th(2) unfolding k'
      by (auto simp: affs_change affs_set_thread aff_of_def affinity_ok_def)
    moreover have "u \<noteq> t \<Longrightarrow> affs k' u = affs k u" unfolding k' using a(2) by (auto simp: affs_change affs_set_thread)
    ultimately show ?thesis using old by (cases "u = t") auto
  qed
qed

section \<open>Steps\<close>

datatype sched_event =
    State thread u16
  | Suspend thread SuspendType
  | Resumed thread SuspendType
  | Begin_Wait thread thread_queue
  | End_Wait thread Result
  | Pinned nat thread nat
  | Unpinned_Current nat thread nat
  | Unpinned nat thread
  | Core_Mask thread int u64
  | Priority thread thread nat
  | Terminate thread nat
  | Rotate thread nat nat
  | Preempt thread
  | Yield thread nat
  | Yield_Migrating thread nat
  | Yield_Any thread nat
  | Update int thread

text \<open>
  The guards are what the code asserts: pinning needs a valid core, unpinning a thread that is pinned and active on a core,
  yielding a current thread that has a core and a priority of its own.
\<close>

definition unpinnable :: "KThread \<Rightarrow> bool" where
  "unpinnable th \<longleftrightarrow> th_num_core_migration_disables th \<noteq> 0 \<and> 0 \<le> th_core_id th"

inductive sched_step :: "kernel \<Rightarrow> sched_event \<Rightarrow> kernel \<Rightarrow> bool" where
  state: "sched_step k (State t s) (SetState t s k)"
| suspend: "sched_step k (Suspend t ty) (RequestSuspend t ty k)"
| resume: "sched_step k (Resumed t ty) (Resume t ty k)"
| begin_wait: "sched_step k (Begin_Wait t q) (BeginWait t q k)"
| end_wait: "sched_step k (End_Wait t r) (EndWait t r k)"
| pin: "c < NUM_CPU_CORES \<Longrightarrow> sched_step k (Pinned p t c) (PinCurrentThread p t c k)"
| unpin_current: "unpinnable (thread_of k t) \<Longrightarrow> sched_step k (Unpinned_Current p t c) (UnpinCurrentThread p t c k)"
| unpin: "unpinnable (thread_of k t) \<Longrightarrow> sched_step k (Unpinned p t) (UnpinThread p t k)"
| core_mask: "core_request core v \<Longrightarrow> SetCoreMask t core v k = Some (r, k') \<Longrightarrow> sched_step k (Core_Mask t core v) k'"
| priority: "sched_step k (Priority cur t p)
    (OnThreadPriorityChanged cur t (th_priority (thread_of k t)) (set_thread t (\<lambda>th. th \<lparr> th_priority := p \<rparr>) k))"
| terminate: "(\<forall>p. th_parent (thread_of k t) = Some p \<longrightarrow> pr_pinned_threads (k_processes k p) c = Some t \<longrightarrow>
      unpinnable (thread_of k t)) \<Longrightarrow> sched_step k (Terminate t c) (StartTermination t t c k)"
| rotate: "c < NUM_CPU_CORES \<Longrightarrow> RotateScheduledQueue cur c p k = Some k' \<Longrightarrow> sched_step k (Rotate cur c p) k'"
| preempt: "PreemptThreads cur k = Some k' \<Longrightarrow> sched_step k (Preempt cur) k'"
| yield: "runs (thread_of k cur) \<Longrightarrow> sched_step k (Yield cur p) (YieldWithoutCoreMigration cur p k)"
| yield_migrating: "runs (thread_of k cur) \<Longrightarrow> YieldWithCoreMigration cur p k = Some k' \<Longrightarrow> sched_step k (Yield_Migrating cur p) k'"
| yield_any: "runs (thread_of k cur) \<Longrightarrow> YieldToAnyThread cur p k = Some k' \<Longrightarrow> sched_step k (Yield_Any cur p) k'"
| update: "UpdateHighestPriorityThreads tick cur k = Some (needing, k') \<Longrightarrow> sched_step k (Update tick cur) k'"

inductive_cases sched_stepE: "sched_step k e k'"

text \<open>At the start no thread may run yet, apart from the idle and the dummy threads, which the queues never hold.\<close>

definition sched_init :: "kernel \<Rightarrow> bool" where
  "sched_init k \<longleftrightarrow>
     k_priority_queue k = KPriorityQueue_create \<and>
     (\<forall>t. \<not> in_queue (thread_of k t) \<and> placed (thread_of k t) \<and> affinity_ok (affs k t))"

lemma pq_rep_create: "pq_rep (KPriorityQueue_create, ths) (\<lambda>_ _. [])"
proof -
  have "queue_of b KPriorityQueue_create = Impl_create" for b by (simp add: queue_of_def KPriorityQueue_create_def)
  moreover have "BitSet_create (LowestPriority + 1) = [0]" by (simp add: BitSet_create_def AlignUp_def LowestPriority_def)
  ultimately show ?thesis
    by (simp add: pq_rep_def Impl_create_def PerCore_create_def linked_def QueueEntry_Initialize_def bit_set_of_def)
qed

lemma sched_init_inv: "sched_init k \<Longrightarrow> kernel_inv k"
  using pq_rep_create
  by (auto simp: sched_init_def kernel_inv_def queues_match_def sched_ok_def listed_def unlisted_def intro!: exI [of _ "\<lambda>_ _. []"])

lemma foldl_schedulers:
  assumes "\<And>k i. k_threads (f k i) = k_threads k \<and> k_priority_queue (f k i) = k_priority_queue k"
  shows "k_threads (foldl f k is) = k_threads k \<and> k_priority_queue (foldl f k is) = k_priority_queue k"
  using assms by (induction "is" arbitrary: k) simp_all

lemma ClearPreviousThread_threads:
  "k_threads (ClearPreviousThread t k) = k_threads k \<and> k_priority_queue (ClearPreviousThread t k) = k_priority_queue k"
  unfolding ClearPreviousThread_def by (rule foldl_schedulers) simp

lemma kernel_inv_cong:
  assumes "k_threads k' = k_threads k" "k_priority_queue k' = k_priority_queue k"
  shows "kernel_inv k' = kernel_inv k"
proof -
  have "sched_ok k' L = sched_ok k L" for L by (rule sched_ok_cong) (simp_all add: assms)
  then show ?thesis by (simp add: kernel_inv_def queues_match_def affs_def assms)
qed

lemma kernel_inv_unpin:
  assumes "kernel_inv k" "unpinnable (thread_of k t)"
  shows "kernel_inv (UnpinCurrentThread p t c k)" "kernel_inv (UnpinThread p t k)"
proof -
  have o: "valid_mask (th_original_physical_affinity_mask (thread_of k t))"
    "valid_ideal (th_original_physical_ideal_core_id (thread_of k t)) (th_original_physical_affinity_mask (thread_of k t))"
    "0 \<le> th_core_id (thread_of k t)" "th_num_core_migration_disables (thread_of k t) \<noteq> 0" "queues_match k"
    using assms kernel_inv_affinity(3) [OF assms(1), of t] by (auto simp: unpinnable_def kernel_inv_def)
  have pin: "kernel_inv (set_pinned p x None k)" for x
    using assms(1) kernel_inv_cong [of "set_pinned p x None k" k] by (simp add: set_pinned_def)
  have "affinity_ok (affs (Unpin t (set_pinned p x None k)) u)" for x u
    by (rule Unpin_affinity_ok [OF pin]) (use o in \<open>simp add: set_pinned_def\<close>)
  then show "kernel_inv (UnpinThread p t k)"
    using pinning_ok(2) [OF o(5) o(3) o(1,2)] by (simp add: kernel_inv_def UnpinThread_def)
  have "affinity_ok (affs (Unpin t k) u)" for u by (rule Unpin_affinity_ok [OF assms(1) o(4)])
  then show "kernel_inv (UnpinCurrentThread p t c k)"
    using pinning_ok(2) [OF o(5) o(3) o(1,2)] by (simp add: kernel_inv_def UnpinCurrentThread_def set_pinned_def)
qed

lemma kernel_inv_SetState: "kernel_inv k \<Longrightarrow> kernel_inv (SetState t s k)"
  by (simp add: kernel_inv_def SetState_ok)

lemma kernel_inv_terminate:
  assumes inv: "kernel_inv k"
    and pin: "\<forall>p. th_parent (thread_of k t) = Some p \<longrightarrow> pr_pinned_threads (k_processes k p) c = Some t \<longrightarrow> unpinnable (thread_of k t)"
  shows "kernel_inv (StartTermination t t c k)"
proof -
  define k1 where "k1 = (case th_parent (thread_of k t) of None \<Rightarrow> k
    | Some p \<Rightarrow> if pr_pinned_threads (k_processes k p) c = Some t then UnpinCurrentThread p t c k else k)"
  have "kernel_inv k1" using inv pin kernel_inv_unpin(1) [OF inv] by (auto simp: k1_def split: option.split)
  then have "kernel_inv (SetState t Terminated k1)" by (rule kernel_inv_SetState)
  moreover have "kernel_inv (ClearRunning t (SetState t Terminated k1)) = kernel_inv (SetState t Terminated k1)"
    by (rule kernel_inv_cong) (simp_all add: ClearRunning_def split: option.split)
  ultimately have "kernel_inv (ClearRunning t (SetState t Terminated k1))" by simp
  then show ?thesis
    unfolding StartTermination_def Let_def k1_def [symmetric] using kernel_inv_cong ClearPreviousThread_threads by metis
qed

lemma kernel_inv_statics:
  assumes "kernel_inv k" "statics k' = statics k" "queues_match k'"
  shows "kernel_inv k'"
  using assms affs_statics [OF assms(2)] by (simp add: kernel_inv_def)

lemma UpdateHighestPriorityThreads_ok:
  assumes "kernel_inv k" "UpdateHighestPriorityThreads tick cur k = Some (needing, k')"
  shows "kernel_inv k'"
proof (cases "k_scheduler_update_needed k")
  case True
  then have u: "UpdateHighestPriorityThreadsImpl tick cur k = Some (needing, k')"
    using assms(2) by (simp add: UpdateHighestPriorityThreads_def)
  obtain L where "sched_ok k L" using assms(1) by (auto simp: kernel_inv_def queues_match_def)
  from UpdateHighestPriorityThreadsImpl_ok [OF this, of "pinned_on k" tick cur] obtain L' where "update_ok (pinned_on k) (no_pins k) k L' needing k'"
    using u by auto
  then have "queues_match k'" by (auto simp: update_ok_def tops_ok_def queues_match_def)
  then show ?thesis by (rule kernel_inv_statics [OF assms(1) statics_UpdateImpl [OF u]])
next
  case False
  then show ?thesis using assms by (simp add: UpdateHighestPriorityThreads_def)
qed

lemma kernel_inv_sched_ok:
  assumes "kernel_inv k"
  obtains L where "sched_ok k L"
  using assms by (auto simp: kernel_inv_def queues_match_def)

lemma sched_step_inv:
  assumes "kernel_inv k" "sched_step k e k'"
  shows "kernel_inv k'"
  using assms(2,1)
proof (induction rule: sched_step.induct)
  case (core_mask core v t k r k')
  then show ?case using SetCoreMask_ok SetCoreMask_affinity_ok by (simp add: kernel_inv_def) blast
next
  case (rotate c cur p k k')
  obtain L where "sched_ok k L" using rotate.prems by (rule kernel_inv_sched_ok)
  then have "queues_match k'" using RotateScheduledQueue_ok [of k L c cur p] rotate.hyps by auto
  then show ?case by (rule kernel_inv_statics [OF rotate.prems statics_Rotate [OF rotate.hyps(2)]])
next
  case (preempt cur k k')
  obtain L where "sched_ok k L" using preempt.prems by (rule kernel_inv_sched_ok)
  then have "queues_match k'" using PreemptThreads_ok [of k L cur] preempt.hyps by auto
  moreover have "statics k' = statics k" using preempt.hyps by (auto simp: PreemptThreads_def dest: statics_preempt)
  ultimately show ?case using kernel_inv_statics [OF preempt.prems] by blast
next
  case (yield k cur p)
  obtain L where "sched_ok k L" using yield.prems by (rule kernel_inv_sched_ok)
  then show ?case using kernel_inv_statics [OF yield.prems statics_Yields(1)] YieldWithoutCoreMigration_ok yield.hyps by blast
next
  case (yield_migrating k cur p k')
  obtain L where "sched_ok k L" using yield_migrating.prems by (rule kernel_inv_sched_ok)
  then have "queues_match k'" using YieldWithCoreMigration_ok [of k L cur p] yield_migrating.hyps by auto
  then show ?case by (rule kernel_inv_statics [OF yield_migrating.prems statics_Yields(2) [OF yield_migrating.hyps(2)]])
next
  case (yield_any k cur p k')
  obtain L where "sched_ok k L" using yield_any.prems by (rule kernel_inv_sched_ok)
  then have "queues_match k'" using YieldToAnyThread_ok [of k L cur p] yield_any.hyps by auto
  then show ?case by (rule kernel_inv_statics [OF yield_any.prems statics_Yields(3) [OF yield_any.hyps(2)]])
next
  case (update k tick cur needing k')
  then show ?case using UpdateHighestPriorityThreads_ok by blast
next
  case (pin c k p t)
  have same: "kernel_inv (set_pinned p c (Some t) k)"
    using pin.prems kernel_inv_cong [of "set_pinned p c (Some t) k" k] by (simp add: set_pinned_def)
  show ?case using pin pinning_ok(1) [of k c p t] Pin_affinity_ok [OF same pin.hyps]
    by (simp add: kernel_inv_def PinCurrentThread_def)
next
  case (terminate k t c)
  then show ?case using kernel_inv_terminate by blast
qed (simp_all add: kernel_inv_unpin kernel_inv_SetState, simp_all add: kernel_inv_def suspension_ok waiting_ok priority_ok)

interpretation sched: invariant_system sched_init sched_step kernel_inv
  by unfold_locales (auto intro: sched_init_inv sched_step_inv)

section \<open>Properties\<close>

lemma reachable_sched_ok:
  assumes "sched_init k0" "run sched_step k0 es k"
  obtains L where "sched_ok k L"
  using kernel_inv_sched_ok [OF sched.reachable_inv [OF assms]] .

lemma listed_iff:
  assumes "sched_ok k L"
  shows "t \<in> set (L c (b, p)) \<longleftrightarrow>
    in_queue (thread_of k t) \<and> th_priority (thread_of k t) = p \<and> thread_place (thread_of k t) c = Some b"
proof
  assume "t \<in> set (L c (b, p))"
  from listed_member [OF assms this]
  show "in_queue (thread_of k t) \<and> th_priority (thread_of k t) = p \<and> thread_place (thread_of k t) c = Some b" by simp
next
  assume "in_queue (thread_of k t) \<and> th_priority (thread_of k t) = p \<and> thread_place (thread_of k t) c = Some b"
  then show "t \<in> set (L c (b, p))" using sched_ok_parts(2) [OF assms, of t] by (simp add: listed_def listed_at_def)
qed

text \<open>A kernel with two threads that may run on the cores 0 and 1, for the witnesses.\<close>

definition sample_thread :: KThread where
  "sample_thread =
     \<lparr> th_entries = \<lambda>_. QueueEntry_Initialize, th_affinity = 3, th_core_id = 0, th_priority = 44, th_is_dummy = False,
       th_state = Initialized, th_parent = None, th_last_scheduled_tick = 0, th_num_kernel_waiters = 0, th_schedule_count = - 1,
       th_dummy_runnable = True, th_suspend_request_flags = 0, th_suspend_allowed_flags = 0x3F0, th_physical_ideal_core_id = 0,
       th_virtual_ideal_core_id = 0, th_virtual_affinity_mask = 3, th_original_physical_ideal_core_id = 0,
       th_original_physical_affinity_mask = 0, th_num_core_migration_disables = 0, th_is_pinned = False,
       th_pinned_waiter_list = [], th_termination_requested = False, th_base_priority = 44, th_address_key = 0,
       th_address_key_value = 0, th_is_kernel_address_key = False, th_held_lock_info_list = [], th_waiting_lock_info = None,
       th_condvar_tree = None, th_condvar_key = 0, th_wait_queue = None, th_wait_result = ResultSuccess \<rparr>"

definition sample_kernel :: kernel where
  "sample_kernel =
     \<lparr> k_priority_queue = KPriorityQueue_create, k_threads = \<lambda>_. sample_thread, k_schedulers = \<lambda>_. KScheduler_create,
       k_processes = \<lambda>_. \<lparr> pr_schedule_count = 0, pr_pinned_threads = \<lambda>_. None, pr_running_threads = \<lambda>_. None,
         pr_running_thread_idle_counts = \<lambda>_. 0, pr_running_thread_switch_counts = \<lambda>_. 0,
         pr_exception_thread = None \<rparr>,
       k_scheduler_update_needed = False, k_woken_dummy_threads = {},
       k_lock_infos = \<lambda>_. None, k_next_lock = 0, k_thread_trees = \<lambda>_. [], k_memory = \<lambda>_ _. 0 \<rparr>"

abbreviation running_sample :: kernel where
  "running_sample \<equiv> SetState 3 Runnable (SetState 2 Runnable sample_kernel)"

lemma sample_init: "sched_init sample_kernel"
proof -
  have bits: "bit (3 :: u64) c \<longleftrightarrow> c = 0 \<or> c = 1" for c
  proof -
    have "bit (mask 2 :: u64) c \<longleftrightarrow> c < 2" by (simp only: bit_mask_iff possible_bit_word) auto
    moreover have "mask 2 = (3 :: u64)" by (simp add: mask_eq_exp_minus_1)
    ultimately show ?thesis by (simp add: less_2_cases_iff)
  qed
  have m: "valid_mask 3" "valid_place 0 3" "valid_ideal 0 3"
    unfolding valid_mask_def valid_place_def valid_ideal_def bits NUM_CPU_CORES_def by auto
  show ?thesis
    using m by (simp add: sched_init_def sample_kernel_def sample_thread_def in_queue_def Initialized_def Runnable_def placed_def
        affs_def aff_of_def affinity_ok_def)
qed

lemma sample_run: "run sched_step sample_kernel [State 2 Runnable, State 3 Runnable] running_sample"
  by (rule run_two) (rule sched_step.state)+

lemma sample_state:
  "in_queue (thread_of running_sample 2)" "in_queue (thread_of running_sample 3)" "runs (thread_of running_sample 2)"
  "th_core_id (thread_of running_sample 2) = 0" "no_pins running_sample" "pins_ok running_sample"
  "\<not> nothing_to_yield 2 0 running_sample"
proof -
  have f: "th_state (thread_of sample_kernel t) = 0" "th_core_id (thread_of sample_kernel t) = 0"
    "th_priority (thread_of sample_kernel t) = 44" "\<not> th_is_dummy (thread_of sample_kernel t)"
    "th_parent (thread_of sample_kernel t) = None" "th_schedule_count (thread_of sample_kernel t) = - 1"
    "pr_pinned_threads (k_processes sample_kernel p) c = None" "pr_schedule_count (k_processes sample_kernel p) = 0" for t p c
    by (simp_all add: sample_kernel_def sample_thread_def Initialized_def)
  have p: "k_processes running_sample = k_processes sample_kernel" by (simp add: SetState_processes SetState_fields f)
  have s: "(0 AND NOT ThreadState_Mask) OR (Runnable AND ThreadState_Mask) = Runnable"
    by (simp add: ThreadState_Mask_def Runnable_def)
  show "in_queue (thread_of running_sample 2)" "in_queue (thread_of running_sample 3)" "runs (thread_of running_sample 2)"
    "th_core_id (thread_of running_sample 2) = 0"
    using s by (simp_all add: in_queue_def runs_def SetState_fields f LowestPriority_def)
  show "no_pins running_sample" "pins_ok running_sample" by (simp_all add: no_pins_def pins_ok_def pinned_on_def p f)
  show "\<not> nothing_to_yield 2 0 running_sample" using s by (simp add: nothing_to_yield_def SetState_fields p f)
qed

lemma walk_collects:
  "walk_list (\<lambda>t acc. Inl (acc @ [t]) :: thread list + unit) xs acc = Inl (acc @ xs)"
  by (induction xs arbitrary: acc) simp_all

lemma suggested_iff:
  assumes "sched_ok k L"
  shows "t \<in> set (in_order L c True) \<longleftrightarrow>
    in_queue (thread_of k t) \<and> bit (th_affinity (thread_of k t)) c \<and> th_core_id (thread_of k t) \<noteq> int c"
  unfolding in_order_member [OF sched_ok_parts(1) [OF assms]] listed_iff [OF assms] by (auto simp: place_def)

lemma scheduled_walk:
  assumes "sched_ok k L" "c < NUM_CPU_CORES"
  shows "walk (\<lambda>t. GetScheduledNext c t (queue_state k)) body (GetScheduledFront c (queue_state k)) acc =
    Some (walk_list body (in_order L c False) acc)"
  unfolding queue_fronts(1) [OF assms]
  by (rule walk_returns) (use queue_next [OF assms, where b = False] in \<open>simp add: GetScheduledNext_def queue_of_def\<close>)

text \<open>The threads that a loop along the scheduled or the suggested queue of a core meets, in its order.\<close>

definition queue_along :: "bool \<Rightarrow> nat \<Rightarrow> kernel \<Rightarrow> thread list option" where
  "queue_along suggested c k =
     (case walk (\<lambda>t. if suggested then GetSuggestedNext c t (queue_state k) else GetScheduledNext c t (queue_state k))
             (\<lambda>t acc. Inl (acc @ [t]) :: thread list + unit)
             (if suggested then GetSuggestedFront c (queue_state k) else GetScheduledFront c (queue_state k)) [] of
        Some (Inl xs) \<Rightarrow> Some xs
      | _ \<Rightarrow> None)"

lemma queue_along_in_order:
  assumes "sched_ok k L" "c < NUM_CPU_CORES"
  shows "queue_along b c k = Some (in_order L c b)"
  using scheduled_walk [OF assms, where body = "\<lambda>t acc. Inl (acc @ [t]) :: thread list + unit" and acc = "[]"]
    suggested_walk [OF assms, where body = "\<lambda>t acc. Inl (acc @ [t]) :: thread list + unit" and acc = "[]"]
  by (cases b) (simp_all add: queue_along_def walk_collects)

text \<open>A thread that becomes runnable is put behind the threads of its priority, in every queue of its place.\<close>

lemma SetState_appends:
  assumes ok: "sched_ok k L" and old: "\<not> in_queue (thread_of k t)" and new: "in_queue (thread_of (SetState t s k) t)"
  shows "sched_ok (SetState t s k) (at_place (thread_place (thread_of k t)) (front_or_back False t (th_priority (thread_of k t))) L)"
proof -
  define n where "n = (th_state (thread_of k t) AND NOT ThreadState_Mask) OR (s AND ThreadState_Mask)"
  let ?th = "(thread_of k t) \<lparr> th_state := n \<rparr>" and ?k = "store_state t n k"
  have n: "n = Runnable" "\<not> th_is_dummy (thread_of k t)" "th_priority (thread_of k t) \<le> LowestPriority"
    using new unfolding in_queue_def SetState_fields by (simp_all add: n_def)
  then have st: "th_state (thread_of k t) \<noteq> Runnable" using old by (simp add: in_queue_def)
  have ch: "changes t ?th k ?k" by (simp add: changes_def store_state_def)
  have "placed ?th" "in_queue ?th" using sched_ok_parts(3) [OF ok, of t] n by (simp_all add: placed_def in_queue_def)
  from insert_thread_ok [OF ok ch old this]
  have "sched_ok (put_queue_state (PQ_PushBack t (queue_state ?k)) ?k)
      (at_place (thread_place (thread_of k t)) (front_or_back False t (th_priority (thread_of k t))) L)" by simp
  moreover have "SetState t s k = OnThreadStateChanged t (th_state (thread_of k t)) ?k"
    using st n(1) by (auto simp: SetState_def Let_def n_def)
  moreover have "th_state (thread_of ?k t) = Runnable" by (simp add: store_state_def n(1))
  ultimately show ?thesis using st by (simp add: OnThreadStateChanged_def Let_def)
qed

lemma take_drop_while_split:
  assumes "\<forall>x\<in>set xs. P x" "\<forall>y\<in>set ys. \<not> P y"
  shows "takeWhile P (xs @ ys) = xs" "dropWhile P (xs @ ys) = ys"
  using assms by (cases ys; simp add: takeWhile_append dropWhile_append)+

lemma in_order_appended:
  assumes ok: "sched_ok k L" and p: "p \<le> LowestPriority"
  shows "in_order (at_place pl (front_or_back False t p) L) c b =
    (if pl c = Some b
     then takeWhile (\<lambda>u. th_priority (thread_of k u) \<le> p) (in_order L c b) @ t # dropWhile (\<lambda>u. th_priority (thread_of k u) \<le> p) (in_order L c b)
     else in_order L c b)"
proof -
  let ?A = "concat (map (\<lambda>q. L c (b, q)) [0..<p])" and ?C = "concat (map (\<lambda>q. L c (b, q)) [p + 1..<LowestPriority + 1])"
  have q: "at_place pl (front_or_back False t p) L c (b, q) = L c (b, q) @ (if pl c = Some b \<and> q = p then [t] else [])" for q
    by (auto simp: at_place_def front_or_back_def to_back_def split: option.splits)
  have rest: "concat (map (\<lambda>q. L c (b, q) @ (if pl c = Some b \<and> q = p then [t] else [])) qs) = concat (map (\<lambda>q. L c (b, q)) qs)"
    if "p \<notin> set qs" for qs using that by (induction qs) auto
  have new: "in_order (at_place pl (front_or_back False t p) L) c b = ?A @ (L c (b, p) @ (if pl c = Some b then [t] else [])) @ ?C"
    unfolding in_order_split [OF p] q using rest [of "[0..<p]"] rest [of "[p + 1..<LowestPriority + 1]"] by simp
  have prio: "th_priority (thread_of k u) = q" if "u \<in> set (L c (b, q))" for u q using listed_member(2) [OF ok that] by simp
  have low: "\<forall>u\<in>set (?A @ L c (b, p)). th_priority (thread_of k u) \<le> p" using prio by fastforce
  have high: "\<forall>u\<in>set ?C. \<not> th_priority (thread_of k u) \<le> p" using prio by fastforce
  from take_drop_while_split [OF low high] show ?thesis unfolding new in_order_split [OF p, of L] by simp
qed

lemma candidates_bound:
  assumes ok: "sched_ok k L" and tops: "\<And>c t. c < NUM_CPU_CORES \<Longrightarrow> tops c = Some t \<Longrightarrow> t \<in> set (in_order L c False)"
    and walk: "walk_list (consider_suggestion tops k) (in_order L core True) [] = Inl cs" and core: "core < NUM_CPU_CORES"
  shows "length cs < NUM_CPU_CORES"
proof -
  let ?xs = "in_order L core True" and ?core = "\<lambda>t. th_core_id (thread_of k t)"
  note c = candidates_of_suggestions [OF walk]
  have cs: "cs = map ?core ?xs" using c(1) by simp
  have "inj_on ?core (set ?xs)"
  proof (rule inj_onI)
    fix x y
    assume xy: "x \<in> set ?xs" "y \<in> set ?xs" "?core x = ?core y"
    have "tops (nat (?core x)) = Some x" "tops (nat (?core y)) = Some y" using c(2) xy(1,2) by blast+
    then show "x = y" using xy(3) by (metis option.inject)
  qed
  then have "distinct cs" using distinct_in_order [OF sched_ok_parts(1) [OF ok]] by (simp add: cs distinct_map)
  moreover have "set cs \<subseteq> int ` ({..<NUM_CPU_CORES} - {core})"
  proof
    fix x
    assume "x \<in> set cs"
    then obtain t where t: "t \<in> set ?xs" "x = ?core t" by (auto simp: cs)
    have "0 \<le> x" "x \<noteq> int core" using c(2) [OF t(1)] t suggested_member(3) [OF ok t(1)] by auto
    moreover have "nat x < NUM_CPU_CORES" using active_core_valid [OF ok suggested_member(1) [OF ok t(1)]] t(2) \<open>0 \<le> x\<close> by simp
    ultimately show "x \<in> int ` ({..<NUM_CPU_CORES} - {core})" by (intro image_eqI [of _ _ "nat x"]) auto
  qed
  ultimately have "length cs \<le> card (int ` ({..<NUM_CPU_CORES} - {core}))"
    using card_mono [of "int ` ({..<NUM_CPU_CORES} - {core})" "set cs"] by (simp add: distinct_card)
  also have "\<dots> = NUM_CPU_CORES - 1" using core by (simp add: card_image)
  finally show ?thesis using core by simp
qed

text \<open>
  C10. From its creation on, whatever threads do (change of state, suspension, pinning, core masks, priorities, termination)
  and whatever the scheduler does (rotations, preemption, yields, updates), the queues hold exactly the threads that are
  runnable and of a priority that can be scheduled: each one at its priority, in the scheduled queue of its active core and in the
  suggested queue of every other core of its affinity mask, and nowhere else.
\<close>
theorem queues_hold_runnable_threads:
  assumes "sched_init k0" "run sched_step k0 es k"
  shows "\<exists>L. pq_rep (queue_state k) L \<and>
    (\<forall>t c b p. t \<in> set (L c (b, p)) \<longleftrightarrow>
       in_queue (thread_of k t) \<and> th_priority (thread_of k t) = p \<and> thread_place (thread_of k t) c = Some b)"
proof -
  obtain L where ok: "sched_ok k L" by (rule reachable_sched_ok [OF assms])
  show ?thesis using sched_ok_parts(1) [OF ok] listed_iff [OF ok] by blast
qed

theorem queues_hold_runnable_threads_witness:
  "sched_init sample_kernel \<and> run sched_step sample_kernel [State 2 Runnable, State 3 Runnable] running_sample \<and>
   (\<exists>L. pq_rep (queue_state running_sample) L \<and>
      (\<forall>t c b p. t \<in> set (L c (b, p)) \<longleftrightarrow> in_queue (thread_of running_sample t) \<and>
         th_priority (thread_of running_sample t) = p \<and> thread_place (thread_of running_sample t) c = Some b))"
  using sample_init sample_run queues_hold_runnable_threads [OF sample_init sample_run] by blast

lemma update_result:
  assumes "update_ok extra (no_pins k) k L' needing k'"
  shows "sched_ok k' L'" "c < NUM_CPU_CORES \<Longrightarrow> highest_of k' c = Some t \<Longrightarrow> in_queue (thread_of k' t) \<and> th_core_id (thread_of k' t) = int c \<or> extra c t"
    "flagged k needing k'" "no_pins k \<Longrightarrow> c < NUM_CPU_CORES \<Longrightarrow> first_on_core k' c (highest_of k' c)"
proof -
  obtain tops where ok: "tops_ok extra (no_pins k) k L' (tops, needing, k')" using assms by (auto simp: update_ok_def)
  note t = tops_okD [OF ok]
  show "sched_ok k' L'" "flagged k needing k'" by (rule t(1), rule t(2))
  show "in_queue (thread_of k' t) \<and> th_core_id (thread_of k' t) = int c \<or> extra c t" if "c < NUM_CPU_CORES" "highest_of k' c = Some t"
    using t(3,4) that scheduled_member [OF t(1)] by fastforce
  show "first_on_core k' c (highest_of k' c)" if "no_pins k" "c < NUM_CPU_CORES"
    using t(3) t(5) [OF that] that(2) first_on_core_front [OF t(1), of c] by simp
qed

text \<open>
  C13. An update of the highest priority threads returns in every reachable state. Each core gets a runnable thread that is active on
  that core, or a runnable thread that its process has pinned to that core, or none; where every pinned thread that may run is active on
  the core that it is pinned to (\<open>pins_ok\<close>), the thread is always active on the core, so that no thread is given to two cores. Every core
  whose thread changes is in the returned mask, and the cores of the mask are flagged for scheduling. Where no thread is
  pinned, each core gets a thread of the best priority among its active ones, and none only when it has none.
\<close>
theorem update_selects_threads:
  assumes "sched_init k0" "run sched_step k0 es k"
  shows "\<exists>needing k'. UpdateHighestPriorityThreadsImpl tick cur k = Some (needing, k') \<and>
    (\<forall>c<NUM_CPU_CORES. \<forall>t. highest_of k' c = Some t \<longrightarrow>
       in_queue (thread_of k' t) \<and> th_core_id (thread_of k' t) = int c \<or> pinned_on k c t) \<and>
    (pins_ok k \<longrightarrow> (\<forall>c<NUM_CPU_CORES. \<forall>t. highest_of k' c = Some t \<longrightarrow>
       in_queue (thread_of k' t) \<and> th_core_id (thread_of k' t) = int c)) \<and>
    (\<forall>c<NUM_CPU_CORES. highest_of k' c \<noteq> highest_of k c \<longrightarrow> bit needing c) \<and>
    (\<forall>c. bit needing c \<longrightarrow> c < NUM_CPU_CORES \<and> needs_of k' c) \<and>
    (no_pins k \<longrightarrow> (\<forall>c<NUM_CPU_CORES. first_on_core k' c (highest_of k' c)))"
proof -
  obtain L where ok: "sched_ok k L" by (rule reachable_sched_ok [OF assms])
  from UpdateHighestPriorityThreadsImpl_ok [OF ok, of "pinned_on k" tick cur] obtain needing k' L' where
    u: "UpdateHighestPriorityThreadsImpl tick cur k = Some (needing, k')" "update_ok (pinned_on k) (no_pins k) k L' needing k'" by blast
  have "\<exists>L'. update_ok (\<lambda>_ _. False) (no_pins k) k L' needing k'" if "pins_ok k"
    using UpdateHighestPriorityThreadsImpl_ok [OF ok, of "\<lambda>_ _. False" tick cur] pins_ok_active [OF ok that] u(1) by auto
  then have "in_queue (thread_of k' t) \<and> th_core_id (thread_of k' t) = int c"
    if "pins_ok k" "c < NUM_CPU_CORES" "highest_of k' c = Some t" for c t
    using update_result(2) [of "\<lambda>_ _. False" k _ needing k' c t] that by blast
  then show ?thesis using u(1) update_result(2-4) [OF u(2)] unfolding flagged_def by blast
qed

theorem update_selects_threads_witness:
  "sched_init sample_kernel \<and> run sched_step sample_kernel [State 2 Runnable, State 3 Runnable] running_sample \<and>
   pins_ok running_sample \<and> no_pins running_sample \<and>
   (\<exists>needing k'. UpdateHighestPriorityThreadsImpl 7 2 running_sample = Some (needing, k') \<and>
      (\<forall>c<NUM_CPU_CORES. \<forall>t. highest_of k' c = Some t \<longrightarrow> th_core_id (thread_of k' t) = int c) \<and>
      (\<forall>c<NUM_CPU_CORES. first_on_core k' c (highest_of k' c)))"
  using sample_init sample_run sample_state(5,6)
    update_selects_threads [OF sample_init sample_run, of 7 2] by blast

text \<open>
  C16. In every reachable state the loops of the scheduler along the queues end: a rotation, a preemption, a yield with migration and a
  yield to any thread return, as does an update, whatever threads are pinned.
\<close>
theorem scheduler_operations_return:
  assumes "sched_init k0" "run sched_step k0 es k"
  shows "(\<exists>k'. PreemptThreads cur k = Some k') \<and>
    (c < NUM_CPU_CORES \<longrightarrow> (\<exists>k'. RotateScheduledQueue cur c p k = Some k')) \<and>
    (runs (thread_of k cur) \<longrightarrow>
      (\<exists>k'. YieldWithCoreMigration cur proc k = Some k') \<and> (\<exists>k'. YieldToAnyThread cur proc k = Some k')) \<and>
    (\<exists>r. UpdateHighestPriorityThreads tick cur k = Some r)"
proof -
  obtain L where ok: "sched_ok k L" by (rule reachable_sched_ok [OF assms])
  have "\<exists>r. UpdateHighestPriorityThreads tick cur k = Some r"
    using UpdateHighestPriorityThreadsImpl_ok [OF ok, of "pinned_on k" tick cur]
    by (cases "k_scheduler_update_needed k") (auto simp: UpdateHighestPriorityThreads_def)
  then show ?thesis
    using PreemptThreads_ok [OF ok] RotateScheduledQueue_ok [OF ok] YieldWithCoreMigration_ok [OF ok] YieldToAnyThread_ok [OF ok] by blast
qed

theorem scheduler_operations_return_witness:
  "sched_init sample_kernel \<and> run sched_step sample_kernel [State 2 Runnable, State 3 Runnable] running_sample \<and>
   runs (thread_of running_sample 2) \<and>
   (\<exists>k'. RotateScheduledQueue 2 0 44 running_sample = Some k') \<and> (\<exists>k'. YieldToAnyThread 2 0 running_sample = Some k') \<and>
   (\<exists>r. UpdateHighestPriorityThreads 7 2 running_sample = Some r)"
proof -
  have "0 < NUM_CPU_CORES" by (simp add: NUM_CPU_CORES_def)
  then show ?thesis
    using sample_init sample_run sample_state(3) scheduler_operations_return [OF sample_init sample_run, of 2 0 44 0 7] by blast
qed

text \<open>
  C20. In every reachable state, going along the scheduled queue of a core from its front meets every thread that is active on the core
  once, and going along the suggested queue meets every other thread that may run on the core once, both in the order of their
  priorities. Within a priority they are met in the order of arrival: a thread that becomes runnable is met after all the
  threads of its priority and of better ones, the others keep their order, and the queues where it has no place do not change.
\<close>
theorem queue_walks_in_priority_order:
  assumes "sched_init k0" "run sched_step k0 es k" "c < NUM_CPU_CORES"
  shows "\<exists>xs. queue_along suggested c k = Some xs \<and> distinct xs \<and> sorted (map (\<lambda>t. th_priority (thread_of k t)) xs) \<and>
    set xs = {t. in_queue (thread_of k t) \<and>
      (if suggested then bit (th_affinity (thread_of k t)) c \<and> th_core_id (thread_of k t) \<noteq> int c else th_core_id (thread_of k t) = int c)} \<and>
    (\<forall>t. \<not> in_queue (thread_of k t) \<and> in_queue (thread_of (SetState t Runnable k) t) \<longrightarrow>
       queue_along suggested c (SetState t Runnable k) =
         Some (if thread_place (thread_of k t) c = Some suggested
               then takeWhile (\<lambda>u. th_priority (thread_of k u) \<le> th_priority (thread_of k t)) xs @ t #
                    dropWhile (\<lambda>u. th_priority (thread_of k u) \<le> th_priority (thread_of k t)) xs
               else xs))"
proof -
  obtain L where ok: "sched_ok k L" by (rule reachable_sched_ok [OF assms(1,2)])
  let ?xs = "in_order L c suggested"
  have "queue_along suggested c (SetState t Runnable k) =
      Some (if thread_place (thread_of k t) c = Some suggested
            then takeWhile (\<lambda>u. th_priority (thread_of k u) \<le> th_priority (thread_of k t)) ?xs @ t #
                 dropWhile (\<lambda>u. th_priority (thread_of k u) \<le> th_priority (thread_of k t)) ?xs
            else ?xs)" if t: "\<not> in_queue (thread_of k t)" "in_queue (thread_of (SetState t Runnable k) t)" for t
  proof -
    have p: "th_priority (thread_of k t) \<le> LowestPriority" using t(2) by (simp add: in_queue_def SetState_fields)
    show ?thesis unfolding queue_along_in_order [OF SetState_appends [OF ok t] assms(3)] in_order_appended [OF ok p] ..
  qed
  moreover have "set ?xs = {t. in_queue (thread_of k t) \<and>
      (if suggested then bit (th_affinity (thread_of k t)) c \<and> th_core_id (thread_of k t) \<noteq> int c else th_core_id (thread_of k t) = int c)}"
    using scheduled_member [OF ok] suggested_iff [OF ok] by (cases suggested) auto
  ultimately show ?thesis
    using queue_along_in_order [OF ok assms(3)] distinct_in_order [OF sched_ok_parts(1) [OF ok]] in_order_sorted [OF ok]
    by (intro exI [of _ ?xs]) blast
qed

lemma sample_next:
  "\<not> in_queue (thread_of running_sample 4)" "in_queue (thread_of (SetState 4 Runnable running_sample) 4)"
  "thread_place (thread_of running_sample 4) 0 = Some False" "th_priority (thread_of running_sample t) = 44"
proof -
  have f: "th_state (thread_of sample_kernel u) = 0" "th_core_id (thread_of sample_kernel u) = 0" "th_priority (thread_of sample_kernel u) = 44"
    "\<not> th_is_dummy (thread_of sample_kernel u)" "th_affinity (thread_of sample_kernel u) = 3" for u
    by (simp_all add: sample_kernel_def sample_thread_def Initialized_def)
  show "\<not> in_queue (thread_of running_sample 4)" "in_queue (thread_of (SetState 4 Runnable running_sample) 4)"
    "th_priority (thread_of running_sample t) = 44"
    by (simp_all add: in_queue_def SetState_fields f LowestPriority_def ThreadState_Mask_def Runnable_def)
  have "affs running_sample 4 = affs sample_kernel 4" by simp
  then have "th_affinity (thread_of running_sample 4) = 3" using f(5) [of 4] by (simp add: affs_def aff_of_def)
  then show "thread_place (thread_of running_sample 4) 0 = Some False" by (simp add: place_def SetState_fields f)
qed

theorem queue_walks_in_priority_order_witness:
  "sched_init sample_kernel \<and> run sched_step sample_kernel [State 2 Runnable, State 3 Runnable] running_sample \<and>
   (\<exists>xs. queue_along False 0 running_sample = Some xs \<and> {2, 3} \<subseteq> set xs \<and> distinct xs \<and>
      queue_along False 0 (SetState 4 Runnable running_sample) = Some (xs @ [4]))"
proof -
  have "0 < NUM_CPU_CORES" by (simp add: NUM_CPU_CORES_def)
  from queue_walks_in_priority_order [OF sample_init sample_run this, of False] obtain xs where
    xs: "queue_along False 0 running_sample = Some xs" "distinct xs"
      "set xs = {t. in_queue (thread_of running_sample t) \<and> (if False then bit (th_affinity (thread_of running_sample t)) 0 \<and>
         th_core_id (thread_of running_sample t) \<noteq> int 0 else th_core_id (thread_of running_sample t) = int 0)}"
    and new: "\<And>t. \<not> in_queue (thread_of running_sample t) \<and> in_queue (thread_of (SetState t Runnable running_sample) t) \<Longrightarrow>
       queue_along False 0 (SetState t Runnable running_sample) =
         Some (if thread_place (thread_of running_sample t) 0 = Some False
               then takeWhile (\<lambda>u. th_priority (thread_of running_sample u) \<le> th_priority (thread_of running_sample t)) xs @ t #
                    dropWhile (\<lambda>u. th_priority (thread_of running_sample u) \<le> th_priority (thread_of running_sample t)) xs
               else xs)" by blast
  have "queue_along False 0 (SetState 4 Runnable running_sample) = Some (xs @ [4])"
    using new [of 4] sample_next(1-3) unfolding sample_next(4) by simp
  moreover have "th_core_id (thread_of running_sample 3) = 0" by (simp add: SetState_fields sample_kernel_def sample_thread_def)
  then have "{2, 3} \<subseteq> set xs" using xs(3) sample_state(1,2,4) by simp
  ultimately show ?thesis using xs sample_init sample_run by blast
qed

text \<open>
  A yield without migration, in a reachable state, moves the current thread behind every other thread of its core and its
  priority; no other queue changes and the other threads keep their order. An update is requested exactly when another thread
  comes before it.
\<close>
theorem yield_moves_to_the_back:
  assumes "sched_init k0" "run sched_step k0 es k" "runs (thread_of k cur)" "\<not> nothing_to_yield cur proc k"
    "c = nat (th_core_id (thread_of k cur))" "p = th_priority (thread_of k cur)"
  shows "\<exists>L. pq_rep (queue_state k) L \<and> cur \<in> set (L c (False, p)) \<and>
    pq_rep (queue_state (YieldWithoutCoreMigration cur proc k)) (put_list c (False, p) (remove1 cur (L c (False, p)) @ [cur]) L) \<and>
    k_scheduler_update_needed (YieldWithoutCoreMigration cur proc k) =
      (k_scheduler_update_needed k \<or> L c (False, p) \<noteq> [cur])"
proof -
  obtain L where ok: "sched_ok k L" by (rule reachable_sched_ok [OF assms(1,2)])
  note y = yielding [OF assms(3,4)]
  obtain nx s where move: "MoveToScheduledBack cur (queue_state k) = (nx, s)" by (metis surj_pair)
  note b = MoveToScheduledBack_ok [OF ok y move, folded assms(5,6)]
  have cur: "cur \<in> set (L c (False, p))"
    using listed_iff [OF ok, of cur c False p] y assms(3,5,6) sched_ok_parts(3) [OF ok, of cur]
    by (auto simp: place_def runs_def placed_def valid_place_def)
  have d: "distinct (L c (False, p))" by (rule pq_rep_parts(5) [OF sched_ok_parts(1) [OF ok]])
  have nx: "nx = Some cur \<longleftrightarrow> L c (False, p) = [cur]"
  proof -
    obtain ys zs where xs: "L c (False, p) = ys @ cur # zs" using split_list [OF cur] by blast
    then show ?thesis using d unfolding b(3) by (cases ys; cases zs) (auto simp: remove1_append)
  qed
  let ?k = "YieldWithoutCoreMigration cur proc k"
  have "queue_state ?k = s \<or> (\<exists>v. queue_state ?k = (fst s, (snd s)(cur := (snd s cur) \<lparr> th_schedule_count := v \<rparr>)))"
    using move assms(4) by (auto simp: YieldWithoutCoreMigration_def Let_def SetYieldScheduleCount_def)
  moreover have "pq_rep s (rotated cur c p L)" using sched_ok_parts(1) [OF b(1)] by simp
  moreover have "pq_rep (fst s, (snd s)(cur := (snd s cur) \<lparr> th_schedule_count := v \<rparr>)) (rotated cur c p L)"
    if "pq_rep s (rotated cur c p L)" for v
    using that pq_rep_entries [of "(snd s)(cur := (snd s cur) \<lparr> th_schedule_count := v \<rparr>)" "snd s" "fst s"] by simp
  ultimately have "pq_rep (queue_state ?k) (rotated cur c p L)" by metis
  moreover have "k_scheduler_update_needed ?k = (k_scheduler_update_needed k \<or> nx \<noteq> Some cur)"
    using move assms(4)
    by (auto simp: YieldWithoutCoreMigration_def Let_def SetYieldScheduleCount_def SetSchedulerUpdateNeeded_def set_thread_def
        IncrementScheduledCount_def set_process_def put_queue_state_def split: option.split)
  ultimately show ?thesis using sched_ok_parts(1) [OF ok] cur nx unfolding rotated_def by auto
qed

theorem yield_moves_to_the_back_witness:
  "sched_init sample_kernel \<and> run sched_step sample_kernel [State 2 Runnable, State 3 Runnable] running_sample \<and>
   runs (thread_of running_sample 2) \<and> \<not> nothing_to_yield 2 0 running_sample \<and>
   (\<exists>L c p. pq_rep (queue_state running_sample) L \<and> 2 \<in> set (L c (False, p)) \<and>
      pq_rep (queue_state (YieldWithoutCoreMigration 2 0 running_sample)) (put_list c (False, p) (remove1 2 (L c (False, p)) @ [2]) L))"
  using sample_init sample_run sample_state(3,7)
    yield_moves_to_the_back [OF sample_init sample_run sample_state(3,7) refl refl] by blast

text \<open>
  The array of migration candidates is large enough: in a reachable state, where every top thread is active on its core, a walk
  over all the suggested threads of a core notes fewer candidates than there are cores.
\<close>
theorem migration_candidates_bounded:
  assumes "sched_init k0" "run sched_step k0 es k" "core < NUM_CPU_CORES"
    "\<forall>c<NUM_CPU_CORES. \<forall>t. tops c = Some t \<longrightarrow> in_queue (thread_of k t) \<and> th_core_id (thread_of k t) = int c"
    "walk (\<lambda>t. GetSuggestedNext core t (queue_state k)) (consider_suggestion tops k) (GetSuggestedFront core (queue_state k)) [] =
       Some (Inl candidates)"
  shows "length candidates < NUM_CPU_CORES"
proof -
  obtain L where ok: "sched_ok k L" by (rule reachable_sched_ok [OF assms(1,2)])
  have "walk_list (consider_suggestion tops k) (in_order L core True) [] = Inl candidates"
    using assms(5) suggested_walk [OF ok assms(3), where body = "consider_suggestion tops k" and acc = "[]"] by simp
  then show ?thesis
    using candidates_bound [OF ok _ _ assms(3), of tops candidates] assms(4) scheduled_member [OF ok] by blast
qed

lemma single_sample:
  fixes k :: kernel
  defines "k \<equiv> SetState 2 Runnable sample_kernel"
  shows "run sched_step sample_kernel [State 2 Runnable] k"
    "in_queue (thread_of k t) \<longleftrightarrow> t = 2" "th_core_id (thread_of k t) = 0"
    "walk (\<lambda>t. GetSuggestedNext 1 t (queue_state k)) (consider_suggestion ((\<lambda>_. None)(0 := Some 2)) k)
       (GetSuggestedFront 1 (queue_state k)) [] = Some (Inl [0])"
proof -
  show run: "run sched_step sample_kernel [State 2 Runnable] k" unfolding k_def by (rule run_one) (rule sched_step.state)
  have f: "th_state (thread_of sample_kernel t) = 0" "th_core_id (thread_of sample_kernel t) = 0"
    "th_priority (thread_of sample_kernel t) = 44" "\<not> th_is_dummy (thread_of sample_kernel t)" "th_affinity (thread_of sample_kernel t) = 3" for t
    by (simp_all add: sample_kernel_def sample_thread_def Initialized_def)
  show q: "in_queue (thread_of k t) \<longleftrightarrow> t = 2" and c: "th_core_id (thread_of k t) = 0" for t
    by (auto simp: k_def in_queue_def SetState_fields f LowestPriority_def ThreadState_Mask_def Runnable_def)
  have a: "bit (th_affinity (thread_of k 2)) 1"
    using fun_cong [OF affs_state(2) [of 2 Runnable sample_kernel], of 2] f(5) [of 2] by (simp add: k_def affs_def aff_of_def)
  obtain L where ok: "sched_ok k L" by (rule reachable_sched_ok [OF sample_init run])
  have "set (in_order L 1 True) = {2}" using suggested_iff [OF ok, of _ 1] q c a by auto
  then have one: "in_order L 1 True = [2]"
    using distinct_in_order [OF sched_ok_parts(1) [OF ok], of 1 True]
    by (cases "in_order L 1 True"; cases "tl (in_order L 1 True)") auto
  show "walk (\<lambda>t. GetSuggestedNext 1 t (queue_state k)) (consider_suggestion ((\<lambda>_. None)(0 := Some 2)) k)
       (GetSuggestedFront 1 (queue_state k)) [] = Some (Inl [0])"
    using suggested_walk [OF ok, where c = 1 and body = "consider_suggestion ((\<lambda>_. None)(0 := Some 2)) k" and acc = "[]"] one c
    by (simp add: NUM_CPU_CORES_def consider_suggestion_def)
qed

theorem migration_candidates_bounded_witness:
  "sched_init sample_kernel \<and> run sched_step sample_kernel [State 2 Runnable] (SetState 2 Runnable sample_kernel) \<and>
   walk (\<lambda>t. GetSuggestedNext 1 t (queue_state (SetState 2 Runnable sample_kernel)))
     (consider_suggestion ((\<lambda>_. None)(0 := Some 2)) (SetState 2 Runnable sample_kernel))
     (GetSuggestedFront 1 (queue_state (SetState 2 Runnable sample_kernel))) [] = Some (Inl [0]) \<and>
   length [0 :: int] < NUM_CPU_CORES"
proof -
  let ?k = "SetState 2 Runnable sample_kernel"
  have "1 < NUM_CPU_CORES" by (simp add: NUM_CPU_CORES_def)
  moreover have "\<forall>c<NUM_CPU_CORES. \<forall>t. ((\<lambda>_. None)(0 := Some 2)) c = Some t \<longrightarrow>
      in_queue (thread_of ?k t) \<and> th_core_id (thread_of ?k t) = int c" using single_sample(2,3) by auto
  ultimately show ?thesis
    using migration_candidates_bounded [OF sample_init single_sample(1) _ _ single_sample(4)] sample_init single_sample(1,4) by blast
qed

end
