(* ===== verification/PriorityInheritance.thy ===== *)
theory PriorityInheritance
  imports Thread
begin

text \<open>
  Locks with priority inheritance (\<^verbatim>\<open>core/hle/kernel/k_thread.{h,cpp}\<close>): a thread that waits for a lock lends its priority to the
  thread that holds it, and along the chain of threads that wait for each other. And the waits that rest on
  them, with their cancellation.

  The locks and the trees of waiting threads are in the kernel record; the red-black trees are the sequences that their iterators visit,
  where an insertion comes behind the elements that compare equal. The functions get the current thread as \<open>cur\<close>, since a change of
  its priority keeps it in front of its queue.
\<close>

section \<open>Trees of waiting threads\<close>

definition insert_ordered :: "('a \<Rightarrow> 'a \<Rightarrow> bool) \<Rightarrow> 'a \<Rightarrow> 'a list \<Rightarrow> 'a list" where
  "insert_ordered before t xs = takeWhile (\<lambda>x. \<not> before t x) xs @ t # dropWhile (\<lambda>x. \<not> before t x) xs"

text \<open>The comparisons are negative exactly where the left argument comes first.\<close>

definition lock_less :: "threads \<Rightarrow> thread \<Rightarrow> thread \<Rightarrow> bool" where
  "lock_less ths t u \<longleftrightarrow> th_priority (ths t) < th_priority (ths u)"

definition condvar_less :: "threads \<Rightarrow> thread \<Rightarrow> thread \<Rightarrow> bool" where
  "condvar_less ths t u \<longleftrightarrow>
     th_condvar_key (ths t) < th_condvar_key (ths u) \<or>
     th_condvar_key (ths t) = th_condvar_key (ths u) \<and> th_priority (ths t) < th_priority (ths u)"

definition tree_insert_thread :: "thread_tree \<Rightarrow> thread \<Rightarrow> kernel \<Rightarrow> kernel" where
  "tree_insert_thread tr t k =
     k \<lparr> k_thread_trees := (k_thread_trees k)(tr := insert_ordered (condvar_less (k_threads k)) t (k_thread_trees k tr)) \<rparr>"

definition tree_erase_thread :: "thread_tree \<Rightarrow> thread \<Rightarrow> kernel \<Rightarrow> kernel" where
  "tree_erase_thread tr t k = k \<lparr> k_thread_trees := (k_thread_trees k)(tr := remove1 t (k_thread_trees k tr)) \<rparr>"

definition BeforeUpdatePriority :: "thread_tree option \<Rightarrow> thread \<Rightarrow> kernel \<Rightarrow> kernel" where
  "BeforeUpdatePriority cv_tree t k = (case cv_tree of None \<Rightarrow> k | Some tr \<Rightarrow> tree_erase_thread tr t k)"

definition AfterUpdatePriority :: "thread_tree option \<Rightarrow> thread \<Rightarrow> kernel \<Rightarrow> kernel" where
  "AfterUpdatePriority cv_tree t k = (case cv_tree of None \<Rightarrow> k | Some tr \<Rightarrow> tree_insert_thread tr t k)"

section \<open>Locks\<close>

definition set_lock ::
    "nat \<Rightarrow> (LockWithPriorityInheritanceInfo \<Rightarrow> LockWithPriorityInheritanceInfo) \<Rightarrow> kernel \<Rightarrow> kernel" where
  "set_lock l f k = k \<lparr> k_lock_infos := (k_lock_infos k)(l := map_option f (k_lock_infos k l)) \<rparr>"

definition Lock_Create :: "u64 \<Rightarrow> bool \<Rightarrow> kernel \<Rightarrow> nat \<times> kernel" where
  "Lock_Create key is_kernel k =
     (k_next_lock k,
      k \<lparr> k_lock_infos := (k_lock_infos k)(k_next_lock k \<mapsto>
            \<lparr> li_tree = [], li_address_key = key, li_owner = None, li_waiter_count = 0, li_is_kernel_address_key = is_kernel \<rparr>),
          k_next_lock := k_next_lock k + 1 \<rparr>)"

definition Lock_Free :: "nat \<Rightarrow> kernel \<Rightarrow> kernel" where
  "Lock_Free l k = k \<lparr> k_lock_infos := (k_lock_infos k)(l := None) \<rparr>"

definition Lock_AddWaiter :: "nat \<Rightarrow> thread \<Rightarrow> kernel \<Rightarrow> kernel" where
  "Lock_AddWaiter l t k =
     set_thread t (\<lambda>th. th \<lparr> th_waiting_lock_info := Some l \<rparr>)
       (set_lock l (\<lambda>i. i \<lparr> li_tree := insert_ordered (lock_less (k_threads k)) t (li_tree i),
          li_waiter_count := li_waiter_count i + 1 \<rparr>) k)"

text \<open>The removal of a waiter, and whether it was the last one.\<close>

definition Lock_RemoveWaiter :: "nat \<Rightarrow> thread \<Rightarrow> kernel \<Rightarrow> bool \<times> kernel" where
  "Lock_RemoveWaiter l t k =
     (let k1 = set_thread t (\<lambda>th. th \<lparr> th_waiting_lock_info := None \<rparr>)
                 (set_lock l (\<lambda>i. i \<lparr> li_tree := remove1 t (li_tree i), li_waiter_count := li_waiter_count i - 1 \<rparr>) k)
      in (case k_lock_infos k1 l of None \<Rightarrow> False | Some i \<Rightarrow> li_waiter_count i = 0, k1))"

definition GetHighestPriorityWaiter :: "LockWithPriorityInheritanceInfo \<Rightarrow> thread" where
  "GetHighestPriorityWaiter i = hd (li_tree i)"

definition GetLockOwner :: "kernel \<Rightarrow> thread \<Rightarrow> thread option" where
  "GetLockOwner k t = Option.bind (th_waiting_lock_info (thread_of k t)) (\<lambda>l. Option.bind (k_lock_infos k l) li_owner)"

definition AddHeldLock :: "thread \<Rightarrow> nat \<Rightarrow> kernel \<Rightarrow> kernel" where
  "AddHeldLock t l k =
     set_thread t (\<lambda>th. th \<lparr> th_held_lock_info_list := l # th_held_lock_info_list th \<rparr>)
       (set_lock l (\<lambda>i. i \<lparr> li_owner := Some t \<rparr>) k)"

definition FindHeldLock :: "u64 \<Rightarrow> bool \<Rightarrow> thread \<Rightarrow> kernel \<Rightarrow> nat option" where
  "FindHeldLock key is_kernel t k =
     List.find (\<lambda>l. case k_lock_infos k l of
                      None \<Rightarrow> False
                    | Some i \<Rightarrow> li_address_key i = key \<and> li_is_kernel_address_key i = is_kernel)
       (th_held_lock_info_list (thread_of k t))"

definition count_kernel_waiters :: "thread \<Rightarrow> int \<Rightarrow> kernel \<Rightarrow> kernel" where
  "count_kernel_waiters t n k = set_thread t (\<lambda>th. th \<lparr> th_num_kernel_waiters := th_num_kernel_waiters th + n \<rparr>) k"

definition AddWaiterImpl :: "thread \<Rightarrow> thread \<Rightarrow> kernel \<Rightarrow> kernel" where
  "AddWaiterImpl owner t k =
     (let key = th_address_key (thread_of k t);
          is_kernel = th_is_kernel_address_key (thread_of k t);
          k1 = (if is_kernel then SetSchedulerUpdateNeeded (count_kernel_waiters owner 1 k) else k);
          (l, k2) = (case FindHeldLock key is_kernel owner k1 of
                       Some l \<Rightarrow> (l, k1)
                     | None \<Rightarrow> (let (l, k') = Lock_Create key is_kernel k1 in (l, AddHeldLock owner l k')))
      in Lock_AddWaiter l t k2)"

definition erase_held :: "thread \<Rightarrow> nat \<Rightarrow> kernel \<Rightarrow> kernel" where
  "erase_held t l k = set_thread t (\<lambda>th. th \<lparr> th_held_lock_info_list := remove1 l (th_held_lock_info_list th) \<rparr>) k"

text \<open>Waiters are removed from their owner, so that there is a lock that they wait for.\<close>

definition RemoveWaiterImpl :: "thread \<Rightarrow> thread \<Rightarrow> kernel \<Rightarrow> kernel" where
  "RemoveWaiterImpl owner t k =
     (let k1 = (if th_is_kernel_address_key (thread_of k t)
                then SetSchedulerUpdateNeeded (count_kernel_waiters owner (- 1) k) else k)
      in case th_waiting_lock_info (thread_of k1 t) of
           None \<Rightarrow> k1
         | Some l \<Rightarrow>
             (let (last_waiter, k2) = Lock_RemoveWaiter l t k1
              in if last_waiter then Lock_Free l (erase_held owner l k2) else k2))"

section \<open>Inheritance\<close>

definition inherited_priority :: "kernel \<Rightarrow> thread \<Rightarrow> nat" where
  "inherited_priority k t =
     foldl (\<lambda>p l. case k_lock_infos k l of
                    None \<Rightarrow> p
                  | Some i \<Rightarrow> min p (th_priority (thread_of k (GetHighestPriorityWaiter i))))
       (th_base_priority (thread_of k t)) (th_held_lock_info_list (thread_of k t))"

text \<open>One turn of the loop: the thread changes its priority, out of the trees that are ordered by it.\<close>

definition restore_turn :: "thread \<Rightarrow> thread \<Rightarrow> nat \<Rightarrow> kernel \<Rightarrow> kernel" where
  "restore_turn cur t new_priority k =
     (let lock_owner = GetLockOwner k t;
          cv_tree = th_condvar_tree (thread_of k t);
          old_priority = th_priority (thread_of k t);
          k1 = (case lock_owner of None \<Rightarrow> k | Some owner \<Rightarrow> RemoveWaiterImpl owner t k);
          k2 = BeforeUpdatePriority cv_tree t k1;
          k3 = set_thread t (\<lambda>th. th \<lparr> th_priority := new_priority \<rparr>) k2;
          k4 = AfterUpdatePriority cv_tree t k3;
          k5 = (case lock_owner of None \<Rightarrow> k4 | Some owner \<Rightarrow> AddWaiterImpl owner t k4)
      in OnThreadPriorityChanged cur t old_priority k5)"

partial_function (option) RestorePriority :: "thread \<Rightarrow> thread option \<Rightarrow> kernel \<Rightarrow> kernel option" where
  [code]: "RestorePriority cur who k =
     (case who of
        None \<Rightarrow> Some k
      | Some t \<Rightarrow>
          (let new_priority = inherited_priority k t
           in if new_priority = th_priority (thread_of k t) then Some k
              else RestorePriority cur (GetLockOwner k t) (restore_turn cur t new_priority k)))"

definition AddWaiter :: "thread \<Rightarrow> thread \<Rightarrow> thread \<Rightarrow> kernel \<Rightarrow> kernel option" where
  "AddWaiter cur owner t k =
     (let k1 = AddWaiterImpl owner t k
      in if th_priority (thread_of k1 t) < th_priority (thread_of k1 owner) then RestorePriority cur (Some owner) k1 else Some k1)"

text \<open>Whether a thread that loses a waiter of the given thread's priority may have inherited its own from it.\<close>

definition may_restore :: "thread \<Rightarrow> thread \<Rightarrow> kernel \<Rightarrow> bool" where
  "may_restore owner t k \<longleftrightarrow>
     th_priority (thread_of k owner) = th_priority (thread_of k t) \<and>
     th_priority (thread_of k owner) < th_base_priority (thread_of k owner)"

definition RemoveWaiter :: "thread \<Rightarrow> thread \<Rightarrow> thread \<Rightarrow> kernel \<Rightarrow> kernel option" where
  "RemoveWaiter cur owner t k =
     (let k1 = RemoveWaiterImpl owner t k
      in if may_restore owner t k1 then RestorePriority cur (Some owner) k1 else Some k1)"

text \<open>
  The lock of a key passes to its waiter of highest priority, with the other waiters. The values are that waiter, whether there are
  others, and the kernel.
\<close>

definition pass_lock :: "thread \<Rightarrow> nat \<Rightarrow> LockWithPriorityInheritanceInfo \<Rightarrow> kernel \<Rightarrow> thread \<times> bool \<times> kernel" where
  "pass_lock owner l i k =
     (let k1 = erase_held owner l k;
          k2 = (if li_is_kernel_address_key i
                then SetSchedulerUpdateNeeded (count_kernel_waiters owner (- int (li_waiter_count i)) k1) else k1);
          next_owner = GetHighestPriorityWaiter i;
          (last_waiter, k3) = Lock_RemoveWaiter l next_owner k2
      in (next_owner, \<not> last_waiter,
          if last_waiter then Lock_Free l k3
          else
            (let k4 = AddHeldLock next_owner l k3
             in if li_is_kernel_address_key i then count_kernel_waiters next_owner (int (li_waiter_count i) - 1) k4 else k4)))"

definition RemoveWaiterByKey ::
    "thread \<Rightarrow> thread \<Rightarrow> u64 \<Rightarrow> bool \<Rightarrow> kernel \<Rightarrow> (thread option \<times> bool \<times> kernel) option" where
  "RemoveWaiterByKey cur owner key is_kernel k =
     (case FindHeldLock key is_kernel owner k of
        None \<Rightarrow> Some (None, False, k)
      | Some l \<Rightarrow>
          (case k_lock_infos k l of
             None \<Rightarrow> Some (None, False, k)
           | Some i \<Rightarrow>
               (let (next_owner, has_waiters, k1) = pass_lock owner l i k
                in case (if may_restore owner next_owner k1 then RestorePriority cur (Some owner) k1 else Some k1) of
                     None \<Rightarrow> None
                   | Some k2 \<Rightarrow> Some (Some next_owner, has_waiters, k2))))"

definition SetBasePriority :: "thread \<Rightarrow> thread \<Rightarrow> nat \<Rightarrow> kernel \<Rightarrow> kernel option" where
  "SetBasePriority cur t v k = RestorePriority cur (Some t) (set_thread t (\<lambda>th. th \<lparr> th_base_priority := v \<rparr>) k)"

definition IncreaseBasePriority :: "thread \<Rightarrow> thread \<Rightarrow> nat \<Rightarrow> kernel \<Rightarrow> kernel option" where
  "IncreaseBasePriority cur t v k = (if v < th_base_priority (thread_of k t) then SetBasePriority cur t v k else Some k)"

section \<open>Keys\<close>

definition SetUserAddressKey :: "thread \<Rightarrow> u64 \<Rightarrow> u32 \<Rightarrow> kernel \<Rightarrow> kernel" where
  "SetUserAddressKey t key v k =
     set_thread t (\<lambda>th. th \<lparr> th_address_key := key, th_address_key_value := v, th_is_kernel_address_key := False \<rparr>) k"

definition SetKernelAddressKey :: "thread \<Rightarrow> u64 \<Rightarrow> kernel \<Rightarrow> kernel" where
  "SetKernelAddressKey t key k = set_thread t (\<lambda>th. th \<lparr> th_address_key := key, th_is_kernel_address_key := True \<rparr>) k"

definition SetConditionVariable :: "thread \<Rightarrow> thread_tree \<Rightarrow> u64 \<Rightarrow> u64 \<Rightarrow> u32 \<Rightarrow> kernel \<Rightarrow> kernel" where
  "SetConditionVariable t tr address cv_key v k =
     set_thread t (\<lambda>th. th \<lparr> th_condvar_tree := Some tr, th_condvar_key := cv_key, th_address_key := address,
       th_address_key_value := v, th_is_kernel_address_key := False \<rparr>) k"

definition SetAddressArbiter :: "thread \<Rightarrow> thread_tree \<Rightarrow> u64 \<Rightarrow> kernel \<Rightarrow> kernel" where
  "SetAddressArbiter t tr address k =
     set_thread t (\<lambda>th. th \<lparr> th_condvar_tree := Some tr, th_condvar_key := address \<rparr>) k"

text \<open>Leaving the condition variable or the address arbiter; both functions of the code clear the same field.\<close>

definition ClearConditionVariable :: "thread \<Rightarrow> kernel \<Rightarrow> kernel" where
  "ClearConditionVariable t k = set_thread t (\<lambda>th. th \<lparr> th_condvar_tree := None \<rparr>) k"

section \<open>Cancelling a wait\<close>

text \<open>The queues of a light lock and of a condition variable leave the owner if the thread has one.\<close>

definition leave_lock :: "thread \<Rightarrow> thread \<Rightarrow> kernel \<Rightarrow> kernel option" where
  "leave_lock cur t k = (case GetLockOwner k t of None \<Rightarrow> Some k | Some owner \<Rightarrow> RemoveWaiter cur owner t k)"

text \<open>The queue of a wait for an address uses the owner without a test for null, so a thread without an owner has no result.\<close>

definition leave_owner :: "thread \<Rightarrow> thread \<Rightarrow> kernel \<Rightarrow> kernel option" where
  "leave_owner cur t k = (case GetLockOwner k t of None \<Rightarrow> None | Some owner \<Rightarrow> RemoveWaiter cur owner t k)"

definition leave_tree :: "thread_tree \<Rightarrow> thread \<Rightarrow> kernel \<Rightarrow> kernel" where
  "leave_tree tr t k =
     (if th_condvar_tree (thread_of k t) \<noteq> None then ClearConditionVariable t (tree_erase_thread tr t k) else k)"

text \<open>
  The lists of the objects that a thread waits for are not part of the kernel record: a cancelled wait for objects leaves them first, in
  \<^verbatim>\<open>SynchronizationObject\<close>.
\<close>

definition queue_CancelWait :: "thread \<Rightarrow> thread \<Rightarrow> Result \<Rightarrow> thread_queue \<Rightarrow> kernel \<Rightarrow> kernel option" where
  "queue_CancelWait cur t r q k =
     map_option (KThreadQueue_EndWait t r)
       (case q of
          ForKLightLock \<Rightarrow> leave_lock cur t k
        | ForKConditionVariableWaitForAddress \<Rightarrow> leave_owner cur t k
        | ForKConditionVariableWaitConditionVariable tr \<Rightarrow> map_option (leave_tree tr t) (leave_lock cur t k)
        | ForKAddressArbiter tr \<Rightarrow> Some (leave_tree tr t k)
        | ForKThreadSetProperty u \<Rightarrow>
            Some (set_thread u (\<lambda>th. th \<lparr> th_pinned_waiter_list := remove1 t (th_pinned_waiter_list th) \<rparr>) k)
        | ForKSynchronizationObjectWait \<Rightarrow> Some k)"

definition CancelWait :: "thread \<Rightarrow> thread \<Rightarrow> Result \<Rightarrow> kernel \<Rightarrow> kernel option" where
  "CancelWait cur t r k =
     (if GetState (thread_of k t) = Waiting
      then case th_wait_queue (thread_of k t) of None \<Rightarrow> Some k | Some q \<Rightarrow> queue_CancelWait cur t r q k
      else Some k)"

end
