(* ===== verification/UserSynchronization.thy ===== *)
theory UserSynchronization
  imports PriorityInheritance HandleTable
begin

text \<open>
  Locks, condition variables and address arbiters of a process (\<^verbatim>\<open>core/hle/kernel/k_condition_variable.cpp\<close>
  and \<^verbatim>\<open>k_address_arbiter.{h,cpp}\<close>), which rest on words of the memory of the process. The functions run under the
  scheduler lock; a loop around an exclusive store ends with the attempt that succeeds, and has the effect of that attempt.

  A function that waits either returns a result at once or leaves the current thread waiting; then it returns the result of the wait.
  The references to threads that lookups in the handle table open and close again are not counted. The timers of waits are not
  part of the model.
\<close>

type_synonym s32 = "32 word"

section \<open>The caller\<close>

text \<open>The current thread, its process, and the handle table of the process, whose objects of the given kind are threads.\<close>

record caller =
  cl_thread :: thread
  cl_process :: nat
  cl_handles :: KHandleTable
  cl_is_thread :: "nat \<Rightarrow> bool"

definition HandleWaitMask :: u32 where "HandleWaitMask = push_bit 30 1"
definition InvalidHandle :: Handle where "InvalidHandle = 0"

abbreviation find_thread :: "caller \<Rightarrow> Handle \<Rightarrow> thread option" where
  "find_thread c h \<equiv> KHandleTable_GetObjectWithoutPseudoHandle (cl_handles c) (cl_is_thread c) h"

section \<open>Memory\<close>

definition ReadFromUser :: "caller \<Rightarrow> u64 \<Rightarrow> kernel \<Rightarrow> u32" where
  "ReadFromUser c address k = k_memory k (cl_process c) address"

definition WriteToUser :: "caller \<Rightarrow> u64 \<Rightarrow> u32 \<Rightarrow> kernel \<Rightarrow> kernel" where
  "WriteToUser c address v k =
     k \<lparr> k_memory := (k_memory k)(cl_process c := (k_memory k (cl_process c))(address := v)) \<rparr>"

definition UpdateLockAtomic :: "caller \<Rightarrow> u64 \<Rightarrow> u32 \<Rightarrow> u32 \<Rightarrow> kernel \<Rightarrow> u32 \<times> kernel" where
  "UpdateLockAtomic c address if_zero new_orr_mask k =
     (let expected = ReadFromUser c address k
      in (expected, WriteToUser c address (if expected = 0 then if_zero else expected OR new_orr_mask) k))"

text \<open>The values of an address arbiter are signed.\<close>

definition DecrementIfLessThan :: "caller \<Rightarrow> u64 \<Rightarrow> s32 \<Rightarrow> kernel \<Rightarrow> s32 \<times> kernel" where
  "DecrementIfLessThan c address v k =
     (let current_value = ReadFromUser c address k
      in (current_value, if sint current_value < sint v then WriteToUser c address (current_value - 1) k else k))"

definition UpdateIfEqual :: "caller \<Rightarrow> u64 \<Rightarrow> s32 \<Rightarrow> s32 \<Rightarrow> kernel \<Rightarrow> s32 \<times> kernel" where
  "UpdateIfEqual c address v new_value k =
     (let current_value = ReadFromUser c address k
      in (current_value, if current_value = v then WriteToUser c address new_value k else k))"

section \<open>Iterators of a tree of waiting threads\<close>

definition tree_nfind :: "thread_tree \<Rightarrow> u64 \<Rightarrow> kernel \<Rightarrow> thread option" where
  "tree_nfind tr key k = List.find (\<lambda>t. key \<le> th_condvar_key (thread_of k t)) (k_thread_trees k tr)"

fun element_after :: "'a \<Rightarrow> 'a list \<Rightarrow> 'a option" where
  "element_after t [] = None"
| "element_after t (x # xs) = (if x = t then (case xs of [] \<Rightarrow> None | y # _ \<Rightarrow> Some y) else element_after t xs)"

definition at_key :: "u64 \<Rightarrow> thread option \<Rightarrow> kernel \<Rightarrow> bool" where
  "at_key key it k = (case it of None \<Rightarrow> False | Some t \<Rightarrow> th_condvar_key (thread_of k t) = key)"

section \<open>Locks in memory\<close>

definition tag_of_next :: "thread option \<Rightarrow> bool \<Rightarrow> kernel \<Rightarrow> u32" where
  "tag_of_next next_owner has_waiters k =
     (case next_owner of
        None \<Rightarrow> 0
      | Some t \<Rightarrow>
          if has_waiters then th_address_key_value (thread_of k t) OR HandleWaitMask else th_address_key_value (thread_of k t))"

definition end_wait_of_next :: "thread option \<Rightarrow> Result \<Rightarrow> kernel \<Rightarrow> kernel" where
  "end_wait_of_next next_owner r k = (case next_owner of None \<Rightarrow> k | Some t \<Rightarrow> EndWait t r k)"

definition KConditionVariable_SignalToAddress :: "caller \<Rightarrow> u64 \<Rightarrow> kernel \<Rightarrow> (Result \<times> kernel) option" where
  "KConditionVariable_SignalToAddress c addr k =
     (case RemoveWaiterByKey (cl_thread c) (cl_thread c) addr False k of
        None \<Rightarrow> None
      | Some (next_owner, has_waiters, k1) \<Rightarrow>
          (let k2 = WriteToUser c addr (tag_of_next next_owner has_waiters k1) k1
           in Some (ResultSuccess, end_wait_of_next next_owner ResultSuccess k2)))"

definition KConditionVariable_WaitForAddress ::
    "caller \<Rightarrow> Handle \<Rightarrow> u64 \<Rightarrow> u32 \<Rightarrow> kernel \<Rightarrow> (Result option \<times> kernel) option" where
  "KConditionVariable_WaitForAddress c handle addr v k =
     (let cur = cl_thread c
      in if IsTerminationRequested (thread_of k cur) then Some (Some ResultTerminationRequested, k)
         else if ReadFromUser c addr k \<noteq> handle OR HandleWaitMask then Some (Some ResultSuccess, k)
         else
           (case find_thread c handle of
              None \<Rightarrow> Some (Some ResultInvalidHandle, k)
            | Some owner \<Rightarrow>
                (case AddWaiter cur owner cur (SetUserAddressKey cur addr v k) of
                   None \<Rightarrow> None
                 | Some k1 \<Rightarrow> Some (None, BeginWait cur ForKConditionVariableWaitForAddress k1))))"

section \<open>Condition variables\<close>

definition SignalImpl :: "caller \<Rightarrow> thread \<Rightarrow> kernel \<Rightarrow> kernel option" where
  "SignalImpl c t k =
     (let (prev_tag, k1) = UpdateLockAtomic c (th_address_key (thread_of k t)) (th_address_key_value (thread_of k t)) HandleWaitMask k
      in if prev_tag = InvalidHandle then Some (EndWait t ResultSuccess k1)
         else
           (case find_thread c (prev_tag AND NOT HandleWaitMask) of
              Some owner \<Rightarrow> AddWaiter (cl_thread c) owner t k1
            | None \<Rightarrow> Some (EndWait t ResultInvalidState k1)))"

text \<open>The loop of a signal, from an iterator on: the iterator where it stops and the kernel.\<close>

partial_function (option) signal_loop ::
    "caller \<Rightarrow> thread_tree \<Rightarrow> u64 \<Rightarrow> int \<Rightarrow> thread option \<Rightarrow> int \<Rightarrow> kernel \<Rightarrow> (thread option \<times> kernel) option" where
  [code]: "signal_loop c tr cv_key cnt it num_waiters k =
     (case it of
        None \<Rightarrow> Some (it, k)
      | Some t \<Rightarrow>
          if (cnt \<le> 0 \<or> num_waiters < cnt) \<and> th_condvar_key (thread_of k t) = cv_key then
            (let nxt = element_after t (k_thread_trees k tr)
             in case SignalImpl c t (ClearConditionVariable t (tree_erase_thread tr t k)) of
                  None \<Rightarrow> None
                | Some k1 \<Rightarrow> signal_loop c tr cv_key cnt nxt (num_waiters + 1) k1)
          else Some (it, k))"

definition KConditionVariable_Signal :: "caller \<Rightarrow> u64 \<Rightarrow> int \<Rightarrow> kernel \<Rightarrow> kernel option" where
  "KConditionVariable_Signal c cv_key cnt k =
     (let tr = ConditionVariables (cl_process c)
      in case signal_loop c tr cv_key cnt (tree_nfind tr cv_key k) 0 k of
           None \<Rightarrow> None
         | Some (it, k1) \<Rightarrow> Some (if at_key cv_key it k1 then k1 else WriteToUser c cv_key 0 k1))"

definition KConditionVariable_Wait ::
    "caller \<Rightarrow> u64 \<Rightarrow> u64 \<Rightarrow> u32 \<Rightarrow> int \<Rightarrow> kernel \<Rightarrow> (Result option \<times> kernel) option" where
  "KConditionVariable_Wait c addr key v timeout k =
     (let cur = cl_thread c; tr = ConditionVariables (cl_process c)
      in if IsTerminationRequested (thread_of k cur) then Some (Some ResultTerminationRequested, k)
         else
           (case RemoveWaiterByKey cur cur addr False k of
              None \<Rightarrow> None
            | Some (next_owner, has_waiters, k1) \<Rightarrow>
                (let next_value = tag_of_next next_owner has_waiters k1;
                     k2 = end_wait_of_next next_owner ResultSuccess k1;
                     k3 = WriteToUser c addr next_value (WriteToUser c key 1 k2)
                 in if timeout = 0 then Some (Some ResultTimedOut, k3)
                    else
                      Some (None, BeginWait cur (ForKConditionVariableWaitConditionVariable tr)
                                    (tree_insert_thread tr cur (SetConditionVariable cur tr addr key v k3))))))"

section \<open>Address arbiters\<close>

text \<open>The loop that ends the waits of threads, from an iterator on.\<close>

partial_function (option) arbiter_loop :: "thread_tree \<Rightarrow> u64 \<Rightarrow> int \<Rightarrow> thread option \<Rightarrow> int \<Rightarrow> kernel \<Rightarrow> kernel option" where
  [code]: "arbiter_loop tr addr cnt it num_waiters k =
     (case it of
        None \<Rightarrow> Some k
      | Some t \<Rightarrow>
          if (cnt \<le> 0 \<or> num_waiters < cnt) \<and> th_condvar_key (thread_of k t) = addr then
            (let k1 = ClearConditionVariable t (EndWait t ResultSuccess k); nxt = element_after t (k_thread_trees k1 tr)
             in arbiter_loop tr addr cnt nxt (num_waiters + 1) (tree_erase_thread tr t k1))
          else Some k)"

definition KAddressArbiter_Signal :: "caller \<Rightarrow> u64 \<Rightarrow> int \<Rightarrow> kernel \<Rightarrow> (Result \<times> kernel) option" where
  "KAddressArbiter_Signal c addr cnt k =
     (let tr = AddressArbiters (cl_process c)
      in map_option (Pair ResultSuccess) (arbiter_loop tr addr cnt (tree_nfind tr addr k) 0 k))"

definition KAddressArbiter_SignalAndIncrementIfEqual :: "caller \<Rightarrow> u64 \<Rightarrow> s32 \<Rightarrow> int \<Rightarrow> kernel \<Rightarrow> (Result \<times> kernel) option" where
  "KAddressArbiter_SignalAndIncrementIfEqual c addr v cnt k =
     (let tr = AddressArbiters (cl_process c); (user_value, k1) = UpdateIfEqual c addr v (v + 1) k
      in if user_value \<noteq> v then Some (ResultInvalidState, k1)
         else map_option (Pair ResultSuccess) (arbiter_loop tr addr cnt (tree_nfind tr addr k1) 0 k1))"

text \<open>The loop that counts the threads behind the first one, up to one more than asked for; the argument is what follows the iterator.\<close>

fun count_waiters :: "kernel \<Rightarrow> u64 \<Rightarrow> int \<Rightarrow> thread list \<Rightarrow> int \<Rightarrow> int" where
  "count_waiters k addr cnt [] n = n"
| "count_waiters k addr cnt (t # ts) n =
     (if th_condvar_key (thread_of k t) = addr then (if cnt \<le> n then n + 1 else count_waiters k addr cnt ts (n + 1)) else n)"

definition elements_after :: "'a \<Rightarrow> 'a list \<Rightarrow> 'a list" where
  "elements_after t xs = tl (dropWhile (\<lambda>x. x \<noteq> t) xs)"

definition updated_value :: "thread_tree \<Rightarrow> u64 \<Rightarrow> s32 \<Rightarrow> int \<Rightarrow> thread option \<Rightarrow> kernel \<Rightarrow> s32" where
  "updated_value tr addr v cnt it k =
     (case it of
        None \<Rightarrow> v + 1
      | Some t \<Rightarrow>
          if th_condvar_key (thread_of k t) = addr then
            (if cnt \<le> 0 then v - 2
             else if count_waiters k addr cnt (elements_after t (k_thread_trees k tr)) 0 < cnt then v - 1 else v)
          else v + 1)"

definition KAddressArbiter_SignalAndModifyByWaitingCountIfEqual ::
    "caller \<Rightarrow> u64 \<Rightarrow> s32 \<Rightarrow> int \<Rightarrow> kernel \<Rightarrow> (Result \<times> kernel) option" where
  "KAddressArbiter_SignalAndModifyByWaitingCountIfEqual c addr v cnt k =
     (let tr = AddressArbiters (cl_process c);
          it = tree_nfind tr addr k;
          new_value = updated_value tr addr v cnt it k;
          (user_value, k1) = (if v \<noteq> new_value then UpdateIfEqual c addr v new_value k else (ReadFromUser c addr k, k))
      in if user_value \<noteq> v then Some (ResultInvalidState, k1)
         else map_option (Pair ResultSuccess) (arbiter_loop tr addr cnt it 0 k1))"

datatype SignalType = Signal | SignalAndIncrementIfEqual | SignalAndModifyByWaitingCountIfEqual

definition KAddressArbiter_SignalToAddress :: "caller \<Rightarrow> u64 \<Rightarrow> SignalType \<Rightarrow> s32 \<Rightarrow> int \<Rightarrow> kernel \<Rightarrow> (Result \<times> kernel) option" where
  "KAddressArbiter_SignalToAddress c addr type v cnt k =
     (case type of
        Signal \<Rightarrow> KAddressArbiter_Signal c addr cnt k
      | SignalAndIncrementIfEqual \<Rightarrow> KAddressArbiter_SignalAndIncrementIfEqual c addr v cnt k
      | SignalAndModifyByWaitingCountIfEqual \<Rightarrow> KAddressArbiter_SignalAndModifyByWaitingCountIfEqual c addr v cnt k)"

text \<open>The end of both waits: the current thread enters the tree and waits.\<close>

definition wait_in_arbiter :: "caller \<Rightarrow> u64 \<Rightarrow> kernel \<Rightarrow> kernel" where
  "wait_in_arbiter c addr k =
     (let cur = cl_thread c; tr = AddressArbiters (cl_process c)
      in BeginWait cur (ForKAddressArbiter tr) (tree_insert_thread tr cur (SetAddressArbiter cur tr addr k)))"

definition KAddressArbiter_WaitIfLessThan :: "caller \<Rightarrow> u64 \<Rightarrow> s32 \<Rightarrow> bool \<Rightarrow> int \<Rightarrow> kernel \<Rightarrow> Result option \<times> kernel" where
  "KAddressArbiter_WaitIfLessThan c addr v decrement timeout k =
     (if IsTerminationRequested (thread_of k (cl_thread c)) then (Some ResultTerminationRequested, k)
      else
        (let (user_value, k1) = (if decrement then DecrementIfLessThan c addr v k else (ReadFromUser c addr k, k))
         in if sint v \<le> sint user_value then (Some ResultInvalidState, k1)
            else if timeout = 0 then (Some ResultTimedOut, k1)
            else (None, wait_in_arbiter c addr k1)))"

definition KAddressArbiter_WaitIfEqual :: "caller \<Rightarrow> u64 \<Rightarrow> s32 \<Rightarrow> int \<Rightarrow> kernel \<Rightarrow> Result option \<times> kernel" where
  "KAddressArbiter_WaitIfEqual c addr v timeout k =
     (if IsTerminationRequested (thread_of k (cl_thread c)) then (Some ResultTerminationRequested, k)
      else if v \<noteq> ReadFromUser c addr k then (Some ResultInvalidState, k)
      else if timeout = 0 then (Some ResultTimedOut, k)
      else (None, wait_in_arbiter c addr k))"

datatype ArbitrationType = WaitIfLessThan | DecrementAndWaitIfLessThan | WaitIfEqual

definition KAddressArbiter_WaitForAddress :: "caller \<Rightarrow> u64 \<Rightarrow> ArbitrationType \<Rightarrow> s32 \<Rightarrow> int \<Rightarrow> kernel \<Rightarrow> Result option \<times> kernel" where
  "KAddressArbiter_WaitForAddress c addr type v timeout k =
     (case type of
        WaitIfLessThan \<Rightarrow> KAddressArbiter_WaitIfLessThan c addr v False timeout k
      | DecrementAndWaitIfLessThan \<Rightarrow> KAddressArbiter_WaitIfLessThan c addr v True timeout k
      | WaitIfEqual \<Rightarrow> KAddressArbiter_WaitIfEqual c addr v timeout k)"

end
