(* ===== verification/LockShape.thy ===== *)
theory LockShape
  imports PriorityInheritance ThreadBehaviour
begin

text \<open>
  The structure of locks and waiters: which thread waits for which lock and which thread holds it, in the order of the priorities. The
  operations on locks keep it, and change the holder that a thread waits for as they should.
\<close>

section \<open>Ordered trees\<close>

lemma set_insert_ordered [simp]: "set (insert_ordered b t xs) = insert t (set xs)"
  using takeWhile_dropWhile_id [of "\<lambda>x. \<not> b t x" xs] by (simp only: insert_ordered_def set_append list.set) (metis Un_insert_right set_append)

lemma length_insert_ordered [simp]: "length (insert_ordered b t xs) = Suc (length xs)"
proof -
  have "length (takeWhile (\<lambda>x. \<not> b t x) xs) + length (dropWhile (\<lambda>x. \<not> b t x) xs) = length xs"
    by (metis length_append takeWhile_dropWhile_id)
  then show ?thesis by (simp add: insert_ordered_def)
qed

lemma distinct_insert_ordered [simp]: "distinct (insert_ordered b t xs) \<longleftrightarrow> t \<notin> set xs \<and> distinct xs"
proof -
  let ?a = "takeWhile (\<lambda>x. \<not> b t x) xs" and ?b = "dropWhile (\<lambda>x. \<not> b t x) xs"
  have "distinct (as @ t # bs) \<longleftrightarrow> t \<notin> set (as @ bs) \<and> distinct (as @ bs)" for as bs by auto
  from this [of ?a ?b] show ?thesis by (simp only: insert_ordered_def takeWhile_dropWhile_id)
qed

lemma insert_ordered_not_Nil [simp]: "insert_ordered b t xs \<noteq> []"
  by (simp add: insert_ordered_def)

locale waiting_order =
  fixes before :: "'a \<Rightarrow> 'a \<Rightarrow> bool"
  assumes before_asym: "before x y \<Longrightarrow> \<not> before y x"
    and before_trans: "before x y \<Longrightarrow> before y z \<Longrightarrow> before x z"
begin

abbreviation ordered :: "'a list \<Rightarrow> bool" where
  "ordered \<equiv> sorted_wrt (\<lambda>x y. \<not> before y x)"

lemma ordered_remove: "ordered xs \<Longrightarrow> ordered (remove1 t xs)"
  by (induction xs) (auto dest: notin_set_remove1 [rotated])

lemma ordered_insert:
  assumes "ordered xs"
  shows "ordered (insert_ordered before t xs)"
proof -
  let ?P = "\<lambda>x. \<not> before t x"
  have xs: "ordered (takeWhile ?P xs @ dropWhile ?P xs)" using assms by simp
  have "\<not> before y t" if y: "y \<in> set (dropWhile ?P xs)" for y
  proof (cases "dropWhile ?P xs")
    case Nil
    then show ?thesis using y by (metis empty_iff list.set(1))
  next
    case (Cons d ds)
    then have d: "before t d" using hd_dropWhile [of ?P xs] by auto
    have "y = d \<or> \<not> before y d" using xs y Cons by (auto simp: sorted_wrt_append)
    then show ?thesis using d before_asym before_trans by blast
  qed
  then show ?thesis using xs [unfolded sorted_wrt_append] by (auto simp: insert_ordered_def sorted_wrt_append dest: set_takeWhileD)
qed

end

interpretation lock_order: waiting_order "lock_less ths" for ths
  by unfold_locales (auto simp: lock_less_def)

interpretation condvar_order: waiting_order "condvar_less ths" for ths
  by unfold_locales (auto simp: condvar_less_def)

section \<open>The structure\<close>

abbreviation prio :: "kernel \<Rightarrow> thread \<Rightarrow> nat" where
  "prio k t \<equiv> th_priority (thread_of k t)"

abbreviation base :: "kernel \<Rightarrow> thread \<Rightarrow> nat" where
  "base k t \<equiv> th_base_priority (thread_of k t)"

abbreviation waits :: "kernel \<Rightarrow> thread \<Rightarrow> nat option" where
  "waits k t \<equiv> th_waiting_lock_info (thread_of k t)"

abbreviation held :: "kernel \<Rightarrow> thread \<Rightarrow> nat list" where
  "held k t \<equiv> th_held_lock_info_list (thread_of k t)"

definition lock_ok :: "kernel \<Rightarrow> nat \<Rightarrow> LockWithPriorityInheritanceInfo \<Rightarrow> bool" where
  "lock_ok k l i \<longleftrightarrow>
     l < k_next_lock k \<and> li_tree i \<noteq> [] \<and> distinct (li_tree i) \<and> li_waiter_count i = length (li_tree i) \<and>
     lock_order.ordered (k_threads k) (li_tree i) \<and>
     (\<forall>t. t \<in> set (li_tree i) \<longleftrightarrow> waits k t = Some l) \<and>
     (\<forall>t\<in>set (li_tree i). th_address_key (thread_of k t) = li_address_key i \<and>
        th_is_kernel_address_key (thread_of k t) = li_is_kernel_address_key i) \<and>
     (\<exists>t. li_owner i = Some t \<and> l \<in> set (held k t))"

definition lock_shape :: "kernel \<Rightarrow> bool" where
  "lock_shape k \<longleftrightarrow>
     (\<forall>l i. k_lock_infos k l = Some i \<longrightarrow> lock_ok k l i) \<and>
     (\<forall>t l. waits k t = Some l \<longrightarrow> k_lock_infos k l \<noteq> None) \<and>
     (\<forall>t. distinct (held k t) \<and> (\<forall>l\<in>set (held k t). \<exists>i. k_lock_infos k l = Some i \<and> li_owner i = Some t)) \<and>
     finite {t. waits k t \<noteq> None} \<and>
     (\<forall>t. th_num_kernel_waiters (thread_of k t) =
        int (card {u. GetLockOwner k u = Some t \<and> th_is_kernel_address_key (thread_of k u)}))"

text \<open>The trees of the condition variables and of the address arbiters. A thread waits for a lock or in a tree, not in both.\<close>

definition tree_shape :: "kernel \<Rightarrow> bool" where
  "tree_shape k \<longleftrightarrow>
     (\<forall>tr. distinct (k_thread_trees k tr) \<and> condvar_order.ordered (k_threads k) (k_thread_trees k tr) \<and>
        (\<forall>t. t \<in> set (k_thread_trees k tr) \<longleftrightarrow> th_condvar_tree (thread_of k t) = Some tr)) \<and>
     (\<forall>t. th_condvar_tree (thread_of k t) \<noteq> None \<longrightarrow> waits k t = None)"

lemma lock_shapeD:
  assumes "lock_shape k"
  shows "k_lock_infos k l = Some i \<Longrightarrow> lock_ok k l i"
    "waits k t = Some l \<Longrightarrow> \<exists>i. k_lock_infos k l = Some i \<and> lock_ok k l i"
    "distinct (held k t)" "l \<in> set (held k t) \<Longrightarrow> \<exists>i. k_lock_infos k l = Some i \<and> lock_ok k l i \<and> li_owner i = Some t"
    "finite {t. waits k t \<noteq> None}"
    "th_num_kernel_waiters (thread_of k t) =
        int (card {u. GetLockOwner k u = Some t \<and> th_is_kernel_address_key (thread_of k u)})"
proof -
  show "waits k t = Some l \<Longrightarrow> \<exists>i. k_lock_infos k l = Some i \<and> lock_ok k l i"
    using assms unfolding lock_shape_def by (metis not_Some_eq)
  show "l \<in> set (held k t) \<Longrightarrow> \<exists>i. k_lock_infos k l = Some i \<and> lock_ok k l i \<and> li_owner i = Some t"
    using assms unfolding lock_shape_def by blast
qed (use assms in \<open>auto simp: lock_shape_def\<close>)

text \<open>A thread waits for the holder of a lock exactly when it is in the tree of a lock that the holder has in its list.\<close>

lemma GetLockOwner_iff:
  assumes "lock_shape k"
  shows "GetLockOwner k w = Some t \<longleftrightarrow> (\<exists>l\<in>set (held k t). \<exists>i. k_lock_infos k l = Some i \<and> w \<in> set (li_tree i))"
proof
  assume "GetLockOwner k w = Some t"
  then obtain l i where l: "waits k w = Some l" "k_lock_infos k l = Some i" "li_owner i = Some t"
    by (auto simp: GetLockOwner_def bind_eq_Some_conv)
  have "lock_ok k l i" by (rule lock_shapeD(1) [OF assms l(2)])
  then show "\<exists>l\<in>set (held k t). \<exists>i. k_lock_infos k l = Some i \<and> w \<in> set (li_tree i)"
    using l unfolding lock_ok_def by auto
next
  assume "\<exists>l\<in>set (held k t). \<exists>i. k_lock_infos k l = Some i \<and> w \<in> set (li_tree i)"
  then obtain l i where l: "l \<in> set (held k t)" "k_lock_infos k l = Some i" "w \<in> set (li_tree i)" by blast
  have "li_owner i = Some t" "lock_ok k l i" using lock_shapeD(4) [OF assms l(1)] l(2) by auto
  then show "GetLockOwner k w = Some t" using l(2,3) by (simp add: GetLockOwner_def lock_ok_def)
qed

lemma GetLockOwner_None: "lock_shape k \<Longrightarrow> GetLockOwner k w = None \<longleftrightarrow> waits k w = None"
  by (cases "waits k w") (auto simp: GetLockOwner_def lock_ok_def dest!: lock_shapeD(2))

text \<open>The priority that a thread inherits is the least of its own and of those of the threads that wait for it.\<close>

lemma le_foldl_min: "(x :: nat) \<le> foldl (\<lambda>p l. case f l of None \<Rightarrow> p | Some i \<Rightarrow> min p (g i)) b ls \<longleftrightarrow>
    x \<le> b \<and> (\<forall>l\<in>set ls. \<forall>i. f l = Some i \<longrightarrow> x \<le> g i)"
  by (induction ls arbitrary: b) (auto split: option.split)

lemma le_inherited_priority:
  assumes "lock_shape k"
  shows "x \<le> inherited_priority k t \<longleftrightarrow> x \<le> base k t \<and> (\<forall>w. GetLockOwner k w = Some t \<longrightarrow> x \<le> prio k w)"
proof -
  have "x \<le> prio k (GetHighestPriorityWaiter i) \<longleftrightarrow> (\<forall>w\<in>set (li_tree i). x \<le> prio k w)" if "k_lock_infos k l = Some i" for l i
  proof -
    have i: "lock_ok k l i" by (rule lock_shapeD(1) [OF assms that])
    then obtain y ys where "li_tree i = y # ys" by (cases "li_tree i") (auto simp: lock_ok_def)
    moreover have "lock_order.ordered (k_threads k) (li_tree i)" using i by (simp add: lock_ok_def)
    ultimately show ?thesis by (auto simp: GetHighestPriorityWaiter_def lock_less_def)
  qed
  then show ?thesis unfolding inherited_priority_def le_foldl_min GetLockOwner_iff [OF assms] by blast
qed

lemma inherited_priority_eq:
  assumes "lock_shape k"
  shows "inherited_priority k t = Min (insert (base k t) (prio k ` {w. GetLockOwner k w = Some t}))"
proof -
  have "{w. GetLockOwner k w = Some t} \<subseteq> {w. waits k w \<noteq> None}" by (auto simp: GetLockOwner_def bind_eq_Some_conv)
  then have fin: "finite {w. GetLockOwner k w = Some t}" using lock_shapeD(5) [OF assms] by (rule finite_subset)
  have "x \<le> inherited_priority k t \<longleftrightarrow> x \<le> Min (insert (base k t) (prio k ` {w. GetLockOwner k w = Some t}))" for x
    using fin by (subst Min_ge_iff) (auto simp: le_inherited_priority [OF assms])
  then show ?thesis by (metis le_antisym order_refl)
qed

section \<open>What the operations on locks leave alone\<close>

definition lockless :: "KThread \<Rightarrow> KThread" where
  "lockless th = th \<lparr> th_held_lock_info_list := [], th_waiting_lock_info := None, th_num_kernel_waiters := 0 \<rparr>"

lemma lockless_updates [simp]:
  "lockless (th \<lparr> th_held_lock_info_list := ls \<rparr>) = lockless th" "lockless (th \<lparr> th_waiting_lock_info := w \<rparr>) = lockless th"
  "lockless (th \<lparr> th_num_kernel_waiters := n \<rparr>) = lockless th"
  by (simp_all add: lockless_def)

lemma lockless_eqD:
  assumes "lockless th' = lockless th"
  shows "th_priority th' = th_priority th" "th_base_priority th' = th_base_priority th" "th_address_key th' = th_address_key th"
    "th_is_kernel_address_key th' = th_is_kernel_address_key th" "th_condvar_tree th' = th_condvar_tree th"
    "th_condvar_key th' = th_condvar_key th" "th_entries th' = th_entries th" "same_queueing th th'"
    "th_state th' = th_state th" "th_wait_queue th' = th_wait_queue th"
proof -
  have f: "f th' = f th" if "\<And>th. f (lockless th) = f th" for f :: "KThread \<Rightarrow> 'a"
    using assms that [of th] that [of th'] by simp
  show "th_priority th' = th_priority th" "th_base_priority th' = th_base_priority th" "th_address_key th' = th_address_key th"
    "th_is_kernel_address_key th' = th_is_kernel_address_key th" "th_condvar_tree th' = th_condvar_tree th"
    "th_condvar_key th' = th_condvar_key th" "th_entries th' = th_entries th" "th_state th' = th_state th"
    "th_wait_queue th' = th_wait_queue th"
    by (rule f; simp add: lockless_def)+
  have "(\<lambda>th. (th_affinity th, th_core_id th, th_priority th, th_is_dummy th, th_state th)) th' =
      (\<lambda>th. (th_affinity th, th_core_id th, th_priority th, th_is_dummy th, th_state th)) th"
    by (rule f) (simp add: lockless_def)
  then show "same_queueing th th'" by (simp add: same_queueing_def)
qed

definition lock_only :: "kernel \<Rightarrow> kernel \<Rightarrow> bool" where
  "lock_only k k' \<longleftrightarrow>
     (\<forall>u. lockless (thread_of k' u) = lockless (thread_of k u)) \<and> k_priority_queue k' = k_priority_queue k \<and>
     k_schedulers k' = k_schedulers k \<and> k_processes k' = k_processes k \<and> k_thread_trees k' = k_thread_trees k \<and>
     k_memory k' = k_memory k"

lemma lock_only_refl [simp]: "lock_only k k"
  by (simp add: lock_only_def)

lemma lock_only_trans: "lock_only k k1 \<Longrightarrow> lock_only k1 k2 \<Longrightarrow> lock_only k k2"
  by (simp add: lock_only_def)

lemma lock_only_step:
  "lock_only k (set_lock l f k') = lock_only k k'" "lock_only k (Lock_Free l k') = lock_only k k'"
  "lock_only k (snd (Lock_Create key b k')) = lock_only k k'" "lock_only k (SetSchedulerUpdateNeeded k') = lock_only k k'"
  "lock_only k (count_kernel_waiters t n k') = lock_only k k'" "lock_only k (erase_held t l k') = lock_only k k'"
  "lock_only k (AddHeldLock t l k') = lock_only k k'" "lock_only k (Lock_AddWaiter l t k') = lock_only k k'"
  "lock_only k (snd (Lock_RemoveWaiter l t k')) = lock_only k k'"
proof -
  have set: "lock_only k (set_thread t f k') = lock_only k k'" if "\<And>th. lockless (f th) = lockless th" for t f k k'
    using that by (auto simp: lock_only_def set_thread_def)
  show l: "lock_only k (set_lock l f k') = lock_only k k'" for l f k' by (simp add: lock_only_def set_lock_def)
  show "lock_only k (Lock_Free l k') = lock_only k k'" "lock_only k (snd (Lock_Create key b k')) = lock_only k k'"
    "lock_only k (SetSchedulerUpdateNeeded k') = lock_only k k'"
    by (simp_all add: lock_only_def Lock_Free_def Lock_Create_def SetSchedulerUpdateNeeded_def)
  show "lock_only k (count_kernel_waiters t n k') = lock_only k k'" "lock_only k (erase_held t l k') = lock_only k k'"
    "lock_only k (AddHeldLock t l k') = lock_only k k'" "lock_only k (Lock_AddWaiter l t k') = lock_only k k'"
    "lock_only k (snd (Lock_RemoveWaiter l t k')) = lock_only k k'"
    by (simp_all add: count_kernel_waiters_def erase_held_def AddHeldLock_def Lock_AddWaiter_def Lock_RemoveWaiter_def Let_def set l)
qed

lemma lock_only_ops:
  "lock_only k (AddWaiterImpl owner t k)" "lock_only k (RemoveWaiterImpl owner t k)"
  "lock_only k (snd (snd (pass_lock owner l i k)))"
  by (simp_all add: AddWaiterImpl_def RemoveWaiterImpl_def pass_lock_def Let_def case_prod_beta lock_only_step split: option.split)

lemma lock_onlyD:
  assumes "lock_only k k'"
  shows "prio k' t = prio k t" "base k' t = base k t" "th_address_key (thread_of k' t) = th_address_key (thread_of k t)"
    "th_is_kernel_address_key (thread_of k' t) = th_is_kernel_address_key (thread_of k t)"
    "th_condvar_tree (thread_of k' t) = th_condvar_tree (thread_of k t)" "th_condvar_key (thread_of k' t) = th_condvar_key (thread_of k t)"
    "k_thread_trees k' = k_thread_trees k"
  using assms lockless_eqD(1-6) unfolding lock_only_def by blast+

lemma lock_only_queues: "lock_only k k' \<Longrightarrow> queues_match k' = queues_match k"
proof -
  assume lo: "lock_only k k'"
  have "sched_ok k' L = sched_ok k L" for L
    by (rule sched_ok_cong) (use lo in \<open>auto simp: lock_only_def intro: lockless_eqD\<close>)
  then show ?thesis by (simp add: queues_match_def)
qed

section \<open>What they change\<close>

abbreviation is_kernel :: "kernel \<Rightarrow> thread \<Rightarrow> bool" where
  "is_kernel k t \<equiv> th_is_kernel_address_key (thread_of k t)"

abbreviation kernel_waiters :: "kernel \<Rightarrow> thread \<Rightarrow> int" where
  "kernel_waiters k t \<equiv> th_num_kernel_waiters (thread_of k t)"

definition new_lock :: "u64 \<Rightarrow> bool \<Rightarrow> LockWithPriorityInheritanceInfo" where
  "new_lock key b = \<lparr> li_tree = [], li_address_key = key, li_owner = None, li_waiter_count = 0, li_is_kernel_address_key = b \<rparr>"

lemma FindHeldLock_Some:
  assumes "FindHeldLock key b t k = Some l"
  obtains i where "l \<in> set (held k t)" "k_lock_infos k l = Some i" "li_address_key i = key" "li_is_kernel_address_key i = b"
  using assms by (auto simp: FindHeldLock_def find_Some_iff split: option.splits)

lemma counted_fields [simp]:
  "FindHeldLock key b t (count_kernel_waiters u n k) = FindHeldLock key b t k"
  "FindHeldLock key b t (SetSchedulerUpdateNeeded k) = FindHeldLock key b t k"
  "k_lock_infos (count_kernel_waiters u n k) = k_lock_infos k" "k_lock_infos (SetSchedulerUpdateNeeded k) = k_lock_infos k"
  "k_next_lock (count_kernel_waiters u n k) = k_next_lock k" "k_next_lock (SetSchedulerUpdateNeeded k) = k_next_lock k"
  "waits (count_kernel_waiters u n k) t = waits k t" "held (count_kernel_waiters u n k) t = held k t"
  "kernel_waiters (count_kernel_waiters u n k) t = kernel_waiters k t + (if t = u then n else 0)"
  "prio (count_kernel_waiters u n k) t = prio k t"
  by (simp_all add: FindHeldLock_def count_kernel_waiters_def SetSchedulerUpdateNeeded_def set_thread_def)

lemma lock_fields [simp]:
  "k_lock_infos (erase_held t l k) = k_lock_infos k" "k_next_lock (erase_held t l k) = k_next_lock k"
  "waits (erase_held t l k) u = waits k u" "held (erase_held t l k) u = (if u = t then remove1 l (held k t) else held k u)"
  "kernel_waiters (erase_held t l k) u = kernel_waiters k u"
  "k_lock_infos (Lock_Free l k) = (k_lock_infos k)(l := None)" "k_next_lock (Lock_Free l k) = k_next_lock k"
  "k_threads (Lock_Free l k) = k_threads k"
  "k_lock_infos (AddHeldLock t l k) = (k_lock_infos k)(l := map_option (\<lambda>i. i \<lparr> li_owner := Some t \<rparr>) (k_lock_infos k l))"
  "k_next_lock (AddHeldLock t l k) = k_next_lock k" "waits (AddHeldLock t l k) u = waits k u"
  "held (AddHeldLock t l k) u = (if u = t then l # held k t else held k u)"
  "kernel_waiters (AddHeldLock t l k) u = kernel_waiters k u" "prio (AddHeldLock t l k) u = prio k u"
  by (simp_all add: erase_held_def Lock_Free_def AddHeldLock_def set_lock_def set_thread_def)

lemma waiter_fields [simp]:
  "k_lock_infos (Lock_AddWaiter l t k) = (k_lock_infos k)(l := map_option (\<lambda>i. i \<lparr> li_tree := insert_ordered (lock_less (k_threads k)) t (li_tree i),
     li_waiter_count := li_waiter_count i + 1 \<rparr>) (k_lock_infos k l))"
  "k_next_lock (Lock_AddWaiter l t k) = k_next_lock k" "waits (Lock_AddWaiter l t k) u = (if u = t then Some l else waits k u)"
  "held (Lock_AddWaiter l t k) u = held k u" "kernel_waiters (Lock_AddWaiter l t k) u = kernel_waiters k u"
  "k_lock_infos (snd (Lock_RemoveWaiter l t k)) = (k_lock_infos k)(l := map_option (\<lambda>i. i \<lparr> li_tree := remove1 t (li_tree i),
     li_waiter_count := li_waiter_count i - 1 \<rparr>) (k_lock_infos k l))"
  "k_next_lock (snd (Lock_RemoveWaiter l t k)) = k_next_lock k"
  "waits (snd (Lock_RemoveWaiter l t k)) u = (if u = t then None else waits k u)"
  "held (snd (Lock_RemoveWaiter l t k)) u = held k u" "kernel_waiters (snd (Lock_RemoveWaiter l t k)) u = kernel_waiters k u"
  "fst (Lock_RemoveWaiter l t k) = (case k_lock_infos k l of None \<Rightarrow> False | Some i \<Rightarrow> li_waiter_count i - 1 = 0)"
  by (auto simp: Lock_AddWaiter_def Lock_RemoveWaiter_def set_lock_def set_thread_def Let_def split: option.split)

lemma lock_less_threads: "(\<And>u. th_priority (ths' u) = th_priority (ths u)) \<Longrightarrow> lock_less ths' = lock_less ths"
  by (simp add: fun_eq_iff lock_less_def)

text \<open>Adding a waiter: it joins the lock \<open>l\<close> of its key, which is a new one of the owner if the owner has none of that key.\<close>

lemma AddWaiterImpl_fields:
  fixes k :: kernel and owner t :: thread
  assumes shape: "lock_shape k"
  defines "k' \<equiv> AddWaiterImpl owner t k"
  obtains l i where
    "l \<in> set (held k owner) \<and> k_lock_infos k l = Some i \<and> k_next_lock k' = k_next_lock k \<and> (\<forall>u. held k' u = held k u) \<or>
     l = k_next_lock k \<and> i = new_lock (th_address_key (thread_of k t)) (is_kernel k t) \<and> k_next_lock k' = Suc (k_next_lock k) \<and>
       (\<forall>u. held k' u = (if u = owner then l # held k u else held k u)) \<and>
       FindHeldLock (th_address_key (thread_of k t)) (is_kernel k t) owner k = None"
    "li_address_key i = th_address_key (thread_of k t)" "li_is_kernel_address_key i = is_kernel k t"
    "k_lock_infos k' = (k_lock_infos k)(l \<mapsto> i \<lparr> li_tree := insert_ordered (lock_less (k_threads k)) t (li_tree i),
       li_waiter_count := li_waiter_count i + 1, li_owner := Some owner \<rparr>)"
    "\<And>u. waits k' u = (if u = t then Some l else waits k u)"
    "\<And>u. kernel_waiters k' u = kernel_waiters k u + (if u = owner \<and> is_kernel k t then 1 else 0)"
proof -
  define k1 where "k1 = (if is_kernel k t then SetSchedulerUpdateNeeded (count_kernel_waiters owner 1 k) else k)"
  have k1: "k_lock_infos k1 = k_lock_infos k" "k_next_lock k1 = k_next_lock k" "\<And>u. waits k1 u = waits k u" "\<And>u. held k1 u = held k u"
    "\<And>u. kernel_waiters k1 u = kernel_waiters k u + (if u = owner \<and> is_kernel k t then 1 else 0)"
    "\<And>u. prio k1 u = prio k u"
    by (simp_all add: k1_def)
  have f: "FindHeldLock key b u k1 = FindHeldLock key b u k" for key b u by (simp add: k1_def)
  show thesis
  proof (cases "FindHeldLock (th_address_key (thread_of k t)) (is_kernel k t) owner k")
    case (Some l)
    then obtain i where i: "l \<in> set (held k owner)" "k_lock_infos k l = Some i" "li_address_key i = th_address_key (thread_of k t)"
      "li_is_kernel_address_key i = is_kernel k t" by (rule FindHeldLock_Some)
    have o: "li_owner i = Some owner" using lock_shapeD(4) [OF shape i(1)] i(2) by auto
    have k': "k' = Lock_AddWaiter l t k1"
      unfolding k'_def AddWaiterImpl_def Let_def k1_def [symmetric] f Some by simp
    show thesis
      by (rule that [of l i]) (use i o in \<open>cases i; simp add: k' k1 lock_less_threads [OF k1(6)]\<close>)+
  next
    case None
    let ?l = "k_next_lock k"
    define k2 where "k2 = snd (Lock_Create (th_address_key (thread_of k t)) (is_kernel k t) k1)"
    have k2: "k_threads k2 = k_threads k1" "k_next_lock k2 = Suc ?l"
      "k_lock_infos k2 = (k_lock_infos k)(?l \<mapsto> new_lock (th_address_key (thread_of k t)) (is_kernel k t))"
      by (simp_all add: k2_def Lock_Create_def new_lock_def k1)
    have k': "k' = Lock_AddWaiter ?l t (AddHeldLock owner ?l k2)"
      unfolding k'_def AddWaiterImpl_def Let_def k1_def [symmetric] f None by (simp add: k2_def Lock_Create_def k1)
    have ls: "lock_less (k_threads (AddHeldLock owner ?l k2)) = lock_less (k_threads k)"
      by (rule lock_less_threads) (simp add: k2 k1)
    show thesis
      by (rule that [of ?l "new_lock (th_address_key (thread_of k t)) (is_kernel k t)"])
        (use None in \<open>auto simp add: k' k2 k1 ls new_lock_def\<close>)
  qed
qed

lemma card_kernel_waiters_insert:
  assumes "finite {u. own u \<noteq> None}" "own t = None"
  shows "card {u. (own(t := Some r)) u = Some s \<and> b u} = card {u. own u = Some s \<and> b u} + (if s = r \<and> b t then 1 else 0)"
proof -
  have fin: "finite {u. own u = Some s \<and> b u}" for s by (rule finite_subset [OF _ assms(1)]) auto
  have "{u. (own(t := Some r)) u = Some s \<and> b u} =
      (if s = r \<and> b t then insert t {u. own u = Some s \<and> b u} else {u. own u = Some s \<and> b u})"
    using assms(2) by auto
  then show ?thesis using fin assms(2) by (cases "s = r \<and> b t") simp_all
qed

lemma owners_finite: "lock_shape k \<Longrightarrow> finite {u. GetLockOwner k u \<noteq> None}"
  using lock_shapeD(5) by (simp add: GetLockOwner_None)

lemma lock_ok_other:
  assumes "lock_ok k l i" "lock_only k k'" "k_next_lock k \<le> k_next_lock k'"
    "\<And>u. waits k' u = Some l \<longleftrightarrow> waits k u = Some l" "\<And>u. l \<in> set (held k' u) \<longleftrightarrow> l \<in> set (held k u)"
  shows "lock_ok k' l i"
  using assms(1,3) lock_less_threads [of "k_threads k'" "k_threads k", OF lock_onlyD(1) [OF assms(2)]]
  by (auto simp: lock_ok_def lock_onlyD [OF assms(2)] assms(4,5))

lemma AddWaiterImpl_shape:
  assumes shape: "lock_shape k" and w: "waits k t = None"
  shows "lock_shape (AddWaiterImpl owner t k)"
    "GetLockOwner (AddWaiterImpl owner t k) = (GetLockOwner k)(t := Some owner)"
proof -
  let ?k = "AddWaiterImpl owner t k"
  obtain l i where
    li: "l \<in> set (held k owner) \<and> k_lock_infos k l = Some i \<and> k_next_lock ?k = k_next_lock k \<and> (\<forall>u. held ?k u = held k u) \<or>
     l = k_next_lock k \<and> i = new_lock (th_address_key (thread_of k t)) (is_kernel k t) \<and> k_next_lock ?k = Suc (k_next_lock k) \<and>
       (\<forall>u. held ?k u = (if u = owner then l # held k u else held k u))"
    and key: "li_address_key i = th_address_key (thread_of k t)" "li_is_kernel_address_key i = is_kernel k t"
    and infos: "k_lock_infos ?k = (k_lock_infos k)(l \<mapsto> i \<lparr> li_tree := insert_ordered (lock_less (k_threads k)) t (li_tree i),
       li_waiter_count := li_waiter_count i + 1, li_owner := Some owner \<rparr>)"
    and waits: "\<And>u. waits ?k u = (if u = t then Some l else waits k u)"
    and kw: "\<And>u. kernel_waiters ?k u = kernel_waiters k u + (if u = owner \<and> is_kernel k t then 1 else 0)"
    by (rule AddWaiterImpl_fields [OF shape, of owner t]) blast
  note lo = lock_only_ops(1) [of k owner t] and old = lock_shapeD [OF shape]
  note same = lock_onlyD [OF lo] and less = lock_less_threads [of "k_threads ?k" "k_threads k", OF lock_onlyD(1) [OF lo]]
  have fresh: "k_lock_infos k (k_next_lock k) = None" using old(1) [of "k_next_lock k"] by (cases "k_lock_infos k (k_next_lock k)") (auto simp: lock_ok_def)
  have mem: "u \<in> set (li_tree i) \<longleftrightarrow> waits k u = Some l" for u
    using li old(1) [of l i] old(2) [of u l] fresh by (auto simp: lock_ok_def new_lock_def)
  have tree: "distinct (li_tree i)" "lock_order.ordered (k_threads k) (li_tree i)" "li_waiter_count i = length (li_tree i)"
    "\<forall>u\<in>set (li_tree i). th_address_key (thread_of k u) = li_address_key i \<and> is_kernel k u = li_is_kernel_address_key i"
    using li old(1) [of l i] by (auto simp: lock_ok_def new_lock_def)
  have nxt: "l < k_next_lock ?k" "k_next_lock k \<le> k_next_lock ?k" using li old(1) [of l i] by (auto simp: lock_ok_def)
  have held: "set (held ?k u) = (if u = owner then insert l (set (held k u)) else set (held k u))" "distinct (held ?k u)" for u
    using li old(3) [of u] old(4) [of l u] fresh by auto
  have owner: "k_lock_infos k l = Some j \<Longrightarrow> li_owner j = Some owner" for j using li old(4) [of l owner] fresh by auto
  show own: "GetLockOwner ?k = (GetLockOwner k)(t := Some owner)"
  proof
    fix u
    show "GetLockOwner ?k u = ((GetLockOwner k)(t := Some owner)) u"
      using old(2) [of u l] owner by (cases "waits k u") (auto simp: GetLockOwner_def waits infos)
  qed
  have "lock_ok ?k l (i \<lparr> li_tree := insert_ordered (lock_less (k_threads k)) t (li_tree i),
       li_waiter_count := li_waiter_count i + 1, li_owner := Some owner \<rparr>)"
    using mem tree nxt(1) held(1) key w lock_order.ordered_insert [OF tree(2), of t]
    by (auto simp: lock_ok_def waits same less)
  moreover have "lock_ok ?k l' j" if "k_lock_infos k l' = Some j" "l' \<noteq> l" for l' j
    by (rule lock_ok_other [OF old(1) [OF that(1)] lo nxt(2)]) (use that(2) w held(1) in \<open>auto simp: waits\<close>)
  ultimately have 1: "k_lock_infos ?k l' = Some j \<Longrightarrow> lock_ok ?k l' j" for l' j by (auto simp: infos split: if_splits)
  have 2: "waits ?k u = Some l' \<Longrightarrow> k_lock_infos ?k l' \<noteq> None" for u l' using old(2) [of u l'] by (auto simp: waits infos split: if_splits)
  have 3: "\<exists>j. k_lock_infos ?k l' = Some j \<and> li_owner j = Some u" if "l' \<in> set (held ?k u)" for u l'
    using that old(4) [of l' u] owner by (auto simp: held(1) infos split: if_splits)
  have 4: "finite {u. waits ?k u \<noteq> None}" by (rule finite_subset [of _ "insert t {u. waits k u \<noteq> None}"]) (use old(5) in \<open>auto simp: waits\<close>)
  have "kernel_waiters ?k u = int (card {v. GetLockOwner ?k v = Some u \<and> is_kernel ?k v})" for u
    unfolding own kw same using card_kernel_waiters_insert [OF owners_finite [OF shape], of t owner u "is_kernel k"] w old(6) [of u]
    by (simp add: GetLockOwner_None [OF shape])
  then show "lock_shape ?k" unfolding lock_shape_def using 1 2 3 4 held(2) by blast
qed

text \<open>Removing a waiter: the lock goes when it was the last one.\<close>

lemma waiterE:
  assumes "lock_shape k" "GetLockOwner k t = Some owner"
  obtains l i where "waits k t = Some l" "k_lock_infos k l = Some i" "lock_ok k l i" "li_owner i = Some owner" "t \<in> set (li_tree i)"
    "l \<in> set (held k owner)"
proof -
  obtain l i where l: "waits k t = Some l" "k_lock_infos k l = Some i" "li_owner i = Some owner"
    using assms(2) by (auto simp: GetLockOwner_def bind_eq_Some_conv)
  moreover have "lock_ok k l i" by (rule lock_shapeD(1) [OF assms(1) l(2)])
  moreover from this have "t \<in> set (li_tree i)" "l \<in> set (held k owner)" using l by (auto simp: lock_ok_def)
  ultimately show thesis using that by blast
qed

lemma RemoveWaiterImpl_fields:
  fixes k :: kernel and owner t :: thread
  assumes l: "waits k t = Some l" "k_lock_infos k l = Some i" "li_waiter_count i = length (li_tree i)" "t \<in> set (li_tree i)"
  defines "k' \<equiv> RemoveWaiterImpl owner t k" and "i' \<equiv> i \<lparr> li_tree := remove1 t (li_tree i), li_waiter_count := li_waiter_count i - 1 \<rparr>"
  shows "k_lock_infos k' = (k_lock_infos k)(l := if li_tree i = [t] then None else Some i')"
    "held k' u = (if li_tree i = [t] \<and> u = owner then remove1 l (held k u) else held k u)"
    "waits k' u = (if u = t then None else waits k u)" "k_next_lock k' = k_next_lock k"
    "kernel_waiters k' u = kernel_waiters k u - (if u = owner \<and> is_kernel k t then 1 else 0)"
proof -
  define k1 where "k1 = (if is_kernel k t then SetSchedulerUpdateNeeded (count_kernel_waiters owner (- 1) k) else k)"
  have k1: "k_lock_infos k1 = k_lock_infos k" "k_next_lock k1 = k_next_lock k" "\<And>u. waits k1 u = waits k u" "\<And>u. held k1 u = held k u"
    "\<And>u. kernel_waiters k1 u = kernel_waiters k u - (if u = owner \<and> is_kernel k t then 1 else 0)"
    by (simp_all add: k1_def)
  have one: "li_waiter_count i - 1 = 0 \<longleftrightarrow> li_tree i = [t]" using l(3,4) by (cases "li_tree i") auto
  have "k' = (let r = Lock_RemoveWaiter l t k1 in if fst r then Lock_Free l (erase_held owner l (snd r)) else snd r)"
    unfolding k'_def RemoveWaiterImpl_def Let_def k1_def [symmetric] k1(3) l(1) by (simp add: case_prod_beta)
  then have k': "k' = (if li_tree i = [t] then Lock_Free l (erase_held owner l (snd (Lock_RemoveWaiter l t k1)))
      else snd (Lock_RemoveWaiter l t k1))"
    using one by (simp add: Let_def k1 l(2))
  show "k_lock_infos k' = (k_lock_infos k)(l := if li_tree i = [t] then None else Some i')"
    "held k' u = (if li_tree i = [t] \<and> u = owner then remove1 l (held k u) else held k u)"
    "waits k' u = (if u = t then None else waits k u)" "k_next_lock k' = k_next_lock k"
    "kernel_waiters k' u = kernel_waiters k u - (if u = owner \<and> is_kernel k t then 1 else 0)"
    by (simp_all add: k' k1 l i'_def)
qed

lemma card_kernel_waiters_remove:
  assumes "finite {u. own u \<noteq> None}" "own t = Some r"
  shows "int (card {u. (own(t := None)) u = Some s \<and> b u}) = int (card {u. own u = Some s \<and> b u}) - (if s = r \<and> b t then 1 else 0)"
proof -
  have "finite {u. (own(t := None)) u \<noteq> None}" by (rule finite_subset [OF _ assms(1)]) auto
  moreover have "own(t := None, t := Some r) = own" using assms(2) by auto
  ultimately show ?thesis using card_kernel_waiters_insert [of "own(t := None)" t r s b] by (simp only: fun_upd_same split: if_split) simp
qed

lemma RemoveWaiterImpl_shape:
  assumes shape: "lock_shape k" and t: "GetLockOwner k t = Some owner"
  shows "lock_shape (RemoveWaiterImpl owner t k)" "GetLockOwner (RemoveWaiterImpl owner t k) = (GetLockOwner k)(t := None)"
    "waits (RemoveWaiterImpl owner t k) t = None"
proof -
  let ?k = "RemoveWaiterImpl owner t k"
  obtain l i where l: "waits k t = Some l" "k_lock_infos k l = Some i" "lock_ok k l i" "li_owner i = Some owner" "t \<in> set (li_tree i)"
    "l \<in> set (held k owner)" using waiterE [OF shape t] .
  let ?i = "i \<lparr> li_tree := remove1 t (li_tree i), li_waiter_count := li_waiter_count i - 1 \<rparr>"
  have i: "li_waiter_count i = length (li_tree i)" "distinct (li_tree i)" "\<And>u. u \<in> set (li_tree i) \<longleftrightarrow> waits k u = Some l"
    using l(3) by (simp_all add: lock_ok_def)
  note f = RemoveWaiterImpl_fields [OF l(1,2) i(1) l(5), of owner] and old = lock_shapeD [OF shape]
  note lo = lock_only_ops(2) [of k owner t]
  note same = lock_onlyD [OF lo] and less = lock_less_threads [of "k_threads ?k" "k_threads k", OF lock_onlyD(1) [OF lo]]
  have last: "li_tree i = [t] \<longleftrightarrow> (\<forall>u. waits k u = Some l \<longrightarrow> u = t)"
    using l(5) i by (cases "li_tree i"; cases "tl (li_tree i)") auto
  show "waits ?k t = None" by (simp add: f(3))
  have held: "set (held ?k u) = set (held k u) - (if li_tree i = [t] then {l} else {})" "distinct (held ?k u)" for u
    using old(3) [of u] old(4) [of l u] l(2,4) by (auto simp: f(2) set_remove1_eq)
  show own: "GetLockOwner ?k = (GetLockOwner k)(t := None)"
  proof
    fix u
    show "GetLockOwner ?k u = ((GetLockOwner k)(t := None)) u"
      using last l(2) by (cases "waits k u") (auto simp: GetLockOwner_def f)
  qed
  have "lock_ok ?k l ?i" if "li_tree i \<noteq> [t]"
  proof -
    have "remove1 t (li_tree i) \<noteq> []" using that l(5) by (cases "li_tree i") (auto split: if_splits)
    then show ?thesis using that l(1,3) held(1) lock_order.ordered_remove [of "k_threads k" "li_tree i" t]
      by (auto simp: lock_ok_def f(3,4) same less length_remove1 dest: notin_set_remove1 [rotated])
  qed
  moreover have "lock_ok ?k l' j" if "k_lock_infos k l' = Some j" "l' \<noteq> l" for l' j
    by (rule lock_ok_other [OF old(1) [OF that(1)] lo]) (use that(2) l(1) held(1) in \<open>auto simp: f(3,4)\<close>)
  ultimately have 1: "k_lock_infos ?k l' = Some j \<Longrightarrow> lock_ok ?k l' j" for l' j by (auto simp: f(1) split: if_splits)
  have 2: "waits ?k u = Some l' \<Longrightarrow> k_lock_infos ?k l' \<noteq> None" for u l' using old(2) [of u l'] last by (auto simp: f split: if_splits)
  have 3: "\<exists>j. k_lock_infos ?k l' = Some j \<and> li_owner j = Some u" if "l' \<in> set (held ?k u)" for u l'
    using that old(4) [of l' u] l(2) by (auto simp: held(1) f(1) split: if_splits)
  have 4: "finite {u. waits ?k u \<noteq> None}" by (rule finite_subset [OF _ old(5)]) (auto simp: f(3) split: if_splits)
  have "kernel_waiters ?k u = int (card {v. GetLockOwner ?k v = Some u \<and> is_kernel ?k v})" for u
    unfolding own f(5) same using card_kernel_waiters_remove [OF owners_finite [OF shape] t, of u "is_kernel k"] old(6) [of u] by simp
  then show "lock_shape ?k" unfolding lock_shape_def using 1 2 3 4 held(2) by blast
qed

text \<open>Passing a lock: its first waiter becomes the owner that the other waiters wait for.\<close>

lemma pass_lock_fields:
  fixes k :: kernel and owner :: thread and l :: nat and i :: LockWithPriorityInheritanceInfo
  assumes l: "k_lock_infos k l = Some i" "li_waiter_count i = length (li_tree i)" "li_tree i \<noteq> []"
  defines "k' \<equiv> snd (snd (pass_lock owner l i k))" and "n \<equiv> int (length (li_tree i))" and "nx \<equiv> hd (li_tree i)"
    and "others \<equiv> tl (li_tree i) \<noteq> []"
  shows "fst (pass_lock owner l i k) = nx" "fst (snd (pass_lock owner l i k)) = others"
    "k_lock_infos k' = (k_lock_infos k)(l := if others then Some (i \<lparr> li_tree := tl (li_tree i), li_waiter_count := li_waiter_count i - 1,
       li_owner := Some nx \<rparr>) else None)"
    "waits k' u = (if u = nx then None else waits k u)" "k_next_lock k' = k_next_lock k"
    "held k' u = (if others \<and> u = nx then [l] else []) @ (if u = owner then remove1 l (held k u) else held k u)"
    "kernel_waiters k' u = kernel_waiters k u + (if li_is_kernel_address_key i then
       (if u = owner then - n else 0) + (if u = nx then n - 1 else 0) else 0)"
proof -
  define k2 where "k2 = (if li_is_kernel_address_key i
    then SetSchedulerUpdateNeeded (count_kernel_waiters owner (- int (li_waiter_count i)) (erase_held owner l k)) else erase_held owner l k)"
  have k2: "k_lock_infos k2 = k_lock_infos k" "k_next_lock k2 = k_next_lock k" "\<And>u. waits k2 u = waits k u"
    "\<And>u. held k2 u = (if u = owner then remove1 l (held k u) else held k u)"
    "\<And>u. kernel_waiters k2 u = kernel_waiters k u - (if u = owner \<and> li_is_kernel_address_key i then n else 0)"
    by (simp_all add: k2_def n_def l(2))
  obtain xs where xs: "li_tree i = nx # xs" using l(3) by (cases "li_tree i") (simp_all add: nx_def)
  have last: "fst (Lock_RemoveWaiter l nx k2) = (\<not> others)" by (auto simp: k2 l others_def xs)
  define k3 where "k3 = snd (Lock_RemoveWaiter l nx k2)"
  have p: "pass_lock owner l i k = (nx, others,
      if others then (if li_is_kernel_address_key i then count_kernel_waiters nx (int (li_waiter_count i) - 1) (AddHeldLock nx l k3)
        else AddHeldLock nx l k3) else Lock_Free l k3)"
    using last unfolding pass_lock_def Let_def k2_def [symmetric] k3_def GetHighestPriorityWaiter_def nx_def [symmetric]
    by (simp add: case_prod_beta)
  show "fst (pass_lock owner l i k) = nx" "fst (snd (pass_lock owner l i k)) = others" by (simp_all add: p)
  have k3: "k_lock_infos k3 = (k_lock_infos k)(l \<mapsto> i \<lparr> li_tree := xs, li_waiter_count := li_waiter_count i - 1 \<rparr>)"
    "k_next_lock k3 = k_next_lock k" "\<And>u. waits k3 u = (if u = nx then None else waits k u)" "\<And>u. held k3 u = held k2 u"
    "\<And>u. kernel_waiters k3 u = kernel_waiters k2 u"
    by (simp_all add: k3_def k2 l xs)
  have m: "others \<longleftrightarrow> xs \<noteq> []" "n = 1 + int (length xs)" by (simp_all add: others_def n_def xs)
  show "k_lock_infos k' = (k_lock_infos k)(l := if others then Some (i \<lparr> li_tree := tl (li_tree i), li_waiter_count := li_waiter_count i - 1,
       li_owner := Some nx \<rparr>) else None)"
    "waits k' u = (if u = nx then None else waits k u)" "k_next_lock k' = k_next_lock k"
    "held k' u = (if others \<and> u = nx then [l] else []) @ (if u = owner then remove1 l (held k u) else held k u)"
    "kernel_waiters k' u = kernel_waiters k u + (if li_is_kernel_address_key i then
       (if u = owner then - n else 0) + (if u = nx then n - 1 else 0) else 0)"
    unfolding k'_def p using l(2) by (auto simp: k3 k2 xs m)
qed

lemma card_pass:
  assumes fin: "finite A" and B: "finite B" "nx \<in> B" and sub: "u = owner \<Longrightarrow> B \<subseteq> A" "u \<noteq> owner \<Longrightarrow> A \<inter> B = {}"
  shows "int (card ((A - (if u = owner then B else {})) \<union> (if u = nx then B - {nx} else {}))) =
    int (card A) + (if u = owner then - int (card B) else 0) + (if u = nx then int (card B) - 1 else 0)"
proof -
  have d: "(A - (if u = owner then B else {})) \<inter> (if u = nx then B - {nx} else {}) = {}" using sub by auto
  have "card (A - (if u = owner then B else {})) = card A - (if u = owner then card B else 0)"
    using sub(1) B(1) by (auto simp: card_Diff_subset)
  moreover have "u = owner \<Longrightarrow> card B \<le> card A" using sub(1) fin by (simp add: card_mono)
  moreover have "card (B - {nx}) = card B - 1" "0 < card B" using B by (auto simp: card_gt_0_iff)
  ultimately show ?thesis using fin B(1) d by (subst card_Un_disjoint) (auto simp: of_nat_diff)
qed

lemma pass_lock_shape:
  assumes shape: "lock_shape k" and l: "l \<in> set (held k owner)" "k_lock_infos k l = Some i"
  defines "k' \<equiv> snd (snd (pass_lock owner l i k))" and "nx \<equiv> hd (li_tree i)"
  shows "lock_shape k'" "GetLockOwner k nx = Some owner"
    "GetLockOwner k' = (\<lambda>u. if u = nx then None else if waits k u = Some l then Some nx else GetLockOwner k u)"
    "waits k' nx = None"
proof -
  note old = lock_shapeD [OF shape]
  have i: "lock_ok k l i" "li_owner i = Some owner" using old(4) [OF l(1)] l(2) by auto
  obtain xs where xs: "li_tree i = nx # xs" using i(1) by (cases "li_tree i") (simp_all add: nx_def lock_ok_def)
  have t: "li_waiter_count i = length (li_tree i)" "li_tree i \<noteq> []" "distinct (li_tree i)"
    "\<And>u. u \<in> set (li_tree i) \<longleftrightarrow> waits k u = Some l" "\<And>u. u \<in> set (li_tree i) \<Longrightarrow> is_kernel k u = li_is_kernel_address_key i"
    using i(1) by (auto simp: lock_ok_def)
  note f = pass_lock_fields [OF l(2) t(1,2), of owner, folded k'_def nx_def]
  have lo: "lock_only k k'" unfolding k'_def by (rule lock_only_ops)
  note same = lock_onlyD [OF lo] and less = lock_less_threads [of "k_threads k'" "k_threads k", OF lock_onlyD(1) [OF lo]]
  have tree_own: "u \<in> set (li_tree i) \<Longrightarrow> GetLockOwner k u = Some owner" for u using t(4) [of u] l(2) i(2) by (simp add: GetLockOwner_def)
  then show "GetLockOwner k nx = Some owner" by (simp add: xs)
  show "waits k' nx = None" by (simp add: f(4))
  have nx: "waits k u = Some l \<longleftrightarrow> u = nx \<or> u \<in> set xs" "nx \<notin> set xs" for u using t(3) t(4) [of u] by (auto simp: xs)
  show own: "GetLockOwner k' = (\<lambda>u. if u = nx then None else if waits k u = Some l then Some nx else GetLockOwner k u)"
  proof
    fix u
    show "GetLockOwner k' u = (if u = nx then None else if waits k u = Some l then Some nx else GetLockOwner k u)"
      using nx(1) [of u] nx(2) by (cases "waits k u") (auto simp: GetLockOwner_def f xs)
  qed
  have free: "l \<notin> set (held k u)" if "u \<noteq> owner" for u using old(4) [of l u] l(2) i(2) that by auto
  have held: "set (held k' u) = (set (held k u) - {l}) \<union> (if xs \<noteq> [] \<and> u = nx then {l} else {})" "distinct (held k' u)" for u
    using old(3) [of u] free [of u] by (auto simp: f xs)
  have "lock_ok k' l (i \<lparr> li_tree := xs, li_waiter_count := li_waiter_count i - 1, li_owner := Some nx \<rparr>)" if "xs \<noteq> []"
    using i(1) that held(1) nx unfolding lock_ok_def by (auto simp: f(4,5) same less xs)
  moreover have "lock_ok k' l' j" if "k_lock_infos k l' = Some j" "l' \<noteq> l" for l' j
    by (rule lock_ok_other [OF old(1) [OF that(1)] lo]) (use that(2) held(1) nx(1) [of nx] in \<open>auto simp: f(4,5)\<close>)
  ultimately have 1: "k_lock_infos k' l' = Some j \<Longrightarrow> lock_ok k' l' j" for l' j by (auto simp: f(3) xs split: if_splits)
  have 2: "waits k' u = Some l' \<Longrightarrow> k_lock_infos k' l' \<noteq> None" for u l' using old(2) [of u l'] nx(1) [of u] nx(2) by (auto simp: f(3,4) xs split: if_splits)
  have 3: "\<exists>j. k_lock_infos k' l' = Some j \<and> li_owner j = Some u" if "l' \<in> set (held k' u)" for u l'
    using that old(4) [of l' u] by (auto simp: held(1) f(3) xs split: if_splits)
  have 4: "finite {u. waits k' u \<noteq> None}" by (rule finite_subset [OF _ old(5)]) (auto simp: f(4) split: if_splits)
  have 5: "kernel_waiters k' u = int (card {v. GetLockOwner k' v = Some u \<and> is_kernel k' v})" for u
  proof (cases "li_is_kernel_address_key i")
    case True
    let ?A = "{v. GetLockOwner k v = Some u \<and> is_kernel k v}" and ?B = "set (li_tree i)"
    have A': "{v. GetLockOwner k' v = Some u \<and> is_kernel k' v} = (?A - (if u = owner then ?B else {})) \<union> (if u = nx then ?B - {nx} else {})"
      using True t(4,5) tree_own unfolding own same by (auto simp: xs)
    have "finite ?A" by (rule finite_subset [OF _ owners_finite [OF shape]]) auto
    then have "int (card ((?A - (if u = owner then ?B else {})) \<union> (if u = nx then ?B - {nx} else {}))) =
        int (card ?A) + (if u = owner then - int (card ?B) else 0) + (if u = nx then int (card ?B) - 1 else 0)"
      using True tree_own t(5) by (intro card_pass) (auto simp: xs)
    then show ?thesis using True old(6) [of u] distinct_card [OF t(3)] unfolding A' f(7) by simp
  next
    case False
    have "{v. GetLockOwner k' v = Some u \<and> is_kernel k' v} = {v. GetLockOwner k v = Some u \<and> is_kernel k v}"
      using False t(4,5) unfolding own same by (auto simp: xs)
    then show ?thesis using False old(6) [of u] by (simp add: f(7))
  qed
  show "lock_shape k'" unfolding lock_shape_def using 1 2 3 4 5 held(2) by blast
qed

end
