(* ===== verification/PriorityInheritanceBehaviour.thy ===== *)
theory PriorityInheritanceBehaviour
  imports LockShape
begin

text \<open>
  Priority inheritance: \<^verbatim>\<open>RestorePriority\<close> ends, even along a cycle of threads that wait for each other, and afterwards every
  thread has the least of its own priority and of those of the threads that wait for it. The operations on waiters keep this.
\<close>

section \<open>The part of the kernel that locks depend on\<close>

definition lock_part :: "KThread \<Rightarrow> nat \<times> nat \<times> u64 \<times> bool \<times> nat list \<times> nat option \<times> int \<times> thread_tree option \<times> u64" where
  "lock_part th = (th_priority th, th_base_priority th, th_address_key th, th_is_kernel_address_key th, th_held_lock_info_list th,
     th_waiting_lock_info th, th_num_kernel_waiters th, th_condvar_tree th, th_condvar_key th)"

interpretation lock_part: link_blind lock_part
  by unfold_locales (simp add: lock_part_def)

definition locks_view where
  "locks_view k = (projected lock_part (k_threads k), k_lock_infos k, k_next_lock k, k_thread_trees k)"

lemma locks_viewD:
  assumes "locks_view k' = locks_view k"
  shows "prio k' u = prio k u" "base k' u = base k u" "th_address_key (thread_of k' u) = th_address_key (thread_of k u)"
    "is_kernel k' u = is_kernel k u" "held k' u = held k u" "waits k' u = waits k u" "kernel_waiters k' u = kernel_waiters k u"
    "th_condvar_tree (thread_of k' u) = th_condvar_tree (thread_of k u)" "th_condvar_key (thread_of k' u) = th_condvar_key (thread_of k u)"
    "k_lock_infos k' = k_lock_infos k" "k_next_lock k' = k_next_lock k" "k_thread_trees k' = k_thread_trees k"
proof -
  have "lock_part (thread_of k' u) = lock_part (thread_of k u)" using assms by (simp add: locks_view_def projected_def fun_eq_iff)
  then show "prio k' u = prio k u" "base k' u = base k u" "th_address_key (thread_of k' u) = th_address_key (thread_of k u)"
    "is_kernel k' u = is_kernel k u" "held k' u = held k u" "waits k' u = waits k u" "kernel_waiters k' u = kernel_waiters k u"
    "th_condvar_tree (thread_of k' u) = th_condvar_tree (thread_of k u)" "th_condvar_key (thread_of k' u) = th_condvar_key (thread_of k u)"
    by (simp_all add: lock_part_def)
qed (use assms in \<open>simp_all add: locks_view_def\<close>)

lemma condvar_less_threads:
  "(\<And>u. th_priority (ths' u) = th_priority (ths u)) \<Longrightarrow> (\<And>u. th_condvar_key (ths' u) = th_condvar_key (ths u)) \<Longrightarrow>
    condvar_less ths' = condvar_less ths"
  by (simp add: fun_eq_iff condvar_less_def)

lemma locks_view_shapes:
  assumes "locks_view k' = locks_view k"
  shows "GetLockOwner k' = GetLockOwner k" "lock_shape k' = lock_shape k" "tree_shape k' = tree_shape k"
    "inherited_priority k' t = inherited_priority k t"
proof -
  note s = locks_viewD [OF assms]
  have l: "lock_less (k_threads k') = lock_less (k_threads k)" "condvar_less (k_threads k') = condvar_less (k_threads k)"
    by (rule lock_less_threads condvar_less_threads; simp add: s)+
  show own: "GetLockOwner k' = GetLockOwner k" by (simp add: fun_eq_iff GetLockOwner_def s)
  have "lock_ok k' = lock_ok k" by (simp add: fun_eq_iff lock_ok_def s l)
  then show "lock_shape k' = lock_shape k" by (simp add: lock_shape_def s own)
  show "tree_shape k' = tree_shape k" by (simp add: tree_shape_def s l)
  show "inherited_priority k' t = inherited_priority k t" by (simp add: inherited_priority_def s cong: option.case_cong)
qed

lemma locks_view_updates [simp]:
  "locks_view (set_process p f k) = locks_view k" "locks_view (set_scheduler c g k) = locks_view k"
  "locks_view (SetSchedulerUpdateNeeded k) = locks_view k" "locks_view (ClearSchedulerUpdateNeeded k) = locks_view k"
  "locks_view (k \<lparr> k_woken_dummy_threads := w \<rparr>) = locks_view k" "locks_view (IncrementScheduledCount t k) = locks_view k"
  "locks_view (k \<lparr> k_memory := m \<rparr>) = locks_view k"
  by (simp_all add: locks_view_def set_process_def set_scheduler_def SetSchedulerUpdateNeeded_def ClearSchedulerUpdateNeeded_def
      IncrementScheduledCount_def split: option.split)

lemma locks_view_set_thread:
  "(\<And>th. lock_part (h th) = lock_part th) \<Longrightarrow> locks_view (set_thread t h k) = locks_view k"
  by (simp add: locks_view_def set_thread_def projected_upd)

lemma locks_view_put [simp]:
  "projected lock_part (snd s) = projected lock_part (k_threads k) \<Longrightarrow> locks_view (put_queue_state s k) = locks_view k"
  by (simp add: locks_view_def put_queue_state_def)

lemma locks_view_On [simp]:
  "locks_view (OnThreadStateChanged t old k) = locks_view k" "locks_view (OnThreadPriorityChanged cur t p k) = locks_view k"
  "locks_view (OnThreadAffinityMaskChanged t a c k) = locks_view k"
  by (simp_all add: OnThreadStateChanged_def OnThreadPriorityChanged_def OnThreadAffinityMaskChanged_def Let_def
      RegisterDummyThreadForWakeup_def UnregisterDummyThreadForWakeup_def)

section \<open>A change of the priority\<close>

lemma sorted_wrt_cong_set: "(\<And>x y. x \<in> set xs \<Longrightarrow> y \<in> set xs \<Longrightarrow> P x y = Q x y) \<Longrightarrow> sorted_wrt P xs = sorted_wrt Q xs"
  by (induction xs) auto

abbreviation set_priority :: "thread \<Rightarrow> nat \<Rightarrow> kernel \<Rightarrow> kernel" where
  "set_priority t p \<equiv> set_thread t (\<lambda>th. th \<lparr> th_priority := p \<rparr>)"

lemma set_priority_same:
  assumes "prio k t = p"
  shows "set_priority t p k = k"
proof -
  have "(thread_of k t) \<lparr> th_priority := p \<rparr> = thread_of k t" using assms by (cases "thread_of k t") simp
  then show ?thesis by (simp add: set_thread_def)
qed

lemma set_priority_shape:
  assumes "lock_shape k" "waits k t = None"
  shows "lock_shape (set_priority t p k)" "GetLockOwner (set_priority t p k) = GetLockOwner k"
proof -
  let ?k = "set_priority t p k"
  have f: "waits ?k u = waits k u" "held ?k u = held k u" "is_kernel ?k u = is_kernel k u" "kernel_waiters ?k u = kernel_waiters k u"
    "th_address_key (thread_of ?k u) = th_address_key (thread_of k u)" "k_lock_infos ?k = k_lock_infos k" "k_next_lock ?k = k_next_lock k" for u
    by (simp_all add: set_thread_def)
  have p: "u \<noteq> t \<Longrightarrow> prio ?k u = prio k u" for u by (simp add: set_thread_def)
  show own: "GetLockOwner ?k = GetLockOwner k" unfolding fun_eq_iff GetLockOwner_def f by simp
  have "lock_ok ?k l i" if "lock_ok k l i" for l i
  proof -
    have "t \<notin> set (li_tree i)" using that assms(2) by (simp add: lock_ok_def)
    then have "lock_order.ordered (k_threads ?k) (li_tree i) = lock_order.ordered (k_threads k) (li_tree i)"
      by (intro sorted_wrt_cong_set) (metis lock_less_def p)
    then show ?thesis using that unfolding lock_ok_def f by blast
  qed
  then show "lock_shape ?k" using assms(1) unfolding lock_shape_def f own by blast
qed

text \<open>A thread in a tree is taken out, gets its priority and is put back.\<close>

definition reprioritize :: "thread \<Rightarrow> nat \<Rightarrow> kernel \<Rightarrow> kernel" where
  "reprioritize t p k =
     AfterUpdatePriority (th_condvar_tree (thread_of k t)) t
       (set_priority t p (BeforeUpdatePriority (th_condvar_tree (thread_of k t)) t k))"

lemma reprioritize_fields:
  "k_threads (reprioritize t p k) = k_threads (set_priority t p k)" "k_lock_infos (reprioritize t p k) = k_lock_infos k"
  "k_next_lock (reprioritize t p k) = k_next_lock k" "k_priority_queue (reprioritize t p k) = k_priority_queue k"
  "k_thread_trees (reprioritize t p k) = (case th_condvar_tree (thread_of k t) of None \<Rightarrow> k_thread_trees k
     | Some tr \<Rightarrow> (k_thread_trees k)(tr := insert_ordered (condvar_less (k_threads (set_priority t p k))) t (remove1 t (k_thread_trees k tr))))"
  by (simp_all add: reprioritize_def BeforeUpdatePriority_def AfterUpdatePriority_def tree_erase_thread_def tree_insert_thread_def
      set_thread_def split: option.split)

lemma reprioritize_shape:
  assumes shape: "lock_shape k" "tree_shape k" and w: "waits k t = None"
  shows "lock_shape (reprioritize t p k)" "GetLockOwner (reprioritize t p k) = GetLockOwner k" "tree_shape (reprioritize t p k)"
proof -
  let ?k = "reprioritize t p k" and ?s = "set_priority t p k"
  note f = reprioritize_fields [of t p k]
  have own: "GetLockOwner ?k = GetLockOwner ?s" "lock_ok ?k = lock_ok ?s"
    by (simp_all add: fun_eq_iff GetLockOwner_def lock_ok_def f) (simp_all add: set_thread_def)
  show "GetLockOwner ?k = GetLockOwner k" using own(1) set_priority_shape(2) [OF shape(1) w] by simp
  have "k_lock_infos ?s = k_lock_infos k" by (simp add: set_thread_def)
  then show "lock_shape ?k" using set_priority_shape(1) [OF shape(1) w, of p] unfolding lock_shape_def f own by simp
  have g: "th_condvar_tree (thread_of ?s u) = th_condvar_tree (thread_of k u)" "th_condvar_key (thread_of ?s u) = th_condvar_key (thread_of k u)"
    "waits ?s u = waits k u" "u \<noteq> t \<Longrightarrow> prio ?s u = prio k u" for u
    by (simp_all add: set_thread_def)
  have old: "distinct (k_thread_trees k tr)" "condvar_order.ordered (k_threads k) (k_thread_trees k tr)"
    "u \<in> set (k_thread_trees k tr) \<longleftrightarrow> th_condvar_tree (thread_of k u) = Some tr"
    "th_condvar_tree (thread_of k u) \<noteq> None \<longrightarrow> waits k u = None" for u tr
    using shape(2) by (simp_all add: tree_shape_def)
  have keep: "condvar_order.ordered (k_threads ?s) xs = condvar_order.ordered (k_threads k) xs" if "t \<notin> set xs" for xs
    using that by (intro sorted_wrt_cong_set) (metis condvar_less_def g(2,4))
  have "distinct (k_thread_trees ?k tr) \<and> condvar_order.ordered (k_threads ?s) (k_thread_trees ?k tr) \<and>
      (\<forall>u. u \<in> set (k_thread_trees ?k tr) \<longleftrightarrow> th_condvar_tree (thread_of k u) = Some tr)" for tr
  proof (cases "th_condvar_tree (thread_of k t) = Some tr")
    case True
    have "t \<notin> set (remove1 t (k_thread_trees k tr))" using old(1) by simp
    then show ?thesis using True old keep condvar_order.ordered_insert condvar_order.ordered_remove [OF old(2) [of tr], of t]
      by (simp add: f(5)) auto
  next
    case False
    then have "k_thread_trees ?k tr = k_thread_trees k tr" by (auto simp: f(5) split: option.split)
    moreover have "t \<notin> set (k_thread_trees k tr)" using False old(3) by simp
    ultimately show ?thesis using old keep by simp
  qed
  then show "tree_shape ?k" using old(4) unfolding tree_shape_def f(1) g by blast
qed

section \<open>One turn\<close>

text \<open>What a change of priorities leaves alone in a thread.\<close>

definition core_part :: "KThread \<Rightarrow> KThread" where
  "core_part th = (lockless th) \<lparr> th_entries := \<lambda>_. QueueEntry_Initialize, th_priority := 0 \<rparr>"

interpretation core_part: link_blind core_part
  by unfold_locales (simp add: core_part_def lockless_def)

definition prio_frame :: "kernel \<Rightarrow> kernel \<Rightarrow> bool" where
  "prio_frame k k' \<longleftrightarrow> projected core_part (k_threads k') = projected core_part (k_threads k) \<and> k_memory k' = k_memory k"

lemma prio_frame_refl [simp]: "prio_frame k k"
  by (simp add: prio_frame_def)

lemma prio_frame_trans: "prio_frame k k1 \<Longrightarrow> prio_frame k1 k2 \<Longrightarrow> prio_frame k k2"
  by (simp add: prio_frame_def)

lemma prio_frame_lock_only: "lock_only k k' \<Longrightarrow> prio_frame k k'"
  by (auto simp: prio_frame_def lock_only_def projected_def core_part_def)

lemma prio_frame_On: "prio_frame k (OnThreadPriorityChanged cur t p k)"
proof -
  have "k_memory (OnThreadPriorityChanged cur t p k) = k_memory k"
    by (simp add: OnThreadPriorityChanged_def put_queue_state_def IncrementScheduledCount_def SetSchedulerUpdateNeeded_def set_process_def
        split: option.split)
  then show ?thesis by (simp add: prio_frame_def)
qed

lemma prio_frame_reprioritize: "prio_frame k (reprioritize t p k)"
proof -
  have "k_memory (reprioritize t p k) = k_memory k"
    by (simp add: reprioritize_def BeforeUpdatePriority_def AfterUpdatePriority_def tree_erase_thread_def tree_insert_thread_def set_thread_def
        split: option.split)
  then show ?thesis by (simp add: prio_frame_def reprioritize_fields set_thread_def projected_upd core_part_def lockless_def)
qed

lemma prio_frameD:
  assumes "prio_frame k k'"
  shows "base k' u = base k u" "th_state (thread_of k' u) = th_state (thread_of k u)" "th_wait_queue (thread_of k' u) = th_wait_queue (thread_of k u)"
    "th_condvar_tree (thread_of k' u) = th_condvar_tree (thread_of k u)" "th_condvar_key (thread_of k' u) = th_condvar_key (thread_of k u)"
    "th_address_key (thread_of k' u) = th_address_key (thread_of k u)" "is_kernel k' u = is_kernel k u"
    "th_address_key_value (thread_of k' u) = th_address_key_value (thread_of k u)" "k_memory k' = k_memory k"
    "th_wait_result (thread_of k' u) = th_wait_result (thread_of k u)"
proof -
  have e: "core_part (thread_of k' u) = core_part (thread_of k u)" using assms by (simp add: prio_frame_def projected_def fun_eq_iff)
  have f: "f (thread_of k' u) = f (thread_of k u)" if "\<And>th. f (core_part th) = f th" for f :: "KThread \<Rightarrow> 'a"
    using that [of "thread_of k' u"] that [of "thread_of k u"] e by simp
  show "base k' u = base k u" "th_state (thread_of k' u) = th_state (thread_of k u)" "th_wait_queue (thread_of k' u) = th_wait_queue (thread_of k u)"
    "th_condvar_tree (thread_of k' u) = th_condvar_tree (thread_of k u)" "th_condvar_key (thread_of k' u) = th_condvar_key (thread_of k u)"
    "th_address_key (thread_of k' u) = th_address_key (thread_of k u)" "is_kernel k' u = is_kernel k u"
    "th_address_key_value (thread_of k' u) = th_address_key_value (thread_of k u)" "th_wait_result (thread_of k' u) = th_wait_result (thread_of k u)"
    by (rule f; simp add: core_part_def lockless_def)+
  show "k_memory k' = k_memory k" using assms by (simp add: prio_frame_def)
qed

lemma lock_only_tree_shape:
  assumes "lock_only k k'" "tree_shape k" "\<And>u. waits k' u \<noteq> None \<Longrightarrow> waits k u \<noteq> None \<or> th_condvar_tree (thread_of k u) = None"
  shows "tree_shape k'"
proof -
  note f = lock_onlyD [OF assms(1)]
  have "condvar_less (k_threads k') = condvar_less (k_threads k)" by (rule condvar_less_threads; simp add: f)
  moreover have "waits k' u = None" if "th_condvar_tree (thread_of k u) \<noteq> None" for u
    using assms(2) assms(3) [of u] that unfolding tree_shape_def by metis
  ultimately show ?thesis using assms(2) unfolding tree_shape_def f by simp
qed

text \<open>The part of a turn before the scheduler is told.\<close>

definition change_priority :: "thread \<Rightarrow> nat \<Rightarrow> kernel \<Rightarrow> kernel" where
  "change_priority t p k =
     (case GetLockOwner k t of
        None \<Rightarrow> reprioritize t p k
      | Some owner \<Rightarrow> AddWaiterImpl owner t (reprioritize t p (RemoveWaiterImpl owner t k)))"

lemma restore_turn_eq: "restore_turn cur t p k = OnThreadPriorityChanged cur t (prio k t) (change_priority t p k)"
proof -
  have "th_condvar_tree (thread_of (RemoveWaiterImpl owner t k) t) = th_condvar_tree (thread_of k t)" for owner
    using lock_onlyD(5) [OF lock_only_ops(2)] .
  then show ?thesis unfolding restore_turn_def change_priority_def reprioritize_def Let_def by (simp split: option.split)
qed

lemma change_priority_shape:
  assumes shape: "lock_shape k" "tree_shape k"
  shows "lock_shape (change_priority t p k)" "tree_shape (change_priority t p k)" "GetLockOwner (change_priority t p k) = GetLockOwner k"
    "prio (change_priority t p k) u = (if u = t then p else prio k u)" "prio_frame k (change_priority t p k)"
proof -
  have pr: "prio (reprioritize t p k) u = (if u = t then p else prio k u)" for k u by (simp add: reprioritize_fields)
  have "lock_shape (change_priority t p k) \<and> tree_shape (change_priority t p k) \<and> GetLockOwner (change_priority t p k) = GetLockOwner k \<and>
      prio (change_priority t p k) u = (if u = t then p else prio k u) \<and> prio_frame k (change_priority t p k)"
  proof (cases "GetLockOwner k t")
    case None
    then have "waits k t = None" by (simp add: GetLockOwner_None [OF shape(1)])
    from reprioritize_shape [OF shape this, of p] show ?thesis
      using None pr prio_frame_reprioritize by (simp add: change_priority_def)
  next
    case (Some owner)
    define k1 where "k1 = RemoveWaiterImpl owner t k"
    define k2 where "k2 = reprioritize t p k1"
    note r = RemoveWaiterImpl_shape [OF shape(1) Some, folded k1_def]
    have lo1: "lock_only k k1" unfolding k1_def by (rule lock_only_ops)
    have w: "waits k u \<noteq> None" if "waits k1 u \<noteq> None" for u
      using that GetLockOwner_None [OF shape(1), of u] GetLockOwner_None [OF r(1), of u] unfolding r(2) by (auto split: if_splits)
    have "tree_shape k1" by (rule lock_only_tree_shape [OF lo1 shape(2)]) (use w in blast)
    note q = reprioritize_shape [OF r(1) this r(3), of p, folded k2_def]
    have w2: "waits k2 u = waits k1 u" for u by (simp add: k2_def reprioritize_fields)
    then have "waits k2 t = None" using r(3) by simp
    note a = AddWaiterImpl_shape [OF q(1) this, of owner]
    have cp: "change_priority t p k = AddWaiterImpl owner t k2" using Some by (simp add: change_priority_def k1_def k2_def)
    have lo2: "lock_only k2 (AddWaiterImpl owner t k2)" by (rule lock_only_ops)
    have "waits k t \<noteq> None" using Some GetLockOwner_None [OF shape(1), of t] by auto
    then have cv: "th_condvar_tree (thread_of k2 t) = None"
      using shape(2) lock_onlyD(5) [OF lo1, of t] by (auto simp: k2_def reprioritize_fields tree_shape_def)
    have "tree_shape (AddWaiterImpl owner t k2)"
    proof (rule lock_only_tree_shape [OF lo2 q(3)])
      fix u
      assume "waits (AddWaiterImpl owner t k2) u \<noteq> None"
      then show "waits k2 u \<noteq> None \<or> th_condvar_tree (thread_of k2 u) = None"
        using GetLockOwner_None [OF a(1), of u] GetLockOwner_None [OF q(1), of u] cv unfolding a(2) by (cases "u = t") auto
    qed
    moreover have "GetLockOwner (AddWaiterImpl owner t k2) = GetLockOwner k" using Some unfolding a(2) q(2) r(2) by auto
    moreover have "prio (AddWaiterImpl owner t k2) u = (if u = t then p else prio k u)"
      using lock_onlyD(1) [OF lo2, of u] lock_onlyD(1) [OF lo1, of u] pr [of k1 u] by (simp add: k2_def)
    moreover have "prio_frame k (AddWaiterImpl owner t k2)"
      using prio_frame_lock_only [OF lo1] prio_frame_lock_only [OF lo2] prio_frame_reprioritize [of k1 t p] prio_frame_trans
      unfolding k2_def by blast
    ultimately show ?thesis unfolding cp using a(1) by blast
  qed
  then show "lock_shape (change_priority t p k)" "tree_shape (change_priority t p k)" "GetLockOwner (change_priority t p k) = GetLockOwner k"
    "prio (change_priority t p k) u = (if u = t then p else prio k u)" "prio_frame k (change_priority t p k)" by blast+
qed

lemma change_priority_queue: "k_priority_queue (change_priority t p k) = k_priority_queue k"
  using lock_only_ops(1,2) by (simp add: change_priority_def reprioritize_fields lock_only_def split: option.split)

lemma change_priority_threads:
  "th_entries (thread_of (change_priority t p k) u) = th_entries (thread_of k u)"
  "same_queueing ((thread_of k u) \<lparr> th_priority := 0 \<rparr>) ((thread_of (change_priority t p k) u) \<lparr> th_priority := 0 \<rparr>)"
proof -
  let ?v = "\<lambda>th. lockless (th \<lparr> th_priority := 0 \<rparr>)"
  have v: "?v th = (lockless th) \<lparr> th_priority := 0 \<rparr>" for th by (simp add: lockless_def)
  have lo: "?v (thread_of k' u) = ?v (thread_of k u)" if "lock_only k k'" for k k' :: kernel
    using that by (simp add: v lock_only_def)
  have "?v (thread_of (reprioritize t p k) u) = ?v (thread_of k u)" for k by (simp add: reprioritize_fields)
  then have e: "?v (thread_of (change_priority t p k) u) = ?v (thread_of k u)"
    by (simp add: change_priority_def lo [OF lock_only_ops(1)] lo [OF lock_only_ops(2)] split: option.split)
  show "th_entries (thread_of (change_priority t p k) u) = th_entries (thread_of k u)" using lockless_eqD(7) [OF e] by simp
  show "same_queueing ((thread_of k u) \<lparr> th_priority := 0 \<rparr>) ((thread_of (change_priority t p k) u) \<lparr> th_priority := 0 \<rparr>)"
    by (rule lockless_eqD(8) [OF e])
qed

lemma restore_turn_queues:
  assumes "lock_shape k" "tree_shape k" "queues_match k"
  shows "queues_match (restore_turn cur t p k)"
proof -
  let ?k = "change_priority t p k"
  let ?b = "set_priority t (prio k t) ?k"
  note pr = change_priority_shape(4) [OF assms(1,2), of t p]
  have "sched_ok ?b L = sched_ok k L" for L
  proof (rule sched_ok_cong)
    show "k_priority_queue ?b = k_priority_queue k" by (simp add: change_priority_queue)
    fix u
    show "th_entries (thread_of ?b u) = th_entries (thread_of k u)" by (simp add: change_priority_threads(1))
    show "same_queueing (thread_of k u) (thread_of ?b u)" using change_priority_threads(2) [of k u t p] pr [of u] by (cases "u = t") (simp_all add: same_queueing_def)
  qed
  then have "queues_match ?b" using assms(3) by (simp add: queues_match_def)
  from priority_ok [OF this, of cur t p] show ?thesis
  proof -
    have "set_priority t p ?b = set_priority t p ?k" by (simp add: set_thread_def)
    then have "set_priority t p ?b = ?k" using pr [of t] set_priority_same [of ?k t p] by simp
    then show ?thesis using \<open>queues_match (OnThreadPriorityChanged cur t (prio ?b t) (set_priority t p ?b))\<close>
      by (simp add: restore_turn_eq)
  qed
qed

lemma restore_turn_shape:
  assumes "lock_shape k" "tree_shape k"
  shows "lock_shape (restore_turn cur t p k)" "tree_shape (restore_turn cur t p k)" "GetLockOwner (restore_turn cur t p k) = GetLockOwner k"
    "prio (restore_turn cur t p k) u = (if u = t then p else prio k u)" "prio_frame k (restore_turn cur t p k)"
proof -
  note c = change_priority_shape [OF assms, of t p]
  have v: "locks_view (restore_turn cur t p k) = locks_view (change_priority t p k)" by (simp add: restore_turn_eq)
  show "lock_shape (restore_turn cur t p k)" "tree_shape (restore_turn cur t p k)" "GetLockOwner (restore_turn cur t p k) = GetLockOwner k"
    "prio (restore_turn cur t p k) u = (if u = t then p else prio k u)"
    using c(1-3) c(4) [of u] locks_view_shapes [OF v] locks_viewD(1) [OF v, of u] by simp_all
  show "prio_frame k (restore_turn cur t p k)" using prio_frame_trans [OF c(5) prio_frame_On] by (simp add: restore_turn_eq)
qed

section \<open>The chain of owners\<close>

definition inherits :: "kernel \<Rightarrow> thread \<Rightarrow> bool" where
  "inherits k t \<longleftrightarrow> prio k t = inherited_priority k t"

text \<open>The same, for the priorities, the own priorities and the threads that are waited for as functions.\<close>

definition least_priority :: "(thread \<Rightarrow> thread option) \<Rightarrow> (thread \<Rightarrow> nat) \<Rightarrow> (thread \<Rightarrow> nat) \<Rightarrow> thread \<Rightarrow> bool" where
  "least_priority own pr bs t \<longleftrightarrow> pr t \<le> bs t \<and> (\<forall>w. own w = Some t \<longrightarrow> pr t \<le> pr w) \<and> (pr t = bs t \<or> (\<exists>w. own w = Some t \<and> pr w = pr t))"

lemma inherits_iff:
  assumes "lock_shape k"
  shows "inherits k t \<longleftrightarrow> least_priority (GetLockOwner k) (prio k) (base k) t"
proof -
  note le = le_inherited_priority [OF assms, of _ t]
  have p: "Suc (prio k t) \<le> x \<longleftrightarrow> prio k t \<le> x \<and> x \<noteq> prio k t" for x by auto
  have "inherits k t \<longleftrightarrow> prio k t \<le> inherited_priority k t \<and> \<not> Suc (prio k t) \<le> inherited_priority k t" by (auto simp: inherits_def)
  also have "\<dots> \<longleftrightarrow> least_priority (GetLockOwner k) (prio k) (base k) t" unfolding le p least_priority_def by metis
  finally show ?thesis .
qed

lemma least_priority_add:
  assumes "\<And>u. least_priority own pr bs u" "own t = None" "u \<noteq> r \<or> pr r \<le> pr t"
  shows "least_priority (own(t := Some r)) pr bs u"
proof -
  note l = assms(1) [of u, unfolded least_priority_def]
  have "pr u = bs u \<or> (\<exists>w. w \<noteq> t \<and> own w = Some u \<and> pr w = pr u)" using l assms(2) by (metis option.distinct(1))
  then show ?thesis using l assms(3) unfolding least_priority_def by auto
qed

lemma least_priority_remove:
  assumes "\<And>u. least_priority own pr bs u" "own t = Some r" "u \<noteq> r \<or> \<not> (pr r = pr t \<and> pr r < bs r)"
  shows "least_priority (own(t := None)) pr bs u"
proof -
  note l = assms(1) [of u, unfolded least_priority_def]
  have "pr u = bs u \<or> (\<exists>w. w \<noteq> t \<and> own w = Some u \<and> pr w = pr u)" using l assms(2,3) by (metis le_less option.inject)
  then show ?thesis using l unfolding least_priority_def by auto
qed

definition restorable :: "kernel \<Rightarrow> bool" where
  "restorable k \<longleftrightarrow> lock_shape k \<and> tree_shape k \<and> queues_match k"

lemma restorable_turn: "restorable k \<Longrightarrow> restorable (restore_turn cur t p k)"
  by (simp add: restorable_def restore_turn_shape restore_turn_queues)

text \<open>
  A turn makes the thread inherit, unless it waits for itself, and only the owner of the lock that it waits for can stop to do so. The priority
  of the owner then moves in the same direction.
\<close>

lemma inherited_mono:
  assumes "lock_shape k" "lock_shape k'" "GetLockOwner k' = GetLockOwner k" "\<And>u. base k' u = base k u" "\<And>u. prio k u \<le> prio k' u"
  shows "inherited_priority k t \<le> inherited_priority k' t"
proof -
  have "inherited_priority k t \<le> base k t" "\<And>w. GetLockOwner k w = Some t \<Longrightarrow> inherited_priority k t \<le> prio k w"
    using le_inherited_priority [OF assms(1), of "inherited_priority k t" t] by auto
  then show ?thesis unfolding le_inherited_priority [OF assms(2)] assms(3,4) using assms(5) le_trans by blast
qed

lemma inherited_other:
  assumes "lock_shape k" "lock_shape k'" "GetLockOwner k' = GetLockOwner k" "\<And>u. base k' u = base k u"
    "\<And>w. GetLockOwner k w = Some t \<Longrightarrow> prio k' w = prio k w"
  shows "inherited_priority k' t = inherited_priority k t"
proof -
  have "x \<le> inherited_priority k' t \<longleftrightarrow> x \<le> inherited_priority k t" for x
    unfolding le_inherited_priority [OF assms(1)] le_inherited_priority [OF assms(2)] assms(3,4) using assms(5) by auto
  then show ?thesis by (metis le_antisym order_refl)
qed

lemma turn_inherits:
  fixes cur :: thread
  assumes ok: "restorable k" and t: "\<And>u. u \<noteq> t \<Longrightarrow> inherits k u" and p: "p = inherited_priority k t"
  defines "k' \<equiv> restore_turn cur t p k"
  shows "GetLockOwner k t \<noteq> Some u \<Longrightarrow> inherits k' u"
    "p \<le> prio k t \<Longrightarrow> GetLockOwner k t = Some r \<Longrightarrow> inherited_priority k' r \<le> prio k' r"
    "prio k t \<le> p \<Longrightarrow> GetLockOwner k t = Some r \<Longrightarrow> prio k' r \<le> inherited_priority k' r"
proof -
  have shape: "lock_shape k" "tree_shape k" using ok by (simp_all add: restorable_def)
  note f = restore_turn_shape [OF shape, of cur t p, folded k'_def]
  note base = prio_frameD(1) [OF f(5)]
  show "inherits k' u" if "GetLockOwner k t \<noteq> Some u" for u
  proof -
    have "inherited_priority k' u = inherited_priority k u"
      by (rule inherited_other [OF shape(1) f(1,3) base]) (use that f(4) in auto)
    then show ?thesis using t [of u] p by (cases "u = t") (simp_all add: inherits_def f(4))
  qed
  have r: "prio k' r = inherited_priority k r" for r using t [of r] p by (cases "r = t") (simp_all add: inherits_def f(4))
  show "p \<le> prio k t \<Longrightarrow> GetLockOwner k t = Some r \<Longrightarrow> inherited_priority k' r \<le> prio k' r"
    using inherited_mono [OF f(1) shape(1), of r] f(3,4) base r by auto
  show "prio k t \<le> p \<Longrightarrow> GetLockOwner k t = Some r \<Longrightarrow> prio k' r \<le> inherited_priority k' r"
    using inherited_mono [OF shape(1) f(1,3) base, of r] f(4) r by auto
qed

definition restored :: "kernel \<Rightarrow> kernel \<Rightarrow> bool" where
  "restored k k' \<longleftrightarrow> restorable k' \<and> (\<forall>u. inherits k' u) \<and> GetLockOwner k' = GetLockOwner k \<and> prio_frame k k'"

lemma restored_after_turn:
  assumes "restorable k" "restored (restore_turn cur t p k) k'"
  shows "restored k k'"
  using assms restore_turn_shape(3,5) [of k cur t p] prio_frame_trans by (auto simp: restored_def restorable_def)

text \<open>
  The priorities along the chain all move in one direction, and each turn moves one of finitely many: towards zero, or towards the
  own priorities of the threads.
\<close>

definition way_to_go :: "bool \<Rightarrow> kernel \<Rightarrow> thread \<Rightarrow> nat" where
  "way_to_go improving k u = (if improving then prio k u else base k u - prio k u)"

lemma restore_returns:
  assumes "restorable k" "finite S" "t \<in> S" "\<And>u r. u \<in> S \<Longrightarrow> GetLockOwner k u = Some r \<Longrightarrow> r \<in> S"
    "\<And>u. u \<noteq> t \<Longrightarrow> inherits k u" "if improving then inherited_priority k t \<le> prio k t else prio k t \<le> inherited_priority k t"
  shows "\<exists>k'. RestorePriority cur (Some t) k = Some k' \<and> restored k k'"
  using assms
proof (induction "\<Sum>u\<in>S. way_to_go improving k u" arbitrary: k t rule: less_induct)
  case less
  let ?p = "inherited_priority k t"
  have shape: "lock_shape k" "tree_shape k" using less.prems(1) by (simp_all add: restorable_def)
  show ?case
  proof (cases "?p = prio k t")
    case True
    then have "inherits k u" for u using less.prems(5) [of u] by (cases "u = t") (simp_all add: inherits_def)
    then show ?thesis using less.prems(1) True by (subst RestorePriority.simps) (auto simp: restored_def)
  next
    case False
    let ?k = "restore_turn cur t ?p k"
    note f = restore_turn_shape [OF shape, of cur t ?p]
    have i1: "inherits ?k u" if "GetLockOwner k t \<noteq> Some u" for u
      by (rule turn_inherits(1) [OF less.prems(1) _ refl that]) (rule less.prems(5))
    have i2: "inherited_priority ?k r \<le> prio ?k r" if "?p \<le> prio k t" "GetLockOwner k t = Some r" for r
      by (rule turn_inherits(2) [OF less.prems(1) _ refl that]) (rule less.prems(5))
    have i3: "prio ?k r \<le> inherited_priority ?k r" if "prio k t \<le> ?p" "GetLockOwner k t = Some r" for r
      by (rule turn_inherits(3) [OF less.prems(1) _ refl that]) (rule less.prems(5))
    have step: "RestorePriority cur (Some t) k = RestorePriority cur (GetLockOwner k t) ?k"
      using False by (subst RestorePriority.simps) simp
    show ?thesis
    proof (cases "GetLockOwner k t")
      case None
      then have "restored ?k ?k" using i1 restorable_turn [OF less.prems(1)] by (simp add: restored_def)
      then show ?thesis unfolding step None
        using restored_after_turn [OF less.prems(1)] by (subst RestorePriority.simps) auto
    next
      case (Some r)
      have "?p \<le> base k t" using le_inherited_priority [OF shape(1), of ?p t] by simp
      then have "way_to_go improving ?k t < way_to_go improving k t"
        using less.prems(6) False prio_frameD(1) [OF f(5)] by (auto simp: way_to_go_def f(4) split: if_splits)
      moreover have "way_to_go improving ?k u = way_to_go improving k u" if "u \<noteq> t" for u
        using that prio_frameD(1) [OF f(5)] by (simp add: way_to_go_def f(4))
      ultimately have "(\<Sum>u\<in>S. way_to_go improving ?k u) < (\<Sum>u\<in>S. way_to_go improving k u)"
        using less.prems(2,3) by (intro sum_strict_mono_ex1) (metis order.refl order.strict_implies_order)+
      then have "\<exists>k'. RestorePriority cur (Some r) ?k = Some k' \<and> restored ?k k'"
      proof (rule less.hyps)
        show "restorable ?k" by (rule restorable_turn [OF less.prems(1)])
        show "r \<in> S" by (rule less.prems(4) [OF less.prems(3) Some])
        show "\<And>u s. u \<in> S \<Longrightarrow> GetLockOwner ?k u = Some s \<Longrightarrow> s \<in> S" unfolding f(3) by (rule less.prems(4))
        show "inherits ?k u" if "u \<noteq> r" for u by (rule i1) (use that Some in simp)
        show "if improving then inherited_priority ?k r \<le> prio ?k r else prio ?k r \<le> inherited_priority ?k r"
          using less.prems(6) i2 [OF _ Some] i3 [OF _ Some] by simp
      qed (rule less.prems(2))
      then show ?thesis unfolding step Some using restored_after_turn [OF less.prems(1)] by blast
    qed
  qed
qed

theorem RestorePriority_restores:
  assumes "restorable k" "\<And>u. u \<noteq> t \<Longrightarrow> inherits k u"
  shows "\<exists>k'. RestorePriority cur (Some t) k = Some k' \<and> restored k k'"
proof -
  let ?W = "{u. GetLockOwner k u \<noteq> None}"
  let ?S = "insert t ((the \<circ> GetLockOwner k) ` ?W)"
  have "lock_shape k" using assms(1) by (simp add: restorable_def)
  then have "finite ?S" using owners_finite by simp
  moreover have "r \<in> ?S" if "GetLockOwner k u = Some r" for u r
    using that by (intro insertI2 image_eqI [where x = u]) simp_all
  ultimately show ?thesis
    using assms restore_returns [of k ?S t "inherited_priority k t \<le> prio k t" cur] by (simp split: if_splits)
qed

section \<open>Waiters\<close>

definition locks_inv :: "kernel \<Rightarrow> bool" where
  "locks_inv k \<longleftrightarrow> restorable k \<and> (\<forall>u. inherits k u)"

lemma locks_invD:
  assumes "locks_inv k"
  shows "lock_shape k" "tree_shape k" "queues_match k" "restorable k" "inherits k u"
    "least_priority (GetLockOwner k) (prio k) (base k) u"
  using assms inherits_iff [of k u] by (auto simp: locks_inv_def restorable_def)

lemma restoredD: "restored k k' \<Longrightarrow> locks_inv k' \<and> GetLockOwner k' = GetLockOwner k \<and> prio_frame k k'"
  by (simp add: restored_def locks_inv_def)

text \<open>Restoring where it may be needed: the condition decides between the two cases that the code has after each change.\<close>

lemma restore_if:
  assumes "restorable k" "\<And>u. u \<noteq> t \<Longrightarrow> inherits k u" "\<not> b \<Longrightarrow> inherits k t"
  shows "\<exists>k'. (if b then RestorePriority cur (Some t) k else Some k) = Some k' \<and> locks_inv k' \<and> GetLockOwner k' = GetLockOwner k \<and> prio_frame k k'"
proof (cases b)
  case True
  then show ?thesis using RestorePriority_restores [OF assms(1,2), of t cur] restoredD by auto
next
  case False
  then have "inherits k u" for u using assms(2) [of u] assms(3) by (cases "u = t") auto
  then show ?thesis using False assms(1) by (auto simp: locks_inv_def)
qed

lemma restorable_lock_only:
  assumes "lock_only k k'" "restorable k" "lock_shape k'"
    "\<And>u. waits k' u \<noteq> None \<Longrightarrow> waits k u \<noteq> None \<or> th_condvar_tree (thread_of k u) = None"
  shows "restorable k'"
  using assms lock_only_tree_shape [OF assms(1)] lock_only_queues [OF assms(1)] by (simp add: restorable_def)

lemma AddWaiterImpl_restorable:
  assumes inv: "locks_inv k" and t: "waits k t = None" "th_condvar_tree (thread_of k t) = None"
  shows "restorable (AddWaiterImpl owner t k)"
proof (rule restorable_lock_only [OF lock_only_ops(1) locks_invD(4) [OF inv] AddWaiterImpl_shape(1) [OF locks_invD(1) [OF inv] t(1)]])
  note a = AddWaiterImpl_shape [OF locks_invD(1) [OF inv] t(1), of owner]
  show "waits k u \<noteq> None \<or> th_condvar_tree (thread_of k u) = None" if "waits (AddWaiterImpl owner t k) u \<noteq> None" for u
    using that t(2) GetLockOwner_None [OF a(1), of u] GetLockOwner_None [OF locks_invD(1) [OF inv], of u] unfolding a(2) by (cases "u = t") auto
qed

lemma AddWaiter_ok:
  assumes inv: "locks_inv k" and t: "waits k t = None" "th_condvar_tree (thread_of k t) = None"
  shows "\<exists>k'. AddWaiter cur owner t k = Some k' \<and> locks_inv k' \<and> GetLockOwner k' = (GetLockOwner k)(t := Some owner) \<and> prio_frame k k'"
proof -
  let ?k = "AddWaiterImpl owner t k"
  note old = locks_invD [OF inv]
  note a = AddWaiterImpl_shape [OF old(1) t(1), of owner] and lo = lock_only_ops(1) [of k owner t]
  note same = lock_onlyD(1,2) [OF lo]
  have none: "GetLockOwner k t = None" using t(1) by (simp add: GetLockOwner_None [OF old(1)])
  have "restorable ?k" by (rule AddWaiterImpl_restorable [OF inv t])
  moreover have "inherits ?k u" if "u \<noteq> owner \<or> \<not> prio ?k t < prio ?k owner" for u
    unfolding inherits_iff [OF a(1)] same a(2) by (rule least_priority_add [OF old(6) none]) (use that same in auto)
  ultimately have "\<exists>k'. AddWaiter cur owner t k = Some k' \<and> locks_inv k' \<and> GetLockOwner k' = GetLockOwner ?k \<and> prio_frame ?k k'"
    using restore_if [of ?k owner "prio ?k t < prio ?k owner" cur] unfolding AddWaiter_def Let_def by blast
  then show ?thesis using prio_frame_trans [OF prio_frame_lock_only [OF lo]] unfolding a(2) by blast
qed

lemma RemoveWaiter_ok:
  assumes inv: "locks_inv k" and t: "GetLockOwner k t = Some owner"
  shows "\<exists>k'. RemoveWaiter cur owner t k = Some k' \<and> locks_inv k' \<and> GetLockOwner k' = (GetLockOwner k)(t := None) \<and> prio_frame k k'"
proof -
  let ?k = "RemoveWaiterImpl owner t k"
  note old = locks_invD [OF inv]
  note a = RemoveWaiterImpl_shape [OF old(1) t] and lo = lock_only_ops(2) [of k owner t]
  note same = lock_onlyD(1,2) [OF lo]
  have "restorable ?k"
  proof (rule restorable_lock_only [OF lo old(4) a(1)])
    show "waits k u \<noteq> None \<or> th_condvar_tree (thread_of k u) = None" if "waits ?k u \<noteq> None" for u
      using that GetLockOwner_None [OF a(1), of u] GetLockOwner_None [OF old(1), of u] unfolding a(2) by (cases "u = t") auto
  qed
  moreover have "inherits ?k u" if "u \<noteq> owner \<or> \<not> may_restore owner t ?k" for u
    unfolding inherits_iff [OF a(1)] same a(2) by (rule least_priority_remove [OF old(6) t]) (use that same in \<open>auto simp: may_restore_def\<close>)
  ultimately have "\<exists>k'. RemoveWaiter cur owner t k = Some k' \<and> locks_inv k' \<and> GetLockOwner k' = GetLockOwner ?k \<and> prio_frame ?k k'"
    using restore_if [of ?k owner "may_restore owner t ?k" cur] unfolding RemoveWaiter_def Let_def by blast
  then show ?thesis using prio_frame_trans [OF prio_frame_lock_only [OF lo]] unfolding a(2) by blast
qed

text \<open>Passing a lock: the next owner keeps inheriting, since the waiters that it takes over come behind it.\<close>

lemma least_priority_pass:
  assumes l: "\<And>u. least_priority own pr bs u" and T: "nx \<in> T" "\<And>w. w \<in> T \<Longrightarrow> own w = Some r \<and> pr nx \<le> pr w"
    and u: "u \<noteq> r \<or> \<not> (pr r = pr nx \<and> pr r < bs r)"
  shows "least_priority (\<lambda>w. if w = nx then None else if w \<in> T then Some nx else own w) pr bs u"
proof -
  note lu = l [of u, unfolded least_priority_def]
  have r: "own nx = Some r" using T by blast
  have "pr r \<le> pr nx" using l [of r] r by (simp add: least_priority_def)
  then have "pr u = bs u \<or> (\<exists>w. w \<noteq> nx \<and> (if w \<in> T then nx = u else own w = Some u) \<and> pr w = pr u)"
    using lu u T(2) r by (metis le_less_trans le_less less_irrefl option.inject)
  then show ?thesis using lu T(2) unfolding least_priority_def by auto
qed

lemma FindHeldLock_None:
  assumes shape: "lock_shape k" and f: "FindHeldLock key b owner k = None"
  shows "\<not> (GetLockOwner k w = Some owner \<and> th_address_key (thread_of k w) = key \<and> is_kernel k w = b)"
proof
  assume w: "GetLockOwner k w = Some owner \<and> th_address_key (thread_of k w) = key \<and> is_kernel k w = b"
  then obtain l i where l: "k_lock_infos k l = Some i" "lock_ok k l i" "w \<in> set (li_tree i)" "l \<in> set (held k owner)"
    using waiterE [OF shape] by metis
  then have "li_address_key i = key" "li_is_kernel_address_key i = b" using w by (auto simp: lock_ok_def)
  then show False using f l(1,4) by (auto simp: FindHeldLock_def find_None_iff)
qed

text \<open>
  What the release of a key by its owner does: with waiters of the key, the first of them gets the lock and the others wait for it.
\<close>

definition passed :: "kernel \<Rightarrow> thread \<Rightarrow> u64 \<Rightarrow> bool \<Rightarrow> thread option \<times> bool \<times> kernel \<Rightarrow> bool" where
  "passed k owner key b = (\<lambda>(nx, others, k').
     case nx of
       None \<Rightarrow> \<not> others \<and> k' = k \<and>
         (\<forall>w. \<not> (GetLockOwner k w = Some owner \<and> th_address_key (thread_of k w) = key \<and> is_kernel k w = b))
     | Some n \<Rightarrow>
         GetLockOwner k n = Some owner \<and> th_address_key (thread_of k n) = key \<and> is_kernel k n = b \<and>
         (\<forall>w. waits k w = waits k n \<longrightarrow> prio k n \<le> prio k w) \<and> (others \<longleftrightarrow> (\<exists>w. w \<noteq> n \<and> waits k w = waits k n)) \<and>
         GetLockOwner k' = (\<lambda>u. if u = n then None else if waits k u = waits k n then Some n else GetLockOwner k u))"

lemma pass_lock_restorable:
  assumes inv: "locks_inv k" and l: "l \<in> set (held k owner)" "k_lock_infos k l = Some i"
  shows "restorable (snd (snd (pass_lock owner l i k)))"
proof (rule restorable_lock_only [OF lock_only_ops(3) locks_invD(4) [OF inv] pass_lock_shape(1) [OF locks_invD(1) [OF inv] l]])
  note p = pass_lock_shape [OF locks_invD(1) [OF inv] l]
  show "waits k u \<noteq> None \<or> th_condvar_tree (thread_of k u) = None" if "waits (snd (snd (pass_lock owner l i k))) u \<noteq> None" for u
    using that GetLockOwner_None [OF p(1), of u] GetLockOwner_None [OF locks_invD(1) [OF inv], of u] unfolding p(3) by (auto split: if_splits)
qed

lemma RemoveWaiterByKey_ok:
  assumes inv: "locks_inv k"
  shows "\<exists>nx others k'. RemoveWaiterByKey cur owner key b k = Some (nx, others, k') \<and> locks_inv k' \<and> prio_frame k k' \<and>
    passed k owner key b (nx, others, k')"
proof (cases "FindHeldLock key b owner k")
  case None
  then show ?thesis using inv FindHeldLock_None [OF locks_invD(1) [OF inv] None] by (auto simp: RemoveWaiterByKey_def passed_def)
next
  case (Some l)
  note old = locks_invD [OF inv]
  obtain i where i: "l \<in> set (held k owner)" "k_lock_infos k l = Some i" "li_address_key i = key" "li_is_kernel_address_key i = b"
    by (rule FindHeldLock_Some [OF Some])
  have ok: "lock_ok k l i" by (rule lock_shapeD(1) [OF old(1) i(2)])
  define n where "n = hd (li_tree i)"
  define k1 where "k1 = snd (snd (pass_lock owner l i k))"
  obtain xs where xs: "li_tree i = n # xs" using ok by (cases "li_tree i") (simp_all add: n_def lock_ok_def)
  have t: "li_waiter_count i = length (li_tree i)" "li_tree i \<noteq> []" "distinct (li_tree i)"
    "\<And>w. w \<in> set (li_tree i) \<longleftrightarrow> waits k w = Some l" using ok by (auto simp: lock_ok_def)
  note p = pass_lock_shape [OF old(1) i(1,2), folded k1_def n_def]
  have nl: "waits k n = Some l" using t(4) [of n] xs by simp
  have "lock_order.ordered (k_threads k) (n # xs)" using ok by (simp add: lock_ok_def xs)
  then have best: "prio k n \<le> prio k w" if "waits k w = Some l" for w
    using that t(4) [of w] by (auto simp: xs lock_less_def not_less)
  have own: "GetLockOwner k w = Some owner" if "waits k w = Some l" for w
    using that i(1,2) t(4) [of w] GetLockOwner_iff [OF old(1), of w owner] by blast
  have lo: "lock_only k k1" unfolding k1_def by (rule lock_only_ops)
  note same = lock_onlyD(1,2) [OF lo]
  have own1: "GetLockOwner k1 = (\<lambda>w. if w = n then None else if w \<in> {w. waits k w = Some l} then Some n else GetLockOwner k w)"
    unfolding p(3) by (simp only: mem_Collect_eq)
  have "restorable k1" unfolding k1_def by (rule pass_lock_restorable [OF inv i(1,2)])
  moreover have "inherits k1 u" if "u \<noteq> owner \<or> \<not> may_restore owner n k1" for u
    unfolding inherits_iff [OF p(1)] same own1
    by (rule least_priority_pass [OF old(6)]) (use that nl best own same in \<open>auto simp: may_restore_def\<close>)
  ultimately obtain k2 where k2: "(if may_restore owner n k1 then RestorePriority cur (Some owner) k1 else Some k1) = Some k2"
    "locks_inv k2" "GetLockOwner k2 = GetLockOwner k1" "prio_frame k1 k2"
    using restore_if [of k1 owner "may_restore owner n k1" cur] by blast
  note f = pass_lock_fields(1,2) [OF i(2) t(1,2), of owner, folded n_def]
  have others: "tl (li_tree i) \<noteq> [] \<longleftrightarrow> (\<exists>w. w \<noteq> n \<and> waits k w = Some l)"
    using t(3) unfolding t(4) [symmetric] by (cases xs) (auto simp: xs)
  have "RemoveWaiterByKey cur owner key b k = Some (Some n, tl (li_tree i) \<noteq> [], k2)"
  proof -
    have "pass_lock owner l i k = (n, tl (li_tree i) \<noteq> [], k1)" using f by (simp add: k1_def prod_eq_iff)
    then show ?thesis using k2(1) by (simp add: RemoveWaiterByKey_def Some i(2))
  qed
  moreover have "passed k owner key b (Some n, tl (li_tree i) \<noteq> [], k2)"
    using ok i(3,4) best own [OF nl] others k2(3) unfolding passed_def p(3) prod.case option.case nl by (simp add: xs lock_ok_def)
  moreover have "prio_frame k k2" by (rule prio_frame_trans [OF prio_frame_lock_only [OF lo] k2(4)])
  ultimately show ?thesis using k2(2) by blast
qed

section \<open>Own priorities\<close>

text \<open>A change of a thread that the locks, the trees and the queues do not see, apart from its own priority.\<close>

lemma set_base_shape:
  fixes k :: kernel and t :: thread and v :: nat
  defines "k' \<equiv> set_thread t (\<lambda>th. th \<lparr> th_base_priority := v \<rparr>) k"
  shows "lock_shape k' = lock_shape k" "tree_shape k' = tree_shape k" "queues_match k' = queues_match k" "GetLockOwner k' = GetLockOwner k"
    "prio k' u = prio k u" "base k' u = (if u = t then v else base k u)"
proof -
  have s: "prio k' u = prio k u" "th_address_key (thread_of k' u) = th_address_key (thread_of k u)"
    "is_kernel k' u = is_kernel k u" "held k' u = held k u" "waits k' u = waits k u" "kernel_waiters k' u = kernel_waiters k u"
    "th_condvar_tree (thread_of k' u) = th_condvar_tree (thread_of k u)" "th_condvar_key (thread_of k' u) = th_condvar_key (thread_of k u)"
    "k_lock_infos k' = k_lock_infos k" "k_next_lock k' = k_next_lock k" "k_thread_trees k' = k_thread_trees k" for u
    by (simp_all add: k'_def set_thread_def)
  have l: "lock_less (k_threads k') = lock_less (k_threads k)" "condvar_less (k_threads k') = condvar_less (k_threads k)"
    by (rule lock_less_threads condvar_less_threads; simp add: s)+
  show own: "GetLockOwner k' = GetLockOwner k" by (simp add: fun_eq_iff GetLockOwner_def s)
  have "lock_ok k' = lock_ok k" by (simp add: fun_eq_iff lock_ok_def s l)
  then show "lock_shape k' = lock_shape k" by (simp add: lock_shape_def s own)
  show "tree_shape k' = tree_shape k" by (simp add: tree_shape_def s l)
  show "queues_match k' = queues_match k" unfolding k'_def by (rule queues_match_set_thread) (simp_all add: same_queueing_def)
  show "prio k' u = prio k u" by (rule s)
  show "base k' u = (if u = t then v else base k u)" by (simp add: k'_def)
qed

lemma SetBasePriority_ok:
  assumes inv: "locks_inv k"
  shows "\<exists>k'. SetBasePriority cur t v k = Some k' \<and> locks_inv k' \<and> GetLockOwner k' = GetLockOwner k \<and>
    prio_frame (set_thread t (\<lambda>th. th \<lparr> th_base_priority := v \<rparr>) k) k'"
proof -
  let ?k = "set_thread t (\<lambda>th. th \<lparr> th_base_priority := v \<rparr>) k"
  note old = locks_invD [OF inv] and s = set_base_shape [of t v k]
  have shape: "lock_shape ?k" using old(1) s(1) by simp
  have "restorable ?k" using old(4) s(1-3) by (simp add: restorable_def)
  moreover have "inherits ?k u" if "u \<noteq> t" for u
    using old(6) [of u] that unfolding inherits_iff [OF shape] least_priority_def s(4-6) by simp
  ultimately show ?thesis
    using RestorePriority_restores [of ?k t cur] restoredD [of ?k] s(4) unfolding SetBasePriority_def by auto
qed

lemma IncreaseBasePriority_ok:
  assumes "locks_inv k"
  shows "\<exists>k'. IncreaseBasePriority cur t v k = Some k' \<and> locks_inv k' \<and> GetLockOwner k' = GetLockOwner k \<and>
    base k' t = min v (base k t)"
  using SetBasePriority_ok [OF assms, of cur t v] assms prio_frameD(1) by (auto simp: IncreaseBasePriority_def set_base_shape(6))

end
