(* ===== verification/WaitingBehaviour.thy ===== *)
theory WaitingBehaviour
  imports PriorityInheritanceBehaviour
begin

text \<open>
  Threads that wait: what a thread waits for fits the queue that it waits in, the beginning, the end and the cancellation of a wait keep
  the locks and the trees in order, and a thread that does not wait may get keys and enter a tree.
\<close>

section \<open>Changes that the locks do not see\<close>

lemma locks_inv_view:
  assumes "locks_inv k" "locks_view k' = locks_view k" "queues_match k'"
  shows "locks_inv k'" "GetLockOwner k' = GetLockOwner k"
proof -
  show own: "GetLockOwner k' = GetLockOwner k" using locks_view_shapes [OF assms(2)] by blast
  show "locks_inv k'"
    using assms(1,3) locks_view_shapes [OF assms(2)] locks_viewD(1) [OF assms(2)]
    by (simp add: locks_inv_def restorable_def inherits_def)
qed

lemma locks_view_state [simp]:
  "locks_view (store_state t s k) = locks_view k" "locks_view (SetState t s k) = locks_view k"
  "locks_view (UpdateState t k) = locks_view k" "locks_view (Continue t k) = locks_view k"
proof -
  show s: "locks_view (store_state t s k) = locks_view k" for s
    unfolding store_state_def by (rule locks_view_set_thread) (simp add: lock_part_def)
  show "locks_view (SetState t s k) = locks_view k" "locks_view (UpdateState t k) = locks_view k"
    "locks_view (Continue t k) = locks_view k"
    by (simp_all add: SetState_def UpdateState_def Continue_def Let_def s)
qed

lemma locks_view_fields [simp]:
  "locks_view (set_thread t (\<lambda>th. th \<lparr> th_wait_queue := q \<rparr>) k) = locks_view k"
  "locks_view (set_thread t (\<lambda>th. th \<lparr> th_wait_result := r \<rparr>) k) = locks_view k"
  "locks_view (set_thread t (\<lambda>th. th \<lparr> th_suspend_request_flags := f th \<rparr>) k) = locks_view k"
  "locks_view (set_thread t (\<lambda>th. th \<lparr> th_suspend_allowed_flags := f th \<rparr>) k) = locks_view k"
  "locks_view (set_thread t (\<lambda>th. th \<lparr> th_pinned_waiter_list := w th \<rparr>) k) = locks_view k"
  by (rule locks_view_set_thread; simp add: lock_part_def)+

lemma locks_view_waiting [simp]:
  "locks_view (BeginWait t q k) = locks_view k" "locks_view (KThreadQueue_EndWait t r k) = locks_view k"
  "locks_view (EndWait t r k) = locks_view k"
  by (simp_all add: BeginWait_def KThreadQueue_EndWait_def EndWait_def)

section \<open>Queues of waiting threads\<close>

text \<open>What a thread with a queue waits for: the holder of a lock (with a key of the kernel or not), a tree, or neither.\<close>

fun of_arbiter :: "thread_tree \<Rightarrow> bool" where
  "of_arbiter (ConditionVariables p) = False"
| "of_arbiter (AddressArbiters p) = True"

definition queue_fits :: "thread_queue option \<Rightarrow> bool \<Rightarrow> bool \<Rightarrow> thread_tree option \<Rightarrow> bool" where
  "queue_fits wq for_lock kernel_key tree \<longleftrightarrow>
     (case wq of
        None \<Rightarrow> \<not> for_lock \<and> tree = None
      | Some ForKLightLock \<Rightarrow> for_lock \<and> kernel_key \<and> tree = None
      | Some ForKConditionVariableWaitForAddress \<Rightarrow> for_lock \<and> \<not> kernel_key \<and> tree = None
      | Some (ForKConditionVariableWaitConditionVariable tr) \<Rightarrow> \<not> of_arbiter tr \<and> \<not> kernel_key \<and> (if for_lock then tree = None else tree = Some tr)
      | Some (ForKAddressArbiter tr) \<Rightarrow> of_arbiter tr \<and> \<not> for_lock \<and> tree = Some tr
      | Some (ForKThreadSetProperty u) \<Rightarrow> \<not> for_lock \<and> tree = None
      | Some ForKSynchronizationObjectWait \<Rightarrow> \<not> for_lock \<and> tree = None)"

abbreviation wait_queue :: "kernel \<Rightarrow> thread \<Rightarrow> thread_queue option" where
  "wait_queue k t \<equiv> th_wait_queue (thread_of k t)"

abbreviation in_tree :: "kernel \<Rightarrow> thread \<Rightarrow> thread_tree option" where
  "in_tree k t \<equiv> th_condvar_tree (thread_of k t)"

definition state_fits :: "kernel \<Rightarrow> thread \<Rightarrow> bool" where
  "state_fits k t \<longleftrightarrow> (wait_queue k t \<noteq> None \<longleftrightarrow> GetState (thread_of k t) = Waiting)"

definition wait_ok :: "kernel \<Rightarrow> thread \<Rightarrow> bool" where
  "wait_ok k t \<longleftrightarrow> queue_fits (wait_queue k t) (GetLockOwner k t \<noteq> None) (is_kernel k t) (in_tree k t) \<and> state_fits k t"

definition waits_inv :: "kernel \<Rightarrow> bool" where
  "waits_inv k \<longleftrightarrow> locks_inv k \<and> (\<forall>t. wait_ok k t)"

text \<open>What the queue of a thread must fit to.\<close>

definition wait_view where
  "wait_view k t = (GetLockOwner k t \<noteq> None, in_tree k t, is_kernel k t, wait_queue k t, GetState (thread_of k t))"

lemma wait_ok_view: "wait_view k' t = wait_view k t \<Longrightarrow> wait_ok k' t = wait_ok k t"
  by (simp add: wait_ok_def state_fits_def wait_view_def)

lemma wait_view_frame:
  "prio_frame k k' \<Longrightarrow> (GetLockOwner k' t = None \<longleftrightarrow> GetLockOwner k t = None) \<Longrightarrow> wait_view k' t = wait_view k t"
  by (simp add: wait_view_def GetState_def prio_frameD)

lemma wait_ok_frame:
  "prio_frame k k' \<Longrightarrow> (GetLockOwner k' t = None \<longleftrightarrow> GetLockOwner k t = None) \<Longrightarrow> wait_ok k' t = wait_ok k t"
  by (rule wait_ok_view) (rule wait_view_frame)

lemma state_fits_frame: "prio_frame k k' \<Longrightarrow> state_fits k' t = state_fits k t"
  by (simp add: state_fits_def GetState_def prio_frameD)

lemma not_waiting:
  assumes "waits_inv k" "wait_queue k t = None"
  shows "GetLockOwner k t = None" "in_tree k t = None" "waits k t = None"
proof -
  have "wait_ok k t" using assms(1) by (simp add: waits_inv_def)
  then show "GetLockOwner k t = None" "in_tree k t = None" using assms(2) by (simp_all add: wait_ok_def queue_fits_def)
  then show "waits k t = None" using assms(1) locks_invD(1) GetLockOwner_None by (auto simp: waits_inv_def)
qed

section \<open>Beginning and ending a wait\<close>

interpretation queue_view: link_blind th_wait_queue
  by unfold_locales simp

lemma SetState_wait_fields:
  "wait_queue (SetState t s k) u = wait_queue k u"
  "GetState (thread_of (SetState t s k) u) = (if u = t then s AND ThreadState_Mask else GetState (thread_of k u))"
proof -
  have "projected th_wait_queue (k_threads (SetState t s k)) = projected th_wait_queue (k_threads k)"
    by (simp add: SetState_def Let_def store_state_def projected_upd)
  then show "wait_queue (SetState t s k) u = wait_queue k u" by (simp add: projected_def fun_eq_iff)
  show "GetState (thread_of (SetState t s k) u) = (if u = t then s AND ThreadState_Mask else GetState (thread_of k u))"
    by (auto simp: SetState_fields GetState_def bit_eq_iff bit_simps)
qed

lemma waiting_fields:
  "wait_queue (BeginWait t q k) u = (if u = t then Some q else wait_queue k u)"
  "GetState (thread_of (BeginWait t q k) u) = (if u = t then Waiting else GetState (thread_of k u))"
  "wait_queue (KThreadQueue_EndWait t r k) u = (if u = t then None else wait_queue k u)"
  "GetState (thread_of (KThreadQueue_EndWait t r k) u) = (if u = t then Runnable else GetState (thread_of k u))"
proof -
  have m: "Waiting AND ThreadState_Mask = Waiting" "Runnable AND ThreadState_Mask = Runnable"
    by (simp_all add: Waiting_def Runnable_def ThreadState_Mask_def)
  have g: "GetState (th \<lparr> th_wait_queue := wq \<rparr>) = GetState th" "GetState (th \<lparr> th_wait_result := r \<rparr>) = GetState th" for th wq
    by (simp_all add: GetState_def)
  show "wait_queue (BeginWait t q k) u = (if u = t then Some q else wait_queue k u)"
    "GetState (thread_of (BeginWait t q k) u) = (if u = t then Waiting else GetState (thread_of k u))"
    using SetState_wait_fields [of t Waiting k u] by (cases "u = t"; simp add: BeginWait_def g m)+
  show "wait_queue (KThreadQueue_EndWait t r k) u = (if u = t then None else wait_queue k u)"
    "GetState (thread_of (KThreadQueue_EndWait t r k) u) = (if u = t then Runnable else GetState (thread_of k u))"
    using SetState_wait_fields [of t Runnable "set_thread t (\<lambda>th. th \<lparr> th_wait_result := r \<rparr>) k" u]
    by (cases "u = t"; simp add: KThreadQueue_EndWait_def g m)+
qed

text \<open>A thread that has left what it waited for, and whose wait is about to end.\<close>

definition detached :: "kernel \<Rightarrow> thread \<Rightarrow> bool" where
  "detached k t \<longleftrightarrow> locks_inv k \<and> (\<forall>u. u \<noteq> t \<longrightarrow> wait_ok k u) \<and> GetLockOwner k t = None \<and> in_tree k t = None \<and> state_fits k t"

lemma queue_end_ok:
  assumes "detached k t"
  shows "waits_inv (KThreadQueue_EndWait t r k)"
proof -
  let ?k = "KThreadQueue_EndWait t r k"
  have d: "locks_inv k" "\<And>u. u \<noteq> t \<Longrightarrow> wait_ok k u" "GetLockOwner k t = None" "in_tree k t = None" using assms by (auto simp: detached_def)
  have v: "locks_view ?k = locks_view k" by simp
  note l = locks_inv_view [OF d(1) v waiting_ok(2) [OF locks_invD(3) [OF d(1)]]]
  note f = waiting_fields(3,4) [of t r k] and lv = locks_viewD(4,8) [OF v]
  have "wait_ok ?k u" for u
  proof (cases "u = t")
    case True
    have "Runnable \<noteq> Waiting" by (simp add: Runnable_def Waiting_def)
    then show ?thesis using True d(3,4) unfolding wait_ok_def state_fits_def f lv l(2) by (simp add: queue_fits_def)
  next
    case False
    then show ?thesis using d(2) [OF False] wait_ok_view [of ?k u k] unfolding wait_view_def f lv l(2) by simp
  qed
  then show ?thesis using l(1) by (simp add: waits_inv_def)
qed

lemma EndWait_ok:
  assumes "detached k t"
  shows "waits_inv (EndWait t r k)" "GetLockOwner (EndWait t r k) = GetLockOwner k"
proof -
  show "waits_inv (EndWait t r k)"
  proof (cases "wait_queue k t")
    case None
    then have "wait_ok k t" using assms by (simp add: detached_def wait_ok_def queue_fits_def)
    then show ?thesis using None assms by (auto simp: EndWait_def waits_inv_def detached_def)
  next
    case (Some q)
    then have "GetState (thread_of k t) = Waiting" using assms by (simp add: detached_def state_fits_def)
    then show ?thesis using Some queue_end_ok [OF assms] by (simp add: EndWait_def)
  qed
  show "GetLockOwner (EndWait t r k) = GetLockOwner k" using locks_view_shapes(1) [of "EndWait t r k" k] by simp
qed

lemma BeginWait_ok:
  assumes inv: "locks_inv k" "\<And>u. u \<noteq> t \<Longrightarrow> wait_ok k u"
    and q: "queue_fits (Some q) (GetLockOwner k t \<noteq> None) (is_kernel k t) (in_tree k t)"
  shows "waits_inv (BeginWait t q k)"
proof -
  let ?k = "BeginWait t q k"
  have v: "locks_view ?k = locks_view k" by simp
  note l = locks_inv_view [OF inv(1) v waiting_ok(1) [OF locks_invD(3) [OF inv(1)]]]
  note f = waiting_fields(1,2) [of t q k] and lv = locks_viewD(4,8) [OF v]
  have "wait_ok ?k u" for u
  proof (cases "u = t")
    case True
    then show ?thesis using q unfolding wait_ok_def state_fits_def f lv l(2) by simp
  next
    case False
    then show ?thesis using inv(2) [OF False] wait_ok_view [of ?k u k] unfolding wait_view_def f lv l(2) by simp
  qed
  then show ?thesis using l(1) by (simp add: waits_inv_def)
qed

section \<open>Threads that do not wait\<close>

text \<open>The keys of a thread that does not wait for a lock do not matter to the locks.\<close>

lemma unkeyed_change:
  assumes shape: "lock_shape k" and t: "waits k t = None"
    and same: "k_lock_infos k' = k_lock_infos k" "k_next_lock k' = k_next_lock k" "\<And>u. prio k' u = prio k u" "\<And>u. base k' u = base k u"
      "\<And>u. held k' u = held k u" "\<And>u. waits k' u = waits k u" "\<And>u. kernel_waiters k' u = kernel_waiters k u"
    and keys: "\<And>u. u \<noteq> t \<Longrightarrow> th_address_key (thread_of k' u) = th_address_key (thread_of k u) \<and> is_kernel k' u = is_kernel k u"
  shows "lock_shape k'" "GetLockOwner k' = GetLockOwner k" "inherits k' u = inherits k u"
proof -
  show own: "GetLockOwner k' = GetLockOwner k" by (simp add: fun_eq_iff GetLockOwner_def same)
  have less: "lock_less (k_threads k') = lock_less (k_threads k)" by (rule lock_less_threads) (rule same(3))
  have "lock_ok k' l i" if "lock_ok k l i" for l i
  proof -
    have "t \<notin> set (li_tree i)" using that t by (simp add: lock_ok_def)
    then have "\<forall>u\<in>set (li_tree i). th_address_key (thread_of k' u) = li_address_key i \<and> is_kernel k' u = li_is_kernel_address_key i"
      using that keys by (metis lock_ok_def)
    then show ?thesis using that unfolding lock_ok_def same less by blast
  qed
  moreover have "{v. GetLockOwner k v = Some u \<and> is_kernel k' v} = {v. GetLockOwner k v = Some u \<and> is_kernel k v}" for u
    using keys GetLockOwner_None [OF shape, of t] t by (metis option.distinct(1))
  ultimately show "lock_shape k'" using shape unfolding lock_shape_def same own by simp
  have "inherited_priority k' u = inherited_priority k u" by (simp add: inherited_priority_def same cong: option.case_cong)
  then show "inherits k' u = inherits k u" by (simp add: inherits_def same)
qed

lemma queues_match_trees [simp]: "queues_match (k \<lparr> k_thread_trees := x \<rparr>) = queues_match k"
proof -
  have "sched_ok (k \<lparr> k_thread_trees := x \<rparr>) L = sched_ok k L" for L by (rule sched_ok_cong) (auto simp: same_queueing_def)
  then show ?thesis by (simp add: queues_match_def)
qed

text \<open>A thread without its keys and its tree.\<close>

definition unkeyed :: "KThread \<Rightarrow> KThread" where
  "unkeyed th = th \<lparr> th_condvar_tree := None, th_condvar_key := 0, th_address_key := 0, th_address_key_value := 0,
     th_is_kernel_address_key := False \<rparr>"

lemma unkeyed_eqD:
  assumes "unkeyed th' = unkeyed th"
  shows "th_priority th' = th_priority th" "th_base_priority th' = th_base_priority th"
    "th_held_lock_info_list th' = th_held_lock_info_list th" "th_waiting_lock_info th' = th_waiting_lock_info th"
    "th_num_kernel_waiters th' = th_num_kernel_waiters th" "th_wait_queue th' = th_wait_queue th" "GetState th' = GetState th"
    "th_entries th' = th_entries th" "same_queueing th th'"
proof -
  have f: "f th' = f th" if "\<And>th. f (unkeyed th) = f th" for f :: "KThread \<Rightarrow> 'a"
    using assms that [of th] that [of th'] by simp
  show "th_priority th' = th_priority th" "th_base_priority th' = th_base_priority th"
    "th_held_lock_info_list th' = th_held_lock_info_list th" "th_waiting_lock_info th' = th_waiting_lock_info th"
    "th_num_kernel_waiters th' = th_num_kernel_waiters th" "th_wait_queue th' = th_wait_queue th" "GetState th' = GetState th"
    "th_entries th' = th_entries th"
    by (rule f; simp add: unkeyed_def GetState_def)+
  have "(\<lambda>th. (th_affinity th, th_core_id th, th_priority th, th_is_dummy th, th_state th)) th' =
      (\<lambda>th. (th_affinity th, th_core_id th, th_priority th, th_is_dummy th, th_state th)) th"
    by (rule f) (simp add: unkeyed_def)
  then show "same_queueing th th'" by (simp add: same_queueing_def)
qed

lemma rekeyed:
  assumes inv: "locks_inv k" and t: "GetLockOwner k t = None" and h: "\<And>th. unkeyed (h th) = unkeyed th"
  shows "lock_shape (set_thread t h k)" "GetLockOwner (set_thread t h k) = GetLockOwner k" "inherits (set_thread t h k) u"
    "queues_match (set_thread t h k)" "wait_queue (set_thread t h k) u = wait_queue k u"
    "GetState (thread_of (set_thread t h k) u) = GetState (thread_of k u)" "prio (set_thread t h k) u = prio k u"
    "waits (set_thread t h k) u = waits k u"
proof -
  note old = locks_invD [OF inv] and same = unkeyed_eqD [OF h]
  have w: "waits k t = None" using t GetLockOwner_None [OF old(1)] by simp
  have fs: "prio (set_thread t h k) u = prio k u" "base (set_thread t h k) u = base k u" "held (set_thread t h k) u = held k u"
    "waits (set_thread t h k) u = waits k u" "kernel_waiters (set_thread t h k) u = kernel_waiters k u"
    "wait_queue (set_thread t h k) u = wait_queue k u" "GetState (thread_of (set_thread t h k) u) = GetState (thread_of k u)" for u
    by (simp_all add: same)
  have st: "k_lock_infos (set_thread t h k) = k_lock_infos k" "k_next_lock (set_thread t h k) = k_next_lock k" by (simp_all add: set_thread_def)
  have keys: "u \<noteq> t \<Longrightarrow> th_address_key (thread_of (set_thread t h k) u) = th_address_key (thread_of k u) \<and>
      is_kernel (set_thread t h k) u = is_kernel k u" for u by simp
  note c = unkeyed_change [OF old(1) w st fs(1-5) keys]
  show "lock_shape (set_thread t h k)" by (rule c(1))
  show "GetLockOwner (set_thread t h k) = GetLockOwner k" by (rule c(2))
  show "inherits (set_thread t h k) u" using c(3) [of u] old(5) by simp
  show "queues_match (set_thread t h k)" using old(3) queues_match_set_thread [of h t k, OF same(8,9)] by simp
  show "wait_queue (set_thread t h k) u = wait_queue k u" "GetState (thread_of (set_thread t h k) u) = GetState (thread_of k u)"
    "prio (set_thread t h k) u = prio k u" "waits (set_thread t h k) u = waits k u"
    by (rule fs)+
qed

lemma locks_inv_trees:
  assumes "lock_shape k" "queues_match k" "\<And>u. inherits k u" "tree_shape (k \<lparr> k_thread_trees := x \<rparr>)"
  shows "locks_inv (k \<lparr> k_thread_trees := x \<rparr>)" "GetLockOwner (k \<lparr> k_thread_trees := x \<rparr>) = GetLockOwner k"
proof -
  let ?k = "k \<lparr> k_thread_trees := x \<rparr>"
  show own: "GetLockOwner ?k = GetLockOwner k" by (simp add: fun_eq_iff GetLockOwner_def)
  have "lock_ok ?k = lock_ok k" by (simp add: fun_eq_iff lock_ok_def)
  then have "lock_shape ?k" using assms(1) by (simp add: lock_shape_def own)
  moreover have "inherits ?k u" for u using assms(3) [of u] by (simp add: inherits_def inherited_priority_def cong: option.case_cong)
  ultimately show "locks_inv ?k" using assms(2,4) by (simp add: locks_inv_def restorable_def)
qed

text \<open>A thread that does not wait gets other keys, enters a tree, and leaves it.\<close>

lemma rekey_ok:
  assumes inv: "locks_inv k" and t: "GetLockOwner k t = None" "in_tree k t = None"
    and h: "\<And>th. unkeyed (h th) = unkeyed th" "\<And>th. th_condvar_tree (h th) = th_condvar_tree th" "\<And>th. th_condvar_key (h th) = th_condvar_key th"
  shows "locks_inv (set_thread t h k)"
proof -
  let ?k = "set_thread t h k"
  note c = rekeyed [OF inv t(1) h(1)]
  have cv: "in_tree ?k u = in_tree k u" "th_condvar_key (thread_of ?k u) = th_condvar_key (thread_of k u)" for u by (simp_all add: h)
  have "condvar_less (k_threads ?k) = condvar_less (k_threads k)" by (rule condvar_less_threads) (rule c(7) cv(2))+
  moreover have "k_thread_trees ?k = k_thread_trees k" by (simp add: set_thread_def)
  ultimately have "tree_shape ?k" using locks_invD(2) [OF inv] unfolding tree_shape_def cv c(8) by simp
  then show ?thesis using c(1,3,4) by (simp add: locks_inv_def restorable_def)
qed

lemma tree_shapeD:
  assumes "tree_shape k"
  shows "distinct (k_thread_trees k tr)" "condvar_order.ordered (k_threads k) (k_thread_trees k tr)"
    "t \<in> set (k_thread_trees k tr) \<longleftrightarrow> in_tree k t = Some tr" "in_tree k t \<noteq> None \<Longrightarrow> waits k t = None"
  using assms by (simp_all add: tree_shape_def)

lemma ordered_cong:
  assumes "\<And>x. x \<in> set xs \<Longrightarrow> th_condvar_key (ths' x) = th_condvar_key (ths x) \<and> th_priority (ths' x) = th_priority (ths x)"
  shows "condvar_order.ordered ths' xs = condvar_order.ordered ths xs"
  using assms by (intro sorted_wrt_cong_set) (simp add: condvar_less_def)

lemma enter_tree_ok:
  assumes inv: "locks_inv k" and t: "GetLockOwner k t = None" "in_tree k t = None"
    and h: "\<And>th. unkeyed (h th) = unkeyed th" "\<And>th. th_condvar_tree (h th) = Some tr"
  shows "locks_inv (tree_insert_thread tr t (set_thread t h k))"
    "GetLockOwner (tree_insert_thread tr t (set_thread t h k)) = GetLockOwner k"
proof -
  let ?k = "set_thread t h k"
  note c = rekeyed [OF inv t(1) h(1)] and old = tree_shapeD [OF locks_invD(2) [OF inv]]
  let ?x = "(k_thread_trees k)(tr := insert_ordered (condvar_less (k_threads ?k)) t (k_thread_trees k tr))"
  have k': "tree_insert_thread tr t ?k = ?k \<lparr> k_thread_trees := ?x \<rparr>" by (simp add: tree_insert_thread_def set_thread_def)
  have cv: "in_tree ?k u = (if u = t then Some tr else in_tree k u)" "u \<noteq> t \<Longrightarrow> thread_of ?k u = thread_of k u" for u by (simp_all add: h)
  have out: "t \<notin> set (k_thread_trees k r)" for r using old(3) t(2) by simp
  have ord: "condvar_order.ordered (k_threads ?k) (k_thread_trees k r)" for r
    using old(2) [of r] ordered_cong [of "k_thread_trees k r" "k_threads ?k" "k_threads k"] cv(2) out [of r] by metis
  have w: "waits ?k u = None" if "in_tree ?k u \<noteq> None" for u
    using that t(1) old(4) [of u] GetLockOwner_None [OF locks_invD(1) [OF inv], of t] unfolding c(8) cv(1) by (auto split: if_splits)
  have "tree_shape (?k \<lparr> k_thread_trees := ?x \<rparr>)"
    using old(1,3) out ord condvar_order.ordered_insert [OF ord [of tr], of t] w t(2)
    by (auto simp: tree_shape_def cv(1) simp del: kernel_updates split: if_splits)
  from locks_inv_trees [OF c(1,4) c(3) this] show "locks_inv (tree_insert_thread tr t ?k)" "GetLockOwner (tree_insert_thread tr t ?k) = GetLockOwner k"
    using k' c(2) by simp_all
qed

lemma leave_tree_ok:
  assumes inv: "locks_inv k" and t: "in_tree k t = Some tr"
  shows "locks_inv (ClearConditionVariable t (tree_erase_thread tr t k))"
    "GetLockOwner (ClearConditionVariable t (tree_erase_thread tr t k)) = GetLockOwner k"
proof -
  let ?h = "\<lambda>th. th \<lparr> th_condvar_tree := None \<rparr>"
  let ?k = "set_thread t ?h k" and ?x = "(k_thread_trees k)(tr := remove1 t (k_thread_trees k tr))"
  note old = tree_shapeD [OF locks_invD(2) [OF inv]]
  have own: "GetLockOwner k t = None" using old(4) [of t] t GetLockOwner_None [OF locks_invD(1) [OF inv], of t] by simp
  have h: "unkeyed (?h th) = unkeyed th" for th by (simp add: unkeyed_def)
  note c = rekeyed [OF inv own h]
  have k': "ClearConditionVariable t (tree_erase_thread tr t k) = ?k \<lparr> k_thread_trees := ?x \<rparr>"
    by (simp add: ClearConditionVariable_def tree_erase_thread_def set_thread_def)
  have cv: "in_tree ?k u = (if u = t then None else in_tree k u)" "th_condvar_key (thread_of ?k u) = th_condvar_key (thread_of k u)" for u
    by simp_all
  have ord: "condvar_order.ordered (k_threads ?k) xs = condvar_order.ordered (k_threads k) xs" for xs
    by (rule ordered_cong) (simp add: c(7))
  have "tree_shape (?k \<lparr> k_thread_trees := ?x \<rparr>)"
    using old t condvar_order.ordered_remove [OF old(2) [of tr], of t]
    by (auto simp: tree_shape_def cv(1) ord c(8) simp del: kernel_updates split: if_splits)
  from locks_inv_trees [OF c(1,4) c(3) this]
  show "locks_inv (ClearConditionVariable t (tree_erase_thread tr t k))"
    "GetLockOwner (ClearConditionVariable t (tree_erase_thread tr t k)) = GetLockOwner k"
    using k' c(2) by simp_all
qed

section \<open>Cancelling a wait\<close>

text \<open>All threads but one are in order, and the state of that one fits to its queue.\<close>

definition all_but :: "thread \<Rightarrow> kernel \<Rightarrow> bool" where
  "all_but t k \<longleftrightarrow> locks_inv k \<and> (\<forall>u. u \<noteq> t \<longrightarrow> wait_ok k u) \<and> state_fits k t"

lemma waits_inv_all_but: "waits_inv k \<Longrightarrow> all_but t k"
  by (simp add: waits_inv_def all_but_def wait_ok_def)

lemma detached_iff: "detached k t \<longleftrightarrow> all_but t k \<and> GetLockOwner k t = None \<and> in_tree k t = None"
  by (auto simp: detached_def all_but_def)

lemma all_but_step:
  assumes "all_but t k" "locks_inv k'" "\<And>u. u \<noteq> t \<Longrightarrow> wait_view k' u = wait_view k u"
    "wait_queue k' t = wait_queue k t" "GetState (thread_of k' t) = GetState (thread_of k t)"
  shows "all_but t k'"
  using assms wait_ok_view [OF assms(3)] by (simp add: all_but_def state_fits_def)

lemma all_but_frame:
  assumes "all_but t k" "locks_inv k'" "prio_frame k k'" "\<And>u. u \<noteq> t \<Longrightarrow> GetLockOwner k' u = None \<longleftrightarrow> GetLockOwner k u = None"
  shows "all_but t k'"
  by (rule all_but_step [OF assms(1,2)]) (use assms(4) wait_view_frame [OF assms(3)] prio_frameD(2,3) [OF assms(3)] in \<open>auto simp: GetState_def\<close>)

lemma leave_lock_ok:
  assumes "locks_inv k"
  shows "\<exists>k'. leave_lock cur t k = Some k' \<and> locks_inv k' \<and> GetLockOwner k' = (GetLockOwner k)(t := None) \<and> prio_frame k k'"
proof (cases "GetLockOwner k t")
  case None
  then have "(GetLockOwner k)(t := None) = GetLockOwner k" by auto
  then show ?thesis using None assms by (simp add: leave_lock_def)
next
  case (Some owner)
  then show ?thesis using RemoveWaiter_ok [OF assms Some, of cur] by (simp add: leave_lock_def)
qed

lemma leave_owner_lock:
  "leave_owner cur t k = (if GetLockOwner k t = None then None else leave_lock cur t k)"
  by (simp add: leave_owner_def leave_lock_def split: option.splits)

lemma leave_lock_all_but:
  assumes "all_but t k"
  shows "\<exists>k'. leave_lock cur t k = Some k' \<and> all_but t k' \<and> GetLockOwner k' t = None \<and> in_tree k' t = in_tree k t"
proof -
  have "locks_inv k" using assms by (simp add: all_but_def)
  from leave_lock_ok [OF this, of cur t] obtain k' where k': "leave_lock cur t k = Some k'" "locks_inv k'"
    "GetLockOwner k' = (GetLockOwner k)(t := None)" "prio_frame k k'" by blast
  moreover have "all_but t k'" by (rule all_but_frame [OF assms k'(2,4)]) (simp add: k'(3))
  ultimately show ?thesis using prio_frameD(4) [OF k'(4), of t] by simp
qed

lemma left_tree_fields:
  fixes k :: kernel and t :: thread and tr :: thread_tree
  defines "k' \<equiv> ClearConditionVariable t (tree_erase_thread tr t k)"
  shows "in_tree k' u = (if u = t then None else in_tree k u)" "is_kernel k' u = is_kernel k u" "wait_queue k' u = wait_queue k u"
    "GetState (thread_of k' u) = GetState (thread_of k u)" "th_condvar_key (thread_of k' u) = th_condvar_key (thread_of k u)"
    "k_thread_trees k' = (k_thread_trees k)(tr := remove1 t (k_thread_trees k tr))" "k_memory k' = k_memory k"
    "th_address_key (thread_of k' u) = th_address_key (thread_of k u)"
    "th_address_key_value (thread_of k' u) = th_address_key_value (thread_of k u)"
    "th_wait_result (thread_of k' u) = th_wait_result (thread_of k u)"
  by (simp_all add: k'_def ClearConditionVariable_def tree_erase_thread_def set_thread_def GetState_def)

lemma leave_tree_all_but:
  assumes "all_but t k" "in_tree k t = Some tr"
  shows "all_but t (ClearConditionVariable t (tree_erase_thread tr t k))"
proof -
  have "locks_inv k" using assms(1) by (simp add: all_but_def)
  note l = leave_tree_ok [OF this assms(2)] and f = left_tree_fields [of t tr k]
  show ?thesis by (rule all_but_step [OF assms(1) l(1)]) (simp_all add: wait_view_def f l(2))
qed

lemma leave_tree_detached:
  assumes "all_but t k" "GetLockOwner k t = None" "in_tree k t = None \<or> in_tree k t = Some tr"
  shows "detached (leave_tree tr t k) t"
proof (cases "in_tree k t")
  case None
  then show ?thesis using assms(1,2) by (simp add: leave_tree_def detached_iff)
next
  case (Some tr')
  then have t: "in_tree k t = Some tr" using assms(3) by simp
  have "locks_inv k" using assms(1) by (simp add: all_but_def)
  note l = leave_tree_ok(2) [OF this t]
  have "leave_tree tr t k = ClearConditionVariable t (tree_erase_thread tr t k)" using t by (simp add: leave_tree_def)
  then show ?thesis using leave_tree_all_but [OF assms(1) t] l assms(2) left_tree_fields(1) [of t tr k t] by (simp add: detached_iff)
qed

lemma pinned_list_view:
  "wait_view (set_thread u (\<lambda>th. th \<lparr> th_pinned_waiter_list := f th \<rparr>) k) t = wait_view k t"
  "queues_match (set_thread u (\<lambda>th. th \<lparr> th_pinned_waiter_list := f th \<rparr>) k) = queues_match k"
proof -
  have "GetLockOwner (set_thread u (\<lambda>th. th \<lparr> th_pinned_waiter_list := f th \<rparr>) k) = GetLockOwner k"
    by (rule locks_view_shapes(1)) simp
  then show "wait_view (set_thread u (\<lambda>th. th \<lparr> th_pinned_waiter_list := f th \<rparr>) k) t = wait_view k t"
    by (simp add: wait_view_def GetState_def)
  show "queues_match (set_thread u (\<lambda>th. th \<lparr> th_pinned_waiter_list := f th \<rparr>) k) = queues_match k"
    by (rule queues_match_set_thread) (simp_all add: same_queueing_def)
qed

lemma queue_CancelWait_ok:
  assumes inv: "waits_inv k" and q: "wait_queue k t = Some q"
  shows "\<exists>k'. queue_CancelWait cur t r q k = Some k' \<and> waits_inv k' \<and> wait_queue k' t = None"
proof -
  note a = waits_inv_all_but [OF inv, of t]
  from leave_lock_all_but [OF a, of cur] obtain k1 where k1: "leave_lock cur t k = Some k1" "all_but t k1" "GetLockOwner k1 t = None"
    "in_tree k1 t = in_tree k t" by blast
  have fits: "queue_fits (Some q) (GetLockOwner k t \<noteq> None) (is_kernel k t) (in_tree k t)"
    using inv q by (metis waits_inv_def wait_ok_def)
  have "\<exists>k2. queue_CancelWait cur t r q k = Some (KThreadQueue_EndWait t r k2) \<and> detached k2 t"
  proof (cases q)
    case ForKLightLock
    then show ?thesis using k1 fits by (intro exI [of _ k1]) (simp add: queue_CancelWait_def queue_fits_def detached_iff)
  next
    case ForKConditionVariableWaitForAddress
    then show ?thesis using k1 fits
      by (intro exI [of _ k1]) (simp add: queue_CancelWait_def leave_owner_lock queue_fits_def detached_iff)
  next
    case (ForKConditionVariableWaitConditionVariable tr)
    then have "in_tree k1 t = None \<or> in_tree k1 t = Some tr" using fits k1(4) by (auto simp: queue_fits_def split: if_splits)
    from leave_tree_detached [OF k1(2,3) this] show ?thesis
      using k1(1) ForKConditionVariableWaitConditionVariable by (auto simp: queue_CancelWait_def)
  next
    case (ForKAddressArbiter tr)
    then have "GetLockOwner k t = None" "in_tree k t = None \<or> in_tree k t = Some tr" using fits by (simp_all add: queue_fits_def)
    from leave_tree_detached [OF a this] show ?thesis using ForKAddressArbiter by (auto simp: queue_CancelWait_def)
  next
    case (ForKThreadSetProperty u)
    let ?k = "set_thread u (\<lambda>th. th \<lparr> th_pinned_waiter_list := remove1 t (th_pinned_waiter_list th) \<rparr>) k"
    note v = pinned_list_view [of u "\<lambda>th. remove1 t (th_pinned_waiter_list th)" k]
    have li: "locks_inv k" using inv by (simp add: waits_inv_def)
    have "locks_inv ?k" by (rule locks_inv_view(1) [OF li]) (simp_all add: v(2) locks_invD(3) [OF li])
    then have "all_but t ?k" by (rule all_but_step [OF a]) (use v(1) in \<open>simp_all add: wait_view_def\<close>)
    moreover have "GetLockOwner ?k t = None" "in_tree ?k t = None"
      using fits v(1) [of t] ForKThreadSetProperty by (simp_all add: queue_fits_def wait_view_def)
    ultimately show ?thesis using ForKThreadSetProperty by (intro exI [of _ ?k]) (simp add: queue_CancelWait_def detached_iff)
  next
    case ForKSynchronizationObjectWait
    then show ?thesis using a fits by (intro exI [of _ k]) (simp add: queue_CancelWait_def queue_fits_def detached_iff)
  qed
  then show ?thesis using queue_end_ok waiting_fields(3) by fastforce
qed

lemma CancelWait_ok:
  assumes inv: "waits_inv k"
  shows "\<exists>k'. CancelWait cur t r k = Some k' \<and> waits_inv k' \<and> wait_queue k' t = None"
proof -
  have s: "wait_queue k t \<noteq> None \<longleftrightarrow> GetState (thread_of k t) = Waiting" using inv by (simp add: waits_inv_def wait_ok_def state_fits_def)
  show ?thesis
  proof (cases "wait_queue k t")
    case None
    then show ?thesis using s inv by (simp add: CancelWait_def)
  next
    case (Some q)
    then show ?thesis using s queue_CancelWait_ok [OF inv Some, of cur r] by (simp add: CancelWait_def)
  qed
qed

text \<open>A change of an own priority is not seen by the queues of waiting threads.\<close>

lemma waits_inv_frame:
  assumes "waits_inv k" "locks_inv k'" "prio_frame k k'" "GetLockOwner k' = GetLockOwner k"
  shows "waits_inv k'"
  using assms wait_ok_frame [OF assms(3)] by (simp add: waits_inv_def)

lemma SetBasePriority_waits:
  assumes inv: "waits_inv k"
  shows "\<exists>k'. SetBasePriority cur t v k = Some k' \<and> waits_inv k' \<and> base k' t = v"
proof -
  let ?k = "set_thread t (\<lambda>th. th \<lparr> th_base_priority := v \<rparr>) k"
  have li: "locks_inv k" using inv by (simp add: waits_inv_def)
  from SetBasePriority_ok [OF li, of cur t v] obtain k' where k': "SetBasePriority cur t v k = Some k'" "locks_inv k'"
    "GetLockOwner k' = GetLockOwner k" "prio_frame ?k k'" by blast
  have "wait_view ?k u = wait_view k u" for u by (simp add: wait_view_def set_base_shape(4) GetState_def)
  moreover have "wait_view k' u = wait_view ?k u" for u by (rule wait_view_frame [OF k'(4)]) (simp add: k'(3) set_base_shape(4))
  ultimately have "wait_ok k' u" for u using inv wait_ok_view [of k' u k] by (simp add: waits_inv_def)
  then show ?thesis using k'(1,2) prio_frameD(1) [OF k'(4), of t] by (auto simp: waits_inv_def)
qed

text \<open>The thread that a lock passes to is about to end its wait.\<close>

lemma passed_detached:
  assumes inv: "waits_inv k" and k': "locks_inv k'" "prio_frame k k'" and p: "passed k owner key b (Some n, others, k')"
  shows "detached k' n"
proof -
  have own: "GetLockOwner k' = (\<lambda>u. if u = n then None else if waits k u = waits k n then Some n else GetLockOwner k u)"
    and n: "GetLockOwner k n = Some owner" using p by (simp_all add: passed_def)
  have li: "locks_inv k" using inv by (simp add: waits_inv_def)
  have w: "waits k n \<noteq> None" using n GetLockOwner_None [OF locks_invD(1) [OF li], of n] by simp
  have "all_but n k'"
  proof (rule all_but_frame [OF waits_inv_all_but [OF inv] k'])
    show "GetLockOwner k' u = None \<longleftrightarrow> GetLockOwner k u = None" if "u \<noteq> n" for u
      using that w GetLockOwner_None [OF locks_invD(1) [OF li], of u] by (auto simp: own)
  qed
  moreover have "in_tree k' n = None"
    using tree_shapeD(4) [OF locks_invD(2) [OF li], of n] w prio_frameD(4) [OF k'(2), of n] by metis
  ultimately show ?thesis by (simp add: detached_iff own)
qed

end
