(* ===== verification/UserSynchronizationBehaviour.thy ===== *)
theory UserSynchronizationBehaviour
  imports UserSynchronization WaitingBehaviour
begin

text \<open>
  Locks, condition variables and address arbiters: every operation returns, keeps the locks, the trees and the queues in order, and does
  to the waiting threads what its contract says.
\<close>

section \<open>Memory\<close>

lemma memory_view [simp]:
  "locks_view (WriteToUser c a v k) = locks_view k" "k_threads (WriteToUser c a v k) = k_threads k"
  "k_priority_queue (WriteToUser c a v k) = k_priority_queue k" "k_thread_trees (WriteToUser c a v k) = k_thread_trees k"
  "GetLockOwner (WriteToUser c a v k) = GetLockOwner k"
  by (simp_all add: locks_view_def WriteToUser_def GetLockOwner_def fun_eq_iff)

lemma queues_match_memory [simp]: "queues_match (WriteToUser c a v k) = queues_match k"
proof -
  have "sched_ok (WriteToUser c a v k) L = sched_ok k L" for L by (rule sched_ok_cong) (auto simp: same_queueing_def)
  then show ?thesis by (simp add: queues_match_def)
qed

lemma locks_inv_memory [simp]: "locks_inv (WriteToUser c a v k) = locks_inv k"
proof -
  have "restorable (WriteToUser c a v k) = restorable k"
    using locks_view_shapes [of "WriteToUser c a v k" k] by (simp add: restorable_def)
  moreover have "inherits (WriteToUser c a v k) u = inherits k u" for u
    using locks_view_shapes(4) [of "WriteToUser c a v k" k] by (simp add: inherits_def)
  ultimately show ?thesis by (simp add: locks_inv_def)
qed

lemma waits_memory [simp]:
  "wait_ok (WriteToUser c a v k) t = wait_ok k t" "state_fits (WriteToUser c a v k) t = state_fits k t"
  "waits_inv (WriteToUser c a v k) = waits_inv k" "detached (WriteToUser c a v k) t = detached k t"
  by (simp_all add: wait_ok_def state_fits_def waits_inv_def detached_def)

section \<open>Passing a lock\<close>

text \<open>The release of a key and the end of the wait of the next owner, with writes to memory before or after it.\<close>

lemma release_ok:
  assumes inv: "waits_inv k"
  shows "\<exists>nx others k1. RemoveWaiterByKey cur owner key False k = Some (nx, others, k1) \<and> passed k owner key False (nx, others, k1) \<and>
    prio_frame k k1 \<and> waits_inv (end_wait_of_next nx r k1) \<and> (nx = None \<longrightarrow> waits_inv k1) \<and> (\<forall>n. nx = Some n \<longrightarrow> detached k1 n)"
proof -
  have li: "locks_inv k" using inv by (simp add: waits_inv_def)
  from RemoveWaiterByKey_ok [OF li, of cur owner key False] obtain nx others k1 where
    k1: "RemoveWaiterByKey cur owner key False k = Some (nx, others, k1)" "locks_inv k1" "prio_frame k k1"
      "passed k owner key False (nx, others, k1)" by blast
  have n: "detached k1 n" if "nx = Some n" for n using passed_detached [OF inv k1(2,3)] k1(4) that by simp
  moreover have none: "waits_inv k1" if "nx = None" using k1(4) that inv by (simp add: passed_def)
  ultimately have "waits_inv (end_wait_of_next nx r k1)" using EndWait_ok(1) by (cases nx) (simp_all add: end_wait_of_next_def)
  then show ?thesis using k1 n none by blast
qed

section \<open>Locks in memory\<close>

lemma SignalToAddress_ok:
  assumes inv: "waits_inv k"
  shows "\<exists>nx others k1 k'. KConditionVariable_SignalToAddress c addr k = Some (ResultSuccess, k') \<and>
    RemoveWaiterByKey (cl_thread c) (cl_thread c) addr False k = Some (nx, others, k1) \<and>
    passed k (cl_thread c) addr False (nx, others, k1) \<and> waits_inv k' \<and> GetLockOwner k' = GetLockOwner k1 \<and>
    k' = end_wait_of_next nx ResultSuccess (WriteToUser c addr (tag_of_next nx others k1) k1) \<and> prio_frame k k1"
proof -
  from release_ok [OF inv, of "cl_thread c" "cl_thread c" addr ResultSuccess] obtain nx others k1 where
    k1: "RemoveWaiterByKey (cl_thread c) (cl_thread c) addr False k = Some (nx, others, k1)"
      "passed k (cl_thread c) addr False (nx, others, k1)" "nx = None \<longrightarrow> waits_inv k1" "\<forall>n. nx = Some n \<longrightarrow> detached k1 n" "prio_frame k k1"
    by blast
  let ?k = "WriteToUser c addr (tag_of_next nx others k1) k1"
  have "waits_inv (end_wait_of_next nx ResultSuccess ?k)" "GetLockOwner (end_wait_of_next nx ResultSuccess ?k) = GetLockOwner k1"
    using k1(3,4) EndWait_ok [of ?k] by (cases nx; simp add: end_wait_of_next_def)+
  then show ?thesis using k1(1,2,5) by (simp add: KConditionVariable_SignalToAddress_def)
qed

lemma WaitForAddress_ok:
  assumes inv: "waits_inv k" and cur: "wait_queue k (cl_thread c) = None"
  shows "\<exists>res k'. KConditionVariable_WaitForAddress c handle addr v k = Some (res, k') \<and> waits_inv k' \<and>
    (case res of Some r \<Rightarrow> k' = k
     | None \<Rightarrow> \<exists>owner. find_thread c handle = Some owner \<and> GetLockOwner k' = (GetLockOwner k)(cl_thread c := Some owner))"
proof -
  let ?t = "cl_thread c"
  note n = not_waiting [OF inv cur]
  have li: "locks_inv k" using inv by (simp add: waits_inv_def)
  define k1 where "k1 = SetUserAddressKey ?t addr v k"
  let ?h = "\<lambda>th. th \<lparr> th_address_key := addr, th_address_key_value := v, th_is_kernel_address_key := False \<rparr>"
  have k1: "k1 = set_thread ?t ?h k" by (simp add: k1_def SetUserAddressKey_def)
  have h: "unkeyed (?h th) = unkeyed th" for th by (simp add: unkeyed_def)
  have l1: "locks_inv k1" unfolding k1 by (rule rekey_ok [OF li n(1,2) h]) simp_all
  note c1 = rekeyed [OF li n(1) h, folded k1]
  have t1: "is_kernel k1 ?t = False" "in_tree k1 u = in_tree k u" "u \<noteq> ?t \<Longrightarrow> is_kernel k1 u = is_kernel k u" for u by (simp_all add: k1)
  have view1: "wait_view k1 u = wait_view k u" if "u \<noteq> ?t" for u using that t1 c1(2,5,6) by (simp add: wait_view_def)
  have wait: "\<exists>k'. AddWaiter ?t owner ?t k1 = Some k' \<and> waits_inv (BeginWait ?t ForKConditionVariableWaitForAddress k') \<and>
      GetLockOwner (BeginWait ?t ForKConditionVariableWaitForAddress k') = (GetLockOwner k)(?t := Some owner)" for owner
  proof -
    have "waits k1 ?t = None" "th_condvar_tree (thread_of k1 ?t) = None" using n c1(8) t1(2) by simp_all
    from AddWaiter_ok [OF l1 this, of ?t owner] obtain k2 where k2: "AddWaiter ?t owner ?t k1 = Some k2" "locks_inv k2"
      "GetLockOwner k2 = (GetLockOwner k1)(?t := Some owner)" "prio_frame k1 k2" by blast
    have "wait_ok k2 u" if "u \<noteq> ?t" for u
    proof -
      have "wait_ok k2 u = wait_ok k1 u" by (rule wait_ok_frame [OF k2(4)]) (simp add: k2(3) that)
      then show ?thesis using inv wait_ok_view [OF view1 [OF that]] by (simp add: waits_inv_def)
    qed
    moreover have "queue_fits (Some ForKConditionVariableWaitForAddress) (GetLockOwner k2 ?t \<noteq> None) (is_kernel k2 ?t) (in_tree k2 ?t)"
      using n(2) t1 prio_frameD(4,7) [OF k2(4), of ?t] by (simp add: queue_fits_def k2(3))
    ultimately have "waits_inv (BeginWait ?t ForKConditionVariableWaitForAddress k2)" by (rule BeginWait_ok [OF k2(2)])
    moreover have "GetLockOwner (BeginWait ?t ForKConditionVariableWaitForAddress k2) = GetLockOwner k2"
      by (rule locks_view_shapes(1)) simp
    ultimately show ?thesis using k2(1,3) c1(2) by simp
  qed
  show ?thesis
  proof (cases "IsTerminationRequested (thread_of k ?t) \<or> ReadFromUser c addr k \<noteq> handle OR HandleWaitMask \<or> find_thread c handle = None")
    case True
    then show ?thesis using inv by (auto simp: KConditionVariable_WaitForAddress_def Let_def)
  next
    case False
    then obtain owner where o: "find_thread c handle = Some owner" by auto
    from wait [of owner] obtain k' where "AddWaiter ?t owner ?t k1 = Some k'" "waits_inv (BeginWait ?t ForKConditionVariableWaitForAddress k')"
      "GetLockOwner (BeginWait ?t ForKConditionVariableWaitForAddress k') = (GetLockOwner k)(?t := Some owner)" by blast
    then show ?thesis using False o unfolding k1_def by (auto simp: KConditionVariable_WaitForAddress_def Let_def)
  qed
qed

section \<open>Condition variables\<close>

lemma trees_of:
  assumes "locks_inv k"
  shows "set (k_thread_trees k tr) = {t. in_tree k t = Some tr}" "distinct (k_thread_trees k tr)"
  using tree_shapeD(1,3) [OF locks_invD(2) [OF assms]] by auto

lemma fits_in_tree:
  assumes "waits_inv k" "in_tree k t = Some (ConditionVariables p)"
  shows "wait_queue k t = Some (ForKConditionVariableWaitConditionVariable (ConditionVariables p))" "\<not> is_kernel k t" "GetLockOwner k t = None"
proof -
  have "queue_fits (wait_queue k t) (GetLockOwner k t \<noteq> None) (is_kernel k t) (in_tree k t)"
    using assms(1) by (simp add: waits_inv_def wait_ok_def)
  then show "wait_queue k t = Some (ForKConditionVariableWaitConditionVariable (ConditionVariables p))" "\<not> is_kernel k t"
    "GetLockOwner k t = None"
    using assms(2) by (auto simp: queue_fits_def split: option.splits thread_queue.splits if_splits)
qed

text \<open>
  What a signal does to a thread that has left the condition variable: it gets the lock, waits for the holder of the lock, or learns that
  there is no such thread.
\<close>

definition signalled :: "caller \<Rightarrow> kernel \<Rightarrow> thread \<Rightarrow> kernel \<Rightarrow> bool" where
  "signalled c k t k' \<longleftrightarrow>
     (let tag = ReadFromUser c (th_address_key (thread_of k t)) k
      in if tag = 0 then wait_queue k' t = None \<and> GetLockOwner k' = GetLockOwner k
         else
           (case find_thread c (tag AND NOT HandleWaitMask) of
              Some owner \<Rightarrow> wait_queue k' t = wait_queue k t \<and> GetLockOwner k' = (GetLockOwner k)(t := Some owner)
            | None \<Rightarrow> wait_queue k' t = None \<and> GetLockOwner k' = GetLockOwner k))"

lemma SignalImpl_ok:
  assumes d: "detached k t" and q: "wait_queue k t = Some (ForKConditionVariableWaitConditionVariable tr)" "\<not> of_arbiter tr" "\<not> is_kernel k t"
  shows "\<exists>k'. SignalImpl c t k = Some k' \<and> waits_inv k' \<and> signalled c k t k' \<and> (\<forall>u. in_tree k' u = in_tree k u) \<and>
    (\<forall>u. th_condvar_key (thread_of k' u) = th_condvar_key (thread_of k u)) \<and> (\<forall>u. wait_queue k' u \<noteq> None \<longrightarrow> wait_queue k' u = wait_queue k u) \<and>
    (\<forall>u. u \<noteq> t \<longrightarrow> wait_queue k' u = wait_queue k u)"
proof -
  let ?a = "th_address_key (thread_of k t)"
  define v where "v = (if ReadFromUser c ?a k = 0 then th_address_key_value (thread_of k t) else ReadFromUser c ?a k OR HandleWaitMask)"
  define k1 where "k1 = WriteToUser c ?a v k"
  have u: "UpdateLockAtomic c ?a (th_address_key_value (thread_of k t)) HandleWaitMask k = (ReadFromUser c ?a k, k1)"
    unfolding UpdateLockAtomic_def k1_def v_def Let_def ..
  have d1: "detached k1 t" using d by (simp add: k1_def)
  have w: "GetState (thread_of k t) = Waiting" using d q(1) by (simp add: detached_def state_fits_def)
  have ends: "waits_inv (EndWait t r k1)" "wait_queue (EndWait t r k1) t = None" "GetLockOwner (EndWait t r k1) = GetLockOwner k"
    "in_tree (EndWait t r k1) x = in_tree k x" "th_condvar_key (thread_of (EndWait t r k1) x) = th_condvar_key (thread_of k x)"
    "wait_queue (EndWait t r k1) x \<noteq> None \<Longrightarrow> wait_queue (EndWait t r k1) x = wait_queue k x"
    "x \<noteq> t \<Longrightarrow> wait_queue (EndWait t r k1) x = wait_queue k x" for r x
  proof -
    show "waits_inv (EndWait t r k1)" by (rule EndWait_ok(1) [OF d1])
    show "wait_queue (EndWait t r k1) t = None" using w q(1) waiting_fields(3) [of t r k1 t] by (simp add: EndWait_def k1_def)
    show "GetLockOwner (EndWait t r k1) = GetLockOwner k" using EndWait_ok(2) [OF d1] by (simp add: k1_def)
    have view: "locks_view (EndWait t r k1) = locks_view k" by (simp add: k1_def)
    show "in_tree (EndWait t r k1) x = in_tree k x" "th_condvar_key (thread_of (EndWait t r k1) x) = th_condvar_key (thread_of k x)"
      by (rule locks_viewD(8,9) [OF view])+
    show "wait_queue (EndWait t r k1) x \<noteq> None \<Longrightarrow> wait_queue (EndWait t r k1) x = wait_queue k x"
      "x \<noteq> t \<Longrightarrow> wait_queue (EndWait t r k1) x = wait_queue k x"
      using w q(1) waiting_fields(3) [of t r k1 x] by (cases "x = t"; simp add: EndWait_def k1_def)+
  qed
  show ?thesis
  proof (cases "ReadFromUser c ?a k = 0 \<or> find_thread c (ReadFromUser c ?a k AND NOT HandleWaitMask) = None")
    case True
    then have "\<exists>r. SignalImpl c t k = Some (EndWait t r k1)"
      by (auto simp: SignalImpl_def Let_def u InvalidHandle_def)
    then show ?thesis using ends True by (auto simp: signalled_def Let_def)
  next
    case False
    then obtain owner where o: "find_thread c (ReadFromUser c ?a k AND NOT HandleWaitMask) = Some owner" by auto
    have l1: "locks_inv k1" "GetLockOwner k1 t = None" "in_tree k1 t = None" using d1 by (simp_all add: detached_def)
    have "waits k1 t = None" using l1(2) GetLockOwner_None [OF locks_invD(1) [OF l1(1)]] by simp
    from AddWaiter_ok [OF l1(1) this l1(3), of "cl_thread c" owner] obtain k' where
      k': "AddWaiter (cl_thread c) owner t k1 = Some k'" "locks_inv k'" "GetLockOwner k' = (GetLockOwner k1)(t := Some owner)" "prio_frame k1 k'"
      by blast
    have "wait_ok k' x" if "x \<noteq> t" for x
      using d1 that wait_ok_frame [OF k'(4), of x] by (simp add: detached_def k'(3))
    moreover have "wait_ok k' t"
      using q w prio_frameD(3,4,7) [OF k'(4), of t] l1(3) state_fits_frame [OF k'(4), of t] d1
      by (simp add: wait_ok_def k'(3) queue_fits_def detached_def) (simp add: k1_def)
    ultimately have "waits_inv k'" using k'(2) by (metis waits_inv_def)
    moreover have "SignalImpl c t k = Some k'" using False o k'(1) by (simp add: SignalImpl_def u InvalidHandle_def)
    ultimately show ?thesis using False o k'(3) prio_frameD(3,4,5) [OF k'(4)] by (simp add: signalled_def Let_def) (simp add: k1_def)
  qed
qed

lemma element_after_append: "t \<notin> set xs \<Longrightarrow> element_after t (xs @ t # ys) = (case ys of [] \<Rightarrow> None | y # _ \<Rightarrow> Some y)"
  by (induction xs) auto

lemma element_after_in:
  assumes "distinct xs" "t \<in> set xs" "element_after t xs = Some y"
  shows "y \<in> set xs" "y \<noteq> t"
proof -
  obtain as bs where xs: "xs = as @ t # bs" using assms(2) by (metis split_list)
  then have "t \<notin> set as" using assms(1) by simp
  then have "\<exists>zs. bs = y # zs" using assms(3) element_after_append [of t as bs] by (auto simp: xs split: list.splits)
  then show "y \<in> set xs" "y \<noteq> t" using assms(1) by (auto simp: xs)
qed

text \<open>The threads of a key stand next to each other in a tree, and a search for the key finds the first of them.\<close>

definition key_waiters :: "kernel \<Rightarrow> thread_tree \<Rightarrow> u64 \<Rightarrow> thread list" where
  "key_waiters k tr key = filter (\<lambda>t. th_condvar_key (thread_of k t) = key) (k_thread_trees k tr)"

lemma sorted_key_split:
  fixes f :: "'a \<Rightarrow> 'b::linorder"
  shows "sorted (map f xs) \<Longrightarrow> xs = filter (\<lambda>x. f x < a) xs @ filter (\<lambda>x. f x = a) xs @ filter (\<lambda>x. a < f x) xs"
proof (induction xs)
  case (Cons x xs)
  then have IH: "xs = filter (\<lambda>x. f x < a) xs @ filter (\<lambda>x. f x = a) xs @ filter (\<lambda>x. a < f x) xs"
    and x: "\<forall>y\<in>set xs. f x \<le> f y" by simp_all
  have "a \<le> f x \<Longrightarrow> filter (\<lambda>x. f x < a) xs = []" "a < f x \<Longrightarrow> filter (\<lambda>x. f x = a) xs = []"
    using x by (fastforce simp: filter_empty_conv)+
  then show ?case using IH by (cases "f x" a rule: linorder_cases) auto
qed simp

lemma key_waiters_split:
  assumes "locks_inv k"
  obtains xs ys where "k_thread_trees k tr = xs @ key_waiters k tr key @ ys" "\<And>t. t \<in> set xs \<Longrightarrow> th_condvar_key (thread_of k t) < key"
    "\<And>t. t \<in> set ys \<Longrightarrow> key < th_condvar_key (thread_of k t)"
proof -
  have "condvar_order.ordered (k_threads k) (k_thread_trees k tr)" by (rule tree_shapeD(2) [OF locks_invD(2) [OF assms]])
  then have "sorted (map (\<lambda>t. th_condvar_key (thread_of k t)) (k_thread_trees k tr))"
    unfolding sorted_wrt_map by (rule sorted_wrt_mono_rel [rotated]) (auto simp: condvar_less_def not_less)
  from sorted_key_split [OF this, of key] show thesis by (intro that) (auto simp: key_waiters_def)
qed

lemma tree_nfind_first:
  assumes "k_thread_trees k tr = xs @ ys" "\<And>t. t \<in> set xs \<Longrightarrow> th_condvar_key (thread_of k t) < key"
    "\<And>t. t \<in> set ys \<Longrightarrow> key \<le> th_condvar_key (thread_of k t)"
  shows "tree_nfind tr key k = (case ys of [] \<Rightarrow> None | y # _ \<Rightarrow> Some y)"
proof -
  have "List.find P (as @ bs) = (case bs of [] \<Rightarrow> None | b # _ \<Rightarrow> Some b)" if "\<forall>a\<in>set as. \<not> P a" "\<forall>b\<in>set bs. P b" for P as and bs :: "thread list"
    using that by (induction as) (auto split: list.split)
  then show ?thesis using assms unfolding tree_nfind_def by (metis not_le)
qed

lemma key_waiters_sorted:
  assumes "locks_inv k"
  shows "sorted (map (prio k) (key_waiters k tr key))" "distinct (key_waiters k tr key)"
    "set (key_waiters k tr key) = {t. in_tree k t = Some tr \<and> th_condvar_key (thread_of k t) = key}"
proof -
  have "condvar_order.ordered (k_threads k) (key_waiters k tr key)"
    using tree_shapeD(2) [OF locks_invD(2) [OF assms], of tr] unfolding key_waiters_def by (rule sorted_wrt_filter)
  then show "sorted (map (prio k) (key_waiters k tr key))"
    unfolding sorted_wrt_map by (rule sorted_wrt_mono_rel [rotated]) (auto simp: condvar_less_def key_waiters_def not_less)
  show "distinct (key_waiters k tr key)" using trees_of(2) [OF assms] by (simp add: key_waiters_def)
  show "set (key_waiters k tr key) = {t. in_tree k t = Some tr \<and> th_condvar_key (thread_of k t) = key}"
    using trees_of(1) [OF assms, of tr] by (auto simp: key_waiters_def)
qed

text \<open>The threads that a signal takes out of the tree, which have its key and are no more than asked for.\<close>

definition signal_done :: "thread_tree \<Rightarrow> u64 \<Rightarrow> int \<Rightarrow> kernel \<Rightarrow> kernel \<Rightarrow> thread set \<Rightarrow> bool" where
  "signal_done tr key bound k k' out \<longleftrightarrow>
     waits_inv k' \<and> finite out \<and> (\<forall>u\<in>out. in_tree k u = Some tr \<and> th_condvar_key (thread_of k u) = key) \<and>
     (\<forall>u. in_tree k' u = (if u \<in> out then None else in_tree k u)) \<and> int (card out) \<le> bound \<and>
     (\<forall>u. wait_queue k' u \<noteq> None \<longrightarrow> wait_queue k' u = wait_queue k u) \<and> (\<forall>u. u \<notin> out \<longrightarrow> wait_queue k' u = wait_queue k u)"

lemma signal_loop_ok:
  assumes "waits_inv k" "tr = ConditionVariables p" "\<And>t. it = Some t \<Longrightarrow> in_tree k t = Some tr" "cnt \<le> 0 \<or> n \<le> cnt"
  shows "\<exists>it' k' out. signal_loop c tr key cnt it n k = Some (it', k') \<and>
    signal_done tr key (if cnt \<le> 0 then int (card (set (k_thread_trees k tr))) else cnt - n) k k' out \<and>
    (\<forall>t. it = Some t \<longrightarrow> (cnt \<le> 0 \<or> n < cnt) \<longrightarrow> th_condvar_key (thread_of k t) = key \<longrightarrow> t \<in> out)"
  using assms
proof (induction "card (set (k_thread_trees k tr))" arbitrary: k it n rule: less_induct)
  case less
  have li: "locks_inv k" using less.prems(1) by (simp add: waits_inv_def)
  show ?case
  proof (cases "\<exists>t. it = Some t \<and> (cnt \<le> 0 \<or> n < cnt) \<and> th_condvar_key (thread_of k t) = key")
    case False
    then have "signal_loop c tr key cnt it n k = Some (it, k)" by (subst signal_loop.simps) (auto split: option.splits)
    moreover have "signal_done tr key (if cnt \<le> 0 then int (card (set (k_thread_trees k tr))) else cnt - n) k k {}"
      using less.prems(1,4) by (auto simp: signal_done_def)
    ultimately show ?thesis using False by blast
  next
    case True
    then obtain t where t: "it = Some t" "cnt \<le> 0 \<or> n < cnt" "th_condvar_key (thread_of k t) = key" by blast
    have tr: "in_tree k t = Some tr" by (rule less.prems(3) [OF t(1)])
    note q = fits_in_tree [OF less.prems(1) tr [unfolded less.prems(2)]]
    define k1 where "k1 = ClearConditionVariable t (tree_erase_thread tr t k)"
    note f = left_tree_fields [of t tr k, folded k1_def]
    have "leave_tree tr t k = k1" using tr by (simp add: leave_tree_def k1_def)
    then have d: "detached k1 t"
      using leave_tree_detached [OF waits_inv_all_but [OF less.prems(1)] q(3), of tr] tr by simp
    have q1: "wait_queue k1 t = Some (ForKConditionVariableWaitConditionVariable tr)" "\<not> of_arbiter tr" "\<not> is_kernel k1 t"
      using q less.prems(2) by (simp_all add: f)
    from SignalImpl_ok [OF d q1, of c] obtain k2 where k2: "SignalImpl c t k1 = Some k2" "waits_inv k2"
      "\<And>u. in_tree k2 u = in_tree k1 u" "\<And>u. th_condvar_key (thread_of k2 u) = th_condvar_key (thread_of k1 u)"
      "\<And>u. wait_queue k2 u \<noteq> None \<Longrightarrow> wait_queue k2 u = wait_queue k1 u" "\<And>u. u \<noteq> t \<Longrightarrow> wait_queue k2 u = wait_queue k1 u" by blast
    define nx where "nx = element_after t (k_thread_trees k tr)"
    have step: "signal_loop c tr key cnt it n k = signal_loop c tr key cnt nx (n + 1) k2"
      using t k2(1) by (subst signal_loop.simps) (simp add: Let_def nx_def k1_def)
    have in2: "in_tree k2 u = (if u = t then None else in_tree k u)" for u by (simp add: k2(3) f(1))
    have li2: "locks_inv k2" using k2(2) by (simp add: waits_inv_def)
    have set2: "set (k_thread_trees k2 tr) = set (k_thread_trees k tr) - {t}"
      unfolding trees_of(1) [OF li] trees_of(1) [OF li2] by (auto simp: in2)
    have mem: "t \<in> set (k_thread_trees k tr)" using tr trees_of(1) [OF li] by simp
    have less2: "card (set (k_thread_trees k2 tr)) < card (set (k_thread_trees k tr))" unfolding set2 using mem by (intro card_Diff1_less) simp_all
    have nx: "in_tree k2 y = Some tr" if "nx = Some y" for y
    proof -
      have "y \<in> set (k_thread_trees k tr)" "y \<noteq> t" using that element_after_in [OF trees_of(2) [OF li] mem] unfolding nx_def by blast+
      then show ?thesis using trees_of(1) [OF li, of tr] by (simp add: in2)
    qed
    have "cnt \<le> 0 \<or> n + 1 \<le> cnt" using t(2) by auto
    from less.hyps [OF less2 k2(2) less.prems(2) nx this] obtain it' k' out where
      r: "signal_loop c tr key cnt nx (n + 1) k2 = Some (it', k')"
        "signal_done tr key (if cnt \<le> 0 then int (card (set (k_thread_trees k2 tr))) else cnt - (n + 1)) k2 k' out" by blast
    have out: "t \<notin> out" using r(2) in2 [of t] by (auto simp: signal_done_def)
    have "wait_queue k' u \<noteq> None \<Longrightarrow> wait_queue k' u = wait_queue k u" for u
      using r(2) k2(5) [of u] f(3) [of u] unfolding signal_done_def by metis
    moreover have "wait_queue k' u = wait_queue k u" if "u \<notin> insert t out" for u
      using that r(2) k2(6) [of u] f(3) [of u] unfolding signal_done_def by simp
    ultimately have "signal_done tr key (if cnt \<le> 0 then int (card (set (k_thread_trees k tr))) else cnt - n) k k' (insert t out)"
      using r(2) out less2 tr t(3) unfolding signal_done_def by (auto simp: in2 k2(4) f(5) split: if_splits)
    then show ?thesis using step r(1) t(1) by auto
  qed
qed

lemma Signal_ok:
  fixes c :: caller and cv_key :: u64 and k :: kernel
  defines "tr \<equiv> ConditionVariables (cl_process c)"
  defines "ws \<equiv> key_waiters k tr cv_key"
  assumes inv: "waits_inv k"
  shows "\<exists>k' out. KConditionVariable_Signal c cv_key cnt k = Some k' \<and> waits_inv k' \<and> out \<subseteq> set ws \<and>
    (\<forall>u. in_tree k' u = (if u \<in> out then None else in_tree k u)) \<and> (0 < cnt \<longrightarrow> int (card out) \<le> cnt) \<and> (ws \<noteq> [] \<longrightarrow> hd ws \<in> out) \<and>
    (\<forall>u. wait_queue k' u \<noteq> None \<longrightarrow> wait_queue k' u = wait_queue k u) \<and> (\<forall>u. u \<notin> out \<longrightarrow> wait_queue k' u = wait_queue k u)"
proof -
  have li: "locks_inv k" using inv by (simp add: waits_inv_def)
  obtain xs ys where s: "k_thread_trees k tr = xs @ ws @ ys" "\<And>t. t \<in> set xs \<Longrightarrow> th_condvar_key (thread_of k t) < cv_key"
    "\<And>t. t \<in> set ys \<Longrightarrow> cv_key < th_condvar_key (thread_of k t)"
    unfolding ws_def by (rule key_waiters_split [OF li, of tr cv_key]) blast
  have ws: "th_condvar_key (thread_of k t) = cv_key" if "t \<in> set ws" for t using that by (simp add: ws_def key_waiters_def)
  let ?it = "tree_nfind tr cv_key k"
  have it: "?it = (case ws @ ys of [] \<Rightarrow> None | y # _ \<Rightarrow> Some y)"
    by (rule tree_nfind_first [OF s(1,2)]) (use s(3) ws in \<open>fastforce\<close>)+
  have mem: "in_tree k t = Some tr" if "?it = Some t" for t
  proof -
    have "t \<in> set (k_thread_trees k tr)" using that unfolding tree_nfind_def by (auto simp: find_Some_iff)
    then show ?thesis using trees_of(1) [OF li] by simp
  qed
  have "cnt \<le> 0 \<or> 0 \<le> cnt" by auto
  from signal_loop_ok [OF inv _ mem this, where p = "cl_process c" and c = c and key = cv_key] obtain it' k1 out where
    r: "signal_loop c tr cv_key cnt ?it 0 k = Some (it', k1)"
      "signal_done tr cv_key (if cnt \<le> 0 then int (card (set (k_thread_trees k tr))) else cnt - 0) k k1 out"
      "\<And>t. ?it = Some t \<Longrightarrow> th_condvar_key (thread_of k t) = cv_key \<Longrightarrow> cnt \<le> 0 \<or> 0 < cnt \<Longrightarrow> t \<in> out"
    unfolding tr_def by blast
  have "\<exists>k'. KConditionVariable_Signal c cv_key cnt k = Some k' \<and> waits_inv k' \<and> (\<forall>u. in_tree k' u = in_tree k1 u) \<and>
      (\<forall>u. wait_queue k' u \<noteq> None \<longrightarrow> wait_queue k' u = wait_queue k u) \<and> (\<forall>u. u \<notin> out \<longrightarrow> wait_queue k' u = wait_queue k u)"
    using r(1,2) unfolding tr_def by (simp add: KConditionVariable_Signal_def Let_def signal_done_def)
  then obtain k' where k': "KConditionVariable_Signal c cv_key cnt k = Some k'" "waits_inv k'" "\<forall>u. in_tree k' u = in_tree k1 u"
    "\<forall>u. wait_queue k' u \<noteq> None \<longrightarrow> wait_queue k' u = wait_queue k u" "\<forall>u. u \<notin> out \<longrightarrow> wait_queue k' u = wait_queue k u" by blast
  have "hd ws \<in> out" if "ws \<noteq> []"
    using that it ws by (intro r(3)) (cases ws; auto)+
  moreover have "out \<subseteq> set ws" using r(2) key_waiters_sorted(3) [OF li, of tr cv_key] unfolding ws_def signal_done_def by blast
  moreover have "0 < cnt \<longrightarrow> int (card out) \<le> cnt" "\<forall>u. in_tree k1 u = (if u \<in> out then None else in_tree k u)"
    using r(2) by (auto simp: signal_done_def)
  ultimately show ?thesis using k' by (intro exI [of _ k'] exI [of _ out]) simp
qed

lemma Wait_ok:
  assumes inv: "waits_inv k" and cur: "wait_queue k (cl_thread c) = None"
  shows "\<exists>res k'. KConditionVariable_Wait c addr key v timeout k = Some (res, k') \<and> waits_inv k' \<and>
    (res = None \<longrightarrow> in_tree k' (cl_thread c) = Some (ConditionVariables (cl_process c)) \<and> th_condvar_key (thread_of k' (cl_thread c)) = key) \<and>
    (\<not> IsTerminationRequested (thread_of k (cl_thread c)) \<and> timeout \<noteq> 0 \<longrightarrow> res = None)"
proof (cases "IsTerminationRequested (thread_of k (cl_thread c))")
  case True
  then show ?thesis using inv by (simp add: KConditionVariable_Wait_def)
next
  case False
  let ?t = "cl_thread c" and ?tr = "ConditionVariables (cl_process c)"
  from release_ok [OF inv, of ?t ?t addr ResultSuccess] obtain nx others k1 where
    k1: "RemoveWaiterByKey ?t ?t addr False k = Some (nx, others, k1)" "waits_inv (end_wait_of_next nx ResultSuccess k1)"
      "passed k ?t addr False (nx, others, k1)" "prio_frame k k1"
    by blast
  define k3 where "k3 = WriteToUser c addr (tag_of_next nx others k1) (WriteToUser c key 1 (end_wait_of_next nx ResultSuccess k1))"
  have inv3: "waits_inv k3" using k1(2) by (simp add: k3_def)
  have "nx \<noteq> Some ?t" using k1(3) not_waiting(1) [OF inv cur] by (auto simp: passed_def)
  then have cur3: "wait_queue k3 ?t = None"
    using cur prio_frameD(3) [OF k1(4), of ?t] waiting_fields(3)
    by (auto simp: k3_def end_wait_of_next_def EndWait_def split: option.split)
  let ?h = "\<lambda>th. th \<lparr> th_condvar_tree := Some ?tr, th_condvar_key := key, th_address_key := addr, th_address_key_value := v,
    th_is_kernel_address_key := False \<rparr>"
  define k4 where "k4 = tree_insert_thread ?tr ?t (SetConditionVariable ?t ?tr addr key v k3)"
  have k4: "k4 = tree_insert_thread ?tr ?t (set_thread ?t ?h k3)" by (simp add: k4_def SetConditionVariable_def)
  note n = not_waiting [OF inv3 cur3]
  have h: "unkeyed (?h th) = unkeyed th" "th_condvar_tree (?h th) = Some ?tr" for th by (simp_all add: unkeyed_def)
  have li3: "locks_inv k3" using inv3 by (simp add: waits_inv_def)
  note e = enter_tree_ok [OF li3 n(1,2) h, folded k4]
  have th: "thread_of k4 u = (if u = ?t then ?h (thread_of k3 ?t) else thread_of k3 u)" for u
    by (simp add: k4 tree_insert_thread_def)
  have "waits_inv (BeginWait ?t (ForKConditionVariableWaitConditionVariable ?tr) k4)"
  proof (rule BeginWait_ok [OF e(1)])
    show "wait_ok k4 u" if "u \<noteq> ?t" for u
      using that inv3 wait_ok_view [of k4 u k3] by (simp add: wait_view_def e(2) th waits_inv_def)
    show "queue_fits (Some (ForKConditionVariableWaitConditionVariable ?tr)) (GetLockOwner k4 ?t \<noteq> None) (is_kernel k4 ?t) (in_tree k4 ?t)"
      using n(1) by (simp add: queue_fits_def e(2) th)
  qed
  moreover have "in_tree (BeginWait ?t q k4) ?t = Some ?tr" "th_condvar_key (thread_of (BeginWait ?t q k4) ?t) = key" for q
    using locks_viewD(8,9) [of "BeginWait ?t q k4" k4 ?t] by (simp_all add: th)
  ultimately show ?thesis using False k1(1) inv3 by (simp add: KConditionVariable_Wait_def Let_def k3_def k4_def)
qed

section \<open>Address arbiters\<close>

interpretation result_view: link_blind th_wait_result
  by unfold_locales simp

lemma wait_result_fields:
  "th_wait_result (thread_of (KThreadQueue_EndWait t r k) u) = (if u = t then r else th_wait_result (thread_of k u))"
proof -
  have p: "th_wait_result (thread_of (SetState t s k) u) = th_wait_result (thread_of k u)" for s k
  proof -
    have "projected th_wait_result (k_threads (SetState t s k)) = projected th_wait_result (k_threads k)"
      by (simp add: SetState_def Let_def store_state_def projected_upd)
    then show ?thesis by (simp add: projected_def fun_eq_iff)
  qed
  show ?thesis using p [of Runnable "set_thread t (\<lambda>th. th \<lparr> th_wait_result := r \<rparr>) k"]
    by (cases "u = t"; simp add: KThreadQueue_EndWait_def)
qed

lemma lock_state_EndWait: "lock_state (KThreadQueue_EndWait t r k) = lock_state k"
  by (simp add: KThreadQueue_EndWait_def SetState_def store_state_def Let_def)

text \<open>What a wake-up does to a thread of the tree.\<close>

definition woken :: "kernel \<Rightarrow> thread \<Rightarrow> bool" where
  "woken k t \<longleftrightarrow> wait_queue k t = None \<and> GetState (thread_of k t) = Runnable \<and> th_wait_result (thread_of k t) = ResultSuccess"

definition wake_one :: "thread_tree \<Rightarrow> thread \<Rightarrow> kernel \<Rightarrow> kernel" where
  "wake_one tr t k = tree_erase_thread tr t (ClearConditionVariable t (EndWait t ResultSuccess k))"

lemma wake_one_ok:
  assumes inv: "waits_inv k" and t: "in_tree k t = Some tr"
  shows "waits_inv (wake_one tr t k)" "woken (wake_one tr t k) t" "GetLockOwner (wake_one tr t k) = GetLockOwner k"
    "k_thread_trees (wake_one tr t k) = (k_thread_trees k)(tr := remove1 t (k_thread_trees k tr))" "k_memory (wake_one tr t k) = k_memory k"
    "u \<noteq> t \<Longrightarrow> wait_view (wake_one tr t k) u = wait_view k u \<and> th_wait_result (thread_of (wake_one tr t k) u) = th_wait_result (thread_of k u)"
    "th_condvar_key (thread_of (wake_one tr t k) v) = th_condvar_key (thread_of k v)"
    "in_tree (wake_one tr t k) v = (if v = t then None else in_tree k v)"
proof -
  have li: "locks_inv k" "wait_ok k t" using inv by (simp_all add: waits_inv_def)
  have q: "wait_queue k t \<noteq> None" using not_waiting(2) [OF inv, of t] t by auto
  then have w: "GetState (thread_of k t) = Waiting" using li(2) by (simp add: wait_ok_def state_fits_def)
  define e where "e = KThreadQueue_EndWait t ResultSuccess k"
  have k': "wake_one tr t k = ClearConditionVariable t (tree_erase_thread tr t e)"
    using q w by (simp add: wake_one_def EndWait_def e_def ClearConditionVariable_def tree_erase_thread_def set_thread_def)
  have v: "locks_view e = locks_view k" by (simp add: e_def)
  note l = locks_inv_view [OF li(1) v waiting_ok(2) [OF locks_invD(3) [OF li(1)], of t ResultSuccess, folded e_def]]
  note f = waiting_fields(3,4) [of t ResultSuccess k, folded e_def] and lv = locks_viewD [OF v] and g = left_tree_fields [of t tr e]
  have run: "Runnable \<noteq> Waiting" by (simp add: Runnable_def Waiting_def)
  have "wait_ok e x" if "x \<noteq> t" for x
    using inv that wait_ok_view [of e x k] by (simp add: waits_inv_def wait_view_def f lv l(2))
  then have a: "all_but t e" using l(1) f run by (simp add: all_but_def state_fits_def)
  have te: "in_tree e t = Some tr" using t lv(8) by simp
  have own: "GetLockOwner (wake_one tr t k) = GetLockOwner k" unfolding k' using leave_tree_ok(2) [OF l(1) te] l(2) by simp
  have none: "GetLockOwner k t = None" using li(2) t by (auto simp: wait_ok_def queue_fits_def split: option.splits thread_queue.splits if_splits)
  show "GetLockOwner (wake_one tr t k) = GetLockOwner k" by (rule own)
  have "all_but t (wake_one tr t k)" unfolding k' by (rule leave_tree_all_but [OF a te])
  moreover have "wait_ok (wake_one tr t k) t"
    using own none run unfolding wait_ok_def state_fits_def k' g f by (simp add: queue_fits_def)
  ultimately show "waits_inv (wake_one tr t k)" unfolding all_but_def waits_inv_def by metis
  have r: "th_wait_result (thread_of e x) = (if x = t then ResultSuccess else th_wait_result (thread_of k x))" for x
    unfolding e_def by (rule wait_result_fields)
  show "woken (wake_one tr t k) t" unfolding woken_def k' g f r by simp
  have ls: "lock_state e = lock_state k" unfolding e_def by (rule lock_state_EndWait)
  then have m: "k_memory e = k_memory k" "k_thread_trees e = k_thread_trees k" by (simp_all add: lock_state_def)
  show "k_thread_trees (wake_one tr t k) = (k_thread_trees k)(tr := remove1 t (k_thread_trees k tr))" "k_memory (wake_one tr t k) = k_memory k"
    unfolding k' g m by simp_all
  show "u \<noteq> t \<Longrightarrow> wait_view (wake_one tr t k) u = wait_view k u \<and> th_wait_result (thread_of (wake_one tr t k) u) = th_wait_result (thread_of k u)"
    using own unfolding wait_view_def by (simp add: k' g f r lv(4,8))
  show "th_condvar_key (thread_of (wake_one tr t k) v) = th_condvar_key (thread_of k v)"
    "in_tree (wake_one tr t k) v = (if v = t then None else in_tree k v)" unfolding k' g lv(8,9) by simp_all
qed

text \<open>The waits that a signal ends: of the first threads of its address, as many as asked for, or all of them.\<close>

definition to_wake :: "int \<Rightarrow> thread list \<Rightarrow> thread list" where
  "to_wake cnt ws = (if cnt \<le> 0 then ws else take (nat cnt) ws)"

definition arbiter_done :: "thread_tree \<Rightarrow> thread list \<Rightarrow> kernel \<Rightarrow> kernel \<Rightarrow> bool" where
  "arbiter_done tr out k k' \<longleftrightarrow>
     waits_inv k' \<and> (\<forall>t\<in>set out. woken k' t) \<and> GetLockOwner k' = GetLockOwner k \<and> k_memory k' = k_memory k \<and>
     k_thread_trees k' = (k_thread_trees k)(tr := filter (\<lambda>t. t \<notin> set out) (k_thread_trees k tr)) \<and>
     (\<forall>u. u \<notin> set out \<longrightarrow> wait_view k' u = wait_view k u \<and> th_wait_result (thread_of k' u) = th_wait_result (thread_of k u))"

lemma arbiter_loop_ok:
  assumes "waits_inv k" "k_thread_trees k tr = xs @ ws @ ys" "\<And>t. t \<in> set ws \<Longrightarrow> th_condvar_key (thread_of k t) = addr"
    "\<And>t. t \<in> set ys \<Longrightarrow> th_condvar_key (thread_of k t) \<noteq> addr" "cnt \<le> 0 \<or> n \<le> cnt"
  shows "\<exists>k'. arbiter_loop tr addr cnt (case ws @ ys of [] \<Rightarrow> None | y # _ \<Rightarrow> Some y) n k = Some k' \<and>
    arbiter_done tr (if cnt \<le> 0 then ws else take (nat (cnt - n)) ws) k k'"
  using assms
proof (induction ws arbitrary: k n)
  case Nil
  have "arbiter_done tr [] k k" using Nil.prems(1) by (simp add: arbiter_done_def)
  then show ?case using Nil.prems(4) by (subst arbiter_loop.simps) (auto split: list.split)
next
  case (Cons t ws)
  have li: "locks_inv k" using Cons.prems(1) by (simp add: waits_inv_def)
  show ?case
  proof (cases "cnt \<le> 0 \<or> n < cnt")
    case False
    have "arbiter_done tr [] k k" using Cons.prems(1) by (simp add: arbiter_done_def)
    then show ?thesis using False by (subst arbiter_loop.simps) simp
  next
    case True
    have d: "distinct (xs @ t # ws @ ys)" using trees_of(2) [OF li, of tr] Cons.prems(2) by simp
    have t: "in_tree k t = Some tr" "th_condvar_key (thread_of k t) = addr" using trees_of(1) [OF li, of tr] Cons.prems(2,3) by auto
    define k1 where "k1 = wake_one tr t k"
    note w = wake_one_ok [OF Cons.prems(1) t(1), folded k1_def]
    have tree1: "k_thread_trees k1 tr = xs @ ws @ ys" using d by (simp add: w(4) Cons.prems(2) remove1_append)
    let ?e = "ClearConditionVariable t (EndWait t ResultSuccess k)"
    have "k_thread_trees ?e = k_thread_trees k"
      using lock_state_EndWait [of t ResultSuccess k] by (simp add: ClearConditionVariable_def EndWait_def lock_state_def set_thread_def)
    then have nx: "element_after t (k_thread_trees ?e tr) = (case ws @ ys of [] \<Rightarrow> None | y # _ \<Rightarrow> Some y)"
      using d by (simp add: Cons.prems(2) element_after_append)
    have step: "arbiter_loop tr addr cnt (Some t) n k = arbiter_loop tr addr cnt (case ws @ ys of [] \<Rightarrow> None | y # _ \<Rightarrow> Some y) (n + 1) k1"
      using True t(2) nx by (subst arbiter_loop.simps) (simp add: Let_def k1_def wake_one_def)
    have "cnt \<le> 0 \<or> n + 1 \<le> cnt" using True by auto
    from Cons.IH [OF w(1) tree1 _ _ this] Cons.prems(3,4) obtain k' where
      r: "arbiter_loop tr addr cnt (case ws @ ys of [] \<Rightarrow> None | y # _ \<Rightarrow> Some y) (n + 1) k1 = Some k'"
        "arbiter_done tr (if cnt \<le> 0 then ws else take (nat (cnt - (n + 1))) ws) k1 k'" by (auto simp: w(7))
    define out where "out = (if cnt \<le> 0 then ws else take (nat (cnt - (n + 1))) ws)"
    have sub: "set out \<subseteq> set ws" by (auto simp: out_def dest: in_set_takeD)
    then have out: "t \<notin> set out" using d by auto
    have "nat (cnt - n) = Suc (nat (cnt - (n + 1)))" if "\<not> cnt \<le> 0" using that True by auto
    then have tw: "(if cnt \<le> 0 then t # ws else take (nat (cnt - n)) (t # ws)) = t # out" by (simp add: out_def)
    note rr = r(2) [folded out_def, unfolded arbiter_done_def]
    have "woken k' t"
      using rr out w(2) unfolding woken_def wait_view_def by auto
    moreover have "filter (\<lambda>u. u \<notin> set out) (k_thread_trees k1 tr) = filter (\<lambda>u. u \<notin> set (t # out)) (k_thread_trees k tr)"
      using d by (simp add: w(4) distinct_remove1_removeAll Cons.prems(2) removeAll_filter_not_eq) (auto intro!: arg_cong2 [where f = append] filter_cong)
    ultimately have "arbiter_done tr (t # out) k k'"
      using rr w(3,4,5,6) unfolding arbiter_done_def by auto
    then show ?thesis using step r(1) tw by simp
  qed
qed

lemma arbiter_wakes:
  assumes inv: "waits_inv k"
  shows "\<exists>k'. arbiter_loop tr addr cnt (tree_nfind tr addr k) 0 k = Some k' \<and> arbiter_done tr (to_wake cnt (key_waiters k tr addr)) k k'"
proof -
  have li: "locks_inv k" using inv by (simp add: waits_inv_def)
  obtain xs ys where s: "k_thread_trees k tr = xs @ key_waiters k tr addr @ ys" "\<And>t. t \<in> set xs \<Longrightarrow> th_condvar_key (thread_of k t) < addr"
    "\<And>t. t \<in> set ys \<Longrightarrow> addr < th_condvar_key (thread_of k t)"
    by (rule key_waiters_split [OF li, of tr addr]) blast
  have ws: "t \<in> set (key_waiters k tr addr) \<Longrightarrow> th_condvar_key (thread_of k t) = addr" for t by (simp add: key_waiters_def)
  have it: "tree_nfind tr addr k = (case key_waiters k tr addr @ ys of [] \<Rightarrow> None | y # _ \<Rightarrow> Some y)"
    by (rule tree_nfind_first [OF s(1,2)]) (use s(3) ws in fastforce)+
  have "\<exists>k'. arbiter_loop tr addr cnt (tree_nfind tr addr k) 0 k = Some k' \<and>
      arbiter_done tr (if cnt \<le> 0 then key_waiters k tr addr else take (nat (cnt - 0)) (key_waiters k tr addr)) k k'"
    unfolding it by (rule arbiter_loop_ok [OF inv s(1) ws]) (use s(3) in fastforce)+
  then show ?thesis unfolding to_wake_def diff_0_right .
qed

lemma count_waiters_eq:
  assumes "\<And>t. t \<in> set vs \<Longrightarrow> th_condvar_key (thread_of k t) = addr" "\<And>t. t \<in> set ys \<Longrightarrow> th_condvar_key (thread_of k t) \<noteq> addr" "n \<le> cnt"
  shows "count_waiters k addr cnt (vs @ ys) n = min (n + int (length vs)) (cnt + 1)"
  using assms
proof (induction vs arbitrary: n)
  case Nil
  then show ?case by (cases ys) auto
next
  case (Cons t vs)
  then show ?case by (cases "cnt \<le> n") auto
qed

text \<open>The value that a signal leaves at the address.\<close>

definition modified_value :: "s32 \<Rightarrow> int \<Rightarrow> nat \<Rightarrow> s32" where
  "modified_value v cnt waiting =
     (if waiting = 0 then v + 1 else if cnt \<le> 0 then v - 2 else if int waiting \<le> cnt then v - 1 else v)"

lemma updated_value_eq:
  assumes inv: "waits_inv k"
  shows "updated_value tr addr v cnt (tree_nfind tr addr k) k = modified_value v cnt (length (key_waiters k tr addr))"
proof -
  have li: "locks_inv k" using inv by (simp add: waits_inv_def)
  obtain xs ys where s: "k_thread_trees k tr = xs @ key_waiters k tr addr @ ys" "\<And>t. t \<in> set xs \<Longrightarrow> th_condvar_key (thread_of k t) < addr"
    "\<And>t. t \<in> set ys \<Longrightarrow> addr < th_condvar_key (thread_of k t)"
    by (rule key_waiters_split [OF li, of tr addr]) blast
  have ws: "t \<in> set (key_waiters k tr addr) \<Longrightarrow> th_condvar_key (thread_of k t) = addr" for t by (simp add: key_waiters_def)
  have ne: "\<And>t. t \<in> set ys \<Longrightarrow> th_condvar_key (thread_of k t) \<noteq> addr" using s(3) by fastforce
  have it: "tree_nfind tr addr k = (case key_waiters k tr addr @ ys of [] \<Rightarrow> None | y # _ \<Rightarrow> Some y)"
    by (rule tree_nfind_first [OF s(1,2)]) (use s(3) ws in fastforce)+
  show ?thesis
  proof (cases "key_waiters k tr addr")
    case Nil
    then show ?thesis using it ne by (auto simp: updated_value_def modified_value_def split: list.split)
  next
    case (Cons t vs)
    have "t \<notin> set xs" using trees_of(2) [OF li, of tr] s(1) Cons by auto
    then have "dropWhile (\<lambda>x. x \<noteq> t) (k_thread_trees k tr) = t # vs @ ys"
      unfolding s(1) Cons by (subst dropWhile_append2) auto
    then have "elements_after t (k_thread_trees k tr) = vs @ ys" by (simp add: elements_after_def)
    moreover have "count_waiters k addr cnt (vs @ ys) 0 = min (int (length vs)) (cnt + 1)" if "0 < cnt"
      using count_waiters_eq [of vs k addr ys 0 cnt] ws ne Cons that by simp
    ultimately show ?thesis using it ws Cons by (auto simp: updated_value_def modified_value_def)
  qed
qed

lemma WriteToUser_same [simp]: "WriteToUser c a (ReadFromUser c a k) k = k"
  by (simp add: WriteToUser_def ReadFromUser_def)

definition signal_value :: "SignalType \<Rightarrow> s32 \<Rightarrow> s32 \<Rightarrow> int \<Rightarrow> nat \<Rightarrow> s32" where
  "signal_value type user_value v cnt waiting =
     (case type of
        Signal \<Rightarrow> user_value
      | SignalAndIncrementIfEqual \<Rightarrow> v + 1
      | SignalAndModifyByWaitingCountIfEqual \<Rightarrow> modified_value v cnt waiting)"

lemma arbiter_signal_ok:
  fixes c :: caller and addr :: u64 and k :: kernel
  defines "tr \<equiv> AddressArbiters (cl_process c)"
  defines "ws \<equiv> key_waiters k tr addr"
  assumes inv: "waits_inv k"
  shows "\<exists>r k'. KAddressArbiter_SignalToAddress c addr type v cnt k = Some (r, k') \<and>
    (if type = Signal \<or> ReadFromUser c addr k = v
     then r = ResultSuccess \<and>
       arbiter_done tr (to_wake cnt ws) (WriteToUser c addr (signal_value type (ReadFromUser c addr k) v cnt (length ws)) k) k'
     else r = ResultInvalidState \<and> k' = k)"
proof -
  have kw: "key_waiters (WriteToUser c addr x k) tr addr = ws" "tree_nfind tr addr (WriteToUser c addr x k) = tree_nfind tr addr k" for x
    by (simp_all add: ws_def key_waiters_def tree_nfind_def)
  have wake: "\<exists>k'. arbiter_loop tr addr cnt (tree_nfind tr addr k) 0 (WriteToUser c addr x k) = Some k' \<and>
      arbiter_done tr (to_wake cnt ws) (WriteToUser c addr x k) k'" for x
    using arbiter_wakes [of "WriteToUser c addr x k" tr addr cnt] inv unfolding kw by simp
  note plain = wake [of "ReadFromUser c addr k", simplified]
  show ?thesis
  proof (cases type)
    case Signal
    then show ?thesis using plain unfolding tr_def by (auto simp: KAddressArbiter_SignalToAddress_def KAddressArbiter_Signal_def Let_def signal_value_def)
  next
    case SignalAndIncrementIfEqual
    then show ?thesis using wake [of "v + 1"] kw(2) unfolding tr_def
      by (auto simp: KAddressArbiter_SignalToAddress_def KAddressArbiter_SignalAndIncrementIfEqual_def Let_def UpdateIfEqual_def signal_value_def)
  next
    case SignalAndModifyByWaitingCountIfEqual
    define new where "new = modified_value v cnt (length ws)"
    have new: "updated_value tr addr v cnt (tree_nfind tr addr k) k = new"
      using updated_value_eq [OF inv, of tr addr v cnt] by (simp add: new_def ws_def)
    have "KAddressArbiter_SignalToAddress c addr type v cnt k =
        (if ReadFromUser c addr k \<noteq> v then Some (ResultInvalidState, k)
         else map_option (Pair ResultSuccess) (arbiter_loop tr addr cnt (tree_nfind tr addr k) 0 (WriteToUser c addr new k)))"
      using new SignalAndModifyByWaitingCountIfEqual WriteToUser_same [of c addr k] unfolding tr_def
      by (cases "v = new"; cases "ReadFromUser c addr k = v") (simp_all add: KAddressArbiter_SignalToAddress_def
          KAddressArbiter_SignalAndModifyByWaitingCountIfEqual_def Let_def UpdateIfEqual_def)
    then show ?thesis using wake [of new] SignalAndModifyByWaitingCountIfEqual by (auto simp: signal_value_def new_def)
  qed
qed

section \<open>Waiting for an address\<close>

lemma wait_in_arbiter_ok:
  assumes inv: "waits_inv k" and cur: "wait_queue k (cl_thread c) = None"
  shows "waits_inv (wait_in_arbiter c addr k)"
    "in_tree (wait_in_arbiter c addr k) u = (if u = cl_thread c then Some (AddressArbiters (cl_process c)) else in_tree k u)"
    "th_condvar_key (thread_of (wait_in_arbiter c addr k) u) = (if u = cl_thread c then addr else th_condvar_key (thread_of k u))"
    "k_memory (wait_in_arbiter c addr k) = k_memory k"
proof -
  let ?t = "cl_thread c" and ?tr = "AddressArbiters (cl_process c)"
  let ?h = "\<lambda>th. th \<lparr> th_condvar_tree := Some ?tr, th_condvar_key := addr \<rparr>"
  define k4 where "k4 = tree_insert_thread ?tr ?t (set_thread ?t ?h k)"
  note n = not_waiting [OF inv cur]
  have h: "unkeyed (?h th) = unkeyed th" "th_condvar_tree (?h th) = Some ?tr" for th by (simp_all add: unkeyed_def)
  have li: "locks_inv k" using inv by (simp add: waits_inv_def)
  note e = enter_tree_ok [OF li n(1,2) h, folded k4_def]
  have th: "thread_of k4 u = (if u = ?t then ?h (thread_of k ?t) else thread_of k u)" for u by (simp add: k4_def tree_insert_thread_def)
  have k': "wait_in_arbiter c addr k = BeginWait ?t (ForKAddressArbiter ?tr) k4"
    by (simp add: wait_in_arbiter_def Let_def SetAddressArbiter_def k4_def)
  show "waits_inv (wait_in_arbiter c addr k)" unfolding k'
  proof (rule BeginWait_ok [OF e(1)])
    show "wait_ok k4 u" if "u \<noteq> ?t" for u
      using that inv wait_ok_view [of k4 u k] by (simp add: wait_view_def e(2) th waits_inv_def)
    show "queue_fits (Some (ForKAddressArbiter ?tr)) (GetLockOwner k4 ?t \<noteq> None) (is_kernel k4 ?t) (in_tree k4 ?t)"
      using n(1) by (simp add: queue_fits_def e(2) th)
  qed
  have v: "locks_view (BeginWait ?t (ForKAddressArbiter ?tr) k4) = locks_view k4" by simp
  show "in_tree (wait_in_arbiter c addr k) u = (if u = ?t then Some ?tr else in_tree k u)"
    "th_condvar_key (thread_of (wait_in_arbiter c addr k) u) = (if u = ?t then addr else th_condvar_key (thread_of k u))"
    unfolding k' locks_viewD(8,9) [OF v] th by simp_all
  have "lock_state (BeginWait ?t (ForKAddressArbiter ?tr) k4) = lock_state k4"
    by (simp add: BeginWait_def SetState_def store_state_def Let_def)
  then show "k_memory (wait_in_arbiter c addr k) = k_memory k" unfolding k' by (simp add: lock_state_def k4_def tree_insert_thread_def set_thread_def)
qed

definition may_wait :: "ArbitrationType \<Rightarrow> s32 \<Rightarrow> s32 \<Rightarrow> bool" where
  "may_wait type user_value v = (case type of WaitIfEqual \<Rightarrow> user_value = v | _ \<Rightarrow> sint user_value < sint v)"

lemma arbiter_wait_eq:
  fixes c :: caller and addr :: u64 and k :: kernel and v :: s32 and type :: ArbitrationType
  defines "k1 \<equiv> (if type = DecrementAndWaitIfLessThan then WriteToUser c addr (ReadFromUser c addr k - 1) k else k)"
  shows "KAddressArbiter_WaitForAddress c addr type v timeout k =
    (if IsTerminationRequested (thread_of k (cl_thread c)) then (Some ResultTerminationRequested, k)
     else if \<not> may_wait type (ReadFromUser c addr k) v then (Some ResultInvalidState, k)
     else if timeout = 0 then (Some ResultTimedOut, k1) else (None, wait_in_arbiter c addr k1))"
  unfolding k1_def
  by (cases type) (auto simp: KAddressArbiter_WaitForAddress_def KAddressArbiter_WaitIfLessThan_def KAddressArbiter_WaitIfEqual_def
      DecrementIfLessThan_def may_wait_def Let_def not_less)

end
