(* ===== verification/LightLock.thy ===== *)
theory LightLock
  imports PriorityInheritance
begin

text \<open>
  The lock of the kernel itself (\<^verbatim>\<open>core/hle/kernel/k_light_lock.{h,cpp}\<close>): a word that holds the owner, with its lowest bit set
  when threads may wait, and the threads that wait as waiters of the owner, under the address of the word.

  The word is zero, or the pointer of a thread and its lowest bit, which is free in the pointer. The exchange of \<^verbatim>\<open>Lock\<close>
  is one step of the current thread, and the slow paths run under the scheduler lock.
\<close>

type_synonym lock_tag = "(thread \<times> bool) option"

definition IsLocked :: "lock_tag \<Rightarrow> bool" where
  "IsLocked tag \<longleftrightarrow> tag \<noteq> None"

definition IsLockedByCurrentThread :: "thread \<Rightarrow> lock_tag \<Rightarrow> bool" where
  "IsLockedByCurrentThread cur tag = (case tag of None \<Rightarrow> False | Some (t, _) \<Rightarrow> t = cur)"

text \<open>The exchange of \<^verbatim>\<open>Lock\<close>.\<close>

definition lock_exchange :: "thread \<Rightarrow> lock_tag \<Rightarrow> lock_tag" where
  "lock_exchange cur old_tag = (case old_tag of None \<Rightarrow> Some (cur, False) | Some (owner, _) \<Rightarrow> Some (owner, True))"

definition ContinueIfHasKernelWaiters :: "thread \<Rightarrow> kernel \<Rightarrow> kernel" where
  "ContinueIfHasKernelWaiters t k = (if 0 < th_num_kernel_waiters (thread_of k t) then Continue t k else k)"

text \<open>Waiting for the owner that the exchange found, unless the word has changed since; the value is whether the thread waited.\<close>

definition LockSlowPath :: "u64 \<Rightarrow> thread \<Rightarrow> thread \<Rightarrow> lock_tag \<Rightarrow> kernel \<Rightarrow> (bool \<times> kernel) option" where
  "LockSlowPath key owner cur tag k =
     (if tag \<noteq> Some (owner, True) then Some (False, k)
      else
        (case AddWaiter cur owner cur (SetKernelAddressKey cur key k) of
           None \<Rightarrow> None
         | Some k1 \<Rightarrow>
             (let k2 = BeginWait cur ForKLightLock k1
              in Some (True, if IsSuspended (thread_of k2 owner) then ContinueIfHasKernelWaiters owner k2 else k2))))"

definition UnlockSlowPath :: "u64 \<Rightarrow> thread \<Rightarrow> kernel \<Rightarrow> (lock_tag \<times> kernel) option" where
  "UnlockSlowPath key cur k =
     (case RemoveWaiterByKey cur cur key True k of
        None \<Rightarrow> None
      | Some (next_owner, has_waiters, k1) \<Rightarrow>
          (let next_tag = (case next_owner of None \<Rightarrow> None | Some t \<Rightarrow> Some (t, has_waiters));
               k2 = (case next_owner of
                       None \<Rightarrow> k1
                     | Some t \<Rightarrow>
                         (let k' = EndWait t ResultSuccess k1
                          in if IsSuspended (thread_of k' t) then ContinueIfHasKernelWaiters t k' else k'));
               k3 = (if IsSuspended (thread_of k2 cur) then TrySuspend cur k2 else k2)
           in Some (next_tag, k3)))"

definition Unlock :: "u64 \<Rightarrow> thread \<Rightarrow> lock_tag \<Rightarrow> kernel \<Rightarrow> (lock_tag \<times> kernel) option" where
  "Unlock key cur tag k = (if tag = Some (cur, False) then Some (None, k) else UnlockSlowPath key cur k)"

end
