(* ===== verification/LightLockBehaviour.thy ===== *)
theory LightLockBehaviour
  imports LightLock WaitingBehaviour
begin

text \<open>
  The lock of the kernel: mutual exclusion, and no thread waits for a lock that nobody has. The threads take steps in any order, other
  operations of the kernel included.
\<close>

section \<open>Waiters of a key of the kernel\<close>

text \<open>The threads that wait for one thread with one key wait in the same lock.\<close>

definition one_lock_per_key :: "kernel \<Rightarrow> bool" where
  "one_lock_per_key k \<longleftrightarrow>
     (\<forall>u v r. is_kernel k u \<and> is_kernel k v \<and> GetLockOwner k u = Some r \<and> GetLockOwner k v = Some r \<and>
        th_address_key (thread_of k u) = th_address_key (thread_of k v) \<longrightarrow> waits k u = waits k v)"

lemma one_lockI:
  assumes "\<And>u v r. is_kernel k u \<Longrightarrow> is_kernel k v \<Longrightarrow> GetLockOwner k u = Some r \<Longrightarrow> GetLockOwner k v = Some r \<Longrightarrow>
    th_address_key (thread_of k u) = th_address_key (thread_of k v) \<Longrightarrow> waits k u = waits k v"
  shows "one_lock_per_key k"
  using assms unfolding one_lock_per_key_def by blast

lemma one_lockD:
  assumes "one_lock_per_key k" "is_kernel k u" "is_kernel k v" "GetLockOwner k u = Some r" "GetLockOwner k v = Some r"
    "th_address_key (thread_of k u) = th_address_key (thread_of k v)"
  shows "waits k u = waits k v"
  using assms unfolding one_lock_per_key_def by blast

lemma one_lock_view:
  assumes "locks_view k' = locks_view k"
  shows "one_lock_per_key k' = one_lock_per_key k"
  unfolding one_lock_per_key_def locks_viewD(3,4,6) [OF assms] locks_view_shapes(1) [OF assms] ..

lemma AddWaiterImpl_one_lock:
  assumes shape: "lock_shape k" and t: "waits k t = None" and one: "one_lock_per_key k"
  shows "one_lock_per_key (AddWaiterImpl owner t k)"
proof -
  let ?k = "AddWaiterImpl owner t k"
  obtain l i where
    li: "l \<in> set (held k owner) \<and> k_lock_infos k l = Some i \<or> FindHeldLock (th_address_key (thread_of k t)) (is_kernel k t) owner k = None"
    and key: "li_address_key i = th_address_key (thread_of k t)" "li_is_kernel_address_key i = is_kernel k t"
    and waits: "\<And>u. waits ?k u = (if u = t then Some l else waits k u)"
    by (rule AddWaiterImpl_fields [OF shape, of owner t]) blast
  note a = AddWaiterImpl_shape(2) [OF shape t, of owner] and same = lock_onlyD(3,4) [OF lock_only_ops(1) [of k owner t]]
  have join: "waits k u = Some l"
    if u: "is_kernel k u" "is_kernel k t" "GetLockOwner k u = Some owner" "th_address_key (thread_of k u) = th_address_key (thread_of k t)" for u
  proof -
    have "FindHeldLock (th_address_key (thread_of k t)) (is_kernel k t) owner k \<noteq> None"
      using FindHeldLock_None [OF shape, of "th_address_key (thread_of k t)" "is_kernel k t" owner u] u by auto
    then have l: "l \<in> set (held k owner)" "k_lock_infos k l = Some i" using li by auto
    then have ok: "lock_ok k l i" using lock_shapeD(1) [OF shape] by blast
    then obtain w where w: "w \<in> set (li_tree i)" by (cases "li_tree i") (auto simp: lock_ok_def)
    then have "waits k w = Some l" "is_kernel k w" "th_address_key (thread_of k w) = th_address_key (thread_of k t)"
      using ok key u(2) by (auto simp: lock_ok_def)
    moreover have "GetLockOwner k w = Some owner" using GetLockOwner_iff [OF shape, of w owner] l w by blast
    ultimately show ?thesis using one_lockD [OF one u(1) _ u(3)] u(4) by metis
  qed
  show ?thesis
  proof (rule one_lockI)
    fix u v r
    assume h: "is_kernel ?k u" "is_kernel ?k v" "GetLockOwner ?k u = Some r" "GetLockOwner ?k v = Some r"
      "th_address_key (thread_of ?k u) = th_address_key (thread_of ?k v)"
    have o: "r = owner" if "u = t \<or> v = t" using h(3,4) that unfolding a by (auto split: if_splits)
    show "waits ?k u = waits ?k v"
    proof (cases "u = t \<or> v = t")
      case True
      have "waits ?k u = Some l" using True o h join [of u] unfolding same a waits by (cases "u = t") simp_all
      moreover have "waits ?k v = Some l" using True o h join [of v] unfolding same a waits by (cases "v = t") simp_all
      ultimately show ?thesis by simp
    next
      case False
      then have "waits k u = waits k v" using h one_lockD [OF one, of u v r] unfolding same a by simp
      then show ?thesis using False unfolding waits by simp
    qed
  qed
qed

lemma RemoveWaiterImpl_one_lock:
  assumes shape: "lock_shape k" and t: "GetLockOwner k t = Some owner" and one: "one_lock_per_key k"
  shows "one_lock_per_key (RemoveWaiterImpl owner t k)"
proof -
  obtain l i where l: "waits k t = Some l" "k_lock_infos k l = Some i" "lock_ok k l i" "t \<in> set (li_tree i)"
    using waiterE [OF shape t] by metis
  have "li_waiter_count i = length (li_tree i)" using l(3) by (simp add: lock_ok_def)
  note f = RemoveWaiterImpl_fields(3) [OF l(1,2) this l(4), of owner]
  note a = RemoveWaiterImpl_shape(2) [OF shape t] and same = lock_onlyD(3,4) [OF lock_only_ops(2) [of k owner t]]
  show ?thesis
  proof (rule one_lockI, unfold same a f)
    fix u v r
    assume h: "is_kernel k u" "is_kernel k v" "((GetLockOwner k)(t := None)) u = Some r" "((GetLockOwner k)(t := None)) v = Some r"
      "th_address_key (thread_of k u) = th_address_key (thread_of k v)"
    then have "u \<noteq> t" "v \<noteq> t" by auto
    then show "(if u = t then None else waits k u) = (if v = t then None else waits k v)" using h one_lockD [OF one, of u v r] by simp
  qed
qed

lemma reprioritize_one_lock:
  assumes "lock_shape k" "tree_shape k" "waits k t = None" "one_lock_per_key k"
  shows "one_lock_per_key (reprioritize t p k)"
proof -
  have s: "is_kernel (reprioritize t p k) u = is_kernel k u" "waits (reprioritize t p k) u = waits k u"
    "th_address_key (thread_of (reprioritize t p k) u) = th_address_key (thread_of k u)" for u
    by (simp_all add: reprioritize_fields)
  show ?thesis using assms(4) unfolding one_lock_per_key_def s reprioritize_shape(2) [OF assms(1-3)] .
qed

lemma restore_turn_one_lock:
  assumes shape: "lock_shape k" "tree_shape k" and one: "one_lock_per_key k"
  shows "one_lock_per_key (restore_turn cur t p k)"
proof -
  have "one_lock_per_key (change_priority t p k)"
  proof (cases "GetLockOwner k t")
    case None
    then have "waits k t = None" by (simp add: GetLockOwner_None [OF shape(1)])
    then show ?thesis using None reprioritize_one_lock [OF shape _ one] by (simp add: change_priority_def)
  next
    case (Some owner)
    define k1 where "k1 = RemoveWaiterImpl owner t k"
    note r = RemoveWaiterImpl_shape [OF shape(1) Some, folded k1_def]
    have lo1: "lock_only k k1" unfolding k1_def by (rule lock_only_ops)
    have "tree_shape k1"
    proof (rule lock_only_tree_shape [OF lo1 shape(2)])
      show "waits k u \<noteq> None \<or> th_condvar_tree (thread_of k u) = None" if "waits k1 u \<noteq> None" for u
        using that GetLockOwner_None [OF shape(1), of u] GetLockOwner_None [OF r(1), of u] unfolding r(2) by (auto split: if_splits)
    qed
    note q = reprioritize_shape [OF r(1) this r(3), of p]
    have one1: "one_lock_per_key (reprioritize t p k1)"
      by (rule reprioritize_one_lock [OF r(1) \<open>tree_shape k1\<close> r(3) RemoveWaiterImpl_one_lock [OF shape(1) Some one, folded k1_def]])
    have "waits (reprioritize t p k1) t = None" using r(3) by (simp add: reprioritize_fields)
    from AddWaiterImpl_one_lock [OF q(1) this one1] show ?thesis using Some by (simp add: change_priority_def k1_def)
  qed
  then show ?thesis using one_lock_view [of "restore_turn cur t p k" "change_priority t p k"] by (simp add: restore_turn_eq)
qed

lemma RestorePriority_one_lock:
  assumes "RestorePriority cur who k = Some k'" "restorable k" "one_lock_per_key k"
  shows "one_lock_per_key k'"
proof -
  have "restorable k \<longrightarrow> one_lock_per_key k \<longrightarrow> one_lock_per_key k'"
  proof (rule RestorePriority.raw_induct [OF _ assms(1)], intro impI)
    fix restore cur who k k'
    assume IH: "\<And>cur who k k'. restore cur who k = Some k' \<Longrightarrow> restorable k \<longrightarrow> one_lock_per_key k \<longrightarrow> one_lock_per_key k'"
      and res: "(case who of None \<Rightarrow> Some k
        | Some t \<Rightarrow> let new_priority = inherited_priority k t
            in if new_priority = prio k t then Some k else restore cur (GetLockOwner k t) (restore_turn cur t new_priority k)) = Some k'"
      and k: "restorable k" "one_lock_per_key k"
    show "one_lock_per_key k'"
    proof (cases "\<exists>t. who = Some t \<and> inherited_priority k t \<noteq> prio k t")
      case True
      then obtain t where t: "who = Some t" "inherited_priority k t \<noteq> prio k t" by blast
      have "lock_shape k" "tree_shape k" using k(1) by (simp_all add: restorable_def)
      then have "one_lock_per_key (restore_turn cur t (inherited_priority k t) k)" using restore_turn_one_lock k(2) by blast
      moreover have "restore cur (GetLockOwner k t) (restore_turn cur t (inherited_priority k t) k) = Some k'"
        using res t by (simp add: Let_def)
      ultimately show ?thesis using IH restorable_turn [OF k(1)] by blast
    next
      case False
      then have "k' = k" using res by (auto simp: Let_def split: option.splits)
      then show ?thesis using k(2) by simp
    qed
  qed
  then show ?thesis using assms(2,3) by blast
qed

lemma AddWaiter_one_lock:
  assumes inv: "locks_inv k" and t: "waits k t = None" "in_tree k t = None" and one: "one_lock_per_key k"
    and k': "AddWaiter cur owner t k = Some k'"
  shows "one_lock_per_key k'"
proof -
  have "one_lock_per_key (AddWaiterImpl owner t k)" by (rule AddWaiterImpl_one_lock [OF locks_invD(1) [OF inv] t(1) one])
  then show ?thesis
    using k' RestorePriority_one_lock AddWaiterImpl_restorable [OF inv t] unfolding AddWaiter_def Let_def by (metis option.inject)
qed

text \<open>A lock of the kernel may pass to a thread that has no lock of that key yet; locks of processes do not matter.\<close>

lemma RemoveWaiterByKey_one_lock:
  assumes inv: "locks_inv k" and one: "one_lock_per_key k" and k': "RemoveWaiterByKey cur owner key b k = Some (nx, others, k')"
    and free: "\<And>n w. nx = Some n \<Longrightarrow> b \<Longrightarrow> \<not> (GetLockOwner k w = Some n \<and> is_kernel k w \<and> th_address_key (thread_of k w) = key)"
  shows "one_lock_per_key k'"
proof (cases "FindHeldLock key b owner k")
  case None
  then show ?thesis using k' one by (simp add: RemoveWaiterByKey_def)
next
  case (Some l)
  obtain i where i: "l \<in> set (held k owner)" "k_lock_infos k l = Some i" "li_address_key i = key" "li_is_kernel_address_key i = b"
    by (rule FindHeldLock_Some [OF Some])
  have ok: "lock_ok k l i" by (rule lock_shapeD(1) [OF locks_invD(1) [OF inv] i(2)])
  define n where "n = hd (li_tree i)"
  define k1 where "k1 = snd (snd (pass_lock owner l i k))"
  have t: "li_waiter_count i = length (li_tree i)" "li_tree i \<noteq> []"
    "\<And>w. waits k w = Some l \<Longrightarrow> th_address_key (thread_of k w) = key \<and> is_kernel k w = b" using ok i(3,4) by (auto simp: lock_ok_def)
  note p = pass_lock_shape [OF locks_invD(1) [OF inv] i(1,2), folded k1_def n_def]
  note f = pass_lock_fields(1,2,4) [OF i(2) t(1,2), of owner, folded k1_def n_def]
  have "pass_lock owner l i k = (n, tl (li_tree i) \<noteq> [], k1)" using f by (simp add: k1_def prod_eq_iff)
  then have res: "nx = Some n" "(if may_restore owner n k1 then RestorePriority cur (Some owner) k1 else Some k1) = Some k'"
    using k' by (auto simp: RemoveWaiterByKey_def Some i(2) split: option.splits if_splits)
  have lo: "lock_only k k1" unfolding k1_def by (rule lock_only_ops)
  note same = lock_onlyD(3,4) [OF lo]
  have "one_lock_per_key k1"
  proof (rule one_lockI, unfold same p(3) f(3))
    fix u v r
    let ?own = "\<lambda>u. if u = n then None else if waits k u = Some l then Some n else GetLockOwner k u"
    assume h: "is_kernel k u" "is_kernel k v" "?own u = Some r" "?own v = Some r"
      "th_address_key (thread_of k u) = th_address_key (thread_of k v)"
    have n: "u \<noteq> n" "v \<noteq> n" using h(3,4) by auto
    have "waits k u = waits k v"
    proof (cases "waits k u = Some l \<or> waits k v = Some l")
      case True
      then have "b" "th_address_key (thread_of k u) = key" "th_address_key (thread_of k v) = key" "r = n"
        using t(3) [of u] t(3) [of v] h n by auto
      then show ?thesis using free [OF res(1)] h n by (metis option.inject)
    next
      case False
      then show ?thesis using h n one_lockD [OF one, of u v r] by simp
    qed
    then show "(if u = n then None else waits k u) = (if v = n then None else waits k v)" using n by simp
  qed
  then show ?thesis
    using res(2) RestorePriority_one_lock pass_lock_restorable [OF inv i(1,2), folded k1_def] by (metis option.inject)
qed

end
