(* ===== verification/LightLockSystem.thy ===== *)
theory LightLockSystem
  imports LightLockBehaviour Transition
begin

text \<open>
  Threads that take and release locks of the kernel, in any order and with any other operation of the kernel between their steps that
  leaves the waiters of these locks alone.
\<close>

section \<open>Suspension\<close>

text \<open>The requests of suspension of a thread, which stay above the bits of its state.\<close>

abbreviation requests :: "kernel \<Rightarrow> thread \<Rightarrow> u32" where
  "requests k t \<equiv> th_suspend_request_flags (thread_of k t)"

definition requests_ok :: "kernel \<Rightarrow> bool" where
  "requests_ok k \<longleftrightarrow> (\<forall>t. requests k t AND 0xF = 0)"

interpretation request_view: link_blind th_suspend_request_flags
  by unfold_locales simp

lemma projectedD: "projected f ths' = projected f ths \<Longrightarrow> f (ths' u) = f (ths u)"
  by (simp add: projected_def fun_eq_iff)

lemma projected_store_state:
  "projected th_suspend_request_flags (k_threads (store_state t s k)) = projected th_suspend_request_flags (k_threads k)"
  "projected th_wait_queue (k_threads (store_state t s k)) = projected th_wait_queue (k_threads k)"
  by (simp_all add: store_state_def projected_upd)

lemma requests_waiting:
  "requests (BeginWait t q k) u = requests k u" "requests (EndWait t r k) u = requests k u"
proof -
  have s: "requests (SetState t s k) u = requests k u" for s k u
    by (rule projectedD) (simp add: SetState_def Let_def projected_store_state)
  show "requests (BeginWait t q k) u = requests k u" "requests (EndWait t r k) u = requests k u"
    by (simp_all add: BeginWait_def EndWait_def KThreadQueue_EndWait_def s)
qed

lemma suspension_fields:
  "locks_view (ContinueIfHasKernelWaiters t k) = locks_view k" "locks_view (TrySuspend t k) = locks_view k"
  "wait_queue (ContinueIfHasKernelWaiters t k) u = wait_queue k u" "wait_queue (TrySuspend t k) u = wait_queue k u"
  "requests (ContinueIfHasKernelWaiters t k) u = requests k u" "requests (TrySuspend t k) u = requests k u"
  "wait_queue (UpdateState t k) u = wait_queue k u" "requests (UpdateState t k) u = requests k u"
proof -
  show "locks_view (ContinueIfHasKernelWaiters t k) = locks_view k" "locks_view (TrySuspend t k) = locks_view k"
    by (simp_all add: ContinueIfHasKernelWaiters_def TrySuspend_def)
  show "wait_queue (ContinueIfHasKernelWaiters t k) u = wait_queue k u" "wait_queue (TrySuspend t k) u = wait_queue k u"
    "requests (ContinueIfHasKernelWaiters t k) u = requests k u" "requests (TrySuspend t k) u = requests k u"
    "wait_queue (UpdateState t k) u = wait_queue k u" "requests (UpdateState t k) u = requests k u"
    by (rule projectedD; simp add: ContinueIfHasKernelWaiters_def TrySuspend_def Continue_def UpdateState_def Let_def projected_store_state)+
qed

lemma state_after_On: "th_state (thread_of (OnThreadStateChanged t old k) u) = th_state (thread_of k u)"
  using arg_cong [where f = th_state, OF OnThreadStateChanged_fields(1) [of t old k u]] by (simp add: kept_fields)

lemma suspension_state:
  assumes "requests_ok k"
  shows "GetState (thread_of (ContinueIfHasKernelWaiters t k) u) = GetState (thread_of k u)"
    "GetState (thread_of (TrySuspend t k) u) = GetState (thread_of k u)" "GetState (thread_of (UpdateState t k) u) = GetState (thread_of k u)"
proof -
  have s: "th_state (thread_of (store_state t s k) u) = (if u = t then s else th_state (thread_of k u))" for s u by (simp add: store_state_def)
  have "th_state (thread_of (Continue t k) u) AND ThreadState_Mask = th_state (thread_of k u) AND ThreadState_Mask"
    by (cases "u = t") (simp_all add: Continue_def Let_def state_after_On s)
  then show "GetState (thread_of (ContinueIfHasKernelWaiters t k) u) = GetState (thread_of k u)"
    by (simp add: ContinueIfHasKernelWaiters_def GetState_def)
  have b: "bit ThreadState_Mask n \<longleftrightarrow> n < 4" "bit (0xF :: u32) n \<longleftrightarrow> n < 4" for n
  proof -
    have m: "ThreadState_Mask = mask 4" "(0xF :: u32) = mask 4" by (simp_all add: ThreadState_Mask_def mask_eq_exp_minus_1)
    show "bit ThreadState_Mask n \<longleftrightarrow> n < 4" unfolding m(1) bit_mask_iff by auto
    show "bit (0xF :: u32) n \<longleftrightarrow> n < 4" unfolding m(2) bit_mask_iff by auto
  qed
  have "\<not> bit (requests k t) n" if "n < 4" for n
  proof -
    have "requests k t AND 0xF = 0" using assms by (simp add: requests_ok_def)
    from arg_cong [where f = "\<lambda>w. bit w n", OF this] show ?thesis using that b(2) [of n] by (simp add: bit_and_iff)
  qed
  then have m: "(ucast (GetSuspendFlags (thread_of k t)) OR (x AND ThreadState_Mask)) AND ThreadState_Mask = x AND ThreadState_Mask" for x :: u16
    by (auto simp: bit_eq_iff bit_simps b GetSuspendFlags_def)
  have "th_state (thread_of (UpdateState t k) u) AND ThreadState_Mask = th_state (thread_of k u) AND ThreadState_Mask"
    by (cases "u = t") (auto simp: UpdateState_def Let_def state_after_On s m)
  then show "GetState (thread_of (TrySuspend t k) u) = GetState (thread_of k u)" "GetState (thread_of (UpdateState t k) u) = GetState (thread_of k u)"
    by (simp_all add: TrySuspend_def GetState_def)
qed

section \<open>Slow paths\<close>

text \<open>Steps that only suspend or continue threads.\<close>

definition same_waits :: "kernel \<Rightarrow> kernel \<Rightarrow> bool" where
  "same_waits k k' \<longleftrightarrow>
     locks_view k' = locks_view k \<and> (\<forall>u. wait_queue k' u = wait_queue k u \<and> requests k' u = requests k u \<and>
       GetState (thread_of k' u) = GetState (thread_of k u)) \<and> (queues_match k \<longrightarrow> queues_match k')"

lemma same_waits_refl [simp]: "same_waits k k"
  by (simp add: same_waits_def)

lemma same_waits_trans: "same_waits k k1 \<Longrightarrow> same_waits k1 k2 \<Longrightarrow> same_waits k k2"
  by (simp add: same_waits_def)

lemma same_waits_suspension:
  assumes "requests_ok k"
  shows "same_waits k (ContinueIfHasKernelWaiters t k)" "same_waits k (TrySuspend t k)" "same_waits k (UpdateState t k)"
proof -
  have "queues_match (ContinueIfHasKernelWaiters t k)" "queues_match (TrySuspend t k)" "queues_match (UpdateState t k)" if "queues_match k"
    using that Continue_ok [OF that] suspension_ok(1) [OF that] UpdateState_ok [OF that] by (simp_all add: ContinueIfHasKernelWaiters_def)
  then show "same_waits k (ContinueIfHasKernelWaiters t k)" "same_waits k (TrySuspend t k)" "same_waits k (UpdateState t k)"
    using assms by (simp_all add: same_waits_def suspension_fields suspension_state)
qed

lemma same_waitsD:
  assumes "same_waits k k'"
  shows "wait_queue k' u = wait_queue k u" "requests k' u = requests k u" "GetLockOwner k' = GetLockOwner k"
    "th_address_key (thread_of k' u) = th_address_key (thread_of k u)" "waits k' u = waits k u" "one_lock_per_key k' = one_lock_per_key k"
    "requests_ok k' = requests_ok k" "waits_inv k \<Longrightarrow> waits_inv k'"
proof -
  have v: "locks_view k' = locks_view k" using assms by (simp add: same_waits_def)
  show own: "GetLockOwner k' = GetLockOwner k" by (rule locks_view_shapes(1) [OF v])
  show "th_address_key (thread_of k' u) = th_address_key (thread_of k u)" "waits k' u = waits k u" by (rule locks_viewD(3,6) [OF v])+
  show "one_lock_per_key k' = one_lock_per_key k" by (rule one_lock_view [OF v])
  show "wait_queue k' u = wait_queue k u" "requests k' u = requests k u" using assms by (simp_all add: same_waits_def)
  show "requests_ok k' = requests_ok k" using assms by (simp add: requests_ok_def same_waits_def)
  have "wait_view k' u = wait_view k u" for u using assms own locks_viewD(4,8) [OF v] by (simp add: wait_view_def same_waits_def)
  then show "waits_inv k \<Longrightarrow> waits_inv k'"
    using locks_inv_view(1) [OF _ v] assms wait_ok_view [of k' _ k] locks_invD(3) by (auto simp: waits_inv_def same_waits_def)
qed

text \<open>Waiting: the current thread waits for the owner, with the address of the lock as its key.\<close>

lemma LockSlowPath_ok:
  assumes inv: "waits_inv k" "one_lock_per_key k" "requests_ok k" and cur: "wait_queue k t = None"
  shows "\<exists>k'. LockSlowPath key owner t (Some (owner, True)) k = Some (True, k') \<and> waits_inv k' \<and> one_lock_per_key k' \<and> requests_ok k' \<and>
    GetLockOwner k' = (GetLockOwner k)(t := Some owner) \<and> th_address_key (thread_of k' t) = key \<and> wait_queue k' t = Some ForKLightLock \<and>
    (\<forall>u. u \<noteq> t \<longrightarrow> wait_queue k' u = wait_queue k u \<and> th_address_key (thread_of k' u) = th_address_key (thread_of k u))"
proof -
  have li: "locks_inv k" using inv(1) by (simp add: waits_inv_def)
  note n = not_waiting [OF inv(1) cur]
  let ?h = "\<lambda>th. th \<lparr> th_address_key := key, th_is_kernel_address_key := True \<rparr>"
  define k1 where "k1 = set_thread t ?h k"
  have h: "unkeyed (?h th) = unkeyed th" for th by (simp add: unkeyed_def)
  have l1: "locks_inv k1" unfolding k1_def by (rule rekey_ok [OF li n(1,2) h]) simp_all
  note c1 = rekeyed [OF li n(1) h, folded k1_def]
  have t1: "is_kernel k1 t" "th_address_key (thread_of k1 t) = key" "in_tree k1 u = in_tree k u" "requests k1 u = requests k u"
    "u \<noteq> t \<Longrightarrow> is_kernel k1 u = is_kernel k u" "u \<noteq> t \<Longrightarrow> th_address_key (thread_of k1 u) = th_address_key (thread_of k u)" for u
    by (simp_all add: k1_def)
  have one1: "one_lock_per_key k1"
  proof (rule one_lockI, unfold c1(2,8))
    fix u v r
    assume a: "is_kernel k1 u" "is_kernel k1 v" "GetLockOwner k u = Some r" "GetLockOwner k v = Some r"
      "th_address_key (thread_of k1 u) = th_address_key (thread_of k1 v)"
    then have "u \<noteq> t" "v \<noteq> t" using n(1) by auto
    then show "waits k u = waits k v" using one_lockD [OF inv(2), of u v r] a t1(5,6) by simp
  qed
  have free: "waits k1 t = None" "in_tree k1 t = None" using n c1(8) t1(3) by simp_all
  from AddWaiter_ok [OF l1 free, of t owner] obtain k2 where k2: "AddWaiter t owner t k1 = Some k2" "locks_inv k2"
    "GetLockOwner k2 = (GetLockOwner k1)(t := Some owner)" "prio_frame k1 k2" by blast
  note fr = prio_frameD [OF k2(4)]
  have req2: "requests k2 u = requests k u" for u
  proof -
    have "core_part (thread_of k2 u) = core_part (thread_of k1 u)" using k2(4) by (simp add: prio_frame_def projected_def fun_eq_iff)
    from arg_cong [where f = th_suspend_request_flags, OF this] show ?thesis by (simp add: core_part_def lockless_def t1(4))
  qed
  define k3 where "k3 = BeginWait t ForKLightLock k2"
  have inv3: "waits_inv k3" unfolding k3_def
  proof (rule BeginWait_ok [OF k2(2)])
    show "wait_ok k2 u" if "u \<noteq> t" for u
    proof -
      have "wait_ok k2 u = wait_ok k1 u" by (rule wait_ok_frame [OF k2(4)]) (simp add: k2(3) that)
      moreover have "wait_ok k1 u = wait_ok k u" by (rule wait_ok_view) (use that t1 c1(2,5,6) in \<open>simp add: wait_view_def\<close>)
      ultimately show ?thesis using inv(1) by (simp add: waits_inv_def)
    qed
    show "queue_fits (Some ForKLightLock) (GetLockOwner k2 t \<noteq> None) (is_kernel k2 t) (in_tree k2 t)"
      using n(2) t1(1,3) fr(4,7) by (simp add: queue_fits_def k2(3))
  qed
  have v3: "locks_view k3 = locks_view k2" by (simp add: k3_def)
  have one3: "one_lock_per_key k3" using one_lock_view [OF v3] AddWaiter_one_lock [OF l1 free one1 k2(1)] by simp
  have req3: "requests_ok k3" using inv(3) by (simp add: requests_ok_def k3_def requests_waiting req2)
  have q3: "wait_queue k3 u = (if u = t then Some ForKLightLock else wait_queue k u)" for u
    unfolding k3_def waiting_fields fr(3) by (simp add: c1(5))
  have key3: "th_address_key (thread_of k3 u) = (if u = t then key else th_address_key (thread_of k u))" for u
    unfolding locks_viewD(3) [OF v3] fr(6) using t1(2,6) by simp
  have own3: "GetLockOwner k3 = (GetLockOwner k)(t := Some owner)" using locks_view_shapes(1) [OF v3] k2(3) c1(2) by simp
  define k4 where "k4 = (if IsSuspended (thread_of k3 owner) then ContinueIfHasKernelWaiters owner k3 else k3)"
  have s4: "same_waits k3 k4" using same_waits_suspension(1) [OF req3] by (simp add: k4_def)
  note d = same_waitsD [OF s4]
  have "LockSlowPath key owner t (Some (owner, True)) k = Some (True, k4)"
    using k2(1) by (simp add: LockSlowPath_def SetKernelAddressKey_def k1_def [symmetric] k3_def [symmetric] k4_def)
  then show ?thesis using d(8) [OF inv3] one3 req3 d(3,6,7) own3 by (simp add: d(1,4) q3 key3)
qed

text \<open>Passing the lock on: the waiter of highest priority has it, and the other waiters wait for that one.\<close>

lemma UnlockSlowPath_ok:
  assumes inv: "waits_inv k" "one_lock_per_key k" "requests_ok k"
    and free: "\<And>n w. GetLockOwner k n = Some t \<Longrightarrow> is_kernel k n \<Longrightarrow> th_address_key (thread_of k n) = key \<Longrightarrow>
      \<not> (GetLockOwner k w = Some n \<and> is_kernel k w \<and> th_address_key (thread_of k w) = key)"
  shows "\<exists>nx others k1 k'. UnlockSlowPath key t k = Some (case nx of None \<Rightarrow> None | Some n \<Rightarrow> Some (n, others), k') \<and>
    waits_inv k' \<and> one_lock_per_key k' \<and> requests_ok k' \<and> passed k t key True (nx, others, k1) \<and> GetLockOwner k' = GetLockOwner k1 \<and>
    (\<forall>u. wait_queue k' u = (if nx = Some u then None else wait_queue k u)) \<and>
    (\<forall>u. th_address_key (thread_of k' u) = th_address_key (thread_of k u))"
proof -
  have li: "locks_inv k" using inv(1) by (simp add: waits_inv_def)
  from RemoveWaiterByKey_ok [OF li, of t t key True] obtain nx others k1 where
    k1: "RemoveWaiterByKey t t key True k = Some (nx, others, k1)" "locks_inv k1" "prio_frame k k1" "passed k t key True (nx, others, k1)"
    by blast
  note fr = prio_frameD [OF k1(3)]
  have one1: "one_lock_per_key k1"
    by (rule RemoveWaiterByKey_one_lock [OF li inv(2) k1(1)]) (use free k1(4) in \<open>auto simp: passed_def\<close>)
  have req1: "requests k1 u = requests k u" for u
  proof -
    have "core_part (thread_of k1 u) = core_part (thread_of k u)" using k1(3) by (simp add: prio_frame_def projected_def fun_eq_iff)
    from arg_cong [where f = th_suspend_request_flags, OF this] show ?thesis by (simp add: core_part_def lockless_def)
  qed
  then have r1: "requests_ok k1" using inv(3) by (simp add: requests_ok_def)
  define k2 where "k2 = (case nx of None \<Rightarrow> k1 | Some n \<Rightarrow> EndWait n ResultSuccess k1)"
  have det: "detached k1 n" if "nx = Some n" for n using passed_detached [OF inv(1) k1(2,3)] k1(4) that by simp
  have inv2: "waits_inv k2"
  proof (cases nx)
    case None
    then show ?thesis using k1(4) inv(1) by (simp add: k2_def passed_def)
  next
    case (Some n)
    then show ?thesis using EndWait_ok(1) [OF det] by (simp add: k2_def)
  qed
  have v2: "locks_view k2 = locks_view k1" by (simp add: k2_def split: option.split)
  have r2: "requests_ok k2" using r1 by (simp add: requests_ok_def k2_def requests_waiting split: option.split)
  have q2: "wait_queue k2 u = (if nx = Some u then None else wait_queue k u)" for u
  proof (cases nx)
    case None
    then show ?thesis using fr(3) by (simp add: k2_def)
  next
    case (Some n)
    have n: "GetLockOwner k n = Some t" using k1(4) Some by (simp add: passed_def)
    then have "wait_queue k n \<noteq> None" using not_waiting(1) [OF inv(1), of n] by auto
    then have "wait_queue k1 n \<noteq> None" "GetState (thread_of k1 n) = Waiting"
      using fr(3) [of n] det [OF Some] by (simp_all add: detached_def state_fits_def)
    then show ?thesis using Some fr(3) [of u] by (auto simp: k2_def EndWait_def waiting_fields(3))
  qed
  define k3 where "k3 = (case nx of None \<Rightarrow> k2 | Some n \<Rightarrow> if IsSuspended (thread_of k2 n) then ContinueIfHasKernelWaiters n k2 else k2)"
  have s3: "same_waits k2 k3" using same_waits_suspension(1) [OF r2] by (simp add: k3_def split: option.split)
  define k4 where "k4 = (if IsSuspended (thread_of k3 t) then TrySuspend t k3 else k3)"
  have "requests_ok k3" using same_waitsD(7) [OF s3] r2 by simp
  then have "same_waits k3 k4" using same_waits_suspension(2) by (simp add: k4_def)
  then have s4: "same_waits k2 k4" by (rule same_waits_trans [OF s3])
  note d = same_waitsD [OF s4]
  have "UnlockSlowPath key t k = Some (case nx of None \<Rightarrow> None | Some n \<Rightarrow> Some (n, others), k4)"
    by (cases nx) (simp_all add: UnlockSlowPath_def k1(1) k2_def k3_def k4_def Let_def)
  moreover have "GetLockOwner k4 = GetLockOwner k1" using d(3) locks_view_shapes(1) [OF v2] by simp
  moreover have "one_lock_per_key k4" using d(6) one_lock_view [OF v2] one1 by simp
  moreover have "th_address_key (thread_of k4 u) = th_address_key (thread_of k u)" for u using d(4) locks_viewD(3) [OF v2] fr(6) by simp
  ultimately show ?thesis using d(8) [OF inv2] d(7) r2 k1(4) by (auto simp: d(1) q2)
qed

section \<open>Threads and locks\<close>

text \<open>
  Where a thread is in \<^verbatim>\<open>Lock\<close>: outside, after an exchange that found an owner, or in the slow path, from the beginning of the
  wait on. The locks are named by the addresses of their words; \<open>ls_locked\<close> has the locks for which a call of
  \<^verbatim>\<open>Lock\<close> has returned and no call of \<^verbatim>\<open>Unlock\<close> has begun.
\<close>

datatype lock_pc = Outside | Contending u64 thread | Sleeping u64

record light_state =
  ls_tags :: "u64 \<Rightarrow> lock_tag"
  ls_kernel :: kernel
  ls_pc :: "thread \<Rightarrow> lock_pc"
  ls_locked :: "thread \<Rightarrow> u64 set"

datatype light_event = Exchange thread u64 | Slow_Path thread u64 thread | Woken thread u64 | Unlocks thread u64 | Others

text \<open>Operations of the kernel that leave the waiters of these locks alone.\<close>

definition undisturbed :: "kernel \<Rightarrow> kernel \<Rightarrow> bool" where
  "undisturbed k k' \<longleftrightarrow>
     waits_inv k' \<and> one_lock_per_key k' \<and> requests_ok k' \<and>
     (\<forall>t. wait_queue k' t = Some ForKLightLock \<longleftrightarrow> wait_queue k t = Some ForKLightLock) \<and>
     (\<forall>t. wait_queue k t = Some ForKLightLock \<longrightarrow>
        GetLockOwner k' t = GetLockOwner k t \<and> th_address_key (thread_of k' t) = th_address_key (thread_of k t))"

inductive light_step :: "light_state \<Rightarrow> light_event \<Rightarrow> light_state \<Rightarrow> bool" where
  acquire: "ls_pc s t = Outside \<Longrightarrow> ls_tags s a = None \<Longrightarrow>
    light_step s (Exchange t a) (s \<lparr> ls_tags := (ls_tags s)(a := lock_exchange t (ls_tags s a)),
      ls_locked := (ls_locked s)(t := insert a (ls_locked s t)) \<rparr>)"
| contend: "ls_pc s t = Outside \<Longrightarrow> ls_tags s a = Some (owner, b) \<Longrightarrow>
    light_step s (Exchange t a) (s \<lparr> ls_tags := (ls_tags s)(a := lock_exchange t (ls_tags s a)),
      ls_pc := (ls_pc s)(t := Contending a owner) \<rparr>)"
| slow_path: "ls_pc s t = Contending a owner \<Longrightarrow> wait_queue (ls_kernel s) t = None \<Longrightarrow>
    LockSlowPath a owner t (ls_tags s a) (ls_kernel s) = Some (waited, k') \<Longrightarrow>
    light_step s (Slow_Path t a owner) (s \<lparr> ls_kernel := k', ls_pc := (ls_pc s)(t := if waited then Sleeping a else Outside) \<rparr>)"
| wake: "ls_pc s t = Sleeping a \<Longrightarrow> wait_queue (ls_kernel s) t = None \<Longrightarrow>
    light_step s (Woken t a) (s \<lparr> ls_pc := (ls_pc s)(t := Outside), ls_locked := (ls_locked s)(t := insert a (ls_locked s t)) \<rparr>)"
| unlock: "ls_pc s t = Outside \<Longrightarrow> a \<in> ls_locked s t \<Longrightarrow> Unlock a t (ls_tags s a) (ls_kernel s) = Some (tag, k') \<Longrightarrow>
    light_step s (Unlocks t a) (s \<lparr> ls_tags := (ls_tags s)(a := tag), ls_kernel := k', ls_locked := (ls_locked s)(t := ls_locked s t - {a}) \<rparr>)"
| others: "undisturbed (ls_kernel s) k' \<Longrightarrow> light_step s Others (s \<lparr> ls_kernel := k' \<rparr>)"

definition light_init :: "light_state \<Rightarrow> bool" where
  "light_init s \<longleftrightarrow> waits_inv (ls_kernel s) \<and> one_lock_per_key (ls_kernel s) \<and> requests_ok (ls_kernel s) \<and>
     ls_tags s = (\<lambda>_. None) \<and> ls_pc s = (\<lambda>_. Outside) \<and> ls_locked s = (\<lambda>_. {}) \<and>
     (\<forall>t. wait_queue (ls_kernel s) t \<noteq> Some ForKLightLock)"

text \<open>The thread that has a lock by its word: it has locked it, or has been given it while it slept.\<close>

abbreviation asleep :: "light_state \<Rightarrow> thread \<Rightarrow> bool" where
  "asleep s t \<equiv> wait_queue (ls_kernel s) t = Some ForKLightLock"

definition light_inv :: "light_state \<Rightarrow> bool" where
  "light_inv s \<longleftrightarrow>
     waits_inv (ls_kernel s) \<and> one_lock_per_key (ls_kernel s) \<and> requests_ok (ls_kernel s) \<and>
     (\<forall>t a. a \<in> ls_locked s t \<longrightarrow> (\<exists>b. ls_tags s a = Some (t, b))) \<and>
     (\<forall>t a. ls_pc s t = Sleeping a \<and> asleep s t \<longrightarrow> th_address_key (thread_of (ls_kernel s) t) = a \<and>
        (\<exists>r. GetLockOwner (ls_kernel s) t = Some r \<and> ls_tags s a = Some (r, True))) \<and>
     (\<forall>t a. ls_pc s t = Sleeping a \<and> \<not> asleep s t \<longrightarrow> (\<exists>b. ls_tags s a = Some (t, b))) \<and>
     (\<forall>t. asleep s t \<longrightarrow> (\<exists>a. ls_pc s t = Sleeping a)) \<and>
     (\<forall>t a b. ls_tags s a = Some (t, b) \<longrightarrow> a \<in> ls_locked s t \<or> ls_pc s t = Sleeping a \<and> \<not> asleep s t)"

lemma light_invD:
  assumes "light_inv s"
  shows "waits_inv (ls_kernel s)" "one_lock_per_key (ls_kernel s)" "requests_ok (ls_kernel s)"
    "a \<in> ls_locked s t \<Longrightarrow> \<exists>b. ls_tags s a = Some (t, b)"
    "ls_pc s t = Sleeping a \<Longrightarrow> asleep s t \<Longrightarrow> th_address_key (thread_of (ls_kernel s) t) = a"
    "ls_pc s t = Sleeping a \<Longrightarrow> asleep s t \<Longrightarrow> \<exists>r. GetLockOwner (ls_kernel s) t = Some r \<and> ls_tags s a = Some (r, True)"
    "ls_pc s t = Sleeping a \<Longrightarrow> \<not> asleep s t \<Longrightarrow> \<exists>b. ls_tags s a = Some (t, b)"
    "asleep s t \<Longrightarrow> \<exists>a. ls_pc s t = Sleeping a"
    "ls_tags s a = Some (t, b) \<Longrightarrow> a \<in> ls_locked s t \<or> ls_pc s t = Sleeping a \<and> \<not> asleep s t"
  using assms unfolding light_inv_def by blast+

lemma light_init_inv: "light_init s \<Longrightarrow> light_inv s"
  by (simp add: light_init_def light_inv_def)

lemma light_invI:
  assumes "waits_inv (ls_kernel s)" "one_lock_per_key (ls_kernel s)" "requests_ok (ls_kernel s)"
    "\<And>t a. a \<in> ls_locked s t \<Longrightarrow> \<exists>b. ls_tags s a = Some (t, b)"
    "\<And>t a. ls_pc s t = Sleeping a \<Longrightarrow> asleep s t \<Longrightarrow> th_address_key (thread_of (ls_kernel s) t) = a \<and>
      (\<exists>r. GetLockOwner (ls_kernel s) t = Some r \<and> ls_tags s a = Some (r, True))"
    "\<And>t a. ls_pc s t = Sleeping a \<Longrightarrow> \<not> asleep s t \<Longrightarrow> \<exists>b. ls_tags s a = Some (t, b)"
    "\<And>t. asleep s t \<Longrightarrow> \<exists>a. ls_pc s t = Sleeping a"
    "\<And>t a b. ls_tags s a = Some (t, b) \<Longrightarrow> a \<in> ls_locked s t \<or> ls_pc s t = Sleeping a \<and> \<not> asleep s t"
  shows "light_inv s"
  using assms unfolding light_inv_def by blast

lemma acquire_inv:
  assumes inv: "light_inv s" and pc: "ls_pc s t = Outside" and tag: "ls_tags s a = None"
  shows "light_inv (s \<lparr> ls_tags := (ls_tags s)(a := lock_exchange t (ls_tags s a)), ls_locked := (ls_locked s)(t := insert a (ls_locked s t)) \<rparr>)"
    (is "light_inv ?s")
proof -
  note d = light_invD [OF inv]
  have free: "a \<notin> ls_locked s u" "ls_pc s u \<noteq> Sleeping a" for u using d(4) [of a u] d(6,7) [of u a] tag by auto
  have f: "ls_kernel ?s = ls_kernel s" "ls_pc ?s = ls_pc s" "ls_tags ?s x = (if x = a then Some (t, False) else ls_tags s x)"
    "x \<in> ls_locked ?s u \<longleftrightarrow> x \<in> ls_locked s u \<or> u = t \<and> x = a" for x u by (auto simp: lock_exchange_def tag)
  show ?thesis
  proof (rule light_invI)
    show "\<exists>b. ls_tags ?s x = Some (u, b)" if "x \<in> ls_locked ?s u" for u x
      using that d(4) [of x u] free(1) [of u] unfolding f by auto
    show "th_address_key (thread_of (ls_kernel ?s) u) = x \<and> (\<exists>r. GetLockOwner (ls_kernel ?s) u = Some r \<and> ls_tags ?s x = Some (r, True))"
      if "ls_pc ?s u = Sleeping x" "asleep ?s u" for u x using that d(5,6) [of u x] free(2) [of u] unfolding f by auto
    show "\<exists>b. ls_tags ?s x = Some (u, b)" if "ls_pc ?s u = Sleeping x" "\<not> asleep ?s u" for u x
      using that d(7) [of u x] free(2) [of u] unfolding f by auto
    show "x \<in> ls_locked ?s u \<or> ls_pc ?s u = Sleeping x \<and> \<not> asleep ?s u" if "ls_tags ?s x = Some (u, b)" for u x b
      using that d(9) [of x u b] unfolding f by (auto split: if_splits)
  qed (use d(1-3,8) in \<open>simp_all add: f\<close>)
qed

lemma contend_inv:
  assumes inv: "light_inv s" and pc: "ls_pc s t = Outside" and tag: "ls_tags s a = Some (r, b)"
  shows "light_inv (s \<lparr> ls_tags := (ls_tags s)(a := lock_exchange t (ls_tags s a)), ls_pc := (ls_pc s)(t := Contending a r) \<rparr>)"
    (is "light_inv ?s")
proof -
  note d = light_invD [OF inv]
  have f: "ls_kernel ?s = ls_kernel s" "ls_pc ?s u = (if u = t then Contending a r else ls_pc s u)"
    "ls_tags ?s x = (if x = a then Some (r, True) else ls_tags s x)" "ls_locked ?s = ls_locked s" for x u
    by (auto simp: lock_exchange_def tag)
  have up: "\<exists>b'. ls_tags ?s x = Some (u, b')" if "\<exists>b'. ls_tags s x = Some (u, b')" for x u using that tag unfolding f by auto
  show ?thesis
  proof (rule light_invI)
    show "\<exists>b. ls_tags ?s x = Some (u, b)" if "x \<in> ls_locked ?s u" for u x using that d(4) [of x u] unfolding f(4) by (intro up) blast
    show "th_address_key (thread_of (ls_kernel ?s) u) = x \<and> (\<exists>r. GetLockOwner (ls_kernel ?s) u = Some r \<and> ls_tags ?s x = Some (r, True))"
      if "ls_pc ?s u = Sleeping x" "asleep ?s u" for u x using that d(5,6) [of u x] tag unfolding f by (auto split: if_splits)
    show "\<exists>b. ls_tags ?s x = Some (u, b)" if "ls_pc ?s u = Sleeping x" "\<not> asleep ?s u" for u x
      using that d(7) [of u x] unfolding f(1,2) by (intro up) (auto split: if_splits)
    show "\<exists>x. ls_pc ?s u = Sleeping x" if "asleep ?s u" for u using that d(8) [of u] pc unfolding f by auto
    show "x \<in> ls_locked ?s u \<or> ls_pc ?s u = Sleeping x \<and> \<not> asleep ?s u" if "ls_tags ?s x = Some (u, b')" for u x b'
      using that d(9) [of x u] tag pc unfolding f by (auto split: if_splits)
  qed (use d(1-3) in \<open>simp_all add: f\<close>)
qed

lemma slow_path_inv:
  assumes inv: "light_inv s" and pc: "ls_pc s t = Contending a r" and q: "wait_queue (ls_kernel s) t = None"
    and res: "LockSlowPath a r t (ls_tags s a) (ls_kernel s) = Some (waited, k')"
  shows "light_inv (s \<lparr> ls_kernel := k', ls_pc := (ls_pc s)(t := if waited then Sleeping a else Outside) \<rparr>)" (is "light_inv ?s")
proof (cases "ls_tags s a = Some (r, True)")
  case True
  note d = light_invD [OF inv]
  from LockSlowPath_ok [OF d(1-3) q, of a r] res True have w: waited and k': "waits_inv k'" "one_lock_per_key k'" "requests_ok k'"
    "GetLockOwner k' = (GetLockOwner (ls_kernel s))(t := Some r)" "th_address_key (thread_of k' t) = a" "wait_queue k' t = Some ForKLightLock"
    "\<And>u. u \<noteq> t \<Longrightarrow> wait_queue k' u = wait_queue (ls_kernel s) u"
    "\<And>u. u \<noteq> t \<Longrightarrow> th_address_key (thread_of k' u) = th_address_key (thread_of (ls_kernel s) u)" by auto
  have f: "ls_kernel ?s = k'" "ls_pc ?s u = (if u = t then Sleeping a else ls_pc s u)" "ls_tags ?s = ls_tags s" "ls_locked ?s = ls_locked s" for u
    using w by simp_all
  show ?thesis
  proof (rule light_invI)
    show "th_address_key (thread_of (ls_kernel ?s) u) = x \<and> (\<exists>r. GetLockOwner (ls_kernel ?s) u = Some r \<and> ls_tags ?s x = Some (r, True))"
      if "ls_pc ?s u = Sleeping x" "asleep ?s u" for u x
      using that d(5,6) [of u x] True k'(4,5) k'(7,8) [of u] unfolding f by (cases "u = t") auto
    show "\<exists>b. ls_tags ?s x = Some (u, b)" if "ls_pc ?s u = Sleeping x" "\<not> asleep ?s u" for u x
      using that d(7) [of u x] k'(6) k'(7) [of u] unfolding f by (cases "u = t") auto
    show "\<exists>x. ls_pc ?s u = Sleeping x" if "asleep ?s u" for u using that d(8) [of u] k'(7) [of u] unfolding f by (cases "u = t") auto
    show "x \<in> ls_locked ?s u \<or> ls_pc ?s u = Sleeping x \<and> \<not> asleep ?s u" if "ls_tags ?s x = Some (u, b')" for u x b'
      using that d(9) [of x u b'] pc k'(7) [of u] unfolding f by (cases "u = t") auto
  qed (use k' d(4) in \<open>simp_all add: f\<close>)
next
  case False
  note d = light_invD [OF inv]
  from False res have w: "\<not> waited" "k' = ls_kernel s" by (simp_all add: LockSlowPath_def)
  have f: "ls_kernel ?s = ls_kernel s" "ls_pc ?s u = (if u = t then Outside else ls_pc s u)" "ls_tags ?s = ls_tags s" "ls_locked ?s = ls_locked s" for u
    using w by simp_all
  show ?thesis
  proof (rule light_invI)
    show "th_address_key (thread_of (ls_kernel ?s) u) = x \<and> (\<exists>r. GetLockOwner (ls_kernel ?s) u = Some r \<and> ls_tags ?s x = Some (r, True))"
      if "ls_pc ?s u = Sleeping x" "asleep ?s u" for u x using that d(5,6) [of u x] unfolding f by (cases "u = t") auto
    show "\<exists>b. ls_tags ?s x = Some (u, b)" if "ls_pc ?s u = Sleeping x" "\<not> asleep ?s u" for u x
      using that d(7) [of u x] unfolding f by (cases "u = t") auto
    show "\<exists>x. ls_pc ?s u = Sleeping x" if "asleep ?s u" for u using that d(8) [of u] q unfolding f by (cases "u = t") auto
    show "x \<in> ls_locked ?s u \<or> ls_pc ?s u = Sleeping x \<and> \<not> asleep ?s u" if "ls_tags ?s x = Some (u, b')" for u x b'
      using that d(9) [of x u b'] pc unfolding f by (cases "u = t") auto
  qed (use d in \<open>simp_all add: f\<close>)
qed

lemma wake_inv:
  assumes inv: "light_inv s" and pc: "ls_pc s t = Sleeping a" and q: "wait_queue (ls_kernel s) t = None"
  shows "light_inv (s \<lparr> ls_pc := (ls_pc s)(t := Outside), ls_locked := (ls_locked s)(t := insert a (ls_locked s t)) \<rparr>)" (is "light_inv ?s")
proof -
  note d = light_invD [OF inv]
  have f: "ls_kernel ?s = ls_kernel s" "ls_pc ?s u = (if u = t then Outside else ls_pc s u)" "ls_tags ?s = ls_tags s"
    "x \<in> ls_locked ?s u \<longleftrightarrow> x \<in> ls_locked s u \<or> u = t \<and> x = a" for u x by auto
  have mine: "\<exists>b. ls_tags s a = Some (t, b)" using d(7) [OF pc] q by simp
  show ?thesis
  proof (rule light_invI)
    show "\<exists>b. ls_tags ?s x = Some (u, b)" if "x \<in> ls_locked ?s u" for u x using that d(4) [of x u] mine unfolding f by auto
    show "th_address_key (thread_of (ls_kernel ?s) u) = x \<and> (\<exists>r. GetLockOwner (ls_kernel ?s) u = Some r \<and> ls_tags ?s x = Some (r, True))"
      if "ls_pc ?s u = Sleeping x" "asleep ?s u" for u x using that d(5,6) [of u x] unfolding f by (cases "u = t") auto
    show "\<exists>b. ls_tags ?s x = Some (u, b)" if "ls_pc ?s u = Sleeping x" "\<not> asleep ?s u" for u x
      using that d(7) [of u x] unfolding f by (cases "u = t") auto
    show "\<exists>x. ls_pc ?s u = Sleeping x" if "asleep ?s u" for u using that d(8) [of u] q unfolding f by (cases "u = t") auto
    show "x \<in> ls_locked ?s u \<or> ls_pc ?s u = Sleeping x \<and> \<not> asleep ?s u" if "ls_tags ?s x = Some (u, b')" for u x b'
      using that d(9) [of x u b'] pc unfolding f by (cases "u = t") auto
  qed (use d(1-3) in \<open>simp_all add: f\<close>)
qed

lemma kernel_waiter_asleep:
  assumes "waits_inv k" "GetLockOwner k u = Some r" "is_kernel k u"
  shows "wait_queue k u = Some ForKLightLock"
proof -
  have "queue_fits (wait_queue k u) (GetLockOwner k u \<noteq> None) (is_kernel k u) (in_tree k u)"
    using assms(1) by (simp add: waits_inv_def wait_ok_def)
  then show ?thesis using assms(2,3) by (auto simp: queue_fits_def split: option.splits thread_queue.splits)
qed

lemma asleep_kernel:
  assumes "waits_inv k" "wait_queue k u = Some ForKLightLock"
  shows "is_kernel k u" "GetLockOwner k u \<noteq> None"
proof -
  have "queue_fits (wait_queue k u) (GetLockOwner k u \<noteq> None) (is_kernel k u) (in_tree k u)"
    using assms(1) by (simp add: waits_inv_def wait_ok_def)
  then show "is_kernel k u" "GetLockOwner k u \<noteq> None" using assms(2) by (simp_all add: queue_fits_def)
qed

text \<open>Who waits for a lock with the key of its word waits for the thread that the word names.\<close>

lemma waiter_of_tag:
  assumes inv: "light_inv s" and u: "GetLockOwner (ls_kernel s) u = Some r" "is_kernel (ls_kernel s) u"
    "th_address_key (thread_of (ls_kernel s) u) = a"
  shows "ls_pc s u = Sleeping a" "asleep s u" "ls_tags s a = Some (r, True)"
proof -
  note d = light_invD [OF inv]
  show w: "asleep s u" by (rule kernel_waiter_asleep [OF d(1) u(1,2)])
  then obtain x where x: "ls_pc s u = Sleeping x" using d(8) by blast
  then have "x = a" using d(5) [OF x w] u(3) by simp
  then show "ls_pc s u = Sleeping a" "ls_tags s a = Some (r, True)" using x d(6) [OF x w] u(1) by auto
qed

text \<open>A release under a lock that nobody but the releasing thread has.\<close>

lemma release_inv:
  assumes inv: "light_inv s" and pc: "ls_pc s t = Outside" and tag: "ls_tags s a = Some (t, b)"
    and k': "waits_inv k'" "one_lock_per_key k'" "requests_ok k'"
    and keys: "\<And>u. th_address_key (thread_of k' u) = th_address_key (thread_of (ls_kernel s) u)"
    and queues: "\<And>u. wait_queue k' u = (if nx = Some u then None else wait_queue (ls_kernel s) u)"
    and nx: "\<And>n. nx = Some n \<Longrightarrow> ls_pc s n = Sleeping a \<and> tag' = Some (n, others)" "nx = None \<Longrightarrow> tag' = None"
    and rest: "\<And>u. ls_pc s u = Sleeping a \<Longrightarrow> asleep s u \<Longrightarrow> nx \<noteq> Some u \<Longrightarrow>
      \<exists>n. nx = Some n \<and> others \<and> GetLockOwner k' u = Some n"
    and same: "\<And>u x. ls_pc s u = Sleeping x \<Longrightarrow> asleep s u \<Longrightarrow> x \<noteq> a \<Longrightarrow> GetLockOwner k' u = GetLockOwner (ls_kernel s) u"
  shows "light_inv (s \<lparr> ls_tags := (ls_tags s)(a := tag'), ls_kernel := k', ls_locked := (ls_locked s)(t := ls_locked s t - {a}) \<rparr>)"
    (is "light_inv ?s")
proof -
  note d = light_invD [OF inv]
  have f: "ls_kernel ?s = k'" "ls_pc ?s = ls_pc s" "ls_tags ?s x = (if x = a then tag' else ls_tags s x)"
    "x \<in> ls_locked ?s u \<longleftrightarrow> x \<in> ls_locked s u \<and> \<not> (u = t \<and> x = a)" for u x by auto
  have only: "a \<notin> ls_locked s u" if "u \<noteq> t" for u using d(4) [of a u] tag that by auto
  have awake: "asleep s u" if "ls_pc s u = Sleeping a" for u using d(7) [OF that] tag pc that by (metis Pair_inject lock_pc.distinct(3) option.inject)
  show ?thesis
  proof (rule light_invI)
    show "\<exists>b. ls_tags ?s x = Some (u, b)" if "x \<in> ls_locked ?s u" for u x using that d(4) [of x u] only [of u] unfolding f by auto
    show "th_address_key (thread_of (ls_kernel ?s) u) = x \<and> (\<exists>r. GetLockOwner (ls_kernel ?s) u = Some r \<and> ls_tags ?s x = Some (r, True))"
      if "ls_pc ?s u = Sleeping x" "asleep ?s u" for u x
    proof -
      have u: "ls_pc s u = Sleeping x" "asleep s u" "nx \<noteq> Some u" using that queues [of u] unfolding f by (auto split: if_splits)
      have "\<exists>r. GetLockOwner k' u = Some r \<and> (if x = a then tag' else ls_tags s x) = Some (r, True)"
        using d(6) [OF u(1,2)] rest [of u] same [OF u(1,2)] nx(1) u by (cases "x = a") auto
      then show ?thesis using d(5) [OF u(1,2)] keys [of u] unfolding f by simp
    qed
    show "\<exists>b. ls_tags ?s x = Some (u, b)" if "ls_pc ?s u = Sleeping x" "\<not> asleep ?s u" for u x
    proof (cases "x = a")
      case True
      then have "nx = Some u" using that awake [of u] queues [of u] unfolding f by (auto split: if_splits)
      then show ?thesis using True nx(1) unfolding f by auto
    next
      case False
      have "nx \<noteq> Some u" using that nx(1) [of u] False unfolding f by auto
      then show ?thesis using that d(7) [of u x] queues [of u] False unfolding f by auto
    qed
    show "\<exists>x. ls_pc ?s u = Sleeping x" if "asleep ?s u" for u using that d(8) [of u] queues [of u] unfolding f by (auto split: if_splits)
    show "x \<in> ls_locked ?s u \<or> ls_pc ?s u = Sleeping x \<and> \<not> asleep ?s u" if "ls_tags ?s x = Some (u, b')" for u x b'
    proof (cases "x = a")
      case True
      then have "tag' = Some (u, b')" using that unfolding f by simp
      then have "nx = Some u" using nx by (cases nx) auto
      then show ?thesis using True nx(1) [of u] queues [of u] unfolding f by auto
    next
      case False
      then show ?thesis using that d(9) [of x u b'] queues [of u] unfolding f by auto
    qed
  qed (use k' in \<open>simp_all add: f\<close>)
qed

lemma unlock_inv:
  assumes inv: "light_inv s" and pc: "ls_pc s t = Outside" and a: "a \<in> ls_locked s t"
    and res: "Unlock a t (ls_tags s a) (ls_kernel s) = Some (tag', k')"
  shows "light_inv (s \<lparr> ls_tags := (ls_tags s)(a := tag'), ls_kernel := k', ls_locked := (ls_locked s)(t := ls_locked s t - {a}) \<rparr>)"
proof -
  note d = light_invD [OF inv]
  let ?k = "ls_kernel s"
  obtain b where tag: "ls_tags s a = Some (t, b)" using d(4) [OF a] by blast
  show ?thesis
  proof (cases b)
    case False
    have "\<not> asleep s u" if "ls_pc s u = Sleeping a" for u using d(6) [OF that] tag False by auto
    moreover have "tag' = None" "k' = ?k" using res tag False by (simp_all add: Unlock_def)
    ultimately show ?thesis using d(1-3) by (intro release_inv [OF inv pc tag, where nx = None and others = False]) auto
  next
    case True
    have free: "\<not> (GetLockOwner ?k w = Some n \<and> is_kernel ?k w \<and> th_address_key (thread_of ?k w) = a)"
      if n: "GetLockOwner ?k n = Some t" "is_kernel ?k n" "th_address_key (thread_of ?k n) = a" for n w
      using waiter_of_tag(3) [OF inv, of w n a] waiter_of_tag(1) [OF inv n] tag pc by auto
    from UnlockSlowPath_ok [OF d(1-3) free] obtain nx others k1 k2 where
      r: "UnlockSlowPath a t ?k = Some (case nx of None \<Rightarrow> None | Some n \<Rightarrow> Some (n, others), k2)" "waits_inv k2" "one_lock_per_key k2"
        "requests_ok k2" "passed ?k t a True (nx, others, k1)" "GetLockOwner k2 = GetLockOwner k1"
        "\<And>u. wait_queue k2 u = (if nx = Some u then None else wait_queue ?k u)"
        "\<And>u. th_address_key (thread_of k2 u) = th_address_key (thread_of ?k u)" by blast
    have t: "tag' = (case nx of None \<Rightarrow> None | Some n \<Rightarrow> Some (n, others))" "k' = k2" using res tag True r(1) by (simp_all add: Unlock_def)
    have n: "GetLockOwner ?k n = Some t" "is_kernel ?k n" "th_address_key (thread_of ?k n) = a" "others \<longleftrightarrow> (\<exists>w. w \<noteq> n \<and> waits ?k w = waits ?k n)"
      "GetLockOwner k2 = (\<lambda>u. if u = n then None else if waits ?k u = waits ?k n then Some n else GetLockOwner ?k u)" if "nx = Some n" for n
      using r(5,6) that by (simp_all add: passed_def)
    have none: "\<not> (GetLockOwner ?k w = Some t \<and> th_address_key (thread_of ?k w) = a \<and> is_kernel ?k w)" "GetLockOwner k2 = GetLockOwner ?k"
      if "nx = None" for w using r(5,6) that by (auto simp: passed_def)
    have shape: "lock_shape ?k" using d(1) by (simp add: waits_inv_def locks_invD(1))
    show ?thesis unfolding t(2)
    proof (rule release_inv [OF inv pc tag r(2-4,8,7)])
      show "ls_pc s m = Sleeping a \<and> tag' = Some (m, others)" if "nx = Some m" for m
        using waiter_of_tag(1) [OF inv n(1-3) [OF that]] that t(1) by simp
      show "nx = None \<Longrightarrow> tag' = None" using t(1) by simp
      show "\<exists>m. nx = Some m \<and> others \<and> GetLockOwner k2 u = Some m" if u: "ls_pc s u = Sleeping a" "asleep s u" and "nx \<noteq> Some u" for u
      proof -
        note key = d(5) [OF u] and ker = asleep_kernel(1) [OF d(1) u(2)]
        have ut: "GetLockOwner ?k u = Some t" using d(6) [OF u] tag by auto
        then obtain m where m: "nx = Some m" using none(1) [of u] key ker by (cases nx) auto
        have "waits ?k u = waits ?k m" by (rule one_lockD [OF d(2) ker n(2) [OF m] ut n(1) [OF m]]) (simp add: key n(3) [OF m])
        then show ?thesis using m \<open>nx \<noteq> Some u\<close> n(4,5) [OF m] by auto
      qed
      show "GetLockOwner k2 u = GetLockOwner ?k u" if u: "ls_pc s u = Sleeping x" "asleep s u" and "x \<noteq> a" for u x
      proof (cases nx)
        case None
        then show ?thesis using none(2) by simp
      next
        case (Some m)
        note key = d(5) [OF u] n(3) [OF Some]
        obtain l i where l: "waits ?k m = Some l" "lock_ok ?k l i" using waiterE [OF shape n(1) [OF Some]] by metis
        have "th_address_key (thread_of ?k v) = li_address_key i" if "waits ?k v = Some l" for v using that l(2) unfolding lock_ok_def by blast
        from this [of u] this [of m] have "waits ?k u \<noteq> Some l" using l(1) key \<open>x \<noteq> a\<close> by auto
        moreover have "u \<noteq> m" using key \<open>x \<noteq> a\<close> by auto
        ultimately show ?thesis using n(5) [OF Some] l(1) by simp
      qed
    qed
  qed
qed

lemma others_inv:
  assumes inv: "light_inv s" and k': "undisturbed (ls_kernel s) k'"
  shows "light_inv (s \<lparr> ls_kernel := k' \<rparr>)"
proof -
  note d = light_invD [OF inv]
  have u: "waits_inv k'" "one_lock_per_key k'" "requests_ok k'" "wait_queue k' t = Some ForKLightLock \<longleftrightarrow> asleep s t"
    "asleep s t \<Longrightarrow> GetLockOwner k' t = GetLockOwner (ls_kernel s) t"
    "asleep s t \<Longrightarrow> th_address_key (thread_of k' t) = th_address_key (thread_of (ls_kernel s) t)" for t
    using k' by (simp_all add: undisturbed_def)
  show ?thesis by (rule light_invI) (use d u in \<open>auto\<close>)
qed

lemma light_step_inv: "light_step s e s' \<Longrightarrow> light_inv s \<Longrightarrow> light_inv s'"
  by (induction rule: light_step.induct) (blast intro: acquire_inv contend_inv slow_path_inv wake_inv unlock_inv others_inv)+

interpretation light: invariant_system light_init light_step light_inv
  by unfold_locales (auto intro: light_init_inv light_step_inv)

end
