(* ===== verification/Termination.thy ===== *)
theory Termination
  imports PriorityInheritance
begin

text \<open>
  Requests of termination and expired timers (\<^verbatim>\<open>core/hle/kernel/k_thread.cpp\<close>), which cancel the wait of a thread. The interrupts that
  they send to other cores and the flags of deferred calls are not part of the model.
\<close>

definition TerminatingThreadPriority :: nat where "TerminatingThreadPriority = 16 - 1"

text \<open>An expired timer. The wait queue of a waiting thread is never null (\<^verbatim>\<open>waits_inv\<close>).\<close>

definition OnTimer :: "thread \<Rightarrow> thread \<Rightarrow> kernel \<Rightarrow> kernel option" where
  "OnTimer cur t k =
     (if GetState (thread_of k t) = Waiting
      then case th_wait_queue (thread_of k t) of None \<Rightarrow> Some k | Some q \<Rightarrow> queue_CancelWait cur t ResultTimedOut q k
      else Some k)"

text \<open>A request of termination by the thread \<open>cur\<close>; the value is the state of the thread afterwards.\<close>

definition RequestTerminate :: "thread \<Rightarrow> thread \<Rightarrow> kernel \<Rightarrow> (u16 \<times> kernel) option" where
  "RequestTerminate cur t k =
     (if th_termination_requested (thread_of k t) then Some (GetState (thread_of k t), k)
      else
        (let k1 = set_thread t (\<lambda>th. th \<lparr> th_termination_requested := True \<rparr>) k
         in if GetState (thread_of k1 t) = Initialized
            then Some (Terminated, set_thread t (\<lambda>th. th \<lparr> th_state := Terminated \<rparr>) k1)
            else
              (let k2 = (if th_is_pinned (thread_of k1 t)
                         then case th_parent (thread_of k1 t) of None \<Rightarrow> k1 | Some p \<Rightarrow> UnpinThread p t k1
                         else k1);
                   k3 = (if IsSuspended (thread_of k2 t)
                         then UpdateState t (set_thread t (\<lambda>th. th \<lparr> th_suspend_allowed_flags := 0 \<rparr>) k2)
                         else k2)
               in case IncreaseBasePriority cur t TerminatingThreadPriority k3 of
                    None \<Rightarrow> None
                  | Some k4 \<Rightarrow>
                      (case CancelWait cur t ResultTerminationRequested k4 of
                         None \<Rightarrow> None
                       | Some k5 \<Rightarrow> Some (GetState (thread_of k5 t), k5)))))"

end
