(* ===== verification/TerminationBehaviour.thy ===== *)
theory TerminationBehaviour
  imports LightLockSystem Termination
begin

text \<open>
  A request of termination keeps the locks and the waits in order and ends the wait of the thread, whatever it waits for.
\<close>

lemma request_same_waits: "same_waits k (set_thread t (\<lambda>th. th \<lparr> th_termination_requested := True \<rparr>) k)"
proof -
  let ?h = "\<lambda>th. th \<lparr> th_termination_requested := True \<rparr>"
  have v: "locks_view (set_thread t ?h k) = locks_view k" by (rule locks_view_set_thread) (simp add: lock_part_def)
  have q: "queues_match (set_thread t ?h k) = queues_match k" by (rule queues_match_set_thread) (simp_all add: same_queueing_def)
  show ?thesis using v q by (simp add: same_waits_def GetState_def)
qed

lemma allowed_same_waits: "same_waits k (set_thread t (\<lambda>th. th \<lparr> th_suspend_allowed_flags := 0 \<rparr>) k)"
proof -
  have "queues_match (set_thread t (\<lambda>th. th \<lparr> th_suspend_allowed_flags := 0 \<rparr>) k) = queues_match k" by simp
  then show ?thesis by (simp add: same_waits_def GetState_def)
qed

lemma terminated_ok:
  assumes inv: "waits_inv k" and s: "GetState (thread_of k t) = Initialized"
  shows "waits_inv (set_thread t (\<lambda>th. th \<lparr> th_state := Terminated \<rparr>) k)" (is "waits_inv ?k")
proof -
  have li: "locks_inv k" and w: "\<And>u. wait_ok k u" using inv by (simp_all add: waits_inv_def)
  have v: "locks_view ?k = locks_view k" by (rule locks_view_set_thread) (simp add: lock_part_def)
  have "th_state (thread_of k t) \<noteq> Runnable" using s by (auto simp: GetState_def Initialized_def Runnable_def ThreadState_Mask_def)
  then have "OnThreadStateChanged t (th_state (thread_of k t)) (store_state t Terminated k) = ?k"
    by (simp add: OnThreadStateChanged_def store_state_def Let_def Terminated_def Runnable_def)
  then have "queues_match ?k" using store_state_ok [OF locks_invD(3) [OF li], of t Terminated] by simp
  note l = locks_inv_view [OF li v this]
  have "wait_ok ?k u" for u
  proof (cases "u = t")
    case True
    have "wait_queue k t = None" using w [of t] s by (simp add: wait_ok_def state_fits_def Initialized_def Waiting_def)
    then show ?thesis using w [of t] True locks_viewD(4,8) [OF v] l(2)
      by (simp add: wait_ok_def state_fits_def) (simp add: GetState_def Terminated_def Waiting_def ThreadState_Mask_def)
  next
    case False
    have "wait_view ?k u = wait_view k u" using False l(2) by (simp add: wait_view_def)
    then show ?thesis using w [of u] wait_ok_view by metis
  qed
  then show ?thesis using l(1) by (simp add: waits_inv_def)
qed

lemma OnTimer_eq: "OnTimer cur t k = CancelWait cur t ResultTimedOut k"
  by (simp add: OnTimer_def CancelWait_def)

lemma IncreaseBasePriority_waits:
  assumes inv: "waits_inv k"
  shows "\<exists>k'. IncreaseBasePriority cur t v k = Some k' \<and> waits_inv k' \<and> base k' t \<le> v"
proof (cases "v < base k t")
  case True
  then show ?thesis using SetBasePriority_waits [OF inv, of cur t v] by (auto simp: IncreaseBasePriority_def)
next
  case False
  then show ?thesis using inv by (simp add: IncreaseBasePriority_def)
qed

lemma RequestTerminate_ok:
  assumes inv: "waits_inv k" "requests_ok k" and free: "\<not> th_is_pinned (thread_of k t)"
  shows "\<exists>s k'. RequestTerminate cur t k = Some (s, k') \<and> waits_inv k' \<and>
    (\<not> th_termination_requested (thread_of k t) \<longrightarrow> wait_queue k' t = None \<and> s \<noteq> Waiting)"
proof (cases "th_termination_requested (thread_of k t)")
  case True
  then show ?thesis using inv by (simp add: RequestTerminate_def)
next
  case False
  define k1 where "k1 = set_thread t (\<lambda>th. th \<lparr> th_termination_requested := True \<rparr>) k"
  have s1: "same_waits k k1" unfolding k1_def by (rule request_same_waits)
  have i1: "waits_inv k1" "requests_ok k1" using same_waitsD(7,8) [OF s1] inv by simp_all
  have free1: "\<not> th_is_pinned (thread_of k1 t)" using free by (simp add: k1_def)
  show ?thesis
  proof (cases "GetState (thread_of k1 t) = Initialized")
    case True
    let ?k = "set_thread t (\<lambda>th. th \<lparr> th_state := Terminated \<rparr>) k1"
    have "wait_ok k1 t" using i1(1) by (simp add: waits_inv_def)
    then have "wait_queue ?k t = None" using True by (simp add: wait_ok_def state_fits_def Initialized_def Waiting_def)
    then show ?thesis using False True terminated_ok [OF i1(1) True]
      by (simp add: RequestTerminate_def k1_def [symmetric] Terminated_def Waiting_def)
  next
    case started: False
    define k3 where "k3 = (if IsSuspended (thread_of k1 t)
      then UpdateState t (set_thread t (\<lambda>th. th \<lparr> th_suspend_allowed_flags := 0 \<rparr>) k1) else k1)"
    have i3: "waits_inv k3"
    proof (cases "IsSuspended (thread_of k1 t)")
      case True
      let ?k = "set_thread t (\<lambda>th. th \<lparr> th_suspend_allowed_flags := 0 \<rparr>) k1"
      have a: "waits_inv ?k" "requests_ok ?k" using same_waitsD(7,8) [OF allowed_same_waits] i1 by simp_all
      show ?thesis using True same_waitsD(8) [OF same_waits_suspension(3) [OF a(2)] a(1)] by (simp add: k3_def)
    qed (use i1 in \<open>simp add: k3_def\<close>)
    from IncreaseBasePriority_waits [OF i3] obtain k4 where k4: "IncreaseBasePriority cur t TerminatingThreadPriority k3 = Some k4" "waits_inv k4"
      by blast
    from CancelWait_ok [OF k4(2)] obtain k5 where k5: "CancelWait cur t ResultTerminationRequested k4 = Some k5" "waits_inv k5" "wait_queue k5 t = None"
      by blast
    have "wait_ok k5 t" using k5(2) by (simp add: waits_inv_def)
    then have "GetState (thread_of k5 t) \<noteq> Waiting" using k5(3) by (simp add: wait_ok_def state_fits_def)
    moreover have "RequestTerminate cur t k = Some (GetState (thread_of k5 t), k5)"
      using False started free1 k4(1) k5(1) by (simp add: RequestTerminate_def k1_def [symmetric] k3_def [symmetric] Let_def)
    ultimately show ?thesis using k5 by simp
  qed
qed

end
