(* ===== verification/SynchronizationSystem.thy ===== *)
theory SynchronizationSystem
  imports SchedulerSystem UserSynchronizationBehaviour TerminationBehaviour
begin

text \<open>
  The synchronization of threads as a system: any sequence of operations on locks, condition variables, address arbiters, own
  priorities, cancellations and requests of termination, by any threads that do not wait, keeps the locks and the priorities in order. The
  threads of whom termination is requested are not pinned, and their requests of suspension lie above the bits of the state.
\<close>

datatype sync_event =
    Signal_Lock caller u64
  | Wait_Lock caller Handle u64 u32
  | Signal_Condition caller u64 int
  | Wait_Condition caller u64 u64 u32 int
  | Signal_Arbiter caller u64 SignalType s32 int
  | Wait_Arbiter caller u64 ArbitrationType s32 int
  | Cancel_Wait thread thread Result
  | Base_Priority thread thread nat
  | Terminate thread thread

abbreviation runs_now :: "kernel \<Rightarrow> caller \<Rightarrow> bool" where
  "runs_now k c \<equiv> GetState (thread_of k (cl_thread c)) = Runnable"

inductive sync_step :: "kernel \<Rightarrow> sync_event \<Rightarrow> kernel \<Rightarrow> bool" where
  signal_lock: "runs_now k c \<Longrightarrow> KConditionVariable_SignalToAddress c addr k = Some (r, k') \<Longrightarrow> sync_step k (Signal_Lock c addr) k'"
| wait_lock: "runs_now k c \<Longrightarrow> KConditionVariable_WaitForAddress c h addr v k = Some (r, k') \<Longrightarrow> sync_step k (Wait_Lock c h addr v) k'"
| signal_condition: "runs_now k c \<Longrightarrow> KConditionVariable_Signal c key n k = Some k' \<Longrightarrow> sync_step k (Signal_Condition c key n) k'"
| wait_condition: "runs_now k c \<Longrightarrow> KConditionVariable_Wait c addr key v timeout k = Some (r, k') \<Longrightarrow>
    sync_step k (Wait_Condition c addr key v timeout) k'"
| signal_arbiter: "runs_now k c \<Longrightarrow> KAddressArbiter_SignalToAddress c addr type v n k = Some (r, k') \<Longrightarrow>
    sync_step k (Signal_Arbiter c addr type v n) k'"
| wait_arbiter: "runs_now k c \<Longrightarrow> KAddressArbiter_WaitForAddress c addr at v timeout k = (r, k') \<Longrightarrow>
    sync_step k (Wait_Arbiter c addr at v timeout) k'"
| cancel_wait: "CancelWait cur t r k = Some k' \<Longrightarrow> sync_step k (Cancel_Wait cur t r) k'"
| base_priority: "SetBasePriority cur t v k = Some k' \<Longrightarrow> sync_step k (Base_Priority cur t v) k'"
| terminate: "\<not> th_is_pinned (thread_of k t) \<Longrightarrow> requests_ok k \<Longrightarrow> RequestTerminate cur t k = Some (s, k') \<Longrightarrow>
    sync_step k (Terminate cur t) k'"

lemma running_not_waiting:
  assumes "waits_inv k" "GetState (thread_of k t) = Runnable"
  shows "wait_queue k t = None"
proof -
  have "state_fits k t" using assms(1) by (simp add: waits_inv_def wait_ok_def)
  then show ?thesis using assms(2) by (simp add: state_fits_def Runnable_def Waiting_def)
qed

lemma arbiter_wait_ok:
  assumes "waits_inv k" "wait_queue k (cl_thread c) = None"
  shows "waits_inv (snd (KAddressArbiter_WaitForAddress c addr type v timeout k))"
  using assms wait_in_arbiter_ok(1) [of _ c addr] by (auto simp: arbiter_wait_eq)

lemma sync_step_inv: "sync_step k e k' \<Longrightarrow> waits_inv k \<Longrightarrow> waits_inv k'"
proof (induction rule: sync_step.induct)
  case (signal_lock k c addr r k')
  then show ?case using SignalToAddress_ok [OF signal_lock.prems, of c addr] by auto
next
  case (wait_lock k c h addr v r k')
  then show ?case using WaitForAddress_ok [OF wait_lock.prems, of c h addr v] running_not_waiting by auto
next
  case (signal_condition k c key n k')
  then show ?case using Signal_ok [OF signal_condition.prems, of c key n] by auto
next
  case (wait_condition k c addr key v timeout r k')
  then show ?case using Wait_ok [OF wait_condition.prems, of c addr key v timeout] running_not_waiting by auto
next
  case (signal_arbiter k c addr type v n r k')
  then show ?case using arbiter_signal_ok [OF signal_arbiter.prems, of c addr type v n] by (auto simp: arbiter_done_def split: if_splits)
next
  case (wait_arbiter k c addr at v timeout r k')
  then show ?case using arbiter_wait_ok [OF wait_arbiter.prems, of c addr at v timeout] running_not_waiting by auto
next
  case (cancel_wait cur t r k k')
  then show ?case using CancelWait_ok [OF cancel_wait.prems, of cur t r] by auto
next
  case (base_priority cur t v k k')
  then show ?case using SetBasePriority_waits [OF base_priority.prems, of cur t v] by auto
next
  case (terminate k t cur s k')
  then show ?case using RequestTerminate_ok [OF terminate.prems, of t cur] by auto
qed

text \<open>At the start nothing is locked and nobody waits; threads may run already.\<close>

definition sync_init :: "kernel \<Rightarrow> bool" where
  "sync_init k \<longleftrightarrow>
     kernel_inv k \<and> k_lock_infos k = (\<lambda>_. None) \<and> k_thread_trees k = (\<lambda>_. []) \<and>
     (\<forall>t. base k t = prio k t \<and> held k t = [] \<and> waits k t = None \<and> kernel_waiters k t = 0 \<and> in_tree k t = None \<and>
        wait_queue k t = None \<and> GetState (thread_of k t) \<noteq> Waiting)"

lemma sync_init_inv:
  assumes "sync_init k"
  shows "waits_inv k"
proof -
  have f: "k_lock_infos k l = None" "k_thread_trees k tr = []" "base k t = prio k t" "held k t = []" "waits k t = None" "kernel_waiters k t = 0"
    "in_tree k t = None" "wait_queue k t = None" "GetState (thread_of k t) \<noteq> Waiting" for l tr t
    using assms by (simp_all add: sync_init_def)
  have own: "GetLockOwner k t = None" for t by (simp add: GetLockOwner_def f)
  have shape: "lock_shape k" by (simp add: lock_shape_def f own)
  have "tree_shape k" by (simp add: tree_shape_def f)
  moreover have "queues_match k" using assms by (simp add: sync_init_def kernel_inv_def)
  moreover have "inherits k t" for t by (simp add: inherits_iff [OF shape] least_priority_def f own)
  ultimately show ?thesis using shape
    by (auto simp: waits_inv_def locks_inv_def restorable_def wait_ok_def state_fits_def queue_fits_def f own)
qed

interpretation sync: invariant_system sync_init sync_step waits_inv
  by unfold_locales (auto intro: sync_init_inv sync_step_inv)

section \<open>Inheritance along chains\<close>

text \<open>A thread waits for another one directly or through threads in between.\<close>

definition waits_on :: "kernel \<Rightarrow> (thread \<times> thread) set" where
  "waits_on k = {(u, t). GetLockOwner k u = Some t}"

lemma chain_lower:
  assumes inv: "locks_inv k" and "(u, t) \<in> (waits_on k)\<^sup>*"
  shows "prio k t \<le> base k u"
  using assms(2)
proof (induction rule: rtrancl_induct)
  case base
  then show ?case using locks_invD(6) [OF inv, of u] by (simp add: least_priority_def)
next
  case (step v t)
  then show ?case using locks_invD(6) [OF inv, of t] by (auto simp: least_priority_def waits_on_def intro: order_trans)
qed

lemma chain_attained:
  assumes inv: "locks_inv k" and ac: "acyclic (waits_on k)"
  shows "\<exists>u. (u, t) \<in> (waits_on k)\<^sup>* \<and> prio k t = base k u"
proof -
  have sub: "waits_on k \<subseteq> {u. GetLockOwner k u \<noteq> None} \<times> (the ` GetLockOwner k ` {u. GetLockOwner k u \<noteq> None})"
    by (force simp: waits_on_def)
  have "finite (waits_on k)" by (rule finite_subset [OF sub]) (use owners_finite [OF locks_invD(1) [OF inv]] in simp)
  then have "wf (waits_on k)" using ac by (rule finite_acyclic_wf)
  then show ?thesis
  proof (induction t rule: wf_induct_rule)
    case (less t)
    show ?case
    proof (cases "prio k t = base k t")
      case False
      then obtain w where w: "GetLockOwner k w = Some t" "prio k w = prio k t" using locks_invD(6) [OF inv, of t] by (auto simp: least_priority_def)
      then have "(w, t) \<in> waits_on k" by (simp add: waits_on_def)
      with less [OF this] w(2) show ?thesis by (metis rtrancl.rtrancl_into_rtrancl)
    qed auto
  qed
qed

lemma chain_finite:
  assumes "locks_inv k"
  shows "finite {u. (u, t) \<in> (waits_on k)\<^sup>*}"
proof (rule finite_subset)
  show "{u. (u, t) \<in> (waits_on k)\<^sup>*} \<subseteq> insert t {u. GetLockOwner k u \<noteq> None}"
    by (auto simp: waits_on_def elim: converse_rtranclE)
  show "finite (insert t {u. GetLockOwner k u \<noteq> None})" using owners_finite [OF locks_invD(1) [OF assms]] by simp
qed

section \<open>Samples\<close>

text \<open>Two running threads, where the thread 3 has a better priority, and a lock in memory that the thread 2 has.\<close>

definition sync_boot :: kernel where
  "sync_boot = sample_kernel \<lparr> k_threads := (k_threads sample_kernel)(3 := sample_thread \<lparr> th_priority := 20, th_base_priority := 20 \<rparr>),
     k_memory := (\<lambda>_ _. 0)(0 := (\<lambda>_. 0)(0x1000 := 0x40008000)) \<rparr>"

definition sync_sample :: kernel where
  "sync_sample = SetState 3 Runnable (SetState 2 Runnable sync_boot)"

definition sample_caller :: caller where
  "sample_caller = \<lparr> cl_thread = 3, cl_process = 0,
     cl_handles = \<lparr> m_entry_infos = [1], m_objects = [Some 2], m_free_head_index = - 1, m_table_size = 1, m_max_count = 1,
       m_next_linear_id = 2, m_count = 1 \<rparr>, cl_is_thread = \<lambda>_. True \<rparr>"

lemma sync_boot_init: "sched_init sync_boot"
proof -
  have "in_queue (thread_of sync_boot t) = in_queue (thread_of sample_kernel t) \<and> placed (thread_of sync_boot t) = placed (thread_of sample_kernel t) \<and>
      affs sync_boot t = affs sample_kernel t" for t
    by (simp add: sync_boot_def sample_kernel_def sample_thread_def in_queue_def placed_def affs_def aff_of_def Initialized_def Runnable_def)
  moreover have "k_priority_queue sync_boot = k_priority_queue sample_kernel" by (simp add: sync_boot_def)
  ultimately show ?thesis using sample_init by (simp add: sched_init_def)
qed

lemma sync_sample_run: "run sched_step sync_boot [State 2 Runnable, State 3 Runnable] sync_sample"
  unfolding sync_sample_def by (rule run_two) (rule sched_step.state)+

interpretation request_of_termination: link_blind th_termination_requested
  by unfold_locales simp

lemma sync_sample_fields:
  "wait_queue sync_sample t = None" "GetState (thread_of sync_sample t) = (if t = 2 \<or> t = 3 then Runnable else 0)"
  "base sync_sample t = (if t = 3 then 20 else 44)" "prio sync_sample t = (if t = 3 then 20 else 44)" "waits sync_sample t = None"
  "k_memory sync_sample 0 0x1000 = 0x40008000" "\<not> IsTerminationRequested (thread_of sync_sample 3)"
proof -
  have b: "wait_queue sync_boot t = None" "th_state (thread_of sync_boot t) = 0" "base sync_boot t = (if t = 3 then 20 else 44)"
    "prio sync_boot t = (if t = 3 then 20 else 44)" "waits sync_boot t = None" for t
    by (simp_all add: sync_boot_def sample_kernel_def sample_thread_def Initialized_def)
  have v: "locks_view sync_sample = locks_view sync_boot" by (simp add: sync_sample_def)
  show "wait_queue sync_sample t = None" by (simp add: sync_sample_def SetState_wait_fields b)
  show "GetState (thread_of sync_sample t) = (if t = 2 \<or> t = 3 then Runnable else 0)"
    by (simp add: sync_sample_def SetState_wait_fields) (simp add: b GetState_def Runnable_def ThreadState_Mask_def)
  show "base sync_sample t = (if t = 3 then 20 else 44)" "prio sync_sample t = (if t = 3 then 20 else 44)" "waits sync_sample t = None"
    unfolding locks_viewD [OF v] by (simp_all add: b)
  have "lock_state sync_sample = lock_state sync_boot" by (simp add: sync_sample_def SetState_def store_state_def Let_def)
  then show "k_memory sync_sample 0 0x1000 = 0x40008000" by (simp add: lock_state_def sync_boot_def)
  have "projected th_termination_requested (k_threads sync_sample) = projected th_termination_requested (k_threads sync_boot)"
    by (simp add: sync_sample_def SetState_def store_state_def Let_def projected_upd)
  then have "\<not> th_termination_requested (thread_of sync_sample 3)"
    by (simp add: projected_def fun_eq_iff) (simp add: sync_boot_def sample_thread_def)
  moreover have "th_state (thread_of sync_sample 3) \<noteq> Terminated"
    by (simp add: sync_sample_def SetState_fields b Runnable_def Terminated_def ThreadState_Mask_def)
  ultimately show "\<not> IsTerminationRequested (thread_of sync_sample 3)" by (simp add: IsTerminationRequested_def)
qed

lemma sync_sample_init: "sync_init sync_sample"
proof -
  have v: "locks_view sync_sample = locks_view sync_boot" by (simp add: sync_sample_def)
  note f = locks_viewD [OF v]
  have "kernel_inv sync_sample" by (rule sched.reachable_inv [OF sync_boot_init sync_sample_run])
  moreover have "k_lock_infos sync_boot = (\<lambda>_. None)" "k_thread_trees sync_boot = (\<lambda>_. [])" "base sync_boot t = prio sync_boot t"
    "held sync_boot t = []" "kernel_waiters sync_boot t = 0" "in_tree sync_boot t = None" for t
    by (simp_all add: sync_boot_def sample_kernel_def sample_thread_def)
  ultimately show ?thesis
    using sync_sample_fields(1,2,5) unfolding sync_init_def f by (auto simp: Runnable_def Waiting_def)
qed

text \<open>The thread 3 waits for the lock of the thread 2.\<close>

lemma sync_sample_waits:
  "\<exists>k. sync_step sync_sample (Wait_Lock sample_caller 0x8000 0x1000 7) k \<and> GetLockOwner k = (\<lambda>_. None)(3 := Some 2) \<and>
    wait_queue k 3 = Some ForKConditionVariableWaitForAddress \<and> th_address_key (thread_of k 3) = 0x1000 \<and> \<not> is_kernel k 3"
proof -
  have inv: "waits_inv sync_sample" by (rule sync_init_inv [OF sync_sample_init])
  have run: "runs_now sync_sample sample_caller" "wait_queue sync_sample (cl_thread sample_caller) = None"
    by (simp_all add: sync_sample_fields sample_caller_def)
  have none: "GetLockOwner sync_sample = (\<lambda>_. None)" by (simp add: fun_eq_iff GetLockOwner_def sync_sample_fields(5))
  have tag: "ReadFromUser sample_caller 0x1000 sync_sample = 0x8000 OR HandleWaitMask"
    by (simp add: ReadFromUser_def sample_caller_def sync_sample_fields(6) HandleWaitMask_def)
  have h: "HandlePack_reserved 0x8000 = 0" "HandlePack_index 0x8000 = 0" "HandlePack_linear_id 0x8000 = 1"
    by (simp_all add: HandlePack_reserved_def HandlePack_index_def HandlePack_linear_id_def BitField_ExtractValue_def BitField_mask_def
        mask_eq_exp_minus_1)
  have f: "find_thread sample_caller 0x8000 = Some 2"
    by (simp add: sample_caller_def KHandleTable_GetObjectWithoutPseudoHandle_def KHandleTable_GetObjectImpl_def KHandleTable_IsValidHandle_def
        h EntryInfo_GetLinearId_def)
  obtain res k where k: "KConditionVariable_WaitForAddress sample_caller 0x8000 0x1000 7 sync_sample = Some (res, k)"
    "case res of Some r \<Rightarrow> k = sync_sample
     | None \<Rightarrow> \<exists>owner. find_thread sample_caller 0x8000 = Some owner \<and> GetLockOwner k = (GetLockOwner sync_sample)(cl_thread sample_caller := Some owner)"
    using WaitForAddress_ok [OF inv run(2), where handle = "0x8000" and addr = "0x1000" and v = 7] by blast
  have "res = None" using k(1) sync_sample_fields(7) tag f
    by (auto simp: KConditionVariable_WaitForAddress_def Let_def sample_caller_def split: option.splits)
  then have own: "GetLockOwner k = (\<lambda>_. None)(3 := Some 2)" using k(2) f none by (auto simp: sample_caller_def)
  obtain k1 where k1: "AddWaiter 3 2 3 (SetUserAddressKey 3 0x1000 7 sync_sample) = Some k1" "k = BeginWait 3 ForKConditionVariableWaitForAddress k1"
    using k(1) sync_sample_fields(7) tag f
    by (auto simp: KConditionVariable_WaitForAddress_def Let_def sample_caller_def split: option.splits)
  note q = waiting_fields(1) [of 3 ForKConditionVariableWaitForAddress k1 3, folded k1(2)]
  have keys: "th_address_key (thread_of k 3) = 0x1000 \<and> \<not> is_kernel k 3"
  proof -
    let ?s = "SetUserAddressKey 3 0x1000 7 sync_sample"
    let ?h = "\<lambda>th. th \<lparr> th_address_key := 0x1000, th_address_key_value := 7, th_is_kernel_address_key := False \<rparr>"
    have s: "?s = set_thread 3 ?h sync_sample" by (simp add: SetUserAddressKey_def)
    have n: "waits sync_sample 3 = None" "in_tree sync_sample 3 = None" using sync_sample_init by (simp_all add: sync_init_def)
    have "locks_inv ?s" unfolding s by (rule rekey_ok) (use inv n in \<open>simp_all add: waits_inv_def unkeyed_def GetLockOwner_def\<close>)
    moreover have "waits ?s 3 = None" "th_condvar_tree (thread_of ?s 3) = None" using n by (simp_all add: s)
    ultimately have p: "prio_frame ?s k1" using AddWaiter_ok [of ?s 3 3 2] k1(1) by auto
    have v: "locks_view k = locks_view k1" by (simp add: k1(2))
    show ?thesis using locks_viewD [OF v] prio_frameD(6,7) [OF p, of 3] by (simp add: s)
  qed
  show ?thesis using own q keys sync_step.wait_lock [OF run(1) k(1)] by auto
qed

section \<open>Properties\<close>

text \<open>
  C11. Where all threads but one have the least of their own priority and those of their waiters, restoring the priority of that thread
  returns, whatever waits for whatever, cycles of threads that wait for each other included. Afterwards every thread has that priority, in
  the queues of the scheduler as well; who waits for whom, the own priorities and the memory stay as they are.
\<close>
theorem priority_restoration_returns:
  assumes "restorable k" "\<And>u. u \<noteq> t \<Longrightarrow> inherits k u"
  shows "\<exists>k'. RestorePriority cur (Some t) k = Some k' \<and>
    (\<forall>u. prio k' u = Min (insert (base k u) (prio k' ` {w. GetLockOwner k w = Some u}))) \<and>
    GetLockOwner k' = GetLockOwner k \<and> queues_match k' \<and> k_memory k' = k_memory k"
proof -
  from RestorePriority_restores [OF assms] obtain k' where k': "RestorePriority cur (Some t) k = Some k'" "restored k k'" by blast
  have r: "restorable k'" "\<And>u. inherits k' u" "GetLockOwner k' = GetLockOwner k" "prio_frame k k'" using k'(2) by (simp_all add: restored_def)
  have "prio k' u = Min (insert (base k u) (prio k' ` {w. GetLockOwner k w = Some u}))" for u
  proof -
    have shape: "lock_shape k'" using r(1) by (simp add: restorable_def)
    show ?thesis using r(2) [of u] unfolding inherits_def inherited_priority_eq [OF shape] r(3) prio_frameD(1) [OF r(4)] .
  qed
  moreover have "queues_match k'" using r(1) by (simp add: restorable_def)
  ultimately show ?thesis using k'(1) r(3) prio_frameD(9) [OF r(4)] by blast
qed

lemma sample_lends:
  fixes k :: kernel
  defines "k \<equiv> AddWaiterImpl 2 3 sync_sample"
  shows "restorable k" "u \<noteq> 2 \<Longrightarrow> inherits k u" "GetLockOwner k = (\<lambda>_. None)(3 := Some 2)" "prio k 2 = 44" "base k 3 = 20"
proof -
  have inv: "locks_inv sync_sample" using sync_init_inv [OF sync_sample_init] by (simp add: waits_inv_def)
  have w: "waits sync_sample 3 = None" "in_tree sync_sample 3 = None"
    using sync_sample_init by (simp_all add: sync_init_def)
  have none: "GetLockOwner sync_sample = (\<lambda>_. None)" by (simp add: fun_eq_iff GetLockOwner_def sync_sample_fields(5))
  note a = AddWaiterImpl_shape [OF locks_invD(1) [OF inv] w(1), of 2, folded k_def] and s = lock_onlyD(1,2) [OF lock_only_ops(1), of 2 3 sync_sample, folded k_def]
  show "restorable k" unfolding k_def by (rule AddWaiterImpl_restorable [OF inv w])
  show own: "GetLockOwner k = (\<lambda>_. None)(3 := Some 2)" using a(2) none by simp
  show "prio k 2 = 44" "base k 3 = 20" by (simp_all add: s sync_sample_fields)
  show "u \<noteq> 2 \<Longrightarrow> inherits k u" unfolding inherits_iff [OF a(1)] own least_priority_def s by (simp add: sync_sample_fields)
qed

theorem priority_restoration_returns_witness:
  "prio (AddWaiterImpl 2 3 sync_sample) 2 = 44 \<and>
   (\<exists>k'. RestorePriority 2 (Some 2) (AddWaiterImpl 2 3 sync_sample) = Some k' \<and> prio k' 2 \<le> prio k' 3 \<and> prio k' 3 = 20)"
proof -
  let ?k = "AddWaiterImpl 2 3 sync_sample"
  from priority_restoration_returns [OF sample_lends(1), where t = 2 and cur = 2] sample_lends(2) obtain k' where
    k': "RestorePriority 2 (Some 2) ?k = Some k'"
      "\<And>u. prio k' u = Min (insert (base ?k u) (prio k' ` {w. GetLockOwner ?k w = Some u}))" by blast
  have "prio k' 3 = 20" using k'(2) [of 3] sample_lends(3,5) by simp
  moreover have "prio k' 2 \<le> prio k' 3" using k'(2) [of 2] sample_lends(3) by simp
  ultimately show ?thesis using k'(1) sample_lends(4) by blast
qed

text \<open>
  C12. In every reachable state in which no cycle of threads wait for each other, the priority of a thread is the best of the own priorities
  of all threads that wait for it, directly or through other threads, and of its own.
\<close>
theorem priorities_inherited_along_chains:
  assumes "sync_init k0" "run sync_step k0 es k" "acyclic (waits_on k)"
  shows "prio k t = Min (base k ` {u. (u, t) \<in> (waits_on k)\<^sup>*})"
proof -
  have inv: "locks_inv k" using sync.reachable_inv [OF assms(1,2)] by (simp add: waits_inv_def)
  obtain u where u: "(u, t) \<in> (waits_on k)\<^sup>*" "prio k t = base k u" using chain_attained [OF inv assms(3)] by blast
  show ?thesis
  proof (rule sym, rule Min_eqI)
    show "finite (base k ` {u. (u, t) \<in> (waits_on k)\<^sup>*})" using chain_finite [OF inv] by simp
    show "prio k t \<le> p" if "p \<in> base k ` {u. (u, t) \<in> (waits_on k)\<^sup>*}" for p using that chain_lower [OF inv] by auto
    show "prio k t \<in> base k ` {u. (u, t) \<in> (waits_on k)\<^sup>*}" using u by auto
  qed
qed

theorem priorities_inherited_along_chains_witness:
  "sync_init sync_sample \<and> prio sync_sample 2 = 44 \<and>
   (\<exists>k. run sync_step sync_sample [Wait_Lock sample_caller 0x8000 0x1000 7] k \<and> GetLockOwner k 3 = Some 2 \<and> prio k 2 \<le> base k 3)"
proof -
  obtain k where k: "sync_step sync_sample (Wait_Lock sample_caller 0x8000 0x1000 7) k" "GetLockOwner k = (\<lambda>_. None)(3 := Some 2)"
    using sync_sample_waits by blast
  have run: "run sync_step sync_sample [Wait_Lock sample_caller 0x8000 0x1000 7] k" using k(1) by (rule run_one)
  have w: "waits_on k = {(3, 2)}" by (auto simp: waits_on_def k(2) split: if_splits)
  have ac: "acyclic (waits_on k)" unfolding w by (simp add: acyclic_def trancl_insert)
  have fin: "finite {u. (u, 2) \<in> (waits_on k)\<^sup>*}"
    using chain_finite sync.reachable_inv [OF sync_sample_init run] by (simp add: waits_inv_def)
  have "prio k 2 = Min (base k ` {u. (u, 2) \<in> (waits_on k)\<^sup>*})" by (rule priorities_inherited_along_chains [OF sync_sample_init run ac])
  moreover have "(3, 2) \<in> (waits_on k)\<^sup>*" by (simp add: w r_into_rtrancl)
  ultimately have "prio k 2 \<le> base k 3" using fin by (simp add: Min_le)
  then show ?thesis using sync_sample_init run k(2) by (auto simp: sync_sample_fields)
qed

text \<open>
  C15. In every reachable state of threads that lock, wait, signal, are cancelled or terminated and get other own priorities: every thread has the least of
  its own priority and those of its waiters; it counts its waiters of the kernel; the waiters of a lock and the threads in a tree are in
  order; a thread that waits for an address has a thread that it waits for, so that its wait can be cancelled; and whatever thread runs, the
  operations return.
\<close>
theorem synchronization_stays_in_order:
  assumes "sync_init k0" "run sync_step k0 es k"
  shows "prio k t = Min (insert (base k t) (prio k ` {w. GetLockOwner k w = Some t})) \<and>
    kernel_waiters k t = int (card {w. GetLockOwner k w = Some t \<and> is_kernel k w}) \<and>
    (\<forall>l i. k_lock_infos k l = Some i \<longrightarrow> distinct (li_tree i) \<and> li_waiter_count i = length (li_tree i) \<and> sorted (map (prio k) (li_tree i)) \<and>
       set (li_tree i) = {w. waits k w = Some l}) \<and>
    (\<forall>tr key. sorted (map (prio k) (key_waiters k tr key)) \<and>
       set (key_waiters k tr key) = {w. in_tree k w = Some tr \<and> th_condvar_key (thread_of k w) = key}) \<and>
    (wait_queue k t = Some ForKConditionVariableWaitForAddress \<longrightarrow> GetLockOwner k t \<noteq> None) \<and>
    (\<exists>k'. SetBasePriority cur t p k = Some k') \<and> (\<exists>k'. CancelWait cur t r k = Some k') \<and>
    (\<not> th_is_pinned (thread_of k t) \<and> requests_ok k \<longrightarrow> (\<exists>x. RequestTerminate cur t k = Some x)) \<and>
    (runs_now k c \<longrightarrow>
       (\<exists>x. KConditionVariable_SignalToAddress c addr k = Some x) \<and> (\<exists>x. KConditionVariable_WaitForAddress c h addr v k = Some x) \<and>
       (\<exists>x. KConditionVariable_Signal c addr n k = Some x) \<and> (\<exists>x. KConditionVariable_Wait c addr key v timeout k = Some x) \<and>
       (\<exists>x. KAddressArbiter_SignalToAddress c addr type v n k = Some x))"
proof -
  have inv: "waits_inv k" by (rule sync.reachable_inv [OF assms])
  then have li: "locks_inv k" by (simp add: waits_inv_def)
  note s = locks_invD [OF li] and run = running_not_waiting [OF inv, of "cl_thread c"]
  have "prio k t = Min (insert (base k t) (prio k ` {w. GetLockOwner k w = Some t}))"
    using s(5) [of t] unfolding inherits_def inherited_priority_eq [OF s(1)] .
  moreover have "distinct (li_tree i) \<and> li_waiter_count i = length (li_tree i) \<and> sorted (map (prio k) (li_tree i)) \<and>
      set (li_tree i) = {w. waits k w = Some l}" if "k_lock_infos k l = Some i" for l i
  proof -
    have ok: "lock_ok k l i" by (rule lock_shapeD(1) [OF s(1) that])
    then have "lock_order.ordered (k_threads k) (li_tree i)" by (simp add: lock_ok_def)
    then have "sorted (map (prio k) (li_tree i))" unfolding sorted_wrt_map by (rule sorted_wrt_mono_rel [rotated]) (simp add: lock_less_def)
    then show ?thesis using ok by (auto simp: lock_ok_def)
  qed
  moreover have "wait_queue k t = Some ForKConditionVariableWaitForAddress \<Longrightarrow> GetLockOwner k t \<noteq> None"
  proof -
    assume q: "wait_queue k t = Some ForKConditionVariableWaitForAddress"
    have "wait_ok k t" using inv by (simp add: waits_inv_def)
    then show "GetLockOwner k t \<noteq> None" using q by (simp add: wait_ok_def queue_fits_def)
  qed
  moreover have "\<not> th_is_pinned (thread_of k t) \<and> requests_ok k \<longrightarrow> (\<exists>x. RequestTerminate cur t k = Some x)"
    using RequestTerminate_ok [OF inv, of t cur] by blast
  moreover have "\<exists>x. KAddressArbiter_SignalToAddress c addr type v n k = Some x" using arbiter_signal_ok [OF inv] by blast
  moreover have "\<exists>x. KConditionVariable_Signal c addr n k = Some x" using Signal_ok [OF inv] by blast
  moreover have "\<exists>x. KConditionVariable_SignalToAddress c addr k = Some x" using SignalToAddress_ok [OF inv] by blast
  moreover have "runs_now k c \<Longrightarrow> \<exists>x. KConditionVariable_WaitForAddress c h addr v k = Some x" using WaitForAddress_ok [OF inv run] by blast
  moreover have "runs_now k c \<Longrightarrow> \<exists>x. KConditionVariable_Wait c addr key v timeout k = Some x" using Wait_ok [OF inv run] by blast
  ultimately show ?thesis
    using lock_shapeD(6) [OF s(1), of t] key_waiters_sorted(1,3) [OF li] SetBasePriority_waits [OF inv, of cur t p] CancelWait_ok [OF inv, of cur t r]
    by blast
qed

theorem synchronization_stays_in_order_witness:
  "sync_init sync_sample \<and>
   (\<exists>k. run sync_step sync_sample [Wait_Lock sample_caller 0x8000 0x1000 7] k \<and>
      wait_queue k 3 = Some ForKConditionVariableWaitForAddress \<and> GetLockOwner k 3 = Some 2 \<and>
      prio k 2 = Min {base k 2, prio k 3} \<and> (\<exists>k'. CancelWait 2 3 ResultCancelled k = Some k'))"
proof -
  obtain k where k: "sync_step sync_sample (Wait_Lock sample_caller 0x8000 0x1000 7) k" "GetLockOwner k = (\<lambda>_. None)(3 := Some 2)"
    "wait_queue k 3 = Some ForKConditionVariableWaitForAddress" using sync_sample_waits by blast
  have run: "run sync_step sync_sample [Wait_Lock sample_caller 0x8000 0x1000 7] k" using k(1) by (rule run_one)
  note t = synchronization_stays_in_order [OF sync_sample_init run]
  have "prio k 2 = Min (insert (base k 2) (prio k ` {w. GetLockOwner k w = Some 2}))" using t [of 2] by blast
  then have "prio k 2 = Min {base k 2, prio k 3}" by (simp add: k(2))
  moreover have "\<exists>k'. CancelWait 2 3 ResultCancelled k = Some k'" using t [of 3] by blast
  ultimately show ?thesis using sync_sample_init run k(2,3) by auto
qed

text \<open>
  C27. In a reachable state, a thread that releases the lock at an address passes it on: the word of the lock becomes the value of the
  waiter of best priority, with the flag exactly when other threads wait in the same lock, that waiter runs again with success, and the
  others wait for it from now on. Without waiters of that address the word becomes zero.
\<close>
theorem released_lock_is_passed_on:
  assumes "sync_init k0" "run sync_step k0 es k"
  shows "\<exists>k'. KConditionVariable_SignalToAddress c addr k = Some (ResultSuccess, k') \<and>
    (if \<exists>w. GetLockOwner k w = Some (cl_thread c) \<and> th_address_key (thread_of k w) = addr \<and> \<not> is_kernel k w
     then \<exists>n. GetLockOwner k n = Some (cl_thread c) \<and> th_address_key (thread_of k n) = addr \<and> \<not> is_kernel k n \<and>
       (\<forall>w. waits k w = waits k n \<longrightarrow> prio k n \<le> prio k w) \<and> woken k' n \<and>
       ReadFromUser c addr k' = (if \<exists>w. w \<noteq> n \<and> waits k w = waits k n then th_address_key_value (thread_of k n) OR HandleWaitMask
          else th_address_key_value (thread_of k n)) \<and>
       GetLockOwner k' = (\<lambda>u. if u = n then None else if waits k u = waits k n then Some n else GetLockOwner k u)
     else ReadFromUser c addr k' = 0 \<and> GetLockOwner k' = GetLockOwner k)"
proof -
  have inv: "waits_inv k" by (rule sync.reachable_inv [OF assms])
  from SignalToAddress_ok [OF inv, of c addr] obtain nx others k1 k' where
    r: "KConditionVariable_SignalToAddress c addr k = Some (ResultSuccess, k')" "passed k (cl_thread c) addr False (nx, others, k1)"
      "GetLockOwner k' = GetLockOwner k1" "k' = end_wait_of_next nx ResultSuccess (WriteToUser c addr (tag_of_next nx others k1) k1)"
      "prio_frame k k1" by blast
  show ?thesis
  proof (cases nx)
    case None
    have "ReadFromUser c addr k' = 0" by (simp add: r(4) None end_wait_of_next_def tag_of_next_def ReadFromUser_def WriteToUser_def)
    then show ?thesis using r(1-3) None by (auto simp: passed_def)
  next
    case (Some n)
    let ?k = "WriteToUser c addr (tag_of_next nx others k1) k1"
    have p: "GetLockOwner k n = Some (cl_thread c)" "th_address_key (thread_of k n) = addr" "\<not> is_kernel k n"
      "\<forall>w. waits k w = waits k n \<longrightarrow> prio k n \<le> prio k w" "others \<longleftrightarrow> (\<exists>w. w \<noteq> n \<and> waits k w = waits k n)"
      "GetLockOwner k' = (\<lambda>u. if u = n then None else if waits k u = waits k n then Some n else GetLockOwner k u)"
      using r(2,3) Some by (simp_all add: passed_def)
    have q: "wait_queue k n \<noteq> None" using not_waiting(1) [OF inv, of n] p(1) by auto
    have "state_fits k n" using inv by (simp add: waits_inv_def wait_ok_def)
    then have "wait_queue ?k n \<noteq> None" "GetState (thread_of ?k n) = Waiting"
      using q prio_frameD(2,3) [OF r(5), of n] by (simp_all add: state_fits_def GetState_def)
    then have k': "k' = KThreadQueue_EndWait n ResultSuccess ?k" by (simp add: r(4) Some end_wait_of_next_def EndWait_def)
    have "woken k' n" by (simp add: woken_def k' waiting_fields(3,4) wait_result_fields)
    moreover have "k_memory k' = k_memory ?k" using lock_state_EndWait [of n ResultSuccess ?k] by (simp add: k' lock_state_def)
    then have "ReadFromUser c addr k' = (if others then th_address_key_value (thread_of k n) OR HandleWaitMask else th_address_key_value (thread_of k n))"
      using prio_frameD(8) [OF r(5), of n] by (simp add: ReadFromUser_def) (simp add: WriteToUser_def tag_of_next_def Some)
    ultimately show ?thesis using r(1) p by auto
  qed
qed

theorem released_lock_is_passed_on_witness:
  "sync_init sync_sample \<and>
   (\<exists>k k'. run sync_step sync_sample [Wait_Lock sample_caller 0x8000 0x1000 7] k \<and> GetLockOwner k 3 = Some 2 \<and>
      KConditionVariable_SignalToAddress (sample_caller \<lparr> cl_thread := 2 \<rparr>) 0x1000 k = Some (ResultSuccess, k') \<and>
      woken k' 3 \<and> GetLockOwner k' 3 = None)"
proof -
  obtain k where k: "sync_step sync_sample (Wait_Lock sample_caller 0x8000 0x1000 7) k" "GetLockOwner k = (\<lambda>_. None)(3 := Some 2)"
    "th_address_key (thread_of k 3) = 0x1000" "\<not> is_kernel k 3" using sync_sample_waits by blast
  have run: "run sync_step sync_sample [Wait_Lock sample_caller 0x8000 0x1000 7] k" using k(1) by (rule run_one)
  have some: "\<exists>w. GetLockOwner k w = Some (cl_thread (sample_caller \<lparr> cl_thread := 2 \<rparr>)) \<and> th_address_key (thread_of k w) = 0x1000 \<and> \<not> is_kernel k w"
    using k(2-4) by (intro exI [of _ 3]) simp
  from released_lock_is_passed_on [OF sync_sample_init run, of "sample_caller \<lparr> cl_thread := 2 \<rparr>" "0x1000"] some obtain k' n where
    n: "KConditionVariable_SignalToAddress (sample_caller \<lparr> cl_thread := 2 \<rparr>) 0x1000 k = Some (ResultSuccess, k')" "GetLockOwner k n = Some 2"
      "woken k' n" "GetLockOwner k' = (\<lambda>u. if u = n then None else if waits k u = waits k n then Some n else GetLockOwner k u)" by auto
  have "n = 3" using n(2) k(2) by (simp split: if_splits)
  then show ?thesis using sync_sample_init run k(2) n by auto
qed

text \<open>
  C9. In a reachable state, a signal to an address arbiter returns. Without the wanted value in memory it changes nothing and says so.
  Otherwise the memory gets the value that the kind of the signal and the number of waiters ask for; the waiters of that address that it
  wakes are the first ones in the order of priorities, as many as asked for or all of them; they run with success and are out of the tree;
  every other thread waits as before, in the same order.
\<close>
theorem arbiter_signal_wakes_the_best:
  fixes c :: caller and addr :: u64 and k :: kernel and cnt :: int
  defines "tr \<equiv> AddressArbiters (cl_process c)"
  defines "ws \<equiv> key_waiters k tr addr"
  defines "out \<equiv> to_wake cnt ws"
  assumes "sync_init k0" "run sync_step k0 es k"
  shows "sorted (map (prio k) ws) \<and> (\<exists>r k'. KAddressArbiter_SignalToAddress c addr type v cnt k = Some (r, k') \<and>
    (if type = Signal \<or> ReadFromUser c addr k = v
     then r = ResultSuccess \<and> ReadFromUser c addr k' = signal_value type (ReadFromUser c addr k) v cnt (length ws) \<and>
       (\<forall>t\<in>set out. woken k' t \<and> in_tree k' t = None) \<and>
       k_thread_trees k' = (k_thread_trees k)(tr := filter (\<lambda>t. t \<notin> set out) (k_thread_trees k tr)) \<and>
       (\<forall>u. u \<notin> set out \<longrightarrow> wait_view k' u = wait_view k u \<and> th_wait_result (thread_of k' u) = th_wait_result (thread_of k u))
     else r = ResultInvalidState \<and> k' = k))"
proof -
  have inv: "waits_inv k" by (rule sync.reachable_inv [OF assms(4,5)])
  then have li: "locks_inv k" by (simp add: waits_inv_def)
  note a = arbiter_signal_ok [OF inv, of c addr type v cnt, folded tr_def, folded ws_def, folded out_def]
  have eff: "ReadFromUser c addr k' = x" "\<forall>t\<in>set out. woken k' t \<and> in_tree k' t = None"
    "k_thread_trees k' = (k_thread_trees k)(tr := filter (\<lambda>t. t \<notin> set out) (k_thread_trees k tr))"
    "\<forall>u. u \<notin> set out \<longrightarrow> wait_view k' u = wait_view k u \<and> th_wait_result (thread_of k' u) = th_wait_result (thread_of k u)"
    if "arbiter_done tr out (WriteToUser c addr x k) k'" for x k'
  proof -
    have inv': "waits_inv k'" using that by (simp add: arbiter_done_def)
    show "ReadFromUser c addr k' = x" using that by (simp add: arbiter_done_def ReadFromUser_def WriteToUser_def)
    show "\<forall>t\<in>set out. woken k' t \<and> in_tree k' t = None" using that not_waiting(2) [OF inv'] by (simp add: arbiter_done_def woken_def)
    show "k_thread_trees k' = (k_thread_trees k)(tr := filter (\<lambda>t. t \<notin> set out) (k_thread_trees k tr))"
      using that by (simp add: arbiter_done_def)
    have "wait_view (WriteToUser c addr x k) u = wait_view k u" for u by (simp add: wait_view_def)
    then show "\<forall>u. u \<notin> set out \<longrightarrow> wait_view k' u = wait_view k u \<and> th_wait_result (thread_of k' u) = th_wait_result (thread_of k u)"
      using that by (simp add: arbiter_done_def)
  qed
  have sorted: "sorted (map (prio k) ws)" unfolding ws_def by (rule key_waiters_sorted(1) [OF li])
  from a obtain r k' where r: "KAddressArbiter_SignalToAddress c addr type v cnt k = Some (r, k')"
    "if type = Signal \<or> ReadFromUser c addr k = v
     then r = ResultSuccess \<and> arbiter_done tr out (WriteToUser c addr (signal_value type (ReadFromUser c addr k) v cnt (length ws)) k) k'
     else r = ResultInvalidState \<and> k' = k" by blast
  show ?thesis
  proof (cases "type = Signal \<or> ReadFromUser c addr k = v")
    case True
    then have d: "r = ResultSuccess" "arbiter_done tr out (WriteToUser c addr (signal_value type (ReadFromUser c addr k) v cnt (length ws)) k) k'"
      using r(2) by simp_all
    show ?thesis unfolding if_P [OF True] using sorted r(1) d(1) eff [OF d(2)] by blast
  next
    case False
    show ?thesis unfolding if_not_P [OF False] using sorted r False by simp
  qed
qed

text \<open>The thread 3 waits in the address arbiter while the word has its value.\<close>

lemma arbiter_sample:
  "\<exists>k. run sync_step sync_sample [Wait_Arbiter sample_caller 0x1000 WaitIfEqual 0x40008000 5] k \<and>
    (\<forall>u. in_tree k u = (if u = 3 then Some (AddressArbiters 0) else None)) \<and> th_condvar_key (thread_of k 3) = 0x1000 \<and> k_memory k = k_memory sync_sample"
proof -
  have inv: "waits_inv sync_sample" by (rule sync_init_inv [OF sync_sample_init])
  have run: "runs_now sync_sample sample_caller" "wait_queue sync_sample (cl_thread sample_caller) = None"
    by (simp_all add: sync_sample_fields sample_caller_def)
  have t: "\<not> IsTerminationRequested (thread_of sync_sample (cl_thread sample_caller))"
    using sync_sample_fields(7) by (simp add: sample_caller_def)
  have "ReadFromUser sample_caller 0x1000 sync_sample = 0x40008000" by (simp add: ReadFromUser_def sample_caller_def sync_sample_fields(6))
  then have w: "KAddressArbiter_WaitForAddress sample_caller 0x1000 WaitIfEqual 0x40008000 5 sync_sample =
      (None, wait_in_arbiter sample_caller 0x1000 sync_sample)"
    using t by (simp add: arbiter_wait_eq may_wait_def)
  note a = wait_in_arbiter_ok(2-) [OF inv run(2), of "0x1000"]
  have c: "cl_thread sample_caller = 3" "cl_process sample_caller = 0" by (simp_all add: sample_caller_def)
  have "\<forall>u. in_tree (wait_in_arbiter sample_caller 0x1000 sync_sample) u = (if u = 3 then Some (AddressArbiters 0) else None)"
    using sync_sample_init by (simp add: a(1) c sync_init_def)
  then show ?thesis using run_one [of sync_step, OF sync_step.wait_arbiter [OF run(1) w]] a(2) [of 3] a(3) c by auto
qed

theorem arbiter_signal_wakes_the_best_witness:
  "sync_init sync_sample \<and>
   (\<exists>k k'. run sync_step sync_sample [Wait_Arbiter sample_caller 0x1000 WaitIfEqual 0x40008000 5] k \<and> in_tree k 3 = Some (AddressArbiters 0) \<and>
      KAddressArbiter_SignalToAddress sample_caller 0x1000 SignalAndIncrementIfEqual 0x40008000 1 k = Some (ResultSuccess, k') \<and>
      woken k' 3 \<and> ReadFromUser sample_caller 0x1000 k' = 0x40008001)"
proof -
  obtain k where k: "run sync_step sync_sample [Wait_Arbiter sample_caller 0x1000 WaitIfEqual 0x40008000 5] k"
    "\<And>u. in_tree k u = (if u = 3 then Some (AddressArbiters 0) else None)" "th_condvar_key (thread_of k 3) = 0x1000" "k_memory k = k_memory sync_sample"
    using arbiter_sample by blast
  have li: "locks_inv k" using sync.reachable_inv [OF sync_sample_init k(1)] by (simp add: waits_inv_def)
  have v: "ReadFromUser sample_caller 0x1000 k = 0x40008000" by (simp add: ReadFromUser_def sample_caller_def k(4) sync_sample_fields(6))
  have p: "cl_process sample_caller = 0" by (simp add: sample_caller_def)
  let ?ws = "key_waiters k (AddressArbiters 0) 0x1000"
  have "set ?ws = {3}" unfolding key_waiters_sorted(3) [OF li] using k(3) by (auto simp: k(2) split: if_splits)
  then have ws: "?ws = [3]" using key_waiters_sorted(2) [OF li, of "AddressArbiters 0" "0x1000"]
    by (cases ?ws; cases "tl ?ws") auto
  from arbiter_signal_wakes_the_best [OF sync_sample_init k(1), of sample_caller "0x1000" SignalAndIncrementIfEqual "0x40008000" 1] v
  have "\<exists>k'. KAddressArbiter_SignalToAddress sample_caller 0x1000 SignalAndIncrementIfEqual 0x40008000 1 k = Some (ResultSuccess, k') \<and>
      woken k' 3 \<and> ReadFromUser sample_caller 0x1000 k' = 0x40008001"
    unfolding p ws by (auto simp: to_wake_def signal_value_def)
  then show ?thesis using sync_sample_init k(1,2) by auto
qed

text \<open>
  C21. In a reachable state, a signal to a condition variable returns and takes waiters of its key out of the tree, among them the first one
  in the order of priorities and no more than asked for. No thread that it takes out is lost: it runs, or it waits for the thread that has
  its lock and has lent it its priority. Every thread that stays in the tree was there before.
\<close>
theorem condition_signal_takes_the_best:
  fixes c :: caller and cv_key :: u64 and k :: kernel
  defines "tr \<equiv> ConditionVariables (cl_process c)"
  defines "ws \<equiv> key_waiters k tr cv_key"
  assumes "sync_init k0" "run sync_step k0 es k"
  shows "\<exists>k' out. KConditionVariable_Signal c cv_key cnt k = Some k' \<and> out \<subseteq> set ws \<and> (ws \<noteq> [] \<longrightarrow> hd ws \<in> out) \<and>
    (\<forall>t\<in>set ws. ws \<noteq> [] \<and> prio k (hd ws) \<le> prio k t) \<and> (0 < cnt \<longrightarrow> int (card out) \<le> cnt) \<and>
    (\<forall>u. in_tree k' u = (if u \<in> out then None else in_tree k u)) \<and>
    (\<forall>t\<in>out. wait_queue k' t = None \<and> GetState (thread_of k' t) \<noteq> Waiting \<or> (\<exists>w. GetLockOwner k' t = Some w \<and> prio k' w \<le> prio k' t))"
proof -
  have inv: "waits_inv k" by (rule sync.reachable_inv [OF assms(3,4)])
  then have li: "locks_inv k" by (simp add: waits_inv_def)
  have best: "\<forall>t\<in>set ws. ws \<noteq> [] \<and> prio k (hd ws) \<le> prio k t"
    using key_waiters_sorted(1) [OF li, of tr cv_key, folded ws_def] by (cases ws) auto
  from Signal_ok [OF inv, of c cv_key cnt, folded tr_def, folded ws_def] obtain k' out where
    r: "KConditionVariable_Signal c cv_key cnt k = Some k'" "waits_inv k'" "out \<subseteq> set ws" "\<forall>u. in_tree k' u = (if u \<in> out then None else in_tree k u)"
      "0 < cnt \<longrightarrow> int (card out) \<le> cnt" "ws \<noteq> [] \<longrightarrow> hd ws \<in> out"
      "\<forall>u. wait_queue k' u \<noteq> None \<longrightarrow> wait_queue k' u = wait_queue k u" by blast
  have li': "locks_inv k'" using r(2) by (simp add: waits_inv_def)
  have lost: "wait_queue k' t = None \<and> GetState (thread_of k' t) \<noteq> Waiting \<or> (\<exists>w. GetLockOwner k' t = Some w \<and> prio k' w \<le> prio k' t)"
    if "t \<in> out" for t
  proof -
    have w: "wait_ok k' t" "in_tree k' t = None" using r(2,4) that by (simp_all add: waits_inv_def)
    have "t \<in> set ws" using r(3) that by blast
    then have "in_tree k t = Some tr" using key_waiters_sorted(3) [OF li, of tr cv_key] by (simp add: ws_def)
    then have "wait_queue k t = Some (ForKConditionVariableWaitConditionVariable tr)" using fits_in_tree(1) [OF inv] unfolding tr_def by blast
    then have "wait_queue k' t = None \<or> wait_queue k' t = Some (ForKConditionVariableWaitConditionVariable tr)" using r(7) by metis
    then have "wait_queue k' t = None \<or> GetLockOwner k' t \<noteq> None" using w
      by (auto simp: wait_ok_def queue_fits_def split: option.splits thread_queue.splits if_splits)
    moreover have "prio k' w \<le> prio k' t" if "GetLockOwner k' t = Some w" for w
      using that locks_invD(6) [OF li', of w] by (simp add: least_priority_def)
    ultimately show ?thesis using w(1) by (auto simp: wait_ok_def state_fits_def)
  qed
  show ?thesis by (intro exI conjI) (rule r best ballI lost | assumption)+
qed

theorem condition_signal_takes_the_best_witness:
  "sync_init sync_sample \<and>
   (\<exists>k k' t. run sync_step sync_sample [Wait_Condition sample_caller 0x1000 0x2000 7 5] k \<and> in_tree k 3 = Some (ConditionVariables 0) \<and>
      KConditionVariable_Signal (sample_caller \<lparr> cl_thread := 2 \<rparr>) 0x2000 1 k = Some k' \<and>
      in_tree k t = Some (ConditionVariables 0) \<and> in_tree k' t = None \<and> prio k t \<le> prio k 3)"
proof -
  have inv: "waits_inv sync_sample" by (rule sync_init_inv [OF sync_sample_init])
  have run: "runs_now sync_sample sample_caller" "wait_queue sync_sample (cl_thread sample_caller) = None"
    by (simp_all add: sync_sample_fields sample_caller_def)
  have c: "cl_thread sample_caller = 3" "cl_process sample_caller = 0" by (simp_all add: sample_caller_def)
  from Wait_ok [OF inv run(2), of "0x1000" "0x2000" 7 5] obtain k where
    k: "KConditionVariable_Wait sample_caller 0x1000 0x2000 7 5 sync_sample = Some (None, k)" "waits_inv k"
      "in_tree k 3 = Some (ConditionVariables 0)" "th_condvar_key (thread_of k 3) = 0x2000"
    using sync_sample_fields(7) unfolding c by auto
  have r: "run sync_step sync_sample [Wait_Condition sample_caller 0x1000 0x2000 7 5] k"
    by (rule run_one) (rule sync_step.wait_condition [OF run(1) k(1)])
  let ?ws = "key_waiters k (ConditionVariables 0) 0x2000"
  have li: "locks_inv k" using k(2) by (simp add: waits_inv_def)
  have ws: "3 \<in> set ?ws" using k(3,4) by (simp add: key_waiters_sorted(3) [OF li])
  from condition_signal_takes_the_best [OF sync_sample_init r, of "sample_caller \<lparr> cl_thread := 2 \<rparr>" "0x2000" 1] obtain k' out where
    s: "KConditionVariable_Signal (sample_caller \<lparr> cl_thread := 2 \<rparr>) 0x2000 1 k = Some k'" "?ws \<noteq> [] \<longrightarrow> hd ?ws \<in> out"
      "\<forall>u. in_tree k' u = (if u \<in> out then None else in_tree k u)" "\<forall>t\<in>set ?ws. ?ws \<noteq> [] \<and> prio k (hd ?ws) \<le> prio k t" by (auto simp: c)
  have "?ws \<noteq> []" "prio k (hd ?ws) \<le> prio k 3" using s(4) ws by blast+
  moreover have "in_tree k (hd ?ws) = Some (ConditionVariables 0)"
    using hd_in_set [OF calculation(1)] unfolding key_waiters_sorted(3) [OF li] by simp
  moreover have "in_tree k' (hd ?ws) = None" using s(2,3) calculation(1) by simp
  ultimately show ?thesis using sync_sample_init r k(3) s(1) by blast
qed

end
