(* ===== verification/LightLockProperties.thy ===== *)
theory LightLockProperties
  imports LightLockSystem SynchronizationSystem
begin

text \<open>
  What the locks of the kernel give to the threads that use them: only one thread at a time, and the waiter of best priority next.
\<close>

section \<open>Waiters of a lock\<close>

definition sleepers :: "light_state \<Rightarrow> u64 \<Rightarrow> thread set" where
  "sleepers s a = {w. ls_pc s w = Sleeping a \<and> asleep s w}"

lemma sleepers_same_lock:
  assumes inv: "light_inv s" and n: "n \<in> sleepers s a"
  shows "sleepers s a = {w. waits (ls_kernel s) w = waits (ls_kernel s) n}"
proof -
  note d = light_invD [OF inv]
  let ?k = "ls_kernel s"
  have shape: "lock_shape ?k" using d(1) by (simp add: waits_inv_def locks_invD(1))
  have sl: "th_address_key (thread_of ?k w) = a \<and> is_kernel ?k w \<and> (\<exists>r. GetLockOwner ?k w = Some r \<and> ls_tags s a = Some (r, True))"
    if "w \<in> sleepers s a" for w
    using that d(5,6) [of w a] asleep_kernel(1) [OF d(1), of w] by (auto simp: sleepers_def)
  obtain r where r: "GetLockOwner ?k n = Some r" "ls_tags s a = Some (r, True)" using sl [OF n] by blast
  obtain l i where l: "waits ?k n = Some l" "lock_ok ?k l i" "k_lock_infos ?k l = Some i" using waiterE [OF shape r(1)] by metis
  have "waits ?k w = waits ?k n" if w: "w \<in> sleepers s a" for w
  proof -
    have "GetLockOwner ?k w = Some r" using sl [OF w] r(2) by auto
    then show ?thesis using one_lockD [OF d(2), of w n r] sl [OF w] sl [OF n] r(1) by simp
  qed
  moreover have "w \<in> sleepers s a" if w: "waits ?k w = waits ?k n" for w
  proof -
    have own: "GetLockOwner ?k w = Some r" using r(1) w by (simp add: GetLockOwner_def)
    have "th_address_key (thread_of ?k w) = th_address_key (thread_of ?k n)" "is_kernel ?k w = is_kernel ?k n"
      using l w unfolding lock_ok_def by metis+
    then show ?thesis using waiter_of_tag(1,2) [OF inv own] sl [OF n] by (simp add: sleepers_def)
  qed
  ultimately show ?thesis by blast
qed

lemma unlock_hands_over:
  assumes inv: "light_inv s" and pc: "ls_pc s t = Outside" and a: "a \<in> ls_locked s t"
  shows "\<exists>tag k'. Unlock a t (ls_tags s a) (ls_kernel s) = Some (tag, k') \<and>
    (if sleepers s a = {} then tag = None
     else \<exists>n\<in>sleepers s a. (\<forall>w\<in>sleepers s a. prio (ls_kernel s) n \<le> prio (ls_kernel s) w) \<and> tag = Some (n, sleepers s a \<noteq> {n}) \<and>
       wait_queue k' n = None \<and> (\<forall>w\<in>sleepers s a - {n}. GetLockOwner k' w = Some n \<and> wait_queue k' w = Some ForKLightLock))"
proof -
  note d = light_invD [OF inv]
  let ?k = "ls_kernel s"
  obtain b where tag: "ls_tags s a = Some (t, b)" using d(4) [OF a] by blast
  have own: "GetLockOwner ?k w = Some t" "b" if "w \<in> sleepers s a" for w using that d(6) [of w a] tag by (auto simp: sleepers_def)
  have free: "\<not> (GetLockOwner ?k w = Some n \<and> is_kernel ?k w \<and> th_address_key (thread_of ?k w) = a)"
    if n: "GetLockOwner ?k n = Some t" "is_kernel ?k n" "th_address_key (thread_of ?k n) = a" for n w
    using waiter_of_tag(3) [OF inv, of w n a] waiter_of_tag(1) [OF inv n] tag pc by auto
  from UnlockSlowPath_ok [OF d(1-3) free] obtain nx others k1 k2 where
    r: "UnlockSlowPath a t ?k = Some (case nx of None \<Rightarrow> None | Some n \<Rightarrow> Some (n, others), k2)"
      "passed ?k t a True (nx, others, k1)" "GetLockOwner k2 = GetLockOwner k1"
      "\<And>u. wait_queue k2 u = (if nx = Some u then None else wait_queue ?k u)" by blast
  show ?thesis
  proof (cases nx)
    case None
    have "w \<notin> sleepers s a" for w
      using r(2) None own(1) [of w] d(5) [of w a] asleep_kernel(1) [OF d(1), of w] by (auto simp: passed_def sleepers_def)
    then show ?thesis using r(1) None tag by (cases b) (auto simp: Unlock_def)
  next
    case (Some n)
    have n: "GetLockOwner ?k n = Some t" "is_kernel ?k n" "th_address_key (thread_of ?k n) = a" "\<And>w. waits ?k w = waits ?k n \<Longrightarrow> prio ?k n \<le> prio ?k w"
      "others \<longleftrightarrow> (\<exists>w. w \<noteq> n \<and> waits ?k w = waits ?k n)"
      "GetLockOwner k2 = (\<lambda>u. if u = n then None else if waits ?k u = waits ?k n then Some n else GetLockOwner ?k u)"
      using r(2,3) Some by (simp_all add: passed_def)
    have sl: "n \<in> sleepers s a" using waiter_of_tag(1,2) [OF inv n(1-3)] by (simp add: sleepers_def)
    note set = sleepers_same_lock [OF inv sl]
    have b by (rule own(2) [OF sl])
    then have u: "Unlock a t (ls_tags s a) ?k = Some (Some (n, others), k2)" using r(1) tag Some by (simp add: Unlock_def)
    have others: "others \<longleftrightarrow> sleepers s a \<noteq> {n}" using n(5) unfolding set by auto
    have rest: "GetLockOwner k2 w = Some n \<and> wait_queue k2 w = Some ForKLightLock" if "w \<in> sleepers s a - {n}" for w
    proof -
      have "waits ?k w = waits ?k n" using that set by blast
      moreover have "asleep s w" using that by (simp add: sleepers_def)
      ultimately show ?thesis using that n(6) r(4) [of w] Some by simp
    qed
    have best: "prio ?k n \<le> prio ?k w" if "w \<in> sleepers s a" for w using that n(4) set by blast
    have "wait_queue k2 n = None" using r(4) [of n] Some by simp
    then show ?thesis using u others rest best sl by auto
  qed
qed

section \<open>Marks of a thread\<close>

text \<open>The slow path of \<^verbatim>\<open>Lock\<close> does not see whether termination was requested, nor whether a thread is pinned.\<close>

definition marks :: "KThread \<Rightarrow> bool \<times> bool" where
  "marks th = (th_termination_requested th, th_is_pinned th)"

interpretation marks: link_blind marks
  by unfold_locales (simp add: marks_def)

lemma marks_updates [simp]:
  "marks (th \<lparr> th_state := s \<rparr>) = marks th" "marks (th \<lparr> th_wait_queue := q \<rparr>) = marks th"
  by (simp_all add: marks_def)

lemma LockSlowPath_marks:
  assumes inv: "waits_inv k" and cur: "wait_queue k t = None" and res: "LockSlowPath key owner t (Some (owner, True)) k = Some (w, k')"
  shows "marks (thread_of k' u) = marks (thread_of k u)"
proof -
  let ?h = "\<lambda>th. th \<lparr> th_address_key := key, th_is_kernel_address_key := True \<rparr>"
  define k1 where "k1 = set_thread t ?h k"
  note n = not_waiting [OF inv cur]
  have h: "unkeyed (?h th) = unkeyed th" for th by (simp add: unkeyed_def)
  have li: "locks_inv k" using inv by (simp add: waits_inv_def)
  have l1: "locks_inv k1" unfolding k1_def by (rule rekey_ok [OF li n(1,2) h]) simp_all
  have free: "waits k1 t = None" "in_tree k1 t = None" using n rekeyed(8) [OF li n(1) h, of t, folded k1_def] by (simp_all add: k1_def)
  from AddWaiter_ok [OF l1 free, of t owner] obtain k2 where k2: "AddWaiter t owner t k1 = Some k2" "prio_frame k1 k2" by blast
  let ?k3 = "BeginWait t ForKLightLock k2"
  have "core_part (thread_of k2 u) = core_part (thread_of k1 u)" using k2(2) by (simp add: prio_frame_def projected_def fun_eq_iff)
  from arg_cong [where f = marks, OF this] have m2: "marks (thread_of k2 u) = marks (thread_of k u)"
    by (simp add: marks_def core_part_def lockless_def k1_def)
  have "projected marks (k_threads ?k3) = projected marks (k_threads k2)"
    by (simp add: BeginWait_def SetState_def store_state_def Let_def projected_upd)
  then have m3: "marks (thread_of ?k3 u) = marks (thread_of k2 u)" by (rule projectedD)
  have "projected marks (k_threads (ContinueIfHasKernelWaiters owner ?k3)) = projected marks (k_threads ?k3)"
    by (simp add: ContinueIfHasKernelWaiters_def Continue_def store_state_def Let_def projected_upd)
  then have m4: "marks (thread_of (ContinueIfHasKernelWaiters owner ?k3) u) = marks (thread_of ?k3 u)" by (rule projectedD)
  have "k' = (if IsSuspended (thread_of ?k3 owner) then ContinueIfHasKernelWaiters owner ?k3 else ?k3)"
    using res k2(1) by (simp add: LockSlowPath_def SetKernelAddressKey_def k1_def [symmetric] Let_def)
  then show ?thesis using m2 m3 m4 by simp
qed

section \<open>Samples\<close>

text \<open>The thread 2 has a lock of the kernel, and the thread 3, of better priority, sleeps until it gets it.\<close>

definition light_sample :: light_state where
  "light_sample = \<lparr> ls_tags = \<lambda>_. None, ls_kernel = sync_sample, ls_pc = \<lambda>_. Outside, ls_locked = \<lambda>_. {} \<rparr>"

lemma light_sample_init: "light_init light_sample"
proof -
  have "requests sync_sample t = requests sync_boot t" for t
  proof -
    have p: "projected th_suspend_request_flags (k_threads (SetState u s k)) = projected th_suspend_request_flags (k_threads k)" for u s k
      by (simp add: SetState_def Let_def projected_store_state)
    show ?thesis by (rule projectedD) (simp add: sync_sample_def p)
  qed
  then have "requests_ok sync_sample" by (simp add: requests_ok_def sync_boot_def sample_kernel_def sample_thread_def)
  moreover have "one_lock_per_key sync_sample" by (rule one_lockI) (simp add: sync_sample_fields)
  ultimately show ?thesis
    using sync_init_inv [OF sync_sample_init] by (simp add: light_init_def light_sample_def sync_sample_fields)
qed

lemma light_sample_marks: "marks (thread_of sync_sample 3) = (False, False)"
proof -
  have "projected marks (k_threads sync_sample) = projected marks (k_threads sync_boot)"
    by (simp add: sync_sample_def SetState_def store_state_def Let_def projected_upd)
  from projectedD [OF this, of 3] show ?thesis by (simp add: sync_boot_def sample_thread_def marks_def)
qed

lemma light_sample_sleeps:
  "\<exists>s. run light_step light_sample [Exchange 2 0x10, Exchange 3 0x10, Slow_Path 3 0x10 2] s \<and> ls_locked s 2 = {0x10} \<and>
    ls_pc s = (\<lambda>_. Outside)(3 := Sleeping 0x10) \<and> ls_tags s 0x10 = Some (2, True) \<and> asleep s 3 \<and> sleepers s 0x10 = {3} \<and>
    marks (thread_of (ls_kernel s) 3) = (False, False)"
proof -
  let ?s1 = "light_sample \<lparr> ls_tags := (ls_tags light_sample)(0x10 := lock_exchange 2 (ls_tags light_sample 0x10)),
      ls_locked := (ls_locked light_sample)(2 := insert 0x10 (ls_locked light_sample 2)) \<rparr>"
  let ?s2 = "?s1 \<lparr> ls_tags := (ls_tags ?s1)(0x10 := lock_exchange 3 (ls_tags ?s1 0x10)), ls_pc := (ls_pc ?s1)(3 := Contending 0x10 2) \<rparr>"
  have one: "light_step light_sample (Exchange 2 0x10) ?s1" by (rule acquire) (simp_all add: light_sample_def)
  have two: "light_step ?s1 (Exchange 3 0x10) ?s2"
    by (rule contend [where b = False]) (simp_all add: light_sample_def lock_exchange_def)
  have k: "ls_kernel ?s2 = sync_sample" "ls_tags ?s2 0x10 = Some (2, True)" by (simp_all add: light_sample_def lock_exchange_def)
  have init: "waits_inv sync_sample" "one_lock_per_key sync_sample" "requests_ok sync_sample"
    using light_sample_init by (simp_all add: light_init_def light_sample_def)
  from LockSlowPath_ok [OF init sync_sample_fields(1), of "0x10" 2 3] obtain k' where
    k': "LockSlowPath 0x10 2 3 (Some (2, True)) sync_sample = Some (True, k')" "wait_queue k' 3 = Some ForKLightLock" by blast
  let ?s3 = "?s2 \<lparr> ls_kernel := k', ls_pc := (ls_pc ?s2)(3 := if True then Sleeping 0x10 else Outside) \<rparr>"
  have "light_step ?s2 (Slow_Path 3 0x10 2) ?s3"
    by (rule slow_path) (simp_all add: k' k sync_sample_fields, simp_all add: light_sample_def lock_exchange_def k'(1) sync_sample_fields)
  then have "run light_step light_sample ([Exchange 2 0x10, Exchange 3 0x10] @ [Slow_Path 3 0x10 2]) ?s3"
    using run_snoc [OF run_two [of light_step, OF one two]] by blast
  moreover have "ls_locked ?s3 2 = {0x10}" "ls_pc ?s3 = (\<lambda>_. Outside)(3 := Sleeping 0x10)" "ls_tags ?s3 0x10 = Some (2, True)" "asleep ?s3 3"
    by (simp_all add: light_sample_def lock_exchange_def k'(2))
  moreover have "sleepers ?s3 0x10 = {3}" using k'(2) by (auto simp: sleepers_def light_sample_def)
  moreover have "marks (thread_of (ls_kernel ?s3) 3) = (False, False)"
    using LockSlowPath_marks [OF init(1) sync_sample_fields(1) k'(1), of 3] light_sample_marks by simp
  ultimately show ?thesis by (intro exI [of _ ?s3]) simp
qed

section \<open>Properties\<close>

text \<open>
  C18. Where waits for these locks end only by a release, for any interleaving of the steps of \<^verbatim>\<open>Lock\<close> and
  \<^verbatim>\<open>Unlock\<close> of any threads and other operations of the kernel: for at most one thread a call of \<^verbatim>\<open>Lock\<close> has
  returned without an \<^verbatim>\<open>Unlock\<close> since, and the lock is locked by that thread; a thread that sleeps waits for the thread that the
  word names, with the flag set, which has the lock or has been given it and has at least its priority, so that the release cannot miss the
  sleeper.
\<close>
theorem light_lock_mutual_exclusion:
  assumes "light_init s0" "run light_step s0 es s"
  shows "(a \<in> ls_locked s t \<and> a \<in> ls_locked s u \<longrightarrow> t = u) \<and>
    (a \<in> ls_locked s t \<longrightarrow> IsLockedByCurrentThread t (ls_tags s a)) \<and>
    (\<not> IsLocked (ls_tags s a) \<longrightarrow> a \<notin> ls_locked s t \<and> ls_pc s t \<noteq> Sleeping a) \<and>
    (ls_pc s w = Sleeping a \<and> asleep s w \<longrightarrow>
       (\<exists>r. GetLockOwner (ls_kernel s) w = Some r \<and> ls_tags s a = Some (r, True) \<and> prio (ls_kernel s) r \<le> prio (ls_kernel s) w \<and>
          (a \<in> ls_locked s r \<or> ls_pc s r = Sleeping a \<and> \<not> asleep s r)))"
proof (intro conjI impI)
  have inv: "light_inv s" by (rule light.reachable_inv [OF assms])
  note d = light_invD [OF inv]
  show "t = u" if "a \<in> ls_locked s t \<and> a \<in> ls_locked s u" using that d(4) [of a t] d(4) [of a u] by auto
  show "IsLockedByCurrentThread t (ls_tags s a)" if "a \<in> ls_locked s t" using d(4) [OF that] by (auto simp: IsLockedByCurrentThread_def)
  show "a \<notin> ls_locked s t" "ls_pc s t \<noteq> Sleeping a" if "\<not> IsLocked (ls_tags s a)"
    using that d(4) [of a t] d(6,7) [of t a] by (auto simp: IsLocked_def)
  show "\<exists>r. GetLockOwner (ls_kernel s) w = Some r \<and> ls_tags s a = Some (r, True) \<and> prio (ls_kernel s) r \<le> prio (ls_kernel s) w \<and>
      (a \<in> ls_locked s r \<or> ls_pc s r = Sleeping a \<and> \<not> asleep s r)" if w: "ls_pc s w = Sleeping a \<and> asleep s w"
  proof -
    obtain r where r: "GetLockOwner (ls_kernel s) w = Some r" "ls_tags s a = Some (r, True)" using w d(6) by blast
    have li: "locks_inv (ls_kernel s)" using d(1) by (simp add: waits_inv_def)
    have "prio (ls_kernel s) r \<le> prio (ls_kernel s) w" using locks_invD(6) [OF li, of r] r(1) by (simp add: least_priority_def)
    then show ?thesis using r d(9) [OF r(2)] by blast
  qed
qed

theorem light_lock_mutual_exclusion_witness:
  "light_init light_sample \<and>
   (\<exists>s. run light_step light_sample [Exchange 2 0x10, Exchange 3 0x10, Slow_Path 3 0x10 2] s \<and> 0x10 \<in> ls_locked s 2 \<and> 0x10 \<notin> ls_locked s 3 \<and>
      asleep s 3 \<and> GetLockOwner (ls_kernel s) 3 = Some 2 \<and> prio (ls_kernel s) 2 \<le> prio (ls_kernel s) 3)"
proof -
  obtain s where s: "run light_step light_sample [Exchange 2 0x10, Exchange 3 0x10, Slow_Path 3 0x10 2] s" "ls_locked s 2 = {0x10}"
    "ls_pc s = (\<lambda>_. Outside)(3 := Sleeping 0x10)" "ls_tags s 0x10 = Some (2, True)" "asleep s 3" using light_sample_sleeps by blast
  from light_lock_mutual_exclusion [OF light_sample_init s(1), of "0x10" 2 3 3] s show ?thesis using light_sample_init by auto
qed

text \<open>
  C33. In such a state, a thread that releases a lock it has returns from \<^verbatim>\<open>Unlock\<close>. Without sleepers the word becomes zero.
  Otherwise the word names the sleeper of best priority, with the flag exactly when others sleep; that one no longer waits, and the others
  wait for it.
\<close>
theorem light_lock_handover:
  assumes "light_init s0" "run light_step s0 es s" "ls_pc s t = Outside" "a \<in> ls_locked s t"
  shows "\<exists>tag k'. Unlock a t (ls_tags s a) (ls_kernel s) = Some (tag, k') \<and>
    (if sleepers s a = {} then tag = None
     else \<exists>n\<in>sleepers s a. (\<forall>w\<in>sleepers s a. prio (ls_kernel s) n \<le> prio (ls_kernel s) w) \<and> tag = Some (n, sleepers s a \<noteq> {n}) \<and>
       wait_queue k' n = None \<and> (\<forall>w\<in>sleepers s a - {n}. GetLockOwner k' w = Some n \<and> wait_queue k' w = Some ForKLightLock))"
  by (rule unlock_hands_over [OF light.reachable_inv [OF assms(1,2)] assms(3,4)])

theorem light_lock_handover_witness:
  "light_init light_sample \<and>
   (\<exists>s k'. run light_step light_sample [Exchange 2 0x10, Exchange 3 0x10, Slow_Path 3 0x10 2] s \<and> asleep s 3 \<and>
      Unlock 0x10 2 (ls_tags s 0x10) (ls_kernel s) = Some (Some (3, False), k') \<and> wait_queue k' 3 = None)"
proof -
  obtain s where s: "run light_step light_sample [Exchange 2 0x10, Exchange 3 0x10, Slow_Path 3 0x10 2] s" "ls_locked s 2 = {0x10}"
    "ls_pc s = (\<lambda>_. Outside)(3 := Sleeping 0x10)" "asleep s 3" "sleepers s 0x10 = {3}" using light_sample_sleeps by blast
  have "ls_pc s 2 = Outside" "0x10 \<in> ls_locked s 2" by (simp_all add: s)
  from light_lock_handover [OF light_sample_init s(1) this] have
    "\<exists>k'. Unlock 0x10 2 (ls_tags s 0x10) (ls_kernel s) = Some (Some (3, False), k') \<and> wait_queue k' 3 = None" unfolding s(5) by auto
  then show ?thesis using light_sample_init s(1,4) by blast
qed

text \<open>
  C8. The exclusion rests on nobody else ending the waits. In such a state, let a thread that is not pinned sleep for a lock of another thread.
  The first request of its termination ends its sleep, while the word still names the other thread. Its next step is the
  return from \<^verbatim>\<open>Lock\<close>, which does not look at the result of the wait, so that two threads have the lock.
\<close>
theorem terminated_sleeper_has_the_lock:
  assumes "light_init s0" "run light_step s0 es s" "ls_pc s u = Sleeping a" "asleep s u" "a \<in> ls_locked s r" "u \<noteq> r"
    "\<not> th_termination_requested (thread_of (ls_kernel s) u)" "\<not> th_is_pinned (thread_of (ls_kernel s) u)"
  shows "\<exists>st k' s'. RequestTerminate cur u (ls_kernel s) = Some (st, k') \<and> waits_inv k' \<and>
    light_step (s \<lparr> ls_kernel := k' \<rparr>) (Woken u a) s' \<and> (\<exists>b. ls_tags s' a = Some (r, b)) \<and>
    ls_pc s' u = Outside \<and> a \<in> ls_locked s' u \<and> a \<in> ls_locked s' r"
proof -
  have inv: "light_inv s" by (rule light.reachable_inv [OF assms(1,2)])
  from RequestTerminate_ok [OF light_invD(1,3) [OF inv] assms(8)] assms(7) obtain st k' where
    k': "RequestTerminate cur u (ls_kernel s) = Some (st, k')" "waits_inv k'" "wait_queue k' u = None" by blast
  let ?s = "s \<lparr> ls_kernel := k' \<rparr>"
  have step: "light_step ?s (Woken u a) (?s \<lparr> ls_pc := (ls_pc ?s)(u := Outside), ls_locked := (ls_locked ?s)(u := insert a (ls_locked ?s u)) \<rparr>)"
    by (rule light_step.wake) (simp_all add: assms(3) k'(3))
  show ?thesis by (rule exI, rule exI, rule exI, intro conjI, rule k'(1), rule k'(2), rule step) (use assms(5,6) light_invD(4) [OF inv] in auto)
qed

theorem terminated_sleeper_has_the_lock_witness:
  "light_init light_sample \<and>
   (\<exists>s st k' s'. run light_step light_sample [Exchange 2 0x10, Exchange 3 0x10, Slow_Path 3 0x10 2] s \<and>
      RequestTerminate 2 3 (ls_kernel s) = Some (st, k') \<and> light_step (s \<lparr> ls_kernel := k' \<rparr>) (Woken 3 0x10) s' \<and>
      0x10 \<in> ls_locked s' 2 \<and> 0x10 \<in> ls_locked s' 3)"
proof -
  obtain s where s: "run light_step light_sample [Exchange 2 0x10, Exchange 3 0x10, Slow_Path 3 0x10 2] s" "ls_locked s 2 = {0x10}"
    "ls_pc s = (\<lambda>_. Outside)(3 := Sleeping 0x10)" "asleep s 3" "marks (thread_of (ls_kernel s) 3) = (False, False)"
    using light_sample_sleeps by blast
  have "ls_pc s 3 = Sleeping 0x10" "0x10 \<in> ls_locked s 2" "(3::thread) \<noteq> 2" "\<not> th_termination_requested (thread_of (ls_kernel s) 3)"
    "\<not> th_is_pinned (thread_of (ls_kernel s) 3)" using s(5) by (simp_all add: s marks_def)
  from terminated_sleeper_has_the_lock [OF light_sample_init s(1) this(1) s(4) this(2-5), where cur = 2] show ?thesis
    using light_sample_init s(1) by blast
qed

end
