(* ===== verification/SynchronizationObject.thy ===== *)
theory SynchronizationObject
  imports Termination
begin

text \<open>
  Objects that threads wait for, several at once (\<^verbatim>\<open>core/hle/kernel/k_synchronization_object.{h,cpp}\<close>), and events
  (\<^verbatim>\<open>k_readable_event.cpp\<close>, \<^verbatim>\<open>k_event.{h,cpp}\<close>). An object has a singly linked list of the threads that wait for it.
  The nodes are an array on the stack of the thread that waits, one for each object, so that the node \<open>(t, i)\<close> is the
  element \<open>i\<close> of the array of the thread \<open>t\<close>; outside of the wait it does not exist. What \<^verbatim>\<open>IsSignaled\<close> returns is a
  flag of the object, which an event sets and clears.
\<close>

type_synonym node = "thread \<times> nat"

record ThreadListNode =
  ln_next :: "node option"
  ln_thread :: thread

record KSynchronizationObject =
  so_thread_list_head :: "node option"
  so_thread_list_tail :: "node option"
  so_is_signaled :: bool

text \<open>
  The kernel, the objects and the nodes; for each thread the objects of its wait queue, the index that its last wait gave, whether its wait may
  be cancelled and whether a cancelled wait is noted.
\<close>

record object_state =
  os_kernel :: kernel
  os_objects :: "nat \<Rightarrow> KSynchronizationObject"
  os_nodes :: "node \<Rightarrow> ThreadListNode"
  os_wait_objects :: "thread \<Rightarrow> nat list"
  os_synced_index :: "thread \<Rightarrow> int"
  os_cancellable :: "thread \<Rightarrow> bool"
  os_wait_cancelled :: "thread \<Rightarrow> bool"

definition set_object :: "nat \<Rightarrow> (KSynchronizationObject \<Rightarrow> KSynchronizationObject) \<Rightarrow> object_state \<Rightarrow> object_state" where
  "set_object ob f s = s \<lparr> os_objects := (os_objects s)(ob := f (os_objects s ob)) \<rparr>"

definition set_node :: "node \<Rightarrow> (ThreadListNode \<Rightarrow> ThreadListNode) \<Rightarrow> object_state \<Rightarrow> object_state" where
  "set_node n f s = s \<lparr> os_nodes := (os_nodes s)(n := f (os_nodes s n)) \<rparr>"

section \<open>Lists of waiting threads\<close>

definition LinkNode :: "nat \<Rightarrow> node \<Rightarrow> object_state \<Rightarrow> object_state" where
  "LinkNode ob n s =
     (let s1 = (case so_thread_list_tail (os_objects s ob) of
                  None \<Rightarrow> set_object ob (\<lambda>x. x \<lparr> so_thread_list_head := Some n \<rparr>) s
                | Some m \<Rightarrow> set_node m (\<lambda>x. x \<lparr> ln_next := Some n \<rparr>) s)
      in set_object ob (\<lambda>x. x \<lparr> so_thread_list_tail := Some n \<rparr>) s1)"

text \<open>
  The address of the head of the list is used as the address of a node before the first one, since the link is the first member of a node;
  \<^const>\<open>None\<close> stands for it below. A null pointer in the list would be read; the value of the search is \<^const>\<open>None\<close> then.
\<close>

definition link_at :: "nat \<Rightarrow> object_state \<Rightarrow> node option \<Rightarrow> node option" where
  "link_at ob s p = (case p of None \<Rightarrow> so_thread_list_head (os_objects s ob) | Some m \<Rightarrow> ln_next (os_nodes s m))"

definition set_link_at :: "nat \<Rightarrow> node option \<Rightarrow> node option \<Rightarrow> object_state \<Rightarrow> object_state" where
  "set_link_at ob p v s =
     (case p of
        None \<Rightarrow> set_object ob (\<lambda>x. x \<lparr> so_thread_list_head := v \<rparr>) s
      | Some m \<Rightarrow> set_node m (\<lambda>x. x \<lparr> ln_next := v \<rparr>) s)"

text \<open>The search for the node that comes before: its address, and the node that becomes the last one if the removed node was.\<close>

partial_function (option) unlink_loop :: "(node option \<Rightarrow> node option) \<Rightarrow> node \<Rightarrow> node option \<Rightarrow> node option \<Rightarrow> (node option \<times> node option) option" where
  [code]: "unlink_loop nxt n prev_ptr prev_val =
     (case nxt prev_ptr of
        None \<Rightarrow> None
      | Some m \<Rightarrow> if m = n then Some (prev_ptr, prev_val) else unlink_loop nxt n (Some m) (Some m))"

definition UnlinkNode :: "nat \<Rightarrow> node \<Rightarrow> object_state \<Rightarrow> object_state option" where
  "UnlinkNode ob n s =
     (case unlink_loop (link_at ob s) n None None of
        None \<Rightarrow> None
      | Some (prev, tail_prev) \<Rightarrow>
          (let s1 = (if so_thread_list_tail (os_objects s ob) = Some n
                     then set_object ob (\<lambda>x. x \<lparr> so_thread_list_tail := tail_prev \<rparr>) s else s)
           in Some (set_link_at ob prev (ln_next (os_nodes s1 n)) s1)))"

section \<open>The queue of a waiting thread\<close>

fun unlink_nodes :: "thread \<Rightarrow> nat \<Rightarrow> nat list \<Rightarrow> object_state \<Rightarrow> object_state option" where
  "unlink_nodes t i [] s = Some s"
| "unlink_nodes t i (ob # obs) s = (case UnlinkNode ob (t, i) s of None \<Rightarrow> None | Some s1 \<Rightarrow> unlink_nodes t (i + 1) obs s1)"

text \<open>The first index of an object, or \<open>-1\<close>.\<close>

fun index_of :: "nat \<Rightarrow> int \<Rightarrow> nat list \<Rightarrow> int" where
  "index_of ob i [] = - 1"
| "index_of ob i (x # xs) = (if x = ob then i else index_of ob (i + 1) xs)"

definition end_object_wait :: "thread \<Rightarrow> Result \<Rightarrow> object_state \<Rightarrow> object_state" where
  "end_object_wait t r s =
     s \<lparr> os_cancellable := (os_cancellable s)(t := False), os_kernel := KThreadQueue_EndWait t r (os_kernel s) \<rparr>"

definition queue_NotifyAvailable :: "thread \<Rightarrow> nat \<Rightarrow> Result \<Rightarrow> object_state \<Rightarrow> object_state option" where
  "queue_NotifyAvailable t signaled_object r s =
     (case unlink_nodes t 0 (os_wait_objects s t) s of
        None \<Rightarrow> None
      | Some s1 \<Rightarrow>
          Some (end_object_wait t r (s1 \<lparr> os_synced_index := (os_synced_index s1)(t := index_of signaled_object 0 (os_wait_objects s t)) \<rparr>)))"

definition object_CancelWait :: "thread \<Rightarrow> Result \<Rightarrow> object_state \<Rightarrow> object_state option" where
  "object_CancelWait t r s = map_option (end_object_wait t r) (unlink_nodes t 0 (os_wait_objects s t) s)"

text \<open>The other queues are never notified; their function does not return.\<close>

definition KThread_NotifyAvailable :: "thread \<Rightarrow> nat \<Rightarrow> Result \<Rightarrow> object_state \<Rightarrow> object_state option" where
  "KThread_NotifyAvailable t signaled_object r s =
     (if GetState (thread_of (os_kernel s) t) = Waiting
      then if th_wait_queue (thread_of (os_kernel s) t) = Some ForKSynchronizationObjectWait
           then queue_NotifyAvailable t signaled_object r s else None
      else Some s)"

text \<open>The cancellation of any wait: of one for objects, or of another one as in \<^verbatim>\<open>PriorityInheritance\<close>.\<close>

definition KThread_CancelWait :: "thread \<Rightarrow> thread \<Rightarrow> Result \<Rightarrow> object_state \<Rightarrow> object_state option" where
  "KThread_CancelWait cur t r s =
     (if GetState (thread_of (os_kernel s) t) = Waiting \<and> th_wait_queue (thread_of (os_kernel s) t) = Some ForKSynchronizationObjectWait
      then object_CancelWait t r s
      else map_option (\<lambda>k. s \<lparr> os_kernel := k \<rparr>) (CancelWait cur t r (os_kernel s)))"

definition WaitCancel :: "thread \<Rightarrow> thread \<Rightarrow> object_state \<Rightarrow> object_state option" where
  "WaitCancel cur t s =
     (if GetState (thread_of (os_kernel s) t) = Waiting \<and> os_cancellable s t
      then KThread_CancelWait cur t ResultCancelled (s \<lparr> os_wait_cancelled := (os_wait_cancelled s)(t := False) \<rparr>)
      else Some (s \<lparr> os_wait_cancelled := (os_wait_cancelled s)(t := True) \<rparr>))"

section \<open>Waiting and notification\<close>

fun link_nodes :: "thread \<Rightarrow> nat \<Rightarrow> nat list \<Rightarrow> object_state \<Rightarrow> object_state" where
  "link_nodes t i [] s = s"
| "link_nodes t i (ob # obs) s = link_nodes t (i + 1) obs (LinkNode ob (t, i) (set_node (t, i) (\<lambda>_. \<lparr> ln_next = None, ln_thread = t \<rparr>) s))"

fun first_signaled :: "object_state \<Rightarrow> int \<Rightarrow> nat list \<Rightarrow> int option" where
  "first_signaled s i [] = None"
| "first_signaled s i (ob # obs) = (if so_is_signaled (os_objects s ob) then Some i else first_signaled s (i + 1) obs)"

text \<open>
  A wait of the current thread for the given objects: the result and the index, where it does not wait. Otherwise it waits, and gets its
  result and its synced index when the wait is over.
\<close>

definition KSynchronizationObject_Wait ::
    "thread \<Rightarrow> nat list \<Rightarrow> int \<Rightarrow> object_state \<Rightarrow> (Result \<times> int option) option \<times> object_state" where
  "KSynchronizationObject_Wait t obs timeout s =
     (if IsTerminationRequested (thread_of (os_kernel s) t) then (Some (ResultTerminationRequested, None), s)
      else
        (case first_signaled s 0 obs of
           Some i \<Rightarrow> (Some (ResultSuccess, Some i), s)
         | None \<Rightarrow>
             if timeout = 0 then (Some (ResultTimedOut, None), s)
             else if os_wait_cancelled s t
             then (Some (ResultCancelled, None), s \<lparr> os_wait_cancelled := (os_wait_cancelled s)(t := False) \<rparr>)
             else
               (let s1 = link_nodes t 0 obs s
                in (None,
                    s1 \<lparr> os_cancellable := (os_cancellable s1)(t := True), os_synced_index := (os_synced_index s1)(t := - 1),
                         os_wait_objects := (os_wait_objects s1)(t := obs),
                         os_kernel := BeginWait t ForKSynchronizationObjectWait (os_kernel s1) \<rparr>))))"

text \<open>The loop reads the link of a node after its thread has been notified, and so after the node has left the list.\<close>

partial_function (option) notify_loop :: "nat \<Rightarrow> Result \<Rightarrow> node option \<Rightarrow> object_state \<Rightarrow> object_state option" where
  [code]: "notify_loop ob r cur_node s =
     (case cur_node of
        None \<Rightarrow> Some s
      | Some n \<Rightarrow>
          (case KThread_NotifyAvailable (ln_thread (os_nodes s n)) ob r s of
             None \<Rightarrow> None
           | Some s1 \<Rightarrow> notify_loop ob r (ln_next (os_nodes s1 n)) s1))"

definition KSynchronizationObject_NotifyAvailable :: "nat \<Rightarrow> Result \<Rightarrow> object_state \<Rightarrow> object_state option" where
  "KSynchronizationObject_NotifyAvailable ob r s =
     (if so_is_signaled (os_objects s ob) then notify_loop ob r (so_thread_list_head (os_objects s ob)) s else Some s)"

section \<open>Events\<close>

definition KReadableEvent_Signal :: "nat \<Rightarrow> object_state \<Rightarrow> (Result \<times> object_state) option" where
  "KReadableEvent_Signal ob s =
     map_option (Pair ResultSuccess)
       (if so_is_signaled (os_objects s ob) then Some s
        else KSynchronizationObject_NotifyAvailable ob ResultSuccess (set_object ob (\<lambda>x. x \<lparr> so_is_signaled := True \<rparr>) s))"

definition KReadableEvent_Reset :: "nat \<Rightarrow> object_state \<Rightarrow> Result \<times> object_state" where
  "KReadableEvent_Reset ob s =
     (if so_is_signaled (os_objects s ob) then (ResultSuccess, set_object ob (\<lambda>x. x \<lparr> so_is_signaled := False \<rparr>) s)
      else (ResultInvalidState, s))"

definition KReadableEvent_Clear :: "nat \<Rightarrow> object_state \<Rightarrow> Result \<times> object_state" where
  "KReadableEvent_Clear ob s = (ResultSuccess, snd (KReadableEvent_Reset ob s))"

text \<open>The writable side of an event, whose readable event may be gone.\<close>

record KEvent =
  ev_readable_event :: nat
  ev_readable_event_destroyed :: bool

definition KEvent_Signal :: "KEvent \<Rightarrow> object_state \<Rightarrow> (Result \<times> object_state) option" where
  "KEvent_Signal e s = (if ev_readable_event_destroyed e then Some (ResultSuccess, s) else KReadableEvent_Signal (ev_readable_event e) s)"

definition KEvent_Clear :: "KEvent \<Rightarrow> object_state \<Rightarrow> Result \<times> object_state" where
  "KEvent_Clear e s = (if ev_readable_event_destroyed e then (ResultSuccess, s) else KReadableEvent_Clear (ev_readable_event e) s)"

end
