(* ===== verification/SynchronizationObjectLists.thy ===== *)
theory SynchronizationObjectLists
  imports SynchronizationObject
begin

text \<open>
  The linked lists of the objects represent sequences of nodes: a node is linked at the end, unlinked from anywhere, and an unlinked node
  still leads back into the list.
\<close>

section \<open>Chains of nodes\<close>

fun node_chain :: "('n \<Rightarrow> 'n option) \<Rightarrow> 'n option \<Rightarrow> 'n list \<Rightarrow> bool" where
  "node_chain nx p [] \<longleftrightarrow> p = None"
| "node_chain nx p (n # ns) \<longleftrightarrow> p = Some n \<and> node_chain nx (nx n) ns"

abbreviation first_of :: "'n list \<Rightarrow> 'n option" where
  "first_of ns \<equiv> (case ns of [] \<Rightarrow> None | n # _ \<Rightarrow> Some n)"

abbreviation last_of :: "'n list \<Rightarrow> 'n option" where
  "last_of ns \<equiv> (if ns = [] then None else Some (last ns))"

lemma node_chain_first: "node_chain nx p ns \<Longrightarrow> p = first_of ns"
  by (cases ns) auto

lemma node_chain_cong: "(\<And>n. n \<in> set ns \<Longrightarrow> nx' n = nx n) \<Longrightarrow> node_chain nx' p ns = node_chain nx p ns"
  by (induction ns arbitrary: p) auto

lemma node_chain_next: "node_chain nx p (xs @ n # ys) \<Longrightarrow> nx n = first_of ys"
  by (induction xs arbitrary: p) (auto dest: node_chain_first)

lemma node_chain_snoc:
  assumes "node_chain nx p (xs @ [m])" "distinct (xs @ [m, n])" "nx n = None"
  shows "node_chain (nx(m := Some n)) p (xs @ [m, n])"
  using assms by (induction xs arbitrary: p) auto

lemma node_chain_drop:
  assumes "node_chain nx p (xs @ m # n # ys)" "distinct (xs @ m # n # ys)"
  shows "node_chain (nx(m := nx n)) p (xs @ m # ys)"
  using assms
proof (induction xs arbitrary: p)
  case Nil
  have "node_chain (nx(m := nx n)) q ys = node_chain nx q ys" for q by (rule node_chain_cong) (use Nil in auto)
  then show ?case using Nil by (simp add: fun_upd_same del: fun_upd_apply)
qed auto

lemma distinct_drop: "distinct (xs @ n # ys) \<Longrightarrow> filter (\<lambda>m. m \<noteq> n) (xs @ n # ys) = xs @ ys"
proof -
  assume "distinct (xs @ n # ys)"
  then have "filter (\<lambda>m. m \<noteq> n) xs = xs" "filter (\<lambda>m. m \<noteq> n) ys = ys" by (intro filter_True; auto)+
  then show "filter (\<lambda>m. m \<noteq> n) (xs @ n # ys) = xs @ ys" by simp
qed

section \<open>Lists of the objects\<close>

abbreviation next_node :: "object_state \<Rightarrow> node \<Rightarrow> node option" where
  "next_node s n \<equiv> ln_next (os_nodes s n)"

definition lists_rep :: "object_state \<Rightarrow> (nat \<Rightarrow> node list) \<Rightarrow> bool" where
  "lists_rep s L \<longleftrightarrow>
     (\<forall>ob. node_chain (next_node s) (so_thread_list_head (os_objects s ob)) (L ob) \<and> so_thread_list_tail (os_objects s ob) = last_of (L ob) \<and>
        distinct (L ob) \<and> (\<forall>n\<in>set (L ob). ln_thread (os_nodes s n) = fst n \<and> (\<forall>ob'. n \<in> set (L ob') \<longrightarrow> ob' = ob)))"

lemma lists_repD:
  assumes "lists_rep s L"
  shows "node_chain (next_node s) (so_thread_list_head (os_objects s ob)) (L ob)" "so_thread_list_tail (os_objects s ob) = last_of (L ob)"
    "distinct (L ob)" "n \<in> set (L ob) \<Longrightarrow> ln_thread (os_nodes s n) = fst n" "n \<in> set (L ob) \<Longrightarrow> n \<in> set (L ob') \<Longrightarrow> ob' = ob"
  using assms unfolding lists_rep_def by blast+

text \<open>What the operations on lists leave alone.\<close>

definition same_rest :: "object_state \<Rightarrow> object_state \<Rightarrow> bool" where
  "same_rest s s' \<longleftrightarrow>
     os_kernel s' = os_kernel s \<and> os_wait_objects s' = os_wait_objects s \<and> os_synced_index s' = os_synced_index s \<and>
     os_cancellable s' = os_cancellable s \<and> os_wait_cancelled s' = os_wait_cancelled s \<and>
     (\<forall>ob. so_is_signaled (os_objects s' ob) = so_is_signaled (os_objects s ob))"

lemma same_rest_refl [simp]: "same_rest s s"
  by (simp add: same_rest_def)

lemma same_rest_trans: "same_rest s s1 \<Longrightarrow> same_rest s1 s2 \<Longrightarrow> same_rest s s2"
  by (simp add: same_rest_def)

lemma same_rest_ops [simp]:
  "same_rest s (set_node n f s)" "(\<And>x. so_is_signaled (g x) = so_is_signaled x) \<Longrightarrow> same_rest s (set_object ob g s)"
  by (simp_all add: same_rest_def set_node_def set_object_def)

lemma LinkNode_ok:
  assumes rep: "lists_rep s L" and n: "\<And>ob'. n \<notin> set (L ob')"
  defines "s0 \<equiv> set_node n (\<lambda>_. \<lparr> ln_next = None, ln_thread = fst n \<rparr>) s"
  shows "lists_rep (LinkNode ob n s0) (L(ob := L ob @ [n]))" "same_rest s (LinkNode ob n s0)"
proof -
  note d = lists_repD [OF rep]
  let ?s = "LinkNode ob n s0" and ?x = "os_objects s ob"
  have tail: "so_thread_list_tail (os_objects s0 ob) = last_of (L ob)" by (simp add: s0_def set_node_def d(2))
  show "same_rest s ?s"
    by (cases "L ob = []") (simp_all add: LinkNode_def Let_def tail, simp_all add: same_rest_def s0_def set_node_def set_object_def)
  have objs: "os_objects ?s ob' = (if ob' = ob then ?x \<lparr> so_thread_list_head := if L ob = [] then Some n else so_thread_list_head ?x,
      so_thread_list_tail := Some n \<rparr> else os_objects s ob')" for ob'
    by (cases "L ob = []") (simp_all add: LinkNode_def Let_def tail, simp_all add: s0_def set_node_def set_object_def)
  have nodes: "ln_thread (os_nodes ?s m) = (if m = n then fst n else ln_thread (os_nodes s m))"
    "next_node ?s m = (if L ob \<noteq> [] \<and> m = last (L ob) then Some n else if m = n then None else next_node s m)" for m
    using n [of ob] by (cases "L ob = []"; auto simp: LinkNode_def Let_def tail; auto simp: s0_def set_node_def set_object_def)+
  have other: "last (L ob) \<notin> set (L ob')" if "ob' \<noteq> ob" "L ob \<noteq> []" for ob' using d(5) [of "last (L ob)" ob ob'] that by auto
  show "lists_rep ?s (L(ob := L ob @ [n]))" unfolding lists_rep_def
  proof (intro allI conjI ballI impI)
    fix ob'
    show "node_chain (next_node ?s) (so_thread_list_head (os_objects ?s ob')) ((L(ob := L ob @ [n])) ob')"
    proof (cases "ob' = ob")
      case False
      have "node_chain (next_node ?s) q (L ob') = node_chain (next_node s) q (L ob')" for q
        by (rule node_chain_cong) (use other [OF False] n [of ob'] in \<open>auto simp: nodes(2)\<close>)
      then show ?thesis using False d(1) [of ob'] by (simp add: objs)
    next
      case True
      show ?thesis
      proof (cases "L ob" rule: rev_cases)
        case Nil
        then show ?thesis using True by (simp add: objs nodes(2))
      next
        case (snoc xs m)
        have nn: "n \<notin> set (L ob)" by (rule n)
        have "node_chain (next_node s0) q (L ob) = node_chain (next_node s) q (L ob)" for q
          by (rule node_chain_cong) (use nn in \<open>auto simp: s0_def set_node_def\<close>)
        then have c: "node_chain (next_node s0) (so_thread_list_head ?x) (xs @ [m])" using d(1) [of ob] by (simp add: snoc)
        have "next_node s0 n = None" by (simp add: s0_def set_node_def)
        then have "node_chain ((next_node s0)(m := Some n)) (so_thread_list_head ?x) (xs @ [m, n])"
          using d(3) [of ob] nn by (intro node_chain_snoc [OF c]) (auto simp: snoc)
        moreover have "next_node s0 x = (if x = n then None else next_node s x)" for x by (simp add: s0_def set_node_def)
        then have "(next_node s0)(m := Some n) = next_node ?s" using nn by (simp add: fun_eq_iff nodes(2) snoc)
        ultimately show ?thesis using True by (simp add: objs snoc)
      qed
    qed
    show "so_thread_list_tail (os_objects ?s ob') = last_of ((L(ob := L ob @ [n])) ob')" using d(2) [of ob'] by (simp add: objs)
    show "distinct ((L(ob := L ob @ [n])) ob')" using d(3) n by simp
    show "ln_thread (os_nodes ?s m) = fst m" if "m \<in> set ((L(ob := L ob @ [n])) ob')" for m
      using that d(4) [of m ob'] by (auto simp: nodes(1) split: if_splits)
    show "ob'' = ob'" if "m \<in> set ((L(ob := L ob @ [n])) ob')" "m \<in> set ((L(ob := L ob @ [n])) ob'')" for m ob''
      using that d(5) [of m ob' ob''] n by (auto split: if_splits)
  qed
qed

section \<open>Unlinking\<close>

lemma unlink_loop_finds:
  assumes "node_chain (next_node s) (link_at ob s q) (xs @ n # ys)" "n \<notin> set xs"
  shows "unlink_loop (link_at ob s) n q v = Some (if xs = [] then q else Some (last xs), if xs = [] then v else Some (last xs))"
  using assms
proof (induction xs arbitrary: q v)
  case Nil
  then show ?case by (subst unlink_loop.simps) simp
next
  case (Cons x xs)
  then have "node_chain (next_node s) (link_at ob s (Some x)) (xs @ n # ys)" by (simp add: link_at_def)
  from Cons.IH [OF this, of "Some x"] Cons.prems show ?case by (subst unlink_loop.simps) auto
qed

text \<open>Unlinking changes the link of the node before, which is in the list, and no other one.\<close>

lemma UnlinkNode_ok:
  assumes rep: "lists_rep s L" and n: "n \<in> set (L ob)"
  shows "\<exists>s'. UnlinkNode ob n s = Some s' \<and> lists_rep s' (\<lambda>o'. filter (\<lambda>m. m \<noteq> n) (L o')) \<and> same_rest s s' \<and>
    (\<forall>m. m \<notin> (\<Union>o'. set (L o')) - {n} \<longrightarrow> os_nodes s' m = os_nodes s m)"
proof -
  note d = lists_repD [OF rep]
  obtain xs ys where l: "L ob = xs @ n # ys" using n by (metis split_list)
  have dis: "distinct (xs @ n # ys)" using d(3) [of ob] l by simp
  let ?x = "os_objects s ob" and ?p = "last_of xs"
  have loop: "unlink_loop (link_at ob s) n None None = Some (?p, ?p)"
    using unlink_loop_finds [of s ob None xs n ys None] d(1) [of ob] dis by (simp add: l link_at_def)
  define s1 where "s1 = (if so_thread_list_tail ?x = Some n then set_object ob (\<lambda>x. x \<lparr> so_thread_list_tail := ?p \<rparr>) s else s)"
  define s' where "s' = set_link_at ob ?p (next_node s n) s1"
  have nodes1: "os_nodes s1 = os_nodes s" by (simp add: s1_def set_object_def)
  have res: "UnlinkNode ob n s = Some s'" by (simp add: UnlinkNode_def loop s'_def s1_def [symmetric] nodes1 Let_def)
  have lists: "filter (\<lambda>m. m \<noteq> n) (L o') = (if o' = ob then xs @ ys else L o')" for o'
  proof (cases "o' = ob")
    case False
    then have "n \<notin> set (L o')" using d(5) [OF n, of o'] by blast
    then show ?thesis using False by (auto intro!: filter_True)
  qed (simp add: l distinct_drop [OF dis] del: filter_append)
  have same: "same_rest s s'" by (cases "xs = []") (simp_all add: s'_def s1_def set_link_at_def same_rest_def set_object_def set_node_def)
  have nodes: "os_nodes s' m = (if xs \<noteq> [] \<and> m = last xs then (os_nodes s m) \<lparr> ln_next := next_node s n \<rparr> else os_nodes s m)" for m
    by (cases "xs = []") (simp_all add: s'_def set_link_at_def set_object_def set_node_def nodes1)
  have lx: "last xs \<in> set (L ob)" "last xs \<noteq> n" if "xs \<noteq> []" using that dis by (auto simp: l)
  have tail: "so_thread_list_tail ?x = Some n \<longleftrightarrow> ys = []" using d(2) [of ob] dis by (auto simp: l split: if_splits)
  have objs: "os_objects s' o' = (if o' = ob then ?x \<lparr> so_thread_list_head := if xs = [] then next_node s n else so_thread_list_head ?x,
      so_thread_list_tail := if ys = [] then ?p else so_thread_list_tail ?x \<rparr> else os_objects s o')" for o'
    by (cases "xs = []"; cases "ys = []") (simp_all add: s'_def s1_def set_link_at_def set_object_def set_node_def tail)
  have "lists_rep s' (\<lambda>o'. filter (\<lambda>m. m \<noteq> n) (L o'))" unfolding lists_rep_def
  proof (intro allI conjI ballI impI)
    fix o'
    show "node_chain (next_node s') (so_thread_list_head (os_objects s' o')) (filter (\<lambda>m. m \<noteq> n) (L o'))"
    proof (cases "o' = ob")
      case False
      have "node_chain (next_node s') q (L o') = node_chain (next_node s) q (L o')" for q
        by (rule node_chain_cong) (use d(5) [of "last xs" ob o'] lx False in \<open>auto simp: nodes\<close>)
      then show ?thesis using False d(1) [of o'] by (simp add: objs lists)
    next
      case True
      show ?thesis
      proof (cases xs rule: rev_cases)
        case Nil
        have "next_node s' = next_node s" by (simp add: fun_eq_iff nodes Nil)
        then show ?thesis unfolding lists using True d(1) [of ob] by (simp add: objs l Nil)
      next
        case (snoc zs m)
        have "node_chain ((next_node s)(m := next_node s n)) (so_thread_list_head ?x) (zs @ m # ys)"
          using d(1) [of ob] dis by (intro node_chain_drop) (simp_all add: l snoc)
        moreover have "(next_node s)(m := next_node s n) = next_node s'" by (simp add: fun_eq_iff nodes snoc)
        ultimately show ?thesis using True by (simp add: objs lists snoc)
      qed
    qed
    show "so_thread_list_tail (os_objects s' o') = last_of (filter (\<lambda>m. m \<noteq> n) (L o'))"
      using d(2) [of o'] by (auto simp: objs lists l)
    show "distinct (filter (\<lambda>m. m \<noteq> n) (L o'))" using d(3) by simp
    show "ln_thread (os_nodes s' m) = fst m" if "m \<in> set (filter (\<lambda>m. m \<noteq> n) (L o'))" for m using that d(4) [of m o'] by (auto simp: nodes)
    show "o'' = o'" if "m \<in> set (filter (\<lambda>m. m \<noteq> n) (L o'))" "m \<in> set (filter (\<lambda>m. m \<noteq> n) (L o''))" for m o''
      using that d(5) [of m o' o''] by simp
  qed
  moreover have "os_nodes s' m = os_nodes s m" if "m \<notin> (\<Union>o'. set (L o')) - {n}" for m
    using that lx by (auto simp: nodes)
  ultimately show ?thesis using res same by blast
qed

section \<open>Leaving all lists\<close>

text \<open>
  A pointer that leads into a list: to its first node, or to a node that has left (one of the given ones) and whose link leads there.
\<close>

inductive leads :: "('n \<Rightarrow> 'n option) \<Rightarrow> 'n set \<Rightarrow> 'n option \<Rightarrow> 'n list \<Rightarrow> bool" for nx D where
  leads_first: "leads nx D (first_of R) R"
| leads_gone: "m \<in> D \<Longrightarrow> leads nx D (nx m) R \<Longrightarrow> leads nx D (Some m) R"

inductive_cases leads_SomeE: "leads nx D (Some m) R"

lemma leads_mono:
  assumes "leads nx D p R" "D \<subseteq> D'" "\<And>m. m \<in> D \<Longrightarrow> nx' m = nx m"
  shows "leads nx' D' p R"
  using assms
proof (induction rule: leads.induct)
  case (leads_gone m R)
  then show ?case using leads.leads_gone [of m D' nx' R] by auto
qed (rule leads.leads_first)

lemma leads_drop_first:
  assumes "leads nx D p R" "R = n # R'" "n \<in> D'" "D \<subseteq> D'" "\<And>m. m \<in> D \<Longrightarrow> nx' m = nx m" "nx' n = first_of R'"
  shows "leads nx' D' p R'"
  using assms
proof (induction rule: leads.induct)
  case (leads_first R)
  then have "leads nx' D' (nx' n) R'" by (simp add: leads.leads_first)
  then show ?case using leads_first leads.leads_gone [of n D' nx' R'] by simp
next
  case (leads_gone m R)
  then show ?case using leads.leads_gone [of m D' nx' R'] by auto
qed

lemma leads_left:
  assumes "leads nx D (Some m) R" "m \<notin> set R"
  shows "leads nx D (nx m) R"
  using assms by (auto elim!: leads_SomeE split: list.splits)

lemma UnlinkNode_leads:
  assumes rep: "lists_rep s L" and n: "n \<in> set (L ob)" and s': "UnlinkNode ob n s = Some s'"
    and D: "D \<inter> (\<Union>o'. set (L o')) = {}" and lead: "leads (next_node s) D p (L ob0)"
  shows "leads (next_node s') (insert n D) p (filter (\<lambda>m. m \<noteq> n) (L ob0))"
proof -
  obtain s1 where s1: "UnlinkNode ob n s = Some s1" "\<forall>m. m \<notin> (\<Union>o'. set (L o')) - {n} \<longrightarrow> os_nodes s1 m = os_nodes s m"
    using UnlinkNode_ok [OF rep n] by blast
  have same: "os_nodes s' m = os_nodes s m" if "m \<notin> (\<Union>o'. set (L o')) - {n}" for m
  proof -
    have "s1 = s'" using s1(1) s' by simp
    then show ?thesis using s1(2) that by blast
  qed
  have sD: "next_node s' m = next_node s m" if "m \<in> D" for m
  proof -
    have "m \<notin> (\<Union>o'. set (L o')) - {n}" using D that by blast
    then show ?thesis using same by simp
  qed
  have sn: "next_node s' n = next_node s n" using same [of n] by simp
  note d = lists_repD [OF rep]
  show ?thesis
  proof (cases "\<exists>R. L ob0 = n # R")
    case True
    then obtain R where R: "L ob0 = n # R" by blast
    have f: "filter (\<lambda>m. m \<noteq> n) (L ob0) = R" using distinct_drop [of "[]" n R] d(3) [of ob0] R by simp
    have "next_node s n = first_of R" using node_chain_next [of "next_node s" _ "[]" n R] d(1) [of ob0] R by simp
    then show ?thesis unfolding f using leads_drop_first [OF lead R, of "insert n D" "next_node s'"] sD sn by auto
  next
    case False
    then have f: "first_of (filter (\<lambda>m. m \<noteq> n) (L ob0)) = first_of (L ob0)" by (cases "L ob0") auto
    have "leads (next_node s') (insert n D) p (L ob0)" by (rule leads_mono [OF lead]) (use sD in auto)
    then show ?thesis
    proof (induction "L ob0" rule: leads.induct)
      case leads_first
      then show ?case using leads.leads_first [of "next_node s'" "insert n D" "filter (\<lambda>m. m \<noteq> n) (L ob0)"] f by simp
    next
      case (leads_gone m)
      then show ?case using leads.leads_gone by metis
    qed
  qed
qed

lemma UnlinkNode_thread: "UnlinkNode ob n s = Some s' \<Longrightarrow> ln_thread (os_nodes s' m) = ln_thread (os_nodes s m)"
  by (auto simp: UnlinkNode_def Let_def set_link_at_def set_node_def set_object_def split: option.splits if_splits)

text \<open>The nodes of a thread from an index on.\<close>

definition nodes_from :: "thread \<Rightarrow> nat \<Rightarrow> nat list \<Rightarrow> node set" where
  "nodes_from t i obs = {(t, j) | j. i \<le> j \<and> j < i + length obs}"

lemma nodes_from_simps [simp]:
  "nodes_from t i [] = {}" "nodes_from t i (ob # obs) = insert (t, i) (nodes_from t (i + 1) obs)"
  by (auto simp: nodes_from_def)

lemma unlink_nodes_ok:
  assumes "lists_rep s L" "\<And>j. j < length obs \<Longrightarrow> (t, i + j) \<in> set (L (obs ! j))" "D \<inter> (\<Union>o'. set (L o')) = {}"
    "leads (next_node s) D p (L ob0)"
  shows "\<exists>s'. unlink_nodes t i obs s = Some s' \<and> lists_rep s' (\<lambda>o'. filter (\<lambda>m. m \<notin> nodes_from t i obs) (L o')) \<and> same_rest s s' \<and>
    leads (next_node s') (D \<union> nodes_from t i obs) p (filter (\<lambda>m. m \<notin> nodes_from t i obs) (L ob0)) \<and>
    (\<forall>m. ln_thread (os_nodes s' m) = ln_thread (os_nodes s m))"
  using assms
proof (induction obs arbitrary: i s L D)
  case Nil
  then show ?case by simp
next
  case (Cons ob obs)
  have n: "(t, i) \<in> set (L ob)" using Cons.prems(2) [of 0] by simp
  from UnlinkNode_ok [OF Cons.prems(1) n] obtain s1 where
    s1: "UnlinkNode ob (t, i) s = Some s1" "lists_rep s1 (\<lambda>o'. filter (\<lambda>m. m \<noteq> (t, i)) (L o'))" "same_rest s s1" by blast
  let ?L = "\<lambda>o'. filter (\<lambda>m. m \<noteq> (t, i)) (L o')"
  have l1: "leads (next_node s1) (insert (t, i) D) p (?L ob0)" by (rule UnlinkNode_leads [OF Cons.prems(1) n s1(1) Cons.prems(3,4)])
  have mem: "(t, (i + 1) + j) \<in> set (?L (obs ! j))" if "j < length obs" for j using Cons.prems(2) [of "Suc j"] that by simp
  have dis: "insert (t, i) D \<inter> (\<Union>o'. set (?L o')) = {}" using Cons.prems(3) by auto
  from Cons.IH [OF s1(2) mem dis l1] obtain s' where
    s': "unlink_nodes t (i + 1) obs s1 = Some s'" "lists_rep s' (\<lambda>o'. filter (\<lambda>m. m \<notin> nodes_from t (i + 1) obs) (?L o'))" "same_rest s1 s'"
      "leads (next_node s') (insert (t, i) D \<union> nodes_from t (i + 1) obs) p (filter (\<lambda>m. m \<notin> nodes_from t (i + 1) obs) (?L ob0))"
      "\<forall>m. ln_thread (os_nodes s' m) = ln_thread (os_nodes s1 m)" by blast
  have f: "filter (\<lambda>m. m \<notin> nodes_from t (i + 1) obs) (?L o') = filter (\<lambda>m. m \<notin> nodes_from t i (ob # obs)) (L o')" for o'
    by (auto simp: filter_filter intro!: filter_cong)
  have D: "insert (t, i) D \<union> nodes_from t (i + 1) obs = D \<union> nodes_from t i (ob # obs)" by auto
  have th: "ln_thread (os_nodes s1 m) = ln_thread (os_nodes s m)" for m by (rule UnlinkNode_thread [OF s1(1)])
  show ?case using s1(1) s' same_rest_trans [OF s1(3) s'(3)] th unfolding f D by auto
qed

end
