(* ===== verification/SynchronizationObjectBehaviour.thy ===== *)
theory SynchronizationObjectBehaviour
  imports SynchronizationObjectLists UserSynchronizationBehaviour
begin

text \<open>
  The lists of an object hold exactly the nodes of the threads that wait for it: a thread links its nodes before it waits, and whoever ends
  the wait unlinks them before the thread can run and its stack goes away.
\<close>

section \<open>Lists and waiting threads\<close>

abbreviation waiter :: "object_state \<Rightarrow> thread \<Rightarrow> bool" where
  "waiter s t \<equiv> wait_queue (os_kernel s) t = Some ForKSynchronizationObjectWait"

definition lists_inv :: "object_state \<Rightarrow> (nat \<Rightarrow> node list) \<Rightarrow> bool" where
  "lists_inv s L \<longleftrightarrow>
     waits_inv (os_kernel s) \<and> lists_rep s L \<and>
     (\<forall>ob n. n \<in> set (L ob) \<longleftrightarrow> waiter s (fst n) \<and> snd n < length (os_wait_objects s (fst n)) \<and> os_wait_objects s (fst n) ! snd n = ob) \<and>
     (\<forall>t. os_cancellable s t \<longleftrightarrow> waiter s t)"

lemma lists_invD:
  assumes "lists_inv s L"
  shows "waits_inv (os_kernel s)" "lists_rep s L"
    "n \<in> set (L ob) \<longleftrightarrow> waiter s (fst n) \<and> snd n < length (os_wait_objects s (fst n)) \<and> os_wait_objects s (fst n) ! snd n = ob"
    "os_cancellable s t \<longleftrightarrow> waiter s t"
  using assms unfolding lists_inv_def by blast+

definition awake :: "object_state \<Rightarrow> thread \<Rightarrow> Result \<Rightarrow> int \<Rightarrow> bool" where
  "awake s t r i \<longleftrightarrow>
     wait_queue (os_kernel s) t = None \<and> GetState (thread_of (os_kernel s) t) = Runnable \<and>
     th_wait_result (thread_of (os_kernel s) t) = r \<and> os_synced_index s t = i"

definition untouched :: "object_state \<Rightarrow> object_state \<Rightarrow> thread \<Rightarrow> bool" where
  "untouched s s' t \<longleftrightarrow>
     wait_view (os_kernel s') t = wait_view (os_kernel s) t \<and>
     th_wait_result (thread_of (os_kernel s') t) = th_wait_result (thread_of (os_kernel s) t) \<and> os_synced_index s' t = os_synced_index s t"

lemma untouched_refl [simp]: "untouched s s t"
  by (simp add: untouched_def)

lemma untouched_trans: "untouched s s1 t \<Longrightarrow> untouched s1 s2 t \<Longrightarrow> untouched s s2 t"
  by (simp add: untouched_def)

lemma untouched_queue: "untouched s s' t \<Longrightarrow> wait_queue (os_kernel s') t = wait_queue (os_kernel s) t"
  by (simp add: untouched_def wait_view_def)

lemma untouched_awake: "untouched s s' t \<Longrightarrow> awake s t r i \<Longrightarrow> awake s' t r i"
  by (simp add: untouched_def awake_def wait_view_def)

definition same_objects :: "object_state \<Rightarrow> object_state \<Rightarrow> bool" where
  "same_objects s s' \<longleftrightarrow>
     os_wait_objects s' = os_wait_objects s \<and> os_wait_cancelled s' = os_wait_cancelled s \<and>
     (\<forall>ob. so_is_signaled (os_objects s' ob) = so_is_signaled (os_objects s ob))"

lemma same_objects_refl [simp]: "same_objects s s"
  by (simp add: same_objects_def)

lemma same_objects_trans: "same_objects s s1 \<Longrightarrow> same_objects s1 s2 \<Longrightarrow> same_objects s s2"
  by (simp add: same_objects_def)

section \<open>The end of a wait\<close>

lemma waiter_waits:
  assumes "waits_inv k" "wait_queue k t = Some ForKSynchronizationObjectWait"
  shows "GetState (thread_of k t) = Waiting" "GetLockOwner k t = None" "in_tree k t = None" "detached k t"
proof -
  have w: "wait_ok k t" using assms(1) by (simp add: waits_inv_def)
  then show s: "GetState (thread_of k t) = Waiting" "GetLockOwner k t = None" "in_tree k t = None"
    using assms(2) by (simp_all add: wait_ok_def state_fits_def queue_fits_def)
  show "detached k t" using waits_inv_all_but [OF assms(1)] s by (simp add: detached_iff)
qed

lemma wake_ok:
  assumes inv: "lists_inv s L" and w: "waiter s t" and D: "D \<inter> (\<Union>o'. set (L o')) = {}" and lead: "leads (next_node s) D p (L ob0)"
  shows "\<exists>s1. unlink_nodes t 0 (os_wait_objects s t) s = Some s1 \<and> same_rest s s1 \<and>
    (\<forall>r i. let s' = end_object_wait t r (s1 \<lparr> os_synced_index := (os_synced_index s1)(t := i) \<rparr>); L' = \<lambda>ob. filter (\<lambda>m. fst m \<noteq> t) (L ob)
      in lists_inv s' L' \<and> awake s' t r i \<and> (\<forall>u. u \<noteq> t \<longrightarrow> untouched s s' u) \<and> same_objects s s' \<and>
         leads (next_node s') (D \<union> nodes_from t 0 (os_wait_objects s t)) p (L' ob0) \<and>
         (\<forall>m. ln_thread (os_nodes s' m) = ln_thread (os_nodes s m)))"
proof -
  note d = lists_invD [OF inv]
  let ?obs = "os_wait_objects s t" and ?k = "os_kernel s"
  have mem: "(t, 0 + j) \<in> set (L (?obs ! j))" if "j < length ?obs" for j using d(3) [of "(t, j)" "?obs ! j"] w that by simp
  from unlink_nodes_ok [OF d(2) mem D lead] obtain s1 where
    s1: "unlink_nodes t 0 ?obs s = Some s1" "lists_rep s1 (\<lambda>o'. filter (\<lambda>m. m \<notin> nodes_from t 0 ?obs) (L o'))" "same_rest s s1"
      "leads (next_node s1) (D \<union> nodes_from t 0 ?obs) p (filter (\<lambda>m. m \<notin> nodes_from t 0 ?obs) (L ob0))"
      "\<forall>m. ln_thread (os_nodes s1 m) = ln_thread (os_nodes s m)" by blast
  have f: "filter (\<lambda>m. m \<notin> nodes_from t 0 ?obs) (L ob) = filter (\<lambda>m. fst m \<noteq> t) (L ob)" for ob
    by (rule filter_cong) (use d(3) in \<open>auto simp: nodes_from_def\<close>)
  note e = s1(3) [unfolded same_rest_def] and ww = waiter_waits [OF d(1) w]
  have "lists_inv s' L' \<and> awake s' t r i \<and> (\<forall>u. u \<noteq> t \<longrightarrow> untouched s s' u) \<and> same_objects s s' \<and>
      leads (next_node s') (D \<union> nodes_from t 0 ?obs) p (L' ob0) \<and> (\<forall>m. ln_thread (os_nodes s' m) = ln_thread (os_nodes s m))"
    if s': "s' = end_object_wait t r (s1 \<lparr> os_synced_index := (os_synced_index s1)(t := i) \<rparr>)"
      and L': "L' = (\<lambda>ob. filter (\<lambda>m. fst m \<noteq> t) (L ob))" for r i s' L'
  proof -
    have k': "os_kernel s' = KThreadQueue_EndWait t r ?k" using e by (simp add: s' end_object_wait_def)
    have v: "locks_view (os_kernel s') = locks_view ?k" by (simp add: k')
    have same: "os_wait_objects s' = os_wait_objects s" "os_wait_cancelled s' = os_wait_cancelled s" "os_nodes s' = os_nodes s1"
      "os_objects s' = os_objects s1" "os_synced_index s' u = (if u = t then i else os_synced_index s u)"
      "os_cancellable s' u = (if u = t then False else os_cancellable s u)" for u using e by (simp_all add: s' end_object_wait_def)
    have rep: "lists_rep s' L'" using s1(2) unfolding f L' lists_rep_def same(3,4) .
    have q: "wait_queue (os_kernel s') u = (if u = t then None else wait_queue ?k u)"
      "GetState (thread_of (os_kernel s') u) = (if u = t then Runnable else GetState (thread_of ?k u))"
      "th_wait_result (thread_of (os_kernel s') u) = (if u = t then r else th_wait_result (thread_of ?k u))" for u
      unfolding k' by (rule waiting_fields wait_result_fields)+
    have own: "GetLockOwner (os_kernel s') = GetLockOwner ?k" by (rule locks_view_shapes(1) [OF v])
    have "waits_inv (os_kernel s')" unfolding k' by (rule queue_end_ok [OF ww(4)])
    moreover have "n \<in> set (L' ob) \<longleftrightarrow> waiter s' (fst n) \<and> snd n < length (os_wait_objects s' (fst n)) \<and> os_wait_objects s' (fst n) ! snd n = ob" for n ob
      unfolding L' same(1) q(1) using d(3) [of n ob] by simp
    moreover have "os_cancellable s' u \<longleftrightarrow> waiter s' u" for u unfolding same(6) q(1) using d(4) [of u] by simp
    ultimately have "lists_inv s' L'" using rep unfolding lists_inv_def by blast
    moreover have "awake s' t r i" by (simp add: awake_def q same)
    moreover have "untouched s s' u" if "u \<noteq> t" for u
      using that by (simp add: untouched_def wait_view_def q same own locks_viewD(4,8) [OF v])
    moreover have "same_objects s s'" using e same by (simp add: same_objects_def)
    moreover have "leads (next_node s') (D \<union> nodes_from t 0 ?obs) p (L' ob0)" using s1(4) unfolding f L' same(3) .
    ultimately show ?thesis using s1(5) same(3) by simp
  qed
  then show ?thesis using s1(1,3) by (simp add: Let_def)
qed

lemma object_CancelWait_ok:
  assumes inv: "lists_inv s L" and w: "waiter s t"
  shows "\<exists>s'. object_CancelWait t r s = Some s' \<and> lists_inv s' (\<lambda>ob. filter (\<lambda>m. fst m \<noteq> t) (L ob)) \<and> awake s' t r (os_synced_index s t) \<and>
    (\<forall>u. u \<noteq> t \<longrightarrow> untouched s s' u) \<and> same_objects s s'"
proof -
  have "{} \<inter> (\<Union>o'. set (L o')) = {}" "leads (next_node s) {} (first_of (L 0)) (L 0)" by (simp_all add: leads.leads_first)
  from wake_ok [OF inv w this] obtain s1 where s1: "unlink_nodes t 0 (os_wait_objects s t) s = Some s1" "same_rest s s1"
    "\<And>r i. let s' = end_object_wait t r (s1 \<lparr> os_synced_index := (os_synced_index s1)(t := i) \<rparr>); L' = \<lambda>ob. filter (\<lambda>m. fst m \<noteq> t) (L ob)
      in lists_inv s' L' \<and> awake s' t r i \<and> (\<forall>u. u \<noteq> t \<longrightarrow> untouched s s' u) \<and> same_objects s s'" by (auto simp: Let_def)
  have "s1 \<lparr> os_synced_index := (os_synced_index s1)(t := os_synced_index s t) \<rparr> = s1" using s1(2) by (simp add: same_rest_def)
  then show ?thesis using s1(1) s1(3) [of r "os_synced_index s t"] by (simp add: object_CancelWait_def Let_def)
qed

section \<open>Notification\<close>

lemma notify_loop_ok:
  assumes "lists_inv s L" "leads (next_node s) D p (L ob)" "D \<inter> (\<Union>o'. set (L o')) = {}"
    "\<And>m. m \<in> D \<Longrightarrow> ln_thread (os_nodes s m) = fst m \<and> GetState (thread_of (os_kernel s) (fst m)) \<noteq> Waiting"
  shows "\<exists>s' L'. notify_loop ob r p s = Some s' \<and> lists_inv s' L' \<and> same_objects s s' \<and>
    (\<forall>t. if waiter s t \<and> ob \<in> set (os_wait_objects s t) then awake s' t r (index_of ob 0 (os_wait_objects s t)) else untouched s s' t)"
  using assms
proof (induction "length (L ob)" arbitrary: s L D p rule: less_induct)
  case less
  note d = lists_invD [OF less.prems(1)]
  let ?goal = "\<lambda>q. \<exists>s' L'. notify_loop ob r q s = Some s' \<and> lists_inv s' L' \<and> same_objects s s' \<and>
    (\<forall>t. if waiter s t \<and> ob \<in> set (os_wait_objects s t) then awake s' t r (index_of ob 0 (os_wait_objects s t)) else untouched s s' t)"
  have empty: "?goal None" if "L ob = []"
  proof -
    have "\<not> (waiter s t \<and> ob \<in> set (os_wait_objects s t))" for t using d(3) [of "(t, i)" ob for i] that by (auto simp: in_set_conv_nth)
    moreover have "notify_loop ob r None s = Some s" by (subst notify_loop.simps) simp
    ultimately show ?thesis using less.prems(1) by auto
  qed
  have live: "?goal (Some n)" if l: "L ob = n # R" for n R
  proof -
    let ?t = "fst n" and ?obs = "os_wait_objects s (fst n)"
    have n: "n \<in> set (L ob)" by (simp add: l)
    then have w: "waiter s ?t" and ob: "ob \<in> set ?obs" using d(3) [of n ob] by auto
    note ww = waiter_waits [OF d(1) w]
    have lead: "leads (next_node s) D (Some n) (L ob)" using leads.leads_first [of "next_node s" D "L ob"] by (simp add: l)
    let ?L = "\<lambda>o'. filter (\<lambda>m. fst m \<noteq> ?t) (L o')"
    from wake_ok [OF less.prems(1) w less.prems(3) lead] obtain s1 where
      s1: "unlink_nodes ?t 0 ?obs s = Some s1" "\<And>r i. let s' = end_object_wait ?t r (s1 \<lparr> os_synced_index := (os_synced_index s1)(?t := i) \<rparr>)
        in lists_inv s' ?L \<and> awake s' ?t r i \<and> (\<forall>u. u \<noteq> ?t \<longrightarrow> untouched s s' u) \<and> same_objects s s' \<and>
           leads (next_node s') (D \<union> nodes_from ?t 0 ?obs) (Some n) (?L ob) \<and> (\<forall>m. ln_thread (os_nodes s' m) = ln_thread (os_nodes s m))"
      unfolding Let_def by blast
    define s2 where "s2 = end_object_wait ?t r (s1 \<lparr> os_synced_index := (os_synced_index s1)(?t := index_of ob 0 ?obs) \<rparr>)"
    have s2: "lists_inv s2 ?L" "awake s2 ?t r (index_of ob 0 ?obs)" "\<And>u. u \<noteq> ?t \<Longrightarrow> untouched s s2 u" "same_objects s s2"
      "leads (next_node s2) (D \<union> nodes_from ?t 0 ?obs) (Some n) (?L ob)" "\<And>m. ln_thread (os_nodes s2 m) = ln_thread (os_nodes s m)"
      using s1(2) [of r "index_of ob 0 ?obs"] unfolding Let_def s2_def [symmetric] by blast+
    have step: "notify_loop ob r (Some n) s = notify_loop ob r (next_node s2 n) s2"
      using s1(1) ww(1) w lists_repD(4) [OF d(2) n]
      by (subst notify_loop.simps) (simp add: KThread_NotifyAvailable_def queue_NotifyAvailable_def s2_def)
    have next2: "leads (next_node s2) (D \<union> nodes_from ?t 0 ?obs) (next_node s2 n) (?L ob)" by (rule leads_left [OF s2(5)]) simp
    have dis: "(D \<union> nodes_from ?t 0 ?obs) \<inter> (\<Union>o'. set (?L o')) = {}" using less.prems(3) by (auto simp: nodes_from_def)
    have gone: "ln_thread (os_nodes s2 m) = fst m \<and> GetState (thread_of (os_kernel s2) (fst m)) \<noteq> Waiting"
      if m: "m \<in> D \<union> nodes_from ?t 0 ?obs" for m
    proof (cases "fst m = ?t")
      case True
      have "ln_thread (os_nodes s m) = fst m"
      proof (cases "m \<in> D")
        case False
        then obtain j where j: "m = (?t, j)" "j < length ?obs" using m by (auto simp: nodes_from_def)
        then have "m \<in> set (L (?obs ! j))" using d(3) [of m "?obs ! j"] w by simp
        then show ?thesis by (rule lists_repD(4) [OF d(2)])
      qed (use less.prems(4) in blast)
      then show ?thesis using s2(2,6) True by (simp add: awake_def Runnable_def Waiting_def)
    next
      case False
      then have "m \<in> D" using m by (auto simp: nodes_from_def)
      then show ?thesis using less.prems(4) [of m] s2(3) [OF False] s2(6) by (simp add: untouched_def wait_view_def)
    qed
    have "length (?L ob) < length (L ob)" by (simp add: l le_imp_less_Suc)
    from less.hyps [OF this s2(1) next2 dis gone] obtain s' L' where
      s': "notify_loop ob r (next_node s2 n) s2 = Some s'" "lists_inv s' L'" "same_objects s2 s'"
        "\<And>t. if waiter s2 t \<and> ob \<in> set (os_wait_objects s2 t) then awake s' t r (index_of ob 0 (os_wait_objects s2 t)) else untouched s2 s' t"
      by blast
    have obs: "os_wait_objects s2 = os_wait_objects s" using s2(4) by (simp add: same_objects_def)
    have "if waiter s t \<and> ob \<in> set (os_wait_objects s t) then awake s' t r (index_of ob 0 (os_wait_objects s t)) else untouched s s' t" for t
    proof (cases "t = ?t")
      case True
      have "untouched s2 s' t" using s'(4) [of t] s2(2) True by (simp add: awake_def)
      then show ?thesis using untouched_awake s2(2) True w ob by simp
    next
      case False
      have "wait_queue (os_kernel s2) t = wait_queue (os_kernel s) t" by (rule untouched_queue [OF s2(3) [OF False]])
      then show ?thesis using s'(4) [of t] untouched_trans [OF s2(3) [OF False]] unfolding obs by (simp split: if_splits)
    qed
    then show ?thesis using step s'(1,2) same_objects_trans [OF s2(4) s'(3)] by auto
  qed
  have "R = L ob \<Longrightarrow> ?goal q" if "leads (next_node s) D q R" for q R
    using that
  proof (induction rule: leads.induct)
    case (leads_first R)
    show ?case
    proof (cases "L ob")
      case Nil
      then show ?thesis unfolding leads_first using empty by simp
    next
      case (Cons n R')
      have "first_of (L ob) = Some n" by (simp add: Cons)
      then show ?thesis unfolding leads_first using live [OF Cons] by simp
    qed
  next
    case (leads_gone m R)
    have "ln_thread (os_nodes s m) = fst m" "GetState (thread_of (os_kernel s) (fst m)) \<noteq> Waiting" using less.prems(4) [OF leads_gone.hyps(1)] by auto
    then have "notify_loop ob r (Some m) s = notify_loop ob r (next_node s m) s"
      by (subst notify_loop.simps) (simp add: KThread_NotifyAvailable_def)
    then show ?case using leads_gone by simp
  qed
  then show ?case using less.prems(2) by blast
qed

text \<open>A notification wakes exactly the threads that wait for the object, each with the first index of the object among its own.\<close>

definition notified :: "nat \<Rightarrow> Result \<Rightarrow> object_state \<Rightarrow> object_state \<Rightarrow> bool" where
  "notified ob r s s' \<longleftrightarrow>
     same_objects s s' \<and>
     (\<forall>t. if waiter s t \<and> ob \<in> set (os_wait_objects s t) then awake s' t r (index_of ob 0 (os_wait_objects s t)) else untouched s s' t)"

lemma NotifyAvailable_ok:
  assumes inv: "lists_inv s L" and sig: "so_is_signaled (os_objects s ob)"
  shows "\<exists>s' L'. KSynchronizationObject_NotifyAvailable ob r s = Some s' \<and> lists_inv s' L' \<and> notified ob r s s'"
proof -
  have rep: "lists_rep s L" by (rule lists_invD(2) [OF inv])
  have "leads (next_node s) {} (so_thread_list_head (os_objects s ob)) (L ob)"
    unfolding node_chain_first [OF lists_repD(1) [OF rep]] by (rule leads.leads_first)
  from notify_loop_ok [OF inv this, of r] show ?thesis using sig by (auto simp: KSynchronizationObject_NotifyAvailable_def notified_def)
qed

section \<open>The beginning of a wait\<close>

lemma link_nodes_ok:
  assumes "lists_rep s L" "\<And>j ob. i \<le> j \<Longrightarrow> (t, j) \<notin> set (L ob)"
  shows "\<exists>L'. lists_rep (link_nodes t i obs s) L' \<and>
    (\<forall>ob n. n \<in> set (L' ob) \<longleftrightarrow> n \<in> set (L ob) \<or> (\<exists>j<length obs. n = (t, i + j) \<and> obs ! j = ob)) \<and> same_rest s (link_nodes t i obs s)"
  using assms
proof (induction obs arbitrary: i s L)
  case Nil
  then show ?case by auto
next
  case (Cons x obs)
  let ?s = "LinkNode x (t, i) (set_node (t, i) (\<lambda>_. \<lparr> ln_next = None, ln_thread = t \<rparr>) s)" and ?L = "L(x := L x @ [(t, i)])"
  have new: "(t, i) \<notin> set (L ob)" for ob using Cons.prems(2) by simp
  note l = LinkNode_ok [OF Cons.prems(1) new, of x, simplified fst_conv]
  have "(t, j) \<notin> set (?L ob)" if "i + 1 \<le> j" for j ob using that Cons.prems(2) [of j] by auto
  from Cons.IH [OF l(1) this] obtain L' where L': "lists_rep (link_nodes t (i + 1) obs ?s) L'"
    "\<And>ob n. n \<in> set (L' ob) \<longleftrightarrow> n \<in> set (?L ob) \<or> (\<exists>j<length obs. n = (t, i + 1 + j) \<and> obs ! j = ob)"
    "same_rest ?s (link_nodes t (i + 1) obs ?s)" by blast
  have "n \<in> set (L' ob) \<longleftrightarrow> n \<in> set (L ob) \<or> (\<exists>j<length (x # obs). n = (t, i + j) \<and> (x # obs) ! j = ob)" for n ob
    unfolding L'(2) by (auto simp: less_Suc_eq_0_disj)
  then show ?case using L'(1) same_rest_trans [OF l(2) L'(3)] by auto
qed

lemma first_signaled_None: "first_signaled s i obs = None \<longleftrightarrow> (\<forall>ob\<in>set obs. \<not> so_is_signaled (os_objects s ob))"
  by (induction obs arbitrary: i) auto

lemma first_signaled_Some:
  "first_signaled s i obs = Some j \<Longrightarrow>
    \<exists>m<length obs. j = i + int m \<and> so_is_signaled (os_objects s (obs ! m)) \<and> (\<forall>l<m. \<not> so_is_signaled (os_objects s (obs ! l)))"
proof (induction obs arbitrary: i)
  case (Cons x obs)
  show ?case
  proof (cases "so_is_signaled (os_objects s x)")
    case True
    then show ?thesis using Cons.prems by (intro exI [of _ 0]) auto
  next
    case False
    then obtain m where m: "m < length obs" "j = i + 1 + int m" "so_is_signaled (os_objects s (obs ! m))"
      "\<forall>l<m. \<not> so_is_signaled (os_objects s (obs ! l))" using Cons.IH [of "i + 1"] Cons.prems by auto
    have "\<not> so_is_signaled (os_objects s ((x # obs) ! l))" if "l < Suc m" for l using that m(4) False by (cases l) auto
    then show ?thesis using m(1-3) by (intro exI [of _ "Suc m"]) auto
  qed
qed simp

lemma begin_object_wait_ok:
  fixes s :: object_state and t :: thread and obs :: "nat list"
  assumes inv: "lists_inv s L" and cur: "wait_queue (os_kernel s) t = None"
  defines "s1 \<equiv> link_nodes t 0 obs s"
  defines "s' \<equiv> s1 \<lparr> os_cancellable := (os_cancellable s1)(t := True), os_synced_index := (os_synced_index s1)(t := - 1),
    os_wait_objects := (os_wait_objects s1)(t := obs), os_kernel := BeginWait t ForKSynchronizationObjectWait (os_kernel s1) \<rparr>"
  shows "\<exists>L'. lists_inv s' L'" "waiter s' t" "os_wait_objects s' t = obs" "u \<noteq> t \<Longrightarrow> wait_queue (os_kernel s') u = wait_queue (os_kernel s) u"
    "u \<noteq> t \<Longrightarrow> os_wait_objects s' u = os_wait_objects s u" "so_is_signaled (os_objects s' ob) = so_is_signaled (os_objects s ob)"
proof -
  note d = lists_invD [OF inv] and n = not_waiting [OF lists_invD(1) [OF inv] cur]
  let ?k = "os_kernel s"
  have free: "(t, j) \<notin> set (L ob)" for j ob using d(3) [of "(t, j)" ob] cur by simp
  from link_nodes_ok [OF d(2) free, where i = 0 and obs = obs] obtain L' where
    L': "lists_rep s1 L'" "\<And>ob n. n \<in> set (L' ob) \<longleftrightarrow> n \<in> set (L ob) \<or> (\<exists>j<length obs. n = (t, 0 + j) \<and> obs ! j = ob)" "same_rest s s1"
    unfolding s1_def by blast
  note e = L'(3) [unfolded same_rest_def]
  have same: "os_kernel s' = BeginWait t ForKSynchronizationObjectWait ?k" "os_nodes s' = os_nodes s1" "os_objects s' = os_objects s1"
    "os_wait_objects s' u = (if u = t then obs else os_wait_objects s u)" "os_cancellable s' u = (if u = t then True else os_cancellable s u)" for u
    using e by (simp_all add: s'_def)
  have q: "wait_queue (os_kernel s') u = (if u = t then Some ForKSynchronizationObjectWait else wait_queue ?k u)" for u
    unfolding same(1) by (rule waiting_fields)
  show "waiter s' t" "os_wait_objects s' t = obs" "u \<noteq> t \<Longrightarrow> wait_queue (os_kernel s') u = wait_queue ?k u"
    "u \<noteq> t \<Longrightarrow> os_wait_objects s' u = os_wait_objects s u" "so_is_signaled (os_objects s' ob) = so_is_signaled (os_objects s ob)"
    using q [of t] q [of u] e by (simp_all add: same)
  have "waits_inv (os_kernel s')" unfolding same(1)
    by (rule BeginWait_ok) (use d(1) n in \<open>simp_all add: waits_inv_def queue_fits_def\<close>)
  moreover have "lists_rep s' L'" using L'(1) unfolding lists_rep_def same(2,3) .
  moreover have "m \<in> set (L' ob) \<longleftrightarrow> waiter s' (fst m) \<and> snd m < length (os_wait_objects s' (fst m)) \<and> os_wait_objects s' (fst m) ! snd m = ob" for m ob
  proof (cases "fst m = t")
    case True
    then obtain j where m: "m = (t, j)" by (cases m) simp
    show ?thesis unfolding L'(2) q same(4) m using free [of j ob] by auto
  next
    case False
    obtain v j where m: "m = (v, j)" by (cases m)
    show ?thesis unfolding L'(2) q same(4) using False d(3) [of m ob] unfolding m by auto
  qed
  moreover have "os_cancellable s' u \<longleftrightarrow> waiter s' u" for u unfolding same(5) q using d(4) [of u] by simp
  ultimately show "\<exists>L'. lists_inv s' L'" unfolding lists_inv_def by blast
qed

end
