(* ===== verification/SynchronizationObjectSystem.thy ===== *)
theory SynchronizationObjectSystem
  imports SynchronizationSystem SynchronizationObjectBehaviour
begin

text \<open>
  Threads that wait for objects and the operations on locks, condition variables and arbiters together: the lists of the objects stay in order,
  no node outlives its wait, and no signal is lost.
\<close>

section \<open>Other operations leave the waits for objects alone\<close>

definition object_waiters :: "kernel \<Rightarrow> thread set" where
  "object_waiters k = {t. wait_queue k t = Some ForKSynchronizationObjectWait}"

lemma object_waiters_frame: "prio_frame k k' \<Longrightarrow> object_waiters k' = object_waiters k"
  using prio_frameD(3) by (simp add: object_waiters_def)

lemma other_waiter:
  assumes "waits_inv k" "GetLockOwner k t \<noteq> None \<or> in_tree k t \<noteq> None \<or> wait_queue k t = None"
  shows "t \<notin> object_waiters k"
  using assms(2) waiter_waits(2,3) [OF assms(1), of t] by (auto simp: object_waiters_def)

lemma object_waiters_ops:
  "t \<notin> object_waiters k \<Longrightarrow> object_waiters (EndWait t r k) = object_waiters k"
  "t \<notin> object_waiters k \<Longrightarrow> object_waiters (KThreadQueue_EndWait t r k) = object_waiters k"
  "t \<notin> object_waiters k \<Longrightarrow> q \<noteq> ForKSynchronizationObjectWait \<Longrightarrow> object_waiters (BeginWait t q k) = object_waiters k"
  "object_waiters (WriteToUser c a v k) = object_waiters k" "object_waiters (tree_insert_thread tr t k) = object_waiters k"
  "object_waiters (leave_tree tr t k) = object_waiters k" "object_waiters (UpdateState t k) = object_waiters k"
  by (auto simp: object_waiters_def waiting_fields EndWait_def WriteToUser_def tree_insert_thread_def leave_tree_def left_tree_fields
      suspension_fields)

lemma object_waiters_set_thread: "(\<And>th. th_wait_queue (h th) = th_wait_queue th) \<Longrightarrow> object_waiters (set_thread t h k) = object_waiters k"
  by (auto simp: object_waiters_def)

lemma object_waiters_next:
  assumes inv: "waits_inv k" and p: "passed k owner key b (nx, others, k1)" and fr: "prio_frame k k1"
  shows "object_waiters (end_wait_of_next nx r k1) = object_waiters k"
proof (cases nx)
  case (Some n)
  then have "GetLockOwner k n \<noteq> None" using p by (simp add: passed_def)
  then have "n \<notin> object_waiters k1" using other_waiter [OF inv, of n] object_waiters_frame [OF fr] by simp
  then show ?thesis using Some object_waiters_frame [OF fr] by (simp add: end_wait_of_next_def object_waiters_ops)
qed (use object_waiters_frame [OF fr] in \<open>simp add: end_wait_of_next_def\<close>)

lemma waiters_signal_lock:
  assumes inv: "waits_inv k" and r: "KConditionVariable_SignalToAddress c addr k = Some (r, k')"
  shows "object_waiters k' = object_waiters k"
proof -
  from release_ok [OF inv, of "cl_thread c" "cl_thread c" addr ResultSuccess] obtain nx others k1 where
    k1: "RemoveWaiterByKey (cl_thread c) (cl_thread c) addr False k = Some (nx, others, k1)" "passed k (cl_thread c) addr False (nx, others, k1)"
      "prio_frame k k1" by blast
  let ?w = "WriteToUser c addr (tag_of_next nx others k1)"
  have "k' = end_wait_of_next nx ResultSuccess (?w k1)" using r k1(1) by (simp add: KConditionVariable_SignalToAddress_def Let_def)
  moreover have "object_waiters (end_wait_of_next nx ResultSuccess (?w k1)) = object_waiters (end_wait_of_next nx ResultSuccess k1)"
  proof (cases nx)
    case (Some n)
    then have "GetLockOwner k n \<noteq> None" using k1(2) by (simp add: passed_def)
    then have "n \<notin> object_waiters k1" using other_waiter [OF inv, of n] object_waiters_frame [OF k1(3)] by simp
    then show ?thesis using Some by (simp add: end_wait_of_next_def object_waiters_ops)
  qed (simp add: end_wait_of_next_def object_waiters_ops)
  ultimately show ?thesis using object_waiters_next [OF inv k1(2,3)] by simp
qed

lemma waiters_wait_lock:
  assumes inv: "waits_inv k" and cur: "wait_queue k (cl_thread c) = None" and r: "KConditionVariable_WaitForAddress c h addr v k = Some (r, k')"
  shows "object_waiters k' = object_waiters k"
proof -
  let ?t = "cl_thread c" and ?h = "\<lambda>th. th \<lparr> th_address_key := addr, th_address_key_value := v, th_is_kernel_address_key := False \<rparr>"
  let ?k = "set_thread ?t ?h k"
  note n = not_waiting [OF inv cur]
  have li: "locks_inv k" using inv by (simp add: waits_inv_def)
  have u: "unkeyed (?h th) = unkeyed th" for th by (simp add: unkeyed_def)
  have l1: "locks_inv ?k" by (rule rekey_ok [OF li n(1,2) u]) simp_all
  have free: "waits ?k ?t = None" "in_tree ?k ?t = None" using n rekeyed(8) [OF li n(1) u, of ?t] by simp_all
  have add: "object_waiters k1 = object_waiters k" if "AddWaiter ?t owner ?t ?k = Some k1" for owner k1
  proof -
    have "prio_frame ?k k1" using AddWaiter_ok [OF l1 free, of ?t owner] that by auto
    then show ?thesis using object_waiters_frame object_waiters_set_thread [of ?h ?t k] by simp
  qed
  have "?t \<notin> object_waiters k" using other_waiter [OF inv] cur by simp
  then show ?thesis using r add
    by (auto simp: KConditionVariable_WaitForAddress_def Let_def SetUserAddressKey_def object_waiters_ops split: if_splits option.splits)
qed

lemma waiters_signal_condition:
  assumes inv: "waits_inv k" and r: "KConditionVariable_Signal c key n k = Some k'"
  shows "object_waiters k' = object_waiters k"
proof -
  let ?tr = "ConditionVariables (cl_process c)"
  have li: "locks_inv k" using inv by (simp add: waits_inv_def)
  from Signal_ok [OF inv, of c key n] r obtain out where out: "out \<subseteq> set (key_waiters k ?tr key)"
    "\<forall>u. wait_queue k' u \<noteq> None \<longrightarrow> wait_queue k' u = wait_queue k u" "\<forall>u. u \<notin> out \<longrightarrow> wait_queue k' u = wait_queue k u" by auto
  have "u \<notin> object_waiters k" if "u \<in> out" for u
  proof -
    have "u \<in> set (key_waiters k ?tr key)" using out(1) that by blast
    then have "in_tree k u = Some ?tr" unfolding key_waiters_sorted(3) [OF li] by simp
    then show ?thesis using other_waiter [OF inv, of u] by simp
  qed
  then have "u \<in> object_waiters k' \<longleftrightarrow> u \<in> object_waiters k" for u
    using out(2,3) by (cases "u \<in> out") (auto simp: object_waiters_def)
  then show ?thesis by blast
qed

lemma waiters_wait_condition:
  assumes inv: "waits_inv k" and cur: "wait_queue k (cl_thread c) = None" and r: "KConditionVariable_Wait c addr key v timeout k = Some (r, k')"
  shows "object_waiters k' = object_waiters k"
proof (cases "IsTerminationRequested (thread_of k (cl_thread c))")
  case True
  then show ?thesis using r by (simp add: KConditionVariable_Wait_def)
next
  case False
  let ?t = "cl_thread c" and ?tr = "ConditionVariables (cl_process c)"
  from release_ok [OF inv, of ?t ?t addr ResultSuccess] obtain nx others k1 where
    k1: "RemoveWaiterByKey ?t ?t addr False k = Some (nx, others, k1)" "passed k ?t addr False (nx, others, k1)" "prio_frame k k1" by blast
  define k3 where "k3 = WriteToUser c addr (tag_of_next nx others k1) (WriteToUser c key 1 (end_wait_of_next nx ResultSuccess k1))"
  have w3: "object_waiters k3 = object_waiters k" by (simp add: k3_def object_waiters_ops object_waiters_next [OF inv k1(2,3)])
  have "?t \<notin> object_waiters k" using other_waiter [OF inv] cur by simp
  then have t3: "?t \<notin> object_waiters (tree_insert_thread ?tr ?t (SetConditionVariable ?t ?tr addr key v k3))"
    by (simp add: object_waiters_ops SetConditionVariable_def object_waiters_set_thread w3)
  have "k' = (if timeout = 0 then k3 else BeginWait ?t (ForKConditionVariableWaitConditionVariable ?tr)
      (tree_insert_thread ?tr ?t (SetConditionVariable ?t ?tr addr key v k3)))"
    using r False k1(1) by (simp add: KConditionVariable_Wait_def Let_def k3_def split: if_splits)
  then show ?thesis using object_waiters_ops(3) [OF t3] w3
    by (simp add: object_waiters_ops(5) SetConditionVariable_def object_waiters_set_thread)
qed

lemma waiters_signal_arbiter:
  assumes inv: "waits_inv k" and r: "KAddressArbiter_SignalToAddress c addr type v n k = Some (r, k')"
  shows "object_waiters k' = object_waiters k"
proof -
  let ?tr = "AddressArbiters (cl_process c)"
  let ?ws = "key_waiters k ?tr addr"
  have li: "locks_inv k" using inv by (simp add: waits_inv_def)
  have tree: "u \<notin> object_waiters k" if "u \<in> set (to_wake n ?ws)" for u
  proof -
    have "u \<in> set ?ws" using that set_take_subset [of "nat n" ?ws] by (auto simp: to_wake_def split: if_splits)
    then have "in_tree k u = Some ?tr" unfolding key_waiters_sorted(3) [OF li] by simp
    then show ?thesis using other_waiter [OF inv, of u] by simp
  qed
  have eff: "object_waiters k' = object_waiters k" if d: "arbiter_done ?tr (to_wake n ?ws) (WriteToUser c addr x k) k'" for x
  proof -
    have w: "\<And>t. t \<in> set (to_wake n ?ws) \<Longrightarrow> woken k' t" "\<And>u. u \<notin> set (to_wake n ?ws) \<Longrightarrow> wait_view k' u = wait_view (WriteToUser c addr x k) u"
      using d unfolding arbiter_done_def by blast+
    have "u \<in> object_waiters k' \<longleftrightarrow> u \<in> object_waiters k" for u
    proof (cases "u \<in> set (to_wake n ?ws)")
      case True
      then show ?thesis using w(1) tree by (simp add: woken_def object_waiters_def)
    next
      case False
      then show ?thesis using w(2) by (simp add: wait_view_def object_waiters_def)
    qed
    then show ?thesis by blast
  qed
  show ?thesis using arbiter_signal_ok [OF inv, of c addr type v n] r eff by (auto split: if_splits)
qed

lemma waiters_wait_arbiter:
  assumes inv: "waits_inv k" and cur: "wait_queue k (cl_thread c) = None"
  shows "object_waiters (snd (KAddressArbiter_WaitForAddress c addr type v timeout k)) = object_waiters k"
proof -
  let ?t = "cl_thread c" and ?tr = "AddressArbiters (cl_process c)"
  have t: "?t \<notin> object_waiters k" using other_waiter [OF inv] cur by simp
  have "object_waiters (wait_in_arbiter c addr k1) = object_waiters k1" if "?t \<notin> object_waiters k1" for k1
    using that by (simp add: wait_in_arbiter_def Let_def object_waiters_ops SetAddressArbiter_def object_waiters_set_thread)
  then show ?thesis using t by (simp add: arbiter_wait_eq object_waiters_ops)
qed

lemma waiters_cancel:
  assumes inv: "waits_inv k" and t: "t \<notin> object_waiters k" and r: "CancelWait cur t res k = Some k'"
  shows "object_waiters k' = object_waiters k"
proof -
  have "locks_inv k" using inv by (simp add: waits_inv_def)
  from leave_lock_ok [OF this, of cur t] obtain k1 where k1: "leave_lock cur t k = Some k1" "prio_frame k k1" by blast
  note w1 = object_waiters_frame [OF k1(2)]
  have p: "object_waiters (set_thread u (\<lambda>th. th \<lparr> th_pinned_waiter_list := remove1 t (th_pinned_waiter_list th) \<rparr>) k) = object_waiters k" for u
    by (rule object_waiters_set_thread) simp
  show ?thesis using r k1(1) t
    by (auto simp: CancelWait_def queue_CancelWait_def leave_owner_lock object_waiters_ops w1 p split: if_splits option.splits thread_queue.splits)
qed

lemma waiters_base_priority:
  assumes inv: "waits_inv k" and r: "SetBasePriority cur t v k = Some k'"
  shows "object_waiters k' = object_waiters k"
proof -
  have "locks_inv k" using inv by (simp add: waits_inv_def)
  from SetBasePriority_ok [OF this, of cur t v] r have "prio_frame (set_thread t (\<lambda>th. th \<lparr> th_base_priority := v \<rparr>) k) k'" by auto
  then show ?thesis using object_waiters_frame object_waiters_set_thread [of "\<lambda>th. th \<lparr> th_base_priority := v \<rparr>" t k] by simp
qed

lemma waiters_terminate:
  assumes inv: "waits_inv k" "requests_ok k" and free: "\<not> th_is_pinned (thread_of k t)" and t: "t \<notin> object_waiters k"
    and r: "RequestTerminate cur t k = Some (s, k')"
  shows "object_waiters k' = object_waiters k"
proof -
  define k1 where "k1 = set_thread t (\<lambda>th. th \<lparr> th_termination_requested := True \<rparr>) k"
  have w1: "object_waiters k1 = object_waiters k" unfolding k1_def by (rule object_waiters_set_thread) simp
  have i1: "waits_inv k1" "requests_ok k1" using same_waitsD(7,8) [OF request_same_waits] inv unfolding k1_def by blast+
  let ?a = "set_thread t (\<lambda>th. th \<lparr> th_suspend_allowed_flags := 0 \<rparr>) k1"
  define k3 where "k3 = (if IsSuspended (thread_of k1 t) then UpdateState t ?a else k1)"
  have a: "waits_inv ?a" "requests_ok ?a" using same_waitsD(7,8) [OF allowed_same_waits] i1 by simp_all
  have i3: "waits_inv k3" using i1(1) same_waitsD(8) [OF same_waits_suspension(3) [OF a(2)] a(1)] by (simp add: k3_def)
  have w3: "object_waiters k3 = object_waiters k"
    using w1 object_waiters_set_thread [of "\<lambda>th. th \<lparr> th_suspend_allowed_flags := 0 \<rparr>" t k1] by (simp add: k3_def object_waiters_ops)
  have upd: "object_waiters k5 = object_waiters k"
    if k4: "IncreaseBasePriority cur t p k3 = Some k4" and k5: "CancelWait cur t res k4 = Some k5" for p res k4 k5
  proof -
    have "object_waiters k4 = object_waiters k3"
      using k4 waiters_base_priority [OF i3] by (auto simp: IncreaseBasePriority_def split: if_splits)
    moreover have "waits_inv k4" using IncreaseBasePriority_waits [OF i3, of cur t p] k4 by auto
    ultimately show ?thesis using waiters_cancel [OF _ _ k5] t w3 by simp
  qed
  have dead: "object_waiters (set_thread t (\<lambda>th. th \<lparr> th_state := Terminated \<rparr>) k1) = object_waiters k1" by (rule object_waiters_set_thread) simp
  have "\<not> th_is_pinned (thread_of k1 t)" using free by (simp add: k1_def)
  then show ?thesis using r upd w1 dead
    by (auto simp: RequestTerminate_def k1_def [symmetric] k3_def [symmetric] Let_def split: if_splits option.splits)
qed

text \<open>The thread whose wait an event cancels.\<close>

fun cancels :: "sync_event \<Rightarrow> thread \<Rightarrow> bool" where
  "cancels (Cancel_Wait cur t r) u \<longleftrightarrow> u = t"
| "cancels (Terminate cur t) u \<longleftrightarrow> u = t"
| "cancels e u \<longleftrightarrow> False"

lemma sync_step_waiters:
  "sync_step k e k' \<Longrightarrow> waits_inv k \<Longrightarrow> (\<And>t. cancels e t \<Longrightarrow> t \<notin> object_waiters k) \<Longrightarrow> object_waiters k' = object_waiters k"
proof (induction rule: sync_step.induct)
  case (signal_lock k c addr r k')
  show ?case by (rule waiters_signal_lock [OF signal_lock.prems(1) signal_lock.hyps(2)])
next
  case (wait_lock k c h addr v r k')
  then show ?case using waiters_wait_lock running_not_waiting by blast
next
  case (signal_condition k c key n k')
  then show ?case using waiters_signal_condition by blast
next
  case (wait_condition k c addr key v timeout r k')
  show ?case
    by (rule waiters_wait_condition [OF wait_condition.prems(1) running_not_waiting [OF wait_condition.prems(1) wait_condition.hyps(1)] wait_condition.hyps(2)])
next
  case (signal_arbiter k c addr type v n r k')
  then show ?case using waiters_signal_arbiter by blast
next
  case (wait_arbiter k c addr at v timeout r k')
  then show ?case using waiters_wait_arbiter [OF wait_arbiter.prems(1) running_not_waiting [OF wait_arbiter.prems(1)], of c addr at v timeout] by simp
next
  case (cancel_wait cur t r k k')
  then show ?case using waiters_cancel by simp
next
  case (base_priority cur t v k k')
  then show ?case using waiters_base_priority by blast
next
  case (terminate k t cur s k')
  then show ?case using waiters_terminate by simp
qed

section \<open>Threads and objects\<close>

text \<open>
  The events: a running thread waits for at most as many objects as it has nodes for, an event is signalled or cleared, the wait of a thread is
  cancelled (by a timer, a request of termination or a request of cancellation), or some other operation on locks, condition variables,
  arbiters and priorities, which cancels no wait for objects.
\<close>

datatype object_event =
    Object_Wait thread "nat list" int
  | Event_Signal KEvent
  | Event_Clear KEvent
  | Readable_Reset nat
  | Object_Cancel thread thread Result
  | Cancel_Request thread thread
  | Elsewhere sync_event

inductive object_step :: "object_state \<Rightarrow> object_event \<Rightarrow> object_state \<Rightarrow> bool" where
  object_wait: "GetState (thread_of (os_kernel s) t) = Runnable \<Longrightarrow> length obs \<le> 64 \<Longrightarrow> KSynchronizationObject_Wait t obs timeout s = (r, s') \<Longrightarrow>
    object_step s (Object_Wait t obs timeout) s'"
| event_signal: "KEvent_Signal e s = Some (r, s') \<Longrightarrow> object_step s (Event_Signal e) s'"
| event_clear: "KEvent_Clear e s = (r, s') \<Longrightarrow> object_step s (Event_Clear e) s'"
| readable_reset: "KReadableEvent_Reset ob s = (r, s') \<Longrightarrow> object_step s (Readable_Reset ob) s'"
| object_cancel: "KThread_CancelWait cur t r s = Some s' \<Longrightarrow> object_step s (Object_Cancel cur t r) s'"
| cancel_request: "WaitCancel cur t s = Some s' \<Longrightarrow> object_step s (Cancel_Request cur t) s'"
| elsewhere: "sync_step (os_kernel s) e k' \<Longrightarrow> (\<And>t. cancels e t \<Longrightarrow> \<not> waiter s t) \<Longrightarrow> object_step s (Elsewhere e) (s \<lparr> os_kernel := k' \<rparr>)"

definition object_init :: "object_state \<Rightarrow> bool" where
  "object_init s \<longleftrightarrow>
     waits_inv (os_kernel s) \<and> (\<forall>t. \<not> waiter s t \<and> \<not> os_cancellable s t) \<and>
     (\<forall>ob. so_thread_list_head (os_objects s ob) = None \<and> so_thread_list_tail (os_objects s ob) = None)"

definition object_inv :: "object_state \<Rightarrow> bool" where
  "object_inv s \<longleftrightarrow>
     (\<exists>L. lists_inv s L) \<and> (\<forall>t. waiter s t \<longrightarrow> (\<forall>ob\<in>set (os_wait_objects s t). \<not> so_is_signaled (os_objects s ob)))"

lemma object_invD: "object_inv s \<Longrightarrow> waiter s t \<Longrightarrow> ob \<in> set (os_wait_objects s t) \<Longrightarrow> \<not> so_is_signaled (os_objects s ob)"
  by (simp add: object_inv_def)

lemma object_init_inv:
  assumes "object_init s"
  shows "object_inv s"
proof -
  have "lists_inv s (\<lambda>_. [])" using assms by (simp add: object_init_def lists_inv_def lists_rep_def)
  then show ?thesis using assms by (auto simp: object_inv_def object_init_def)
qed

lemma lists_inv_kernel:
  assumes "lists_inv s L" "waits_inv k'" "object_waiters k' = object_waiters (os_kernel s)"
  shows "lists_inv (s \<lparr> os_kernel := k' \<rparr>) L"
proof -
  have w: "wait_queue k' t = Some ForKSynchronizationObjectWait \<longleftrightarrow> waiter s t" for t using assms(3) by (auto simp: object_waiters_def)
  show ?thesis using assms(1,2) unfolding lists_inv_def lists_rep_def by (simp add: w)
qed

lemma lists_inv_fields:
  "lists_inv (s \<lparr> os_wait_cancelled := x \<rparr>) L = lists_inv s L"
  "lists_inv (set_object ob (\<lambda>y. y \<lparr> so_is_signaled := b \<rparr>) s) L = lists_inv s L"
proof -
  show "lists_inv (s \<lparr> os_wait_cancelled := x \<rparr>) L = lists_inv s L" by (simp add: lists_inv_def lists_rep_def)
  have h: "so_thread_list_head (os_objects (set_object ob (\<lambda>y. y \<lparr> so_is_signaled := b \<rparr>) s) o') = so_thread_list_head (os_objects s o')"
    "so_thread_list_tail (os_objects (set_object ob (\<lambda>y. y \<lparr> so_is_signaled := b \<rparr>) s) o') = so_thread_list_tail (os_objects s o')" for o'
    by (simp_all add: set_object_def)
  have f: "os_kernel (set_object ob g s) = os_kernel s" "os_nodes (set_object ob g s) = os_nodes s"
    "os_wait_objects (set_object ob g s) = os_wait_objects s" "os_cancellable (set_object ob g s) = os_cancellable s" for g
    by (simp_all add: set_object_def)
  show "lists_inv (set_object ob (\<lambda>y. y \<lparr> so_is_signaled := b \<rparr>) s) L = lists_inv s L"
    unfolding lists_inv_def lists_rep_def h f ..
qed

lemma object_inv_cancelled: "object_inv (s \<lparr> os_wait_cancelled := x \<rparr>) = object_inv s"
  unfolding object_inv_def lists_inv_fields(1) by simp

lemma Wait_inv:
  assumes inv: "object_inv s" and t: "GetState (thread_of (os_kernel s) t) = Runnable"
  shows "object_inv (snd (KSynchronizationObject_Wait t obs timeout s))"
proof (cases "IsTerminationRequested (thread_of (os_kernel s) t) \<or> first_signaled s 0 obs \<noteq> None \<or> timeout = 0 \<or> os_wait_cancelled s t")
  case True
  then show ?thesis using inv
    by (auto simp: KSynchronizationObject_Wait_def Let_def object_inv_cancelled split: option.splits)
next
  case False
  obtain L where L: "lists_inv s L" using inv by (auto simp: object_inv_def)
  have q: "wait_queue (os_kernel s) t = None" by (rule running_not_waiting [OF lists_invD(1) [OF L] t])
  define s' where "s' = snd (KSynchronizationObject_Wait t obs timeout s)"
  note b = begin_object_wait_ok [OF L q, where obs = obs]
  have s': "\<exists>L'. lists_inv s' L'" "waiter s' t" "os_wait_objects s' t = obs"
    "u \<noteq> t \<Longrightarrow> wait_queue (os_kernel s') u = wait_queue (os_kernel s) u" "u \<noteq> t \<Longrightarrow> os_wait_objects s' u = os_wait_objects s u"
    "so_is_signaled (os_objects s' ob) = so_is_signaled (os_objects s ob)" for u ob
    using b False by (simp_all add: s'_def KSynchronizationObject_Wait_def Let_def)
  have "\<not> so_is_signaled (os_objects s' ob)" if "waiter s' u" "ob \<in> set (os_wait_objects s' u)" for u ob
  proof (cases "u = t")
    case True
    then show ?thesis using that s'(3,6) False first_signaled_None [of s 0 obs] by simp
  next
    case u: False
    then show ?thesis using that s'(4-6) object_invD [OF inv, of u ob] by simp
  qed
  then show ?thesis using s'(1) by (simp add: object_inv_def s'_def)
qed

lemma Signal_notifies:
  assumes inv: "object_inv s"
  shows "\<exists>s'. KReadableEvent_Signal ob s = Some (ResultSuccess, s') \<and> object_inv s' \<and> so_is_signaled (os_objects s' ob) \<and>
    (\<forall>t. if waiter s t \<and> ob \<in> set (os_wait_objects s t) then awake s' t ResultSuccess (index_of ob 0 (os_wait_objects s t)) else untouched s s' t)"
proof (cases "so_is_signaled (os_objects s ob)")
  case True
  then have "\<not> (waiter s t \<and> ob \<in> set (os_wait_objects s t))" for t using object_invD [OF inv] by blast
  then show ?thesis using inv True by (auto simp: KReadableEvent_Signal_def)
next
  case False
  obtain L where L: "lists_inv s L" using inv by (auto simp: object_inv_def)
  let ?s = "set_object ob (\<lambda>x. x \<lparr> so_is_signaled := True \<rparr>) s"
  have sig: "so_is_signaled (os_objects ?s o') \<longleftrightarrow> o' = ob \<or> so_is_signaled (os_objects s o')" for o' by (simp add: set_object_def)
  have same: "os_kernel ?s = os_kernel s" "os_wait_objects ?s = os_wait_objects s" "os_synced_index ?s = os_synced_index s"
    by (simp_all add: set_object_def)
  have "lists_inv ?s L" using L lists_inv_fields(2) by blast
  from NotifyAvailable_ok [OF this, of ob ResultSuccess] sig obtain s' L' where
    s': "KSynchronizationObject_NotifyAvailable ob ResultSuccess ?s = Some s'" "lists_inv s' L'" "notified ob ResultSuccess ?s s'" by auto
  have n: "so_is_signaled (os_objects s' o') = so_is_signaled (os_objects ?s o')" "os_wait_objects s' = os_wait_objects s" for o'
    using s'(3) same by (simp_all add: notified_def same_objects_def)
  have who: "if waiter s t \<and> ob \<in> set (os_wait_objects s t) then awake s' t ResultSuccess (index_of ob 0 (os_wait_objects s t)) else untouched s s' t" for t
    using s'(3) unfolding notified_def untouched_def same by blast
  have "\<not> so_is_signaled (os_objects s' o')" if "waiter s' t" "o' \<in> set (os_wait_objects s' t)" for t o'
  proof -
    have u: "\<not> (waiter s t \<and> ob \<in> set (os_wait_objects s t))" using who [of t] that(1) by (auto simp: awake_def)
    then have "untouched s s' t" using who [of t] by (metis (full_types))
    then have w: "waiter s t" using that(1) untouched_queue by metis
    then have "o' \<noteq> ob" using u that(2) n(2) by auto
    then show ?thesis using object_invD [OF inv w, of o'] that(2) n sig by simp
  qed
  then have "object_inv s'" using s'(2) by (auto simp: object_inv_def)
  moreover have "KReadableEvent_Signal ob s = Some (ResultSuccess, s')" using False s'(1) by (simp add: KReadableEvent_Signal_def)
  moreover have "so_is_signaled (os_objects s' ob)" using n(1) [of ob] sig by simp
  ultimately show ?thesis using who by blast
qed

lemma Reset_inv:
  assumes inv: "object_inv s"
  shows "object_inv (snd (KReadableEvent_Reset ob s))"
proof (cases "so_is_signaled (os_objects s ob)")
  case True
  let ?s = "set_object ob (\<lambda>x. x \<lparr> so_is_signaled := False \<rparr>) s"
  have "\<exists>L. lists_inv ?s L" using inv unfolding object_inv_def lists_inv_fields(2) by blast
  moreover have "\<not> so_is_signaled (os_objects ?s o')" if "waiter ?s t" "o' \<in> set (os_wait_objects ?s t)" for t o'
    using object_invD [OF inv, of t o'] that by (simp add: set_object_def)
  ultimately have "object_inv ?s" by (simp add: object_inv_def)
  then show ?thesis using True by (simp add: KReadableEvent_Reset_def)
qed (simp add: KReadableEvent_Reset_def inv)

lemma CancelWait_inv:
  assumes inv: "object_inv s"
  shows "\<exists>s'. KThread_CancelWait cur t r s = Some s' \<and> object_inv s' \<and> wait_queue (os_kernel s') t = None"
proof -
  obtain L where L: "lists_inv s L" using inv by (auto simp: object_inv_def)
  note d = lists_invD [OF L]
  show ?thesis
  proof (cases "waiter s t")
    case True
    note w = waiter_waits [OF d(1) True]
    from object_CancelWait_ok [OF L True, of r] obtain s' where s': "object_CancelWait t r s = Some s'"
      "lists_inv s' (\<lambda>ob. filter (\<lambda>m. fst m \<noteq> t) (L ob))" "awake s' t r (os_synced_index s t)" "\<And>u. u \<noteq> t \<Longrightarrow> untouched s s' u" "same_objects s s'"
      by blast
    have "\<not> so_is_signaled (os_objects s' ob)" if "waiter s' u" "ob \<in> set (os_wait_objects s' u)" for u ob
    proof -
      have "u \<noteq> t" using that(1) s'(3) by (auto simp: awake_def)
      then have "waiter s u" using that(1) untouched_queue [OF s'(4)] by simp
      then show ?thesis using object_invD [OF inv, of u ob] that(2) s'(5) by (simp add: same_objects_def)
    qed
    then have "object_inv s'" using s'(2) by (auto simp: object_inv_def)
    moreover have "KThread_CancelWait cur t r s = Some s'" using True w(1) s'(1) by (simp add: KThread_CancelWait_def)
    ultimately show ?thesis using s'(3) by (auto simp: awake_def)
  next
    case False
    from CancelWait_ok [OF d(1), of cur t r] obtain k' where k': "CancelWait cur t r (os_kernel s) = Some k'" "waits_inv k'" "wait_queue k' t = None" by blast
    have ow: "object_waiters k' = object_waiters (os_kernel s)" by (rule waiters_cancel [OF d(1) _ k'(1)]) (use False in \<open>simp add: object_waiters_def\<close>)
    then have "wait_queue k' u = Some ForKSynchronizationObjectWait \<longleftrightarrow> waiter s u" for u by (auto simp: object_waiters_def)
    then have "object_inv (s \<lparr> os_kernel := k' \<rparr>)"
      using inv lists_inv_kernel [OF L k'(2) ow] unfolding object_inv_def by auto
    then show ?thesis using False k' by (simp add: KThread_CancelWait_def)
  qed
qed

lemma object_step_inv: "object_step s e s' \<Longrightarrow> object_inv s \<Longrightarrow> object_inv s'"
proof (induction rule: object_step.induct)
  case (object_wait s t obs timeout r s')
  then show ?case using Wait_inv [OF object_wait.prems object_wait.hyps(1), of obs timeout] by simp
next
  case (event_signal e s r s')
  then show ?case using Signal_notifies [OF event_signal.prems, of "ev_readable_event e"] by (auto simp: KEvent_Signal_def split: if_splits)
next
  case (event_clear e s r s')
  then show ?case using Reset_inv [OF event_clear.prems, of "ev_readable_event e"]
    by (auto simp: KEvent_Clear_def KReadableEvent_Clear_def split: if_splits)
next
  case (readable_reset ob s r s')
  then show ?case using Reset_inv [OF readable_reset.prems, of ob] by simp
next
  case (object_cancel cur t r s s')
  then show ?case using CancelWait_inv [OF object_cancel.prems, of cur t r] by auto
next
  case (cancel_request cur t s s')
  then show ?case using CancelWait_inv [of "s \<lparr> os_wait_cancelled := (os_wait_cancelled s)(t := False) \<rparr>" cur t ResultCancelled]
    by (auto simp: WaitCancel_def object_inv_cancelled split: if_splits)
next
  case (elsewhere s e k')
  obtain L where L: "lists_inv s L" using elsewhere.prems by (auto simp: object_inv_def)
  note i = lists_invD(1) [OF L]
  have ow: "object_waiters k' = object_waiters (os_kernel s)"
    by (rule sync_step_waiters [OF elsewhere.hyps(1) i]) (use elsewhere.hyps(2) in \<open>simp add: object_waiters_def\<close>)
  then have "wait_queue k' u = Some ForKSynchronizationObjectWait \<longleftrightarrow> waiter s u" for u by (auto simp: object_waiters_def)
  then show ?case using elsewhere.prems lists_inv_kernel [OF L sync_step_inv [OF elsewhere.hyps(1) i] ow] unfolding object_inv_def by auto
qed

interpretation objects: invariant_system object_init object_step object_inv
  by unfold_locales (auto intro: object_init_inv object_step_inv)

section \<open>A sample\<close>

text \<open>No object is signaled; the thread 3 then waits for the objects 5 and 6, for the first of them twice.\<close>

definition object_sample :: object_state where
  "object_sample =
     \<lparr> os_kernel = sync_sample, os_objects = \<lambda>_. \<lparr> so_thread_list_head = None, so_thread_list_tail = None, so_is_signaled = False \<rparr>,
       os_nodes = \<lambda>_. \<lparr> ln_next = None, ln_thread = 0 \<rparr>, os_wait_objects = \<lambda>_. [], os_synced_index = \<lambda>_. 0, os_cancellable = \<lambda>_. False,
       os_wait_cancelled = \<lambda>_. False \<rparr>"

lemma object_sample_init: "object_init object_sample"
  using sync_init_inv [OF sync_sample_init] by (simp add: object_init_def object_sample_def sync_sample_fields)

lemma object_sample_waits:
  "\<exists>s. run object_step object_sample [Object_Wait 3 [5, 6, 5] (- 1)] s \<and> waiter s 3 \<and> os_wait_objects s 3 = [5, 6, 5] \<and> (\<forall>t. waiter s t \<longrightarrow> t = 3)"
proof -
  let ?w = "KSynchronizationObject_Wait 3 [5, 6, 5] (- 1) object_sample"
  have "object_inv object_sample" by (rule object_init_inv [OF object_sample_init])
  then obtain L where L: "lists_inv object_sample L" by (auto simp: object_inv_def)
  have q: "wait_queue (os_kernel object_sample) t = None" for t by (simp add: object_sample_def sync_sample_fields)
  have "first_signaled object_sample 0 [5, 6, 5] = None" by (simp add: object_sample_def)
  moreover have "\<not> IsTerminationRequested (thread_of (os_kernel object_sample) 3)" "\<not> os_wait_cancelled object_sample 3"
    by (simp_all add: object_sample_def sync_sample_fields)
  ultimately have "waiter (snd ?w) 3" "os_wait_objects (snd ?w) 3 = [5, 6, 5]" "u \<noteq> 3 \<Longrightarrow> wait_queue (os_kernel (snd ?w)) u = None" for u
    using begin_object_wait_ok [OF L q, where t = 3 and obs = "[5, 6, 5]"] q by (simp_all add: KSynchronizationObject_Wait_def Let_def del: link_nodes.simps)
  moreover have "object_step object_sample (Object_Wait 3 [5, 6, 5] (- 1)) (snd ?w)"
    by (rule object_step.object_wait [where r = "fst ?w"]) (simp_all add: object_sample_def sync_sample_fields)
  moreover from calculation have "t = 3" if "waiter (snd ?w) t" for t using that by (cases "t = 3") auto
  ultimately show ?thesis using run_one [of object_step] by blast
qed

section \<open>Properties\<close>

text \<open>
  C4. Whatever the threads have waited for and however their waits have ended, the list of each object is well formed, from its head along
  the links to its tail, and has exactly one node for each position at which a thread that waits has that object among the objects that it
  waits for: no node of a thread that has stopped waiting is left in any list, where it would be a dangling pointer. In such a state the
  cancellation of the wait of any thread returns, and that thread does not wait any more.
\<close>
theorem object_lists_hold_live_nodes:
  assumes "object_init s0" "run object_step s0 es s"
  shows "(\<exists>L. \<forall>ob. node_chain (next_node s) (so_thread_list_head (os_objects s ob)) (L ob) \<and> so_thread_list_tail (os_objects s ob) = last_of (L ob) \<and>
      distinct (L ob) \<and> (\<forall>n\<in>set (L ob). ln_thread (os_nodes s n) = fst n) \<and>
      set (L ob) = {(t, i). waiter s t \<and> i < length (os_wait_objects s t) \<and> os_wait_objects s t ! i = ob}) \<and>
    (\<exists>s'. KThread_CancelWait cur t r s = Some s' \<and> wait_queue (os_kernel s') t = None)"
proof -
  have inv: "object_inv s" by (rule objects.reachable_inv [OF assms])
  then obtain L where L: "lists_inv s L" by (auto simp: object_inv_def)
  note d = lists_repD [OF lists_invD(2) [OF L]]
  have "set (L ob) = {(t, i). waiter s t \<and> i < length (os_wait_objects s t) \<and> os_wait_objects s t ! i = ob}" for ob
    using lists_invD(3) [OF L, of _ ob] by auto
  then have "\<exists>L. \<forall>ob. node_chain (next_node s) (so_thread_list_head (os_objects s ob)) (L ob) \<and> so_thread_list_tail (os_objects s ob) = last_of (L ob) \<and>
      distinct (L ob) \<and> (\<forall>n\<in>set (L ob). ln_thread (os_nodes s n) = fst n) \<and>
      set (L ob) = {(t, i). waiter s t \<and> i < length (os_wait_objects s t) \<and> os_wait_objects s t ! i = ob}"
    using d(1-4) by (intro exI [of _ L]) blast
  then show ?thesis using CancelWait_inv [OF inv, of cur t r] by blast
qed

theorem object_lists_hold_live_nodes_witness:
  "\<exists>s ns. object_init object_sample \<and> run object_step object_sample [Object_Wait 3 [5, 6, 5] (- 1)] s \<and>
    node_chain (next_node s) (so_thread_list_head (os_objects s 5)) ns \<and> set ns = {(3, 0), (3, 2)} \<and>
    (\<exists>s'. KThread_CancelWait 3 3 ResultTimedOut s = Some s' \<and> wait_queue (os_kernel s') 3 = None)"
proof -
  obtain s where s: "run object_step object_sample [Object_Wait 3 [5, 6, 5] (- 1)] s" "waiter s 3" "os_wait_objects s 3 = [5, 6, 5]"
    "\<forall>t. waiter s t \<longrightarrow> t = 3" using object_sample_waits by blast
  note live = object_lists_hold_live_nodes [OF object_sample_init s(1), of 3 3 ResultTimedOut]
  obtain ns where L: "node_chain (next_node s) (so_thread_list_head (os_objects s 5)) ns"
      "set ns = {(t, i). waiter s t \<and> i < length (os_wait_objects s t) \<and> os_wait_objects s t ! i = 5}"
    by (rule exE [OF conjunct1 [OF live]], drule spec [of _ 5], elim conjE) simp
  have at: "i < 3 \<and> [5, 6, 5] ! i = (5 :: nat) \<longleftrightarrow> i = 0 \<or> i = 2" for i :: nat
  proof -
    have "i < 3 \<longleftrightarrow> i = 0 \<or> i = 1 \<or> i = 2" by linarith
    then show ?thesis by auto
  qed
  have "waiter s t \<and> i < length (os_wait_objects s t) \<and> os_wait_objects s t ! i = 5 \<longleftrightarrow> t = 3 \<and> (i = 0 \<or> i = 2)" for t i
  proof (cases "t = 3")
    case True
    have "length (os_wait_objects s 3) = 3" by (simp add: s(3))
    then show ?thesis unfolding True using s(2) at [of i, folded s(3)] by simp
  next
    case False
    then show ?thesis using s(4) by blast
  qed
  then have "set ns = {(3, 0), (3, 2)}" unfolding L(2) by auto
  then show ?thesis using s(1) L(1) conjunct2 [OF live] object_sample_init by blast
qed

text \<open>
  C19. No thread waits for an object that is signaled: whoever waits will be woken by a signal. The signal of an event returns success, sets
  its flag and wakes every thread that waits for it, and no other, even though the list of the threads changes under the loop that walks it:
  each of them is runnable, with the result success and the first index at which it named the event; the state of every other
  thread, its queue, its result and its index stay as they are.
\<close>
theorem event_signal_wakes_all_waiters:
  assumes "object_init s0" "run object_step s0 es s"
  shows "(\<forall>t. waiter s t \<longrightarrow> (\<forall>x\<in>set (os_wait_objects s t). \<not> so_is_signaled (os_objects s x))) \<and>
    (\<exists>s'. KReadableEvent_Signal ob s = Some (ResultSuccess, s') \<and> so_is_signaled (os_objects s' ob) \<and>
      (\<forall>t. if waiter s t \<and> ob \<in> set (os_wait_objects s t) then awake s' t ResultSuccess (index_of ob 0 (os_wait_objects s t)) else untouched s s' t))"
proof -
  have inv: "object_inv s" by (rule objects.reachable_inv [OF assms])
  then show ?thesis using Signal_notifies [OF inv, of ob] object_invD [OF inv] by blast
qed

theorem event_signal_wakes_all_waiters_witness:
  "\<exists>s s'. object_init object_sample \<and> run object_step object_sample [Object_Wait 3 [5, 6, 5] (- 1)] s \<and> waiter s 3 \<and>
    KReadableEvent_Signal 6 s = Some (ResultSuccess, s') \<and> awake s' 3 ResultSuccess 1 \<and> untouched s s' 2"
proof -
  obtain s where s: "run object_step object_sample [Object_Wait 3 [5, 6, 5] (- 1)] s" "waiter s 3" "os_wait_objects s 3 = [5, 6, 5]"
    "\<forall>t. waiter s t \<longrightarrow> t = 3" using object_sample_waits by blast
  from event_signal_wakes_all_waiters [OF object_sample_init s(1), of 6] obtain s' where s': "KReadableEvent_Signal 6 s = Some (ResultSuccess, s')"
    and who: "\<And>t. if waiter s t \<and> 6 \<in> set (os_wait_objects s t) then awake s' t ResultSuccess (index_of 6 0 (os_wait_objects s t)) else untouched s s' t"
    by blast
  have "awake s' 3 ResultSuccess 1" using who [of 3] s(2,3) by simp
  moreover have "\<not> waiter s 2" using s(4) by auto
  then have "untouched s s' 2" using who [of 2] by simp
  ultimately show ?thesis using s(1,2) s' object_sample_init by blast
qed

end
