(* ===== verification/BufferQueueCore.thy ===== *)
theory BufferQueueCore
  imports Prelude
begin

text \<open>
  The shared state of a buffer queue (\<^verbatim>\<open>core/hle/service/nvnflinger/buffer_queue_core.{h,cpp}\<close>,
  \<^verbatim>\<open>buffer_slot.h\<close>, \<^verbatim>\<open>buffer_item.h\<close>, \<^verbatim>\<open>status.h\<close>, \<^verbatim>\<open>ui/fence.h\<close>): 64 slots, each owned by
  the queue, the producer or the consumer, and the queue of the frames that wait for the consumer.

  A graphic buffer is a record whose \<open>gb_addr\<close> is the address of the object, so that pointer
  comparisons compare addresses; a null pointer is \<^const>\<open>None\<close>. Slot numbers and buffer counts are
  \<^verbatim>\<open>s32\<close> values and modelled as \<^typ>\<open>int\<close>; frame numbers are \<^verbatim>\<open>u64\<close> values on \<^typ>\<open>nat\<close>.
  Each operation runs under the mutex of the core and is one atomic step; the wait for a free slot
  releases the mutex and is split there.
\<close>

section \<open>Status values\<close>

text \<open>\<^verbatim>\<open>Status\<close> is a signed 32-bit enumeration whose values also serve as flags.\<close>

type_synonym Status = "32 word"

abbreviation Status_NoError :: Status where "Status_NoError \<equiv> 0"
abbreviation Status_StaleBufferSlot :: Status where "Status_StaleBufferSlot \<equiv> 1"
abbreviation Status_NoBufferAvailable :: Status where "Status_NoBufferAvailable \<equiv> 2"
abbreviation Status_PresentLater :: Status where "Status_PresentLater \<equiv> 3"
abbreviation Status_WouldBlock :: Status where "Status_WouldBlock \<equiv> - 11"
abbreviation Status_NoMemory :: Status where "Status_NoMemory \<equiv> - 12"
abbreviation Status_Busy :: Status where "Status_Busy \<equiv> - 16"
abbreviation Status_NoInit :: Status where "Status_NoInit \<equiv> - 19"
abbreviation Status_BadValue :: Status where "Status_BadValue \<equiv> - 22"
abbreviation Status_InvalidOperation :: Status where "Status_InvalidOperation \<equiv> - 38"
abbreviation Status_BufferNeedsReallocation :: Status where
  "Status_BufferNeedsReallocation \<equiv> 1"
abbreviation Status_ReleaseAllBuffers :: Status where "Status_ReleaseAllBuffers \<equiv> 2"

section \<open>Buffers, fences and slots\<close>

record GraphicBuffer =
  gb_addr :: nat
  gb_width :: u32
  gb_height :: u32
  gb_format :: u32
  gb_usage :: u32
  gb_handle :: u32

type_synonym buffer_ptr = "GraphicBuffer option"

definition same_buffer :: "buffer_ptr \<Rightarrow> buffer_ptr \<Rightarrow> bool" where
  "same_buffer p q \<longleftrightarrow> map_option gb_addr p = map_option gb_addr q"

record Fence =
  fence_num :: u32
  fence_list :: "(int \<times> u32) list"

definition NoFence :: Fence where
  "NoFence = \<lparr> fence_num = 0, fence_list = replicate 4 (-1, 0) \<rparr>"

definition Fence_default :: Fence where
  "Fence_default = \<lparr> fence_num = 0, fence_list = replicate 4 (0, 0) \<rparr>"

datatype BufferState = Free | Dequeued | Queued | Acquired

record BufferSlot =
  bs_graphic_buffer :: buffer_ptr
  bs_buffer_state :: BufferState
  bs_request_buffer_called :: bool
  bs_frame_number :: nat
  bs_fence :: Fence
  bs_acquire_called :: bool
  bs_needs_cleanup_on_release :: bool
  bs_attached_by_consumer :: bool
  bs_is_preallocated :: bool

definition BufferSlot_default :: BufferSlot where
  "BufferSlot_default =
     \<lparr> bs_graphic_buffer = None, bs_buffer_state = Free, bs_request_buffer_called = False,
       bs_frame_number = 0, bs_fence = Fence_default, bs_acquire_called = False,
       bs_needs_cleanup_on_release = False, bs_attached_by_consumer = False,
       bs_is_preallocated = False \<rparr>"

text \<open>A rectangle of \<^verbatim>\<open>s32\<close> coordinates.\<close>

record Rectangle =
  rect_left :: int
  rect_top :: int
  rect_right :: int
  rect_bottom :: int

definition Rectangle_Intersect :: "Rectangle \<Rightarrow> Rectangle \<Rightarrow> Rectangle" where
  "Rectangle_Intersect r with =
     \<lparr> rect_left = max (rect_left r) (rect_left with),
       rect_top = max (rect_top r) (rect_top with),
       rect_right = min (rect_right r) (rect_right with),
       rect_bottom = min (rect_bottom r) (rect_bottom with) \<rparr>"

definition INVALID_BUFFER_SLOT :: int where
  "INVALID_BUFFER_SLOT = -1"

record BufferItem =
  it_graphic_buffer :: buffer_ptr
  it_fence :: Fence
  it_crop :: Rectangle
  it_transform :: u32
  it_scaling_mode :: u32
  it_timestamp :: int
  it_is_auto_timestamp :: bool
  it_frame_number :: nat
  it_slot :: int
  it_is_droppable :: bool
  it_acquire_called :: bool
  it_transform_to_display_inverse :: bool
  it_swap_interval :: int

definition NUM_BUFFER_SLOTS :: int where
  "NUM_BUFFER_SLOTS = 64"

abbreviation UINT32_MAX :: nat where "UINT32_MAX \<equiv> 4294967295"

section \<open>The core\<close>

text \<open>
  Listeners are named by numbers. The producer's own fields that its operations use are part of the
  record: the sticky transform, the callback tickets and its wait event.
\<close>

record BufferQueueCore =
  bq_is_abandoned :: bool
  bq_consumer_controlled_by_app :: bool
  bq_consumer_listener :: "nat option"
  bq_consumer_usage_bit :: u32
  bq_connected_api :: int
  bq_connected_producer_listener :: "nat option"
  bq_slots :: "BufferSlot list"
  bq_queue :: "BufferItem list"
  bq_override_max_buffer_count :: int
  bq_dequeue_possible :: bool
  bq_use_async_buffer :: bool
  bq_dequeue_buffer_cannot_block :: bool
  bq_default_buffer_format :: u32
  bq_default_width :: u32
  bq_default_height :: u32
  bq_default_max_buffer_count :: int
  bq_max_acquired_buffer_count :: int
  bq_buffer_has_been_queued :: bool
  bq_frame_counter :: nat
  bq_transform_hint :: u32
  bq_sticky_transform :: u32
  bq_next_callback_ticket :: int
  bq_current_callback_ticket :: int
  bq_wait_event_signaled :: bool

definition BufferQueueCore_create :: BufferQueueCore where
  "BufferQueueCore_create =
     \<lparr> bq_is_abandoned = False, bq_consumer_controlled_by_app = False,
       bq_consumer_listener = None, bq_consumer_usage_bit = 0, bq_connected_api = 0,
       bq_connected_producer_listener = None,
       bq_slots = replicate (nat NUM_BUFFER_SLOTS) BufferSlot_default, bq_queue = [],
       bq_override_max_buffer_count = 0, bq_dequeue_possible = False, bq_use_async_buffer = False,
       bq_dequeue_buffer_cannot_block = False, bq_default_buffer_format = 1, bq_default_width = 1,
       bq_default_height = 1, bq_default_max_buffer_count = 2, bq_max_acquired_buffer_count = 0,
       bq_buffer_has_been_queued = False, bq_frame_counter = 0, bq_transform_hint = 0,
       bq_sticky_transform = 0, bq_next_callback_ticket = 0, bq_current_callback_ticket = 0,
       bq_wait_event_signaled = False \<rparr>"

abbreviation slot_at :: "BufferQueueCore \<Rightarrow> int \<Rightarrow> BufferSlot" where
  "slot_at c s \<equiv> bq_slots c ! nat s"

definition set_slot :: "int \<Rightarrow> (BufferSlot \<Rightarrow> BufferSlot) \<Rightarrow> BufferQueueCore \<Rightarrow> BufferQueueCore" where
  "set_slot s f c = c \<lparr> bq_slots := (bq_slots c) [nat s := f (slot_at c s)] \<rparr>"

definition slot_in_range :: "int \<Rightarrow> bool" where
  "slot_in_range s \<longleftrightarrow> \<not> (s < 0 \<or> NUM_BUFFER_SLOTS \<le> s)"

definition SignalDequeueCondition :: "BufferQueueCore \<Rightarrow> BufferQueueCore" where
  "SignalDequeueCondition c = c \<lparr> bq_dequeue_possible := True \<rparr>"

text \<open>The end of the wait: the condition holds, and is consumed.\<close>

definition WaitForDequeueCondition :: "BufferQueueCore \<Rightarrow> BufferQueueCore option" where
  "WaitForDequeueCondition c =
     (if bq_dequeue_possible c then Some (c \<lparr> bq_dequeue_possible := False \<rparr>) else None)"

definition GetMinUndequeuedBufferCountLocked :: "BufferQueueCore \<Rightarrow> bool \<Rightarrow> int" where
  "GetMinUndequeuedBufferCountLocked c async =
     (if \<not> bq_use_async_buffer c then 0
      else if bq_dequeue_buffer_cannot_block c \<or> async then bq_max_acquired_buffer_count c + 1
      else bq_max_acquired_buffer_count c)"

definition GetMinMaxBufferCountLocked :: "BufferQueueCore \<Rightarrow> bool \<Rightarrow> int" where
  "GetMinMaxBufferCountLocked c async = GetMinUndequeuedBufferCountLocked c async"

text \<open>The loop over the slots from \<open>max_buffer_count\<close> on; \<open>n\<close> is the number of slots left.\<close>

fun raise_max_buffer_count :: "BufferSlot list \<Rightarrow> nat \<Rightarrow> int \<Rightarrow> int" where
  "raise_max_buffer_count [] s m = m"
| "raise_max_buffer_count (b # bs) s m =
     raise_max_buffer_count bs (Suc s)
       (if bs_buffer_state b = Queued \<or> bs_buffer_state b = Dequeued then int s + 1 else m)"

definition GetMaxBufferCountLocked :: "BufferQueueCore \<Rightarrow> bool \<Rightarrow> int" where
  "GetMaxBufferCountLocked c async =
     (let min_buffer_count = GetMinMaxBufferCountLocked c async;
          max_buffer_count = max (bq_default_max_buffer_count c) min_buffer_count
      in if bq_override_max_buffer_count c \<noteq> 0 then bq_override_max_buffer_count c
         else raise_max_buffer_count (drop (nat max_buffer_count) (bq_slots c))
                (nat max_buffer_count) max_buffer_count)"

definition GetPreallocatedBufferCountLocked :: "BufferQueueCore \<Rightarrow> int" where
  "GetPreallocatedBufferCountLocked c = int (length (filter bs_is_preallocated (bq_slots c)))"

definition free_slot :: "BufferSlot \<Rightarrow> BufferSlot" where
  "free_slot b =
     b \<lparr> bs_graphic_buffer := None,
         bs_needs_cleanup_on_release :=
           (if bs_buffer_state b = Acquired then True else bs_needs_cleanup_on_release b),
         bs_buffer_state := Free,
         bs_frame_number := UINT32_MAX,
         bs_acquire_called := False,
         bs_fence := NoFence \<rparr>"

definition FreeBufferLocked :: "int \<Rightarrow> BufferQueueCore \<Rightarrow> BufferQueueCore" where
  "FreeBufferLocked s c = set_slot s free_slot c"

definition FreeAllBuffersLocked :: "BufferQueueCore \<Rightarrow> BufferQueueCore" where
  "FreeAllBuffersLocked c =
     fold FreeBufferLocked (map int [0..<nat NUM_BUFFER_SLOTS]) (c \<lparr> bq_buffer_has_been_queued := False \<rparr>)"

definition StillTracking :: "BufferQueueCore \<Rightarrow> BufferItem \<Rightarrow> bool" where
  "StillTracking c item \<longleftrightarrow>
     bs_graphic_buffer (slot_at c (it_slot item)) \<noteq> None \<and>
     same_buffer (it_graphic_buffer item) (bs_graphic_buffer (slot_at c (it_slot item)))"

section \<open>Lemmas on the slots\<close>

lemma set_slot_fields [simp]:
  "bq_is_abandoned (set_slot s f c) = bq_is_abandoned c"
  "bq_consumer_listener (set_slot s f c) = bq_consumer_listener c"
  "bq_connected_api (set_slot s f c) = bq_connected_api c"
  "bq_queue (set_slot s f c) = bq_queue c"
  "bq_override_max_buffer_count (set_slot s f c) = bq_override_max_buffer_count c"
  "bq_dequeue_possible (set_slot s f c) = bq_dequeue_possible c"
  "bq_max_acquired_buffer_count (set_slot s f c) = bq_max_acquired_buffer_count c"
  "bq_frame_counter (set_slot s f c) = bq_frame_counter c"
  "bq_dequeue_buffer_cannot_block (set_slot s f c) = bq_dequeue_buffer_cannot_block c"
  "bq_slots (set_slot s f c) = (bq_slots c) [nat s := f (slot_at c s)]"
  "length (bq_slots (set_slot s f c)) = length (bq_slots c)"
  by (simp_all add: set_slot_def)

lemma SignalDequeueCondition_fields [simp]:
  "bq_is_abandoned (SignalDequeueCondition c) = bq_is_abandoned c"
  "bq_slots (SignalDequeueCondition c) = bq_slots c"
  "bq_queue (SignalDequeueCondition c) = bq_queue c"
  "bq_frame_counter (SignalDequeueCondition c) = bq_frame_counter c"
  "bq_max_acquired_buffer_count (SignalDequeueCondition c) = bq_max_acquired_buffer_count c"
  "bq_dequeue_buffer_cannot_block (SignalDequeueCondition c) = bq_dequeue_buffer_cannot_block c"
  "bq_dequeue_possible (SignalDequeueCondition c)"
  by (simp_all add: SignalDequeueCondition_def)

lemma fold_free_slots:
  assumes "\<forall>s \<in> set ss. 0 \<le> s \<and> nat s < length (bq_slots c)" "distinct ss"
  shows "bq_slots (fold FreeBufferLocked ss c) =
    map (\<lambda>i. if int i \<in> set ss then free_slot (bq_slots c ! i) else bq_slots c ! i)
      [0..<length (bq_slots c)]"
  using assms
proof (induction ss arbitrary: c)
  case Nil
  then show ?case by (simp add: map_nth)
next
  case (Cons s ss)
  let ?c = "FreeBufferLocked s c"
  have len: "length (bq_slots ?c) = length (bq_slots c)" by (simp add: FreeBufferLocked_def)
  have s: "0 \<le> s" "nat s < length (bq_slots c)" "s \<notin> set ss" using Cons.prems by simp_all
  have "bq_slots (fold FreeBufferLocked ss ?c) =
      map (\<lambda>i. if int i \<in> set ss then free_slot (bq_slots ?c ! i) else bq_slots ?c ! i)
        [0..<length (bq_slots ?c)]"
    using Cons.prems len by (intro Cons.IH) auto
  also have "\<dots> = map (\<lambda>i. if int i \<in> set (s # ss) then free_slot (bq_slots c ! i)
      else bq_slots c ! i) [0..<length (bq_slots c)]"
    using s unfolding len by (auto simp: FreeBufferLocked_def nth_list_update)
  finally show ?case by simp
qed

lemma fold_free_fields:
  "bq_is_abandoned (fold FreeBufferLocked ss c) = bq_is_abandoned c"
  "bq_queue (fold FreeBufferLocked ss c) = bq_queue c"
  "bq_frame_counter (fold FreeBufferLocked ss c) = bq_frame_counter c"
  "bq_max_acquired_buffer_count (fold FreeBufferLocked ss c) = bq_max_acquired_buffer_count c"
  "bq_dequeue_buffer_cannot_block (fold FreeBufferLocked ss c) = bq_dequeue_buffer_cannot_block c"
  "bq_dequeue_possible (fold FreeBufferLocked ss c) = bq_dequeue_possible c"
  by (induction ss arbitrary: c) (simp_all add: FreeBufferLocked_def)

lemma FreeAllBuffersLocked_slots:
  assumes "length (bq_slots c) = nat NUM_BUFFER_SLOTS"
  shows "bq_slots (FreeAllBuffersLocked c) = map free_slot (bq_slots c)"
proof -
  have "bq_slots (FreeAllBuffersLocked c) =
      map (\<lambda>i. if int i \<in> set (map int [0..<nat NUM_BUFFER_SLOTS]) then free_slot (bq_slots c ! i)
               else bq_slots c ! i) [0..<length (bq_slots c)]"
    unfolding FreeAllBuffersLocked_def using assms
    by (subst fold_free_slots) (auto simp: NUM_BUFFER_SLOTS_def distinct_map)
  also have "\<dots> = map (\<lambda>i. free_slot (bq_slots c ! i)) [0..<length (bq_slots c)]"
    using assms by auto
  also have "\<dots> = map free_slot (bq_slots c)"
    by (simp add: map_nth flip: map_map [unfolded comp_def])
  finally show ?thesis .
qed

lemma FreeAllBuffersLocked_fields [simp]:
  "bq_is_abandoned (FreeAllBuffersLocked c) = bq_is_abandoned c"
  "bq_queue (FreeAllBuffersLocked c) = bq_queue c"
  "bq_frame_counter (FreeAllBuffersLocked c) = bq_frame_counter c"
  "bq_max_acquired_buffer_count (FreeAllBuffersLocked c) = bq_max_acquired_buffer_count c"
  "bq_dequeue_buffer_cannot_block (FreeAllBuffersLocked c) = bq_dequeue_buffer_cannot_block c"
  "bq_dequeue_possible (FreeAllBuffersLocked c) = bq_dequeue_possible c"
  by (simp_all add: FreeAllBuffersLocked_def fold_free_fields)

lemma free_slot_simps [simp]:
  "bs_buffer_state (free_slot b) = Free" "bs_graphic_buffer (free_slot b) = None"
  "bs_frame_number (free_slot b) = UINT32_MAX"
  by (simp_all add: free_slot_def)

end
