(* ===== verification/BufferQueueProducer.thy ===== *)
theory BufferQueueProducer
  imports BufferQueueCore
begin

text \<open>
  The producer side of a buffer queue
  (\<^verbatim>\<open>core/hle/service/nvnflinger/buffer_queue_producer.{h,cpp}\<close>): the application dequeues free
  buffers, requests them, draws into them and queues them for the consumer.

  Output parameters are part of the results. \<^verbatim>\<open>WaitWhileAllocatingLocked\<close> has no effect, since nothing
  sets \<^verbatim>\<open>is_allocating\<close>. Calls of listeners made without the lock are returned as a list. A null
  dereference makes the result \<^const>\<open>None\<close>.
\<close>

section \<open>Listener calls\<close>

datatype listener_call =
    OnBuffersReleased nat
  | OnFrameAvailable nat BufferItem
  | OnFrameReplaced nat BufferItem
  | OnBufferReleased nat

definition notify :: "(nat \<Rightarrow> listener_call) \<Rightarrow> nat option \<Rightarrow> listener_call list" where
  "notify f l = (case l of None \<Rightarrow> [] | Some n \<Rightarrow> [f n])"

definition signal_wait_event :: "BufferQueueCore \<Rightarrow> BufferQueueCore" where
  "signal_wait_event c = c \<lparr> bq_wait_event_signaled := True \<rparr>"

section \<open>RequestBuffer and SetBufferCount\<close>

definition RequestBuffer ::
    "int \<Rightarrow> BufferQueueCore \<Rightarrow> Status \<times> buffer_ptr \<times> BufferQueueCore" where
  "RequestBuffer s c =
     (if bq_is_abandoned c then (Status_NoInit, None, c)
      else if \<not> slot_in_range s then (Status_BadValue, None, c)
      else if bs_buffer_state (slot_at c s) \<noteq> Dequeued then (Status_BadValue, None, c)
      else (Status_NoError, bs_graphic_buffer (slot_at c s),
            set_slot s (\<lambda>b. b \<lparr> bs_request_buffer_called := True \<rparr>) c))"

definition SetBufferCount ::
    "int \<Rightarrow> BufferQueueCore \<Rightarrow> Status \<times> BufferQueueCore \<times> listener_call list" where
  "SetBufferCount buffer_count c =
     (if bq_is_abandoned c then (Status_NoInit, c, [])
      else if NUM_BUFFER_SLOTS < buffer_count then (Status_BadValue, c, [])
      else if \<exists>b \<in> set (bq_slots c). bs_buffer_state b = Dequeued then (Status_BadValue, c, [])
      else if buffer_count = 0 then
        (Status_NoError, SignalDequeueCondition (c \<lparr> bq_override_max_buffer_count := 0 \<rparr>), [])
      else if buffer_count < GetMinMaxBufferCountLocked c False then (Status_BadValue, c, [])
      else
        (let c1 = (if GetPreallocatedBufferCountLocked c \<le> 0 then FreeAllBuffersLocked c else c);
             c2 = signal_wait_event
                    (SignalDequeueCondition (c1 \<lparr> bq_override_max_buffer_count := buffer_count \<rparr>))
         in (Status_NoError, c2, notify OnBuffersReleased (bq_consumer_listener c2))))"

section \<open>Waiting for a free slot\<close>

text \<open>The buffers in free slots beyond the maximal count are released.\<close>

definition free_excess :: "Status \<times> BufferQueueCore \<Rightarrow> int \<Rightarrow> Status \<times> BufferQueueCore" where
  "free_excess r s =
     (let (flags, c) = r; b = slot_at c s
      in if bs_graphic_buffer b \<noteq> None \<and> bs_buffer_state b = Free \<and> \<not> bs_is_preallocated b
         then (flags OR Status_ReleaseAllBuffers, FreeBufferLocked s c)
         else (flags, c))"

definition free_excess_slots :: "int \<Rightarrow> Status \<Rightarrow> BufferQueueCore \<Rightarrow> Status \<times> BufferQueueCore" where
  "free_excess_slots max_buffer_count flags c =
     foldl free_excess (flags, c) (map int [nat max_buffer_count..<nat NUM_BUFFER_SLOTS])"

text \<open>The scan of the slots: the free slot of the least frame number, and the counts.\<close>

record slot_scan =
  sc_found :: int
  sc_dequeued :: int
  sc_acquired :: int

definition scan_slot :: "BufferSlot list \<Rightarrow> slot_scan \<Rightarrow> int \<Rightarrow> slot_scan" where
  "scan_slot bs r s =
     (case bs_buffer_state (bs ! nat s) of
        Dequeued \<Rightarrow> r \<lparr> sc_dequeued := sc_dequeued r + 1 \<rparr>
      | Acquired \<Rightarrow> r \<lparr> sc_acquired := sc_acquired r + 1 \<rparr>
      | Free \<Rightarrow>
          (if sc_found r = INVALID_BUFFER_SLOT \<or>
              bs_frame_number (bs ! nat s) < bs_frame_number (bs ! nat (sc_found r))
           then r \<lparr> sc_found := s \<rparr> else r)
      | Queued \<Rightarrow> r)"

definition scan_slots :: "BufferSlot list \<Rightarrow> int \<Rightarrow> slot_scan" where
  "scan_slots bs max_buffer_count =
     foldl (scan_slot bs)
       \<lparr> sc_found = INVALID_BUFFER_SLOT, sc_dequeued = 0, sc_acquired = 0 \<rparr>
       (map int [0..<nat max_buffer_count])"

datatype wait_outcome = Found int | Failed Status | Wait

text \<open>
  One turn of the loop of \<^verbatim>\<open>WaitForFreeSlotThenRelock\<close>; \<^const>\<open>Wait\<close> releases the mutex until the
  dequeue condition is signalled, and then \<open>WaitForDequeueCondition\<close> and a new turn follow.
\<close>

definition WaitForFreeSlot_turn ::
    "bool \<Rightarrow> Status \<Rightarrow> BufferQueueCore \<Rightarrow> wait_outcome \<times> Status \<times> BufferQueueCore" where
  "WaitForFreeSlot_turn async return_flags c =
     (if bq_is_abandoned c then (Failed Status_NoInit, return_flags, c)
      else
        (let max_buffer_count = GetMaxBufferCountLocked c async
         in if async \<and> bq_override_max_buffer_count c \<noteq> 0 \<and>
               bq_override_max_buffer_count c < max_buffer_count
            then (Failed Status_BadValue, return_flags, c)
            else
              (let (flags, c1) = free_excess_slots max_buffer_count return_flags c;
                   scan = scan_slots (bq_slots c1) max_buffer_count;
                   new_undequeued_count = max_buffer_count - (sc_dequeued scan + 1);
                   too_many_buffers = max_buffer_count < int (length (bq_queue c1))
               in if bq_override_max_buffer_count c1 = 0 \<and> sc_dequeued scan \<noteq> 0
                  then (Failed Status_InvalidOperation, flags, c1)
                  else if bq_buffer_has_been_queued c1 \<and>
                          new_undequeued_count < GetMinUndequeuedBufferCountLocked c1 async
                  then (Failed Status_InvalidOperation, flags, c1)
                  else if sc_found scan = INVALID_BUFFER_SLOT \<or> too_many_buffers
                  then (if bq_dequeue_buffer_cannot_block c1 \<and>
                           sc_acquired scan \<le> bq_max_acquired_buffer_count c1
                        then (Failed Status_WouldBlock, flags, c1)
                        else (Wait, flags, c1))
                  else (Found (sc_found scan), flags, c1))))"

section \<open>DequeueBuffer\<close>

record dequeue_args =
  da_async :: bool
  da_width :: u32
  da_height :: u32
  da_format :: u32
  da_usage :: u32

definition needs_reallocation :: "buffer_ptr \<Rightarrow> u32 \<Rightarrow> u32 \<Rightarrow> u32 \<Rightarrow> u32 \<Rightarrow> bool" where
  "needs_reallocation p width height format usage =
     (case p of
        None \<Rightarrow> True
      | Some b \<Rightarrow> gb_width b \<noteq> width \<or> gb_height b \<noteq> height \<or> gb_format b \<noteq> format \<or>
                  gb_usage b AND usage \<noteq> usage)"

text \<open>
  The part of \<^verbatim>\<open>DequeueBuffer\<close> under the mutex after a slot was found. The result has the slot, the
  flags so far, the fence, whether the consumer attached the buffer, and the properties of the buffer
  to allocate in the second part. The format and usage of the arguments are complete here.
\<close>

record dequeue_result =
  dr_slot :: int
  dr_flags :: Status
  dr_fence :: Fence
  dr_attached_by_consumer :: bool
  dr_width :: u32
  dr_height :: u32
  dr_format :: u32
  dr_usage :: u32

definition DequeueBuffer_take ::
    "dequeue_args \<Rightarrow> int \<Rightarrow> Status \<Rightarrow> BufferQueueCore \<Rightarrow> dequeue_result \<times> BufferQueueCore" where
  "DequeueBuffer_take a found flags c =
     (let format = da_format a;
          usage = da_usage a;
          use_default_size = (da_width a = 0 \<and> da_height a = 0);
          width = (if use_default_size then bq_default_width c else da_width a);
          height = (if use_default_size then bq_default_height c else da_height a);
          attached = bs_attached_by_consumer (slot_at c found);
          c1 = set_slot found (\<lambda>b. b \<lparr> bs_buffer_state := Dequeued \<rparr>) c;
          realloc = needs_reallocation (bs_graphic_buffer (slot_at c1 found)) width height format usage;
          c2 = (if realloc then
                  set_slot found
                    (\<lambda>b. b \<lparr> bs_acquire_called := False, bs_graphic_buffer := None,
                             bs_request_buffer_called := False, bs_fence := NoFence \<rparr>) c1
                else c1);
          flags' = (if realloc then flags OR Status_BufferNeedsReallocation else flags)
      in (\<lparr> dr_slot = found, dr_flags = flags', dr_fence = bs_fence (slot_at c2 found),
            dr_attached_by_consumer = attached, dr_width = width, dr_height = height,
            dr_format = format, dr_usage = usage \<rparr>,
          set_slot found (\<lambda>b. b \<lparr> bs_fence := NoFence \<rparr>) c2))"

datatype dequeue_outcome =
    DequeueReturns Status
  | DequeueWaits Status
  | DequeueAllocates dequeue_result

definition DequeueBuffer_turn ::
    "dequeue_args \<Rightarrow> Status \<Rightarrow> BufferQueueCore \<Rightarrow> dequeue_outcome \<times> BufferQueueCore" where
  "DequeueBuffer_turn a flags c =
     (case WaitForFreeSlot_turn (da_async a) flags c of
        (Failed st, _, c1) \<Rightarrow> (DequeueReturns st, c1)
      | (Wait, flags', c1) \<Rightarrow> (DequeueWaits flags', c1)
      | (Found found, flags', c1) \<Rightarrow>
          (if found = INVALID_BUFFER_SLOT then (DequeueReturns Status_Busy, c1)
           else (case DequeueBuffer_take a found flags' c1 of
                   (r, c2) \<Rightarrow> (DequeueAllocates r, c2))))"

text \<open>The format and the usage are completed before the first turn.\<close>

definition complete_args :: "BufferQueueCore \<Rightarrow> dequeue_args \<Rightarrow> dequeue_args" where
  "complete_args c a =
     a \<lparr> da_format := (if da_format a = 0 then bq_default_buffer_format c else da_format a),
         da_usage := da_usage a OR bq_consumer_usage_bit c \<rparr>"

definition DequeueBuffer_start ::
    "dequeue_args \<Rightarrow> BufferQueueCore \<Rightarrow> dequeue_outcome \<times> BufferQueueCore" where
  "DequeueBuffer_start a c =
     (if da_width a \<noteq> 0 \<and> da_height a = 0 \<or> da_width a = 0 \<and> da_height a \<noteq> 0
      then (DequeueReturns Status_BadValue, c)
      else DequeueBuffer_turn (complete_args c a) Status_NoError c)"

definition DequeueBuffer_resume ::
    "dequeue_args \<Rightarrow> Status \<Rightarrow> BufferQueueCore \<Rightarrow> (dequeue_outcome \<times> BufferQueueCore) option" where
  "DequeueBuffer_resume a flags c =
     map_option (DequeueBuffer_turn a flags) (WaitForDequeueCondition c)"

text \<open>
  The second part: allocation without the mutex, at the address \<open>addr\<close>, and the update of the
  slot under it.
\<close>

definition DequeueBuffer_finish ::
    "nat \<Rightarrow> dequeue_result \<Rightarrow> BufferQueueCore \<Rightarrow> Status \<times> BufferQueueCore" where
  "DequeueBuffer_finish addr r c =
     (let final = (\<lambda>c'. (if dr_attached_by_consumer r
                         then dr_flags r OR Status_BufferNeedsReallocation else dr_flags r, c'))
      in if dr_flags r AND Status_BufferNeedsReallocation \<noteq> 0 then
           (if bq_is_abandoned c then (Status_NoInit, c)
            else final
              (set_slot (dr_slot r)
                 (\<lambda>b. b \<lparr> bs_frame_number := UINT32_MAX,
                          bs_graphic_buffer :=
                            Some \<lparr> gb_addr = addr, gb_width = dr_width r, gb_height = dr_height r,
                                   gb_format = dr_format r, gb_usage = dr_usage r,
                                   gb_handle = 0 \<rparr> \<rparr>) c))
         else final c)"

section \<open>Detaching and attaching\<close>

definition DetachBuffer :: "int \<Rightarrow> BufferQueueCore \<Rightarrow> Status \<times> BufferQueueCore" where
  "DetachBuffer s c =
     (if bq_is_abandoned c then (Status_NoInit, c)
      else if \<not> slot_in_range s then (Status_BadValue, c)
      else if bs_buffer_state (slot_at c s) \<noteq> Dequeued then (Status_BadValue, c)
      else if \<not> bs_request_buffer_called (slot_at c s) then (Status_BadValue, c)
      else (Status_NoError, SignalDequeueCondition (FreeBufferLocked s c)))"

definition oldest_free_buffer :: "BufferSlot list \<Rightarrow> int \<Rightarrow> int \<Rightarrow> int" where
  "oldest_free_buffer bs found s =
     (if bs_buffer_state (bs ! nat s) = Free \<and> bs_graphic_buffer (bs ! nat s) \<noteq> None \<and>
         (found = INVALID_BUFFER_SLOT \<or>
          bs_frame_number (bs ! nat s) < bs_frame_number (bs ! nat found))
      then s else found)"

definition DetachNextBuffer ::
    "BufferQueueCore \<Rightarrow> Status \<times> buffer_ptr \<times> Fence \<times> BufferQueueCore" where
  "DetachNextBuffer c =
     (if bq_is_abandoned c then (Status_NoInit, None, Fence_default, c)
      else
        (let found = foldl (oldest_free_buffer (bq_slots c)) INVALID_BUFFER_SLOT
                       (map int [0..<nat NUM_BUFFER_SLOTS])
         in if found = INVALID_BUFFER_SLOT then (Status_NoMemory, None, Fence_default, c)
            else (Status_NoError, bs_graphic_buffer (slot_at c found), bs_fence (slot_at c found),
                  FreeBufferLocked found c)))"

datatype attach_outcome = AttachReturns Status int | AttachWaits Status

definition AttachBuffer_turn ::
    "buffer_ptr \<Rightarrow> Status \<Rightarrow> BufferQueueCore \<Rightarrow> attach_outcome \<times> BufferQueueCore" where
  "AttachBuffer_turn buffer flags c =
     (if buffer = None then (AttachReturns Status_BadValue 0, c)
      else
        (case WaitForFreeSlot_turn False flags c of
           (Failed st, _, c1) \<Rightarrow> (AttachReturns st 0, c1)
         | (Wait, flags', c1) \<Rightarrow> (AttachWaits flags', c1)
         | (Found found, flags', c1) \<Rightarrow>
             (if found = INVALID_BUFFER_SLOT then (AttachReturns Status_Busy 0, c1)
              else (AttachReturns flags' found,
                    set_slot found
                      (\<lambda>b. b \<lparr> bs_graphic_buffer := buffer, bs_buffer_state := Dequeued,
                               bs_fence := NoFence, bs_request_buffer_called := True \<rparr>) c1))))"

section \<open>QueueBuffer\<close>

record QueueBufferInput =
  qi_timestamp :: int
  qi_is_auto_timestamp :: int
  qi_crop :: Rectangle
  qi_scaling_mode :: int
  qi_transform :: u32
  qi_sticky_transform :: u32
  qi_async :: int
  qi_swap_interval :: int
  qi_fence :: Fence

record QueueBufferOutput =
  qo_width :: u32
  qo_height :: u32
  qo_transform_hint :: u32
  qo_num_pending_buffers :: u32

definition QueueBufferOutput_default :: QueueBufferOutput where
  "QueueBufferOutput_default =
     \<lparr> qo_width = 0, qo_height = 0, qo_transform_hint = 0, qo_num_pending_buffers = 0 \<rparr>"

definition core_output :: "BufferQueueCore \<Rightarrow> QueueBufferOutput" where
  "core_output c =
     \<lparr> qo_width = bq_default_width c, qo_height = bq_default_height c,
       qo_transform_hint = bq_transform_hint c,
       qo_num_pending_buffers = of_nat (length (bq_queue c)) \<rparr>"

abbreviation InverseDisplay :: u32 where "InverseDisplay \<equiv> 0x08"

definition valid_scaling_mode :: "int \<Rightarrow> bool" where
  "valid_scaling_mode m \<longleftrightarrow> m \<in> {0, 1, 2, 3, 4}"

definition buffer_rect :: "GraphicBuffer \<Rightarrow> Rectangle" where
  "buffer_rect b =
     \<lparr> rect_left = 0, rect_top = 0, rect_right = sint (gb_width b), rect_bottom = sint (gb_height b) \<rparr>"

text \<open>The frame that is queued, from the slot after its update.\<close>

definition queued_item :: "int \<Rightarrow> QueueBufferInput \<Rightarrow> BufferQueueCore \<Rightarrow> BufferItem" where
  "queued_item s i c =
     \<lparr> it_graphic_buffer = bs_graphic_buffer (slot_at c s),
       it_fence = qi_fence i,
       it_crop = qi_crop i,
       it_transform = qi_transform i AND NOT InverseDisplay,
       it_scaling_mode = word_of_int (qi_scaling_mode i),
       it_timestamp = qi_timestamp i,
       it_is_auto_timestamp = (qi_is_auto_timestamp i \<noteq> 0),
       it_frame_number = bq_frame_counter c,
       it_slot = s,
       it_is_droppable = (bq_dequeue_buffer_cannot_block c \<or> qi_async i \<noteq> 0),
       it_acquire_called = bs_acquire_called (slot_at c s),
       it_transform_to_display_inverse = (qi_transform i AND InverseDisplay \<noteq> 0),
       it_swap_interval = qi_swap_interval i \<rparr>"

definition push_item ::
    "BufferItem \<Rightarrow> BufferQueueCore \<Rightarrow> (nat \<Rightarrow> BufferItem \<Rightarrow> listener_call) \<times> BufferQueueCore" where
  "push_item item c =
     (case bq_queue c of
        [] \<Rightarrow> (OnFrameAvailable, c \<lparr> bq_queue := [item] \<rparr>)
      | front # rest \<Rightarrow>
          (if it_is_droppable front then
             (let c1 = (if StillTracking c front then
                          set_slot (it_slot front)
                            (\<lambda>b. b \<lparr> bs_buffer_state := Free, bs_frame_number := 0 \<rparr>) c
                        else c)
              in (OnFrameReplaced, c1 \<lparr> bq_queue := item # rest \<rparr>))
           else (OnFrameAvailable, c \<lparr> bq_queue := bq_queue c @ [item] \<rparr>)))"

text \<open>
  The critical section of \<^verbatim>\<open>QueueBuffer\<close>. On success it yields the ticket of the callback and the
  call to make; the buffer and the slot number are removed from the item that is passed on.
\<close>

definition QueueBuffer_locked ::
    "int \<Rightarrow> QueueBufferInput \<Rightarrow> BufferQueueCore \<Rightarrow>
       (Status \<times> QueueBufferOutput \<times> BufferQueueCore \<times> (int \<times> listener_call list) option) option" where
  "QueueBuffer_locked s i c =
     (let async = (qi_async i \<noteq> 0);
          max_buffer_count = GetMaxBufferCountLocked c async;
          fail = (\<lambda>st. Some (st, QueueBufferOutput_default, c, None))
      in if \<not> valid_scaling_mode (qi_scaling_mode i) then fail Status_BadValue
         else if bq_is_abandoned c then fail Status_NoInit
         else if async \<and> bq_override_max_buffer_count c \<noteq> 0 \<and>
                 bq_override_max_buffer_count c < max_buffer_count then fail Status_BadValue
         else if s < 0 \<or> max_buffer_count \<le> s then fail Status_BadValue
         else if bs_buffer_state (slot_at c s) \<noteq> Dequeued then fail Status_BadValue
         else if \<not> bs_request_buffer_called (slot_at c s) then fail Status_BadValue
         else
           (case bs_graphic_buffer (slot_at c s) of
              None \<Rightarrow> None
            | Some gb \<Rightarrow>
                (if Rectangle_Intersect (qi_crop i) (buffer_rect gb) \<noteq> qi_crop i
                 then fail Status_BadValue
                 else
                   (let counter = u64_add (bq_frame_counter c) 1;
                        c1 = (set_slot s
                                (\<lambda>b. b \<lparr> bs_fence := qi_fence i, bs_buffer_state := Queued,
                                         bs_frame_number := counter \<rparr>) c)
                               \<lparr> bq_frame_counter := counter \<rparr>;
                        item = queued_item s i c1;
                        (call, c2) = push_item item
                                       (c1 \<lparr> bq_sticky_transform := qi_sticky_transform i \<rparr>);
                        c3 = SignalDequeueCondition (c2 \<lparr> bq_buffer_has_been_queued := True \<rparr>);
                        sent = item \<lparr> it_graphic_buffer := None,
                                      it_slot := INVALID_BUFFER_SLOT \<rparr>;
                        ticket = bq_next_callback_ticket c3
                    in Some (Status_NoError, core_output c3,
                             c3 \<lparr> bq_next_callback_ticket := ticket + 1 \<rparr>,
                             Some (ticket, notify (\<lambda>n. call n sent) (bq_consumer_listener c3)))))))"

text \<open>
  The callback section: it waits until its ticket is the current one, and then makes the call.
\<close>

definition QueueBuffer_callback ::
    "int \<times> listener_call list \<Rightarrow> BufferQueueCore \<Rightarrow> (listener_call list \<times> BufferQueueCore) option" where
  "QueueBuffer_callback t c =
     (if fst t \<noteq> bq_current_callback_ticket c then None
      else Some (snd t, c \<lparr> bq_current_callback_ticket := bq_current_callback_ticket c + 1 \<rparr>))"

section \<open>CancelBuffer, Query, Connect and Disconnect\<close>

definition CancelBuffer :: "int \<Rightarrow> Fence \<Rightarrow> BufferQueueCore \<Rightarrow> BufferQueueCore" where
  "CancelBuffer s fence c =
     (if bq_is_abandoned c then c
      else if \<not> slot_in_range s then c
      else if bs_buffer_state (slot_at c s) \<noteq> Dequeued then c
      else signal_wait_event
             (SignalDequeueCondition
                (set_slot s (\<lambda>b. b \<lparr> bs_buffer_state := Free, bs_frame_number := 0,
                                     bs_fence := fence \<rparr>) c)))"

definition Query :: "int \<Rightarrow> BufferQueueCore \<Rightarrow> Status \<times> u32 option" where
  "Query what c =
     (if bq_is_abandoned c then (Status_NoInit, None)
      else if what = 0 then (Status_NoError, Some (bq_default_width c))
      else if what = 1 then (Status_NoError, Some (bq_default_height c))
      else if what = 2 then (Status_NoError, Some (bq_default_buffer_format c))
      else if what = 3 then
        (Status_NoError, Some (word_of_int (GetMinUndequeuedBufferCountLocked c False)))
      else if what = 11 then (Status_NoError, Some (bq_sticky_transform c))
      else if what = 9 then (Status_NoError, Some (if 1 < length (bq_queue c) then 1 else 0))
      else if what = 10 then (Status_NoError, Some (bq_consumer_usage_bit c))
      else (Status_BadValue, None))"

definition known_api :: "int \<Rightarrow> bool" where
  "known_api api \<longleftrightarrow> api \<in> {1, 2, 3, 4}"

definition Producer_Connect ::
    "nat option \<Rightarrow> int \<Rightarrow> bool \<Rightarrow> BufferQueueCore \<Rightarrow>
       Status \<times> QueueBufferOutput \<times> BufferQueueCore" where
  "Producer_Connect listener api producer_controlled_by_app c =
     (if bq_is_abandoned c then (Status_NoInit, QueueBufferOutput_default, c)
      else if bq_consumer_listener c = None then (Status_NoInit, QueueBufferOutput_default, c)
      else if bq_connected_api c \<noteq> 0 then (Status_BadValue, QueueBufferOutput_default, c)
      else
        (let c1 = (if known_api api
                   then c \<lparr> bq_connected_api := api, bq_connected_producer_listener := listener \<rparr>
                   else c)
         in (if known_api api then Status_NoError else Status_BadValue,
             if known_api api then core_output c else QueueBufferOutput_default,
             c1 \<lparr> bq_buffer_has_been_queued := False,
                  bq_dequeue_buffer_cannot_block :=
                    bq_consumer_controlled_by_app c1 \<and> producer_controlled_by_app \<rparr>)))"

definition Producer_Disconnect ::
    "int \<Rightarrow> BufferQueueCore \<Rightarrow> Status \<times> BufferQueueCore \<times> listener_call list" where
  "Producer_Disconnect api c =
     (if bq_is_abandoned c then (Status_NoError, c, [])
      else if \<not> known_api api then (Status_BadValue, c, [])
      else if bq_connected_api c = api then
        (let c1 = FreeAllBuffersLocked (c \<lparr> bq_queue := [] \<rparr>);
             c2 = signal_wait_event
                    (SignalDequeueCondition
                       (c1 \<lparr> bq_connected_producer_listener := None, bq_connected_api := 0 \<rparr>))
         in (Status_NoError, c2, notify OnBuffersReleased (bq_consumer_listener c2)))
      else (Status_BadValue, c, []))"

text \<open>
  \<open>addr\<close> is the address of the new \<^verbatim>\<open>GraphicBuffer\<close>; it copies the fields of the buffer of the
  caller, or has default fields when the caller passes a null pointer.
\<close>

definition SetPreallocatedBuffer ::
    "nat \<Rightarrow> int \<Rightarrow> GraphicBuffer option \<Rightarrow> BufferQueueCore \<Rightarrow> Status \<times> BufferQueueCore" where
  "SetPreallocatedBuffer addr s buffer c =
     (if \<not> slot_in_range s then (Status_BadValue, c)
      else
        (let gb = (case buffer of
                     Some b \<Rightarrow> b \<lparr> gb_addr := addr \<rparr>
                   | None \<Rightarrow> \<lparr> gb_addr = addr, gb_width = 0, gb_height = 0, gb_format = 0,
                              gb_usage = 0, gb_handle = 0 \<rparr>);
             c1 = set_slot s
                    (\<lambda>_. BufferSlot_default \<lparr> bs_fence := NoFence, bs_graphic_buffer := Some gb,
                                             bs_frame_number := 0 \<rparr>) c;
             c2 = (case buffer of
                     None \<Rightarrow> c1
                   | Some b \<Rightarrow>
                       (let c' = set_slot s (\<lambda>x. x \<lparr> bs_is_preallocated := True \<rparr>) c1
                        in c' \<lparr> bq_override_max_buffer_count := GetPreallocatedBufferCountLocked c',
                                bq_default_width := gb_width b, bq_default_height := gb_height b,
                                bq_default_buffer_format := gb_format b \<rparr>))
         in (Status_NoError, signal_wait_event (SignalDequeueCondition c2))))"

end
