(* ===== verification/BufferQueueConsumer.thy ===== *)
theory BufferQueueConsumer
  imports BufferQueueProducer
begin

text \<open>
  The consumer side of a buffer queue: \<^verbatim>\<open>buffer_queue_consumer.cpp\<close>, and the classes that use it,
  \<^verbatim>\<open>consumer_base.cpp\<close> and \<^verbatim>\<open>buffer_item_consumer.cpp\<close>, all under
  \<^verbatim>\<open>core/hle/service/nvnflinger\<close>. The consumer acquires the front frame of the queue, shows it, and
  releases its slot. The base class keeps a copy of the buffer of each slot, since the queue does not
  send again a buffer that the consumer has seen.
\<close>

section \<open>AcquireBuffer\<close>

abbreviation MAX_REASONABLE_NSEC :: int where "MAX_REASONABLE_NSEC \<equiv> 1000000000"

text \<open>
  The loop that drops the front frame while the next one is timely. Times are \<^verbatim>\<open>s64\<close>; the two sums with
  \<open>MAX_REASONABLE_NSEC\<close> are reduced to two's complement.
\<close>

function drop_late :: "int \<Rightarrow> BufferQueueCore \<Rightarrow> BufferQueueCore" where
  "drop_late expected_present c =
     (case bq_queue c of
        front # next_item # rest \<Rightarrow>
          (if \<not> it_is_auto_timestamp front \<and>
              \<not> (it_timestamp next_item < wrap_s64 (expected_present - MAX_REASONABLE_NSEC) \<or>
                 expected_present < it_timestamp next_item)
           then
             (let c1 = (if StillTracking c front
                        then set_slot (it_slot front) (\<lambda>b. b \<lparr> bs_buffer_state := Free \<rparr>) c
                        else c)
              in drop_late expected_present (c1 \<lparr> bq_queue := next_item # rest \<rparr>))
           else c)
      | _ \<Rightarrow> c)"
  by pat_completeness auto
termination
  by (relation "measure (\<lambda>(e, c). length (bq_queue c))") auto

declare drop_late.simps [simp del]

definition num_acquired :: "BufferQueueCore \<Rightarrow> nat" where
  "num_acquired c = length (filter (\<lambda>b. bs_buffer_state b = Acquired) (bq_slots c))"

definition take_front :: "BufferQueueCore \<Rightarrow> BufferItem \<times> BufferQueueCore" where
  "take_front c =
     (let front = hd (bq_queue c);
          c1 = (if StillTracking c front then
                  set_slot (it_slot front)
                    (\<lambda>b. b \<lparr> bs_acquire_called := True, bs_needs_cleanup_on_release := False,
                             bs_buffer_state := Acquired \<rparr>) c
                else c);
          out = (if it_acquire_called front then front \<lparr> it_graphic_buffer := None \<rparr> else front)
      in (out, SignalDequeueCondition (c1 \<lparr> bq_queue := tl (bq_queue c1) \<rparr>)))"

definition AcquireBuffer ::
    "int \<Rightarrow> BufferQueueCore \<Rightarrow> Status \<times> BufferItem option \<times> BufferQueueCore" where
  "AcquireBuffer expected_present c =
     (if bq_max_acquired_buffer_count c + 1 \<le> int (num_acquired c)
      then (Status_InvalidOperation, None, c)
      else if bq_queue c = [] then (Status_NoBufferAvailable, None, c)
      else if expected_present \<noteq> 0 then
        (let c1 = drop_late expected_present c;
             desired_present = it_timestamp (hd (bq_queue c1))
         in if expected_present < desired_present \<and>
               desired_present < wrap_s64 (expected_present + MAX_REASONABLE_NSEC)
            then (Status_PresentLater, None, c1)
            else (case take_front c1 of (out, c2) \<Rightarrow> (Status_NoError, Some out, c2)))
      else (case take_front c of (out, c2) \<Rightarrow> (Status_NoError, Some out, c2)))"

section \<open>ReleaseBuffer, Connect, Disconnect and GetReleasedBuffers\<close>

definition ReleaseBuffer ::
    "int \<Rightarrow> nat \<Rightarrow> BufferQueueCore \<Rightarrow> Status \<times> BufferQueueCore \<times> listener_call list" where
  "ReleaseBuffer s frame_number c =
     (if \<not> slot_in_range s then (Status_BadValue, c, [])
      else if frame_number \<noteq> bs_frame_number (slot_at c s) then (Status_StaleBufferSlot, c, [])
      else if \<exists>item \<in> set (bq_queue c). it_slot item = s then (Status_BadValue, c, [])
      else if bs_buffer_state (slot_at c s) = Acquired then
        (Status_NoError,
         SignalDequeueCondition (set_slot s (\<lambda>b. b \<lparr> bs_buffer_state := Free \<rparr>) c),
         notify OnBufferReleased (bq_connected_producer_listener c))
      else if bs_needs_cleanup_on_release (slot_at c s) then
        (Status_StaleBufferSlot,
         set_slot s (\<lambda>b. b \<lparr> bs_needs_cleanup_on_release := False \<rparr>) c, [])
      else (Status_BadValue, c, []))"

definition Consumer_Connect :: "nat option \<Rightarrow> bool \<Rightarrow> BufferQueueCore \<Rightarrow> Status \<times> BufferQueueCore" where
  "Consumer_Connect listener controlled_by_app c =
     (if listener = None then (Status_BadValue, c)
      else if bq_is_abandoned c then (Status_NoInit, c)
      else (Status_NoError,
            c \<lparr> bq_consumer_listener := listener,
                bq_consumer_controlled_by_app := controlled_by_app \<rparr>))"

definition Consumer_Disconnect :: "BufferQueueCore \<Rightarrow> Status \<times> BufferQueueCore" where
  "Consumer_Disconnect c =
     (if bq_consumer_listener c = None then (Status_BadValue, c)
      else (Status_NoError,
            SignalDequeueCondition
              (FreeAllBuffersLocked
                 (c \<lparr> bq_is_abandoned := True, bq_consumer_listener := None, bq_queue := [] \<rparr>))))"

definition unacquired_mask :: "BufferSlot list \<Rightarrow> u64" where
  "unacquired_mask bs =
     foldl (\<lambda>m s. if \<not> bs_acquire_called (bs ! s) then m OR push_bit s 1 else m) 0
       [0..<nat NUM_BUFFER_SLOTS]"

definition GetReleasedBuffers :: "BufferQueueCore \<Rightarrow> Status \<times> u64 option" where
  "GetReleasedBuffers c =
     (if bq_is_abandoned c then (Status_NoInit, None)
      else (Status_NoError,
            Some (foldl (\<lambda>m item. if it_acquire_called item
                                  then m AND NOT (push_bit (nat (it_slot item)) 1) else m)
                    (unacquired_mask (bq_slots c)) (bq_queue c))))"

section \<open>ConsumerBase\<close>

record ConsumerSlot =
  cs_graphic_buffer :: buffer_ptr
  cs_fence :: Fence
  cs_frame_number :: nat

record ConsumerBase =
  cb_slots :: "ConsumerSlot list"
  cb_is_abandoned :: bool
  cb_has_consumer :: bool

definition update_consumer_slot ::
    "int \<Rightarrow> (ConsumerSlot \<Rightarrow> ConsumerSlot) \<Rightarrow> ConsumerBase \<Rightarrow> ConsumerBase" where
  "update_consumer_slot s f b = b \<lparr> cb_slots := (cb_slots b) [nat s := f (cb_slots b ! nat s)] \<rparr>"

definition ConsumerBase_FreeBufferLocked :: "int \<Rightarrow> ConsumerBase \<Rightarrow> ConsumerBase" where
  "ConsumerBase_FreeBufferLocked s =
     update_consumer_slot s (\<lambda>x. x \<lparr> cs_graphic_buffer := None, cs_fence := NoFence,
                                      cs_frame_number := 0 \<rparr>)"

definition ConsumerBase_AbandonLocked ::
    "ConsumerBase \<times> BufferQueueCore \<Rightarrow> ConsumerBase \<times> BufferQueueCore" where
  "ConsumerBase_AbandonLocked bc =
     (let b = fold ConsumerBase_FreeBufferLocked (map int [0..<nat NUM_BUFFER_SLOTS]) (fst bc);
          c = snd (Consumer_Disconnect (snd bc))
      in (b \<lparr> cb_has_consumer := False \<rparr>, c))"

definition ConsumerBase_Abandon ::
    "ConsumerBase \<times> BufferQueueCore \<Rightarrow> ConsumerBase \<times> BufferQueueCore" where
  "ConsumerBase_Abandon bc =
     (if \<not> cb_is_abandoned (fst bc)
      then (let (b, c) = ConsumerBase_AbandonLocked bc in (b \<lparr> cb_is_abandoned := True \<rparr>, c))
      else bc)"

definition ConsumerBase_OnBuffersReleased ::
    "ConsumerBase \<times> BufferQueueCore \<Rightarrow> ConsumerBase \<times> BufferQueueCore" where
  "ConsumerBase_OnBuffersReleased bc =
     (if cb_is_abandoned (fst bc) then bc
      else
        (let mask = (case snd (GetReleasedBuffers (snd bc)) of None \<Rightarrow> 0 | Some m \<Rightarrow> m)
         in (fold (\<lambda>i b. if mask AND push_bit i 1 \<noteq> 0
                         then ConsumerBase_FreeBufferLocked (int i) b else b)
               [0..<nat NUM_BUFFER_SLOTS] (fst bc), snd bc)))"

definition ConsumerBase_AcquireBufferLocked ::
    "int \<Rightarrow> ConsumerBase \<times> BufferQueueCore \<Rightarrow>
       Status \<times> BufferItem option \<times> ConsumerBase \<times> BufferQueueCore" where
  "ConsumerBase_AcquireBufferLocked present_when bc =
     (case AcquireBuffer present_when (snd bc) of
        (st, None, c) \<Rightarrow> (st, None, fst bc, c)
      | (st, Some item, c) \<Rightarrow>
          (let b1 = (if it_graphic_buffer item \<noteq> None
                     then update_consumer_slot (it_slot item)
                            (\<lambda>x. x \<lparr> cs_graphic_buffer := it_graphic_buffer item \<rparr>) (fst bc)
                     else fst bc);
               b2 = update_consumer_slot (it_slot item)
                      (\<lambda>x. x \<lparr> cs_frame_number := it_frame_number item,
                               cs_fence := it_fence item \<rparr>) b1
           in (Status_NoError, Some item, b2, c)))"

definition ConsumerBase_StillTracking :: "ConsumerBase \<Rightarrow> int \<Rightarrow> GraphicBuffer \<Rightarrow> bool" where
  "ConsumerBase_StillTracking b s gb \<longleftrightarrow>
     slot_in_range s \<and>
     (case cs_graphic_buffer (cb_slots b ! nat s) of
        None \<Rightarrow> False | Some x \<Rightarrow> gb_handle x = gb_handle gb)"

definition ConsumerBase_AddReleaseFenceLocked ::
    "int \<Rightarrow> GraphicBuffer \<Rightarrow> Fence \<Rightarrow> ConsumerBase \<Rightarrow> Status \<times> ConsumerBase" where
  "ConsumerBase_AddReleaseFenceLocked s gb fence b =
     (if \<not> ConsumerBase_StillTracking b s gb then (Status_NoError, b)
      else (Status_NoError, update_consumer_slot s (\<lambda>x. x \<lparr> cs_fence := fence \<rparr>) b))"

definition ConsumerBase_ReleaseBufferLocked ::
    "int \<Rightarrow> GraphicBuffer \<Rightarrow> ConsumerBase \<times> BufferQueueCore \<Rightarrow>
       Status \<times> ConsumerBase \<times> BufferQueueCore \<times> listener_call list" where
  "ConsumerBase_ReleaseBufferLocked s gb bc =
     (if \<not> ConsumerBase_StillTracking (fst bc) s gb then (Status_NoError, fst bc, snd bc, [])
      else
        (let (err, c, calls) = ReleaseBuffer s (cs_frame_number (cb_slots (fst bc) ! nat s)) (snd bc);
             b1 = (if err = Status_StaleBufferSlot then ConsumerBase_FreeBufferLocked s (fst bc)
                   else fst bc)
         in (err, update_consumer_slot s (\<lambda>x. x \<lparr> cs_fence := NoFence \<rparr>) b1, c, calls)))"

section \<open>BufferItemConsumer\<close>

definition BufferItemConsumer_AcquireBuffer ::
    "int \<Rightarrow> ConsumerBase \<times> BufferQueueCore \<Rightarrow>
       Status \<times> BufferItem option \<times> ConsumerBase \<times> BufferQueueCore" where
  "BufferItemConsumer_AcquireBuffer present_when bc =
     (case ConsumerBase_AcquireBufferLocked present_when bc of
        (st, None, b, c) \<Rightarrow> (st, None, b, c)
      | (st, Some item, b, c) \<Rightarrow>
          (Status_NoError,
           Some (item \<lparr> it_graphic_buffer := cs_graphic_buffer (cb_slots b ! nat (it_slot item)) \<rparr>),
           b, c))"

definition BufferItemConsumer_ReleaseBuffer ::
    "int \<Rightarrow> GraphicBuffer \<Rightarrow> Fence \<Rightarrow> ConsumerBase \<times> BufferQueueCore \<Rightarrow>
       Status \<times> ConsumerBase \<times> BufferQueueCore \<times> listener_call list" where
  "BufferItemConsumer_ReleaseBuffer s gb release_fence bc =
     (let b1 = snd (ConsumerBase_AddReleaseFenceLocked s gb release_fence (fst bc))
      in ConsumerBase_ReleaseBufferLocked s gb (b1, snd bc))"

end
