(* ===== verification/BufferQueueSystem.thy ===== *)
theory BufferQueueSystem
  imports BufferQueueConsumer Transition
begin

text \<open>
  The buffer queue as a system of a producer and a consumer: the operations of
  \<^verbatim>\<open>BufferQueueProducer\<close> and \<^verbatim>\<open>BufferQueueConsumer\<close> in any order, where a \<^verbatim>\<open>DequeueBuffer\<close> that
  waits, or allocates its buffer without the mutex, is interleaved with the other operations. The
  theorems show who owns a slot, which slot a producer gets, in which order frames arrive, that an
  abandoned queue stays empty, and when a waiting producer is woken.
\<close>

section \<open>Events\<close>

datatype bq_event =
    ERequest int
  | ESetBufferCount int
  | EDequeueStart dequeue_args
  | EDequeueResume dequeue_args Status
  | EDequeueFinish nat dequeue_result
  | EDetach int
  | EDetachNext
  | EAttach buffer_ptr Status
  | EQueue int QueueBufferInput
  | ECallback "int \<times> listener_call list"
  | ECancel int Fence
  | EProducerConnect "nat option" int bool
  | EProducerDisconnect int
  | ESetPreallocated nat int "GraphicBuffer option"
  | EAcquire int
  | ERelease int nat
  | EConsumerConnect "nat option" bool
  | EConsumerDisconnect

fun bq_apply :: "bq_event \<Rightarrow> BufferQueueCore \<Rightarrow> BufferQueueCore option" where
  "bq_apply (ERequest s) c = Some (snd (snd (RequestBuffer s c)))"
| "bq_apply (ESetBufferCount n) c = Some (fst (snd (SetBufferCount n c)))"
| "bq_apply (EDequeueStart a) c = Some (snd (DequeueBuffer_start a c))"
| "bq_apply (EDequeueResume a flags) c = map_option snd (DequeueBuffer_resume a flags c)"
| "bq_apply (EDequeueFinish addr r) c = Some (snd (DequeueBuffer_finish addr r c))"
| "bq_apply (EDetach s) c = Some (snd (DetachBuffer s c))"
| "bq_apply EDetachNext c = Some (snd (snd (snd (DetachNextBuffer c))))"
| "bq_apply (EAttach buffer flags) c = Some (snd (AttachBuffer_turn buffer flags c))"
| "bq_apply (EQueue s i) c =
     map_option (\<lambda>r. fst (snd (snd r))) (QueueBuffer_locked s i c)"
| "bq_apply (ECallback t) c = map_option snd (QueueBuffer_callback t c)"
| "bq_apply (ECancel s fence) c = Some (CancelBuffer s fence c)"
| "bq_apply (EProducerConnect l api app) c = Some (snd (snd (Producer_Connect l api app c)))"
| "bq_apply (EProducerDisconnect api) c = Some (fst (snd (Producer_Disconnect api c)))"
| "bq_apply (ESetPreallocated addr s b) c = Some (snd (SetPreallocatedBuffer addr s b c))"
| "bq_apply (EAcquire t) c = Some (snd (snd (AcquireBuffer t c)))"
| "bq_apply (ERelease s n) c = Some (fst (snd (ReleaseBuffer s n c)))"
| "bq_apply (EConsumerConnect l app) c = Some (snd (Consumer_Connect l app c))"
| "bq_apply EConsumerDisconnect c = Some (snd (Consumer_Disconnect c))"

text \<open>
  A new object has an address that no queued frame refers to, and the result that the second part
  of \<^verbatim>\<open>DequeueBuffer\<close> uses names a slot of the array.
\<close>

definition fresh_addr :: "nat \<Rightarrow> BufferQueueCore \<Rightarrow> bool" where
  "fresh_addr addr c \<longleftrightarrow> (\<forall>item \<in> set (bq_queue c). map_option gb_addr (it_graphic_buffer item) \<noteq> Some addr)"

fun allowed :: "bq_event \<Rightarrow> BufferQueueCore \<Rightarrow> bool" where
  "allowed (EDequeueFinish addr r) c \<longleftrightarrow> fresh_addr addr c \<and> slot_in_range (dr_slot r)"
| "allowed (EAttach (Some b) flags) c \<longleftrightarrow> fresh_addr (gb_addr b) c"
| "allowed (ESetPreallocated addr s b) c \<longleftrightarrow> fresh_addr addr c"
| "allowed _ c \<longleftrightarrow> True"

inductive bq_step :: "BufferQueueCore \<Rightarrow> bq_event \<Rightarrow> BufferQueueCore \<Rightarrow> bool" where
  "allowed e c \<Longrightarrow> bq_apply e c = Some c' \<Longrightarrow> bq_step c e c'"

inductive_simps bq_step_iff: "bq_step c e c'"

definition bq_start :: "BufferQueueCore \<Rightarrow> bool" where
  "bq_start c \<longleftrightarrow> c = BufferQueueCore_create"

section \<open>Ownership\<close>

text \<open>
  The invariant: a queued frame whose buffer is still the buffer of its slot has a slot in state
  \<^const>\<open>Queued\<close>, no two such frames share a slot, and the consumer holds no more buffers than it may.
\<close>

definition tracked :: "BufferSlot list \<Rightarrow> BufferItem \<Rightarrow> bool" where
  "tracked bs item \<longleftrightarrow> bs_graphic_buffer (bs ! nat (it_slot item)) \<noteq> None \<and>
     same_buffer (it_graphic_buffer item) (bs_graphic_buffer (bs ! nat (it_slot item)))"

lemma StillTracking_tracked: "StillTracking c item \<longleftrightarrow> tracked (bq_slots c) item"
  by (simp add: StillTracking_def tracked_def)

definition acquired_count :: "BufferSlot list \<Rightarrow> nat" where
  "acquired_count bs = length (filter (\<lambda>b. bs_buffer_state b = Acquired) bs)"

definition queue_ok :: "BufferSlot list \<Rightarrow> BufferItem list \<Rightarrow> bool" where
  "queue_ok bs q \<longleftrightarrow>
     length bs = nat NUM_BUFFER_SLOTS \<and>
     (\<forall>item \<in> set q. slot_in_range (it_slot item)) \<and>
     (\<forall>item \<in> set q. tracked bs item \<longrightarrow> bs_buffer_state (bs ! nat (it_slot item)) = Queued) \<and>
     distinct (map it_slot (filter (tracked bs) q))"

definition counts_ok :: "BufferQueueCore \<Rightarrow> bool" where
  "counts_ok c \<longleftrightarrow> bq_max_acquired_buffer_count c = 0 \<and> bq_default_max_buffer_count c = 2 \<and>
     0 \<le> bq_override_max_buffer_count c \<and> bq_override_max_buffer_count c \<le> NUM_BUFFER_SLOTS"

definition bq_inv :: "BufferQueueCore \<Rightarrow> bool" where
  "bq_inv c \<longleftrightarrow> queue_ok (bq_slots c) (bq_queue c) \<and> acquired_count (bq_slots c) \<le> 1 \<and> counts_ok c"

lemma in_range_iff: "slot_in_range s \<longleftrightarrow> 0 \<le> s \<and> s < 64"
  by (auto simp: slot_in_range_def NUM_BUFFER_SLOTS_def)

lemma acquired_update:
  assumes "i < length bs" "bs_buffer_state b = Acquired \<longrightarrow> bs_buffer_state (bs ! i) = Acquired"
  shows "acquired_count (bs [i := b]) \<le> acquired_count bs"
proof (cases "bs_buffer_state (bs ! i) = Acquired \<and> bs_buffer_state b \<noteq> Acquired")
  case True
  then have "Suc (acquired_count (bs [i := b])) = acquired_count bs"
    unfolding acquired_count_def using assms(1)
    by (intro filter_list_update_uncount) auto
  then show ?thesis by simp
next
  case False
  then have "acquired_count (bs [i := b]) = acquired_count bs"
    unfolding acquired_count_def using assms
    by (intro filter_list_update_same) auto
  then show ?thesis by simp
qed

lemma acquired_update_Suc:
  assumes "i < length bs"
  shows "acquired_count (bs [i := b]) \<le> Suc (acquired_count bs)"
proof (cases "bs_buffer_state b = Acquired \<and> bs_buffer_state (bs ! i) \<noteq> Acquired")
  case True
  then have "acquired_count (bs [i := b]) = Suc (acquired_count bs)"
    unfolding acquired_count_def using assms by (intro filter_list_update_count) auto
  then show ?thesis by simp
next
  case False
  then show ?thesis using acquired_update [OF assms, of b] by fastforce
qed

text \<open>
  A slot may be replaced when every queued frame that tracks it afterwards tracked it before, and
  the slot is still in state \<^const>\<open>Queued\<close>.
\<close>

definition replaceable :: "BufferSlot list \<Rightarrow> BufferItem list \<Rightarrow> nat \<Rightarrow> BufferSlot \<Rightarrow> bool" where
  "replaceable bs q i b \<longleftrightarrow>
     (\<forall>item \<in> set q. nat (it_slot item) = i \<and> tracked (bs [i := b]) item \<longrightarrow>
        tracked bs item \<and> bs_buffer_state b = Queued)"

lemma tracked_update_other:
  "nat (it_slot item) \<noteq> i \<Longrightarrow> tracked (bs [i := b]) item = tracked bs item"
  by (simp add: tracked_def)

lemma tracked_update_same:
  "nat (it_slot item) = i \<Longrightarrow> i < length bs \<Longrightarrow> tracked (bs [i := b]) item \<longleftrightarrow>
     bs_graphic_buffer b \<noteq> None \<and> same_buffer (it_graphic_buffer item) (bs_graphic_buffer b)"
  by (auto simp: tracked_def)

lemma replaceable_None: "i < length bs \<Longrightarrow> bs_graphic_buffer b = None \<Longrightarrow> replaceable bs q i b"
  by (auto simp: replaceable_def tracked_update_same)

lemma replaceable_fresh:
  "i < length bs \<Longrightarrow> \<forall>item \<in> set q. \<not> same_buffer (it_graphic_buffer item) (bs_graphic_buffer b) \<Longrightarrow>
     replaceable bs q i b"
  by (auto simp: replaceable_def tracked_update_same)

lemma replaceable_keep:
  assumes "queue_ok bs q" "i < length bs" "bs_graphic_buffer b = bs_graphic_buffer (bs ! i)"
    and "bs_buffer_state (bs ! i) = Queued \<longrightarrow> bs_buffer_state b = Queued"
  shows "replaceable bs q i b"
  unfolding replaceable_def
proof (intro ballI impI)
  fix item
  assume item: "item \<in> set q" "nat (it_slot item) = i \<and> tracked (bs [i := b]) item"
  then have "tracked bs item" using assms(2,3) by (auto simp: tracked_def)
  moreover from this have "bs_buffer_state (bs ! i) = Queued"
    using assms(1) item by (auto simp: queue_ok_def)
  ultimately show "tracked bs item \<and> bs_buffer_state b = Queued" using assms(4) by simp
qed

lemma distinct_filter_subset:
  assumes "distinct (map f (filter P xs))" "\<forall>x \<in> set xs. Q x \<longrightarrow> P x"
  shows "distinct (map f (filter Q xs))"
  using assms by (induction xs) (auto split: if_splits)

lemma queue_okD:
  assumes "queue_ok bs q"
  shows "item \<in> set q \<Longrightarrow> 0 \<le> it_slot item" "item \<in> set q \<Longrightarrow> nat (it_slot item) < length bs"
    "item \<in> set q \<Longrightarrow> tracked bs item \<Longrightarrow> bs_buffer_state (bs ! nat (it_slot item)) = Queued"
    "distinct (map it_slot (filter (tracked bs) q))"
  using assms by (auto simp: queue_ok_def in_range_iff NUM_BUFFER_SLOTS_def)

lemma queue_ok_update:
  assumes ok: "queue_ok bs q" and i: "i < length bs" and r: "replaceable bs q i b"
  shows "queue_ok (bs [i := b]) q"
proof -
  have step: "tracked bs item \<and> (nat (it_slot item) = i \<longrightarrow> bs_buffer_state b = Queued)"
    if "item \<in> set q" "tracked (bs [i := b]) item" for item
  proof (cases "nat (it_slot item) = i")
    case True
    then show ?thesis using that r unfolding replaceable_def by blast
  next
    case False
    then show ?thesis using that(2) by (simp add: tracked_update_other)
  qed
  have "bs_buffer_state (bs [i := b] ! nat (it_slot item)) = Queued"
    if "item \<in> set q" "tracked (bs [i := b]) item" for item
    using step [OF that] queue_okD(3) [OF ok that(1)] i by (cases "nat (it_slot item) = i") auto
  moreover have "distinct (map it_slot (filter (tracked (bs [i := b])) q))"
    by (rule distinct_filter_subset [OF queue_okD(4) [OF ok]]) (use step in blast)
  moreover have "\<forall>item \<in> set q. slot_in_range (it_slot item)" "length bs = nat NUM_BUFFER_SLOTS"
    using ok by (simp_all add: queue_ok_def)
  ultimately show ?thesis by (simp add: queue_ok_def)
qed

lemma queue_ok_tl: "queue_ok bs (front # rest) \<Longrightarrow> queue_ok bs rest"
  by (auto simp: queue_ok_def split: if_splits)

text \<open>The front frame leaves the queue, and its slot changes state.\<close>

lemma queue_ok_retire:
  assumes ok: "queue_ok bs (front # rest)" and t: "tracked bs front"
    and b: "bs_graphic_buffer b = bs_graphic_buffer (bs ! nat (it_slot front))"
  shows "queue_ok (bs [nat (it_slot front) := b]) rest"
proof (rule queue_ok_update [OF queue_ok_tl [OF ok]])
  show i: "nat (it_slot front) < length bs"
    using queue_okD(2) [OF ok, of front] by simp
  have no: "\<not> tracked bs item" if "item \<in> set rest" "nat (it_slot item) = nat (it_slot front)" for item
  proof
    assume item: "tracked bs item"
    have "it_slot item = it_slot front"
      using that(2) queue_okD(1) [OF ok, of item] queue_okD(1) [OF ok, of front] that(1) by simp
    moreover have "it_slot front \<notin> it_slot ` set (filter (tracked bs) rest)"
      using queue_okD(4) [OF ok] t by simp
    moreover have "it_slot item \<in> it_slot ` set (filter (tracked bs) rest)"
      using that(1) item by simp
    ultimately show False by simp
  qed
  have "tracked (bs [nat (it_slot front) := b]) item = tracked bs item"
    if "nat (it_slot item) = nat (it_slot front)" for item
    using tracked_update_same [OF that i, of b] that b by (simp add: tracked_def)
  then show "replaceable bs rest (nat (it_slot front)) b"
    using no unfolding replaceable_def by blast
qed

lemma bq_invD:
  assumes "bq_inv c"
  shows "queue_ok (bq_slots c) (bq_queue c)" "counts_ok c" "acquired_count (bq_slots c) \<le> 1"
    "length (bq_slots c) = 64" "bq_max_acquired_buffer_count c = 0"
  using assms by (auto simp: bq_inv_def queue_ok_def counts_ok_def NUM_BUFFER_SLOTS_def)

lemma inv_set_slot:
  assumes inv: "bq_inv c" and s: "slot_in_range s"
    and r: "replaceable (bq_slots c) (bq_queue c) (nat s) (f (slot_at c s))"
    and a: "bs_buffer_state (f (slot_at c s)) = Acquired \<longrightarrow> bs_buffer_state (slot_at c s) = Acquired"
  shows "bq_inv (set_slot s f c)"
proof -
  have i: "nat s < length (bq_slots c)" using bq_invD(4) [OF inv] s by (auto simp: in_range_iff)
  have "acquired_count (bq_slots (set_slot s f c)) \<le> 1"
    using acquired_update [OF i a] bq_invD(3) [OF inv] by simp
  then show ?thesis
    using queue_ok_update [OF bq_invD(1) [OF inv] i r] bq_invD(2) [OF inv]
    by (simp add: bq_inv_def counts_ok_def set_slot_def)
qed

lemma inv_keep_slot:
  assumes inv: "bq_inv c" and s: "slot_in_range s"
    and b: "bs_graphic_buffer (f (slot_at c s)) = bs_graphic_buffer (slot_at c s)"
    and q: "bs_buffer_state (slot_at c s) = Queued \<longrightarrow> bs_buffer_state (f (slot_at c s)) = Queued"
    and a: "bs_buffer_state (f (slot_at c s)) = Acquired \<longrightarrow> bs_buffer_state (slot_at c s) = Acquired"
  shows "bq_inv (set_slot s f c)"
proof (rule inv_set_slot [OF inv s])
  show "bs_buffer_state (f (slot_at c s)) = Acquired \<longrightarrow> bs_buffer_state (slot_at c s) = Acquired"
    by (rule a)
  show "replaceable (bq_slots c) (bq_queue c) (nat s) (f (slot_at c s))"
    using bq_invD(4) [OF inv] s
    by (intro replaceable_keep [OF bq_invD(1) [OF inv]] b q) (auto simp: in_range_iff)
qed

lemma inv_FreeBufferLocked: "bq_inv c \<Longrightarrow> slot_in_range s \<Longrightarrow> bq_inv (FreeBufferLocked s c)"
  unfolding FreeBufferLocked_def
  using bq_invD(4) [of c]
  by (intro inv_set_slot replaceable_None) (auto simp: in_range_iff)

lemma acquired_free_all: "acquired_count (map free_slot bs) = 0"
  by (simp add: acquired_count_def filter_map comp_def)

lemma FreeAllBuffersLocked_counts:
  "counts_ok (FreeAllBuffersLocked c) = counts_ok c"
proof -
  have "counts_ok (fold FreeBufferLocked ss c) = counts_ok c" for ss c
    by (induction ss arbitrary: c) (simp_all add: FreeBufferLocked_def counts_ok_def set_slot_def)
  then show ?thesis by (simp add: FreeAllBuffersLocked_def counts_ok_def)
qed

lemma untracked_free_all:
  assumes "slot_in_range (it_slot item)" "length bs = 64"
  shows "\<not> tracked (map free_slot bs) item"
  using assms by (auto simp: tracked_def in_range_iff)

lemma inv_FreeAllBuffersLocked:
  assumes "length (bq_slots c) = 64" "counts_ok c" "\<forall>item \<in> set (bq_queue c). slot_in_range (it_slot item)"
  shows "bq_inv (FreeAllBuffersLocked c)"
proof -
  have slots: "bq_slots (FreeAllBuffersLocked c) = map free_slot (bq_slots c)"
    using assms(1) by (simp add: FreeAllBuffersLocked_slots NUM_BUFFER_SLOTS_def)
  have "filter (tracked (map free_slot (bq_slots c))) (bq_queue c) = []"
    using assms(1,3) by (auto simp: filter_empty_conv untracked_free_all)
  then show ?thesis
    using assms unfolding bq_inv_def slots FreeAllBuffersLocked_fields FreeAllBuffersLocked_counts
    by (auto simp: queue_ok_def acquired_free_all NUM_BUFFER_SLOTS_def filter_empty_conv)
qed

section \<open>Looking for a free slot\<close>

lemma raise_max_buffer_count_bounds:
  "m \<le> int s \<Longrightarrow> m \<le> raise_max_buffer_count bs s m \<and> raise_max_buffer_count bs s m \<le> int (s + length bs)"
proof (induction bs s m rule: raise_max_buffer_count.induct)
  case (2 b bs s m)
  let ?m = "if bs_buffer_state b = Queued \<or> bs_buffer_state b = Dequeued then int s + 1 else m"
  have "?m \<le> int (Suc s)" "m \<le> ?m" using 2(2) by auto
  with 2(1) [OF this(1)] show ?case by simp
qed simp

lemma raise_max_buffer_count_covers:
  "m \<le> int s \<Longrightarrow> k < length bs \<Longrightarrow> raise_max_buffer_count bs s m \<le> int (s + k) \<Longrightarrow>
     bs_buffer_state (bs ! k) \<notin> {Queued, Dequeued}"
proof (induction bs s m arbitrary: k rule: raise_max_buffer_count.induct)
  case (2 b bs s m)
  let ?m = "if bs_buffer_state b = Queued \<or> bs_buffer_state b = Dequeued then int s + 1 else m"
  have m: "?m \<le> int (Suc s)" using 2(2) by auto
  show ?case
  proof (cases k)
    case 0
    have "?m \<le> int s" using raise_max_buffer_count_bounds [OF m, of bs] 2(4) 0 by simp
    then show ?thesis using 0 by (auto split: if_splits)
  next
    case (Suc j)
    then show ?thesis using 2(1) [OF m, of j] 2(3,4) by simp
  qed
qed simp

lemma GetMinUndequeued_range:
  "counts_ok c \<Longrightarrow> 0 \<le> GetMinUndequeuedBufferCountLocked c async \<and>
     GetMinUndequeuedBufferCountLocked c async \<le> 1"
  by (auto simp: GetMinUndequeuedBufferCountLocked_def counts_ok_def)

lemma GetMaxBufferCountLocked_eq:
  assumes "counts_ok c"
  shows "GetMaxBufferCountLocked c async =
    (if bq_override_max_buffer_count c \<noteq> 0 then bq_override_max_buffer_count c
     else raise_max_buffer_count (drop 2 (bq_slots c)) 2 2)"
proof -
  have "max (bq_default_max_buffer_count c) (GetMinMaxBufferCountLocked c async) = 2"
    using assms GetMinUndequeued_range [OF assms, of async]
    by (simp add: GetMinMaxBufferCountLocked_def counts_ok_def)
  then show ?thesis by (simp add: GetMaxBufferCountLocked_def Let_def)
qed

lemma GetMaxBufferCountLocked_range:
  assumes "bq_inv c"
  shows "0 < GetMaxBufferCountLocked c async" "GetMaxBufferCountLocked c async \<le> 64"
  using bq_invD(2,4) [OF assms] raise_max_buffer_count_bounds [of 2 2 "drop 2 (bq_slots c)"]
  unfolding GetMaxBufferCountLocked_eq [OF bq_invD(2) [OF assms]]
  by (auto simp: counts_ok_def NUM_BUFFER_SLOTS_def)

text \<open>What the release of excess buffers keeps: all but the buffers of the slots of a set.\<close>

definition trimmed :: "int set \<Rightarrow> BufferQueueCore \<Rightarrow> BufferQueueCore \<Rightarrow> bool" where
  "trimmed A c c' \<longleftrightarrow>
     (bq_inv c \<longrightarrow> bq_inv c') \<and>
     (\<exists>bs. c' = c \<lparr> bq_slots := bs \<rparr>) \<and>
     (\<forall>s. slot_in_range s \<longrightarrow> bs_buffer_state (slot_at c' s) = bs_buffer_state (slot_at c s)) \<and>
     (\<forall>s. slot_in_range s \<and> s \<notin> A \<longrightarrow> slot_at c' s = slot_at c s)"

lemma trimmed_refl: "trimmed A c c"
proof -
  have "c = c \<lparr> bq_slots := bq_slots c \<rparr>" by simp
  then show ?thesis unfolding trimmed_def by blast
qed

lemma trimmed_trans:
  assumes "trimmed A c c1" "trimmed A c1 c2"
  shows "trimmed A c c2"
proof -
  obtain bs1 bs2 where "c1 = c \<lparr> bq_slots := bs1 \<rparr>" "c2 = c1 \<lparr> bq_slots := bs2 \<rparr>"
    using assms unfolding trimmed_def by blast
  then have "c2 = c \<lparr> bq_slots := bs2 \<rparr>" by simp
  then show ?thesis using assms unfolding trimmed_def by auto
qed

lemma trimmed_fields:
  assumes "trimmed A c c'"
  shows "bq_queue c' = bq_queue c" "bq_is_abandoned c' = bq_is_abandoned c"
    "bq_dequeue_possible c' = bq_dequeue_possible c" "bq_frame_counter c' = bq_frame_counter c"
    "bq_next_callback_ticket c' = bq_next_callback_ticket c"
    "bq_current_callback_ticket c' = bq_current_callback_ticket c"
proof -
  obtain bs where "c' = c \<lparr> bq_slots := bs \<rparr>" using assms unfolding trimmed_def by blast
  then show "bq_queue c' = bq_queue c" "bq_is_abandoned c' = bq_is_abandoned c"
    "bq_dequeue_possible c' = bq_dequeue_possible c" "bq_frame_counter c' = bq_frame_counter c"
    "bq_next_callback_ticket c' = bq_next_callback_ticket c"
    "bq_current_callback_ticket c' = bq_current_callback_ticket c"
    by simp_all
qed

lemma trimmed_free_excess:
  assumes s: "slot_in_range s"
  shows "trimmed {s} c (snd (free_excess (flags, c) s))"
proof (cases "bs_graphic_buffer (slot_at c s) \<noteq> None \<and> bs_buffer_state (slot_at c s) = Free \<and>
    \<not> bs_is_preallocated (slot_at c s)")
  case True
  then have eq: "snd (free_excess (flags, c) s) = FreeBufferLocked s c"
    by (simp add: free_excess_def Let_def)
  have state: "bs_buffer_state ((bq_slots c) [nat s := free_slot (slot_at c s)] ! k) =
      bs_buffer_state (bq_slots c ! k)" for k
    using True by (cases "k = nat s"; cases "k < length (bq_slots c)") (simp_all add: list_update_beyond)
  show ?thesis
    unfolding trimmed_def eq
    using s state inv_FreeBufferLocked [OF _ s, of c]
    by (auto simp: FreeBufferLocked_def set_slot_def in_range_iff)
next
  case False
  then have "snd (free_excess (flags, c) s) = c" by (auto simp: free_excess_def Let_def)
  then show ?thesis by (simp add: trimmed_refl)
qed

lemma trimmed_mono: "trimmed A c c' \<Longrightarrow> A \<subseteq> B \<Longrightarrow> trimmed B c c'"
  unfolding trimmed_def by blast

lemma trimmed_foldl:
  "\<forall>s \<in> set ss. slot_in_range s \<Longrightarrow> trimmed (set ss) c (snd (foldl free_excess (flags, c) ss))"
proof (induction ss arbitrary: flags c)
  case Nil
  then show ?case by (simp add: trimmed_refl)
next
  case (Cons s ss)
  let ?r = "free_excess (flags, c) s"
  have "trimmed (set (s # ss)) c (snd ?r)"
    using Cons.prems by (intro trimmed_mono [OF trimmed_free_excess]) auto
  moreover have "trimmed (set (s # ss)) (snd ?r) (snd (foldl free_excess (fst ?r, snd ?r) ss))"
    using Cons.prems by (intro trimmed_mono [OF Cons.IH]) auto
  ultimately show ?case using trimmed_trans [of "set (s # ss)" c "snd ?r"] by simp
qed

lemma trimmed_free_excess_slots:
  "trimmed {s. m \<le> s} c (snd (free_excess_slots m flags c))"
  unfolding free_excess_slots_def
  by (rule trimmed_mono [OF trimmed_foldl]) (auto simp: in_range_iff NUM_BUFFER_SLOTS_def)

lemma scan_slots_Suc:
  "scan_slots bs (int (Suc n)) = scan_slot bs (scan_slots bs (int n)) (int n)"
  by (simp add: scan_slots_def nat_add_distrib del: of_nat_Suc)

definition scanned :: "BufferSlot list \<Rightarrow> nat \<Rightarrow> slot_scan \<Rightarrow> bool" where
  "scanned bs n r \<longleftrightarrow>
     (sc_found r = INVALID_BUFFER_SLOT \<longleftrightarrow> (\<forall>k < n. bs_buffer_state (bs ! k) \<noteq> Free)) \<and>
     (sc_found r \<noteq> INVALID_BUFFER_SLOT \<longrightarrow>
        0 \<le> sc_found r \<and> sc_found r < int n \<and> bs_buffer_state (bs ! nat (sc_found r)) = Free \<and>
        (\<forall>k < n. bs_buffer_state (bs ! k) = Free \<longrightarrow>
           bs_frame_number (bs ! nat (sc_found r)) \<le> bs_frame_number (bs ! k))) \<and>
     (sc_dequeued r = 0 \<longleftrightarrow> (\<forall>k < n. bs_buffer_state (bs ! k) \<noteq> Dequeued)) \<and>
     0 \<le> sc_dequeued r"

lemma scanned_Suc:
  assumes "scanned bs n r"
  shows "scanned bs (Suc n) (scan_slot bs r (int n))"
proof (cases "bs_buffer_state (bs ! n)")
  case Free
  then show ?thesis
    using assms unfolding scanned_def scan_slot_def
    by (auto simp: INVALID_BUFFER_SLOT_def less_Suc_eq intro: order_trans less_imp_le)
next
  case Dequeued
  then show ?thesis
    using assms unfolding scanned_def scan_slot_def by (auto simp: less_Suc_eq)
next
  case Queued
  then show ?thesis
    using assms unfolding scanned_def scan_slot_def by (auto simp: less_Suc_eq)
next
  case Acquired
  then show ?thesis
    using assms unfolding scanned_def scan_slot_def by (auto simp: less_Suc_eq)
qed

lemma scan_slots_scanned: "scanned bs n (scan_slots bs (int n))"
proof (induction n)
  case 0
  show ?case by (simp add: scanned_def scan_slots_def INVALID_BUFFER_SLOT_def)
next
  case (Suc n)
  then show ?case using scanned_Suc scan_slots_Suc by presburger
qed

section \<open>Every operation keeps the invariant\<close>

lemma inv_same:
  "bq_inv c \<Longrightarrow> bq_slots c' = bq_slots c \<Longrightarrow> bq_queue c' = bq_queue c \<Longrightarrow> counts_ok c' \<Longrightarrow> bq_inv c'"
  by (simp add: bq_inv_def)

lemma inv_signal [simp]:
  "bq_inv (SignalDequeueCondition c) = bq_inv c" "bq_inv (signal_wait_event c) = bq_inv c"
  by (simp_all add: bq_inv_def SignalDequeueCondition_def signal_wait_event_def counts_ok_def)

lemma inv_RequestBuffer: "bq_inv c \<Longrightarrow> bq_inv (snd (snd (RequestBuffer s c)))"
  by (auto simp: RequestBuffer_def intro: inv_keep_slot)

lemma inv_SetBufferCount:
  assumes "bq_inv c"
  shows "bq_inv (fst (snd (SetBufferCount n c)))"
proof -
  have all: "bq_inv (FreeAllBuffersLocked c)"
    using bq_invD(1,2,4) [OF assms]
    by (intro inv_FreeAllBuffersLocked) (auto simp: queue_ok_def)
  have set: "bq_inv (c' \<lparr> bq_override_max_buffer_count := k \<rparr>)"
    if "bq_inv c'" "0 \<le> k" "k \<le> 64" for c' k
    using that by (intro inv_same [OF that(1)]) (auto simp: bq_inv_def counts_ok_def NUM_BUFFER_SLOTS_def)
  have "0 \<le> n" if "\<not> n < GetMinMaxBufferCountLocked c False"
    using that GetMinUndequeued_range [OF bq_invD(2) [OF assms], of False]
    by (simp add: GetMinMaxBufferCountLocked_def)
  then show ?thesis
    using assms all by (auto simp: SetBufferCount_def Let_def NUM_BUFFER_SLOTS_def intro!: set)
qed

text \<open>A turn of the wait for a free slot only trims the slots beyond the maximal count.\<close>

lemma wait_turn_state:
  assumes "WaitForFreeSlot_turn async flags c = (out, flags', c')"
  shows "trimmed {s. GetMaxBufferCountLocked c async \<le> s} c c'"
  using assms trimmed_free_excess_slots [of "GetMaxBufferCountLocked c async" c flags] trimmed_refl
  unfolding WaitForFreeSlot_turn_def Let_def
  by (auto split: if_splits prod.splits)

lemma wait_turn_found:
  assumes inv: "bq_inv c" and turn: "WaitForFreeSlot_turn async flags c = (Found f, flags', c')"
  shows "0 \<le> f" "f < GetMaxBufferCountLocked c async" "bs_buffer_state (slot_at c f) = Free"
    "0 \<le> k \<Longrightarrow> k < GetMaxBufferCountLocked c async \<Longrightarrow> bs_buffer_state (slot_at c k) = Free \<Longrightarrow>
       bs_frame_number (slot_at c f) \<le> bs_frame_number (slot_at c k)"
    "\<not> bq_is_abandoned c" "int (length (bq_queue c)) \<le> GetMaxBufferCountLocked c async"
proof -
  let ?m = "GetMaxBufferCountLocked c async"
  have m: "0 < ?m" "?m \<le> 64" using GetMaxBufferCountLocked_range [OF inv] by simp_all
  have trim: "trimmed {s. ?m \<le> s} c c'" by (rule wait_turn_state [OF turn])
  have f: "f = sc_found (scan_slots (bq_slots c') ?m)" "f \<noteq> INVALID_BUFFER_SLOT"
    using turn unfolding WaitForFreeSlot_turn_def Let_def
    by (auto split: if_splits prod.splits)
  have "\<not> ?m < int (length (bq_queue c'))"
    using turn unfolding WaitForFreeSlot_turn_def Let_def
    by (auto split: if_splits prod.splits)
  then show "int (length (bq_queue c)) \<le> ?m" using trimmed_fields(1) [OF trim] by simp
  show "\<not> bq_is_abandoned c"
    using turn unfolding WaitForFreeSlot_turn_def by (auto split: if_splits)
  have same: "slot_at c' k = slot_at c k" if "0 \<le> k" "k < ?m" for k
    using trim that m unfolding trimmed_def by (auto simp: in_range_iff)
  have "scanned (bq_slots c') (nat ?m) (scan_slots (bq_slots c') ?m)"
    using scan_slots_scanned [of "bq_slots c'" "nat ?m"] m by simp
  then have found: "0 \<le> f" "f < ?m" "bs_buffer_state (slot_at c' f) = Free"
    "\<forall>k < nat ?m. bs_buffer_state (bq_slots c' ! k) = Free \<longrightarrow>
       bs_frame_number (slot_at c' f) \<le> bs_frame_number (bq_slots c' ! k)"
    using f m unfolding scanned_def by auto
  show "0 \<le> f" "f < ?m" by (rule found(1,2))+
  show "bs_buffer_state (slot_at c f) = Free" using found same by simp
  show "bs_frame_number (slot_at c f) \<le> bs_frame_number (slot_at c k)"
    if "0 \<le> k" "k < ?m" "bs_buffer_state (slot_at c k) = Free"
  proof -
    have "nat k < nat ?m" using that by simp
    moreover have "bs_buffer_state (bq_slots c' ! nat k) = Free" using same that by simp
    ultimately have "bs_frame_number (slot_at c' f) \<le> bs_frame_number (slot_at c' k)"
      using found(4) by blast
    then show ?thesis using same found(1,2) that by simp
  qed
qed

lemma inv_trimmed: "trimmed A c c' \<Longrightarrow> bq_inv c \<Longrightarrow> bq_inv c'"
  by (simp add: trimmed_def)

text \<open>The slot that a dequeue takes, as one change of the slot.\<close>

definition taken_slot :: "bool \<Rightarrow> BufferSlot \<Rightarrow> BufferSlot" where
  "taken_slot realloc b =
     (if realloc
      then b \<lparr> bs_buffer_state := Dequeued, bs_acquire_called := False, bs_graphic_buffer := None,
               bs_request_buffer_called := False, bs_fence := NoFence \<rparr>
      else b \<lparr> bs_buffer_state := Dequeued, bs_fence := NoFence \<rparr>)"

lemma set_slot_set_slot:
  assumes "nat s < length (bq_slots c)"
  shows "set_slot s g (set_slot s f c) = set_slot s (g \<circ> f) c"
  using assms by (simp add: set_slot_def)

lemma DequeueBuffer_take_slot:
  assumes "nat s < length (bq_slots c)"
  shows "\<exists>realloc. snd (DequeueBuffer_take a s flags c) = set_slot s (taken_slot realloc) c"
    "dr_slot (fst (DequeueBuffer_take a s flags c)) = s"
proof -
  show "dr_slot (fst (DequeueBuffer_take a s flags c)) = s"
    by (simp add: DequeueBuffer_take_def Let_def)
  have *: "set_slot s (\<lambda>b. b \<lparr> bs_fence := NoFence \<rparr>)
      (set_slot s (\<lambda>b. b \<lparr> bs_acquire_called := False, bs_graphic_buffer := None,
         bs_request_buffer_called := False, bs_fence := NoFence \<rparr>)
        (set_slot s (\<lambda>b. b \<lparr> bs_buffer_state := Dequeued \<rparr>) c)) = set_slot s (taken_slot True) c"
    "set_slot s (\<lambda>b. b \<lparr> bs_fence := NoFence \<rparr>)
        (set_slot s (\<lambda>b. b \<lparr> bs_buffer_state := Dequeued \<rparr>) c) = set_slot s (taken_slot False) c"
    using assms by (simp_all add: set_slot_set_slot) (simp_all add: set_slot_def taken_slot_def)
  show "\<exists>realloc. snd (DequeueBuffer_take a s flags c) = set_slot s (taken_slot realloc) c"
    unfolding DequeueBuffer_take_def Let_def using * by (auto simp only: snd_conv split: if_splits)
qed

lemma inv_taken_slot:
  assumes inv: "bq_inv c" and s: "slot_in_range s" and free: "bs_buffer_state (slot_at c s) = Free"
  shows "bq_inv (set_slot s (taken_slot realloc) c)"
proof (cases realloc)
  case True
  have "nat s < length (bq_slots c)" using bq_invD(4) [OF inv] s by (auto simp: in_range_iff)
  then show ?thesis
    using True by (intro inv_set_slot [OF inv s] replaceable_None) (simp_all add: taken_slot_def)
next
  case False
  then show ?thesis using free by (intro inv_keep_slot [OF inv s]) (simp_all add: taken_slot_def)
qed

text \<open>A dequeue that finds a slot, as one change of one slot.\<close>

lemma DequeueBuffer_turn_found:
  assumes inv: "bq_inv c" and turn: "DequeueBuffer_turn a flags c = (DequeueAllocates r, c')"
  obtains flags' c1 realloc where
    "WaitForFreeSlot_turn (da_async a) flags c = (Found (dr_slot r), flags', c1)"
    "trimmed {s. GetMaxBufferCountLocked c (da_async a) \<le> s} c c1"
    "c' = set_slot (dr_slot r) (taken_slot realloc) c1"
    "slot_in_range (dr_slot r)" "bs_buffer_state (slot_at c1 (dr_slot r)) = Free"
proof -
  obtain f flags' c1 where w: "WaitForFreeSlot_turn (da_async a) flags c = (Found f, flags', c1)"
      "DequeueBuffer_take a f flags' c1 = (r, c')"
    using turn unfolding DequeueBuffer_turn_def
    by (auto split: wait_outcome.splits prod.splits if_splits)
  have trim: "trimmed {s. GetMaxBufferCountLocked c (da_async a) \<le> s} c c1"
    by (rule wait_turn_state [OF w(1)])
  have inv1: "bq_inv c1" by (rule inv_trimmed [OF trim inv])
  have f: "slot_in_range f"
    using wait_turn_found(1,2) [OF inv w(1)] GetMaxBufferCountLocked_range(2) [OF inv, of "da_async a"]
    by (simp add: in_range_iff)
  then have i: "nat f < length (bq_slots c1)" using bq_invD(4) [OF inv1] by (auto simp: in_range_iff)
  have r: "dr_slot r = f" using DequeueBuffer_take_slot(2) [OF i, of a flags'] w(2) by simp
  obtain realloc where "c' = set_slot f (taken_slot realloc) c1"
    using DequeueBuffer_take_slot(1) [OF i, of a flags'] w(2) by auto
  moreover have "bs_buffer_state (slot_at c1 f) = Free"
    using wait_turn_found(3) [OF inv w(1)] trim f unfolding trimmed_def by simp
  ultimately show thesis using that w(1) trim r f by blast
qed

lemma DequeueBuffer_turn_other:
  assumes turn: "DequeueBuffer_turn a flags c = (out, c')" and no: "\<forall>r. out \<noteq> DequeueAllocates r"
  shows "\<exists>A. trimmed A c c'"
proof -
  obtain w flags' c1 where w: "WaitForFreeSlot_turn (da_async a) flags c = (w, flags', c1)"
    by (cases "WaitForFreeSlot_turn (da_async a) flags c") auto
  have "c' = c1"
    using turn no w unfolding DequeueBuffer_turn_def
    by (auto split: wait_outcome.splits prod.splits if_splits)
  then show ?thesis using wait_turn_state [OF w] by blast
qed

lemma inv_DequeueBuffer_turn:
  assumes inv: "bq_inv c"
  shows "bq_inv (snd (DequeueBuffer_turn a flags c))"
proof -
  obtain out c' where turn: "DequeueBuffer_turn a flags c = (out, c')"
    by (cases "DequeueBuffer_turn a flags c") auto
  show ?thesis
  proof (cases "\<exists>r. out = DequeueAllocates r")
    case True
    then obtain r where "DequeueBuffer_turn a flags c = (DequeueAllocates r, c')" using turn by blast
    from DequeueBuffer_turn_found [OF inv this] show ?thesis
      using turn inv_taken_slot inv_trimmed [OF _ inv] by (metis snd_conv)
  next
    case False
    then show ?thesis using DequeueBuffer_turn_other [OF turn] turn inv_trimmed [OF _ inv] by auto
  qed
qed

lemma inv_DequeueBuffer_start: "bq_inv c \<Longrightarrow> bq_inv (snd (DequeueBuffer_start a c))"
  by (simp add: DequeueBuffer_start_def inv_DequeueBuffer_turn)

lemma inv_DequeueBuffer_resume:
  assumes "bq_inv c" "DequeueBuffer_resume a flags c = Some (out, c')"
  shows "bq_inv c'"
proof -
  have turn: "DequeueBuffer_turn a flags (c \<lparr> bq_dequeue_possible := False \<rparr>) = (out, c')"
    using assms(2) by (auto simp: DequeueBuffer_resume_def WaitForDequeueCondition_def split: if_splits)
  have "bq_inv (c \<lparr> bq_dequeue_possible := False \<rparr>)"
    using assms(1) by (auto simp: bq_inv_def counts_ok_def)
  from inv_DequeueBuffer_turn [OF this, of a flags] show ?thesis using turn by simp
qed

lemma fresh_not_same:
  "fresh_addr addr c \<Longrightarrow> item \<in> set (bq_queue c) \<Longrightarrow> gb_addr b = addr \<Longrightarrow>
     \<not> same_buffer (it_graphic_buffer item) (Some b)"
  by (auto simp: fresh_addr_def same_buffer_def)

lemma inv_fresh_slot:
  assumes inv: "bq_inv c" and s: "slot_in_range s" and fresh: "fresh_addr addr c"
    and b: "bs_graphic_buffer (f (slot_at c s)) = Some b" "gb_addr b = addr"
    and a: "bs_buffer_state (f (slot_at c s)) = Acquired \<longrightarrow> bs_buffer_state (slot_at c s) = Acquired"
  shows "bq_inv (set_slot s f c)"
proof (rule inv_set_slot [OF inv s])
  show "bs_buffer_state (f (slot_at c s)) = Acquired \<longrightarrow> bs_buffer_state (slot_at c s) = Acquired"
    by (rule a)
  have "nat s < length (bq_slots c)" using bq_invD(4) [OF inv] s by (auto simp: in_range_iff)
  then show "replaceable (bq_slots c) (bq_queue c) (nat s) (f (slot_at c s))"
    using fresh_not_same [OF fresh _ b(2)] b(1) by (intro replaceable_fresh) auto
qed

lemma inv_DequeueBuffer_finish:
  assumes "bq_inv c" "fresh_addr addr c" "slot_in_range (dr_slot r)"
  shows "bq_inv (snd (DequeueBuffer_finish addr r c))"
  using assms by (auto simp: DequeueBuffer_finish_def Let_def intro: inv_fresh_slot)

lemma inv_DetachBuffer: "bq_inv c \<Longrightarrow> bq_inv (snd (DetachBuffer s c))"
  by (simp add: DetachBuffer_def inv_FreeBufferLocked)

lemma oldest_free_buffer_range:
  "foldl (oldest_free_buffer bs) f (map int [0..<n]) = f \<or>
   (0 \<le> foldl (oldest_free_buffer bs) f (map int [0..<n]) \<and>
    foldl (oldest_free_buffer bs) f (map int [0..<n]) < int n)"
  by (induction n) (auto simp: oldest_free_buffer_def)

lemma inv_DetachNextBuffer: "bq_inv c \<Longrightarrow> bq_inv (snd (snd (snd (DetachNextBuffer c))))"
  using oldest_free_buffer_range [of "bq_slots c" INVALID_BUFFER_SLOT 64]
  by (auto simp: DetachNextBuffer_def Let_def NUM_BUFFER_SLOTS_def in_range_iff
      intro: inv_FreeBufferLocked)

lemma fresh_trimmed: "trimmed A c c' \<Longrightarrow> fresh_addr addr c \<Longrightarrow> fresh_addr addr c'"
  by (simp add: fresh_addr_def trimmed_fields)

lemma inv_AttachBuffer_turn:
  assumes inv: "bq_inv c" and fresh: "fresh_addr (gb_addr b) c"
  shows "bq_inv (snd (AttachBuffer_turn (Some b) flags c))"
proof -
  obtain out flags' c1 where w: "WaitForFreeSlot_turn False flags c = (out, flags', c1)"
    by (cases "WaitForFreeSlot_turn False flags c") auto
  note trim = wait_turn_state [OF w]
  note inv1 = inv_trimmed [OF trim inv] and fresh1 = fresh_trimmed [OF trim fresh]
  show ?thesis
  proof (cases out)
    case (Found f)
    have "slot_in_range f"
      using wait_turn_found(1,2) [OF inv w [unfolded Found]] GetMaxBufferCountLocked_range(2) [OF inv, of False]
      by (simp add: in_range_iff)
    then show ?thesis
      using w Found inv1 by (auto simp: AttachBuffer_turn_def intro: inv_fresh_slot [OF inv1 _ fresh1])
  qed (use w inv1 in \<open>auto simp: AttachBuffer_turn_def\<close>)
qed

text \<open>The front frame leaves the queue; its slot changes when it is still tracked.\<close>

definition retire :: "(BufferSlot \<Rightarrow> BufferSlot) \<Rightarrow> BufferQueueCore \<Rightarrow> BufferQueueCore" where
  "retire f c =
     (let front = hd (bq_queue c);
          c1 = (if StillTracking c front then set_slot (it_slot front) f c else c)
      in c1 \<lparr> bq_queue := tl (bq_queue c) \<rparr>)"

lemma retire_fields [simp]:
  "bq_queue (retire f c) = tl (bq_queue c)" "counts_ok (retire f c) = counts_ok c"
  "bq_is_abandoned (retire f c) = bq_is_abandoned c"
  "bq_dequeue_possible (retire f c) = bq_dequeue_possible c"
  "bq_frame_counter (retire f c) = bq_frame_counter c"
  "bq_max_acquired_buffer_count (retire f c) = bq_max_acquired_buffer_count c"
  by (simp_all add: retire_def Let_def set_slot_def counts_ok_def)

lemma queue_ok_retire_core:
  assumes ok: "queue_ok (bq_slots c) (bq_queue c)" and ne: "bq_queue c \<noteq> []"
    and f: "\<And>b. bs_graphic_buffer (f b) = bs_graphic_buffer b"
  shows "queue_ok (bq_slots (retire f c)) (bq_queue (retire f c))"
proof -
  obtain front rest where q: "bq_queue c = front # rest" using ne by (cases "bq_queue c") auto
  show ?thesis
    using queue_ok_retire [of "bq_slots c" front rest "f (slot_at c (it_slot front))"]
      queue_ok_tl [of "bq_slots c" front rest] ok f
    by (simp add: q retire_def Let_def StillTracking_tracked)
qed

lemma acquired_retire:
  assumes inv: "bq_inv c" and ne: "bq_queue c \<noteq> []"
  shows "acquired_count (bq_slots (retire f c)) \<le> Suc (acquired_count (bq_slots c))"
    "(\<And>b. bs_buffer_state (f b) \<noteq> Acquired) \<Longrightarrow>
       acquired_count (bq_slots (retire f c)) \<le> acquired_count (bq_slots c)"
proof -
  have "hd (bq_queue c) \<in> set (bq_queue c)" using ne by simp
  then have i: "nat (it_slot (hd (bq_queue c))) < length (bq_slots c)"
    by (rule queue_okD(2) [OF bq_invD(1) [OF inv]])
  show "acquired_count (bq_slots (retire f c)) \<le> Suc (acquired_count (bq_slots c))"
    using acquired_update_Suc [OF i] by (simp add: retire_def Let_def)
  show "acquired_count (bq_slots (retire f c)) \<le> acquired_count (bq_slots c)"
    if "\<And>b. bs_buffer_state (f b) \<noteq> Acquired"
    using acquired_update [OF i] that by (simp add: retire_def Let_def)
qed

lemma inv_retire:
  assumes inv: "bq_inv c" and ne: "bq_queue c \<noteq> []"
    and f: "\<And>b. bs_graphic_buffer (f b) = bs_graphic_buffer b"
    and a: "acquired_count (bq_slots c) = 0 \<or> (\<forall>b. bs_buffer_state (f b) \<noteq> Acquired)"
  shows "bq_inv (retire f c)"
proof -
  have "queue_ok (bq_slots (retire f c)) (bq_queue (retire f c))"
    by (rule queue_ok_retire_core [OF bq_invD(1) [OF inv] ne f])
  moreover have "acquired_count (bq_slots (retire f c)) \<le> 1"
    using a acquired_retire [OF inv ne, of f] bq_invD(3) [OF inv] by auto
  ultimately show ?thesis using bq_invD(2) [OF inv] by (simp add: bq_inv_def)
qed

lemma queue_ok_insert:
  assumes "queue_ok bs q" "slot_in_range (it_slot item)"
    and "bs_buffer_state (bs ! nat (it_slot item)) = Queued"
    and "\<forall>x \<in> set q. tracked bs x \<longrightarrow> it_slot x \<noteq> it_slot item"
  shows "queue_ok bs (q @ [item])" "queue_ok bs (item # q)"
  using assms by (auto simp: queue_ok_def)

lemma inv_push_item:
  assumes inv: "bq_inv c" and range: "slot_in_range (it_slot item)"
    and queued: "bs_buffer_state (slot_at c (it_slot item)) = Queued"
    and other: "\<forall>x \<in> set (bq_queue c). tracked (bq_slots c) x \<longrightarrow> it_slot x \<noteq> it_slot item"
  shows "bq_inv (snd (push_item item c))"
proof (cases "bq_queue c \<noteq> [] \<and> it_is_droppable (hd (bq_queue c))")
  case False
  then have "snd (push_item item c) = c \<lparr> bq_queue := bq_queue c @ [item] \<rparr>"
    by (auto simp: push_item_def split: list.splits)
  then show ?thesis
    using inv queue_ok_insert(1) [OF bq_invD(1) [OF inv] range queued other]
    by (simp add: bq_inv_def counts_ok_def)
next
  case True
  let ?f = "\<lambda>b. b \<lparr> bs_buffer_state := Free, bs_frame_number := 0 \<rparr>"
  let ?c = "retire ?f c" and ?front = "hd (bq_queue c)"
  have eq: "snd (push_item item c) = ?c \<lparr> bq_queue := item # bq_queue ?c \<rparr>"
    using True by (auto simp: push_item_def retire_def Let_def split: list.splits)
  have ne: "bq_queue c \<noteq> []" using True by simp
  have inv': "bq_inv ?c" by (rule inv_retire [OF inv ne]) simp_all
  have front: "?front \<in> set (bq_queue c)" using ne by simp
  have "slot_at ?c (it_slot item) = slot_at c (it_slot item)"
  proof (cases "tracked (bq_slots c) ?front")
    case True
    then have "it_slot ?front \<noteq> it_slot item" using other front by blast
    moreover have "0 \<le> it_slot ?front" by (rule queue_okD(1) [OF bq_invD(1) [OF inv] front])
    ultimately have "nat (it_slot ?front) \<noteq> nat (it_slot item)" using range by (auto simp: in_range_iff)
    then show ?thesis by (simp add: retire_def Let_def)
  next
    case False
    then show ?thesis by (simp add: retire_def Let_def StillTracking_tracked)
  qed
  then have queued': "bs_buffer_state (slot_at ?c (it_slot item)) = Queued" using queued by simp
  have "tracked (bq_slots ?c) x \<longleftrightarrow> tracked (bq_slots c) x" for x
    by (cases "nat (it_slot x) = nat (it_slot ?front)"; cases "nat (it_slot ?front) < length (bq_slots c)")
      (auto simp: retire_def Let_def tracked_def list_update_beyond)
  then have other': "\<forall>x \<in> set (bq_queue ?c). tracked (bq_slots ?c) x \<longrightarrow> it_slot x \<noteq> it_slot item"
    using other ne by (auto dest: list.set_sel(2))
  show ?thesis
    using inv' queue_ok_insert(2) [OF bq_invD(1) [OF inv'] range queued' other']
    unfolding eq by (simp add: bq_inv_def counts_ok_def)
qed

lemma push_item_fields:
  "bq_is_abandoned (snd (push_item item c)) = bq_is_abandoned c"
  "bq_frame_counter (snd (push_item item c)) = bq_frame_counter c"
  "bq_next_callback_ticket (snd (push_item item c)) = bq_next_callback_ticket c"
  "bq_current_callback_ticket (snd (push_item item c)) = bq_current_callback_ticket c"
  "bq_consumer_listener (snd (push_item item c)) = bq_consumer_listener c"
  by (auto simp: push_item_def Let_def set_slot_def split: list.splits)

text \<open>A frame that is queued, as a change of its slot and a push.\<close>

definition queue_update :: "int \<Rightarrow> QueueBufferInput \<Rightarrow> BufferQueueCore \<Rightarrow> BufferQueueCore" where
  "queue_update s i c =
     (set_slot s (\<lambda>b. b \<lparr> bs_fence := qi_fence i, bs_buffer_state := Queued,
                          bs_frame_number := u64_add (bq_frame_counter c) 1 \<rparr>) c)
       \<lparr> bq_frame_counter := u64_add (bq_frame_counter c) 1,
         bq_sticky_transform := qi_sticky_transform i \<rparr>"

definition queue_allowed :: "int \<Rightarrow> QueueBufferInput \<Rightarrow> BufferQueueCore \<Rightarrow> bool" where
  "queue_allowed s i c \<longleftrightarrow>
     valid_scaling_mode (qi_scaling_mode i) \<and> \<not> bq_is_abandoned c \<and>
     \<not> (qi_async i \<noteq> 0 \<and> bq_override_max_buffer_count c \<noteq> 0 \<and>
        bq_override_max_buffer_count c < GetMaxBufferCountLocked c (qi_async i \<noteq> 0)) \<and>
     0 \<le> s \<and> s < GetMaxBufferCountLocked c (qi_async i \<noteq> 0) \<and>
     bs_buffer_state (slot_at c s) = Dequeued \<and> bs_request_buffer_called (slot_at c s) \<and>
     (case bs_graphic_buffer (slot_at c s) of
        None \<Rightarrow> False | Some gb \<Rightarrow> Rectangle_Intersect (qi_crop i) (buffer_rect gb) = qi_crop i)"

definition queued_state :: "int \<Rightarrow> QueueBufferInput \<Rightarrow> BufferQueueCore \<Rightarrow> BufferQueueCore" where
  "queued_state s i c =
     (SignalDequeueCondition
       ((snd (push_item (queued_item s i (queue_update s i c)) (queue_update s i c)))
          \<lparr> bq_buffer_has_been_queued := True \<rparr>))
      \<lparr> bq_next_callback_ticket := bq_next_callback_ticket c + 1 \<rparr>"

definition queued_call :: "int \<Rightarrow> QueueBufferInput \<Rightarrow> BufferQueueCore \<Rightarrow> listener_call list" where
  "queued_call s i c =
     (let item = queued_item s i (queue_update s i c)
      in notify (\<lambda>n. fst (push_item item (queue_update s i c)) n
                       (item \<lparr> it_graphic_buffer := None, it_slot := INVALID_BUFFER_SLOT \<rparr>))
           (bq_consumer_listener c))"

lemma queued_item_sticky: "queued_item s i (c1 \<lparr> bq_sticky_transform := t \<rparr>) = queued_item s i c1"
  by (simp add: queued_item_def)

lemma QueueBuffer_locked_ok:
  assumes "queue_allowed s i c"
  shows "QueueBuffer_locked s i c =
    Some (Status_NoError, core_output (queued_state s i c), queued_state s i c,
          Some (bq_next_callback_ticket c, queued_call s i c))"
proof -
  obtain gb where gb: "bs_graphic_buffer (slot_at c s) = Some gb"
      "Rectangle_Intersect (qi_crop i) (buffer_rect gb) = qi_crop i"
    using assms by (auto simp: queue_allowed_def split: option.splits)
  have g: "valid_scaling_mode (qi_scaling_mode i)" "\<not> bq_is_abandoned c"
    "\<not> (qi_async i \<noteq> 0 \<and> bq_override_max_buffer_count c \<noteq> 0 \<and>
        bq_override_max_buffer_count c < GetMaxBufferCountLocked c (qi_async i \<noteq> 0))"
    "\<not> (s < 0 \<or> GetMaxBufferCountLocked c (qi_async i \<noteq> 0) \<le> s)"
    "bs_buffer_state (slot_at c s) = Dequeued" "bs_request_buffer_called (slot_at c s)"
    using assms by (auto simp: queue_allowed_def)
  have upd: "(set_slot s (\<lambda>b. b \<lparr> bs_fence := qi_fence i, bs_buffer_state := Queued,
                          bs_frame_number := u64_add (bq_frame_counter c) 1 \<rparr>) c)
       \<lparr> bq_frame_counter := u64_add (bq_frame_counter c) 1 \<rparr>
         \<lparr> bq_sticky_transform := qi_sticky_transform i \<rparr> = queue_update s i c"
    by (simp add: queue_update_def)
  have item: "queued_item s i ((set_slot s (\<lambda>b. b \<lparr> bs_fence := qi_fence i, bs_buffer_state := Queued,
                          bs_frame_number := u64_add (bq_frame_counter c) 1 \<rparr>) c)
       \<lparr> bq_frame_counter := u64_add (bq_frame_counter c) 1 \<rparr>) = queued_item s i (queue_update s i c)"
    using queued_item_sticky upd by metis
  obtain call c2 where push:
      "push_item (queued_item s i (queue_update s i c)) (queue_update s i c) = (call, c2)"
    by (cases "push_item (queued_item s i (queue_update s i c)) (queue_update s i c)") auto
  have c2: "bq_next_callback_ticket c2 = bq_next_callback_ticket c"
    "bq_consumer_listener c2 = bq_consumer_listener c"
    using push_item_fields(3,5) [of "queued_item s i (queue_update s i c)" "queue_update s i c"] push
    by (simp_all add: queue_update_def set_slot_def)
  show ?thesis
    unfolding QueueBuffer_locked_def Let_def item upd push
    using g gb c2 push
    by (simp add: queued_state_def queued_call_def core_output_def SignalDequeueCondition_def Let_def)
qed

lemma QueueBuffer_locked_fail:
  assumes "\<not> queue_allowed s i c" "QueueBuffer_locked s i c = Some r"
  shows "fst r \<in> {Status_BadValue, Status_NoInit}" "fst (snd (snd r)) = c" "snd (snd (snd r)) = None"
proof -
  have "fst r \<in> {Status_BadValue, Status_NoInit} \<and> fst (snd (snd r)) = c \<and> snd (snd (snd r)) = None"
  proof (cases "bs_graphic_buffer (slot_at c s)")
    case None
    then show ?thesis using assms(2) by (auto simp: QueueBuffer_locked_def Let_def split: if_splits)
  next
    case (Some gb)
    show ?thesis
    proof (cases "Rectangle_Intersect (qi_crop i) (buffer_rect gb) = qi_crop i")
      case False
      then show ?thesis
        using assms(2) Some by (auto simp: QueueBuffer_locked_def Let_def split: if_splits)
    next
      case True
      let ?m = "GetMaxBufferCountLocked c (qi_async i \<noteq> 0)"
      consider "\<not> valid_scaling_mode (qi_scaling_mode i)" | "bq_is_abandoned c"
        | "qi_async i \<noteq> 0 \<and> bq_override_max_buffer_count c \<noteq> 0 \<and> bq_override_max_buffer_count c < ?m"
        | "s < 0 \<or> ?m \<le> s" | "bs_buffer_state (slot_at c s) \<noteq> Dequeued"
        | "\<not> bs_request_buffer_called (slot_at c s)"
        using assms(1) Some True by (auto simp: queue_allowed_def)
      then show ?thesis
        using assms(2) unfolding QueueBuffer_locked_def Let_def
        by cases (simp_all split: if_split_asm, auto)
    qed
  qed
  then show "fst r \<in> {Status_BadValue, Status_NoInit}" "fst (snd (snd r)) = c" "snd (snd (snd r)) = None"
    by simp_all
qed

lemma inv_queued_state:
  assumes inv: "bq_inv c" and ok: "queue_allowed s i c"
  shows "bq_inv (queued_state s i c)"
proof -
  let ?f = "\<lambda>b. b \<lparr> bs_fence := qi_fence i, bs_buffer_state := Queued,
                    bs_frame_number := u64_add (bq_frame_counter c) 1 \<rparr>"
  let ?c = "queue_update s i c"
  have s: "slot_in_range s" and deq: "bs_buffer_state (slot_at c s) = Dequeued"
    using ok GetMaxBufferCountLocked_range(2) [OF inv, of "qi_async i \<noteq> 0"]
    by (auto simp: queue_allowed_def in_range_iff)
  have i: "nat s < length (bq_slots c)" using bq_invD(4) [OF inv] s by (auto simp: in_range_iff)
  have "bq_inv (set_slot s ?f c)" using deq by (intro inv_keep_slot [OF inv s]) simp_all
  then have inv': "bq_inv ?c"
    by (rule inv_same) (use bq_invD(2) [OF inv] in \<open>simp_all add: queue_update_def counts_ok_def set_slot_def\<close>)
  have slots: "bq_slots ?c = (bq_slots c) [nat s := ?f (slot_at c s)]" "bq_queue ?c = bq_queue c"
    by (simp_all add: queue_update_def)
  have other: "it_slot x \<noteq> s" if "x \<in> set (bq_queue ?c)" "tracked (bq_slots ?c) x" for x
  proof
    assume x: "it_slot x = s"
    then have "tracked (bq_slots c) x"
      using that(2) tracked_update_same [of x "nat s" "bq_slots c"] i by (simp add: slots tracked_def)
    from queue_okD(3) [OF bq_invD(1) [OF inv] _ this] that(1) x deq show False by (simp add: slots)
  qed
  have "bq_inv (snd (push_item (queued_item s i ?c) ?c))"
    using inv' s i other by (intro inv_push_item) (auto simp: queued_item_def slots)
  then show ?thesis
    by (simp add: queued_state_def bq_inv_def counts_ok_def SignalDequeueCondition_def)
qed

lemma inv_QueueBuffer_locked:
  assumes "bq_inv c" "QueueBuffer_locked s i c = Some r"
  shows "bq_inv (fst (snd (snd r)))"
  using assms inv_queued_state QueueBuffer_locked_ok QueueBuffer_locked_fail(2) [OF _ assms(2)]
  by (cases "queue_allowed s i c") auto

lemma inv_CancelBuffer: "bq_inv c \<Longrightarrow> bq_inv (CancelBuffer s fence c)"
  by (auto simp: CancelBuffer_def intro: inv_keep_slot)

lemma inv_Producer_Connect: "bq_inv c \<Longrightarrow> bq_inv (snd (snd (Producer_Connect l api app c)))"
  by (auto simp: Producer_Connect_def Let_def bq_inv_def counts_ok_def)

lemma inv_Producer_Disconnect:
  assumes "bq_inv c"
  shows "bq_inv (fst (snd (Producer_Disconnect api c)))"
proof -
  have "bq_inv (FreeAllBuffersLocked (c \<lparr> bq_queue := [] \<rparr>))"
    using bq_invD(2,4) [OF assms] by (intro inv_FreeAllBuffersLocked) (simp_all add: counts_ok_def)
  then have "bq_inv ((FreeAllBuffersLocked (c \<lparr> bq_queue := [] \<rparr>))
      \<lparr> bq_connected_producer_listener := None, bq_connected_api := 0 \<rparr>)"
    by (rule inv_same)
      (use bq_invD(2) [OF assms] FreeAllBuffersLocked_counts [of "c \<lparr> bq_queue := [] \<rparr>"]
        in \<open>simp_all add: counts_ok_def\<close>)
  then show ?thesis using assms by (auto simp: Producer_Disconnect_def Let_def)
qed

lemma prealloc_count_range:
  "0 \<le> GetPreallocatedBufferCountLocked c \<and>
   GetPreallocatedBufferCountLocked c \<le> int (length (bq_slots c))"
  by (simp add: GetPreallocatedBufferCountLocked_def)

lemma inv_SetPreallocatedBuffer:
  assumes inv: "bq_inv c" and fresh: "fresh_addr addr c"
  shows "bq_inv (snd (SetPreallocatedBuffer addr s b c))"
proof (cases "slot_in_range s")
  case False
  then show ?thesis using inv by (simp add: SetPreallocatedBuffer_def)
next
  case s: True
  let ?new = "\<lambda>gb _. BufferSlot_default \<lparr> bs_fence := NoFence, bs_graphic_buffer := Some gb,
                                         bs_frame_number := 0 \<rparr>"
  have new: "bq_inv (set_slot s (?new gb) c)" if "gb_addr gb = addr" for gb
    by (rule inv_fresh_slot [OF inv s fresh _ that]) (simp_all add: BufferSlot_default_def)
  show ?thesis
  proof (cases b)
    case None
    then show ?thesis using s new by (simp add: SetPreallocatedBuffer_def Let_def)
  next
    case (Some x)
    let ?c1 = "set_slot s (?new (x \<lparr> gb_addr := addr \<rparr>)) c"
    let ?c2 = "set_slot s (\<lambda>y. y \<lparr> bs_is_preallocated := True \<rparr>) ?c1"
    have "bq_inv ?c1" by (rule new) simp
    then have c2: "bq_inv ?c2" by (rule inv_keep_slot [OF _ s]) simp_all
    have "bq_inv (?c2 \<lparr> bq_override_max_buffer_count := GetPreallocatedBufferCountLocked ?c2,
        bq_default_width := gb_width x, bq_default_height := gb_height x,
        bq_default_buffer_format := gb_format x \<rparr>)"
      by (rule inv_same [OF c2])
        (use bq_invD(2,4) [OF c2] prealloc_count_range [of ?c2]
          in \<open>simp_all add: counts_ok_def NUM_BUFFER_SLOTS_def\<close>)
    then show ?thesis using s Some by (simp add: SetPreallocatedBuffer_def Let_def)
  qed
qed

text \<open>The consumer's operations remove frames from the front.\<close>

abbreviation make_free :: "BufferSlot \<Rightarrow> BufferSlot" where
  "make_free b \<equiv> b \<lparr> bs_buffer_state := Free \<rparr>"

abbreviation make_acquired :: "BufferSlot \<Rightarrow> BufferSlot" where
  "make_acquired b \<equiv>
     b \<lparr> bs_acquire_called := True, bs_needs_cleanup_on_release := False, bs_buffer_state := Acquired \<rparr>"

definition droppable_front :: "int \<Rightarrow> BufferQueueCore \<Rightarrow> bool" where
  "droppable_front e c \<longleftrightarrow>
     (case bq_queue c of
        front # next_item # rest \<Rightarrow>
          \<not> it_is_auto_timestamp front \<and>
          \<not> (it_timestamp next_item < wrap_s64 (e - MAX_REASONABLE_NSEC) \<or> e < it_timestamp next_item)
      | _ \<Rightarrow> False)"

lemma drop_late_unfold:
  "drop_late e c = (if droppable_front e c then drop_late e (retire make_free c) else c)"
  by (subst drop_late.simps)
    (auto simp: droppable_front_def retire_def Let_def split: list.splits)

lemma droppable_front_length: "droppable_front e c \<Longrightarrow> 1 < length (bq_queue c)"
  by (auto simp: droppable_front_def split: list.splits)

lemma drop_late_induct [consumes 0, case_names stop drop]:
  assumes stop: "\<And>c. \<not> droppable_front e c \<Longrightarrow> P c c"
    and step: "\<And>c. droppable_front e c \<Longrightarrow>
      P (retire make_free c) (drop_late e (retire make_free c)) \<Longrightarrow> P c (drop_late e (retire make_free c))"
  shows "P c (drop_late e c)"
proof (induction "length (bq_queue c)" arbitrary: c rule: less_induct)
  case less
  show ?case
  proof (cases "droppable_front e c")
    case True
    then have "length (bq_queue (retire make_free c)) < length (bq_queue c)"
      using droppable_front_length [OF True] by simp
    then show ?thesis using less step True by (subst drop_late_unfold) simp
  next
    case False
    then show ?thesis using stop by (subst drop_late_unfold) simp
  qed
qed

lemma inv_drop_late: "bq_inv c \<Longrightarrow> bq_inv (drop_late e c)"
proof (induction rule: drop_late_induct [where e = e])
  case (drop c)
  have "bq_queue c \<noteq> []" using droppable_front_length [OF drop(1)] by auto
  then have "bq_inv (retire make_free c)" by (intro inv_retire [OF drop(3)]) simp_all
  then show ?case by (rule drop(2))
qed

lemma drop_late_nonempty: "bq_queue c \<noteq> [] \<Longrightarrow> bq_queue (drop_late e c) \<noteq> []"
proof (induction rule: drop_late_induct [where e = e])
  case (drop c)
  have "bq_queue (retire make_free c) \<noteq> []"
    using droppable_front_length [OF drop(1)] by (cases "bq_queue c") auto
  then show ?case by (rule drop(2))
qed

lemma take_front_retire:
  "snd (take_front c) = SignalDequeueCondition (retire make_acquired c)"
  by (simp add: take_front_def retire_def Let_def)

lemma AcquireBuffer_cases:
  obtains (refused) "AcquireBuffer t c = (Status_InvalidOperation, None, c)"
      "bq_max_acquired_buffer_count c + 1 \<le> int (num_acquired c)"
  | (empty) "AcquireBuffer t c = (Status_NoBufferAvailable, None, c)" "bq_queue c = []"
  | (later) "AcquireBuffer t c = (Status_PresentLater, None, drop_late t c)" "bq_queue c \<noteq> []" "t \<noteq> 0"
  | (taken) c1 where "c1 = (if t \<noteq> 0 then drop_late t c else c)" "bq_queue c1 \<noteq> []"
      "AcquireBuffer t c = (Status_NoError, Some (fst (take_front c1)), snd (take_front c1))"
      "int (num_acquired c) < bq_max_acquired_buffer_count c + 1"
proof (cases "bq_max_acquired_buffer_count c + 1 \<le> int (num_acquired c)")
  case True
  then show thesis using refused by (simp add: AcquireBuffer_def)
next
  case small: False
  let ?c1 = "if t \<noteq> 0 then drop_late t c else c"
  show thesis
  proof (cases "bq_queue c = []")
    case True
    then show thesis using small empty by (simp add: AcquireBuffer_def)
  next
    case False
    then have ne: "bq_queue ?c1 \<noteq> []" using drop_late_nonempty by auto
    let ?d = "it_timestamp (hd (bq_queue ?c1))"
    show thesis
    proof (cases "t \<noteq> 0 \<and> t < ?d \<and> ?d < wrap_s64 (t + MAX_REASONABLE_NSEC)")
      case True
      then have "AcquireBuffer t c = (Status_PresentLater, None, drop_late t c)"
        using small False by (auto simp: AcquireBuffer_def Let_def)
      then show thesis using later False True by blast
    next
      case False
      then have "AcquireBuffer t c = (Status_NoError, Some (fst (take_front ?c1)), snd (take_front ?c1))"
        using small \<open>bq_queue c \<noteq> []\<close>
        by (cases "t = 0") (auto simp: AcquireBuffer_def Let_def split: prod.splits)
      then show thesis using taken [of ?c1] ne small by simp
    qed
  qed
qed

lemma num_acquired_drop_late:
  assumes "bq_inv c"
  shows "acquired_count (bq_slots (drop_late e c)) \<le> acquired_count (bq_slots c)"
  using assms
proof (induction rule: drop_late_induct [where e = e])
  case (drop c)
  have ne: "bq_queue c \<noteq> []" using droppable_front_length [OF drop(1)] by auto
  have "bq_inv (retire make_free c)" by (rule inv_retire [OF drop(3) ne]) simp_all
  from drop(2) [OF this] acquired_retire(2) [OF drop(3) ne, of make_free] show ?case by simp
qed simp

lemma inv_AcquireBuffer:
  assumes inv: "bq_inv c"
  shows "bq_inv (snd (snd (AcquireBuffer t c)))"
proof (cases rule: AcquireBuffer_cases [of t c])
  case (taken c1)
  have inv1: "bq_inv c1" using inv inv_drop_late taken(1) by simp
  have "acquired_count (bq_slots c) = 0"
    using taken(4) bq_invD(5) [OF inv] by (simp add: num_acquired_def acquired_count_def)
  then have "acquired_count (bq_slots c1) = 0"
    using taken(1) num_acquired_drop_late [OF inv, of t] by simp
  then have "bq_inv (retire make_acquired c1)"
    by (intro inv_retire [OF inv1 taken(2)]) simp_all
  then show ?thesis using taken(3) by (simp add: take_front_retire)
qed (use inv inv_drop_late in simp_all)

lemma inv_ReleaseBuffer: "bq_inv c \<Longrightarrow> bq_inv (fst (snd (ReleaseBuffer s n c)))"
  by (auto simp: ReleaseBuffer_def intro: inv_keep_slot)

lemma inv_Consumer_Connect: "bq_inv c \<Longrightarrow> bq_inv (snd (Consumer_Connect l app c))"
  by (auto simp: Consumer_Connect_def bq_inv_def counts_ok_def)

lemma inv_Consumer_Disconnect:
  assumes "bq_inv c"
  shows "bq_inv (snd (Consumer_Disconnect c))"
proof -
  have "bq_inv (FreeAllBuffersLocked
      (c \<lparr> bq_is_abandoned := True, bq_consumer_listener := None, bq_queue := [] \<rparr>))"
    using bq_invD(2,4) [OF assms] by (intro inv_FreeAllBuffersLocked) (simp_all add: counts_ok_def)
  then show ?thesis using assms by (auto simp: Consumer_Disconnect_def)
qed

lemma inv_QueueBuffer_callback:
  "bq_inv c \<Longrightarrow> QueueBuffer_callback t c = Some (calls, c') \<Longrightarrow> bq_inv c'"
  by (auto simp: QueueBuffer_callback_def bq_inv_def counts_ok_def split: if_splits)

lemmas bq_op_inv =
  inv_RequestBuffer inv_SetBufferCount inv_DequeueBuffer_start inv_DequeueBuffer_finish
  inv_DetachBuffer inv_DetachNextBuffer inv_CancelBuffer inv_Producer_Connect
  inv_Producer_Disconnect inv_SetPreallocatedBuffer inv_AcquireBuffer inv_ReleaseBuffer
  inv_Consumer_Connect inv_Consumer_Disconnect

lemma inv_AttachBuffer:
  "bq_inv c \<Longrightarrow> allowed (EAttach b flags) c \<Longrightarrow> bq_inv (snd (AttachBuffer_turn b flags c))"
proof (cases b)
  case None
  then show "bq_inv c \<Longrightarrow> allowed (EAttach b flags) c \<Longrightarrow> bq_inv (snd (AttachBuffer_turn b flags c))"
    by (simp add: AttachBuffer_turn_def)
qed (simp add: inv_AttachBuffer_turn)

lemma bq_inv_step: "bq_inv c \<Longrightarrow> bq_step c e c' \<Longrightarrow> bq_inv c'"
  unfolding bq_step_iff
  by (cases e)
    (auto simp: bq_op_inv dest: inv_DequeueBuffer_resume inv_QueueBuffer_locked
      inv_QueueBuffer_callback intro: inv_AttachBuffer)

lemma bq_inv_start: "bq_start c \<Longrightarrow> bq_inv c"
  by (auto simp: bq_start_def BufferQueueCore_create_def bq_inv_def queue_ok_def counts_ok_def
      acquired_count_def BufferSlot_default_def NUM_BUFFER_SLOTS_def)

interpretation bqs: invariant_system bq_start bq_step bq_inv
  by unfold_locales (auto intro: bq_inv_start bq_inv_step)

end
