(* ===== verification/BufferQueueBehaviour.thy ===== *)
theory BufferQueueBehaviour
  imports BufferQueueSystem "HOL-Library.Code_Target_Nat" "HOL-Library.Code_Target_Int"
begin

text \<open>
  What the producer and the consumer of a buffer queue can rely on: who owns a slot, which slot a
  dequeue takes, in which order frames reach the consumer, what an abandoned queue still does, and
  which operations wake a producer that waits for a slot.
\<close>

section \<open>Running a list of events\<close>

primrec bq_run :: "bq_event list \<Rightarrow> BufferQueueCore \<Rightarrow> BufferQueueCore option" where
  "bq_run [] c = Some c"
| "bq_run (e # es) c =
     (if allowed e c then (case bq_apply e c of None \<Rightarrow> None | Some c' \<Rightarrow> bq_run es c') else None)"

lemma bq_run_sound: "bq_run es c = Some c' \<Longrightarrow> run bq_step c es c'"
proof (induction es arbitrary: c)
  case Nil
  then show ?case by (simp add: run.run_nil)
next
  case (Cons e es)
  then obtain c1 where "allowed e c" "bq_apply e c = Some c1" "bq_run es c1 = Some c'"
    by (auto split: if_splits option.splits)
  then have "bq_step c e c1" "run bq_step c1 es c'"
    using Cons.IH by (blast intro: bq_step.intros)+
  from run_append [OF run_one [of bq_step, OF this(1)] this(2)] show ?case by simp
qed

definition sample_args :: dequeue_args where
  "sample_args = \<lparr> da_async = False, da_width = 0, da_height = 0, da_format = 0, da_usage = 0 \<rparr>"

definition sample_input :: "int \<Rightarrow> QueueBufferInput" where
  "sample_input t =
     \<lparr> qi_timestamp = t, qi_is_auto_timestamp = 0,
       qi_crop = \<lparr> rect_left = 0, rect_top = 0, rect_right = 1, rect_bottom = 1 \<rparr>,
       qi_scaling_mode = 0, qi_transform = 0, qi_sticky_transform = 0, qi_async = 0,
       qi_swap_interval = 1, qi_fence = NoFence \<rparr>"

definition sample_buffer :: GraphicBuffer where
  "sample_buffer =
     \<lparr> gb_addr = 0, gb_width = 1, gb_height = 1, gb_format = 1, gb_usage = 0, gb_handle = 0 \<rparr>"

definition sample_setup :: "bq_event list" where
  "sample_setup =
     [EConsumerConnect (Some 1) False, ESetPreallocated 10 0 (Some sample_buffer),
      ESetPreallocated 11 1 (Some sample_buffer), ESetPreallocated 12 2 (Some sample_buffer),
      EProducerConnect None 2 False]"

definition sample_frame :: "int \<Rightarrow> int \<Rightarrow> bq_event list" where
  "sample_frame s t = [EDequeueStart sample_args, ERequest s, EQueue s (sample_input t)]"

section \<open>Ownership\<close>

text \<open>
  C22. After any sequence of producer and consumer operations, every frame in the queue names a
  slot of the array; a frame whose buffer is still that of its slot has a slot in state Queued, so
  that neither the producer nor the consumer owns it, and no two such frames share a slot. The
  consumer holds at most one buffer, and the number of usable slots is between 1 and 64.
\<close>

theorem slot_ownership:
  assumes "run bq_step BufferQueueCore_create es c"
  shows "(\<forall>item \<in> set (bq_queue c). slot_in_range (it_slot item) \<and>
            (StillTracking c item \<longrightarrow> bs_buffer_state (slot_at c (it_slot item)) = Queued)) \<and>
         distinct (map it_slot (filter (StillTracking c) (bq_queue c))) \<and>
         num_acquired c \<le> 1 \<and>
         0 < GetMaxBufferCountLocked c async \<and> GetMaxBufferCountLocked c async \<le> NUM_BUFFER_SLOTS"
proof -
  have inv: "bq_inv c"
    using bqs.reachable_inv [OF _ assms] by (simp add: bq_start_def)
  have "StillTracking c = tracked (bq_slots c)" by (rule ext) (rule StillTracking_tracked)
  then show ?thesis
    using bq_invD(1,3) [OF inv] GetMaxBufferCountLocked_range [OF inv, of async]
    by (simp add: queue_ok_def num_acquired_def acquired_count_def NUM_BUFFER_SLOTS_def)
qed

theorem slot_ownership_witness:
  "\<exists>c. bq_run (sample_setup @ sample_frame 0 5 @ sample_frame 1 6 @ [EAcquire 0]) BufferQueueCore_create = Some c \<and>
     length (bq_queue c) = 1 \<and> num_acquired c = 1 \<and>
     distinct (map it_slot (filter (StillTracking c) (bq_queue c))) \<and> num_acquired c \<le> 1"
proof -
  have "(case bq_run (sample_setup @ sample_frame 0 5 @ sample_frame 1 6 @ [EAcquire 0]) BufferQueueCore_create of
      None \<Rightarrow> False | Some c \<Rightarrow> length (bq_queue c) = 1 \<and> num_acquired c = 1)"
    by code_simp
  then obtain c where c:
    "bq_run (sample_setup @ sample_frame 0 5 @ sample_frame 1 6 @ [EAcquire 0]) BufferQueueCore_create = Some c"
    "length (bq_queue c) = 1 \<and> num_acquired c = 1"
    by (auto split: option.splits)
  then show ?thesis using slot_ownership [OF bq_run_sound [OF c(1)], of True] by blast
qed

section \<open>Dequeue\<close>

text \<open>
  C23. When \<^verbatim>\<open>DequeueBuffer\<close> finds a slot, it is a free slot below the maximal buffer count whose frame
  number is least among the free slots there, so that buffers are reused in the order in which they
  were queued. The slot is then Dequeued, every other slot below the count is as before, and the queue
  of frames is unchanged.
\<close>

theorem dequeue_takes_oldest_free:
  assumes run: "run bq_step BufferQueueCore_create es c"
    and turn: "DequeueBuffer_turn a flags c = (DequeueAllocates r, c')"
    and m: "m = GetMaxBufferCountLocked c (da_async a)"
  shows "0 \<le> dr_slot r \<and> dr_slot r < m \<and> bs_buffer_state (slot_at c (dr_slot r)) = Free \<and>
    (\<forall>k. 0 \<le> k \<and> k < m \<and> bs_buffer_state (slot_at c k) = Free \<longrightarrow>
       bs_frame_number (slot_at c (dr_slot r)) \<le> bs_frame_number (slot_at c k)) \<and>
    bs_buffer_state (slot_at c' (dr_slot r)) = Dequeued \<and>
    (\<forall>k. 0 \<le> k \<and> k < m \<and> k \<noteq> dr_slot r \<longrightarrow> slot_at c' k = slot_at c k) \<and>
    bq_queue c' = bq_queue c"
proof -
  have inv: "bq_inv c" using bqs.reachable_inv [OF _ run] by (simp add: bq_start_def)
  obtain flags' c1 realloc where w: "WaitForFreeSlot_turn (da_async a) flags c = (Found (dr_slot r), flags', c1)"
    and trim: "trimmed {s. m \<le> s} c c1"
    and c': "c' = set_slot (dr_slot r) (taken_slot realloc) c1"
    and s: "slot_in_range (dr_slot r)"
    using DequeueBuffer_turn_found [OF inv turn] m by metis
  note found = wait_turn_found [OF inv w, folded m]
  have m64: "m \<le> 64" using GetMaxBufferCountLocked_range(2) [OF inv] m by simp
  have i: "nat (dr_slot r) < length (bq_slots c1)"
    using bq_invD(4) [OF inv_trimmed [OF trim inv]] s by (auto simp: in_range_iff)
  have "bs_buffer_state (slot_at c' (dr_slot r)) = Dequeued"
    using i by (simp add: c' taken_slot_def)
  moreover have "slot_at c' k = slot_at c k" if "0 \<le> k" "k < m" "k \<noteq> dr_slot r" for k
  proof -
    have "slot_at c1 k = slot_at c k"
      using trim that m64 unfolding trimmed_def by (auto simp: in_range_iff)
    moreover have "nat k \<noteq> nat (dr_slot r)" using that found(1) by auto
    ultimately show ?thesis by (simp add: c')
  qed
  moreover have "bq_queue c' = bq_queue c" using trimmed_fields(1) [OF trim] by (simp add: c')
  ultimately show ?thesis using found(1-4) by blast
qed

theorem dequeue_takes_oldest_free_witness:
  "\<exists>c r c'. bq_run (sample_setup @ sample_frame 0 5 @ [EAcquire 0, ERelease 0 1]) BufferQueueCore_create = Some c \<and>
     DequeueBuffer_turn sample_args 0 c = (DequeueAllocates r, c') \<and> dr_slot r = 1 \<and>
     bs_buffer_state (slot_at c 0) = Free \<and> bs_buffer_state (slot_at c' (dr_slot r)) = Dequeued"
proof -
  let ?es = "sample_setup @ sample_frame 0 5 @ [EAcquire 0, ERelease 0 1]"
  have "(case bq_run ?es BufferQueueCore_create of None \<Rightarrow> False
      | Some c \<Rightarrow> bs_buffer_state (bq_slots c ! 0) = Free \<and>
         (case DequeueBuffer_turn sample_args 0 c of
            (DequeueAllocates r, c') \<Rightarrow> dr_slot r = 1 | _ \<Rightarrow> False))"
    by code_simp
  then obtain c r c' where c: "bq_run ?es BufferQueueCore_create = Some c"
    "DequeueBuffer_turn sample_args 0 c = (DequeueAllocates r, c')" "dr_slot r = 1"
    "bs_buffer_state (slot_at c 0) = Free"
    by (auto split: option.splits prod.splits dequeue_outcome.splits)
  then show ?thesis
    using dequeue_takes_oldest_free [OF bq_run_sound [OF c(1)] c(2) refl] by blast
qed

section \<open>Abandonment\<close>

definition dead :: "BufferQueueCore \<Rightarrow> bool" where
  "dead c \<longleftrightarrow> bq_is_abandoned c \<and> bq_queue c = [] \<and> (\<forall>b \<in> set (bq_slots c). bs_buffer_state b = Free) \<and>
     length (bq_slots c) = 64 \<and> bq_consumer_listener c = None"

lemma dead_wait: "dead c \<Longrightarrow> WaitForFreeSlot_turn async flags c = (Failed Status_NoInit, flags, c)"
  by (simp add: dead_def WaitForFreeSlot_turn_def)

lemma dead_dequeue: "dead c \<Longrightarrow> DequeueBuffer_turn a flags c = (DequeueReturns Status_NoInit, c)"
  by (simp add: DequeueBuffer_turn_def dead_wait)

lemma dead_set_slot:
  "dead c \<Longrightarrow> bs_buffer_state (f (slot_at c s)) = Free \<Longrightarrow> dead (set_slot s f c)"
  by (auto simp: dead_def dest!: set_update_subset_insert [THEN subsetD])

lemma dead_slot: "dead c \<Longrightarrow> slot_in_range s \<Longrightarrow> bs_buffer_state (slot_at c s) = Free"
  by (auto simp: dead_def in_range_iff)

lemma dead_preallocate:
  assumes "dead c"
  shows "dead (snd (SetPreallocatedBuffer addr s b c))"
proof -
  have keep: "dead (c \<lparr> bq_override_max_buffer_count := k, bq_default_width := x,
      bq_default_height := y, bq_default_buffer_format := z \<rparr>) = dead c"
    "dead (SignalDequeueCondition c) = dead c" "dead (signal_wait_event c) = dead c" for c k x y z
    by (simp_all add: dead_def SignalDequeueCondition_def signal_wait_event_def)
  show ?thesis
  proof (cases "slot_in_range s")
    case True
    then have i: "nat s < length (bq_slots c)" using assms by (auto simp: dead_def in_range_iff)
    have 1: "dead (set_slot s (\<lambda>_. BufferSlot_default \<lparr> bs_fence := NoFence, bs_graphic_buffer := Some gb,
        bs_frame_number := 0 \<rparr>) c)" for gb
      by (rule dead_set_slot [OF assms]) (simp add: BufferSlot_default_def)
    then have 2: "dead (set_slot s (\<lambda>x. x \<lparr> bs_is_preallocated := True \<rparr>)
        (set_slot s (\<lambda>_. BufferSlot_default \<lparr> bs_fence := NoFence, bs_graphic_buffer := Some gb,
          bs_frame_number := 0 \<rparr>) c))" for gb
      by (rule dead_set_slot) (use i in \<open>simp add: BufferSlot_default_def\<close>)
    show ?thesis
      using True 1 2 by (cases b) (simp_all add: SetPreallocatedBuffer_def Let_def keep)
  qed (use assms in \<open>simp add: SetPreallocatedBuffer_def\<close>)
qed

lemma dead_release:
  assumes "dead c"
  shows "dead (fst (snd (ReleaseBuffer s n c)))"
proof (cases "slot_in_range s")
  case True
  note dead_slot [OF assms True]
  then show ?thesis
    using assms by (auto simp: ReleaseBuffer_def intro: dead_set_slot)
qed (use assms in \<open>simp add: ReleaseBuffer_def\<close>)

lemma dead_attach: "dead c \<Longrightarrow> snd (AttachBuffer_turn b flags c) = c"
  by (simp add: AttachBuffer_turn_def dead_wait)

lemma dead_abandoned: "dead c \<Longrightarrow> bq_is_abandoned c" "dead c \<Longrightarrow> bq_queue c = []"
  "dead c \<Longrightarrow> bq_consumer_listener c = None"
  by (simp_all add: dead_def)

lemma dead_step:
  assumes d: "dead c" and step: "bq_step c e c'"
  shows "dead c'"
proof -
  note ab = dead_abandoned [OF d]
  have ap: "bq_apply e c = Some c'" using step by (simp add: bq_step_iff)
  show ?thesis
  proof (cases e)
    case (EDequeueResume a flags)
    have "dead (c \<lparr> bq_dequeue_possible := False \<rparr>)" using d by (simp add: dead_def)
    then show ?thesis
      using ap EDequeueResume dead_dequeue [of "c \<lparr> bq_dequeue_possible := False \<rparr>" a flags]
      by (auto simp: DequeueBuffer_resume_def WaitForDequeueCondition_def split: if_splits)
  next
    case (EQueue s i)
    have "\<not> queue_allowed s i c" using ab by (simp add: queue_allowed_def)
    then show ?thesis using ap EQueue d QueueBuffer_locked_fail(2) by fastforce
  next
    case (ECallback t)
    then show ?thesis
      using ap d by (auto simp: QueueBuffer_callback_def dead_def split: if_splits)
  next
    case (EAcquire t)
    then show ?thesis using ap d ab by (auto simp: AcquireBuffer_def)
  next
    case (EDequeueFinish addr r)
    then show ?thesis using ap d ab by (auto simp: DequeueBuffer_finish_def Let_def)
  qed (use ap d ab dead_preallocate [OF d] dead_release [OF d] in
      \<open>auto simp: RequestBuffer_def SetBufferCount_def DequeueBuffer_start_def dead_dequeue dead_attach
        DetachBuffer_def DetachNextBuffer_def CancelBuffer_def Producer_Connect_def
        Producer_Disconnect_def Consumer_Connect_def Consumer_Disconnect_def\<close>)
qed

interpretation abandoned: invariant_system dead bq_step dead
  by unfold_locales (auto intro: dead_step)

lemma dead_after_disconnect:
  assumes inv: "bq_inv c" and l: "bq_consumer_listener c \<noteq> None"
  shows "dead (snd (Consumer_Disconnect c))"
proof -
  have "bq_slots (FreeAllBuffersLocked
      (c \<lparr> bq_is_abandoned := True, bq_consumer_listener := None, bq_queue := [] \<rparr>)) =
      map free_slot (bq_slots c)"
    using bq_invD(4) [OF inv] by (subst FreeAllBuffersLocked_slots) (simp_all add: NUM_BUFFER_SLOTS_def)
  moreover have "bq_consumer_listener (FreeAllBuffersLocked c') = bq_consumer_listener c'" for c'
  proof -
    have "bq_consumer_listener (fold FreeBufferLocked ss c') = bq_consumer_listener c'" for ss c'
      by (induction ss arbitrary: c') (simp_all add: FreeBufferLocked_def)
    then show ?thesis by (simp add: FreeAllBuffersLocked_def)
  qed
  ultimately show ?thesis
    using l bq_invD(4) [OF inv]
    by (auto simp: Consumer_Disconnect_def dead_def SignalDequeueCondition_def)
qed

text \<open>
  C24. Abandonment is final. Once a connected consumer disconnects, whatever either side does
  afterwards, the queue of frames stays empty, every slot stays free, and the consumer can neither acquire a frame nor
  connect again. The producer's operations on buffers (requesting, dequeuing, the second part of a dequeue that has to allocate,
  detaching, attaching and queuing a buffer, setting the buffer count), \<^verbatim>\<open>Query\<close> and \<^verbatim>\<open>Connect\<close> with proper arguments
  return \<^verbatim>\<open>NoInit\<close> and change nothing; \<^verbatim>\<open>CancelBuffer\<close> and \<^verbatim>\<open>Disconnect\<close> change nothing, the latter with success.
  Only \<^verbatim>\<open>SetPreallocatedBuffer\<close> still stores a buffer in its slot, which stays free.
\<close>

theorem abandonment_is_final:
  assumes run: "run bq_step BufferQueueCore_create es c" and l: "bq_consumer_listener c \<noteq> None"
    and later: "run bq_step (snd (Consumer_Disconnect c)) fs d"
  shows "bq_is_abandoned d \<and> bq_queue d = [] \<and> (\<forall>b \<in> set (bq_slots d). bs_buffer_state b = Free) \<and>
    RequestBuffer s d = (Status_NoInit, None, d) \<and> SetBufferCount n d = (Status_NoInit, d, []) \<and>
    DequeueBuffer_turn a flags d = (DequeueReturns Status_NoInit, d) \<and>
    (dr_flags r AND Status_BufferNeedsReallocation \<noteq> 0 \<longrightarrow> DequeueBuffer_finish addr r d = (Status_NoInit, d)) \<and>
    DetachBuffer s d = (Status_NoInit, d) \<and> DetachNextBuffer d = (Status_NoInit, None, Fence_default, d) \<and>
    AttachBuffer_turn (Some gb) flags d = (AttachReturns Status_NoInit 0, d) \<and>
    (valid_scaling_mode (qi_scaling_mode i) \<longrightarrow>
       QueueBuffer_locked s i d = Some (Status_NoInit, QueueBufferOutput_default, d, None)) \<and>
    CancelBuffer s fence d = d \<and> Query what d = (Status_NoInit, None) \<and>
    Producer_Connect pl api app d = (Status_NoInit, QueueBufferOutput_default, d) \<and>
    Producer_Disconnect api d = (Status_NoError, d, []) \<and>
    fst (AcquireBuffer t d) \<noteq> Status_NoError \<and> fst (Consumer_Connect x app d) \<noteq> Status_NoError"
proof -
  have inv: "bq_inv c" using bqs.reachable_inv [OF _ run] by (simp add: bq_start_def)
  have d: "dead d" by (rule abandoned.run_preserves [OF later dead_after_disconnect [OF inv l]])
  then have ab: "bq_is_abandoned d" "bq_queue d = []" "\<forall>b \<in> set (bq_slots d). bs_buffer_state b = Free"
    by (simp_all add: dead_def)
  have "AttachBuffer_turn (Some gb) flags d = (AttachReturns Status_NoInit 0, d)"
    by (simp add: AttachBuffer_turn_def WaitForFreeSlot_turn_def ab(1))
  moreover have "QueueBuffer_locked s i d = Some (Status_NoInit, QueueBufferOutput_default, d, None)"
    if "valid_scaling_mode (qi_scaling_mode i)" using that by (simp add: QueueBuffer_locked_def Let_def ab(1))
  moreover have "DequeueBuffer_finish addr r d = (Status_NoInit, d)" if "dr_flags r AND Status_BufferNeedsReallocation \<noteq> 0"
    using that by (simp add: DequeueBuffer_finish_def Let_def ab(1))
  ultimately show ?thesis
    using ab dead_dequeue [OF d]
    by (simp add: RequestBuffer_def SetBufferCount_def DetachBuffer_def DetachNextBuffer_def CancelBuffer_def Query_def
        Producer_Connect_def Producer_Disconnect_def AcquireBuffer_def Consumer_Connect_def)
qed

theorem abandonment_is_final_witness:
  "\<exists>c d. bq_run (sample_setup @ sample_frame 0 5) BufferQueueCore_create = Some c \<and>
     length (bq_queue c) = 1 \<and>
     bq_run [EDequeueStart sample_args, EConsumerConnect (Some 2) True] (snd (Consumer_Disconnect c)) = Some d \<and>
     bq_is_abandoned d \<and> bq_queue d = [] \<and> RequestBuffer 0 d = (Status_NoInit, None, d)"
proof -
  let ?es = "sample_setup @ sample_frame 0 5"
  let ?fs = "[EDequeueStart sample_args, EConsumerConnect (Some 2) True]"
  have "(case bq_run ?es BufferQueueCore_create of None \<Rightarrow> False
      | Some c \<Rightarrow> length (bq_queue c) = 1 \<and> bq_consumer_listener c \<noteq> None \<and>
         (case bq_run ?fs (snd (Consumer_Disconnect c)) of None \<Rightarrow> False | Some d \<Rightarrow> True))"
    by code_simp
  then obtain c d where c: "bq_run ?es BufferQueueCore_create = Some c" "length (bq_queue c) = 1"
    "bq_consumer_listener c \<noteq> None" "bq_run ?fs (snd (Consumer_Disconnect c)) = Some d"
    by (auto split: option.splits)
  then show ?thesis
    using abandonment_is_final [OF bq_run_sound [OF c(1)] c(3) bq_run_sound [OF c(4)], where s = 0]
    by blast
qed

section \<open>Waking a waiting producer\<close>

text \<open>What the wait for a free slot waits for: a slot has become free, or the queue is shorter.\<close>

definition opens :: "BufferQueueCore \<Rightarrow> BufferQueueCore \<Rightarrow> bool" where
  "opens c c' \<longleftrightarrow>
     (\<exists>k. slot_in_range k \<and> bs_buffer_state (slot_at c k) \<noteq> Free \<and> bs_buffer_state (slot_at c' k) = Free) \<or>
     length (bq_queue c') < length (bq_queue c)"

lemma not_opens_same: "bq_slots c' = bq_slots c \<Longrightarrow> bq_queue c' = bq_queue c \<Longrightarrow> \<not> opens c c'"
  by (simp add: opens_def)

lemma not_opens_trimmed: "trimmed A c c' \<Longrightarrow> \<not> opens c c'"
  by (auto simp: opens_def trimmed_fields(1)) (auto simp: trimmed_def)

lemma not_opens_set_slot:
  assumes "bs_buffer_state (f (slot_at c s)) \<noteq> Free \<or> bs_buffer_state (slot_at c s) = Free"
  shows "\<not> opens c (set_slot s f c)"
proof -
  have "bs_buffer_state (bq_slots c ! k) = Free"
    if "bs_buffer_state ((bq_slots c) [nat s := f (slot_at c s)] ! k) = Free" for k
    using that assms
    by (cases "k = nat s"; cases "k < length (bq_slots c)") (auto simp: list_update_beyond)
  then show ?thesis by (auto simp: opens_def)
qed

lemma not_opens_trimmed_set_slot:
  assumes t: "trimmed A c c1"
    and f: "bs_buffer_state (f (slot_at c1 s)) \<noteq> Free \<or> bs_buffer_state (slot_at c1 s) = Free"
  shows "\<not> opens c (set_slot s f c1)"
  using not_opens_trimmed [OF t] not_opens_set_slot [of f c1 s, OF f] trimmed_fields(1) [OF t] t
  unfolding opens_def trimmed_def by auto

lemma not_opens_dequeue:
  assumes inv: "bq_inv c"
  shows "\<not> opens c (snd (DequeueBuffer_turn a flags c))"
proof -
  obtain out c' where turn: "DequeueBuffer_turn a flags c = (out, c')"
    by (cases "DequeueBuffer_turn a flags c") auto
  show ?thesis
  proof (cases "\<exists>r. out = DequeueAllocates r")
    case True
    then obtain r where r: "DequeueBuffer_turn a flags c = (DequeueAllocates r, c')" using turn by blast
    obtain A realloc c1 where "trimmed A c c1" "c' = set_slot (dr_slot r) (taken_slot realloc) c1"
      using DequeueBuffer_turn_found [OF inv r] by metis
    then show ?thesis
      using turn not_opens_trimmed_set_slot [of A c c1 "taken_slot realloc"]
      by (simp add: taken_slot_def)
  next
    case False
    then show ?thesis using DequeueBuffer_turn_other [OF turn] turn not_opens_trimmed by auto
  qed
qed

lemma not_opens_attach: "\<not> opens c (snd (AttachBuffer_turn b flags c))"
proof -
  obtain out flags' c1 where w: "WaitForFreeSlot_turn False flags c = (out, flags', c1)"
    by (cases "WaitForFreeSlot_turn False flags c") auto
  note t = wait_turn_state [OF w]
  show ?thesis
    using w not_opens_trimmed [OF t] not_opens_trimmed_set_slot [OF t]
    by (cases out) (auto simp: AttachBuffer_turn_def not_opens_same)
qed

lemma oldest_free_buffer_state:
  assumes "f = INVALID_BUFFER_SLOT \<or> bs_buffer_state (bs ! nat f) = Free"
  shows "foldl (oldest_free_buffer bs) f ss = INVALID_BUFFER_SLOT \<or>
    bs_buffer_state (bs ! nat (foldl (oldest_free_buffer bs) f ss)) = Free"
  using assms
proof (induction ss arbitrary: f)
  case (Cons s ss)
  show ?case
    unfolding foldl.simps by (rule Cons.IH) (use Cons.prems in \<open>auto simp: oldest_free_buffer_def\<close>)
qed simp

lemma not_opens_detach_next: "\<not> opens c (snd (snd (snd (DetachNextBuffer c))))"
proof -
  let ?f = "foldl (oldest_free_buffer (bq_slots c)) INVALID_BUFFER_SLOT (map int [0..<nat NUM_BUFFER_SLOTS])"
  have f: "?f = INVALID_BUFFER_SLOT \<or> bs_buffer_state (slot_at c ?f) = Free"
    by (rule oldest_free_buffer_state) simp
  show ?thesis
  proof (cases "bq_is_abandoned c \<or> ?f = INVALID_BUFFER_SLOT")
    case True
    then have "snd (snd (snd (DetachNextBuffer c))) = c" by (auto simp: DetachNextBuffer_def Let_def)
    then show ?thesis by (simp add: not_opens_same)
  next
    case False
    then have eq: "snd (snd (snd (DetachNextBuffer c))) = set_slot ?f free_slot c"
      by (simp add: DetachNextBuffer_def Let_def FreeBufferLocked_def)
    show ?thesis unfolding eq by (rule not_opens_set_slot) (use f False in blast)
  qed
qed

lemma drop_late_front:
  "drop_late e c = c \<or> it_timestamp (hd (bq_queue (drop_late e c))) \<le> e"
proof (induction rule: drop_late_induct [where e = e])
  case (drop c)
  have "it_timestamp (hd (bq_queue (retire make_free c))) \<le> e"
    using drop(1) by (auto simp: droppable_front_def split: list.splits)
  then show ?case using drop(2) by auto
qed simp

lemma AcquireBuffer_later_keeps:
  assumes "fst (AcquireBuffer t c) = Status_PresentLater"
  shows "AcquireBuffer t c = (Status_PresentLater, None, c)"
proof -
  have "t < it_timestamp (hd (bq_queue (drop_late t c)))"
    "AcquireBuffer t c = (Status_PresentLater, None, drop_late t c)"
    using assms by (auto simp: AcquireBuffer_def Let_def split: if_splits prod.splits)
  then show ?thesis using drop_late_front [of t c] by auto
qed

lemma opens_acquire:
  assumes "opens c (snd (snd (AcquireBuffer t c)))"
  shows "bq_dequeue_possible (snd (snd (AcquireBuffer t c)))"
proof (cases rule: AcquireBuffer_cases [of t c])
  case later
  then show ?thesis using assms AcquireBuffer_later_keeps [of t c] by (simp add: not_opens_same)
qed (use assms in \<open>auto simp: not_opens_same take_front_retire\<close>)

lemma opens_release:
  assumes "opens c (fst (snd (ReleaseBuffer s n c)))"
  shows "bq_dequeue_possible (fst (snd (ReleaseBuffer s n c)))"
  using assms not_opens_set_slot [of "\<lambda>b. b \<lparr> bs_needs_cleanup_on_release := False \<rparr>" c s]
  by (auto simp: ReleaseBuffer_def not_opens_same split: if_splits)

lemma signal_wait_possible [simp]: "bq_dequeue_possible (signal_wait_event c) = bq_dequeue_possible c"
  by (simp add: signal_wait_event_def)

lemma not_opens_resume:
  assumes "bq_inv c" "bq_apply (EDequeueResume a flags) c = Some c'"
  shows "\<not> opens c c'"
proof -
  have "bq_inv (c \<lparr> bq_dequeue_possible := False \<rparr>)" using assms(1) by (simp add: bq_inv_def counts_ok_def)
  from not_opens_dequeue [OF this, of a flags] show ?thesis
    using assms(2)
    by (auto simp: DequeueBuffer_resume_def WaitForDequeueCondition_def opens_def split: if_splits)
qed

lemma not_opens_finish: "bq_apply (EDequeueFinish addr r) c = Some c' \<Longrightarrow> \<not> opens c c'"
  using not_opens_set_slot [of "\<lambda>b. b \<lparr> bs_frame_number := UINT32_MAX,
    bs_graphic_buffer := Some \<lparr> gb_addr = addr, gb_width = dr_width r, gb_height = dr_height r,
      gb_format = dr_format r, gb_usage = dr_usage r, gb_handle = 0 \<rparr> \<rparr>" c "dr_slot r"]
  by (auto simp: DequeueBuffer_finish_def Let_def not_opens_same split: if_splits)

lemma opens_queue:
  assumes "bq_apply (EQueue s i) c = Some c'" "opens c c'"
  shows "bq_dequeue_possible c'"
proof (cases "queue_allowed s i c")
  case True
  then show ?thesis
    using assms(1) by (auto simp: QueueBuffer_locked_ok queued_state_def SignalDequeueCondition_def)
next
  case False
  then have "c' = c" using assms(1) QueueBuffer_locked_fail(2) by fastforce
  then show ?thesis using assms(2) by (simp add: not_opens_same)
qed

text \<open>
  C25. A producer that waits is woken: after every operation that makes a slot free or shortens the
  queue of frames, the dequeue condition is set. In particular an acquire that defers the frame, and
  returns without signalling, has not dropped any frame.
\<close>

theorem freeing_signals_producer:
  assumes run: "run bq_step BufferQueueCore_create es c" and step: "bq_step c e c'" and op: "opens c c'"
  shows "bq_dequeue_possible c'"
proof -
  have inv: "bq_inv c" using bqs.reachable_inv [OF _ run] by (simp add: bq_start_def)
  have ap: "bq_apply e c = Some c'" using step by (simp add: bq_step_iff)
  show ?thesis
  proof (cases e)
    case (EDequeueResume a flags)
    then show ?thesis using not_opens_resume [OF inv] ap op by blast
  next
    case (EQueue s i)
    then show ?thesis using opens_queue ap op by blast
  next
    case (EDequeueStart a)
    then show ?thesis
      using ap op not_opens_dequeue [OF inv] by (auto simp: DequeueBuffer_start_def not_opens_same split: if_splits)
  next
    case (ERequest s)
    then show ?thesis
      using ap op not_opens_set_slot [of "\<lambda>b. b \<lparr> bs_request_buffer_called := True \<rparr>" c s]
      by (auto simp: RequestBuffer_def not_opens_same split: if_splits)
  next
    case (EDequeueFinish addr r)
    then show ?thesis using not_opens_finish ap op by blast
  next
    case (ECallback t)
    then show ?thesis using ap op by (auto simp: QueueBuffer_callback_def opens_def split: if_splits)
  next
    case (EAcquire t)
    then show ?thesis using ap op opens_acquire by auto
  next
    case (ERelease s n)
    then show ?thesis using ap op opens_release by auto
  qed (use ap op not_opens_attach [of c] not_opens_detach_next [of c] in
      \<open>auto simp: SetBufferCount_def Let_def DetachBuffer_def CancelBuffer_def Producer_Connect_def
        Producer_Disconnect_def SetPreallocatedBuffer_def Consumer_Connect_def Consumer_Disconnect_def
        not_opens_same split: if_splits\<close>)
qed

theorem freeing_signals_producer_witness:
  "\<exists>c c'. bq_run (sample_setup @ sample_frame 0 5 @ [EAcquire 0]) BufferQueueCore_create = Some c \<and>
     bq_step c (ERelease 0 1) c' \<and> opens c c' \<and> bq_dequeue_possible c'"
proof -
  let ?es = "sample_setup @ sample_frame 0 5 @ [EAcquire 0]"
  have "(case bq_run ?es BufferQueueCore_create of None \<Rightarrow> False
      | Some c \<Rightarrow> bs_buffer_state (bq_slots c ! 0) = Acquired \<and>
         bs_buffer_state (bq_slots (fst (snd (ReleaseBuffer 0 1 c))) ! 0) = Free)"
    by code_simp
  then obtain c where c: "bq_run ?es BufferQueueCore_create = Some c"
    "bs_buffer_state (slot_at c 0) \<noteq> Free" "bs_buffer_state (slot_at (fst (snd (ReleaseBuffer 0 1 c))) 0) = Free"
    by (auto split: option.splits)
  have step: "bq_step c (ERelease 0 1) (fst (snd (ReleaseBuffer 0 1 c)))" by (simp add: bq_step_iff)
  have op: "opens c (fst (snd (ReleaseBuffer 0 1 c)))"
    unfolding opens_def using c(2,3) by (intro disjI1 exI [of _ 0]) (simp add: in_range_iff)
  show ?thesis
    using c(1) step op freeing_signals_producer [OF bq_run_sound [OF c(1)] step op] by blast
qed

section \<open>The order of frames\<close>

text \<open>
  Without asynchronous frames, and when not both sides are controlled by the application, no frame
  is droppable. Then the queue is a queue: its frame numbers increase from front to back, and every
  acquire takes from the front.
\<close>

fun synchronous :: "bq_event \<Rightarrow> bool" where
  "synchronous (EQueue s i) \<longleftrightarrow> qi_async i = 0"
| "synchronous (EProducerConnect l api app) \<longleftrightarrow> \<not> app"
| "synchronous _ \<longleftrightarrow> True"

definition frames :: "BufferQueueCore \<Rightarrow> nat list" where
  "frames c = map it_frame_number (bq_queue c)"

definition in_order :: "BufferQueueCore \<Rightarrow> bool" where
  "in_order c \<longleftrightarrow> sorted_wrt (<) (frames c) \<and> (\<forall>n \<in> set (frames c). n \<le> bq_frame_counter c) \<and>
     (\<forall>item \<in> set (bq_queue c). \<not> it_is_droppable item) \<and> \<not> bq_dequeue_buffer_cannot_block c"

text \<open>How an operation may change the queue, the frame counter and the blocking mode.\<close>

definition suffix_step :: "BufferQueueCore \<Rightarrow> BufferQueueCore \<Rightarrow> bool" where
  "suffix_step c c' \<longleftrightarrow> (\<exists>k. bq_queue c' = drop k (bq_queue c)) \<and> bq_frame_counter c' = bq_frame_counter c \<and>
     (bq_dequeue_buffer_cannot_block c' \<longrightarrow> bq_dequeue_buffer_cannot_block c)"

lemma suffix_keep:
  "bq_queue c' = bq_queue c \<Longrightarrow> bq_frame_counter c' = bq_frame_counter c \<Longrightarrow>
     bq_dequeue_buffer_cannot_block c' = bq_dequeue_buffer_cannot_block c \<Longrightarrow> suffix_step c c'"
  unfolding suffix_step_def by (metis drop_0)

lemma suffix_clear:
  "bq_queue c' = [] \<Longrightarrow> bq_frame_counter c' = bq_frame_counter c \<Longrightarrow>
     bq_dequeue_buffer_cannot_block c' = bq_dequeue_buffer_cannot_block c \<Longrightarrow> suffix_step c c'"
  unfolding suffix_step_def by (metis drop_all order_refl)

lemma suffix_trans: "suffix_step c c1 \<Longrightarrow> suffix_step c1 c2 \<Longrightarrow> suffix_step c c2"
  unfolding suffix_step_def by (metis drop_drop)

lemma suffix_retire: "suffix_step c (retire f c)"
proof -
  have "bq_queue (retire f c) = drop 1 (bq_queue c)" by (simp add: drop_Suc)
  moreover have "bq_dequeue_buffer_cannot_block (retire f c) = bq_dequeue_buffer_cannot_block c"
    by (simp add: retire_def Let_def)
  ultimately show ?thesis unfolding suffix_step_def by auto
qed

lemma suffix_drop_late: "suffix_step c (drop_late e c)"
proof (induction rule: drop_late_induct [where e = e])
  case (stop c)
  then show ?case by (simp add: suffix_keep)
next
  case (drop c)
  then show ?case using suffix_trans suffix_retire by blast
qed

lemma suffix_trimmed: "trimmed A c c' \<Longrightarrow> suffix_step c c'"
  by (auto simp: trimmed_def intro: suffix_keep)

lemma suffix_signal [simp]:
  "suffix_step c (SignalDequeueCondition c') = suffix_step c c'"
  "suffix_step c (signal_wait_event c') = suffix_step c c'"
  "suffix_step c (set_slot s f c') = suffix_step c c'"
  by (simp_all add: suffix_step_def SignalDequeueCondition_def signal_wait_event_def)

lemma suffix_refl [simp]: "suffix_step c c"
  by (simp add: suffix_keep)

lemma suffix_acquire: "suffix_step c (snd (snd (AcquireBuffer t c)))"
proof (cases rule: AcquireBuffer_cases [of t c])
  case (taken c1)
  have "suffix_step c c1" using taken(1) suffix_drop_late by simp
  then show ?thesis using taken(3) suffix_trans [OF _ suffix_retire] by (simp add: take_front_retire)
qed (simp_all add: suffix_drop_late)

lemma suffix_dequeue: "bq_inv c \<Longrightarrow> suffix_step c (snd (DequeueBuffer_turn a flags c))"
proof -
  assume inv: "bq_inv c"
  obtain out c' where turn: "DequeueBuffer_turn a flags c = (out, c')"
    by (cases "DequeueBuffer_turn a flags c") auto
  show ?thesis
  proof (cases "\<exists>r. out = DequeueAllocates r")
    case True
    then obtain r where r: "DequeueBuffer_turn a flags c = (DequeueAllocates r, c')" using turn by blast
    obtain A realloc c1 where "trimmed A c c1" "c' = set_slot (dr_slot r) (taken_slot realloc) c1"
      using DequeueBuffer_turn_found [OF inv r] by metis
    then show ?thesis using turn suffix_trimmed by simp
  next
    case False
    then show ?thesis using DequeueBuffer_turn_other [OF turn] turn suffix_trimmed by auto
  qed
qed

lemma suffix_attach: "suffix_step c (snd (AttachBuffer_turn b flags c))"
proof -
  obtain out flags' c1 where w: "WaitForFreeSlot_turn False flags c = (out, flags', c1)"
    by (cases "WaitForFreeSlot_turn False flags c") auto
  then show ?thesis
    using suffix_trimmed [OF wait_turn_state [OF w]] by (cases out) (auto simp: AttachBuffer_turn_def)
qed

lemma suffix_FreeAll: "suffix_step c (FreeAllBuffersLocked c') = suffix_step c c'"
  by (simp add: suffix_step_def)

lemma step_not_queue_suffix:
  assumes inv: "bq_inv c" and ap: "bq_apply e c = Some c'" and syn: "synchronous e"
    and no: "\<forall>s i. e \<noteq> EQueue s i"
  shows "suffix_step c c'"
proof (cases e)
  case (EDequeueResume a flags)
  have inv': "bq_inv (c \<lparr> bq_dequeue_possible := False \<rparr>)"
    using inv by (simp add: bq_inv_def counts_ok_def)
  have "suffix_step c (c \<lparr> bq_dequeue_possible := False \<rparr>)" by (simp add: suffix_keep)
  from suffix_trans [OF this suffix_dequeue [OF inv', of a flags]] show ?thesis
    using ap EDequeueResume
    by (auto simp: DequeueBuffer_resume_def WaitForDequeueCondition_def split: if_splits)
next
  case (ECallback t)
  then show ?thesis using ap by (auto simp: QueueBuffer_callback_def suffix_keep split: if_splits)
next
  case (EProducerConnect l api app)
  then show ?thesis
    using ap syn
    by (auto simp: Producer_Connect_def Let_def suffix_step_def intro: exI [of _ 0] split: if_splits)
next
  case (EConsumerDisconnect)
  then show ?thesis using ap by (auto simp: Consumer_Disconnect_def suffix_clear)
next
  case (EProducerDisconnect api)
  then show ?thesis
    using ap by (auto simp: Producer_Disconnect_def Let_def suffix_clear)
next
  case (ESetBufferCount n)
  then show ?thesis
    using ap by (auto simp: SetBufferCount_def Let_def suffix_keep)
next
  case (ESetPreallocated addr s b)
  then show ?thesis
    using ap by (cases b) (auto simp: SetPreallocatedBuffer_def Let_def suffix_keep)
qed (use ap no suffix_attach [of c] suffix_dequeue [OF inv] suffix_acquire [of c] in
    \<open>auto simp: RequestBuffer_def DequeueBuffer_start_def DequeueBuffer_finish_def Let_def DetachBuffer_def
      DetachNextBuffer_def CancelBuffer_def FreeBufferLocked_def ReleaseBuffer_def Consumer_Connect_def
      suffix_keep\<close>)

lemma in_order_suffix:
  assumes "in_order c" "suffix_step c c'"
  shows "in_order c'"
proof -
  obtain k where k: "bq_queue c' = drop k (bq_queue c)" using assms(2) unfolding suffix_step_def by blast
  have f: "frames c' = drop k (frames c)" unfolding frames_def k by (simp add: drop_map)
  have "bq_frame_counter c' = bq_frame_counter c"
    "bq_dequeue_buffer_cannot_block c' \<longrightarrow> bq_dequeue_buffer_cannot_block c"
    using assms(2) unfolding suffix_step_def by blast+
  then show ?thesis
    using assms(1) sorted_wrt_drop [of "(<)" "frames c" k] unfolding in_order_def f k
    by (auto dest: in_set_dropD)
qed

lemma queued_frames:
  assumes q: "in_order c" and c: "bq_frame_counter c < 2 ^ 64 - 1" and sync: "qi_async i = 0"
  shows "in_order (queued_state s i c)" "bq_frame_counter (queued_state s i c) = Suc (bq_frame_counter c)"
proof -
  let ?c = "queue_update s i c"
  have cnt: "u64_add (bq_frame_counter c) 1 = Suc (bq_frame_counter c)"
    unfolding u64_add_def using c by simp
  have u: "bq_queue ?c = bq_queue c" "bq_frame_counter ?c = Suc (bq_frame_counter c)"
    "bq_dequeue_buffer_cannot_block ?c = bq_dequeue_buffer_cannot_block c"
    unfolding queue_update_def cnt by simp_all
  have front: "bq_queue c \<noteq> [] \<Longrightarrow> \<not> it_is_droppable (hd (bq_queue c))" "\<not> bq_dequeue_buffer_cannot_block c"
    using q by (simp_all add: in_order_def)
  have push: "snd (push_item item ?c) = ?c \<lparr> bq_queue := bq_queue c @ [item] \<rparr>" for item
    using front(1) u(1) by (auto simp: push_item_def split: list.splits)
  have st: "bq_queue (queued_state s i c) = bq_queue c @ [queued_item s i ?c]"
    "bq_dequeue_buffer_cannot_block (queued_state s i c) = bq_dequeue_buffer_cannot_block c"
    "bq_frame_counter (queued_state s i c) = Suc (bq_frame_counter c)"
    unfolding queued_state_def push SignalDequeueCondition_def using u by simp_all
  show "bq_frame_counter (queued_state s i c) = Suc (bq_frame_counter c)" by (rule st(3))
  have item: "it_frame_number (queued_item s i ?c) = Suc (bq_frame_counter c)"
    "\<not> it_is_droppable (queued_item s i ?c)"
    using u sync front(2) by (simp_all add: queued_item_def)
  show "in_order (queued_state s i c)"
    using q item front(2) unfolding in_order_def frames_def st
    by (auto simp: sorted_wrt_append less_Suc_eq_le)
qed

lemma in_order_step:
  assumes inv: "bq_inv c" and q: "in_order c" and c: "bq_frame_counter c < 2 ^ 64 - 1"
    and step: "bq_step c e c'" and sync: "synchronous e"
  shows "in_order c' \<and> bq_frame_counter c' \<le> Suc (bq_frame_counter c)"
proof (cases "\<exists>s i. e = EQueue s i")
  case False
  then have "suffix_step c c'"
    using step_not_queue_suffix [OF inv _ sync] step unfolding bq_step_iff by blast
  then show ?thesis using in_order_suffix [OF q] by (simp add: suffix_step_def)
next
  case True
  then obtain s i where e: "e = EQueue s i" by blast
  then obtain r where r: "QueueBuffer_locked s i c = Some r" "c' = fst (snd (snd r))"
    using step by (auto simp: bq_step_iff)
  show ?thesis
  proof (cases "queue_allowed s i c")
    case True
    have "c' = queued_state s i c" using r QueueBuffer_locked_ok [OF True] by auto
    then show ?thesis using queued_frames [OF q c] sync e by simp
  next
    case False
    then show ?thesis using QueueBuffer_locked_fail(2) [OF False r(1)] r(2) q by simp
  qed
qed

lemma in_order_run:
  assumes "run bq_step c es d" "c = BufferQueueCore_create" "\<forall>e \<in> set es. synchronous e" "length es < 2 ^ 64"
  shows "in_order d \<and> bq_frame_counter d \<le> length es"
  using assms
proof (induction rule: run.induct)
  case (run_nil c)
  then show ?case by (simp add: in_order_def frames_def BufferQueueCore_create_def)
next
  case (run_snoc s es t e u)
  then have t: "in_order t" "bq_frame_counter t \<le> length es" by simp_all
  have "bq_inv t" using bqs.reachable_inv [OF _ run_snoc.hyps(1)] run_snoc.prems by (simp add: bq_start_def)
  moreover have "bq_frame_counter t < 2 ^ 64 - 1" using t(2) run_snoc.prems by simp
  ultimately show ?case
    using in_order_step [OF _ t(1) _ run_snoc.hyps(2)] t(2) run_snoc.prems by fastforce
qed

lemma acquire_takes_from_queue:
  assumes "AcquireBuffer t c = (Status_NoError, Some item, c')"
  obtains k where "k < length (bq_queue c)" "it_frame_number item = frames c ! k"
    "frames c' = drop (Suc k) (frames c)" "t = 0 \<Longrightarrow> k = 0"
proof (cases rule: AcquireBuffer_cases [of t c])
  case (taken c1)
  obtain k where k: "bq_queue c1 = drop k (bq_queue c)" "t = 0 \<Longrightarrow> k = 0"
    using taken(1) suffix_drop_late [of c t] unfolding suffix_step_def by (cases "t = 0") auto
  have len: "k < length (bq_queue c)" using taken(2) k by auto
  have "item = fst (take_front c1)" "c' = snd (take_front c1)" using taken(3) assms by simp_all
  then have "it_frame_number item = it_frame_number (hd (bq_queue c1))" "bq_queue c' = tl (bq_queue c1)"
    by (simp_all add: take_front_def Let_def)
  moreover have "hd (bq_queue c1) = bq_queue c ! k" "tl (bq_queue c1) = drop (Suc k) (bq_queue c)"
    using k(1) len by (simp_all add: hd_drop_conv_nth tl_drop drop_Suc)
  ultimately show thesis
    using that [of k] len k(2) by (simp add: frames_def drop_map)
qed (use assms in auto)

text \<open>
  C26. Frames reach the consumer in the order in which they were queued. After any sequence of fewer
  than \<^verbatim>\<open>2^64\<close> synchronous operations, the frame numbers in the queue strictly increase, and an acquire
  that returns a frame returns one of them and removes it with the frames before it; without a
  presentation time, it is the front. So the frame numbers that the consumer sees increase.
\<close>

theorem frames_arrive_in_order:
  assumes run: "run bq_step BufferQueueCore_create es c" and sync: "\<forall>e \<in> set es. synchronous e"
    and len: "length es < 2 ^ 64" and acq: "AcquireBuffer t c = (Status_NoError, Some item, c')"
  shows "sorted_wrt (<) (frames c) \<and>
    (\<exists>k < length (frames c). it_frame_number item = frames c ! k \<and> frames c' = drop (Suc k) (frames c) \<and>
       (t = 0 \<longrightarrow> k = 0)) \<and> (\<forall>n \<in> set (frames c'). it_frame_number item < n)"
proof -
  have sorted: "sorted_wrt (<) (frames c)"
    using in_order_run [OF run refl sync len] by (simp add: in_order_def)
  obtain k where k: "k < length (bq_queue c)" "it_frame_number item = frames c ! k"
    "frames c' = drop (Suc k) (frames c)" "t = 0 \<Longrightarrow> k = 0"
    using acquire_takes_from_queue [OF acq] by metis
  have "\<forall>n \<in> set (drop (Suc k) (frames c)). frames c ! k < n"
  proof -
    have "drop k (frames c) = frames c ! k # drop (Suc k) (frames c)"
      using k(1) by (simp only: frames_def Cons_nth_drop_Suc length_map)
    then show ?thesis using sorted_wrt_drop [OF sorted, of k] by simp
  qed
  then show ?thesis using sorted k by (auto simp: frames_def)
qed

theorem frames_arrive_in_order_witness:
  "\<exists>c item c'. bq_run (sample_setup @ sample_frame 0 5 @ sample_frame 1 6) BufferQueueCore_create = Some c \<and>
     AcquireBuffer 0 c = (Status_NoError, Some item, c') \<and> frames c = [1, 2] \<and>
     it_frame_number item = 1 \<and> (\<forall>n \<in> set (frames c'). it_frame_number item < n)"
proof -
  let ?es = "sample_setup @ sample_frame 0 5 @ sample_frame 1 6"
  have "(case bq_run ?es BufferQueueCore_create of None \<Rightarrow> False
      | Some c \<Rightarrow> frames c = [1, 2] \<and>
         (case AcquireBuffer 0 c of (st, Some item, c') \<Rightarrow> st = Status_NoError \<and> it_frame_number item = 1
          | _ \<Rightarrow> False))"
    by code_simp
  then obtain c item c' where c: "bq_run ?es BufferQueueCore_create = Some c"
    "AcquireBuffer 0 c = (Status_NoError, Some item, c')" "frames c = [1, 2]" "it_frame_number item = 1"
    by (auto split: option.splits prod.splits)
  have sync: "\<forall>e \<in> set ?es. synchronous e" "length ?es < 2 ^ 64"
    by (auto simp: sample_setup_def sample_frame_def sample_input_def)
  show ?thesis
    using c frames_arrive_in_order [OF bq_run_sound [OF c(1)] sync c(2)] by blast
qed

section \<open>The released buffers\<close>

lemma push_bit_one_bit: "bit (push_bit s (1 :: u64)) k \<longleftrightarrow> k = s \<and> s < 64"
  by (auto simp: bit_simps)

lemma set_mask_bit: "bit (m OR push_bit s (1 :: u64)) k \<longleftrightarrow> bit m k \<or> k = s \<and> s < 64"
  unfolding bit_or_iff push_bit_one_bit by (rule refl)

lemma clear_mask_bit: "bit (m AND NOT (push_bit s (1 :: u64))) k \<longleftrightarrow> bit m k \<and> k \<noteq> s"
  unfolding bit_and_iff bit_not_iff push_bit_one_bit
  by (auto dest: bit_imp_le_length)

lemma unacquired_mask_bit:
  "bit (foldl (\<lambda>m s. if \<not> bs_acquire_called (bs ! s) then m OR push_bit s 1 else m) (m0 :: u64) ss) k \<longleftrightarrow>
     bit m0 k \<or> k < 64 \<and> k \<in> set ss \<and> \<not> bs_acquire_called (bs ! k)"
proof (induction ss arbitrary: m0)
  case (Cons s ss)
  have "bit (if \<not> bs_acquire_called (bs ! s) then m0 OR push_bit s 1 else m0) k \<longleftrightarrow>
      bit m0 k \<or> k = s \<and> s < 64 \<and> \<not> bs_acquire_called (bs ! s)"
    by (simp only: if_distrib [of "\<lambda>m. bit m k"] set_mask_bit) auto
  then show ?case unfolding foldl.simps Cons.IH by auto
qed simp

lemma released_mask_bit:
  assumes "\<forall>item \<in> set q. slot_in_range (it_slot item)"
  shows "bit (foldl (\<lambda>m item. if it_acquire_called item
        then m AND NOT (push_bit (nat (it_slot item)) 1) else m) (m0 :: u64) q) k \<longleftrightarrow>
     bit m0 k \<and> \<not> (\<exists>item \<in> set q. it_acquire_called item \<and> it_slot item = int k)"
  using assms
proof (induction q arbitrary: m0)
  case (Cons item q)
  have "nat (it_slot item) = k \<longleftrightarrow> it_slot item = int k" "nat (it_slot item) < 64"
    using Cons.prems by (auto simp: in_range_iff)
  then have "bit (if it_acquire_called item then m0 AND NOT (push_bit (nat (it_slot item)) 1) else m0) k \<longleftrightarrow>
      bit m0 k \<and> \<not> (it_acquire_called item \<and> it_slot item = int k)"
    by (simp only: if_distrib [of "\<lambda>m. bit m k"] clear_mask_bit) auto
  then show ?case
    unfolding foldl.simps using Cons.IH Cons.prems by auto
qed simp

text \<open>
  The mask that tells the consumer which of its buffers it may forget has exactly the bits of the
  slots whose buffer the consumer has never acquired and for which no frame is waiting that the
  consumer would receive without its buffer.
\<close>

theorem released_buffers_mask:
  assumes run: "run bq_step BufferQueueCore_create es c" and "\<not> bq_is_abandoned c"
  shows "\<exists>m. GetReleasedBuffers c = (Status_NoError, Some m) \<and>
    (\<forall>k. bit m k \<longleftrightarrow> k < 64 \<and> \<not> bs_acquire_called (bq_slots c ! k) \<and>
       \<not> (\<exists>item \<in> set (bq_queue c). it_acquire_called item \<and> it_slot item = int k))"
proof -
  have "bq_inv c" using bqs.reachable_inv [OF _ run] by (simp add: bq_start_def)
  then have "\<forall>item \<in> set (bq_queue c). slot_in_range (it_slot item)"
    by (simp add: bq_inv_def queue_ok_def)
  note mask = released_mask_bit [OF this, of "unacquired_mask (bq_slots c)"]
  have "bit (unacquired_mask (bq_slots c)) k \<longleftrightarrow> k < 64 \<and> \<not> bs_acquire_called (bq_slots c ! k)" for k
    unfolding unacquired_mask_def unacquired_mask_bit by (auto simp: NUM_BUFFER_SLOTS_def)
  then show ?thesis
    using assms(2) mask unfolding GetReleasedBuffers_def by simp
qed

theorem released_buffers_mask_witness:
  "\<exists>c m. bq_run (sample_setup @ sample_frame 0 5 @ [EAcquire 0]) BufferQueueCore_create = Some c \<and>
     GetReleasedBuffers c = (Status_NoError, Some m) \<and> \<not> bit m 0 \<and> bit m 1"
proof -
  let ?es = "sample_setup @ sample_frame 0 5 @ [EAcquire 0]"
  have "(case bq_run ?es BufferQueueCore_create of None \<Rightarrow> False
      | Some c \<Rightarrow> \<not> bq_is_abandoned c \<and> bs_acquire_called (bq_slots c ! 0) \<and>
          \<not> bs_acquire_called (bq_slots c ! 1) \<and> bq_queue c = [])"
    by code_simp
  then obtain c where c: "bq_run ?es BufferQueueCore_create = Some c" "\<not> bq_is_abandoned c"
    "bs_acquire_called (bq_slots c ! 0)" "\<not> bs_acquire_called (bq_slots c ! 1)" "bq_queue c = []"
    by (auto split: option.splits)
  obtain m where m: "GetReleasedBuffers c = (Status_NoError, Some m)"
    "\<forall>k. bit m k \<longleftrightarrow> k < 64 \<and> \<not> bs_acquire_called (bq_slots c ! k) \<and>
       \<not> (\<exists>item \<in> set (bq_queue c). it_acquire_called item \<and> it_slot item = int k)"
    using released_buffers_mask [OF bq_run_sound [OF c(1)] c(2)] by blast
  have "\<not> bit m 0" "bit m 1" using m(2) c(3-5) by auto
  then show ?thesis using c(1) m(1) by blast
qed

section \<open>Two interleavings without the usual guarantees\<close>

text \<open>
  A frame that replaces a droppable front precedes the frames behind that front, which were queued
  before it; without droppable frames this does not happen.
\<close>

lemma replaced_front_overtakes:
  assumes "bq_queue c = front # rest" "it_is_droppable front"
  shows "bq_queue (snd (push_item item c)) = item # rest"
  using assms by (simp add: push_item_def Let_def)

text \<open>
  A request between the two critical sections of \<^verbatim>\<open>DequeueBuffer\<close> marks a slot as requested that has
  no buffer yet; \<^verbatim>\<open>QueueBuffer\<close> then reads the size of a null buffer.
\<close>

lemma queue_before_allocation:
  "map_option (QueueBuffer_locked 0 (sample_input 5))
     (bq_run [EConsumerConnect (Some 1) False, EProducerConnect None 2 False,
        EDequeueStart sample_args, ERequest 0] BufferQueueCore_create) = Some None"
  by code_simp

end
