(* ===== verification/CheatVmDecode.thy ===== *)
theory CheatVmDecode
  imports Prelude
begin

text \<open>
  The cheat virtual machine, part one (\<^verbatim>\<open>core/memory/dmnt_cheat_types.h\<close>,
  \<^verbatim>\<open>core/memory/dmnt_cheat_vm.h\<close> and \<^verbatim>\<open>DmntCheatVm::DecodeNextOpcode\<close> of \<^verbatim>\<open>dmnt_cheat_vm.cpp\<close>): the
  metadata, the instruction formats, the state of the machine and the decoder.

  Enumerations that the decoder obtains by a cast of a nybble are raw \<^typ>\<open>u32\<close> values, since the
  cast does not check its range. A \<^verbatim>\<open>VmInt\<close> union is the little-endian 64-bit value of its bytes. Sizes
  and indices of type \<^verbatim>\<open>size_t\<close> are \<^typ>\<open>nat\<close>. Where one expression calls \<^verbatim>\<open>GetNextDword\<close> twice, the left
  call is made first; the language leaves that order open.
\<close>

section \<open>Metadata and cheats\<close>

record MemoryRegionExtents =
  mre_base :: u64
  mre_size :: u64

record CheatProcessMetadata =
  md_process_id :: u64
  md_title_id :: u64
  md_main_nso_extents :: MemoryRegionExtents
  md_heap_extents :: MemoryRegionExtents
  md_alias_extents :: MemoryRegionExtents
  md_aslr_extents :: MemoryRegionExtents
  md_main_nso_build_id :: "u8 list"

record CheatDefinition =
  cd_readable_name :: "char list"
  cd_num_opcodes :: nat
  cd_opcodes :: "u32 list"

record CheatEntry =
  ce_enabled :: bool
  ce_cheat_id :: nat
  ce_definition :: CheatDefinition

section \<open>Enumerations\<close>

type_synonym MemoryAccessType = u32
abbreviation (input) MemoryAccessType_MainNso :: MemoryAccessType where "MemoryAccessType_MainNso \<equiv> 0"
abbreviation (input) MemoryAccessType_Heap :: MemoryAccessType where "MemoryAccessType_Heap \<equiv> 1"
abbreviation (input) MemoryAccessType_Alias :: MemoryAccessType where "MemoryAccessType_Alias \<equiv> 2"
abbreviation (input) MemoryAccessType_Aslr :: MemoryAccessType where "MemoryAccessType_Aslr \<equiv> 3"

type_synonym ConditionalComparisonType = u32
type_synonym RegisterArithmeticType = u32
type_synonym StoreRegisterOffsetType = u32
type_synonym CompareRegisterValueType = u32
type_synonym SaveRestoreRegisterOpType = u32
type_synonym DebugLogValueType = u32
type_synonym VmInt = u64

abbreviation (input) OffsetType_None :: u32 where "OffsetType_None \<equiv> 0"
abbreviation (input) OffsetType_Reg :: u32 where "OffsetType_Reg \<equiv> 1"
abbreviation (input) OffsetType_Imm :: u32 where "OffsetType_Imm \<equiv> 2"
abbreviation (input) OffsetType_MemReg :: u32 where "OffsetType_MemReg \<equiv> 3"
abbreviation (input) OffsetType_MemImm :: u32 where "OffsetType_MemImm \<equiv> 4"
abbreviation (input) OffsetType_MemImmReg :: u32 where "OffsetType_MemImmReg \<equiv> 5"

abbreviation (input) CompareType_MemoryRelAddr :: u32 where "CompareType_MemoryRelAddr \<equiv> 0"
abbreviation (input) CompareType_MemoryOfsReg :: u32 where "CompareType_MemoryOfsReg \<equiv> 1"
abbreviation (input) CompareType_RegisterRelAddr :: u32 where "CompareType_RegisterRelAddr \<equiv> 2"
abbreviation (input) CompareType_RegisterOfsReg :: u32 where "CompareType_RegisterOfsReg \<equiv> 3"
abbreviation (input) CompareType_StaticValue :: u32 where "CompareType_StaticValue \<equiv> 4"
abbreviation (input) CompareType_OtherRegister :: u32 where "CompareType_OtherRegister \<equiv> 5"

abbreviation (input) LogType_RegisterValue :: u32 where "LogType_RegisterValue \<equiv> 4"

section \<open>Instructions\<close>

record StoreStaticOpcode =
  ss_bit_width :: u32
  ss_mem_type :: MemoryAccessType
  ss_offset_register :: u32
  ss_rel_address :: u64
  ss_value :: VmInt

record BeginConditionalOpcode =
  bc_bit_width :: u32
  bc_mem_type :: MemoryAccessType
  bc_cond_type :: ConditionalComparisonType
  bc_rel_address :: u64
  bc_value :: VmInt

record EndConditionalOpcode =
  ec_is_else :: bool

record ControlLoopOpcode =
  cl_start_loop :: bool
  cl_reg_index :: u32
  cl_num_iters :: u32

record LoadRegisterStaticOpcode =
  ls_reg_index :: u32
  ls_value :: u64

record LoadRegisterMemoryOpcode =
  lm_bit_width :: u32
  lm_mem_type :: MemoryAccessType
  lm_reg_index :: u32
  lm_load_from_reg :: bool
  lm_rel_address :: u64

record StoreStaticToAddressOpcode =
  sa_bit_width :: u32
  sa_reg_index :: u32
  sa_increment_reg :: bool
  sa_add_offset_reg :: bool
  sa_offset_reg_index :: u32
  sa_value :: u64

record PerformArithmeticStaticOpcode =
  as_bit_width :: u32
  as_reg_index :: u32
  as_math_type :: RegisterArithmeticType
  as_value :: u32

record BeginKeypressConditionalOpcode =
  kc_key_mask :: u32

record PerformArithmeticRegisterOpcode =
  ar_bit_width :: u32
  ar_math_type :: RegisterArithmeticType
  ar_dst_reg_index :: u32
  ar_src_reg_1_index :: u32
  ar_src_reg_2_index :: u32
  ar_has_immediate :: bool
  ar_value :: VmInt

record StoreRegisterToAddressOpcode =
  sr_bit_width :: u32
  sr_str_reg_index :: u32
  sr_addr_reg_index :: u32
  sr_increment_reg :: bool
  sr_ofs_type :: StoreRegisterOffsetType
  sr_mem_type :: MemoryAccessType
  sr_ofs_reg_index :: u32
  sr_rel_address :: u64

record BeginRegisterConditionalOpcode =
  rc_bit_width :: u32
  rc_cond_type :: ConditionalComparisonType
  rc_val_reg_index :: u32
  rc_comp_type :: CompareRegisterValueType
  rc_mem_type :: MemoryAccessType
  rc_addr_reg_index :: u32
  rc_other_reg_index :: u32
  rc_ofs_reg_index :: u32
  rc_rel_address :: u64
  rc_value :: VmInt

record SaveRestoreRegisterOpcode =
  sv_dst_index :: u32
  sv_src_index :: u32
  sv_op_type :: SaveRestoreRegisterOpType

record SaveRestoreRegisterMaskOpcode =
  sm_op_type :: SaveRestoreRegisterOpType
  sm_should_operate :: "bool list"

record ReadWriteStaticRegisterOpcode =
  rw_static_idx :: u32
  rw_idx :: u32

record DebugLogOpcode =
  dl_bit_width :: u32
  dl_log_id :: u32
  dl_val_type :: DebugLogValueType
  dl_mem_type :: MemoryAccessType
  dl_addr_reg_index :: u32
  dl_val_reg_index :: u32
  dl_ofs_reg_index :: u32
  dl_rel_address :: u64

datatype Opcode =
    StoreStatic StoreStaticOpcode
  | BeginConditional BeginConditionalOpcode
  | EndConditional EndConditionalOpcode
  | ControlLoop ControlLoopOpcode
  | LoadRegisterStatic LoadRegisterStaticOpcode
  | LoadRegisterMemory LoadRegisterMemoryOpcode
  | StoreStaticToAddress StoreStaticToAddressOpcode
  | PerformArithmeticStatic PerformArithmeticStaticOpcode
  | BeginKeypressConditional BeginKeypressConditionalOpcode
  | PerformArithmeticRegister PerformArithmeticRegisterOpcode
  | StoreRegisterToAddress StoreRegisterToAddressOpcode
  | BeginRegisterConditional BeginRegisterConditionalOpcode
  | SaveRestoreRegister SaveRestoreRegisterOpcode
  | SaveRestoreRegisterMask SaveRestoreRegisterMaskOpcode
  | ReadWriteStaticRegister ReadWriteStaticRegisterOpcode
  | PauseProcess
  | ResumeProcess
  | DebugLog DebugLogOpcode
  | UnrecognizedInstruction u32

record CheatVmOpcode =
  op_begin_conditional_block :: bool
  op_opcode :: Opcode

section \<open>The state of the machine\<close>

definition MaximumProgramOpcodeCount :: nat where "MaximumProgramOpcodeCount = 0x400"
definition NumRegisters :: nat where "NumRegisters = 0x10"
definition NumReadableStaticRegisters :: nat where "NumReadableStaticRegisters = 0x80"
definition NumWritableStaticRegisters :: nat where "NumWritableStaticRegisters = 0x80"
definition NumStaticRegisters :: nat where
  "NumStaticRegisters = NumReadableStaticRegisters + NumWritableStaticRegisters"

record DmntCheatVm =
  vm_num_opcodes :: nat
  vm_instruction_ptr :: nat
  vm_condition_depth :: nat
  vm_decode_success :: bool
  vm_program :: "u32 list"
  vm_registers :: "u64 list"
  vm_saved_values :: "u64 list"
  vm_static_registers :: "u64 list"
  vm_loop_tops :: "nat list"

definition DmntCheatVm_create :: DmntCheatVm where
  "DmntCheatVm_create =
     \<lparr> vm_num_opcodes = 0, vm_instruction_ptr = 0, vm_condition_depth = 0,
       vm_decode_success = False, vm_program = replicate MaximumProgramOpcodeCount 0,
       vm_registers = replicate NumRegisters 0, vm_saved_values = replicate NumRegisters 0,
       vm_static_registers = replicate NumStaticRegisters 0,
       vm_loop_tops = replicate NumRegisters 0 \<rparr>"

section \<open>Decoding\<close>

text \<open>A nybble, a byte, and the 64-bit value of two words.\<close>

definition nybble :: "nat \<Rightarrow> u32 \<Rightarrow> u32" where
  "nybble k w = drop_bit k w AND 0xF"

definition join_words :: "u32 \<Rightarrow> u32 \<Rightarrow> u64" where
  "join_words hi lo = push_bit 32 (ucast hi) OR ucast lo"

text \<open>The decoder's view of the machine: the instruction pointer and the flag \<^verbatim>\<open>valid\<close>.\<close>

type_synonym cursor = "nat \<times> bool"

definition GetNextDword :: "DmntCheatVm \<Rightarrow> cursor \<Rightarrow> u32 \<times> cursor" where
  "GetNextDword vm c =
     (if vm_num_opcodes vm \<le> fst c then (0, (fst c, False))
      else (vm_program vm ! fst c, (fst c + 1, snd c)))"

definition GetNextVmInt :: "DmntCheatVm \<Rightarrow> u32 \<Rightarrow> cursor \<Rightarrow> VmInt \<times> cursor" where
  "GetNextVmInt vm bit_width c =
     (let (first_dword, c1) = GetNextDword vm c
      in if bit_width = 1 then (ucast (ucast first_dword :: u8), c1)
         else if bit_width = 2 then (ucast (ucast first_dword :: u16), c1)
         else if bit_width = 4 then (ucast first_dword, c1)
         else if bit_width = 8 then
           (let (second, c2) = GetNextDword vm c1 in (join_words first_dword second, c2))
         else (0, c1))"

definition opcode_type :: "u32 \<Rightarrow> u32" where
  "opcode_type first_dword =
     (let t = nybble 28 first_dword;
          t = (if 12 \<le> t then push_bit 4 t OR nybble 24 first_dword else t)
      in if 0xF0 \<le> t then push_bit 4 t OR nybble 20 first_dword else t)"

definition decode_StoreStatic :: "DmntCheatVm \<Rightarrow> u32 \<Rightarrow> cursor \<Rightarrow> Opcode \<times> cursor" where
  "decode_StoreStatic vm w c =
     (let (second_dword, c1) = GetNextDword vm c;
          bit_width = nybble 24 w;
          (value, c2) = GetNextVmInt vm bit_width c1
      in (StoreStatic
            \<lparr> ss_bit_width = bit_width, ss_mem_type = nybble 20 w, ss_offset_register = nybble 16 w,
              ss_rel_address = join_words (w AND 0xFF) second_dword, ss_value = value \<rparr>, c2))"

definition decode_BeginConditional :: "DmntCheatVm \<Rightarrow> u32 \<Rightarrow> cursor \<Rightarrow> Opcode \<times> cursor" where
  "decode_BeginConditional vm w c =
     (let (second_dword, c1) = GetNextDword vm c;
          bit_width = nybble 24 w;
          (value, c2) = GetNextVmInt vm bit_width c1
      in (BeginConditional
            \<lparr> bc_bit_width = bit_width, bc_mem_type = nybble 20 w, bc_cond_type = nybble 16 w,
              bc_rel_address = join_words (w AND 0xFF) second_dword, bc_value = value \<rparr>, c2))"

definition decode_ControlLoop :: "DmntCheatVm \<Rightarrow> u32 \<Rightarrow> cursor \<Rightarrow> Opcode \<times> cursor" where
  "decode_ControlLoop vm w c =
     (let ctrl_loop = \<lparr> cl_start_loop = (nybble 24 w = 0), cl_reg_index = nybble 20 w, cl_num_iters = 0 \<rparr>
      in if cl_start_loop ctrl_loop then
           (let (num_iters, c1) = GetNextDword vm c
            in (ControlLoop (ctrl_loop \<lparr> cl_num_iters := num_iters \<rparr>), c1))
         else (ControlLoop ctrl_loop, c))"

definition decode_LoadRegisterStatic :: "DmntCheatVm \<Rightarrow> u32 \<Rightarrow> cursor \<Rightarrow> Opcode \<times> cursor" where
  "decode_LoadRegisterStatic vm w c =
     (let (hi, c1) = GetNextDword vm c; (lo, c2) = GetNextDword vm c1
      in (LoadRegisterStatic \<lparr> ls_reg_index = nybble 16 w, ls_value = join_words hi lo \<rparr>, c2))"

definition decode_LoadRegisterMemory :: "DmntCheatVm \<Rightarrow> u32 \<Rightarrow> cursor \<Rightarrow> Opcode \<times> cursor" where
  "decode_LoadRegisterMemory vm w c =
     (let (second_dword, c1) = GetNextDword vm c
      in (LoadRegisterMemory
            \<lparr> lm_bit_width = nybble 24 w, lm_mem_type = nybble 20 w, lm_reg_index = nybble 16 w,
              lm_load_from_reg = (nybble 12 w \<noteq> 0),
              lm_rel_address = join_words (w AND 0xFF) second_dword \<rparr>, c1))"

definition decode_StoreStaticToAddress :: "DmntCheatVm \<Rightarrow> u32 \<Rightarrow> cursor \<Rightarrow> Opcode \<times> cursor" where
  "decode_StoreStaticToAddress vm w c =
     (let (hi, c1) = GetNextDword vm c; (lo, c2) = GetNextDword vm c1
      in (StoreStaticToAddress
            \<lparr> sa_bit_width = nybble 24 w, sa_reg_index = nybble 16 w,
              sa_increment_reg = (nybble 12 w \<noteq> 0), sa_add_offset_reg = (nybble 8 w \<noteq> 0),
              sa_offset_reg_index = nybble 4 w, sa_value = join_words hi lo \<rparr>, c2))"

definition decode_PerformArithmeticStatic :: "DmntCheatVm \<Rightarrow> u32 \<Rightarrow> cursor \<Rightarrow> Opcode \<times> cursor" where
  "decode_PerformArithmeticStatic vm w c =
     (let (value, c1) = GetNextDword vm c
      in (PerformArithmeticStatic
            \<lparr> as_bit_width = nybble 24 w, as_reg_index = nybble 16 w, as_math_type = nybble 12 w,
              as_value = value \<rparr>, c1))"

definition decode_PerformArithmeticRegister :: "DmntCheatVm \<Rightarrow> u32 \<Rightarrow> cursor \<Rightarrow> Opcode \<times> cursor" where
  "decode_PerformArithmeticRegister vm w c =
     (let perform_math_reg =
            \<lparr> ar_bit_width = nybble 24 w, ar_math_type = nybble 20 w, ar_dst_reg_index = nybble 16 w,
              ar_src_reg_1_index = nybble 12 w, ar_src_reg_2_index = 0,
              ar_has_immediate = (nybble 8 w \<noteq> 0), ar_value = 0 \<rparr>
      in if ar_has_immediate perform_math_reg then
           (let (value, c1) = GetNextVmInt vm (ar_bit_width perform_math_reg) c
            in (PerformArithmeticRegister
                  (perform_math_reg \<lparr> ar_src_reg_2_index := 0, ar_value := value \<rparr>), c1))
         else (PerformArithmeticRegister (perform_math_reg \<lparr> ar_src_reg_2_index := nybble 4 w \<rparr>), c))"

definition decode_StoreRegisterToAddress :: "DmntCheatVm \<Rightarrow> u32 \<Rightarrow> cursor \<Rightarrow> Opcode \<times> cursor" where
  "decode_StoreRegisterToAddress vm w c =
     (let str_register =
            \<lparr> sr_bit_width = nybble 24 w, sr_str_reg_index = nybble 20 w, sr_addr_reg_index = nybble 16 w,
              sr_increment_reg = (nybble 12 w \<noteq> 0), sr_ofs_type = nybble 8 w,
              sr_mem_type = MemoryAccessType_MainNso, sr_ofs_reg_index = nybble 4 w,
              sr_rel_address = 0 \<rparr>;
          ofs_type = sr_ofs_type str_register
      in if ofs_type = OffsetType_None \<or> ofs_type = OffsetType_Reg
         then (StoreRegisterToAddress str_register, c)
         else if ofs_type = OffsetType_Imm then
           (let (lo, c1) = GetNextDword vm c
            in (StoreRegisterToAddress
                  (str_register \<lparr> sr_rel_address := join_words (w AND 0xF) lo \<rparr>), c1))
         else if ofs_type = OffsetType_MemReg then
           (StoreRegisterToAddress (str_register \<lparr> sr_mem_type := nybble 4 w \<rparr>), c)
         else if ofs_type = OffsetType_MemImm \<or> ofs_type = OffsetType_MemImmReg then
           (let (lo, c1) = GetNextDword vm c
            in (StoreRegisterToAddress
                  (str_register \<lparr> sr_mem_type := nybble 4 w,
                                  sr_rel_address := join_words (w AND 0xF) lo \<rparr>), c1))
         else (StoreRegisterToAddress (str_register \<lparr> sr_ofs_type := OffsetType_None \<rparr>), c))"

definition decode_BeginRegisterConditional :: "DmntCheatVm \<Rightarrow> u32 \<Rightarrow> cursor \<Rightarrow> Opcode \<times> cursor" where
  "decode_BeginRegisterConditional vm w c =
     (let begin_reg_cond =
            \<lparr> rc_bit_width = nybble 20 w, rc_cond_type = nybble 16 w, rc_val_reg_index = nybble 12 w,
              rc_comp_type = nybble 8 w, rc_mem_type = MemoryAccessType_MainNso,
              rc_addr_reg_index = 0, rc_other_reg_index = 0, rc_ofs_reg_index = 0,
              rc_rel_address = 0, rc_value = 0 \<rparr>;
          comp_type = rc_comp_type begin_reg_cond
      in if comp_type = CompareType_StaticValue then
           (let (value, c1) = GetNextVmInt vm (rc_bit_width begin_reg_cond) c
            in (BeginRegisterConditional (begin_reg_cond \<lparr> rc_value := value \<rparr>), c1))
         else if comp_type = CompareType_OtherRegister then
           (BeginRegisterConditional (begin_reg_cond \<lparr> rc_other_reg_index := nybble 4 w \<rparr>), c)
         else if comp_type = CompareType_MemoryRelAddr then
           (let (lo, c1) = GetNextDword vm c
            in (BeginRegisterConditional
                  (begin_reg_cond \<lparr> rc_mem_type := nybble 4 w,
                                    rc_rel_address := join_words (w AND 0xF) lo \<rparr>), c1))
         else if comp_type = CompareType_MemoryOfsReg then
           (BeginRegisterConditional
              (begin_reg_cond \<lparr> rc_mem_type := nybble 4 w, rc_ofs_reg_index := w AND 0xF \<rparr>), c)
         else if comp_type = CompareType_RegisterRelAddr then
           (let (lo, c1) = GetNextDword vm c
            in (BeginRegisterConditional
                  (begin_reg_cond \<lparr> rc_addr_reg_index := nybble 4 w,
                                    rc_rel_address := join_words (w AND 0xF) lo \<rparr>), c1))
         else if comp_type = CompareType_RegisterOfsReg then
           (BeginRegisterConditional
              (begin_reg_cond \<lparr> rc_addr_reg_index := nybble 4 w, rc_ofs_reg_index := w AND 0xF \<rparr>), c)
         else (BeginRegisterConditional begin_reg_cond, c))"

definition decode_SaveRestoreRegisterMask :: "u32 \<Rightarrow> Opcode" where
  "decode_SaveRestoreRegisterMask w =
     SaveRestoreRegisterMask
       \<lparr> sm_op_type = nybble 20 w,
         sm_should_operate = map (\<lambda>i. w AND push_bit i 1 \<noteq> 0) [0..<NumRegisters] \<rparr>"

definition decode_DebugLog :: "DmntCheatVm \<Rightarrow> u32 \<Rightarrow> cursor \<Rightarrow> Opcode \<times> cursor" where
  "decode_DebugLog vm w c =
     (let debug_log =
            \<lparr> dl_bit_width = nybble 16 w, dl_log_id = nybble 12 w, dl_val_type = nybble 8 w,
              dl_mem_type = MemoryAccessType_MainNso, dl_addr_reg_index = 0, dl_val_reg_index = 0,
              dl_ofs_reg_index = 0, dl_rel_address = 0 \<rparr>;
          val_type = dl_val_type debug_log
      in if val_type = LogType_RegisterValue then
           (DebugLog (debug_log \<lparr> dl_val_reg_index := nybble 4 w \<rparr>), c)
         else if val_type = CompareType_MemoryRelAddr then
           (let (lo, c1) = GetNextDword vm c
            in (DebugLog (debug_log \<lparr> dl_mem_type := nybble 4 w,
                                      dl_rel_address := join_words (w AND 0xF) lo \<rparr>), c1))
         else if val_type = CompareType_MemoryOfsReg then
           (DebugLog (debug_log \<lparr> dl_mem_type := nybble 4 w, dl_ofs_reg_index := w AND 0xF \<rparr>), c)
         else if val_type = CompareType_RegisterRelAddr then
           (let (lo, c1) = GetNextDword vm c
            in (DebugLog (debug_log \<lparr> dl_addr_reg_index := nybble 4 w,
                                      dl_rel_address := join_words (w AND 0xF) lo \<rparr>), c1))
         else if val_type = CompareType_RegisterOfsReg then
           (DebugLog (debug_log \<lparr> dl_addr_reg_index := nybble 4 w, dl_ofs_reg_index := w AND 0xF \<rparr>), c)
         else (DebugLog debug_log, c))"

text \<open>The switch over the opcode type; the flag becomes false for an unknown one.\<close>

definition decode_opcode :: "DmntCheatVm \<Rightarrow> u32 \<Rightarrow> cursor \<Rightarrow> Opcode \<times> cursor" where
  "decode_opcode vm w c =
     (let t = opcode_type w
      in if t = 0 then decode_StoreStatic vm w c
         else if t = 1 then decode_BeginConditional vm w c
         else if t = 2 then (EndConditional \<lparr> ec_is_else = (nybble 24 w = 1) \<rparr>, c)
         else if t = 3 then decode_ControlLoop vm w c
         else if t = 4 then decode_LoadRegisterStatic vm w c
         else if t = 5 then decode_LoadRegisterMemory vm w c
         else if t = 6 then decode_StoreStaticToAddress vm w c
         else if t = 7 then decode_PerformArithmeticStatic vm w c
         else if t = 8 then
           (BeginKeypressConditional \<lparr> kc_key_mask = w AND 0x0FFFFFFF \<rparr>, c)
         else if t = 9 then decode_PerformArithmeticRegister vm w c
         else if t = 10 then decode_StoreRegisterToAddress vm w c
         else if t = 0xC0 then decode_BeginRegisterConditional vm w c
         else if t = 0xC1 then
           (SaveRestoreRegister
              \<lparr> sv_dst_index = nybble 16 w, sv_src_index = nybble 8 w, sv_op_type = nybble 4 w \<rparr>, c)
         else if t = 0xC2 then (decode_SaveRestoreRegisterMask w, c)
         else if t = 0xC3 then
           (ReadWriteStaticRegister \<lparr> rw_static_idx = drop_bit 4 w AND 0xFF, rw_idx = w AND 0xF \<rparr>, c)
         else if t = 0xFF0 then (PauseProcess, c)
         else if t = 0xFF1 then (ResumeProcess, c)
         else if t = 0xFFF then decode_DebugLog vm w c
         else (UnrecognizedInstruction t, (fst c, False)))"

definition begins_conditional :: "u32 \<Rightarrow> bool" where
  "begins_conditional t \<longleftrightarrow> t = 1 \<or> t = 8 \<or> t = 0xC0"

text \<open>
  The result is the instruction, or \<^const>\<open>None\<close> when \<^verbatim>\<open>valid\<close> is false at the end and the output
  parameter keeps its value.
\<close>

definition DecodeNextOpcode :: "DmntCheatVm \<Rightarrow> CheatVmOpcode option \<times> DmntCheatVm" where
  "DecodeNextOpcode vm =
     (let finish = (\<lambda>opcode (ip, valid).
            (if valid then Some opcode else None,
             vm \<lparr> vm_instruction_ptr := ip, vm_decode_success := vm_decode_success vm \<and> valid \<rparr>));
          (first_dword, c) = GetNextDword vm (vm_instruction_ptr vm, vm_decode_success vm)
      in if \<not> snd c then
           finish \<lparr> op_begin_conditional_block = False, op_opcode = UnrecognizedInstruction 0 \<rparr> c
         else
           (let (opcode, c1) = decode_opcode vm first_dword c
            in finish \<lparr> op_begin_conditional_block = begins_conditional (opcode_type first_dword),
                        op_opcode = opcode \<rparr> c1))"

section \<open>Lemmas on the decoder\<close>

lemma nybble_less: "unat (nybble k w) < 16"
proof -
  have "nybble k w \<le> 0xF" unfolding nybble_def by (rule word_and_le1)
  then have "unat (nybble k w) \<le> unat (0xF :: u32)" by (simp only: word_le_nat_alt)
  then show ?thesis by simp
qed

lemma low_nybble_less: "unat (w AND 0xF :: u32) < 16"
  using nybble_less [of 0 w] by (simp add: nybble_def)

lemma byte_less: "unat (w AND 0xFF :: u32) < 256"
proof -
  have "w AND 0xFF \<le> 0xFF" by (rule word_and_le1)
  then have "unat (w AND 0xFF) \<le> unat (0xFF :: u32)" by (simp only: word_le_nat_alt)
  then show ?thesis by simp
qed

text \<open>How far a part of the decoder may move the cursor.\<close>

definition advances :: "DmntCheatVm \<Rightarrow> nat \<Rightarrow> cursor \<Rightarrow> cursor \<Rightarrow> bool" where
  "advances vm n c c' \<longleftrightarrow>
     fst c \<le> fst c' \<and> fst c' \<le> fst c + n \<and> (snd c' \<longrightarrow> snd c) \<and>
     (fst c \<le> vm_num_opcodes vm \<longrightarrow> fst c' \<le> vm_num_opcodes vm)"

lemma advances_refl [simp]: "advances vm n c c"
  by (simp add: advances_def)

lemma advances_trans: "advances vm m c c1 \<Longrightarrow> advances vm n c1 c2 \<Longrightarrow> advances vm (m + n) c c2"
  by (auto simp: advances_def)

lemma advances_mono: "advances vm m c c' \<Longrightarrow> m \<le> n \<Longrightarrow> advances vm n c c'"
  by (auto simp: advances_def)

lemma advances_dword: "advances vm 1 c (snd (GetNextDword vm c))"
  by (auto simp: advances_def GetNextDword_def)

lemma advances_dword2:
  "advances vm 2 c (snd (GetNextDword vm (snd (GetNextDword vm c))))"
  using advances_trans [OF advances_dword [of vm c] advances_dword] by (simp add: numeral_2_eq_2)

lemma advances_vmint: "advances vm 2 c (snd (GetNextVmInt vm b c))"
  using advances_dword2 [of vm c] advances_mono [OF advances_dword [of vm c], of 2]
  by (auto simp: GetNextVmInt_def Let_def split: prod.splits)

lemma advances_dword_vmint:
  "advances vm 3 c (snd (GetNextVmInt vm b (snd (GetNextDword vm c))))"
  using advances_trans [OF advances_dword [of vm c] advances_vmint [of vm _ b]]
  by (simp add: numeral_3_eq_3)

lemmas advances_parts =
  advances_mono [OF advances_dword, of 3] advances_mono [OF advances_dword2, of 3]
  advances_mono [OF advances_vmint, of 3] advances_dword_vmint

lemma decode_opcode_advances: "advances vm 3 c (snd (decode_opcode vm w c))"
proof -
  note parts = advances_parts [of _ _, simplified]
  have loads: "advances vm 3 c (snd (decode_StoreStatic vm w c))"
    "advances vm 3 c (snd (decode_BeginConditional vm w c))"
    "advances vm 3 c (snd (decode_ControlLoop vm w c))"
    "advances vm 3 c (snd (decode_LoadRegisterStatic vm w c))"
    "advances vm 3 c (snd (decode_LoadRegisterMemory vm w c))"
    "advances vm 3 c (snd (decode_StoreStaticToAddress vm w c))"
    "advances vm 3 c (snd (decode_PerformArithmeticStatic vm w c))"
    "advances vm 3 c (snd (decode_PerformArithmeticRegister vm w c))"
    unfolding decode_StoreStatic_def decode_BeginConditional_def decode_ControlLoop_def
      decode_LoadRegisterStatic_def decode_LoadRegisterMemory_def decode_StoreStaticToAddress_def
      decode_PerformArithmeticStatic_def decode_PerformArithmeticRegister_def
    by (simp_all add: Let_def case_prod_beta parts)
  have others: "advances vm 3 c (snd (decode_StoreRegisterToAddress vm w c))"
    "advances vm 3 c (snd (decode_BeginRegisterConditional vm w c))"
    "advances vm 3 c (snd (decode_DebugLog vm w c))"
    unfolding decode_StoreRegisterToAddress_def decode_BeginRegisterConditional_def decode_DebugLog_def
    by (simp_all add: Let_def case_prod_beta parts)
  have bad: "advances vm 3 c (fst c, False)" by (simp add: advances_def)
  show ?thesis
    unfolding decode_opcode_def Let_def using loads others bad by (simp split: if_split)
qed

text \<open>A successful decode moves the instruction pointer forward by at most four words.\<close>

lemma DecodeNextOpcode_Some:
  assumes "DecodeNextOpcode vm = (Some opc, vm')"
  shows "vm' = vm \<lparr> vm_instruction_ptr := vm_instruction_ptr vm' \<rparr>"
    "vm_instruction_ptr vm < vm_instruction_ptr vm'"
    "vm_instruction_ptr vm' \<le> vm_num_opcodes vm" "vm_instruction_ptr vm' \<le> vm_instruction_ptr vm + 4"
    "vm_decode_success vm"
    "op_opcode opc = fst (decode_opcode vm (vm_program vm ! vm_instruction_ptr vm)
       (vm_instruction_ptr vm + 1, True))"
    "op_begin_conditional_block opc = begins_conditional (opcode_type (vm_program vm ! vm_instruction_ptr vm))"
proof -
  let ?ip = "vm_instruction_ptr vm" and ?w = "vm_program vm ! vm_instruction_ptr vm"
  let ?c = "snd (decode_opcode vm ?w (?ip + 1, vm_decode_success vm))"
  have lt: "?ip < vm_num_opcodes vm"
    using assms by (auto simp: DecodeNextOpcode_def GetNextDword_def Let_def split: if_splits)
  have s: "vm_decode_success vm"
    using assms by (auto simp: DecodeNextOpcode_def GetNextDword_def Let_def split: if_splits)
  have dec: "DecodeNextOpcode vm =
      (if snd ?c then Some \<lparr> op_begin_conditional_block = begins_conditional (opcode_type ?w),
           op_opcode = fst (decode_opcode vm ?w (?ip + 1, vm_decode_success vm)) \<rparr> else None,
       vm \<lparr> vm_instruction_ptr := fst ?c, vm_decode_success := vm_decode_success vm \<and> snd ?c \<rparr>)"
    using lt s by (simp add: DecodeNextOpcode_def GetNextDword_def Let_def case_prod_beta)
  then have ok: "snd ?c" "vm' = vm \<lparr> vm_instruction_ptr := fst ?c, vm_decode_success := True \<rparr>"
    "opc = \<lparr> op_begin_conditional_block = begins_conditional (opcode_type ?w),
           op_opcode = fst (decode_opcode vm ?w (?ip + 1, vm_decode_success vm)) \<rparr>"
    using assms s by (auto split: if_splits)
  have adv: "advances vm 3 (?ip + 1, vm_decode_success vm) ?c" by (rule decode_opcode_advances)
  show "vm' = vm \<lparr> vm_instruction_ptr := vm_instruction_ptr vm' \<rparr>" using ok(2) s by simp
  show "?ip < vm_instruction_ptr vm'" "vm_instruction_ptr vm' \<le> vm_num_opcodes vm"
    "vm_instruction_ptr vm' \<le> ?ip + 4"
    using adv lt ok(2) by (auto simp: advances_def)
  show "vm_decode_success vm" by (rule s)
  show "op_opcode opc = fst (decode_opcode vm ?w (?ip + 1, True))"
    "op_begin_conditional_block opc = begins_conditional (opcode_type ?w)"
    using ok(3) s by simp_all
qed

lemma DecodeNextOpcode_None:
  assumes "DecodeNextOpcode vm = (None, vm')"
  shows "vm' = vm \<lparr> vm_instruction_ptr := vm_instruction_ptr vm', vm_decode_success := False \<rparr>"
    "vm_instruction_ptr vm \<le> vm_num_opcodes vm \<Longrightarrow> vm_instruction_ptr vm' \<le> vm_num_opcodes vm"
    "vm_instruction_ptr vm \<le> vm_instruction_ptr vm'"
proof -
  let ?c = "snd (GetNextDword vm (vm_instruction_ptr vm, vm_decode_success vm))"
  let ?w = "fst (GetNextDword vm (vm_instruction_ptr vm, vm_decode_success vm))"
  let ?d = "snd (decode_opcode vm ?w ?c)"
  have "advances vm 1 (vm_instruction_ptr vm, vm_decode_success vm) ?c" by (rule advances_dword)
  moreover have "advances vm 3 ?c ?d" by (rule decode_opcode_advances)
  moreover have "vm' = vm \<lparr> vm_instruction_ptr := (if snd ?c then fst ?d else fst ?c), vm_decode_success := False \<rparr>"
    using assms by (auto simp: DecodeNextOpcode_def Let_def case_prod_beta split: if_splits)
  ultimately show "vm' = vm \<lparr> vm_instruction_ptr := vm_instruction_ptr vm', vm_decode_success := False \<rparr>"
    "vm_instruction_ptr vm \<le> vm_num_opcodes vm \<Longrightarrow> vm_instruction_ptr vm' \<le> vm_num_opcodes vm"
    "vm_instruction_ptr vm \<le> vm_instruction_ptr vm'"
    by (auto simp: advances_def)
qed

text \<open>Register indices of decoded instructions are indices of the register arrays.\<close>

fun indices_ok :: "Opcode \<Rightarrow> bool" where
  "indices_ok (StoreStatic x) \<longleftrightarrow> unat (ss_offset_register x) < 16"
| "indices_ok (ControlLoop x) \<longleftrightarrow> unat (cl_reg_index x) < 16"
| "indices_ok (LoadRegisterStatic x) \<longleftrightarrow> unat (ls_reg_index x) < 16"
| "indices_ok (LoadRegisterMemory x) \<longleftrightarrow> unat (lm_reg_index x) < 16"
| "indices_ok (StoreStaticToAddress x) \<longleftrightarrow> unat (sa_reg_index x) < 16 \<and> unat (sa_offset_reg_index x) < 16"
| "indices_ok (PerformArithmeticStatic x) \<longleftrightarrow> unat (as_reg_index x) < 16"
| "indices_ok (PerformArithmeticRegister x) \<longleftrightarrow>
     unat (ar_dst_reg_index x) < 16 \<and> unat (ar_src_reg_1_index x) < 16 \<and> unat (ar_src_reg_2_index x) < 16"
| "indices_ok (StoreRegisterToAddress x) \<longleftrightarrow>
     unat (sr_str_reg_index x) < 16 \<and> unat (sr_addr_reg_index x) < 16 \<and> unat (sr_ofs_reg_index x) < 16"
| "indices_ok (BeginRegisterConditional x) \<longleftrightarrow>
     unat (rc_val_reg_index x) < 16 \<and> unat (rc_addr_reg_index x) < 16 \<and>
     unat (rc_other_reg_index x) < 16 \<and> unat (rc_ofs_reg_index x) < 16"
| "indices_ok (SaveRestoreRegister x) \<longleftrightarrow> unat (sv_dst_index x) < 16 \<and> unat (sv_src_index x) < 16"
| "indices_ok (SaveRestoreRegisterMask x) \<longleftrightarrow> length (sm_should_operate x) = 16"
| "indices_ok (ReadWriteStaticRegister x) \<longleftrightarrow> unat (rw_static_idx x) < 256 \<and> unat (rw_idx x) < 16"
| "indices_ok (DebugLog x) \<longleftrightarrow>
     unat (dl_addr_reg_index x) < 16 \<and> unat (dl_val_reg_index x) < 16 \<and> unat (dl_ofs_reg_index x) < 16"
| "indices_ok _ \<longleftrightarrow> True"

lemma decode_opcode_indices: "indices_ok (fst (decode_opcode vm w c))"
proof -
  note bounds = nybble_less low_nybble_less byte_less
  have simple: "indices_ok (fst (decode_StoreStatic vm w c))"
    "indices_ok (fst (decode_BeginConditional vm w c))" "indices_ok (fst (decode_ControlLoop vm w c))"
    "indices_ok (fst (decode_LoadRegisterStatic vm w c))" "indices_ok (fst (decode_LoadRegisterMemory vm w c))"
    "indices_ok (fst (decode_StoreStaticToAddress vm w c))"
    "indices_ok (fst (decode_PerformArithmeticStatic vm w c))"
    "indices_ok (fst (decode_PerformArithmeticRegister vm w c))"
    "indices_ok (decode_SaveRestoreRegisterMask w)"
    unfolding decode_StoreStatic_def decode_BeginConditional_def decode_ControlLoop_def
      decode_LoadRegisterStatic_def decode_LoadRegisterMemory_def decode_StoreStaticToAddress_def
      decode_PerformArithmeticStatic_def decode_PerformArithmeticRegister_def
      decode_SaveRestoreRegisterMask_def
    by (simp_all add: Let_def case_prod_beta bounds NumRegisters_def)
  have others: "indices_ok (fst (decode_StoreRegisterToAddress vm w c))"
    "indices_ok (fst (decode_BeginRegisterConditional vm w c))"
    "indices_ok (fst (decode_DebugLog vm w c))"
    unfolding decode_StoreRegisterToAddress_def decode_BeginRegisterConditional_def decode_DebugLog_def
    by (simp_all add: Let_def case_prod_beta bounds)
  show ?thesis
    unfolding decode_opcode_def Let_def using simple others by (simp add: bounds split: if_split)
qed

lemma DecodeNextOpcode_indices:
  "DecodeNextOpcode vm = (Some opc, vm') \<Longrightarrow> indices_ok (op_opcode opc)"
  using DecodeNextOpcode_Some(6) decode_opcode_indices by metis

end
