(* ===== verification/CheatVm.thy ===== *)
theory CheatVm
  imports CheatVmDecode
begin

text \<open>
  The cheat virtual machine, part two (\<^verbatim>\<open>core/memory/dmnt_cheat_vm.cpp\<close>): skipping of conditional blocks,
  loading of programs, one function for each instruction, and the execution loop.

  The host state has type \<^typ>\<open>'m\<close> and is reached through the callbacks, as in the code. A read
  yields the little-endian value of the bytes; only the low \<open>8 * size\<close> bits of it are used. The
  command log is not modelled. Undefined shifts and the unreachable branch are errors. \<^verbatim>\<open>Execute\<close> may
  run forever, which is the value \<^const>\<open>None\<close>.
\<close>

section \<open>Callbacks\<close>

record 'm Callbacks =
  cb_MemoryReadUnsafe :: "u64 \<Rightarrow> nat \<Rightarrow> 'm \<Rightarrow> u64"
  cb_MemoryWriteUnsafe :: "u64 \<Rightarrow> u64 \<Rightarrow> nat \<Rightarrow> 'm \<Rightarrow> 'm"
  cb_HidKeysDown :: "'m \<Rightarrow> u64 \<times> 'm"
  cb_PauseProcess :: "'m \<Rightarrow> 'm"
  cb_ResumeProcess :: "'m \<Rightarrow> 'm"
  cb_DebugLog :: "u8 \<Rightarrow> u64 \<Rightarrow> 'm \<Rightarrow> 'm"

datatype vm_error = UndefinedShift | InvalidConditionDepth

section \<open>Values and addresses\<close>

definition GetVmInt :: "VmInt \<Rightarrow> u32 \<Rightarrow> u64" where
  "GetVmInt value bit_width =
     (if bit_width = 1 then ucast (ucast value :: u8)
      else if bit_width = 2 then ucast (ucast value :: u16)
      else if bit_width = 4 then ucast (ucast value :: u32)
      else if bit_width = 8 then value
      else 0)"

definition GetCheatProcessAddress :: "CheatProcessMetadata \<Rightarrow> MemoryAccessType \<Rightarrow> u64 \<Rightarrow> u64" where
  "GetCheatProcessAddress md mem_type rel_address =
     (if mem_type = MemoryAccessType_Heap then mre_base (md_heap_extents md) + rel_address
      else if mem_type = MemoryAccessType_Alias then mre_base (md_alias_extents md) + rel_address
      else if mem_type = MemoryAccessType_Aslr then mre_base (md_aslr_extents md) + rel_address
      else mre_base (md_main_nso_extents md) + rel_address)"

definition valid_width :: "u32 \<Rightarrow> bool" where
  "valid_width w \<longleftrightarrow> w = 1 \<or> w = 2 \<or> w = 4 \<or> w = 8"

text \<open>A read into a 64-bit variable replaces its low bytes and keeps the others.\<close>

definition merge_low :: "nat \<Rightarrow> u64 \<Rightarrow> u64 \<Rightarrow> u64" where
  "merge_low n old value = (old AND NOT (mask (8 * n))) OR take_bit (8 * n) value"

definition read_memory :: "'m Callbacks \<Rightarrow> u64 \<Rightarrow> u32 \<Rightarrow> u64 \<Rightarrow> 'm \<Rightarrow> u64" where
  "read_memory cb address bit_width old m =
     (if valid_width bit_width
      then merge_low (unat bit_width) old (cb_MemoryReadUnsafe cb address (unat bit_width) m)
      else old)"

definition write_memory :: "'m Callbacks \<Rightarrow> u64 \<Rightarrow> u64 \<Rightarrow> u32 \<Rightarrow> 'm \<Rightarrow> 'm" where
  "write_memory cb address value bit_width m =
     (if valid_width bit_width
      then cb_MemoryWriteUnsafe cb address (take_bit (8 * unat bit_width) value) (unat bit_width) m
      else m)"

definition compare_values :: "ConditionalComparisonType \<Rightarrow> u64 \<Rightarrow> u64 \<Rightarrow> bool" where
  "compare_values cond_type src_value cond_value =
     (if cond_type = 1 then cond_value < src_value
      else if cond_type = 2 then cond_value \<le> src_value
      else if cond_type = 3 then src_value < cond_value
      else if cond_type = 4 then src_value \<le> cond_value
      else if cond_type = 5 then src_value = cond_value
      else if cond_type = 6 then src_value \<noteq> cond_value
      else False)"

text \<open>The register value cut to the bit width; zero for an invalid width.\<close>

definition register_value :: "u32 \<Rightarrow> u64 \<Rightarrow> u64" where
  "register_value bit_width r =
     (if bit_width = 1 then ucast (ucast (r AND 0xFF) :: u8)
      else if bit_width = 2 then ucast (ucast (r AND 0xFFFF) :: u16)
      else if bit_width = 4 then ucast (ucast (r AND 0xFFFFFFFF) :: u32)
      else if bit_width = 8 then r AND 0xFFFFFFFFFFFFFFFF
      else 0)"

definition apply_width :: "u32 \<Rightarrow> u64 \<Rightarrow> u64" where
  "apply_width bit_width v =
     (if bit_width = 1 then ucast (ucast v :: u8)
      else if bit_width = 2 then ucast (ucast v :: u16)
      else if bit_width = 4 then ucast (ucast v :: u32)
      else v)"

section \<open>Registers\<close>

abbreviation reg :: "DmntCheatVm \<Rightarrow> u32 \<Rightarrow> u64" where
  "reg vm i \<equiv> vm_registers vm ! unat i"

definition set_reg :: "u32 \<Rightarrow> u64 \<Rightarrow> DmntCheatVm \<Rightarrow> DmntCheatVm" where
  "set_reg i v vm = vm \<lparr> vm_registers := (vm_registers vm) [unat i := v] \<rparr>"

definition ResetState :: "DmntCheatVm \<Rightarrow> DmntCheatVm" where
  "ResetState vm =
     vm \<lparr> vm_registers := replicate NumRegisters 0, vm_saved_values := replicate NumRegisters 0,
          vm_loop_tops := replicate NumRegisters 0, vm_instruction_ptr := 0,
          vm_condition_depth := 0, vm_decode_success := True \<rparr>"

section \<open>Loading a program\<close>

definition copy_opcode :: "CheatDefinition \<Rightarrow> DmntCheatVm \<Rightarrow> nat \<Rightarrow> DmntCheatVm" where
  "copy_opcode d vm n =
     vm \<lparr> vm_program := (vm_program vm) [vm_num_opcodes vm := cd_opcodes d ! n],
          vm_num_opcodes := vm_num_opcodes vm + 1 \<rparr>"

primrec load_entries :: "CheatEntry list \<Rightarrow> DmntCheatVm \<Rightarrow> bool \<times> DmntCheatVm" where
  "load_entries [] vm = (True, vm)"
| "load_entries (e # es) vm =
     (if ce_enabled e then
        (if MaximumProgramOpcodeCount < cd_num_opcodes (ce_definition e) + vm_num_opcodes vm
         then (False, vm \<lparr> vm_num_opcodes := 0 \<rparr>)
         else load_entries es
                (foldl (copy_opcode (ce_definition e)) vm [0..<cd_num_opcodes (ce_definition e)]))
      else load_entries es vm)"

definition LoadProgram :: "CheatEntry list \<Rightarrow> DmntCheatVm \<Rightarrow> bool \<times> DmntCheatVm" where
  "LoadProgram entries vm = load_entries entries (vm \<lparr> vm_num_opcodes := 0 \<rparr>)"

section \<open>Skipping a conditional block\<close>

definition get_EndConditional :: "Opcode \<Rightarrow> EndConditionalOpcode option" where
  "get_EndConditional opcode = (case opcode of EndConditional x \<Rightarrow> Some x | _ \<Rightarrow> None)"

lemma decode_measure:
  assumes "DecodeNextOpcode vm = (Some opc, vm')"
  shows "vm_num_opcodes vm' - vm_instruction_ptr vm' < vm_num_opcodes vm - vm_instruction_ptr vm"
proof -
  obtain ip where "vm' = vm \<lparr> vm_instruction_ptr := ip \<rparr>" using DecodeNextOpcode_Some(1) [OF assms] by blast
  then show ?thesis using DecodeNextOpcode_Some(2,3) [OF assms] by simp
qed

function skip_loop :: "bool \<Rightarrow> nat \<Rightarrow> DmntCheatVm \<Rightarrow> DmntCheatVm" where
  "skip_loop is_if desired_depth vm =
     (if desired_depth < vm_condition_depth vm then
        (case DecodeNextOpcode vm of
           (None, vm') \<Rightarrow> vm'
         | (Some opc, vm') \<Rightarrow>
             (if op_begin_conditional_block opc then
                skip_loop is_if desired_depth
                  (vm' \<lparr> vm_condition_depth := vm_condition_depth vm' + 1 \<rparr>)
              else
                (case get_EndConditional (op_opcode opc) of
                   Some end_cond \<Rightarrow>
                     (if \<not> ec_is_else end_cond then
                        skip_loop is_if desired_depth
                          (vm' \<lparr> vm_condition_depth := vm_condition_depth vm' - 1 \<rparr>)
                      else if is_if \<and> vm_condition_depth vm' - 1 = desired_depth then vm'
                      else skip_loop is_if desired_depth vm')
                 | None \<Rightarrow> skip_loop is_if desired_depth vm')))
      else vm)"
  by pat_completeness auto
termination
  by (relation "measure (\<lambda>(i, d, vm). vm_num_opcodes vm - vm_instruction_ptr vm)")
    (auto dest: decode_measure [OF sym])

declare skip_loop.simps [simp del]

definition SkipConditionalBlock :: "bool \<Rightarrow> DmntCheatVm \<Rightarrow> vm_error + DmntCheatVm" where
  "SkipConditionalBlock is_if vm =
     (if 0 < vm_condition_depth vm then Inr (skip_loop is_if (vm_condition_depth vm - 1) vm)
      else Inl InvalidConditionDepth)"

section \<open>Instructions\<close>

type_synonym 'm machine = "DmntCheatVm \<times> 'm"

definition exec_StoreStatic ::
    "CheatProcessMetadata \<Rightarrow> 'm Callbacks \<Rightarrow> StoreStaticOpcode \<Rightarrow> 'm machine \<Rightarrow> 'm machine" where
  "exec_StoreStatic md cb x s =
     (let (vm, m) = s;
          dst_address = GetCheatProcessAddress md (ss_mem_type x)
                          (ss_rel_address x + reg vm (ss_offset_register x));
          dst_value = GetVmInt (ss_value x) (ss_bit_width x)
      in (vm, write_memory cb dst_address dst_value (ss_bit_width x) m))"

text \<open>A conditional block is skipped when its condition is not met.\<close>

definition skip_unless :: "bool \<Rightarrow> 'm machine \<Rightarrow> vm_error + 'm machine" where
  "skip_unless cond_met s =
     (if cond_met then Inr s
      else (case SkipConditionalBlock True (fst s) of
              Inl e \<Rightarrow> Inl e | Inr vm \<Rightarrow> Inr (vm, snd s)))"

definition exec_BeginConditional ::
    "CheatProcessMetadata \<Rightarrow> 'm Callbacks \<Rightarrow> BeginConditionalOpcode \<Rightarrow> 'm machine \<Rightarrow>
       vm_error + 'm machine" where
  "exec_BeginConditional md cb x s =
     (let src_address = GetCheatProcessAddress md (bc_mem_type x) (bc_rel_address x);
          src_value = read_memory cb src_address (bc_bit_width x) 0 (snd s);
          cond_value = GetVmInt (bc_value x) (bc_bit_width x)
      in skip_unless (compare_values (bc_cond_type x) src_value cond_value) s)"

definition exec_EndConditional :: "EndConditionalOpcode \<Rightarrow> 'm machine \<Rightarrow> vm_error + 'm machine" where
  "exec_EndConditional x s =
     (let (vm, m) = s
      in if ec_is_else x then
           (case SkipConditionalBlock False vm of Inl e \<Rightarrow> Inl e | Inr vm' \<Rightarrow> Inr (vm', m))
         else Inr (if 0 < vm_condition_depth vm
                   then vm \<lparr> vm_condition_depth := vm_condition_depth vm - 1 \<rparr> else vm, m))"

definition exec_ControlLoop :: "ControlLoopOpcode \<Rightarrow> DmntCheatVm \<Rightarrow> DmntCheatVm" where
  "exec_ControlLoop x vm =
     (if cl_start_loop x then
        (set_reg (cl_reg_index x) (ucast (cl_num_iters x)) vm)
          \<lparr> vm_loop_tops := (vm_loop_tops vm) [unat (cl_reg_index x) := vm_instruction_ptr vm] \<rparr>
      else
        (let vm1 = set_reg (cl_reg_index x) (reg vm (cl_reg_index x) - 1) vm
         in if reg vm1 (cl_reg_index x) \<noteq> 0
            then vm1 \<lparr> vm_instruction_ptr := vm_loop_tops vm1 ! unat (cl_reg_index x) \<rparr>
            else vm1))"

definition exec_LoadRegisterMemory ::
    "CheatProcessMetadata \<Rightarrow> 'm Callbacks \<Rightarrow> LoadRegisterMemoryOpcode \<Rightarrow> 'm machine \<Rightarrow> 'm machine" where
  "exec_LoadRegisterMemory md cb x s =
     (let (vm, m) = s;
          src_address = (if lm_load_from_reg x then reg vm (lm_reg_index x) + lm_rel_address x
                         else GetCheatProcessAddress md (lm_mem_type x) (lm_rel_address x))
      in (set_reg (lm_reg_index x)
            (read_memory cb src_address (lm_bit_width x) (reg vm (lm_reg_index x)) m) vm, m))"

definition exec_StoreStaticToAddress ::
    "'m Callbacks \<Rightarrow> StoreStaticToAddressOpcode \<Rightarrow> 'm machine \<Rightarrow> 'm machine" where
  "exec_StoreStaticToAddress cb x s =
     (let (vm, m) = s;
          dst_address = (if sa_add_offset_reg x
                         then reg vm (sa_reg_index x) + reg vm (sa_offset_reg_index x)
                         else reg vm (sa_reg_index x));
          m1 = write_memory cb dst_address (sa_value x) (sa_bit_width x) m
      in (if sa_increment_reg x
          then set_reg (sa_reg_index x) (reg vm (sa_reg_index x) + ucast (sa_bit_width x)) vm else vm,
          m1))"

text \<open>The shift of a 64-bit value by 64 or more is undefined.\<close>

definition shift_left :: "u64 \<Rightarrow> u64 \<Rightarrow> vm_error + u64" where
  "shift_left v n = (if n < 64 then Inr (push_bit (unat n) v) else Inl UndefinedShift)"

definition shift_right :: "u64 \<Rightarrow> u64 \<Rightarrow> vm_error + u64" where
  "shift_right v n = (if n < 64 then Inr (drop_bit (unat n) v) else Inl UndefinedShift)"

definition arithmetic_static :: "RegisterArithmeticType \<Rightarrow> u64 \<Rightarrow> u64 \<Rightarrow> vm_error + u64" where
  "arithmetic_static math_type r value =
     (if math_type = 0 then Inr (r + value)
      else if math_type = 1 then Inr (r - value)
      else if math_type = 2 then Inr (r * value)
      else if math_type = 3 then shift_left r value
      else if math_type = 4 then shift_right r value
      else Inr r)"

definition exec_PerformArithmeticStatic ::
    "PerformArithmeticStaticOpcode \<Rightarrow> DmntCheatVm \<Rightarrow> vm_error + DmntCheatVm" where
  "exec_PerformArithmeticStatic x vm =
     (case arithmetic_static (as_math_type x) (reg vm (as_reg_index x)) (ucast (as_value x)) of
        Inl e \<Rightarrow> Inl e
      | Inr v \<Rightarrow> Inr (set_reg (as_reg_index x) (apply_width (as_bit_width x) v) vm))"

definition exec_BeginKeypressConditional ::
    "u64 \<Rightarrow> BeginKeypressConditionalOpcode \<Rightarrow> 'm machine \<Rightarrow> vm_error + 'm machine" where
  "exec_BeginKeypressConditional kDown x s =
     skip_unless (ucast (kc_key_mask x) AND kDown = ucast (kc_key_mask x)) s"

definition arithmetic_register :: "RegisterArithmeticType \<Rightarrow> u64 \<Rightarrow> u64 \<Rightarrow> vm_error + u64" where
  "arithmetic_register math_type operand_1_value operand_2_value =
     (if math_type = 0 then Inr (operand_1_value + operand_2_value)
      else if math_type = 1 then Inr (operand_1_value - operand_2_value)
      else if math_type = 2 then Inr (operand_1_value * operand_2_value)
      else if math_type = 3 then shift_left operand_1_value operand_2_value
      else if math_type = 4 then shift_right operand_1_value operand_2_value
      else if math_type = 5 then Inr (operand_1_value AND operand_2_value)
      else if math_type = 6 then Inr (operand_1_value OR operand_2_value)
      else if math_type = 7 then Inr (NOT operand_1_value)
      else if math_type = 8 then Inr (operand_1_value XOR operand_2_value)
      else if math_type = 9 then Inr operand_1_value
      else Inr 0)"

definition exec_PerformArithmeticRegister ::
    "PerformArithmeticRegisterOpcode \<Rightarrow> DmntCheatVm \<Rightarrow> vm_error + DmntCheatVm" where
  "exec_PerformArithmeticRegister x vm =
     (let operand_1_value = reg vm (ar_src_reg_1_index x);
          operand_2_value = (if ar_has_immediate x then GetVmInt (ar_value x) (ar_bit_width x)
                             else reg vm (ar_src_reg_2_index x))
      in case arithmetic_register (ar_math_type x) operand_1_value operand_2_value of
           Inl e \<Rightarrow> Inl e
         | Inr v \<Rightarrow> Inr (set_reg (ar_dst_reg_index x) (apply_width (ar_bit_width x) v) vm))"

definition store_register_address ::
    "CheatProcessMetadata \<Rightarrow> StoreRegisterToAddressOpcode \<Rightarrow> DmntCheatVm \<Rightarrow> u64" where
  "store_register_address md x vm =
     (let dst_address = reg vm (sr_addr_reg_index x); t = sr_ofs_type x
      in if t = OffsetType_Reg then dst_address + reg vm (sr_ofs_reg_index x)
         else if t = OffsetType_Imm then dst_address + sr_rel_address x
         else if t = OffsetType_MemReg then
           GetCheatProcessAddress md (sr_mem_type x) (reg vm (sr_addr_reg_index x))
         else if t = OffsetType_MemImm then
           GetCheatProcessAddress md (sr_mem_type x) (sr_rel_address x)
         else if t = OffsetType_MemImmReg then
           GetCheatProcessAddress md (sr_mem_type x) (reg vm (sr_addr_reg_index x) + sr_rel_address x)
         else dst_address)"

definition exec_StoreRegisterToAddress ::
    "CheatProcessMetadata \<Rightarrow> 'm Callbacks \<Rightarrow> StoreRegisterToAddressOpcode \<Rightarrow> 'm machine \<Rightarrow> 'm machine" where
  "exec_StoreRegisterToAddress md cb x s =
     (let (vm, m) = s;
          dst_value = reg vm (sr_str_reg_index x);
          m1 = write_memory cb (store_register_address md x vm) dst_value (sr_bit_width x) m
      in (if sr_increment_reg x
          then set_reg (sr_addr_reg_index x) (reg vm (sr_addr_reg_index x) + ucast (sr_bit_width x)) vm
          else vm, m1))"

text \<open>The address forms that the register conditional and the debug log share.\<close>

definition operand_address ::
    "CheatProcessMetadata \<Rightarrow> u32 \<Rightarrow> MemoryAccessType \<Rightarrow> u64 \<Rightarrow> u64 \<Rightarrow> u64 \<Rightarrow> u64" where
  "operand_address md t mem_type rel_address addr_reg ofs_reg =
     (if t = CompareType_MemoryRelAddr then GetCheatProcessAddress md mem_type rel_address
      else if t = CompareType_MemoryOfsReg then GetCheatProcessAddress md mem_type ofs_reg
      else if t = CompareType_RegisterRelAddr then addr_reg + rel_address
      else if t = CompareType_RegisterOfsReg then addr_reg + ofs_reg
      else 0)"

definition condition_operand ::
    "CheatProcessMetadata \<Rightarrow> 'm Callbacks \<Rightarrow> BeginRegisterConditionalOpcode \<Rightarrow> 'm machine \<Rightarrow> u64" where
  "condition_operand md cb x s =
     (let (vm, m) = s
      in if rc_comp_type x = CompareType_StaticValue then GetVmInt (rc_value x) (rc_bit_width x)
         else if rc_comp_type x = CompareType_OtherRegister
         then register_value (rc_bit_width x) (reg vm (rc_other_reg_index x))
         else read_memory cb
                (operand_address md (rc_comp_type x) (rc_mem_type x) (rc_rel_address x)
                   (reg vm (rc_addr_reg_index x)) (reg vm (rc_ofs_reg_index x)))
                (rc_bit_width x) 0 m)"

definition exec_BeginRegisterConditional ::
    "CheatProcessMetadata \<Rightarrow> 'm Callbacks \<Rightarrow> BeginRegisterConditionalOpcode \<Rightarrow> 'm machine \<Rightarrow>
       vm_error + 'm machine" where
  "exec_BeginRegisterConditional md cb x s =
     (let src_value = register_value (rc_bit_width x) (reg (fst s) (rc_val_reg_index x));
          cond_value = condition_operand md cb x s
      in skip_unless (compare_values (rc_cond_type x) src_value cond_value) s)"

definition exec_SaveRestoreRegister :: "SaveRestoreRegisterOpcode \<Rightarrow> DmntCheatVm \<Rightarrow> DmntCheatVm" where
  "exec_SaveRestoreRegister x vm =
     (if sv_op_type x = 3 then set_reg (sv_dst_index x) 0 vm
      else if sv_op_type x = 2 then
        vm \<lparr> vm_saved_values := (vm_saved_values vm) [unat (sv_dst_index x) := 0] \<rparr>
      else if sv_op_type x = 1 then
        vm \<lparr> vm_saved_values := (vm_saved_values vm) [unat (sv_dst_index x) := reg vm (sv_src_index x)] \<rparr>
      else set_reg (sv_dst_index x) (vm_saved_values vm ! unat (sv_src_index x)) vm)"

text \<open>The loop over the mask: \<open>clear\<close> says whether the destination is cleared or copied.\<close>

definition operate_masked :: "bool list \<Rightarrow> bool \<Rightarrow> u64 list \<Rightarrow> u64 list \<Rightarrow> u64 list" where
  "operate_masked should_operate clear src dst =
     foldl (\<lambda>d i. if should_operate ! i then d [i := (if clear then 0 else src ! i)] else d) dst
       [0..<NumRegisters]"

definition exec_SaveRestoreRegisterMask :: "SaveRestoreRegisterMaskOpcode \<Rightarrow> DmntCheatVm \<Rightarrow> DmntCheatVm" where
  "exec_SaveRestoreRegisterMask x vm =
     (let t = sm_op_type x; clear = (t = 2 \<or> t = 3)
      in if t = 2 \<or> t = 1 then
           vm \<lparr> vm_saved_values :=
                  operate_masked (sm_should_operate x) clear (vm_registers vm) (vm_saved_values vm) \<rparr>
         else
           vm \<lparr> vm_registers :=
                  operate_masked (sm_should_operate x) clear (vm_saved_values vm) (vm_registers vm) \<rparr>)"

definition exec_ReadWriteStaticRegister :: "ReadWriteStaticRegisterOpcode \<Rightarrow> DmntCheatVm \<Rightarrow> DmntCheatVm" where
  "exec_ReadWriteStaticRegister x vm =
     (if unat (rw_static_idx x) < NumReadableStaticRegisters
      then set_reg (rw_idx x) (vm_static_registers vm ! unat (rw_static_idx x)) vm
      else vm \<lparr> vm_static_registers :=
                  (vm_static_registers vm) [unat (rw_static_idx x) := reg vm (rw_idx x)] \<rparr>)"

definition exec_DebugLog ::
    "CheatProcessMetadata \<Rightarrow> 'm Callbacks \<Rightarrow> DebugLogOpcode \<Rightarrow> 'm machine \<Rightarrow> 'm machine" where
  "exec_DebugLog md cb x s =
     (let (vm, m) = s;
          log_value =
            (if dl_val_type x = LogType_RegisterValue
             then register_value (dl_bit_width x) (reg vm (dl_val_reg_index x))
             else read_memory cb
                    (operand_address md (dl_val_type x) (dl_mem_type x) (dl_rel_address x)
                       (reg vm (dl_addr_reg_index x)) (reg vm (dl_ofs_reg_index x)))
                    (dl_bit_width x) 0 m)
      in (vm, cb_DebugLog cb (ucast (dl_log_id x)) log_value m))"

section \<open>The execution loop\<close>

definition lift_vm :: "'m \<Rightarrow> vm_error + DmntCheatVm \<Rightarrow> vm_error + 'm machine" where
  "lift_vm m r = (case r of Inl e \<Rightarrow> Inl e | Inr vm \<Rightarrow> Inr (vm, m))"

definition exec_opcode ::
    "CheatProcessMetadata \<Rightarrow> 'm Callbacks \<Rightarrow> u64 \<Rightarrow> Opcode \<Rightarrow> 'm machine \<Rightarrow> vm_error + 'm machine" where
  "exec_opcode md cb kDown opcode s =
     (case opcode of
        StoreStatic x \<Rightarrow> Inr (exec_StoreStatic md cb x s)
      | BeginConditional x \<Rightarrow> exec_BeginConditional md cb x s
      | EndConditional x \<Rightarrow> exec_EndConditional x s
      | ControlLoop x \<Rightarrow> Inr (exec_ControlLoop x (fst s), snd s)
      | LoadRegisterStatic x \<Rightarrow> Inr (set_reg (ls_reg_index x) (ls_value x) (fst s), snd s)
      | LoadRegisterMemory x \<Rightarrow> Inr (exec_LoadRegisterMemory md cb x s)
      | StoreStaticToAddress x \<Rightarrow> Inr (exec_StoreStaticToAddress cb x s)
      | PerformArithmeticStatic x \<Rightarrow> lift_vm (snd s) (exec_PerformArithmeticStatic x (fst s))
      | BeginKeypressConditional x \<Rightarrow> exec_BeginKeypressConditional kDown x s
      | PerformArithmeticRegister x \<Rightarrow> lift_vm (snd s) (exec_PerformArithmeticRegister x (fst s))
      | StoreRegisterToAddress x \<Rightarrow> Inr (exec_StoreRegisterToAddress md cb x s)
      | BeginRegisterConditional x \<Rightarrow> exec_BeginRegisterConditional md cb x s
      | SaveRestoreRegister x \<Rightarrow> Inr (exec_SaveRestoreRegister x (fst s), snd s)
      | SaveRestoreRegisterMask x \<Rightarrow> Inr (exec_SaveRestoreRegisterMask x (fst s), snd s)
      | ReadWriteStaticRegister x \<Rightarrow> Inr (exec_ReadWriteStaticRegister x (fst s), snd s)
      | PauseProcess \<Rightarrow> Inr (fst s, cb_PauseProcess cb (snd s))
      | ResumeProcess \<Rightarrow> Inr (fst s, cb_ResumeProcess cb (snd s))
      | DebugLog x \<Rightarrow> Inr (exec_DebugLog md cb x s)
      | UnrecognizedInstruction t \<Rightarrow> Inr s)"

definition exec_decoded ::
    "CheatProcessMetadata \<Rightarrow> 'm Callbacks \<Rightarrow> u64 \<Rightarrow> CheatVmOpcode \<Rightarrow> 'm machine \<Rightarrow> vm_error + 'm machine" where
  "exec_decoded md cb kDown opc s =
     (let vm = fst s;
          vm1 = (if op_begin_conditional_block opc
                 then vm \<lparr> vm_condition_depth := vm_condition_depth vm + 1 \<rparr> else vm)
      in exec_opcode md cb kDown (op_opcode opc) (vm1, snd s))"

partial_function (option) execute_loop ::
    "CheatProcessMetadata \<Rightarrow> 'm Callbacks \<Rightarrow> u64 \<Rightarrow> 'm machine \<Rightarrow> (vm_error + 'm machine) option" where
  "execute_loop md cb kDown s =
     (case DecodeNextOpcode (fst s) of
        (None, vm) \<Rightarrow> Some (Inr (vm, snd s))
      | (Some opc, vm) \<Rightarrow>
          (case exec_decoded md cb kDown opc (vm, snd s) of
             Inl e \<Rightarrow> Some (Inl e)
           | Inr s' \<Rightarrow> execute_loop md cb kDown s'))"

definition Execute ::
    "CheatProcessMetadata \<Rightarrow> 'm Callbacks \<Rightarrow> 'm machine \<Rightarrow> (vm_error + 'm machine) option" where
  "Execute md cb s =
     (let (kDown, m) = cb_HidKeysDown cb (snd s)
      in execute_loop md cb kDown (ResetState (fst s), m))"

end
