(* ===== verification/CheatVmBehaviour.thy ===== *)
theory CheatVmBehaviour
  imports CheatVm Transition "HOL-Library.Code_Target_Nat"
begin

text \<open>
  What the cheat virtual machine guarantees: its state stays well formed whatever the program does,
  the execution loop is the iteration of single steps, a false condition skips to the matching end,
  programs without backward jumps terminate, and the only ways to leave the defined behaviour.
\<close>

section \<open>Well-formed machines\<close>

definition vm_ok :: "DmntCheatVm \<Rightarrow> bool" where
  "vm_ok vm \<longleftrightarrow>
     length (vm_program vm) = 1024 \<and> vm_num_opcodes vm \<le> 1024 \<and>
     vm_instruction_ptr vm \<le> vm_num_opcodes vm \<and>
     length (vm_registers vm) = 16 \<and> length (vm_saved_values vm) = 16 \<and>
     length (vm_static_registers vm) = 256 \<and> length (vm_loop_tops vm) = 16 \<and>
     (\<forall>t \<in> set (vm_loop_tops vm). t \<le> vm_num_opcodes vm)"

text \<open>A machine before its state is reset: the instruction pointer is arbitrary.\<close>

definition vm_loaded :: "DmntCheatVm \<Rightarrow> bool" where
  "vm_loaded vm \<longleftrightarrow> length (vm_program vm) = 1024 \<and> vm_num_opcodes vm \<le> 1024 \<and>
     length (vm_static_registers vm) = 256"

lemma vm_ok_reset: "vm_loaded vm \<Longrightarrow> vm_ok (ResetState vm)"
  by (simp add: vm_loaded_def vm_ok_def ResetState_def NumRegisters_def)

definition same_program :: "DmntCheatVm \<Rightarrow> DmntCheatVm \<Rightarrow> bool" where
  "same_program vm vm' \<longleftrightarrow> vm_program vm' = vm_program vm \<and> vm_num_opcodes vm' = vm_num_opcodes vm"

lemma same_program_refl [simp]: "same_program vm vm"
  by (simp add: same_program_def)

lemma same_program_trans: "same_program vm vm1 \<Longrightarrow> same_program vm1 vm2 \<Longrightarrow> same_program vm vm2"
  by (simp add: same_program_def)

text \<open>Decoding and skipping change only the instruction pointer, the depth and the flag.\<close>

definition moved :: "DmntCheatVm \<Rightarrow> DmntCheatVm \<Rightarrow> bool" where
  "moved vm vm' \<longleftrightarrow>
     (\<exists>ip d b. vm' = vm \<lparr> vm_instruction_ptr := ip, vm_condition_depth := d, vm_decode_success := b \<rparr>) \<and>
     (vm_instruction_ptr vm \<le> vm_num_opcodes vm \<longrightarrow> vm_instruction_ptr vm' \<le> vm_num_opcodes vm) \<and>
     vm_instruction_ptr vm \<le> vm_instruction_ptr vm'"

lemma moved_refl: "moved vm vm"
proof -
  have "vm = vm \<lparr> vm_instruction_ptr := vm_instruction_ptr vm,
      vm_condition_depth := vm_condition_depth vm, vm_decode_success := vm_decode_success vm \<rparr>" by simp
  then show ?thesis unfolding moved_def by blast
qed

lemma moved_trans:
  assumes "moved vm vm1" "moved vm1 vm2"
  shows "moved vm vm2"
proof -
  obtain ip d b ip' d' b' where
    "vm1 = vm \<lparr> vm_instruction_ptr := ip, vm_condition_depth := d, vm_decode_success := b \<rparr>"
    "vm2 = vm1 \<lparr> vm_instruction_ptr := ip', vm_condition_depth := d', vm_decode_success := b' \<rparr>"
    using assms unfolding moved_def by blast
  then show ?thesis using assms unfolding moved_def by auto
qed

lemma moved_depth: "moved vm (vm \<lparr> vm_condition_depth := d \<rparr>)"
proof -
  have "vm \<lparr> vm_condition_depth := d \<rparr> = vm \<lparr> vm_instruction_ptr := vm_instruction_ptr vm,
      vm_condition_depth := d, vm_decode_success := vm_decode_success vm \<rparr>" by simp
  then show ?thesis unfolding moved_def by (metis DmntCheatVm.select_convs(2) DmntCheatVm.surjective
      DmntCheatVm.update_convs(3) order_refl)
qed

lemma moved_decode:
  assumes "DecodeNextOpcode vm = (r, vm')"
  shows "moved vm vm'"
proof (cases r)
  case None
  obtain ip where "vm' = vm \<lparr> vm_instruction_ptr := ip, vm_decode_success := False \<rparr>"
    using DecodeNextOpcode_None(1) assms None by blast
  then have "vm' = vm \<lparr> vm_instruction_ptr := ip, vm_condition_depth := vm_condition_depth vm,
      vm_decode_success := False \<rparr>" by simp
  then show ?thesis
    using DecodeNextOpcode_None(2,3) assms None unfolding moved_def by blast
next
  case (Some opc)
  obtain ip where "vm' = vm \<lparr> vm_instruction_ptr := ip \<rparr>"
    using DecodeNextOpcode_Some(1) assms Some by blast
  then have "vm' = vm \<lparr> vm_instruction_ptr := ip, vm_condition_depth := vm_condition_depth vm,
      vm_decode_success := vm_decode_success vm \<rparr>" by simp
  moreover have "vm_instruction_ptr vm' \<le> vm_num_opcodes vm" "vm_instruction_ptr vm \<le> vm_instruction_ptr vm'"
    using DecodeNextOpcode_Some(2,3) assms Some by (auto intro: less_imp_le)
  ultimately show ?thesis unfolding moved_def by blast
qed

lemma moved_skip_loop: "moved vm (skip_loop is_if d vm)"
proof (induction is_if d vm rule: skip_loop.induct)
  case (1 is_if d vm)
  show ?case
  proof (cases "d < vm_condition_depth vm")
    case False
    then show ?thesis by (subst skip_loop.simps) (simp add: moved_refl)
  next
    case deep: True
    obtain r vm' where dec: "DecodeNextOpcode vm = (r, vm')" by fastforce
    have vm': "moved vm vm'" by (rule moved_decode [OF dec])
    note to_depth = moved_trans [OF vm' moved_depth]
    show ?thesis
    proof (cases r)
      case None
      then show ?thesis using deep dec vm' by (subst skip_loop.simps) simp
    next
      case (Some opc)
      note IH = 1 [OF deep dec [symmetric] Some]
      show ?thesis
      proof (cases "op_begin_conditional_block opc")
        case True
        then show ?thesis
          using deep dec Some moved_trans [OF to_depth IH(1) [OF True]] by (subst skip_loop.simps) simp
      next
        case False
        show ?thesis
        proof (cases "get_EndConditional (op_opcode opc)")
          case None
          then show ?thesis
            using deep dec Some False moved_trans [OF vm' IH(2) [OF False None]]
            by (subst skip_loop.simps) simp
        next
          case (Some e)
          then show ?thesis
            using deep dec \<open>r = Some opc\<close> False vm' moved_trans [OF to_depth IH(3) [OF False Some]]
              moved_trans [OF vm' IH(4) [OF False Some]]
            by (subst skip_loop.simps) auto
        qed
      qed
    qed
  qed
qed

lemma vm_ok_moved:
  assumes "vm_ok vm" "moved vm vm'"
  shows "vm_ok vm'" "same_program vm vm'"
proof -
  obtain ip d b where vm': "vm' = vm \<lparr> vm_instruction_ptr := ip, vm_condition_depth := d, vm_decode_success := b \<rparr>"
    "ip \<le> vm_num_opcodes vm"
    using assms by (auto simp: moved_def vm_ok_def)
  then show "vm_ok vm'" "same_program vm vm'" using assms(1) by (simp_all add: vm_ok_def same_program_def)
qed

definition keeps :: "DmntCheatVm \<Rightarrow> DmntCheatVm \<Rightarrow> bool" where
  "keeps vm vm' \<longleftrightarrow> (vm_ok vm \<longrightarrow> vm_ok vm' \<and> same_program vm vm')"

lemma keeps_refl [simp]: "keeps vm vm"
  by (simp add: keeps_def)

lemma keeps_moved: "moved vm vm' \<Longrightarrow> keeps vm vm'"
  using vm_ok_moved by (simp add: keeps_def)

lemma keeps_set_reg [simp]: "keeps vm (set_reg i v vm)"
  by (simp add: keeps_def set_reg_def vm_ok_def same_program_def)

lemma keeps_skip:
  "SkipConditionalBlock is_if vm = Inr vm' \<Longrightarrow> keeps vm vm'"
  by (auto simp: SkipConditionalBlock_def keeps_moved moved_skip_loop split: if_splits)

lemma keeps_skip_unless: "skip_unless b s = Inr s' \<Longrightarrow> keeps (fst s) (fst s')"
  by (auto simp: skip_unless_def dest: keeps_skip split: if_splits sum.splits)

lemma keeps_ControlLoop:
  assumes "unat (cl_reg_index x) < 16"
  shows "keeps vm (exec_ControlLoop x vm)"
proof -
  have "keeps vm ((set_reg i v vm) \<lparr> vm_loop_tops := (vm_loop_tops vm) [n := vm_instruction_ptr vm] \<rparr>)"
    for i v n
    using set_update_subset_insert [of "vm_loop_tops vm" n "vm_instruction_ptr vm"]
    by (auto simp: keeps_def set_reg_def vm_ok_def same_program_def)
  moreover have "vm_ok vm \<Longrightarrow> vm_loop_tops vm ! unat (cl_reg_index x) \<le> vm_num_opcodes vm"
    using assms by (auto simp: vm_ok_def)
  then have "keeps vm ((set_reg i v vm) \<lparr> vm_instruction_ptr := vm_loop_tops vm ! unat (cl_reg_index x) \<rparr>)"
    for i v
    by (auto simp: keeps_def set_reg_def vm_ok_def same_program_def)
  moreover have "vm_loop_tops (set_reg i v vm) = vm_loop_tops vm" for i v by (simp add: set_reg_def)
  ultimately show ?thesis unfolding exec_ControlLoop_def Let_def by simp
qed

lemma operate_masked_length [simp]: "length (operate_masked ops clear src dst) = length dst"
proof -
  have "length (foldl (\<lambda>d i. if ops ! i then d [i := f i] else d) dst is) = length dst" for f "is"
    by (induction "is" arbitrary: dst) auto
  then show ?thesis by (simp add: operate_masked_def)
qed

lemma keeps_SaveRestore:
  "keeps vm (exec_SaveRestoreRegister x vm)" "keeps vm (exec_SaveRestoreRegisterMask y vm)"
  "keeps vm (exec_ReadWriteStaticRegister z vm)"
  by (simp_all add: exec_SaveRestoreRegister_def exec_SaveRestoreRegisterMask_def
      exec_ReadWriteStaticRegister_def Let_def)
    (simp_all add: keeps_def vm_ok_def same_program_def)

lemma keeps_exec_opcode:
  assumes ok: "indices_ok opc" and ex: "exec_opcode md cb k opc s = Inr s'"
  shows "keeps (fst s) (fst s')"
proof (cases opc)
  case (EndConditional x)
  have "moved vm (vm \<lparr> vm_condition_depth := d \<rparr>)" for vm d by (rule moved_depth)
  then show ?thesis
    using ex EndConditional
    by (auto simp: exec_opcode_def exec_EndConditional_def Let_def keeps_moved dest: keeps_skip
        split: if_splits sum.splits prod.splits)
next
  case (ControlLoop x)
  then show ?thesis using ex ok keeps_ControlLoop by (auto simp: exec_opcode_def)
next
  case (PerformArithmeticStatic x)
  then show ?thesis
    using ex by (auto simp: exec_opcode_def lift_vm_def exec_PerformArithmeticStatic_def split: sum.splits)
next
  case (PerformArithmeticRegister x)
  then show ?thesis
    using ex
    by (auto simp: exec_opcode_def lift_vm_def exec_PerformArithmeticRegister_def Let_def split: sum.splits)
qed (use ex in
    \<open>auto dest: keeps_skip_unless simp: exec_opcode_def exec_BeginConditional_def exec_BeginKeypressConditional_def
      exec_BeginRegisterConditional_def exec_StoreStatic_def exec_LoadRegisterMemory_def
      exec_StoreStaticToAddress_def exec_StoreRegisterToAddress_def exec_DebugLog_def Let_def
      keeps_SaveRestore split: prod.splits\<close>)

lemma keeps_trans: "keeps vm vm1 \<Longrightarrow> keeps vm1 vm2 \<Longrightarrow> keeps vm vm2"
  by (auto simp: keeps_def same_program_def)

section \<open>Steps\<close>

inductive vm_step ::
    "CheatProcessMetadata \<Rightarrow> 'm Callbacks \<Rightarrow> u64 \<Rightarrow> 'm machine \<Rightarrow> CheatVmOpcode \<Rightarrow> 'm machine \<Rightarrow> bool"
  for md cb k where
  "DecodeNextOpcode (fst s) = (Some opc, vm) \<Longrightarrow> exec_decoded md cb k opc (vm, snd s) = Inr s' \<Longrightarrow>
     vm_step md cb k s opc s'"

inductive_cases vm_stepE: "vm_step md cb k s opc s'"

lemma keeps_step:
  assumes "vm_step md cb k s opc s'"
  shows "keeps (fst s) (fst s')"
  using assms
proof (rule vm_stepE)
  fix vm
  assume dec: "DecodeNextOpcode (fst s) = (Some opc, vm)"
    and ex: "exec_decoded md cb k opc (vm, snd s) = Inr s'"
  let ?vm = "if op_begin_conditional_block opc
    then vm \<lparr> vm_condition_depth := vm_condition_depth vm + 1 \<rparr> else vm"
  have "keeps (fst s) vm" by (rule keeps_moved [OF moved_decode [OF dec]])
  moreover have "keeps vm ?vm" by (simp add: keeps_moved moved_depth)
  moreover have "keeps ?vm (fst s')"
    using keeps_exec_opcode [OF DecodeNextOpcode_indices [OF dec], of md cb k "(?vm, snd s)"] ex
    by (simp add: exec_decoded_def Let_def)
  ultimately show ?thesis using keeps_trans by blast
qed

interpretation cheat: invariant_system "\<lambda>s. vm_ok (fst s)" "vm_step md cb k" "\<lambda>s. vm_ok (fst s)"
  for md cb k
  by unfold_locales (auto dest: keeps_step simp: keeps_def)

lemma run_same_program:
  "run (vm_step md cb k) s ops s' \<Longrightarrow> vm_ok (fst s) \<Longrightarrow> same_program (fst s) (fst s')"
proof (induction rule: run.induct)
  case (run_snoc s ops t opc u)
  then have "vm_ok (fst t)" using cheat.run_preserves by blast
  then show ?case
    using run_snoc keeps_step [OF run_snoc.hyps(2)] same_program_trans by (auto simp: keeps_def)
qed simp

text \<open>
  C28. Whatever program is loaded, every state that an execution passes through is well formed: the
  instruction pointer and the loop tops lie within the program, the register arrays have their sizes
  and the program is the loaded one. Every instruction that is decoded in such a state names
  registers and static registers that exist, and ends within the program.
\<close>

theorem cheat_machine_stays_well_formed:
  assumes loaded: "vm_loaded vm" and run: "run (vm_step md cb k) (ResetState vm, m) ops s"
  shows "vm_ok (fst s) \<and> same_program vm (fst s) \<and>
    (\<forall>opc vm'. DecodeNextOpcode (fst s) = (Some opc, vm') \<longrightarrow>
       indices_ok (op_opcode opc) \<and> vm_instruction_ptr (fst s) < vm_instruction_ptr vm' \<and>
       vm_instruction_ptr vm' \<le> vm_num_opcodes vm)"
proof -
  have ok: "vm_ok (ResetState vm)" by (rule vm_ok_reset [OF loaded])
  have "vm_ok (fst s)" using cheat.run_preserves [OF run] ok by simp
  moreover have same: "same_program vm (fst s)"
    using run_same_program [OF run] ok by (simp add: same_program_def ResetState_def)
  moreover have "vm_num_opcodes (fst s) = vm_num_opcodes vm" using same by (simp add: same_program_def)
  ultimately show ?thesis
    using DecodeNextOpcode_indices DecodeNextOpcode_Some(2,3) by metis
qed

text \<open>A host that records the writes and reads zero, and a loader for examples.\<close>

type_synonym host_log = "(u64 \<times> u64 \<times> nat) list"

definition log_callbacks :: "host_log Callbacks" where
  "log_callbacks =
     \<lparr> cb_MemoryReadUnsafe = (\<lambda>_ _ _. 0), cb_MemoryWriteUnsafe = (\<lambda>a v n m. (a, v, n) # m),
       cb_HidKeysDown = (\<lambda>m. (0, m)), cb_PauseProcess = (\<lambda>m. m), cb_ResumeProcess = (\<lambda>m. m),
       cb_DebugLog = (\<lambda>_ _ m. m) \<rparr>"

definition sample_metadata :: CheatProcessMetadata where
  "sample_metadata =
     \<lparr> md_process_id = 0, md_title_id = 0,
       md_main_nso_extents = \<lparr> mre_base = 0x8000000, mre_size = 0x1000 \<rparr>,
       md_heap_extents = \<lparr> mre_base = 0x10000000, mre_size = 0x1000 \<rparr>,
       md_alias_extents = \<lparr> mre_base = 0, mre_size = 0 \<rparr>,
       md_aslr_extents = \<lparr> mre_base = 0, mre_size = 0 \<rparr>, md_main_nso_build_id = [] \<rparr>"

definition program_vm :: "u32 list \<Rightarrow> DmntCheatVm" where
  "program_vm ws =
     DmntCheatVm_create \<lparr> vm_program := ws @ replicate (1024 - length ws) 0, vm_num_opcodes := length ws \<rparr>"

lemma program_vm_loaded: "length ws \<le> 1024 \<Longrightarrow> vm_loaded (program_vm ws)"
  by (simp add: vm_loaded_def program_vm_def DmntCheatVm_create_def NumStaticRegisters_def
      NumReadableStaticRegisters_def NumWritableStaticRegisters_def)

section \<open>The loop as an iteration of steps\<close>

definition stops ::
    "CheatProcessMetadata \<Rightarrow> 'm Callbacks \<Rightarrow> u64 \<Rightarrow> 'm machine \<Rightarrow> vm_error + 'm machine \<Rightarrow> bool" where
  "stops md cb k s r \<longleftrightarrow>
     (case DecodeNextOpcode (fst s) of
        (None, vm) \<Rightarrow> r = Inr (vm, snd s)
      | (Some opc, vm) \<Rightarrow> \<exists>e. exec_decoded md cb k opc (vm, snd s) = Inl e \<and> r = Inl e)"

lemma execute_loop_step:
  "vm_step md cb k s opc s' \<Longrightarrow> execute_loop md cb k s = execute_loop md cb k s'"
  by (erule vm_stepE, subst execute_loop.simps) simp

lemma execute_loop_stops: "stops md cb k s r \<Longrightarrow> execute_loop md cb k s = Some r"
  by (subst execute_loop.simps) (auto simp: stops_def split: prod.splits option.splits)

lemma execute_loop_run: "run (vm_step md cb k) s ops s' \<Longrightarrow> execute_loop md cb k s = execute_loop md cb k s'"
  by (induction rule: run.induct) (simp_all add: execute_loop_step)

lemma execute_loop_reaches:
  assumes "execute_loop md cb k s = Some r"
  shows "\<exists>ops s1. run (vm_step md cb k) s ops s1 \<and> stops md cb k s1 r"
  using assms
proof (induction rule: execute_loop.raw_induct [rotated, consumes 1, case_names step])
  case (step loop md cb k s r)
  obtain o1 vm where dec: "DecodeNextOpcode (fst s) = (o1, vm)" by fastforce
  show ?case
  proof (cases o1)
    case None
    then have "stops md cb k s r" using step(2) dec by (simp add: stops_def)
    then show ?thesis using run_nil [of "vm_step md cb k" s] by blast
  next
    case (Some opc)
    show ?thesis
    proof (cases "exec_decoded md cb k opc (vm, snd s)")
      case (Inl e)
      have "r = Inl e" using step(2) dec Some Inl by simp
      then have "stops md cb k s r" unfolding stops_def using dec Some Inl by simp
      then show ?thesis using run_nil [of "vm_step md cb k" s] by blast
    next
      case (Inr s')
      then have "loop md cb k s' = Some r" using step(2) dec Some by simp
      from step(1) [OF this] obtain ops s1 where "run (vm_step md cb k) s' ops s1" "stops md cb k s1 r"
        by blast
      moreover have "vm_step md cb k s opc s'" using dec Some Inr by (auto intro: vm_step.intros)
      then have "run (vm_step md cb k) s [opc] s'" by (rule run_one)
      ultimately show ?thesis using run_append [of "vm_step md cb k" s "[opc]" s' ops s1] by blast
    qed
  qed
qed

section \<open>Conditional blocks\<close>

text \<open>
  The instructions from a state on, as a list, and the block structure of such a list: statements
  are plain instructions and blocks, a block has one or two branches.
\<close>

inductive decodes :: "DmntCheatVm \<Rightarrow> CheatVmOpcode list \<Rightarrow> DmntCheatVm \<Rightarrow> bool" where
  decodes_nil: "decodes vm [] vm"
| decodes_cons: "DecodeNextOpcode vm = (Some opc, vm1) \<Longrightarrow> decodes vm1 ops vm2 \<Longrightarrow>
    decodes vm (opc # ops) vm2"

inductive_cases decodes_nilE: "decodes vm [] vm'"
inductive_cases decodes_consE: "decodes vm (opc # ops) vm'"

definition is_begin :: "CheatVmOpcode \<Rightarrow> bool" where
  "is_begin opc \<longleftrightarrow> op_begin_conditional_block opc"

definition is_end :: "CheatVmOpcode \<Rightarrow> bool" where
  "is_end opc \<longleftrightarrow> \<not> is_begin opc \<and> get_EndConditional (op_opcode opc) = Some \<lparr> ec_is_else = False \<rparr>"

definition is_else :: "CheatVmOpcode \<Rightarrow> bool" where
  "is_else opc \<longleftrightarrow> \<not> is_begin opc \<and> get_EndConditional (op_opcode opc) = Some \<lparr> ec_is_else = True \<rparr>"

definition is_plain :: "CheatVmOpcode \<Rightarrow> bool" where
  "is_plain opc \<longleftrightarrow> \<not> is_begin opc \<and> get_EndConditional (op_opcode opc) = None"

inductive statements :: "CheatVmOpcode list \<Rightarrow> bool" where
  "statements []"
| "is_plain x \<Longrightarrow> statements xs \<Longrightarrow> statements (x # xs)"
| "is_begin b \<Longrightarrow> statements xs \<Longrightarrow> is_end e \<Longrightarrow> statements zs \<Longrightarrow> statements (b # xs @ e # zs)"
| "is_begin b \<Longrightarrow> statements xs \<Longrightarrow> is_else l \<Longrightarrow> statements ys \<Longrightarrow> is_end e \<Longrightarrow> statements zs \<Longrightarrow>
     statements (b # xs @ l # ys @ e # zs)"

lemma decodes_append: "decodes vm (xs @ ys) vm' \<longleftrightarrow> (\<exists>vm1. decodes vm xs vm1 \<and> decodes vm1 ys vm')"
proof (induction xs arbitrary: vm)
  case Nil
  then show ?case by (auto intro: decodes_nil elim: decodes_nilE)
next
  case (Cons x xs)
  then show ?case by (auto 4 4 intro: decodes_cons elim!: decodes_consE)
qed

abbreviation at_depth :: "nat \<Rightarrow> DmntCheatVm \<Rightarrow> DmntCheatVm" where
  "at_depth d vm \<equiv> vm \<lparr> vm_condition_depth := d \<rparr>"

lemma decode_opcode_depth: "decode_opcode (at_depth d vm) w c = decode_opcode vm w c"
proof -
  have dw: "GetNextDword (at_depth d vm) c = GetNextDword vm c" for c
    by (simp add: GetNextDword_def)
  have vi: "GetNextVmInt (at_depth d vm) b c = GetNextVmInt vm b c" for b c
    unfolding GetNextVmInt_def dw by (rule refl)
  show ?thesis
    unfolding decode_opcode_def decode_StoreStatic_def decode_BeginConditional_def decode_ControlLoop_def
      decode_LoadRegisterStatic_def decode_LoadRegisterMemory_def decode_StoreStaticToAddress_def
      decode_PerformArithmeticStatic_def decode_PerformArithmeticRegister_def
      decode_StoreRegisterToAddress_def decode_BeginRegisterConditional_def decode_DebugLog_def dw vi
    by (rule refl)
qed

lemma DecodeNextOpcode_depth:
  assumes "DecodeNextOpcode vm = (r, vm')"
  shows "DecodeNextOpcode (at_depth d vm) = (r, at_depth d vm')" "vm_condition_depth vm' = vm_condition_depth vm"
  using assms unfolding DecodeNextOpcode_def Let_def decode_opcode_depth
  by (auto simp: GetNextDword_def case_prod_beta split: if_splits)

lemma decodes_depth:
  "decodes vm ops vm' \<Longrightarrow> decodes (at_depth d vm) ops (at_depth d vm') \<and> vm_condition_depth vm' = vm_condition_depth vm"
proof (induction rule: decodes.induct)
  case (decodes_cons vm opc vm1 ops vm2)
  then show ?case
    using DecodeNextOpcode_depth [OF decodes_cons.hyps(1)] decodes.decodes_cons by auto
qed (simp add: decodes.decodes_nil)

text \<open>One instruction of the skip loop, by its role.\<close>

lemma skip_loop_one:
  assumes dec: "DecodeNextOpcode vm = (Some x, vm')" and deep: "d < vm_condition_depth vm"
  shows "is_plain x \<Longrightarrow> skip_loop i d vm = skip_loop i d vm'"
    "is_begin x \<Longrightarrow> skip_loop i d vm = skip_loop i d (at_depth (vm_condition_depth vm + 1) vm')"
    "is_end x \<Longrightarrow> skip_loop i d vm = skip_loop i d (at_depth (vm_condition_depth vm - 1) vm')"
    "is_else x \<Longrightarrow> skip_loop i d vm = (if i \<and> vm_condition_depth vm - 1 = d then vm' else skip_loop i d vm')"
  using dec deep DecodeNextOpcode_depth(2) [OF dec]
  by (subst skip_loop.simps; simp add: is_plain_def is_begin_def is_end_def is_else_def)+

lemma skip_loop_statements:
  "statements xs \<Longrightarrow> decodes vm xs vm' \<Longrightarrow> d < vm_condition_depth vm \<Longrightarrow> skip_loop i d vm = skip_loop i d vm'"
proof (induction xs arbitrary: vm vm' rule: statements.induct)
  case 1
  then show ?case by (auto elim: decodes_nilE)
next
  case (2 x xs)
  from 2(4) obtain vm1 where dec: "DecodeNextOpcode vm = (Some x, vm1)" "decodes vm1 xs vm'"
    by (auto elim: decodes_consE)
  show ?case
    using skip_loop_one(1) [OF dec(1) 2(5,1)] 2(3) [OF dec(2)] 2(5) DecodeNextOpcode_depth(2) [OF dec(1)] by simp
next
  case (3 b xs e zs)
  let ?D = "vm_condition_depth vm"
  from 3(7) obtain vm1 vm2 vm3 where dec: "DecodeNextOpcode vm = (Some b, vm1)" "decodes vm1 xs vm2"
    "DecodeNextOpcode vm2 = (Some e, vm3)" "decodes vm3 zs vm'"
    by (auto elim!: decodes_consE simp: decodes_append)
  have D: "vm_condition_depth vm1 = ?D" "vm_condition_depth vm2 = ?D" "vm_condition_depth vm3 = ?D"
    using DecodeNextOpcode_depth(2) dec(1,3) decodes_depth [OF dec(2)] by auto
  have "skip_loop i d vm = skip_loop i d (at_depth (?D + 1) vm1)"
    by (rule skip_loop_one(2) [OF dec(1) 3(8,1)])
  also have "\<dots> = skip_loop i d (at_depth (?D + 1) vm2)"
    using 3(5) [of "at_depth (?D + 1) vm1" "at_depth (?D + 1) vm2"] decodes_depth [OF dec(2)] 3(8) by simp
  also have "\<dots> = skip_loop i d (at_depth ?D vm3)"
    using skip_loop_one(3) [OF DecodeNextOpcode_depth(1) [OF dec(3), of "?D + 1"] _ 3(3), of d i] 3(8) by simp
  also have "at_depth ?D vm3 = vm3" using D(3) by simp
  also have "skip_loop i d vm3 = skip_loop i d vm'" using 3(6) [OF dec(4)] D(3) 3(8) by simp
  finally show ?case .
next
  case (4 b xs l ys e zs)
  let ?D = "vm_condition_depth vm"
  from 4(10) obtain vm1 vm2 vm3 vm4 vm5 where dec: "DecodeNextOpcode vm = (Some b, vm1)" "decodes vm1 xs vm2"
    "DecodeNextOpcode vm2 = (Some l, vm3)" "decodes vm3 ys vm4" "DecodeNextOpcode vm4 = (Some e, vm5)"
    "decodes vm5 zs vm'"
    by (auto elim!: decodes_consE simp: decodes_append)
  have D: "vm_condition_depth vm5 = ?D"
    using DecodeNextOpcode_depth(2) dec(1,3,5) decodes_depth [OF dec(2)] decodes_depth [OF dec(4)] by auto
  have "skip_loop i d vm = skip_loop i d (at_depth (?D + 1) vm1)"
    by (rule skip_loop_one(2) [OF dec(1) 4(11,1)])
  also have "\<dots> = skip_loop i d (at_depth (?D + 1) vm2)"
    using 4(7) [of "at_depth (?D + 1) vm1" "at_depth (?D + 1) vm2"] decodes_depth [OF dec(2)] 4(11) by simp
  also have "\<dots> = skip_loop i d (at_depth (?D + 1) vm3)"
    using skip_loop_one(4) [OF DecodeNextOpcode_depth(1) [OF dec(3), of "?D + 1"] _ 4(3), of d i] 4(11) by simp
  also have "\<dots> = skip_loop i d (at_depth (?D + 1) vm4)"
    using 4(8) [of "at_depth (?D + 1) vm3" "at_depth (?D + 1) vm4"] decodes_depth [OF dec(4)] 4(11) by simp
  also have "\<dots> = skip_loop i d (at_depth ?D vm5)"
    using skip_loop_one(3) [OF DecodeNextOpcode_depth(1) [OF dec(5), of "?D + 1"] _ 4(5), of d i] 4(11) by simp
  also have "at_depth ?D vm5 = vm5" using D by simp
  also have "skip_loop i d vm5 = skip_loop i d vm'" using 4(9) [OF dec(6)] D 4(11) by simp
  finally show ?case .
qed

lemma skip_loop_done: "vm_condition_depth vm \<le> d \<Longrightarrow> skip_loop i d vm = vm"
  by (subst skip_loop.simps) simp

text \<open>
  C30. Skipping follows the block structure of the program. From inside a block of depth \<open>D\<close>, skipping over the
  statements of a branch continues after the end of that block at depth \<open>D - 1\<close>; when a condition was
  false and the branch ends with an else, it continues after that else at the same depth; skipping
  from an else ignores the elses of inner blocks; and a branch without an end skips to where decoding fails.
\<close>

theorem skip_follows_block_structure:
  assumes D: "vm_condition_depth vm = D" "0 < D" and xs: "statements xs" "decodes vm xs vm1"
  shows "(\<forall>e vm2. DecodeNextOpcode vm1 = (Some e, vm2) \<and> is_end e \<longrightarrow>
        SkipConditionalBlock is_if vm = Inr (at_depth (D - 1) vm2)) \<and>
    (\<forall>l vm2. DecodeNextOpcode vm1 = (Some l, vm2) \<and> is_else l \<longrightarrow>
        SkipConditionalBlock True vm = Inr vm2 \<and>
        (\<forall>ys vm3 e vm4. statements ys \<and> decodes vm2 ys vm3 \<and> DecodeNextOpcode vm3 = (Some e, vm4) \<and> is_end e \<longrightarrow>
           SkipConditionalBlock False vm = Inr (at_depth (D - 1) vm4))) \<and>
    (\<forall>vm2. DecodeNextOpcode vm1 = (None, vm2) \<longrightarrow> SkipConditionalBlock is_if vm = Inr vm2)"
proof (intro conjI allI impI)
  have D1: "vm_condition_depth vm1 = D" using decodes_depth [OF xs(2)] D by simp
  have skip: "SkipConditionalBlock i vm = Inr (skip_loop i (D - 1) vm1)" for i
    using D skip_loop_statements [OF xs, of "D - 1" i] by (simp add: SkipConditionalBlock_def)
  have deep: "D - 1 < vm_condition_depth vm1" using D1 D(2) by simp
  show "SkipConditionalBlock is_if vm = Inr (at_depth (D - 1) vm2)"
    if a: "DecodeNextOpcode vm1 = (Some e, vm2) \<and> is_end e" for e vm2
    using skip_loop_one(3) [OF conjunct1 [OF a] deep] a D1 by (simp add: skip skip_loop_done)
  show "SkipConditionalBlock True vm = Inr vm2"
    if a: "DecodeNextOpcode vm1 = (Some l, vm2) \<and> is_else l" for l vm2
    using skip_loop_one(4) [OF conjunct1 [OF a] deep] a D1 by (simp add: skip)
  show "SkipConditionalBlock False vm = Inr (at_depth (D - 1) vm4)"
    if l: "DecodeNextOpcode vm1 = (Some l, vm2) \<and> is_else l"
      and a: "statements ys \<and> decodes vm2 ys vm3 \<and> DecodeNextOpcode vm3 = (Some e, vm4) \<and> is_end e"
    for l vm2 ys vm3 e vm4
  proof -
    have "skip_loop False (D - 1) vm1 = skip_loop False (D - 1) vm2"
      using skip_loop_one(4) [OF conjunct1 [OF l] deep] l by simp
    moreover have D2: "vm_condition_depth vm2 = D" using DecodeNextOpcode_depth(2) l D1 by metis
    moreover have "skip_loop False (D - 1) vm2 = skip_loop False (D - 1) vm3"
      using skip_loop_statements [of ys vm2 vm3] a D2 D(2) by simp
    moreover have D3: "vm_condition_depth vm3 = D" using decodes_depth a D2 by metis
    moreover have "skip_loop False (D - 1) vm3 = at_depth (D - 1) vm4"
      using skip_loop_one(3) [of vm3 e vm4 "D - 1" False] a D3 D(2) by (simp add: skip_loop_done)
    ultimately show ?thesis by (simp add: skip)
  qed
  show "SkipConditionalBlock is_if vm = Inr vm2" if "DecodeNextOpcode vm1 = (None, vm2)" for vm2
    unfolding skip using that deep by (subst skip_loop.simps) simp
qed

lemma program_vm_fields [simp]:
  "vm_num_opcodes (program_vm ws) = length ws"
  "i < length ws \<Longrightarrow> vm_program (program_vm ws) ! i = ws ! i"
  by (simp_all add: program_vm_def nth_append)

lemmas decode_eval =
  decode_opcode_def opcode_type_def nybble_def join_words_def GetNextDword_def GetNextVmInt_def
  decode_StoreStatic_def decode_LoadRegisterStatic_def decode_ControlLoop_def begins_conditional_def

theorem cheat_machine_stays_well_formed_witness:
  "\<exists>opc s. run (vm_step sample_metadata log_callbacks 0) (ResetState (program_vm [0x40010000, 0, 5]), []) [opc] s \<and>
     op_opcode opc = LoadRegisterStatic \<lparr> ls_reg_index = 1, ls_value = 5 \<rparr> \<and> vm_registers (fst s) ! 1 = 5 \<and>
     vm_ok (fst s) \<and> same_program (program_vm [0x40010000, 0, 5]) (fst s)"
proof -
  let ?p = "program_vm [0x40010000, 0, 5]"
  let ?opc = "\<lparr> op_begin_conditional_block = False, op_opcode = LoadRegisterStatic \<lparr> ls_reg_index = 1, ls_value = 5 \<rparr> \<rparr>"
  let ?vm = "(ResetState ?p) \<lparr> vm_instruction_ptr := 3 \<rparr>"
  have "DecodeNextOpcode (ResetState ?p) = (Some ?opc, ?vm)"
    by (simp add: DecodeNextOpcode_def decode_eval Let_def ResetState_def)
  moreover have "exec_decoded sample_metadata log_callbacks 0 ?opc (?vm, []) = Inr (set_reg 1 5 ?vm, [])"
    by (simp add: exec_decoded_def exec_opcode_def)
  ultimately have "vm_step sample_metadata log_callbacks 0 (ResetState ?p, []) ?opc (set_reg 1 5 ?vm, [])"
    by (intro vm_step.intros) simp_all
  then have r: "run (vm_step sample_metadata log_callbacks 0) (ResetState ?p, []) [?opc] (set_reg 1 5 ?vm, [])" by (rule run_one)
  have l: "vm_loaded ?p" by (rule program_vm_loaded) simp
  have "vm_registers (set_reg 1 5 ?vm) ! 1 = 5" by (simp add: set_reg_def ResetState_def NumRegisters_def)
  then show ?thesis using r cheat_machine_stays_well_formed [OF l r] by (intro exI [of _ ?opc] exI [of _ "(set_reg 1 5 ?vm, [])"]) simp
qed

definition sample_block :: DmntCheatVm where
  "sample_block = at_depth 1 (ResetState (program_vm [0x40000000, 0, 5, 0x20000000]))"

theorem skip_follows_block_structure_witness:
  "SkipConditionalBlock True sample_block = Inr (at_depth 0 (sample_block \<lparr> vm_instruction_ptr := 4 \<rparr>))"
proof -
  let ?x = "\<lparr> op_begin_conditional_block = False,
              op_opcode = LoadRegisterStatic \<lparr> ls_reg_index = 0, ls_value = 5 \<rparr> \<rparr>"
  let ?e = "\<lparr> op_begin_conditional_block = False, op_opcode = EndConditional \<lparr> ec_is_else = False \<rparr> \<rparr>"
  let ?v1 = "sample_block \<lparr> vm_instruction_ptr := 3 \<rparr>"
  have "DecodeNextOpcode sample_block = (Some ?x, ?v1)"
    by (simp add: sample_block_def DecodeNextOpcode_def decode_eval Let_def ResetState_def)
  then have d: "decodes sample_block [?x] ?v1" by (rule decodes_cons) (rule decodes_nil)
  have e: "DecodeNextOpcode ?v1 = (Some ?e, sample_block \<lparr> vm_instruction_ptr := 4 \<rparr>) \<and> is_end ?e"
    by (simp add: sample_block_def DecodeNextOpcode_def decode_eval Let_def ResetState_def is_end_def
        is_begin_def get_EndConditional_def)
  have st: "statements [?x]"
    by (intro statements.intros) (simp add: is_plain_def is_begin_def get_EndConditional_def)
  have D: "vm_condition_depth sample_block = 1" by (simp add: sample_block_def)
  show ?thesis
    using skip_follows_block_structure [OF D _ st d, of True] e by simp
qed

section \<open>Termination\<close>

definition is_loop_end :: "Opcode \<Rightarrow> bool" where
  "is_loop_end opcode = (case opcode of ControlLoop x \<Rightarrow> \<not> cl_start_loop x | _ \<Rightarrow> False)"

text \<open>No position of the program decodes to the end of a loop, the only backward jump.\<close>

definition no_loop_end :: "DmntCheatVm \<Rightarrow> bool" where
  "no_loop_end vm \<longleftrightarrow>
     (\<forall>ip \<in> set [0..<vm_num_opcodes vm].
        \<not> is_loop_end (fst (decode_opcode vm (vm_program vm ! ip) (ip + 1, True))))"

lemma decode_opcode_program:
  assumes "same_program vm vm'"
  shows "decode_opcode vm' w c = decode_opcode vm w c"
proof -
  have dw: "GetNextDword vm' c = GetNextDword vm c" for c
    using assms by (simp add: GetNextDword_def same_program_def)
  have vi: "GetNextVmInt vm' b c = GetNextVmInt vm b c" for b c
    unfolding GetNextVmInt_def dw by (rule refl)
  show ?thesis
    unfolding decode_opcode_def decode_StoreStatic_def decode_BeginConditional_def decode_ControlLoop_def
      decode_LoadRegisterStatic_def decode_LoadRegisterMemory_def decode_StoreStaticToAddress_def
      decode_PerformArithmeticStatic_def decode_PerformArithmeticRegister_def
      decode_StoreRegisterToAddress_def decode_BeginRegisterConditional_def decode_DebugLog_def dw vi
    by (rule refl)
qed

lemma no_loop_end_decode:
  assumes n: "no_loop_end vm" and same: "same_program vm vm1" and dec: "DecodeNextOpcode vm1 = (Some opc, vm2)"
  shows "\<not> is_loop_end (op_opcode opc)"
proof -
  have "vm_instruction_ptr vm1 < vm_num_opcodes vm1" using DecodeNextOpcode_Some(2,3) [OF dec] by simp
  then have "vm_instruction_ptr vm1 \<in> set [0..<vm_num_opcodes vm]" using same by (simp add: same_program_def)
  then have "\<not> is_loop_end (fst (decode_opcode vm (vm_program vm ! vm_instruction_ptr vm1)
      (vm_instruction_ptr vm1 + 1, True)))" using n unfolding no_loop_end_def by blast
  then show ?thesis
    using DecodeNextOpcode_Some(6) [OF dec] decode_opcode_program [OF same] same by (simp add: same_program_def)
qed

lemma ip_skip_unless:
  "skip_unless b s = Inr s' \<Longrightarrow> vm_instruction_ptr (fst s) \<le> vm_instruction_ptr (fst s')"
  using moved_skip_loop
  by (auto simp: skip_unless_def SkipConditionalBlock_def moved_def split: if_splits sum.splits)

lemma ip_set_reg [simp]: "vm_instruction_ptr (set_reg i v vm) = vm_instruction_ptr vm"
  by (simp add: set_reg_def)

lemma ip_exec_opcode:
  assumes "\<not> is_loop_end opc" "exec_opcode md cb k opc s = Inr s'"
  shows "vm_instruction_ptr (fst s) \<le> vm_instruction_ptr (fst s')"
proof (cases opc)
  case (EndConditional x)
  then show ?thesis
    using assms(2) moved_skip_loop
    by (auto simp: exec_opcode_def exec_EndConditional_def Let_def SkipConditionalBlock_def moved_def
        split: if_splits sum.splits prod.splits)
next
  case (ControlLoop x)
  then show ?thesis using assms by (auto simp: exec_opcode_def exec_ControlLoop_def is_loop_end_def)
next
  case (PerformArithmeticStatic x)
  then show ?thesis
    using assms(2)
    by (auto simp: exec_opcode_def lift_vm_def exec_PerformArithmeticStatic_def split: sum.splits)
next
  case (PerformArithmeticRegister x)
  then show ?thesis
    using assms(2)
    by (auto simp: exec_opcode_def lift_vm_def exec_PerformArithmeticRegister_def Let_def split: sum.splits)
qed (use assms(2) in
    \<open>auto dest: ip_skip_unless simp: exec_opcode_def exec_BeginConditional_def exec_BeginKeypressConditional_def
      exec_BeginRegisterConditional_def exec_StoreStatic_def exec_LoadRegisterMemory_def
      exec_StoreStaticToAddress_def exec_StoreRegisterToAddress_def exec_DebugLog_def Let_def
      exec_SaveRestoreRegister_def exec_SaveRestoreRegisterMask_def exec_ReadWriteStaticRegister_def
      split: prod.splits if_splits\<close>)

lemma execute_loop_returns:
  assumes "vm_ok (fst s)" "no_loop_end vm" "same_program vm (fst s)"
  shows "\<exists>r. execute_loop md cb k s = Some r"
  using assms
proof (induction "vm_num_opcodes vm - vm_instruction_ptr (fst s)" arbitrary: s rule: less_induct)
  case less
  obtain o1 vm1 where dec: "DecodeNextOpcode (fst s) = (o1, vm1)" by fastforce
  show ?case
  proof (cases o1)
    case None
    then show ?thesis using dec by (subst execute_loop.simps) simp
  next
    case (Some opc)
    note dec' = dec [unfolded Some]
    show ?thesis
    proof (cases "exec_decoded md cb k opc (vm1, snd s)")
      case (Inl e)
      then show ?thesis using dec Some by (subst execute_loop.simps) simp
    next
      case (Inr s')
      have step: "vm_step md cb k s opc s'" using dec Some Inr by (auto intro: vm_step.intros)
      have kept: "vm_ok (fst s')" "same_program vm (fst s')"
        using keeps_step [OF step] less.prems same_program_trans by (auto simp: keeps_def)
      have "vm_instruction_ptr vm1 \<le> vm_instruction_ptr (fst s')"
        using ip_exec_opcode [OF no_loop_end_decode [OF less.prems(2,3) dec'], of md cb k _ s'] Inr
        unfolding exec_decoded_def Let_def by (cases "op_begin_conditional_block opc") fastforce+
      moreover have "vm_instruction_ptr (fst s) < vm_instruction_ptr vm1"
        "vm_instruction_ptr vm1 \<le> vm_num_opcodes vm"
        using DecodeNextOpcode_Some(2,3) [OF dec'] less.prems(3) by (simp_all add: same_program_def)
      ultimately have "vm_num_opcodes vm - vm_instruction_ptr (fst s') < vm_num_opcodes vm - vm_instruction_ptr (fst s)"
        by simp
      from less.hyps [OF this kept(1) less.prems(2) kept(2)] show ?thesis
        using execute_loop_step [OF step] by simp
    qed
  qed
qed

text \<open>
  C31. A program that contains no end of a loop always finishes, with whatever callbacks.
\<close>

theorem execute_terminates_without_loop_end:
  assumes "vm_loaded vm" "no_loop_end vm"
  shows "\<exists>r. Execute md cb (vm, m) = Some r"
proof -
  have "same_program vm (ResetState vm)" by (simp add: same_program_def ResetState_def)
  then show ?thesis
    using execute_loop_returns [OF _ assms(2), of "(ResetState vm, snd (cb_HidKeysDown cb m))"]
      vm_ok_reset [OF assms(1)]
    by (simp add: Execute_def Let_def case_prod_beta)
qed

theorem execute_terminates_without_loop_end_witness:
  "\<exists>r. Execute sample_metadata log_callbacks (program_vm [0x04000000, 0x10, 0x99], []) = Some r"
proof (rule execute_terminates_without_loop_end)
  show "vm_loaded (program_vm [0x04000000, 0x10, 0x99])" by (rule program_vm_loaded) simp
  show "no_loop_end (program_vm [0x04000000, 0x10, 0x99])"
    by (simp add: no_loop_end_def upt_conv_Cons is_loop_end_def decode_eval Let_def)
qed

text \<open>
  Without that condition an execution may never end: here the loop register is set again in each
  turn of the loop.
\<close>

definition endless :: "u32 list" where
  "endless = [0x40000000, 0, 5, 0x31000000]"

definition endless_state :: "DmntCheatVm \<Rightarrow> bool" where
  "endless_state vm \<longleftrightarrow>
     vm_num_opcodes vm = 4 \<and> (\<forall>i < 4. vm_program vm ! i = endless ! i) \<and> vm_decode_success vm \<and>
     length (vm_registers vm) = 16 \<and> vm_loop_tops vm ! 0 = 0 \<and>
     (vm_instruction_ptr vm = 0 \<or> vm_instruction_ptr vm = 3 \<and> vm_registers vm ! 0 = 5)"

lemma endless_step:
  assumes e: "endless_state vm"
  shows "\<exists>opc vm1 vm2. DecodeNextOpcode vm = (Some opc, vm1) \<and>
    exec_decoded md cb k opc (vm1, m) = Inr (vm2, m) \<and> endless_state vm2"
proof -
  have p: "vm_program vm ! 0 = 0x40000000" "vm_program vm ! Suc 0 = 0" "vm_program vm ! 2 = 5"
    "vm_program vm ! 3 = 0x31000000" "vm_num_opcodes vm = 4" "vm_decode_success vm"
    "length (vm_registers vm) = 16" "vm_loop_tops vm ! 0 = 0" "\<forall>i < 4. vm_program vm ! i = endless ! i"
    using e by (auto simp: endless_state_def endless_def)
  consider "vm_instruction_ptr vm = 0" | "vm_instruction_ptr vm = 3" "vm_registers vm ! 0 = 5"
    using e by (auto simp: endless_state_def)
  then show ?thesis
  proof cases
    case 1
    have "DecodeNextOpcode vm =
        (Some \<lparr> op_begin_conditional_block = False,
                op_opcode = LoadRegisterStatic \<lparr> ls_reg_index = 0, ls_value = 5 \<rparr> \<rparr>,
         vm \<lparr> vm_instruction_ptr := 3 \<rparr>)"
      using 1 p by (simp add: DecodeNextOpcode_def decode_eval Let_def endless_def)
    moreover have "endless_state (set_reg 0 5 (vm \<lparr> vm_instruction_ptr := 3 \<rparr>))"
      using p by (simp add: endless_state_def set_reg_def)
    ultimately show ?thesis by (simp add: exec_decoded_def exec_opcode_def)
  next
    case 2
    have "DecodeNextOpcode vm =
        (Some \<lparr> op_begin_conditional_block = False,
                op_opcode = ControlLoop \<lparr> cl_start_loop = False, cl_reg_index = 0, cl_num_iters = 0 \<rparr> \<rparr>,
         vm \<lparr> vm_instruction_ptr := 4 \<rparr>)"
      using 2 p by (simp add: DecodeNextOpcode_def decode_eval Let_def)
    moreover have "endless_state ((set_reg 0 4 (vm \<lparr> vm_instruction_ptr := 4 \<rparr>)) \<lparr> vm_instruction_ptr := 0 \<rparr>)"
      using p by (simp add: endless_state_def set_reg_def)
    ultimately show ?thesis
      using 2 p by (simp add: exec_decoded_def exec_opcode_def exec_ControlLoop_def set_reg_def Let_def)
  qed
qed

lemma endless_program_never_returns: "Execute md cb (program_vm endless, m) = None"
proof -
  have "\<not> endless_state (fst s)" if "execute_loop md cb k s = Some r" for k s r
    using that
  proof (induction rule: execute_loop.raw_induct [rotated, consumes 1, case_names step])
    case (step loop md cb k s r)
    show ?case
    proof
      assume "endless_state (fst s)"
      from endless_step [OF this, of md cb k "snd s"] show False
        using step by (fastforce split: prod.splits option.splits)
    qed
  qed
  moreover have "endless_state (ResetState (program_vm endless))"
    by (simp add: endless_state_def ResetState_def endless_def NumRegisters_def)
  ultimately show ?thesis by (auto simp: Execute_def Let_def case_prod_beta) (metis fst_conv not_None_eq)
qed

section \<open>Errors\<close>

fun conditional_opcode :: "Opcode \<Rightarrow> bool" where
  "conditional_opcode (BeginConditional x) = True"
| "conditional_opcode (BeginKeypressConditional x) = True"
| "conditional_opcode (BeginRegisterConditional x) = True"
| "conditional_opcode _ = False"

lemma decode_conditional:
  "conditional_opcode (fst (decode_opcode vm w c)) \<longleftrightarrow> begins_conditional (opcode_type w)"
proof -
  have no: "\<not> conditional_opcode (fst (decode_StoreStatic vm w c))"
    "\<not> conditional_opcode (fst (decode_ControlLoop vm w c))"
    "\<not> conditional_opcode (fst (decode_LoadRegisterStatic vm w c))"
    "\<not> conditional_opcode (fst (decode_LoadRegisterMemory vm w c))"
    "\<not> conditional_opcode (fst (decode_StoreStaticToAddress vm w c))"
    "\<not> conditional_opcode (fst (decode_PerformArithmeticStatic vm w c))"
    "\<not> conditional_opcode (fst (decode_PerformArithmeticRegister vm w c))"
    "\<not> conditional_opcode (fst (decode_StoreRegisterToAddress vm w c))"
    "\<not> conditional_opcode (decode_SaveRestoreRegisterMask w)"
    "\<not> conditional_opcode (fst (decode_DebugLog vm w c))"
    unfolding decode_StoreStatic_def decode_ControlLoop_def
      decode_LoadRegisterStatic_def decode_LoadRegisterMemory_def decode_StoreStaticToAddress_def
      decode_PerformArithmeticStatic_def decode_PerformArithmeticRegister_def
      decode_StoreRegisterToAddress_def decode_SaveRestoreRegisterMask_def decode_DebugLog_def
    by (simp_all add: Let_def case_prod_beta)
  have yes: "conditional_opcode (fst (decode_BeginConditional vm w c))"
    "conditional_opcode (fst (decode_BeginRegisterConditional vm w c))"
    unfolding decode_BeginConditional_def decode_BeginRegisterConditional_def
    by (simp_all add: Let_def case_prod_beta)
  show ?thesis
    unfolding decode_opcode_def Let_def begins_conditional_def using no yes by (simp split: if_split)
qed

text \<open>The second operand of register arithmetic.\<close>

definition second_operand :: "PerformArithmeticRegisterOpcode \<Rightarrow> DmntCheatVm \<Rightarrow> u64" where
  "second_operand x vm =
     (if ar_has_immediate x then GetVmInt (ar_value x) (ar_bit_width x) else reg vm (ar_src_reg_2_index x))"

lemma shift_errors:
  "shift_left v n = Inl e \<longleftrightarrow> e = UndefinedShift \<and> 64 \<le> n"
  "shift_right v n = Inl e \<longleftrightarrow> e = UndefinedShift \<and> 64 \<le> n"
  by (auto simp: shift_left_def shift_right_def)

lemma arithmetic_errors:
  "arithmetic_static t r v = Inl e \<longleftrightarrow> e = UndefinedShift \<and> (t = 3 \<or> t = 4) \<and> 64 \<le> v"
  "arithmetic_register t r v = Inl e \<longleftrightarrow> e = UndefinedShift \<and> (t = 3 \<or> t = 4) \<and> 64 \<le> v"
  by (auto simp: arithmetic_static_def arithmetic_register_def shift_errors)

lemma case_sum_Inl: "(case r of Inl x \<Rightarrow> Inl x | Inr v \<Rightarrow> Inr (f v)) = Inl e \<longleftrightarrow> r = Inl e"
  by (cases r) simp_all

lemma exec_arithmetic_errors:
  "exec_PerformArithmeticStatic x vm = Inl e \<longleftrightarrow>
     e = UndefinedShift \<and> (as_math_type x = 3 \<or> as_math_type x = 4) \<and> 64 \<le> (ucast (as_value x) :: u64)"
  "exec_PerformArithmeticRegister y vm = Inl e \<longleftrightarrow>
     e = UndefinedShift \<and> (ar_math_type y = 3 \<or> ar_math_type y = 4) \<and> 64 \<le> second_operand y vm"
  by (simp_all add: exec_PerformArithmeticStatic_def exec_PerformArithmeticRegister_def second_operand_def
      Let_def case_sum_Inl arithmetic_errors)

lemma skip_errors:
  "SkipConditionalBlock i vm = Inl e \<longleftrightarrow> e = InvalidConditionDepth \<and> vm_condition_depth vm = 0"
  by (auto simp: SkipConditionalBlock_def)

lemma skip_unless_errors: "0 < vm_condition_depth (fst s) \<Longrightarrow> skip_unless b s \<noteq> Inl e"
  by (auto simp: skip_unless_def SkipConditionalBlock_def)

lemma lift_vm_Inl: "lift_vm m r = Inl e \<longleftrightarrow> r = Inl e"
  by (auto simp: lift_vm_def split: sum.splits)

text \<open>
  C32. An instruction of a program fails in two cases only: an else outside every conditional
  block, which reaches the branch marked as unreachable, and an arithmetic shift by 64 or more,
  which the language leaves undefined. In particular a false condition never fails.
\<close>

theorem execution_errors:
  assumes dec: "DecodeNextOpcode vm0 = (Some opc, vm)"
  shows "exec_decoded md cb k opc (vm, m) = Inl e \<longleftrightarrow>
    (case op_opcode opc of
       EndConditional x \<Rightarrow> e = InvalidConditionDepth \<and> ec_is_else x \<and> vm_condition_depth vm = 0
     | PerformArithmeticStatic x \<Rightarrow>
         e = UndefinedShift \<and> (as_math_type x = 3 \<or> as_math_type x = 4) \<and> 64 \<le> (ucast (as_value x) :: u64)
     | PerformArithmeticRegister x \<Rightarrow>
         e = UndefinedShift \<and> (ar_math_type x = 3 \<or> ar_math_type x = 4) \<and> 64 \<le> second_operand x vm
     | _ \<Rightarrow> False)"
proof -
  have flag: "op_begin_conditional_block opc = conditional_opcode (op_opcode opc)"
    using DecodeNextOpcode_Some(6,7) [OF dec] decode_conditional by simp
  show ?thesis
  proof (cases "op_opcode opc")
    case (EndConditional x)
    then show ?thesis
      using flag
      by (simp add: exec_decoded_def Let_def exec_opcode_def exec_EndConditional_def skip_errors case_sum_Inl)
  next
    case (PerformArithmeticStatic x)
    then show ?thesis
      using flag by (simp add: exec_decoded_def Let_def exec_opcode_def lift_vm_Inl exec_arithmetic_errors)
  next
    case (PerformArithmeticRegister x)
    then show ?thesis
      using flag by (simp add: exec_decoded_def Let_def exec_opcode_def lift_vm_Inl exec_arithmetic_errors)
  qed (use flag in \<open>simp_all add: exec_decoded_def Let_def exec_opcode_def exec_BeginConditional_def
      exec_BeginKeypressConditional_def exec_BeginRegisterConditional_def skip_unless_errors\<close>)
qed

lemma else_program_decodes:
  "DecodeNextOpcode (ResetState (program_vm [0x21000000])) =
     (Some \<lparr> op_begin_conditional_block = False, op_opcode = EndConditional \<lparr> ec_is_else = True \<rparr> \<rparr>,
      (ResetState (program_vm [0x21000000])) \<lparr> vm_instruction_ptr := 1 \<rparr>)"
  by (simp add: DecodeNextOpcode_def decode_eval Let_def ResetState_def)

theorem execution_errors_witness:
  "exec_decoded sample_metadata log_callbacks 0
     \<lparr> op_begin_conditional_block = False, op_opcode = EndConditional \<lparr> ec_is_else = True \<rparr> \<rparr>
     ((ResetState (program_vm [0x21000000])) \<lparr> vm_instruction_ptr := 1 \<rparr>, []) = Inl InvalidConditionDepth"
  using execution_errors [OF else_program_decodes, of sample_metadata log_callbacks 0 "[]" InvalidConditionDepth]
  by (simp add: ResetState_def)

text \<open>So a program of one word reaches the branch of \<^verbatim>\<open>SkipConditionalBlock\<close> that is marked as unreachable.\<close>

lemma else_program_fails:
  "Execute md cb (program_vm [0x21000000], m) = Some (Inl InvalidConditionDepth)"
proof -
  have "vm_condition_depth (ResetState (program_vm [0x21000000])) = 0" by (simp add: ResetState_def)
  then have "stops md cb k (ResetState (program_vm [0x21000000]), m') (Inl InvalidConditionDepth)" for k m'
    by (simp add: stops_def else_program_decodes exec_decoded_def exec_opcode_def exec_EndConditional_def
        SkipConditionalBlock_def)
  from execute_loop_stops [OF this] show ?thesis
    by (simp add: Execute_def Let_def case_prod_beta)
qed

section \<open>Saving and restoring registers\<close>

lemma operate_masked_nth:
  assumes "i < length dst" "length dst = 16"
  shows "operate_masked ops clear src dst ! i =
    (if ops ! i then (if clear then 0 else src ! i) else dst ! i)"
proof -
  have "foldl (\<lambda>d j. if ops ! j then d [j := f j] else d) dst [0..<n] ! i =
      (if i < n \<and> ops ! i then f i else dst ! i) \<and>
      length (foldl (\<lambda>d j. if ops ! j then d [j := f j] else d) dst [0..<n]) = length dst" for f n
    using assms by (induction n) (auto simp: nth_list_update less_Suc_eq)
  from this [of "\<lambda>j. if clear then 0 else src ! j" 16] show ?thesis
    using assms by (simp add: operate_masked_def NumRegisters_def)
qed

definition save_op :: "bool list \<Rightarrow> SaveRestoreRegisterMaskOpcode" where
  "save_op ops = \<lparr> sm_op_type = 1, sm_should_operate = ops \<rparr>"

definition restore_op :: "bool list \<Rightarrow> SaveRestoreRegisterMaskOpcode" where
  "restore_op ops = \<lparr> sm_op_type = 0, sm_should_operate = ops \<rparr>"

text \<open>
  Registers that a mask saves have their values again after a restore with the same mask,
  whatever was written to the registers in between; registers outside the mask keep what was written,
  and the saved values outside the mask are untouched.
\<close>

theorem save_restore_roundtrip:
  assumes ok: "vm_ok vm" and len: "length regs = 16" and i: "i < 16"
    and vm1: "vm1 = exec_SaveRestoreRegisterMask (save_op ops) vm"
    and vm2: "vm2 = exec_SaveRestoreRegisterMask (restore_op ops) (vm1 \<lparr> vm_registers := regs \<rparr>)"
  shows "vm_registers vm2 ! i = (if ops ! i then vm_registers vm ! i else regs ! i) \<and>
    vm_saved_values vm2 ! i = (if ops ! i then vm_registers vm ! i else vm_saved_values vm ! i)"
proof (intro conjI)
  have l: "length (vm_saved_values vm) = 16" using ok by (simp add: vm_ok_def)
  have saved: "vm_saved_values vm1 ! i = (if ops ! i then vm_registers vm ! i else vm_saved_values vm ! i)"
    using i l unfolding vm1 exec_SaveRestoreRegisterMask_def save_op_def Let_def
    by (simp add: operate_masked_nth)
  show "vm_saved_values vm2 ! i = (if ops ! i then vm_registers vm ! i else vm_saved_values vm ! i)"
    using saved unfolding vm2 exec_SaveRestoreRegisterMask_def restore_op_def Let_def by simp
  show "vm_registers vm2 ! i = (if ops ! i then vm_registers vm ! i else regs ! i)"
    using i len saved unfolding vm2 exec_SaveRestoreRegisterMask_def restore_op_def Let_def
    by (simp add: operate_masked_nth)
qed

theorem save_restore_roundtrip_witness:
  "vm_registers (exec_SaveRestoreRegisterMask (restore_op (replicate 16 True))
     ((exec_SaveRestoreRegisterMask (save_op (replicate 16 True)) (ResetState (program_vm [])))
        \<lparr> vm_registers := replicate 16 7 \<rparr>)) ! 3 = 0"
proof -
  have "vm_ok (ResetState (program_vm []))" by (rule vm_ok_reset, rule program_vm_loaded) simp
  from save_restore_roundtrip [OF this _ _ refl refl, of "replicate 16 7" 3 "replicate 16 True"]
  show ?thesis by (simp add: ResetState_def NumRegisters_def)
qed

end
