(* ===== verification/CheatEngine.thy ===== *)
theory CheatEngine
  imports CheatVmBehaviour
begin

text \<open>
  The cheat engine (\<^verbatim>\<open>core/memory/cheat_engine.{h,cpp}\<close>): the parser of cheat files, the callbacks that
  connect the virtual machine to the emulated process, and the frame callback that loads and runs the cheats.

  The emulated memory, the controller and the process are parameters, grouped in a record of host
  operations. The text is a list of characters; the byte behind its end, which \<^verbatim>\<open>ExtractName\<close> reads when a
  name is not terminated, is the parameter \<open>past\<close>. Character classes are those of the C locale.
\<close>

section \<open>Parsing\<close>

abbreviation (input) NAME_SIZE :: nat where "NAME_SIZE \<equiv> 0x40"
abbreviation (input) OPCODES_SIZE :: nat where "OPCODES_SIZE \<equiv> 0x100"

definition CheatDefinition_default :: CheatDefinition where
  "CheatDefinition_default =
     \<lparr> cd_readable_name = replicate NAME_SIZE (CHR 0x00), cd_num_opcodes = 0,
       cd_opcodes = replicate OPCODES_SIZE 0 \<rparr>"

definition CheatEntry_default :: CheatEntry where
  "CheatEntry_default =
     \<lparr> ce_enabled = False, ce_cheat_id = 0, ce_definition = CheatDefinition_default \<rparr>"

definition char_at :: "char \<Rightarrow> string \<Rightarrow> nat \<Rightarrow> char" where
  "char_at past data i = (if i < length data then data ! i else past)"

text \<open>The search for the closing character: the index, or \<^const>\<open>None\<close> when it runs past the end.\<close>

function find_match :: "char \<Rightarrow> string \<Rightarrow> char \<Rightarrow> nat \<Rightarrow> nat option" where
  "find_match past data match end_index =
     (if char_at past data end_index \<noteq> match then
        (if length data < end_index + 1 then None
         else find_match past data match (end_index + 1))
      else Some end_index)"
  by pat_completeness auto
termination
  by (relation "measure (\<lambda>(p, data, m, i). Suc (length data) - i)") auto

declare find_match.simps [simp del]

text \<open>The name and its size before clamping; the empty name stands for failure.\<close>

definition ExtractName :: "char \<Rightarrow> string \<Rightarrow> nat \<Rightarrow> char \<Rightarrow> string \<times> nat" where
  "ExtractName past data start_index match =
     (case find_match past data match start_index of
        None \<Rightarrow> ([], 0)
      | Some end_index \<Rightarrow>
          (let name_size = end_index - start_index;
               end_index' = (if NAME_SIZE < name_size then start_index + NAME_SIZE else end_index)
           in (take (end_index' - start_index) (drop start_index data), name_size)))"

definition is_space :: "char \<Rightarrow> bool" where
  "is_space c \<longleftrightarrow> of_char c = (0x20 :: nat) \<or> (0x09 \<le> (of_char c :: nat) \<and> of_char c \<le> (0x0D :: nat))"

definition is_xdigit :: "char \<Rightarrow> bool" where
  "is_xdigit c \<longleftrightarrow> c \<in> set ''0123456789abcdefABCDEF''"

definition hex_digit :: "char \<Rightarrow> nat" where
  "hex_digit c =
     (let n = of_char c :: nat
      in if n < 0x3A then n - 0x30 else if n < 0x47 then n - 0x37 else n - 0x57)"

definition hex_value :: "string \<Rightarrow> u32" where
  "hex_value hex = foldl (\<lambda>v c. 16 * v + of_nat (hex_digit c)) 0 hex"

text \<open>The copy of a name into the fixed array, whose last character is the terminator.\<close>

definition set_name :: "string \<Rightarrow> CheatEntry \<Rightarrow> CheatEntry" where
  "set_name name e =
     (let d = ce_definition e;
          n = min NAME_SIZE (length name);
          copied = take n name @ drop n (cd_readable_name d)
      in e \<lparr> ce_definition := d \<lparr> cd_readable_name := copied [NAME_SIZE - 1 := CHR 0x00] \<rparr> \<rparr>)"

definition add_opcode :: "u32 \<Rightarrow> CheatEntry \<Rightarrow> CheatEntry" where
  "add_opcode value e =
     (let d = ce_definition e
      in e \<lparr> ce_definition :=
               d \<lparr> cd_opcodes := (cd_opcodes d) [cd_num_opcodes d := value],
                   cd_num_opcodes := cd_num_opcodes d + 1 \<rparr> \<rparr>)"

text \<open>The entries and the current entry; \<^const>\<open>None\<close> is the return of an empty vector.\<close>

type_synonym parser = "CheatEntry list \<times> nat option"

text \<open>One turn of the loop at index \<open>i\<close>: the new state and the index of the next turn.\<close>

definition parse_turn :: "char \<Rightarrow> string \<Rightarrow> nat \<Rightarrow> parser \<Rightarrow> (parser \<times> nat) option" where
  "parse_turn past data i p =
     (let (out, current_entry) = p; c = data ! i
      in if is_space c then Some (p, i + 1)
         else if c = CHR ''{'' then
           (if 0 < cd_num_opcodes (ce_definition (out ! 0)) then None
            else
              (let (name, name_size) = ExtractName past data (i + 1) (CHR ''}'')
               in if name = [] then None
                  else Some ((out [0 := set_name name (out ! 0)], Some 0), i + name_size + 2)))
         else if c = CHR ''['' then
           (let (name, name_size) = ExtractName past data (i + 1) (CHR '']'')
            in if name = [] then None
               else Some ((out @ [set_name name CheatEntry_default], Some (length out)),
                          i + name_size + 2))
         else if is_xdigit c then
           (case current_entry of
              None \<Rightarrow> None
            | Some n \<Rightarrow>
                (if OPCODES_SIZE \<le> cd_num_opcodes (ce_definition (out ! n)) then None
                 else
                   (let hex = take 8 (drop i data)
                    in if \<not> list_all is_xdigit hex then None
                       else Some ((out [n := add_opcode (hex_value hex) (out ! n)], current_entry), i + 9))))
         else None)"

lemma parse_turn_advances: "parse_turn past data i p = Some (p', j) \<Longrightarrow> i < j"
  by (auto simp: parse_turn_def Let_def split: if_splits prod.splits option.splits)

function parse_loop :: "char \<Rightarrow> string \<Rightarrow> nat \<Rightarrow> parser \<Rightarrow> parser option" where
  "parse_loop past data i p =
     (if i < length data then
        (case parse_turn past data i p of
           None \<Rightarrow> None
         | Some (p', j) \<Rightarrow> parse_loop past data j p')
      else Some p)"
  by pat_completeness auto
termination
  by (relation "measure (\<lambda>(c, data, i, p). length data - i)")
    (auto dest!: parse_turn_advances)

declare parse_loop.simps [simp del]

definition finish_entry :: "CheatEntry \<Rightarrow> nat \<Rightarrow> CheatEntry" where
  "finish_entry e i =
     e \<lparr> ce_enabled := 0 < cd_num_opcodes (ce_definition e), ce_cheat_id := i \<rparr>"

definition Parse :: "char \<Rightarrow> string \<Rightarrow> CheatEntry list" where
  "Parse past data =
     (case parse_loop past data 0 ([CheatEntry_default], None) of
        None \<Rightarrow> []
      | Some (out, _) \<Rightarrow> map (\<lambda>i. finish_entry (out ! i) i) [0..<length out])"

section \<open>The callbacks of the machine\<close>

text \<open>
  The host: validity and access of the emulated memory, the pressed buttons with their reset, and the
  activity of the process.
\<close>

record 'm Host =
  host_IsValidVirtualAddress :: "u64 \<Rightarrow> 'm \<Rightarrow> bool"
  host_ReadBlock :: "u64 \<Rightarrow> nat \<Rightarrow> 'm \<Rightarrow> u64"
  host_WriteBlock :: "u64 \<Rightarrow> u64 \<Rightarrow> nat \<Rightarrow> 'm \<Rightarrow> 'm"
  host_KeysDown :: "'m \<Rightarrow> u64 \<times> 'm"
  host_IsSuspended :: "'m \<Rightarrow> bool"
  host_SetActivity :: "bool \<Rightarrow> 'm \<Rightarrow> 'm"

definition in_extents :: "u64 \<Rightarrow> MemoryRegionExtents \<Rightarrow> bool" where
  "in_extents a r \<longleftrightarrow> \<not> (a < mre_base r \<or> mre_base r + mre_size r \<le> a)"

definition IsAddressInRange :: "CheatProcessMetadata \<Rightarrow> u64 \<Rightarrow> bool" where
  "IsAddressInRange md a \<longleftrightarrow>
     \<not> (\<not> in_extents a (md_main_nso_extents md) \<and> \<not> in_extents a (md_heap_extents md) \<and>
        \<not> in_extents a (md_alias_extents md) \<and> \<not> in_extents a (md_aslr_extents md))"

definition Standard_MemoryReadUnsafe :: "CheatProcessMetadata \<Rightarrow> 'm Host \<Rightarrow> u64 \<Rightarrow> nat \<Rightarrow> 'm \<Rightarrow> u64" where
  "Standard_MemoryReadUnsafe md host address n m =
     (if \<not> IsAddressInRange md address \<or> \<not> host_IsValidVirtualAddress host address m then 0
      else host_ReadBlock host address n m)"

definition Standard_MemoryWriteUnsafe ::
    "CheatProcessMetadata \<Rightarrow> 'm Host \<Rightarrow> u64 \<Rightarrow> u64 \<Rightarrow> nat \<Rightarrow> 'm \<Rightarrow> 'm" where
  "Standard_MemoryWriteUnsafe md host address data n m =
     (if \<not> IsAddressInRange md address \<or> \<not> host_IsValidVirtualAddress host address m then m
      else host_WriteBlock host address data n m)"

definition Standard_PauseProcess :: "'m Host \<Rightarrow> 'm \<Rightarrow> 'm" where
  "Standard_PauseProcess host m = (if host_IsSuspended host m then m else host_SetActivity host False m)"

definition Standard_ResumeProcess :: "'m Host \<Rightarrow> 'm \<Rightarrow> 'm" where
  "Standard_ResumeProcess host m = (if \<not> host_IsSuspended host m then m else host_SetActivity host True m)"

definition StandardVmCallbacks :: "CheatProcessMetadata \<Rightarrow> 'm Host \<Rightarrow> 'm Callbacks" where
  "StandardVmCallbacks md host =
     \<lparr> cb_MemoryReadUnsafe = Standard_MemoryReadUnsafe md host,
       cb_MemoryWriteUnsafe = Standard_MemoryWriteUnsafe md host,
       cb_HidKeysDown = host_KeysDown host,
       cb_PauseProcess = Standard_PauseProcess host,
       cb_ResumeProcess = Standard_ResumeProcess host,
       cb_DebugLog = (\<lambda>_ _ m. m) \<rparr>"

section \<open>The engine\<close>

record CheatEngine =
  eng_vm :: DmntCheatVm
  eng_metadata :: CheatProcessMetadata
  eng_cheats :: "CheatEntry list"
  eng_is_pending_reload :: bool

definition CheatEngine_create :: "CheatEntry list \<Rightarrow> u8 list \<Rightarrow> CheatEngine" where
  "CheatEngine_create cheats build_id =
     \<lparr> eng_vm = DmntCheatVm_create,
       eng_metadata =
         \<lparr> md_process_id = 0, md_title_id = 0,
           md_main_nso_extents = \<lparr> mre_base = 0, mre_size = 0 \<rparr>,
           md_heap_extents = \<lparr> mre_base = 0, mre_size = 0 \<rparr>,
           md_alias_extents = \<lparr> mre_base = 0, mre_size = 0 \<rparr>,
           md_aslr_extents = \<lparr> mre_base = 0, mre_size = 0 \<rparr>, md_main_nso_build_id = build_id \<rparr>,
       eng_cheats = cheats, eng_is_pending_reload = False \<rparr>"

text \<open>The identifiers and the regions of the application are arguments; the timing event is not modelled.\<close>

definition CheatEngine_Initialize ::
    "u64 \<Rightarrow> u64 \<Rightarrow> MemoryRegionExtents \<Rightarrow> MemoryRegionExtents \<Rightarrow> MemoryRegionExtents \<Rightarrow>
       CheatEngine \<Rightarrow> CheatEngine" where
  "CheatEngine_Initialize process_id title_id heap aslr alias e =
     e \<lparr> eng_metadata := (eng_metadata e)
           \<lparr> md_process_id := process_id, md_title_id := title_id, md_heap_extents := heap,
             md_aslr_extents := aslr, md_alias_extents := alias \<rparr>,
         eng_is_pending_reload := True \<rparr>"

definition SetMainMemoryParameters :: "u64 \<Rightarrow> u64 \<Rightarrow> CheatEngine \<Rightarrow> CheatEngine" where
  "SetMainMemoryParameters main_region_begin main_region_size e =
     e \<lparr> eng_metadata := (eng_metadata e)
           \<lparr> md_main_nso_extents := \<lparr> mre_base = main_region_begin, mre_size = main_region_size \<rparr> \<rparr> \<rparr>"

definition Reload :: "CheatEntry list \<Rightarrow> CheatEngine \<Rightarrow> CheatEngine" where
  "Reload reload_cheats e = e \<lparr> eng_cheats := reload_cheats, eng_is_pending_reload := True \<rparr>"

definition FrameCallback ::
    "'m Host \<Rightarrow> CheatEngine \<times> 'm \<Rightarrow> (vm_error + CheatEngine \<times> 'm) option" where
  "FrameCallback host s =
     (let (e, m) = s;
          e1 = (if eng_is_pending_reload e
                then e \<lparr> eng_vm := snd (LoadProgram (eng_cheats e) (eng_vm e)), eng_is_pending_reload := False \<rparr>
                else e)
      in if vm_num_opcodes (eng_vm e1) = 0 then Some (Inr (e1, m))
         else map_option
                (\<lambda>r. case r of Inl x \<Rightarrow> Inl x | Inr (vm, m') \<Rightarrow> Inr (e1 \<lparr> eng_vm := vm \<rparr>, m'))
                (Execute (eng_metadata e1) (StandardVmCallbacks (eng_metadata e1) host) (eng_vm e1, m)))"

end
