(* ===== verification/CheatEngineBehaviour.thy ===== *)
theory CheatEngineBehaviour
  imports CheatEngine
begin

text \<open>
  What the cheat engine guarantees: the program in the machine is the concatenation of the enabled
  cheats, a frame writes to the emulated memory only inside the four regions of the process, and the
  parser yields well-formed entries and reads back every list of named cheats.
\<close>

section \<open>Loading\<close>

definition entry_words :: "CheatEntry \<Rightarrow> u32 list" where
  "entry_words e = take (cd_num_opcodes (ce_definition e)) (cd_opcodes (ce_definition e))"

definition program_words :: "CheatEntry list \<Rightarrow> u32 list" where
  "program_words entries = concat (map entry_words (filter ce_enabled entries))"

definition entry_ok :: "CheatEntry \<Rightarrow> bool" where
  "entry_ok e \<longleftrightarrow> cd_num_opcodes (ce_definition e) \<le> length (cd_opcodes (ce_definition e))"

lemma copy_opcodes:
  assumes "vm_num_opcodes vm + n \<le> length (vm_program vm)" "n \<le> length (cd_opcodes d)"
  shows "foldl (copy_opcode d) vm [0..<n] =
    vm \<lparr> vm_program := take (vm_num_opcodes vm) (vm_program vm) @ take n (cd_opcodes d) @
                        drop (vm_num_opcodes vm + n) (vm_program vm),
         vm_num_opcodes := vm_num_opcodes vm + n \<rparr>"
  using assms
proof (induction n)
  case (Suc n)
  let ?p = "vm_program vm" and ?k = "vm_num_opcodes vm"
  have "(take ?k ?p @ take n (cd_opcodes d) @ drop (?k + n) ?p) [?k + n := cd_opcodes d ! n] =
      take ?k ?p @ take (Suc n) (cd_opcodes d) @ drop (?k + Suc n) ?p"
    using Suc.prems
    by (simp add: list_update_append take_Suc_conv_app_nth Cons_nth_drop_Suc [symmetric])
  then show ?case using Suc by (simp add: copy_opcode_def)
qed simp

lemma load_entries_result:
  assumes "\<forall>e \<in> set es. entry_ok e" "vm_loaded vm" "take (vm_num_opcodes vm) (vm_program vm) = ws"
    "length ws = vm_num_opcodes vm"
  shows "\<exists>vm'. vm_loaded vm' \<and>
    load_entries es vm = (length (ws @ program_words es) \<le> 1024, vm') \<and>
    (if length (ws @ program_words es) \<le> 1024
     then vm_num_opcodes vm' = length (ws @ program_words es) \<and>
          take (vm_num_opcodes vm') (vm_program vm') = ws @ program_words es
     else vm_num_opcodes vm' = 0)"
  using assms
proof (induction es arbitrary: vm ws)
  case Nil
  then show ?case by (simp add: program_words_def vm_loaded_def)
next
  case (Cons e es)
  let ?n = "cd_num_opcodes (ce_definition e)"
  show ?case
  proof (cases "ce_enabled e")
    case False
    then have eq: "program_words (e # es) = program_words es" "load_entries (e # es) vm = load_entries es vm"
      by (simp_all add: program_words_def)
    have "\<forall>e \<in> set es. entry_ok e" using Cons.prems(1) by simp
    from Cons.IH [OF this Cons.prems(2-4)] show ?thesis unfolding eq .
  next
    case en: True
    have words: "program_words (e # es) = entry_words e @ program_words es" "length (entry_words e) = ?n"
      using en Cons.prems(1) by (simp_all add: program_words_def entry_words_def entry_ok_def)
    show ?thesis
    proof (cases "1024 < ?n + vm_num_opcodes vm")
      case True
      then show ?thesis
        using en words Cons.prems by (simp add: MaximumProgramOpcodeCount_def vm_loaded_def)
    next
      case False
      let ?vm = "foldl (copy_opcode (ce_definition e)) vm [0..<?n]"
      have len: "length (vm_program vm) = 1024" using Cons.prems(2) by (simp add: vm_loaded_def)
      have eq: "?vm = vm \<lparr> vm_program := ws @ entry_words e @ drop (vm_num_opcodes vm + ?n) (vm_program vm),
          vm_num_opcodes := vm_num_opcodes vm + ?n \<rparr>"
        using copy_opcodes [of vm ?n "ce_definition e"] False len Cons.prems(1,3)
        by (simp add: entry_ok_def entry_words_def)
      have "vm_loaded ?vm" "take (vm_num_opcodes ?vm) (vm_program ?vm) = ws @ entry_words e"
        "length (ws @ entry_words e) = vm_num_opcodes ?vm"
        using Cons.prems False len words(2) unfolding eq by (simp_all add: vm_loaded_def)
      moreover have "\<forall>e \<in> set es. entry_ok e" using Cons.prems(1) by simp
      moreover have "load_entries (e # es) vm = load_entries es ?vm"
        using en False by (simp add: MaximumProgramOpcodeCount_def)
      ultimately show ?thesis using Cons.IH [of ?vm "ws @ entry_words e"] words(1) by (simp only: append_assoc)
    qed
  qed
qed

lemma LoadProgram_result:
  assumes "\<forall>e \<in> set entries. entry_ok e" "vm_loaded vm"
  shows "\<exists>vm'. vm_loaded vm' \<and> LoadProgram entries vm = (length (program_words entries) \<le> 1024, vm') \<and>
    take (vm_num_opcodes vm') (vm_program vm') =
      (if length (program_words entries) \<le> 1024 then program_words entries else []) \<and>
    vm_num_opcodes vm' = (if length (program_words entries) \<le> 1024 then length (program_words entries) else 0)"
proof -
  have "vm_loaded (vm \<lparr> vm_num_opcodes := 0 \<rparr>)" using assms(2) by (simp add: vm_loaded_def)
  from load_entries_result [OF assms(1) this, of "[]"] show ?thesis
    by (auto simp: LoadProgram_def split: if_splits)
qed

text \<open>
  C34. Loading succeeds exactly when the enabled cheats have at most 1024 words together, and then
  the program of the machine is their concatenation, in order; otherwise the program is empty. The
  machine is ready to execute in both cases.
\<close>

theorem load_program_concatenates:
  assumes "\<forall>e \<in> set entries. entry_ok e" "vm_loaded vm"
  shows "\<exists>vm'. vm_loaded vm' \<and> LoadProgram entries vm = (length (program_words entries) \<le> 1024, vm') \<and>
    take (vm_num_opcodes vm') (vm_program vm') =
      (if length (program_words entries) \<le> 1024 then program_words entries else []) \<and>
    vm_num_opcodes vm' = (if length (program_words entries) \<le> 1024 then length (program_words entries) else 0)"
  by (rule LoadProgram_result [OF assms])

definition sample_entry :: CheatEntry where
  "sample_entry =
     \<lparr> ce_enabled = True, ce_cheat_id = 1,
       ce_definition = \<lparr> cd_readable_name = [], cd_num_opcodes = 3, cd_opcodes = [0x04000000, 0x10, 0x99] \<rparr> \<rparr>"

lemma create_loaded: "vm_loaded DmntCheatVm_create"
  by (simp add: vm_loaded_def DmntCheatVm_create_def MaximumProgramOpcodeCount_def NumStaticRegisters_def
      NumReadableStaticRegisters_def NumWritableStaticRegisters_def)

theorem load_program_concatenates_witness:
  "\<exists>vm'. LoadProgram [sample_entry] DmntCheatVm_create = (True, vm') \<and>
     take 3 (vm_program vm') = [0x04000000, 0x10, 0x99]"
proof -
  have "\<forall>e \<in> set [sample_entry]. entry_ok e" by (simp add: entry_ok_def sample_entry_def)
  from load_program_concatenates [OF this create_loaded] show ?thesis
    by (auto simp: program_words_def entry_words_def sample_entry_def numeral_3_eq_3)
qed

section \<open>The reach of a cheat\<close>

text \<open>
  The contract between the machine and its callbacks: a property of the host that the callbacks keep,
  where writes have at most eight bytes, holds after every execution.
\<close>

locale callbacks_invariant =
  fixes cb :: "'m Callbacks" and Q :: "'m \<Rightarrow> bool"
  assumes on_write: "Q m \<Longrightarrow> n \<le> 8 \<Longrightarrow> Q (cb_MemoryWriteUnsafe cb a v n m)"
    and on_keys: "Q m \<Longrightarrow> Q (snd (cb_HidKeysDown cb m))"
    and on_pause: "Q m \<Longrightarrow> Q (cb_PauseProcess cb m)"
    and on_resume: "Q m \<Longrightarrow> Q (cb_ResumeProcess cb m)"
    and on_log: "Q m \<Longrightarrow> Q (cb_DebugLog cb i v m)"
begin

lemma write_memory_inv: "Q m \<Longrightarrow> Q (write_memory cb a v w m)"
  by (auto simp: write_memory_def valid_width_def intro: on_write)

lemma skip_unless_inv: "skip_unless b s = Inr s' \<Longrightarrow> snd s' = snd s"
  by (auto simp: skip_unless_def split: if_splits sum.splits)

lemma exec_opcode_inv:
  assumes "Q (snd s)" "exec_opcode md cb k opc s = Inr s'"
  shows "Q (snd s')"
proof (cases opc)
  case (EndConditional x)
  then show ?thesis
    using assms
    by (auto simp: exec_opcode_def exec_EndConditional_def Let_def split: if_splits sum.splits prod.splits)
next
  case (PerformArithmeticStatic x)
  then show ?thesis using assms by (auto simp: exec_opcode_def lift_vm_def split: sum.splits)
next
  case (PerformArithmeticRegister x)
  then show ?thesis using assms by (auto simp: exec_opcode_def lift_vm_def split: sum.splits)
qed (use assms in
    \<open>auto dest: skip_unless_inv intro: write_memory_inv on_pause on_resume on_log
      simp: exec_opcode_def exec_BeginConditional_def exec_BeginKeypressConditional_def
        exec_BeginRegisterConditional_def exec_StoreStatic_def exec_LoadRegisterMemory_def
        exec_StoreStaticToAddress_def exec_StoreRegisterToAddress_def exec_DebugLog_def Let_def
      split: prod.splits\<close>)

lemma step_inv: "vm_step md cb k s opc s' \<Longrightarrow> Q (snd s) \<Longrightarrow> Q (snd s')"
  by (erule vm_stepE) (auto simp: exec_decoded_def Let_def dest: exec_opcode_inv [rotated])

lemma run_inv: "run (vm_step md cb k) s ops s' \<Longrightarrow> Q (snd s) \<Longrightarrow> Q (snd s')"
  by (induction rule: run.induct) (auto intro: step_inv)

lemma execute_inv:
  assumes "Execute md cb (vm, m) = Some (Inr (vm', m'))" "Q m"
  shows "Q m'"
proof -
  obtain ops s where run: "run (vm_step md cb (fst (cb_HidKeysDown cb m)))
      (ResetState vm, snd (cb_HidKeysDown cb m)) ops s"
    and st: "stops md cb (fst (cb_HidKeysDown cb m)) s (Inr (vm', m'))"
    using execute_loop_reaches assms(1)
    unfolding Execute_def Let_def case_prod_beta by (metis fst_conv snd_conv)
  have "m' = snd s" using st by (auto simp: stops_def split: prod.splits option.splits)
  then show ?thesis using run_inv [OF run] on_keys [OF assms(2)] by simp
qed

end

text \<open>A host that records the start and the size of each write that reaches it.\<close>

definition recording :: "'m Host \<Rightarrow> ('m \<times> (u64 \<times> nat) list) Host" where
  "recording h =
     \<lparr> host_IsValidVirtualAddress = (\<lambda>a m. host_IsValidVirtualAddress h a (fst m)),
       host_ReadBlock = (\<lambda>a n m. host_ReadBlock h a n (fst m)),
       host_WriteBlock = (\<lambda>a v n m. (host_WriteBlock h a v n (fst m), (a, n) # snd m)),
       host_KeysDown = (\<lambda>m. (fst (host_KeysDown h (fst m)), (snd (host_KeysDown h (fst m)), snd m))),
       host_IsSuspended = (\<lambda>m. host_IsSuspended h (fst m)),
       host_SetActivity = (\<lambda>b m. (host_SetActivity h b (fst m), snd m)) \<rparr>"

definition writes_in_range :: "CheatProcessMetadata \<Rightarrow> (u64 \<times> nat) list \<Rightarrow> bool" where
  "writes_in_range md ws \<longleftrightarrow> (\<forall>(a, n) \<in> set ws. IsAddressInRange md a \<and> n \<le> 8)"

interpretation sandbox: callbacks_invariant
    "StandardVmCallbacks md (recording h)" "\<lambda>m. writes_in_range md (snd m)" for md h
  by unfold_locales
    (auto simp: StandardVmCallbacks_def Standard_MemoryWriteUnsafe_def Standard_PauseProcess_def
      Standard_ResumeProcess_def recording_def writes_in_range_def)

text \<open>
  The engine at the start of a frame, with a pending reload done, and the states of the machine and the host that the frame passes
  through: all those after some number of instructions, whether the frame ends, fails at a later instruction or never ends.
\<close>

definition reloaded :: "CheatEngine \<Rightarrow> CheatEngine" where
  "reloaded e =
     (if eng_is_pending_reload e
      then e \<lparr> eng_vm := snd (LoadProgram (eng_cheats e) (eng_vm e)), eng_is_pending_reload := False \<rparr> else e)"

definition frame_passes :: "'m Host \<Rightarrow> CheatEngine \<Rightarrow> 'm \<Rightarrow> 'm machine \<Rightarrow> bool" where
  "frame_passes host e m s \<longleftrightarrow>
     (let vm = eng_vm (reloaded e); md = eng_metadata e; cb = StandardVmCallbacks md host
      in if vm_num_opcodes vm = 0 then s = (vm, m)
         else \<exists>ops. run (vm_step md cb (fst (cb_HidKeysDown cb m))) (ResetState vm, snd (cb_HidKeysDown cb m)) ops s)"

lemma reloaded_metadata [simp]: "eng_metadata (reloaded e) = eng_metadata e"
  by (simp add: reloaded_def)

lemma frame_passes_in_range:
  assumes "frame_passes (recording h) e (m, []) s"
  shows "writes_in_range (eng_metadata e) (snd (snd s))"
proof (cases "vm_num_opcodes (eng_vm (reloaded e)) = 0")
  case True
  then show ?thesis using assms by (simp add: frame_passes_def writes_in_range_def)
next
  case False
  let ?cb = "StandardVmCallbacks (eng_metadata e) (recording h)"
  obtain ops where r: "run (vm_step (eng_metadata e) ?cb (fst (cb_HidKeysDown ?cb (m, []))))
      (ResetState (eng_vm (reloaded e)), snd (cb_HidKeysDown ?cb (m, []))) ops s"
    using assms False by (auto simp: frame_passes_def Let_def)
  have "writes_in_range (eng_metadata e) (snd (snd (cb_HidKeysDown ?cb (m, []))))"
    by (rule sandbox.on_keys) (simp add: writes_in_range_def)
  then show ?thesis using sandbox.run_inv [OF r] by simp
qed

text \<open>A frame ends in a state that it passes through, or at an instruction that fails there.\<close>

lemma FrameCallback_ends:
  assumes "FrameCallback host (e, m) = Some r"
  shows "case r of
      Inr (e', m') \<Rightarrow> \<exists>vm. frame_passes host e m (vm, m') \<and> eng_metadata e' = eng_metadata e
    | Inl x \<Rightarrow> \<exists>s opc vm k. frame_passes host e m s \<and> DecodeNextOpcode (fst s) = (Some opc, vm) \<and>
        exec_decoded (eng_metadata e) (StandardVmCallbacks (eng_metadata e) host) k opc (vm, snd s) = Inl x"
proof (cases "vm_num_opcodes (eng_vm (reloaded e)) = 0")
  case True
  then have "r = Inr (reloaded e, m)" using assms by (simp add: FrameCallback_def Let_def reloaded_def [symmetric])
  then show ?thesis using True by (simp add: frame_passes_def)
next
  case False
  let ?md = "eng_metadata e" and ?vm = "eng_vm (reloaded e)"
  let ?cb = "StandardVmCallbacks ?md host"
  let ?k = "fst (cb_HidKeysDown ?cb m)"
  have "map_option (\<lambda>r. case r of Inl x \<Rightarrow> Inl x | Inr (vm, m') \<Rightarrow> Inr (reloaded e \<lparr> eng_vm := vm \<rparr>, m'))
      (Execute ?md ?cb (?vm, m)) = Some r"
    using assms False unfolding FrameCallback_def Let_def prod.case reloaded_def [symmetric] reloaded_metadata by simp
  then obtain r1 where r1: "Execute ?md ?cb (?vm, m) = Some r1"
    "r = (case r1 of Inl x \<Rightarrow> Inl x | Inr (vm, m') \<Rightarrow> Inr (reloaded e \<lparr> eng_vm := vm \<rparr>, m'))" by auto
  from r1(1) obtain ops s where s: "run (vm_step ?md ?cb ?k) (ResetState ?vm, snd (cb_HidKeysDown ?cb m)) ops s"
    "stops ?md ?cb ?k s r1"
    unfolding Execute_def Let_def case_prod_beta using execute_loop_reaches by (metis fst_conv snd_conv)
  have pass: "frame_passes host e m s" using s(1) False by (auto simp: frame_passes_def Let_def)
  show ?thesis
  proof (cases r1)
    case (Inl x)
    then have fails: "\<exists>opc vm. DecodeNextOpcode (fst s) = (Some opc, vm) \<and> exec_decoded ?md ?cb ?k opc (vm, snd s) = Inl x"
      using s(2) by (auto simp: stops_def split: prod.splits option.splits)
    have "r = Inl x" using r1(2) Inl by simp
    then show ?thesis unfolding \<open>r = Inl x\<close> sum.case using pass fails by blast
  next
    case (Inr v)
    obtain vm m' where v: "v = (vm, m')" by fastforce
    have "snd s = m'" using s(2) Inr v by (auto simp: stops_def split: prod.splits option.splits)
    then have "frame_passes host e m (fst s, m')" using pass by auto
    then show ?thesis using r1(2) Inr v by auto
  qed
qed

text \<open>
  C35. Whatever the cheats are, the writes of a frame that have reached the emulated memory after any number of instructions start inside
  one of the four regions of the process and have at most eight bytes, also in a frame that fails or never ends. A frame that ends
  does so with the memory of such a state, and one that fails does so at an instruction in such a state.
\<close>

theorem frame_writes_stay_in_regions:
  "(\<forall>vm m' ws. frame_passes (recording h) e (m, []) (vm, (m', ws)) \<longrightarrow>
      (\<forall>(a, n) \<in> set ws. IsAddressInRange (eng_metadata e) a \<and> n \<le> 8)) \<and>
   (\<forall>r. FrameCallback (recording h) (e, (m, [])) = Some r \<longrightarrow>
      (case r of
         Inr (e', m') \<Rightarrow> \<exists>vm. frame_passes (recording h) e (m, []) (vm, m') \<and> eng_metadata e' = eng_metadata e
       | Inl x \<Rightarrow> \<exists>s opc vm k. frame_passes (recording h) e (m, []) s \<and> DecodeNextOpcode (fst s) = (Some opc, vm) \<and>
           exec_decoded (eng_metadata e) (StandardVmCallbacks (eng_metadata e) (recording h)) k opc (vm, snd s) = Inl x))"
proof (intro conjI allI impI)
  fix vm m' ws
  assume "frame_passes (recording h) e (m, []) (vm, (m', ws))"
  from frame_passes_in_range [OF this] show "\<forall>(a, n) \<in> set ws. IsAddressInRange (eng_metadata e) a \<and> n \<le> 8"
    by (simp add: writes_in_range_def)
qed (rule FrameCallback_ends)

definition unit_host :: "unit Host" where
  "unit_host =
     \<lparr> host_IsValidVirtualAddress = (\<lambda>_ _. True), host_ReadBlock = (\<lambda>_ _ _. 0),
       host_WriteBlock = (\<lambda>_ _ _ m. m), host_KeysDown = (\<lambda>m. (0, m)), host_IsSuspended = (\<lambda>_. False),
       host_SetActivity = (\<lambda>_ m. m) \<rparr>"

definition store_vm :: DmntCheatVm where
  "store_vm = program_vm [0x04000000, 0x10, 0x99]"

definition store_engine :: CheatEngine where
  "store_engine =
     \<lparr> eng_vm = store_vm, eng_metadata = sample_metadata, eng_cheats = [], eng_is_pending_reload = False \<rparr>"

lemma store_vm_decodes:
  "DecodeNextOpcode (ResetState store_vm) =
     (Some \<lparr> op_begin_conditional_block = False,
             op_opcode = StoreStatic \<lparr> ss_bit_width = 4, ss_mem_type = 0, ss_offset_register = 0,
                                       ss_rel_address = 0x10, ss_value = 0x99 \<rparr> \<rparr>,
      (ResetState store_vm) \<lparr> vm_instruction_ptr := 3 \<rparr>)"
  "DecodeNextOpcode ((ResetState store_vm) \<lparr> vm_instruction_ptr := 3 \<rparr>) =
     (None, (ResetState store_vm) \<lparr> vm_instruction_ptr := 3, vm_decode_success := False \<rparr>)"
  by (simp_all add: store_vm_def DecodeNextOpcode_def decode_eval Let_def ResetState_def)

lemma store_vm_executes:
  "Execute sample_metadata (StandardVmCallbacks sample_metadata (recording unit_host)) (store_vm, ((), [])) =
     Some (Inr ((ResetState store_vm) \<lparr> vm_instruction_ptr := 3, vm_decode_success := False \<rparr>,
                ((), [(0x8000010, 4)])))"
proof -
  let ?cb = "StandardVmCallbacks sample_metadata (recording unit_host)"
  have st: "vm_step sample_metadata ?cb 0 (ResetState store_vm, ((), []))
      \<lparr> op_begin_conditional_block = False,
        op_opcode = StoreStatic \<lparr> ss_bit_width = 4, ss_mem_type = 0, ss_offset_register = 0,
                                  ss_rel_address = 0x10, ss_value = 0x99 \<rparr> \<rparr>
      ((ResetState store_vm) \<lparr> vm_instruction_ptr := 3 \<rparr>, ((), [(0x8000010, 4)]))"
  proof (rule vm_step.intros, unfold fst_conv snd_conv)
    show "DecodeNextOpcode (ResetState store_vm) =
       (Some \<lparr> op_begin_conditional_block = False,
             op_opcode = StoreStatic \<lparr> ss_bit_width = 4, ss_mem_type = 0, ss_offset_register = 0,
                                       ss_rel_address = 0x10, ss_value = 0x99 \<rparr> \<rparr>,
        (ResetState store_vm) \<lparr> vm_instruction_ptr := 3 \<rparr>)"
      by (rule store_vm_decodes(1))
    have "vm_registers (ResetState store_vm) ! 0 = 0" by (simp add: ResetState_def NumRegisters_def)
    then show "exec_decoded sample_metadata ?cb 0
        \<lparr> op_begin_conditional_block = False,
          op_opcode = StoreStatic \<lparr> ss_bit_width = 4, ss_mem_type = 0, ss_offset_register = 0,
                                    ss_rel_address = 0x10, ss_value = 0x99 \<rparr> \<rparr>
        ((ResetState store_vm) \<lparr> vm_instruction_ptr := 3 \<rparr>, ((), [])) =
      Inr ((ResetState store_vm) \<lparr> vm_instruction_ptr := 3 \<rparr>, ((), [(0x8000010, 4)]))"
      by (simp add: exec_decoded_def exec_opcode_def exec_StoreStatic_def Let_def write_memory_def
          valid_width_def GetCheatProcessAddress_def sample_metadata_def StandardVmCallbacks_def
          Standard_MemoryWriteUnsafe_def IsAddressInRange_def in_extents_def recording_def unit_host_def)
  qed
  have stop: "stops sample_metadata ?cb 0
      ((ResetState store_vm) \<lparr> vm_instruction_ptr := 3 \<rparr>, ((), [(0x8000010, 4)]))
      (Inr ((ResetState store_vm) \<lparr> vm_instruction_ptr := 3, vm_decode_success := False \<rparr>,
            ((), [(0x8000010, 4)])))"
    by (simp add: stops_def store_vm_decodes)
  have "execute_loop sample_metadata ?cb 0 (ResetState store_vm, ((), [])) =
      Some (Inr ((ResetState store_vm) \<lparr> vm_instruction_ptr := 3, vm_decode_success := False \<rparr>,
            ((), [(0x8000010, 4)])))"
    by (rule trans [OF execute_loop_step [OF st] execute_loop_stops [OF stop]])
  then show ?thesis
    by (simp add: Execute_def StandardVmCallbacks_def recording_def unit_host_def)
qed

theorem frame_writes_stay_in_regions_witness:
  "\<exists>e'. FrameCallback (recording unit_host) (store_engine, ((), [])) = Some (Inr (e', ((), [(0x8000010, 4)]))) \<and>
     eng_metadata e' = eng_metadata store_engine \<and> IsAddressInRange (eng_metadata store_engine) 0x8000010"
proof -
  let ?e = "store_engine \<lparr> eng_vm := (ResetState store_vm) \<lparr> vm_instruction_ptr := 3, vm_decode_success := False \<rparr> \<rparr>"
  have f: "FrameCallback (recording unit_host) (store_engine, ((), [])) = Some (Inr (?e, ((), [(0x8000010, 4)])))"
    using store_vm_executes by (simp add: FrameCallback_def store_engine_def) (simp add: store_vm_def)
  note w = frame_writes_stay_in_regions [of unit_host store_engine "()"]
  from f conjunct2 [OF w] obtain vm where "frame_passes (recording unit_host) store_engine ((), []) (vm, ((), [(0x8000010, 4)]))"
    by auto
  with conjunct1 [OF w] have "IsAddressInRange (eng_metadata store_engine) 0x8000010" by fastforce
  then show ?thesis using f by auto
qed

section \<open>The parser\<close>

text \<open>The arrays of an entry have their sizes, the count fits, and the name is terminated.\<close>

definition parsed_entry :: "CheatEntry \<Rightarrow> bool" where
  "parsed_entry e \<longleftrightarrow>
     (let d = ce_definition e
      in length (cd_opcodes d) = 256 \<and> cd_num_opcodes d \<le> 256 \<and> length (cd_readable_name d) = 64 \<and>
         cd_readable_name d ! 63 = CHR 0x00)"

definition parser_ok :: "parser \<Rightarrow> bool" where
  "parser_ok p \<longleftrightarrow>
     fst p \<noteq> [] \<and> (\<forall>e \<in> set (fst p). parsed_entry e) \<and> (\<forall>n. snd p = Some n \<longrightarrow> n < length (fst p))"

lemma parsed_default: "parsed_entry CheatEntry_default"
  by (simp add: parsed_entry_def CheatEntry_default_def CheatDefinition_default_def Let_def)

lemma parsed_set_name: "parsed_entry e \<Longrightarrow> parsed_entry (set_name name e)"
  by (simp add: parsed_entry_def set_name_def Let_def)

lemma parsed_add_opcode:
  "parsed_entry e \<Longrightarrow> cd_num_opcodes (ce_definition e) < 256 \<Longrightarrow> parsed_entry (add_opcode w e)"
  by (simp add: parsed_entry_def add_opcode_def Let_def)

lemma parser_ok_update:
  "parser_ok (out, cur) \<Longrightarrow> parsed_entry e \<Longrightarrow> n < length out \<Longrightarrow> cur' = None \<or> cur' = Some n \<Longrightarrow>
     parser_ok (out [n := e], cur')"
  by (auto simp: parser_ok_def dest!: set_update_subset_insert [THEN subsetD])

lemma parse_turn_ok:
  assumes "parser_ok p" "parse_turn past data i p = Some (p', j)"
  shows "parser_ok p'"
proof -
  obtain out cur where p: "p = (out, cur)" by (cases p)
  have out: "0 < length out" "parsed_entry (out ! 0)"
    using assms(1) by (auto simp: p parser_ok_def)
  have cur: "n < length out \<and> parsed_entry (out ! n)" if "cur = Some n" for n
    using assms(1) that by (auto simp: p parser_ok_def)
  show ?thesis
    using assms out cur
    by (auto simp: parse_turn_def p Let_def not_le
        intro!: parser_ok_update [of out cur] parsed_set_name parsed_add_opcode
        split: if_splits prod.splits option.splits)
      (auto simp: parser_ok_def intro: parsed_set_name parsed_default)
qed

lemma parse_loop_ok: "parse_loop past data i p = Some p' \<Longrightarrow> parser_ok p \<Longrightarrow> parser_ok p'"
proof (induction past data i p arbitrary: p' rule: parse_loop.induct)
  case (1 past data i p)
  show ?case
  proof (cases "i < length data")
    case True
    then obtain p1 j where turn: "parse_turn past data i p = Some (p1, j)"
      and rest: "parse_loop past data j p1 = Some p'"
      using 1(2) by (subst (asm) parse_loop.simps) (auto split: option.splits)
    show ?thesis by (rule 1(1) [OF True turn refl rest parse_turn_ok [OF 1(3) turn]])
  next
    case False
    with 1 show ?thesis by (simp add: parse_loop.simps)
  qed
qed

text \<open>
  C36. Every entry that the parser yields has at most 256 words in an array of 256, a terminated name of
  64 characters and its own index as identifier, is enabled exactly when it has words, and can
  therefore be loaded into the machine.
\<close>

theorem parse_yields_well_formed:
  "\<forall>i < length (Parse past data).
     (let e = Parse past data ! i
      in parsed_entry e \<and> entry_ok e \<and> ce_cheat_id e = i \<and>
         (ce_enabled e \<longleftrightarrow> 0 < cd_num_opcodes (ce_definition e)))"
proof (cases "parse_loop past data 0 ([CheatEntry_default], None)")
  case (Some p)
  obtain out cur where p: "p = (out, cur)" by (cases p)
  have "parser_ok ([CheatEntry_default], None)" by (simp add: parser_ok_def parsed_default)
  from parse_loop_ok [OF Some this] have "\<forall>i < length out. parsed_entry (out ! i)"
    by (simp add: p parser_ok_def)
  then show ?thesis
    using Some p by (simp add: Parse_def finish_entry_def parsed_entry_def entry_ok_def Let_def)
qed (simp add: Parse_def)

section \<open>Reading back a cheat file\<close>

text \<open>A writer of cheat files: a bracketed name on a line, then one word of eight digits on each line.\<close>

definition hex_char :: "nat \<Rightarrow> char" where
  "hex_char n = ''0123456789ABCDEF'' ! n"

fun hex_digits :: "nat \<Rightarrow> nat \<Rightarrow> string" where
  "hex_digits 0 n = []"
| "hex_digits (Suc k) n = hex_digits k (n div 16) @ [hex_char (n mod 16)]"

definition render_word :: "u32 \<Rightarrow> string" where
  "render_word w = hex_digits 8 (unat w) @ [CHR 0x0A]"

definition render_cheat :: "string \<times> u32 list \<Rightarrow> string" where
  "render_cheat c = CHR ''['' # fst c @ [CHR '']'', CHR 0x0A] @ concat (map render_word (snd c))"

definition render_file :: "(string \<times> u32 list) list \<Rightarrow> string" where
  "render_file cs = concat (map render_cheat cs)"

definition cheat_entry :: "string \<times> u32 list \<Rightarrow> CheatEntry" where
  "cheat_entry c =
     \<lparr> ce_enabled = False, ce_cheat_id = 0,
       ce_definition =
         \<lparr> cd_readable_name = fst c @ replicate (64 - length (fst c)) (CHR 0x00),
           cd_num_opcodes = length (snd c), cd_opcodes = snd c @ replicate (256 - length (snd c)) 0 \<rparr> \<rparr>"

definition writable_cheat :: "string \<times> u32 list \<Rightarrow> bool" where
  "writable_cheat c \<longleftrightarrow>
     fst c \<noteq> [] \<and> length (fst c) < 64 \<and> CHR '']'' \<notin> set (fst c) \<and> length (snd c) \<le> 256"

lemma hex_char_digit:
  assumes "n < 16"
  shows "hex_digit (hex_char n) = n" "is_xdigit (hex_char n)" "\<not> is_space (hex_char n)"
    "hex_char n \<noteq> CHR ''{''" "hex_char n \<noteq> CHR ''[''"
proof -
  have "list_all (\<lambda>d. hex_digit (hex_char d) = d \<and> is_xdigit (hex_char d) \<and> \<not> is_space (hex_char d) \<and>
      hex_char d \<notin> {CHR ''{'', CHR ''[''}) [0..<16]"
    by code_simp
  then show "hex_digit (hex_char n) = n" "is_xdigit (hex_char n)" "\<not> is_space (hex_char n)"
    "hex_char n \<noteq> CHR ''{''" "hex_char n \<noteq> CHR ''[''"
    using assms by (auto simp: list_all_iff)
qed

lemma hex_digits_length [simp]: "length (hex_digits k n) = k"
  by (induction k arbitrary: n) simp_all

lemma hex_digits_set: "c \<in> set (hex_digits k n) \<Longrightarrow> \<exists>d < 16. c = hex_char d"
proof (induction k arbitrary: n)
  case (Suc k)
  have "\<exists>d < 16. hex_char (n mod 16) = hex_char d" by (rule exI [of _ "n mod 16"]) simp
  with Suc show ?case by auto
qed simp

lemma hex_value_digits: "hex_value (hex_digits k n) = of_nat (n mod 16 ^ k)"
proof (induction k arbitrary: n)
  case (Suc k)
  have "hex_value (hex_digits (Suc k) n) = 16 * hex_value (hex_digits k (n div 16)) + of_nat (n mod 16)"
    by (simp add: hex_value_def hex_char_digit(1))
  also have "\<dots> = of_nat (16 * (n div 16 mod 16 ^ k) + n mod 16)" by (simp add: Suc)
  finally show ?case by (simp add: mod_mult2_eq)
qed (simp add: hex_value_def)

lemma hex_value_word: "hex_value (hex_digits 8 (unat w)) = (w :: u32)"
proof -
  have "unat w < 16 ^ 8" using unsigned_less [of w] by simp
  then show ?thesis by (simp add: hex_value_digits)
qed

lemma loop_turn:
  assumes "i < length data" "parse_turn past data i p = Some (p', j)"
  shows "parse_loop past data i p = parse_loop past data j p'"
  using assms by (subst parse_loop.simps) simp

lemma loop_newline:
  assumes "data = pre @ CHR 0x0A # rest"
  shows "parse_loop past data (length pre) p = parse_loop past data (length pre + 1) p"
proof (rule loop_turn)
  show "parse_turn past data (length pre) p = Some (p, length pre + 1)"
    by (auto simp: assms parse_turn_def is_space_def split: prod.splits)
qed (simp add: assms)

lemma loop_word:
  assumes data: "data = pre @ render_word w @ rest"
    and n: "cd_num_opcodes (ce_definition (out ! n)) < 256"
  shows "parse_loop past data (length pre) (out, Some n) =
    parse_loop past data (length (pre @ render_word w)) (out [n := add_opcode w (out ! n)], Some n)"
proof -
  let ?h = "hex_digits 8 (unat w)"
  obtain d where d: "d < 16" "data ! length pre = hex_char d"
  proof -
    have "data ! length pre = ?h ! 0" by (simp add: data render_word_def nth_append)
    moreover have "?h ! 0 \<in> set ?h" by (rule nth_mem) simp
    ultimately show ?thesis using hex_digits_set that by metis
  qed
  have "take 8 (drop (length pre) data) = ?h" by (simp add: data render_word_def)
  moreover have "list_all is_xdigit ?h"
    using hex_digits_set hex_char_digit(2) by (fastforce simp: list_all_iff)
  ultimately have "parse_turn past data (length pre) (out, Some n) =
      Some ((out [n := add_opcode w (out ! n)], Some n), length pre + 9)"
    using n d by (simp add: parse_turn_def Let_def hex_char_digit hex_value_word)
  from loop_turn [OF _ this] show ?thesis by (simp add: data render_word_def)
qed

lemma add_opcode_cheat:
  assumes "length ws < 256"
  shows "add_opcode w (cheat_entry (name, ws)) = cheat_entry (name, ws @ [w])"
proof -
  have "(ws @ replicate (256 - length ws) 0) [length ws := w] = ws @ w # replicate (255 - length ws) 0"
    using assms by (simp add: list_update_append Suc_diff_Suc [symmetric])
  then show ?thesis using assms by (simp add: add_opcode_def cheat_entry_def Let_def)
qed

lemma loop_words:
  assumes "data = pre @ concat (map render_word ws) @ rest" "length done + length ws \<le> 256"
  shows "parse_loop past data (length pre) (out @ [cheat_entry (name, done)], Some (length out)) =
    parse_loop past data (length (pre @ concat (map render_word ws)))
      (out @ [cheat_entry (name, done @ ws)], Some (length out))"
  using assms
proof (induction ws arbitrary: pre "done")
  case (Cons w ws)
  have "parse_loop past data (length pre) (out @ [cheat_entry (name, done)], Some (length out)) =
      parse_loop past data (length (pre @ render_word w))
        (out @ [cheat_entry (name, done @ [w])], Some (length out))"
    using Cons.prems loop_word [of data pre w "concat (map render_word ws) @ rest"
        "out @ [cheat_entry (name, done)]" "length out" past]
    by (simp add: add_opcode_cheat) (simp add: cheat_entry_def)
  also have "\<dots> = parse_loop past data (length ((pre @ render_word w) @ concat (map render_word ws)))
      (out @ [cheat_entry (name, (done @ [w]) @ ws)], Some (length out))"
    by (rule Cons.IH) (use Cons.prems in simp_all)
  finally show ?case by simp
qed simp

lemma find_match_name:
  assumes "match \<notin> set name"
  shows "find_match past (pre @ name @ match # rest) match (length pre) = Some (length (pre @ name))"
  using assms
proof (induction name arbitrary: pre)
  case (Cons c name)
  from Cons.IH [of "pre @ [c]"] Cons.prems show ?case
    by (subst find_match.simps) (auto simp: char_at_def nth_append)
next
  case Nil
  show ?case by (subst find_match.simps) (simp add: char_at_def)
qed

lemma set_name_default:
  assumes "length name < 64"
  shows "set_name name CheatEntry_default = cheat_entry (name, [])"
proof -
  have "(name @ replicate (64 - length name) (CHR 0x00)) [63 := CHR 0x00] =
      name @ replicate (64 - length name) (CHR 0x00)"
    using assms by (simp add: list_update_same_conv nth_append)
  then show ?thesis
    using assms
    by (simp add: set_name_def cheat_entry_def CheatEntry_default_def CheatDefinition_default_def Let_def min_def)
qed

lemma loop_header:
  assumes data: "data = pre @ CHR ''['' # name @ CHR '']'' # rest"
    and name: "name \<noteq> []" "length name < 64" "CHR '']'' \<notin> set name"
  shows "parse_loop past data (length pre) (out, cur) =
    parse_loop past data (length pre + length name + 2) (out @ [cheat_entry (name, [])], Some (length out))"
proof (rule loop_turn)
  have "find_match past data (CHR '']'') (length pre + 1) = Some (length pre + 1 + length name)"
    using find_match_name [OF name(3), of past "pre @ [CHR ''['']" rest] by (simp add: data)
  then have "ExtractName past data (length pre + 1) (CHR '']'') = (name, length name)"
    using name(2) by (simp add: ExtractName_def Let_def data)
  then show "parse_turn past data (length pre) (out, cur) =
      Some ((out @ [cheat_entry (name, [])], Some (length out)), length pre + length name + 2)"
    using name
    by (simp add: parse_turn_def Let_def data nth_append is_space_def set_name_default)
qed (simp add: data)

lemma loop_cheats:
  assumes "data = pre @ render_file cs" "\<forall>c \<in> set cs. writable_cheat c"
  shows "\<exists>cur'. parse_loop past data (length pre) (out, cur) = Some (out @ map cheat_entry cs, cur')"
  using assms
proof (induction cs arbitrary: pre out cur)
  case Nil
  then show ?case by (simp add: render_file_def parse_loop.simps)
next
  case (Cons c cs)
  obtain name ws where c: "c = (name, ws)" by (cases c)
  have w: "name \<noteq> []" "length name < 64" "CHR '']'' \<notin> set name" "length ws \<le> 256"
    using Cons.prems(2) by (simp_all add: c writable_cheat_def)
  let ?words = "concat (map render_word ws)" and ?e = "\<lambda>ws. (out @ [cheat_entry (name, ws)], Some (length out))"
  let ?line = "pre @ CHR ''['' # name @ [CHR '']'']"
  have data: "data = pre @ CHR ''['' # name @ CHR '']'' # CHR 0x0A # ?words @ render_file cs"
    using Cons.prems(1) by (simp add: render_file_def render_cheat_def c)
  have "parse_loop past data (length pre) (out, cur) = parse_loop past data (length ?line) (?e [])"
    using loop_header [OF data w(1-3)] by simp
  also have "\<dots> = parse_loop past data (length (?line @ [CHR 0x0A])) (?e [])"
    using loop_newline [of data ?line "?words @ render_file cs"] data by simp
  also have "\<dots> = parse_loop past data (length (?line @ CHR 0x0A # ?words)) (?e ws)"
    using loop_words [of data "?line @ [CHR 0x0A]" ws "render_file cs" "[]"] data w(4) by simp
  finally have "parse_loop past data (length pre) (out, cur) = \<dots>" .
  moreover have "data = (?line @ CHR 0x0A # ?words) @ render_file cs" using data by simp
  from Cons.IH [OF this] Cons.prems(2) obtain cur' where
    "parse_loop past data (length (?line @ CHR 0x0A # ?words)) (?e ws) =
       Some ((out @ [cheat_entry (name, ws)]) @ map cheat_entry cs, cur')"
    by (metis list.set_intros(2))
  ultimately show ?case by (simp add: c)
qed

lemma parse_render:
  assumes "\<forall>c \<in> set cs. writable_cheat c"
  shows "Parse past (render_file cs) =
    finish_entry CheatEntry_default 0 # map (\<lambda>i. finish_entry (cheat_entry (cs ! i)) (Suc i)) [0..<length cs]"
proof -
  obtain cur where "parse_loop past (render_file cs) 0 ([CheatEntry_default], None) =
      Some (CheatEntry_default # map cheat_entry cs, cur)"
    using loop_cheats [OF _ assms, of "render_file cs" "[]" past "[CheatEntry_default]" None] by auto
  moreover have "map (\<lambda>i. finish_entry ((CheatEntry_default # map cheat_entry cs) ! i) i) [0..<Suc (length cs)] =
      finish_entry CheatEntry_default 0 # map (\<lambda>i. finish_entry (cheat_entry (cs ! i)) (Suc i)) [0..<length cs]"
    by (simp add: upt_conv_Cons map_Suc_upt [symmetric] del: upt_Suc)
  ultimately show ?thesis by (simp add: Parse_def del: upt_Suc)
qed

lemma finish_words:
  "length (snd c) \<le> 256 \<Longrightarrow> entry_words (finish_entry (cheat_entry c) i) = snd c"
  "ce_enabled (finish_entry (cheat_entry c) i) \<longleftrightarrow> snd c \<noteq> []"
  "ce_cheat_id (finish_entry (cheat_entry c) i) = i"
  "cd_readable_name (ce_definition (finish_entry (cheat_entry c) i)) =
     fst c @ replicate (64 - length (fst c)) (CHR 0x00)"
  by (simp_all add: entry_words_def finish_entry_def cheat_entry_def)

lemma program_words_render:
  assumes "\<forall>c \<in> set cs. length (snd c) \<le> 256"
  shows "program_words (map (\<lambda>i. finish_entry (cheat_entry (cs ! i)) (f i)) [0..<length cs]) =
    concat (map snd cs)"
  using assms
proof (induction cs rule: rev_induct)
  case (snoc c cs)
  have "map (\<lambda>i. finish_entry (cheat_entry ((cs @ [c]) ! i)) (f i)) [0..<length cs] =
      map (\<lambda>i. finish_entry (cheat_entry (cs ! i)) (f i)) [0..<length cs]"
    by (simp add: nth_append)
  with snoc show ?case by (simp add: program_words_def finish_words del: map_eq_conv)
qed (simp add: program_words_def)

lemma render_entries_ok:
  assumes "\<forall>c \<in> set cs. writable_cheat c"
  shows "\<forall>e \<in> set (Parse past (render_file cs)). entry_ok e"
  using assms
  by (auto simp: parse_render entry_ok_def finish_entry_def CheatEntry_default_def CheatDefinition_default_def cheat_entry_def)

text \<open>
  C37. A file of named cheats is read back: the parser yields the master entry and one entry for each
  cheat, with its name, terminated, its words and its position. Loading these entries into the machine succeeds exactly when the
  cheats have at most 1024 words together; the program is then the concatenation of their words, and empty otherwise.
  What follows the text in memory plays no part.
\<close>

theorem parse_reads_back:
  assumes "\<forall>c \<in> set cs. writable_cheat c" "vm_loaded vm"
  shows "length (Parse past (render_file cs)) = Suc (length cs) \<and>
    (\<forall>i < length cs.
       (let e = Parse past (render_file cs) ! Suc i; c = cs ! i
        in entry_words e = snd c \<and> (ce_enabled e \<longleftrightarrow> snd c \<noteq> []) \<and> ce_cheat_id e = Suc i \<and>
           cd_readable_name (ce_definition e) = fst c @ replicate (64 - length (fst c)) (CHR 0x00))) \<and>
    (let ws = concat (map snd cs); (ok, vm') = LoadProgram (Parse past (render_file cs)) vm
     in ok = (length ws \<le> 1024) \<and> take (vm_num_opcodes vm') (vm_program vm') = (if ok then ws else []) \<and>
        vm_num_opcodes vm' = (if ok then length ws else 0))"
proof -
  have ok: "\<forall>c \<in> set cs. length (snd c) \<le> 256" using assms(1) by (simp add: writable_cheat_def)
  have "program_words (finish_entry CheatEntry_default 0 # es) = program_words es" for es
    by (simp add: program_words_def finish_entry_def CheatEntry_default_def CheatDefinition_default_def)
  then have words: "program_words (Parse past (render_file cs)) = concat (map snd cs)"
    using program_words_render [OF ok, of Suc] by (simp add: parse_render [OF assms(1)])
  show ?thesis
    using LoadProgram_result [OF render_entries_ok [OF assms(1), of past] assms(2)] ok
    unfolding words by (auto simp: parse_render [OF assms(1)] finish_words Let_def)
qed

definition sample_file :: "(string \<times> u32 list) list" where
  "sample_file = [(''Lives'', [0x04000000, 0x10, 0x99]), (''Empty'', [])]"

lemma sample_file_writable: "\<forall>c \<in> set sample_file. writable_cheat c"
  by (simp add: sample_file_def writable_cheat_def)

theorem parse_yields_well_formed_witness:
  "2 < length (Parse (CHR 0x00) (render_file sample_file)) \<and>
   parsed_entry (Parse (CHR 0x00) (render_file sample_file) ! 1) \<and>
   ce_enabled (Parse (CHR 0x00) (render_file sample_file) ! 1) \<and>
   \<not> ce_enabled (Parse (CHR 0x00) (render_file sample_file) ! 2)"
  using parse_yields_well_formed [rule_format, of 1 "CHR 0x00" "render_file sample_file"]
  unfolding parse_render [OF sample_file_writable]
  by (simp add: sample_file_def finish_words Let_def)

theorem parse_reads_back_witness:
  "entry_words (Parse (CHR 0x00) (render_file sample_file) ! 1) = [0x04000000, 0x10, 0x99] \<and>
   (\<exists>vm'. LoadProgram (Parse (CHR 0x00) (render_file sample_file)) DmntCheatVm_create = (True, vm') \<and>
      take 3 (vm_program vm') = [0x04000000, 0x10, 0x99])"
proof -
  let ?p = "Parse (CHR 0x00) (render_file sample_file)"
  note t = parse_reads_back [OF sample_file_writable create_loaded, of "CHR 0x00"]
  have ws: "concat (map snd sample_file) = [0x04000000, 0x10, 0x99]" "sample_file ! 0 = (''Lives'', [0x04000000, 0x10, 0x99])"
    "0 < length sample_file" by (simp_all add: sample_file_def)
  obtain ok vm' where l: "LoadProgram ?p DmntCheatVm_create = (ok, vm')" by fastforce
  have "entry_words (?p ! Suc 0) = snd (sample_file ! 0)"
    using conjunct1 [OF conjunct2 [OF t]] ws(3) unfolding Let_def by blast
  moreover have "LoadProgram ?p DmntCheatVm_create = (True, vm') \<and> take 3 (vm_program vm') = [0x04000000, 0x10, 0x99]"
    using conjunct2 [OF conjunct2 [OF t]] unfolding l ws(1) Let_def prod.case by (auto simp: numeral_3_eq_3)
  ultimately show ?thesis using ws(2) by auto
qed

end
