(* ===== verification/Spec2Isabelle.thy ===== *)
theory Spec2Isabelle
  imports
    ResourceLimit HandleTable MemoryBlockManager PageHeapRefinement SynchronizationSystem LightLockProperties
    SynchronizationObjectSystem BufferQueueBehaviour CheatEngineBehaviour
begin

text \<open>
  A verification library for the emulator: definitions that follow its sources, one group for each
  component, and the theorems that make the components correct. All paths are relative to \<^verbatim>\<open>src/src/\<close>.

  \<^bold>\<open>The program.\<close> The emulator runs programs of a game console. Its kernel objects live in
  \<^verbatim>\<open>core/hle/kernel\<close>: resource limits bound what a process may use, handle tables name its objects,
  the memory block manager records the state and the permissions of its address space, the page
  heap hands out physical memory, and the scheduler chooses the threads that run on the four cores. The display
  service in \<^verbatim>\<open>core/hle/service/nvnflinger\<close> passes frames from the program to the compositor through
  buffer queues. The cheat engine in \<^verbatim>\<open>core/memory\<close> runs small programs against the memory of the
  process on a virtual machine. The components meet in few places: the tables of handles hold
  references of counted objects, the block manager owns a tree of blocks and an allocator of blocks,
  the page heap keeps a bitmap for each block size and a random generator, the threads tell the scheduler of every change
  of their state, priority or affinity and carry the links of its queues, a thread that waits for a lock lends its priority to the owner,
  which all locks of the kernel and of the processes share,
  the two sides of a buffer queue share one core, and the cheat machine reaches memory through
  callbacks.

  \<^bold>\<open>The theories.\<close>

  \<^item> \<^verbatim>\<open>Prelude\<close>: wrap-around of 64-bit integers (\<^verbatim>\<open>common/overflow.h\<close>), alignment
    (\<^verbatim>\<open>common/alignment.h\<close>), bit masks and list updates. \<^verbatim>\<open>Transition\<close>: runs of a labelled step
    relation and the locales of an invariant and of a simulation, interpreted by each system below.
  \<^item> \<^verbatim>\<open>ResourceLimit\<close> (\<^verbatim>\<open>k_resource_limit.cpp\<close>, the wait of \<^verbatim>\<open>k_light_condition_variable.cpp\<close>): values,
    limits, peaks and hints of each resource; any number of threads that reserve, wait, release and
    change limits, interleaved where \<^verbatim>\<open>Reserve\<close> sleeps. The limits are never exceeded, the values account for
    the reservations, the hints differ from them by what the releases passed as a smaller or larger hint, which decides
    whether the assertions that compare the two hold, a release wakes every waiter, and the decision of \<^verbatim>\<open>Reserve\<close> is given on every branch.
  \<^item> \<^verbatim>\<open>BitField\<close> (\<^verbatim>\<open>common/bit_field.h\<close>), \<^verbatim>\<open>AutoObject\<close> (\<^verbatim>\<open>k_auto_object.h\<close>) and \<^verbatim>\<open>HandleTable\<close>
    (\<^verbatim>\<open>k_handle_table.{h,cpp}\<close>): packed handles, the free list threaded through the entries and the linear
    ids. The table simulates a finite map from handles to objects, its references balance, handles are
    not reissued before the ids wrap, and lookups of several handles open all objects or none.
  \<^item> \<^verbatim>\<open>MemoryBlock\<close> (\<^verbatim>\<open>k_memory_block.h\<close>) and \<^verbatim>\<open>MemoryBlockManager\<close> (\<^verbatim>\<open>k_memory_block_manager.{h,cpp}\<close>,
    the tree of \<^verbatim>\<open>common/intrusive_red_black_tree.h\<close> as the sequence that its iterators visit): splitting
    and merging, locks for IPC and shares with devices, and the loops over a range of blocks. The
    specification is the list of the page descriptions of the address space; the updates refine its
    pointwise change, keep the tree coalesced and return, except that the update of the first block steps back before
    the tree when that block already has the properties; the search for a free area finds the least address that suits.
  \<^item> \<^verbatim>\<open>TinyMersenneTwister\<close> (\<^verbatim>\<open>common/tiny_mt.h\<close>): the generator never reaches its degenerate state, and the
    bytes it writes stay in the buffer, with one exception. \<^verbatim>\<open>PageBitmap\<close> (\<^verbatim>\<open>k_page_bitmap.h\<close>): the levels of the
    bitmap and the random choices; \<^verbatim>\<open>PageBitmapBehaviour\<close>: the bitmap is a set of offsets. \<^verbatim>\<open>PageHeap\<close>
    (\<^verbatim>\<open>k_page_heap.{h,cpp}\<close>): blocks of seven sizes, merged when freed and split when allocated;
    \<^verbatim>\<open>PageHeapBehaviour\<close> (freeing), \<^verbatim>\<open>PageHeapAllocation\<close> (allocation and initialization) and
    \<^verbatim>\<open>PageHeapRefinement\<close>: the heap is a set of addresses, every operation returns, and an allocation fails only when
    no aligned block of the size is free.
  \<^item> \<^verbatim>\<open>BitCount\<close> (\<^verbatim>\<open>common/bit_set.h\<close>), \<^verbatim>\<open>PriorityQueue\<close> (\<^verbatim>\<open>k_priority_queue.h\<close>, \<^verbatim>\<open>k_affinity_mask.h\<close>): for each core and priority a
    doubly linked queue of scheduled and one of suggested threads, linked through the threads. \<^verbatim>\<open>PriorityQueueBehaviour\<close>: the
    links represent lists, and every operation is an operation on these lists; \<^verbatim>\<open>ThreadPlacement\<close>: where a thread is listed.
    \<^verbatim>\<open>Scheduler\<close> (\<^verbatim>\<open>k_scheduler.{h,cpp}\<close>, \<^verbatim>\<open>global_scheduler_context.cpp\<close>): the choice of the highest priority threads with the
    migration to idle cores, rotation, preemption and the yields. \<^verbatim>\<open>SchedulerBehaviour\<close> and \<^verbatim>\<open>SchedulerUpdate\<close>: their effect on the
    queues and the choice of the update. \<^verbatim>\<open>Thread\<close> (\<^verbatim>\<open>k_thread.cpp\<close>, the pinning of \<^verbatim>\<open>k_process.cpp\<close>): states, suspension, pinning and
    affinity; \<^verbatim>\<open>ThreadBehaviour\<close>: they keep the queues. \<^verbatim>\<open>SchedulerSystem\<close>: any sequence of these operations keeps exactly the runnable
    threads in the queues, every loop along a queue returns, and an update gives each core a thread of its own.
  \<^item> \<^verbatim>\<open>PriorityInheritance\<close> (\<^verbatim>\<open>k_thread.{h,cpp}\<close>, \<^verbatim>\<open>k_thread_queue.cpp\<close>): the locks that a thread has, with their waiters in the order of
    priorities, the restoration of priorities along the threads that wait for each other, and the cancellation of waits. \<^verbatim>\<open>LockShape\<close>:
    the store of locks and the trees of waiting threads in order, and what the single changes do to them; \<^verbatim>\<open>PriorityInheritanceBehaviour\<close>:
    the restoration returns, and every operation leaves each thread with the least of its own priority and those of its waiters;
    \<^verbatim>\<open>WaitingBehaviour\<close>: the state, the wait queue, the lock and the tree of a waiting thread fit together.
  \<^item> \<^verbatim>\<open>Termination\<close> (\<^verbatim>\<open>k_thread.cpp\<close>): the request of the termination of a thread, which raises its priority and cancels its wait, and the
    expiry of its timer; \<^verbatim>\<open>TerminationBehaviour\<close>: they return and keep the waits in order.
  \<^item> \<^verbatim>\<open>UserSynchronization\<close> (\<^verbatim>\<open>k_condition_variable.{h,cpp}\<close>, \<^verbatim>\<open>k_address_arbiter.{h,cpp}\<close>): locks in the memory of a process,
    condition variables and address arbiters; \<^verbatim>\<open>UserSynchronizationBehaviour\<close>: what each of their operations does;
    \<^verbatim>\<open>SynchronizationSystem\<close>: any sequence of them, with cancellations, requests of termination and changes of priorities, keeps the waits in order, and
    the properties of signals and releases.
  \<^item> \<^verbatim>\<open>LightLock\<close> (\<^verbatim>\<open>k_light_lock.{h,cpp}\<close>): the lock of the kernel itself, whose word names the owner. \<^verbatim>\<open>LightLockBehaviour\<close>: the waiters
    of a lock of the kernel share one entry; \<^verbatim>\<open>LightLockSystem\<close>: the steps of \<^verbatim>\<open>Lock\<close> and \<^verbatim>\<open>Unlock\<close> of any threads, interleaved with
    operations of the kernel that leave these waiters alone (\<open>undisturbed\<close>); \<^verbatim>\<open>LightLockProperties\<close>: mutual exclusion, handing over to
    the waiter of best priority, and the request of termination that breaks the exclusion.
  \<^item> \<^verbatim>\<open>SynchronizationObject\<close> (\<^verbatim>\<open>k_synchronization_object.{h,cpp}\<close>, \<^verbatim>\<open>k_readable_event.cpp\<close>, \<^verbatim>\<open>k_event.{h,cpp}\<close>): waits for several objects at
    once, through nodes on the stack of the waiting thread in a linked list of each object, and events. \<^verbatim>\<open>SynchronizationObjectLists\<close>:
    the links represent lists, and linking and unlinking are operations on these lists; \<^verbatim>\<open>SynchronizationObjectBehaviour\<close>: the beginning
    and the end of a wait, and the notification, which walks along a list while its nodes leave it; \<^verbatim>\<open>SynchronizationObjectSystem\<close>: any
    sequence of waits, signals and cancellations, with the other operations on waits, leaves no node of a thread that does not wait in a
    list, and a signal wakes exactly the waiters.
  \<^item> \<^verbatim>\<open>BufferQueueCore\<close>, \<^verbatim>\<open>BufferQueueProducer\<close>, \<^verbatim>\<open>BufferQueueConsumer\<close>
    (\<^verbatim>\<open>buffer_queue_{core,producer,consumer}.cpp\<close>, \<^verbatim>\<open>consumer_base.cpp\<close>, \<^verbatim>\<open>buffer_item_consumer.cpp\<close>): the
    slots and the queue, and one function for each operation. \<^verbatim>\<open>BufferQueueSystem\<close> interleaves both sides, with
    \<^verbatim>\<open>DequeueBuffer\<close>, \<^verbatim>\<open>AttachBuffer\<close> and \<^verbatim>\<open>QueueBuffer\<close> cut where they leave the mutex, and proves the invariant;
    \<^verbatim>\<open>BufferQueueBehaviour\<close> has the ownership of slots, the order of frames, the wake-ups of the producer,
    abandonment and the mask of released buffers.
  \<^item> \<^verbatim>\<open>CheatVmDecode\<close>, \<^verbatim>\<open>CheatVm\<close> (\<^verbatim>\<open>dmnt_cheat_vm.{h,cpp}\<close>, \<^verbatim>\<open>dmnt_cheat_types.h\<close>): decoding and
    execution of every instruction. \<^verbatim>\<open>CheatVmBehaviour\<close>: every index of a decoded instruction is in bounds, skipping follows the nesting of blocks,
    programs without the end of a loop finish, and the two errors of an instruction.
  \<^item> \<^verbatim>\<open>CheatEngine\<close> (\<^verbatim>\<open>cheat_engine.{h,cpp}\<close>): the parser, the callbacks on the emulated process and the
    frame callback. \<^verbatim>\<open>CheatEngineBehaviour\<close>: the loaded program is the concatenation of the enabled cheats where
    it fits and empty where it does not, every state that a frame passes through, of an endless or a failing frame too, differs
    from the first only inside the regions of the process, and the parser reads back what a writer writes.

  \<^bold>\<open>Conventions.\<close> A class is a record and a method a function on it; the names are those of the code,
  prefixed with the class where two classes share one. A signed 64-bit counter is an integer with its
  wrap-around written out, an address of a memory block a natural number below \<^verbatim>\<open>2^64\<close> with
  \<^verbatim>\<open>u64_add\<close> and \<^verbatim>\<open>u64_sub\<close>, flags and registers are words. An assertion of the code is a predicate of its own
  (\<^verbatim>\<open>..._asserts\<close>), proved to hold where the theorem says so, or the guard of a step. A mutex makes an operation atomic; an
  operation that waits or leaves the mutex is cut there into several steps.

  \<^bold>\<open>Loops.\<close> Loops over lists and slots are recursive functions with termination proofs, among them the skipping of
  conditional blocks (each decoded instruction consumes a word) and the parser (each turn moves forward).
  The update of a range of blocks, the loops of the scheduler along a linked queue, the restoration of priorities along waiting threads, the
  loops of a signal along a tree of threads, the loops along the list of an object and the execution of a cheat program may run forever in
  general and are partial functions whose value is \<^const>\<open>None\<close> then: the theorems on updates, on the scheduler and on synchronization show that they return, and for
  cheat programs the theorem covers those without the end of a loop, while
  \<^verbatim>\<open>endless_program_never_returns\<close> shows a program that does not. There is no fuel. The witnesses use 64
  slots, 1024 program words and 16 registers, as the code has them.

  \<^bold>\<open>Pinned threads.\<close> An update selects for each core an active thread of the core or the thread that is pinned to it
  (\<^verbatim>\<open>pinned_on\<close>). Pinning makes the pinned thread active on its core, and where this holds for all (\<^verbatim>\<open>pins_ok\<close>) every selected thread is
  active on its core. But a pinned thread that yields to any thread gives up its active core, and the update after that yield selects it
  although no queue of the core holds it; the runs and the theorems cover these states too.

  \<^bold>\<open>Parameters.\<close> The seeds of the random generators, the clock of a resource limit, the tick and the current thread of the scheduler, the memory, controller and process behind the cheat engine,
  the allocation of graphic buffers and the listeners of a buffer queue are arguments; nothing is assumed of them except where a
  theorem names it.

  \<^bold>\<open>Not modelled.\<close> Logging, the binder transactions of the buffer queue and the reference counts of
  \<^verbatim>\<open>nvmap\<close>, the balancing of the red-black tree (its iteration order is what the code uses), the schedule
  of host threads, and the timing event of the cheat engine. The graphics, audio, shader, input and network
  parts drive devices and libraries of the host and are left out, as are file formats and the front ends.
  Of the scheduler, the switch of contexts (\<^verbatim>\<open>SwitchThread\<close>, \<^verbatim>\<open>ScheduleImpl\<close>) runs on fibers of the host; its lock is the atomicity of an
  operation. Of the threads, creation, exit and the waits of
  \<^verbatim>\<open>SetCoreMask\<close> and \<^verbatim>\<open>SetActivity\<close> for a running thread are left out. Of the waits, the timers and the counted references to the
  threads that a lookup finds; a timer that expires is a cancelled wait. The exclusive stores of the emulated memory
  are the attempt that succeeds, and the memory is the aligned 32-bit words that these operations use. A request of termination is
  modelled without the interrupts that it sends to the cores; in \<^verbatim>\<open>SynchronizationObjectSystem\<close> the termination of a thread that waits for objects
  appears as the cancellation of its wait. Of the synchronization objects, what \<^verbatim>\<open>IsSignaled\<close> returns is a flag of the object, which
  events set and clear; the other classes of objects, creation and destruction are left out. Left for later are the memory
  manager and its page groups, and core timing.
\<close>

end
